(* ===== verification/Prelude.thy ===== *)
theory Prelude
  imports Main "HOL-Library.Word" "HOL-Library.Signed_Division"
begin

text \<open>
  Shared vocabulary of the development: the machine types of the 32-bit MIPS target, the result
  type of code that may panic or leave an object, array access with C's bounds made explicit,
  the two loop shapes that the kernel's tables are scanned with, and the list and word lemmas
  that the component theories rely on.
\<close>

unbundle bit_operations_syntax

named_theorems kdefs \<open>definitions unfolded by proofs that follow the code path by path\<close>

declare Let_def [simp] pos_imp_zdiv_nonneg_iff [simp]

section \<open>Machine types\<close>

type_synonym byte = "8 word"
type_synonym u32 = "32 word"

text \<open>Signed 32-bit reading of an integer, as a C \<open>int\<close> on the target keeps it.\<close>

definition swrap :: "int \<Rightarrow> int" where
  "swrap x = signed_take_bit 31 x"

lemma swrap_id [simp]: "- (2 ^ 31) \<le> x \<Longrightarrow> x < 2 ^ 31 \<Longrightarrow> swrap x = x"
  by (simp add: swrap_def signed_take_bit_int_eq_self)

lemma swrap_range: "- (2 ^ 31) \<le> swrap x \<and> swrap x < 2 ^ 31"
  unfolding swrap_def
  using signed_take_bit_int_greater_eq_minus_exp [of 31 x] signed_take_bit_int_less_exp [of 31 x]
  by simp

text \<open>C's integer division truncates; for a non-negative dividend it is \<open>div\<close>.\<close>

lemma sdiv_nonneg [simp]: "0 \<le> a \<Longrightarrow> 0 < b \<Longrightarrow> (a :: int) sdiv b = a div b"
  by (simp add: signed_divide_int_def sgn_if)

lemma smod_nonneg [simp]: "0 \<le> a \<Longrightarrow> 0 < b \<Longrightarrow> (a :: int) smod b = a mod b"
  by (cases "a = 0") (simp_all add: signed_modulo_int_def sgn_if minus_div_mult_eq_mod)

section \<open>Results\<close>

text \<open>
  \<open>Panic\<close> is a call of \<open>KERNEL_PANIC\<close>, \<open>Assert\<close> a \<open>KERNEL_ASSERT\<close> that fails (both stop the
  machine), \<open>Fault\<close> an access outside the array it is meant for, and \<open>Hang\<close> a thread that waits
  for ever or a loop that does not end.
\<close>

datatype panic = Panic | Assert | Fault | Hang

type_synonym 'a kresult = "panic + 'a"

definition rbind :: "'a kresult \<Rightarrow> ('a \<Rightarrow> 'b kresult) \<Rightarrow> 'b kresult" where
  "rbind r f = (case r of Inl e \<Rightarrow> Inl e | Inr x \<Rightarrow> f x)"

definition kassert :: "bool \<Rightarrow> 'a kresult \<Rightarrow> 'a kresult" where
  "kassert b r = (if b then r else Inl Assert)"

lemma rbind_simps [simp]: "rbind (Inl e) f = Inl e" "rbind (Inr x) f = f x"
  by (simp_all add: rbind_def)

lemma rbind_eq_Inr: "rbind r f = Inr y \<longleftrightarrow> (\<exists>x. r = Inr x \<and> f x = Inr y)"
  by (cases r) auto

lemma rbind_eq_Inl: "rbind r f = Inl e \<longleftrightarrow> r = Inl e \<or> (\<exists>x. r = Inr x \<and> f x = Inl e)"
  by (cases r) auto

lemma rbind_InrE [elim!]:
  assumes "rbind r f = Inr y"
  obtains x where "r = Inr x" "f x = Inr y"
  using assms by (auto simp: rbind_eq_Inr)

lemma rbind_cong [fundef_cong, cong]:
  "r = r' \<Longrightarrow> (\<And>x. r' = Inr x \<Longrightarrow> f x = g x) \<Longrightarrow> rbind r f = rbind r' g"
  by (cases r') auto

lemma rbind_assoc: "rbind (rbind r f) g = rbind r (\<lambda>x. rbind (f x) g)"
  by (cases r) auto

lemma kassert_simps [simp]: "kassert True r = r" "kassert False r = Inl Assert"
  by (simp_all add: kassert_def)

lemma kassert_eq_Inr: "kassert b r = Inr x \<longleftrightarrow> b \<and> r = Inr x"
  by (simp add: kassert_def)

lemma kassert_InrE [elim!]:
  assumes "kassert b r = Inr x"
  obtains "b" "r = Inr x"
  using assms by (auto simp: kassert_eq_Inr)

lemma kassert_cong [fundef_cong]:
  "b = b' \<Longrightarrow> (b' \<Longrightarrow> r = r') \<Longrightarrow> kassert b r = kassert b' r'"
  by (simp add: kassert_def)

section \<open>Arrays\<close>

text \<open>Reading and writing \<open>xs[i]\<close>; outside the array the access is a \<open>Fault\<close>.\<close>

definition rd :: "'a list \<Rightarrow> int \<Rightarrow> 'a kresult" where
  "rd xs i = (if 0 \<le> i \<and> i < int (length xs) then Inr (xs ! nat i) else Inl Fault)"

definition wr :: "'a list \<Rightarrow> int \<Rightarrow> 'a \<Rightarrow> 'a list kresult" where
  "wr xs i v = (if 0 \<le> i \<and> i < int (length xs) then Inr (xs[nat i := v]) else Inl Fault)"

lemma rd_in [simp]: "0 \<le> i \<Longrightarrow> i < int (length xs) \<Longrightarrow> rd xs i = Inr (xs ! nat i)"
  by (simp add: rd_def)

lemma wr_in [simp]: "0 \<le> i \<Longrightarrow> i < int (length xs) \<Longrightarrow> wr xs i v = Inr (xs[nat i := v])"
  by (simp add: wr_def)

lemma rd_eq_Inr: "rd xs i = Inr x \<longleftrightarrow> 0 \<le> i \<and> i < int (length xs) \<and> x = xs ! nat i"
  by (auto simp: rd_def)

lemma wr_eq_Inr: "wr xs i v = Inr ys \<longleftrightarrow> 0 \<le> i \<and> i < int (length xs) \<and> ys = xs[nat i := v]"
  by (auto simp: wr_def)

lemma rd_out: "\<not> (0 \<le> i \<and> i < int (length xs)) \<Longrightarrow> rd xs i = Inl Fault"
  by (auto simp: rd_def)

lemma nth_update_mem: "k < length xs \<Longrightarrow> k \<noteq> i \<Longrightarrow> xs ! k \<in> set (xs[i := y])"
  by (metis length_list_update nth_list_update_neq nth_mem)

section \<open>Loops over a table\<close>

text \<open>
  \<open>scan P xs i n\<close> is \<open>for (; i < n; i++) if (P(xs[i])) break;\<close>: the index the loop stops at, or
  \<open>None\<close> when it runs to its bound.
\<close>

function scan :: "('a \<Rightarrow> bool) \<Rightarrow> 'a list \<Rightarrow> int \<Rightarrow> int \<Rightarrow> int option kresult" where
  "scan P xs i n =
     (if i < n then rbind (rd xs i) (\<lambda>x. if P x then Inr (Some i) else scan P xs (i + 1) n)
      else Inr None)"
  by pat_completeness auto
termination
  by (relation "measure (\<lambda>(P, xs, i, n). nat (n - i))") auto

declare scan.simps [simp del]

text \<open>
  Inside the array the loop is total, and it stops at the first index that satisfies the
  condition.
\<close>

definition first_from :: "(int \<Rightarrow> bool) \<Rightarrow> int \<Rightarrow> int \<Rightarrow> int option \<Rightarrow> bool" where
  "first_from P i n r \<longleftrightarrow>
     (case r of None \<Rightarrow> (\<forall>k. i \<le> k \<and> k < n \<longrightarrow> \<not> P k)
      | Some k \<Rightarrow> i \<le> k \<and> k < n \<and> P k \<and> (\<forall>m. i \<le> m \<and> m < k \<longrightarrow> \<not> P m))"

lemma first_from_step:
  "i < n \<Longrightarrow> \<not> P i \<Longrightarrow> first_from P (i + 1) n r \<Longrightarrow> first_from P i n r"
  unfolding first_from_def
  by (auto split: option.splits) (metis order_le_less zless_imp_add1_zle)+

lemma scan_total:
  assumes "0 \<le> i" "n \<le> int (length xs)"
  shows "\<exists>r. scan P xs i n = Inr r \<and> first_from (\<lambda>k. P (xs ! nat k)) i n r"
  using assms
proof (induction P xs i n rule: scan.induct)
  case (1 P xs i n)
  show ?case
  proof (cases "i < n \<and> \<not> P (xs ! nat i)")
    case True
    with "1" obtain r where "scan P xs (i + 1) n = Inr r"
      "first_from (\<lambda>k. P (xs ! nat k)) (i + 1) n r" by auto
    with True "1.prems" show ?thesis
      by (auto simp: scan.simps [of P xs i n] intro: first_from_step)
  next
    case False
    with "1.prems" show ?thesis
      by (auto simp: scan.simps [of P xs i n] first_from_def)
  qed
qed

text \<open>The same loop when the condition is itself a call that may fail.\<close>

function scanM :: "('a \<Rightarrow> bool kresult) \<Rightarrow> 'a list \<Rightarrow> int \<Rightarrow> int \<Rightarrow> int option kresult" where
  "scanM f xs i n =
     (if i < n then
        rbind (rd xs i) (\<lambda>x. rbind (f x) (\<lambda>b. if b then Inr (Some i) else scanM f xs (i + 1) n))
      else Inr None)"
  by pat_completeness auto
termination
  by (relation "measure (\<lambda>(f, xs, i, n). nat (n - i))") auto

declare scanM.simps [simp del]

lemma scanM_eq:
  assumes "\<And>x. x \<in> set xs \<Longrightarrow> f x = Inr (P x)"
  shows "scanM f xs i n = scan P xs i n"
  using assms
proof (induction f xs i n rule: scanM.induct)
  case (1 f xs i n)
  show ?case
  proof (cases "i < n \<and> (\<exists>x. rd xs i = Inr x \<and> \<not> P x)")
    case True
    then obtain x where x: "i < n" "rd xs i = Inr x" "\<not> P x" by auto
    then have "f x = Inr (P x)" using "1.prems" by (auto simp: rd_eq_Inr nat_less_iff)
    with x "1.IH" [OF x(1,2)] "1.prems" show ?thesis by (simp add: scanM.simps [of f] scan.simps [of P])
  next
    case False
    show ?thesis
    proof (cases "rd xs i")
      case (Inr x)
      then have "f x = Inr (P x)" using "1.prems" by (auto simp: rd_eq_Inr nat_less_iff)
      with False Inr show ?thesis by (simp add: scanM.simps [of f] scan.simps [of P])
    qed (simp add: scanM.simps [of f] scan.simps [of P])
  qed
qed

lemma first_from_find:
  assumes "first_from (\<lambda>k. P (xs ! nat k)) 0 (int (length xs)) r"
  shows "find P xs = map_option (\<lambda>k. xs ! nat k) r"
proof (cases r)
  case None
  then have n: "\<And>k. 0 \<le> k \<and> k < int (length xs) \<Longrightarrow> \<not> P (xs ! nat k)" using assms by (simp add: first_from_def)
  have "\<not> P (xs ! i)" if "i < length xs" for i using n [of "int i"] that by simp
  then have "find P xs = None" by (auto simp: find_None_iff in_set_conv_nth)
  with None show ?thesis by simp
next
  case (Some k)
  then have k: "0 \<le> k" "k < int (length xs)" "P (xs ! nat k)" "\<And>m. 0 \<le> m \<Longrightarrow> m < k \<Longrightarrow> \<not> P (xs ! nat m)"
    using assms by (auto simp: first_from_def)
  have "\<not> P (xs ! j)" if "j < nat k" for j using k(4) [of "int j"] that by simp
  moreover have "nat k < length xs" using k(1,2) by linarith
  ultimately have "find P xs = Some (xs ! nat k)" using k(3) unfolding find_Some_iff by blast
  with Some show ?thesis by simp
qed

section \<open>Tables with a key\<close>

lemma find_key_update:
  "distinct (map f xs) \<Longrightarrow> i < length xs \<Longrightarrow> f x = f (xs ! i) \<Longrightarrow>
     find (\<lambda>y. f y = k) (xs[i := x]) = (if k = f x then Some x else find (\<lambda>y. f y = k) xs)"
proof (induction xs arbitrary: i)
  case (Cons y ys)
  then show ?case by (cases i) (auto simp: image_iff)
qed simp

lemma find_key_append:
  "f x \<notin> f ` set xs \<Longrightarrow>
     find (\<lambda>y. f y = k) (xs @ [x]) = (if k = f x then Some x else find (\<lambda>y. f y = k) xs)"
  by (induction xs) auto

lemma map_key_update: "i < length xs \<Longrightarrow> f x = f (xs ! i) \<Longrightarrow> map f (xs[i := x]) = map f xs"
  by (simp add: map_update list_update_same_conv)

lemma find_key_nth:
  "distinct (map f xs) \<Longrightarrow> i < length xs \<Longrightarrow> find (\<lambda>y. f y = f (xs ! i)) xs = Some (xs ! i)"
  using find_key_update [of f xs i "xs ! i" "f (xs ! i)"] by simp

section \<open>Words\<close>

lemma and_not_mask: "x AND NOT (mask n) = x - take_bit n x" for x :: u32
proof -
  have "(x AND NOT (mask n)) + take_bit n x = (x AND NOT (mask n)) OR take_bit n x"
    by (rule disjunctive_add_eq_or) (auto simp: bit_eq_iff bit_simps)
  also have "\<dots> = x" by (auto simp: bit_eq_iff bit_simps)
  finally show ?thesis by (simp add: eq_diff_eq)
qed

lemma uint_take_bit: "uint (take_bit n x) = uint x mod 2 ^ n" for x :: u32
  by (simp add: unsigned_take_bit_eq flip: take_bit_eq_mod)

lemma uint_and_not_mask: "uint (x AND NOT (mask n)) = uint x - uint x mod 2 ^ n" for x :: u32
proof -
  have "take_bit n x \<le> x"
    by (simp add: word_le_def uint_take_bit zmod_le_nonneg_dividend)
  then show ?thesis
    by (simp add: and_not_mask uint_minus_simple_alt uint_take_bit)
qed

lemma less_unat: "k < unat (x :: u32) \<longleftrightarrow> int k < uint x"
  by (simp only: of_nat_less_iff uint_nat)

lemma uint_le: "uint (x :: u32) \<le> int n \<longleftrightarrow> unat x \<le> n"
  by (simp only: of_nat_le_iff uint_nat)

lemma uint_lt: "uint (x :: u32) < 2 ^ 32"
  using uint_bounded [of x] by simp

lemma uint_add_lt: "uint x + uint y < 2 ^ 32 \<Longrightarrow> uint (x + y) = uint x + uint y" for x y :: u32
  by (simp add: uint_word_ariths)

lemma uint_of_int: "0 \<le> n \<Longrightarrow> n < 2 ^ 32 \<Longrightarrow> uint (word_of_int n :: u32) = n"
  by (simp add: uint_word_of_int)

lemma sint_small: "uint (x :: u32) < 2 ^ 31 \<Longrightarrow> sint x = uint x"
proof -
  assume "uint x < 2 ^ 31"
  moreover have "- (2 ^ 31) \<le> uint x" by (rule order_trans [of _ 0]) simp_all
  ultimately show ?thesis
    unfolding sint_uint by (intro signed_take_bit_int_eq_self) auto
qed

section \<open>Addresses of table entries\<close>

text \<open>The address of entry \<open>i\<close> of a table at \<open>base\<close> whose entries take \<open>sz\<close> bytes.\<close>

definition slot_addr :: "int \<Rightarrow> u32 \<Rightarrow> int \<Rightarrow> u32" where
  "slot_addr sz base i = base + word_of_int (sz * i)"

text \<open>A table of \<open>n\<close> such entries lies inside the address space and not at address 0.\<close>

definition table_at :: "int \<Rightarrow> int \<Rightarrow> u32 \<Rightarrow> bool" where
  "table_at sz n base \<longleftrightarrow> 0 < sz \<and> 0 < uint base \<and> uint base + sz * n \<le> 2 ^ 32"

lemma uint_slot_addr:
  assumes "table_at sz n base" "0 \<le> i" "i < n"
  shows "uint (slot_addr sz base i) = uint base + sz * i"
proof -
  have b: "0 \<le> sz * i" "sz * i < sz * n" using assms by (auto simp: table_at_def)
  then have l: "uint base + sz * i < 2 ^ 32" using assms(1) unfolding table_at_def by linarith
  have nb: "0 \<le> uint base" by simp
  have "uint (word_of_int (sz * i) :: u32) = sz * i" by (rule uint_of_int) (use b l nb in linarith)+
  then show ?thesis unfolding slot_addr_def using l uint_add_lt [of base "word_of_int (sz * i)"] by metis
qed

lemma slot_addr_nonzero: "table_at sz n base \<Longrightarrow> 0 \<le> i \<Longrightarrow> i < n \<Longrightarrow> slot_addr sz base i \<noteq> 0"
  using uint_slot_addr [of sz n base i] by (auto simp: table_at_def) (smt (verit) mult_nonneg_nonneg)

lemma slot_addr_eq_iff:
  assumes "table_at sz n base" "0 \<le> i" "i < n" "0 \<le> j" "j < n"
  shows "slot_addr sz base i = slot_addr sz base j \<longleftrightarrow> i = j"
proof
  assume "slot_addr sz base i = slot_addr sz base j"
  then have "sz * i = sz * j" using uint_slot_addr [OF assms(1-3)] uint_slot_addr [OF assms(1,4,5)] by (metis add_left_cancel)
  then show "i = j" using assms(1) by (simp add: table_at_def)
qed simp

end
