(* ===== verification/Bitmap.thy ===== *)
theory Bitmap
  imports Prelude
begin

text \<open>
  The bitmap operations of \<open>lib/bitmap.c\<close> on arrays of 32-bit words, the reading of a bitmap as a
  set of positions, and the contract that the page pool and the file systems rely on when they
  use a bitmap as an allocator (locale \<open>bit_allocator\<close>, interpreted here on the code's model).
\<close>

section \<open>Operations\<close>

type_synonym bitmap_t = "u32 list"

definition bitmap_sizeof :: "int \<Rightarrow> int" where
  "bitmap_sizeof num_bits = (swrap (num_bits + 31) sdiv 32) * 4"

function bitmap_init_loop :: "bitmap_t \<Rightarrow> int \<Rightarrow> int \<Rightarrow> bitmap_t kresult" where
  "bitmap_init_loop bitmap i n =
     (if i < n then rbind (wr bitmap i 0) (\<lambda>b. bitmap_init_loop b (i + 1) n) else Inr bitmap)"
  by pat_completeness auto
termination
  by (relation "measure (\<lambda>(b, i, n). nat (n - i))") auto

definition bitmap_init :: "bitmap_t \<Rightarrow> int \<Rightarrow> bitmap_t kresult" where
  "bitmap_init bitmap num_bits =
     kassert (num_bits \<ge> 0) (bitmap_init_loop bitmap 0 (swrap (num_bits + 31) sdiv 32))"

definition bitmap_get :: "bitmap_t \<Rightarrow> int \<Rightarrow> int kresult" where
  "bitmap_get bitmap pos = kassert (pos \<ge> 0)
     (let i = pos sdiv 32; j = pos smod 32
      in rbind (rd bitmap i) (\<lambda>w. Inr (uint (drop_bit (nat j) w AND 1))))"

definition bitmap_set :: "bitmap_t \<Rightarrow> int \<Rightarrow> int \<Rightarrow> bitmap_t kresult" where
  "bitmap_set bitmap pos value = kassert (pos \<ge> 0)
     (let i = pos sdiv 32; j = pos smod 32
      in if value = 0 then rbind (rd bitmap i) (\<lambda>w. wr bitmap i (w AND NOT (push_bit (nat j) 1)))
         else if value = 1 then rbind (rd bitmap i) (\<lambda>w. wr bitmap i (w OR push_bit (nat j) 1))
         else Inl Panic)"

text \<open>
  The two nested loops of \<open>bitmap_findnset\<close>. The inner one returns \<open>Some\<close> where the code
  returns from the function, and \<open>None\<close> where it falls out of the loop.
\<close>

function findnset_bits ::
  "bitmap_t \<Rightarrow> int \<Rightarrow> int \<Rightarrow> int \<Rightarrow> (int \<times> bitmap_t) option kresult" where
  "findnset_bits bitmap l basepos j =
     (if j < 32 then
        rbind (bitmap_get bitmap (basepos + j)) (\<lambda>b.
          if b = 0 then
            if basepos + j \<ge> l then Inr (Some (-1, bitmap))
            else rbind (bitmap_set bitmap (basepos + j) 1) (\<lambda>bitmap'.
              Inr (Some (basepos + j, bitmap')))
          else findnset_bits bitmap l basepos (j + 1))
      else Inr None)"
  by pat_completeness auto
termination
  by (relation "measure (\<lambda>(b, l, p, j). nat (32 - j))") auto

function findnset_words :: "bitmap_t \<Rightarrow> int \<Rightarrow> int \<Rightarrow> int \<Rightarrow> (int \<times> bitmap_t) kresult" where
  "findnset_words bitmap l i n =
     (if i < n then
        rbind (rd bitmap i) (\<lambda>w.
          if w \<noteq> 0xffffffff then
            rbind (findnset_bits bitmap l (i * 32) 0) (\<lambda>r.
              case r of Some x \<Rightarrow> Inr x | None \<Rightarrow> findnset_words bitmap l (i + 1) n)
          else findnset_words bitmap l (i + 1) n)
      else Inr (-1, bitmap))"
  by pat_completeness auto
termination
  by (relation "measure (\<lambda>(b, l, i, n). nat (n - i))") auto

definition bitmap_findnset :: "bitmap_t \<Rightarrow> int \<Rightarrow> (int \<times> bitmap_t) kresult" where
  "bitmap_findnset bitmap l =
     kassert (l \<ge> 0) (findnset_words bitmap l 0 (bitmap_sizeof l sdiv 4))"

declare bitmap_init_loop.simps [simp del] findnset_bits.simps [simp del]
  findnset_words.simps [simp del]

section \<open>A bitmap as a set of positions\<close>

definition bm_bit :: "bitmap_t \<Rightarrow> int \<Rightarrow> bool" where
  "bm_bit bm k = bit (bm ! nat (k div 32)) (nat (k mod 32))"

definition bm_fits :: "bitmap_t \<Rightarrow> int \<Rightarrow> bool" where
  "bm_fits bm l \<longleftrightarrow> 0 \<le> l \<and> l < 2 ^ 31 - 31 \<and> l \<le> 32 * int (length bm)"

lemma word_index [simp]:
  "0 \<le> k \<Longrightarrow> k < 32 * int n \<Longrightarrow> 0 \<le> k div 32" "0 \<le> k \<Longrightarrow> k < 32 * int n \<Longrightarrow> k div 32 < int n"
  by auto

lemma bitmap_get_eq:
  assumes "0 \<le> k" "k < 32 * int (length bm)"
  shows "bitmap_get bm k = Inr (if bm_bit bm k then 1 else 0)"
  using assms
  by (simp add: bitmap_get_def bm_bit_def kassert_def and_one_eq odd_iff_mod_2_eq_one
      bit_iff_odd_drop_bit)

text \<open>\<open>bm_upd bm k v bm'\<close>: \<open>bm'\<close> is \<open>bm\<close> with position \<open>k\<close> set to \<open>v\<close> and nothing else changed.\<close>

definition bm_upd :: "bitmap_t \<Rightarrow> int \<Rightarrow> bool \<Rightarrow> bitmap_t \<Rightarrow> bool" where
  "bm_upd bm k v bm' \<longleftrightarrow> length bm' = length bm \<and>
     (\<forall>m. 0 \<le> m \<and> m < 32 * int (length bm) \<longrightarrow> bm_bit bm' m = (if m = k then v else bm_bit bm m))"

lemma bm_upd_length: "bm_upd bm k v bm' \<Longrightarrow> length bm' = length bm"
  by (simp add: bm_upd_def)

lemma bm_upd_word:
  assumes k: "0 \<le> k" "k < 32 * int (length bm)"
    and w: "\<And>n. n < 32 \<Longrightarrow>
      bit w n = (if n = nat (k mod 32) then v else bit (bm ! nat (k div 32)) n)"
  shows "bm_upd bm k v (bm[nat (k div 32) := w])"
proof -
  have "bm_bit (bm[nat (k div 32) := w]) m = (if m = k then v else bm_bit bm m)"
    if m: "0 \<le> m" "m < 32 * int (length bm)" for m
  proof (cases "m div 32 = k div 32")
    case True
    then have "nat (m mod 32) = nat (k mod 32) \<longleftrightarrow> m = k"
      by (metis eq_nat_nat_iff mult_div_mod_eq pos_mod_sign zero_less_numeral)
    with True k show ?thesis by (simp add: bm_bit_def w)
  next
    case False
    then have "nat (m div 32) \<noteq> nat (k div 32)"
      using m k by (simp add: nat_eq_iff pos_imp_zdiv_nonneg_iff)
    with False show ?thesis by (auto simp: bm_bit_def)
  qed
  then show ?thesis by (simp add: bm_upd_def)
qed

lemma bitmap_set_eq:
  assumes k: "0 \<le> k" "k < 32 * int (length bm)" and v: "v = 0 \<or> v = 1"
  shows "\<exists>bm'. bitmap_set bm k v = Inr bm' \<and> bm_upd bm k (v = 1) bm'"
proof -
  let ?w = "bm ! nat (k div 32)" and ?j = "nat (k mod 32)"
  define w' where "w' = (if v = 1 then ?w OR push_bit ?j 1 else ?w AND NOT (push_bit ?j 1))"
  have "bitmap_set bm k v = Inr (bm[nat (k div 32) := w'])"
    using assms by (auto simp: bitmap_set_def w'_def Let_def)
  moreover have "bit w' n = (if n = ?j then v = 1 else bit ?w n)" if "n < 32" for n
    using that v by (auto simp: w'_def bit_simps)
  ultimately show ?thesis using bm_upd_word [OF k] by blast
qed

section \<open>Finding a free position\<close>

text \<open>The outcome of the search from position \<open>i\<close> on: the first clear bit, if it lies below \<open>l\<close>.\<close>

definition found :: "bitmap_t \<Rightarrow> int \<Rightarrow> int \<Rightarrow> int \<times> bitmap_t \<Rightarrow> bool" where
  "found bm l i r \<longleftrightarrow>
     (r = (-1, bm) \<and> (\<forall>m. i \<le> m \<and> m < l \<longrightarrow> bm_bit bm m)) \<or>
     (i \<le> fst r \<and> fst r < l \<and> \<not> bm_bit bm (fst r) \<and> (\<forall>m. i \<le> m \<and> m < fst r \<longrightarrow> bm_bit bm m) \<and>
      bm_upd bm (fst r) True (snd r))"

lemma found_skip:
  "found bm l i' r \<Longrightarrow> i \<le> i' \<Longrightarrow> (\<And>m. i \<le> m \<Longrightarrow> m < i' \<Longrightarrow> bm_bit bm m) \<Longrightarrow> found bm l i r"
  unfolding found_def by (elim disjE) (force simp: not_less)+

lemma findnset_bits_found:
  assumes "0 \<le> base" "base + 32 \<le> 32 * int (length bm)" "0 \<le> j" "j \<le> 32"
  shows "\<exists>r. findnset_bits bm l base j = Inr r \<and>
     (case r of None \<Rightarrow> \<forall>m. base + j \<le> m \<and> m < base + 32 \<longrightarrow> bm_bit bm m
      | Some x \<Rightarrow> found bm l (base + j) x)"
  using assms
proof (induction bm l base j rule: findnset_bits.induct)
  case (1 bm l base j)
  consider "j = 32" | "j < 32" "\<not> bm_bit bm (base + j)" | "j < 32" "bm_bit bm (base + j)"
    using "1.prems" by linarith
  then show ?case
  proof cases
    case 1
    then have "findnset_bits bm l base j = Inr None" by (subst findnset_bits.simps) simp
    with 1 show ?thesis by auto
  next
    case 2
    with "1.prems" bitmap_set_eq [of "base + j" bm 1] show ?thesis
      by (auto simp: findnset_bits.simps [of bm l base j] bitmap_get_eq found_def)
  next
    case 3
    with "1.prems" have get: "bitmap_get bm (base + j) = Inr 1"
      by (simp add: bitmap_get_eq)
    with "1.IH" [of 1] "1.prems" 3 obtain r where
      r: "findnset_bits bm l base (j + 1) = Inr r"
        "case r of None \<Rightarrow> \<forall>m. base + (j + 1) \<le> m \<and> m < base + 32 \<longrightarrow> bm_bit bm m
          | Some x \<Rightarrow> found bm l (base + (j + 1)) x" by auto
    have step: "bm_bit bm m" if "base + j \<le> m" "m < base + (j + 1)" for m
      using that 3 by (metis add.assoc order_antisym zle_add1_eq_le)
    have eq: "findnset_bits bm l base j = Inr r"
      using get 3 r(1) by (simp add: findnset_bits.simps [of bm l base j])
    show ?thesis
    proof (cases r)
      case None
      with r(2) have "\<forall>m. base + (j + 1) \<le> m \<and> m < base + 32 \<longrightarrow> bm_bit bm m" by simp
      with step have "\<forall>m. base + j \<le> m \<and> m < base + 32 \<longrightarrow> bm_bit bm m"
        by (metis linorder_not_less)
      with None eq show ?thesis by simp
    next
      case (Some x)
      with r(2) have "found bm l (base + (j + 1)) x" by simp
      then have "found bm l (base + j) x"
        by (rule found_skip) (use step in auto)
      with Some eq show ?thesis by simp
    qed
  qed
qed

lemma full_word:
  assumes "bm ! nat (k div 32) = 0xffffffff"
  shows "bm_bit bm k"
proof -
  have "(0xffffffff :: u32) = mask 32" by (simp add: mask_eq_exp_minus_1)
  then have "bm_bit bm k = bit (mask 32 :: u32) (nat (k mod 32))"
    using assms by (simp add: bm_bit_def)
  also have "\<dots>" by (simp only: bit_mask_iff) simp
  finally show ?thesis by simp
qed

lemma findnset_words_found:
  assumes "0 \<le> i" "i \<le> n" "32 * n \<le> 32 * int (length bm)"
  shows "\<exists>r. findnset_words bm l i n = Inr r \<and> (l \<le> 32 * n \<longrightarrow> found bm l (32 * i) r)"
  using assms
proof (induction bm l i n rule: findnset_words.induct)
  case (1 bm l i n)
  let ?full = "\<forall>m. 32 * i \<le> m \<and> m < 32 * (i + 1) \<longrightarrow> bm_bit bm m"
  have step: "\<exists>r. findnset_words bm l (i + 1) n = Inr r \<and> (l \<le> 32 * n \<longrightarrow> found bm l (32 * i) r)"
    if "i < n" ?full "\<exists>r. findnset_words bm l (i + 1) n = Inr r \<and>
      (l \<le> 32 * n \<longrightarrow> found bm l (32 * (i + 1)) r)"
    using that found_skip [of bm l "32 * (i + 1)" _ "32 * i"] by fastforce
  consider "i = n" | "i < n" "bm ! nat i = 0xffffffff" | "i < n" "bm ! nat i \<noteq> 0xffffffff"
    using "1.prems" by linarith
  then show ?case
  proof cases
    case 1
    then have "findnset_words bm l i n = Inr (-1, bm)" by (subst findnset_words.simps) simp
    with 1 show ?thesis by (auto simp: found_def)
  next
    case 2
    have "bm_bit bm m" if "32 * i \<le> m \<and> m < 32 * (i + 1)" for m
    proof -
      from that have "m div 32 = i" by auto
      with 2 show ?thesis by (intro full_word) simp
    qed
    moreover have "findnset_words bm l i n = findnset_words bm l (i + 1) n"
      using 2 "1.prems" by (subst findnset_words.simps) simp
    ultimately show ?thesis using 2 "1.prems" "1.IH"(2) [of "bm ! nat i"] step by simp
  next
    case 3
    obtain r where r: "findnset_bits bm l (i * 32) 0 = Inr r"
      "case r of None \<Rightarrow> ?full | Some x \<Rightarrow> found bm l (32 * i) x"
      using findnset_bits_found [of "i * 32" bm 0 l] 3 "1.prems"
      by (auto simp: mult.commute [of i] distrib_left split: option.splits)
    show ?thesis
    proof (cases r)
      case None
      moreover have "findnset_words bm l i n = findnset_words bm l (i + 1) n"
        using 3 "1.prems" r None by (subst findnset_words.simps) simp
      ultimately show ?thesis
        using 3 r "1.prems" "1.IH"(1) [of "bm ! nat i" None] step by simp
    next
      case (Some x)
      moreover have "findnset_words bm l i n = Inr x"
        using 3 "1.prems" r Some by (subst findnset_words.simps) simp
      ultimately show ?thesis using r by simp
    qed
  qed
qed

lemma bitmap_findnset_found:
  assumes "bm_fits bm l"
  shows "\<exists>r. bitmap_findnset bm l = Inr r \<and> found bm l 0 r"
proof -
  let ?n = "(l + 31) div 32"
  have n: "0 \<le> ?n" "32 * ?n \<le> 32 * int (length bm)" "l \<le> 32 * ?n"
    using assms by (auto simp: bm_fits_def)
  moreover have "bitmap_sizeof l sdiv 4 = ?n"
    using assms n(1) by (simp add: bitmap_sizeof_def bm_fits_def)
  ultimately show ?thesis
    using assms findnset_words_found [of 0 ?n bm l] by (auto simp: bitmap_findnset_def bm_fits_def)
qed

lemma bitmap_init_loop_eq:
  assumes "0 \<le> i" "n \<le> int (length bm)"
  shows "\<exists>bm'. bitmap_init_loop bm i n = Inr bm' \<and> length bm' = length bm \<and>
     (\<forall>k < length bm. bm' ! k = (if i \<le> int k \<and> int k < n then 0 else bm ! k))"
  using assms
proof (induction bm i n rule: bitmap_init_loop.induct)
  case (1 bm i n)
  show ?case
  proof (cases "i < n")
    case True
    with "1" obtain bm' where "bitmap_init_loop (bm[nat i := 0]) (i + 1) n = Inr bm'"
      "length bm' = length bm"
      "\<forall>k < length bm. bm' ! k = (if i + 1 \<le> int k \<and> int k < n then 0 else bm[nat i := 0] ! k)"
      by fastforce
    with True "1.prems" show ?thesis
      by (subst bitmap_init_loop.simps) (auto simp: nth_list_update)
  next
    case False
    then show ?thesis by (subst bitmap_init_loop.simps) auto
  qed
qed

section \<open>The contract of a bitmap used as an allocator\<close>

text \<open>
  What \<open>vm/pagepool.c\<close> and the block allocation of the file systems rely on: searching marks the
  position it returns and nothing else, it fails only when every position is taken, marking and
  clearing touch one position, and every operation keeps the bitmap large enough.
\<close>

locale bit_allocator =
  fixes used :: "'b \<Rightarrow> int \<Rightarrow> bool"
    and fits :: "'b \<Rightarrow> int \<Rightarrow> bool"
    and alloc :: "'b \<Rightarrow> int \<Rightarrow> (int \<times> 'b) kresult"
    and mark :: "'b \<Rightarrow> int \<Rightarrow> int \<Rightarrow> 'b kresult"
    and probe :: "'b \<Rightarrow> int \<Rightarrow> int kresult"
  assumes alloc_none: "fits b n \<Longrightarrow> (\<And>k. 0 \<le> k \<Longrightarrow> k < n \<Longrightarrow> used b k) \<Longrightarrow> alloc b n = Inr (-1, b)"
    and alloc_some: "fits b n \<Longrightarrow> 0 \<le> k \<Longrightarrow> k < n \<Longrightarrow> \<not> used b k \<Longrightarrow>
      \<exists>r b'. alloc b n = Inr (r, b') \<and> fits b' n \<and> 0 \<le> r \<and> r < n \<and> \<not> used b r \<and>
        (\<forall>m. 0 \<le> m \<and> m < r \<longrightarrow> used b m) \<and>
        (\<forall>m. 0 \<le> m \<and> m < n \<longrightarrow> used b' m = (m = r \<or> used b m))"
    and mark_law: "fits b n \<Longrightarrow> 0 \<le> k \<Longrightarrow> k < n \<Longrightarrow> v = 0 \<or> v = 1 \<Longrightarrow>
      \<exists>b'. mark b k v = Inr b' \<and> fits b' n \<and>
        (\<forall>m. 0 \<le> m \<and> m < n \<longrightarrow> used b' m = (if m = k then v = 1 else used b m))"
    and probe_law: "fits b n \<Longrightarrow> 0 \<le> k \<Longrightarrow> k < n \<Longrightarrow> probe b k = Inr (if used b k then 1 else 0)"
begin

definition taken :: "'b \<Rightarrow> int \<Rightarrow> int set" where
  "taken b n = {k. 0 \<le> k \<and> k < n \<and> used b k}"

lemma taken_finite [simp]: "finite (taken b n)"
  by (rule finite_subset [of _ "{0..<n}"]) (auto simp: taken_def)

lemma taken_bound: "0 \<le> n \<Longrightarrow> int (card (taken b n)) \<le> n"
proof -
  assume "0 \<le> n"
  have "card (taken b n) \<le> card {0..<n}"
    by (rule card_mono) (auto simp: taken_def)
  with \<open>0 \<le> n\<close> show ?thesis by simp
qed

lemma taken_full: "0 \<le> n \<Longrightarrow> int (card (taken b n)) = n \<longleftrightarrow> (\<forall>k. 0 \<le> k \<and> k < n \<longrightarrow> used b k)"
proof
  assume n: "0 \<le> n" and "int (card (taken b n)) = n"
  then have "card (taken b n) = card {0..<n}" by simp
  then have "taken b n = {0..<n}"
    by (intro card_subset_eq) (auto simp: taken_def)
  then show "\<forall>k. 0 \<le> k \<and> k < n \<longrightarrow> used b k" by (auto simp: taken_def set_eq_iff)
next
  assume "0 \<le> n" and "\<forall>k. 0 \<le> k \<and> k < n \<longrightarrow> used b k"
  then have "taken b n = {0..<n}" by (auto simp: taken_def)
  with \<open>0 \<le> n\<close> show "int (card (taken b n)) = n" by simp
qed

text \<open>An allocation succeeds exactly when a position is left, and takes one position.\<close>

lemma alloc_taken:
  assumes "fits b n" "0 \<le> n"
  shows "\<exists>r b'. alloc b n = Inr (r, b') \<and> fits b' n \<and>
    (if int (card (taken b n)) < n
     then 0 \<le> r \<and> r < n \<and> r \<notin> taken b n \<and> taken b' n = insert r (taken b n)
     else r = -1 \<and> b' = b)"
proof (cases "int (card (taken b n)) < n")
  case True
  with taken_full [OF assms(2), of b] obtain k where "0 \<le> k" "k < n" "\<not> used b k" by auto
  from alloc_some [OF assms(1) this] obtain r b' where r: "alloc b n = Inr (r, b')" "fits b' n"
    "0 \<le> r" "r < n" "\<not> used b r" "\<forall>m. 0 \<le> m \<and> m < n \<longrightarrow> used b' m = (m = r \<or> used b m)" by blast
  then have "r \<notin> taken b n" "taken b' n = insert r (taken b n)" by (auto simp: taken_def)
  with True r show ?thesis by auto
next
  case False
  with taken_bound [OF assms(2), of b] have "int (card (taken b n)) = n" by linarith
  with taken_full [OF assms(2), of b] have "\<And>k. 0 \<le> k \<Longrightarrow> k < n \<Longrightarrow> used b k" by blast
  with assms(1) have "alloc b n = Inr (-1, b)" by (rule alloc_none)
  with False assms(1) show ?thesis by simp
qed

lemma mark_taken:
  assumes "fits b n" "0 \<le> k" "k < n" "v = 0 \<or> v = 1"
  shows "\<exists>b'. mark b k v = Inr b' \<and> fits b' n \<and>
    taken b' n = (if v = 1 then insert k (taken b n) else taken b n - {k})"
proof -
  from mark_law [OF assms] obtain b' where b': "mark b k v = Inr b'" "fits b' n"
    "\<forall>m. 0 \<le> m \<and> m < n \<longrightarrow> used b' m = (if m = k then v = 1 else used b m)" by blast
  then have "taken b' n = (if v = 1 then insert k (taken b n) else taken b n - {k})"
    using assms(2,3) by (auto simp: taken_def split: if_splits)
  with b' show ?thesis by blast
qed

end

lemma bm_fits_mono: "bm_fits bm l \<Longrightarrow> length bm' = length bm \<Longrightarrow> bm_fits bm' l"
  by (simp add: bm_fits_def)

interpretation bm: bit_allocator bm_bit bm_fits bitmap_findnset bitmap_set bitmap_get
proof (unfold_locales, goal_cases)
  case (1 b n)
  from bitmap_findnset_found [OF 1(1)] obtain r where
    "bitmap_findnset b n = Inr r" "found b n 0 r" by auto
  with 1(2) show ?case by (auto simp: found_def)
next
  case (2 b n k)
  from bitmap_findnset_found [OF 2(1)] obtain r b' where
    r: "bitmap_findnset b n = Inr (r, b')" "found b n 0 (r, b')" by auto
  with 2(2-4) have "0 \<le> r" "r < n" "\<not> bm_bit b r" "bm_upd b r True b'"
    "\<forall>m. 0 \<le> m \<and> m < r \<longrightarrow> bm_bit b m" by (auto simp: found_def)
  with r 2(1) show ?case by (auto simp: bm_upd_def bm_fits_def)
next
  case (3 b n k v)
  then have "k < 32 * int (length b)" by (simp add: bm_fits_def)
  from bitmap_set_eq [OF 3(2) this 3(4)] 3(1) show ?case
    by (auto simp: bm_upd_def bm_fits_def)
next
  case (4 b n k)
  then show ?case by (simp add: bitmap_get_eq bm_fits_def)
qed

section \<open>Properties\<close>

text \<open>
  Property C20: on a bitmap that is large enough for \<open>l\<close> positions, \<open>bitmap_findnset\<close> returns and
  marks the first clear position below \<open>l\<close> and changes no other position; when there is none it
  returns -1 and leaves the bitmap as it is, also when a clear bit of the last word lies past \<open>l\<close>.
\<close>

theorem bitmap_findnset_first:
  assumes "bm_fits bm l"
  shows "\<exists>r bm'. bitmap_findnset bm l = Inr (r, bm') \<and>
    (if \<exists>k. 0 \<le> k \<and> k < l \<and> \<not> bm_bit bm k
     then 0 \<le> r \<and> r < l \<and> \<not> bm_bit bm r \<and> (\<forall>m. 0 \<le> m \<and> m < r \<longrightarrow> bm_bit bm m) \<and>
       bm_upd bm r True bm'
     else r = -1 \<and> bm' = bm)"
  using bitmap_findnset_found [OF assms] by (auto simp: found_def)

theorem bitmap_findnset_first_witness:
  "bm_fits [0xffffffff, 7] 40 \<and> \<not> bm_bit [0xffffffff, 7] 35 \<and>
   (\<exists>r bm'. bitmap_findnset [0xffffffff, 7] 40 = Inr (r, bm') \<and> 0 \<le> r \<and> r < 40 \<and>
     bm_upd [0xffffffff, 7] r True bm')"
proof -
  have "bm_fits [0xffffffff, 7] 40" "\<not> bm_bit [0xffffffff, 7] 35"
    by (simp_all add: bm_fits_def bm_bit_def bit_numeral_rec)
  moreover from this have "\<exists>k. 0 \<le> k \<and> k < 40 \<and> \<not> bm_bit [0xffffffff, 7] k"
    by (intro exI [of _ 35]) simp
  ultimately show ?thesis
    using bitmap_findnset_first [of "[0xffffffff, 7]" 40] by auto
qed

end
