(* ===== verification/Kmalloc.thy ===== *)
theory Kmalloc
  imports Prelude
begin

text \<open>
  The permanent allocator of \<open>kernel/kmalloc.c\<close>: a bump pointer in the unmapped segment, used until
  \<open>vm_init\<close> disables it. The table of IO descriptors and the memory-mapped registers of the machine
  (\<open>io_desc\<close>, \<open>mmio\<close>) and the end address that the linker gives the kernel image
  (\<open>KERNEL_ENDS_HERE\<close>) are arguments of the operations that read them.
\<close>

definition PAGE_SIZE :: nat where "PAGE_SIZE = 4096"
definition YAMS_MAX_DEVICES :: int where "YAMS_MAX_DEVICES = 128"

record io_descriptor =
  io_type :: u32
  io_area_base :: u32
  io_area_len :: u32
  io_irq :: u32
  vendor_string :: "byte list"
  io_resv :: "u32 list"

record kmem =
  free_area_start :: u32
  memory_end :: u32

definition kmalloc_get_numpages :: "io_descriptor list \<Rightarrow> (u32 \<Rightarrow> u32) \<Rightarrow> u32 kresult" where
  "kmalloc_get_numpages io_desc mmio =
     rbind (scan (\<lambda>d. io_type d = 0x101) io_desc 0 YAMS_MAX_DEVICES) (\<lambda>r.
       rbind (case r of None \<Rightarrow> Inr 0
              | Some i \<Rightarrow> rbind (rd io_desc i) (\<lambda>d. Inr (mmio (io_area_base d)))) (\<lambda>num_pages.
         if num_pages = 0 then Inl Panic else Inr num_pages))"

definition kmalloc_get_reserved_pages :: "kmem \<Rightarrow> int" where
  "kmalloc_get_reserved_pages s =
     (let num_res_pages = uint ((free_area_start s - 0x80000000) div of_nat PAGE_SIZE)
      in if (free_area_start s - 0x80000000) mod of_nat PAGE_SIZE \<noteq> 0
         then num_res_pages + 1 else num_res_pages)"

definition kmalloc_disable :: "kmem \<Rightarrow> kmem" where
  "kmalloc_disable s = s\<lparr>free_area_start := 0xffffffff\<rparr>"

text \<open>The alignment step that \<open>kmalloc_init\<close> and \<open>kmalloc\<close> both end with.\<close>

definition word_align :: "u32 \<Rightarrow> u32" where
  "word_align a = (if a AND 0x03 \<noteq> 0 then (a + 4) AND 0xfffffffc else a)"

definition kmalloc_init :: "u32 \<Rightarrow> io_descriptor list \<Rightarrow> (u32 \<Rightarrow> u32) \<Rightarrow> kmem kresult" where
  "kmalloc_init KERNEL_ENDS_HERE io_desc mmio =
     rbind (kmalloc_get_numpages io_desc mmio) (\<lambda>num_pages.
       let system_memory_size = num_pages * of_nat PAGE_SIZE
       in Inr \<lparr>free_area_start = word_align KERNEL_ENDS_HERE,
               memory_end = 0x80000000 + system_memory_size\<rparr>)"

definition kmalloc :: "int \<Rightarrow> kmem \<Rightarrow> (u32 \<times> kmem) kresult" where
  "kmalloc bytes s =
     (if free_area_start s = 0xffffffff then Inl Panic
      else if free_area_start s = 0 then Inl Panic
      else if bytes < 0 then Inl Panic
      else if free_area_start s + word_of_int bytes > memory_end s then Inl Panic
      else Inr (free_area_start s,
                s\<lparr>free_area_start := word_align (free_area_start s + word_of_int bytes)\<rparr>))"

section \<open>Alignment\<close>

lemma uint_word_align:
  assumes "uint a < 2 ^ 32 - 4"
  shows "uint (word_align a) = (uint a + 3) div 4 * 4"
proof -
  have m3: "a AND 3 = take_bit 2 a" by (simp add: take_bit_eq_mask mask_eq_exp_minus_1)
  have m: "(0xfffffffc :: u32) = NOT (mask 2)" by code_simp
  have "uint (a + 4) = uint a + 4" using assms by (subst uint_add_lt) auto
  moreover have "a AND 3 = 0 \<longleftrightarrow> uint a mod 4 = 0"
    using uint_take_bit [of 2 a] uint_0_iff [of "take_bit 2 a"] by (simp add: m3)
  ultimately show ?thesis
    unfolding word_align_def m by (simp add: uint_and_not_mask) presburger
qed

lemma align_up_le:
  fixes a :: int
  assumes "a \<le> 4096 * q"
  shows "(a + 3) div 4 * 4 \<le> 4096 * q"
proof -
  have cut: "4 * d \<le> 4 * r + 3 \<Longrightarrow> 4 * d \<le> 4 * r" for d r :: int by presburger
  have "4 * ((a + 3) div 4) \<le> 4 * (1024 * q) + 3" using assms by linarith
  from cut [OF this] show ?thesis by linarith
qed

section \<open>The allocator's invariant\<close>

text \<open>
  Between \<open>kmalloc_init\<close> and \<open>kmalloc_disable\<close>: the free area starts at a word boundary in the
  unmapped segment and ends with the machine's memory, which is whole pages.
\<close>

definition kmem_ok :: "kmem \<Rightarrow> bool" where
  "kmem_ok s \<longleftrightarrow> 0x80000000 \<le> uint (free_area_start s) \<and>
     uint (free_area_start s) \<le> uint (memory_end s) \<and> uint (free_area_start s) mod 4 = 0 \<and>
     uint (memory_end s) mod 4096 = 0"

lemma kmem_ok_pages:
  assumes "kmem_ok s"
  obtains q where "uint (memory_end s) = 4096 * q"
  using assms by (auto simp: kmem_ok_def zmod_eq_0_iff)

lemma kmem_ok_bound: "kmem_ok s \<Longrightarrow> uint (memory_end s) \<le> 2 ^ 32 - 4096"
  using uint_lt [of "memory_end s"] by (auto elim!: kmem_ok_pages)

lemma kmalloc_step:
  assumes ok: "kmem_ok s" and b: "0 \<le> bytes" "uint (free_area_start s) + bytes < 2 ^ 32"
  shows "if uint (free_area_start s) + bytes \<le> uint (memory_end s)
    then \<exists>s'. kmalloc bytes s = Inr (free_area_start s, s') \<and> kmem_ok s' \<and>
      memory_end s' = memory_end s \<and>
      uint (free_area_start s) + bytes \<le> uint (free_area_start s')
    else kmalloc bytes s = Inl Panic"
proof -
  let ?f = "free_area_start s" and ?e = "uint (memory_end s)"
  have f: "uint ?f \<le> 2 ^ 32 - 4096" "0x80000000 \<le> uint ?f"
    using kmem_ok_bound [OF ok] ok by (auto simp: kmem_ok_def)
  then have nz: "?f \<noteq> 0xffffffff" "?f \<noteq> 0" by auto
  have "uint (word_of_int bytes :: u32) = bytes"
    using b f by (intro uint_of_int) auto
  then have sum: "uint (?f + word_of_int bytes) = uint ?f + bytes"
    using b f by (subst uint_add_lt) auto
  show ?thesis
  proof (cases "uint ?f + bytes \<le> ?e")
    case True
    let ?s = "s\<lparr>free_area_start := word_align (?f + word_of_int bytes)\<rparr>"
    have al: "uint (free_area_start ?s) = (uint ?f + bytes + 3) div 4 * 4"
      using kmem_ok_bound [OF ok] True b by (simp add: uint_word_align sum)
    obtain q where "?e = 4096 * q" using ok by (rule kmem_ok_pages)
    with al True align_up_le [of "uint ?f + bytes" q] have "uint (free_area_start ?s) \<le> ?e" by simp
    moreover have "uint ?f + bytes \<le> uint (free_area_start ?s)" using al by linarith
    ultimately have "kmem_ok ?s" using al ok b f unfolding kmem_ok_def by simp
    moreover have "kmalloc bytes s = Inr (?f, ?s)"
      using True b nz sum by (simp add: kmalloc_def word_less_def not_less)
    ultimately show ?thesis using True \<open>uint ?f + bytes \<le> uint (free_area_start ?s)\<close> by auto
  next
    case False
    with b nz sum have "kmalloc bytes s = Inl Panic"
      by (simp add: kmalloc_def word_less_def not_le)
    with False show ?thesis by simp
  qed
qed

section \<open>Sequences of allocations\<close>

text \<open>The kernel's start-up code calls \<open>kmalloc\<close> again and again; nothing is ever freed.\<close>

fun kmalloc_all :: "int list \<Rightarrow> kmem \<Rightarrow> (u32 list \<times> kmem) kresult" where
  "kmalloc_all [] s = Inr ([], s)"
| "kmalloc_all (b # bs) s =
     rbind (kmalloc b s) (\<lambda>(a, s1). rbind (kmalloc_all bs s1) (\<lambda>(as, s2). Inr (a # as, s2)))"

fun blocks_in :: "int \<Rightarrow> int \<Rightarrow> (u32 \<times> int) list \<Rightarrow> bool" where
  "blocks_in lo hi [] \<longleftrightarrow> lo \<le> hi"
| "blocks_in lo hi ((a, n) # bs) \<longleftrightarrow>
     lo \<le> uint a \<and> uint a mod 4 = 0 \<and> 0 \<le> n \<and> blocks_in (uint a + n) hi bs"

lemma blocks_in_mono: "blocks_in lo' hi bs \<Longrightarrow> lo \<le> lo' \<Longrightarrow> blocks_in lo hi bs"
  by (cases bs) auto

lemma kmalloc_all_blocks:
  assumes "kmem_ok s" "\<forall>b \<in> set bs. 0 \<le> b \<and> uint (memory_end s) + b < 2 ^ 32"
    and "kmalloc_all bs s = Inr (as, s')"
  shows "length as = length bs \<and> kmem_ok s' \<and>
    blocks_in (uint (free_area_start s)) (uint (memory_end s)) (zip as bs)"
  using assms
proof (induction bs arbitrary: s as)
  case Nil
  then show ?case by (auto simp: kmem_ok_def)
next
  case (Cons b bs)
  from Cons.prems(3) obtain a s1 as' where a: "kmalloc b s = Inr (a, s1)"
    "kmalloc_all bs s1 = Inr (as', s')" "as = a # as'" by auto
  have b: "0 \<le> b" "uint (free_area_start s) + b < 2 ^ 32"
    using Cons.prems(1,2) by (auto simp: kmem_ok_def)
  have s1: "a = free_area_start s" "kmem_ok s1" "memory_end s1 = memory_end s"
    "uint (free_area_start s) + b \<le> uint (free_area_start s1)"
    using kmalloc_step [OF Cons.prems(1) b] a(1) by (auto split: if_splits)
  with Cons.IH [OF s1(2) _ a(2)] Cons.prems(1,2) a(3) b(1) show ?case
    by (auto simp: kmem_ok_def intro: blocks_in_mono)
qed

section \<open>Properties\<close>

text \<open>
  Property C22: the blocks of any sequence of allocations that \<open>kmalloc\<close> grants are aligned to a
  word, lie between the end of the kernel image and the end of memory, and do not overlap, as
  long as no request reaches past the 32-bit address space.
\<close>

theorem kmalloc_blocks:
  assumes "kmem_ok s" "\<forall>b \<in> set bs. 0 \<le> b \<and> uint (memory_end s) + b < 2 ^ 32"
    and "kmalloc_all bs s = Inr (as, s')"
  shows "length as = length bs \<and> kmem_ok s' \<and>
    blocks_in (uint (free_area_start s)) (uint (memory_end s)) (zip as bs)"
  using assms by (rule kmalloc_all_blocks)

theorem kmalloc_blocks_witness:
  "kmalloc_all [5, 8] \<lparr>free_area_start = 0x80010000, memory_end = 0x80100000\<rparr> =
     Inr ([0x80010000, 0x80010008], \<lparr>free_area_start = 0x80010010, memory_end = 0x80100000\<rparr>) \<and>
   blocks_in 0x80010000 0x80100000 [(0x80010000, 5), (0x80010008, 8)]"
proof -
  let ?s = "\<lparr>free_area_start = 0x80010000, memory_end = 0x80100000\<rparr> :: kmem"
  have "kmem_ok ?s" by (simp add: kmem_ok_def)
  moreover have "kmalloc_all [5, 8] ?s =
     Inr ([0x80010000, 0x80010008], \<lparr>free_area_start = 0x80010010, memory_end = 0x80100000\<rparr>)"
    by code_simp
  ultimately show ?thesis using kmalloc_blocks [of ?s "[5, 8]"] by simp
qed

text \<open>
  a request that does not fit into memory stops the kernel, unless the end of the
  block wraps past the top of the address space: then it is granted and the free area moves below
  the kernel.
\<close>

theorem kmalloc_exhausted:
  assumes "kmem_ok s" "0 \<le> bytes" "uint (memory_end s) < uint (free_area_start s) + bytes"
    and "uint (free_area_start s) + bytes < 2 ^ 32"
  shows "kmalloc bytes s = Inl Panic \<and>
    kmalloc 0x7fffffff \<lparr>free_area_start = 0x80100000, memory_end = 0x81000000\<rparr> =
      Inr (0x80100000, \<lparr>free_area_start = 0x00100000, memory_end = 0x81000000\<rparr>)"
proof
  show "kmalloc bytes s = Inl Panic"
    using kmalloc_step [OF assms(1,2,4)] assms(3) by simp
  show "kmalloc 0x7fffffff \<lparr>free_area_start = 0x80100000, memory_end = 0x81000000\<rparr> =
      Inr (0x80100000, \<lparr>free_area_start = 0x00100000, memory_end = 0x81000000\<rparr>)"
    by code_simp
qed

theorem kmalloc_exhausted_witness:
  "kmalloc 0x00100000 \<lparr>free_area_start = 0x80010000, memory_end = 0x80100000\<rparr> = Inl Panic"
  using kmalloc_exhausted [of "\<lparr>free_area_start = 0x80010000, memory_end = 0x80100000\<rparr>" "0x00100000"]
  by (simp add: kmem_ok_def)

end
