(* ===== verification/Pagepool.thy ===== *)
theory Pagepool
  imports Bitmap Kmalloc
begin

text \<open>
  The physical page pool of \<open>vm/pagepool.c\<close>: a bitmap of reserved pages, the number of free pages,
  and the boundary below which pages belong to the kernel image and to \<open>kmalloc\<close>. The spinlock
  makes each operation one atomic step. The contract that the users of physical pages rely on is
  the locale \<open>page_source\<close>, interpreted here on the code's model.
\<close>

section \<open>Operations\<close>

record pagepool =
  pagepool_free_pages :: bitmap_t
  pagepool_num_pages :: int
  pagepool_num_free_pages :: int
  pagepool_static_end :: int

function pagepool_reserve :: "bitmap_t \<Rightarrow> int \<Rightarrow> int \<Rightarrow> bitmap_t kresult" where
  "pagepool_reserve bm i n =
     (if i < n then rbind (bitmap_set bm i 1) (\<lambda>b. pagepool_reserve b (i + 1) n) else Inr bm)"
  by pat_completeness auto
termination
  by (relation "measure (\<lambda>(b, i, n). nat (n - i))") auto

declare pagepool_reserve.simps [simp del]

text \<open>\<open>ram\<close> is what the memory that \<open>kmalloc\<close> returns holds before it is initialized.\<close>

definition pagepool_init ::
  "io_descriptor list \<Rightarrow> (u32 \<Rightarrow> u32) \<Rightarrow> (u32 \<Rightarrow> u32) \<Rightarrow> kmem \<Rightarrow> (pagepool \<times> kmem) kresult" where
  "pagepool_init io_desc mmio ram km =
     rbind (kmalloc_get_numpages io_desc mmio) (\<lambda>np.
       let num_pages = sint np in
       rbind (kmalloc (bitmap_sizeof num_pages) km) (\<lambda>(addr, km').
         let words = nat (bitmap_sizeof num_pages div 4);
             area = map (\<lambda>i. ram (addr + 4 * of_nat i)) [0..<words] in
         rbind (bitmap_init area num_pages) (\<lambda>bm.
           let num_res_pages = kmalloc_get_reserved_pages km' in
           rbind (pagepool_reserve bm 0 num_res_pages) (\<lambda>bm'.
             Inr (\<lparr>pagepool_free_pages = bm', pagepool_num_pages = num_pages,
                   pagepool_num_free_pages = num_pages - num_res_pages,
                   pagepool_static_end = num_res_pages\<rparr>, km')))))"

definition pagepool_get_phys_page :: "pagepool \<Rightarrow> (u32 \<times> pagepool) kresult" where
  "pagepool_get_phys_page p =
     (if pagepool_num_free_pages p > 0 then
        rbind (bitmap_findnset (pagepool_free_pages p) (pagepool_num_pages p)) (\<lambda>(i, bm).
          let free = pagepool_num_free_pages p - 1 in
          kassert (i \<ge> 0 \<and> free \<ge> 0)
            (Inr (word_of_int (i * int PAGE_SIZE),
                  p\<lparr>pagepool_free_pages := bm, pagepool_num_free_pages := free\<rparr>)))
      else Inr (0, p))"

definition pagepool_free_phys_page :: "u32 \<Rightarrow> pagepool \<Rightarrow> pagepool kresult" where
  "pagepool_free_phys_page phys_addr p =
     (let i = uint (phys_addr div of_nat PAGE_SIZE) in
      kassert (i \<ge> pagepool_static_end p)
        (rbind (bitmap_get (pagepool_free_pages p) i) (\<lambda>b.
           kassert (b = 1)
             (rbind (bitmap_set (pagepool_free_pages p) i 0) (\<lambda>bm.
                Inr (p\<lparr>pagepool_free_pages := bm,
                       pagepool_num_free_pages := pagepool_num_free_pages p + 1\<rparr>))))))"

definition pagepool_get_free_pages :: "pagepool \<Rightarrow> int" where
  "pagepool_get_free_pages p = pagepool_num_free_pages p"

section \<open>Invariant\<close>

text \<open>
  The counter agrees with the bitmap, every page below the static boundary is reserved, and the
  boundary is past page 0 (address 0 is the pool's failure value).
\<close>

definition pagepool_ok :: "pagepool \<Rightarrow> bool" where
  "pagepool_ok p \<longleftrightarrow>
     bm_fits (pagepool_free_pages p) (pagepool_num_pages p) \<and> pagepool_num_pages p \<le> 2 ^ 20 \<and>
     0 < pagepool_static_end p \<and> pagepool_static_end p \<le> pagepool_num_pages p \<and>
     pagepool_num_free_pages p =
       pagepool_num_pages p - int (card (bm.taken (pagepool_free_pages p) (pagepool_num_pages p))) \<and>
     (\<forall>k. 0 \<le> k \<and> k < pagepool_static_end p \<longrightarrow> bm_bit (pagepool_free_pages p) k)"

text \<open>The pages that the pool has handed out and not got back, by physical address.\<close>

definition page_addr :: "int \<Rightarrow> u32" where
  "page_addr k = word_of_int (k * 4096)"

definition page_index :: "u32 \<Rightarrow> int" where
  "page_index a = uint a div 4096"

definition pagepool_held :: "pagepool \<Rightarrow> u32 set" where
  "pagepool_held p = page_addr ` (bm.taken (pagepool_free_pages p) (pagepool_num_pages p)
     - {0..<pagepool_static_end p})"

lemma page_index_addr [simp]: "0 \<le> k \<Longrightarrow> k < 2 ^ 20 \<Longrightarrow> page_index (page_addr k) = k"
  using uint_of_int [of "k * 4096"] by (simp add: page_index_def page_addr_def)

lemma page_addr_inj: "0 \<le> j \<Longrightarrow> j < 2 ^ 20 \<Longrightarrow> 0 \<le> k \<Longrightarrow> k < 2 ^ 20 \<Longrightarrow> page_addr j = page_addr k \<longleftrightarrow> j = k"
  by (metis page_index_addr)

lemma page_index_div: "uint (a div of_nat PAGE_SIZE) = page_index a"
  by (simp add: page_index_def PAGE_SIZE_def uint_div)

lemma pagepool_ok_fits:
  "pagepool_ok p \<Longrightarrow> bm_fits (pagepool_free_pages p) (pagepool_num_pages p)"
  "pagepool_ok p \<Longrightarrow> 0 \<le> pagepool_num_pages p"
  by (auto simp: pagepool_ok_def)

lemma page_addr_held:
  assumes "pagepool_ok p" "0 \<le> k" "k < pagepool_num_pages p"
  shows "page_addr k \<in> pagepool_held p \<longleftrightarrow>
    k \<in> bm.taken (pagepool_free_pages p) (pagepool_num_pages p) \<and> pagepool_static_end p \<le> k"
proof -
  have "page_addr j = page_addr k \<longleftrightarrow> j = k"
    if "j \<in> bm.taken (pagepool_free_pages p) (pagepool_num_pages p)" for j
    using that assms by (intro page_addr_inj) (auto simp: bm.taken_def pagepool_ok_def)
  with assms(2) show ?thesis
    unfolding pagepool_held_def image_iff by (auto dest: sym [of "page_addr k"])
qed

section \<open>Handing out and taking back a page\<close>

lemma pagepool_get_spec:
  assumes ok: "pagepool_ok p"
  shows "\<exists>a p'. pagepool_get_phys_page p = Inr (a, p') \<and> pagepool_ok p' \<and>
    pagepool_num_pages p' = pagepool_num_pages p \<and>
    (if pagepool_num_free_pages p > 0
     then a \<noteq> 0 \<and> uint a mod 4096 = 0 \<and> a \<notin> pagepool_held p \<and>
       pagepool_held p' = insert a (pagepool_held p) \<and>
       pagepool_num_free_pages p' = pagepool_num_free_pages p - 1
     else a = 0 \<and> p' = p)"
proof (cases "pagepool_num_free_pages p > 0")
  case False
  with ok show ?thesis by (simp add: pagepool_get_phys_page_def)
next
  case True
  let ?bm = "pagepool_free_pages p" and ?n = "pagepool_num_pages p" and ?s = "pagepool_static_end p"
  from True ok have "int (card (bm.taken ?bm ?n)) < ?n" by (simp add: pagepool_ok_def)
  with bm.alloc_taken [OF pagepool_ok_fits [OF ok]] obtain i bm' where i:
    "bitmap_findnset ?bm ?n = Inr (i, bm')" "bm_fits bm' ?n" "0 \<le> i" "i < ?n"
    "i \<notin> bm.taken ?bm ?n" "bm.taken bm' ?n = insert i (bm.taken ?bm ?n)" by auto
  let ?p = "p\<lparr>pagepool_free_pages := bm', pagepool_num_free_pages := pagepool_num_free_pages p - 1\<rparr>"
  have get: "pagepool_get_phys_page p = Inr (page_addr i, ?p)"
    using True i by (simp add: pagepool_get_phys_page_def page_addr_def PAGE_SIZE_def)
  have si: "?s \<le> i" using i(3-5) ok by (force simp: pagepool_ok_def bm.taken_def not_le)
  then have i0: "0 < i" "i < 2 ^ 20" using i ok by (auto simp: pagepool_ok_def)
  have used: "bm_bit bm' k" if "0 \<le> k" "k < ?s" for k
  proof -
    have "k \<in> bm.taken ?bm ?n" using that ok by (auto simp: pagepool_ok_def bm.taken_def)
    then have "k \<in> bm.taken bm' ?n" using i by simp
    then show ?thesis by (simp add: bm.taken_def)
  qed
  then have ok': "pagepool_ok ?p"
    using ok i by (simp add: pagepool_ok_def)
  have a: "uint (page_addr i) = i * 4096"
    using uint_of_int [of "i * 4096"] i0 by (simp add: page_addr_def)
  have "pagepool_held ?p = insert (page_addr i) (pagepool_held p)"
    using i si by (auto simp: pagepool_held_def)
  moreover have "page_addr i \<notin> pagepool_held p"
    using page_addr_held [OF ok i(3,4)] i(5) by simp
  moreover have "page_addr i \<noteq> 0" "uint (page_addr i) mod 4096 = 0"
    using a i0 by auto
  ultimately show ?thesis
    using True get ok' by auto
qed

lemma pagepool_free_spec:
  assumes ok: "pagepool_ok p" and a: "uint a mod 4096 = 0" "page_index a < pagepool_num_pages p"
  shows "if a \<in> pagepool_held p
    then \<exists>p'. pagepool_free_phys_page a p = Inr p' \<and> pagepool_ok p' \<and>
      pagepool_num_pages p' = pagepool_num_pages p \<and>
      pagepool_held p' = pagepool_held p - {a} \<and>
      pagepool_num_free_pages p' = pagepool_num_free_pages p + 1
    else pagepool_free_phys_page a p = Inl Assert"
proof -
  let ?bm = "pagepool_free_pages p" and ?n = "pagepool_num_pages p" and ?s = "pagepool_static_end p"
  let ?i = "page_index a"
  have i: "0 \<le> ?i" "?i < ?n" "page_addr ?i = a"
    using a by (auto simp: page_index_def page_addr_def pos_imp_zdiv_nonneg_iff
        minus_mod_eq_div_mult [symmetric])
  have held: "a \<in> pagepool_held p \<longleftrightarrow> ?i \<in> bm.taken ?bm ?n \<and> ?s \<le> ?i"
    using page_addr_held [OF ok i(1,2)] i(3) by simp
  have probe: "bitmap_get ?bm ?i = Inr (if bm_bit ?bm ?i then 1 else 0)"
    using bm.probe_law [OF pagepool_ok_fits(1) [OF ok] i(1,2)] .
  show ?thesis
  proof (cases "a \<in> pagepool_held p")
    case False
    then show ?thesis
      using held probe i
      by (auto simp: pagepool_free_phys_page_def page_index_div bm.taken_def kassert_def)
  next
    case True
    with held have h: "?i \<in> bm.taken ?bm ?n" "?s \<le> ?i" by auto
    from bm.mark_taken [OF pagepool_ok_fits(1) [OF ok] i(1,2), of 0] obtain bm' where
      bm': "bitmap_set ?bm ?i 0 = Inr bm'" "bm_fits bm' ?n" "bm.taken bm' ?n = bm.taken ?bm ?n - {?i}"
      by auto
    let ?p = "p\<lparr>pagepool_free_pages := bm', pagepool_num_free_pages := pagepool_num_free_pages p + 1\<rparr>"
    have free: "pagepool_free_phys_page a p = Inr ?p"
      using h probe bm' by (simp add: pagepool_free_phys_page_def page_index_div bm.taken_def)
    have used: "bm_bit bm' k" if "0 \<le> k" "k < ?s" for k
    proof -
      have "k \<in> bm.taken ?bm ?n - {?i}" using that ok h by (auto simp: pagepool_ok_def bm.taken_def)
      with bm' show ?thesis by (metis (mono_tags, lifting) bm.taken_def mem_Collect_eq)
    qed
    have "0 < card (bm.taken ?bm ?n)"
      using h by (metis bm.taken_finite card_gt_0_iff empty_iff)
    with used h bm' ok have "pagepool_ok ?p"
      by (simp add: pagepool_ok_def)
    moreover have "page_addr j \<noteq> a" if "j \<in> bm.taken ?bm ?n" "j \<noteq> ?i" for j
    proof -
      have "page_addr j = page_addr ?i \<longleftrightarrow> j = ?i"
        using that i ok by (intro page_addr_inj) (auto simp: pagepool_ok_def bm.taken_def)
      with that i(3) show ?thesis by simp
    qed
    then have "pagepool_held ?p = pagepool_held p - {a}"
      using bm' i(3) by (auto simp: pagepool_held_def)
    ultimately show ?thesis using True free by simp
  qed
qed

section \<open>The contract of the page pool\<close>

text \<open>
  What the users of physical pages (\<open>vm/vm.c\<close>, \<open>proc/process.c\<close>, the file systems) rely on: a page
  that is handed out was not handed out before, a page that is held can be given back once, and
  giving back a page that is not held stops the kernel.
\<close>

locale page_source =
  fixes ok :: "'p \<Rightarrow> bool"
    and held :: "'p \<Rightarrow> u32 set"
    and in_pool :: "'p \<Rightarrow> u32 \<Rightarrow> bool"
    and get :: "'p \<Rightarrow> (u32 \<times> 'p) kresult"
    and put :: "u32 \<Rightarrow> 'p \<Rightarrow> 'p kresult"
  assumes get_law: "ok p \<Longrightarrow> \<exists>a p'. get p = Inr (a, p') \<and> ok p' \<and> in_pool p' = in_pool p \<and>
      (a = 0 \<and> p' = p \<or> a \<noteq> 0 \<and> uint a mod 4096 = 0 \<and> a \<notin> held p \<and> held p' = insert a (held p))"
    and put_law: "ok p \<Longrightarrow> a \<in> held p \<Longrightarrow>
      \<exists>p'. put a p = Inr p' \<and> ok p' \<and> in_pool p' = in_pool p \<and> held p' = held p - {a}"
    and put_refused: "ok p \<Longrightarrow> in_pool p a \<Longrightarrow> a \<notin> held p \<Longrightarrow> put a p = Inl Assert"
    and held_in_pool: "ok p \<Longrightarrow> a \<in> held p \<Longrightarrow> in_pool p a"
    and in_pool_aligned: "in_pool p a \<Longrightarrow> uint a mod 4096 = 0"
begin

fun put_all :: "u32 list \<Rightarrow> 'p \<Rightarrow> 'p kresult" where
  "put_all [] p = Inr p"
| "put_all (a # as) p = rbind (put a p) (put_all as)"

text \<open>Giving back a list of pages succeeds when they are held and no page is on it twice.\<close>

lemma put_all_held:
  "ok p \<Longrightarrow> distinct as \<Longrightarrow> set as \<subseteq> held p \<Longrightarrow>
     \<exists>p'. put_all as p = Inr p' \<and> ok p' \<and> held p' = held p - set as"
proof (induction as arbitrary: p)
  case (Cons a as)
  from put_law [of p a] Cons.prems obtain p1 where
    p1: "put a p = Inr p1" "ok p1" "held p1 = held p - {a}" by auto
  with Cons.prems have "set as \<subseteq> held p1" by auto
  with Cons.IH [of p1] p1 Cons.prems(2) obtain p' where
    "put_all as p1 = Inr p'" "ok p'" "held p' = held p1 - set as" by auto
  with p1 show ?case by auto
qed simp

lemma put_twice:
  assumes "ok p" "a \<in> held p" "put a p = Inr p1"
  shows "put a p1 = Inl Assert"
proof -
  from put_law [OF assms(1,2)] assms(3) have "ok p1" "in_pool p1 = in_pool p" "held p1 = held p - {a}"
    by auto
  with held_in_pool [OF assms(1,2)] show ?thesis by (intro put_refused) auto
qed

lemma get_put:
  assumes "ok p" "get p = Inr (a, p1)" "a \<noteq> 0"
  shows "\<exists>p2. put a p1 = Inr p2 \<and> ok p2 \<and> held p2 = held p"
proof -
  from get_law [OF assms(1)] assms(2,3) have "ok p1" "a \<notin> held p" "held p1 = insert a (held p)"
    by auto
  with put_law [of p1 a] show ?thesis by auto
qed

end

definition pagepool_has :: "pagepool \<Rightarrow> u32 \<Rightarrow> bool" where
  "pagepool_has p a \<longleftrightarrow> uint a mod 4096 = 0 \<and> page_index a < pagepool_num_pages p"

lemma pagepool_held_has: "pagepool_ok p \<Longrightarrow> a \<in> pagepool_held p \<Longrightarrow> pagepool_has p a"
proof -
  assume ok: "pagepool_ok p" and "a \<in> pagepool_held p"
  then obtain k where k: "a = page_addr k" "0 \<le> k" "k < pagepool_num_pages p"
    by (auto simp: pagepool_held_def bm.taken_def)
  with ok have "k < 2 ^ 20" by (auto simp: pagepool_ok_def)
  with k uint_of_int [of "k * 4096"] show ?thesis
    by (simp add: pagepool_has_def) (simp add: page_addr_def)
qed

interpretation pool: page_source pagepool_ok pagepool_held pagepool_has
  pagepool_get_phys_page pagepool_free_phys_page
proof (unfold_locales, goal_cases)
  case (1 p)
  from pagepool_get_spec [OF 1] show ?case
    by (auto simp: pagepool_has_def fun_eq_iff split: if_splits)
next
  case (2 p a)
  with pagepool_held_has [of p a] pagepool_free_spec [of p a] show ?case
    by (auto simp: pagepool_has_def fun_eq_iff)
next
  case (3 p a)
  with pagepool_free_spec [of p a] show ?case by (auto simp: pagepool_has_def)
next
  case (4 p a)
  then show ?case by (rule pagepool_held_has)
next
  case (5 p a)
  then show ?case by (simp add: pagepool_has_def)
qed

section \<open>Initialization\<close>

lemma pagepool_reserve_taken:
  assumes "bm_fits bm n" "0 \<le> i" "m \<le> n"
  shows "\<exists>bm'. pagepool_reserve bm i m = Inr bm' \<and> bm_fits bm' n \<and>
    bm.taken bm' n = bm.taken bm n \<union> {i..<m}"
  using assms
proof (induction bm i m rule: pagepool_reserve.induct)
  case (1 bm i m)
  show ?case
  proof (cases "i < m")
    case True
    with "1.prems" bm.mark_taken [of bm n i 1] obtain b where
      b: "bitmap_set bm i 1 = Inr b" "bm_fits b n" "bm.taken b n = insert i (bm.taken bm n)" by auto
    from "1.IH" [OF True b(1) b(2)] "1.prems" obtain bm' where
      "pagepool_reserve b (i + 1) m = Inr bm'" "bm_fits bm' n"
      "bm.taken bm' n = bm.taken b n \<union> {i + 1..<m}" by auto
    moreover have "insert i (bm.taken bm n \<union> {i + 1..<m}) = bm.taken bm n \<union> {i..<m}"
      using True by auto
    ultimately show ?thesis
      using True b by (intro exI [of _ bm']) (simp add: pagepool_reserve.simps [of bm i m])
  next
    case False
    with "1.prems" show ?thesis by (simp add: pagepool_reserve.simps [of bm i m])
  qed
qed

lemma bitmap_init_clear:
  assumes "0 \<le> n" "n < 2 ^ 31 - 31" "length area = nat (bitmap_sizeof n div 4)"
  shows "\<exists>bm. bitmap_init area n = Inr bm \<and> bm_fits bm n \<and> bm.taken bm n = {}"
proof -
  have words: "swrap (n + 31) sdiv 32 = (n + 31) div 32" "bitmap_sizeof n div 4 = (n + 31) div 32"
    "0 \<le> (n + 31) div 32" "n \<le> 32 * ((n + 31) div 32)"
    using assms(1,2) by (auto simp: bitmap_sizeof_def)
  then have len: "(n + 31) div 32 = int (length area)" using assms(3) by simp
  from bitmap_init_loop_eq [of 0 "int (length area)" area] obtain bm where
    "bitmap_init_loop area 0 (int (length area)) = Inr bm" "length bm = length area"
    "\<forall>k < length bm. bm ! k = 0" by auto
  with words(1) len assms(1) have bm: "bitmap_init area n = Inr bm" "length bm = length area"
    "\<forall>k < length bm. bm ! k = 0" by (simp_all add: bitmap_init_def)
  then have fits: "bm_fits bm n" using words assms by (simp add: bm_fits_def)
  have "\<not> bm_bit bm k" if "0 \<le> k" "k < n" for k
  proof -
    have "nat (k div 32) < length bm" using that fits by (auto simp: bm_fits_def)
    with bm show ?thesis by (simp add: bm_bit_def)
  qed
  with bm fits show ?thesis by (auto simp: bm.taken_def)
qed

lemma reserved_pages_eq:
  assumes "0x80000000 \<le> uint (free_area_start km)"
  shows "kmalloc_get_reserved_pages km = (uint (free_area_start km) - 0x80000000 + 4095) div 4096"
proof -
  let ?d = "free_area_start km - 0x80000000"
  have d: "uint ?d = uint (free_area_start km) - 0x80000000"
    using assms uint_minus_simple_alt [of "0x80000000" "free_area_start km"]
    by (simp add: word_le_def)
  have up: "(if x mod 4096 \<noteq> 0 then x div 4096 + 1 else x div 4096) = (x + 4095) div 4096" for x :: int
    using div_add1_eq [of x 4095 4096] by (auto simp: zmod_minus1) 
  have "?d mod 4096 \<noteq> 0 \<longleftrightarrow> uint ?d mod 4096 \<noteq> 0"
    using uint_0_iff [of "?d mod 4096"] by (simp add: uint_mod)
  then have "kmalloc_get_reserved_pages km =
      (if uint ?d mod 4096 \<noteq> 0 then uint ?d div 4096 + 1 else uint ?d div 4096)"
    by (simp add: kmalloc_get_reserved_pages_def PAGE_SIZE_def uint_div)
  also have "\<dots> = (uint (free_area_start km) - 0x80000000 + 4095) div 4096"
    by (subst up) (simp add: d)
  finally show ?thesis .
qed

text \<open>
  After start-up the pool is consistent: every page up to the end of the memory that \<open>kmalloc\<close> has
  given out is reserved, and no other page is.
\<close>

lemma pagepool_init_spec:
  assumes np: "kmalloc_get_numpages io_desc mmio = Inr np" "uint np \<le> 2 ^ 17"
    and km: "kmem_ok km" "0x80000000 < uint (free_area_start km)"
      "memory_end km = 0x80000000 + np * 4096"
    and room: "uint (free_area_start km) + bitmap_sizeof (uint np) \<le> uint (memory_end km)"
  shows "\<exists>p km'. pagepool_init io_desc mmio ram km = Inr (p, km') \<and> pagepool_ok p \<and>
    pagepool_num_pages p = uint np \<and> pagepool_held p = {} \<and>
    pagepool_static_end p = kmalloc_get_reserved_pages km'"
proof -
  let ?n = "uint np"
  have n: "0 \<le> ?n" "?n < 2 ^ 31 - 31" "sint np = ?n"
    using np(2) by (auto simp: sint_small)
  have sz: "0 \<le> bitmap_sizeof ?n" "bitmap_sizeof ?n \<le> 2 ^ 15"
    using np(2) by (auto simp: bitmap_sizeof_def)
  have me: "uint (memory_end km) = 0x80000000 + ?n * 4096"
    using np(2) by (simp add: km(3) uint_word_ariths)
  have "uint (free_area_start km) + bitmap_sizeof ?n < 2 ^ 32"
    using room me np(2) by simp
  with kmalloc_step [OF km(1) sz(1)] room obtain km' where km':
    "kmalloc (bitmap_sizeof ?n) km = Inr (free_area_start km, km')" "kmem_ok km'"
    "memory_end km' = memory_end km"
    "uint (free_area_start km) + bitmap_sizeof ?n \<le> uint (free_area_start km')" by auto
  let ?area = "map (\<lambda>i. ram (free_area_start km + 4 * of_nat i)) [0..<nat (bitmap_sizeof ?n div 4)]"
  from bitmap_init_clear [OF n(1,2), of ?area] obtain bm where
    bm: "bitmap_init ?area ?n = Inr bm" "bm_fits bm ?n" "bm.taken bm ?n = {}" by auto
  let ?res = "kmalloc_get_reserved_pages km'"
  have res: "?res = (uint (free_area_start km') - 0x80000000 + 4095) div 4096"
    using km' by (intro reserved_pages_eq) (simp add: kmem_ok_def)
  have "uint (free_area_start km') \<le> 0x80000000 + ?n * 4096"
    using km'(2,3) me by (simp add: kmem_ok_def)
  then have r: "0 < ?res" "?res \<le> ?n"
    using km'(4) km(2) sz(1) by (auto simp: res)
  from pagepool_reserve_taken [OF bm(2), of 0 ?res] r obtain bm' where
    bm': "pagepool_reserve bm 0 ?res = Inr bm'" "bm_fits bm' ?n" "bm.taken bm' ?n = {0..<?res}"
    using bm(3) by auto
  let ?p = "\<lparr>pagepool_free_pages = bm', pagepool_num_pages = ?n,
    pagepool_num_free_pages = ?n - ?res, pagepool_static_end = ?res\<rparr>"
  have "pagepool_init io_desc mmio ram km = Inr (?p, km')"
    using np(1) km'(1) bm(1) bm'(1) by (simp add: pagepool_init_def n(3))
  moreover have "bm_bit bm' k" if "0 \<le> k" "k < ?res" for k
    using that bm'(3) by (auto simp: bm.taken_def set_eq_iff)
  then have "pagepool_ok ?p"
    using bm' r np(2) by (simp add: pagepool_ok_def)
  moreover have "pagepool_held ?p = {}" using bm'(3) by (simp add: pagepool_held_def)
  ultimately show ?thesis by auto
qed

section \<open>Properties\<close>

text \<open>A pool of four pages, the first of which belongs to the kernel, for the witnesses.\<close>

definition pool4 :: "u32 \<Rightarrow> int \<Rightarrow> pagepool" where
  "pool4 w free = \<lparr>pagepool_free_pages = [w], pagepool_num_pages = 4, pagepool_num_free_pages = free,
     pagepool_static_end = 1\<rparr>"

lemma taken_code: "bm.taken bm n = set (filter (bm_bit bm) [0..n - 1])"
  by (auto simp: bm.taken_def)

lemma pool4_ok: "pagepool_ok (pool4 1 3)" "pagepool_ok (pool4 3 2)"
proof -
  have "bm.taken [1] 4 = {0}" "bm.taken [3] 4 = {0, 1}"
    by (simp_all add: taken_code bm_bit_def upto.simps bit_numeral_rec bit_1_iff) 
  then show "pagepool_ok (pool4 1 3)" "pagepool_ok (pool4 3 2)"
    by (auto simp: pagepool_ok_def pool4_def bm_fits_def bm_bit_def bit_numeral_rec bit_1_iff)
qed

lemma pool4_held: "pagepool_held (pool4 1 3) = {}" "pagepool_held (pool4 3 2) = {0x1000}"
proof -
  have "bm.taken [1] 4 = {0}" "bm.taken [3] 4 = {0, 1}"
    by (simp_all add: taken_code bm_bit_def upto.simps bit_numeral_rec bit_1_iff) 
  then show "pagepool_held (pool4 1 3) = {}" "pagepool_held (pool4 3 2) = {0x1000}"
    by (auto simp: pagepool_held_def pool4_def page_addr_def)
qed

text \<open>
  Property C23: while a page is free, \<open>pagepool_get_phys_page\<close> hands out a page-aligned address
  other than 0 that nobody holds, and counts one page less; with none free it returns 0 and
  changes nothing. The pool's invariant is kept.
\<close>

theorem pagepool_get_fresh:
  assumes "pagepool_ok p"
  shows "\<exists>a p'. pagepool_get_phys_page p = Inr (a, p') \<and> pagepool_ok p' \<and>
    (if pagepool_get_free_pages p > 0
     then a \<noteq> 0 \<and> uint a mod 4096 = 0 \<and> a \<notin> pagepool_held p \<and>
       pagepool_held p' = insert a (pagepool_held p) \<and>
       pagepool_get_free_pages p' = pagepool_get_free_pages p - 1
     else a = 0 \<and> p' = p)"
  using pagepool_get_spec [OF assms] unfolding pagepool_get_free_pages_def by blast

theorem pagepool_get_fresh_witness:
  "\<exists>a p'. pagepool_get_phys_page (pool4 3 2) = Inr (a, p') \<and> a \<noteq> 0 \<and> a \<noteq> 0x1000 \<and>
     pagepool_held p' = {a, 0x1000}"
  using pagepool_get_fresh [OF pool4_ok(2)] pool4_held
  by (auto simp: pagepool_get_free_pages_def pool4_def split: if_splits)

text \<open>
  Property C11: \<open>pagepool_free_phys_page\<close> takes back exactly the pages that are handed out: a
  held page becomes free again; a page of the kernel image, a page that was never handed out and
  a page given back a second time stop the kernel by a failed assertion.
\<close>

theorem pagepool_free_exact:
  assumes "pagepool_ok p" "uint a mod 4096 = 0" "page_index a < pagepool_num_pages p"
  shows "if a \<in> pagepool_held p
    then \<exists>p'. pagepool_free_phys_page a p = Inr p' \<and> pagepool_ok p' \<and>
      pagepool_held p' = pagepool_held p - {a} \<and>
      pagepool_get_free_pages p' = pagepool_get_free_pages p + 1 \<and>
      pagepool_free_phys_page a p' = Inl Assert
    else pagepool_free_phys_page a p = Inl Assert"
  using pagepool_free_spec [OF assms] pool.put_twice [OF assms(1), of a]
  unfolding pagepool_get_free_pages_def by auto

theorem pagepool_free_exact_witness:
  "(\<exists>p'. pagepool_free_phys_page 0x1000 (pool4 3 2) = Inr p' \<and> pagepool_held p' = {} \<and>
     pagepool_free_phys_page 0x1000 p' = Inl Assert) \<and>
   pagepool_free_phys_page 0x2000 (pool4 3 2) = Inl Assert"
  using pagepool_free_exact [OF pool4_ok(2), of "0x1000"] pagepool_free_exact [OF pool4_ok(2), of "0x2000"]
  by (auto simp: pool4_held page_index_def) (auto simp: pool4_def)

text \<open>
  after \<open>pagepool_init\<close> the pool is consistent, nothing is handed out, and the pages
  reserved are those up to the end of the memory that \<open>kmalloc\<close> has given out, the bitmap
  itself included.
\<close>

theorem pagepool_init_reserves:
  assumes "kmalloc_get_numpages io_desc mmio = Inr np" "uint np \<le> 2 ^ 17"
    and "kmem_ok km" "0x80000000 < uint (free_area_start km)" "memory_end km = 0x80000000 + np * 4096"
    and "uint (free_area_start km) + bitmap_sizeof (uint np) \<le> uint (memory_end km)"
  shows "\<exists>p km'. pagepool_init io_desc mmio ram km = Inr (p, km') \<and> pagepool_ok p \<and>
    pagepool_num_pages p = uint np \<and> pagepool_held p = {} \<and>
    pagepool_static_end p = kmalloc_get_reserved_pages km'"
  using assms by (rule pagepool_init_spec)

theorem pagepool_init_reserves_witness:
  "\<exists>p km'. pagepool_init [\<lparr>io_type = 0x101, io_area_base = 0xb0010000, io_area_len = 8, io_irq = 0,
      vendor_string = [], io_resv = []\<rparr>] (\<lambda>_. 256) (\<lambda>_. 0)
      \<lparr>free_area_start = 0x80010000, memory_end = 0x80100000\<rparr> = Inr (p, km') \<and>
    pagepool_ok p \<and> pagepool_num_pages p = 256"
proof -
  let ?io = "[\<lparr>io_type = 0x101, io_area_base = 0xb0010000, io_area_len = 8, io_irq = 0,
    vendor_string = [], io_resv = []\<rparr>] :: io_descriptor list"
  let ?km = "\<lparr>free_area_start = 0x80010000, memory_end = 0x80100000\<rparr> :: kmem"
  have "kmalloc_get_numpages ?io (\<lambda>_. 256) = Inr 256"
    by (simp add: kmalloc_get_numpages_def YAMS_MAX_DEVICES_def scan.simps)
  moreover have "kmem_ok ?km" by (simp add: kmem_ok_def)
  moreover have "bitmap_sizeof 256 = 32" by (simp add: bitmap_sizeof_def)
  ultimately show ?thesis
    using pagepool_init_reserves [of ?io "\<lambda>_. 256" 256 ?km "\<lambda>_. 0"] by auto
qed

end
