(* ===== verification/Vm.thy ===== *)
theory Vm
  imports Pagepool
begin

text \<open>
  Page tables of \<open>vm/vm.c\<close> and the TLB exception handlers of \<open>vm/tlb.c\<close>. A page table is the
  fixed array of TLB entries in one page, with the number of entries in use; each entry maps an
  even/odd pair of virtual pages. The abstract view is the partial map from virtual pages to
  frames and write permission.
\<close>

section \<open>Data\<close>

text \<open>The bit fields of \<open>tlb_entry_t\<close> at their widths, less the padding and the cache settings, which
  no code reads or writes; the one-bit fields are truth values.\<close>

record tlb_entry =
  VPN2 :: "19 word"
  E_ASID :: "8 word"
  PFN0 :: "20 word"
  D0 :: bool
  V0 :: bool
  G0 :: bool
  PFN1 :: "20 word"
  D1 :: bool
  V1 :: bool
  G1 :: bool

record pagetable =
  PT_ASID :: u32
  valid_count :: u32
  entries :: "tlb_entry list"

definition PAGETABLE_ENTRIES :: nat where "PAGETABLE_ENTRIES = 340"

definition addr_is_on_even_page :: "u32 \<Rightarrow> bool" where
  "addr_is_on_even_page addr \<longleftrightarrow> addr AND 0x00001000 = 0"

definition ADDR_PHYS_TO_KERNEL :: "u32 \<Rightarrow> u32" where
  "ADDR_PHYS_TO_KERNEL addr = addr OR 0x80000000"

definition ADDR_KERNEL_TO_PHYS :: "u32 \<Rightarrow> u32" where
  "ADDR_KERNEL_TO_PHYS addr = addr AND 0x7fffffff"

section \<open>Operations of vm.c\<close>

text \<open>\<open>sizeof_tlb_entry\<close> is the size that the compiler gives \<open>tlb_entry_t\<close>.\<close>

definition vm_init :: "nat \<Rightarrow> io_descriptor list \<Rightarrow> (u32 \<Rightarrow> u32) \<Rightarrow> (u32 \<Rightarrow> u32) \<Rightarrow> kmem \<Rightarrow>
    (pagepool \<times> kmem) kresult" where
  "vm_init sizeof_tlb_entry io_desc mmio ram km =
     kassert (sizeof_tlb_entry = 12)
       (rbind (pagepool_init io_desc mmio ram km) (\<lambda>(p, km'). Inr (p, kmalloc_disable km')))"

text \<open>\<open>junk\<close> is what the entries of the new page hold; the code does not clear them.\<close>

definition vm_create_pagetable ::
  "u32 \<Rightarrow> tlb_entry list \<Rightarrow> pagepool \<Rightarrow> ((u32 \<times> pagetable) option \<times> pagepool) kresult" where
  "vm_create_pagetable asid junk pool =
     rbind (pagepool_get_phys_page pool) (\<lambda>(addr, pool').
       if addr = 0 then Inr (None, pool')
       else Inr (Some (ADDR_PHYS_TO_KERNEL addr,
                       \<lparr>PT_ASID = asid, valid_count = 0, entries = junk\<rparr>), pool'))"

definition vm_destroy_pagetable :: "u32 \<Rightarrow> pagepool \<Rightarrow> pagepool kresult" where
  "vm_destroy_pagetable pagetable pool = pagepool_free_phys_page (ADDR_KERNEL_TO_PHYS pagetable) pool"

text \<open>The test \<open>entries[i].VPN2 == (vaddr >> 13)\<close> that every loop over the table makes.\<close>

definition entry_matches :: "u32 \<Rightarrow> tlb_entry \<Rightarrow> bool" where
  "entry_matches vaddr e \<longleftrightarrow> ucast (VPN2 e) = drop_bit 13 vaddr"

definition set_even :: "u32 \<Rightarrow> bool \<Rightarrow> tlb_entry \<Rightarrow> tlb_entry" where
  "set_even physaddr dirty e =
     e\<lparr>PFN0 := ucast (drop_bit 12 physaddr), V0 := True, G0 := False, D0 := dirty\<rparr>"

definition set_odd :: "u32 \<Rightarrow> bool \<Rightarrow> tlb_entry \<Rightarrow> tlb_entry" where
  "set_odd physaddr dirty e =
     e\<lparr>PFN1 := ucast (drop_bit 12 physaddr), V1 := True, G1 := False, D1 := dirty\<rparr>"

definition vm_map :: "pagetable \<Rightarrow> u32 \<Rightarrow> u32 \<Rightarrow> int \<Rightarrow> (int \<times> pagetable) kresult" where
  "vm_map pt physaddr vaddr dirty =
     kassert (dirty = 0 \<or> dirty = 1)
      (rbind (scan (entry_matches vaddr) (entries pt) 0 (uint (valid_count pt))) (\<lambda>r.
         case r of
           Some i \<Rightarrow>
             rbind (rd (entries pt) i) (\<lambda>e.
               if addr_is_on_even_page vaddr then
                 if V0 e then Inr (-1, pt)
                 else rbind (wr (entries pt) i (set_even physaddr (dirty = 1) e)) (\<lambda>es.
                   Inr (1, pt\<lparr>entries := es\<rparr>))
               else
                 if V1 e then Inr (-1, pt)
                 else rbind (wr (entries pt) i (set_odd physaddr (dirty = 1) e)) (\<lambda>es.
                   Inr (1, pt\<lparr>entries := es\<rparr>)))
         | None \<Rightarrow>
             if valid_count pt \<ge> of_nat PAGETABLE_ENTRIES then Inr (-1, pt)
             else
               rbind (rd (entries pt) (uint (valid_count pt))) (\<lambda>e0.
                 let e1 = e0\<lparr>VPN2 := ucast (drop_bit 13 vaddr), E_ASID := ucast (PT_ASID pt)\<rparr>;
                     e2 = (if addr_is_on_even_page vaddr
                           then (set_even physaddr (dirty = 1) e1)\<lparr>V1 := False\<rparr>
                           else (set_odd physaddr (dirty = 1) e1)\<lparr>V0 := False\<rparr>)
                 in rbind (wr (entries pt) (uint (valid_count pt)) e2) (\<lambda>es.
                      Inr (1, pt\<lparr>entries := es, valid_count := valid_count pt + 1\<rparr>)))))"

text \<open>
  \<open>found\<close>, \<open>*p_physpageoff\<close> and \<open>*p_virtpageoff\<close>. The loop stops at an entry for the pair of
  pages only when the even page is wanted and valid, or when the odd page is valid.
\<close>

definition vm_get_vaddr_page_offsets :: "pagetable option \<Rightarrow> u32 \<Rightarrow> (int \<times> u32 \<times> u32) kresult" where
  "vm_get_vaddr_page_offsets pagetable vaddr =
     (if vaddr < 0x00001000 then Inr (0, 0, 0)
      else case pagetable of None \<Rightarrow> Inr (0, 0, 0)
      | Some pt \<Rightarrow>
          rbind (scan (\<lambda>e. entry_matches vaddr e \<and> (addr_is_on_even_page vaddr \<and> V0 e \<or> V1 e))
            (entries pt) 0 (uint (valid_count pt))) (\<lambda>r.
            case r of None \<Rightarrow> Inr (0, 0, 0)
            | Some i \<Rightarrow>
                rbind (rd (entries pt) i) (\<lambda>e.
                  if addr_is_on_even_page vaddr \<and> V0 e
                  then Inr (1, ucast (PFN0 e), push_bit 13 (ucast (VPN2 e)))
                  else Inr (1, ucast (PFN1 e), push_bit 13 (ucast (VPN2 e)) OR 0x00001000))))"

definition vm_get_entry_by_vaddr :: "pagetable option \<Rightarrow> u32 \<Rightarrow> int option kresult" where
  "vm_get_entry_by_vaddr pagetable vaddr =
     (if vaddr < 0x00001000 then Inr None
      else case pagetable of None \<Rightarrow> Inr None
      | Some pt \<Rightarrow> scan (entry_matches vaddr) (entries pt) 0 (uint (valid_count pt)))"

text \<open>\<open>vm_unmap\<close> does not leave its loop at a match.\<close>

function vm_unmap_loop :: "u32 \<Rightarrow> int \<Rightarrow> pagetable \<Rightarrow> pagepool \<Rightarrow> (pagetable \<times> pagepool) kresult" where
  "vm_unmap_loop vaddr i pt pool =
     (if i < uint (valid_count pt) then
        rbind (rd (entries pt) i) (\<lambda>e.
          if entry_matches vaddr e then
            if addr_is_on_even_page vaddr then
              rbind (pagepool_free_phys_page (push_bit 12 (ucast (PFN0 e))) pool) (\<lambda>pool'.
                vm_unmap_loop vaddr (i + 1)
                  (pt\<lparr>entries := (entries pt)[nat i := e\<lparr>V0 := False\<rparr>]\<rparr>) pool')
            else
              rbind (pagepool_free_phys_page (push_bit 12 (ucast (PFN1 e))) pool) (\<lambda>pool'.
                vm_unmap_loop vaddr (i + 1)
                  (pt\<lparr>entries := (entries pt)[nat i := e\<lparr>V1 := False\<rparr>]\<rparr>) pool')
          else vm_unmap_loop vaddr (i + 1) pt pool)
      else Inr (pt, pool))"
  by pat_completeness auto
termination
  by (relation "measure (\<lambda>(v, i, pt, pool). nat (uint (valid_count pt) - i))") auto

declare vm_unmap_loop.simps [simp del]

definition vm_unmap ::
  "pagetable option \<Rightarrow> u32 \<Rightarrow> pagepool \<Rightarrow> (pagetable option \<times> pagepool) kresult" where
  "vm_unmap pagetable vaddr pool =
     (case pagetable of None \<Rightarrow> Inr (None, pool)
      | Some pt \<Rightarrow> rbind (vm_unmap_loop vaddr 0 pt pool) (\<lambda>(pt', pool'). Inr (Some pt', pool')))"

definition vm_set_dirty :: "pagetable \<Rightarrow> u32 \<Rightarrow> int \<Rightarrow> pagetable kresult" where
  "vm_set_dirty pt vaddr dirty =
     kassert (dirty = 0 \<or> dirty = 1)
      (rbind (scan (entry_matches vaddr) (entries pt) 0 (uint (valid_count pt))) (\<lambda>r.
         case r of None \<Rightarrow> Inl Panic
         | Some i \<Rightarrow>
             rbind (rd (entries pt) i) (\<lambda>e.
               if addr_is_on_even_page vaddr then
                 if \<not> V0 e then Inl Panic
                 else rbind (wr (entries pt) i (e\<lparr>D0 := (dirty = 1)\<rparr>)) (\<lambda>es. Inr (pt\<lparr>entries := es\<rparr>))
               else
                 if \<not> V1 e then Inl Panic
                 else rbind (wr (entries pt) i (e\<lparr>D1 := (dirty = 1)\<rparr>)) (\<lambda>es.
                   Inr (pt\<lparr>entries := es\<rparr>)))))"

section \<open>TLB exceptions of tlb.c\<close>

text \<open>
  What a TLB exception does to the hardware and to the thread: the entry is written to a random
  TLB slot and the address space is set, or the process (a thread with no page table: the thread)
  is ended.
\<close>

datatype tlb_outcome = Tlb_write_random tlb_entry u32 | Exit_process | Finish_thread

definition tlb_kill :: "pagetable option \<Rightarrow> tlb_outcome" where
  "tlb_kill pagetable = (if pagetable \<noteq> None then Exit_process else Finish_thread)"

definition try_to_fill :: "bool \<Rightarrow> pagetable option \<Rightarrow> u32 \<Rightarrow> tlb_outcome option kresult" where
  "try_to_fill check_dirty pagetable badvaddr =
     (case pagetable of None \<Rightarrow> Inl Assert
      | Some pt \<Rightarrow>
          rbind (vm_get_entry_by_vaddr pagetable badvaddr) (\<lambda>r.
            case r of None \<Rightarrow> Inr None
            | Some i \<Rightarrow>
                rbind (rd (entries pt) i) (\<lambda>e.
                  if addr_is_on_even_page badvaddr then
                    if V0 e \<and> (\<not> check_dirty \<or> D0 e) then Inr (Some (Tlb_write_random e (PT_ASID pt)))
                    else Inr None
                  else
                    if V1 e \<and> (\<not> check_dirty \<or> D1 e) then Inr (Some (Tlb_write_random e (PT_ASID pt)))
                    else Inr None)))"

definition tlb_modified_exception :: "pagetable option \<Rightarrow> tlb_outcome kresult" where
  "tlb_modified_exception pagetable = Inr (tlb_kill pagetable)"

definition tlb_load_exception :: "pagetable option \<Rightarrow> u32 \<Rightarrow> tlb_outcome kresult" where
  "tlb_load_exception pagetable badvaddr =
     rbind (try_to_fill False pagetable badvaddr) (\<lambda>r.
       case r of Some w \<Rightarrow> Inr w | None \<Rightarrow> Inr (tlb_kill pagetable))"

definition tlb_store_exception :: "pagetable option \<Rightarrow> u32 \<Rightarrow> tlb_outcome kresult" where
  "tlb_store_exception pagetable badvaddr =
     rbind (try_to_fill True pagetable badvaddr) (\<lambda>r.
       case r of Some w \<Rightarrow> Inr w | None \<Rightarrow> Inr (tlb_kill pagetable))"

section \<open>The abstract page map\<close>

definition vpn2 :: "u32 \<Rightarrow> 19 word" where
  "vpn2 a = ucast (drop_bit 13 a)"

definition same_page :: "u32 \<Rightarrow> u32 \<Rightarrow> bool" where
  "same_page a b \<longleftrightarrow> drop_bit 12 a = drop_bit 12 b"

definition valid_entries :: "pagetable \<Rightarrow> tlb_entry list" where
  "valid_entries pt = take (unat (valid_count pt)) (entries pt)"

definition pt_ok :: "pagetable \<Rightarrow> bool" where
  "pt_ok pt \<longleftrightarrow> length (entries pt) = PAGETABLE_ENTRIES \<and> unat (valid_count pt) \<le> PAGETABLE_ENTRIES \<and>
     distinct (map VPN2 (valid_entries pt))"

text \<open>The half of an entry that an address selects: its frame and write bit, if it is valid.\<close>

definition half :: "u32 \<Rightarrow> tlb_entry \<Rightarrow> (20 word \<times> bool) option" where
  "half a e = (if addr_is_on_even_page a then (if V0 e then Some (PFN0 e, D0 e) else None)
               else (if V1 e then Some (PFN1 e, D1 e) else None))"

definition pt_entry :: "pagetable \<Rightarrow> u32 \<Rightarrow> tlb_entry option" where
  "pt_entry pt a = find (\<lambda>e. VPN2 e = vpn2 a) (valid_entries pt)"

definition pt_lookup :: "pagetable \<Rightarrow> u32 \<Rightarrow> (20 word \<times> bool) option" where
  "pt_lookup pt a = (case pt_entry pt a of None \<Rightarrow> None | Some e \<Rightarrow> half a e)"

lemma even_page_bit: "addr_is_on_even_page a \<longleftrightarrow> \<not> bit a 12"
  using and_exp_eq_0_iff_not_bit [of a 12] by (simp add: addr_is_on_even_page_def)

lemma ucast_vpn2: "(ucast (vpn2 a) :: u32) = drop_bit 13 a"
proof (rule bit_word_eqI)
  fix n
  have "\<not> bit a (n + 13)" if "\<not> n < 19"
    using that bit_imp_le_length [of a "n + 13"] by auto
  then show "bit (ucast (vpn2 a) :: u32) n = bit (drop_bit 13 a) n" if "n < LENGTH(32)"
    using that by (cases "n < 19") (simp_all add: vpn2_def bit_unsigned_iff bit_drop_bit_eq ac_simps)
qed

lemma ucast_19_inj: "(ucast x :: u32) = ucast y \<longleftrightarrow> x = y" for x y :: "19 word"
proof
  assume eq: "(ucast x :: u32) = ucast y"
  show "x = y"
  proof (rule bit_word_eqI)
    fix n assume "n < LENGTH(19)"
    then have "bit (ucast x :: u32) n = bit x n" "bit (ucast y :: u32) n = bit y n"
      by (simp_all add: bit_unsigned_iff)
    with eq show "bit x n = bit y n" by simp
  qed
qed simp

lemma entry_matches_iff: "entry_matches a e \<longleftrightarrow> VPN2 e = vpn2 a"
  by (simp add: entry_matches_def ucast_19_inj flip: ucast_vpn2)

lemma same_page_iff:
  "same_page a b \<longleftrightarrow> vpn2 a = vpn2 b \<and> addr_is_on_even_page a = addr_is_on_even_page b"
proof -
  have "drop_bit 13 c = drop_bit 12 c div 2" for c :: u32
    using drop_bit_Suc [of 12 c] by (simp add: drop_bit_half)
  then have split: "drop_bit 12 c = drop_bit 12 d \<longleftrightarrow>
      drop_bit 13 c = drop_bit 13 d \<and> bit c 12 = bit d 12" for c d :: u32
    using bit_eq_rec [of "drop_bit 12 c" "drop_bit 12 d"] by (auto simp: bit_iff_odd_drop_bit)
  have "vpn2 a = vpn2 b \<longleftrightarrow> drop_bit 13 a = drop_bit 13 b"
    by (simp flip: ucast_vpn2 ucast_19_inj)
  then show ?thesis by (auto simp: same_page_def split even_page_bit)
qed

section \<open>The table as a map\<close>

lemma pt_ok_length: "pt_ok pt \<Longrightarrow> length (valid_entries pt) = unat (valid_count pt)"
  by (simp add: pt_ok_def valid_entries_def)

lemma pt_scan:
  assumes "pt_ok pt"
  obtains "scan (entry_matches a) (entries pt) 0 (uint (valid_count pt)) = Inr None"
      "pt_entry pt a = None" "vpn2 a \<notin> VPN2 ` set (valid_entries pt)"
  | i where "scan (entry_matches a) (entries pt) 0 (uint (valid_count pt)) = Inr (Some (int i))"
      "i < unat (valid_count pt)" "i < length (entries pt)" "VPN2 (entries pt ! i) = vpn2 a"
      "pt_entry pt a = Some (entries pt ! i)"
proof -
  have le: "unat (valid_count pt) \<le> length (entries pt)" using assms by (simp add: pt_ok_def)
  then have "uint (valid_count pt) \<le> int (length (entries pt))" by (simp add: uint_le)
  note len = this le
  from scan_total [of 0 "uint (valid_count pt)" "entries pt" "entry_matches a"] len obtain r where
    r: "scan (entry_matches a) (entries pt) 0 (uint (valid_count pt)) = Inr r"
      "first_from (\<lambda>k. entry_matches a (entries pt ! nat k)) 0 (uint (valid_count pt)) r" by auto
  show thesis
  proof (cases r)
    case None
    have "VPN2 (entries pt ! k) \<noteq> vpn2 a" if "k < unat (valid_count pt)" for k
    proof -
      have "int k < uint (valid_count pt)" using that by (simp add: less_unat)
      with r(2) None show ?thesis
        by (auto simp: first_from_def entry_matches_iff dest: spec [of _ "int k"])
    qed
    with len have "vpn2 a \<notin> VPN2 ` set (valid_entries pt)"
      by (fastforce simp: valid_entries_def in_set_conv_nth)
    moreover from this have "pt_entry pt a = None"
      by (force simp: pt_entry_def find_None_iff)
    ultimately show thesis using that(1) r(1) None by simp
  next
    case (Some k)
    with r have k: "0 \<le> k" "k < uint (valid_count pt)" "VPN2 (entries pt ! nat k) = vpn2 a"
      by (auto simp: first_from_def entry_matches_iff)
    then have i: "nat k < unat (valid_count pt)" by (simp add: less_unat)
    then have nth: "valid_entries pt ! nat k = entries pt ! nat k" by (simp add: valid_entries_def)
    with find_key_nth [of VPN2 "valid_entries pt" "nat k"] assms i k(3)
    have "pt_entry pt a = Some (entries pt ! nat k)"
      by (simp add: pt_entry_def pt_ok_length) (simp add: pt_ok_def)
    with that(2) [of "nat k"] r(1) Some k i len show thesis by simp
  qed
qed

lemma pt_update_entry:
  assumes "pt_ok pt" "i < unat (valid_count pt)" "VPN2 e = VPN2 (entries pt ! i)"
  defines "pt' \<equiv> pt\<lparr>entries := (entries pt)[i := e]\<rparr>"
  shows "pt_ok pt'" "pt_entry pt' b = (if vpn2 b = VPN2 e then Some e else pt_entry pt b)"
proof -
  have v: "valid_entries pt' = (valid_entries pt)[i := e]"
    by (simp add: pt'_def valid_entries_def take_update_swap)
  have i: "i < length (valid_entries pt)" "VPN2 e = VPN2 (valid_entries pt ! i)"
    using assms by (simp_all add: pt_ok_length) (simp add: valid_entries_def)
  show "pt_ok pt'"
    using assms(1) map_key_update [OF i] by (simp add: pt_ok_def v) (simp add: pt'_def)
  show "pt_entry pt' b = (if vpn2 b = VPN2 e then Some e else pt_entry pt b)"
    using assms(1) find_key_update [OF _ i] by (simp add: pt_entry_def v pt_ok_def)
qed

lemma pt_append_entry:
  assumes "pt_ok pt" "unat (valid_count pt) < PAGETABLE_ENTRIES"
    "VPN2 e \<notin> VPN2 ` set (valid_entries pt)"
  defines "pt' \<equiv> pt\<lparr>entries := (entries pt)[unat (valid_count pt) := e],
    valid_count := valid_count pt + 1\<rparr>"
  shows "pt_ok pt'" "pt_entry pt' b = (if vpn2 b = VPN2 e then Some e else pt_entry pt b)"
proof -
  let ?n = "unat (valid_count pt)"
  have "?n + 1 < 2 ^ 32" using assms(2) by (simp add: PAGETABLE_ENTRIES_def)
  then have n: "unat (valid_count pt + 1) = Suc ?n" by (simp add: unat_word_ariths)
  have "?n < length (entries pt)" using assms(1,2) by (simp add: pt_ok_def)
  then have v: "valid_entries pt' = valid_entries pt @ [e]"
    by (simp add: pt'_def valid_entries_def n take_Suc_conv_app_nth)
  show "pt_ok pt'"
    using assms(1-3) n by (simp add: pt_ok_def v) (simp add: pt'_def)
  show "pt_entry pt' b = (if vpn2 b = VPN2 e then Some e else pt_entry pt b)"
    unfolding pt_entry_def v using find_key_append [OF assms(3)] by simp
qed

lemma pt_lookup_changed:
  assumes "pt_entry pt' b = (if vpn2 b = vpn2 a then Some e' else pt_entry pt b)"
    and "half a e' = h" and "addr_is_on_even_page b \<noteq> addr_is_on_even_page a \<Longrightarrow> vpn2 b = vpn2 a \<Longrightarrow>
      half b e' = pt_lookup pt b"
  shows "pt_lookup pt' b = (if same_page b a then h else pt_lookup pt b)"
  using assms by (auto simp: pt_lookup_def same_page_iff half_def split: option.splits)

text \<open>\<open>pt'\<close> is \<open>pt\<close> with the page of \<open>vaddr\<close> mapped as \<open>h\<close> says, and no other page changed.\<close>

definition page_set :: "pagetable \<Rightarrow> u32 \<Rightarrow> (20 word \<times> bool) option \<Rightarrow> pagetable \<Rightarrow> bool" where
  "page_set pt vaddr h pt' \<longleftrightarrow>
     (\<forall>b. pt_lookup pt' b = (if same_page b vaddr then h else pt_lookup pt b))"

lemma page_set_update:
  assumes ok: "pt_ok pt" and i: "i < unat (valid_count pt)" "VPN2 e = VPN2 (entries pt ! i)"
    and a: "VPN2 (entries pt ! i) = vpn2 vaddr" "pt_entry pt vaddr = Some (entries pt ! i)"
    and other: "\<And>b. addr_is_on_even_page b \<noteq> addr_is_on_even_page vaddr \<Longrightarrow>
      half b e = half b (entries pt ! i)"
  shows "page_set pt vaddr (half vaddr e) (pt\<lparr>entries := (entries pt)[i := e]\<rparr>)"
  unfolding page_set_def
proof (intro allI pt_lookup_changed)
  fix b
  show "pt_entry (pt\<lparr>entries := (entries pt)[i := e]\<rparr>) b =
      (if vpn2 b = vpn2 vaddr then Some e else pt_entry pt b)"
    using pt_update_entry(2) [OF ok i] i(2) a(1) by simp
  show "half b e = pt_lookup pt b"
    if "addr_is_on_even_page b \<noteq> addr_is_on_even_page vaddr" "vpn2 b = vpn2 vaddr"
    using other that a by (simp add: pt_lookup_def pt_entry_def)
qed simp

text \<open>
  \<open>vm_map\<close> as a map update: it returns 1 and the page is mapped to the frame with the permission
  that was asked for, or it returns -1 and changes nothing, because the page is mapped already or
  the table is full and has no entry for the page's pair.
\<close>

definition vm_map_ok :: "pagetable \<Rightarrow> u32 \<Rightarrow> bool" where
  "vm_map_ok pt vaddr \<longleftrightarrow> pt_lookup pt vaddr = None \<and>
     (pt_entry pt vaddr \<noteq> None \<or> unat (valid_count pt) < PAGETABLE_ENTRIES)"

lemma vm_map_fresh:
  assumes ok: "pt_ok pt" and d: "dirty = 0 \<or> dirty = 1" and room: "unat (valid_count pt) < PAGETABLE_ENTRIES"
    and s: "scan (entry_matches vaddr) (entries pt) 0 (uint (valid_count pt)) = Inr None"
      "pt_entry pt vaddr = None" "vpn2 vaddr \<notin> VPN2 ` set (valid_entries pt)"
  shows "\<exists>pt'. vm_map pt physaddr vaddr dirty = Inr (1, pt') \<and> pt_ok pt' \<and>
    page_set pt vaddr (Some (ucast (drop_bit 12 physaddr), dirty = 1)) pt'"
proof -
  let ?n = "unat (valid_count pt)"
  define e where "e = (let e1 = (entries pt ! ?n)\<lparr>VPN2 := vpn2 vaddr, E_ASID := ucast (PT_ASID pt)\<rparr>
    in if addr_is_on_even_page vaddr then (set_even physaddr (dirty = 1) e1)\<lparr>V1 := False\<rparr>
       else (set_odd physaddr (dirty = 1) e1)\<lparr>V0 := False\<rparr>)"
  have e: "VPN2 e = vpn2 vaddr" "half vaddr e = Some (ucast (drop_bit 12 physaddr), dirty = 1)"
    "addr_is_on_even_page b \<noteq> addr_is_on_even_page vaddr \<Longrightarrow> half b e = None" for b
    by (auto simp: e_def set_even_def set_odd_def half_def)
  define pt' where "pt' = pt\<lparr>entries := (entries pt)[?n := e], valid_count := valid_count pt + 1\<rparr>"
  have "\<not> valid_count pt \<ge> of_nat PAGETABLE_ENTRIES"
    using room by (simp add: word_le_nat_alt PAGETABLE_ENTRIES_def)
  moreover have "?n < length (entries pt)" using ok room by (simp add: pt_ok_def)
  then have "uint (valid_count pt) < int (length (entries pt))"
    by (simp only: of_nat_less_iff uint_nat)
  ultimately have "vm_map pt physaddr vaddr dirty = Inr (1, pt')"
    using s(1) d by (auto simp: vm_map_def pt'_def e_def vpn2_def)
  moreover have "pt_ok pt'"
    using pt_append_entry(1) [OF ok room, of e] e(1) s(3) by (simp add: pt'_def)
  moreover have "page_set pt vaddr (Some (ucast (drop_bit 12 physaddr), dirty = 1)) pt'"
    unfolding page_set_def
  proof (intro allI pt_lookup_changed)
    show "pt_entry pt' b = (if vpn2 b = vpn2 vaddr then Some e else pt_entry pt b)" for b
      using pt_append_entry(2) [OF ok room, of e] e(1) s(3) by (simp add: pt'_def)
    show "half b e = pt_lookup pt b"
      if "addr_is_on_even_page b \<noteq> addr_is_on_even_page vaddr" "vpn2 b = vpn2 vaddr" for b
      using e(3) that s(2) by (simp add: pt_lookup_def pt_entry_def)
  qed (rule e(2))
  ultimately show ?thesis by blast
qed

lemma vm_map_existing:
  assumes ok: "pt_ok pt" and d: "dirty = 0 \<or> dirty = 1"
    and s: "scan (entry_matches vaddr) (entries pt) 0 (uint (valid_count pt)) = Inr (Some (int i))"
      "i < unat (valid_count pt)" "i < length (entries pt)" "VPN2 (entries pt ! i) = vpn2 vaddr"
      "pt_entry pt vaddr = Some (entries pt ! i)"
    and free: "half vaddr (entries pt ! i) = None"
  shows "\<exists>pt'. vm_map pt physaddr vaddr dirty = Inr (1, pt') \<and> pt_ok pt' \<and>
    page_set pt vaddr (Some (ucast (drop_bit 12 physaddr), dirty = 1)) pt'"
proof -
  let ?e = "entries pt ! i"
  define e where "e = (if addr_is_on_even_page vaddr then set_even physaddr (dirty = 1) ?e
    else set_odd physaddr (dirty = 1) ?e)"
  have e: "VPN2 e = VPN2 ?e" "half vaddr e = Some (ucast (drop_bit 12 physaddr), dirty = 1)"
    "addr_is_on_even_page b \<noteq> addr_is_on_even_page vaddr \<Longrightarrow> half b e = half b ?e" for b
    by (auto simp: e_def set_even_def set_odd_def half_def)
  have "vm_map pt physaddr vaddr dirty = Inr (1, pt\<lparr>entries := (entries pt)[i := e]\<rparr>)"
    using s d free by (auto simp: vm_map_def e_def half_def split: if_splits)
  with pt_update_entry(1) [OF ok s(2) e(1)] page_set_update [OF ok s(2) e(1) s(4,5) e(3)] e(2)
  show ?thesis by auto
qed

lemma vm_map_spec:
  assumes ok: "pt_ok pt" and d: "dirty = 0 \<or> dirty = 1"
  shows "if vm_map_ok pt vaddr
    then \<exists>pt'. vm_map pt physaddr vaddr dirty = Inr (1, pt') \<and> pt_ok pt' \<and>
      page_set pt vaddr (Some (ucast (drop_bit 12 physaddr), dirty = 1)) pt'
    else vm_map pt physaddr vaddr dirty = Inr (-1, pt)"
  using ok
proof (cases rule: pt_scan [where a = vaddr])
  case 1
  show ?thesis
  proof (cases "unat (valid_count pt) < PAGETABLE_ENTRIES")
    case False
    then have "valid_count pt \<ge> of_nat PAGETABLE_ENTRIES"
      by (simp add: word_le_nat_alt PAGETABLE_ENTRIES_def)
    with False 1 d show ?thesis by (auto simp: vm_map_def vm_map_ok_def)
  next
    case True
    from vm_map_fresh [OF ok d True 1, of physaddr] show ?thesis
      using True 1(2) by (auto simp: vm_map_ok_def pt_lookup_def)
  qed
next
  case (2 i)
  show ?thesis
  proof (cases "half vaddr (entries pt ! i)")
    case None
    from vm_map_existing [OF ok d 2 None, of physaddr] show ?thesis
      using 2(5) None by (auto simp: vm_map_ok_def pt_lookup_def)
  next
    case (Some x)
    with 2 d show ?thesis
      by (auto simp: vm_map_def vm_map_ok_def pt_lookup_def half_def split: if_splits)
  qed
qed

text \<open>\<open>vm_set_dirty\<close> changes the write permission of a mapped page, and panics on any other.\<close>

lemma vm_set_dirty_spec:
  assumes ok: "pt_ok pt" and d: "dirty = 0 \<or> dirty = 1"
  shows "case pt_lookup pt vaddr of
      None \<Rightarrow> vm_set_dirty pt vaddr dirty = Inl Panic
    | Some (f, w) \<Rightarrow> \<exists>pt'. vm_set_dirty pt vaddr dirty = Inr pt' \<and> pt_ok pt' \<and>
        page_set pt vaddr (Some (f, dirty = 1)) pt'"
  using ok
proof (cases rule: pt_scan [where a = vaddr])
  case 1
  with d show ?thesis by (auto simp: vm_set_dirty_def pt_lookup_def)
next
  case (2 i)
  let ?e = "entries pt ! i"
  define e where "e = (if addr_is_on_even_page vaddr then ?e\<lparr>D0 := (dirty = 1)\<rparr> else ?e\<lparr>D1 := (dirty = 1)\<rparr>)"
  have e: "VPN2 e = VPN2 ?e" "half vaddr e = map_option (\<lambda>(f, w). (f, dirty = 1)) (half vaddr ?e)"
    "addr_is_on_even_page b \<noteq> addr_is_on_even_page vaddr \<Longrightarrow> half b e = half b ?e" for b
    by (auto simp: e_def half_def)
  have set: "vm_set_dirty pt vaddr dirty = (if half vaddr ?e = None then Inl Panic
      else Inr (pt\<lparr>entries := (entries pt)[i := e]\<rparr>))"
    using 2 d by (auto simp: vm_set_dirty_def e_def half_def)
  with pt_update_entry(1) [OF ok 2(2) e(1)] page_set_update [OF ok 2(2) e(1) 2(4,5) e(3)] e(2) 2(5)
  show ?thesis by (auto simp: pt_lookup_def split: option.splits)
qed

text \<open>\<open>vm_unmap\<close> clears the page's valid bit and gives the frame back to the page pool.\<close>

lemma vm_unmap_skip:
  assumes "0 \<le> j" "j \<le> m" "m \<le> uint (valid_count pt)" "uint (valid_count pt) \<le> int (length (entries pt))"
    and "\<And>k. j \<le> k \<Longrightarrow> k < m \<Longrightarrow> \<not> entry_matches vaddr (entries pt ! nat k)"
  shows "vm_unmap_loop vaddr j pt pool = vm_unmap_loop vaddr m pt pool"
  using assms
proof (induction "nat (m - j)" arbitrary: j)
  case (Suc d)
  then have "j < m" by simp
  moreover have "vm_unmap_loop vaddr j pt pool = vm_unmap_loop vaddr (j + 1) pt pool"
    using Suc.prems(1,3,4) Suc.prems(5) [of j] \<open>j < m\<close>
    by (simp add: vm_unmap_loop.simps [of vaddr j])
  moreover have "vm_unmap_loop vaddr (j + 1) pt pool = vm_unmap_loop vaddr m pt pool"
    using Suc.hyps(2) Suc.prems \<open>j < m\<close> by (intro Suc.hyps(1)) auto
  ultimately show ?case by simp
next
  case 0
  then have "j = m" by simp
  then show ?case by simp
qed

lemma pt_match_unique:
  assumes "pt_ok pt" "i < unat (valid_count pt)" "VPN2 (entries pt ! i) = vpn2 a"
    "k < unat (valid_count pt)" "k \<noteq> i"
  shows "\<not> entry_matches a (entries pt ! k)"
proof -
  have "distinct (map VPN2 (valid_entries pt))" using assms(1) by (simp add: pt_ok_def)
  then have "map VPN2 (valid_entries pt) ! k \<noteq> map VPN2 (valid_entries pt) ! i"
    using assms by (subst nth_eq_iff_index_eq) (simp_all add: pt_ok_length)
  with assms have "VPN2 (entries pt ! k) \<noteq> VPN2 (entries pt ! i)"
    by (simp add: pt_ok_length) (simp add: valid_entries_def)
  with assms(3) show ?thesis by (simp add: entry_matches_iff)
qed

definition frame_addr :: "20 word \<Rightarrow> u32" where
  "frame_addr f = push_bit 12 (ucast f)"

lemma vm_unmap_spec:
  assumes ok: "pt_ok pt" "pagepool_ok pool"
    and m: "pt_lookup pt vaddr = Some (f, w)" "frame_addr f \<in> pagepool_held pool"
  shows "\<exists>pt' pool'. vm_unmap (Some pt) vaddr pool = Inr (Some pt', pool') \<and> pt_ok pt' \<and>
    page_set pt vaddr None pt' \<and> pagepool_ok pool' \<and>
    pagepool_held pool' = pagepool_held pool - {frame_addr f}"
  using ok(1)
proof (cases rule: pt_scan [where a = vaddr])
  case 1
  with m show ?thesis by (simp add: pt_lookup_def)
next
  case (2 i)
  let ?e = "entries pt ! i" and ?n = "uint (valid_count pt)"
  define e where "e = (if addr_is_on_even_page vaddr then ?e\<lparr>V0 := False\<rparr> else ?e\<lparr>V1 := False\<rparr>)"
  have e: "VPN2 e = VPN2 ?e" "half vaddr e = None"
    "addr_is_on_even_page b \<noteq> addr_is_on_even_page vaddr \<Longrightarrow> half b e = half b ?e" for b
    by (auto simp: e_def half_def)
  define pt' where "pt' = pt\<lparr>entries := (entries pt)[i := e]\<rparr>"
  have half: "half vaddr ?e = Some (f, w)" using m(1) 2(5) by (simp add: pt_lookup_def)
  from pool.put_law [OF ok(2) m(2)] obtain pool' where
    pool': "pagepool_free_phys_page (frame_addr f) pool = Inr pool'" "pagepool_ok pool'"
      "pagepool_held pool' = pagepool_held pool - {frame_addr f}" by auto
  have n: "?n \<le> int (length (entries pt))" "int i < ?n"
    using ok(1) 2(2) by (simp_all add: pt_ok_def uint_le less_unat)
  have other: "\<not> entry_matches vaddr (entries pt ! nat k)" if "0 \<le> k" "k < ?n" "nat k \<noteq> i" for k
    using pt_match_unique [OF ok(1) 2(2,4)] that by (simp add: less_unat)
  have "vm_unmap_loop vaddr 0 pt pool = vm_unmap_loop vaddr (int i) pt pool"
    using n by (intro vm_unmap_skip other) auto
  also have "\<dots> = vm_unmap_loop vaddr (int i + 1) pt' pool'"
    using n 2(3,4) half pool'(1)
    by (auto simp: vm_unmap_loop.simps [of vaddr "int i"] pt'_def e_def half_def entry_matches_iff
        frame_addr_def split: if_splits)
  also have "\<dots> = vm_unmap_loop vaddr ?n pt' pool'"
    using n other by (intro vm_unmap_skip) (auto simp: pt'_def)
  also have "\<dots> = Inr (pt', pool')" by (subst vm_unmap_loop.simps) (simp add: pt'_def)
  finally show ?thesis
    using pool' pt_update_entry(1) [OF ok(1) 2(2) e(1)] page_set_update [OF ok(1) 2(2) e(1) 2(4,5) e(3)] e(2)
    by (simp add: vm_unmap_def pt'_def)
qed

section \<open>Refilling the TLB\<close>

lemma try_to_fill_spec:
  assumes "pt_ok pt" "0x1000 \<le> badvaddr"
  shows "try_to_fill check (Some pt) badvaddr =
    Inr (case pt_lookup pt badvaddr of None \<Rightarrow> None
      | Some (f, w) \<Rightarrow> if check \<and> \<not> w then None
          else Some (Tlb_write_random (the (pt_entry pt badvaddr)) (PT_ASID pt)))"
  using assms(1)
proof (cases rule: pt_scan [where a = badvaddr])
  case 1
  with assms(2) show ?thesis
    by (auto simp: try_to_fill_def vm_get_entry_by_vaddr_def pt_lookup_def)
next
  case (2 i)
  with assms(2) show ?thesis
    by (auto simp: try_to_fill_def vm_get_entry_by_vaddr_def pt_lookup_def half_def)
qed

section \<open>Reporting the page of an address\<close>

lemma pt_scan_where:
  assumes "pt_ok pt"
  obtains "scan (\<lambda>e. entry_matches a e \<and> Q e) (entries pt) 0 (uint (valid_count pt)) = Inr None"
      "\<And>e. pt_entry pt a = Some e \<Longrightarrow> \<not> Q e"
  | i where "scan (\<lambda>e. entry_matches a e \<and> Q e) (entries pt) 0 (uint (valid_count pt)) = Inr (Some (int i))"
      "i < length (entries pt)" "pt_entry pt a = Some (entries pt ! i)" "Q (entries pt ! i)"
proof -
  have len: "uint (valid_count pt) \<le> int (length (entries pt))"
    using assms by (simp add: pt_ok_def uint_le)
  from scan_total [of 0 "uint (valid_count pt)" "entries pt" "\<lambda>e. entry_matches a e \<and> Q e"] len
  obtain r where r: "scan (\<lambda>e. entry_matches a e \<and> Q e) (entries pt) 0 (uint (valid_count pt)) = Inr r"
    "first_from (\<lambda>k. entry_matches a (entries pt ! nat k) \<and> Q (entries pt ! nat k)) 0
      (uint (valid_count pt)) r" by auto
  show thesis
    using assms
  proof (cases rule: pt_scan [where a = a])
    case 1
    have "r = None"
    proof (rule ccontr)
      assume "r \<noteq> None"
      then obtain k where k: "0 \<le> k" "k < uint (valid_count pt)" "VPN2 (entries pt ! nat k) = vpn2 a"
        using r(2) by (auto simp: first_from_def entry_matches_iff)
      then have "entries pt ! nat k \<in> set (valid_entries pt)"
        using len by (auto simp: valid_entries_def in_set_conv_nth less_unat intro!: exI [of _ "nat k"])
      with 1(3) k(3) show False by (metis image_eqI)
    qed
    with that(1) r(1) 1(2) show thesis by simp
  next
    case (2 i)
    show thesis
    proof (cases r)
      case None
      have "int i < uint (valid_count pt)" using 2(2) by (simp add: less_unat)
      with r(2) None 2(4) have "\<not> Q (entries pt ! i)"
        by (auto simp: first_from_def entry_matches_iff dest: spec [of _ "int i"])
      with that(1) r(1) None 2(5) show thesis by simp
    next
      case (Some k)
      with r(2) have k: "0 \<le> k" "k < uint (valid_count pt)" "entry_matches a (entries pt ! nat k)"
        "Q (entries pt ! nat k)" by (auto simp: first_from_def)
      with pt_match_unique [OF assms 2(2,4), of "nat k"] have "nat k = i" by (auto simp: less_unat)
      with that(2) [of i] r(1) Some k 2 show thesis by auto
    qed
  qed
qed

lemma bit_0x1000: "bit (0x1000 :: u32) n \<longleftrightarrow> n = 12"
  using bit_exp_iff [where 'a = "32 word", of 12 n] by (simp add: possible_bit_def) auto

lemma odd_twin [simp]: "vpn2 (a OR 0x1000) = vpn2 a" "\<not> addr_is_on_even_page (a OR 0x1000)"
proof -
  have "drop_bit 13 (a OR 0x1000) = drop_bit 13 a"
    by (rule bit_word_eqI) (simp only: bit_drop_bit_eq bit_or_iff bit_0x1000 o_def, simp)
  then show "vpn2 (a OR 0x1000) = vpn2 a" by (simp add: vpn2_def)
  show "\<not> addr_is_on_even_page (a OR 0x1000)" by (simp only: even_page_bit bit_or_iff bit_0x1000) simp
qed

lemma page_start:
  "addr_is_on_even_page a \<Longrightarrow> push_bit 13 (ucast (vpn2 a)) = push_bit 12 (drop_bit 12 a)"
  "push_bit 13 (ucast (vpn2 a)) OR 0x1000 = push_bit 12 (drop_bit 12 a) OR 0x1000"
proof -
  have bits: "bit (push_bit k (drop_bit k a)) n \<longleftrightarrow> k \<le> n \<and> bit a n" if "n < LENGTH(32)" for k n
    using that by (auto simp: bit_push_bit_iff bit_drop_bit_eq)
  have le: "13 \<le> n \<longleftrightarrow> 12 \<le> n \<and> n \<noteq> 12" for n :: nat by arith
  show "push_bit 13 (ucast (vpn2 a)) = push_bit 12 (drop_bit 12 a)" if "addr_is_on_even_page a"
    using that unfolding even_page_bit ucast_vpn2
    by (intro bit_word_eqI) (simp only: bits le, blast)
  show "push_bit 13 (ucast (vpn2 a)) OR 0x1000 = push_bit 12 (drop_bit 12 a) OR 0x1000"
    unfolding ucast_vpn2 by (intro bit_word_eqI) (simp only: bit_or_iff bit_0x1000 bits le, blast)
qed

lemma page_start_odd:
  "\<not> addr_is_on_even_page a \<Longrightarrow> push_bit 12 (drop_bit 12 a) OR 0x1000 = push_bit 12 (drop_bit 12 a)"
  unfolding even_page_bit
  by (intro bit_word_eqI)
    (simp only: bit_or_iff bit_0x1000, auto simp: bit_push_bit_iff bit_drop_bit_eq)

section \<open>Properties\<close>

text \<open>A table with one entry in use, and one with none, for the witnesses.\<close>

definition entry0 :: tlb_entry where
  "entry0 = \<lparr>VPN2 = 0, E_ASID = 0, PFN0 = 0, D0 = False, V0 = False, G0 = False,
     PFN1 = 0, D1 = False, V1 = False, G1 = False\<rparr>"

definition pt_empty :: pagetable where
  "pt_empty = \<lparr>PT_ASID = 3, valid_count = 0, entries = replicate 340 entry0\<rparr>"

definition pt_odd :: pagetable where
  "pt_odd = \<lparr>PT_ASID = 3, valid_count = 1,
     entries = entry0\<lparr>VPN2 := 1, PFN1 := 1, V1 := True\<rparr> # replicate 339 entry0\<rparr>"

lemma pt_example_ok: "pt_ok pt_empty" "pt_ok pt_odd"
  by (simp_all add: pt_ok_def pt_empty_def pt_odd_def PAGETABLE_ENTRIES_def valid_entries_def)

lemma pt_odd_lookup: "pt_lookup pt_odd 0x3004 = Some (1, False)" "pt_lookup pt_odd 0x2004 = None"
proof -
  have "vpn2 0x3004 = 1" "addr_is_on_even_page 0x3004 = False"
    "vpn2 0x2004 = 1" "addr_is_on_even_page 0x2004 = True" by code_simp+
  then show "pt_lookup pt_odd 0x3004 = Some (1, False)" "pt_lookup pt_odd 0x2004 = None"
    by (simp_all add: pt_lookup_def pt_entry_def valid_entries_def pt_odd_def half_def entry0_def)
qed

text \<open>
  Property C8: \<open>vm_map\<close> is an update of the map from pages to frames. It returns 1, and then the
  page of \<open>vaddr\<close> is mapped to the frame of \<open>physaddr\<close> with the write permission \<open>dirty\<close> and no
  other page changes; or it returns -1 and changes nothing, exactly when the page is mapped
  already or a new entry is needed and all 340 are in use.
\<close>

theorem vm_map_updates:
  assumes "pt_ok pt" "dirty = 0 \<or> dirty = 1"
  shows "if pt_lookup pt vaddr = None \<and>
      (pt_entry pt vaddr \<noteq> None \<or> unat (valid_count pt) < PAGETABLE_ENTRIES)
    then \<exists>pt'. vm_map pt physaddr vaddr dirty = Inr (1, pt') \<and> pt_ok pt' \<and>
      (\<forall>b. pt_lookup pt' b = (if same_page b vaddr
        then Some (ucast (drop_bit 12 physaddr), dirty = 1) else pt_lookup pt b))
    else vm_map pt physaddr vaddr dirty = Inr (-1, pt)"
  using vm_map_spec [OF assms] unfolding vm_map_ok_def page_set_def .

theorem vm_map_updates_witness:
  "pt_ok pt_odd \<and> vm_map pt_odd 0x5000 0x3004 1 = Inr (-1, pt_odd) \<and>
   (\<exists>pt'. vm_map pt_odd 0x5000 0x2004 1 = Inr (1, pt') \<and> pt_lookup pt' 0x2abc = Some (5, True) \<and>
     pt_lookup pt' 0x3004 = Some (1, False))"
proof -
  have "same_page 0x2abc 0x2004" "\<not> same_page 0x3004 0x2004"
    "(ucast (drop_bit 12 (0x5000 :: u32)) :: 20 word) = 5" by code_simp+
  moreover have "unat (valid_count pt_odd) < PAGETABLE_ENTRIES"
    by (simp add: pt_odd_def PAGETABLE_ENTRIES_def)
  ultimately show ?thesis
    using vm_map_updates [OF pt_example_ok(2), of 1 "0x2004" "0x5000"]
      vm_map_updates [OF pt_example_ok(2), of 1 "0x3004" "0x5000"] pt_example_ok
    by (auto simp: pt_odd_lookup)
qed

text \<open>
  \<open>vm_unmap\<close> of a mapped page whose frame the page pool has handed out removes that
  page from the map, leaves every other page, and gives exactly that frame back.
\<close>

theorem vm_unmap_releases:
  assumes "pt_ok pt" "pagepool_ok pool" "pt_lookup pt vaddr = Some (f, w)"
    and "frame_addr f \<in> pagepool_held pool"
  shows "\<exists>pt' pool'. vm_unmap (Some pt) vaddr pool = Inr (Some pt', pool') \<and> pt_ok pt' \<and>
    (\<forall>b. pt_lookup pt' b = (if same_page b vaddr then None else pt_lookup pt b)) \<and>
    pagepool_ok pool' \<and> pagepool_held pool' = pagepool_held pool - {frame_addr f}"
  using vm_unmap_spec [OF assms] unfolding page_set_def .

theorem vm_unmap_releases_witness:
  "\<exists>pt' pool'. vm_unmap (Some pt_odd) 0x3004 (pool4 3 2) = Inr (Some pt', pool') \<and>
     pt_lookup pt' 0x3004 = None \<and> pagepool_held pool' = {}"
proof -
  have "frame_addr 1 = 0x1000" "same_page 0x3004 0x3004" by code_simp+
  then show ?thesis
    using vm_unmap_releases [OF pt_example_ok(2) pool4_ok(2) pt_odd_lookup(1)]
    by (auto simp: pool4_held)
qed

text \<open>
  \<open>vm_set_dirty\<close> sets the write permission of a mapped page and nothing else, and
  stops the kernel when the page is not mapped.
\<close>

theorem vm_set_dirty_updates:
  assumes "pt_ok pt" "dirty = 0 \<or> dirty = 1"
  shows "case pt_lookup pt vaddr of
      None \<Rightarrow> vm_set_dirty pt vaddr dirty = Inl Panic
    | Some (f, w) \<Rightarrow> \<exists>pt'. vm_set_dirty pt vaddr dirty = Inr pt' \<and> pt_ok pt' \<and>
        (\<forall>b. pt_lookup pt' b = (if same_page b vaddr then Some (f, dirty = 1) else pt_lookup pt b))"
  using vm_set_dirty_spec [OF assms] unfolding page_set_def .

theorem vm_set_dirty_updates_witness:
  "vm_set_dirty pt_odd 0x2004 1 = Inl Panic \<and>
   (\<exists>pt'. vm_set_dirty pt_odd 0x3004 1 = Inr pt' \<and> pt_lookup pt' 0x3004 = Some (1, True))"
proof -
  have "same_page 0x3004 0x3004" by code_simp
  then show ?thesis
    using vm_set_dirty_updates [OF pt_example_ok(2), of 1 "0x2004"]
      vm_set_dirty_updates [OF pt_example_ok(2), of 1 "0x3004"]
    by (auto simp: pt_odd_lookup)
qed

text \<open>
  Property C24: outside the first page, a TLB load miss writes the entry of the address to the TLB
  exactly when the page is mapped, a store miss exactly when it is mapped and writable; in every
  other case the process is ended. Neither faults nor asserts.
\<close>

theorem tlb_miss_refill:
  assumes "pt_ok pt" "0x1000 \<le> badvaddr"
  shows "tlb_load_exception (Some pt) badvaddr = Inr (if pt_lookup pt badvaddr = None then Exit_process
      else Tlb_write_random (the (pt_entry pt badvaddr)) (PT_ASID pt)) \<and>
    tlb_store_exception (Some pt) badvaddr = Inr (case pt_lookup pt badvaddr of
      Some (f, True) \<Rightarrow> Tlb_write_random (the (pt_entry pt badvaddr)) (PT_ASID pt)
    | _ \<Rightarrow> Exit_process)"
  using try_to_fill_spec [OF assms, of False] try_to_fill_spec [OF assms, of True]
  by (auto simp: tlb_load_exception_def tlb_store_exception_def tlb_kill_def split: option.splits)

theorem tlb_miss_refill_witness:
  "(\<exists>e. tlb_load_exception (Some pt_odd) 0x3004 = Inr (Tlb_write_random e 3)) \<and>
   tlb_store_exception (Some pt_odd) 0x3004 = Inr Exit_process \<and>
   tlb_load_exception (Some pt_odd) 0x2004 = Inr Exit_process"
  using tlb_miss_refill [OF pt_example_ok(2), of "0x3004"] tlb_miss_refill [OF pt_example_ok(2), of "0x2004"]
  by (simp add: pt_odd_lookup) (simp add: pt_odd_def)

text \<open>
  Property C25: \<open>vm_get_vaddr_page_offsets\<close> finds every mapped page and reports its frame number,
  but for an address on an even page that is not mapped it reports the odd page of the same pair
  when that one is mapped.
\<close>

theorem vm_page_offsets_result:
  assumes "pt_ok pt" "0x1000 \<le> vaddr"
  shows "vm_get_vaddr_page_offsets (Some pt) vaddr =
    Inr (case pt_lookup pt vaddr of
        Some (f, w) \<Rightarrow> (1, ucast f, push_bit 12 (drop_bit 12 vaddr))
      | None \<Rightarrow> (case pt_lookup pt (vaddr OR 0x1000) of
          Some (f, w) \<Rightarrow> (1, ucast f, push_bit 12 (drop_bit 12 vaddr) OR 0x1000)
        | None \<Rightarrow> (0, 0, 0)))"
  using assms(1)
proof (cases rule: pt_scan_where [where a = vaddr and
    Q = "\<lambda>e. addr_is_on_even_page vaddr \<and> V0 e \<or> V1 e"])
  case 1
  moreover have "pt_entry pt (vaddr OR 0x1000) = pt_entry pt vaddr" by (simp add: pt_entry_def)
  ultimately show ?thesis
    using assms(2)
    by (auto simp: vm_get_vaddr_page_offsets_def pt_lookup_def half_def split: option.splits)
next
  case (2 i)
  let ?e = "entries pt ! i"
  have "VPN2 ?e = vpn2 vaddr" using 2(3) by (auto simp: pt_entry_def find_Some_iff)
  moreover have "pt_entry pt (vaddr OR 0x1000) = pt_entry pt vaddr" by (simp add: pt_entry_def)
  ultimately show ?thesis
    using 2 assms(2) page_start [of vaddr] page_start_odd [of vaddr]
    by (auto simp: vm_get_vaddr_page_offsets_def pt_lookup_def half_def)
qed

theorem vm_page_offsets_result_witness:
  "pt_lookup pt_odd 0x2004 = None \<and>
   vm_get_vaddr_page_offsets (Some pt_odd) 0x2004 = Inr (1, 1, 0x3000)"
proof -
  have "(0x2004 :: u32) OR 0x1000 = 0x3004" "push_bit 12 (drop_bit 12 (0x2004 :: u32)) OR 0x1000 = 0x3000"
    by code_simp+
  then show ?thesis
    using vm_page_offsets_result [OF pt_example_ok(2), of "0x2004"] by (simp add: pt_odd_lookup)
qed

end
