(* ===== verification/Tlb.thy ===== *)
theory Tlb
  imports Vm
begin

text \<open>
  The TLB as the kernel uses it (\<open>vm/tlb.c\<close>): its rows are a list of entries, and the operations of
  \<open>vm/_tlb.S\<close> find a row by page pair and address space and write rows. The rest of \<open>vm/tlb.c\<close>, the
  exception handlers, is in \<open>Vm\<close>.
\<close>

section \<open>Hardware\<close>

definition tlb_hits :: "tlb_entry \<Rightarrow> tlb_entry \<Rightarrow> bool" where
  "tlb_hits e row \<longleftrightarrow> VPN2 row = VPN2 e \<and> (E_ASID row = E_ASID e \<or> G0 row \<and> G1 row)"

text \<open>\<open>tlbp\<close>: the row that matches, or a negative number.\<close>

definition tlb_probe :: "tlb_entry \<Rightarrow> tlb_entry list \<Rightarrow> int" where
  "tlb_probe e rows = (case find (\<lambda>i. tlb_hits e (rows ! i)) [0..<length rows] of None \<Rightarrow> -1 | Some i \<Rightarrow> int i)"

text \<open>Rows past the last one are not written.\<close>

definition tlb_write :: "tlb_entry list \<Rightarrow> nat \<Rightarrow> tlb_entry list \<Rightarrow> tlb_entry list" where
  "tlb_write es i rows = take i rows @ take (length rows - i) es @ drop (i + length es) rows"

section \<open>Operations of tlb.c\<close>

text \<open>\<open>asid\<close> is the address space of the processor.\<close>

definition tlb_fill :: "pagetable option \<Rightarrow> tlb_entry list \<times> u32 \<Rightarrow> (tlb_entry list \<times> u32) kresult" where
  "tlb_fill pagetable H =
     (case pagetable of None \<Rightarrow> Inr H
      | Some pt \<Rightarrow>
          kassert (unat (valid_count pt) \<le> length (fst H))
            (Inr (tlb_write (take (unat (valid_count pt)) (entries pt)) 0 (fst H), PT_ASID pt AND 0xff)))"

definition tlb_replace_entry_if_exists :: "tlb_entry \<Rightarrow> tlb_entry \<Rightarrow> tlb_entry list \<Rightarrow> tlb_entry list" where
  "tlb_replace_entry_if_exists old new rows =
     (let index = tlb_probe old rows in if index \<ge> 0 then tlb_write [new] (nat index) rows else rows)"

text \<open>\<open>random\<close> is the row that the hardware picks.\<close>

definition tlb_write_if_not_exists :: "nat \<Rightarrow> tlb_entry \<Rightarrow> tlb_entry list \<Rightarrow> tlb_entry list" where
  "tlb_write_if_not_exists random e rows = (if tlb_probe e rows < 0 then tlb_write [e] random rows else rows)"

section \<open>Laws\<close>

definition tlb_ok :: "tlb_entry list \<Rightarrow> bool" where
  "tlb_ok rows \<longleftrightarrow> distinct (map (\<lambda>e. (E_ASID e, VPN2 e)) rows) \<and> (\<forall>e \<in> set rows. \<not> G0 e)"

lemma tlb_write_one [simp]: "i < length rows \<Longrightarrow> tlb_write [e] i rows = rows[i := e]"
  by (simp add: tlb_write_def upd_conv_take_nth_drop)

lemma tlb_probe_cases:
  obtains "tlb_probe e rows = -1" "\<And>r. r \<in> set rows \<Longrightarrow> \<not> tlb_hits e r"
  | i where "tlb_probe e rows = int i" "i < length rows" "tlb_hits e (rows ! i)"
proof (cases "find (\<lambda>i. tlb_hits e (rows ! i)) [0..<length rows]")
  case None
  then have "\<And>r. r \<in> set rows \<Longrightarrow> \<not> tlb_hits e r" by (auto simp: find_None_iff in_set_conv_nth)
  with None that(1) show ?thesis by (simp add: tlb_probe_def)
next
  case (Some i)
  then have "i < length rows" "tlb_hits e (rows ! i)" by (auto simp: find_Some_iff)
  with Some that(2) show ?thesis by (simp add: tlb_probe_def)
qed

text \<open>In a TLB without duplicates, replacing leaves the new entry as the only one that the old one hits.\<close>

lemma tlb_replaced:
  assumes ok: "tlb_ok rows" and e: "VPN2 new = VPN2 old" "E_ASID new = E_ASID old" "\<not> G0 new"
  shows "tlb_ok (tlb_replace_entry_if_exists old new rows)"
    "r \<in> set (tlb_replace_entry_if_exists old new rows) \<Longrightarrow> r \<in> set rows \<and> \<not> tlb_hits old r \<or> r = new"
    "length (tlb_replace_entry_if_exists old new rows) = length rows"
proof -
  have "tlb_ok (tlb_replace_entry_if_exists old new rows) \<and>
    (\<forall>r \<in> set (tlb_replace_entry_if_exists old new rows). r \<in> set rows \<and> \<not> tlb_hits old r \<or> r = new) \<and>
    length (tlb_replace_entry_if_exists old new rows) = length rows"
  proof (cases rule: tlb_probe_cases [of old rows])
    case 1
    with ok show ?thesis by (auto simp: tlb_replace_entry_if_exists_def)
  next
    case (2 i)
    have k: "(E_ASID (rows ! i), VPN2 (rows ! i)) = (E_ASID new, VPN2 new)"
      using 2(2,3) ok e by (auto simp: tlb_hits_def tlb_ok_def)
    have m: "map (\<lambda>e. (E_ASID e, VPN2 e)) (rows[i := new]) = map (\<lambda>e. (E_ASID e, VPN2 e)) rows"
      by (rule map_key_update [OF 2(2)]) (rule k [symmetric])
    have "r \<in> set rows \<and> \<not> tlb_hits old r \<or> r = new" if r: "r \<in> set (rows[i := new])" for r
    proof -
      obtain j where j: "j < length rows" "r = rows[i := new] ! j" using r by (auto simp: in_set_conv_nth)
      show ?thesis
      proof (cases "j = i")
        case False
        then have rj: "r = rows ! j" using j by simp
        have "\<not> tlb_hits old r"
        proof
          assume "tlb_hits old r"
          then have "(E_ASID (rows ! j), VPN2 (rows ! j)) = (E_ASID (rows ! i), VPN2 (rows ! i))"
            using ok rj j(1) k e by (auto simp: tlb_hits_def tlb_ok_def)
          with ok j(1) 2(2) have "j = i"
            using nth_eq_iff_index_eq [of "map (\<lambda>e. (E_ASID e, VPN2 e)) rows" j i] by (simp add: tlb_ok_def)
          with False show False by simp
        qed
        with rj j(1) show ?thesis by simp
      qed (use j 2(2) in simp)
    qed
    with 2 m ok e(3) show ?thesis
      by (auto simp: tlb_replace_entry_if_exists_def tlb_ok_def dest!: subsetD [OF set_update_subset_insert])
  qed
  then show "tlb_ok (tlb_replace_entry_if_exists old new rows)"
    "r \<in> set (tlb_replace_entry_if_exists old new rows) \<Longrightarrow> r \<in> set rows \<and> \<not> tlb_hits old r \<or> r = new"
    "length (tlb_replace_entry_if_exists old new rows) = length rows" by blast+
qed

end
