(* ===== verification/Libc.thy ===== *)
theory Libc
  imports Prelude
begin

text \<open>
  The string and memory routines of \<open>lib/libc.c\<close>. A C string is the list of bytes from the
  pointer to the end of the object that holds it, so running past the object is a \<open>Fault\<close>. Plain
  \<open>char\<close> is signed on the target. Block copies work on the whole 32-bit address space, because
  \<open>memcopy\<close> chooses between its word loop and its byte loop by the alignment of the addresses.
\<close>

section \<open>Strings\<close>

type_synonym cstring = "byte list"

fun stringcmp :: "cstring \<Rightarrow> cstring \<Rightarrow> int kresult" where
  "stringcmp (a # str1) (b # str2) =
     (if a = 0 \<and> b = 0 then Inr 0
      else if a = 0 \<or> b = 0 \<or> a \<noteq> b then Inr (sint a - sint b)
      else stringcmp str1 str2)"
| "stringcmp _ _ = Inl Fault"

text \<open>
  \<open>stringcopy\<close>: \<open>k\<close> is \<open>target - ret\<close>. The padding loop writes to the same \<open>*target\<close> each time round.
\<close>

function stringcopy_pad :: "cstring \<Rightarrow> int \<Rightarrow> int \<Rightarrow> int \<Rightarrow> cstring kresult" where
  "stringcopy_pad target k i buflen =
     (if i < buflen then rbind (wr target k 0) (\<lambda>t. stringcopy_pad t k (i + 1) buflen)
      else Inr target)"
  by pat_completeness auto
termination
  by (relation "measure (\<lambda>(t, k, i, n). nat (n - i))") auto

function stringcopy_loop :: "cstring \<Rightarrow> int \<Rightarrow> cstring \<Rightarrow> int \<Rightarrow> int \<Rightarrow> cstring kresult" where
  "stringcopy_loop target k source i buflen =
     (if i < buflen - 1 then
        case source of [] \<Rightarrow> Inl Fault
        | c # source' \<Rightarrow>
            rbind (wr target k c) (\<lambda>t.
              if c = 0 then stringcopy_pad t k (i + 1) buflen
              else stringcopy_loop t (k + 1) source' (i + 1) buflen)
      else wr target k 0)"
  by pat_completeness auto
termination
  by (relation "measure (\<lambda>(t, k, s, i, n). nat (n - i))") auto

definition stringcopy :: "cstring \<Rightarrow> cstring \<Rightarrow> int \<Rightarrow> cstring kresult" where
  "stringcopy target source buflen = stringcopy_loop target 0 source 0 buflen"

fun strlen :: "cstring \<Rightarrow> int kresult" where
  "strlen [] = Inl Fault"
| "strlen (c # str) = (if c \<noteq> 0 then rbind (strlen str) (\<lambda>l. Inr (l + 1)) else Inr 0)"

fun atoi_skip :: "cstring \<Rightarrow> cstring kresult" where
  "atoi_skip [] = Inl Fault"
| "atoi_skip (c # s) =
     (if c \<noteq> 0 \<and> (c = 32 \<or> c = 9 \<or> c = 13 \<or> c = 10) then atoi_skip s else Inr (c # s))"

fun atoi_digits :: "int \<Rightarrow> cstring \<Rightarrow> int \<Rightarrow> int kresult" where
  "atoi_digits sign [] value = Inl Fault"
| "atoi_digits sign (c # s) value =
     (if 48 \<le> sint c \<and> sint c \<le> 57
      then atoi_digits sign s (swrap (swrap (10 * value) + sign * (sint c - 48)))
      else Inr value)"

definition atoi :: "cstring \<Rightarrow> int kresult" where
  "atoi s = rbind (atoi_skip s) (\<lambda>t.
     case t of [] \<Rightarrow> Inl Fault
     | c # t' \<Rightarrow>
         if c = 0 then Inr 0
         else if c = 45 then atoi_digits (-1) t' 0
         else if c = 43 then atoi_digits 1 t' 0
         else atoi_digits 1 t 0)"

section \<open>Memory\<close>

type_synonym mem = "u32 \<Rightarrow> byte"

function copy_bytes :: "u32 \<Rightarrow> u32 \<Rightarrow> int \<Rightarrow> int \<Rightarrow> mem \<Rightarrow> mem" where
  "copy_bytes t s i n m =
     (if i < n then copy_bytes t s (i + 1) n (m(t + word_of_int i := m (s + word_of_int i))) else m)"
  by pat_completeness auto
termination
  by (relation "measure (\<lambda>(t, s, i, n, m). nat (n - i))") auto

text \<open>\<open>*tgt = *src\<close> on \<open>uint32_t\<close>: four bytes are loaded and then stored.\<close>

definition copy_word :: "u32 \<Rightarrow> u32 \<Rightarrow> mem \<Rightarrow> mem" where
  "copy_word t s m = m(t := m s, t + 1 := m (s + 1), t + 2 := m (s + 2), t + 3 := m (s + 3))"

function copy_words :: "u32 \<Rightarrow> u32 \<Rightarrow> int \<Rightarrow> int \<Rightarrow> mem \<Rightarrow> u32 \<times> u32 \<times> mem" where
  "copy_words tgt src i n m =
     (if i < n then copy_words (tgt + 4) (src + 4) (i + 1) n (copy_word tgt src m)
      else (tgt, src, m))"
  by pat_completeness auto
termination
  by (relation "measure (\<lambda>(t, s, i, n, m). nat (n - i))") auto

definition memcopy :: "int \<Rightarrow> u32 \<Rightarrow> u32 \<Rightarrow> mem \<Rightarrow> mem" where
  "memcopy buflen target source m =
     (if target mod 4 \<noteq> 0 \<or> source mod 4 \<noteq> 0 then copy_bytes target source 0 buflen m
      else case copy_words target source 0 (buflen sdiv 4) m of
        (tgt, src, m') \<Rightarrow> copy_bytes tgt src 0 (buflen smod 4) m')"

function memoryset_loop :: "u32 \<Rightarrow> byte \<Rightarrow> int \<Rightarrow> int \<Rightarrow> mem \<Rightarrow> mem" where
  "memoryset_loop tgt value i n m =
     (if i < n then memoryset_loop tgt value (i + 1) n (m(tgt + word_of_int i := value)) else m)"
  by pat_completeness auto
termination
  by (relation "measure (\<lambda>(t, v, i, n, m). nat (n - i))") auto

definition memoryset :: "u32 \<Rightarrow> byte \<Rightarrow> int \<Rightarrow> mem \<Rightarrow> mem" where
  "memoryset target value n m = memoryset_loop target value 0 n m"

declare stringcopy_pad.simps [simp del] stringcopy_loop.simps [simp del] copy_bytes.simps [simp del]
  copy_words.simps [simp del] memoryset_loop.simps [simp del]

section \<open>What the string routines compute\<close>

text \<open>The text of a C string: its bytes up to the terminator.\<close>

definition cstr :: "cstring \<Rightarrow> byte list" where
  "cstr s = takeWhile (\<lambda>c. c \<noteq> 0) s"

definition terminated :: "cstring \<Rightarrow> bool" where
  "terminated s \<longleftrightarrow> 0 \<in> set s"

lemma cstr_simps [simp]:
  "cstr [] = []" "cstr (0 # s) = []" "c \<noteq> 0 \<Longrightarrow> cstr (c # s) = c # cstr s"
  by (simp_all add: cstr_def)

lemma terminated_simps [simp]:
  "\<not> terminated []" "terminated (0 # s)" "c \<noteq> 0 \<Longrightarrow> terminated (c # s) = terminated s"
  by (auto simp: terminated_def)

lemma sint_eq_iff [simp]: "sint (a :: byte) = sint b \<longleftrightarrow> a = b"
  by (auto intro: signed_word_eqI)

lemma sint_eq_0_iff [simp]: "sint (a :: byte) = 0 \<longleftrightarrow> a = 0"
  using sint_eq_iff [of a 0] by simp

lemma stringcmp_eq:
  "terminated s \<Longrightarrow> terminated t \<Longrightarrow>
     \<exists>d. stringcmp s t = Inr d \<and> (d = 0 \<longleftrightarrow> cstr s = cstr t)"
proof (induction s t rule: stringcmp.induct)
  case (1 a s b t)
  then show ?case by (cases "a = 0"; cases "b = 0") auto
qed auto

lemma strlen_eq: "terminated s \<Longrightarrow> strlen s = Inr (int (length (cstr s)))"
proof (induction s rule: strlen.induct)
  case (2 c s)
  then show ?case by (cases "c = 0") auto
qed simp

lemma stringcopy_pad_eq:
  "0 \<le> k \<Longrightarrow> k < int (length t) \<Longrightarrow> t ! nat k = 0 \<Longrightarrow> stringcopy_pad t k i n = Inr t"
proof (induction t k i n rule: stringcopy_pad.induct)
  case (1 t k i n)
  then have "t[nat k := 0] = t" by (metis list_update_id)
  with 1 show ?case by (subst stringcopy_pad.simps) auto
qed

lemma stringcopy_loop_eq:
  assumes "k = i" "0 \<le> i" "i < buflen" "buflen \<le> int (length target)"
    and "terminated source \<or> buflen - 1 - i \<le> int (length source)"
    and "cs = take (nat (buflen - 1 - i)) (cstr source)"
  shows "stringcopy_loop target k source i buflen =
    Inr (take (nat i) target @ cs @ 0 # drop (Suc (nat i + length cs)) target)"
  using assms
proof (induction target k source i buflen arbitrary: cs rule: stringcopy_loop.induct)
  case (1 target k source i buflen)
  show ?case
  proof (cases "i < buflen - 1")
    case False
    with "1.prems" show ?thesis
      by (subst stringcopy_loop.simps) (simp add: upd_conv_take_nth_drop)
  next
    case True
    with "1.prems" obtain c source' where src: "source = c # source'"
      by (cases source) auto
    have upd: "target[nat i := c] = take (nat i) target @ c # drop (Suc (nat i)) target"
      using "1.prems" by (simp add: upd_conv_take_nth_drop)
    show ?thesis
    proof (cases "c = 0")
      case c: True
      have "stringcopy_pad (target[nat i := 0]) i (i + 1) buflen = Inr (target[nat i := 0])"
        using "1.prems" by (intro stringcopy_pad_eq) auto
      with True c src "1.prems" upd show ?thesis
        by (subst stringcopy_loop.simps) simp
    next
      case c: False
      define cs' where "cs' = take (nat (buflen - 1 - (i + 1))) (cstr source')"
      have cs: "cs = c # cs'"
        using True c src "1.prems" by (simp add: cs'_def take_Cons' nat_diff_distrib)
      have "stringcopy_loop (target[nat i := c]) (k + 1) source' (i + 1) buflen =
        Inr (take (nat (i + 1)) (target[nat i := c]) @ cs' @
          0 # drop (Suc (nat (i + 1) + length cs')) (target[nat i := c]))"
        using "1.IH" [of c source' "target[nat i := c]" cs'] True c src "1.prems"
        by (auto simp: cs'_def)
      moreover have "take (nat (i + 1)) (target[nat i := c]) = take (nat i) target @ [c]"
        using "1.prems" by (simp add: upd take_Suc_conv_app_nth nat_add_distrib)
      ultimately show ?thesis
        using True c src "1.prems"(1-4) cs
        by (subst stringcopy_loop.simps) (simp add: nat_add_distrib)
    qed
  qed
qed

text \<open>
  \<open>stringcopy\<close> leaves the text, cut to what fits, its terminator, and after that the old
  contents of the buffer.
\<close>

lemma stringcopy_eq:
  assumes "0 < buflen" "buflen \<le> int (length target)"
    and "terminated source \<or> buflen - 1 \<le> int (length source)"
    and "cs = take (nat (buflen - 1)) (cstr source)"
  shows "stringcopy target source buflen = Inr (cs @ 0 # drop (Suc (length cs)) target)"
  using stringcopy_loop_eq [of 0 0 buflen target source cs] assms by (simp add: stringcopy_def)

lemma cstr_append_0: "0 \<notin> set cs \<Longrightarrow> cstr (cs @ 0 # r) = cs"
  unfolding cstr_def by (subst takeWhile_append2) auto

lemma cstr_no_0: "0 \<notin> set (cstr s)"
  by (auto simp: cstr_def dest: set_takeWhileD)

lemma cstr_take_no_0: "0 \<notin> set (take n (cstr s))"
  using cstr_no_0 in_set_takeD by metis

section \<open>What the memory routines compute\<close>

text \<open>\<open>copied t s n m\<close>: the \<open>n\<close> bytes from \<open>s\<close> placed at \<open>t\<close>, addresses modulo \<open>2 ^ 32\<close>.\<close>

definition copied :: "u32 \<Rightarrow> u32 \<Rightarrow> nat \<Rightarrow> mem \<Rightarrow> mem" where
  "copied t s n m = (\<lambda>a. if unat (a - t) < n then m (s + (a - t)) else m a)"

text \<open>The two regions do not overlap: no address of the target is one of the source.\<close>

definition apart :: "u32 \<Rightarrow> u32 \<Rightarrow> nat \<Rightarrow> bool" where
  "apart t s n \<longleftrightarrow> (\<forall>a. unat (a - t) < n \<longrightarrow> \<not> unat (a - s) < n)"

lemma copied_0 [simp]: "copied t s 0 m = m"
  by (simp add: copied_def)

lemma word_off: "n < 2 ^ 32 \<Longrightarrow> unat (a - t) = n \<longleftrightarrow> a = t + of_nat n" for a t :: u32
proof -
  assume "n < 2 ^ 32"
  then have "unat (of_nat n :: u32) = n" by (simp add: unat_of_nat take_bit_nat_eq_self)
  then have "unat (a - t) = n \<longleftrightarrow> a - t = of_nat n"
    by (metis word_unat_eq_iff)
  then show "unat (a - t) = n \<longleftrightarrow> a = t + of_nat n"
    by (auto simp: algebra_simps)
qed

lemma copied_Suc:
  assumes "n < 2 ^ 32" "apart t s (Suc n)"
  shows "(copied t s n m)(t + of_nat n := copied t s n m (s + of_nat n)) = copied t s (Suc n) m"
proof
  fix a
  have src: "copied t s n m (s + of_nat n) = m (s + of_nat n)"
  proof -
    have "unat ((s + of_nat n) - s) < Suc n"
      using word_off [OF assms(1), of "s + of_nat n" s] by simp
    then have "\<not> unat ((s + of_nat n) - t) < Suc n"
      using assms(2) by (auto simp: apart_def)
    then show ?thesis by (simp add: copied_def)
  qed
  show "((copied t s n m)(t + of_nat n := copied t s n m (s + of_nat n))) a = copied t s (Suc n) m a"
    using word_off [OF assms(1), of a t] src
    by (auto simp: copied_def less_Suc_eq)
qed

lemma apart_mono: "apart t s n \<Longrightarrow> k \<le> n \<Longrightarrow> apart t s k"
  unfolding apart_def by (meson order_less_le_trans)

lemma copy_bytes_eq:
  assumes "b + n \<le> 2 ^ 32" "apart t s (b + n)" "i \<le> n"
  shows "copy_bytes (t + of_nat b) (s + of_nat b) (int i) (int n) (copied t s (b + i) m) =
    copied t s (b + n) m"
  using assms(3)
proof (induction "n - i" arbitrary: i)
  case 0
  then show ?case by (subst copy_bytes.simps) simp
next
  case (Suc d)
  then have i: "i < n" "d = n - Suc i" "Suc i \<le> n" by auto
  with assms have "(copied t s (b + i) m)(t + of_nat (b + i) := copied t s (b + i) m (s + of_nat (b + i)))
      = copied t s (Suc (b + i)) m"
    by (intro copied_Suc apart_mono [OF assms(2)]) auto
  with i Suc.hyps(1) [OF i(2,3)] show ?case
    by (subst copy_bytes.simps) (simp add: ac_simps)
qed

text \<open>One turn of the word loop is four turns of the byte loop.\<close>

lemma copy_word_copied:
  assumes "n + 4 \<le> 2 ^ 32" "apart t s (n + 4)"
  shows "copy_word (t + of_nat n) (s + of_nat n) (copied t s n m) = copied t s (n + 4) m"
proof -
  have src: "copied t s n m (s + of_nat n + of_nat j) = m (s + of_nat (n + j))" if "j < 4" for j
  proof -
    have "unat ((s + of_nat (n + j)) - s) < n + 4"
      using word_off [of "n + j" "s + of_nat (n + j)" s] that assms(1) by simp
    then have "\<not> unat ((s + of_nat (n + j)) - t) < n + 4"
      using assms(2) by (auto simp: apart_def)
    then show ?thesis by (simp add: copied_def add.assoc)
  qed
  have tgt: "unat (a - t) = n + j \<longleftrightarrow> a = t + of_nat n + of_nat j" if "j < 4" for a j
    using word_off [of "n + j" a t] that assms(1) by (simp add: add.assoc)
  show ?thesis
  proof
    fix a
    have four: "unat (a - t) < n + 4 \<longleftrightarrow> unat (a - t) < n \<or> a = t + of_nat n \<or> a = t + of_nat n + 1 \<or>
        a = t + of_nat n + 2 \<or> a = t + of_nat n + 3"
      using tgt [of 0 a] tgt [of 1 a] tgt [of 2 a] tgt [of 3 a] by auto
    show "copy_word (t + of_nat n) (s + of_nat n) (copied t s n m) a = copied t s (n + 4) m a"
      using src [of 0] src [of 1] src [of 2] src [of 3] tgt [of 0 a] tgt [of 1 a] tgt [of 2 a] tgt [of 3 a]
      by (auto simp: copy_word_def copied_def four ac_simps)
  qed
qed

lemma copy_words_eq:
  assumes "4 * n \<le> 2 ^ 32" "apart t s (4 * n)" "i \<le> n"
  shows "copy_words (t + of_nat (4 * i)) (s + of_nat (4 * i)) (int i) (int n) (copied t s (4 * i) m) =
    (t + of_nat (4 * n), s + of_nat (4 * n), copied t s (4 * n) m)"
  using assms(3)
proof (induction "n - i" arbitrary: i)
  case 0
  then show ?case by (subst copy_words.simps) simp
next
  case (Suc d)
  then have i: "i < n" "d = n - Suc i" "Suc i \<le> n" by auto
  have "copy_word (t + of_nat (4 * i)) (s + of_nat (4 * i)) (copied t s (4 * i) m) =
      copied t s (4 * i + 4) m"
    using i assms by (intro copy_word_copied apart_mono [OF assms(2)]) auto
  with i Suc.hyps(1) [OF i(2,3)] show ?case
    by (subst copy_words.simps) (simp add: ac_simps)
qed

lemma memcopy_copied:
  assumes "0 \<le> n" "n \<le> 2 ^ 32" "apart t s (nat n)"
  shows "memcopy n t s m = copied t s (nat n) m"
proof -
  define q r where "q = nat (n div 4)" and "r = nat (n mod 4)"
  have qr: "n = int (4 * q + r)" "n sdiv 4 = int q" "n smod 4 = int r"
    using assms(1) by (simp_all add: q_def r_def pos_imp_zdiv_nonneg_iff)
  then have nat_n: "nat n = 4 * q + r" by linarith
  have "copy_words t s 0 (int q) m = (t + of_nat (4 * q), s + of_nat (4 * q), copied t s (4 * q) m)"
    using copy_words_eq [of q t s 0 m] assms nat_n qr(1) apart_mono [OF assms(3), of "4 * q"] by simp
  moreover have "copy_bytes (t + of_nat (4 * q)) (s + of_nat (4 * q)) 0 (int r) (copied t s (4 * q) m) =
      copied t s (4 * q + r) m"
    using copy_bytes_eq [of "4 * q" r t s 0 m] assms nat_n qr(1) by simp
  moreover have "copy_bytes t s 0 n m = copied t s (nat n) m"
    using copy_bytes_eq [of 0 "nat n" t s 0 m] assms by simp
  ultimately show ?thesis
    using qr(2,3) nat_n by (simp add: memcopy_def)
qed

lemma memoryset_loop_eq:
  assumes "n \<le> 2 ^ 32" "i \<le> n"
  shows "memoryset_loop t v (int i) (int n) (\<lambda>a. if unat (a - t) < i then v else m a) =
    (\<lambda>a. if unat (a - t) < n then v else m a)"
  using assms(2)
proof (induction "n - i" arbitrary: i)
  case 0
  then show ?case by (subst memoryset_loop.simps) simp
next
  case (Suc d)
  then have i: "i < n" "d = n - Suc i" "Suc i \<le> n" by auto
  have "(\<lambda>a. if unat (a - t) < i then v else m a)(t + of_nat i := v) =
      (\<lambda>a. if unat (a - t) < Suc i then v else m a)"
    using word_off [of i _ t] i assms(1) by (auto simp: less_Suc_eq fun_eq_iff)
  with i Suc.hyps(1) [OF i(2,3)] show ?case
    by (subst memoryset_loop.simps) (simp add: ac_simps)
qed

section \<open>Decimal numerals\<close>

definition digits_value :: "int list \<Rightarrow> int" where
  "digits_value ds = foldl (\<lambda>v d. 10 * v + d) 0 ds"

definition ascii :: "int list \<Rightarrow> cstring" where
  "ascii ds = map (\<lambda>d. word_of_int (d + 48)) ds"

lemma foldl_digits_mono:
  "\<forall>d \<in> set ds. 0 \<le> d \<Longrightarrow> 0 \<le> v \<Longrightarrow> v \<le> foldl (\<lambda>v d. 10 * v + d) v ds" for v :: int
proof (induction ds arbitrary: v)
  case (Cons d ds)
  then have "10 * v + d \<le> foldl (\<lambda>v d. 10 * v + d) (10 * v + d) ds" by simp
  with Cons.prems show ?case by simp
qed simp

lemma sint_digit: "0 \<le> d \<Longrightarrow> d \<le> 9 \<Longrightarrow> sint (word_of_int (d + 48) :: byte) = d + 48"
  by (subst sint_sbintrunc') (simp add: signed_take_bit_int_eq_self)

lemma atoi_digits_eq:
  assumes "\<forall>d \<in> set ds. 0 \<le> d \<and> d \<le> 9" "sign = 1 \<or> sign = -1" "0 \<le> v"
    and "foldl (\<lambda>v d. 10 * v + d) v ds < 2 ^ 31" "rest \<noteq> []" "\<not> (48 \<le> sint (hd rest) \<and> sint (hd rest) \<le> 57)"
  shows "atoi_digits sign (ascii ds @ rest) (sign * v) = Inr (sign * foldl (\<lambda>v d. 10 * v + d) v ds)"
  using assms
proof (induction ds arbitrary: v)
  case Nil
  then show ?case by (cases rest) (auto simp: ascii_def)
next
  case (Cons d ds)
  have "10 * v + d \<le> foldl (\<lambda>v d. 10 * v + d) (10 * v + d) ds"
    using Cons.prems by (intro foldl_digits_mono) auto
  then have bnd: "10 * v + d < 2 ^ 31" using Cons.prems by simp
  have "swrap (swrap (10 * (sign * v)) + sign * d) = sign * (10 * v + d)"
    using Cons.prems(1-3) bnd by (auto simp: algebra_simps)
  with Cons.IH [of "10 * v + d"] Cons.prems sint_digit [of d] show ?case
    by (simp add: ascii_def)
qed

section \<open>Properties\<close>

text \<open>
  \<open>stringcopy\<close> leaves a terminated copy of the source, cut to fit, in a buffer of
  \<open>buflen\<close> bytes, and writes nothing behind the terminator.
\<close>

theorem stringcopy_result:
  assumes "0 < buflen" "buflen \<le> int (length target)" "terminated source"
  shows "\<exists>t. stringcopy target source buflen = Inr t \<and> length t = length target \<and>
    cstr t = take (nat (buflen - 1)) (cstr source) \<and>
    drop (Suc (length (cstr t))) t = drop (Suc (length (cstr t))) target"
proof -
  let ?cs = "take (nat (buflen - 1)) (cstr source)"
  let ?t = "?cs @ 0 # drop (Suc (length ?cs)) target"
  have "stringcopy target source buflen = Inr ?t"
    using assms by (intro stringcopy_eq) auto
  moreover have "cstr ?t = ?cs" by (intro cstr_append_0 cstr_take_no_0)
  moreover have "length ?t = length target" using assms(1,2) by auto
  ultimately show ?thesis by (intro exI [of _ ?t]) auto
qed

theorem stringcopy_result_witness:
  "terminated [104, 105, 0] \<and> (\<exists>t. stringcopy [1, 2, 3, 4] [104, 105, 0] 2 = Inr t \<and> cstr t = [104])"
  using stringcopy_result [of 2 "[1, 2, 3, 4]" "[104, 105, 0]"]
  by (auto simp: terminated_def cstr_def)

text \<open>
  Property C21: \<open>memcopy\<close> copies \<open>buflen\<close> bytes between regions that do not overlap, whichever of
  its word-wise and byte-wise loops it takes, and changes no other byte.
\<close>

theorem memcopy_moves:
  assumes "0 \<le> buflen" "buflen \<le> 2 ^ 32" "apart target source (nat buflen)"
  shows "memcopy buflen target source m a =
    (if unat (a - target) < nat buflen then m (source + (a - target)) else m a)"
  using memcopy_copied [OF assms] by (simp add: copied_def)

theorem memcopy_moves_witness:
  "apart 0x100 0x200 6 \<and> memcopy 6 0x100 0x200 (\<lambda>a. ucast a + 1) 0x105 = 6"
proof -
  have "apart 0x100 0x200 6"
    unfolding apart_def
  proof (intro allI impI notI)
    fix a :: u32
    assume a: "unat (a - 0x100) < 6" "unat (a - 0x200) < 6"
    have "unat ((a - 0x200) + 0x100) = unat (a - 0x200) + 0x100"
      using a(2) by (subst unat_word_ariths(1)) simp
    with a show False by (simp add: algebra_simps)
  qed
  with memcopy_moves [of 6 "0x100" "0x200" "\<lambda>a. ucast a + 1" "0x105"] show ?thesis
    by simp
qed

text \<open>
  \<open>atoi\<close> reads a decimal number of either sign that fits a C \<open>int\<close>: on the digits
  \<open>ds\<close> after white space and an optional sign it returns their value.
\<close>

theorem atoi_value:
  assumes "\<forall>d \<in> set ds. 0 \<le> d \<and> d \<le> 9" "digits_value ds < 2 ^ 31" "ds \<noteq> []"
    and "set ws \<subseteq> {32, 9, 13, 10}"
  shows "atoi (ws @ ascii ds @ 0 # rest) = Inr (digits_value ds) \<and>
    atoi (ws @ 43 # ascii ds @ 0 # rest) = Inr (digits_value ds) \<and>
    atoi (ws @ 45 # ascii ds @ 0 # rest) = Inr (- digits_value ds)"
proof -
  have skip: "atoi_skip (ws @ c # t) = Inr (c # t)" if "c \<notin> {32, 9, 13, 10}" for c t
    using assms(4) that by (induction ws) auto
  have run: "atoi_digits sign (ascii ds @ 0 # rest) 0 = Inr (sign * digits_value ds)"
    if "sign = 1 \<or> sign = -1" for sign
    using atoi_digits_eq [of ds sign 0 "0 # rest"] assms(1,2) that by (auto simp: digits_value_def)
  obtain d ds' where ds: "ds = d # ds'" using assms(3) by (cases ds) auto
  define c :: byte where "c = word_of_int (d + 48)"
  have "sint c = d + 48" unfolding c_def using ds assms(1) by (intro sint_digit) auto
  then have "c \<noteq> k" if "sint k < 48" for k using that ds assms(1) by auto
  then have c: "c \<notin> {32, 9, 13, 10}" "c \<noteq> 0" "c \<noteq> 45" "c \<noteq> 43" by auto
  have cons: "ascii ds @ 0 # rest = c # ascii ds' @ 0 # rest" by (simp add: ascii_def ds c_def)
  show ?thesis
    using run [of 1] run [of "-1"] skip [OF c(1)] c(2-4)
    by (simp add: atoi_def skip cons)
qed

theorem atoi_value_witness:
  "digits_value [4, 0, 7] = 407 \<and> atoi ([32] @ 45 # ascii [4, 0, 7] @ [0]) = Inr (-407)"
  using atoi_value [of "[4, 0, 7]" "[32]" "[]"] by (simp add: digits_value_def)

end
