(* ===== verification/Chains.thy ===== *)
theory Chains
  imports Prelude
begin

text \<open>
  Lists that are threaded through a table by an index field, as the ready list, the sleep queues
  and the list of timed sleepers are: the walk from one index to another along the field.
\<close>

fun path :: "('a \<Rightarrow> 'a) \<Rightarrow> 'a \<Rightarrow> 'a list \<Rightarrow> 'a \<Rightarrow> bool" where
  "path nx h [] e \<longleftrightarrow> h = e"
| "path nx h (p # ps) e \<longleftrightarrow> h = p \<and> path nx (nx p) ps e"

text \<open>The first index of a list, or the end mark.\<close>

definition head :: "int list \<Rightarrow> int" where
  "head ps = (case ps of [] \<Rightarrow> -1 | p # _ \<Rightarrow> p)"

definition final :: "int list \<Rightarrow> int" where
  "final ps = (if ps = [] then -1 else last ps)"

lemma head_simps [simp]: "head [] = -1" "head (p # ps) = p"
  by (simp_all add: head_def)

lemma final_simps [simp]: "final [] = -1" "ps \<noteq> [] \<Longrightarrow> final ps = last ps"
  by (simp_all add: final_def)

lemma path_head: "path nx h ps (-1) \<Longrightarrow> h = head ps"
  by (cases ps) auto

lemma path_append: "path nx h (ps @ qs) e \<longleftrightarrow> (\<exists>m. path nx h ps m \<and> path nx m qs e)"
  by (induction ps arbitrary: h) auto

lemma path_cong: "(\<And>p. p \<in> set ps \<Longrightarrow> nx p = nx' p) \<Longrightarrow> path nx h ps e = path nx' h ps e"
  by (induction ps arbitrary: h) auto

lemma path_split: "path nx h (ps @ p # qs) (-1) \<longleftrightarrow> path nx h ps p \<and> nx p = head qs \<and> path nx (head qs) qs (-1)"
  using path_head [of nx "nx p" qs] by (auto simp: path_append)

lemma path_end: "path nx h ps e \<Longrightarrow> ps \<noteq> [] \<Longrightarrow> nx (last ps) = e"
  by (induction ps arbitrary: h) (auto split: if_splits)

text \<open>Giving the last element of a walk another successor.\<close>

lemma path_redirect:
  assumes "path nx h ps e" "distinct ps" "ps \<noteq> []"
    and "\<And>p. p \<in> set ps \<Longrightarrow> nx' p = (if p = last ps then e' else nx p)"
  shows "path nx' h ps e'"
  using assms
proof (induction ps arbitrary: h)
  case (Cons p ps)
  show ?case
  proof (cases "ps = []")
    case True
    with Cons.prems(1) Cons.prems(4) [of p] show ?thesis by simp
  next
    case False
    with Cons.prems have "nx' p = nx p" by auto
    moreover have "path nx' (nx p) ps e'"
      using Cons.prems False by (intro Cons.IH) auto
    ultimately show ?thesis using Cons.prems(1) by simp
  qed
qed simp

lemma path_next_in:
  "path nx h ps (-1) \<Longrightarrow> p \<in> set ps \<Longrightarrow> nx p = -1 \<or> nx p \<in> set ps"
  for nx :: "int \<Rightarrow> int"
proof (induction ps arbitrary: h)
  case (Cons q ps)
  show ?case
  proof (cases "p = q")
    case True
    with Cons.prems(1) path_head [of nx "nx q" ps] show ?thesis by (cases ps) auto
  next
    case False
    with Cons show ?thesis by auto
  qed
qed simp

text \<open>Indices of a table of \<open>n\<close> threads other than the idle thread's.\<close>

definition tids :: "int \<Rightarrow> int list \<Rightarrow> bool" where
  "tids n ps \<longleftrightarrow> distinct ps \<and> (\<forall>p \<in> set ps. 0 < p \<and> p < n)"

lemma tids_simps [simp]:
  "tids n []" "tids n (p # ps) \<longleftrightarrow> 0 < p \<and> p < n \<and> p \<notin> set ps \<and> tids n ps"
  by (auto simp: tids_def)

lemma tids_distinct: "tids n ps \<Longrightarrow> distinct ps" by (simp add: tids_def)

lemma tids_range: "tids n ps \<Longrightarrow> p \<in> set ps \<Longrightarrow> 0 < p \<and> p < n" by (simp add: tids_def)

lemma tids_append: "tids n (ps @ qs) \<longleftrightarrow> tids n ps \<and> tids n qs \<and> set ps \<inter> set qs = {}"
  by (auto simp: tids_def)

lemma tids_length: "tids n ps \<Longrightarrow> length ps < nat n \<or> ps = []"
proof -
  assume "tids n ps"
  then have "set ps \<subseteq> {0<..<n}" "distinct ps" by (auto simp: tids_def)
  then have "length ps \<le> card {0<..<n}"
    by (metis card_mono distinct_card finite_greaterThanLessThan_int)
  then show ?thesis by (cases ps) auto
qed

end
