(* ===== verification/Proc_table.thy ===== *)
theory Proc_table
  imports Libc Chains
begin

text \<open>
  The process table (\<open>proc/process.c\<close>, \<open>proc/process_table.h\<close>) and the parts of the system calls
  \<open>exec\<close>, \<open>exit\<close> and \<open>join\<close> (\<open>proc/syscall_handler_proc.c\<close>) that work on it. Each part runs under the
  lock of the table or of an entry and is one step. The children of a process are a list that is
  threaded through the table by \<open>next\<close>; the walk along it need not end, and one that does not is \<open>Hang\<close>.
\<close>

section \<open>The table\<close>

definition CONFIG_MAX_PROCESSES :: int where "CONFIG_MAX_PROCESSES = 32"
definition PROCESS_NO_PARENT_PID :: int where "PROCESS_NO_PARENT_PID = -1"
definition PROCESS_NO_OWNER_TID :: int where "PROCESS_NO_OWNER_TID = -1"
definition PROCESS_NO_RETVAL :: int where "PROCESS_NO_RETVAL = -1"
definition PROCESS_NAME_MAX_LENGTH :: int where "PROCESS_NAME_MAX_LENGTH = 8"
definition MAX_OPEN_FILES_PER_PROCESS :: nat where "MAX_OPEN_FILES_PER_PROCESS = 10"
definition FILEHANDLE_UNUSED :: int where "FILEHANDLE_UNUSED = -1"
definition RETVAL_SYSCALL_USERLAND_NOK :: int where "RETVAL_SYSCALL_USERLAND_NOK = -1"

record process_table_t =
  ptid :: int
  pname :: cstring
  pnext :: int
  die_cond :: u32
  die_lock :: u32
  pretval :: int
  parent_pid :: int
  last_child_pid :: int
  filehandle :: "int list"
  heap_vaddr :: u32

type_synonym ptable = "process_table_t list"

definition init_process_filehandle :: "process_table_t \<Rightarrow> process_table_t" where
  "init_process_filehandle e = e\<lparr>filehandle := replicate MAX_OPEN_FILES_PER_PROCESS FILEHANDLE_UNUSED\<rparr>"

definition free_process_table_entry :: "process_table_t \<Rightarrow> process_table_t" where
  "free_process_table_entry e =
     init_process_filehandle (e\<lparr>ptid := PROCESS_NO_OWNER_TID, parent_pid := PROCESS_NO_PARENT_PID,
       pnext := PROCESS_NO_PARENT_PID, last_child_pid := PROCESS_NO_PARENT_PID, pretval := PROCESS_NO_RETVAL, heap_vaddr := 0\<rparr>)"

text \<open>The results of the calls of \<open>lock_create\<close> and \<open>condition_create\<close> are arguments.\<close>

definition process_table_init :: "u32 list \<Rightarrow> u32 list \<Rightarrow> ptable \<Rightarrow> ptable" where
  "process_table_init locks conds T =
     map (\<lambda>(e, l, c). init_process_filehandle ((free_process_table_entry e)\<lparr>die_lock := l, die_cond := c\<rparr>)) (zip T (zip locks conds))"

text \<open>\<open>userland_pid\<close> is that of the current thread, \<open>None\<close> when there is no current thread.\<close>

definition get_current_process_pid :: "int option \<Rightarrow> int" where
  "get_current_process_pid userland_pid = (case userland_pid of None \<Rightarrow> PROCESS_NO_PARENT_PID | Some pid \<Rightarrow> pid)"

definition get_current_process_entry :: "int option \<Rightarrow> int option" where
  "get_current_process_entry userland_pid =
     (let pid = get_current_process_pid userland_pid in if pid \<ge> 0 \<and> pid < CONFIG_MAX_PROCESSES then Some pid else None)"

section \<open>A new process\<close>

definition slot_free :: "process_table_t \<Rightarrow> bool" where
  "slot_free e \<longleftrightarrow> ptid e = PROCESS_NO_OWNER_TID \<and> parent_pid e = PROCESS_NO_PARENT_PID"

definition foobar :: cstring where "foobar = [102, 111, 111, 98, 97, 114, 0]"

definition fill_slot :: "int \<Rightarrow> int \<Rightarrow> int \<Rightarrow> ptable \<Rightarrow> ptable kresult" where
  "fill_slot tid parent i T =
     rbind (rd T i) (\<lambda>e.
     rbind (stringcopy (pname e) foobar PROCESS_NAME_MAX_LENGTH) (\<lambda>nm.
     rbind (wr T i (e\<lparr>ptid := tid, parent_pid := parent, pnext := PROCESS_NO_PARENT_PID,
       last_child_pid := PROCESS_NO_PARENT_PID, pretval := PROCESS_NO_RETVAL, pname := nm\<rparr>)) (\<lambda>T.
     if parent \<noteq> PROCESS_NO_PARENT_PID then
       rbind (rd T parent) (\<lambda>p.
       rbind (rd T i) (\<lambda>e.
       rbind (wr T i (if last_child_pid p \<noteq> PROCESS_NO_PARENT_PID then e\<lparr>pnext := last_child_pid p\<rparr> else e)) (\<lambda>T.
       rbind (rd T parent) (\<lambda>p. wr T parent (p\<lparr>last_child_pid := i\<rparr>)))))
     else Inr T)))"

definition alloc_slot :: "int \<Rightarrow> int \<Rightarrow> ptable \<Rightarrow> (int option \<times> ptable) kresult" where
  "alloc_slot tid parent T =
     rbind (scan slot_free T 0 CONFIG_MAX_PROCESSES) (\<lambda>r.
     case r of None \<Rightarrow> Inr (None, T) | Some i \<Rightarrow> rbind (fill_slot tid parent i T) (\<lambda>T. Inr (Some i, T)))"

section \<open>The end of a process\<close>

partial_function (option) orphan_children :: "int \<Rightarrow> ptable \<Rightarrow> ptable kresult option" where
  "orphan_children child_pid T =
     (if child_pid \<noteq> PROCESS_NO_PARENT_PID then
        (case rd T child_pid of
           Inl e \<Rightarrow> Some (Inl e)
         | Inr c \<Rightarrow> orphan_children (pnext c) (T[nat child_pid := c\<lparr>parent_pid := PROCESS_NO_PARENT_PID\<rparr>]))
      else Some (Inr T))"

definition exit_value :: "int \<Rightarrow> int" where
  "exit_value retval = (if retval < 0 then swrap (- retval) else retval)"

definition exit_entry :: "int \<Rightarrow> int \<Rightarrow> ptable \<Rightarrow> ptable kresult" where
  "exit_entry pid retval T =
     rbind (rd T pid) (\<lambda>e.
     case orphan_children (last_child_pid e) T of
       None \<Rightarrow> Inl Hang
     | Some r \<Rightarrow>
         rbind r (\<lambda>T.
         rbind (rd T pid) (\<lambda>e.
         wr T pid (e\<lparr>ptid := PROCESS_NO_OWNER_TID, pretval := exit_value retval\<rparr>))))"

text \<open>
  \<open>join\<close>: \<open>None\<close> says that the caller waits on \<open>die_cond\<close> of the child; when it is woken it goes on with
  \<open>join_wait\<close>.
\<close>

definition join_wait :: "int \<Rightarrow> ptable \<Rightarrow> (int option \<times> ptable) kresult" where
  "join_wait c T =
     rbind (rd T c) (\<lambda>e.
     if ptid e \<noteq> PROCESS_NO_OWNER_TID then Inr (None, T)
     else rbind (wr T c (e\<lparr>parent_pid := PROCESS_NO_PARENT_PID\<rparr>)) (\<lambda>T. Inr (Some (pretval e), T)))"

definition syscall_handle_join :: "int option \<Rightarrow> int \<Rightarrow> ptable \<Rightarrow> (int option \<times> ptable) kresult" where
  "syscall_handle_join userland_pid pid T =
     (if get_current_process_entry userland_pid = None then Inr (Some RETVAL_SYSCALL_USERLAND_NOK, T)
      else if pid \<le> 0 \<or> pid > CONFIG_MAX_PROCESSES then Inr (Some RETVAL_SYSCALL_USERLAND_NOK, T)
      else
        rbind (rd T (pid - 1)) (\<lambda>e.
        if parent_pid e \<noteq> get_current_process_pid userland_pid then Inr (Some RETVAL_SYSCALL_USERLAND_NOK, T)
        else join_wait (pid - 1) T))"

section \<open>Children\<close>

lemmas pid_defs = CONFIG_MAX_PROCESSES_def PROCESS_NO_PARENT_PID_def PROCESS_NO_OWNER_TID_def PROCESS_NO_RETVAL_def

abbreviation pn :: "ptable \<Rightarrow> int \<Rightarrow> int" where
  "pn T \<equiv> \<lambda>i. pnext (T ! nat i)"

definition is_pid :: "int \<Rightarrow> bool" where
  "is_pid p \<longleftrightarrow> 0 \<le> p \<and> p < 32"

definition proc_running :: "ptable \<Rightarrow> int \<Rightarrow> bool" where
  "proc_running T p \<longleftrightarrow> is_pid p \<and> ptid (T ! nat p) \<noteq> -1"

definition children :: "ptable \<Rightarrow> int \<Rightarrow> int set" where
  "children T p = {i. is_pid i \<and> parent_pid (T ! nat i) = p}"

definition child_list :: "ptable \<Rightarrow> int \<Rightarrow> int list \<Rightarrow> bool" where
  "child_list T p cs \<longleftrightarrow> path (pn T) (last_child_pid (T ! nat p)) cs (-1) \<and> distinct cs \<and> (\<forall>c \<in> set cs. is_pid c)"

text \<open>The children of every running process are exactly its list, and parents run.\<close>

definition proc_ok :: "ptable \<Rightarrow> bool" where
  "proc_ok T \<longleftrightarrow> length T = 32 \<and> (\<forall>e \<in> set T. length (pname e) = 8) \<and>
     (\<forall>p. proc_running T p \<longrightarrow> (\<exists>cs. child_list T p cs \<and> set cs = children T p)) \<and>
     (\<forall>i. is_pid i \<longrightarrow> parent_pid (T ! nat i) \<noteq> -1 \<longrightarrow> proc_running T (parent_pid (T ! nat i)))"

definition orphaned_in :: "int list \<Rightarrow> ptable \<Rightarrow> ptable" where
  "orphaned_in cs T = map (\<lambda>k. if int k \<in> set cs then (T ! k)\<lparr>parent_pid := -1\<rparr> else T ! k) [0..<length T]"

lemma orphaned_in_sel [simp]: "length (orphaned_in cs T) = length T"
  "k < length T \<Longrightarrow> orphaned_in cs T ! k = (if int k \<in> set cs then (T ! k)\<lparr>parent_pid := -1\<rparr> else T ! k)"
  by (simp_all add: orphaned_in_def)

lemma orphan_children_eq:
  assumes "path (pn T) h cs (-1)" "distinct cs" "\<forall>c \<in> set cs. is_pid c" "length T = 32"
  shows "orphan_children h T = Some (Inr (orphaned_in cs T))"
  using assms
proof (induction cs arbitrary: h T)
  case Nil
  have "orphaned_in [] T = T" by (rule nth_equalityI) simp_all
  with Nil show ?case by (subst orphan_children.simps) (simp add: pid_defs)
next
  case (Cons c cs)
  then have c: "h = c" "is_pid c" "c \<notin> set cs" and p: "path (pn T) (pn T c) cs (-1)" by auto
  let ?T = "T[nat c := (T ! nat c)\<lparr>parent_pid := -1\<rparr>]"
  have n: "nat c \<noteq> nat d" if "d \<in> set cs" for d using that c Cons.prems(3) by (auto simp: is_pid_def nat_eq_iff)
  have "path (pn ?T) (pn T c) cs (-1)" by (subst path_cong [of cs "pn ?T" "pn T"]) (use n p in \<open>auto simp: nth_list_update\<close>)
  from Cons.IH [OF this] Cons.prems have ih: "orphan_children (pn T c) ?T = Some (Inr (orphaned_in cs ?T))" by simp
  have "orphaned_in cs ?T = orphaned_in (c # cs) T"
    using c Cons.prems(4) by (intro nth_equalityI) (auto simp: is_pid_def nth_list_update)
  with ih c Cons.prems(4) show ?case by (subst orphan_children.simps) (auto simp: pid_defs is_pid_def)
qed

lemma orphan_children_cycle:
  assumes "pn T c = c" "is_pid c" "length T = 32"
  shows "orphan_children c T = None"
proof -
  have "\<not> (pn T c = c \<and> is_pid c \<and> length T = 32)" if "orphan_children c T = Some r" for c T r
  proof (rule orphan_children.raw_induct [OF _ that])
    fix g :: "int \<Rightarrow> ptable \<Rightarrow> ptable kresult option"
    fix c T and r :: "ptable kresult"
    assume ih: "\<And>c T r. g c T = Some r \<Longrightarrow> \<not> (pn T c = c \<and> is_pid c \<and> length T = 32)"
    assume "(if c \<noteq> PROCESS_NO_PARENT_PID then (case rd T c of Inl e \<Rightarrow> Some (Inl e)
       | Inr e \<Rightarrow> g (pnext e) (T[nat c := e\<lparr>parent_pid := PROCESS_NO_PARENT_PID\<rparr>])) else Some (Inr T)) = Some r"
    then show "\<not> (pn T c = c \<and> is_pid c \<and> length T = 32)"
      using ih [of c "T[nat c := (T ! nat c)\<lparr>parent_pid := -1\<rparr>]" r] by (auto simp: pid_defs is_pid_def)
  qed
  with assms show ?thesis by (cases "orphan_children c T") auto
qed

definition exited :: "int \<Rightarrow> int \<Rightarrow> int list \<Rightarrow> ptable \<Rightarrow> ptable" where
  "exited pid v cs T = (orphaned_in cs T)[nat pid := (orphaned_in cs T ! nat pid)\<lparr>ptid := -1, pretval := v\<rparr>]"

lemma exit_entry_eq:
  assumes "child_list T pid cs" "is_pid pid" "length T = 32"
  shows "exit_entry pid v T = Inr (exited pid (exit_value v) cs T)"
  using assms orphan_children_eq [of T "last_child_pid (T ! nat pid)" cs]
  by (simp add: exit_entry_def child_list_def is_pid_def exited_def pid_defs)

definition filled :: "int \<Rightarrow> int \<Rightarrow> int \<Rightarrow> cstring \<Rightarrow> ptable \<Rightarrow> ptable" where
  "filled tid parent i nm T =
     (let T1 = T[nat i := (T ! nat i)\<lparr>ptid := tid, parent_pid := parent,
        pnext := (if parent = -1 then -1 else last_child_pid (T ! nat parent)), last_child_pid := -1, pretval := -1, pname := nm\<rparr>]
      in if parent = -1 then T1 else T1[nat parent := (T1 ! nat parent)\<lparr>last_child_pid := i\<rparr>])"

lemma fill_slot_eq:
  assumes "is_pid i" "length T = 32" "length (pname (T ! nat i)) = 8" "parent = -1 \<or> is_pid parent" "parent \<noteq> i"
  obtains nm where "fill_slot tid parent i T = Inr (filled tid parent i nm T)" "length nm = 8"
proof -
  have s: "stringcopy (pname (T ! nat i)) foobar 8 = Inr (take 7 (cstr foobar) @ 0 # drop (Suc (length (take 7 (cstr foobar)))) (pname (T ! nat i)))"
    using assms(3) stringcopy_eq [of 8 "pname (T ! nat i)" foobar] by (simp add: foobar_def terminated_def)
  have l: "length (cstr foobar) = 6" by (simp add: foobar_def cstr_def)
  have ne: "nat parent \<noteq> nat i" if "is_pid parent" using that assms(1,5) by (auto simp: is_pid_def)
  show ?thesis
    by (rule that [of "take 7 (cstr foobar) @ 0 # drop (Suc (length (take 7 (cstr foobar)))) (pname (T ! nat i))"])
      (cases "T ! nat i", use assms s l ne in \<open>auto simp: fill_slot_def filled_def pid_defs PROCESS_NAME_MAX_LENGTH_def is_pid_def Let_def nth_list_update\<close>)
qed


lemma filled_sel:
  assumes "is_pid i" "length T = 32" "parent = -1 \<or> is_pid parent" "parent \<noteq> i" "k < 32"
  shows "length (filled tid parent i nm T) = 32"
    "ptid (filled tid parent i nm T ! k) = (if k = nat i then tid else ptid (T ! k))"
    "parent_pid (filled tid parent i nm T ! k) = (if k = nat i then parent else parent_pid (T ! k))"
    "pnext (filled tid parent i nm T ! k) = (if k = nat i then if parent = -1 then -1 else last_child_pid (T ! nat parent) else pnext (T ! k))"
    "last_child_pid (filled tid parent i nm T ! k) =
       (if k = nat i then -1 else if parent \<noteq> -1 \<and> k = nat parent then i else last_child_pid (T ! k))"
    "pname (filled tid parent i nm T ! k) = (if k = nat i then nm else pname (T ! k))"
    "pretval (filled tid parent i nm T ! k) = (if k = nat i then -1 else pretval (T ! k))"
proof -
  have "nat parent \<noteq> nat i" if "is_pid parent" using that assms(1,4) by (auto simp: is_pid_def)
  with assms show "length (filled tid parent i nm T) = 32"
    "ptid (filled tid parent i nm T ! k) = (if k = nat i then tid else ptid (T ! k))"
    "parent_pid (filled tid parent i nm T ! k) = (if k = nat i then parent else parent_pid (T ! k))"
    "pnext (filled tid parent i nm T ! k) = (if k = nat i then if parent = -1 then -1 else last_child_pid (T ! nat parent) else pnext (T ! k))"
    "last_child_pid (filled tid parent i nm T ! k) =
       (if k = nat i then -1 else if parent \<noteq> -1 \<and> k = nat parent then i else last_child_pid (T ! k))"
    "pname (filled tid parent i nm T ! k) = (if k = nat i then nm else pname (T ! k))"
    "pretval (filled tid parent i nm T ! k) = (if k = nat i then -1 else pretval (T ! k))"
    by (auto simp: filled_def Let_def is_pid_def nth_list_update)
qed

lemma exited_sel:
  assumes "is_pid p" "length T = 32" "k < 32"
  shows "length (exited p v cs T) = 32"
    "ptid (exited p v cs T ! k) = (if k = nat p then -1 else ptid (T ! k))"
    "parent_pid (exited p v cs T ! k) = (if int k \<in> set cs then -1 else parent_pid (T ! k))"
    "pnext (exited p v cs T ! k) = pnext (T ! k)" "last_child_pid (exited p v cs T ! k) = last_child_pid (T ! k)"
    "pname (exited p v cs T ! k) = pname (T ! k)" "pretval (exited p v cs T ! k) = (if k = nat p then v else pretval (T ! k))"
  using assms by (auto simp: exited_def is_pid_def nth_list_update)

lemma alloc_slot_cases:
  assumes "length T = 32" "\<forall>e \<in> set T. length (pname e) = 8" "parent = -1 \<or> proc_running T parent"
  obtains "alloc_slot tid parent T = Inr (None, T)" "\<And>i. is_pid i \<Longrightarrow> \<not> slot_free (T ! nat i)"
  | i nm where "alloc_slot tid parent T = Inr (Some i, filled tid parent i nm T)" "is_pid i" "slot_free (T ! nat i)" "length nm = 8"
      "\<And>j. 0 \<le> j \<Longrightarrow> j < i \<Longrightarrow> \<not> slot_free (T ! nat j)"
proof -
  from scan_total [of 0 32 T slot_free] assms(1) obtain r where r: "scan slot_free T 0 32 = Inr r" "first_from (\<lambda>k. slot_free (T ! nat k)) 0 32 r" by auto
  show ?thesis
  proof (cases r)
    case None
    with r that(1) show ?thesis by (simp add: alloc_slot_def pid_defs first_from_def is_pid_def)
  next
    case (Some i)
    with r(2) have i: "is_pid i" "slot_free (T ! nat i)" "\<And>j. 0 \<le> j \<Longrightarrow> j < i \<Longrightarrow> \<not> slot_free (T ! nat j)"
      by (auto simp: first_from_def is_pid_def)
    have "length (pname (T ! nat i)) = 8" using assms(1,2) i(1) by (auto simp: is_pid_def)
    moreover have "parent = -1 \<or> is_pid parent" "parent \<noteq> i" using assms(3) i by (auto simp: proc_running_def slot_free_def pid_defs is_pid_def)
    ultimately obtain nm where "fill_slot tid parent i T = Inr (filled tid parent i nm T)" "length nm = 8"
      using fill_slot_eq [OF i(1) assms(1)] by metis
    with r(1) Some i that(2) show ?thesis by (simp add: alloc_slot_def pid_defs)
  qed
qed

lemma proc_okD:
  assumes "proc_ok T"
  shows "length T = 32" "\<forall>e \<in> set T. length (pname e) = 8" "\<And>p. proc_running T p \<Longrightarrow> \<exists>cs. child_list T p cs \<and> set cs = children T p"
    "\<And>i. is_pid i \<Longrightarrow> parent_pid (T ! nat i) \<noteq> -1 \<Longrightarrow> proc_running T (parent_pid (T ! nat i))"
  using assms unfolding proc_ok_def by blast+

lemma nat_less_32: "is_pid i \<Longrightarrow> nat i < 32"
  unfolding is_pid_def by arith

lemma names_ok: "length T = 32 \<Longrightarrow> \<forall>k < 32. length (pname (T ! k)) = 8 \<Longrightarrow> \<forall>e \<in> set T. length (pname e) = 8"
  by (auto simp: in_set_conv_nth)



lemma start_proc_ok:
  assumes ok: "proc_ok T" and i: "is_pid i" "slot_free (T ! nat i)" and parent: "parent = -1 \<or> proc_running T parent"
    and tid: "tid \<noteq> -1" and nm: "length nm = 8"
  shows "proc_ok (filled tid parent i nm T)"
proof -
  note t = proc_okD [OF ok]
  have f: "ptid (T ! nat i) = -1" "parent_pid (T ! nat i) = -1" using i(2) by (simp_all add: slot_free_def pid_defs)
  have pp: "parent = -1 \<or> is_pid parent" "parent \<noteq> i" using parent f i(1) by (auto simp: proc_running_def is_pid_def)
  note s0 = filled_sel [OF i(1) t(1) pp]
  note s = s0 [OF nat_less_32]
  let ?T = "filled tid parent i nm T"
  have eq: "nat q = nat i \<longleftrightarrow> q = i" if "is_pid q" for q using that i(1) by (auto simp: is_pid_def)
  have run: "proc_running ?T q \<longleftrightarrow> proc_running T q \<or> q = i" for q
    using s(2) [of q tid nm] eq [of q] tid f(1) i(1) by (auto simp: proc_running_def split: if_splits)
  have par: "parent_pid (?T ! nat j) = (if j = i then parent else parent_pid (T ! nat j))" if "is_pid j" for j
    using s(3) [OF that, of tid nm] eq [OF that] by simp
  have none: "parent_pid (T ! nat j) \<noteq> i" if "is_pid j" for j
    using t(4) [OF that] f(1) i(1) by (auto simp: proc_running_def is_pid_def)
  have ch: "children ?T q = (if q = parent then insert i (children T q) else children T q)" if "q \<noteq> -1" for q
    using par i(1) f(2) that by (auto simp: children_def)
  have "\<exists>ds. child_list ?T q ds \<and> set ds = children ?T q" if q: "proc_running ?T q" for q
  proof (cases "q = i")
    case True
    have "children T i = {}" using none by (auto simp: children_def)
    moreover have "i \<noteq> -1" "last_child_pid (?T ! nat i) = -1" using i(1) s(5) [OF i(1), of tid nm] by (auto simp: is_pid_def)
    ultimately show ?thesis using True ch [of i] pp(2) by (intro exI [of _ "[]"]) (simp add: child_list_def)
  next
    case False
    then have rq: "proc_running T q" "is_pid q" "q \<noteq> -1" using q run by (auto simp: proc_running_def is_pid_def)
    from t(3) [OF rq(1)] obtain cs where cs: "child_list T q cs" "set cs = children T q" by blast
    have ni: "i \<notin> set cs" using cs(2) f(2) rq(3) by (auto simp: children_def)
    have pc: "path (pn ?T) h cs (-1) = path (pn T) h cs (-1)" for h
    proof (rule path_cong)
      fix c assume "c \<in> set cs"
      then have "is_pid c" "c \<noteq> i" using cs(1) ni by (auto simp: child_list_def)
      with s(4) [of c tid nm] eq [of c] show "pn ?T c = pn T c" by simp
    qed
    show ?thesis
    proof (cases "q = parent")
      case True
      then have p1: "parent \<noteq> -1" using rq(3) by simp
      have l: "last_child_pid (?T ! nat q) = i" "pn ?T i = last_child_pid (T ! nat q)"
        using s(5) [OF rq(2), of tid nm] s(4) [OF i(1), of tid nm] True p1 pp(2) eq [OF rq(2)] by auto
      have "child_list ?T q (i # cs)" using cs(1) pc l ni i(1) by (simp add: child_list_def)
      with ch [OF rq(3)] cs(2) True show ?thesis by (intro exI [of _ "i # cs"]) simp
    next
      case n: False
      have "nat q \<noteq> nat parent" if "parent \<noteq> -1" using n pp(1) rq(2) that by (auto simp: is_pid_def)
      then have "last_child_pid (?T ! nat q) = last_child_pid (T ! nat q)" using s(5) [OF rq(2), of tid nm] False eq [OF rq(2)] by auto
      with cs pc ch [OF rq(3)] n show ?thesis by (intro exI [of _ cs]) (simp add: child_list_def)
    qed
  qed
  moreover have "proc_running ?T (parent_pid (?T ! nat j))" if "is_pid j" "parent_pid (?T ! nat j) \<noteq> -1" for j
    using that par [OF that(1)] t(4) [OF that(1)] run parent by (auto split: if_splits)
  moreover have len: "length ?T = 32" by (rule s0(1) [of 0]) simp
  moreover have "\<forall>e \<in> set ?T. length (pname e) = 8"
    by (rule names_ok [OF len]) (use s0(6) t(1,2) nm in auto)
  ultimately show ?thesis unfolding proc_ok_def by simp
qed

section \<open>Histories\<close>

text \<open>
  Processes are started by their parents (or by the kernel, with no parent) and exit; \<open>join\<close> waits for a
  child and frees its slot.
\<close>

datatype proc_event = Proc_start int int | Proc_exit int int | Proc_join int int

inductive proc_step :: "ptable \<Rightarrow> proc_event \<Rightarrow> int \<Rightarrow> ptable \<Rightarrow> bool" where
  start: "parent = -1 \<or> proc_running T parent \<Longrightarrow> tid \<noteq> -1 \<Longrightarrow> alloc_slot tid parent T = Inr (Some i, T') \<Longrightarrow>
    proc_step T (Proc_start tid parent) i T'"
| exit: "proc_running T p \<Longrightarrow> exit_entry p v T = Inr T' \<Longrightarrow> proc_step T (Proc_exit p v) 0 T'"
| join: "proc_running T p \<Longrightarrow> syscall_handle_join (Some p) (c + 1) T = Inr (Some v, T') \<Longrightarrow> proc_step T (Proc_join p c) v T'"

inductive_cases proc_step_startE: "proc_step T (Proc_start tid parent) i T'"
inductive_cases proc_step_exitE: "proc_step T (Proc_exit p v) i T'"

text \<open>Histories without \<open>join\<close>.\<close>

inductive proc_history :: "ptable \<Rightarrow> ptable \<Rightarrow> bool" where
  none: "proc_history T T"
| more: "proc_history T T' \<Longrightarrow> proc_step T' e r T'' \<Longrightarrow> (\<forall>p c. e \<noteq> Proc_join p c) \<Longrightarrow> proc_history T T''"




lemma init_proc_ok:
  assumes "length T = 32" "length locks = 32" "length conds = 32" "\<forall>e \<in> set T. length (pname e) = 8"
  shows "proc_ok (process_table_init locks conds T)" "\<And>i. is_pid i \<Longrightarrow> slot_free (process_table_init locks conds T ! nat i)"
proof -
  let ?T = "process_table_init locks conds T"
  have n: "ptid (?T ! k) = -1" "parent_pid (?T ! k) = -1" "pname (?T ! k) = pname (T ! k)" if "k < 32" for k
    using assms that by (simp_all add: process_table_init_def init_process_filehandle_def free_process_table_entry_def pid_defs)
  have l: "length ?T = 32" using assms by (simp add: process_table_init_def)
  have "\<not> proc_running ?T p" for p using n(1) [of "nat p"] nat_less_32 by (auto simp: proc_running_def)
  moreover have "\<forall>e \<in> set ?T. length (pname e) = 8" by (rule names_ok [OF l]) (use n(3) assms in auto)
  ultimately show "proc_ok ?T" using l n(2) nat_less_32 unfolding proc_ok_def by auto
  show "slot_free (?T ! nat i)" if "is_pid i" for i using n nat_less_32 [OF that] by (simp add: slot_free_def pid_defs)
qed

section \<open>Properties\<close>


definition no_process :: process_table_t where
  "no_process = \<lparr>ptid = 0, pname = replicate 8 0, pnext = 0, die_cond = 0, die_lock = 0, pretval = 0, parent_pid = 0,
     last_child_pid = 0, filehandle = [], heap_vaddr = 0\<rparr>"

abbreviation boot_table :: ptable where
  "boot_table \<equiv> process_table_init (replicate 32 1) (replicate 32 1) (replicate 32 no_process)"

lemma boot_table_ok: "proc_ok boot_table"
  by (rule init_proc_ok(1)) (simp_all add: no_process_def)

lemma first_process:
  obtains T where "alloc_slot 5 (-1) boot_table = Inr (Some 0, T)" "proc_ok T" "proc_running T 0" "last_child_pid (T ! 0) = -1"
    "slot_free (T ! 1)" "proc_history boot_table T"
proof (cases rule: alloc_slot_cases [OF proc_okD(1,2) [OF boot_table_ok] disjI1 [OF refl], of 5])
  case 1
  have "slot_free (boot_table ! nat 0)" by (rule init_proc_ok(2)) (simp_all add: no_process_def is_pid_def)
  with 1(2) [of 0] show ?thesis by (simp add: is_pid_def)
next
  case (2 i nm)
  have f: "slot_free (boot_table ! nat j)" if "is_pid j" for j by (rule init_proc_ok(2) [OF _ _ _ _ that]) (simp_all add: no_process_def)
  have "i = 0" using 2(2) 2(5) [of 0] f [of 0] by (cases "i = 0") (auto simp: is_pid_def)
  note i = 2 [unfolded this]
  let ?T = "filled 5 (-1) 0 nm boot_table"
  have ok: "proc_ok ?T" by (rule start_proc_ok [OF boot_table_ok i(2,3) _ _ i(4)]) simp_all
  note s = filled_sel [OF i(2) proc_okD(1) [OF boot_table_ok], of "-1" _ 5 nm]
  have "proc_history boot_table ?T"
    by (rule proc_history.more [OF proc_history.none], rule proc_step.start [of "-1" _ 5 0]) (use i(1) in simp_all)
  moreover have "proc_running ?T 0" "last_child_pid (?T ! 0) = -1" using s(2,5) [of 0] by (simp_all add: proc_running_def is_pid_def)
  moreover have "slot_free (?T ! 1)" using s(2,3) [of 1] f [of 1] by (simp add: slot_free_def is_pid_def)
  ultimately show ?thesis using that [OF i(1) ok] by blast
qed


text \<open>
  A process that starts a child, joins it, starts another child and exits runs for ever
  in its exit, with interrupts disabled: \<open>join\<close> frees the slot of the child but leaves it in the list of
  children, so the next child, which gets the same slot, is linked to itself.
\<close>

theorem exec_join_exec_hangs:
  assumes "proc_ok T" "proc_running T p" "last_child_pid (T ! nat p) = -1" "\<exists>i. is_pid i \<and> slot_free (T ! nat i)" "t1 \<noteq> -1" "t2 \<noteq> -1"
  shows "\<exists>c T1 T2 T3 T4. alloc_slot t1 p T = Inr (Some c, T1) \<and> exit_entry c v T1 = Inr T2 \<and>
    syscall_handle_join (Some p) (c + 1) T2 = Inr (Some (exit_value v), T3) \<and>
    alloc_slot t2 p T3 = Inr (Some c, T4) \<and> exit_entry p w T4 = Inl Hang"
proof -
  note t = proc_okD [OF assms(1)]
  have p: "is_pid p" using assms(2) by (simp add: proc_running_def)
  from assms(4) obtain c nm where c: "alloc_slot t1 p T = Inr (Some c, filled t1 p c nm T)" "is_pid c" "slot_free (T ! nat c)" "length nm = 8"
    "\<And>j. 0 \<le> j \<Longrightarrow> j < c \<Longrightarrow> \<not> slot_free (T ! nat j)"
    using alloc_slot_cases [OF t(1,2), of p t1] assms(2) by metis
  let ?T1 = "filled t1 p c nm T"
  have pc: "p \<noteq> c" "nat p \<noteq> nat c" "p \<noteq> -1" using assms(2) c(2,3) p by (auto simp: proc_running_def slot_free_def pid_defs is_pid_def)
  have ok1: "proc_ok ?T1" by (rule start_proc_ok [OF assms(1) c(2,3) _ assms(5) c(4)]) (use assms(2) in simp)
  note s1 = filled_sel [OF c(2) t(1) disjI2 [OF p] pc(1), of _ t1 nm]
  have cl: "child_list ?T1 c []" using s1(5) [OF nat_less_32 [OF c(2)]] by (simp add: child_list_def)
  let ?T2 = "exited c (exit_value v) [] ?T1"
  have e1: "exit_entry c v ?T1 = Inr ?T2" by (rule exit_entry_eq [OF cl c(2) proc_okD(1) [OF ok1]])
  note s2 = exited_sel [OF c(2) proc_okD(1) [OF ok1], of _ "exit_value v" "[]"]
  let ?T3 = "?T2[nat c := (?T2 ! nat c)\<lparr>parent_pid := -1\<rparr>]"
  have "parent_pid (?T2 ! nat c) = p" "ptid (?T2 ! nat c) = -1" "pretval (?T2 ! nat c) = exit_value v" "length ?T2 = 32"
    using s1(3) s2(1,2,3,7) nat_less_32 [OF c(2)] by simp_all
  then have j: "syscall_handle_join (Some p) (c + 1) ?T2 = Inr (Some (exit_value v), ?T3)"
    using c(2) p by (simp add: syscall_handle_join_def join_wait_def get_current_process_entry_def get_current_process_pid_def pid_defs is_pid_def Let_def)
  have l3: "length ?T3 = 32" using s2(1) [of 0] by simp
  have at: "?T3 ! k = (if k = nat c then (?T2 ! k)\<lparr>parent_pid := -1\<rparr> else ?T2 ! k)" if "k < 32" for k
    using s2(1) [of 0] that by (simp add: nth_list_update)
  have n3: "ptid (?T3 ! k) = (if k = nat c then -1 else ptid (T ! k))" "parent_pid (?T3 ! k) = (if k = nat c then -1 else parent_pid (T ! k))"
    "length (pname (?T3 ! k)) = 8" "last_child_pid (?T3 ! k) = last_child_pid (?T1 ! k)" if "k < 32" for k
    unfolding at [OF that] using s1(2,3,6) [OF that] s2(2,3,5,6) [OF that] t(1,2) c(4) that by auto
  have lc: "last_child_pid (?T3 ! nat p) = c" using n3(4) [OF nat_less_32 [OF p]] s1(5) [OF nat_less_32 [OF p]] pc by simp
  have r3: "proc_running ?T3 p" using assms(2) n3(1) [OF nat_less_32 [OF p]] pc(2) by (auto simp: proc_running_def)
  have f3: "slot_free (?T3 ! nat j) \<longleftrightarrow> j = c \<or> slot_free (T ! nat j)" if "is_pid j" for j
    using n3(1,2) [OF nat_less_32 [OF that]] that c(2) by (auto simp: slot_free_def pid_defs is_pid_def)
  have names: "\<forall>e \<in> set ?T3. length (pname e) = 8" by (rule names_ok [OF l3]) (use n3(3) in blast)
  obtain nm' where a2: "alloc_slot t2 p ?T3 = Inr (Some c, filled t2 p c nm' ?T3)"
  proof (rule alloc_slot_cases [OF l3 names disjI2 [OF r3], of t2])
    assume "\<And>i. is_pid i \<Longrightarrow> \<not> slot_free (?T3 ! nat i)"
    with f3 [OF c(2)] c(2) show ?thesis by blast
  next
    fix i nm' assume a: "alloc_slot t2 p ?T3 = Inr (Some i, filled t2 p i nm' ?T3)" "is_pid i" "slot_free (?T3 ! nat i)"
      "\<And>j. 0 \<le> j \<Longrightarrow> j < i \<Longrightarrow> \<not> slot_free (?T3 ! nat j)"
    have "\<not> c < i" using a(4) [of c] f3 [OF c(2)] c(2) by (auto simp: is_pid_def)
    moreover have "\<not> i < c" using c(5) [of i] f3 [OF a(2)] a(2,3) by (auto simp: is_pid_def)
    ultimately have "i = c" by simp
    with a(1) that show ?thesis by blast
  qed
  let ?T4 = "filled t2 p c nm' ?T3"
  note s4 = filled_sel [OF c(2) l3 disjI2 [OF p] pc(1), of _ t2 nm']
  have "pn ?T4 c = c" "last_child_pid (?T4 ! nat p) = c"
    using s4(4) [OF nat_less_32 [OF c(2)]] s4(5) [OF nat_less_32 [OF p]] lc pc by simp_all
  moreover from this(1) have "orphan_children c ?T4 = None" by (rule orphan_children_cycle [OF _ c(2) s4(1) [of 0]]) simp
  ultimately have "exit_entry p w ?T4 = Inl Hang" using s4(1) [of 0] p by (simp add: exit_entry_def is_pid_def)
  with c(1) e1 j a2 show ?thesis by blast
qed

theorem exec_join_exec_hangs_witness:
  "\<exists>T c T1 T2 T3 T4. alloc_slot 5 (-1) boot_table = Inr (Some 0, T) \<and> alloc_slot 6 0 T = Inr (Some c, T1) \<and> exit_entry c 7 T1 = Inr T2 \<and>
     syscall_handle_join (Some 0) (c + 1) T2 = Inr (Some 7, T3) \<and> alloc_slot 8 0 T3 = Inr (Some c, T4) \<and> exit_entry 0 0 T4 = Inl Hang"
proof -
  obtain T where T: "alloc_slot 5 (-1) boot_table = Inr (Some 0, T)" "proc_ok T" "proc_running T 0" "last_child_pid (T ! 0) = -1" "slot_free (T ! 1)"
    using first_process by metis
  have "\<exists>i. is_pid i \<and> slot_free (T ! nat i)" using T(5) by (intro exI [of _ 1]) (simp add: is_pid_def)
  moreover have "exit_value 7 = 7" by (simp add: exit_value_def)
  ultimately show ?thesis using exec_join_exec_hangs [OF T(2,3) _ _, of 6 8 7 0] T(1,4) by auto
qed

end
