(* ===== verification/Threads.thy ===== *)
theory Threads
  imports Prelude
begin

text \<open>
  The thread table of \<open>kernel/thread.c\<close> and the operations on it that do not involve the scheduler:
  start-up, creation, the end of a thread and timed sleep. The code that runs with interrupts
  disabled and the table's spinlock held is one step. The link addresses of the stack area, the
  idle loop and \<open>thread_finish\<close> are fields of \<open>image\<close>; the real-time clock is an argument.
\<close>

section \<open>Data\<close>

definition CONFIG_MAX_THREADS :: int where "CONFIG_MAX_THREADS = 32"
definition CONFIG_MAX_CPUS :: int where "CONFIG_MAX_CPUS = 4"
definition CONFIG_THREAD_STACKSIZE :: u32 where "CONFIG_THREAD_STACKSIZE = 4096"
definition IDLE_THREAD_TID :: int where "IDLE_THREAD_TID = 0"
definition THREAD_PRIORITY_HIGH :: u32 where "THREAD_PRIORITY_HIGH = 0"
definition THREAD_PRIORITY_NORMAL :: u32 where "THREAD_PRIORITY_NORMAL = 1"
definition INTERRUPT_MASK_ALL :: u32 where "INTERRUPT_MASK_ALL = 0xff00"
definition INTERRUPT_MASK_MASTER :: u32 where "INTERRUPT_MASK_MASTER = 1"

lemmas thread_consts [simp] = CONFIG_MAX_THREADS_def CONFIG_MAX_CPUS_def IDLE_THREAD_TID_def
  THREAD_PRIORITY_HIGH_def THREAD_PRIORITY_NORMAL_def

datatype thread_state =
  THREAD_FREE | THREAD_RUNNING | THREAD_READY | THREAD_SLEEPING | THREAD_NONREADY | THREAD_DYING

record thread_entry =
  context_ptr :: u32
  user_context :: u32
  t_state :: thread_state
  sleeps_on :: u32
  t_pagetable :: u32
  process_id :: int
  t_next :: int
  next_sleeper_id :: int
  wakeup_time :: u32
  t_priority :: u32
  userland_pid :: int

text \<open>\<open>context_t\<close>: 29 registers, and the indices of those that the kernel sets.\<close>

record context_t =
  cpu_regs :: "u32 list"
  reg_hi :: u32
  reg_lo :: u32
  pc :: u32
  ctx_status :: u32
  prev_context :: u32

definition MIPS_REGISTER_A0 :: nat where "MIPS_REGISTER_A0 = 3"
definition MIPS_REGISTER_SP :: nat where "MIPS_REGISTER_SP = 26"
definition MIPS_REGISTER_RA :: nat where "MIPS_REGISTER_RA = 28"
definition sizeof_context_t :: u32 where "sizeof_context_t = 136"

record image =
  thread_stack_areas :: u32
  idle_thread_wait_loop :: u32
  thread_finish_addr :: u32

text \<open>
  The state that thread.c and scheduler.c share. \<open>contexts\<close> is the memory at the addresses of
  context structures; \<open>create_next\<close> and \<open>create_prio_next\<close> are the two function-local \<open>static\<close>
  variables \<open>next_tid\<close>.
\<close>

record sched =
  thread_table :: "thread_entry list"
  thread_next_sleeper_id :: int
  scheduler_current_thread :: "int list"
  ready_head :: int
  ready_tail :: int
  contexts :: "u32 \<Rightarrow> context_t"
  create_next :: int
  create_prio_next :: int

definition get_thread :: "int \<Rightarrow> 'a sched_scheme \<Rightarrow> thread_entry kresult" where
  "get_thread t s = rd (thread_table s) t"

definition set_thread ::
  "int \<Rightarrow> (thread_entry \<Rightarrow> thread_entry) \<Rightarrow> 'a sched_scheme \<Rightarrow> 'a sched_scheme kresult" where
  "set_thread t f s =
     rbind (rd (thread_table s) t) (\<lambda>e. rbind (wr (thread_table s) t (f e)) (\<lambda>T. Inr (s\<lparr>thread_table := T\<rparr>)))"

section \<open>Start-up\<close>

definition stack_context :: "image \<Rightarrow> int \<Rightarrow> u32" where
  "stack_context img t = thread_stack_areas img + CONFIG_THREAD_STACKSIZE * word_of_int t +
     CONFIG_THREAD_STACKSIZE - sizeof_context_t"

definition nil_thread :: "image \<Rightarrow> int \<Rightarrow> thread_entry" where
  "nil_thread img i = \<lparr>context_ptr = stack_context img i, user_context = 0, t_state = THREAD_FREE,
     sleeps_on = 0, t_pagetable = 0, process_id = -1, t_next = -1, next_sleeper_id = -1,
     wakeup_time = 0, t_priority = THREAD_PRIORITY_NORMAL, userland_pid = -1\<rparr>"

definition set_reg :: "nat \<Rightarrow> u32 \<Rightarrow> context_t \<Rightarrow> context_t" where
  "set_reg r v c = c\<lparr>cpu_regs := (cpu_regs c)[r := v]\<rparr>"

definition thread_table_init :: "nat \<Rightarrow> image \<Rightarrow> 'a sched_scheme \<Rightarrow> 'a sched_scheme kresult" where
  "thread_table_init sizeof_thread_table_t img s =
     kassert (sizeof_thread_table_t = 64)
      (let T = map (\<lambda>i. nil_thread img (int i)) [0..<nat CONFIG_MAX_THREADS];
           p = stack_context img IDLE_THREAD_TID;
           c = (set_reg MIPS_REGISTER_SP
                 (thread_stack_areas img + CONFIG_THREAD_STACKSIZE - 4 - sizeof_context_t)
                 (contexts s p))\<lparr>pc := idle_thread_wait_loop img,
                   ctx_status := INTERRUPT_MASK_ALL OR INTERRUPT_MASK_MASTER, prev_context := p\<rparr>
       in set_thread IDLE_THREAD_TID (\<lambda>e. e\<lparr>t_state := THREAD_READY\<rparr>)
            (s\<lparr>thread_next_sleeper_id := -1, thread_table := T, contexts := (contexts s)(p := c)\<rparr>))"

section \<open>Creating and ending a thread\<close>

text \<open>The search for a free slot from \<open>next_tid\<close> on, which steps over the idle thread.\<close>

function thread_find_free :: "thread_entry list \<Rightarrow> int \<Rightarrow> int \<Rightarrow> int option kresult" where
  "thread_find_free T next_tid i =
     (if i < CONFIG_MAX_THREADS then
        let t = (i + next_tid) smod CONFIG_MAX_THREADS in
        if t = IDLE_THREAD_TID then thread_find_free T next_tid (i + 1)
        else rbind (rd T t) (\<lambda>e.
          if t_state e = THREAD_FREE then Inr (Some t) else thread_find_free T next_tid (i + 1))
      else Inr None)"
  by pat_completeness auto
termination
  by (relation "measure (\<lambda>(T, n, i). nat (CONFIG_MAX_THREADS - i))") auto

declare thread_find_free.simps [simp del]

text \<open>The context of a new thread: cleared, then set to enter \<open>func\<close> and return to \<open>thread_finish\<close>.\<close>

definition new_context :: "image \<Rightarrow> int \<Rightarrow> u32 \<Rightarrow> u32 \<Rightarrow> context_t" where
  "new_context img tid func arg =
     (let sp = thread_stack_areas img + CONFIG_THREAD_STACKSIZE * word_of_int tid +
            CONFIG_THREAD_STACKSIZE - 4 - sizeof_context_t;
          regs = (replicate 29 0)[MIPS_REGISTER_SP := sp, MIPS_REGISTER_RA := thread_finish_addr img,
            MIPS_REGISTER_A0 := arg]
      in \<lparr>cpu_regs = regs[MIPS_REGISTER_SP := regs ! MIPS_REGISTER_SP - 4], reg_hi = 0, reg_lo = 0,
          pc = func, ctx_status = INTERRUPT_MASK_ALL OR INTERRUPT_MASK_MASTER,
          prev_context = stack_context img tid\<rparr>)"

definition new_thread :: "image \<Rightarrow> int \<Rightarrow> u32 \<Rightarrow> thread_entry \<Rightarrow> thread_entry" where
  "new_thread img tid prio e = e\<lparr>t_state := THREAD_NONREADY, context_ptr := stack_context img tid,
     user_context := 0, t_pagetable := 0, sleeps_on := 0, process_id := -1, t_next := -1,
     t_priority := prio\<rparr>"

definition thread_create_with_priority ::
  "image \<Rightarrow> u32 \<Rightarrow> u32 \<Rightarrow> u32 \<Rightarrow> 'a sched_scheme \<Rightarrow> (int \<times> 'a sched_scheme) kresult" where
  "thread_create_with_priority img func arg p s =
     rbind (thread_find_free (thread_table s) (create_prio_next s) 0) (\<lambda>r.
       case r of None \<Rightarrow> Inr (-1, s)
       | Some tid \<Rightarrow>
           kassert (p = THREAD_PRIORITY_HIGH \<or> p = THREAD_PRIORITY_NORMAL)
             (rbind (set_thread tid (new_thread img tid p) s) (\<lambda>s'.
                Inr (tid, s'\<lparr>create_prio_next := (tid + 1) smod CONFIG_MAX_THREADS,
                  contexts := (contexts s')(stack_context img tid := new_context img tid func arg)\<rparr>))))"

definition thread_create ::
  "image \<Rightarrow> u32 \<Rightarrow> u32 \<Rightarrow> 'a sched_scheme \<Rightarrow> (int \<times> 'a sched_scheme) kresult" where
  "thread_create img func arg s =
     rbind (thread_find_free (thread_table s) (create_next s) 0) (\<lambda>r.
       case r of None \<Rightarrow> Inr (-1, s)
       | Some tid \<Rightarrow>
           rbind (set_thread tid (new_thread img tid THREAD_PRIORITY_NORMAL) s) (\<lambda>s'.
             Inr (tid, s'\<lparr>create_next := (tid + 1) smod CONFIG_MAX_THREADS,
               contexts := (contexts s')(stack_context img tid := new_context img tid func arg)\<rparr>)))"

definition thread_get_current_thread :: "int \<Rightarrow> 'a sched_scheme \<Rightarrow> int kresult" where
  "thread_get_current_thread cpu s = rd (scheduler_current_thread s) cpu"

definition thread_get_current_thread_entry :: "int \<Rightarrow> 'a sched_scheme \<Rightarrow> thread_entry kresult" where
  "thread_get_current_thread_entry cpu s =
     rbind (thread_get_current_thread cpu s) (\<lambda>t. rd (thread_table s) t)"

text \<open>\<open>thread_finish\<close> up to the software interrupt in which the scheduler frees the slot.\<close>

definition thread_finish :: "int \<Rightarrow> 'a sched_scheme \<Rightarrow> 'a sched_scheme kresult" where
  "thread_finish cpu s =
     rbind (thread_get_current_thread cpu s) (\<lambda>my_tid.
       rbind (get_thread my_tid s) (\<lambda>e.
         kassert (t_pagetable e = 0) (set_thread my_tid (\<lambda>e. e\<lparr>t_state := THREAD_DYING\<rparr>) s)))"

section \<open>Timed sleep\<close>

text \<open>
  The walk along the list of sleepers, ordered by wake-up time: \<open>(it, prev, is_tail, is_top)\<close> where
  the loop is left. It changes no thread, so a walk with more steps than there are threads goes on
  for ever: with fuel for that many steps, running out is \<open>Hang\<close>.
\<close>

fun sleeper_position ::
  "nat \<Rightarrow> u32 \<Rightarrow> thread_entry list \<Rightarrow> int \<Rightarrow> int \<Rightarrow> bool \<Rightarrow> (int \<times> int \<times> bool \<times> bool) kresult" where
  "sleeper_position 0 w T it prev is_top = Inl Hang"
| "sleeper_position (Suc n) w T it prev is_top =
     rbind (rd T it) (\<lambda>e.
       if w < wakeup_time e then Inr (it, prev, False, is_top)
       else if next_sleeper_id e = -1 then Inr (it, prev, True, is_top)
       else sleeper_position n w T (next_sleeper_id e) it False)"

text \<open>Linking the thread in at the position that the loop found.\<close>

definition sleeper_insert :: "int \<Rightarrow> int \<times> int \<times> bool \<times> bool \<Rightarrow> 'a sched_scheme \<Rightarrow> 'a sched_scheme kresult" where
  "sleeper_insert my_tid pos s =
     (case pos of (it, prev, is_tail, is_top) \<Rightarrow>
        if is_tail then
          rbind (set_thread it (\<lambda>e. e\<lparr>next_sleeper_id := my_tid\<rparr>) s)
            (set_thread my_tid (\<lambda>e. e\<lparr>next_sleeper_id := -1\<rparr>))
        else if is_top then
          rbind (set_thread my_tid (\<lambda>e. e\<lparr>next_sleeper_id := thread_next_sleeper_id s\<rparr>) s) (\<lambda>s2.
            Inr (s2\<lparr>thread_next_sleeper_id := my_tid\<rparr>))
        else
          kassert (prev \<noteq> -1)
            (rbind (set_thread my_tid (\<lambda>e. e\<lparr>next_sleeper_id := it\<rparr>) s)
              (set_thread prev (\<lambda>e. e\<lparr>next_sleeper_id := my_tid\<rparr>))))"

text \<open>\<open>thread_sleep\<close> up to \<open>thread_switch\<close>; \<open>now\<close> is what \<open>rtc_get_msec\<close> returns.\<close>

definition thread_sleep :: "u32 \<Rightarrow> int \<Rightarrow> u32 \<Rightarrow> 'a sched_scheme \<Rightarrow> 'a sched_scheme kresult" where
  "thread_sleep now cpu ms s =
     (let w = now + ms in
      rbind (thread_get_current_thread cpu s) (\<lambda>my_tid.
      rbind (set_thread my_tid (\<lambda>e. e\<lparr>wakeup_time := w\<rparr>) s) (\<lambda>s1.
        if thread_next_sleeper_id s1 = -1 then
          set_thread my_tid (\<lambda>e. e\<lparr>next_sleeper_id := -1\<rparr>) (s1\<lparr>thread_next_sleeper_id := my_tid\<rparr>)
        else
          rbind (sleeper_position (nat CONFIG_MAX_THREADS) w (thread_table s1)
              (thread_next_sleeper_id s1) (-1) True) (\<lambda>pos. sleeper_insert my_tid pos s1))))"

section \<open>Reading and updating one thread\<close>

definition th :: "'a sched_scheme \<Rightarrow> int \<Rightarrow> thread_entry" where
  "th s p = thread_table s ! nat p"

definition th_upd :: "int \<Rightarrow> (thread_entry \<Rightarrow> thread_entry) \<Rightarrow> 'a sched_scheme \<Rightarrow> 'a sched_scheme" where
  "th_upd t f s = s\<lparr>thread_table := (thread_table s)[nat t := f (th s t)]\<rparr>"

lemma next_self [simp]: "\<exists>v. e = e\<lparr>t_next := v\<rparr>" "\<exists>v. e\<lparr>t_next := u\<rparr> = e\<lparr>t_next := v\<rparr>"
  by (rule exI [of _ "t_next e"], simp) blast

abbreviation table_ok :: "'a sched_scheme \<Rightarrow> bool" where
  "table_ok s \<equiv> length (thread_table s) = 32"

lemma get_thread_eq [simp]: "table_ok s \<Longrightarrow> 0 \<le> t \<Longrightarrow> t < 32 \<Longrightarrow> get_thread t s = Inr (th s t)"
  by (simp add: get_thread_def th_def)

lemma set_thread_eq [simp]: "table_ok s \<Longrightarrow> 0 \<le> t \<Longrightarrow> t < 32 \<Longrightarrow> set_thread t f s = Inr (th_upd t f s)"
  by (simp add: set_thread_def th_upd_def th_def)

lemma table_ok_upd [simp]: "table_ok (th_upd t f s) = table_ok s"
  by (simp add: th_upd_def)

lemma th_th_upd [simp]:
  "table_ok s \<Longrightarrow> 0 \<le> t \<Longrightarrow> t < 32 \<Longrightarrow> 0 \<le> p \<Longrightarrow>
     th (th_upd t f s) p = (if p = t then f (th s p) else th s p)"
  by (auto simp: th_upd_def th_def nth_list_update)

lemma th_upd_fields [simp]:
  "thread_next_sleeper_id (th_upd t f s) = thread_next_sleeper_id s"
  "scheduler_current_thread (th_upd t f s) = scheduler_current_thread s"
  "ready_head (th_upd t f s) = ready_head s" "ready_tail (th_upd t f s) = ready_tail s"
  "contexts (th_upd t f s) = contexts s" "sched.more (th_upd t f s) = sched.more s"
  "create_next (th_upd t f s) = create_next s" "create_prio_next (th_upd t f s) = create_prio_next s"
  by (simp_all add: th_upd_def)

lemma th_other_fields [simp]:
  "th (s\<lparr>ready_head := h\<rparr>) = th s" "th (s\<lparr>ready_tail := h\<rparr>) = th s"
  "th (s\<lparr>thread_next_sleeper_id := h\<rparr>) = th s" "th (s\<lparr>scheduler_current_thread := c\<rparr>) = th s"
  "th (s\<lparr>contexts := m\<rparr>) = th s" "th (s\<lparr>create_next := k\<rparr>) = th s"
  "th (s\<lparr>create_prio_next := k\<rparr>) = th s" "th (sched.more_update g s) = th s"
  by (simp_all add: th_def fun_eq_iff)

end
