(* ===== verification/Scheduler.thy ===== *)
theory Scheduler
  imports Threads Chains
begin

text \<open>
  The round-robin scheduler of \<open>kernel/scheduler.c\<close> with two priorities. The ready list is threaded
  through the thread table by the field \<open>next\<close>; the abstract view is the list of thread ids, and
  the operations are shown to be those of a two-class queue.
\<close>

section \<open>Operations\<close>

definition CONFIG_SCHEDULER_TIMESLICE :: int where "CONFIG_SCHEDULER_TIMESLICE = 750"

definition scheduler_init :: "'a sched_scheme \<Rightarrow> 'a sched_scheme" where
  "scheduler_init s = s\<lparr>scheduler_current_thread := replicate (nat CONFIG_MAX_CPUS) 0\<rparr>"

text \<open>
  The loop that finds the last high-priority thread from \<open>cu\<close> on. The table does not change in
  it, so it either ends within as many steps as there are threads or never.
\<close>

fun last_high :: "nat \<Rightarrow> thread_entry list \<Rightarrow> int \<Rightarrow> int \<Rightarrow> (int \<times> int) kresult" where
  "last_high 0 T cu nxt = Inl Hang"
| "last_high (Suc n) T cu nxt =
     (if nxt \<noteq> -1 then
        rbind (rd T nxt) (\<lambda>e.
          if t_priority e = THREAD_PRIORITY_HIGH then last_high n T nxt (t_next e)
          else Inr (cu, nxt))
      else Inr (cu, nxt))"

definition scheduler_add_to_ready_list :: "int \<Rightarrow> 'a sched_scheme \<Rightarrow> 'a sched_scheme kresult" where
  "scheduler_add_to_ready_list t s =
     kassert (t \<noteq> IDLE_THREAD_TID) (kassert (t \<ge> 0 \<and> t < CONFIG_MAX_THREADS)
      (if ready_tail s < 0 then
         set_thread t (\<lambda>e. e\<lparr>t_next := -1\<rparr>) (s\<lparr>ready_head := t, ready_tail := t\<rparr>)
       else
         rbind (get_thread t s) (\<lambda>et.
           if t_priority et = THREAD_PRIORITY_HIGH then
             rbind (get_thread (ready_head s) s) (\<lambda>ec.
               if t_priority ec = THREAD_PRIORITY_HIGH then
                 rbind (last_high (nat CONFIG_MAX_THREADS) (thread_table s) (ready_head s) (t_next ec))
                  (\<lambda>(cu, nxt).
                    rbind (set_thread cu (\<lambda>e. e\<lparr>t_next := t\<rparr>) s) (\<lambda>s1.
                    rbind (set_thread t (\<lambda>e. e\<lparr>t_next := nxt\<rparr>) s1) (\<lambda>s2.
                      Inr (if nxt = -1 then s2\<lparr>ready_tail := t\<rparr> else s2))))
               else
                 rbind (set_thread t (\<lambda>e. e\<lparr>t_next := ready_head s\<rparr>) s) (\<lambda>s1.
                   Inr (s1\<lparr>ready_head := t\<rparr>)))
           else
             rbind (set_thread (ready_tail s) (\<lambda>e. e\<lparr>t_next := t\<rparr>) s) (\<lambda>s1.
             rbind (set_thread t (\<lambda>e. e\<lparr>t_next := -1\<rparr>) s1) (\<lambda>s2.
               Inr (s2\<lparr>ready_tail := t\<rparr>))))))"

definition scheduler_remove_first_ready :: "'a sched_scheme \<Rightarrow> (int \<times> 'a sched_scheme) kresult" where
  "scheduler_remove_first_ready s =
     (let t = ready_head s in
      kassert (t \<noteq> IDLE_THREAD_TID)
       (if t \<ge> 0 then
          rbind (get_thread t s) (\<lambda>e.
            kassert (t_state e = THREAD_READY)
             (let s1 = (if ready_tail s = t then s\<lparr>ready_tail := -1\<rparr> else s)
              in Inr (t, s1\<lparr>ready_head := t_next e\<rparr>)))
        else Inr (IDLE_THREAD_TID, s)))"

definition scheduler_add_ready :: "int \<Rightarrow> 'a sched_scheme \<Rightarrow> 'a sched_scheme kresult" where
  "scheduler_add_ready t s =
     rbind (scheduler_add_to_ready_list t s) (set_thread t (\<lambda>e. e\<lparr>t_state := THREAD_READY\<rparr>))"

definition thread_run :: "int \<Rightarrow> 'a sched_scheme \<Rightarrow> 'a sched_scheme kresult" where
  "thread_run t s = scheduler_add_ready t s"

text \<open>
  The loop over the expired sleepers, one sleeper each time. A round clears the link of its sleeper,
  and a round whose sleeper has no link is the last one: there is at most one round more than
  threads, and one more test of the loop's condition.
\<close>

fun wakeup_loop :: "nat \<Rightarrow> u32 \<Rightarrow> 'a sched_scheme \<Rightarrow> 'a sched_scheme kresult" where
  "wakeup_loop 0 cur_time s = Inl Hang"
| "wakeup_loop (Suc n) cur_time s =
     (if thread_next_sleeper_id s \<noteq> -1 then
        let t = thread_next_sleeper_id s in
        rbind (get_thread t s) (\<lambda>e.
          if wakeup_time e < cur_time then
            rbind (set_thread t (\<lambda>e. e\<lparr>next_sleeper_id := -1, wakeup_time := 0\<rparr>) s) (\<lambda>s1.
            rbind (scheduler_add_to_ready_list t s1) (\<lambda>s2.
            rbind (set_thread t (\<lambda>e. e\<lparr>t_state := THREAD_READY\<rparr>) s2) (\<lambda>s3.
              wakeup_loop n cur_time (s3\<lparr>thread_next_sleeper_id := next_sleeper_id e\<rparr>))))
          else Inr s)
      else Inr s)"

definition scheduler_wakeup_expired_sleepers :: "u32 \<Rightarrow> 'a sched_scheme \<Rightarrow> 'a sched_scheme kresult" where
  "scheduler_wakeup_expired_sleepers now s =
     (if thread_next_sleeper_id s = -1 then Inr s
      else wakeup_loop (nat CONFIG_MAX_THREADS + 2) now s)"

text \<open>
  The scheduler: what happens to the thread \<open>c\<close> that the processor leaves, and the choice of the
  next one. \<open>now\<close> is the clock, \<open>rnd\<close> the number that \<open>_get_rand\<close> returns; the result has the
  ticks that the timer is set to.
\<close>

definition schedule_leave :: "u32 \<Rightarrow> int \<Rightarrow> 'a sched_scheme \<Rightarrow> 'a sched_scheme kresult" where
  "schedule_leave now c s =
     rbind (get_thread c s) (\<lambda>current_thread.
       if t_state current_thread = THREAD_DYING then
         set_thread c (\<lambda>e. e\<lparr>t_state := THREAD_FREE\<rparr>) s
       else if sleeps_on current_thread \<noteq> 0 then
         set_thread c (\<lambda>e. e\<lparr>t_state := THREAD_SLEEPING\<rparr>) s
       else if wakeup_time current_thread \<noteq> 0 then
         set_thread c (\<lambda>e. e\<lparr>t_state := THREAD_SLEEPING\<rparr>) s
       else
         rbind (if c \<noteq> IDLE_THREAD_TID then scheduler_add_to_ready_list c s
                else scheduler_wakeup_expired_sleepers now s)
           (set_thread c (\<lambda>e. e\<lparr>t_state := THREAD_READY\<rparr>)))"

definition scheduler_schedule ::
  "u32 \<Rightarrow> int \<Rightarrow> int \<Rightarrow> 'a sched_scheme \<Rightarrow> (int \<times> 'a sched_scheme) kresult" where
  "scheduler_schedule now rnd this_cpu s =
     rbind (rd (scheduler_current_thread s) this_cpu) (\<lambda>c.
     rbind (schedule_leave now c s) (\<lambda>s1.
     rbind (scheduler_remove_first_ready s1) (\<lambda>(t, s2).
     rbind (set_thread t (\<lambda>e. e\<lparr>t_state := THREAD_RUNNING\<rparr>) s2) (\<lambda>s3.
     rbind (wr (scheduler_current_thread s3) this_cpu t) (\<lambda>cur.
       Inr (rnd + CONFIG_SCHEDULER_TIMESLICE sdiv 2, s3\<lparr>scheduler_current_thread := cur\<rparr>))))))"

section \<open>The ready list as a queue of two classes\<close>

abbreviation nxt :: "'a sched_scheme \<Rightarrow> int \<Rightarrow> int" where
  "nxt s p \<equiv> t_next (th s p)"

abbreviation high :: "'a sched_scheme \<Rightarrow> int \<Rightarrow> bool" where
  "high s p \<equiv> t_priority (th s p) = THREAD_PRIORITY_HIGH"

text \<open>\<open>rq s rs\<close>: the ready list holds the threads \<open>rs\<close> in this order.\<close>

definition rq :: "'a sched_scheme \<Rightarrow> int list \<Rightarrow> bool" where
  "rq s rs \<longleftrightarrow> table_ok s \<and> tids 32 rs \<and> path (nxt s) (ready_head s) rs (-1) \<and> ready_tail s = final rs"

text \<open>A high-priority thread queues behind the leading high-priority threads, any other at the end.\<close>

definition enq :: "(int \<Rightarrow> bool) \<Rightarrow> int \<Rightarrow> int list \<Rightarrow> int list" where
  "enq hi t rs = (if hi t then takeWhile hi rs @ t # dropWhile hi rs else rs @ [t])"

text \<open>What an operation on the ready list may change: the link fields of the threads in \<open>A\<close>.\<close>

definition same_rest :: "'a sched_scheme \<Rightarrow> 'a sched_scheme \<Rightarrow> bool" where
  "same_rest s s' \<longleftrightarrow> thread_next_sleeper_id s' = thread_next_sleeper_id s \<and>
     scheduler_current_thread s' = scheduler_current_thread s \<and> contexts s' = contexts s \<and>
     create_next s' = create_next s \<and> create_prio_next s' = create_prio_next s \<and>
     sched.more s' = sched.more s"

definition relinked :: "int set \<Rightarrow> 'a sched_scheme \<Rightarrow> 'a sched_scheme \<Rightarrow> bool" where
  "relinked A s s' \<longleftrightarrow> table_ok s' \<and> same_rest s s' \<and>
     (\<forall>p. 0 \<le> p \<longrightarrow> p < 32 \<longrightarrow> th s' p = (th s p)\<lparr>t_next := nxt s' p\<rparr> \<and> (p \<notin> A \<longrightarrow> nxt s' p = nxt s p))"

lemma set_enq [simp]: "set (enq hi t rs) = insert t (set rs)"
proof -
  have "set (takeWhile hi rs) \<union> set (dropWhile hi rs) = set rs"
    by (metis set_append takeWhile_dropWhile_id)
  then show ?thesis by (auto simp: enq_def)
qed

lemma last_high_eq:
  assumes "table_ok s" "path (nxt s) h as (-1)" "tids 32 as" "length as < n"
  shows "last_high n (thread_table s) c h =
    Inr (last (c # takeWhile (high s) as), head (dropWhile (high s) as))"
  using assms
proof (induction as arbitrary: n c h)
  case Nil
  then show ?case by (cases n) auto
next
  case (Cons a as)
  obtain m where n: "n = Suc m" using Cons.prems(4) by (cases n) auto
  from Cons.prems have a: "h = a" "0 < a" "a < 32" by auto
  have r: "rd (thread_table s) a = Inr (th s a)" using a Cons.prems(1) by (simp add: th_def)
  show ?case
  proof (cases "high s a")
    case True
    with Cons.IH [of "nxt s a" m a] Cons.prems n a r show ?thesis by simp
  next
    case False
    with n a r show ?thesis by simp
  qed
qed

lemma rq_insert:
  assumes rq: "rq s (hs @ ls)" and t: "0 < t" "t < 32" "t \<notin> set (hs @ ls)" and ok: "table_ok s'"
    and nx: "\<And>p. 0 < p \<Longrightarrow> p < 32 \<Longrightarrow> nxt s' p =
      (if p = t then head ls else if hs \<noteq> [] \<and> p = last hs then t else nxt s p)"
    and hd: "ready_head s' = (if hs = [] then t else ready_head s)"
    and tl: "ready_tail s' = (if ls = [] then t else ready_tail s)"
  shows "rq s' (hs @ t # ls)"
proof -
  have tids: "tids 32 (hs @ ls)" and path: "path (nxt s) (ready_head s) (hs @ ls) (-1)"
    and tail: "ready_tail s = final (hs @ ls)"
    using rq by (auto simp: rq_def)
  have dist: "distinct (hs @ ls)" using tids by (rule tids_distinct)
  then have disj: "last hs \<notin> set ls" if "hs \<noteq> []" using last_in_set [OF that] by auto
  obtain m where m: "path (nxt s) (ready_head s) hs m" "path (nxt s) m ls (-1)"
    using path by (auto simp: path_append)
  have "path (nxt s') m ls (-1) = path (nxt s) m ls (-1)"
    using tids t disj by (intro path_cong) (auto simp: nx tids_def)
  then have ls: "path (nxt s') (head ls) ls (-1)" using m(2) path_head by metis
  have hs: "path (nxt s') (ready_head s') hs t"
  proof (cases "hs = []")
    case False
    have "nxt s' p = (if p = last hs then t else nxt s p)" if "p \<in> set hs" for p
    proof -
      have "0 < p" "p < 32" "p \<noteq> t" using that tids t by (auto simp: tids_append dest: tids_range)
      with nx False show ?thesis by simp
    qed
    with path_redirect [OF m(1) _ False, of "nxt s'" t] dist False show ?thesis
      by (simp add: hd)
  qed (simp add: hd)
  have "nxt s' t = head ls" using nx [OF t(1,2)] by simp
  with hs ls have "path (nxt s') (ready_head s') (hs @ t # ls) (-1)" by (simp add: path_split)
  moreover have "tids 32 (hs @ t # ls)" using tids t by (auto simp: tids_append)
  moreover have "ready_tail s' = final (hs @ t # ls)" using tl tail by (simp add: final_def)
  ultimately show ?thesis using ok by (simp add: rq_def)
qed

lemma relinked_upd:
  "table_ok s \<Longrightarrow> 0 \<le> t \<Longrightarrow> t < 32 \<Longrightarrow> t \<in> A \<Longrightarrow> relinked A s (th_upd t (\<lambda>e. e\<lparr>t_next := v\<rparr>) s)"
  by (auto simp: relinked_def same_rest_def)

lemma relinked_trans: "relinked A s s1 \<Longrightarrow> relinked A s1 s2 \<Longrightarrow> relinked A s s2"
proof -
  assume a: "relinked A s s1" "relinked A s1 s2"
  have "th s2 p = (th s p)\<lparr>t_next := nxt s2 p\<rparr> \<and> (p \<notin> A \<longrightarrow> nxt s2 p = nxt s p)"
    if p: "0 \<le> p" "p < 32" for p
  proof -
    obtain v where v: "th s1 p = (th s p)\<lparr>t_next := v\<rparr>"
      using a(1) p unfolding relinked_def by blast
    define w where "w = nxt s2 p"
    have "th s2 p = (th s1 p)\<lparr>t_next := w\<rparr>"
      using a(2) p unfolding relinked_def w_def by blast
    then have "th s2 p = (th s p)\<lparr>t_next := w\<rparr>" by (simp add: v)
    moreover have "p \<notin> A \<longrightarrow> nxt s2 p = nxt s p"
      using a p unfolding relinked_def by presburger
    ultimately show ?thesis by (simp add: w_def)
  qed
  with a show ?thesis by (auto simp: relinked_def same_rest_def)
qed

lemma relinked_ends:
  "relinked A s s' \<Longrightarrow> relinked A s (s'\<lparr>ready_head := h\<rparr>)" "relinked A s s' \<Longrightarrow> relinked A s (s'\<lparr>ready_tail := h\<rparr>)"
  by (simp_all add: relinked_def same_rest_def)

text \<open>The code's three ways to link a thread into the list all insert it between \<open>hs\<close> and \<open>ls\<close>.\<close>

lemma rq_head_tail:
  assumes "rq s rs"
  shows "ready_head s = head rs" "ready_tail s = final rs" "table_ok s" "tids 32 rs"
    "path (nxt s) (head rs) rs (-1)"
  using assms path_head [of "nxt s" "ready_head s" rs] by (auto simp: rq_def)

definition link_after :: "int list \<Rightarrow> int \<Rightarrow> int list \<Rightarrow> 'a sched_scheme \<Rightarrow> 'a sched_scheme" where
  "link_after hs t ls s =
     (let s2 = th_upd t (\<lambda>e. e\<lparr>t_next := head ls\<rparr>) (th_upd (last hs) (\<lambda>e. e\<lparr>t_next := t\<rparr>) s)
      in if ls = [] then s2\<lparr>ready_tail := t\<rparr> else s2)"

lemma link_after_spec:
  assumes rq: "rq s (hs @ ls)" and hs: "hs \<noteq> []" and t: "0 < t" "t < 32" "t \<notin> set (hs @ ls)"
  shows "rq (link_after hs t ls s) (hs @ t # ls)"
    "relinked (insert t (set (hs @ ls))) s (link_after hs t ls s)"
proof -
  have ok: "table_ok s" "tids 32 (hs @ ls)" using rq by (auto simp: rq_def)
  have l: "last hs \<in> set (hs @ ls)" using hs by simp
  then have lr: "0 \<le> last hs" "last hs < 32" "last hs \<noteq> t" using tids_range [OF ok(2) l] t(3) by auto
  show "rq (link_after hs t ls s) (hs @ t # ls)"
    using rq t ok hs lr by (intro rq_insert [of s]) (simp_all add: link_after_def)
  let ?s1 = "th_upd (last hs) (\<lambda>e. e\<lparr>t_next := t\<rparr>) s"
  have "relinked (insert t (set (hs @ ls))) s ?s1"
    using ok lr l by (intro relinked_upd) auto
  moreover have "relinked (insert t (set (hs @ ls))) ?s1 (th_upd t (\<lambda>e. e\<lparr>t_next := head ls\<rparr>) ?s1)"
    using ok t by (intro relinked_upd) auto
  ultimately show "relinked (insert t (set (hs @ ls))) s (link_after hs t ls s)"
    unfolding link_after_def Let_def by (auto intro: relinked_ends dest: relinked_trans)
qed

lemma head_eq_end: "tids n ps \<Longrightarrow> head ps = -1 \<longleftrightarrow> ps = []"
  by (cases ps) auto

lemma add_code:
  assumes rq: "rq s rs" and t: "0 < t" "t < 32" and ne: "rs \<noteq> []"
  shows "scheduler_add_to_ready_list t s = Inr
    (if \<not> high s t then link_after rs t [] s
     else if high s (hd rs) then link_after (takeWhile (high s) rs) t (dropWhile (high s) rs) s
     else (th_upd t (\<lambda>e. e\<lparr>t_next := head rs\<rparr>) s)\<lparr>ready_head := t\<rparr>)"
proof -
  note q = rq_head_tail [OF rq]
  obtain a as where rs: "rs = a # as" using ne by (cases rs) auto
  have a: "0 < a" "a < 32" "tids 32 as" "path (nxt s) (nxt s a) as (-1)" using q rs by auto
  have l: "0 < last rs" "last rs < 32" using q(4) ne by (simp_all add: tids_def)
  show ?thesis
  proof (cases "high s t \<and> high s a")
    case True
    have "length as < 32" using tids_length [OF a(3)] by auto
    with last_high_eq [OF q(3) a(4,3), of 32 a] True have loop:
      "last_high 32 (thread_table s) a (nxt s a) =
        Inr (last (takeWhile (high s) rs), head (dropWhile (high s) rs))" by (simp add: rs)
    have "set (takeWhile (high s) rs) \<subseteq> set rs" using set_takeWhileD by fastforce
    moreover have "takeWhile (high s) rs \<noteq> []" using True rs by simp
    ultimately have "last (takeWhile (high s) rs) \<in> set rs" using last_in_set by blast
    then have c: "0 < last (takeWhile (high s) rs)" "last (takeWhile (high s) rs) < 32"
      using q(4) by (auto simp: tids_def)
    have "tids 32 (dropWhile (high s) rs)"
      using q(4) takeWhile_dropWhile_id [of "high s" rs] tids_append by metis
    from head_eq_end [OF this] show ?thesis
      using True q t a l loop c by (simp add: scheduler_add_to_ready_list_def rs link_after_def)
  next
    case False
    with q t a l rs show ?thesis by (auto simp: scheduler_add_to_ready_list_def link_after_def)
  qed
qed

lemma add_to_ready_list_spec:
  assumes rq: "rq s rs" and t: "0 < t" "t < 32" "t \<notin> set rs"
  shows "\<exists>s'. scheduler_add_to_ready_list t s = Inr s' \<and> rq s' (enq (high s) t rs) \<and>
    relinked (insert t (set rs)) s s'"
proof -
  have ok: "table_ok s" using rq by (simp add: rq_def)
  consider "rs = []" | "rs \<noteq> []" "\<not> high s t" | "rs \<noteq> []" "high s t" "high s (hd rs)"
    | "rs \<noteq> []" "high s t" "\<not> high s (hd rs)" by blast
  then show ?thesis
  proof cases
    case 1
    let ?s = "th_upd t (\<lambda>e. e\<lparr>t_next := -1\<rparr>) (s\<lparr>ready_head := t, ready_tail := t\<rparr>)"
    have "ready_tail s < 0" using rq 1 by (simp add: rq_def)
    then have "scheduler_add_to_ready_list t s = Inr ?s"
      using ok t by (simp add: scheduler_add_to_ready_list_def)
    moreover have "rq ?s ([] @ t # [])"
      using rq 1 t ok by (intro rq_insert [of s]) simp_all
    moreover have "relinked (insert t (set rs)) s ?s"
      using ok t by (simp add: relinked_def same_rest_def)
    ultimately show ?thesis using 1 by (auto simp: enq_def)
  next
    case 2
    with add_code [OF rq t(1,2)] link_after_spec [of s rs "[]" t] rq t show ?thesis
      by (simp add: enq_def)
  next
    case 3
    let ?hs = "takeWhile (high s) rs" and ?ls = "dropWhile (high s) rs"
    have "?hs \<noteq> []" using 3 by (cases rs) auto
    with 3 add_code [OF rq t(1,2)] link_after_spec [of s ?hs ?ls t] rq t show ?thesis
      by (simp add: enq_def)
  next
    case 4
    let ?s = "(th_upd t (\<lambda>e. e\<lparr>t_next := head rs\<rparr>) s)\<lparr>ready_head := t\<rparr>"
    have "rq ?s ([] @ t # rs)" using rq t ok 4 by (intro rq_insert [of s]) simp_all
    moreover have "relinked (insert t (set rs)) s ?s"
      using ok t by (intro relinked_ends relinked_upd) auto
    moreover have "enq (high s) t rs = t # rs" using 4 by (cases rs) (auto simp: enq_def)
    ultimately show ?thesis using 4 add_code [OF rq t(1,2)] by simp
  qed
qed

end
