(* ===== verification/Sleepq.thy ===== *)
theory Sleepq
  imports Scheduler
begin

text \<open>
  The sleep queue of \<open>kernel/sleepq.c\<close>: a hash table whose chains are threaded through the thread
  table by the same field \<open>next\<close> that the ready list uses. This theory has the operations and the
  effect of each on the chains; the invariant that ties chains, ready list and thread states
  together is in \<open>Kthreads\<close>.
\<close>

section \<open>Operations\<close>

definition SLEEPQ_HASHTABLE_SIZE :: nat where "SLEEPQ_HASHTABLE_SIZE = 127"

record kstate = sched +
  sleepq_hashtable :: "int list"

definition SLEEPQ_HASH :: "u32 \<Rightarrow> int" where
  "SLEEPQ_HASH res = uint (res mod of_nat SLEEPQ_HASHTABLE_SIZE)"

definition sleepq_init :: "kstate \<Rightarrow> kstate" where
  "sleepq_init s = s\<lparr>sleepq_hashtable := replicate SLEEPQ_HASHTABLE_SIZE (-1)\<rparr>"

text \<open>
  The loops along a chain. They change no thread: a walk of more steps than there are threads does
  not end, which is what running out of fuel stands for.
\<close>

fun chain_end :: "nat \<Rightarrow> thread_entry list \<Rightarrow> int \<Rightarrow> int kresult" where
  "chain_end 0 T prev = Inl Hang"
| "chain_end (Suc n) T prev =
     rbind (rd T prev) (\<lambda>e. if t_next e > 0 then chain_end n T (t_next e) else Inr prev)"

fun find_waiter :: "nat \<Rightarrow> u32 \<Rightarrow> thread_entry list \<Rightarrow> int \<Rightarrow> int \<Rightarrow> (int \<times> int) kresult" where
  "find_waiter 0 res T prev first = Inl Hang"
| "find_waiter (Suc n) res T prev first =
     (if first > 0 then
        rbind (rd T first) (\<lambda>e.
          if sleeps_on e \<noteq> res then find_waiter n res T first (t_next e) else Inr (prev, first))
      else Inr (prev, first))"

definition sleepq_add :: "u32 \<Rightarrow> int \<Rightarrow> u32 \<Rightarrow> kstate \<Rightarrow> kstate kresult" where
  "sleepq_add intr_state cpu res s =
     kassert (intr_state AND INTERRUPT_MASK_ALL = 0 \<or> \<not> (intr_state AND INTERRUPT_MASK_MASTER \<noteq> 0))
      (let hash = SLEEPQ_HASH res in
       rbind (thread_get_current_thread cpu s) (\<lambda>my_tid.
       rbind (set_thread my_tid (\<lambda>e. e\<lparr>t_next := -1, sleeps_on := res\<rparr>) s) (\<lambda>s1.
         kassert (my_tid \<noteq> IDLE_THREAD_TID)
          (rbind (rd (sleepq_hashtable s1) hash) (\<lambda>h.
             if h \<le> 0 then
               rbind (wr (sleepq_hashtable s1) hash my_tid) (\<lambda>ht. Inr (s1\<lparr>sleepq_hashtable := ht\<rparr>))
             else
               rbind (chain_end (nat CONFIG_MAX_THREADS) (thread_table s1) h) (\<lambda>prev.
                 set_thread prev (\<lambda>e. e\<lparr>t_next := my_tid\<rparr>) s1))))))"

text \<open>Taking \<open>first\<close> out of its chain and making it ready, as both wake operations do.\<close>

definition unchain :: "int \<Rightarrow> int \<Rightarrow> int \<Rightarrow> kstate \<Rightarrow> kstate kresult" where
  "unchain hash prev first s =
     rbind (get_thread first s) (\<lambda>e.
       if prev \<le> 0 then
         rbind (wr (sleepq_hashtable s) hash (t_next e)) (\<lambda>ht. Inr (s\<lparr>sleepq_hashtable := ht\<rparr>))
       else set_thread prev (\<lambda>p. p\<lparr>t_next := t_next e\<rparr>) s)"

definition make_ready :: "int \<Rightarrow> kstate \<Rightarrow> kstate kresult" where
  "make_ready first s =
     rbind (set_thread first (\<lambda>e. e\<lparr>sleeps_on := 0, t_next := -1\<rparr>) s) (\<lambda>s1.
     rbind (get_thread first s1) (\<lambda>e.
       if t_state e = THREAD_SLEEPING then
         rbind (set_thread first (\<lambda>e. e\<lparr>t_state := THREAD_READY\<rparr>) s1) (scheduler_add_to_ready_list first)
       else Inr s1))"

definition sleepq_wake :: "u32 \<Rightarrow> kstate \<Rightarrow> kstate kresult" where
  "sleepq_wake res s =
     (let hash = SLEEPQ_HASH res in
      rbind (rd (sleepq_hashtable s) hash) (\<lambda>h.
      rbind (find_waiter (nat CONFIG_MAX_THREADS) res (thread_table s) (-1) h) (\<lambda>(prev, first).
        if first > 0 then rbind (unchain hash prev first s) (make_ready first)
        else Inr s)))"

text \<open>The outer loop of \<open>sleepq_wake_all\<close>: every round but the last wakes one thread.\<close>

fun wake_all_loop :: "nat \<Rightarrow> u32 \<Rightarrow> int \<Rightarrow> int \<Rightarrow> kstate \<Rightarrow> kstate kresult" where
  "wake_all_loop 0 res prev first s = Inl Hang"
| "wake_all_loop (Suc n) res prev first s =
     (if first > 0 then
        rbind (find_waiter (nat CONFIG_MAX_THREADS) res (thread_table s) prev first) (\<lambda>(prev', wake).
          if wake > 0 then
            rbind (get_thread wake s) (\<lambda>e.
            rbind (unchain (SLEEPQ_HASH res) prev' wake s) (\<lambda>s1.
            rbind (make_ready wake s1) (\<lambda>s2. wake_all_loop n res prev' (t_next e) s2)))
          else wake_all_loop n res prev' wake s)
      else Inr s)"

definition sleepq_wake_all :: "u32 \<Rightarrow> kstate \<Rightarrow> kstate kresult" where
  "sleepq_wake_all res s =
     rbind (rd (sleepq_hashtable s) (SLEEPQ_HASH res)) (\<lambda>h.
       wake_all_loop (nat CONFIG_MAX_THREADS + 1) res (-1) h s)"

section \<open>The loops on a chain\<close>

lemma th_hashtable [simp]: "th (s\<lparr>sleepq_hashtable := x\<rparr>) = th s"
  by (simp add: th_def fun_eq_iff)

lemma SLEEPQ_HASH_range [simp]: "0 \<le> SLEEPQ_HASH r" "SLEEPQ_HASH r < 127"
  by (simp_all add: SLEEPQ_HASH_def SLEEPQ_HASHTABLE_SIZE_def uint_mod)

lemma chain_end_eq:
  assumes "table_ok s" "path (nxt s) h ps (-1)" "tids 32 ps" "ps \<noteq> []" "length ps \<le> n"
  shows "chain_end n (thread_table s) h = Inr (last ps)"
  using assms
proof (induction ps arbitrary: n h)
  case (Cons p ps)
  obtain m where n: "n = Suc m" using Cons.prems(5) by (cases n) auto
  have p: "h = p" "0 < p" "p < 32" "path (nxt s) (nxt s p) ps (-1)" using Cons.prems by auto
  have r: "rd (thread_table s) p = Inr (th s p)" using p Cons.prems(1) by (simp add: th_def)
  have nx: "nxt s p = head ps" using p(4) by (rule path_head)
  show ?case
  proof (cases ps)
    case Nil
    with n p r nx show ?thesis by simp
  next
    case (Cons q qs)
    with Cons.IH [of "nxt s p" m] Cons.prems n p r nx show ?thesis by auto
  qed
qed simp

lemma find_waiter_eq:
  assumes "table_ok s" "path (nxt s) h ps (-1)" "tids 32 ps" "length ps < n"
  shows "find_waiter n r (thread_table s) prev h =
    Inr (last (prev # takeWhile (\<lambda>p. sleeps_on (th s p) \<noteq> r) ps),
         head (dropWhile (\<lambda>p. sleeps_on (th s p) \<noteq> r) ps))"
  using assms
proof (induction ps arbitrary: n prev h)
  case Nil
  then show ?case by (cases n) auto
next
  case (Cons p ps)
  obtain m where n: "n = Suc m" using Cons.prems(4) by (cases n) auto
  have p: "h = p" "0 < p" "p < 32" using Cons.prems by auto
  have r: "rd (thread_table s) p = Inr (th s p)" using p Cons.prems(1) by (simp add: th_def)
  show ?case
  proof (cases "sleeps_on (th s p) = r")
    case True
    with n p r show ?thesis by simp
  next
    case False
    with Cons.IH [of "nxt s p" m p] Cons.prems n p r show ?thesis by simp
  qed
qed

end
