(* ===== verification/Kthreads.thy ===== *)
theory Kthreads
  imports Sleepq
begin

text \<open>
  The invariant of the threads of the kernel: which thread is on which list, and how its state
  says so. Every operation of thread.c, scheduler.c and sleepq.c is shown to succeed and to keep the
  invariant when it is called the way the kernel calls it; the step relation puts the operations
  of the processors together in any order.
\<close>

section \<open>Invariant\<close>

text \<open>
  What the lists say of thread \<open>p\<close> with entry \<open>e\<close>: \<open>R\<close> is the ready list, \<open>C h\<close> the sleep queue of
  hash \<open>h\<close>, \<open>S\<close> the timed sleepers, \<open>cur\<close> the threads that the processors run, and \<open>W\<close> the
  running threads that have entered the list of timed sleepers and not yet called the scheduler.
\<close>

definition tok ::
  "int set \<Rightarrow> (int \<Rightarrow> int set) \<Rightarrow> int set \<Rightarrow> int set \<Rightarrow> int set \<Rightarrow> int \<Rightarrow> thread_entry \<Rightarrow> bool" where
  "tok R C S cur W p e \<longleftrightarrow>
     (p \<in> R \<longleftrightarrow> t_state e = THREAD_READY) \<and>
     (\<forall>h. 0 \<le> h \<and> h < 127 \<longrightarrow> (p \<in> C h \<longleftrightarrow> sleeps_on e \<noteq> 0 \<and> SLEEPQ_HASH (sleeps_on e) = h)) \<and>
     (p \<in> S \<longleftrightarrow> wakeup_time e \<noteq> 0) \<and>
     (p \<in> cur \<longleftrightarrow> t_state e = THREAD_RUNNING \<or> t_state e = THREAD_DYING) \<and>
     (sleeps_on e \<noteq> 0 \<longrightarrow> t_state e = THREAD_RUNNING \<or> t_state e = THREAD_SLEEPING) \<and>
     (wakeup_time e \<noteq> 0 \<longrightarrow> t_state e = THREAD_SLEEPING \<or> t_state e = THREAD_RUNNING \<and> p \<in> W) \<and>
     (t_state e = THREAD_SLEEPING \<longrightarrow> sleeps_on e \<noteq> 0 \<or> wakeup_time e \<noteq> 0) \<and>
     (sleeps_on e = 0 \<or> wakeup_time e = 0)"

definition idle_ok :: "thread_entry \<Rightarrow> bool" where
  "idle_ok e \<longleftrightarrow> sleeps_on e = 0 \<and> wakeup_time e = 0 \<and>
     (t_state e = THREAD_READY \<or> t_state e = THREAD_RUNNING)"

definition hq :: "kstate \<Rightarrow> (int \<Rightarrow> int list) \<Rightarrow> bool" where
  "hq s cs \<longleftrightarrow> length (sleepq_hashtable s) = 127 \<and>
     (\<forall>h. 0 \<le> h \<and> h < 127 \<longrightarrow> tids 32 (cs h) \<and> path (nxt s) (sleepq_hashtable s ! nat h) (cs h) (-1))"

abbreviation slp :: "'a sched_scheme \<Rightarrow> int \<Rightarrow> int" where
  "slp s p \<equiv> next_sleeper_id (th s p)"

definition sq :: "'a sched_scheme \<Rightarrow> int list \<Rightarrow> bool" where
  "sq s ss \<longleftrightarrow> tids 32 ss \<and> path (slp s) (thread_next_sleeper_id s) ss (-1) \<and>
     sorted (map (\<lambda>p. wakeup_time (th s p)) ss)"

definition cpus_ok :: "int list \<Rightarrow> bool" where
  "cpus_ok cur \<longleftrightarrow> length cur = 4 \<and> (\<forall>c \<in> set cur. 0 \<le> c \<and> c < 32) \<and>
     (\<forall>i j. i < 4 \<longrightarrow> j < 4 \<longrightarrow> cur ! i = cur ! j \<longrightarrow> i = j \<or> cur ! i = 0)"

text \<open>
  The lists are well formed, and they agree with the entry of every thread outside \<open>X\<close> when the
  threads in \<open>Q\<close> are running.
\<close>

definition kcore :: "int set \<Rightarrow> int set \<Rightarrow> int set \<Rightarrow> kstate \<Rightarrow> int list \<Rightarrow> (int \<Rightarrow> int list) \<Rightarrow> int list \<Rightarrow> bool" where
  "kcore X Q W s rs cs ss \<longleftrightarrow> rq s rs \<and> hq s cs \<and>
     (\<forall>p. 0 < p \<and> p < 32 \<and> p \<notin> X \<longrightarrow> tok (set rs) (\<lambda>h. set (cs h)) (set ss) Q W p (th s p))"

definition kview :: "int set \<Rightarrow> kstate \<Rightarrow> int list \<Rightarrow> (int \<Rightarrow> int list) \<Rightarrow> int list \<Rightarrow> bool" where
  "kview W s rs cs ss \<longleftrightarrow> kcore {} (set (scheduler_current_thread s)) W s rs cs ss \<and> sq s ss \<and>
     cpus_ok (scheduler_current_thread s) \<and> idle_ok (th s 0)"

definition kinv :: "kstate \<Rightarrow> bool" where
  "kinv s \<longleftrightarrow> (\<exists>rs cs ss. kview UNIV s rs cs ss)"

text \<open>
  No thread that still runs has a wake-up time that has passed. \<open>thread_sleep\<close> enters the calling thread in the
  list of sleepers and releases the thread table before its processor switches; an idle
  processor that wakes sleepers in between relies on this.
\<close>

definition sleepers_away :: "u32 \<Rightarrow> kstate \<Rightarrow> bool" where
  "sleepers_away now s \<longleftrightarrow> (\<forall>p \<in> {1..<32}. t_state (th s p) = THREAD_RUNNING \<longrightarrow> wakeup_time (th s p) \<noteq> 0 \<longrightarrow>
     \<not> wakeup_time (th s p) < now)"

lemma sleepers_away_0 [simp]: "sleepers_away 0 s"
  by (simp add: sleepers_away_def)

lemma kcoreD:
  assumes "kcore X Q W s rs cs ss"
  shows "rq s rs" "hq s cs" "table_ok s"
  using assms by (auto simp: kcore_def rq_def)

lemma kcore_tok:
  assumes "kcore X Q W s rs cs ss" "0 < p" "p < 32" "p \<notin> X"
  shows "tok (set rs) (\<lambda>h. set (cs h)) (set ss) Q W p (th s p)"
  using assms by (simp add: kcore_def)

lemma kcore_mono: "kcore X Q W s rs cs ss \<Longrightarrow> X \<subseteq> Y \<Longrightarrow> kcore Y Q W s rs cs ss"
  by (auto simp: kcore_def)

lemma kcore_add:
  "kcore (insert t X) Q W s rs cs ss \<Longrightarrow> tok (set rs) (\<lambda>h. set (cs h)) (set ss) Q W t (th s t) \<Longrightarrow>
     kcore X Q W s rs cs ss"
  by (auto simp: kcore_def)

lemma tok_cong:
  "(p \<in> R \<longleftrightarrow> p \<in> R') \<Longrightarrow> (\<And>h. 0 \<le> h \<Longrightarrow> h < 127 \<Longrightarrow> p \<in> C h \<longleftrightarrow> p \<in> C' h) \<Longrightarrow> (p \<in> S \<longleftrightarrow> p \<in> S') \<Longrightarrow>
     (p \<in> Q \<longleftrightarrow> p \<in> Q') \<Longrightarrow> (p \<in> W \<longleftrightarrow> p \<in> W') \<Longrightarrow> tok R C S Q W p e = tok R' C' S' Q' W' p e"
  unfolding tok_def by auto

lemma tok_links [simp]:
  "tok R C S Q W p (e\<lparr>t_next := v\<rparr>) = tok R C S Q W p e"
  "tok R C S Q W p (e\<lparr>next_sleeper_id := v\<rparr>) = tok R C S Q W p e"
  by (simp_all add: tok_def)

definition off :: "int \<Rightarrow> int list \<Rightarrow> (int \<Rightarrow> int list) \<Rightarrow> int list \<Rightarrow> bool" where
  "off t rs cs ss \<longleftrightarrow> t \<notin> set rs \<and> (\<forall>h. 0 \<le> h \<and> h < 127 \<longrightarrow> t \<notin> set (cs h)) \<and> t \<notin> set ss"

lemma tok_off:
  "tok (set rs) (\<lambda>h. set (cs h)) (set ss) Q W t e \<Longrightarrow> sleeps_on e = 0 \<Longrightarrow> wakeup_time e = 0 \<Longrightarrow>
     t_state e \<noteq> THREAD_READY \<Longrightarrow> off t rs cs ss"
  unfolding tok_def off_def by auto

lemma cpus_ok_nth:
  "cpus_ok cur \<Longrightarrow> 0 \<le> i \<Longrightarrow> i < 4 \<Longrightarrow> 0 \<le> cur ! nat i \<and> cur ! nat i < 32 \<and> cur ! nat i \<in> set cur"
  by (auto simp: cpus_ok_def)

lemma current_thread [simp]:
  assumes "cpus_ok (scheduler_current_thread s)" "0 \<le> cpu" "cpu < 4"
  shows "thread_get_current_thread cpu s = Inr (scheduler_current_thread s ! nat cpu)"
  using assms by (simp add: thread_get_current_thread_def cpus_ok_def)

section \<open>Frame lemmas\<close>

text \<open>Operations that leave the links alone, and those that only relink threads of the ready list.\<close>

lemma rq_same:
  assumes "rq s rs" "table_ok s'" "ready_head s' = ready_head s" "ready_tail s' = ready_tail s"
    and "\<And>p. p \<in> set rs \<Longrightarrow> nxt s' p = nxt s p"
  shows "rq s' rs"
  using assms path_cong [of rs "nxt s'" "nxt s"] by (simp add: rq_def)

lemma hq_same:
  assumes "hq s cs" "sleepq_hashtable s' = sleepq_hashtable s"
    and "\<And>h p. 0 \<le> h \<Longrightarrow> h < 127 \<Longrightarrow> p \<in> set (cs h) \<Longrightarrow> nxt s' p = nxt s p"
  shows "hq s' cs"
  unfolding hq_def
proof (intro conjI allI impI)
  fix h :: int
  assume h: "0 \<le> h \<and> h < 127"
  have "path (nxt s') (sleepq_hashtable s ! nat h) (cs h) (-1) = path (nxt s) (sleepq_hashtable s ! nat h) (cs h) (-1)"
    using assms(3) h by (intro path_cong) auto
  with assms(1,2) h show "path (nxt s') (sleepq_hashtable s' ! nat h) (cs h) (-1)" "tids 32 (cs h)"
    by (simp_all add: hq_def)
qed (use assms(1,2) in \<open>simp add: hq_def\<close>)

lemma sq_same:
  assumes "sq s ss" "thread_next_sleeper_id s' = thread_next_sleeper_id s"
    and "\<And>p. p \<in> set ss \<Longrightarrow> slp s' p = slp s p \<and> wakeup_time (th s' p) = wakeup_time (th s p)"
  shows "sq s' ss"
proof -
  have "path (slp s') h ss (-1) = path (slp s) h ss (-1)" for h
    using assms(3) by (intro path_cong) auto
  moreover have "map (\<lambda>p. wakeup_time (th s' p)) ss = map (\<lambda>p. wakeup_time (th s p)) ss"
    using assms(3) by simp
  ultimately show ?thesis using assms(1,2) unfolding sq_def by presburger
qed


lemma th_upd_more [simp]: "sleepq_hashtable (th_upd t f s) = sleepq_hashtable s"
  by (simp add: th_upd_def)

text \<open>Changing the entry of one thread.\<close>

lemma kcore_upd:
  assumes k: "kcore X Q W s rs cs ss" and t: "0 \<le> t" "t < 32" "t \<in> X \<or> t = 0"
    and links: "t_next (f (th s t)) = t_next (th s t) \<or> off t rs cs ss"
  shows "kcore X Q W (th_upd t f s) rs cs ss"
proof -
  note d = kcoreD [OF k]
  have rs: "p \<in> set rs \<Longrightarrow> 0 \<le> p" for p
    using d(1) by (auto simp: rq_def dest!: tids_range)
  have cs: "p \<in> set (cs h) \<Longrightarrow> 0 \<le> h \<Longrightarrow> h < 127 \<Longrightarrow> 0 \<le> p" for p h
    using d(2) tids_range [of 32 "cs h" p] by (auto simp: hq_def)
  have "rq (th_upd t f s) rs"
    using d t links rs by (intro rq_same [OF d(1)]) (auto simp: off_def)
  moreover have "hq (th_upd t f s) cs"
    using d t links cs by (intro hq_same [OF d(2)]) (auto simp: off_def)
  ultimately show ?thesis using k t d(3) by (auto simp: kcore_def)
qed

text \<open>Putting a thread that is on no list at its place in the ready list.\<close>

lemma same_rest_more: "same_rest s s' \<Longrightarrow> sleepq_hashtable s' = sleepq_hashtable s"
  unfolding same_rest_def by (metis kstate.select_convs(1) kstate.surjective sched.select_convs)

lemma relinked_more: "relinked A s s' \<Longrightarrow> sleepq_hashtable s' = sleepq_hashtable s"
  unfolding relinked_def by (blast intro: same_rest_more)

lemma kcore_enqueue:
  assumes k: "kcore X Q W s rs cs ss" and t: "0 < t" "t < 32" "t \<in> X" and off: "off t rs cs ss"
    and apart: "\<And>p h. 0 \<le> h \<Longrightarrow> h < 127 \<Longrightarrow> p \<in> set (cs h) \<Longrightarrow> p \<notin> set rs"
  shows "\<exists>s'. scheduler_add_to_ready_list t s = Inr s' \<and> kcore X Q W s' (enq (high s) t rs) cs ss \<and>
    relinked (insert t (set rs)) s s'"
proof -
  note d = kcoreD [OF k]
  from add_to_ready_list_spec [OF d(1) t(1,2)] off obtain s' where
    s': "scheduler_add_to_ready_list t s = Inr s'" "rq s' (enq (high s) t rs)"
      "relinked (insert t (set rs)) s s'" by (auto simp: off_def)
  have th: "\<exists>v. th s' p = (th s p)\<lparr>t_next := v\<rparr>"
    "p \<notin> insert t (set rs) \<Longrightarrow> nxt s' p = nxt s p" if "0 \<le> p" "p < 32" for p
    using s'(3) that unfolding relinked_def by blast+
  have "hq s' cs"
  proof (rule hq_same [OF d(2) relinked_more [OF s'(3)]])
    fix h p assume h: "0 \<le> h" "h < 127" "p \<in> set (cs h)"
    then have "0 \<le> p" "p < 32" using d(2) tids_range [of 32 "cs h" p] by (auto simp: hq_def)
    moreover have "p \<notin> insert t (set rs)" using off apart h by (auto simp: off_def)
    ultimately show "nxt s' p = nxt s p" by (rule th)
  qed
  moreover have "tok (set (enq (high s) t rs)) (\<lambda>h. set (cs h)) (set ss) Q W p (th s' p)"
    if p: "0 < p" "p < 32" "p \<notin> X" for p
  proof -
    obtain v where "th s' p = (th s p)\<lparr>t_next := v\<rparr>" using th(1) [of p] p by auto
    moreover have "tok (set (enq (high s) t rs)) (\<lambda>h. set (cs h)) (set ss) Q W p (th s p)"
      using kcore_tok [OF k p] p t(3) by (subst tok_cong [where R' = "set rs"]) auto
    ultimately show ?thesis by simp
  qed
  ultimately have "kcore X Q W s' (enq (high s) t rs) cs ss" using s'(2) by (simp add: kcore_def)
  with s' show ?thesis by blast
qed

text \<open>No thread is in a sleep queue and on the ready list.\<close>

lemma kcore_apart:
  assumes "kcore X Q W s rs cs ss" "0 \<le> h" "h < 127" "p \<in> set (cs h)" "p \<notin> X"
  shows "p \<notin> set rs"
proof -
  have "0 < p" "p < 32" using assms tids_range [of 32 "cs h" p] by (auto simp: kcore_def hq_def)
  from kcore_tok [OF assms(1) this assms(5)] assms(2-4) show ?thesis by (auto simp: tok_def)
qed

lemma kcore_enqueue1:
  assumes k: "kcore {t} Q W s rs cs ss" and t: "0 < t" "t < 32" and off: "off t rs cs ss"
  shows "\<exists>s'. scheduler_add_to_ready_list t s = Inr s' \<and> kcore {t} Q W s' (enq (high s) t rs) cs ss \<and>
    relinked (insert t (set rs)) s s'"
proof (rule kcore_enqueue [OF k t _ off])
  show "p \<notin> set rs" if "0 \<le> h" "h < 127" "p \<in> set (cs h)" for p h
    using that kcore_apart [OF k that] off by (cases "p = t") (auto simp: off_def)
qed simp

lemma relinked_th:
  assumes "relinked A s s'" "0 \<le> p" "p < 32"
  obtains v where "th s' p = (th s p)\<lparr>t_next := v\<rparr>"
  using assms unfolding relinked_def by blast

text \<open>A thread that is on no list, added to the ready list and marked ready.\<close>

lemma kcore_ready:
  assumes k: "kcore {t} Q W s rs cs ss" and t: "0 < t" "t < 32" and off: "off t rs cs ss"
    and e: "sleeps_on (th s t) = 0" "wakeup_time (th s t) = 0" "t \<notin> Q"
  shows "\<exists>s'. scheduler_add_ready t s = Inr s' \<and>
    kcore {} Q W s' (enq (high s) t rs) cs ss \<and> same_rest s s' \<and>
    (\<forall>p. 0 \<le> p \<longrightarrow> p < 32 \<longrightarrow> p \<noteq> t \<longrightarrow> (\<exists>v. th s' p = (th s p)\<lparr>t_next := v\<rparr>)) \<and>
    t_priority (th s' t) = t_priority (th s t)"
proof -
  from kcore_enqueue1 [OF k t off] obtain s1 where
    s1: "scheduler_add_to_ready_list t s = Inr s1" "kcore {t} Q W s1 (enq (high s) t rs) cs ss"
      "relinked (insert t (set rs)) s s1" by blast
  have ok: "table_ok s1" using kcoreD [OF s1(2)] by simp
  obtain v where v: "th s1 t = (th s t)\<lparr>t_next := v\<rparr>"
    using relinked_th [OF s1(3), of t] t by auto
  let ?s = "th_upd t (\<lambda>e. e\<lparr>t_state := THREAD_READY\<rparr>) s1"
  have "kcore {t} Q W ?s (enq (high s) t rs) cs ss"
    using s1(2) t by (intro kcore_upd) auto
  moreover have "tok (set (enq (high s) t rs)) (\<lambda>h. set (cs h)) (set ss) Q W t (th ?s t)"
    using t ok v e off by (simp add: tok_def off_def)
  ultimately have "kcore {} Q W ?s (enq (high s) t rs) cs ss" by (rule kcore_add)
  moreover have "same_rest s ?s" using s1(3) by (simp add: relinked_def same_rest_def)
  moreover have "\<exists>v. th ?s p = (th s p)\<lparr>t_next := v\<rparr>" if "0 \<le> p" "p < 32" "p \<noteq> t" for p
    using that ok t relinked_th [OF s1(3), of p] by auto
  moreover have "t_priority (th ?s t) = t_priority (th s t)" using ok t v by simp
  ultimately show ?thesis using s1(1) ok t by (auto simp: scheduler_add_ready_def)
qed


text \<open>Operations that change only links of the ready list keep the list of sleepers.\<close>

lemma sq_links:
  assumes "sq s ss" "thread_next_sleeper_id s' = thread_next_sleeper_id s"
    and "\<And>p. p \<in> set ss \<Longrightarrow> 0 \<le> p \<Longrightarrow> p < 32 \<Longrightarrow> \<exists>v. th s' p = (th s p)\<lparr>t_next := v\<rparr>"
  shows "sq s' ss"
proof (rule sq_same [OF assms(1,2)])
  fix p assume p: "p \<in> set ss"
  then have "0 \<le> p" "p < 32" using assms(1) tids_range [of 32 ss p] by (auto simp: sq_def)
  with assms(3) p obtain v where "th s' p = (th s p)\<lparr>t_next := v\<rparr>" by blast
  then show "slp s' p = slp s p \<and> wakeup_time (th s' p) = wakeup_time (th s p)" by simp
qed

lemma kviewD:
  assumes "kview W s rs cs ss"
  shows "kcore {} (set (scheduler_current_thread s)) W s rs cs ss" "sq s ss"
    "cpus_ok (scheduler_current_thread s)" "idle_ok (th s 0)" "table_ok s"
  using assms by (auto simp: kview_def kcore_def rq_def)

lemma kview_away: "kview {} s rs cs ss \<Longrightarrow> sleepers_away now s"
  by (auto simp: kview_def kcore_def tok_def sleepers_away_def)

lemma kview_kinv: "kview W s rs cs ss \<Longrightarrow> kinv s"
proof -
  assume "kview W s rs cs ss"
  moreover have "tok R C S Q W p e \<Longrightarrow> tok R C S Q UNIV p e" for R C S Q p e by (auto simp: tok_def)
  ultimately have "kview UNIV s rs cs ss" by (auto simp: kview_def kcore_def)
  then show ?thesis by (auto simp: kinv_def)
qed

lemma idle_ok_links [simp]: "idle_ok (e\<lparr>t_next := v\<rparr>) = idle_ok e"
  by (simp add: idle_ok_def)

lemma thread_run_spec:
  assumes k: "kview W s rs cs ss" and t: "0 < t" "t < 32" and st: "t_state (th s t) = THREAD_NONREADY"
  shows "\<exists>s'. thread_run t s = Inr s' \<and> kview W s' (enq (high s) t rs) cs ss"
proof -
  note d = kviewD [OF k]
  from kcore_tok [OF d(1) t] st have e: "sleeps_on (th s t) = 0" "wakeup_time (th s t) = 0"
    "t \<notin> set (scheduler_current_thread s)" "off t rs cs ss"
    by (auto simp: tok_def off_def)
  have "kcore {t} (set (scheduler_current_thread s)) W s rs cs ss" using d(1) by (rule kcore_mono) simp
  from kcore_ready [OF this t e(4,1-3)] obtain s' where
    "scheduler_add_ready t s = Inr s'"
    and s': "kcore {} (set (scheduler_current_thread s)) W s' (enq (high s) t rs) cs ss" "same_rest s s'"
    "\<forall>p. 0 \<le> p \<longrightarrow> p < 32 \<longrightarrow> p \<noteq> t \<longrightarrow> (\<exists>v. th s' p = (th s p)\<lparr>t_next := v\<rparr>)" by blast
  then have run: "thread_run t s = Inr s'" by (simp add: thread_run_def)
  have "sq s' ss"
  proof (rule sq_links [OF d(2)])
    show "thread_next_sleeper_id s' = thread_next_sleeper_id s" using s'(2) by (simp add: same_rest_def)
    show "\<exists>v. th s' p = (th s p)\<lparr>t_next := v\<rparr>" if "p \<in> set ss" "0 \<le> p" "p < 32" for p
      using s'(3) that e(4) by (auto simp: off_def)
  qed
  moreover obtain v where "th s' 0 = (th s 0)\<lparr>t_next := v\<rparr>" using s'(3) t(1) by fastforce
  then have "idle_ok (th s' 0)" using d(4) by simp
  ultimately show ?thesis using run s'(1,2) d(3) by (simp add: kview_def same_rest_def)
qed

section \<open>Timed sleepers\<close>

lemma enq_cong: "(\<And>p. p \<in> insert t (set rs) \<Longrightarrow> hi p = hi' p) \<Longrightarrow> enq hi t rs = enq hi' t rs"
  unfolding enq_def by (auto cong: takeWhile_cong dropWhile_cong)

lemma kcore_head_sleeper: "kcore {t} Q W s rs cs (t # ss) \<Longrightarrow> kcore {t} Q W s rs cs ss"
  unfolding kcore_def by (auto simp: tok_cong [where S = "insert t (set ss)" and S' = "set ss"])

lemma kcore_field [simp]:
  "kcore X Q W (s\<lparr>thread_next_sleeper_id := h\<rparr>) rs cs ss = kcore X Q W s rs cs ss"
  "kcore X Q W (s\<lparr>scheduler_current_thread := c\<rparr>) rs cs ss = kcore X Q W s rs cs ss"
  "kcore X Q W (s\<lparr>contexts := m\<rparr>) rs cs ss = kcore X Q W s rs cs ss"
  "kcore X Q W (s\<lparr>create_next := k\<rparr>) rs cs ss = kcore X Q W s rs cs ss"
  "kcore X Q W (s\<lparr>create_prio_next := k\<rparr>) rs cs ss = kcore X Q W s rs cs ss"
  by (simp_all add: kcore_def rq_def hq_def)

text \<open>One round of the loop over the expired sleepers.\<close>

lemma wakeup_round:
  assumes k: "kcore {} Q W s rs cs (t # ss)" and sq: "sq s (t # ss)" and away: "t_state (th s t) \<noteq> THREAD_RUNNING"
    and hi: "\<And>p. 0 \<le> p \<Longrightarrow> p < 32 \<Longrightarrow> hi p = high s p"
  defines "s1 \<equiv> th_upd t (\<lambda>e. e\<lparr>next_sleeper_id := -1, wakeup_time := 0\<rparr>) s"
  shows "\<exists>s3. scheduler_add_ready t s1 = Inr s3 \<and>
    kcore {} Q W (s3\<lparr>thread_next_sleeper_id := slp s t\<rparr>) (enq hi t rs) cs ss \<and>
    sq (s3\<lparr>thread_next_sleeper_id := slp s t\<rparr>) ss \<and>
    scheduler_current_thread s3 = scheduler_current_thread s \<and>
    (\<forall>p. 0 \<le> p \<longrightarrow> p < 32 \<longrightarrow> p \<noteq> t \<longrightarrow> (\<exists>v. th s3 p = (th s p)\<lparr>t_next := v\<rparr>)) \<and>
    t_priority (th s3 t) = t_priority (th s t)"
proof -
  have t: "0 < t" "t < 32" "t \<notin> set ss" using sq by (auto simp: sq_def)
  have ok: "table_ok s" using kcoreD [OF k] by simp
  from kcore_tok [OF k t(1,2)] have e: "t_state (th s t) = THREAD_SLEEPING" "sleeps_on (th s t) = 0"
    "off t rs cs ss" "t \<notin> Q" using t(3) away by (auto simp: tok_def off_def)
  have "kcore {t} Q W s rs cs (t # ss)" using k by (rule kcore_mono) simp
  from kcore_head_sleeper [OF this] have "kcore {t} Q W s1 rs cs ss"
    unfolding s1_def using t e(3) by (intro kcore_upd) auto
  moreover have "sleeps_on (th s1 t) = 0" "wakeup_time (th s1 t) = 0" using e t ok by (simp_all add: s1_def)
  ultimately obtain s3 where
    s3: "scheduler_add_ready t s1 = Inr s3" "kcore {} Q W s3 (enq (high s1) t rs) cs ss" "same_rest s1 s3"
      "\<forall>p. 0 \<le> p \<longrightarrow> p < 32 \<longrightarrow> p \<noteq> t \<longrightarrow> (\<exists>v. th s3 p = (th s1 p)\<lparr>t_next := v\<rparr>)"
      "t_priority (th s3 t) = t_priority (th s1 t)"
    using kcore_ready [OF _ t(1,2) e(3) _ _ e(4)] by blast
  have frame: "\<exists>v. th s3 p = (th s p)\<lparr>t_next := v\<rparr>" if "0 \<le> p" "p < 32" "p \<noteq> t" for p
    using s3(4) that t ok by (auto simp: s1_def)
  have "high s1 p = hi p" if "0 < p" "p < 32" for p using that t ok hi by (simp add: s1_def)
  then have "enq (high s1) t rs = enq hi t rs"
    using kcoreD(1) [OF k] t by (intro enq_cong) (auto simp: rq_def dest!: tids_range)
  moreover have "sq (s\<lparr>thread_next_sleeper_id := slp s t\<rparr>) ss" using sq by (auto simp: sq_def)
  then have "sq (s3\<lparr>thread_next_sleeper_id := slp s t\<rparr>) ss"
    using frame t(3) by (elim sq_links) auto
  ultimately show ?thesis using s3 frame t ok by (auto simp: same_rest_def s1_def)
qed


lemma wakeup_loop_spec:
  assumes "kcore {} Q W s rs cs ss" "sq s ss" "length ss < n"
    and "\<And>p. 0 \<le> p \<Longrightarrow> p < 32 \<Longrightarrow> hi p = high s p"
    and "\<And>p. p \<in> set ss \<Longrightarrow> ex p \<longleftrightarrow> wakeup_time (th s p) < now"
    and "\<And>p. p \<in> set ss \<Longrightarrow> ex p \<Longrightarrow> t_state (th s p) \<noteq> THREAD_RUNNING"
  shows "\<exists>s'. wakeup_loop n now s = Inr s' \<and>
    kcore {} Q W s' (foldl (\<lambda>r p. enq hi p r) rs (takeWhile ex ss)) cs (dropWhile ex ss) \<and>
    sq s' (dropWhile ex ss) \<and> scheduler_current_thread s' = scheduler_current_thread s \<and>
    (\<exists>v. th s' 0 = (th s 0)\<lparr>t_next := v\<rparr>)"
  using assms
proof (induction ss arbitrary: n s rs)
  case Nil
  obtain m where "n = Suc m" using Nil.prems(3) by (cases n) auto
  moreover have "thread_next_sleeper_id s = -1" using Nil.prems(2) by (simp add: sq_def)
  moreover have "th s 0 = (th s 0)\<lparr>t_next := nxt s 0\<rparr>" by simp
  then have "\<exists>v. th s 0 = (th s 0)\<lparr>t_next := v\<rparr>" by (rule exI)
  ultimately show ?case using Nil.prems by auto
next
  case (Cons t ss)
  obtain m where n: "n = Suc m" "length ss < m" using Cons.prems(3) by (cases n) auto
  have t: "0 < t" "t < 32" "thread_next_sleeper_id s = t" "t \<notin> set ss"
    using Cons.prems(2) by (auto simp: sq_def)
  have ok: "table_ok s" using kcoreD [OF Cons.prems(1)] by simp
  show ?case
  proof (cases "ex t")
    case False
    then have "wakeup_loop n now s = Inr s" using n t ok Cons.prems(5) [of t] by simp
    moreover have "th s 0 = (th s 0)\<lparr>t_next := nxt s 0\<rparr>" by simp
    then have "\<exists>v. th s 0 = (th s 0)\<lparr>t_next := v\<rparr>" by (rule exI)
    ultimately show ?thesis using False Cons.prems by auto
  next
    case True
    have "t_state (th s t) \<noteq> THREAD_RUNNING" using Cons.prems(6) [of t] True by simp
    from wakeup_round [OF Cons.prems(1,2) this Cons.prems(4)] obtain s3 where s3:
      "scheduler_add_ready t (th_upd t (\<lambda>e. e\<lparr>next_sleeper_id := -1, wakeup_time := 0\<rparr>) s) = Inr s3"
      "kcore {} Q W (s3\<lparr>thread_next_sleeper_id := slp s t\<rparr>) (enq hi t rs) cs ss"
      "sq (s3\<lparr>thread_next_sleeper_id := slp s t\<rparr>) ss"
      "scheduler_current_thread s3 = scheduler_current_thread s"
      and frame: "\<forall>p. 0 \<le> p \<longrightarrow> p < 32 \<longrightarrow> p \<noteq> t \<longrightarrow> (\<exists>v. th s3 p = (th s p)\<lparr>t_next := v\<rparr>)"
      and pri: "t_priority (th s3 t) = t_priority (th s t)" by blast
    let ?s4 = "s3\<lparr>thread_next_sleeper_id := slp s t\<rparr>"
    have "wakeup_loop n now s = wakeup_loop m now ?s4"
      using s3(1) n t ok True Cons.prems(5) [of t]
      by (simp add: scheduler_add_ready_def flip: rbind_assoc)
    moreover have "hi p = high ?s4 p" if "0 \<le> p" "p < 32" for p
      using frame pri that Cons.prems(4) [OF that] by (cases "p = t") auto
    moreover have "ex p \<longleftrightarrow> wakeup_time (th ?s4 p) < now" "ex p \<Longrightarrow> t_state (th ?s4 p) \<noteq> THREAD_RUNNING"
      if p: "p \<in> set ss" for p
    proof -
      have "0 \<le> p" "p < 32" "p \<noteq> t" using p t(4) Cons.prems(2) by (auto simp: sq_def dest: tids_range)
      with frame Cons.prems(5,6) [of p] p show "ex p \<longleftrightarrow> wakeup_time (th ?s4 p) < now"
        "ex p \<Longrightarrow> t_state (th ?s4 p) \<noteq> THREAD_RUNNING" by auto
    qed
    ultimately obtain s' where s': "wakeup_loop n now s = Inr s'"
      "kcore {} Q W s' (foldl (\<lambda>r p. enq hi p r) (enq hi t rs) (takeWhile ex ss)) cs (dropWhile ex ss)"
      "sq s' (dropWhile ex ss)" "scheduler_current_thread s' = scheduler_current_thread s3"
      "\<exists>v. th s' 0 = (th s3 0)\<lparr>t_next := v\<rparr>"
      using Cons.IH [OF s3(2,3) n(2)] by auto
    moreover have "\<exists>v. th s3 0 = (th s 0)\<lparr>t_next := v\<rparr>" using frame t(1) by simp
    then have "\<exists>v. th s' 0 = (th s 0)\<lparr>t_next := v\<rparr>" using s'(5) by auto
    ultimately show ?thesis using True s3(4) by auto
  qed
qed

section \<open>Scheduling\<close>

text \<open>
  What the scheduler does to the ready list and the timed sleepers when the processor leaves
  thread \<open>c\<close>, and which thread it takes next.
\<close>

definition leave_lists ::
  "u32 \<Rightarrow> int \<Rightarrow> kstate \<Rightarrow> int list \<Rightarrow> int list \<Rightarrow> int list \<times> int list" where
  "leave_lists now c s rs ss =
     (if c = 0 then (foldl (\<lambda>r p. enq (high s) p r) rs (takeWhile (\<lambda>p. wakeup_time (th s p) < now) ss),
                     dropWhile (\<lambda>p. wakeup_time (th s p) < now) ss)
      else if t_state (th s c) = THREAD_RUNNING \<and> sleeps_on (th s c) = 0 \<and> wakeup_time (th s c) = 0
      then (enq (high s) c rs, ss)
      else (rs, ss))"

definition next_thread :: "int list \<Rightarrow> int" where
  "next_thread rs = (case rs of [] \<Rightarrow> 0 | t # _ \<Rightarrow> t)"

lemma kcore_running:
  assumes "kcore X Q W s rs cs ss"
    and "\<And>p. 0 < p \<Longrightarrow> p < 32 \<Longrightarrow> p \<notin> X \<Longrightarrow> (p \<in> Q \<longleftrightarrow> p \<in> Q') \<and> (p \<in> W \<longleftrightarrow> p \<in> W')"
  shows "kcore X Q' W' s rs cs ss"
proof -
  have "tok (set rs) (\<lambda>h. set (cs h)) (set ss) Q' W' p (th s p)" if "0 < p" "p < 32" "p \<notin> X" for p
    using kcore_tok [OF assms(1) that] assms(2) [OF that] by (simp add: tok_def)
  with assms(1) show ?thesis by (simp add: kcore_def)
qed

lemma sq_state:
  assumes "sq s ss" "table_ok s" "0 \<le> c" "c < 32"
  shows "sq (th_upd c (\<lambda>e. e\<lparr>t_state := v\<rparr>) s) ss"
  using assms by (intro sq_same [OF assms(1)]) (auto simp: sq_def dest!: tids_range)

text \<open>A thread that gives up the processor without becoming ready.\<close>

lemma kcore_give_up:
  assumes k: "kcore {} Q W s rs cs ss" and c: "0 < c" "c < 32" "c \<in> Q" and v: "v = THREAD_FREE \<or> v = THREAD_SLEEPING"
    and t: "tok (set rs) (\<lambda>h. set (cs h)) (set ss) (Q - {c}) (W - {c}) c ((th s c)\<lparr>t_state := v\<rparr>)"
  shows "kcore {} (Q - {c}) (W - {c}) (th_upd c (\<lambda>e. e\<lparr>t_state := v\<rparr>) s) rs cs ss"
proof -
  have ok: "table_ok s" using kcoreD [OF k] by simp
  have "kcore {c} (Q - {c}) (W - {c}) s rs cs ss"
    using kcore_mono [OF k, of "{c}"] by (rule kcore_running) auto
  then have "kcore {c} (Q - {c}) (W - {c}) (th_upd c (\<lambda>e. e\<lparr>t_state := v\<rparr>) s) rs cs ss"
    using c by (intro kcore_upd) auto
  then show ?thesis by (rule kcore_add) (use t c ok in simp)
qed

lemma leave_running:
  assumes k: "kview W s rs cs ss" and cpu: "0 \<le> cpu" "cpu < 4"
  defines "c \<equiv> scheduler_current_thread s ! nat cpu"
  assumes c: "c \<noteq> 0"
  shows "\<exists>s1. schedule_leave now c s = Inr s1 \<and>
    kcore {} (set (scheduler_current_thread s) - {c}) (W - {c}) s1
      (fst (leave_lists now c s rs ss)) cs (snd (leave_lists now c s rs ss)) \<and>
    sq s1 (snd (leave_lists now c s rs ss)) \<and>
    scheduler_current_thread s1 = scheduler_current_thread s \<and> idle_ok (th s1 0)"
proof -
  note d = kviewD [OF k]
  let ?Q = "set (scheduler_current_thread s)"
  have r: "0 < c" "c < 32" "c \<in> ?Q"
    using cpus_ok_nth [OF d(3) cpu] c by (simp_all add: c_def)
  note t = kcore_tok [OF d(1) r(1,2)]
  have idle: "idle_ok (th (th_upd c f s) 0)" for f using d(4,5) r by simp
  show ?thesis
  proof (cases "t_state (th s c) = THREAD_RUNNING \<and> sleeps_on (th s c) = 0 \<and> wakeup_time (th s c) = 0")
    case False
    define v where "v = (if t_state (th s c) = THREAD_DYING then THREAD_FREE else THREAD_SLEEPING)"
    have "schedule_leave now c s = Inr (th_upd c (\<lambda>e. e\<lparr>t_state := v\<rparr>) s)"
      using False r t d(5) by (auto simp: schedule_leave_def v_def tok_def)
    moreover have "kcore {} (?Q - {c}) (W - {c}) (th_upd c (\<lambda>e. e\<lparr>t_state := v\<rparr>) s) rs cs ss"
      using d(1) r t False by (intro kcore_give_up) (auto simp: v_def tok_def)
    ultimately show ?thesis
      using False c r d(2,5) idle sq_state [of s ss c v] by (auto simp: leave_lists_def)
  next
    case True
    then have o: "off c rs cs ss" by (intro tok_off [OF t]) auto
    have "kcore {c} (?Q - {c}) (W - {c}) s rs cs ss"
      using kcore_mono [OF d(1), of "{c}"] by (rule kcore_running) auto
    from kcore_ready [OF this r(1,2) o] True obtain s1 where s1: "scheduler_add_ready c s = Inr s1"
      "kcore {} (?Q - {c}) (W - {c}) s1 (enq (high s) c rs) cs ss" "same_rest s s1"
      "\<forall>p. 0 \<le> p \<longrightarrow> p < 32 \<longrightarrow> p \<noteq> c \<longrightarrow> (\<exists>v. th s1 p = (th s p)\<lparr>t_next := v\<rparr>)" by blast
    have "schedule_leave now c s = Inr s1"
      using True c r d(5) s1(1) by (simp add: schedule_leave_def scheduler_add_ready_def)
    moreover have "sq s1 ss"
      using s1(3,4) o by (intro sq_links [OF d(2)]) (auto simp: same_rest_def off_def)
    moreover have "idle_ok (th s1 0)" using s1(4) r(1) d(4) by fastforce
    ultimately show ?thesis using s1(2,3) True c by (auto simp: leave_lists_def same_rest_def)
  qed
qed

lemma leave_idle:
  assumes k: "kview W s rs cs ss" and away: "sleepers_away now s"
  shows "\<exists>s1. schedule_leave now 0 s = Inr s1 \<and>
    kcore {} (set (scheduler_current_thread s)) W s1
      (fst (leave_lists now 0 s rs ss)) cs (snd (leave_lists now 0 s rs ss)) \<and>
    sq s1 (snd (leave_lists now 0 s rs ss)) \<and>
    scheduler_current_thread s1 = scheduler_current_thread s \<and> idle_ok (th s1 0)"
proof -
  note d = kviewD [OF k]
  let ?ex = "\<lambda>p. wakeup_time (th s p) < now"
  have "tids 32 ss" using d(2) by (simp add: sq_def)
  then have len: "length ss < 34" using tids_length [of 32 ss] by auto
  have "t_state (th s p) \<noteq> THREAD_RUNNING" if p: "p \<in> set ss" "?ex p" for p
  proof -
    have "0 < p" "p < 32" using p(1) d(2) tids_range [of 32 ss p] by (auto simp: sq_def)
    then show ?thesis using p away kcore_tok [OF d(1), of p] by (auto simp: sleepers_away_def tok_def)
  qed
  with wakeup_loop_spec [OF d(1,2) len, of "high s" ?ex now] obtain s1 v where s1:
    "wakeup_loop 34 now s = Inr s1"
    "kcore {} (set (scheduler_current_thread s)) W s1
      (fst (leave_lists now 0 s rs ss)) cs (snd (leave_lists now 0 s rs ss))"
    "sq s1 (snd (leave_lists now 0 s rs ss))" "scheduler_current_thread s1 = scheduler_current_thread s"
    "th s1 0 = (th s 0)\<lparr>t_next := v\<rparr>" by (auto simp: leave_lists_def)
  have "scheduler_wakeup_expired_sleepers now s = Inr s1"
  proof (cases "thread_next_sleeper_id s = -1")
    case True
    have "wakeup_loop (Suc 33) now s = Inr s" using True by (subst wakeup_loop.simps) simp
    with s1(1) True show ?thesis by (simp add: scheduler_wakeup_expired_sleepers_def)
  next
    case False
    with s1(1) show ?thesis by (simp add: scheduler_wakeup_expired_sleepers_def)
  qed
  moreover have ok: "table_ok s1" using kcoreD [OF s1(2)] by simp
  ultimately have "schedule_leave now 0 s = Inr (th_upd 0 (\<lambda>e. e\<lparr>t_state := THREAD_READY\<rparr>) s1)"
    using d(4,5) by (auto simp: schedule_leave_def idle_ok_def)
  moreover have "idle_ok (th (th_upd 0 (\<lambda>e. e\<lparr>t_state := THREAD_READY\<rparr>) s1) 0)"
    using d(4) ok s1(5) by (simp add: idle_ok_def)
  moreover have "kcore {} (set (scheduler_current_thread s)) W (th_upd 0 (\<lambda>e. e\<lparr>t_state := THREAD_READY\<rparr>) s1)
      (fst (leave_lists now 0 s rs ss)) cs (snd (leave_lists now 0 s rs ss))"
    using s1(2) by (intro kcore_upd) auto
  ultimately show ?thesis using s1(3,4) sq_state [OF s1(3) ok] by auto
qed


lemma remove_first_spec:
  assumes k: "kcore {} Q W s rs cs ss"
  shows "\<exists>s2. scheduler_remove_first_ready s = Inr (next_thread rs, s2) \<and> rq s2 (tl rs) \<and>
    thread_table s2 = thread_table s \<and> same_rest s s2"
proof (cases rs)
  case Nil
  then have "ready_head s = -1" "rq s []" using kcoreD(1) [OF k] by (auto simp: rq_def)
  with Nil show ?thesis by (simp add: scheduler_remove_first_ready_def next_thread_def same_rest_def)
next
  case (Cons t ts)
  have q: "rq s (t # ts)" using kcoreD(1) [OF k] Cons by simp
  then have t: "0 < t" "t < 32" "ready_head s = t" "table_ok s" "t \<notin> set ts"
    "path (nxt s) (nxt s t) ts (-1)" "tids 32 ts" "ready_tail s = last (t # ts)" by (auto simp: rq_def)
  have "t_state (th s t) = THREAD_READY"
    using kcore_tok [OF k t(1,2)] Cons by (auto simp: tok_def)
  let ?s = "(if ready_tail s = t then s\<lparr>ready_tail := -1\<rparr> else s)\<lparr>ready_head := nxt s t\<rparr>"
  have "scheduler_remove_first_ready s = Inr (t, ?s)"
    using t \<open>t_state (th s t) = THREAD_READY\<close> by (simp add: scheduler_remove_first_ready_def)
  moreover have "ready_tail s = t \<longleftrightarrow> ts = []" using t(5,8) last_in_set [of ts] by auto
  then have "rq ?s ts" using t by (auto simp: rq_def)
  ultimately show ?thesis using Cons by (auto simp: next_thread_def same_rest_def)
qed

lemma cpus_ok_switch:
  assumes "cpus_ok cur" "0 \<le> cpu" "cpu < 4" "0 \<le> t" "t < 32" "t \<noteq> 0 \<Longrightarrow> t \<notin> set cur - {cur ! nat cpu}"
  shows "cpus_ok (cur[nat cpu := t])"
    "p \<noteq> 0 \<Longrightarrow> p \<in> set (cur[nat cpu := t]) \<longleftrightarrow> p = t \<or> p \<in> set cur - {cur ! nat cpu}"
proof -
  let ?i = "nat cpu"
  have i: "?i < 4" "length cur = 4" using assms(1-3) by (auto simp: cpus_ok_def)
  have uniq: "a = b \<or> cur ! a = 0" if "a < 4" "b < 4" "cur ! a = cur ! b" for a b
    using assms(1) that unfolding cpus_ok_def by blast
  have other: "(\<exists>j<4. j \<noteq> ?i \<and> cur ! j = p) \<longleftrightarrow> p \<in> set cur - {cur ! ?i}" if "p \<noteq> 0" for p
    using i uniq that by (fastforce simp: in_set_conv_nth)
  have upd: "p \<in> set (cur[?i := t]) \<longleftrightarrow> p = t \<or> (\<exists>j<4. j \<noteq> ?i \<and> cur ! j = p)" for p
    unfolding in_set_conv_nth using i by (metis length_list_update nth_list_update_eq nth_list_update_neq)
  show "p \<noteq> 0 \<Longrightarrow> p \<in> set (cur[?i := t]) \<longleftrightarrow> p = t \<or> p \<in> set cur - {cur ! ?i}"
    using other upd by blast
  have new: "cur ! j \<noteq> t" if "t \<noteq> 0" "j < 4" "j \<noteq> ?i" for j
    using assms(6) other [of t] that by blast
  show "cpus_ok (cur[?i := t])"
    unfolding cpus_ok_def
  proof (intro conjI allI impI ballI)
    fix c assume "c \<in> set (cur[?i := t])"
    then have "c = t \<or> c \<in> set cur" using set_update_subset_insert by fastforce
    then show "0 \<le> c" "c < 32" using assms(1,4,5) by (auto simp: cpus_ok_def)
  next
    fix a b :: nat
    assume ab: "a < 4" "b < 4" "cur[?i := t] ! a = cur[?i := t] ! b"
    then show "a = b \<or> cur[?i := t] ! a = 0"
      using i new uniq by (cases "a = ?i"; cases "b = ?i") (auto simp: nth_list_update)
  qed (use i in simp)
qed

text \<open>
  Rescheduling a processor succeeds, keeps the invariant, and runs the thread that the abstract
  lists name.
\<close>

lemma leave_cpu:
  assumes k: "kview W s rs cs ss" and cpu: "0 \<le> cpu" "cpu < 4"
    and c: "c = scheduler_current_thread s ! nat cpu" and away: "c = 0 \<Longrightarrow> sleepers_away now s"
    and l: "leave_lists now c s rs ss = (rs1, ss1)"
  shows "\<exists>s1. schedule_leave now c s = Inr s1 \<and>
    kcore {} (set (scheduler_current_thread s) - {c}) (W - {c}) s1 rs1 cs ss1 \<and>
    sq s1 ss1 \<and> scheduler_current_thread s1 = scheduler_current_thread s \<and> idle_ok (th s1 0)"
proof (cases "c = 0")
  case True
  from leave_idle [OF k away [OF True]] l True obtain s1 where s1: "schedule_leave now c s = Inr s1"
    "kcore {} (set (scheduler_current_thread s)) W s1 rs1 cs ss1" "sq s1 ss1"
    "scheduler_current_thread s1 = scheduler_current_thread s" "idle_ok (th s1 0)" by auto
  from s1(2) have "kcore {} (set (scheduler_current_thread s) - {c}) (W - {c}) s1 rs1 cs ss1"
    by (rule kcore_running) (use True in auto)
  with s1 show ?thesis by blast
next
  case False
  with leave_running [OF k cpu, folded c, of now] l show ?thesis by simp
qed

lemma take_next:
  assumes k: "kcore {} Q W s rs cs ss" and sq: "sq s ss"
  shows "\<exists>s2 s3. scheduler_remove_first_ready s = Inr (next_thread rs, s2) \<and>
    set_thread (next_thread rs) (\<lambda>e. e\<lparr>t_state := THREAD_RUNNING\<rparr>) s2 = Inr s3 \<and>
    kcore {} (insert (next_thread rs) Q) W s3 (tl rs) cs ss \<and> sq s3 ss \<and>
    scheduler_current_thread s3 = scheduler_current_thread s \<and>
    0 \<le> next_thread rs \<and> next_thread rs < 32 \<and> (next_thread rs \<noteq> 0 \<longrightarrow> next_thread rs \<notin> Q) \<and>
    (idle_ok (th s 0) \<longrightarrow> idle_ok (th s3 0))"
proof -
  let ?t = "next_thread rs"
  from remove_first_spec [OF k] obtain s2 where
    s2: "scheduler_remove_first_ready s = Inr (?t, s2)" "rq s2 (tl rs)"
      "thread_table s2 = thread_table s" "same_rest s s2" by blast
  have ok: "table_ok s2" and th: "th s2 = th s" using s2(3) kcoreD(3) [OF k] by (auto simp: th_def fun_eq_iff)
  have t: "0 \<le> ?t" "?t < 32" "?t = 0 \<longleftrightarrow> rs = []" "?t \<noteq> 0 \<Longrightarrow> ?t \<in> set rs"
    and rs: "set rs \<subseteq> insert ?t (set (tl rs))" "?t \<notin> set (tl rs)"
    using kcoreD(1) [OF k] by (cases rs; auto simp: next_thread_def rq_def)+
  let ?s3 = "th_upd ?t (\<lambda>e. e\<lparr>t_state := THREAD_RUNNING\<rparr>) s2"
  have tokt: "t_state (th s ?t) = THREAD_READY" "?t \<notin> Q" "sleeps_on (th s ?t) = 0" "wakeup_time (th s ?t) = 0"
    "off ?t [] cs ss" if "?t \<noteq> 0"
    using that t kcore_tok [OF k, of ?t] by (auto simp: tok_def off_def)
  have "tok (set (tl rs)) (\<lambda>h. set (cs h)) (set ss) (insert ?t Q) W p (th s p)"
    if "0 < p" "p < 32" "p \<noteq> ?t" for p
    using kcore_tok [OF k, of p] that rs list.set_sel(2) [of rs p]
    by (subst tok_cong [where R' = "set rs" and Q' = Q]) (cases rs; auto)+
  then have "kcore {?t} (insert ?t Q) W s2 (tl rs) cs ss"
    using s2(2) k hq_same [of s cs s2] same_rest_more [OF s2(4)] by (auto simp: kcore_def th)
  then have k3: "kcore {?t} (insert ?t Q) W ?s3 (tl rs) cs ss" using t by (intro kcore_upd) auto
  have "kcore {} (insert ?t Q) W ?s3 (tl rs) cs ss"
  proof (cases "?t = 0")
    case True
    with k3 show ?thesis by (auto simp: kcore_def)
  next
    case False
    have "th ?s3 ?t = (th s ?t)\<lparr>t_state := THREAD_RUNNING\<rparr>" using ok t th by simp
    then have "tok (set (tl rs)) (\<lambda>h. set (cs h)) (set ss) (insert ?t Q) W ?t (th ?s3 ?t)"
      using tokt [OF False] rs(2) by (simp add: tok_def off_def)
    with k3 show ?thesis by (rule kcore_add)
  qed
  moreover have "sq s2 ss" using sq s2(4) by (intro sq_same [OF sq]) (auto simp: same_rest_def th)
  ultimately show ?thesis
    using s2 ok t tokt(2) th sq_state [of s2 ss ?t] by (auto simp: same_rest_def idle_ok_def)
qed

lemma scheduler_schedule_spec:
  assumes k: "kview W s rs cs ss" and cpu: "0 \<le> cpu" "cpu < 4"
    and c: "c = scheduler_current_thread s ! nat cpu" and away: "c = 0 \<Longrightarrow> sleepers_away now s"
    and l: "leave_lists now c s rs ss = (rs1, ss1)"
  shows "\<exists>s'. scheduler_schedule now rnd cpu s = Inr (rnd + 375, s') \<and> kview (W - {c}) s' (tl rs1) cs ss1 \<and>
    scheduler_current_thread s' = (scheduler_current_thread s)[nat cpu := next_thread rs1]"
proof -
  let ?cur = "scheduler_current_thread s" and ?t = "next_thread rs1"
  note d = kviewD [OF k]
  have len: "cpu < int (length ?cur)" using d(3) cpu by (simp add: cpus_ok_def)
  from leave_cpu [OF k cpu c away l] obtain s1 where
    s1: "schedule_leave now c s = Inr s1" "kcore {} (set ?cur - {c}) (W - {c}) s1 rs1 cs ss1"
      "sq s1 ss1" "scheduler_current_thread s1 = ?cur" "idle_ok (th s1 0)" by blast
  from take_next [OF s1(2,3)] s1(4,5) obtain s2 s3 where
    s3: "scheduler_remove_first_ready s1 = Inr (?t, s2)"
      "set_thread ?t (\<lambda>e. e\<lparr>t_state := THREAD_RUNNING\<rparr>) s2 = Inr s3"
      "kcore {} (insert ?t (set ?cur - {c})) (W - {c}) s3 (tl rs1) cs ss1" "sq s3 ss1"
      "scheduler_current_thread s3 = ?cur" "0 \<le> ?t" "?t < 32" "?t \<noteq> 0 \<longrightarrow> ?t \<notin> set ?cur - {c}"
      "idle_ok (th s3 0)" by auto
  let ?s = "s3\<lparr>scheduler_current_thread := ?cur[nat cpu := ?t]\<rparr>"
  have "scheduler_schedule now rnd cpu s = Inr (rnd + 375, ?s)"
    using s1(1) s3(1,2,5) c cpu len by (simp add: scheduler_schedule_def CONFIG_SCHEDULER_TIMESLICE_def)
  moreover have "cpus_ok (?cur[nat cpu := ?t])"
    using cpus_ok_switch(1) [OF d(3) cpu s3(6,7)] s3(8) c by simp
  moreover have "kcore {} (set (?cur[nat cpu := ?t])) (W - {c}) s3 (tl rs1) cs ss1"
    using s3(3) by (rule kcore_running) (use cpus_ok_switch(2) [OF d(3) cpu s3(6,7)] s3(8) c in auto)
  moreover have "sq ?s ss1" using s3(4) by (intro sq_same [OF s3(4)]) auto
  ultimately show ?thesis using s3(9) by (auto simp: kview_def)
qed

end
