(* ===== verification/Waiting.thy ===== *)
theory Waiting
  imports Kthreads
begin

text \<open>
  The sleep queue operations on the invariant of the threads: putting the running thread into the
  queue of a resource, waking the first or all of the threads that wait for one, the contract that
  semaphores and locks rely on (locale \<open>sleep_queue\<close>), and the step relation of the kernel's threads.
\<close>

section \<open>Chains\<close>

lemma kcore_disjoint:
  assumes k: "kcore X Q W s rs cs ss" and h: "0 \<le> h" "h < 127" "0 \<le> g" "g < 127"
    and p: "p \<in> set (cs h)" "p \<notin> X" "g \<noteq> h"
  shows "p \<notin> set (cs g)"
proof -
  have "0 < p" "p < 32" using k h p tids_range [of 32 "cs h" p] by (auto simp: kcore_def hq_def)
  from kcore_tok [OF k this p(2)] h p(1,3) show ?thesis by (auto simp: tok_def)
qed

text \<open>Replacing one chain: the others and the ready list keep their links.\<close>

lemma hq_chain:
  assumes "hq s cs" "0 \<le> h" "h < 127" "length (sleepq_hashtable s') = 127"
    and "tids 32 ps" "path (nxt s') (sleepq_hashtable s' ! nat h) ps (-1)"
    and "\<And>g. 0 \<le> g \<Longrightarrow> g < 127 \<Longrightarrow> g \<noteq> h \<Longrightarrow> sleepq_hashtable s' ! nat g = sleepq_hashtable s ! nat g"
    and "\<And>g p. 0 \<le> g \<Longrightarrow> g < 127 \<Longrightarrow> g \<noteq> h \<Longrightarrow> p \<in> set (cs g) \<Longrightarrow> nxt s' p = nxt s p"
  shows "hq s' (cs(h := ps))"
  unfolding hq_def
proof (intro conjI allI impI)
  fix g :: int
  assume g: "0 \<le> g \<and> g < 127"
  have "path (nxt s') (sleepq_hashtable s ! nat g) (cs g) (-1)" if "g \<noteq> h"
  proof -
    have "path (nxt s') (sleepq_hashtable s ! nat g) (cs g) (-1) = path (nxt s) (sleepq_hashtable s ! nat g) (cs g) (-1)"
      using assms(8) g that by (intro path_cong) auto
    with assms(1) g show ?thesis by (simp add: hq_def)
  qed
  then show "path (nxt s') (sleepq_hashtable s' ! nat g) ((cs(h := ps)) g) (-1)" "tids 32 ((cs(h := ps)) g)"
    using assms g by (auto simp: hq_def)
qed (use assms(4) in simp)

lemma hq_facts:
  assumes "hq s cs" "0 \<le> h" "h < 127"
  shows "tids 32 (cs h)" "path (nxt s) (sleepq_hashtable s ! nat h) (cs h) (-1)"
    "sleepq_hashtable s ! nat h = head (cs h)" "nat h < length (sleepq_hashtable s)" "length (sleepq_hashtable s) = 127"
  using assms path_head [of "nxt s" "sleepq_hashtable s ! nat h" "cs h"] by (auto simp: hq_def)

text \<open>The prefix \<open>as\<close> of a chain and the value of the code's variable \<open>prev\<close> that goes with it.\<close>

lemma final_pos: "tids 32 as \<Longrightarrow> final as \<le> 0 \<longleftrightarrow> as = []"
  using tids_range [OF _ last_in_set, of 32 as] by (cases "as = []") auto

lemma unchain_spec:
  assumes k: "kcore {} Q W s rs cs ss" and h: "0 \<le> h" "h < 127" and c: "cs h = as @ w # bs"
  shows "\<exists>s1. unchain h (final as) w s = Inr s1 \<and> kcore {w} Q W s1 rs (cs(h := as @ bs)) ss \<and>
    scheduler_current_thread s1 = scheduler_current_thread s \<and>
    thread_next_sleeper_id s1 = thread_next_sleeper_id s \<and>
    (\<forall>p. 0 \<le> p \<longrightarrow> p < 32 \<longrightarrow> (\<exists>v. th s1 p = (th s p)\<lparr>t_next := v\<rparr>))"
proof -
  note q = hq_facts [OF kcoreD(2) [OF k] h]
  have ok: "table_ok s" using kcoreD [OF k] by simp
  have tids: "tids 32 (as @ w # bs)" using q(1) c by simp
  then have w: "0 < w" "w < 32" "w \<notin> set as" "w \<notin> set bs" "tids 32 as" "tids 32 (as @ bs)"
    by (auto simp: tids_append)
  have path: "path (nxt s) (sleepq_hashtable s ! nat h) as w" "nxt s w = head bs" "path (nxt s) (head bs) bs (-1)"
    using q(2) c by (auto simp: path_split)
  define s1 where "s1 = (if as = [] then s\<lparr>sleepq_hashtable := (sleepq_hashtable s)[nat h := nxt s w]\<rparr>
    else th_upd (last as) (\<lambda>p. p\<lparr>t_next := nxt s w\<rparr>) s)"
  have la: "0 \<le> last as" "last as < 32" "last as \<in> set (cs h)" if "as \<noteq> []"
    using that tids_range [OF w(5) last_in_set [OF that]] c by auto
  have un: "unchain h (final as) w s = Inr s1"
    using w ok final_pos [OF w(5)] la q(4) h by (auto simp: unchain_def s1_def)
  have th: "th s1 p = (if as \<noteq> [] \<and> p = last as then (th s p)\<lparr>t_next := nxt s w\<rparr> else th s p)" if "0 \<le> p" for p
    using that la ok by (auto simp: s1_def)
  have ht: "length (sleepq_hashtable s1) = 127"
    "\<And>g. 0 \<le> g \<Longrightarrow> g < 127 \<Longrightarrow> g \<noteq> h \<Longrightarrow> sleepq_hashtable s1 ! nat g = sleepq_hashtable s ! nat g"
    "sleepq_hashtable s1 ! nat h = (if as = [] then head bs else sleepq_hashtable s ! nat h)"
    using q h path(2) by (auto simp: s1_def nth_list_update)
  have apart: "as \<noteq> [] \<Longrightarrow> last as \<notin> set rs" "\<And>g. as \<noteq> [] \<Longrightarrow> 0 \<le> g \<Longrightarrow> g < 127 \<Longrightarrow> g \<noteq> h \<Longrightarrow> last as \<notin> set (cs g)"
    using kcore_apart [OF k h la(3)] kcore_disjoint [OF k h _ _ la(3)] by auto
  have "rq s1 rs"
  proof (rule rq_same [OF kcoreD(1) [OF k]])
    show "nxt s1 p = nxt s p" if "p \<in> set rs" for p
      using that th [of p] apart(1) kcoreD(1) [OF k] tids_range [of 32 rs p] by (auto simp: rq_def)
  qed (use ok in \<open>auto simp: s1_def\<close>)
  moreover have "hq s1 (cs(h := as @ bs))"
  proof (rule hq_chain [OF kcoreD(2) [OF k] h ht(1) w(6) _ ht(2)])
    show "nxt s1 p = nxt s p" if "0 \<le> g" "g < 127" "g \<noteq> h" "p \<in> set (cs g)" for g p
      using that th [of p] apart(2) [of g] tids_range [OF hq_facts(1) [OF kcoreD(2) [OF k], of g], of p] by auto
    have bs: "path (nxt s1) (head bs) bs (-1)"
    proof -
      have "nxt s1 p = nxt s p" if "p \<in> set bs" for p
        using that th [of p] tids_range [of 32 bs p] w(6) last_in_set [of as]
        by (auto simp: tids_append disjoint_iff)
      with path(3) show ?thesis using path_cong [of bs "nxt s1" "nxt s"] by simp
    qed
    show "path (nxt s1) (sleepq_hashtable s1 ! nat h) (as @ bs) (-1)"
    proof (cases "as = []")
      case True
      with bs ht(3) show ?thesis by simp
    next
      case False
      have "nxt s1 p = (if p = last as then head bs else nxt s p)" if "p \<in> set as" for p
        using th [of p] tids_range [OF w(5) that] path(2) False by simp
      then have "path (nxt s1) (sleepq_hashtable s ! nat h) as (head bs)"
        by (rule path_redirect [OF path(1) tids_distinct [OF w(5)] False])
      with bs ht(3) False show ?thesis by (auto simp: path_append)
    qed
  qed
  moreover have "tok (set rs) (\<lambda>g. set ((cs(h := as @ bs)) g)) (set ss) Q W p (th s1 p)"
    if "0 < p" "p < 32" "p \<noteq> w" for p
  proof -
    have "tok (set rs) (\<lambda>g. set ((cs(h := as @ bs)) g)) (set ss) Q W p (th s p)"
      using kcore_tok [OF k that(1,2)] that(3) c by (subst tok_cong [where C' = "\<lambda>g. set (cs g)"]) auto
    with th [of p] that(1) show ?thesis by (cases "as \<noteq> [] \<and> p = last as") simp_all
  qed
  ultimately have "kcore {w} Q W s1 rs (cs(h := as @ bs)) ss" by (simp add: kcore_def)
  moreover have "\<exists>v. th s1 p = (th s p)\<lparr>t_next := v\<rparr>" if "0 \<le> p" for p
    using th [OF that] by (cases "as \<noteq> [] \<and> p = last as") (auto intro: exI [of _ "nxt s p"])
  ultimately show ?thesis using un by (auto simp: s1_def)
qed


text \<open>Clearing what the thread waits for and putting it on the ready list, unless it still runs.\<close>

definition woken_ready :: "kstate \<Rightarrow> int \<Rightarrow> int list \<Rightarrow> int list" where
  "woken_ready s w rs = (if t_state (th s w) = THREAD_SLEEPING then enq (high s) w rs else rs)"

lemma make_ready_spec:
  assumes k: "kcore {w} Q W s rs cs ss" and w: "0 < w" "w < 32" "off w rs cs ss"
    and e: "t_state (th s w) = THREAD_SLEEPING \<and> w \<notin> Q \<or> t_state (th s w) = THREAD_RUNNING \<and> w \<in> Q"
      "wakeup_time (th s w) = 0"
  shows "\<exists>s'. make_ready w s = Inr s' \<and> kcore {} Q W s' (woken_ready s w rs) cs ss \<and>
    scheduler_current_thread s' = scheduler_current_thread s \<and>
    thread_next_sleeper_id s' = thread_next_sleeper_id s \<and> t_priority (th s' w) = t_priority (th s w) \<and>
    (\<forall>p. 0 \<le> p \<longrightarrow> p < 32 \<longrightarrow> p \<noteq> w \<longrightarrow> (\<exists>v. th s' p = (th s p)\<lparr>t_next := v\<rparr>))"
proof -
  have ok: "table_ok s" using kcoreD [OF k] by simp
  let ?s1 = "th_upd w (\<lambda>e. e\<lparr>sleeps_on := 0, t_next := -1\<rparr>) s"
  have k1: "kcore {w} Q W ?s1 rs cs ss" using k w by (intro kcore_upd) auto
  have idn: "\<exists>v. th s p = (th s p)\<lparr>t_next := v\<rparr>" for p by (rule exI [of _ "nxt s p"]) simp
  show ?thesis
  proof (cases "t_state (th s w) = THREAD_SLEEPING")
    case False
    then have "make_ready w s = Inr ?s1" using ok w by (simp add: make_ready_def)
    moreover have "tok (set rs) (\<lambda>h. set (cs h)) (set ss) Q W w (th ?s1 w)"
      using False e w ok by (auto simp: tok_def off_def)
    with k1 have "kcore {} Q W ?s1 rs cs ss" by (rule kcore_add)
    ultimately show ?thesis using False w ok idn by (auto simp: woken_ready_def)
  next
    case True
    let ?s2 = "th_upd w (\<lambda>e. e\<lparr>t_state := THREAD_READY\<rparr>) ?s1"
    have "kcore {w} Q W ?s2 rs cs ss" by (rule kcore_upd [OF k1]) (use w in auto)
    from kcore_enqueue1 [OF this w] obtain s' where s': "scheduler_add_to_ready_list w ?s2 = Inr s'"
      "kcore {w} Q W s' (enq (high ?s2) w rs) cs ss" "relinked (insert w (set rs)) ?s2 s'" by blast
    have frame: "\<exists>v. th s' p = (th ?s2 p)\<lparr>t_next := v\<rparr>" if "0 \<le> p" "p < 32" for p
      using relinked_th [OF s'(3) that] by blast
    have "make_ready w s = Inr s'" using True s'(1) ok w by (simp add: make_ready_def)
    moreover have pri: "high ?s2 p = high s p" if "0 < p" "p < 32" for p using that ok w by simp
    have "enq (high ?s2) w rs = enq (high s) w rs"
      using kcoreD(1) [OF k] w pri by (intro enq_cong) (auto simp: rq_def dest!: tids_range)
    moreover obtain v where v: "th s' w = (th ?s2 w)\<lparr>t_next := v\<rparr>" using frame [of w] w by auto
    have "tok (set (enq (high ?s2) w rs)) (\<lambda>h. set (cs h)) (set ss) Q W w (th s' w)"
      unfolding v using True e w ok by (auto simp: tok_def off_def)
    with s'(2) have "kcore {} Q W s' (enq (high ?s2) w rs) cs ss" by (rule kcore_add)
    moreover have "\<exists>v. th s' p = (th s p)\<lparr>t_next := v\<rparr>" if "0 \<le> p" "p < 32" "p \<noteq> w" for p
      using frame [OF that(1,2)] that ok w by simp
    ultimately show ?thesis
      using True s'(3) v ok w by (auto simp: woken_ready_def relinked_def same_rest_def)
  qed
qed


section \<open>Waking\<close>

text \<open>The threads that wait for a resource, in the order in which they started to wait.\<close>

definition waits_for :: "kstate \<Rightarrow> u32 \<Rightarrow> int \<Rightarrow> bool" where
  "waits_for s r p \<longleftrightarrow> sleeps_on (th s p) = r"

lemma wake_one:
  assumes k: "kcore {} Q W s rs cs ss" and sq: "sq s ss" and i: "idle_ok (th s 0)"
    and h: "0 \<le> h" "h < 127" and c: "cs h = as @ w # bs"
  shows "\<exists>s'. rbind (unchain h (final as) w s) (make_ready w) = Inr s' \<and>
    kcore {} Q W s' (woken_ready s w rs) (cs(h := as @ bs)) ss \<and> sq s' ss \<and> idle_ok (th s' 0) \<and>
    scheduler_current_thread s' = scheduler_current_thread s \<and> t_priority (th s' w) = t_priority (th s w) \<and>
    (\<forall>p. 0 \<le> p \<longrightarrow> p < 32 \<longrightarrow> p \<noteq> w \<longrightarrow> (\<exists>v. th s' p = (th s p)\<lparr>t_next := v\<rparr>))"
proof -
  have w: "0 < w" "w < 32" "w \<in> set (cs h)"
    using hq_facts(1) [OF kcoreD(2) [OF k] h] c by (auto simp: tids_append)
  note t = kcore_tok [OF k w(1,2)]
  from unchain_spec [OF k h c] obtain s1 where
    s1: "unchain h (final as) w s = Inr s1" "kcore {w} Q W s1 rs (cs(h := as @ bs)) ss"
      "scheduler_current_thread s1 = scheduler_current_thread s"
      "thread_next_sleeper_id s1 = thread_next_sleeper_id s"
    and f1: "\<And>p. 0 \<le> p \<Longrightarrow> p < 32 \<Longrightarrow> \<exists>v. th s1 p = (th s p)\<lparr>t_next := v\<rparr>" by blast
  obtain v where v: "th s1 w = (th s w)\<lparr>t_next := v\<rparr>" using f1 [of w] w by auto
  have "w \<notin> set as" "w \<notin> set bs"
    using hq_facts(1) [OF kcoreD(2) [OF k] h] c by (auto simp: tids_append)
  then have off: "off w rs (cs(h := as @ bs)) ss"
    using t w(3) h by (auto simp: tok_def off_def)
  have st: "t_state (th s1 w) = THREAD_SLEEPING \<and> w \<notin> Q \<or> t_state (th s1 w) = THREAD_RUNNING \<and> w \<in> Q"
    "wakeup_time (th s1 w) = 0" unfolding v using t w(3) h by (auto simp: tok_def)
  from make_ready_spec [OF s1(2) w(1,2) off st] obtain s' where
    s': "make_ready w s1 = Inr s'" "kcore {} Q W s' (woken_ready s1 w rs) (cs(h := as @ bs)) ss"
      "scheduler_current_thread s' = scheduler_current_thread s1"
      "thread_next_sleeper_id s' = thread_next_sleeper_id s1" "t_priority (th s' w) = t_priority (th s1 w)"
    and f': "\<And>p. 0 \<le> p \<Longrightarrow> p < 32 \<Longrightarrow> p \<noteq> w \<Longrightarrow> \<exists>v. th s' p = (th s1 p)\<lparr>t_next := v\<rparr>" by blast
  have frame: "\<exists>v. th s' p = (th s p)\<lparr>t_next := v\<rparr>" if "0 \<le> p" "p < 32" "p \<noteq> w" for p
    using f1 [OF that(1,2)] f' [OF that] by auto
  have "high s1 p = high s p" if "0 < p" "p < 32" for p using f1 [of p] that by auto
  then have "enq (high s1) w rs = enq (high s) w rs"
    using kcoreD(1) [OF k] w by (intro enq_cong) (auto simp: rq_def dest!: tids_range)
  then have "woken_ready s1 w rs = woken_ready s w rs" by (simp add: woken_ready_def v)
  moreover have "sq s' ss"
    using sq s1(4) s'(4) frame off by (intro sq_links [OF sq]) (auto simp: off_def)
  moreover have "idle_ok (th s' 0)" using frame [of 0] w i by auto
  ultimately show ?thesis using s1 s' frame v by auto
qed

text \<open>\<open>sleepq_wake\<close> on the abstract lists: the first thread that waits for the resource.\<close>

lemma sleepq_wake_spec:
  assumes k: "kview W s rs cs ss"
  shows "\<exists>s'. sleepq_wake r s = Inr s' \<and> scheduler_current_thread s' = scheduler_current_thread s \<and>
    (case dropWhile (\<lambda>p. \<not> waits_for s r p) (cs (SLEEPQ_HASH r)) of
      [] \<Rightarrow> s' = s
    | w # bs \<Rightarrow> kview W s' (woken_ready s w rs)
        (cs(SLEEPQ_HASH r := takeWhile (\<lambda>p. \<not> waits_for s r p) (cs (SLEEPQ_HASH r)) @ bs)) ss \<and>
        (\<forall>p. 0 \<le> p \<longrightarrow> p < 32 \<longrightarrow> p \<noteq> w \<longrightarrow> (\<exists>v. th s' p = (th s p)\<lparr>t_next := v\<rparr>)))"
proof -
  note d = kviewD [OF k]
  let ?h = "SLEEPQ_HASH r" let ?as = "takeWhile (\<lambda>p. \<not> waits_for s r p) (cs ?h)"
  note q = hq_facts [OF kcoreD(2) [OF d(1)], of ?h, simplified]
  have len: "length (cs ?h) < 32" using tids_length [OF q(1)] by auto
  have loop: "find_waiter 32 r (thread_table s) (-1) (sleepq_hashtable s ! nat ?h) =
      Inr (final ?as, head (dropWhile (\<lambda>p. \<not> waits_for s r p) (cs ?h)))"
    using find_waiter_eq [OF d(5) q(2,1) len, of r "-1"] by (simp add: waits_for_def final_def)
  show ?thesis
  proof (cases "dropWhile (\<lambda>p. \<not> waits_for s r p) (cs ?h)")
    case Nil
    have "sleepq_wake r s = Inr s" using loop q unfolding Nil by (simp add: sleepq_wake_def)
    then show ?thesis unfolding Nil by simp
  next
    case (Cons w bs)
    then have c: "cs ?h = ?as @ w # bs" using takeWhile_dropWhile_id by metis
    then have "0 < w" using q(1) by (metis tids_append tids_simps(2))
    with wake_one [OF d(1,2,4) _ _ c] loop Cons q show ?thesis
      using d(3) by (auto simp: sleepq_wake_def kview_def)
  qed
qed

text \<open>
  \<open>sleepq_wake_all\<close>: the loop invariant splits the chain into the part \<open>as\<close> that has been searched
  and the rest \<open>qs\<close>.
\<close>

definition wake_list :: "(int \<Rightarrow> bool) \<Rightarrow> (int \<Rightarrow> bool) \<Rightarrow> int list \<Rightarrow> int list \<Rightarrow> int list" where
  "wake_list hi sl rs ws = foldl (\<lambda>r w. if sl w then enq hi w r else r) rs ws"

lemma find_waiter_suffix:
  assumes "kcore {} Q W s rs cs ss" and "cs (SLEEPQ_HASH r) = as @ qs"
  shows "find_waiter 32 r (thread_table s) (final as) (head qs) =
    Inr (final (as @ takeWhile (\<lambda>p. \<not> waits_for s r p) qs), head (dropWhile (\<lambda>p. \<not> waits_for s r p) qs))"
proof -
  note q = hq_facts [OF kcoreD(2) [OF assms(1)], of "SLEEPQ_HASH r", simplified]
  have t: "tids 32 qs" using q(1) assms(2) by (simp add: tids_append)
  have "path (nxt s) (head qs) qs (-1)"
    using q(2) assms(2) path_head by (metis path_append)
  moreover have "length qs < 32" using tids_length [OF t] by auto
  ultimately have "find_waiter 32 r (thread_table s) (final as) (head qs) =
      Inr (last (final as # takeWhile (\<lambda>p. \<not> waits_for s r p) qs), head (dropWhile (\<lambda>p. \<not> waits_for s r p) qs))"
    using find_waiter_eq [OF kcoreD(3) [OF assms(1)] _ t] by (simp add: waits_for_def)
  then show ?thesis by (simp add: final_def)
qed

lemma wake_all_round:
  assumes "0 < first" "find_waiter 32 r (thread_table s) prev first = Inr (prev', w)" "0 < w"
    and "get_thread w s = Inr e" "rbind (unchain (SLEEPQ_HASH r) prev' w s) (make_ready w) = Inr s1"
  shows "wake_all_loop (Suc n) r prev first s = wake_all_loop n r prev' (t_next e) s1"
proof -
  have "wake_all_loop (Suc n) r prev first s =
      rbind (rbind (unchain (SLEEPQ_HASH r) prev' w s) (make_ready w)) (wake_all_loop n r prev' (t_next e))"
    using assms(1-4) by (simp add: rbind_assoc)
  then show ?thesis using assms(5) by simp
qed

lemma wake_all_loop_spec:
  assumes "kcore {} Q W s rs cs ss" "sq s ss" "idle_ok (th s 0)"
    and "cs (SLEEPQ_HASH r) = as @ qs" "length (filter wt qs) + 1 < n"
    and "\<And>p. 0 < p \<Longrightarrow> p < 32 \<Longrightarrow> hi p = high s p"
    and "\<And>p. p \<in> set qs \<Longrightarrow> wt p = waits_for s r p \<and> (sl p \<longleftrightarrow> t_state (th s p) = THREAD_SLEEPING)"
  shows "\<exists>s'. wake_all_loop n r (final as) (head qs) s = Inr s' \<and>
    kcore {} Q W s' (wake_list hi sl rs (filter wt qs))
      (cs(SLEEPQ_HASH r := as @ filter (\<lambda>p. \<not> wt p) qs)) ss \<and>
    sq s' ss \<and> idle_ok (th s' 0) \<and> scheduler_current_thread s' = scheduler_current_thread s \<and>
    (\<forall>p. 0 \<le> p \<longrightarrow> p < 32 \<longrightarrow> p \<notin> set (filter wt qs) \<longrightarrow> (\<exists>v. th s' p = (th s p)\<lparr>t_next := v\<rparr>))"
  using assms
proof (induction "length qs" arbitrary: n s rs cs as qs rule: less_induct)
  case less
  let ?h = "SLEEPQ_HASH r"
  obtain m where n: "n = Suc (Suc m)" "length (filter wt qs) < Suc m" using less.prems(5) by (cases n; cases "n - 1") auto
  have tq: "tids 32 qs"
    using hq_facts(1) [OF kcoreD(2) [OF less.prems(1)], of ?h] less.prems(4) by (simp add: tids_append)
  note fw = find_waiter_suffix [OF less.prems(1,4)]
  have same: "takeWhile (\<lambda>p. \<not> waits_for s r p) qs = takeWhile (\<lambda>p. \<not> wt p) qs"
    "dropWhile (\<lambda>p. \<not> waits_for s r p) qs = dropWhile (\<lambda>p. \<not> wt p) qs"
    using less.prems(7) by (auto cong: takeWhile_cong dropWhile_cong)
  show ?case
  proof (cases "dropWhile (\<lambda>p. \<not> wt p) qs")
    case Nil
    then have none: "filter wt qs = []" "filter (\<lambda>p. \<not> wt p) qs = qs" by (auto simp: filter_empty_conv)
    have "wake_all_loop n r (final as) (head qs) s = Inr s"
    proof (cases qs)
      case (Cons a b)
      have "wake_all_loop (Suc (Suc m)) r (final as) (head qs) s = Inr s"
        using fw same Nil by (subst wake_all_loop.simps) simp
      then show ?thesis by (simp add: n(1))
    qed (simp add: n(1))
    with less.prems none show ?thesis by (simp add: wake_list_def fun_upd_idem)
  next
    case (Cons w bs)
    let ?as = "as @ takeWhile (\<lambda>p. \<not> wt p) qs"
    have qs: "qs = takeWhile (\<lambda>p. \<not> wt p) qs @ w # bs"
      using Cons takeWhile_dropWhile_id [of "\<lambda>p. \<not> wt p" qs] by simp
    then have c: "cs ?h = ?as @ w # bs" using less.prems(4) by simp
    have "wt w" using Cons by (metis hd_dropWhile list.distinct(1) list.sel(1))
    have nf: "filter wt (takeWhile (\<lambda>p. \<not> wt p) qs) = []" "filter (\<lambda>p. \<not> wt p) (takeWhile (\<lambda>p. \<not> wt p) qs) = takeWhile (\<lambda>p. \<not> wt p) qs"
      by (auto simp: filter_empty_conv filter_id_conv dest: set_takeWhileD)
    have fqs: "filter wt qs = w # filter wt bs" "filter (\<lambda>p. \<not> wt p) qs = takeWhile (\<lambda>p. \<not> wt p) qs @ filter (\<lambda>p. \<not> wt p) bs"
      using \<open>wt w\<close> nf by (subst qs; simp)+
    have w: "w \<in> set qs" "w \<notin> set bs" "set bs \<subseteq> set qs" "0 < w" "w < 32" "tids 32 bs"
    proof -
      show "w \<in> set qs" "set bs \<subseteq> set qs" using qs by (metis in_set_conv_decomp, metis set_append set_subset_Cons Un_upper2 order_trans)
      have "tids 32 (w # bs)" using tq qs by (metis tids_append)
      then show "w \<notin> set bs" "0 < w" "w < 32" "tids 32 bs" by auto
    qed
    from wake_one [OF less.prems(1-3) _ _ c] obtain s1 where
      s1: "rbind (unchain ?h (final ?as) w s) (make_ready w) = Inr s1"
        "kcore {} Q W s1 (woken_ready s w rs) (cs(?h := ?as @ bs)) ss" "sq s1 ss" "idle_ok (th s1 0)"
        "scheduler_current_thread s1 = scheduler_current_thread s" "t_priority (th s1 w) = t_priority (th s w)"
      and f1: "\<forall>p. 0 \<le> p \<longrightarrow> p < 32 \<longrightarrow> p \<noteq> w \<longrightarrow> (\<exists>v. th s1 p = (th s p)\<lparr>t_next := v\<rparr>)" by auto
    have "nxt s w = head bs"
      using hq_facts(2) [OF kcoreD(2) [OF less.prems(1)], of ?h] c path_split [of "nxt s" _ ?as w bs] by simp
    moreover have "0 < head qs" using tq qs by (cases qs) auto
    ultimately have step: "wake_all_loop n r (final as) (head qs) s = wake_all_loop (Suc m) r (final ?as) (head bs) s1"
      using wake_all_round [of "head qs" r s "final as" "final ?as" w "th s w" s1 "Suc m"]
        fw same Cons w(4,5) kcoreD(3) [OF less.prems(1)] s1(1) n(1) by simp
    have "woken_ready s w rs = (if sl w then enq hi w rs else rs)"
    proof -
      have "enq hi w rs = enq (high s) w rs"
        using kcoreD(1) [OF less.prems(1)] w less.prems(6) by (intro enq_cong) (auto simp: rq_def dest!: tids_range)
      with less.prems(7) w(1) show ?thesis by (simp add: woken_ready_def)
    qed
    moreover have "hi p = high s1 p" if p: "0 < p" "p < 32" for p
    proof (cases "p = w")
      case False
      moreover have "0 \<le> p" using p(1) by simp
      ultimately obtain v where "th s1 p = (th s p)\<lparr>t_next := v\<rparr>" using f1 p(2) by blast
      with less.prems(6) [OF p] show ?thesis by simp
    qed (use s1(6) less.prems(6) [OF p] in simp)
    moreover have "wt p = waits_for s1 r p \<and> (sl p \<longleftrightarrow> t_state (th s1 p) = THREAD_SLEEPING)" if p: "p \<in> set bs" for p
    proof -
      have "0 \<le> p" "p < 32" "p \<noteq> w" using tids_range [OF w(6) p] p w(2) by auto
      with f1 obtain v where "th s1 p = (th s p)\<lparr>t_next := v\<rparr>" by blast
      with less.prems(7) [of p] p w(3) show ?thesis by (auto simp: waits_for_def)
    qed
    moreover have "length bs < length qs" by (subst qs) simp
    ultimately obtain s' where "wake_all_loop (Suc m) r (final ?as) (head bs) s1 = Inr s'"
      "kcore {} Q W s' (wake_list hi sl (if sl w then enq hi w rs else rs) (filter wt bs))
        (cs(?h := ?as @ filter (\<lambda>p. \<not> wt p) bs)) ss"
      "sq s' ss" "idle_ok (th s' 0)" "scheduler_current_thread s' = scheduler_current_thread s1"
      and f2: "\<forall>p. 0 \<le> p \<longrightarrow> p < 32 \<longrightarrow> p \<notin> set (filter wt bs) \<longrightarrow> (\<exists>v. th s' p = (th s1 p)\<lparr>t_next := v\<rparr>)"
      using less.hyps [of bs s1 "woken_ready s w rs" "cs(?h := ?as @ bs)" ?as "Suc m"] s1 n(2) fqs(1) by auto
    moreover have "\<exists>v. th s' p = (th s p)\<lparr>t_next := v\<rparr>" if p: "0 \<le> p" "p < 32" "p \<notin> set (filter wt qs)" for p
    proof -
      have "p \<noteq> w" "p \<notin> set (filter wt bs)" using p(3) fqs(1) by auto
      then obtain v where "th s1 p = (th s p)\<lparr>t_next := v\<rparr>" using f1 p(1,2) by blast
      moreover obtain v' where "th s' p = (th s1 p)\<lparr>t_next := v'\<rparr>"
        using f2 p(1,2) \<open>p \<notin> set (filter wt bs)\<close> by blast
      ultimately show ?thesis by simp
    qed
    ultimately show ?thesis using step fqs s1(5) by (auto simp: wake_list_def)
  qed
qed


lemma sleepq_wake_all_spec:
  assumes k: "kview W s rs cs ss"
  shows "\<exists>s'. sleepq_wake_all r s = Inr s' \<and> scheduler_current_thread s' = scheduler_current_thread s \<and>
    kview W s' (wake_list (high s) (\<lambda>p. t_state (th s p) = THREAD_SLEEPING) rs
        (filter (waits_for s r) (cs (SLEEPQ_HASH r))))
      (cs(SLEEPQ_HASH r := filter (\<lambda>p. \<not> waits_for s r p) (cs (SLEEPQ_HASH r)))) ss \<and>
    (\<forall>p. 0 \<le> p \<longrightarrow> p < 32 \<longrightarrow> \<not> waits_for s r p \<longrightarrow> (\<exists>v. th s' p = (th s p)\<lparr>t_next := v\<rparr>))"
proof -
  note d = kviewD [OF k]
  let ?qs = "cs (SLEEPQ_HASH r)"
  note q = hq_facts [OF kcoreD(2) [OF d(1)], of "SLEEPQ_HASH r", simplified]
  have "length ?qs < 32" using tids_length [OF q(1)] by auto
  then have "length (filter (waits_for s r) ?qs) + 1 < 33"
    using length_filter_le [of "waits_for s r" ?qs] by linarith
  from wake_all_loop_spec [OF d(1,2,4), of r "[]" ?qs _ _ "high s" "\<lambda>p. t_state (th s p) = THREAD_SLEEPING", OF _ this]
  show ?thesis using q d(3) by (auto simp: sleepq_wake_all_def kview_def)
qed

section \<open>Going to sleep\<close>

lemma chain_append_spec:
  assumes k: "kcore {t} Q W s rs cs ss" and h: "0 \<le> h" "h < 127" and t: "0 < t" "t < 32" "off t rs cs ss" "nxt s t = -1"
  defines "s' \<equiv> (if cs h = [] then s\<lparr>sleepq_hashtable := (sleepq_hashtable s)[nat h := t]\<rparr>
    else th_upd (last (cs h)) (\<lambda>e. e\<lparr>t_next := t\<rparr>) s)"
  shows "kcore {t} Q W s' rs (cs(h := cs h @ [t])) ss"
proof -
  note q = hq_facts [OF kcoreD(2) [OF k] h]
  have ok: "table_ok s" using kcoreD [OF k] by simp
  have tn: "t \<notin> set (cs h)" using t(3) h by (auto simp: off_def)
  have la: "0 \<le> last (cs h)" "last (cs h) < 32" "last (cs h) \<in> set (cs h)" "last (cs h) \<noteq> t" if "cs h \<noteq> []"
    using that tids_range [OF q(1) last_in_set [OF that]] tn last_in_set [OF that] by auto
  have th: "th s' p = (if cs h \<noteq> [] \<and> p = last (cs h) then (th s p)\<lparr>t_next := t\<rparr> else th s p)" if "0 \<le> p" for p
    using that la ok by (auto simp: s'_def)
  have ht: "length (sleepq_hashtable s') = 127"
    "\<And>g. 0 \<le> g \<Longrightarrow> g < 127 \<Longrightarrow> g \<noteq> h \<Longrightarrow> sleepq_hashtable s' ! nat g = sleepq_hashtable s ! nat g"
    "sleepq_hashtable s' ! nat h = (if cs h = [] then t else sleepq_hashtable s ! nat h)"
    using q h by (auto simp: s'_def nth_list_update)
  have apart: "cs h \<noteq> [] \<Longrightarrow> last (cs h) \<notin> set rs"
    "\<And>g. cs h \<noteq> [] \<Longrightarrow> 0 \<le> g \<Longrightarrow> g < 127 \<Longrightarrow> g \<noteq> h \<Longrightarrow> last (cs h) \<notin> set (cs g)"
    using kcore_apart [OF k h la(3)] kcore_disjoint [OF k h _ _ la(3)] la(4) by auto
  have "rq s' rs"
  proof (rule rq_same [OF kcoreD(1) [OF k]])
    show "nxt s' p = nxt s p" if "p \<in> set rs" for p
      using that th [of p] apart(1) kcoreD(1) [OF k] tids_range [of 32 rs p] by (auto simp: rq_def)
  qed (use ok in \<open>auto simp: s'_def\<close>)
  moreover have "hq s' (cs(h := cs h @ [t]))"
  proof (rule hq_chain [OF kcoreD(2) [OF k] h ht(1) _ _ ht(2)])
    show "nxt s' p = nxt s p" if "0 \<le> g" "g < 127" "g \<noteq> h" "p \<in> set (cs g)" for g p
      using that th [of p] apart(2) [of g] tids_range [OF hq_facts(1) [OF kcoreD(2) [OF k], of g], of p] by auto
    show "tids 32 (cs h @ [t])" using q(1) t tn by (auto simp: tids_append)
    have nt: "nxt s' t = -1" using th [of t] t la(4) by auto
    show "path (nxt s') (sleepq_hashtable s' ! nat h) (cs h @ [t]) (-1)"
    proof (cases "cs h = []")
      case False
      have "nxt s' p = (if p = last (cs h) then t else nxt s p)" if "p \<in> set (cs h)" for p
        using th [of p] tids_range [OF q(1) that] False by simp
      then have "path (nxt s') (sleepq_hashtable s ! nat h) (cs h) t"
        by (rule path_redirect [OF q(2) tids_distinct [OF q(1)] False])
      with nt ht(3) False show ?thesis by (simp add: path_split)
    qed (use nt ht(3) in simp)
  qed
  moreover have "tok (set rs) (\<lambda>g. set ((cs(h := cs h @ [t])) g)) (set ss) Q W p (th s' p)"
    if p: "0 < p" "p < 32" "p \<noteq> t" for p
  proof -
    have "tok (set rs) (\<lambda>g. set ((cs(h := cs h @ [t])) g)) (set ss) Q W p (th s p)"
      using kcore_tok [OF k p(1,2)] p(3) by (subst tok_cong [where C' = "\<lambda>g. set (cs g)"]) auto
    with th [of p] p(1) show ?thesis by (cases "cs h \<noteq> [] \<and> p = last (cs h)") simp_all
  qed
  ultimately show ?thesis by (simp add: kcore_def)
qed

text \<open>
  The running thread of a processor, when it is not the idle thread and not on its way to sleep:
  it is in no sleep queue and has set no wake-up time.
\<close>

definition running :: "int \<Rightarrow> kstate \<Rightarrow> int \<Rightarrow> bool" where
  "running cpu s c \<longleftrightarrow> 0 \<le> cpu \<and> cpu < 4 \<and> c = scheduler_current_thread s ! nat cpu \<and> c \<noteq> 0 \<and>
     t_state (th s c) = THREAD_RUNNING \<and> sleeps_on (th s c) = 0 \<and> wakeup_time (th s c) = 0"

lemma runningD:
  assumes k: "kview W s rs cs ss" and r: "running cpu s c"
  shows "0 < c" "c < 32" "c \<in> set (scheduler_current_thread s)" "wakeup_time (th s c) = 0" "off c rs cs ss"
    "thread_get_current_thread cpu s = Inr c" "kcore {c} (set (scheduler_current_thread s)) W s rs cs ss"
    "sleeps_on (th s c) = 0" "t_state (th s c) = THREAD_RUNNING" "c \<noteq> 0"
proof -
  note d = kviewD [OF k]
  show c: "0 < c" "c < 32" "c \<in> set (scheduler_current_thread s)" "sleeps_on (th s c) = 0"
    "t_state (th s c) = THREAD_RUNNING" "c \<noteq> 0" "wakeup_time (th s c) = 0"
    using cpus_ok_nth [OF d(3), of cpu] r by (auto simp: running_def)
  show "off c rs cs ss"
    using kcore_tok [OF d(1) c(1,2)] c by (auto simp: tok_def off_def)
  show "thread_get_current_thread cpu s = Inr c" using d(3) r by (simp add: running_def)
  show "kcore {c} (set (scheduler_current_thread s)) W s rs cs ss" using d(1) by (rule kcore_mono) simp
qed

lemma sleepq_add_spec:
  assumes k: "kview W s rs cs ss" and r: "running cpu s c" "res \<noteq> 0"
    and intr: "intr AND INTERRUPT_MASK_MASTER = 0"
  shows "\<exists>s'. sleepq_add intr cpu res s = Inr s' \<and>
    kview W s' rs (cs(SLEEPQ_HASH res := cs (SLEEPQ_HASH res) @ [c])) ss \<and>
    scheduler_current_thread s' = scheduler_current_thread s \<and> sleeps_on (th s' c) = res \<and>
    (\<forall>p. 0 \<le> p \<longrightarrow> p < 32 \<longrightarrow> p \<noteq> c \<longrightarrow> (\<exists>v. th s' p = (th s p)\<lparr>t_next := v\<rparr>))"
proof -
  note d = kviewD [OF k] and c = runningD [OF k r(1)]
  let ?h = "SLEEPQ_HASH res" and ?s1 = "th_upd c (\<lambda>e. e\<lparr>t_next := -1, sleeps_on := res\<rparr>) s"
  let ?Q = "set (scheduler_current_thread s)"
  have k1: "kcore {c} ?Q W ?s1 rs cs ss" by (rule kcore_upd [OF c(7)]) (use c in auto)
  note q = hq_facts [OF kcoreD(2) [OF k1], of ?h, simplified]
  define s2 where "s2 = (if cs ?h = [] then ?s1\<lparr>sleepq_hashtable := (sleepq_hashtable ?s1)[nat ?h := c]\<rparr>
    else th_upd (last (cs ?h)) (\<lambda>e. e\<lparr>t_next := c\<rparr>) ?s1)"
  have k2: "kcore {c} ?Q W s2 rs (cs(?h := cs ?h @ [c])) ss"
    unfolding s2_def using k1 c d(5) by (intro chain_append_spec) auto
  have la: "0 < last (cs ?h)" "last (cs ?h) < 32" "last (cs ?h) \<noteq> c" "0 < head (cs ?h)" if "cs ?h \<noteq> []"
  proof -
    have "c \<notin> set (cs ?h)" using c(5) by (auto simp: off_def)
    with last_in_set [OF that] show "last (cs ?h) \<noteq> c" by auto
    show "0 < last (cs ?h)" "last (cs ?h) < 32" using tids_range [OF q(1) last_in_set [OF that]] by auto
    show "0 < head (cs ?h)" using that q(1) by (cases "cs ?h") auto
  qed
  have "length (cs ?h) \<le> 32" using tids_length [OF q(1)] by auto
  then have ce: "chain_end 32 (thread_table ?s1) (head (cs ?h)) = Inr (last (cs ?h))" if "cs ?h \<noteq> []"
    using chain_end_eq [of ?s1 _ "cs ?h" 32] that q d(5) by simp
  have "sleepq_add intr cpu res s = Inr s2"
    using c intr d(5) q la ce by (cases "cs ?h = []") (simp_all add: sleepq_add_def s2_def)
  moreover have thc: "th s2 c = (th s c)\<lparr>t_next := -1, sleeps_on := res\<rparr>"
    using la c d(5) by (auto simp: s2_def)
  have "tok (set rs) (\<lambda>g. set ((cs(?h := cs ?h @ [c])) g)) (set ss) ?Q W c (th s2 c)"
    unfolding thc using c r(2) by (auto simp: tok_def off_def)
  with k2 have "kcore {} ?Q W s2 rs (cs(?h := cs ?h @ [c])) ss" by (rule kcore_add)
  moreover have frame: "\<exists>v. th s2 p = (th s p)\<lparr>t_next := v\<rparr>" if "0 \<le> p" "p \<noteq> c" for p
    using that la c d(5) by (auto simp: s2_def)
  moreover have "sq s2 ss"
  proof (rule sq_links [OF d(2)])
    show "\<exists>v. th s2 p = (th s p)\<lparr>t_next := v\<rparr>" if "p \<in> set ss" "0 \<le> p" for p
      using that c(5) frame [of p] by (auto simp: off_def)
  qed (simp add: s2_def)
  moreover have "idle_ok (th s2 0)" using frame [of 0] c(1) d(4) by auto
  ultimately show ?thesis using d(3) thc by (auto simp: kview_def s2_def)
qed

lemma thread_finish_spec:
  assumes k: "kview W s rs cs ss" and r: "running cpu s c" and p: "t_pagetable (th s c) = 0"
  shows "\<exists>s'. thread_finish cpu s = Inr s' \<and> kview W s' rs cs ss \<and> t_state (th s' c) = THREAD_DYING"
proof -
  note d = kviewD [OF k] and c = runningD [OF k r]
  let ?s = "th_upd c (\<lambda>e. e\<lparr>t_state := THREAD_DYING\<rparr>) s"
  have "kcore {c} (set (scheduler_current_thread s)) W ?s rs cs ss" by (rule kcore_upd [OF c(7)]) (use c in auto)
  moreover have "tok (set rs) (\<lambda>g. set (cs g)) (set ss) (set (scheduler_current_thread s)) W c (th ?s c)"
    using c d(5) by (auto simp: tok_def off_def)
  ultimately have "kcore {} (set (scheduler_current_thread s)) W ?s rs cs ss" by (rule kcore_add)
  moreover have "sq ?s ss" using d(2,5) c by (intro sq_state) auto
  moreover have "thread_finish cpu s = Inr ?s" using c d(5) p by (simp add: thread_finish_def)
  ultimately show ?thesis using d c by (auto simp: kview_def)
qed


section \<open>Timed sleep\<close>

abbreviation wk :: "'a sched_scheme \<Rightarrow> int \<Rightarrow> u32" where
  "wk s p \<equiv> wakeup_time (th s p)"

lemma sleeper_position_eq:
  assumes "table_ok s" "path (slp s) it qs (-1)" "tids 32 qs" "qs \<noteq> []" "length qs \<le> n"
    and "tw = takeWhile (\<lambda>p. \<not> w < wk s p) qs" "dw = dropWhile (\<lambda>p. \<not> w < wk s p) qs"
  shows "\<exists>pr tp. sleeper_position n w (thread_table s) it prev first =
    Inr (if dw = [] then (last qs, pr, True, tp) else (hd dw, last (prev # tw), False, first \<and> tw = []))"
  using assms
proof (induction qs arbitrary: n it prev first tw dw)
  case (Cons q qs)
  obtain m where n: "n = Suc m" using Cons.prems(5) by (cases n) auto
  have q: "it = q" "0 < q" "q < 32" "path (slp s) (slp s q) qs (-1)" using Cons.prems by auto
  have r: "rd (thread_table s) q = Inr (th s q)" using q Cons.prems(1) by (simp add: th_def)
  have hd: "slp s q = head qs" using q(4) by (rule path_head)
  show ?case
  proof (cases "w < wk s q")
    case True
    with Cons.prems(6,7) n q r show ?thesis by simp
  next
    case False
    show ?thesis
    proof (cases "qs = []")
      case True
      with False Cons.prems(6,7) n q r hd show ?thesis by simp
    next
      case ne: False
      have ne1: "head qs \<noteq> -1" using ne Cons.prems(3) by (cases qs) auto
      let ?tw = "takeWhile (\<lambda>p. \<not> w < wk s p) qs" and ?dw = "dropWhile (\<lambda>p. \<not> w < wk s p) qs"
      have "\<exists>pr tp. sleeper_position m w (thread_table s) (head qs) q False =
          Inr (if ?dw = [] then (last qs, pr, True, tp) else (hd ?dw, last (q # ?tw), False, False \<and> ?tw = []))"
        using Cons.prems q(4) hd ne n by (intro Cons.IH) auto
      with False ne ne1 Cons.prems(6,7) n q r hd show ?thesis by auto
    qed
  qed
qed simp


text \<open>Inserting a thread into the list of sleepers, between \<open>tw\<close> and \<open>dw\<close>.\<close>

lemma sq_insert:
  assumes sq: "sq s (tw @ dw)" and c: "0 < c" "c < 32" "c \<notin> set (tw @ dw)"
    and sl: "\<And>p. 0 < p \<Longrightarrow> p < 32 \<Longrightarrow> slp s' p = (if p = c then head dw else if tw \<noteq> [] \<and> p = last tw then c else slp s p)"
    and wk: "\<And>p. p \<in> set (tw @ dw) \<Longrightarrow> wk s' p = wk s p"
    and hd: "thread_next_sleeper_id s' = (if tw = [] then c else thread_next_sleeper_id s)"
    and ord: "\<And>p. p \<in> set tw \<Longrightarrow> wk s p \<le> wk s' c" "\<And>p. p \<in> set dw \<Longrightarrow> wk s' c \<le> wk s p"
  shows "sq s' (tw @ c # dw)"
proof -
  have tids: "tids 32 (tw @ dw)" and path: "path (slp s) (thread_next_sleeper_id s) (tw @ dw) (-1)"
    and sorted: "sorted (map (wk s) (tw @ dw))" using sq by (auto simp: sq_def)
  have rng: "0 < p" "p < 32" "p \<noteq> c" if "p \<in> set (tw @ dw)" for p
    using tids_range [OF tids that] that c(3) by auto
  obtain m where m: "path (slp s) (thread_next_sleeper_id s) tw m" "path (slp s) m dw (-1)"
    using path by (auto simp: path_append)
  have dist: "distinct (tw @ dw)" using tids by (rule tids_distinct)
  have "slp s' p = slp s p" if "p \<in> set dw" for p
    using sl [of p] rng [of p] that dist last_in_set [of tw] by (auto simp: disjoint_iff)
  then have dw: "path (slp s') (head dw) dw (-1)"
    using m(2) path_head [OF m(2)] path_cong [of dw "slp s'" "slp s"] by simp
  have tw: "path (slp s') (thread_next_sleeper_id s') tw c"
  proof (cases "tw = []")
    case False
    have "slp s' p = (if p = last tw then c else slp s p)" if "p \<in> set tw" for p
      using sl [of p] rng [of p] that False by auto
    with path_redirect [OF m(1) _ False, of "slp s'" c] dist False hd show ?thesis by simp
  qed (simp add: hd)
  have "slp s' c = head dw" using sl c by simp
  with tw dw have "path (slp s') (thread_next_sleeper_id s') (tw @ c # dw) (-1)" by (simp add: path_split)
  moreover have "tids 32 (tw @ c # dw)" using tids c by (auto simp: tids_append)
  moreover have "sorted (map (wk s') (tw @ c # dw))"
  proof -
    have "map (wk s') tw = map (wk s) tw" "map (wk s') dw = map (wk s) dw" using wk by auto
    moreover have "sorted (map (wk s) tw)" "sorted (map (wk s) dw)" "\<forall>x\<in>set tw. \<forall>y\<in>set dw. wk s x \<le> wk s y"
      using sorted by (auto simp: sorted_append)
    ultimately have "sorted (map (wk s') tw)" "sorted (map (wk s') dw)" by metis+
    with \<open>\<forall>x\<in>set tw. \<forall>y\<in>set dw. wk s x \<le> wk s y\<close> ord wk show ?thesis by (auto simp: sorted_append)
  qed
  ultimately show ?thesis by (simp add: sq_def)
qed


text \<open>The code of \<open>thread_sleep\<close> links the thread between \<open>tw\<close> and \<open>dw\<close>.\<close>

definition sleep_link :: "int \<Rightarrow> int list \<Rightarrow> int list \<Rightarrow> kstate \<Rightarrow> kstate" where
  "sleep_link c tw dw s =
     (let s2 = th_upd c (\<lambda>e. e\<lparr>next_sleeper_id := head dw\<rparr>) s
      in if tw = [] then s2\<lparr>thread_next_sleeper_id := c\<rparr>
         else th_upd (last tw) (\<lambda>e. e\<lparr>next_sleeper_id := c\<rparr>) s2)"

lemma th_upd_commute:
  "p \<noteq> q \<Longrightarrow> 0 \<le> p \<Longrightarrow> 0 \<le> q \<Longrightarrow> th_upd p f (th_upd q g s) = th_upd q g (th_upd p f s)"
  by (simp add: th_upd_def th_def list_update_swap)

lemma thread_sleep_code:
  assumes sq: "sq s ss" and ok: "table_ok s" and c: "0 < c" "c < 32" "c \<notin> set ss" "thread_get_current_thread cpu s = Inr c"
    and s1: "s1 = th_upd c (\<lambda>e. e\<lparr>wakeup_time := now + ms\<rparr>) s"
    and tw: "tw = takeWhile (\<lambda>p. \<not> now + ms < wk s p) ss" "dw = dropWhile (\<lambda>p. \<not> now + ms < wk s p) ss"
  shows "thread_sleep now cpu ms s = Inr (sleep_link c tw dw s1)"
proof (cases "ss = []")
  case True
  then have "thread_next_sleeper_id s = -1" using sq by (simp add: sq_def)
  moreover have "th_upd c (\<lambda>e. e\<lparr>next_sleeper_id := -1\<rparr>) (s1\<lparr>thread_next_sleeper_id := c\<rparr>) =
      (th_upd c (\<lambda>e. e\<lparr>next_sleeper_id := -1\<rparr>) s1)\<lparr>thread_next_sleeper_id := c\<rparr>"
    by (simp add: th_upd_def)
  ultimately show ?thesis using True c ok by (simp add: thread_sleep_def s1 tw sleep_link_def)
next
  case False
  have t: "tids 32 ss" and p: "path (slp s) (thread_next_sleeper_id s) ss (-1)" using sq by (auto simp: sq_def)
  have hd: "thread_next_sleeper_id s = head ss" "head ss \<noteq> -1"
    using path_head [OF p] False t by (auto simp: neq_Nil_conv)
  have same: "slp s1 p = slp s p" "p \<in> set ss \<Longrightarrow> wk s1 p = wk s p" if "0 \<le> p" for p
    using that c ok by (auto simp: s1)
  have p1: "path (slp s1) (head ss) ss (-1)"
  proof -
    have "slp s1 p = slp s p" if "p \<in> set ss" for p using same(1) [of p] tids_range [OF t that] by simp
    with p hd(1) show ?thesis using path_cong [of ss "slp s1" "slp s"] by simp
  qed
  have eq: "tw = takeWhile (\<lambda>p. \<not> now + ms < wk s1 p) ss" "dw = dropWhile (\<lambda>p. \<not> now + ms < wk s1 p) ss"
    using same(2) tids_range [OF t] unfolding tw by (auto intro!: takeWhile_cong dropWhile_cong simp: less_imp_le)
  have split: "ss = tw @ dw" by (simp add: tw)
  have rng: "0 < p" "p < 32" "p \<noteq> c" if "p \<in> set ss" for p using tids_range [OF t that] that c(3) by auto
  have "length ss \<le> 32" using tids_length [OF t] by auto
  moreover have "table_ok s1" using ok by (simp add: s1)
  ultimately obtain pr tp where
    "sleeper_position 32 (now + ms) (thread_table s1) (head ss) (-1) True =
      Inr (if dw = [] then (last ss, pr, True, tp) else (hd dw, last (-1 # tw), False, True \<and> tw = []))"
    using sleeper_position_eq [OF _ p1 t False _ eq, of 32 "-1" True] by blast
  then have pos: "sleeper_position 32 (now + ms) (thread_table s1) (head ss) (-1) True =
      Inr (if dw = [] then (last ss, pr, True, tp) else (hd dw, last (-1 # tw), False, tw = []))" by simp
  have last: "0 < last tw" "last tw < 32" "last tw \<noteq> c" if "tw \<noteq> []"
    using rng [of "last tw"] last_in_set [OF that] split by auto
  have "thread_sleep now cpu ms s =
      rbind (sleeper_position 32 (now + ms) (thread_table s1) (head ss) (-1) True) (\<lambda>pos. sleeper_insert c pos s1)"
    using hd c ok by (simp add: thread_sleep_def s1)
  then have unf: "thread_sleep now cpu ms s =
      sleeper_insert c (if dw = [] then (last ss, pr, True, tp) else (hd dw, last (-1 # tw), False, tw = [])) s1"
    by (simp add: pos)
  consider "dw = []" | "dw \<noteq> []" "tw = []" | "dw \<noteq> []" "tw \<noteq> []" by blast
  then show ?thesis
  proof cases
    case 1
    with False split have "tw \<noteq> []" "last ss = last tw" by auto
    with 1 unf last c ok th_upd_commute [of c "last tw"] show ?thesis
      by (simp add: s1 sleep_link_def sleeper_insert_def)
  next
    case 2
    with unf c ok split hd show ?thesis by (simp add: s1 sleep_link_def sleeper_insert_def)
  next
    case 3
    have "head dw = hd dw" using 3 by (cases dw) auto
    with 3 unf last c ok show ?thesis by (auto simp: s1 sleep_link_def sleeper_insert_def)
  qed
qed

lemma kcore_slp:
  assumes k: "kcore X Q W s rs cs ss" and t: "0 \<le> t" "t < 32"
  shows "kcore X Q W (th_upd t (\<lambda>e. e\<lparr>next_sleeper_id := v\<rparr>) s) rs cs ss"
proof -
  let ?s = "th_upd t (\<lambda>e. e\<lparr>next_sleeper_id := v\<rparr>) s"
  have ok: "table_ok s" using kcoreD [OF k] by simp
  have "kcore (insert t X) Q W ?s rs cs ss"
    by (rule kcore_upd) (use kcore_mono [OF k, of "insert t X"] t in auto)
  moreover have "tok (set rs) (\<lambda>h. set (cs h)) (set ss) Q W p (th ?s p)" if "0 < p" "p < 32" "p \<notin> X" for p
    using kcore_tok [OF k that] ok t that by (cases "p = t") simp_all
  ultimately show ?thesis by (simp add: kcore_def)
qed

lemma kcore_sleepers:
  "kcore {c} Q W s rs cs ss \<Longrightarrow> set ss' = insert c (set ss) \<Longrightarrow> kcore {c} Q W' s rs cs ss' = kcore {c} Q W' s rs cs ss"
  unfolding kcore_def by (auto simp: tok_cong [where S = "insert c (set ss)" and S' = "set ss"])

lemma thread_sleep_spec:
  assumes k: "kview W s rs cs ss" and r: "running cpu s c" and w: "now + ms \<noteq> 0"
  shows "\<exists>s'. thread_sleep now cpu ms s = Inr s' \<and> scheduler_current_thread s' = scheduler_current_thread s \<and>
    kview (insert c W) s' rs cs (takeWhile (\<lambda>p. \<not> now + ms < wk s p) ss @ c # dropWhile (\<lambda>p. \<not> now + ms < wk s p) ss)"
proof -
  note d = kviewD [OF k] and c = runningD [OF k r]
  define tw where "tw = takeWhile (\<lambda>p. \<not> now + ms < wk s p) ss"
  define dw where "dw = dropWhile (\<lambda>p. \<not> now + ms < wk s p) ss"
  define s1 where "s1 = th_upd c (\<lambda>e. e\<lparr>wakeup_time := now + ms\<rparr>) s"
  have ss: "ss = tw @ dw" by (simp add: tw_def dw_def)
  have cs: "c \<notin> set ss" using c(5) by (simp add: off_def)
  let ?s = "sleep_link c tw dw s1" let ?Q = "set (scheduler_current_thread s)"
  have code: "thread_sleep now cpu ms s = Inr ?s"
    using thread_sleep_code [OF d(2,5) c(1,2) cs c(6) s1_def tw_def dw_def] .
  have last: "0 < last tw" "last tw < 32" "last tw \<noteq> c" if "tw \<noteq> []"
    using that d(2) cs tids_range [of 32 ss "last tw"] last_in_set [OF that] by (auto simp: sq_def ss)
  have ok: "table_ok s1" using d(5) by (simp add: s1_def)
  have th: "th ?s p = (if p = c then (th s p)\<lparr>wakeup_time := now + ms, next_sleeper_id := head dw\<rparr>
      else if tw \<noteq> [] \<and> p = last tw then (th s p)\<lparr>next_sleeper_id := c\<rparr> else th s p)" if "0 \<le> p" for p
    using that last c ok d(5) by (auto simp: sleep_link_def s1_def)
  have "kcore {c} ?Q W s1 rs cs ss" unfolding s1_def by (rule kcore_upd [OF c(7)]) (use c in auto)
  then have "kcore {c} ?Q W ?s rs cs ss"
    using last c(1,2) by (cases "tw = []") (auto simp: sleep_link_def intro!: kcore_slp)
  then have "kcore {c} ?Q (insert c W) ?s rs cs ss" by (rule kcore_running) auto
  then have "kcore {c} ?Q (insert c W) ?s rs cs (tw @ c # dw)"
    by (subst kcore_sleepers [where ss = ss]) (auto simp: ss)
  moreover have "tok (set rs) (\<lambda>h. set (cs h)) (set (tw @ c # dw)) ?Q (insert c W) c (th ?s c)"
    using th [of c] c w by (auto simp: tok_def off_def)
  ultimately have "kcore {} ?Q (insert c W) ?s rs cs (tw @ c # dw)" by (rule kcore_add)
  moreover have "sq ?s (tw @ c # dw)"
  proof (rule sq_insert [of s])
    show "slp ?s p = (if p = c then head dw else if tw \<noteq> [] \<and> p = last tw then c else slp s p)" if "0 < p" for p
      using that th [of p] by auto
    show "wk ?s p = wk s p" if "p \<in> set (tw @ dw)" for p
      using that cs th [of p] d(2) tids_range [of 32 ss p] by (auto simp: sq_def ss)
    show "wk s p \<le> wk ?s c" if "p \<in> set tw" for p
      using that th [of c] c(1) by (auto simp: tw_def dest: set_takeWhileD)
    show "wk ?s c \<le> wk s p" if p: "p \<in> set dw" for p
    proof -
      obtain q qs where dw: "dw = q # qs" using p by (cases dw) auto
      then have "now + ms < wk s q" using hd_dropWhile [of "\<lambda>p. \<not> now + ms < wk s p" ss] by (simp add: dw_def)
      moreover have "wk s q \<le> wk s p" using p d(2) dw by (auto simp: sq_def ss sorted_append)
      ultimately show ?thesis using th [of c] c(1) by simp
    qed
  qed (use d(2) c cs in \<open>auto simp: ss sleep_link_def s1_def\<close>)
  moreover have "idle_ok (th ?s 0)" using th [of 0] c(1) last d(4) by auto
  moreover have cur: "scheduler_current_thread ?s = scheduler_current_thread s"
    by (simp add: sleep_link_def s1_def)
  ultimately have "kview (insert c W) ?s rs cs (tw @ c # dw)" using d(3) by (simp add: kview_def)
  with code cur show ?thesis unfolding tw_def dw_def by blast
qed

end
