(* ===== verification/Sleep_queue.thy ===== *)
theory Sleep_queue
  imports Waiting
begin

text \<open>
  The contract of the sleep queue that semaphores, locks and condition variables rely on: a queue
  of waiting threads for every resource, in the order of their arrival. The locale \<open>sleep_queue\<close>
  states it; it is interpreted on \<open>sleepq_add\<close>, \<open>sleepq_wake\<close> and \<open>sleepq_wake_all\<close>.
\<close>

section \<open>The contract\<close>

locale sleep_queue =
  fixes inv :: "'s \<Rightarrow> bool"
    and waiting :: "'s \<Rightarrow> u32 \<Rightarrow> int list"
    and runs :: "int \<Rightarrow> 's \<Rightarrow> int \<Rightarrow> bool"
    and add :: "int \<Rightarrow> u32 \<Rightarrow> 's \<Rightarrow> 's kresult"
    and wake :: "u32 \<Rightarrow> 's \<Rightarrow> 's kresult"
    and wake_all :: "u32 \<Rightarrow> 's \<Rightarrow> 's kresult"
  assumes add_law: "inv s \<Longrightarrow> runs cpu s c \<Longrightarrow> r \<noteq> 0 \<Longrightarrow>
      \<exists>s'. add cpu r s = Inr s' \<and> inv s' \<and> waiting s' = (waiting s)(r := waiting s r @ [c])"
    and wake_none: "inv s \<Longrightarrow> r \<noteq> 0 \<Longrightarrow> waiting s r = [] \<Longrightarrow> wake r s = Inr s"
    and wake_some: "inv s \<Longrightarrow> r \<noteq> 0 \<Longrightarrow> waiting s r = w # ws \<Longrightarrow>
      \<exists>s'. wake r s = Inr s' \<and> inv s' \<and> waiting s' = (waiting s)(r := ws) \<and>
        (\<forall>cpu c. runs cpu s c \<longrightarrow> runs cpu s' c)"
    and wake_all_law: "inv s \<Longrightarrow> r \<noteq> 0 \<Longrightarrow>
      \<exists>s'. wake_all r s = Inr s' \<and> inv s' \<and> waiting s' = (waiting s)(r := []) \<and>
        (\<forall>cpu c. runs cpu s c \<longrightarrow> runs cpu s' c)"
    and runs_not_waiting: "inv s \<Longrightarrow> runs cpu s c \<Longrightarrow> c \<notin> set (waiting s r)"
    and waits_once: "inv s \<Longrightarrow> distinct (waiting s r)"
    and waits_for_one: "inv s \<Longrightarrow> t \<in> set (waiting s r) \<Longrightarrow> t \<in> set (waiting s r') \<Longrightarrow> r = r'"
begin

text \<open>Waking is first in, first out: the thread that is woken is the one that has waited longest.\<close>

lemma add_wake:
  assumes "inv s" "runs cpu s c" "r \<noteq> 0"
  shows "\<exists>s1 s2. add cpu r s = Inr s1 \<and> wake r s1 = Inr s2 \<and> inv s2 \<and>
    waiting s2 = (waiting s)(r := tl (waiting s r @ [c]))"
proof -
  from add_law [OF assms] obtain s1 where s1: "add cpu r s = Inr s1" "inv s1"
    "waiting s1 = (waiting s)(r := waiting s r @ [c])" by blast
  then obtain w ws where w: "waiting s1 r = w # ws" by (cases "waiting s r @ [c]") auto
  from wake_some [OF s1(2) assms(3) w] obtain s2 where
    "wake r s1 = Inr s2" "inv s2" "waiting s2 = (waiting s1)(r := ws)" by blast
  moreover have "ws = tl (waiting s r @ [c])" using w s1(3) by simp
  ultimately show ?thesis using s1 by auto
qed

text \<open>Waking as many times as there are waiting threads empties the queue.\<close>

fun wakes :: "nat \<Rightarrow> u32 \<Rightarrow> 's \<Rightarrow> 's kresult" where
  "wakes 0 r s = Inr s"
| "wakes (Suc n) r s = rbind (wake r s) (wakes n r)"

lemma wakes_drop:
  "inv s \<Longrightarrow> r \<noteq> 0 \<Longrightarrow> \<exists>s'. wakes n r s = Inr s' \<and> inv s' \<and> waiting s' = (waiting s)(r := drop n (waiting s r))"
proof (induction n arbitrary: s)
  case 0
  then show ?case by simp
next
  case (Suc n)
  show ?case
  proof (cases "waiting s r")
    case Nil
    with Suc.IH [OF Suc.prems] wake_none [OF Suc.prems] show ?thesis by simp
  next
    case (Cons w ws)
    from wake_some [OF Suc.prems Cons] obtain s1 where
      s1: "wake r s = Inr s1" "inv s1" "waiting s1 = (waiting s)(r := ws)" by blast
    from Suc.IH [OF s1(2) Suc.prems(2)] s1 Cons show ?thesis by (auto simp: fun_eq_iff)
  qed
qed

end

section \<open>The queues of the kernel\<close>

text \<open>The chain of a hash value, by following the links, and the threads in it that wait for \<open>r\<close>.\<close>

fun walk :: "nat \<Rightarrow> kstate \<Rightarrow> int \<Rightarrow> int list" where
  "walk 0 s p = []"
| "walk (Suc n) s p = (if p > 0 then p # walk n s (nxt s p) else [])"

definition waiting :: "kstate \<Rightarrow> u32 \<Rightarrow> int list" where
  "waiting s r = filter (waits_for s r) (walk 32 s (sleepq_hashtable s ! nat (SLEEPQ_HASH r)))"

lemma walk_path: "path (nxt s) h ps (-1) \<Longrightarrow> tids 32 ps \<Longrightarrow> length ps \<le> n \<Longrightarrow> walk n s h = ps"
proof (induction ps arbitrary: n h)
  case Nil
  then show ?case by (cases n) auto
next
  case (Cons p ps)
  obtain m where "n = Suc m" using Cons.prems(3) by (cases n) auto
  with Cons.IH [of "nxt s p" m] Cons.prems show ?case by auto
qed

lemma waiting_eq:
  assumes "kview W s rs cs ss"
  shows "waiting s r = filter (waits_for s r) (cs (SLEEPQ_HASH r))"
proof -
  note q = hq_facts [OF kcoreD(2) [OF kviewD(1) [OF assms]], of "SLEEPQ_HASH r", simplified]
  have "length (cs (SLEEPQ_HASH r)) \<le> 32" using tids_length [OF q(1)] by auto
  with walk_path [OF q(2,1)] q show ?thesis by (simp add: waiting_def)
qed

lemma in_waiting:
  assumes k: "kview W s rs cs ss"
  shows "p \<in> set (waiting s r) \<longleftrightarrow> 0 < p \<and> p < 32 \<and> sleeps_on (th s p) = r \<and> r \<noteq> 0"
proof -
  note d = kviewD [OF k]
  have "0 < p" "p < 32" if "p \<in> set (cs (SLEEPQ_HASH r))"
    using tids_range [OF hq_facts(1) [OF kcoreD(2) [OF d(1)]] that] by auto
  moreover have "p \<in> set (cs (SLEEPQ_HASH r)) \<and> sleeps_on (th s p) = r \<longleftrightarrow> sleeps_on (th s p) = r \<and> r \<noteq> 0"
    if "0 < p" "p < 32"
    using kcore_tok [OF d(1) that] by (auto simp: tok_def)
  ultimately show ?thesis by (auto simp: waiting_eq [OF k] waits_for_def)
qed

lemma filter_waits:
  assumes "\<And>p. p \<in> set ps \<Longrightarrow> 0 \<le> p \<Longrightarrow> p < 32 \<Longrightarrow> \<exists>v. th s' p = (th s p)\<lparr>t_next := v\<rparr>" "tids 32 ps"
  shows "filter (waits_for s' r) ps = filter (waits_for s r) ps"
proof (rule filter_cong)
  fix p assume p: "p \<in> set ps"
  then have "0 \<le> p" "p < 32" using tids_range [OF assms(2) p] by auto
  with assms(1) [OF p] show "waits_for s' r p = waits_for s r p" by (auto simp: waits_for_def)
qed simp

lemma chain_tids:
  assumes "kview W s rs cs ss"
  shows "tids 32 (cs (SLEEPQ_HASH r))"
  using hq_facts(1) [OF kcoreD(2) [OF kviewD(1) [OF assms]], of "SLEEPQ_HASH r"] by simp

lemma waiting_add:
  assumes k: "kview W s rs cs ss" and r: "running cpu s c" "res \<noteq> 0"
  shows "\<exists>s'. sleepq_add 0 cpu res s = Inr s' \<and> kinv s' \<and>
    waiting s' = (waiting s)(res := waiting s res @ [c])"
proof -
  let ?h = "SLEEPQ_HASH res"
  from sleepq_add_spec [OF k r, of 0] obtain s' where
    s': "sleepq_add 0 cpu res s = Inr s'" "kview W s' rs (cs(?h := cs ?h @ [c])) ss" "sleeps_on (th s' c) = res"
    and f: "\<And>p. 0 \<le> p \<Longrightarrow> p < 32 \<Longrightarrow> p \<noteq> c \<Longrightarrow> \<exists>v. th s' p = (th s p)\<lparr>t_next := v\<rparr>" by auto
  have c: "c \<notin> set (cs (SLEEPQ_HASH r'))" for r'
    using runningD(5) [OF k r(1)] by (auto simp: off_def)
  have same: "filter (waits_for s' r') (cs (SLEEPQ_HASH r')) = filter (waits_for s r') (cs (SLEEPQ_HASH r'))" for r'
    using c [of r'] by (intro filter_waits f chain_tids [OF k]) auto
  have "waiting s' r' = ((waiting s)(res := waiting s res @ [c])) r'" for r'
    using same [of r'] s'(3) c by (auto simp: waiting_eq [OF s'(2)] waiting_eq [OF k] waits_for_def)
  with s' show ?thesis by (auto intro: kview_kinv)
qed

lemma runs_kept:
  assumes k: "kview W s rs cs ss" and r: "running cpu s c"
    and s': "scheduler_current_thread s' = scheduler_current_thread s" "\<exists>v. th s' c = (th s c)\<lparr>t_next := v\<rparr>"
  shows "running cpu s' c"
  using r s' by (auto simp: running_def)

lemma waiting_wake:
  assumes k: "kview W s rs cs ss" and r: "res \<noteq> 0" and w: "waiting s res = w # ws"
  shows "\<exists>s'. sleepq_wake res s = Inr s' \<and> kinv s' \<and> waiting s' = (waiting s)(res := ws) \<and>
    (\<forall>cpu c. running cpu s c \<longrightarrow> running cpu s' c)"
proof -
  let ?h = "SLEEPQ_HASH res" and ?n = "\<lambda>p. \<not> waits_for s res p"
  have "\<exists>p \<in> set (cs ?h). waits_for s res p" using w filter_empty_conv [of "waits_for s res" "cs ?h"] by (auto simp: waiting_eq [OF k])
  then obtain w' bs where d: "dropWhile ?n (cs ?h) = w' # bs" by (cases "dropWhile ?n (cs ?h)") auto
  then have c: "cs ?h = takeWhile ?n (cs ?h) @ w' # bs" using takeWhile_dropWhile_id [of ?n "cs ?h"] by simp
  have w': "waits_for s res w'" using d by (metis hd_dropWhile list.distinct(1) list.sel(1))
  have none: "filter (waits_for s res) (takeWhile ?n (cs ?h)) = []"
    by (auto simp: filter_empty_conv dest: set_takeWhileD)
  have "waiting s res = w' # filter (waits_for s res) bs"
    unfolding waiting_eq [OF k] by (subst c) (simp add: none w')
  with w have eq: "w' = w" "ws = filter (waits_for s res) bs" by auto
  let ?cs = "cs(?h := takeWhile ?n (cs ?h) @ bs)"
  from sleepq_wake_spec [OF k, of res] d eq obtain s' where s': "sleepq_wake res s = Inr s'"
    "scheduler_current_thread s' = scheduler_current_thread s" "kview W s' (woken_ready s w rs) ?cs ss"
    and f: "\<And>p. 0 \<le> p \<Longrightarrow> p < 32 \<Longrightarrow> p \<noteq> w \<Longrightarrow> \<exists>v. th s' p = (th s p)\<lparr>t_next := v\<rparr>" by auto
  have nw: "w \<notin> set (?cs (SLEEPQ_HASH r'))" for r'
  proof -
    have "w \<in> set (cs ?h)" using c eq by (metis in_set_conv_decomp)
    then have w32: "0 < w" "w < 32" using tids_range [OF chain_tids [OF k]] by auto
    have "w \<notin> set (takeWhile ?n (cs ?h) @ bs)"
      using chain_tids [OF k, of res] c eq(1) by (metis Un_iff disjoint_iff list.set_intros(1) set_append tids_append tids_simps(2))
    moreover have "w \<notin> set (cs (SLEEPQ_HASH r'))" if "SLEEPQ_HASH r' \<noteq> ?h"
      using kcore_disjoint [OF kviewD(1) [OF k] _ _ _ _ \<open>w \<in> set (cs ?h)\<close>] that by simp
    ultimately show ?thesis by auto
  qed
  have same: "filter (waits_for s' r') (?cs (SLEEPQ_HASH r')) = filter (waits_for s r') (?cs (SLEEPQ_HASH r'))" for r'
    using nw [of r'] by (intro filter_waits f chain_tids [OF s'(3)]) auto
  have "waiting s' r' = ((waiting s)(res := ws)) r'" for r'
  proof (cases "SLEEPQ_HASH r' = ?h")
    case True
    have "waiting s' r' = filter (waits_for s r') (takeWhile ?n (cs ?h)) @ filter (waits_for s r') bs"
      using same [of r'] True by (simp add: waiting_eq [OF s'(3)])
    moreover have "waiting s r' = filter (waits_for s r') (takeWhile ?n (cs ?h)) @ filter (waits_for s r') (w # bs)"
      using arg_cong [OF c, of "filter (waits_for s r')"] True eq(1)
      unfolding waiting_eq [OF k] by (simp only: filter_append)
    moreover have "waits_for s r' w \<longleftrightarrow> r' = res" using w' eq(1) by (auto simp: waits_for_def)
    ultimately show ?thesis using none eq(2) by auto
  next
    case False
    with same [of r'] show ?thesis by (auto simp: waiting_eq [OF s'(3)] waiting_eq [OF k])
  qed
  moreover have "running cpu s' c" if r: "running cpu s c" for cpu c
  proof -
    have "c \<noteq> w" using runningD(8) [OF k r] w' eq(1) \<open>res \<noteq> 0\<close> by (auto simp: waits_for_def)
    with f [of c] runningD(1,2) [OF k r] show ?thesis by (intro runs_kept [OF k r s'(2)]) simp
  qed
  ultimately show ?thesis using s' by (auto intro: kview_kinv)
qed


lemma waiting_wake_all:
  assumes k: "kview W s rs cs ss" and r: "res \<noteq> 0"
  shows "\<exists>s'. sleepq_wake_all res s = Inr s' \<and> kinv s' \<and> waiting s' = (waiting s)(res := []) \<and>
    (\<forall>cpu c. running cpu s c \<longrightarrow> running cpu s' c)"
proof -
  let ?h = "SLEEPQ_HASH res"
  let ?cs = "cs(?h := filter (\<lambda>p. \<not> waits_for s res p) (cs ?h))"
  from sleepq_wake_all_spec [OF k, of res] obtain s' rs' where s': "sleepq_wake_all res s = Inr s'"
    "scheduler_current_thread s' = scheduler_current_thread s" "kview W s' rs' ?cs ss"
    and f: "\<And>p. 0 \<le> p \<Longrightarrow> p < 32 \<Longrightarrow> \<not> waits_for s res p \<Longrightarrow> \<exists>v. th s' p = (th s p)\<lparr>t_next := v\<rparr>" by blast
  have other: "\<not> waits_for s res p" if "p \<in> set (?cs (SLEEPQ_HASH r'))" for p r'
  proof (cases "SLEEPQ_HASH r' = ?h")
    case False
    with that have p: "p \<in> set (cs (SLEEPQ_HASH r'))" by simp
    then have "p \<notin> set (waiting s res)"
      using kcore_disjoint [OF kviewD(1) [OF k] _ _ _ _ p, of ?h] False by (auto simp: waiting_eq [OF k])
    then show ?thesis
      using in_waiting [OF k, of p res] tids_range [OF chain_tids [OF k] p] r by (auto simp: waits_for_def)
  qed (use that in auto)
  have same: "filter (waits_for s' r') (?cs (SLEEPQ_HASH r')) = filter (waits_for s r') (?cs (SLEEPQ_HASH r'))" for r'
  proof (rule filter_waits [OF _ chain_tids [OF s'(3)]])
    show "\<exists>v. th s' p = (th s p)\<lparr>t_next := v\<rparr>" if p: "p \<in> set (?cs (SLEEPQ_HASH r'))" "0 \<le> p" "p < 32" for p
      using f [OF p(2,3) other [OF p(1)]] .
  qed
  have "waiting s' r' = ((waiting s)(res := [])) r'" for r'
  proof (cases "r' = res")
    case True
    then show ?thesis using same [of r'] by (simp add: waiting_eq [OF s'(3)])
  next
    case False
    then have "filter (waits_for s r') (filter (\<lambda>p. \<not> waits_for s res p) (cs ?h)) = filter (waits_for s r') (cs ?h)"
      unfolding filter_filter by (intro filter_cong) (auto simp: waits_for_def)
    with False same [of r'] show ?thesis
      by (cases "SLEEPQ_HASH r' = ?h") (simp_all add: waiting_eq [OF s'(3)] waiting_eq [OF k])
  qed
  moreover have "running cpu s' c" if c: "running cpu s c" for cpu c
  proof -
    have "\<not> waits_for s res c" using runningD(8) [OF k c] r by (auto simp: waits_for_def)
    with f [of c] runningD(1,2) [OF k c] show ?thesis by (intro runs_kept [OF k c s'(2)]) simp
  qed
  ultimately show ?thesis using s' by (auto intro: kview_kinv)
qed

interpretation sq: sleep_queue kinv waiting running "sleepq_add 0" sleepq_wake sleepq_wake_all
proof (unfold_locales, goal_cases)
  case (1 s cpu c r)
  then show ?case using waiting_add by (auto simp: kinv_def)
next
  case (2 s r)
  from 2(1) obtain rs cs ss where k: "kview UNIV s rs cs ss" by (auto simp: kinv_def)
  have "dropWhile (\<lambda>p. \<not> waits_for s r p) (cs (SLEEPQ_HASH r)) = []"
    using 2(3) by (auto simp: waiting_eq [OF k] filter_empty_conv)
  with sleepq_wake_spec [OF k, of r] show ?case by auto
next
  case (3 s r w ws)
  then show ?case using waiting_wake by (auto simp: kinv_def)
next
  case (4 s r)
  then show ?case using waiting_wake_all by (auto simp: kinv_def)
next
  case (5 s cpu c r)
  from 5(1) obtain rs cs ss where k: "kview UNIV s rs cs ss" by (auto simp: kinv_def)
  with in_waiting [OF k] runningD(8) [OF k 5(2)] show ?case by auto
next
  case (6 s r)
  then obtain rs cs ss where k: "kview UNIV s rs cs ss" by (auto simp: kinv_def)
  show ?case using chain_tids [OF k, of r] by (simp add: waiting_eq [OF k] tids_def)
next
  case (7 s t r r')
  then obtain rs cs ss where k: "kview UNIV s rs cs ss" by (auto simp: kinv_def)
  from 7(2,3) show ?case by (simp add: in_waiting [OF k])
qed

text \<open>The idle thread never waits, so at most 31 threads do.\<close>

lemma waiting_short:
  assumes "kinv s"
  shows "length (waiting s r) < 32"
proof -
  from assms obtain rs cs ss where k: "kview UNIV s rs cs ss" by (auto simp: kinv_def)
  have "length (cs (SLEEPQ_HASH r)) < 32" using tids_length [OF chain_tids [OF k, of r]] by auto
  then show ?thesis
    using length_filter_le [of "waits_for s r" "cs (SLEEPQ_HASH r)"] unfolding waiting_eq [OF k] by linarith
qed

end
