(* ===== verification/Thread_system.thy ===== *)
theory Thread_system
  imports Sleep_queue
begin

text \<open>
  The threads of the kernel as a system: creation of threads, the state after start-up, and the
  step relation in which the processors perform the operations of thread.c, scheduler.c and
  sleepq.c in any order. Every reachable state satisfies the invariant of \<open>Kthreads\<close>.
\<close>

section \<open>The two creation cursors\<close>

definition cursors :: "'a sched_scheme \<Rightarrow> int \<times> int" where
  "cursors s = (create_next s, create_prio_next s)"

definition cursors_ok :: "'a sched_scheme \<Rightarrow> bool" where
  "cursors_ok s \<longleftrightarrow> 0 \<le> create_next s \<and> create_next s < 32 \<and> 0 \<le> create_prio_next s \<and> create_prio_next s < 32"

lemma cursors_okI: "cursors s' = cursors s \<Longrightarrow> cursors_ok s \<Longrightarrow> cursors_ok s'"
  by (simp add: cursors_def cursors_ok_def)

lemma cursors_fields [simp]:
  "cursors (s\<lparr>ready_head := h\<rparr>) = cursors s" "cursors (s\<lparr>ready_tail := h\<rparr>) = cursors s"
  "cursors (s\<lparr>thread_next_sleeper_id := h\<rparr>) = cursors s" "cursors (s\<lparr>scheduler_current_thread := c\<rparr>) = cursors s"
  "cursors (s\<lparr>thread_table := T\<rparr>) = cursors s" "cursors (k\<lparr>sleepq_hashtable := H\<rparr>) = cursors k"
  by (simp_all add: cursors_def)

lemma set_thread_cursors: "set_thread t f s = Inr s' \<Longrightarrow> cursors s' = cursors s"
  by (auto simp: set_thread_def)

lemma add_list_cursors: "scheduler_add_to_ready_list t s = Inr s' \<Longrightarrow> cursors s' = cursors s"
  by (auto simp: scheduler_add_to_ready_list_def dest!: set_thread_cursors split: if_splits)

lemmas cursors_dest = set_thread_cursors add_list_cursors

lemma add_ready_cursors: "scheduler_add_ready t s = Inr s' \<Longrightarrow> cursors s' = cursors s"
  by (auto simp: scheduler_add_ready_def dest!: cursors_dest)

lemma wakeup_loop_cursors: "wakeup_loop n now s = Inr s' \<Longrightarrow> cursors s' = cursors s"
  by (induction n arbitrary: s) (fastforce dest!: cursors_dest split: if_splits)+

lemma schedule_cursors:
  assumes "scheduler_schedule now rnd cpu s = Inr (ticks, s')"
  shows "cursors s' = cursors s"
proof -
  have leave: "cursors s1 = cursors s" if "schedule_leave now c s = Inr s1" for c s1
    using that by (auto simp: schedule_leave_def scheduler_wakeup_expired_sleepers_def
        dest!: cursors_dest wakeup_loop_cursors split: if_splits)
  have "cursors s2 = cursors s1" if "scheduler_remove_first_ready s1 = Inr (t, s2)" for s1 s2 :: "'a sched_scheme" and t
    using that by (auto simp: scheduler_remove_first_ready_def split: if_splits)
  with assms leave show ?thesis by (fastforce simp: scheduler_schedule_def dest!: cursors_dest)
qed

lemma sleepq_cursors:
  "sleepq_add intr cpu r s = Inr s' \<Longrightarrow> cursors s' = cursors s"
  "sleepq_wake r s = Inr s' \<Longrightarrow> cursors s' = cursors s"
  "sleepq_wake_all r s = Inr s' \<Longrightarrow> cursors s' = cursors s"
proof -
  have un: "unchain h p f s = Inr s' \<Longrightarrow> cursors s' = cursors s" for h p f s s'
    by (auto simp: unchain_def dest!: cursors_dest split: if_splits)
  have mk: "make_ready f s = Inr s' \<Longrightarrow> cursors s' = cursors s" for f s s'
    by (auto simp: make_ready_def dest!: cursors_dest split: if_splits)
  show "sleepq_add intr cpu r s = Inr s' \<Longrightarrow> cursors s' = cursors s"
    by (auto simp: sleepq_add_def dest!: cursors_dest split: if_splits)
  show "sleepq_wake r s = Inr s' \<Longrightarrow> cursors s' = cursors s"
    by (auto simp: sleepq_wake_def dest!: un mk split: if_splits)
  have "wake_all_loop n r p f s = Inr s' \<Longrightarrow> cursors s' = cursors s" for n p f s s'
    by (induction n arbitrary: p f s) (fastforce dest!: un mk split: if_splits)+
  then show "sleepq_wake_all r s = Inr s' \<Longrightarrow> cursors s' = cursors s"
    by (auto simp: sleepq_wake_all_def)
qed

lemma thread_cursors:
  "thread_finish cpu s = Inr s' \<Longrightarrow> cursors s' = cursors s"
  "thread_sleep now cpu ms s = Inr s' \<Longrightarrow> cursors s' = cursors s"
  by (auto simp: thread_finish_def thread_sleep_def sleeper_insert_def dest!: cursors_dest
      split: if_splits prod.splits)

section \<open>Creating a thread\<close>

lemma find_free_from:
  assumes "table_ok s" "0 \<le> n" "0 \<le> i" "i \<le> 32"
  shows "\<exists>r. thread_find_free (thread_table s) n i = Inr r \<and>
    (case r of Some t \<Rightarrow> 0 < t \<and> t < 32 \<and> t_state (th s t) = THREAD_FREE
     | None \<Rightarrow> \<forall>j. i \<le> j \<and> j < 32 \<longrightarrow> (j + n) mod 32 = 0 \<or> t_state (th s ((j + n) mod 32)) \<noteq> THREAD_FREE)"
  using assms
proof (induction "nat (32 - i)" arbitrary: i)
  case 0
  then have "i = 32" by simp
  then show ?case by (subst thread_find_free.simps) auto
next
  case (Suc d)
  let ?t = "(i + n) mod 32"
  have i: "i < 32" using Suc.hyps(2) by simp
  have rec: "\<exists>r. thread_find_free (thread_table s) n (i + 1) = Inr r \<and>
    (case r of Some t \<Rightarrow> 0 < t \<and> t < 32 \<and> t_state (th s t) = THREAD_FREE
     | None \<Rightarrow> \<forall>j. i + 1 \<le> j \<and> j < 32 \<longrightarrow> (j + n) mod 32 = 0 \<or> t_state (th s ((j + n) mod 32)) \<noteq> THREAD_FREE)"
    using Suc.hyps(2) Suc.prems i by (intro Suc.hyps(1)) auto
  have t: "0 \<le> ?t" "?t < 32" by simp_all
  have rdt: "rd (thread_table s) ?t = Inr (th s ?t)" using t Suc.prems(1) by (simp add: th_def)
  show ?case
  proof (cases "?t \<noteq> 0 \<and> t_state (th s ?t) = THREAD_FREE")
    case True
    then have "thread_find_free (thread_table s) n i = Inr (Some ?t)"
      using i Suc.prems rdt by (subst thread_find_free.simps) simp
    with True t show ?thesis by (auto simp: order_le_less)
  next
    case False
    then have step: "thread_find_free (thread_table s) n i = thread_find_free (thread_table s) n (i + 1)"
      using i Suc.prems rdt by (subst thread_find_free.simps) auto
    have ext: "(\<forall>j. i \<le> j \<and> j < 32 \<longrightarrow> P j) \<longleftrightarrow> P i \<and> (\<forall>j. i + 1 \<le> j \<and> j < 32 \<longrightarrow> P j)" for P
      using i by (metis order_le_less zless_imp_add1_zle add1_zle_eq)
    from rec False show ?thesis unfolding step by (auto simp: ext split: option.splits)
  qed
qed

lemma find_free_spec:
  assumes "table_ok s" "0 \<le> n"
  shows "\<exists>r. thread_find_free (thread_table s) n 0 = Inr r \<and>
    (case r of Some t \<Rightarrow> 0 < t \<and> t < 32 \<and> t_state (th s t) = THREAD_FREE
     | None \<Rightarrow> \<forall>t. 0 < t \<and> t < 32 \<longrightarrow> t_state (th s t) \<noteq> THREAD_FREE)"
proof -
  from find_free_from [OF assms, of 0] obtain r where r: "thread_find_free (thread_table s) n 0 = Inr r"
    "case r of Some t \<Rightarrow> 0 < t \<and> t < 32 \<and> t_state (th s t) = THREAD_FREE
     | None \<Rightarrow> \<forall>j. 0 \<le> j \<and> j < 32 \<longrightarrow> (j + n) mod 32 = 0 \<or> t_state (th s ((j + n) mod 32)) \<noteq> THREAD_FREE"
    by auto
  have "t_state (th s t) \<noteq> THREAD_FREE" if "r = None" "0 < t" "t < 32" for t
  proof -
    have "((t - n) mod 32 + n) mod 32 = t" using that by (simp add: mod_simps)
    moreover have "0 \<le> (t - n) mod 32" "(t - n) mod 32 < 32" by simp_all
    moreover have "\<forall>j. 0 \<le> j \<and> j < 32 \<longrightarrow> (j + n) mod 32 = 0 \<or> t_state (th s ((j + n) mod 32)) \<noteq> THREAD_FREE"
      using r(2) that(1) by simp
    ultimately show ?thesis using that(2) by fastforce
  qed
  with r show ?thesis by (cases r) auto
qed

lemma new_thread_spec:
  assumes k: "kview W s rs cs ss" and t: "0 < t" "t < 32" "t_state (th s t) = THREAD_FREE"
    and s'_def: "s' = th_upd t (new_thread img t prio) s"
  shows "kview W (s'\<lparr>contexts := m, create_next := a\<rparr>) rs cs ss"
    "kview W (s'\<lparr>contexts := m, create_prio_next := a\<rparr>) rs cs ss"
    "t_state (th s' t) = THREAD_NONREADY" "t_priority (th s' t) = prio"
proof -
  note d = kviewD [OF k]
  note tk = kcore_tok [OF d(1) t(1,2)]
  have o: "off t rs cs ss" "sleeps_on (th s t) = 0" "wakeup_time (th s t) = 0" "t \<notin> set (scheduler_current_thread s)"
    using tk t(3) by (auto simp: tok_def off_def)
  have "kcore {t} (set (scheduler_current_thread s)) W s' rs cs ss"
    unfolding s'_def by (rule kcore_upd [OF kcore_mono [OF d(1)]]) (use t o in auto)
  moreover have "tok (set rs) (\<lambda>h. set (cs h)) (set ss) (set (scheduler_current_thread s)) W t (th s' t)"
    using o t d(5) by (simp add: s'_def new_thread_def tok_def off_def)
  ultimately have "kcore {} (set (scheduler_current_thread s)) W s' rs cs ss" by (rule kcore_add)
  moreover have "sq s' ss"
    using d(2,5) o t by (intro sq_same [OF d(2)]) (auto simp: s'_def sq_def off_def dest!: tids_range)
  moreover have "idle_ok (th s' 0)" using d(4,5) t by (simp add: s'_def)
  ultimately have "kview W s' rs cs ss" using d(3) by (simp add: kview_def s'_def)
  then show "kview W (s'\<lparr>contexts := m, create_next := a\<rparr>) rs cs ss"
    "kview W (s'\<lparr>contexts := m, create_prio_next := a\<rparr>) rs cs ss"
    by (simp_all add: kview_def sq_def)
  show "t_state (th s' t) = THREAD_NONREADY" "t_priority (th s' t) = prio"
    using t d(5) by (simp_all add: s'_def new_thread_def)
qed

lemma thread_create_spec:
  assumes k: "kview W s rs cs ss" and c: "cursors_ok s"
  shows "\<exists>t s'. thread_create img func arg s = Inr (t, s') \<and> kview W s' rs cs ss \<and> cursors_ok s' \<and>
    (if \<exists>p. 0 < p \<and> p < 32 \<and> t_state (th s p) = THREAD_FREE
     then 0 < t \<and> t < 32 \<and> t_state (th s t) = THREAD_FREE \<and> t_state (th s' t) = THREAD_NONREADY
     else t = -1 \<and> s' = s)"
proof -
  note d = kviewD [OF k]
  from find_free_spec [OF d(5), of "create_next s"] c obtain r where
    r: "thread_find_free (thread_table s) (create_next s) 0 = Inr r"
    "case r of Some t \<Rightarrow> 0 < t \<and> t < 32 \<and> t_state (th s t) = THREAD_FREE
     | None \<Rightarrow> \<forall>t. 0 < t \<and> t < 32 \<longrightarrow> t_state (th s t) \<noteq> THREAD_FREE" by (auto simp: cursors_ok_def)
  show ?thesis
  proof (cases r)
    case None
    with r k c show ?thesis by (auto simp: thread_create_def)
  next
    case (Some t)
    with r have t: "0 < t" "t < 32" "t_state (th s t) = THREAD_FREE" by auto
    define s1 where "s1 = th_upd t (new_thread img t THREAD_PRIORITY_NORMAL) s"
    define s' where "s' = s1\<lparr>contexts := (contexts s1)(stack_context img t := new_context img t func arg),
      create_next := (t + 1) smod 32\<rparr>"
    have "thread_create img func arg s = Inr (t, s')"
      using r Some t d(5) by (simp add: thread_create_def s'_def s1_def)
    moreover have "kview W s' rs cs ss" "t_state (th s' t) = THREAD_NONREADY"
      using new_thread_spec(1,3) [OF k t s1_def] by (auto simp: s'_def)
    moreover have "cursors_ok s'" using c t by (auto simp: cursors_ok_def s'_def s1_def)
    ultimately show ?thesis using t by auto
  qed
qed


lemma thread_create_with_priority_spec:
  assumes k: "kview W s rs cs ss" and c: "cursors_ok s" and p: "prio = THREAD_PRIORITY_HIGH \<or> prio = THREAD_PRIORITY_NORMAL"
  shows "\<exists>t s'. thread_create_with_priority img func arg prio s = Inr (t, s') \<and> kview W s' rs cs ss \<and> cursors_ok s' \<and>
    (if \<exists>p. 0 < p \<and> p < 32 \<and> t_state (th s p) = THREAD_FREE
     then 0 < t \<and> t < 32 \<and> t_state (th s t) = THREAD_FREE \<and> t_state (th s' t) = THREAD_NONREADY \<and>
       t_priority (th s' t) = prio
     else t = -1 \<and> s' = s)"
proof -
  note d = kviewD [OF k]
  from find_free_spec [OF d(5), of "create_prio_next s"] c obtain r where
    r: "thread_find_free (thread_table s) (create_prio_next s) 0 = Inr r"
    "case r of Some t \<Rightarrow> 0 < t \<and> t < 32 \<and> t_state (th s t) = THREAD_FREE
     | None \<Rightarrow> \<forall>t. 0 < t \<and> t < 32 \<longrightarrow> t_state (th s t) \<noteq> THREAD_FREE" by (auto simp: cursors_ok_def)
  show ?thesis
  proof (cases r)
    case None
    with r k c show ?thesis by (auto simp: thread_create_with_priority_def)
  next
    case (Some t)
    with r have t: "0 < t" "t < 32" "t_state (th s t) = THREAD_FREE" by auto
    define s1 where "s1 = th_upd t (new_thread img t prio) s"
    define s' where "s' = s1\<lparr>contexts := (contexts s1)(stack_context img t := new_context img t func arg),
      create_prio_next := (t + 1) smod 32\<rparr>"
    have "thread_create_with_priority img func arg prio s = Inr (t, s')"
      using r Some t d(5) p by (auto simp: thread_create_with_priority_def s'_def s1_def)
    moreover have "kview W s' rs cs ss" "t_state (th s' t) = THREAD_NONREADY" "t_priority (th s' t) = prio"
      using new_thread_spec(2-4) [OF k t s1_def] by (auto simp: s'_def)
    moreover have "cursors_ok s'" using c t by (auto simp: cursors_ok_def s'_def s1_def)
    ultimately show ?thesis using t by auto
  qed
qed

section \<open>Start-up\<close>

text \<open>
  The order of \<open>init/main.c\<close>: thread table, sleep queue, scheduler. The ready list starts empty by
  its initializer, and the two cursors at 0.
\<close>

definition boot_threads :: "image \<Rightarrow> kstate \<Rightarrow> kstate kresult" where
  "boot_threads img s = rbind (thread_table_init 64 img s) (\<lambda>s1. Inr (scheduler_init (sleepq_init s1)))"

lemma boot_threads_spec:
  assumes "ready_head s = -1" "ready_tail s = -1" "create_next s = 0" "create_prio_next s = 0"
  shows "\<exists>s'. boot_threads img s = Inr s' \<and> kview W s' [] (\<lambda>_. []) [] \<and> cursors_ok s'"
proof -
  let ?p = "stack_context img 0"
  define s0 where "s0 = s\<lparr>thread_next_sleeper_id := -1, thread_table := map (\<lambda>i. nil_thread img (int i)) [0..<32],
    contexts := (contexts s)(?p := (set_reg MIPS_REGISTER_SP
       (thread_stack_areas img + CONFIG_THREAD_STACKSIZE - 4 - sizeof_context_t) (contexts s ?p))\<lparr>
         pc := idle_thread_wait_loop img, ctx_status := INTERRUPT_MASK_ALL OR INTERRUPT_MASK_MASTER, prev_context := ?p\<rparr>)\<rparr>"
  define s1 where "s1 = th_upd 0 (\<lambda>e. e\<lparr>t_state := THREAD_READY\<rparr>) s0"
  let ?s = "scheduler_init (sleepq_init s1)"
  have ok: "table_ok s0" by (simp add: s0_def)
  have th0: "th s0 p = nil_thread img p" if "0 \<le> p" "p < 32" for p
    using that by (simp add: s0_def th_def)
  have th: "th ?s p = (if p = 0 then (nil_thread img p)\<lparr>t_state := THREAD_READY\<rparr> else nil_thread img p)"
    if "0 \<le> p" "p < 32" for p
    using that ok th0 by (simp add: scheduler_init_def sleepq_init_def s1_def)
  have "thread_table_init 64 img s = Inr s1"
    using ok by (simp add: thread_table_init_def s1_def s0_def)
  then have "boot_threads img s = Inr ?s" by (simp add: boot_threads_def)
  moreover have "kview W ?s [] (\<lambda>_. []) []"
    unfolding kview_def kcore_def
  proof (intro conjI allI impI)
    show "rq ?s []" using assms ok by (simp add: rq_def scheduler_init_def sleepq_init_def s1_def s0_def)
    show "hq ?s (\<lambda>_. [])" by (auto simp: hq_def scheduler_init_def sleepq_init_def SLEEPQ_HASHTABLE_SIZE_def nat_less_iff)
    show "sq ?s []" by (simp add: sq_def scheduler_init_def sleepq_init_def s1_def s0_def)
    show "cpus_ok (scheduler_current_thread ?s)" by (simp add: cpus_ok_def scheduler_init_def)
    show "idle_ok (th ?s 0)" using th [of 0] by (simp add: idle_ok_def nil_thread_def)
    fix p :: int assume "0 < p \<and> p < 32 \<and> p \<notin> {}"
    then show "tok (set []) (\<lambda>h. set []) (set []) (set (scheduler_current_thread ?s)) W p (th ?s p)"
      using th [of p] by (simp add: tok_def nil_thread_def scheduler_init_def)
  qed
  moreover have "cursors_ok ?s" using assms by (simp add: cursors_ok_def scheduler_init_def sleepq_init_def s1_def s0_def)
  ultimately show ?thesis by blast
qed


section \<open>The step relation\<close>

text \<open>
  One step of the kernel: a processor performs one operation. The guards are what the callers
  ensure: only the running thread of a processor blocks, sleeps or ends; a thread is started once,
  after it was created. Every step is one section under the spinlock of its component, as in the
  code: \<open>thread_sleep\<close> ends when it releases the thread table, and the switch that follows is a
  later \<open>schedule\<close> step, before which the other processors may act. The two guards of time are not
  enforced by the code. An idle processor reschedules only at times when no thread that is still running has a
  wake-up time that has passed (\<open>sleepers_away\<close>): the code wakes such a thread although it has not left its
  processor, and \<open>sleep_race\<close> below computes what then happens. The wake-up time that a
  thread computes is not 0, which the code takes for "none".
\<close>

inductive kstep :: "kstate \<Rightarrow> kstate \<Rightarrow> bool" where
  create: "thread_create img func arg s = Inr (t, s') \<Longrightarrow> kstep s s'"
| create_prio: "prio = THREAD_PRIORITY_HIGH \<or> prio = THREAD_PRIORITY_NORMAL \<Longrightarrow>
    thread_create_with_priority img func arg prio s = Inr (t, s') \<Longrightarrow> kstep s s'"
| start: "0 < t \<Longrightarrow> t < 32 \<Longrightarrow> t_state (th s t) = THREAD_NONREADY \<Longrightarrow> thread_run t s = Inr s' \<Longrightarrow> kstep s s'"
| block: "running cpu s c \<Longrightarrow> r \<noteq> 0 \<Longrightarrow> sleepq_add 0 cpu r s = Inr s' \<Longrightarrow> kstep s s'"
| wake: "sleepq_wake r s = Inr s' \<Longrightarrow> kstep s s'"
| wake_all: "sleepq_wake_all r s = Inr s' \<Longrightarrow> kstep s s'"
| finish: "running cpu s c \<Longrightarrow> t_pagetable (th s c) = 0 \<Longrightarrow> thread_finish cpu s = Inr s' \<Longrightarrow> kstep s s'"
| schedule: "0 \<le> cpu \<Longrightarrow> cpu < 4 \<Longrightarrow>
    scheduler_current_thread s ! nat cpu = IDLE_THREAD_TID \<longrightarrow> sleepers_away now s \<Longrightarrow>
    scheduler_schedule now rnd cpu s = Inr (ticks, s') \<Longrightarrow> kstep s s'"
| sleep: "running cpu s c \<Longrightarrow> now + ms \<noteq> 0 \<Longrightarrow> thread_sleep now cpu ms s = Inr s' \<Longrightarrow> kstep s s'"

inductive_cases kstepE: "kstep s s'"

inductive kreach :: "kstate \<Rightarrow> bool" where
  boot: "ready_head s = -1 \<Longrightarrow> ready_tail s = -1 \<Longrightarrow> create_next s = 0 \<Longrightarrow> create_prio_next s = 0 \<Longrightarrow>
    boot_threads img s = Inr s' \<Longrightarrow> kreach s'"
| step: "kreach s \<Longrightarrow> kstep s s' \<Longrightarrow> kreach s'"

lemma schedule_kinv:
  assumes k: "kview W s rs cs ss" and cpu: "0 \<le> cpu" "cpu < 4" 
    and away: "scheduler_current_thread s ! nat cpu = 0 \<Longrightarrow> sleepers_away now s"
    and r: "scheduler_schedule now rnd cpu s = Inr (ticks, s')"
  shows "kinv s'"
proof -
  obtain rs1 ss1 where "leave_lists now (scheduler_current_thread s ! nat cpu) s rs ss = (rs1, ss1)" by (rule prod.exhaust)
  from scheduler_schedule_spec [OF k cpu refl away this, of rnd] r show ?thesis by (auto intro: kview_kinv)
qed

lemma wake_kinv:
  assumes k: "kview W s rs cs ss" and r: "sleepq_wake r s = Inr s'"
  shows "kinv s'"
  using sleepq_wake_spec [OF k, of r] r k by (auto intro: kview_kinv split: list.splits)

lemma kstep_kinv:
  assumes "kstep s s'" "kinv s" "cursors_ok s"
  shows "kinv s' \<and> cursors_ok s'"
proof -
  from assms(2) obtain rs cs ss where k: "kview UNIV s rs cs ss" by (auto simp: kinv_def)
  from assms(1) show ?thesis
  proof cases
    case (create img func arg t)
    from thread_create_spec [OF k assms(3), of img func arg] create show ?thesis by (auto simp: kinv_def)
  next
    case (create_prio prio img func arg t)
    from thread_create_with_priority_spec [OF k assms(3) create_prio(1), of img func arg] create_prio(2)
    show ?thesis by (auto simp: kinv_def)
  next
    case (start t)
    from thread_run_spec [OF k start(1-3)] start(4) have "kinv s'" by (auto simp: kinv_def)
    with start(4) assms(3) show ?thesis
      by (auto simp: thread_run_def dest!: add_ready_cursors intro: cursors_okI)
  next
    case (block cpu c r)
    from waiting_add [OF k block(1,2)] block(3) show ?thesis
      using sleepq_cursors(1) [OF block(3)] assms(3) by (auto intro: cursors_okI)
  next
    case (wake r)
    from wake_kinv [OF k wake] sleepq_cursors(2) [OF wake] assms(3) show ?thesis by (auto intro: cursors_okI)
  next
    case (wake_all r)
    from sleepq_wake_all_spec [OF k, of r] wake_all have "kinv s'" by (auto simp: kinv_def)
    with sleepq_cursors(3) [OF wake_all] assms(3) show ?thesis by (auto intro: cursors_okI)
  next
    case (finish cpu c)
    from thread_finish_spec [OF k finish(1,2)] finish(3) have "kinv s'" by (auto simp: kinv_def)
    with thread_cursors(1) [OF finish(3)] assms(3) show ?thesis by (auto intro: cursors_okI)
  next
    case (schedule cpu now rnd ticks)
    from schedule_kinv [OF k schedule(1,2) _ schedule(4)] schedule(3) schedule_cursors [OF schedule(4)] assms(3)
    show ?thesis by (auto intro: cursors_okI)
  next
    case (sleep cpu c now ms)
    from thread_sleep_spec [OF k sleep(1,2)] sleep(3) have "kinv s'" by (auto intro: kview_kinv)
    with thread_cursors(2) [OF sleep(3)] assms(3) show ?thesis by (auto intro: cursors_okI)
  qed
qed

lemma kreach_kinv: "kreach s \<Longrightarrow> kinv s \<and> cursors_ok s"
proof (induction rule: kreach.induct)
  case (boot s img s')
  from boot_threads_spec [OF boot(1-4), of img] boot(5) show ?case by (auto simp: kinv_def)
next
  case (step s s')
  then show ?case using kstep_kinv by blast
qed

section \<open>Properties\<close>

text \<open>A memory image, the state before start-up, and the state after a first thread was started.\<close>

definition img0 :: image where
  "img0 = \<lparr>thread_stack_areas = 0x80020000, idle_thread_wait_loop = 0x80011000,
     thread_finish_addr = 0x80012000\<rparr>"

definition ctx0 :: context_t where
  "ctx0 = \<lparr>cpu_regs = replicate 29 0, reg_hi = 0, reg_lo = 0, pc = 0, ctx_status = 0, prev_context = 0\<rparr>"

definition ks0 :: kstate where
  "ks0 = \<lparr>thread_table = [], thread_next_sleeper_id = 0, scheduler_current_thread = [], ready_head = -1,
     ready_tail = -1, contexts = (\<lambda>_. ctx0), create_next = 0, create_prio_next = 0, sleepq_hashtable = []\<rparr>"

definition first_thread :: "kstate kresult" where
  "first_thread = rbind (boot_threads img0 ks0) (\<lambda>s. rbind (thread_create img0 0x80013000 0 s) (\<lambda>(t, s1).
     rbind (thread_run t s1) (\<lambda>s2. rbind (scheduler_schedule 0 0 0 s2) (\<lambda>(_, s3). Inr s3))))"

text \<open>What the witnesses read off that state; computing it runs start-up and the scheduler.\<close>

lemma first_thread_run:
  "rbind (boot_threads img0 ks0) (\<lambda>s. rbind (thread_create img0 0x80013000 0 s) (\<lambda>(t, s1).
     Inr (t, t_state (th s1 t)))) = Inr (1, THREAD_NONREADY)"
  "rbind first_thread (\<lambda>s. Inr (scheduler_current_thread s, t_state (th s 1), sleeps_on (th s 1), t_pagetable (th s 1),
     waiting s 0x100, waiting s 0x180, t_priority (th s 1), wakeup_time (th s 1))) =
     Inr ([1, 0, 0, 0], THREAD_RUNNING, 0, 0, [], [], 1, 0)"
  by code_simp+

lemma first_thread_awake:
  "rbind first_thread (\<lambda>s. Inr (list_all (\<lambda>p. sleeps_on (th s p) = 0) [1..31])) = Inr True"
  by code_simp

lemma first_thread_reach:
  obtains s where "first_thread = Inr s" "kreach s" "running 0 s 1" "t_pagetable (th s 1) = 0"
    "waiting s 0x100 = []" "scheduler_current_thread s = [1, 0, 0, 0]"
proof -
  from first_thread_run(2) obtain s where s: "first_thread = Inr s"
    "scheduler_current_thread s = [1, 0, 0, 0]" "t_state (th s 1) = THREAD_RUNNING" "sleeps_on (th s 1) = 0"
    "t_pagetable (th s 1) = 0" "waiting s 0x100 = []" "wakeup_time (th s 1) = 0"
    by (auto simp: rbind_eq_Inr)
  from s(1) obtain b t s1 s2 k where
    b: "boot_threads img0 ks0 = Inr b" "thread_create img0 0x80013000 0 b = Inr (t, s1)"
      "thread_run t s1 = Inr s2" "scheduler_schedule 0 0 0 s2 = Inr (k, s)"
    by (auto simp: first_thread_def)
  have "kreach b" by (rule kreach.boot [OF _ _ _ _ b(1)]) (simp_all add: ks0_def)
  then have "kreach s1" by (rule kreach.step) (rule kstep.create [OF b(2)])
  moreover have "t = 1" "t_state (th s1 t) = THREAD_NONREADY" using first_thread_run(1) b(1,2) by auto
  then have "kstep s1 s2" using b(3) by (intro kstep.start [of t]) simp_all
  ultimately have "kreach s2" by (rule kreach.step)
  then have "kreach s" by (rule kreach.step) (rule kstep.schedule [OF _ _ _ b(4)], simp_all)
  with s that show thesis by (simp add: running_def)
qed

text \<open>The first thread, after it has gone through \<open>thread_sleep\<close> and before its processor switches.\<close>

definition sleepy_thread :: "kstate kresult" where
  "sleepy_thread = rbind first_thread (thread_sleep 1 0 1)"

lemma sleepy_thread_run:
  "rbind sleepy_thread (\<lambda>s. Inr (t_state (th s 1), wakeup_time (th s 1), sleepers_away 2 s,
     scheduler_current_thread s)) = Inr (THREAD_RUNNING, 2, True, [1, 0, 0, 0])"
  by code_simp

lemma sleepy_thread_reach:
  obtains s where "sleepy_thread = Inr s" "kreach s" "t_state (th s 1) = THREAD_RUNNING" "wakeup_time (th s 1) = 2"
    "sleepers_away 2 s" "scheduler_current_thread s = [1, 0, 0, 0]"
proof -
  obtain s0 where s0: "first_thread = Inr s0" "kreach s0" "running 0 s0 1" by (rule first_thread_reach)
  from sleepy_thread_run obtain s where s: "sleepy_thread = Inr s" "t_state (th s 1) = THREAD_RUNNING"
    "wakeup_time (th s 1) = 2" "sleepers_away 2 s" "scheduler_current_thread s = [1, 0, 0, 0]"
    by (auto simp: rbind_eq_Inr)
  then have "thread_sleep 1 0 1 s0 = Inr s" by (auto simp: sleepy_thread_def s0(1))
  then have "kstep s0 s" by (rule kstep.sleep [OF s0(3), rotated]) simp
  with s0(2) have "kreach s" by (rule kreach.step)
  with s that show thesis by blast
qed

text \<open>
  Property C1: in every state that the kernel's threads can reach, the ready list holds exactly the
  ready threads, each once; every sleeping thread is in the sleep queue of the resource it
  waits for or has a wake-up time, so that it can be woken; and no thread but the idle thread
  runs on two processors. Reachable means by the steps above, under their guard on time: no idle
  processor reschedules while a thread whose wake-up time has passed has not yet left its
  processor. The code does not enforce that guard.
\<close>

theorem threads_consistent:
  assumes "kreach s"
  shows "(\<exists>rs. rq s rs \<and> (\<forall>p. 0 < p \<and> p < 32 \<longrightarrow> (p \<in> set rs \<longleftrightarrow> t_state (th s p) = THREAD_READY))) \<and>
    (\<forall>p. 0 < p \<and> p < 32 \<and> t_state (th s p) = THREAD_SLEEPING \<longrightarrow>
       p \<in> set (waiting s (sleeps_on (th s p))) \<or> wakeup_time (th s p) \<noteq> 0) \<and>
    (\<forall>i j. i < 4 \<longrightarrow> j < 4 \<longrightarrow> scheduler_current_thread s ! i = scheduler_current_thread s ! j \<longrightarrow>
       i = j \<or> scheduler_current_thread s ! i = IDLE_THREAD_TID)"
proof -
  from kreach_kinv [OF assms] obtain rs cs ss where k: "kview UNIV s rs cs ss" by (auto simp: kinv_def)
  note d = kviewD [OF k]
  have "p \<in> set rs \<longleftrightarrow> t_state (th s p) = THREAD_READY"
    "t_state (th s p) = THREAD_SLEEPING \<Longrightarrow> sleeps_on (th s p) \<noteq> 0 \<or> wakeup_time (th s p) \<noteq> 0" if "0 < p" "p < 32" for p
    using kcore_tok [OF d(1) that] by (auto simp: tok_def)
  with kcoreD(1) [OF d(1)] d(3) show ?thesis
    unfolding in_waiting [OF k] by (auto simp: cpus_ok_def)
qed

theorem threads_consistent_witness:
  "\<exists>s rs. sleepy_thread = Inr s \<and> kreach s \<and> wakeup_time (th s 1) = 2 \<and> t_state (th s 1) = THREAD_RUNNING \<and>
     rq s rs \<and> 1 \<notin> set rs"
proof -
  obtain s where s: "sleepy_thread = Inr s" "kreach s" "t_state (th s 1) = THREAD_RUNNING" "wakeup_time (th s 1) = 2"
    by (rule sleepy_thread_reach)
  from threads_consistent [OF s(2)] obtain rs where
    "rq s rs" "\<forall>p. 0 < p \<and> p < 32 \<longrightarrow> (p \<in> set rs \<longleftrightarrow> t_state (th s p) = THREAD_READY)" by blast
  with s show ?thesis by (intro exI [of _ s] exI [of _ rs]) simp
qed

text \<open>
  Property C13: no operation of the thread system fails in a reachable state: scheduling a
  processor, waking, blocking, sleeping, ending, creating and starting threads all return, so none of their
  assertions fails, no index leaves its table and none of their loops runs for ever. As in the
  steps, an idle processor is rescheduled when no thread that still runs has a wake-up time
  that has passed, which the code does not enforce, and a wake-up time is not 0.
\<close>

theorem thread_operations_total:
  assumes "kreach s" "0 \<le> cpu" "cpu < 4"
  shows "((scheduler_current_thread s ! nat cpu = IDLE_THREAD_TID \<longrightarrow> sleepers_away now s) \<longrightarrow>
      (\<exists>ticks s'. scheduler_schedule now rnd cpu s = Inr (ticks, s'))) \<and>
    (\<exists>s'. sleepq_wake r s = Inr s') \<and> (\<exists>s'. sleepq_wake_all r s = Inr s') \<and>
    (\<exists>t s'. thread_create img func arg s = Inr (t, s')) \<and>
    (\<forall>t. 0 < t \<and> t < 32 \<and> t_state (th s t) = THREAD_NONREADY \<longrightarrow> (\<exists>s'. thread_run t s = Inr s')) \<and>
    (\<forall>c. running cpu s c \<longrightarrow> (r \<noteq> 0 \<longrightarrow> (\<exists>s'. sleepq_add 0 cpu r s = Inr s')) \<and>
       (now + ms \<noteq> 0 \<longrightarrow> (\<exists>s'. thread_sleep now cpu ms s = Inr s')) \<and>
       (t_pagetable (th s c) = 0 \<longrightarrow> (\<exists>s'. thread_finish cpu s = Inr s')))"
proof -
  from kreach_kinv [OF assms(1)] obtain rs cs ss where k: "kview UNIV s rs cs ss" and c: "cursors_ok s"
    by (auto simp: kinv_def)
  obtain rs1 ss1 where "leave_lists now (scheduler_current_thread s ! nat cpu) s rs ss = (rs1, ss1)" by (rule prod.exhaust)
  note sched = scheduler_schedule_spec [OF k assms(2,3) refl _ this, of rnd]
  have "\<exists>ticks s'. scheduler_schedule now rnd cpu s = Inr (ticks, s')"
    if "scheduler_current_thread s ! nat cpu = IDLE_THREAD_TID \<longrightarrow> sleepers_away now s"
    using sched that by auto
  moreover have "\<exists>s'. sleepq_wake r s = Inr s'" "\<exists>s'. sleepq_wake_all r s = Inr s'"
    "\<exists>t s'. thread_create img func arg s = Inr (t, s')"
    using sleepq_wake_spec [OF k, of r] sleepq_wake_all_spec [OF k, of r] thread_create_spec [OF k c, of img func arg]
    by blast+
  moreover have "\<exists>s'. thread_run t s = Inr s'" if "0 < t" "t < 32" "t_state (th s t) = THREAD_NONREADY" for t
    using thread_run_spec [OF k that] by blast
  moreover have "\<exists>s'. sleepq_add 0 cpu r s = Inr s'" if "running cpu s c" "r \<noteq> 0" for c
    using sleepq_add_spec [OF k that, of 0] by auto
  moreover have "\<exists>s'. thread_sleep now cpu ms s = Inr s'" if "running cpu s c" "now + ms \<noteq> 0" for c
    using thread_sleep_spec [OF k that] by blast
  moreover have "\<exists>s'. thread_finish cpu s = Inr s'" if "running cpu s c" "t_pagetable (th s c) = 0" for c
    using thread_finish_spec [OF k that] by blast
  ultimately show ?thesis by blast
qed

theorem thread_operations_total_witness:
  "\<exists>s ticks s' s0 s1. sleepy_thread = Inr s \<and> wakeup_time (th s 1) = 2 \<and> sleepers_away 2 s \<and>
     scheduler_schedule 2 0 1 s = Inr (ticks, s') \<and>
     first_thread = Inr s0 \<and> running 0 s0 1 \<and> sleepq_add 0 0 0x100 s0 = Inr s1"
proof -
  obtain s where s: "sleepy_thread = Inr s" "kreach s" "wakeup_time (th s 1) = 2" "sleepers_away 2 s"
    by (rule sleepy_thread_reach)
  obtain s0 where s0: "first_thread = Inr s0" "kreach s0" "running 0 s0 1" by (rule first_thread_reach)
  from thread_operations_total [OF s(2), of 1 2 0 0 img0 0 0 0] s(4) obtain ticks s' where
    "scheduler_schedule 2 0 1 s = Inr (ticks, s')" by auto
  moreover from thread_operations_total [OF s0(2), of 0 0 0 "0x100" img0 0 0 0] s0(3) obtain s1 where
    "sleepq_add 0 0 0x100 s0 = Inr s1" by auto
  ultimately show ?thesis using s s0 by blast
qed

text \<open>
  Property C9: rescheduling a processor does to the abstract lists what \<open>leave_lists\<close> and
  \<open>next_thread\<close> say. A thread that still wants to run is queued by its priority and one that is
  blocked, asleep or dying is not; the idle thread instead wakes the timed sleepers whose time
  has passed, earliest first; then the head of the ready list runs, or the idle thread if there is
  none. \<open>W\<close> bounds the running threads that have entered the list of sleepers and not yet left
  their processor; when there is one and the processor is idle, its time must not have passed.
\<close>

theorem scheduler_schedule_refines:
  assumes "kview W s rs cs ss" "0 \<le> cpu" "cpu < 4"
    and "scheduler_current_thread s ! nat cpu = IDLE_THREAD_TID \<longrightarrow> W = {} \<or> sleepers_away now s"
    and "leave_lists now (scheduler_current_thread s ! nat cpu) s rs ss = (rs1, ss1)"
  shows "\<exists>s'. scheduler_schedule now rnd cpu s = Inr (rnd + 375, s') \<and>
    kview (W - {scheduler_current_thread s ! nat cpu}) s' (tl rs1) cs ss1 \<and>
    scheduler_current_thread s' = (scheduler_current_thread s)[nat cpu := next_thread rs1]"
  using scheduler_schedule_spec [OF assms(1-3) refl _ assms(5)] assms(1,4) kview_away by auto

theorem scheduler_schedule_refines_witness:
  "\<exists>s s'. first_thread = Inr s \<and> kreach s \<and> scheduler_schedule 7 0 0 s = Inr (375, s') \<and>
     scheduler_current_thread s' ! 0 \<noteq> 0"
proof -
  obtain s where s: "first_thread = Inr s" "kreach s" "running 0 s 1" "scheduler_current_thread s = [1, 0, 0, 0]"
    by (rule first_thread_reach)
  from kreach_kinv [OF s(2)] obtain rs cs ss where k: "kview UNIV s rs cs ss" by (auto simp: kinv_def)
  have run: "sleeps_on (th s 1) = 0" "wakeup_time (th s 1) = 0" "t_state (th s 1) = THREAD_RUNNING" and
    rs: "tids 32 rs" using runningD [OF k s(3)] kcoreD(1) [OF kviewD(1) [OF k]] by (auto simp: rq_def)
  have "leave_lists 7 1 s rs ss = (enq (high s) 1 rs, ss)" using run by (simp add: leave_lists_def)
  with scheduler_schedule_refines [OF k, of 0 7 _ _ 0] s(4) obtain s' where
    s': "scheduler_schedule 7 0 0 s = Inr (375, s')" "scheduler_current_thread s' = [next_thread (enq (high s) 1 rs), 0, 0, 0]"
    by auto
  have "next_thread (enq (high s) 1 rs) \<in> set (enq (high s) 1 rs)"
    by (cases "enq (high s) 1 rs") (auto simp: next_thread_def, simp add: enq_def split: if_splits)
  then have "next_thread (enq (high s) 1 rs) \<noteq> 0" using rs by (auto simp: tids_def)
  with s s' show ?thesis by auto
qed

text \<open>
  \<open>scheduler_add_to_ready_list\<close> links a thread into the ready list by priority: a
  high-priority thread behind the high-priority threads at the front and before all others, a
  normal one at the end. It changes no field of any thread but \<open>next\<close>, and no link of a thread
  outside the ready list.
\<close>

theorem ready_list_priority:
  assumes "rq s rs" "0 < t" "t < 32" "t \<notin> set rs"
  shows "\<exists>s'. scheduler_add_to_ready_list t s = Inr s' \<and>
    rq s' (if high s t then takeWhile (high s) rs @ t # dropWhile (high s) rs else rs @ [t]) \<and>
    relinked (insert t (set rs)) s s'"
  using add_to_ready_list_spec [OF assms] unfolding enq_def .

theorem ready_list_priority_witness:
  "\<exists>(s :: kstate) s'. rq s [] \<and> scheduler_add_to_ready_list 3 s = Inr s' \<and> rq s' [3]"
proof -
  obtain s where "boot_threads img0 ks0 = Inr s" "kview W s [] (\<lambda>_. []) []"
    using boot_threads_spec [of ks0 img0] by (auto simp: ks0_def)
  then have "rq s []" by (auto simp: kview_def kcore_def)
  with ready_list_priority [of s "[]" 3] show ?thesis by (auto split: if_splits)
qed

text \<open>
  Property C10: the sleep queue is a first-in first-out queue for every resource. \<open>sleepq_add\<close>
  appends the running thread to the queue of the resource, \<open>sleepq_wake\<close> removes the thread that
  has waited longest and \<open>sleepq_wake_all\<close> all of them; the queues of other resources do not
  change, also those in the same chain of the hash table.
\<close>

theorem sleepq_fifo:
  assumes "kinv s" "r \<noteq> 0"
  shows "(\<forall>cpu c. running cpu s c \<longrightarrow> (\<exists>s'. sleepq_add 0 cpu r s = Inr s' \<and> kinv s' \<and>
      waiting s' = (waiting s)(r := waiting s r @ [c]))) \<and>
    (\<exists>s'. sleepq_wake r s = Inr s' \<and> kinv s' \<and> waiting s' = (waiting s)(r := tl (waiting s r))) \<and>
    (\<exists>s'. sleepq_wake_all r s = Inr s' \<and> kinv s' \<and> waiting s' = (waiting s)(r := []))"
proof -
  have "\<exists>s'. sleepq_wake r s = Inr s' \<and> kinv s' \<and> waiting s' = (waiting s)(r := tl (waiting s r))"
  proof (cases "waiting s r")
    case Nil
    with sq.wake_none [OF assms] assms(1) show ?thesis by (simp add: fun_upd_idem)
  next
    case (Cons w ws)
    with sq.wake_some [OF assms Cons] show ?thesis by auto
  qed
  with sq.add_law [OF assms(1) _ assms(2)] sq.wake_all_law [OF assms] show ?thesis by blast
qed

theorem sleepq_fifo_witness:
  "\<exists>s s'. first_thread = Inr s \<and> kinv s \<and> sleepq_add 0 0 0x100 s = Inr s' \<and> waiting s' 0x100 = [1]"
proof -
  obtain s where s: "first_thread = Inr s" "kreach s" "running 0 s 1" "waiting s 0x100 = []"
    by (rule first_thread_reach)
  from sleepq_fifo [of s "0x100"] kreach_kinv [OF s(2)] s(3) obtain s' where
    "sleepq_add 0 0 0x100 s = Inr s'" "waiting s' = (waiting s)(0x100 := waiting s 0x100 @ [1])" by auto
  with s kreach_kinv [OF s(2)] show ?thesis by auto
qed

text \<open>
  \<open>thread_create\<close> gives out a free slot of the thread table whenever one of the slots
  1 to 31 is free, marks it as taken and not ready, and otherwise returns -1 and changes nothing.
\<close>

theorem thread_create_slot:
  assumes "kreach s"
  shows "\<exists>t s'. thread_create img func arg s = Inr (t, s') \<and> kinv s' \<and>
    (if \<exists>p. 0 < p \<and> p < 32 \<and> t_state (th s p) = THREAD_FREE
     then 0 < t \<and> t < 32 \<and> t_state (th s t) = THREAD_FREE \<and> t_state (th s' t) = THREAD_NONREADY
     else t = -1 \<and> s' = s)"
proof -
  from kreach_kinv [OF assms] obtain rs cs ss where k: "kview UNIV s rs cs ss" "cursors_ok s"
    by (auto simp: kinv_def)
  from thread_create_spec [OF k, of img func arg] show ?thesis unfolding kinv_def by blast
qed

theorem thread_create_slot_witness:
  "\<exists>s t s'. first_thread = Inr s \<and> kreach s \<and> thread_create img0 0x80013000 5 s = Inr (t, s') \<and> kinv s'"
proof -
  obtain s where "first_thread = Inr s" "kreach s" by (rule first_thread_reach)
  with thread_create_slot [of s img0 "0x80013000" 5] show ?thesis by blast
qed

text \<open>
  between the moment \<open>thread_sleep\<close> releases the thread table and the moment its
  processor switches, another processor that is idle can wake the sleeper, because
  \<open>scheduler_wakeup_expired_sleepers\<close> does not check that the thread has gone to sleep: then both
  processors run the same thread.
\<close>

theorem sleep_race:
  "rbind first_thread (\<lambda>s. rbind (thread_sleep 1 0 1 s) (\<lambda>s1. rbind (scheduler_schedule 5 0 1 s1) (\<lambda>(_, s2).
     Inr (t_state (th s1 1), scheduler_current_thread s2)))) = Inr (THREAD_RUNNING, [1, 1, 0, 0])"
  by code_simp

end
