(* ===== verification/Semaphore.thy ===== *)
theory Semaphore
  imports Thread_system
begin

text \<open>
  Semaphores of \<open>kernel/semaphore.c\<close> over the sleep queue. The resource that a thread waits for is
  the address of the semaphore in its table; \<open>base\<close> is the address of the table. A section under
  the semaphore's spinlock with interrupts disabled is one step, and \<open>semaphore_P\<close> returns whether
  the caller has to switch.
\<close>

section \<open>Operations\<close>

definition CONFIG_MAX_SEMAPHORES :: int where "CONFIG_MAX_SEMAPHORES = 128"

record semaphore_t =
  sem_value :: int
  sem_creator :: int

record sems =
  semaphore_table :: "semaphore_t list"
  sem_next :: int

definition semaphore_init :: "sems \<Rightarrow> sems" where
  "semaphore_init m = m\<lparr>semaphore_table :=
     map (\<lambda>e. e\<lparr>sem_creator := -1\<rparr>) (semaphore_table m)\<rparr>"

text \<open>The search moves the cursor on over every entry it looks at.\<close>

function sem_search :: "semaphore_t list \<Rightarrow> int \<Rightarrow> int \<Rightarrow> (int option \<times> int) kresult" where
  "sem_search T nx i =
     (if i < CONFIG_MAX_SEMAPHORES then
        rbind (rd T nx) (\<lambda>e.
          let nx' = (nx + 1) smod CONFIG_MAX_SEMAPHORES in
          if sem_creator e = -1 then Inr (Some nx, nx') else sem_search T nx' (i + 1))
      else Inr (None, nx))"
  by pat_completeness auto
termination
  by (relation "measure (\<lambda>(T, nx, i). nat (CONFIG_MAX_SEMAPHORES - i))") auto

declare sem_search.simps [simp del]

definition semaphore_create :: "int \<Rightarrow> int \<Rightarrow> 'a sched_scheme \<Rightarrow> sems \<Rightarrow> (int option \<times> sems) kresult" where
  "semaphore_create value cpu s m =
     kassert (value \<ge> 0)
      (rbind (sem_search (semaphore_table m) (sem_next m) 0) (\<lambda>(r, nx).
         case r of None \<Rightarrow> Inr (None, m\<lparr>sem_next := nx\<rparr>)
         | Some i \<Rightarrow>
             rbind (thread_get_current_thread cpu s) (\<lambda>t.
             rbind (wr (semaphore_table m) i \<lparr>sem_value = value, sem_creator = t\<rparr>) (\<lambda>T.
               Inr (Some i, m\<lparr>semaphore_table := T, sem_next := nx\<rparr>)))))"

definition semaphore_destroy :: "int \<Rightarrow> sems \<Rightarrow> sems kresult" where
  "semaphore_destroy i m =
     rbind (rd (semaphore_table m) i) (\<lambda>e.
     rbind (wr (semaphore_table m) i (e\<lparr>sem_creator := -1\<rparr>)) (\<lambda>T. Inr (m\<lparr>semaphore_table := T\<rparr>)))"

definition sem_addr :: "u32 \<Rightarrow> int \<Rightarrow> u32" where
  "sem_addr base i = slot_addr 12 base i"

definition set_value :: "int \<Rightarrow> int \<Rightarrow> sems \<Rightarrow> sems kresult" where
  "set_value i v m =
     rbind (rd (semaphore_table m) i) (\<lambda>e.
     rbind (wr (semaphore_table m) i (e\<lparr>sem_value := v\<rparr>)) (\<lambda>T. Inr (m\<lparr>semaphore_table := T\<rparr>)))"

definition semaphore_P :: "u32 \<Rightarrow> int \<Rightarrow> int \<Rightarrow> sems \<Rightarrow> kstate \<Rightarrow> (bool \<times> sems \<times> kstate) kresult" where
  "semaphore_P base cpu i m s =
     rbind (rd (semaphore_table m) i) (\<lambda>e.
       let v = swrap (sem_value e - 1) in
       rbind (set_value i v m) (\<lambda>m'.
         if v < 0 then rbind (sleepq_add 0 cpu (sem_addr base i) s) (\<lambda>s'. Inr (True, m', s'))
         else Inr (False, m', s)))"

definition semaphore_V :: "u32 \<Rightarrow> int \<Rightarrow> sems \<Rightarrow> kstate \<Rightarrow> (sems \<times> kstate) kresult" where
  "semaphore_V base i m s =
     rbind (rd (semaphore_table m) i) (\<lambda>e.
       let v = swrap (sem_value e + 1) in
       rbind (set_value i v m) (\<lambda>m'.
         if v \<le> 0 then rbind (sleepq_wake (sem_addr base i) s) (\<lambda>s'. Inr (m', s'))
         else Inr (m', s)))"

section \<open>Value and waiting threads\<close>

lemma sem_addr_facts:
  assumes "table_at 12 128 base" "0 \<le> i" "i < 128"
  shows "sem_addr base i \<noteq> 0" "0 \<le> j \<Longrightarrow> j < 128 \<Longrightarrow> sem_addr base i = sem_addr base j \<longleftrightarrow> i = j"
  using slot_addr_nonzero [OF assms] slot_addr_eq_iff [OF assms] by (simp_all add: sem_addr_def)

text \<open>The value of a semaphore counts, below zero, the threads that wait for it.\<close>

definition sem_val :: "sems \<Rightarrow> int \<Rightarrow> int" where
  "sem_val m i = sem_value (semaphore_table m ! nat i)"

definition sem_ok :: "u32 \<Rightarrow> sems \<Rightarrow> kstate \<Rightarrow> int \<Rightarrow> bool" where
  "sem_ok base m s i \<longleftrightarrow> int (length (waiting s (sem_addr base i))) = max 0 (- sem_val m i) \<and>
     - (2 ^ 31) < sem_val m i \<and> sem_val m i < 2 ^ 31"

definition sems_ok :: "u32 \<Rightarrow> sems \<Rightarrow> kstate \<Rightarrow> bool" where
  "sems_ok base m s \<longleftrightarrow> table_at 12 128 base \<and> length (semaphore_table m) = 128 \<and>
     (\<forall>i. 0 \<le> i \<and> i < 128 \<longrightarrow> sem_ok base m s i)"

lemma sem_val_bound: "kinv s \<Longrightarrow> sem_ok base m s i \<Longrightarrow> - 32 < sem_val m i"
  using waiting_short [of s "sem_addr base i"] by (auto simp: sem_ok_def)

definition with_value :: "int \<Rightarrow> int \<Rightarrow> sems \<Rightarrow> sems" where
  "with_value i v m = m\<lparr>semaphore_table := (semaphore_table m)[nat i := (semaphore_table m ! nat i)\<lparr>sem_value := v\<rparr>]\<rparr>"

lemma set_value_eq:
  "length (semaphore_table m) = 128 \<Longrightarrow> 0 \<le> i \<Longrightarrow> i < 128 \<Longrightarrow> set_value i v m = Inr (with_value i v m)"
  by (simp add: set_value_def with_value_def)

lemma sem_val_with_value:
  "length (semaphore_table m) = 128 \<Longrightarrow> 0 \<le> i \<Longrightarrow> i < 128 \<Longrightarrow> 0 \<le> j \<Longrightarrow>
     sem_val (with_value i v m) j = (if j = i then v else sem_val m j)"
  by (auto simp: sem_val_def with_value_def nth_list_update)

text \<open>Changing the value of one semaphore together with its queue keeps every semaphore in order.\<close>

lemma sems_ok_change:
  assumes ok: "sems_ok base m s" and i: "0 \<le> i" "i < 128"
    and w: "waiting s' = (waiting s)(sem_addr base i := ws)"
    and v: "int (length ws) = max 0 (- v)" "- (2 ^ 31) < v" "v < 2 ^ 31"
  shows "sems_ok base (with_value i v m) s'"
proof -
  have len: "length (semaphore_table m) = 128" "table_at 12 128 base" using ok by (auto simp: sems_ok_def)
  have "sem_ok base (with_value i v m) s' j" if j: "0 \<le> j" "j < 128" for j
  proof (cases "j = i")
    case True
    with w v i sem_val_with_value [OF len(1) i j(1)] show ?thesis by (simp add: sem_ok_def)
  next
    case False
    then have "sem_addr base j \<noteq> sem_addr base i" using sem_addr_facts(2) [OF len(2) i j] by auto
    with False w ok j sem_val_with_value [OF len(1) i j(1)] show ?thesis by (simp add: sem_ok_def sems_ok_def)
  qed
  with len show ?thesis by (simp add: sems_ok_def with_value_def)
qed

lemma semaphore_P_spec:
  assumes k: "kinv s" and ok: "sems_ok base m s" and i: "0 \<le> i" "i < 128" and c: "running cpu s c"
  shows "\<exists>m' s'. semaphore_P base cpu i m s = Inr (sem_val m i \<le> 0, m', s') \<and> kinv s' \<and> sems_ok base m' s' \<and>
    sem_val m' i = sem_val m i - 1 \<and>
    (if sem_val m i > 0 then s' = s
     else waiting s' = (waiting s)(sem_addr base i := waiting s (sem_addr base i) @ [c]))"
proof -
  let ?v = "sem_val m i" and ?a = "sem_addr base i"
  have len: "length (semaphore_table m) = 128" "table_at 12 128 base" and si: "sem_ok base m s i"
    using ok i by (auto simp: sems_ok_def)
  have v: "- 32 < ?v" "?v < 2 ^ 31" using sem_val_bound [OF k si] si by (auto simp: sem_ok_def)
  then have sw: "swrap (?v - 1) = ?v - 1" by simp
  have rd: "rd (semaphore_table m) i = Inr (semaphore_table m ! nat i)" using len i by simp
  note sv = sem_val_with_value [OF len(1) i i(1), of "?v - 1"]
  show ?thesis
  proof (cases "?v > 0")
    case True
    have "semaphore_P base cpu i m s = Inr (False, with_value i (?v - 1) m, s)"
      using True sw rd set_value_eq [OF len(1) i] by (simp add: semaphore_P_def sem_val_def)
    moreover have "sems_ok base (with_value i (?v - 1) m) s"
      using True v si by (intro sems_ok_change [OF ok i, of s "waiting s ?a"]) (auto simp: sem_ok_def)
    ultimately show ?thesis using True k sv by auto
  next
    case False
    from sq.add_law [OF k c sem_addr_facts(1) [OF len(2) i]] obtain s' where
      s': "sleepq_add 0 cpu ?a s = Inr s'" "kinv s'" "waiting s' = (waiting s)(?a := waiting s ?a @ [c])" by auto
    have "semaphore_P base cpu i m s = Inr (True, with_value i (?v - 1) m, s')"
      using False sw rd set_value_eq [OF len(1) i] s'(1) by (simp add: semaphore_P_def sem_val_def)
    moreover have "sems_ok base (with_value i (?v - 1) m) s'"
      using False v si by (intro sems_ok_change [OF ok i s'(3)]) (auto simp: sem_ok_def)
    ultimately show ?thesis using False s' sv by auto
  qed
qed

lemma semaphore_V_spec:
  assumes k: "kinv s" and ok: "sems_ok base m s" and i: "0 \<le> i" "i < 128" and top: "sem_val m i < 2 ^ 31 - 1"
  shows "\<exists>m' s'. semaphore_V base i m s = Inr (m', s') \<and> kinv s' \<and> sems_ok base m' s' \<and>
    sem_val m' i = sem_val m i + 1 \<and> waiting s' = (waiting s)(sem_addr base i := tl (waiting s (sem_addr base i)))"
proof -
  let ?v = "sem_val m i" and ?a = "sem_addr base i"
  have len: "length (semaphore_table m) = 128" "table_at 12 128 base" and si: "sem_ok base m s i"
    using ok i by (auto simp: sems_ok_def)
  have v: "- 32 < ?v" using sem_val_bound [OF k si] .
  then have sw: "swrap (?v + 1) = ?v + 1" using top by simp
  have rd: "rd (semaphore_table m) i = Inr (semaphore_table m ! nat i)" using len i by simp
  note sv = sem_val_with_value [OF len(1) i i(1), of "?v + 1"]
  show ?thesis
  proof (cases "?v < 0")
    case False
    then have empty: "waiting s ?a = []" using si by (auto simp: sem_ok_def)
    have "semaphore_V base i m s = Inr (with_value i (?v + 1) m, s)"
      using False sw rd set_value_eq [OF len(1) i] by (simp add: semaphore_V_def sem_val_def)
    moreover have "sems_ok base (with_value i (?v + 1) m) s"
      using False v top empty by (intro sems_ok_change [OF ok i, of s "[]"]) (auto simp: fun_upd_idem)
    ultimately show ?thesis using k sv empty by (auto simp: fun_upd_idem)
  next
    case True
    then obtain w ws where w: "waiting s ?a = w # ws" using si by (cases "waiting s ?a") (auto simp: sem_ok_def)
    from sq.wake_some [OF k sem_addr_facts(1) [OF len(2) i] w] obtain s' where
      s': "sleepq_wake ?a s = Inr s'" "kinv s'" "waiting s' = (waiting s)(?a := ws)" by auto
    have "semaphore_V base i m s = Inr (with_value i (?v + 1) m, s')"
      using True sw rd set_value_eq [OF len(1) i] s'(1) by (simp add: semaphore_V_def sem_val_def)
    moreover have "sems_ok base (with_value i (?v + 1) m) s'"
      using True v si w by (intro sems_ok_change [OF ok i s'(3)]) (auto simp: sem_ok_def)
    ultimately show ?thesis using s' sv w by auto
  qed
qed

section \<open>Creating a semaphore\<close>

lemma sem_search_spec:
  assumes "length T = 128" "0 \<le> nx" "nx < 128" "0 \<le> i" "i \<le> 128"
    and "\<forall>j. 0 \<le> j \<and> j < i \<longrightarrow> sem_creator (T ! nat ((nx - 1 - j) mod 128)) \<noteq> -1"
  shows "\<exists>r nx'. sem_search T nx i = Inr (r, nx') \<and> 0 \<le> nx' \<and> nx' < 128 \<and>
    (case r of Some k \<Rightarrow> 0 \<le> k \<and> k < 128 \<and> sem_creator (T ! nat k) = -1
     | None \<Rightarrow> \<forall>k. 0 \<le> k \<and> k < 128 \<longrightarrow> sem_creator (T ! nat k) \<noteq> -1)"
  using assms
proof (induction "nat (128 - i)" arbitrary: nx i)
  case 0
  then have i: "i = 128" by simp
  have "sem_creator (T ! nat k) \<noteq> -1" if "0 \<le> k" "k < 128" for k
  proof -
    let ?j = "(nx - 1 - k) mod 128"
    have "(nx - 1 - ?j) mod 128 = k mod 128" by (simp add: mod_simps)
    with that have "(nx - 1 - ?j) mod 128 = k" by simp
    moreover have "0 \<le> ?j" "?j < i" using i by simp_all
    ultimately show ?thesis using "0.prems"(6) by metis
  qed
  with i "0.prems"(2,3) show ?case by (subst sem_search.simps) (auto simp: CONFIG_MAX_SEMAPHORES_def)
next
  case (Suc d)
  have i: "i < 128" using Suc.hyps(2) by simp
  let ?nx = "(nx + 1) mod 128"
  show ?case
  proof (cases "sem_creator (T ! nat nx) = -1")
    case True
    then show ?thesis
      using i Suc.prems(1-3) by (subst sem_search.simps) (auto simp: CONFIG_MAX_SEMAPHORES_def)
  next
    case False
    have step: "sem_search T nx i = sem_search T ?nx (i + 1)"
      using i False Suc.prems(1-3) by (subst sem_search.simps) (simp add: CONFIG_MAX_SEMAPHORES_def)
    have "sem_creator (T ! nat ((?nx - 1 - j) mod 128)) \<noteq> -1" if j: "0 \<le> j" "j < i + 1" for j
    proof -
      have eq: "(?nx - 1 - j) mod 128 = (nx - j) mod 128" using mod_diff_left_eq [of "nx + 1" 128 "1 + j"] by (simp add: algebra_simps)
      show ?thesis
      proof (cases "j = 0")
        case True
        with False eq Suc.prems(2,3) show ?thesis by simp
      next
        case False
        then have "0 \<le> j - 1" "j - 1 < i" "(nx - 1 - (j - 1)) mod 128 = (nx - j) mod 128" using j by simp_all
        with Suc.prems(6) eq show ?thesis by metis
      qed
    qed
    then show ?thesis
      unfolding step using Suc.hyps(2) Suc.prems i by (intro Suc.hyps(1)) auto
  qed
qed

section \<open>Histories\<close>

text \<open>
  \<open>sem_trace base i v0 p v m s\<close>: the semaphore was created with value \<open>v0\<close> and since then \<open>p\<close> calls of
  \<open>semaphore_P\<close> and \<open>v\<close> calls of \<open>semaphore_V\<close> were made on it, with any other activity of the
  kernel, also on other semaphores, in between.
\<close>

inductive sem_trace :: "u32 \<Rightarrow> int \<Rightarrow> int \<Rightarrow> nat \<Rightarrow> nat \<Rightarrow> sems \<Rightarrow> kstate \<Rightarrow> bool"
  for base :: u32 and i :: int and v0 :: int where
  created: "kinv s \<Longrightarrow> sems_ok base m s \<Longrightarrow> sem_val m i = v0 \<Longrightarrow> 0 \<le> v0 \<Longrightarrow> sem_trace base i v0 0 0 m s"
| P: "sem_trace base i v0 p v m s \<Longrightarrow> running cpu s c \<Longrightarrow> semaphore_P base cpu i m s = Inr (b, m', s') \<Longrightarrow>
    sem_trace base i v0 (Suc p) v m' s'"
| V: "sem_trace base i v0 p v m s \<Longrightarrow> sem_val m i < 2 ^ 31 - 1 \<Longrightarrow> semaphore_V base i m s = Inr (m', s') \<Longrightarrow>
    sem_trace base i v0 p (Suc v) m' s'"
| other: "sem_trace base i v0 p v m s \<Longrightarrow> kinv s' \<Longrightarrow> sems_ok base m' s' \<Longrightarrow> sem_val m' i = sem_val m i \<Longrightarrow>
    sem_trace base i v0 p v m' s'"

lemma sem_trace_value:
  assumes "sem_trace base i v0 p v m s" "0 \<le> i" "i < 128"
  shows "kinv s \<and> sems_ok base m s \<and> sem_val m i = v0 + int v - int p \<and> 0 \<le> v0"
  using assms
proof (induction rule: sem_trace.induct)
  case (P p v m s cpu c b m' s')
  with semaphore_P_spec [of s base m i cpu c] show ?case by auto
next
  case (V p v m s m' s')
  with semaphore_V_spec [of s base m i] show ?case by auto
qed auto

section \<open>Properties\<close>

text \<open>
  \<open>semaphore_P\<close> lowers the value by one. The caller goes on at once exactly when the
  value was positive; otherwise it is put at the end of the queue of the semaphore and has to
  switch. The value of every semaphore, below zero, stays the number of threads that wait for it.
\<close>

theorem semaphore_P_blocks:
  assumes "kinv s" "sems_ok base m s" "0 \<le> i" "i < 128" "running cpu s c"
  shows "\<exists>m' s'. semaphore_P base cpu i m s = Inr (sem_val m i \<le> 0, m', s') \<and> kinv s' \<and> sems_ok base m' s' \<and>
    sem_val m' i = sem_val m i - 1 \<and>
    (if sem_val m i > 0 then s' = s
     else waiting s' = (waiting s)(sem_addr base i := waiting s (sem_addr base i) @ [c]))"
  using assms by (rule semaphore_P_spec)

text \<open>A table of 128 semaphores of value 0 at an address of the kernel segment.\<close>

definition sems0 :: sems where
  "sems0 = \<lparr>semaphore_table = replicate 128 \<lparr>sem_value = 0, sem_creator = -1\<rparr>, sem_next = 0\<rparr>"

lemma sem_val_sems0: "0 \<le> i \<Longrightarrow> i < 128 \<Longrightarrow> sem_val sems0 i = 0"
  by (simp add: sem_val_def sems0_def nat_less_iff)

lemma sems0_ok:
  assumes "kreach s" "\<And>r. waiting s r = []"
  shows "sems_ok 0x80100000 sems0 s"
  using assms sem_val_sems0 by (auto simp: sems_ok_def sem_ok_def table_at_def) (simp add: sems0_def)

lemma first_thread_sems:
  obtains s where "first_thread = Inr s" "kreach s" "kinv s" "running 0 s 1" "sems_ok 0x80100000 sems0 s"
    "\<And>r. waiting s r = []"
proof -
  obtain s where s: "first_thread = Inr s" "kreach s" "running 0 s 1" by (rule first_thread_reach)
  from kreach_kinv [OF s(2)] have k: "kinv s" by simp
  then obtain rs cs ss where kv: "kview UNIV s rs cs ss" by (auto simp: kinv_def)
  have "\<forall>p \<in> set [1..31]. sleeps_on (th s p) = 0" using first_thread_awake unfolding s(1) by (simp add: list_all_iff)
  then have "sleeps_on (th s p) = 0" if "0 < p" "p < 32" for p using that by auto
  then have "p \<notin> set (waiting s r)" for p r using in_waiting [OF kv, of p r] by metis
  then have w: "waiting s r = []" for r by (meson last_in_set)
  with s k sems0_ok [OF s(2) w] that show thesis by blast
qed

theorem semaphore_P_blocks_witness:
  "\<exists>s m' s'. first_thread = Inr s \<and> running 0 s 1 \<and> semaphore_P 0x80100000 0 3 sems0 s = Inr (True, m', s') \<and>
     waiting s' (sem_addr 0x80100000 3) = [1] \<and> sem_val m' 3 = -1"
proof -
  obtain s where s: "first_thread = Inr s" "kreach s" "kinv s" "running 0 s 1" "sems_ok 0x80100000 sems0 s"
    "\<And>r. waiting s r = []" by (rule first_thread_sems) blast
  have v: "sem_val sems0 3 = 0" using sem_val_sems0 [of 3] by simp
  from semaphore_P_blocks [OF s(3,5) _ _ s(4), of 3] v s(6) obtain m' s' where
    "semaphore_P 0x80100000 0 3 sems0 s = Inr (True, m', s')" "sem_val m' 3 = -1"
    "waiting s' = (waiting s)(sem_addr 0x80100000 3 := [1])" by auto
  with s show ?thesis by auto
qed

text \<open>
  \<open>semaphore_V\<close> raises the value by one and, when threads wait, wakes exactly the one
  that has waited longest. It never blocks.
\<close>

theorem semaphore_V_wakes:
  assumes "kinv s" "sems_ok base m s" "0 \<le> i" "i < 128" "sem_val m i < 2 ^ 31 - 1"
  shows "\<exists>m' s'. semaphore_V base i m s = Inr (m', s') \<and> kinv s' \<and> sems_ok base m' s' \<and>
    sem_val m' i = sem_val m i + 1 \<and>
    waiting s' = (waiting s)(sem_addr base i := tl (waiting s (sem_addr base i)))"
  using assms by (rule semaphore_V_spec)

theorem semaphore_V_wakes_witness:
  "\<exists>s m' s'. first_thread = Inr s \<and> semaphore_V 0x80100000 3 sems0 s = Inr (m', s') \<and> sem_val m' 3 = 1"
proof -
  obtain s where s: "first_thread = Inr s" "kreach s" "kinv s" "running 0 s 1" "sems_ok 0x80100000 sems0 s"
    "\<And>r. waiting s r = []" by (rule first_thread_sems) blast
  have v: "sem_val sems0 3 = 0" using sem_val_sems0 [of 3] by simp
  from semaphore_V_wakes [OF s(3,5), of 3] v s(1) show ?thesis by auto
qed

text \<open>
  Property C3: over any history, the number of calls of \<open>semaphore_P\<close> that have passed, that is
  the calls made less the threads that still wait, is the smaller of the number of calls and the
  initial value plus the number of calls of \<open>semaphore_V\<close>. So a semaphore never lets more
  threads pass than it was raised for, and never holds one back while there is a unit left.
\<close>

theorem semaphore_conservation:
  assumes "sem_trace base i v0 p v m s" "0 \<le> i" "i < 128"
  shows "int p - int (length (waiting s (sem_addr base i))) = min (int p) (v0 + int v)"
  using sem_trace_value [OF assms] assms(2,3) by (auto simp: sems_ok_def sem_ok_def)

theorem semaphore_conservation_witness:
  "\<exists>m s. sem_trace 0x80100000 3 0 1 0 m s \<and> length (waiting s (sem_addr 0x80100000 3)) = 1"
proof -
  obtain s where s: "first_thread = Inr s" "kreach s" "kinv s" "running 0 s 1" "sems_ok 0x80100000 sems0 s"
    "\<And>r. waiting s r = []" by (rule first_thread_sems) blast
  have v: "sem_val sems0 3 = 0" using sem_val_sems0 [of 3] by simp
  have t0: "sem_trace 0x80100000 3 0 0 0 sems0 s" using s v by (intro sem_trace.created) auto
  from semaphore_P_spec [OF s(3,5) _ _ s(4), of 3] obtain b m' s' where
    "semaphore_P 0x80100000 0 3 sems0 s = Inr (b, m', s')" by auto
  from sem_trace.P [OF t0 s(4) this] have t1: "sem_trace 0x80100000 3 0 1 0 m' s'" by simp
  with semaphore_conservation [OF t1] show ?thesis by auto
qed

text \<open>
  \<open>semaphore_create\<close> returns an entry of the table that was free, with the given
  value and the calling thread as its creator, and fails exactly when all 128 are in use.
\<close>

theorem semaphore_create_fresh:
  assumes "length (semaphore_table m) = 128" "0 \<le> sem_next m" "sem_next m < 128" "0 \<le> value"
    and "thread_get_current_thread cpu s = Inr t"
  shows "\<exists>r m'. semaphore_create value cpu s m = Inr (r, m') \<and>
    (case r of
       None \<Rightarrow> semaphore_table m' = semaphore_table m \<and>
         (\<forall>k. 0 \<le> k \<and> k < 128 \<longrightarrow> sem_creator (semaphore_table m ! nat k) \<noteq> -1)
     | Some k \<Rightarrow> 0 \<le> k \<and> k < 128 \<and> sem_creator (semaphore_table m ! nat k) = -1 \<and>
         semaphore_table m' = (semaphore_table m)[nat k := \<lparr>sem_value = value, sem_creator = t\<rparr>])"
proof -
  from sem_search_spec [OF assms(1-3), of 0] obtain r nx where
    r: "sem_search (semaphore_table m) (sem_next m) 0 = Inr (r, nx)"
      "case r of Some k \<Rightarrow> 0 \<le> k \<and> k < 128 \<and> sem_creator (semaphore_table m ! nat k) = -1
       | None \<Rightarrow> \<forall>k. 0 \<le> k \<and> k < 128 \<longrightarrow> sem_creator (semaphore_table m ! nat k) \<noteq> -1" by auto
  then show ?thesis using assms(1,4,5) by (cases r) (auto simp: semaphore_create_def)
qed

theorem semaphore_create_fresh_witness:
  "\<exists>s r m'. first_thread = Inr s \<and> semaphore_create 2 0 s sems0 = Inr (r, m') \<and> r \<noteq> None"
proof -
  obtain s where s: "first_thread = Inr s" "kreach s" "kinv s" "running 0 s 1" "sems_ok 0x80100000 sems0 s"
    "\<And>r. waiting s r = []" by (rule first_thread_sems) blast
  from s(3) obtain rs cs ss where "kview UNIV s rs cs ss" by (auto simp: kinv_def)
  from runningD(6) [OF this s(4)] have "thread_get_current_thread 0 s = Inr 1" .
  moreover have c: "sem_creator (semaphore_table sems0 ! 0) = -1" by (simp add: sems0_def)
  moreover have "length (semaphore_table sems0) = 128" "sem_next sems0 = 0" by (simp_all add: sems0_def)
  ultimately obtain r m' where r: "semaphore_create 2 0 s sems0 = Inr (r, m')"
    "r = None \<Longrightarrow> \<forall>k. 0 \<le> k \<and> k < 128 \<longrightarrow> sem_creator (semaphore_table sems0 ! nat k) \<noteq> -1"
    using semaphore_create_fresh [of sems0 2 0 s 1] by (force split: option.splits)
  have "r \<noteq> None"
  proof
    assume "r = None"
    from r(2) [OF this, rule_format, of 0] c show False by simp
  qed
  with r(1) s(1) show ?thesis by blast
qed

end
