(* ===== verification/Lockcond.thy ===== *)
theory Lockcond
  imports Semaphore
begin

text \<open>
  Locks and condition variables of \<open>kernel/lock_cond.c\<close> over the sleep queue. A lock is an index
  into the lock table; the resource a thread waits for is the address of its spinlock, the first
  field of the entry. A section under the entry's spinlock with interrupts disabled is one step, so
  \<open>lock_acquire\<close> and \<open>condition_wait\<close> are split where the caller gives up the processor:
  \<open>lock_acquire\<close> returns whether it does, and \<open>lock_acquire_woken\<close> is what follows the
  \<open>thread_switch\<close>.
\<close>

section \<open>Tables\<close>

definition LOCK_NO_THREAD :: int where "LOCK_NO_THREAD = -1"
definition LOCK_RESERVED_THREAD :: int where "LOCK_RESERVED_THREAD = -2"
definition CONFIG_MAX_LOCKS :: int where "CONFIG_MAX_LOCKS = 128"
definition CONFIG_MAX_CONDITION_VARIABLES :: int where "CONFIG_MAX_CONDITION_VARIABLES = 128"

record lock_t =
  locked_id :: int
  nested_locking_count :: u32
  waiting_thread_count :: u32
  is_used :: int

record cond_t =
  cond_waiting_thread_count :: u32
  cond_is_used :: int

record lctables =
  lock_table :: "lock_t list"
  cond_table :: "cond_t list"

definition lock_addr :: "u32 \<Rightarrow> int \<Rightarrow> u32" where
  "lock_addr lb i = slot_addr 20 lb i"

definition cond_addr :: "u32 \<Rightarrow> int \<Rightarrow> u32" where
  "cond_addr cb k = slot_addr 12 cb k"

definition lock_table_init :: "lctables \<Rightarrow> lctables" where
  "lock_table_init m = m\<lparr>lock_table := map (\<lambda>l. l\<lparr>locked_id := LOCK_NO_THREAD,
     nested_locking_count := 0, waiting_thread_count := 0, is_used := 0\<rparr>) (lock_table m)\<rparr>"

definition cond_table_init :: "lctables \<Rightarrow> lctables" where
  "cond_table_init m = m\<lparr>cond_table := map (\<lambda>c. c\<lparr>cond_waiting_thread_count := 0,
     cond_is_used := 0\<rparr>) (cond_table m)\<rparr>"

section \<open>Locks\<close>

definition set_lock :: "int \<Rightarrow> lock_t \<Rightarrow> lctables \<Rightarrow> lctables kresult" where
  "set_lock i l m = rbind (wr (lock_table m) i l) (\<lambda>T. Inr (m\<lparr>lock_table := T\<rparr>))"

definition lock_create :: "lctables \<Rightarrow> (int \<times> lctables) kresult" where
  "lock_create m =
     rbind (scan (\<lambda>l. is_used l = 0) (lock_table m) 0 CONFIG_MAX_LOCKS) (\<lambda>r.
       case r of None \<Rightarrow> Inl Panic
       | Some i \<Rightarrow>
           rbind (rd (lock_table m) i) (\<lambda>l.
           rbind (set_lock i (l\<lparr>is_used := 1\<rparr>) m) (\<lambda>m'. Inr (i, m'))))"

definition lock_destroy :: "int \<Rightarrow> lctables \<Rightarrow> lctables kresult" where
  "lock_destroy i m =
     rbind (rd (lock_table m) i) (\<lambda>l.
       kassert (locked_id l = LOCK_NO_THREAD) (set_lock i (l\<lparr>is_used := 0\<rparr>) m))"

definition lock_acquire ::
  "u32 \<Rightarrow> int \<Rightarrow> int \<Rightarrow> lctables \<Rightarrow> kstate \<Rightarrow> (bool \<times> lctables \<times> kstate) kresult" where
  "lock_acquire lb cpu i m s =
     rbind (rd (lock_table m) i) (\<lambda>l.
     rbind (thread_get_current_thread cpu s) (\<lambda>me.
       if locked_id l = LOCK_NO_THREAD then
         rbind (set_lock i (l\<lparr>locked_id := me, nested_locking_count := 1\<rparr>) m) (\<lambda>m'. Inr (False, m', s))
       else if locked_id l = me then
         rbind (set_lock i (l\<lparr>nested_locking_count := nested_locking_count l + 1\<rparr>) m) (\<lambda>m'.
           Inr (False, m', s))
       else
         rbind (set_lock i (l\<lparr>waiting_thread_count := waiting_thread_count l + 1\<rparr>) m) (\<lambda>m'.
         rbind (sleepq_add 0 cpu (lock_addr lb i) s) (\<lambda>s'. Inr (True, m', s')))))"

definition lock_acquire_woken :: "int \<Rightarrow> int \<Rightarrow> lctables \<Rightarrow> kstate \<Rightarrow> lctables kresult" where
  "lock_acquire_woken cpu i m s =
     rbind (rd (lock_table m) i) (\<lambda>l.
     rbind (thread_get_current_thread cpu s) (\<lambda>me.
       set_lock i (l\<lparr>waiting_thread_count := waiting_thread_count l - 1, locked_id := me,
         nested_locking_count := 1\<rparr>) m))"

definition lock_release :: "u32 \<Rightarrow> int \<Rightarrow> int \<Rightarrow> lctables \<Rightarrow> kstate \<Rightarrow> (lctables \<times> kstate) kresult" where
  "lock_release lb cpu i m s =
     rbind (rd (lock_table m) i) (\<lambda>l.
     rbind (thread_get_current_thread cpu s) (\<lambda>me.
       kassert (locked_id l = me)
        (if nested_locking_count l > 1 then
           rbind (set_lock i (l\<lparr>nested_locking_count := nested_locking_count l - 1\<rparr>) m) (\<lambda>m'. Inr (m', s))
         else if waiting_thread_count l > 0 then
           rbind (sleepq_wake (lock_addr lb i) s) (\<lambda>s'.
           rbind (set_lock i (l\<lparr>nested_locking_count := 0, locked_id := LOCK_RESERVED_THREAD\<rparr>) m) (\<lambda>m'.
             Inr (m', s')))
         else
           rbind (set_lock i (l\<lparr>nested_locking_count := 0, locked_id := LOCK_NO_THREAD\<rparr>) m) (\<lambda>m'.
             Inr (m', s)))))"

section \<open>Condition variables\<close>

definition set_cond :: "int \<Rightarrow> cond_t \<Rightarrow> lctables \<Rightarrow> lctables kresult" where
  "set_cond k c m = rbind (wr (cond_table m) k c) (\<lambda>T. Inr (m\<lparr>cond_table := T\<rparr>))"

text \<open>The bound of the search is the number of locks, as in the code.\<close>

definition condition_create :: "lctables \<Rightarrow> (int \<times> lctables) kresult" where
  "condition_create m =
     rbind (scan (\<lambda>c. cond_is_used c = 0) (cond_table m) 0 CONFIG_MAX_LOCKS) (\<lambda>r.
       case r of None \<Rightarrow> Inl Panic
       | Some k \<Rightarrow>
           rbind (rd (cond_table m) k) (\<lambda>c.
           rbind (set_cond k (c\<lparr>cond_is_used := 1\<rparr>) m) (\<lambda>m'. Inr (k, m'))))"

definition condition_destroy :: "u32 \<Rightarrow> int \<Rightarrow> lctables \<Rightarrow> lctables kresult" where
  "condition_destroy cb k m =
     kassert (cond_addr cb k \<noteq> 0)
      (rbind (rd (cond_table m) k) (\<lambda>c.
         kassert (cond_waiting_thread_count c = 0) (set_cond k (c\<lparr>cond_is_used := 0\<rparr>) m)))"

text \<open>
  \<open>condition_wait\<close> up to the \<open>thread_switch\<close>; what follows it is \<open>lock_acquire\<close> of the lock.
\<close>

definition condition_wait ::
  "u32 \<Rightarrow> u32 \<Rightarrow> int \<Rightarrow> int \<Rightarrow> int \<Rightarrow> lctables \<Rightarrow> kstate \<Rightarrow> (lctables \<times> kstate) kresult" where
  "condition_wait cb lb cpu k i m s =
     kassert (cond_addr cb k \<noteq> 0 \<and> lock_addr lb i \<noteq> 0)
      (rbind (rd (cond_table m) k) (\<lambda>c.
       rbind (set_cond k (c\<lparr>cond_waiting_thread_count := cond_waiting_thread_count c + 1\<rparr>) m) (\<lambda>m1.
       rbind (sleepq_add 0 cpu (cond_addr cb k) s) (\<lambda>s1.
         lock_release lb cpu i m1 s1))))"

definition condition_signal :: "u32 \<Rightarrow> u32 \<Rightarrow> int \<Rightarrow> int \<Rightarrow> lctables \<Rightarrow> kstate \<Rightarrow> (lctables \<times> kstate) kresult" where
  "condition_signal cb lb k i m s =
     kassert (cond_addr cb k \<noteq> 0 \<and> lock_addr lb i \<noteq> 0)
      (rbind (rd (cond_table m) k) (\<lambda>c.
         if cond_waiting_thread_count c > 0 then
           rbind (set_cond k (c\<lparr>cond_waiting_thread_count := cond_waiting_thread_count c - 1\<rparr>) m) (\<lambda>m'.
           rbind (sleepq_wake (cond_addr cb k) s) (\<lambda>s'. Inr (m', s')))
         else Inr (m, s)))"

definition condition_broadcast :: "u32 \<Rightarrow> u32 \<Rightarrow> int \<Rightarrow> int \<Rightarrow> lctables \<Rightarrow> kstate \<Rightarrow> (lctables \<times> kstate) kresult" where
  "condition_broadcast cb lb k i m s =
     kassert (cond_addr cb k \<noteq> 0 \<and> lock_addr lb i \<noteq> 0)
      (rbind (rd (cond_table m) k) (\<lambda>c.
         if cond_waiting_thread_count c > 0 then
           rbind (set_cond k (c\<lparr>cond_waiting_thread_count := 0\<rparr>) m) (\<lambda>m'.
           rbind (sleepq_wake_all (cond_addr cb k) s) (\<lambda>s'. Inr (m', s')))
         else Inr (m, s)))"

section \<open>What a lock records\<close>

text \<open>
  \<open>acq\<close> are the threads suspended inside \<open>lock_acquire\<close>, \<open>Q\<close> those of them still in the sleep
  queue, and \<open>h\<close> how deep each thread holds the lock. A free lock has nobody inside
  \<open>lock_acquire\<close>; a reserved one has exactly one thread that was woken and not yet run.
\<close>

definition lock_ok :: "int set \<Rightarrow> int list \<Rightarrow> (int \<Rightarrow> nat) \<Rightarrow> lock_t \<Rightarrow> bool" where
  "lock_ok acq Q h l \<longleftrightarrow> distinct Q \<and>
     (if locked_id l = LOCK_NO_THREAD then
        acq = {} \<and> Q = [] \<and> waiting_thread_count l = 0 \<and> h = (\<lambda>_. 0)
      else if locked_id l = LOCK_RESERVED_THREAD then
        (\<exists>g. g \<notin> set Q \<and> acq = insert g (set Q)) \<and> unat (waiting_thread_count l) = Suc (length Q) \<and> h = (\<lambda>_. 0)
      else
        acq = set Q \<and> unat (waiting_thread_count l) = length Q \<and> locked_id l \<notin> acq \<and>
        nested_locking_count l \<noteq> 0 \<and> h = (\<lambda>_. 0)(locked_id l := unat (nested_locking_count l)))"

definition cond_ok :: "int set \<Rightarrow> int list \<Rightarrow> cond_t \<Rightarrow> bool" where
  "cond_ok wts Q c \<longleftrightarrow> distinct Q \<and> set Q \<subseteq> wts \<and> unat (cond_waiting_thread_count c) = length Q"

definition tables_at :: "u32 \<Rightarrow> u32 \<Rightarrow> bool" where
  "tables_at lb cb \<longleftrightarrow> table_at 20 128 lb \<and> table_at 12 128 cb \<and>
     (uint lb + 20 * 128 \<le> uint cb \<or> uint cb + 12 * 128 \<le> uint lb)"

lemma addr_facts:
  assumes "tables_at lb cb" "0 \<le> i" "i < 128"
  shows "lock_addr lb i \<noteq> 0" "cond_addr cb i \<noteq> 0"
    "0 \<le> j \<Longrightarrow> j < 128 \<Longrightarrow> lock_addr lb j = lock_addr lb i \<longleftrightarrow> j = i"
    "0 \<le> j \<Longrightarrow> j < 128 \<Longrightarrow> cond_addr cb j = cond_addr cb i \<longleftrightarrow> j = i"
    "0 \<le> j \<Longrightarrow> j < 128 \<Longrightarrow> lock_addr lb j \<noteq> cond_addr cb i"
    "0 \<le> j \<Longrightarrow> j < 128 \<Longrightarrow> cond_addr cb j \<noteq> lock_addr lb i"
proof -
  have t: "table_at 20 128 lb" "table_at 12 128 cb" using assms by (auto simp: tables_at_def)
  note [simp] = lock_addr_def cond_addr_def
  show "lock_addr lb i \<noteq> 0" using slot_addr_nonzero [OF t(1) assms(2,3)] by simp
  show "cond_addr cb i \<noteq> 0" using slot_addr_nonzero [OF t(2) assms(2,3)] by simp
  have apart: "lock_addr lb x \<noteq> cond_addr cb y" if "0 \<le> x" "x < 128" "0 \<le> y" "y < 128" for x y
  proof
    assume "lock_addr lb x = cond_addr cb y"
    then have "uint lb + 20 * x = uint cb + 12 * y"
      using uint_slot_addr [OF t(1), of x] uint_slot_addr [OF t(2), of y] that by simp
    with assms(1) that show False by (auto simp: tables_at_def)
  qed
  assume j: "0 \<le> j" "j < 128"
  show "lock_addr lb j = lock_addr lb i \<longleftrightarrow> j = i" using slot_addr_eq_iff [OF t(1) j assms(2,3)] by simp
  show "cond_addr cb j = cond_addr cb i \<longleftrightarrow> j = i" using slot_addr_eq_iff [OF t(2) j assms(2,3)] by simp
  show "lock_addr lb j \<noteq> cond_addr cb i" "cond_addr cb j \<noteq> lock_addr lb i"
    using apart [of j i] apart [of i j] j assms(2,3) by auto
qed

section \<open>One lock at a time\<close>

lemma unat_inc: "unat x < 2 ^ 32 - 1 \<Longrightarrow> unat (x + 1) = Suc (unat x)" for x :: u32
  by (simp add: unat_word_ariths)

lemma unat_dec: "x \<noteq> 0 \<Longrightarrow> unat (x - 1) = unat x - 1" for x :: u32
  by (rule unat_minus_one)

abbreviation lk :: "lctables \<Rightarrow> int \<Rightarrow> lock_t" where
  "lk m i \<equiv> lock_table m ! nat i"

definition with_lock :: "int \<Rightarrow> lock_t \<Rightarrow> lctables \<Rightarrow> lctables" where
  "with_lock i l m = m\<lparr>lock_table := (lock_table m)[nat i := l]\<rparr>"

lemma set_lock_eq:
  "length (lock_table m) = 128 \<Longrightarrow> 0 \<le> i \<Longrightarrow> i < 128 \<Longrightarrow> set_lock i l m = Inr (with_lock i l m)"
  by (simp add: set_lock_def with_lock_def)

lemma with_lock_simps [simp]:
  "length (lock_table m) = 128 \<Longrightarrow> 0 \<le> i \<Longrightarrow> i < 128 \<Longrightarrow> 0 \<le> j \<Longrightarrow> lk (with_lock i l m) j = (if j = i then l else lk m j)"
  "length (lock_table (with_lock i l m)) = length (lock_table m)" "cond_table (with_lock i l m) = cond_table m"
  by (auto simp: with_lock_def nth_list_update)

lemma lock_acquire_spec:
  assumes k: "kinv s" and c: "running cpu s c" and i: "0 \<le> i" "i < 128" and len: "length (lock_table m) = 128"
    and a: "lock_addr lb i \<noteq> 0" and ok: "lock_ok acq (waiting s (lock_addr lb i)) h (lk m i)" and out: "c \<notin> acq"
    and nest: "unat (nested_locking_count (lk m i)) < 2 ^ 32 - 1"
  defines "b \<equiv> locked_id (lk m i) \<noteq> LOCK_NO_THREAD \<and> locked_id (lk m i) \<noteq> c"
  shows "\<exists>l s'. lock_acquire lb cpu i m s = Inr (b, with_lock i l m, s') \<and> kinv s' \<and>
    (if b then waiting s' = (waiting s)(lock_addr lb i := waiting s (lock_addr lb i) @ [c]) else s' = s) \<and>
    (if b then lock_ok (insert c acq) (waiting s (lock_addr lb i) @ [c]) h l
     else lock_ok acq (waiting s (lock_addr lb i)) (h(c := Suc (h c))) l) \<and>
    (b \<longrightarrow> locked_id l = locked_id (lk m i))"
proof -
  let ?l = "lk m i" and ?a = "lock_addr lb i"
  from k obtain rs cs ss where kv: "kview UNIV s rs cs ss" by (auto simp: kinv_def)
  note r = runningD [OF kv c]
  have nf: "c \<notin> set (waiting s ?a)" using sq.runs_not_waiting [OF k c] .
  have cr: "c \<noteq> LOCK_NO_THREAD" "c \<noteq> LOCK_RESERVED_THREAD" using r(1) by (auto simp: LOCK_NO_THREAD_def LOCK_RESERVED_THREAD_def)
  note code = lock_acquire_def [of lb cpu i m s] set_lock_eq [OF len i] r(6) b_def
  consider (free) "locked_id ?l = LOCK_NO_THREAD" | (mine) "locked_id ?l = c" | (busy) b by (auto simp: b_def)
  then show ?thesis
  proof cases
    case free
    then have "lock_ok acq (waiting s ?a) (h(c := Suc (h c))) (?l\<lparr>locked_id := c, nested_locking_count := 1\<rparr>)"
      using ok cr by (auto simp: lock_ok_def)
    moreover have "\<not> b" using free by (simp add: b_def)
    ultimately show ?thesis using k free len i by (auto simp: code)
  next
    case mine
    then have "lock_ok acq (waiting s ?a) (h(c := Suc (h c))) (?l\<lparr>nested_locking_count := nested_locking_count ?l + 1\<rparr>)"
      using ok cr unat_inc [OF nest] by (auto simp: lock_ok_def)
    moreover have "\<not> b" using mine by (simp add: b_def)
    ultimately show ?thesis using k mine cr len i by (auto simp: code)
  next
    case busy
    have short: "unat (waiting_thread_count ?l) < 2 ^ 32 - 1"
      using ok busy waiting_short [OF k, of ?a] by (auto simp: lock_ok_def b_def split: if_splits)
    have "lock_ok (insert c acq) (waiting s ?a @ [c]) h (?l\<lparr>waiting_thread_count := waiting_thread_count ?l + 1\<rparr>)"
      using ok busy nf out unat_inc [OF short] by (auto simp: lock_ok_def b_def)
    moreover from sq.add_law [OF k c a] obtain s' where "sleepq_add 0 cpu ?a s = Inr s'" "kinv s'"
      "waiting s' = (waiting s)(?a := waiting s ?a @ [c])" by auto
    ultimately show ?thesis using busy len i by (auto simp: code)
  qed
qed

lemma lock_acquire_woken_spec:
  assumes k: "kinv s" and c: "running cpu s c" and i: "0 \<le> i" "i < 128" and len: "length (lock_table m) = 128"
    and ok: "lock_ok acq (waiting s (lock_addr lb i)) h (lk m i)" and inside: "c \<in> acq"
  shows "locked_id (lk m i) = LOCK_RESERVED_THREAD"
    "\<exists>l. lock_acquire_woken cpu i m s = Inr (with_lock i l m) \<and> locked_id l = c \<and>
      lock_ok (acq - {c}) (waiting s (lock_addr lb i)) (h(c := Suc (h c))) l"
proof -
  let ?l = "lk m i" and ?a = "lock_addr lb i"
  from k obtain rs cs ss where kv: "kview UNIV s rs cs ss" by (auto simp: kinv_def)
  note r = runningD [OF kv c]
  have nf: "c \<notin> set (waiting s ?a)" using sq.runs_not_waiting [OF k c] .
  have cr: "c \<noteq> LOCK_NO_THREAD" "c \<noteq> LOCK_RESERVED_THREAD" using r(1) by (auto simp: LOCK_NO_THREAD_def LOCK_RESERVED_THREAD_def)
  show res: "locked_id ?l = LOCK_RESERVED_THREAD" using ok inside nf by (auto simp: lock_ok_def split: if_splits)
  have q: "acq = insert c (set (waiting s ?a))" "unat (waiting_thread_count ?l) = Suc (length (waiting s ?a))" "h = (\<lambda>_. 0)"
    using ok inside nf res by (auto simp: lock_ok_def LOCK_NO_THREAD_def LOCK_RESERVED_THREAD_def)
  then have "waiting_thread_count ?l \<noteq> 0" by auto
  from unat_dec [OF this] have "unat (waiting_thread_count ?l - 1) = length (waiting s ?a)" using q(2) by simp
  then have "lock_ok (acq - {c}) (waiting s ?a) (h(c := Suc (h c)))
    (?l\<lparr>waiting_thread_count := waiting_thread_count ?l - 1, locked_id := c, nested_locking_count := 1\<rparr>)"
    using ok q nf cr by (auto simp: lock_ok_def)
  then show "\<exists>l. lock_acquire_woken cpu i m s = Inr (with_lock i l m) \<and> locked_id l = c \<and>
      lock_ok (acq - {c}) (waiting s ?a) (h(c := Suc (h c))) l"
    using len i r(6) by (auto simp: lock_acquire_woken_def set_lock_eq)
qed

lemma lock_release_spec:
  assumes k: "kinv s" and c: "thread_get_current_thread cpu s = Inr c" "0 < c" and i: "0 \<le> i" "i < 128"
    and len: "length (lock_table m) = 128" and a: "lock_addr lb i \<noteq> 0"
    and ok: "lock_ok acq (waiting s (lock_addr lb i)) h (lk m i)" and held: "0 < h c"
  shows "\<exists>l s' Q. lock_release lb cpu i m s = Inr (with_lock i l m, s') \<and> kinv s' \<and>
    waiting s' = (waiting s)(lock_addr lb i := Q) \<and> lock_ok acq Q (h(c := h c - 1)) l \<and>
    (if h c = 1 then
       Q = tl (waiting s (lock_addr lb i)) \<and>
       locked_id l = (if waiting s (lock_addr lb i) = [] then LOCK_NO_THREAD else LOCK_RESERVED_THREAD)
     else Q = waiting s (lock_addr lb i) \<and> locked_id l = c \<and> unat (nested_locking_count l) = h c - 1)"
proof -
  let ?l = "lk m i" and ?a = "lock_addr lb i"
  have cr: "c \<noteq> LOCK_NO_THREAD" "c \<noteq> LOCK_RESERVED_THREAD" "LOCK_NO_THREAD \<noteq> LOCK_RESERVED_THREAD"
    using c(2) by (auto simp: LOCK_NO_THREAD_def LOCK_RESERVED_THREAD_def)
  have own: "locked_id ?l = c" using ok held by (auto simp: lock_ok_def split: if_splits)
  with ok cr have q: "distinct (waiting s ?a)" "acq = set (waiting s ?a)" "unat (waiting_thread_count ?l) = length (waiting s ?a)"
    "c \<notin> acq" "nested_locking_count ?l \<noteq> 0" "h = (\<lambda>_. 0)(c := unat (nested_locking_count ?l))" by (auto simp: lock_ok_def)
  have nest: "nested_locking_count ?l > 1 \<longleftrightarrow> h c \<noteq> 1"
    using q(5,6) by (simp add: word_less_nat_alt) (metis One_nat_def less_one linorder_neqE_nat unat_eq_zero)
  note code = lock_release_def [of lb cpu i m s] set_lock_eq [OF len i]
  consider (nested) "h c \<noteq> 1" | (free) "h c = 1" "waiting s ?a = []" | (handoff) w ws where "h c = 1" "waiting s ?a = w # ws"
    by (cases "waiting s ?a") auto
  then show ?thesis
  proof cases
    case nested
    with nest own len i c have "lock_release lb cpu i m s = Inr (with_lock i (?l\<lparr>nested_locking_count := nested_locking_count ?l - 1\<rparr>) m, s)"
      by (simp add: code)
    moreover have "lock_ok acq (waiting s ?a) (h(c := h c - 1)) (?l\<lparr>nested_locking_count := nested_locking_count ?l - 1\<rparr>)"
      using q own cr nested unat_dec [OF q(5)] nest by (auto simp: lock_ok_def)
    moreover have "unat (nested_locking_count ?l - 1) = h c - 1" using unat_dec [OF q(5)] q(6) by simp
    ultimately show ?thesis using nested k own by auto
  next
    case free
    with q(3) have "waiting_thread_count ?l = 0" by (simp add: unat_eq_zero)
    with nest own len i c free have "lock_release lb cpu i m s = Inr (with_lock i (?l\<lparr>nested_locking_count := 0, locked_id := LOCK_NO_THREAD\<rparr>) m, s)"
      by (simp add: code)
    moreover have "lock_ok acq [] (h(c := h c - 1)) (?l\<lparr>nested_locking_count := 0, locked_id := LOCK_NO_THREAD\<rparr>)"
      using q free \<open>waiting_thread_count ?l = 0\<close> by (auto simp: lock_ok_def)
    moreover have "waiting s = (waiting s)(?a := [])" using free by (simp add: fun_eq_iff)
    ultimately show ?thesis using free k by fastforce
  next
    case handoff
    with q(3) have "waiting_thread_count ?l > 0" by (auto simp: word_gt_0)
    moreover from sq.wake_some [OF k a handoff(2)] obtain s' where s': "sleepq_wake ?a s = Inr s'" "kinv s'"
      "waiting s' = (waiting s)(?a := ws)" by auto
    ultimately have "lock_release lb cpu i m s = Inr (with_lock i (?l\<lparr>nested_locking_count := 0, locked_id := LOCK_RESERVED_THREAD\<rparr>) m, s')"
      using nest own len i c handoff by (simp add: code)
    moreover have "lock_ok acq ws (h(c := h c - 1)) (?l\<lparr>nested_locking_count := 0, locked_id := LOCK_RESERVED_THREAD\<rparr>)"
      using q handoff cr by (auto simp: lock_ok_def)
    ultimately show ?thesis using handoff s' by auto
  qed
qed

lemma lock_release_refused:
  assumes c: "thread_get_current_thread cpu s = Inr c" "0 < c" and i: "0 \<le> i" "i < 128"
    and len: "length (lock_table m) = 128" and ok: "lock_ok acq Q h (lk m i)" and held: "h c = 0"
  shows "lock_release lb cpu i m s = Inl Assert"
proof -
  have "locked_id (lk m i) \<noteq> c"
    using ok held c(2) by (auto simp: lock_ok_def LOCK_NO_THREAD_def LOCK_RESERVED_THREAD_def unat_eq_zero split: if_splits)
  then show ?thesis using c i len by (simp add: lock_release_def)
qed

section \<open>One condition variable at a time\<close>

abbreviation cv :: "lctables \<Rightarrow> int \<Rightarrow> cond_t" where
  "cv m k \<equiv> cond_table m ! nat k"

definition with_cond :: "int \<Rightarrow> cond_t \<Rightarrow> lctables \<Rightarrow> lctables" where
  "with_cond k c m = m\<lparr>cond_table := (cond_table m)[nat k := c]\<rparr>"

lemma set_cond_eq:
  "length (cond_table m) = 128 \<Longrightarrow> 0 \<le> k \<Longrightarrow> k < 128 \<Longrightarrow> set_cond k c m = Inr (with_cond k c m)"
  by (simp add: set_cond_def with_cond_def)

lemma with_cond_simps [simp]:
  "length (cond_table m) = 128 \<Longrightarrow> 0 \<le> k \<Longrightarrow> k < 128 \<Longrightarrow> 0 \<le> j \<Longrightarrow> cv (with_cond k c m) j = (if j = k then c else cv m j)"
  "length (cond_table (with_cond k c m)) = length (cond_table m)" "lock_table (with_cond k c m) = lock_table m"
  by (auto simp: with_cond_def nth_list_update)

lemma condition_signal_spec:
  assumes k: "kinv s" and j: "0 \<le> j" "j < 128" and len: "length (cond_table m) = 128"
    and a: "cond_addr cb j \<noteq> 0" "lock_addr lb i \<noteq> 0" and ok: "cond_ok wts (waiting s (cond_addr cb j)) (cv m j)"
  shows "\<exists>c s'. condition_signal cb lb j i m s = Inr (with_cond j c m, s') \<and> kinv s' \<and>
    waiting s' = (waiting s)(cond_addr cb j := tl (waiting s (cond_addr cb j))) \<and>
    cond_ok wts (tl (waiting s (cond_addr cb j))) c"
proof (cases "waiting s (cond_addr cb j)")
  case Nil
  with ok have "cond_waiting_thread_count (cv m j) = 0" by (simp add: cond_ok_def unat_eq_zero)
  then have "condition_signal cb lb j i m s = Inr (with_cond j (cv m j) m, s)"
    using a j len by (simp add: condition_signal_def with_cond_def)
  moreover have "waiting s = (waiting s)(cond_addr cb j := [])" using Nil by (simp add: fun_eq_iff)
  ultimately show ?thesis using ok Nil k by auto
next
  case (Cons w ws)
  with ok have n: "cond_waiting_thread_count (cv m j) \<noteq> 0" by (auto simp: cond_ok_def)
  then have "cond_waiting_thread_count (cv m j) > 0" by (simp add: word_gt_0)
  moreover from sq.wake_some [OF k a(1) Cons] obtain s' where "sleepq_wake (cond_addr cb j) s = Inr s'" "kinv s'"
    "waiting s' = (waiting s)(cond_addr cb j := ws)" by auto
  moreover have "cond_ok wts ws ((cv m j)\<lparr>cond_waiting_thread_count := cond_waiting_thread_count (cv m j) - 1\<rparr>)"
    using ok Cons unat_dec [OF n] by (auto simp: cond_ok_def)
  ultimately show ?thesis using a j len Cons by (auto simp: condition_signal_def set_cond_eq)
qed

lemma condition_broadcast_spec:
  assumes k: "kinv s" and j: "0 \<le> j" "j < 128" and len: "length (cond_table m) = 128"
    and a: "cond_addr cb j \<noteq> 0" "lock_addr lb i \<noteq> 0" and ok: "cond_ok wts (waiting s (cond_addr cb j)) (cv m j)"
  shows "\<exists>c s'. condition_broadcast cb lb j i m s = Inr (with_cond j c m, s') \<and> kinv s' \<and>
    waiting s' = (waiting s)(cond_addr cb j := []) \<and> cond_ok wts [] c"
proof (cases "waiting s (cond_addr cb j)")
  case Nil
  with ok have "cond_waiting_thread_count (cv m j) = 0" by (simp add: cond_ok_def unat_eq_zero)
  then have "condition_broadcast cb lb j i m s = Inr (with_cond j (cv m j) m, s)"
    using a j len by (simp add: condition_broadcast_def with_cond_def)
  moreover have "waiting s = (waiting s)(cond_addr cb j := [])" using Nil by (simp add: fun_eq_iff)
  ultimately show ?thesis using ok Nil k by auto
next
  case (Cons w ws)
  with ok have "cond_waiting_thread_count (cv m j) > 0" by (auto simp: cond_ok_def word_gt_0)
  moreover from sq.wake_all_law [OF k a(1)] obtain s' where "sleepq_wake_all (cond_addr cb j) s = Inr s'" "kinv s'"
    "waiting s' = (waiting s)(cond_addr cb j := [])" by auto
  moreover have "cond_ok wts [] ((cv m j)\<lparr>cond_waiting_thread_count := 0\<rparr>)" by (simp add: cond_ok_def)
  ultimately show ?thesis using a j len by (auto simp: condition_broadcast_def set_cond_eq)
qed

text \<open>
  \<open>condition_wait\<close> queues the caller before it gives up the lock, so no signal that follows the
  release can miss it.
\<close>

lemma condition_wait_spec:
  assumes k: "kinv s" and c: "running cpu s c" and j: "0 \<le> j" "j < 128" and i: "0 \<le> i" "i < 128"
    and len: "length (cond_table m) = 128" "length (lock_table m) = 128" and at: "tables_at lb cb"
    and cok: "cond_ok wts (waiting s (cond_addr cb j)) (cv m j)"
    and lok: "lock_ok acq (waiting s (lock_addr lb i)) h (lk m i)"
  defines "Qc \<equiv> waiting s (cond_addr cb j) @ [c]"
  shows "if h c = 0 then condition_wait cb lb cpu j i m s = Inl Assert
    else \<exists>d l s' Q. condition_wait cb lb cpu j i m s = Inr (with_lock i l (with_cond j d m), s') \<and> kinv s' \<and>
      waiting s' = (waiting s)(cond_addr cb j := Qc, lock_addr lb i := Q) \<and>
      cond_ok (insert c wts) Qc d \<and> lock_ok acq Q (h(c := h c - 1)) l \<and>
      (if h c = 1 then
         Q = tl (waiting s (lock_addr lb i)) \<and>
         locked_id l = (if waiting s (lock_addr lb i) = [] then LOCK_NO_THREAD else LOCK_RESERVED_THREAD)
       else Q = waiting s (lock_addr lb i) \<and> locked_id l = c \<and> unat (nested_locking_count l) = h c - 1)"
proof -
  let ?ca = "cond_addr cb j" and ?la = "lock_addr lb i"
  let ?d = "(cv m j)\<lparr>cond_waiting_thread_count := cond_waiting_thread_count (cv m j) + 1\<rparr>"
  note af = addr_facts [OF at i] addr_facts [OF at j]
  from k obtain rs cs ss where kv: "kview UNIV s rs cs ss" by (auto simp: kinv_def)
  note r = runningD [OF kv c]
  from sq.add_law [OF k c af(8)] obtain s1 where
    s1: "sleepq_add 0 cpu ?ca s = Inr s1" "kinv s1" "waiting s1 = (waiting s)(?ca := Qc)" by (auto simp: Qc_def)
  from sleepq_add_spec [OF kv c af(8), of 0] s1(1) have "scheduler_current_thread s1 = scheduler_current_thread s" by auto
  with r(6) have cur: "thread_get_current_thread cpu s1 = Inr c" by (simp add: thread_get_current_thread_def)
  have lok1: "lock_ok acq (waiting s1 ?la) h (lk (with_cond j ?d m) i)" using lok s1(3) af(11) [OF i] by simp
  have code: "condition_wait cb lb cpu j i m s = lock_release lb cpu i (with_cond j ?d m) s1"
    using af(1,8) len(1) j s1(1) by (simp add: condition_wait_def set_cond_eq)
  show ?thesis
  proof (cases "h c = 0")
    case True
    with lock_release_refused [OF cur r(1) i _ lok1] len show ?thesis by (simp add: code)
  next
    case False
    then have "0 < h c" by simp
    from lock_release_spec [OF s1(2) cur r(1) i _ af(1) lok1 this] len obtain l s' Q where
      rel: "lock_release lb cpu i (with_cond j ?d m) s1 = Inr (with_lock i l (with_cond j ?d m), s')" "kinv s'"
      "waiting s' = (waiting s1)(?la := Q)" "lock_ok acq Q (h(c := h c - 1)) l"
      "if h c = 1 then Q = tl (waiting s ?la) \<and>
         locked_id l = (if waiting s ?la = [] then LOCK_NO_THREAD else LOCK_RESERVED_THREAD)
       else Q = waiting s ?la \<and> locked_id l = c \<and> unat (nested_locking_count l) = h c - 1"
      using s1(3) af(11) [OF i] by auto
    have "unat (cond_waiting_thread_count (cv m j)) < 2 ^ 32 - 1"
      using cok waiting_short [OF k, of ?ca] by (simp add: cond_ok_def)
    from unat_inc [OF this] have "cond_ok (insert c wts) Qc ?d"
      using cok sq.runs_not_waiting [OF k c] by (auto simp: cond_ok_def Qc_def)
    moreover have "waiting s' = (waiting s)(?ca := Qc, ?la := Q)" using rel(3) s1(3) by simp
    ultimately show ?thesis
      unfolding code using False rel(1,2,4,5)
      by (simp only: if_False) (intro exI [of _ ?d] exI [of _ l] exI [of _ s'] exI [of _ Q] conjI; (rule refl | assumption)?)
  qed
qed

section \<open>Threads using locks\<close>

text \<open>
  Where a thread is: outside these functions, suspended in \<open>lock_acquire\<close>, or suspended in
  \<open>condition_wait\<close>. \<open>held t i\<close> counts the calls of \<open>lock_acquire\<close> on lock \<open>i\<close> that thread \<open>t\<close> has
  returned from and not yet undone by \<open>lock_release\<close>.
\<close>

datatype place = Outside | In_acquire int | In_wait int int

record lsys =
  tabs :: lctables
  kern :: kstate
  place :: "int \<Rightarrow> place"
  held :: "int \<Rightarrow> int \<Rightarrow> nat"

definition acquiring :: "lsys \<Rightarrow> int \<Rightarrow> int set" where
  "acquiring x i = {t. place x t = In_acquire i}"

definition in_wait :: "lsys \<Rightarrow> int \<Rightarrow> int set" where
  "in_wait x j = {t. \<exists>i. place x t = In_wait j i}"

definition gain :: "int \<Rightarrow> int \<Rightarrow> (int \<Rightarrow> int \<Rightarrow> nat) \<Rightarrow> int \<Rightarrow> int \<Rightarrow> nat" where
  "gain c i h = h(c := (h c)(i := Suc (h c i)))"

definition lose :: "int \<Rightarrow> int \<Rightarrow> (int \<Rightarrow> int \<Rightarrow> nat) \<Rightarrow> int \<Rightarrow> int \<Rightarrow> nat" where
  "lose c i h = h(c := (h c)(i := h c i - 1))"

text \<open>
  One section of one of the functions, or any other activity of the kernel that leaves the tables
  and the queues of locks and condition variables alone. A thread calls a function only when it
  runs and is not suspended inside another one, and goes on in a function it was suspended in when
  it runs again.
\<close>

inductive lstep :: "u32 \<Rightarrow> u32 \<Rightarrow> lsys \<Rightarrow> lsys \<Rightarrow> bool" for lb cb where
  acquire: "running cpu (kern x) c \<Longrightarrow> place x c = Outside \<Longrightarrow> 0 \<le> i \<Longrightarrow> i < 128 \<Longrightarrow>
    unat (nested_locking_count (lk (tabs x) i)) < 2 ^ 32 - 1 \<Longrightarrow>
    lock_acquire lb cpu i (tabs x) (kern x) = Inr (b, m, s) \<Longrightarrow>
    lstep lb cb x (x\<lparr>tabs := m, kern := s, place := (place x)(c := if b then In_acquire i else Outside),
      held := if b then held x else gain c i (held x)\<rparr>)"
| woken: "running cpu (kern x) c \<Longrightarrow> place x c = In_acquire i \<Longrightarrow>
    lock_acquire_woken cpu i (tabs x) (kern x) = Inr m \<Longrightarrow>
    lstep lb cb x (x\<lparr>tabs := m, place := (place x)(c := Outside), held := gain c i (held x)\<rparr>)"
| release: "running cpu (kern x) c \<Longrightarrow> place x c = Outside \<Longrightarrow> 0 \<le> i \<Longrightarrow> i < 128 \<Longrightarrow>
    lock_release lb cpu i (tabs x) (kern x) = Inr (m, s) \<Longrightarrow>
    lstep lb cb x (x\<lparr>tabs := m, kern := s, held := lose c i (held x)\<rparr>)"
| wait: "running cpu (kern x) c \<Longrightarrow> place x c = Outside \<Longrightarrow> 0 \<le> j \<Longrightarrow> j < 128 \<Longrightarrow> 0 \<le> i \<Longrightarrow> i < 128 \<Longrightarrow>
    condition_wait cb lb cpu j i (tabs x) (kern x) = Inr (m, s) \<Longrightarrow>
    lstep lb cb x (x\<lparr>tabs := m, kern := s, place := (place x)(c := In_wait j i), held := lose c i (held x)\<rparr>)"
| signalled: "running cpu (kern x) c \<Longrightarrow> place x c = In_wait j i \<Longrightarrow>
    unat (nested_locking_count (lk (tabs x) i)) < 2 ^ 32 - 1 \<Longrightarrow>
    lock_acquire lb cpu i (tabs x) (kern x) = Inr (b, m, s) \<Longrightarrow>
    lstep lb cb x (x\<lparr>tabs := m, kern := s, place := (place x)(c := if b then In_acquire i else Outside),
      held := if b then held x else gain c i (held x)\<rparr>)"
| signal: "0 \<le> j \<Longrightarrow> j < 128 \<Longrightarrow> 0 \<le> i \<Longrightarrow> i < 128 \<Longrightarrow>
    condition_signal cb lb j i (tabs x) (kern x) = Inr (m, s) \<Longrightarrow> lstep lb cb x (x\<lparr>tabs := m, kern := s\<rparr>)"
| broadcast: "0 \<le> j \<Longrightarrow> j < 128 \<Longrightarrow> 0 \<le> i \<Longrightarrow> i < 128 \<Longrightarrow>
    condition_broadcast cb lb j i (tabs x) (kern x) = Inr (m, s) \<Longrightarrow> lstep lb cb x (x\<lparr>tabs := m, kern := s\<rparr>)"
| create: "lock_create (tabs x) = Inr (i, m) \<Longrightarrow> lstep lb cb x (x\<lparr>tabs := m\<rparr>)"
| destroy: "0 \<le> i \<Longrightarrow> i < 128 \<Longrightarrow> lock_destroy i (tabs x) = Inr m \<Longrightarrow> lstep lb cb x (x\<lparr>tabs := m\<rparr>)"
| create_cond: "condition_create (tabs x) = Inr (j, m) \<Longrightarrow> lstep lb cb x (x\<lparr>tabs := m\<rparr>)"
| destroy_cond: "0 \<le> j \<Longrightarrow> j < 128 \<Longrightarrow> condition_destroy cb j (tabs x) = Inr m \<Longrightarrow> lstep lb cb x (x\<lparr>tabs := m\<rparr>)"
| other: "kinv s \<Longrightarrow> \<forall>i. 0 \<le> i \<and> i < 128 \<longrightarrow> waiting s (lock_addr lb i) = waiting (kern x) (lock_addr lb i) \<and>
      waiting s (cond_addr cb i) = waiting (kern x) (cond_addr cb i) \<Longrightarrow>
    lstep lb cb x (x\<lparr>kern := s\<rparr>)"

definition locks_inv :: "u32 \<Rightarrow> u32 \<Rightarrow> lsys \<Rightarrow> bool" where
  "locks_inv lb cb x \<longleftrightarrow> tables_at lb cb \<and> kinv (kern x) \<and>
     length (lock_table (tabs x)) = 128 \<and> length (cond_table (tabs x)) = 128 \<and>
     (\<forall>t i. place x t = In_acquire i \<longrightarrow> 0 \<le> i \<and> i < 128) \<and> (\<forall>t j i. place x t = In_wait j i \<longrightarrow> 0 \<le> i \<and> i < 128) \<and>
     (\<forall>i. 0 \<le> i \<and> i < 128 \<longrightarrow>
        lock_ok (acquiring x i) (waiting (kern x) (lock_addr lb i)) (\<lambda>t. held x t i) (lk (tabs x) i) \<and>
        cond_ok (in_wait x i) (waiting (kern x) (cond_addr cb i)) (cv (tabs x) i))"

lemma locks_invD:
  assumes "locks_inv lb cb x"
  shows "tables_at lb cb" "kinv (kern x)" "length (lock_table (tabs x)) = 128" "length (cond_table (tabs x)) = 128"
    "\<And>t i. place x t = In_acquire i \<Longrightarrow> 0 \<le> i \<and> i < 128" "\<And>t j i. place x t = In_wait j i \<Longrightarrow> 0 \<le> i \<and> i < 128"
    "\<And>i. 0 \<le> i \<Longrightarrow> i < 128 \<Longrightarrow> lock_ok (acquiring x i) (waiting (kern x) (lock_addr lb i)) (\<lambda>t. held x t i) (lk (tabs x) i)"
    "\<And>i. 0 \<le> i \<Longrightarrow> i < 128 \<Longrightarrow> cond_ok (in_wait x i) (waiting (kern x) (cond_addr cb i)) (cv (tabs x) i)"
  using assms by (auto simp: locks_inv_def)

lemmas lsys_defs = acquiring_def in_wait_def gain_def lose_def

lemma gain_apply: "(\<lambda>t. gain c i h t j) = (if j = i then (\<lambda>t. h t i)(c := Suc (h c i)) else (\<lambda>t. h t j))"
  by (auto simp: gain_def fun_eq_iff)

lemma lose_apply: "(\<lambda>t. lose c i h t j) = (if j = i then (\<lambda>t. h t i)(c := h c i - 1) else (\<lambda>t. h t j))"
  by (auto simp: lose_def fun_eq_iff)

text \<open>
  A thread that leaves \<open>condition_wait\<close> or runs outside it is in no queue, so the waiting sets may
  lose it.
\<close>

lemma cond_ok_mono: "cond_ok wts Q c \<Longrightarrow> set Q \<subseteq> wts' \<Longrightarrow> cond_ok wts' Q c"
  by (auto simp: cond_ok_def)

text \<open>A change of one lock, of its queue and of the thread that uses it keeps the invariant.\<close>

lemma locks_inv_lock:
  assumes inv: "locks_inv lb cb x" and i: "0 \<le> i" "i < 128"
    and s: "kinv s" "waiting s = (waiting (kern x))(lock_addr lb i := Q)"
    and ok: "lock_ok {t. ((place x)(c := p)) t = In_acquire i} Q (\<lambda>t. h t i) l"
    and h: "\<And>j. j \<noteq> i \<Longrightarrow> (\<lambda>t. h t j) = (\<lambda>t. held x t j)"
    and p: "p = Outside \<or> p = In_acquire i" "\<And>j. place x c = In_acquire j \<Longrightarrow> j = i"
    and c: "\<And>j. c \<notin> set (waiting (kern x) (cond_addr cb j))"
  shows "locks_inv lb cb (x\<lparr>tabs := with_lock i l (tabs x), kern := s, place := (place x)(c := p), held := h\<rparr>)"
    (is "locks_inv lb cb ?x")
proof -
  note d = locks_invD [OF inv]
  note af = addr_facts [OF d(1) i]
  have "lock_ok (acquiring ?x j) (waiting s (lock_addr lb j)) (\<lambda>t. h t j) (lk (tabs ?x) j)" if j: "0 \<le> j" "j < 128" for j
  proof (cases "j = i")
    case True
    with ok s(2) d(3) i show ?thesis by (simp add: acquiring_def)
  next
    case False
    then have "acquiring ?x j = acquiring x j" using p by (auto simp: acquiring_def)
    moreover have "waiting s (lock_addr lb j) = waiting (kern x) (lock_addr lb j)" using af(3) [OF j] False s(2) by simp
    ultimately show ?thesis using d(7) [OF j] h [OF False] False d(3) i j by simp
  qed
  moreover have "cond_ok (in_wait ?x j) (waiting s (cond_addr cb j)) (cv (tabs ?x) j)" if j: "0 \<le> j" "j < 128" for j
  proof -
    have "waiting s (cond_addr cb j) = waiting (kern x) (cond_addr cb j)" using af(6) [OF j] s(2) by simp
    moreover have "set (waiting (kern x) (cond_addr cb j)) \<subseteq> in_wait ?x j"
      using d(8) [OF j] c [of j] by (auto simp: cond_ok_def in_wait_def)
    ultimately show ?thesis using cond_ok_mono [OF d(8) [OF j], of "in_wait ?x j"] by simp
  qed
  moreover have "0 \<le> j \<and> j < 128" if "place ?x t = In_acquire j" for t j
    using that p i d(5) by (auto split: if_splits)
  moreover have "0 \<le> j \<and> j < 128" if "place ?x t = In_wait k j" for t j k
    using that p d(6) by (auto split: if_splits)
  ultimately show ?thesis using d(1,3,4) s(1) by (simp add: locks_inv_def)
qed

lemma locks_inv_acquire:
  assumes inv: "locks_inv lb cb x" and r: "running cpu (kern x) c" and pl: "\<And>j. place x c \<noteq> In_acquire j"
    and i: "0 \<le> i" "i < 128" and n: "unat (nested_locking_count (lk (tabs x) i)) < 2 ^ 32 - 1"
    and code: "lock_acquire lb cpu i (tabs x) (kern x) = Inr (b, m, s)"
  shows "locks_inv lb cb (x\<lparr>tabs := m, kern := s, place := (place x)(c := if b then In_acquire i else Outside),
      held := if b then held x else gain c i (held x)\<rparr>)"
proof -
  note d = locks_invD [OF inv]
  have c: "c \<notin> set (waiting (kern x) a)" for a using sq.runs_not_waiting [OF d(2) r] .
  have out: "c \<notin> acquiring x i" using pl by (simp add: acquiring_def)
  let ?a = "lock_addr lb i"
  from lock_acquire_spec [OF d(2) r i d(3) addr_facts(1) [OF d(1) i] d(7) [OF i] out n] code obtain l where
    l: "m = with_lock i l (tabs x)" "kinv s"
      "if b then waiting s = (waiting (kern x))(?a := waiting (kern x) ?a @ [c]) else s = kern x"
      "if b then lock_ok (insert c (acquiring x i)) (waiting (kern x) ?a @ [c]) (\<lambda>t. held x t i) l
       else lock_ok (acquiring x i) (waiting (kern x) ?a) ((\<lambda>t. held x t i)(c := Suc (held x c i))) l" by auto
  have "{t. ((place x)(c := In_acquire i)) t = In_acquire i} = insert c (acquiring x i)"
    "{t. ((place x)(c := Outside)) t = In_acquire i} = acquiring x i" using out by (auto simp: acquiring_def)
  note sets = this
  show ?thesis
    unfolding l(1)
  proof (rule locks_inv_lock [OF inv i l(2), where Q = "waiting s ?a"])
    show "waiting s = (waiting (kern x))(?a := waiting s ?a)" using l(3) by (cases b) simp_all
    show "lock_ok {t. ((place x)(c := if b then In_acquire i else Outside)) t = In_acquire i} (waiting s ?a)
        (\<lambda>t. (if b then held x else gain c i (held x)) t i) l"
      using l(3,4) sets by (cases b) (simp_all only: if_True if_False gain_apply fun_upd_same simp_thms)
    show "(\<lambda>t. (if b then held x else gain c i (held x)) t j) = (\<lambda>t. held x t j)" if "j \<noteq> i" for j
      using that by (simp add: gain_apply)
  qed (use pl c in auto)
qed

lemma locks_inv_woken:
  assumes inv: "locks_inv lb cb x" and r: "running cpu (kern x) c" and pl: "place x c = In_acquire i"
    and code: "lock_acquire_woken cpu i (tabs x) (kern x) = Inr m"
  shows "locks_inv lb cb (x\<lparr>tabs := m, place := (place x)(c := Outside), held := gain c i (held x)\<rparr>)"
proof -
  note d = locks_invD [OF inv]
  have i: "0 \<le> i" "i < 128" using d(5) [OF pl] by auto
  have inside: "c \<in> acquiring x i" using pl by (simp add: acquiring_def)
  from lock_acquire_woken_spec(2) [OF d(2) r i d(3) d(7) [OF i] inside] code obtain l where
    l: "m = with_lock i l (tabs x)" "lock_ok (acquiring x i - {c}) (waiting (kern x) (lock_addr lb i))
      ((\<lambda>t. held x t i)(c := Suc (held x c i))) l" by auto
  have "{t. ((place x)(c := Outside)) t = In_acquire i} = acquiring x i - {c}" by (auto simp: acquiring_def)
  note sets = this
  have "locks_inv lb cb (x\<lparr>tabs := with_lock i l (tabs x), kern := kern x, place := (place x)(c := Outside),
      held := gain c i (held x)\<rparr>)"
  proof (rule locks_inv_lock [OF inv i d(2), where Q = "waiting (kern x) (lock_addr lb i)"])
    show "lock_ok {t. ((place x)(c := Outside)) t = In_acquire i} (waiting (kern x) (lock_addr lb i))
        (\<lambda>t. gain c i (held x) t i) l"
      unfolding sets gain_apply using l(2) by simp
    show "(\<lambda>t. gain c i (held x) t j) = (\<lambda>t. held x t j)" if "j \<noteq> i" for j using that by (simp add: gain_apply)
  qed (use pl sq.runs_not_waiting [OF d(2) r] in auto)
  then show ?thesis by (simp add: l(1))
qed

lemma locks_inv_release:
  assumes inv: "locks_inv lb cb x" and r: "running cpu (kern x) c" and pl: "place x c = Outside"
    and i: "0 \<le> i" "i < 128" and code: "lock_release lb cpu i (tabs x) (kern x) = Inr (m, s)"
  shows "locks_inv lb cb (x\<lparr>tabs := m, kern := s, held := lose c i (held x)\<rparr>)"
proof -
  note d = locks_invD [OF inv]
  from d(2) obtain rs cs ss where kv: "kview UNIV (kern x) rs cs ss" by (auto simp: kinv_def)
  note rr = runningD [OF kv r]
  have "0 < held x c i" using lock_release_refused [OF rr(6,1) i d(3) d(7) [OF i], of lb] code by auto
  from lock_release_spec [OF d(2) rr(6,1) i d(3) addr_facts(1) [OF d(1) i] d(7) [OF i] this] code obtain l Q where
    l: "m = with_lock i l (tabs x)" "kinv s" "waiting s = (waiting (kern x))(lock_addr lb i := Q)"
      "lock_ok (acquiring x i) Q ((\<lambda>t. held x t i)(c := held x c i - 1)) l" by auto
  have same: "(place x)(c := Outside) = place x" using pl by auto
  have "locks_inv lb cb (x\<lparr>tabs := m, kern := s, place := (place x)(c := Outside), held := lose c i (held x)\<rparr>)"
    unfolding l(1) by (rule locks_inv_lock [OF inv i l(2,3)])
      (use l(4) pl sq.runs_not_waiting [OF d(2) r] same in \<open>auto simp: lose_apply acquiring_def\<close>)
  then show ?thesis by (simp only: same) (simp add: lsys.surjective)
qed

text \<open>A change of one condition variable and of its queue.\<close>

lemma locks_inv_cond:
  assumes inv: "locks_inv lb cb x" and j: "0 \<le> j" "j < 128"
    and s: "kinv s" "waiting s = (waiting (kern x))(cond_addr cb j := Q)" and ok: "cond_ok (in_wait x j) Q c"
  shows "locks_inv lb cb (x\<lparr>tabs := with_cond j c (tabs x), kern := s\<rparr>)" (is "locks_inv lb cb ?x")
proof -
  note d = locks_invD [OF inv]
  note af = addr_facts [OF d(1) j]
  have sets: "acquiring ?x = acquiring x" "in_wait ?x = in_wait x" by (auto simp: acquiring_def in_wait_def)
  have "lock_ok (acquiring ?x i) (waiting s (lock_addr lb i)) (\<lambda>t. held ?x t i) (lk (tabs ?x) i)"
    if i: "0 \<le> i" "i < 128" for i
    using d(7) [OF i] af(5) [OF i] s(2) sets by simp
  moreover have "cond_ok (in_wait ?x i) (waiting s (cond_addr cb i)) (cv (tabs ?x) i)" if i: "0 \<le> i" "i < 128" for i
    using d(8) [OF i] af(4) [OF i] s(2) sets ok d(4) i j by (cases "i = j") simp_all
  ultimately show ?thesis using d(1-6) s(1) by (simp add: locks_inv_def)
qed

text \<open>A change of fields of the tables that the invariant does not mention.\<close>

lemma locks_inv_tables:
  assumes inv: "locks_inv lb cb x"
    and m: "length (lock_table m) = 128" "length (cond_table m) = 128"
      "\<And>i. 0 \<le> i \<Longrightarrow> i < 128 \<Longrightarrow> \<exists>u. lk m i = (lk (tabs x) i)\<lparr>is_used := u\<rparr>"
      "\<And>i. 0 \<le> i \<Longrightarrow> i < 128 \<Longrightarrow> \<exists>u. cv m i = (cv (tabs x) i)\<lparr>cond_is_used := u\<rparr>"
  shows "locks_inv lb cb (x\<lparr>tabs := m\<rparr>)" (is "locks_inv lb cb ?x")
proof -
  note d = locks_invD [OF inv]
  have sets: "acquiring ?x = acquiring x" "in_wait ?x = in_wait x" by (auto simp: acquiring_def in_wait_def)
  have "lock_ok (acquiring ?x i) (waiting (kern x) (lock_addr lb i)) (\<lambda>t. held ?x t i) (lk m i)"
    "cond_ok (in_wait ?x i) (waiting (kern x) (cond_addr cb i)) (cv m i)" if i: "0 \<le> i" "i < 128" for i
    using d(7,8) [OF i] m(3,4) [OF i] sets by (auto simp: lock_ok_def cond_ok_def)
  then show ?thesis using d(1-6) m(1,2) by (simp add: locks_inv_def)
qed

lemma locks_inv_wait:
  assumes inv: "locks_inv lb cb x" and r: "running cpu (kern x) c" and pl: "place x c = Outside"
    and j: "0 \<le> j" "j < 128" and i: "0 \<le> i" "i < 128"
    and code: "condition_wait cb lb cpu j i (tabs x) (kern x) = Inr (m, s)"
  shows "locks_inv lb cb (x\<lparr>tabs := m, kern := s, place := (place x)(c := In_wait j i), held := lose c i (held x)\<rparr>)"
    (is "locks_inv lb cb ?x")
proof -
  note d = locks_invD [OF inv]
  from condition_wait_spec [OF d(2) r j i d(4,3,1) d(8) [OF j] d(7) [OF i]] code obtain e l Q where
    w: "m = with_lock i l (with_cond j e (tabs x))" "kinv s"
      "waiting s = (waiting (kern x))(cond_addr cb j := waiting (kern x) (cond_addr cb j) @ [c], lock_addr lb i := Q)"
      "cond_ok (insert c (in_wait x j)) (waiting (kern x) (cond_addr cb j) @ [c]) e"
      "lock_ok (acquiring x i) Q ((\<lambda>t. held x t i)(c := held x c i - 1)) l" by (auto split: if_splits)
  note ai = addr_facts [OF d(1) i] and aj = addr_facts [OF d(1) j]
  have acq: "acquiring ?x = acquiring x" using pl by (auto simp: acquiring_def fun_eq_iff)
  have iw: "in_wait ?x k = (if k = j then insert c (in_wait x j) else in_wait x k)" for k
    using pl by (auto simp: in_wait_def)
  have "lock_ok (acquiring ?x k) (waiting s (lock_addr lb k)) (\<lambda>t. lose c i (held x) t k) (lk m k)"
    if k: "0 \<le> k" "k < 128" for k
    unfolding acq using w(1,3,5) d(3) d(7) [OF k] ai(3) [OF k] aj(5) [OF k] i k by (cases "k = i") (simp_all add: lose_apply)
  moreover have "cond_ok (in_wait ?x k) (waiting s (cond_addr cb k)) (cv m k)" if k: "0 \<le> k" "k < 128" for k
    unfolding iw using w(1,3,4) d(4) d(8) [OF k] aj(4) [OF k] ai(6) [OF k] j k by (cases "k = j") simp_all
  ultimately show ?thesis using d(1,3-6) w(1,2) i by (auto simp: locks_inv_def)
qed

lemma lock_create_spec:
  assumes "length (lock_table m) = 128"
  shows "if \<exists>i. 0 \<le> i \<and> i < 128 \<and> is_used (lk m i) = 0
    then \<exists>i. 0 \<le> i \<and> i < 128 \<and> is_used (lk m i) = 0 \<and> (\<forall>j. 0 \<le> j \<and> j < i \<longrightarrow> is_used (lk m j) \<noteq> 0) \<and>
      lock_create m = Inr (i, with_lock i ((lk m i)\<lparr>is_used := 1\<rparr>) m)
    else lock_create m = Inl Panic"
proof -
  from scan_total [of 0 CONFIG_MAX_LOCKS "lock_table m" "\<lambda>l. is_used l = 0"] assms obtain r where
    r: "scan (\<lambda>l. is_used l = 0) (lock_table m) 0 CONFIG_MAX_LOCKS = Inr r"
      "first_from (\<lambda>k. is_used (lk m k) = 0) 0 128 r" by (auto simp: CONFIG_MAX_LOCKS_def)
  show ?thesis
  proof (cases r)
    case None
    with r have "lock_create m = Inl Panic" by (simp add: lock_create_def)
    moreover have "\<not> (\<exists>i. 0 \<le> i \<and> i < 128 \<and> is_used (lk m i) = 0)" using r(2) None by (auto simp: first_from_def)
    ultimately show ?thesis by simp
  next
    case (Some i)
    with r(2) have i: "0 \<le> i" "i < 128" "is_used (lk m i) = 0" "\<forall>j. 0 \<le> j \<and> j < i \<longrightarrow> is_used (lk m j) \<noteq> 0"
      by (auto simp: first_from_def)
    with Some r(1) assms have "lock_create m = Inr (i, with_lock i ((lk m i)\<lparr>is_used := 1\<rparr>) m)"
      by (simp add: lock_create_def set_lock_eq)
    with i show ?thesis by auto
  qed
qed

lemma condition_create_spec:
  assumes "length (cond_table m) = 128" "condition_create m = Inr (j, m')"
  shows "0 \<le> j \<and> j < 128 \<and> m' = with_cond j ((cv m j)\<lparr>cond_is_used := 1\<rparr>) m"
proof -
  from scan_total [of 0 CONFIG_MAX_LOCKS "cond_table m" "\<lambda>c. cond_is_used c = 0"] assms obtain r where
    r: "scan (\<lambda>c. cond_is_used c = 0) (cond_table m) 0 CONFIG_MAX_LOCKS = Inr r"
      "first_from (\<lambda>k. cond_is_used (cv m k) = 0) 0 128 r" by (auto simp: CONFIG_MAX_LOCKS_def)
  with assms show ?thesis by (cases r) (auto simp: condition_create_def first_from_def set_cond_eq)
qed

lemma with_lock_fields:
  "length (lock_table m) = 128 \<Longrightarrow> 0 \<le> i \<Longrightarrow> i < 128 \<Longrightarrow> 0 \<le> k \<Longrightarrow>
     \<exists>u. lk (with_lock i ((lk m i)\<lparr>is_used := v\<rparr>) m) k = (lk m k)\<lparr>is_used := u\<rparr>"
  by (cases "k = i") (auto intro: exI [of _ "is_used (lk m k)"])

lemma with_cond_fields:
  "length (cond_table m) = 128 \<Longrightarrow> 0 \<le> j \<Longrightarrow> j < 128 \<Longrightarrow> 0 \<le> k \<Longrightarrow>
     \<exists>u. cv (with_cond j ((cv m j)\<lparr>cond_is_used := v\<rparr>) m) k = (cv m k)\<lparr>cond_is_used := u\<rparr>"
  by (cases "k = j") (auto intro: exI [of _ "cond_is_used (cv m k)"])

lemma locks_inv_same_lock:
  assumes "locks_inv lb cb x" "0 \<le> i" "i < 128"
  shows "locks_inv lb cb (x\<lparr>tabs := with_lock i ((lk (tabs x) i)\<lparr>is_used := v\<rparr>) (tabs x)\<rparr>)"
proof (rule locks_inv_tables [OF assms(1)])
  show "\<exists>u. cv (with_lock i ((lk (tabs x) i)\<lparr>is_used := v\<rparr>) (tabs x)) k = (cv (tabs x) k)\<lparr>cond_is_used := u\<rparr>" for k
    by (rule exI [of _ "cond_is_used (cv (tabs x) k)"]) simp
qed (use locks_invD [OF assms(1)] with_lock_fields assms in auto)

lemma locks_inv_same_cond:
  assumes "locks_inv lb cb x" "0 \<le> j" "j < 128"
  shows "locks_inv lb cb (x\<lparr>tabs := with_cond j ((cv (tabs x) j)\<lparr>cond_is_used := v\<rparr>) (tabs x)\<rparr>)"
proof (rule locks_inv_tables [OF assms(1)])
  show "\<exists>u. lk (with_cond j ((cv (tabs x) j)\<lparr>cond_is_used := v\<rparr>) (tabs x)) k = (lk (tabs x) k)\<lparr>is_used := u\<rparr>" for k
    by (rule exI [of _ "is_used (lk (tabs x) k)"]) simp
qed (use locks_invD [OF assms(1)] with_cond_fields assms in auto)

lemma lstep_inv:
  assumes "lstep lb cb x y" "locks_inv lb cb x"
  shows "locks_inv lb cb y"
  using assms
proof (cases rule: lstep.cases)
  note d = locks_invD [OF assms(2)]
  { case (acquire cpu c i b m s)
    with locks_inv_acquire [OF assms(2) acquire(2), of i b m s] show ?thesis by simp
  next
    case (woken cpu c i m)
    with locks_inv_woken [OF assms(2)] show ?thesis by simp
  next
    case (release cpu c i m s)
    with locks_inv_release [OF assms(2)] show ?thesis by simp
  next
    case (wait cpu c j i m s)
    with locks_inv_wait [OF assms(2)] show ?thesis by simp
  next
    case (signalled cpu c j i b m s)
    with locks_inv_acquire [OF assms(2) signalled(2), of i b m s] d(6) [OF signalled(3)] show ?thesis by simp
  next
    case (signal j i m s)
    with condition_signal_spec [OF d(2) signal(2,3) d(4) addr_facts(2) [OF d(1) signal(2,3)] addr_facts(1) [OF d(1) signal(4,5)] d(8)]
    show ?thesis by (auto intro: locks_inv_cond [OF assms(2)])
  next
    case (broadcast j i m s)
    with condition_broadcast_spec [OF d(2) broadcast(2,3) d(4) addr_facts(2) [OF d(1) broadcast(2,3)] addr_facts(1) [OF d(1) broadcast(4,5)] d(8)]
    show ?thesis by (auto intro: locks_inv_cond [OF assms(2)])
  next
    case (create i m)
    with lock_create_spec [OF d(3)] show ?thesis by (auto intro: locks_inv_same_lock [OF assms(2)] split: if_splits)
  next
    case (destroy i m)
    with d(3) show ?thesis
      by (auto simp: lock_destroy_def set_lock_eq intro: locks_inv_same_lock [OF assms(2)])
  next
    case (create_cond j m)
    with condition_create_spec [OF d(4)] show ?thesis by (auto intro: locks_inv_same_cond [OF assms(2)])
  next
    case (destroy_cond j m)
    with d(4) show ?thesis
      by (auto simp: condition_destroy_def set_cond_eq intro: locks_inv_same_cond [OF assms(2)])
  next
    case (other s)
    with d show ?thesis by (simp add: locks_inv_def acquiring_def in_wait_def)
  }
qed

section \<open>Reachable states\<close>

definition locks_start :: "u32 \<Rightarrow> u32 \<Rightarrow> lsys \<Rightarrow> bool" where
  "locks_start lb cb x \<longleftrightarrow> tables_at lb cb \<and> kinv (kern x) \<and>
     (\<exists>m. length (lock_table m) = 128 \<and> length (cond_table m) = 128 \<and> tabs x = cond_table_init (lock_table_init m)) \<and>
     (\<forall>i. 0 \<le> i \<and> i < 128 \<longrightarrow> waiting (kern x) (lock_addr lb i) = [] \<and> waiting (kern x) (cond_addr cb i) = []) \<and>
     place x = (\<lambda>_. Outside) \<and> held x = (\<lambda>_ _. 0)"

inductive locks_reach :: "u32 \<Rightarrow> u32 \<Rightarrow> lsys \<Rightarrow> bool" for lb cb where
  start: "locks_start lb cb x \<Longrightarrow> locks_reach lb cb x"
| step: "locks_reach lb cb x \<Longrightarrow> lstep lb cb x y \<Longrightarrow> locks_reach lb cb y"

lemma locks_start_inv: "locks_start lb cb x \<Longrightarrow> locks_inv lb cb x"
  by (auto simp: locks_start_def locks_inv_def lock_table_init_def cond_table_init_def lock_ok_def cond_ok_def
      acquiring_def in_wait_def nat_less_iff)

lemma locks_reach_inv: "locks_reach lb cb x \<Longrightarrow> locks_inv lb cb x"
  by (induction rule: locks_reach.induct) (auto intro: locks_start_inv lstep_inv)

section \<open>A reserved lock\<close>

text \<open>The thread a reserved lock is kept for: inside \<open>lock_acquire\<close> and no longer queued.\<close>

definition granted :: "u32 \<Rightarrow> lsys \<Rightarrow> int \<Rightarrow> int set" where
  "granted lb x i = acquiring x i - set (waiting (kern x) (lock_addr lb i))"

lemma reserved_state:
  assumes "locks_inv lb cb x" "0 \<le> i" "i < 128" "locked_id (lk (tabs x) i) = LOCK_RESERVED_THREAD"
  obtains g where "granted lb x i = {g}" "\<forall>t. held x t i = 0"
proof -
  from locks_invD(7) [OF assms(1-3)] assms(4) obtain g where
    "g \<notin> set (waiting (kern x) (lock_addr lb i))" "acquiring x i = insert g (set (waiting (kern x) (lock_addr lb i)))"
    "(\<lambda>t. held x t i) = (\<lambda>_. 0)" by (auto simp: lock_ok_def LOCK_NO_THREAD_def LOCK_RESERVED_THREAD_def)
  then show thesis by (intro that [of g]) (auto simp: granted_def fun_eq_iff)
qed

lemma acquire_reserved:
  assumes inv: "locks_inv lb cb x" and i: "0 \<le> i" "i < 128"
    and res: "locked_id (lk (tabs x) i) = LOCK_RESERVED_THREAD"
    and r: "running cpu (kern x) c" and pl: "\<And>j. place x c \<noteq> In_acquire j" and k: "0 \<le> k" "k < 128"
    and n: "unat (nested_locking_count (lk (tabs x) k)) < 2 ^ 32 - 1"
    and code: "lock_acquire lb cpu k (tabs x) (kern x) = Inr (b, m, s)"
    and y: "tabs y = m" "kern y = s" "place y = (place x)(c := if b then In_acquire k else Outside)"
  shows "locked_id (lk (tabs y) i) = LOCK_RESERVED_THREAD \<and> granted lb y i = granted lb x i"
proof -
  note d = locks_invD [OF inv]
  have nf: "c \<notin> set (waiting (kern x) a)" for a using sq.runs_not_waiting [OF d(2) r] .
  have out: "c \<notin> acquiring x i" "c \<notin> acquiring x k" using pl by (auto simp: acquiring_def)
  from lock_acquire_spec [OF d(2) r k d(3) addr_facts(1) [OF d(1) k] d(7) [OF k] out(2) n] code obtain l where
    l: "m = with_lock k l (tabs x)" "b \<longrightarrow> locked_id l = locked_id (lk (tabs x) k)"
      "b \<longleftrightarrow> locked_id (lk (tabs x) k) \<noteq> LOCK_NO_THREAD \<and> locked_id (lk (tabs x) k) \<noteq> c"
      "if b then waiting s = (waiting (kern x))(lock_addr lb k := waiting (kern x) (lock_addr lb k) @ [c]) else s = kern x"
    by auto
  show ?thesis
  proof (cases "k = i")
    case True
    have "0 < c" using d(2) r runningD(1) by (auto simp: kinv_def)
    then have "b" using l(3) True res by (auto simp: LOCK_NO_THREAD_def LOCK_RESERVED_THREAD_def)
    then have "acquiring y i = insert c (acquiring x i)" using True y(3) by (auto simp: acquiring_def)
    with True l \<open>b\<close> res d(3) i nf out y show ?thesis by (auto simp: granted_def)
  next
    case False
    then have "acquiring y i = acquiring x i" using y(3) pl by (auto simp: acquiring_def)
    moreover have "waiting s (lock_addr lb i) = waiting (kern x) (lock_addr lb i)"
      using l(4) addr_facts(3) [OF d(1) k i] False by (auto split: if_splits)
    ultimately show ?thesis using False l(1) res d(3) i k y by (simp add: granted_def)
  qed
qed

text \<open>Releasing another lock, which a lock that nobody holds cannot be.\<close>

lemma release_reserved:
  assumes inv: "locks_inv lb cb x" and i: "0 \<le> i" "i < 128"
    and res: "locked_id (lk (tabs x) i) = LOCK_RESERVED_THREAD"
    and k: "0 \<le> k" "k < 128" and h: "held x c k \<noteq> 0"
    and y: "\<exists>l e j. tabs y = with_lock k l (tabs x) \<or> tabs y = with_lock k l (with_cond j e (tabs x))"
      "waiting (kern y) (lock_addr lb i) = waiting (kern x) (lock_addr lb i)" "acquiring y i = acquiring x i"
  shows "locked_id (lk (tabs y) i) = LOCK_RESERVED_THREAD \<and> granted lb y i = granted lb x i"
proof -
  note d = locks_invD [OF inv]
  have "k \<noteq> i" using reserved_state [OF inv i res] h by metis
  with y d(3) i k res show ?thesis by (auto simp: granted_def)
qed

lemma reserved_step:
  assumes st: "lstep lb cb x y" and inv: "locks_inv lb cb x" and i: "0 \<le> i" "i < 128"
    and res: "locked_id (lk (tabs x) i) = LOCK_RESERVED_THREAD" and g: "granted lb x i = {g}"
  shows "locked_id (lk (tabs y) i) = LOCK_RESERVED_THREAD \<and> granted lb y i = {g} \<or>
    locked_id (lk (tabs y) i) = g \<and> held y g i = 1 \<and> place y g = Outside"
  using st
proof (cases rule: lstep.cases)
  note d = locks_invD [OF inv]
  { case (acquire cpu c k b m s)
    have "locked_id (lk (tabs y) i) = LOCK_RESERVED_THREAD \<and> granted lb y i = granted lb x i"
      by (rule acquire_reserved [OF inv i res acquire(2) _ acquire(4-7)]) (use acquire in auto)
    with g show ?thesis by simp
  next
    case (signalled cpu c j k b m s)
    have "locked_id (lk (tabs y) i) = LOCK_RESERVED_THREAD \<and> granted lb y i = granted lb x i"
      by (rule acquire_reserved [OF inv i res signalled(2) _ _ _ signalled(4,5)]) (use signalled d(6) in auto)
    with g show ?thesis by simp
  next
    case (woken cpu c k m)
    have k: "0 \<le> k" "k < 128" using d(5) [OF woken(3)] by auto
    have inside: "c \<in> acquiring x k" using woken(3) by (simp add: acquiring_def)
    from lock_acquire_woken_spec(2) [OF d(2) woken(2) k d(3) d(7) [OF k] inside] woken(4) obtain l where
      l: "m = with_lock k l (tabs x)" "locked_id l = c" by auto
    show ?thesis
    proof (cases "k = i")
      case True
      have "c \<in> granted lb x i" using inside True sq.runs_not_waiting [OF d(2) woken(2)] by (simp add: granted_def)
      then have "c = g" using g by simp
      moreover have "held x g i = 0" using reserved_state [OF inv i res] by metis
      ultimately show ?thesis using True l woken(1) d(3) i by (simp add: gain_def)
    next
      case False
      then have "acquiring y i = acquiring x i" using woken(1,3) by (auto simp: acquiring_def)
      with False l woken(1) d(3) i k res g show ?thesis by (simp add: granted_def)
    qed
  next
    case (release cpu c k m s)
    from d(2) obtain rs cs ss where kv: "kview UNIV (kern x) rs cs ss" by (auto simp: kinv_def)
    note rr = runningD [OF kv release(2)]
    have h: "0 < held x c k" using lock_release_refused [OF rr(6,1) release(4,5) d(3) d(7) [OF release(4,5)], of lb] release(6) by auto
    then have "k \<noteq> i" using reserved_state [OF inv i res] by (metis less_irrefl)
    from lock_release_spec [OF d(2) rr(6,1) release(4,5) d(3) addr_facts(1) [OF d(1) release(4,5)] d(7) [OF release(4,5)] h] release(6)
    obtain l Q where l: "m = with_lock k l (tabs x)" "waiting s = (waiting (kern x))(lock_addr lb k := Q)" by auto
    have "locked_id (lk (tabs y) i) = LOCK_RESERVED_THREAD \<and> granted lb y i = granted lb x i"
      by (rule release_reserved [OF inv i res release(4,5), of c])
        (use h l release(1) \<open>k \<noteq> i\<close> addr_facts(3) [OF d(1) release(4,5) i] in \<open>auto simp: acquiring_def\<close>)
    with g show ?thesis by simp
  next
    case (wait cpu c j k m s)
    from condition_wait_spec [OF d(2) wait(2,4-7) d(4,3,1) d(8) [OF wait(4,5)] d(7) [OF wait(6,7)]] wait(8) obtain e l Q where
      w: "held x c k \<noteq> 0" "m = with_lock k l (with_cond j e (tabs x))"
      "waiting s = (waiting (kern x))(cond_addr cb j := waiting (kern x) (cond_addr cb j) @ [c], lock_addr lb k := Q)"
      by (auto split: if_splits)
    then have "k \<noteq> i" using reserved_state [OF inv i res] by metis
    have "acquiring y i = acquiring x i" using wait(1,3) by (auto simp: acquiring_def)
    then have "locked_id (lk (tabs y) i) = LOCK_RESERVED_THREAD \<and> granted lb y i = granted lb x i"
      using w wait(1) \<open>k \<noteq> i\<close> addr_facts(3) [OF d(1) wait(6,7) i] addr_facts(5) [OF d(1) wait(4,5) i]
      by (intro release_reserved [OF inv i res wait(6,7) w(1)]) auto
    with g show ?thesis by simp
  next
    case (signal j k m s)
    from condition_signal_spec [OF d(2) signal(2,3) d(4) addr_facts(2) [OF d(1) signal(2,3)] addr_facts(1) [OF d(1) signal(4,5)]
        d(8) [OF signal(2,3)]] signal(6)
    obtain e Q where "m = with_cond j e (tabs x)" "waiting s = (waiting (kern x))(cond_addr cb j := Q)" by auto
    with signal(1) addr_facts(5) [OF d(1) signal(2,3) i] res g show ?thesis by (simp add: granted_def acquiring_def)
  next
    case (broadcast j k m s)
    from condition_broadcast_spec [OF d(2) broadcast(2,3) d(4) addr_facts(2) [OF d(1) broadcast(2,3)] addr_facts(1) [OF d(1) broadcast(4,5)]
        d(8) [OF broadcast(2,3)]] broadcast(6)
    obtain e Q where "m = with_cond j e (tabs x)" "waiting s = (waiting (kern x))(cond_addr cb j := Q)" by auto
    with broadcast(1) addr_facts(5) [OF d(1) broadcast(2,3) i] res g show ?thesis by (simp add: granted_def acquiring_def)
  next
    case (create k m)
    from lock_create_spec [OF d(3)] create(2) have "0 \<le> k" "k < 128" "m = with_lock k ((lk (tabs x) k)\<lparr>is_used := 1\<rparr>) (tabs x)"
      by (auto split: if_splits)
    with create(1) res g i d(3) show ?thesis by (cases "i = k") (simp_all add: granted_def acquiring_def)
  next
    case (destroy k m)
    then have "m = with_lock k ((lk (tabs x) k)\<lparr>is_used := 0\<rparr>) (tabs x)" using d(3) by (auto simp: lock_destroy_def set_lock_eq)
    with destroy(1-3) res g i d(3) show ?thesis by (cases "i = k") (simp_all add: granted_def acquiring_def)
  next
    case (create_cond j m)
    from condition_create_spec [OF d(4) create_cond(2)] have "lock_table m = lock_table (tabs x)" by simp
    with create_cond(1) res g show ?thesis by (simp add: granted_def acquiring_def)
  next
    case (destroy_cond j m)
    then have "lock_table m = lock_table (tabs x)" using d(4) by (auto simp: condition_destroy_def set_cond_eq)
    with destroy_cond(1) res g show ?thesis by (simp add: granted_def acquiring_def)
  next
    case (other s)
    with res g i show ?thesis by (simp add: granted_def acquiring_def)
  }
qed

section \<open>Properties\<close>

text \<open>
  Property C2: a lock excludes. Whatever the threads do, a thread that has acquired a lock and not
  released it is the one the lock records, to the depth the lock counts, and no other thread holds
  it.
\<close>

theorem lock_mutual_exclusion:
  assumes "locks_reach lb cb x" "0 \<le> i" "i < 128" "0 < held x t i"
  shows "locked_id (lk (tabs x) i) = t \<and> unat (nested_locking_count (lk (tabs x) i)) = held x t i \<and>
    (\<forall>u. u \<noteq> t \<longrightarrow> held x u i = 0)"
proof -
  note ok = locks_invD(7) [OF locks_reach_inv [OF assms(1)] assms(2,3)]
  have "(\<lambda>u. held x u i) t \<noteq> 0" using assms(4) by simp
  with ok have h: "(\<lambda>u. held x u i) = (\<lambda>_. 0)(locked_id (lk (tabs x) i) := unat (nested_locking_count (lk (tabs x) i)))"
    by (metis lock_ok_def)
  from fun_cong [OF h, of t] fun_cong [OF h] assms(4) show ?thesis by (auto split: if_splits)
qed

text \<open>The first thread, with tables of 128 locks and condition variables in kernel memory.\<close>

definition lc0 :: lctables where
  "lc0 = cond_table_init (lock_table_init
     \<lparr>lock_table = replicate 128 \<lparr>locked_id = 0, nested_locking_count = 0, waiting_thread_count = 0, is_used = 0\<rparr>,
      cond_table = replicate 128 \<lparr>cond_waiting_thread_count = 0, cond_is_used = 0\<rparr>\<rparr>)"

definition lsys0 :: "kstate \<Rightarrow> lsys" where
  "lsys0 s = \<lparr>tabs = lc0, kern = s, place = (\<lambda>_. Outside), held = (\<lambda>_ _. 0)\<rparr>"

lemma lsys0_facts [simp]:
  "kern (lsys0 s) = s" "place (lsys0 s) t = Outside" "held (lsys0 s) t j = 0" "tabs (lsys0 s) = lc0"
  "0 \<le> i \<Longrightarrow> i < 128 \<Longrightarrow> lk lc0 i = \<lparr>locked_id = LOCK_NO_THREAD, nested_locking_count = 0, waiting_thread_count = 0, is_used = 0\<rparr>"
  by (simp_all add: lsys0_def lc0_def lock_table_init_def cond_table_init_def nat_less_iff)

lemma lsys0_start:
  assumes "kinv s" "\<And>r. waiting s r = []"
  shows "locks_start 0x80100000 0x80110000 (lsys0 s)"
proof -
  have "\<exists>m. length (lock_table m) = 128 \<and> length (cond_table m) = 128 \<and> lc0 = cond_table_init (lock_table_init m)"
    unfolding lc0_def by (intro exI conjI refl) simp_all
  with assms show ?thesis by (simp add: locks_start_def lsys0_def tables_at_def table_at_def)
qed

text \<open>The first thread takes lock 5.\<close>

lemma lsys0_acquire:
  obtains s m where "first_thread = Inr s" "running 0 s 1" "\<And>r. waiting s r = []"
    "locks_reach 0x80100000 0x80110000 (lsys0 s)"
    "locks_reach 0x80100000 0x80110000 (lsys0 s\<lparr>tabs := m, kern := s, place := (\<lambda>_. Outside), held := gain 1 5 (\<lambda>_ _. 0)\<rparr>)"
proof -
  obtain s where s: "first_thread = Inr s" "kinv s" "running 0 s 1" "\<And>r. waiting s r = []"
    by (rule first_thread_sems) blast
  from s(2) obtain rs cs ss where kv: "kview UNIV s rs cs ss" by (auto simp: kinv_def)
  have r0: "locks_reach 0x80100000 0x80110000 (lsys0 s)" by (intro locks_reach.start lsys0_start s)
  have len: "length (lock_table lc0) = 128" by (simp add: lc0_def lock_table_init_def cond_table_init_def)
  then obtain m where "lock_acquire 0x80100000 0 5 lc0 s = Inr (False, m, s)"
    using runningD(6) [OF kv s(3)] lsys0_facts(5) [of 5] by (simp add: lock_acquire_def set_lock_eq)
  then have "lstep 0x80100000 0x80110000 (lsys0 s)
    (lsys0 s\<lparr>tabs := m, kern := s, place := (place (lsys0 s))(1 := if False then In_acquire 5 else Outside),
      held := if False then held (lsys0 s) else gain 1 5 (held (lsys0 s))\<rparr>)"
    using s(3) lsys0_facts(5) [of 5] by (intro lstep.acquire [where cpu = 0]) simp_all
  from locks_reach.step [OF r0 this] have "locks_reach 0x80100000 0x80110000
    (lsys0 s\<lparr>tabs := m, kern := s, place := (\<lambda>_. Outside), held := gain 1 5 (\<lambda>_ _. 0)\<rparr>)"
    by (simp add: lsys0_def fun_upd_idem)
  with s r0 that show thesis by blast
qed

theorem lock_mutual_exclusion_witness:
  "\<exists>x. locks_reach 0x80100000 0x80110000 x \<and> held x 1 5 = 1 \<and> locked_id (lk (tabs x) 5) = 1"
proof -
  obtain s m where x: "locks_reach 0x80100000 0x80110000
    (lsys0 s\<lparr>tabs := m, kern := s, place := (\<lambda>_. Outside), held := gain 1 5 (\<lambda>_ _. 0)\<rparr>)" (is "locks_reach _ _ ?x")
    by (rule lsys0_acquire)
  moreover have "held ?x 1 5 = 1" by (simp add: gain_def)
  ultimately show ?thesis using lock_mutual_exclusion [OF x, of 5 1] by (intro exI [of _ ?x]) simp
qed

text \<open>
  Property C19: no thread jumps the queue. A released lock with waiting threads is kept for the one
  that was woken: nobody holds it meanwhile, and whatever happens next the lock either stays kept
  for that thread or is held by it.
\<close>

theorem lock_handoff:
  assumes "locks_reach lb cb x" "0 \<le> i" "i < 128" "locked_id (lk (tabs x) i) = LOCK_RESERVED_THREAD"
  shows "\<exists>g. granted lb x i = {g} \<and> (\<forall>t. held x t i = 0) \<and>
    (\<forall>y. lstep lb cb x y \<longrightarrow>
       locked_id (lk (tabs y) i) = LOCK_RESERVED_THREAD \<and> granted lb y i = {g} \<and> (\<forall>t. held y t i = 0) \<or>
       locked_id (lk (tabs y) i) = g \<and> held y g i = 1 \<and> place y g = Outside)"
proof -
  have inv: "locks_inv lb cb x" using assms(1) by (rule locks_reach_inv)
  obtain g where g: "granted lb x i = {g}" "\<forall>t. held x t i = 0" using reserved_state [OF inv assms(2-4)] .
  have "locked_id (lk (tabs y) i) = LOCK_RESERVED_THREAD \<and> granted lb y i = {g} \<and> (\<forall>t. held y t i = 0) \<or>
       locked_id (lk (tabs y) i) = g \<and> held y g i = 1 \<and> place y g = Outside" if st: "lstep lb cb x y" for y
    using reserved_step [OF st inv assms(2-4) g(1)] reserved_state [OF lstep_inv [OF st inv] assms(2,3)] by metis
  with g show ?thesis by blast
qed

text \<open>Two threads run on two processors; both ask for lock 5, then the first one gives it up.\<close>

definition two_threads :: "kstate kresult" where
  "two_threads = rbind first_thread (\<lambda>s. rbind (thread_create img0 0x80013000 0 s) (\<lambda>(t, s1).
     rbind (thread_run t s1) (\<lambda>s2. rbind (scheduler_schedule 0 0 1 s2) (\<lambda>(_, s3). Inr s3))))"

definition contend :: "(bool \<times> bool \<times> lctables list \<times> kstate list) kresult" where
  "contend = rbind two_threads (\<lambda>s. rbind (lock_acquire 0x80100000 0 5 lc0 s) (\<lambda>(b1, m1, s1).
     rbind (lock_acquire 0x80100000 1 5 m1 s1) (\<lambda>(b2, m2, s2).
     rbind (lock_release 0x80100000 0 5 m2 s2) (\<lambda>(m3, s3). Inr (b1, b2, [m1, m2, m3], [s, s1, s2, s3])))))"

lemma contend_run:
  "rbind two_threads (\<lambda>s. Inr (list_all (\<lambda>p. sleeps_on (th s p) = 0) [1..31])) = Inr True"
  "rbind contend (\<lambda>(b1, b2, ms, ss). Inr (b1, b2, map (\<lambda>m. (locked_id (lk m 5), unat (nested_locking_count (lk m 5)))) ms,
     running 0 (ss ! 0) 1, running 1 (ss ! 1) 2, running 0 (ss ! 2) 1,
     waiting (ss ! 2) (lock_addr 0x80100000 5), waiting (ss ! 2) (cond_addr 0x80110000 7))) =
   Inr (False, True, [(1, 1), (1, 1), (-2, 0)], True, True, True, [2], [])"
  "rbind first_thread (\<lambda>s. rbind (thread_create img0 0x80013000 0 s) (\<lambda>(t, s1).
     Inr (t = 2 \<and> t_state (th s1 t) = THREAD_NONREADY))) = Inr True"
  by code_simp+

lemma two_threads_state:
  obtains s where "two_threads = Inr s" "kinv s" "\<And>r. waiting s r = []"
proof -
  from contend_run(1) obtain s where s: "two_threads = Inr s" "\<forall>p \<in> set [1..31]. sleeps_on (th s p) = 0"
    by (auto simp: list_all_iff rbind_eq_Inr)
  obtain s0 where s0: "first_thread = Inr s0" "kreach s0" by (rule first_thread_reach)
  from s(1) [unfolded two_threads_def s0(1) rbind_simps] obtain t s1 s2 k where c: "thread_create img0 0x80013000 0 s0 = Inr (t, s1)"
    "thread_run t s1 = Inr s2" "scheduler_schedule 0 0 1 s2 = Inr (k, s)" by auto
  have t: "t = 2" "t_state (th s1 t) = THREAD_NONREADY" using contend_run(3) [unfolded s0(1) rbind_simps c(1)] by auto
  have k1: "kreach s1" using s0(2) kstep.create [OF c(1)] by (rule kreach.step)
  have "kreach s2" by (rule kreach.step [OF k1], rule kstep.start [of t]) (use t c(2) in simp_all)
  then have "kreach s" by (rule kreach.step) (rule kstep.schedule [OF _ _ _ c(3)], simp_all)
  then have k: "kinv s" using kreach_kinv by simp
  then obtain rs cs ss where kv: "kview UNIV s rs cs ss" by (auto simp: kinv_def)
  have "sleeps_on (th s p) = 0" if "0 < p" "p < 32" for p using s(2) that by auto
  then have "p \<notin> set (waiting s r)" for p r using in_waiting [OF kv, of p r] by metis
  then have "waiting s r = []" for r by (meson last_in_set)
  with s(1) k that show thesis by blast
qed

lemma contended_lock:
  obtains x y where "locks_reach 0x80100000 0x80110000 x" "held x 1 5 = 1" "acquiring x 5 = {2}" "running 0 (kern x) 1"
    "waiting (kern x) (lock_addr 0x80100000 5) = [2]" "waiting (kern x) (cond_addr 0x80110000 7) = []"
    "locks_reach 0x80100000 0x80110000 y" "acquiring y 5 = {2}"
    "locked_id (lk (tabs y) 5) = LOCK_RESERVED_THREAD"
proof -
  obtain s where s: "two_threads = Inr s" "kinv s" "\<And>r. waiting s r = []" by (rule two_threads_state) blast
  from contend_run(2) [unfolded contend_def s(1) rbind_simps] obtain m1 s1 m2 s2 m3 s3 where
    c: "lock_acquire 0x80100000 0 5 lc0 s = Inr (False, m1, s1)" "lock_acquire 0x80100000 1 5 m1 s1 = Inr (True, m2, s2)"
      "lock_release 0x80100000 0 5 m2 s2 = Inr (m3, s3)" "running 0 s 1" "running 1 s1 2" "running 0 s2 1"
      "unat (nested_locking_count (lk m1 5)) = 1" "locked_id (lk m3 5) = -2"
      "waiting s2 (lock_addr 0x80100000 5) = [2]" "waiting s2 (cond_addr 0x80110000 7) = []"
    by auto
  have r0: "locks_reach 0x80100000 0x80110000 (lsys0 s)" by (intro locks_reach.start lsys0_start s)
  define x1 where "x1 = lsys0 s\<lparr>tabs := m1, kern := s1, place := (place (lsys0 s))(1 := if False then In_acquire 5 else Outside),
      held := if False then held (lsys0 s) else gain 1 5 (held (lsys0 s))\<rparr>"
  have "lstep 0x80100000 0x80110000 (lsys0 s) x1"
    unfolding x1_def using c(1,4) lsys0_facts(5) [of 5] by (intro lstep.acquire [where cpu = 0]) simp_all
  with r0 have r1: "locks_reach 0x80100000 0x80110000 x1" by (rule locks_reach.step)
  define x2 where "x2 = x1\<lparr>tabs := m2, kern := s2, place := (place x1)(2 := if True then In_acquire 5 else Outside),
      held := if True then held x1 else gain 2 5 (held x1)\<rparr>"
  have "lstep 0x80100000 0x80110000 x1 x2"
    unfolding x2_def using c(2,5,7) by (intro lstep.acquire [where cpu = 1]) (simp_all add: x1_def)
  with r1 have r2: "locks_reach 0x80100000 0x80110000 x2" by (rule locks_reach.step)
  define x3 where "x3 = x2\<lparr>tabs := m3, kern := s3, held := lose 1 5 (held x2)\<rparr>"
  have "lstep 0x80100000 0x80110000 x2 x3"
    unfolding x3_def using c(3,6) by (intro lstep.release [where cpu = 0]) (simp_all add: x2_def x1_def)
  with r2 have r3: "locks_reach 0x80100000 0x80110000 x3" by (rule locks_reach.step)
  have acq: "acquiring x2 5 = {2}" "acquiring x3 5 = {2}" by (auto simp: acquiring_def x3_def x2_def x1_def)
  show thesis
    by (rule that [OF r2 _ acq(1) _ _ _ r3 acq(2)])
      (use c(6,8-10) in \<open>simp_all add: x3_def x2_def x1_def gain_def LOCK_RESERVED_THREAD_def\<close>)
qed

theorem lock_handoff_witness:
  "\<exists>x g. locks_reach 0x80100000 0x80110000 x \<and> locked_id (lk (tabs x) 5) = LOCK_RESERVED_THREAD \<and>
     granted 0x80100000 x 5 = {g} \<and> held x 1 5 = 0"
proof -
  obtain x where x: "locks_reach 0x80100000 0x80110000 x" "locked_id (lk (tabs x) 5) = LOCK_RESERVED_THREAD"
    by (rule contended_lock) blast
  from lock_handoff [OF x(1) _ _ x(2)] x show ?thesis by auto
qed

text \<open>
  Property C12: no wake-up is lost. While threads are inside \<open>lock_acquire\<close>, either some thread
  holds the lock or exactly one of them has been woken to take it; and a lock that is free has
  nobody waiting for it.
\<close>

theorem lock_no_lost_wakeup:
  assumes "locks_reach lb cb x" "0 \<le> i" "i < 128"
  shows "(locked_id (lk (tabs x) i) = LOCK_NO_THREAD \<longrightarrow> acquiring x i = {}) \<and>
    (acquiring x i \<noteq> {} \<longrightarrow> (\<exists>t. 0 < held x t i) \<or> (\<exists>g. granted lb x i = {g}))"
proof -
  have inv: "locks_inv lb cb x" using assms(1) by (rule locks_reach_inv)
  note ok = locks_invD(7) [OF inv assms(2,3)]
  consider "locked_id (lk (tabs x) i) = LOCK_NO_THREAD" | "locked_id (lk (tabs x) i) = LOCK_RESERVED_THREAD"
    | "locked_id (lk (tabs x) i) \<notin> {LOCK_NO_THREAD, LOCK_RESERVED_THREAD}" by auto
  then show ?thesis
  proof cases
    case 1
    with ok show ?thesis by (simp add: lock_ok_def)
  next
    case 2
    then show ?thesis using reserved_state [OF inv assms(2,3)] by (auto simp: LOCK_NO_THREAD_def LOCK_RESERVED_THREAD_def)
  next
    case 3
    with ok have n: "nested_locking_count (lk (tabs x) i) \<noteq> 0"
      "(\<lambda>t. held x t i) = (\<lambda>_. 0)(locked_id (lk (tabs x) i) := unat (nested_locking_count (lk (tabs x) i)))"
      by (auto simp: lock_ok_def)
    have "held x (locked_id (lk (tabs x) i)) i > 0" using fun_cong [OF n(2), of "locked_id (lk (tabs x) i)"] n(1)
      by (simp add: unat_gt_0)
    with 3 show ?thesis by auto
  qed
qed

theorem lock_no_lost_wakeup_witness:
  "\<exists>x y t g. locks_reach 0x80100000 0x80110000 x \<and> acquiring x 5 = {2} \<and> 0 < held x t 5 \<and>
     locks_reach 0x80100000 0x80110000 y \<and> acquiring y 5 = {2} \<and>
     locked_id (lk (tabs y) 5) = LOCK_RESERVED_THREAD \<and> (0 < held y g 5 \<or> granted 0x80100000 y 5 = {g})"
proof -
  obtain x y where x: "locks_reach 0x80100000 0x80110000 x" "held x 1 5 = 1" "acquiring x 5 = {2}"
      "waiting (kern x) (lock_addr 0x80100000 5) = [2]"
    and y: "locks_reach 0x80100000 0x80110000 y" "acquiring y 5 = {2}"
      "locked_id (lk (tabs y) 5) = LOCK_RESERVED_THREAD" by (rule contended_lock) blast
  have "granted 0x80100000 x 5 = {}" using x by (simp add: granted_def)
  with lock_no_lost_wakeup [OF x(1), of 5] x(3) obtain t where "0 < held x t 5" by auto
  moreover obtain g where "0 < held y g 5 \<or> granted 0x80100000 y 5 = {g}"
    using lock_no_lost_wakeup [OF y(1), of 5] y(2) by auto
  ultimately show ?thesis using x y by blast
qed

text \<open>
  Property C26: \<open>condition_wait\<close> is refused to a thread that does not hold the lock. A thread that holds it
  once is queued behind the threads that wait already and gives the lock up in the same step: the
  lock becomes free, or is kept for the thread that has waited longest for it, which leaves the
  lock's queue. A thread that holds it several times is queued too, but only its
  count goes down and it keeps the lock while it waits.
  \<open>condition_signal\<close> wakes the thread that has waited longest, \<open>condition_broadcast\<close> all of them,
  and neither touches another queue or a lock, or fails.
\<close>

theorem condition_queue:
  assumes "locks_reach lb cb x" "0 \<le> j" "j < 128" "0 \<le> i" "i < 128" "running cpu (kern x) c"
  shows "(if held x c i = 0 then condition_wait cb lb cpu j i (tabs x) (kern x) = Inl Assert
      else \<exists>m s. condition_wait cb lb cpu j i (tabs x) (kern x) = Inr (m, s) \<and>
        (if held x c i = 1 then
           waiting s = (waiting (kern x))(cond_addr cb j := waiting (kern x) (cond_addr cb j) @ [c],
             lock_addr lb i := tl (waiting (kern x) (lock_addr lb i))) \<and>
           locked_id (lk m i) =
             (if waiting (kern x) (lock_addr lb i) = [] then LOCK_NO_THREAD else LOCK_RESERVED_THREAD)
         else waiting s = (waiting (kern x))(cond_addr cb j := waiting (kern x) (cond_addr cb j) @ [c]) \<and>
           locked_id (lk m i) = c \<and> unat (nested_locking_count (lk m i)) = held x c i - 1)) \<and>
    (\<exists>m s. condition_signal cb lb j i (tabs x) (kern x) = Inr (m, s) \<and> lock_table m = lock_table (tabs x) \<and>
      waiting s = (waiting (kern x))(cond_addr cb j := tl (waiting (kern x) (cond_addr cb j)))) \<and>
    (\<exists>m s. condition_broadcast cb lb j i (tabs x) (kern x) = Inr (m, s) \<and> lock_table m = lock_table (tabs x) \<and>
      waiting s = (waiting (kern x))(cond_addr cb j := []))"
proof -
  note d = locks_invD [OF locks_reach_inv [OF assms(1)]]
  note a = addr_facts(2) [OF d(1) assms(2,3)] addr_facts(1) [OF d(1) assms(4,5)]
  have la: "waiting (kern x) (lock_addr lb i) = Q \<Longrightarrow>
    (waiting (kern x))(cond_addr cb j := Qc, lock_addr lb i := Q) = (waiting (kern x))(cond_addr cb j := Qc)" for Q Qc
    using addr_facts(6) [OF d(1) assms(4,5,2,3)] by (auto simp: fun_eq_iff)
  note spec = condition_wait_spec [OF d(2) assms(6,2-5) d(4,3,1) d(8) [OF assms(2,3)] d(7) [OF assms(4,5)]]
  have "if held x c i = 0 then condition_wait cb lb cpu j i (tabs x) (kern x) = Inl Assert
      else \<exists>m s. condition_wait cb lb cpu j i (tabs x) (kern x) = Inr (m, s) \<and>
        (if held x c i = 1 then
           waiting s = (waiting (kern x))(cond_addr cb j := waiting (kern x) (cond_addr cb j) @ [c],
             lock_addr lb i := tl (waiting (kern x) (lock_addr lb i))) \<and>
           locked_id (lk m i) =
             (if waiting (kern x) (lock_addr lb i) = [] then LOCK_NO_THREAD else LOCK_RESERVED_THREAD)
         else waiting s = (waiting (kern x))(cond_addr cb j := waiting (kern x) (cond_addr cb j) @ [c]) \<and>
           locked_id (lk m i) = c \<and> unat (nested_locking_count (lk m i)) = held x c i - 1)"
  proof (cases "held x c i = 0")
    case True
    with spec show ?thesis by simp
  next
    case False
    with spec obtain e l s Q where "condition_wait cb lb cpu j i (tabs x) (kern x) = Inr (with_lock i l (with_cond j e (tabs x)), s)"
      "waiting s = (waiting (kern x))(cond_addr cb j := waiting (kern x) (cond_addr cb j) @ [c], lock_addr lb i := Q)"
      "if held x c i = 1 then Q = tl (waiting (kern x) (lock_addr lb i)) \<and>
         locked_id l = (if waiting (kern x) (lock_addr lb i) = [] then LOCK_NO_THREAD else LOCK_RESERVED_THREAD)
       else Q = waiting (kern x) (lock_addr lb i) \<and> locked_id l = c \<and> unat (nested_locking_count l) = held x c i - 1"
      by (simp only: if_False) blast
    moreover have "lk (with_lock i l (with_cond j e (tabs x))) i = l" using d(3) assms(4,5) by simp
    ultimately show ?thesis using False la by (cases "held x c i = 1") simp_all
  qed
  with condition_signal_spec [OF d(2) assms(2,3) d(4) a d(8) [OF assms(2,3)]]
    condition_broadcast_spec [OF d(2) assms(2,3) d(4) a d(8) [OF assms(2,3)]]
  show ?thesis by (intro conjI) (auto simp: with_cond_def)
qed

theorem condition_queue_witness:
  "\<exists>(x :: lsys) m s. locks_reach 0x80100000 0x80110000 x \<and> held x 1 5 = 1 \<and>
     waiting (kern x) (lock_addr 0x80100000 5) = [2] \<and>
     condition_wait 0x80110000 0x80100000 0 7 5 (tabs x) (kern x) = Inr (m, s) \<and> waiting s (cond_addr 0x80110000 7) = [1] \<and>
     waiting s (lock_addr 0x80100000 5) = [] \<and> locked_id (lk m 5) = LOCK_RESERVED_THREAD"
proof -
  obtain x where x: "locks_reach 0x80100000 0x80110000 x" "held x 1 5 = 1" "running 0 (kern x) 1"
    "waiting (kern x) (lock_addr 0x80100000 5) = [2]" "waiting (kern x) (cond_addr 0x80110000 7) = []"
    by (rule contended_lock) blast
  from condition_queue [OF x(1) _ _ _ _ x(3), of 7 5] x(2,4,5) obtain m s where
    w: "condition_wait 0x80110000 0x80100000 0 7 5 (tabs x) (kern x) = Inr (m, s)"
      "waiting s = (waiting (kern x))(cond_addr 0x80110000 7 := [1], lock_addr 0x80100000 5 := [])"
      "locked_id (lk m 5) = LOCK_RESERVED_THREAD" by auto
  have "tables_at 0x80100000 0x80110000" using locks_invD(1) [OF locks_reach_inv [OF x(1)]] .
  from addr_facts(6) [OF this, of 5 7] w(2) have "waiting s (cond_addr 0x80110000 7) = [1]" by simp
  with x w show ?thesis by (intro exI [of _ x] exI [of _ m] exI [of _ s]) simp
qed

end
