(* ===== verification/Vfs.thy ===== *)
theory Vfs
  imports Libc
begin

text \<open>
  The virtual filesystem of \<open>fs/vfs.c\<close>: the table of mounted filesystems, the table of open files,
  path names, and every operation on them. A filesystem is known to this layer by the address of
  its \<open>fs_t\<close>; what its function pointers do is a record of operations on a driver state \<open>'d\<close>. A call
  runs alone: a semaphore is its value, and \<open>semaphore_P\<close> on a value that is not positive is a wait
  for another thread, \<open>Hang\<close>.
\<close>

section \<open>Constants and tables\<close>

definition VFS_OK :: int where "VFS_OK = 0"
definition VFS_NOT_SUPPORTED :: int where "VFS_NOT_SUPPORTED = -1"
definition VFS_ERROR :: int where "VFS_ERROR = -2"
definition VFS_INVALID_PARAMS :: int where "VFS_INVALID_PARAMS = -3"
definition VFS_NOT_OPEN :: int where "VFS_NOT_OPEN = -4"
definition VFS_NOT_FOUND :: int where "VFS_NOT_FOUND = -5"
definition VFS_NO_SUCH_FS :: int where "VFS_NO_SUCH_FS = -6"
definition VFS_LIMIT :: int where "VFS_LIMIT = -7"
definition VFS_IN_USE :: int where "VFS_IN_USE = -8"
definition VFS_UNUSABLE :: int where "VFS_UNUSABLE = -9"
definition VFS_NAME_LENGTH :: int where "VFS_NAME_LENGTH = 16"
definition CONFIG_MAX_FILESYSTEMS :: int where "CONFIG_MAX_FILESYSTEMS = 8"
definition CONFIG_MAX_OPEN_FILES :: int where "CONFIG_MAX_OPEN_FILES = 512"

lemmas vfs_codes = VFS_OK_def VFS_NOT_SUPPORTED_def VFS_ERROR_def VFS_INVALID_PARAMS_def VFS_NOT_OPEN_def
  VFS_NOT_FOUND_def VFS_NO_SUCH_FS_def VFS_LIMIT_def VFS_IN_USE_def VFS_UNUSABLE_def

lemmas vfs_sizes = VFS_NAME_LENGTH_def CONFIG_MAX_FILESYSTEMS_def CONFIG_MAX_OPEN_FILES_def

text \<open>The driver of a filesystem; reading also returns the bytes that it put into the buffer.\<close>

record 'd fs_t =
  volume_name :: "u32 \<Rightarrow> 'd \<Rightarrow> cstring"
  fs_unmount :: "u32 \<Rightarrow> 'd \<Rightarrow> (int \<times> 'd) kresult"
  fs_open :: "u32 \<Rightarrow> cstring \<Rightarrow> 'd \<Rightarrow> (int \<times> 'd) kresult"
  fs_close :: "u32 \<Rightarrow> int \<Rightarrow> 'd \<Rightarrow> (int \<times> 'd) kresult"
  fs_read :: "u32 \<Rightarrow> int \<Rightarrow> int \<Rightarrow> int \<Rightarrow> 'd \<Rightarrow> (int \<times> byte list \<times> 'd) kresult"
  fs_write :: "u32 \<Rightarrow> int \<Rightarrow> byte list \<Rightarrow> int \<Rightarrow> int \<Rightarrow> 'd \<Rightarrow> (int \<times> 'd) kresult"
  fs_create :: "u32 \<Rightarrow> cstring \<Rightarrow> int \<Rightarrow> 'd \<Rightarrow> (int \<times> 'd) kresult"
  fs_remove :: "u32 \<Rightarrow> cstring \<Rightarrow> 'd \<Rightarrow> (int \<times> 'd) kresult"
  fs_getfree :: "u32 \<Rightarrow> 'd \<Rightarrow> (int \<times> 'd) kresult"

record vfs_entry =
  filesystem :: u32
  mountpoint :: cstring

record openfile_entry =
  of_filesystem :: u32
  fileid :: int
  seek_position :: int

record 'd vfs =
  vfs_table_sem :: int
  filesystems :: "vfs_entry list"
  openfile_sem :: int
  files :: "openfile_entry list"
  vfs_op_sem :: int
  vfs_unmount_sem :: int
  vfs_ops :: int
  vfs_usable :: bool
  drv :: 'd

text \<open>The semaphores of this layer.\<close>

definition sem_down :: "int \<Rightarrow> int kresult" where
  "sem_down v = (if v > 0 then Inr (v - 1) else Inl Hang)"

definition P_table :: "'d vfs \<Rightarrow> 'd vfs kresult" where
  "P_table V = rbind (sem_down (vfs_table_sem V)) (\<lambda>n. Inr (V\<lparr>vfs_table_sem := n\<rparr>))"

definition V_table :: "'d vfs \<Rightarrow> 'd vfs" where
  "V_table V = V\<lparr>vfs_table_sem := vfs_table_sem V + 1\<rparr>"

definition P_files :: "'d vfs \<Rightarrow> 'd vfs kresult" where
  "P_files V = rbind (sem_down (openfile_sem V)) (\<lambda>n. Inr (V\<lparr>openfile_sem := n\<rparr>))"

definition V_files :: "'d vfs \<Rightarrow> 'd vfs" where
  "V_files V = V\<lparr>openfile_sem := openfile_sem V + 1\<rparr>"

definition P_op :: "'d vfs \<Rightarrow> 'd vfs kresult" where
  "P_op V = rbind (sem_down (vfs_op_sem V)) (\<lambda>n. Inr (V\<lparr>vfs_op_sem := n\<rparr>))"

definition V_op :: "'d vfs \<Rightarrow> 'd vfs" where
  "V_op V = V\<lparr>vfs_op_sem := vfs_op_sem V + 1\<rparr>"

section \<open>Start and end\<close>

text \<open>
  \<open>table_sem\<close> and \<open>file_sem\<close> say that \<open>semaphore_create\<close> returned a semaphore for the two tables.
\<close>

definition vfs_init :: "bool \<Rightarrow> bool \<Rightarrow> 'd vfs \<Rightarrow> 'd vfs kresult" where
  "vfs_init table_sem file_sem V =
     kassert (table_sem \<and> file_sem)
     (let fss = map (\<lambda>e. e\<lparr>filesystem := 0\<rparr>) (filesystems V);
          fs0 = map (\<lambda>f. f\<lparr>of_filesystem := 0\<rparr>) (files V) in
      rbind (rd fs0 0) (\<lambda>f0. rbind (wr fs0 0 (f0\<lparr>of_filesystem := 1\<rparr>)) (\<lambda>fs1.
      rbind (rd fs1 1) (\<lambda>f1. rbind (wr fs1 1 (f1\<lparr>of_filesystem := 1\<rparr>)) (\<lambda>fs2.
      rbind (rd fs2 2) (\<lambda>f2. rbind (wr fs2 2 (f2\<lparr>of_filesystem := 1\<rparr>)) (\<lambda>fs3.
        Inr (V\<lparr>vfs_table_sem := 1, openfile_sem := 1, filesystems := fss, files := fs3, vfs_op_sem := 1,
          vfs_unmount_sem := 0, vfs_ops := 0, vfs_usable := True\<rparr>))))))))"

definition vfs_start_op :: "'d vfs \<Rightarrow> (int \<times> 'd vfs) kresult" where
  "vfs_start_op V =
     rbind (P_op V) (\<lambda>V.
       if vfs_usable V then Inr (VFS_OK, V_op (V\<lparr>vfs_ops := vfs_ops V + 1\<rparr>))
       else Inr (VFS_UNUSABLE, V_op V))"

definition vfs_end_op :: "'d vfs \<Rightarrow> 'd vfs kresult" where
  "vfs_end_op V =
     rbind (P_op V) (\<lambda>V.
       let V = V\<lparr>vfs_ops := vfs_ops V - 1\<rparr> in
       kassert (vfs_ops V \<ge> 0)
        (Inr (V_op (if \<not> vfs_usable V \<and> vfs_ops V = 0 then V\<lparr>vfs_unmount_sem := vfs_unmount_sem V + 1\<rparr> else V))))"

text \<open>
  Every operation begins with \<open>vfs_start_op\<close>, and most of its returns go through \<open>vfs_end_op\<close>.
\<close>

definition with_op :: "('d vfs \<Rightarrow> (int \<times> 'd vfs) kresult) \<Rightarrow> 'd vfs \<Rightarrow> (int \<times> 'd vfs) kresult" where
  "with_op body V =
     rbind (vfs_start_op V) (\<lambda>(r, V). if r \<noteq> VFS_OK then Inr (VFS_UNUSABLE, V) else body V)"

definition end_ret :: "int \<Rightarrow> 'd vfs \<Rightarrow> (int \<times> 'd vfs) kresult" where
  "end_ret r V = rbind (vfs_end_op V) (\<lambda>V. Inr (r, V))"

text \<open>The loop of \<open>vfs_deinit\<close> over the mounted filesystems.\<close>

function unmount_rows :: "'d fs_t \<Rightarrow> int \<Rightarrow> 'd vfs \<Rightarrow> 'd vfs kresult" where
  "unmount_rows D row V =
     (if row < CONFIG_MAX_FILESYSTEMS then
        rbind (rd (filesystems V) row) (\<lambda>e.
          if filesystem e \<noteq> 0 then
            rbind (fs_unmount D (filesystem e) (drv V)) (\<lambda>(_, d).
            rbind (wr (filesystems V) row (e\<lparr>filesystem := 0\<rparr>)) (\<lambda>fss.
              unmount_rows D (row + 1) (V\<lparr>filesystems := fss, drv := d\<rparr>)))
          else unmount_rows D (row + 1) V)
      else Inr V)"
  by pat_completeness auto
termination
  by (relation "measure (\<lambda>(D, row, V). nat (CONFIG_MAX_FILESYSTEMS - row))") auto

declare unmount_rows.simps [simp del]

definition vfs_deinit :: "'d fs_t \<Rightarrow> 'd vfs \<Rightarrow> 'd vfs kresult" where
  "vfs_deinit D V =
     rbind (P_op V) (\<lambda>V.
     rbind (let V = V\<lparr>vfs_usable := False\<rparr> in
            if vfs_ops V > 0 then
              let V = V_op V in
              rbind (sem_down (vfs_unmount_sem V)) (\<lambda>n.
              rbind (P_op (V\<lparr>vfs_unmount_sem := n\<rparr>)) (\<lambda>V. kassert (vfs_ops V = 0) (Inr V)))
            else Inr V) (\<lambda>V.
     rbind (P_table V) (\<lambda>V.
     rbind (P_files V) (\<lambda>V.
     rbind (unmount_rows D 0 V) (\<lambda>V. Inr (V_op (V_table (V_files V))))))))"

section \<open>Path names\<close>

text \<open>
  The volume part: \<open>k\<close> is the position in \<open>volumebuf\<close>, which the loop advances together with \<open>i\<close>.
  The result is the rest of the path and the loop counter at its end.
\<close>

function parse_volume :: "cstring \<Rightarrow> cstring \<Rightarrow> int \<Rightarrow> ((int \<times> cstring \<times> cstring) option) kresult" where
  "parse_volume pathname volumebuf i =
     (if i < VFS_NAME_LENGTH - 1 then
        case pathname of [] \<Rightarrow> Inl Fault
        | c # rest \<Rightarrow>
            if c = 0 then Inr None
            else if c = 93 then Inr (Some (i, rest, volumebuf))
            else rbind (wr volumebuf i c) (\<lambda>vb. parse_volume rest vb (i + 1))
      else Inr (Some (i, pathname, volumebuf)))"
  by pat_completeness auto
termination
  by (relation "measure (\<lambda>(p, v, i). nat (VFS_NAME_LENGTH - 1 - i))") auto

function parse_filename :: "cstring \<Rightarrow> cstring \<Rightarrow> int \<Rightarrow> (int \<times> cstring) kresult" where
  "parse_filename pathname filenamebuf i =
     (if i < VFS_NAME_LENGTH then
        case pathname of [] \<Rightarrow> Inl Fault
        | c # rest \<Rightarrow>
            rbind (wr filenamebuf i c) (\<lambda>fb.
              if c = 0 then Inr (if i = 0 then VFS_ERROR else VFS_OK, fb)
              else parse_filename rest fb (i + 1))
      else Inr (VFS_ERROR, filenamebuf))"
  by pat_completeness auto
termination
  by (relation "measure (\<lambda>(p, f, i). nat (VFS_NAME_LENGTH - i))") auto

declare parse_volume.simps [simp del] parse_filename.simps [simp del]

text \<open>After the volume part: the terminator goes to position \<open>k\<close> of \<open>volumebuf\<close>.\<close>

definition parse_rest :: "cstring \<Rightarrow> cstring \<Rightarrow> int \<Rightarrow> cstring \<Rightarrow> (int \<times> cstring \<times> cstring) kresult" where
  "parse_rest pathname volumebuf k filenamebuf =
     rbind (wr volumebuf k 0) (\<lambda>vb.
     rbind (parse_filename pathname filenamebuf 0) (\<lambda>(r, fb). Inr (r, vb, fb)))"

definition vfs_parse_pathname :: "cstring \<Rightarrow> cstring \<Rightarrow> cstring \<Rightarrow> (int \<times> cstring \<times> cstring) kresult" where
  "vfs_parse_pathname pathname volumebuf filenamebuf =
     rbind (rd pathname 0) (\<lambda>c.
       if c = 91 then
         rbind (parse_volume (tl pathname) volumebuf 0) (\<lambda>r.
           case r of None \<Rightarrow> Inr (VFS_ERROR, volumebuf, filenamebuf)
           | Some (i, rest, vb) \<Rightarrow>
               if i \<ge> VFS_NAME_LENGTH - 1 then Inr (VFS_ERROR, vb, filenamebuf)
               else parse_rest rest vb i filenamebuf)
       else parse_rest pathname volumebuf 0 filenamebuf)"

section \<open>Mounting\<close>

definition named :: "cstring \<Rightarrow> vfs_entry \<Rightarrow> bool kresult" where
  "named name e = rbind (stringcmp (mountpoint e) name) (\<lambda>d. Inr (d = 0))"

definition vfs_get_filesystem :: "cstring \<Rightarrow> 'd vfs \<Rightarrow> u32 kresult" where
  "vfs_get_filesystem name V =
     rbind (scanM (named name) (filesystems V) 0 CONFIG_MAX_FILESYSTEMS) (\<lambda>r.
       case r of None \<Rightarrow> Inr 0 | Some row \<Rightarrow> rbind (rd (filesystems V) row) (\<lambda>e. Inr (filesystem e)))"

text \<open>\<open>vfs_mount\<close>; \<open>None\<close> is a name that is \<open>NULL\<close>.\<close>

definition mount_row :: "u32 \<Rightarrow> cstring \<Rightarrow> int \<Rightarrow> 'd vfs \<Rightarrow> (int \<times> 'd vfs) kresult" where
  "mount_row fs name row V =
     rbind (rd (filesystems V) row) (\<lambda>e.
     rbind (stringcopy (mountpoint e) name VFS_NAME_LENGTH) (\<lambda>mp.
     rbind (wr (filesystems V) row (e\<lparr>mountpoint := mp, filesystem := fs\<rparr>)) (\<lambda>fss.
       end_ret VFS_OK (V_table (V\<lparr>filesystems := fss\<rparr>)))))"

definition mount_body :: "u32 \<Rightarrow> cstring \<Rightarrow> 'd vfs \<Rightarrow> (int \<times> 'd vfs) kresult" where
  "mount_body fs name V =
     rbind (P_table V) (\<lambda>V.
     rbind (scan (\<lambda>e. filesystem e = 0) (filesystems V) 0 CONFIG_MAX_FILESYSTEMS) (\<lambda>r.
       case r of None \<Rightarrow> end_ret VFS_LIMIT (V_table V)
       | Some row \<Rightarrow>
           rbind (scanM (named name) (filesystems V) 0 CONFIG_MAX_FILESYSTEMS) (\<lambda>dup.
             case dup of Some _ \<Rightarrow> end_ret VFS_ERROR (V_table V)
             | None \<Rightarrow> mount_row fs name row V)))"

definition vfs_mount :: "u32 \<Rightarrow> cstring option \<Rightarrow> 'd vfs \<Rightarrow> (int \<times> 'd vfs) kresult" where
  "vfs_mount fs name V =
     (case name of None \<Rightarrow> Inr (VFS_ERROR, V)
      | Some name \<Rightarrow>
          rbind (rd name 0) (\<lambda>c. if c = 0 then Inr (VFS_ERROR, V) else with_op (mount_body fs name) V))"

definition unmount_fs :: "'d fs_t \<Rightarrow> int \<Rightarrow> vfs_entry \<Rightarrow> 'd vfs \<Rightarrow> (int \<times> 'd vfs) kresult" where
  "unmount_fs D row e V =
     rbind (P_files V) (\<lambda>V.
     rbind (scan (\<lambda>f. of_filesystem f = filesystem e) (files V) 0 CONFIG_MAX_OPEN_FILES) (\<lambda>used.
       case used of Some _ \<Rightarrow> end_ret VFS_IN_USE (V_table (V_files V))
       | None \<Rightarrow>
           rbind (fs_unmount D (filesystem e) (drv V)) (\<lambda>(_, d).
           rbind (wr (filesystems V) row (e\<lparr>filesystem := 0\<rparr>)) (\<lambda>fss.
             end_ret VFS_OK (V_table (V_files (V\<lparr>filesystems := fss, drv := d\<rparr>)))))))"

definition unmount_body :: "'d fs_t \<Rightarrow> cstring \<Rightarrow> 'd vfs \<Rightarrow> (int \<times> 'd vfs) kresult" where
  "unmount_body D name V =
     rbind (P_table V) (\<lambda>V.
     rbind (scanM (named name) (filesystems V) 0 CONFIG_MAX_FILESYSTEMS) (\<lambda>r.
       case r of None \<Rightarrow> end_ret VFS_NOT_FOUND (V_table V)
       | Some row \<Rightarrow>
           rbind (rd (filesystems V) row) (\<lambda>e.
             if filesystem e = 0 then end_ret VFS_NOT_FOUND (V_table V)
             else unmount_fs D row e V)))"

definition vfs_unmount :: "'d fs_t \<Rightarrow> cstring \<Rightarrow> 'd vfs \<Rightarrow> (int \<times> 'd vfs) kresult" where
  "vfs_unmount D name V = with_op (unmount_body D name) V"

text \<open>
  \<open>filesystems_try_all\<close> tries the \<open>init\<close> functions of the filesystem types in turn; the first that
  returns a filesystem wins.
\<close>

fun filesystems_try_all :: "('k \<Rightarrow> 'd \<Rightarrow> (u32 \<times> 'd) kresult) list \<Rightarrow> 'k \<Rightarrow> 'd \<Rightarrow> (u32 \<times> 'd) kresult" where
  "filesystems_try_all [] disk d = Inr (0, d)"
| "filesystems_try_all (init # inits) disk d =
     rbind (init disk d) (\<lambda>(fs, d). if fs \<noteq> 0 then Inr (fs, d) else filesystems_try_all inits disk d)"

definition vfs_mount_fs ::
  "'d fs_t \<Rightarrow> ('k \<Rightarrow> 'd \<Rightarrow> (u32 \<times> 'd) kresult) list \<Rightarrow> 'k \<Rightarrow> cstring option \<Rightarrow> 'd vfs \<Rightarrow> (int \<times> 'd vfs) kresult" where
  "vfs_mount_fs D inits disk volumename V =
     rbind (filesystems_try_all inits disk (drv V)) (\<lambda>(fs, d).
       let V = V\<lparr>drv := d\<rparr> in
       if fs = 0 then Inr (VFS_NO_SUCH_FS, V)
       else
         let name = (case volumename of None \<Rightarrow> volume_name D fs (drv V) | Some n \<Rightarrow> n) in
         rbind (rd name 0) (\<lambda>c.
           if c = 0 then
             rbind (fs_unmount D fs (drv V)) (\<lambda>(_, d). Inr (VFS_INVALID_PARAMS, V\<lparr>drv := d\<rparr>))
           else
             rbind (vfs_mount fs (Some name) V) (\<lambda>(ret, V).
               if ret = VFS_OK then Inr (ret, V)
               else rbind (fs_unmount D fs (drv V)) (\<lambda>(_, d). Inr (ret, V\<lparr>drv := d\<rparr>)))))"

text \<open>
  The disks of the machine in the order of \<open>device_get\<close>: \<open>None\<close> is a device without a generic
  block device.
\<close>

fun mount_disks ::
  "'d fs_t \<Rightarrow> ('k \<Rightarrow> 'd \<Rightarrow> (u32 \<times> 'd) kresult) list \<Rightarrow> nat \<Rightarrow> 'k option list \<Rightarrow> 'd vfs \<Rightarrow> 'd vfs kresult" where
  "mount_disks D inits 0 disks V = Inr V"
| "mount_disks D inits (Suc n) [] V = Inr V"
| "mount_disks D inits (Suc n) (None # disks) V = mount_disks D inits n disks V"
| "mount_disks D inits (Suc n) (Some disk # disks) V =
     rbind (vfs_mount_fs D inits disk None V) (\<lambda>(_, V). mount_disks D inits n disks V)"

definition vfs_mount_all ::
  "'d fs_t \<Rightarrow> ('k \<Rightarrow> 'd \<Rightarrow> (u32 \<times> 'd) kresult) list \<Rightarrow> 'k option list \<Rightarrow> 'd vfs \<Rightarrow> 'd vfs kresult" where
  "vfs_mount_all D inits disks V = mount_disks D inits (nat CONFIG_MAX_FILESYSTEMS) disks V"

section \<open>Files\<close>

text \<open>The buffers on the stack of \<open>vfs_open\<close>, \<open>vfs_create\<close> and \<open>vfs_remove\<close>.\<close>

definition name_buffer :: cstring where "name_buffer = replicate 16 0"

definition open_fs :: "'d fs_t \<Rightarrow> u32 \<Rightarrow> cstring \<Rightarrow> int \<Rightarrow> 'd vfs \<Rightarrow> (int \<times> 'd vfs) kresult" where
  "open_fs D fs filename file V =
     rbind (fs_open D fs filename (drv V)) (\<lambda>(fid, d).
       let V = V\<lparr>drv := d\<rparr> in
       if fid < 0 then
         rbind (P_files V) (\<lambda>V.
         rbind (rd (files V) file) (\<lambda>f.
         rbind (wr (files V) file (f\<lparr>of_filesystem := 0\<rparr>)) (\<lambda>fl.
           end_ret fid (V_files (V\<lparr>files := fl\<rparr>)))))
       else
         rbind (rd (files V) file) (\<lambda>f.
         rbind (wr (files V) file (f\<lparr>fileid := fid, seek_position := 0\<rparr>)) (\<lambda>fl.
           end_ret file (V\<lparr>files := fl\<rparr>))))"

definition open_found :: "'d fs_t \<Rightarrow> cstring \<Rightarrow> cstring \<Rightarrow> int \<Rightarrow> 'd vfs \<Rightarrow> (int \<times> 'd vfs) kresult" where
  "open_found D volume filename file V =
     rbind (vfs_get_filesystem volume V) (\<lambda>fs.
       if fs = 0 then end_ret VFS_NO_SUCH_FS (V_table (V_files V))
       else
         rbind (rd (files V) file) (\<lambda>f.
         rbind (wr (files V) file (f\<lparr>of_filesystem := fs\<rparr>)) (\<lambda>fl.
           open_fs D fs filename file (V_table (V_files (V\<lparr>files := fl\<rparr>))))))"

definition open_body :: "'d fs_t \<Rightarrow> cstring \<Rightarrow> 'd vfs \<Rightarrow> (int \<times> 'd vfs) kresult" where
  "open_body D pathname V =
     rbind (vfs_parse_pathname pathname name_buffer name_buffer) (\<lambda>(r, volume, filename).
       if r \<noteq> VFS_OK then end_ret VFS_ERROR V
       else
         rbind (P_table V) (\<lambda>V.
         rbind (P_files V) (\<lambda>V.
         rbind (scan (\<lambda>f. of_filesystem f = 0) (files V) 0 CONFIG_MAX_OPEN_FILES) (\<lambda>row.
           case row of None \<Rightarrow> end_ret VFS_LIMIT (V_table (V_files V))
           | Some file \<Rightarrow> open_found D volume filename file V))))"

definition vfs_open :: "'d fs_t \<Rightarrow> cstring \<Rightarrow> 'd vfs \<Rightarrow> (int \<times> 'd vfs) kresult" where
  "vfs_open D pathname V = with_op (open_body D pathname) V"

text \<open>The row of an open file, or \<open>None\<close> (\<open>NULL\<close>).\<close>

definition vfs_verify_open :: "int \<Rightarrow> 'd vfs \<Rightarrow> openfile_entry option kresult" where
  "vfs_verify_open file V =
     (if \<not> (file \<ge> 0 \<and> file < CONFIG_MAX_OPEN_FILES) then Inr None
      else rbind (rd (files V) file) (\<lambda>f. Inr (if of_filesystem f = 0 then None else Some f)))"

definition close_body :: "'d fs_t \<Rightarrow> int \<Rightarrow> 'd vfs \<Rightarrow> (int \<times> 'd vfs) kresult" where
  "close_body D file V =
     rbind (P_files V) (\<lambda>V.
     rbind (vfs_verify_open file V) (\<lambda>r.
       case r of None \<Rightarrow> Inr (VFS_ERROR, V_files V)
       | Some f \<Rightarrow>
           rbind (fs_close D (of_filesystem f) (fileid f) (drv V)) (\<lambda>(ret, d).
           rbind (wr (files V) file (f\<lparr>of_filesystem := 0\<rparr>)) (\<lambda>fl.
             end_ret ret (V_files (V\<lparr>files := fl, drv := d\<rparr>))))))"

definition vfs_close :: "'d fs_t \<Rightarrow> int \<Rightarrow> 'd vfs \<Rightarrow> (int \<times> 'd vfs) kresult" where
  "vfs_close D file V = with_op (close_body D file) V"

definition seek_body :: "int \<Rightarrow> int \<Rightarrow> 'd vfs \<Rightarrow> (int \<times> 'd vfs) kresult" where
  "seek_body file pos V =
     (if \<not> pos \<ge> 0 then Inr (VFS_ERROR, V)
      else
        rbind (P_files V) (\<lambda>V.
        rbind (vfs_verify_open file V) (\<lambda>r.
          case r of None \<Rightarrow> Inr (VFS_ERROR, V_files V)
          | Some f \<Rightarrow>
              rbind (wr (files V) file (f\<lparr>seek_position := pos\<rparr>)) (\<lambda>fl.
                end_ret VFS_OK (V_files (V\<lparr>files := fl\<rparr>))))))"

definition vfs_seek :: "int \<Rightarrow> int \<Rightarrow> 'd vfs \<Rightarrow> (int \<times> 'd vfs) kresult" where
  "vfs_seek file pos V = with_op (seek_body file pos) V"

text \<open>The end of \<open>vfs_read\<close> and \<open>vfs_write\<close>: the position moves on by what was transferred.\<close>

definition advance :: "int \<Rightarrow> int \<Rightarrow> 'd vfs \<Rightarrow> (int \<times> 'd vfs) kresult" where
  "advance file ret V =
     rbind (if ret > 0 then
              rbind (P_files V) (\<lambda>V.
              rbind (rd (files V) file) (\<lambda>f.
              rbind (wr (files V) file (f\<lparr>seek_position := swrap (seek_position f + ret)\<rparr>)) (\<lambda>fl.
                Inr (V_files (V\<lparr>files := fl\<rparr>)))))
            else Inr V) (end_ret ret)"

text \<open>\<open>vfs_read\<close> also returns the bytes read; \<open>null\<close> says that the buffer is \<open>NULL\<close>.\<close>

definition vfs_read :: "'d fs_t \<Rightarrow> int \<Rightarrow> bool \<Rightarrow> int \<Rightarrow> 'd vfs \<Rightarrow> (int \<times> byte list \<times> 'd vfs) kresult" where
  "vfs_read D file null bufsize V =
     rbind (vfs_start_op V) (\<lambda>(r, V).
       if r \<noteq> VFS_OK then Inr (VFS_UNUSABLE, [], V)
       else
         rbind (vfs_verify_open file V) (\<lambda>r.
           case r of None \<Rightarrow> Inr (VFS_ERROR, [], V)
           | Some f \<Rightarrow>
               if \<not> (bufsize \<ge> 0 \<and> \<not> null) then Inr (VFS_ERROR, [], V)
               else
                 rbind (fs_read D (of_filesystem f) (fileid f) bufsize (seek_position f) (drv V)) (\<lambda>(ret, bs, d).
                 rbind (advance file ret (V\<lparr>drv := d\<rparr>)) (\<lambda>(ret, V). Inr (ret, bs, V)))))"

text \<open>The buffer of \<open>vfs_write\<close> is the bytes it holds, \<open>None\<close> for \<open>NULL\<close>.\<close>

definition write_body :: "'d fs_t \<Rightarrow> int \<Rightarrow> byte list option \<Rightarrow> int \<Rightarrow> 'd vfs \<Rightarrow> (int \<times> 'd vfs) kresult" where
  "write_body D file buffer datasize V =
     rbind (vfs_verify_open file V) (\<lambda>r.
       case r of None \<Rightarrow> Inr (VFS_ERROR, V)
       | Some f \<Rightarrow>
           kassert (datasize \<ge> 0 \<and> buffer \<noteq> None)
            (rbind (fs_write D (of_filesystem f) (fileid f) (the buffer) datasize (seek_position f) (drv V)) (\<lambda>(ret, d).
               advance file ret (V\<lparr>drv := d\<rparr>))))"

definition vfs_write :: "'d fs_t \<Rightarrow> int \<Rightarrow> byte list option \<Rightarrow> int \<Rightarrow> 'd vfs \<Rightarrow> (int \<times> 'd vfs) kresult" where
  "vfs_write D file buffer datasize V = with_op (write_body D file buffer datasize) V"

text \<open>Creating and removing a file differ in the driver operation they call.\<close>

definition on_volume :: "cstring \<Rightarrow> (u32 \<Rightarrow> 'd \<Rightarrow> (int \<times> 'd) kresult) \<Rightarrow> 'd vfs \<Rightarrow> (int \<times> 'd vfs) kresult" where
  "on_volume volume act V =
     rbind (P_table V) (\<lambda>V.
     rbind (vfs_get_filesystem volume V) (\<lambda>fs.
       if fs = 0 then end_ret VFS_NO_SUCH_FS (V_table V)
       else rbind (act fs (drv V)) (\<lambda>(ret, d). end_ret ret (V_table (V\<lparr>drv := d\<rparr>)))))"

definition path_body :: "cstring \<Rightarrow> (u32 \<Rightarrow> cstring \<Rightarrow> 'd \<Rightarrow> (int \<times> 'd) kresult) \<Rightarrow> 'd vfs \<Rightarrow> (int \<times> 'd vfs) kresult" where
  "path_body pathname act V =
     rbind (vfs_parse_pathname pathname name_buffer name_buffer) (\<lambda>(r, volume, filename).
       if r \<noteq> VFS_OK then end_ret VFS_ERROR V else on_volume volume (\<lambda>fs. act fs filename) V)"

definition vfs_create :: "'d fs_t \<Rightarrow> cstring \<Rightarrow> int \<Rightarrow> 'd vfs \<Rightarrow> (int \<times> 'd vfs) kresult" where
  "vfs_create D pathname fsize V =
     (if fsize < 0 then Inr (VFS_OK, V)
      else with_op (path_body pathname (\<lambda>fs name. fs_create D fs name fsize)) V)"

definition vfs_remove :: "'d fs_t \<Rightarrow> cstring \<Rightarrow> 'd vfs \<Rightarrow> (int \<times> 'd vfs) kresult" where
  "vfs_remove D pathname V = with_op (path_body pathname (fs_remove D)) V"

definition vfs_getfree :: "'d fs_t \<Rightarrow> cstring \<Rightarrow> 'd vfs \<Rightarrow> (int \<times> 'd vfs) kresult" where
  "vfs_getfree D name V = with_op (on_volume name (fs_getfree D)) V"

section \<open>Between calls\<close>

definition vfs_idle :: "'d vfs \<Rightarrow> bool" where
  "vfs_idle V \<longleftrightarrow> vfs_table_sem V = 1 \<and> openfile_sem V = 1 \<and> vfs_op_sem V = 1 \<and> vfs_usable V \<and> 0 \<le> vfs_ops V \<and>
     length (filesystems V) = 8 \<and> length (files V) = 512 \<and>
     (\<forall>e \<in> set (filesystems V). length (mountpoint e) = 16 \<and> terminated (mountpoint e))"

lemma vfs_idleD:
  assumes "vfs_idle V"
  shows "vfs_table_sem V = 1" "openfile_sem V = 1" "vfs_op_sem V = 1" "vfs_usable V" "0 \<le> vfs_ops V"
    "length (filesystems V) = 8" "length (files V) = 512"
    "\<And>e. e \<in> set (filesystems V) \<Longrightarrow> length (mountpoint e) = 16 \<and> terminated (mountpoint e)"
  using assms by (auto simp: vfs_idle_def)

text \<open>A call inside its operation: one more operation is counted.\<close>

lemma with_op_eq:
  assumes "vfs_op_sem V = 1" "vfs_usable V"
  shows "with_op body V = body (V\<lparr>vfs_ops := vfs_ops V + 1\<rparr>)"
  using assms by (cases V) (simp add: with_op_def vfs_start_op_def P_op_def V_op_def sem_down_def VFS_OK_def)

lemma end_ret_eq:
  assumes "vfs_op_sem V = 1" "vfs_usable V" "0 < vfs_ops V"
  shows "end_ret r V = Inr (r, V\<lparr>vfs_ops := vfs_ops V - 1\<rparr>)"
  using assms by (cases V) (simp add: end_ret_def vfs_end_op_def P_op_def V_op_def sem_down_def)

lemma sems_eq:
  "vfs_table_sem V = 1 \<Longrightarrow> P_table V = Inr (V\<lparr>vfs_table_sem := 0\<rparr>)"
  "openfile_sem V = 1 \<Longrightarrow> P_files V = Inr (V\<lparr>openfile_sem := 0\<rparr>)"
  "vfs_table_sem V = 1 \<Longrightarrow> V_table (V\<lparr>vfs_table_sem := 0\<rparr>) = V"
  "openfile_sem V = 1 \<Longrightarrow> V_files (V\<lparr>openfile_sem := 0\<rparr>) = V"
  by (simp_all add: P_table_def P_files_def V_table_def V_files_def sem_down_def)

lemmas sem_defs = P_table_def P_files_def V_table_def V_files_def sem_down_def

lemma named_eq: "terminated (mountpoint e) \<Longrightarrow> terminated name \<Longrightarrow> named name e = Inr (cstr (mountpoint e) = cstr name)"
  using stringcmp_eq [of "mountpoint e" name] by (auto simp: named_def)

text \<open>The first row with a name, as the search of the mount table finds it.\<close>

definition row_of :: "cstring \<Rightarrow> 'd vfs \<Rightarrow> vfs_entry option" where
  "row_of name V = find (\<lambda>e. cstr (mountpoint e) = cstr name) (filesystems V)"

lemma mount_scan:
  assumes "vfs_idle V" "terminated name"
  obtains r where "scanM (named name) (filesystems V) 0 CONFIG_MAX_FILESYSTEMS = Inr r"
    "first_from (\<lambda>k. cstr (mountpoint (filesystems V ! nat k)) = cstr name) 0 8 r"
    "row_of name V = map_option (\<lambda>k. filesystems V ! nat k) r"
proof -
  note d = vfs_idleD [OF assms(1)]
  have "scanM (named name) (filesystems V) 0 8 = scan (\<lambda>e. cstr (mountpoint e) = cstr name) (filesystems V) 0 8"
    using d(8) assms(2) by (intro scanM_eq named_eq) auto
  moreover obtain r where "scan (\<lambda>e. cstr (mountpoint e) = cstr name) (filesystems V) 0 8 = Inr r"
    "first_from (\<lambda>k. cstr (mountpoint (filesystems V ! nat k)) = cstr name) 0 8 r"
    using scan_total [of 0 8 "filesystems V"] d(6) by auto
  moreover from this have "row_of name V = map_option (\<lambda>k. filesystems V ! nat k) r"
    unfolding row_of_def using first_from_find [of "\<lambda>e. cstr (mountpoint e) = cstr name" "filesystems V" r] d(6) by simp
  ultimately show thesis using that by (simp add: CONFIG_MAX_FILESYSTEMS_def)
qed

definition fs_of :: "cstring \<Rightarrow> 'd vfs \<Rightarrow> u32" where
  "fs_of name V = (case row_of name V of None \<Rightarrow> 0 | Some e \<Rightarrow> filesystem e)"

lemma vfs_get_filesystem_eq:
  assumes "vfs_idle V" "terminated name"
  shows "vfs_get_filesystem name V = Inr (fs_of name V)"
proof -
  obtain r where r: "scanM (named name) (filesystems V) 0 CONFIG_MAX_FILESYSTEMS = Inr r"
    "first_from (\<lambda>k. cstr (mountpoint (filesystems V ! nat k)) = cstr name) 0 8 r"
    "row_of name V = map_option (\<lambda>k. filesystems V ! nat k) r" by (rule mount_scan [OF assms])
  show ?thesis
    using r vfs_idleD(6) [OF assms(1)] by (cases r) (auto simp: vfs_get_filesystem_def fs_of_def first_from_def)
qed

text \<open>The functions read only the fields they need.\<close>

lemma vfs_reads [simp]:
  "vfs_get_filesystem name (V\<lparr>vfs_ops := n\<rparr>) = vfs_get_filesystem name V"
  "vfs_get_filesystem name (V\<lparr>vfs_table_sem := n\<rparr>) = vfs_get_filesystem name V"
  "vfs_get_filesystem name (V\<lparr>openfile_sem := n\<rparr>) = vfs_get_filesystem name V"
  "vfs_verify_open file (V\<lparr>vfs_ops := n\<rparr>) = vfs_verify_open file V"
  "vfs_verify_open file (V\<lparr>openfile_sem := n\<rparr>) = vfs_verify_open file V"
  by (simp_all add: vfs_get_filesystem_def vfs_verify_open_def cong: option.case_cong)

text \<open>The row of an open file.\<close>

definition open_row :: "int \<Rightarrow> 'd vfs \<Rightarrow> openfile_entry option" where
  "open_row file V =
     (if 0 \<le> file \<and> file < 512 \<and> of_filesystem (files V ! nat file) \<noteq> 0 then Some (files V ! nat file) else None)"

lemma vfs_verify_open_eq: "length (files V) = 512 \<Longrightarrow> vfs_verify_open file V = Inr (open_row file V)"
  by (auto simp: vfs_verify_open_def open_row_def CONFIG_MAX_OPEN_FILES_def)

lemma open_row_Some:
  "open_row file V = Some f \<longleftrightarrow> 0 \<le> file \<and> file < 512 \<and> of_filesystem (files V ! nat file) \<noteq> 0 \<and> f = files V ! nat file"
  by (auto simp: open_row_def)

section \<open>What a path name means\<close>

text \<open>
  The volume and the file of a path: \<open>[volume]file\<close>, or a file alone with the empty volume name.
  The volume has at most 14 characters, the file between 1 and 15.
\<close>

definition path_parts :: "byte list \<Rightarrow> (byte list \<times> byte list) option" where
  "path_parts p =
     (let v = takeWhile (\<lambda>c. c \<noteq> 93) (tl p); f = drop (length v + 2) p in
      if p \<noteq> [] \<and> hd p = 91 then
        if length v < length (tl p) \<and> length v \<le> 14 \<and> f \<noteq> [] \<and> length f \<le> 15 then Some (v, f) else None
      else if p \<noteq> [] \<and> length p \<le> 15 then Some ([], p) else None)"

lemma list_update_take_drop: "n < length xs \<Longrightarrow> xs[n := x] = take n xs @ x # drop (Suc n) xs"
  by (rule upd_conv_take_nth_drop)

lemma parse_filename_ok:
  assumes "terminated p" "length fb = 16" "n + length (cstr p) \<le> 15"
  shows "parse_filename p fb (int n) =
    Inr (if n + length (cstr p) = 0 then VFS_ERROR else VFS_OK, take n fb @ cstr p @ 0 # drop (n + length (cstr p) + 1) fb)"
  using assms
proof (induction p arbitrary: fb n)
  case (Cons c p)
  have w: "wr fb (int n) c = Inr (fb[n := c])" using Cons.prems by simp
  show ?case
  proof (cases "c = 0")
    case True
    with Cons.prems w show ?thesis
      by (subst parse_filename.simps) (simp add: VFS_NAME_LENGTH_def list_update_take_drop)
  next
    case False
    have "parse_filename p (fb[n := c]) (int (Suc n)) =
      Inr (VFS_OK, take (Suc n) (fb[n := c]) @ cstr p @ 0 # drop (Suc n + length (cstr p) + 1) (fb[n := c]))"
      using Cons.IH [of "fb[n := c]" "Suc n"] Cons.prems False by simp
    moreover have "take (Suc n) (fb[n := c]) = take n fb @ [c]"
      using Cons.prems(2,3) by (simp add: list_update_take_drop take_Suc_conv_app_nth)
    moreover have "parse_filename (c # p) fb (int n) = parse_filename p (fb[n := c]) (int (Suc n))"
      using False w Cons.prems by (simp add: parse_filename.simps [of "c # p"] VFS_NAME_LENGTH_def add.commute)
    ultimately show ?thesis using False by simp
  qed
qed simp

lemma parse_filename_long:
  assumes "terminated p" "length fb = 16" "n + length (cstr p) > 15" "n \<le> 16"
  shows "\<exists>fb'. parse_filename p fb (int n) = Inr (VFS_ERROR, fb') \<and> length fb' = 16"
  using assms
proof (induction p arbitrary: fb n)
  case (Cons c p)
  show ?case
  proof (cases "n = 16")
    case True
    then show ?thesis using Cons.prems by (simp add: parse_filename.simps [of "c # p"] VFS_NAME_LENGTH_def)
  next
    case False
    have c: "c \<noteq> 0" using Cons.prems False by auto
    have "parse_filename (c # p) fb (int n) = parse_filename p (fb[n := c]) (int (Suc n))"
      using Cons.prems False c by (simp add: parse_filename.simps [of "c # p"] VFS_NAME_LENGTH_def add.commute)
    moreover have "\<exists>fb'. parse_filename p (fb[n := c]) (int (Suc n)) = Inr (VFS_ERROR, fb') \<and> length fb' = 16"
      by (rule Cons.IH) (use Cons.prems False c in auto)
    ultimately show ?thesis by simp
  qed
qed simp

lemma parse_volume_eq:
  assumes "terminated p" "length vb = 16" "n \<le> 15"
  defines "v \<equiv> takeWhile (\<lambda>c. c \<noteq> 93) (cstr p)"
  shows "\<exists>rest vb'. parse_volume p vb (int n) =
      (if n + length v \<ge> 15 then Inr (Some (15, rest, vb'))
       else if v = cstr p then Inr None
       else Inr (Some (int (n + length v), drop (length v + 1) p, take n vb @ v @ drop (n + length v) vb)))
    \<and> length vb' = 16"
  using assms(1-3) unfolding v_def
proof (induction p arbitrary: vb n)
  case (Cons c p)
  let ?v = "takeWhile (\<lambda>c. c \<noteq> 93) (cstr p)"
  note code = parse_volume.simps [of "c # p"] VFS_NAME_LENGTH_def
  consider (full) "n = 15" | (stop) "n < 15" "c = 0 \<or> c = 93" | (more) "n < 15" "c \<noteq> 0" "c \<noteq> 93" using Cons.prems by linarith
  then show ?case
  proof cases
    case full
    then show ?thesis using Cons.prems by (auto simp: code)
  next
    case stop
    then show ?thesis using Cons.prems by (subst parse_volume.simps) (auto simp: VFS_NAME_LENGTH_def)
  next
    case more
    obtain rest vb' where "parse_volume p (vb[n := c]) (int (Suc n)) =
      (if Suc n + length ?v \<ge> 15 then Inr (Some (15, rest, vb'))
       else if ?v = cstr p then Inr None
       else Inr (Some (int (Suc n + length ?v), drop (length ?v + 1) p, take (Suc n) (vb[n := c]) @ ?v @ drop (Suc n + length ?v) (vb[n := c]))))"
      "length vb' = 16"
      using Cons.IH [of "vb[n := c]" "Suc n"] Cons.prems more by auto
    moreover have "take (Suc n) (vb[n := c]) = take n vb @ [c]"
      using Cons.prems(2) more by (simp add: list_update_take_drop take_Suc_conv_app_nth)
    moreover have "parse_volume (c # p) vb (int n) = parse_volume p (vb[n := c]) (int (Suc n))"
      using Cons.prems more by (simp add: code add.commute)
    ultimately show ?thesis using more by - (rule exI [of _ rest], rule exI [of _ vb'], auto)
  qed
qed simp

lemma parse_rest_eq:
  assumes "terminated p" "length vb = 16" "length fb = 16" "0 \<le> k" "k < 16" "0 \<notin> set (take (nat k) vb)"
  shows "\<exists>r vb' fb'. parse_rest p vb k fb = Inr (r, vb', fb') \<and>
    (if cstr p \<noteq> [] \<and> length (cstr p) \<le> 15
     then r = VFS_OK \<and> cstr vb' = take (nat k) vb \<and> terminated vb' \<and> cstr fb' = cstr p \<and> terminated fb'
     else r = VFS_ERROR)"
proof -
  let ?vb = "take (nat k) vb @ 0 # drop (Suc (nat k)) vb"
  have k: "nat k < 16" using assms(4,5) by linarith
  have w: "wr vb k 0 = Inr ?vb" using assms k by (simp add: list_update_take_drop)
  have v: "cstr ?vb = take (nat k) vb" "terminated ?vb" using cstr_append_0 [OF assms(6)] by (auto simp: terminated_def)
  show ?thesis
  proof (cases "length (cstr p) \<le> 15")
    case True
    let ?fb = "cstr p @ 0 # drop (length (cstr p) + 1) fb"
    have "parse_filename p fb 0 = Inr (if cstr p = [] then VFS_ERROR else VFS_OK, ?fb)"
      using parse_filename_ok [OF assms(1,3), of 0] True by simp
    moreover have "cstr ?fb = cstr p" "terminated ?fb" using cstr_append_0 [OF cstr_no_0] by (auto simp: terminated_def)
    ultimately show ?thesis using w v True by (auto simp: parse_rest_def)
  next
    case False
    then show ?thesis using parse_filename_long [OF assms(1,3), of 0] w by (auto simp: parse_rest_def)
  qed
qed

lemma terminated_drop: "terminated p \<Longrightarrow> n \<le> length (cstr p) \<Longrightarrow> terminated (drop n p)"
proof (induction p arbitrary: n)
  case (Cons c p)
  then show ?case by (cases n; cases "c = 0") auto
qed simp

lemma cstr_drop: "n \<le> length (cstr p) \<Longrightarrow> cstr (drop n p) = drop n (cstr p)"
proof (induction p arbitrary: n)
  case (Cons c p)
  then show ?case by (cases n; cases "c = 0") auto
qed simp

lemma vfs_parse_pathname_eq:
  assumes "terminated p" "length vb = 16" "length fb = 16"
  shows "\<exists>r vb' fb'. vfs_parse_pathname p vb fb = Inr (r, vb', fb') \<and>
    (case path_parts (cstr p) of None \<Rightarrow> r = VFS_ERROR
     | Some (v, f) \<Rightarrow> r = VFS_OK \<and> cstr vb' = v \<and> terminated vb' \<and> cstr fb' = f \<and> terminated fb')"
proof -
  obtain c q where p: "p = c # q" using assms(1) by (cases p) auto
  show ?thesis
  proof (cases "c = 91")
    case False
    have "vfs_parse_pathname p vb fb = parse_rest p vb 0 fb" using p False by (simp add: vfs_parse_pathname_def)
    moreover have "path_parts (cstr p) = (if cstr p \<noteq> [] \<and> length (cstr p) \<le> 15 then Some ([], cstr p) else None)"
      using p False by (cases "c = 0") (auto simp: path_parts_def)
    ultimately show ?thesis using parse_rest_eq [OF assms, of 0] by (auto split: if_splits)
  next
    case True
    let ?v = "takeWhile (\<lambda>c. c \<noteq> 93) (cstr q)"
    have q: "terminated q" "cstr p = 91 # cstr q" using assms(1) p True by auto
    have le: "length ?v \<le> length (cstr q)" by (rule length_takeWhile_le)
    have same: "?v = cstr q \<longleftrightarrow> \<not> length ?v < length (cstr q)"
      using le by (metis le_neq_implies_less less_irrefl takeWhile_eq_take take_all)
    have parts: "path_parts (cstr p) = (if length ?v < length (cstr q) \<and> length ?v \<le> 14 \<and> drop (length ?v + 1) (cstr q) \<noteq> [] \<and>
      length (drop (length ?v + 1) (cstr q)) \<le> 15 then Some (?v, drop (length ?v + 1) (cstr q)) else None)"
      using q(2) by (simp add: path_parts_def)
    obtain rest vb' where pv: "parse_volume q vb 0 = (if length ?v \<ge> 15 then Inr (Some (15, rest, vb'))
       else if ?v = cstr q then Inr None
       else Inr (Some (int (length ?v), drop (length ?v + 1) q, ?v @ drop (length ?v) vb)))"
      using parse_volume_eq [OF q(1) assms(2) zero_le] by (simp only: int_ops(1) add_0 take_0 append_Nil) blast
    have code: "vfs_parse_pathname p vb fb = rbind (parse_volume q vb 0) (\<lambda>r.
           case r of None \<Rightarrow> Inr (VFS_ERROR, vb, fb)
           | Some (i, rest, vb) \<Rightarrow> if i \<ge> VFS_NAME_LENGTH - 1 then Inr (VFS_ERROR, vb, fb) else parse_rest rest vb i fb)"
      using p True by (simp add: vfs_parse_pathname_def)
    show ?thesis
    proof (cases "length ?v < 15 \<and> ?v \<noteq> cstr q")
      case False
      then have "path_parts (cstr p) = None" using parts same by auto
      moreover have "\<exists>vb'. vfs_parse_pathname p vb fb = Inr (VFS_ERROR, vb', fb)"
        using False unfolding code pv by (cases "length ?v \<ge> 15") (auto simp: VFS_NAME_LENGTH_def)
      ultimately show ?thesis by auto
    next
      case t: True
      then have lt: "length ?v < length (cstr q)" using same by blast
      have no0: "0 \<notin> set ?v" using cstr_no_0 [of q] by (meson set_takeWhileD)
      have "vfs_parse_pathname p vb fb = parse_rest (drop (length ?v + 1) q) (?v @ drop (length ?v) vb) (int (length ?v)) fb"
        using t unfolding code pv by (auto simp: VFS_NAME_LENGTH_def)
      moreover have "\<exists>r vb' fb'. parse_rest (drop (length ?v + 1) q) (?v @ drop (length ?v) vb) (int (length ?v)) fb = Inr (r, vb', fb') \<and>
        (if cstr (drop (length ?v + 1) q) \<noteq> [] \<and> length (cstr (drop (length ?v + 1) q)) \<le> 15
         then r = VFS_OK \<and> cstr vb' = take (nat (int (length ?v))) (?v @ drop (length ?v) vb) \<and> terminated vb' \<and>
           cstr fb' = cstr (drop (length ?v + 1) q) \<and> terminated fb'
         else r = VFS_ERROR)"
        by (rule parse_rest_eq) (use t lt assms no0 terminated_drop [OF q(1), of "length ?v + 1"] in auto)
      moreover have "cstr (drop (length ?v + 1) q) = drop (length ?v + 1) (cstr q)" using lt by (intro cstr_drop) simp
      ultimately show ?thesis unfolding parts using t lt by (auto split: if_splits)
    qed
  qed
qed

section \<open>What the operations do\<close>

text \<open>
  Each operation on a state between calls, with the semaphores and the count of operations gone from
  the result wherever the code balances them.
\<close>

lemma free_scan:
  assumes "vfs_idle V"
  obtains r where "scan (\<lambda>f. of_filesystem f = 0) (files V) 0 CONFIG_MAX_OPEN_FILES = Inr r"
    "first_from (\<lambda>k. of_filesystem (files V ! nat k) = 0) 0 512 r"
  using scan_total [of 0 512 "files V" "\<lambda>f. of_filesystem f = 0"] vfs_idleD(7) [OF assms]
  by (auto simp: CONFIG_MAX_OPEN_FILES_def)

lemma vfs_close_eq:
  assumes "vfs_idle V"
  shows "vfs_close D file V =
    (case open_row file V of None \<Rightarrow> Inr (VFS_ERROR, V\<lparr>vfs_ops := vfs_ops V + 1\<rparr>)
     | Some f \<Rightarrow> rbind (fs_close D (of_filesystem f) (fileid f) (drv V)) (\<lambda>(ret, d).
         Inr (ret, V\<lparr>files := (files V)[nat file := f\<lparr>of_filesystem := 0\<rparr>], drv := d\<rparr>)))"
proof -
  note d = vfs_idleD [OF assms]
  have len: "length (files V) = 512" using d by simp
  let ?V = "V\<lparr>vfs_ops := vfs_ops V + 1\<rparr>"
  have code: "vfs_close D file V = close_body D file ?V" using d by (simp add: vfs_close_def with_op_eq)
  have p: "P_files ?V = Inr (?V\<lparr>openfile_sem := 0\<rparr>)" using d by (simp add: sems_eq)
  have ver: "vfs_verify_open file (?V\<lparr>openfile_sem := 0\<rparr>) = Inr (open_row file V)"
    using d by (simp add: vfs_verify_open_eq)
  show ?thesis
  proof (cases "open_row file V")
    case None
    have "V_files (?V\<lparr>openfile_sem := 0\<rparr>) = ?V" using d by (simp add: sems_eq)
    with None p ver show ?thesis by (simp add: code close_body_def)
  next
    case (Some f)
    note f = Some [unfolded open_row_Some]
    show ?thesis
    proof (cases "fs_close D (of_filesystem f) (fileid f) (drv V)")
      case (Inr x)
      obtain ret e where x: "x = (ret, e)" by (cases x)
      have "end_ret ret (V_files (?V\<lparr>openfile_sem := 0, files := (files V)[nat file := f\<lparr>of_filesystem := 0\<rparr>], drv := e\<rparr>)) =
        Inr (ret, V\<lparr>files := (files V)[nat file := f\<lparr>of_filesystem := 0\<rparr>], drv := e\<rparr>)"
        using d by (subst end_ret_eq) (cases V, simp add: V_files_def)+
      then show ?thesis using Some Inr x len p ver f by (simp add: code close_body_def)
    qed (use Some p ver in \<open>simp add: code close_body_def\<close>)
  qed
qed

lemma vfs_seek_eq:
  assumes "vfs_idle V"
  shows "vfs_seek file pos V =
    (case (if 0 \<le> pos then open_row file V else None) of None \<Rightarrow> Inr (VFS_ERROR, V\<lparr>vfs_ops := vfs_ops V + 1\<rparr>)
     | Some f \<Rightarrow> Inr (VFS_OK, V\<lparr>files := (files V)[nat file := f\<lparr>seek_position := pos\<rparr>]\<rparr>))"
proof -
  note d = vfs_idleD [OF assms]
  let ?V = "V\<lparr>vfs_ops := vfs_ops V + 1\<rparr>"
  have code: "vfs_seek file pos V = seek_body file pos ?V" using d by (simp add: vfs_seek_def with_op_eq)
  have p: "P_files ?V = Inr (?V\<lparr>openfile_sem := 0\<rparr>)" using d by (simp add: sems_eq)
  have ver: "vfs_verify_open file (?V\<lparr>openfile_sem := 0\<rparr>) = Inr (open_row file V)"
    using d by (simp add: vfs_verify_open_eq)
  consider "pos < 0" | "0 \<le> pos" "open_row file V = None" | f where "0 \<le> pos" "open_row file V = Some f" by (cases "open_row file V") force+
  then show ?thesis
  proof cases
    case 3
    have "end_ret VFS_OK (V_files (?V\<lparr>openfile_sem := 0, files := (files V)[nat file := f\<lparr>seek_position := pos\<rparr>]\<rparr>)) =
        Inr (VFS_OK, V\<lparr>files := (files V)[nat file := f\<lparr>seek_position := pos\<rparr>]\<rparr>)"
      using d by (subst end_ret_eq) (cases V, simp add: V_files_def)+
    moreover have "0 \<le> file" "file < 512" using 3(2) by (simp_all add: open_row_Some)
    ultimately show ?thesis using 3 d(7) p ver by (simp add: code seek_body_def)
  next
    case 2
    have "V_files (?V\<lparr>openfile_sem := 0\<rparr>) = ?V" using d by (simp add: sems_eq)
    with 2 p ver show ?thesis by (simp add: code seek_body_def)
  qed (simp add: code seek_body_def)
qed

lemma advance_eq:
  assumes "vfs_idle V" "0 < vfs_ops V" "open_row file V = Some f"
  shows "advance file ret V = Inr (ret, V\<lparr>files := (if ret > 0 then
      (files V)[nat file := f\<lparr>seek_position := swrap (seek_position f + ret)\<rparr>] else files V), vfs_ops := vfs_ops V - 1\<rparr>)"
proof -
  note d = vfs_idleD [OF assms(1)] and f = assms(3) [unfolded open_row_Some]
  show ?thesis
  proof (cases "ret > 0")
    case True
    let ?fl = "(files V)[nat file := f\<lparr>seek_position := swrap (seek_position f + ret)\<rparr>]"
    have "V_files (V\<lparr>openfile_sem := 0, files := ?fl\<rparr>) = V\<lparr>files := ?fl\<rparr>" using d by (cases V) (simp add: V_files_def)
    moreover have "end_ret ret (V\<lparr>files := ?fl\<rparr>) = Inr (ret, V\<lparr>files := ?fl, vfs_ops := vfs_ops V - 1\<rparr>)"
      using d assms(2) by (subst end_ret_eq) simp_all
    ultimately show ?thesis using True d f by (simp add: advance_def sems_eq)
  next
    case False
    then show ?thesis using d assms(2) by (simp add: advance_def end_ret_eq)
  qed
qed

text \<open>The state after \<open>ret\<close> bytes were transferred by the driver.\<close>

definition moved :: "int \<Rightarrow> openfile_entry \<Rightarrow> int \<Rightarrow> 'd \<Rightarrow> 'd vfs \<Rightarrow> 'd vfs" where
  "moved file f ret d V = V\<lparr>files := (if ret > 0 then
     (files V)[nat file := f\<lparr>seek_position := swrap (seek_position f + ret)\<rparr>] else files V), drv := d\<rparr>"

lemma advance_moved:
  assumes "vfs_idle V" "open_row file V = Some f"
  shows "advance file ret (V\<lparr>vfs_ops := vfs_ops V + 1, drv := d\<rparr>) = Inr (ret, moved file f ret d V)"
proof -
  let ?V = "V\<lparr>vfs_ops := vfs_ops V + 1, drv := d\<rparr>"
  note i = vfs_idleD [OF assms(1)]
  have idle: "vfs_idle ?V" using assms(1) by (simp add: vfs_idle_def)
  have ops: "0 < vfs_ops ?V" using i(5) by simp
  have row: "open_row file ?V = Some f" using assms(2) by (simp add: open_row_Some)
  show ?thesis
    unfolding advance_eq [OF idle ops row] moved_def by (cases V) simp
qed

lemma vfs_read_eq:
  assumes "vfs_idle V"
  shows "vfs_read D file null n V =
    (case (if 0 \<le> n \<and> \<not> null then open_row file V else None) of None \<Rightarrow> Inr (VFS_ERROR, [], V\<lparr>vfs_ops := vfs_ops V + 1\<rparr>)
     | Some f \<Rightarrow> rbind (fs_read D (of_filesystem f) (fileid f) n (seek_position f) (drv V)) (\<lambda>(ret, bs, d).
         Inr (ret, bs, moved file f ret d V)))"
proof -
  note d = vfs_idleD [OF assms]
  let ?V = "V\<lparr>vfs_ops := vfs_ops V + 1\<rparr>"
  have start: "vfs_start_op V = Inr (VFS_OK, ?V)" using d by (cases V) (simp add: vfs_start_op_def P_op_def V_op_def sem_down_def)
  have ver: "vfs_verify_open file ?V = Inr (open_row file V)" using d by (simp add: vfs_verify_open_eq)
  note code = vfs_read_def start
  show ?thesis
  proof (cases "open_row file V")
    case (Some f)
    show ?thesis
    proof (cases "fs_read D (of_filesystem f) (fileid f) n (seek_position f) (drv V)")
      case (Inr x)
      obtain ret bs e where x: "x = (ret, bs, e)" by (cases x)
      show ?thesis using Some Inr x advance_moved [OF assms Some, of ret e] ver by (auto simp: code)
    qed (use Some ver in \<open>auto simp: code\<close>)
  qed (use ver in \<open>simp add: code\<close>)
qed

lemma vfs_write_eq:
  assumes "vfs_idle V"
  shows "vfs_write D file buffer n V =
    (case open_row file V of None \<Rightarrow> Inr (VFS_ERROR, V\<lparr>vfs_ops := vfs_ops V + 1\<rparr>)
     | Some f \<Rightarrow> kassert (n \<ge> 0 \<and> buffer \<noteq> None)
         (rbind (fs_write D (of_filesystem f) (fileid f) (the buffer) n (seek_position f) (drv V)) (\<lambda>(ret, d).
            Inr (ret, moved file f ret d V))))"
proof -
  note d = vfs_idleD [OF assms]
  let ?V = "V\<lparr>vfs_ops := vfs_ops V + 1\<rparr>"
  have code: "vfs_write D file buffer n V = write_body D file buffer n ?V" using d by (simp add: vfs_write_def with_op_eq)
  have ver: "vfs_verify_open file ?V = Inr (open_row file V)" using d by (simp add: vfs_verify_open_eq)
  show ?thesis
  proof (cases "open_row file V")
    case (Some f)
    show ?thesis
    proof (cases "fs_write D (of_filesystem f) (fileid f) (the buffer) n (seek_position f) (drv V)")
      case (Inr x)
      obtain ret e where x: "x = (ret, e)" by (cases x)
      show ?thesis using Some Inr x advance_moved [OF assms Some, of ret e] ver by (auto simp: code write_body_def kassert_def)
    qed (use Some ver in \<open>auto simp: code write_body_def kassert_def\<close>)
  qed (use ver in \<open>simp add: code write_body_def\<close>)
qed

lemma idle_ops: "vfs_idle V \<Longrightarrow> vfs_idle (V\<lparr>vfs_ops := vfs_ops V + 1\<rparr>)"
  by (simp add: vfs_idle_def)

lemma fs_of_reads [simp]: "fs_of name (V\<lparr>vfs_ops := n\<rparr>) = fs_of name V" "row_of name (V\<lparr>vfs_ops := n\<rparr>) = row_of name V"
  by (simp_all add: fs_of_def row_of_def)

lemma end_ret_balanced:
  assumes "vfs_op_sem V = 1" "vfs_usable V" "0 \<le> vfs_ops V"
  shows "end_ret r (V\<lparr>vfs_ops := vfs_ops V + 1\<rparr>) = Inr (r, V)"
  using assms by (subst end_ret_eq) simp_all

lemma on_volume_eq:
  assumes "vfs_idle V" "terminated volume"
  shows "on_volume volume act (V\<lparr>vfs_ops := vfs_ops V + 1\<rparr>) =
    (if fs_of volume V = 0 then Inr (VFS_NO_SUCH_FS, V)
     else rbind (act (fs_of volume V) (drv V)) (\<lambda>(ret, d). Inr (ret, V\<lparr>drv := d\<rparr>)))"
proof -
  note d = vfs_idleD [OF assms(1)]
  let ?V = "V\<lparr>vfs_ops := vfs_ops V + 1\<rparr>"
  have p: "P_table ?V = Inr (?V\<lparr>vfs_table_sem := 0\<rparr>)" using d by (simp add: sems_eq)
  have g: "vfs_get_filesystem volume (?V\<lparr>vfs_table_sem := 0\<rparr>) = Inr (fs_of volume V)"
    using vfs_get_filesystem_eq [OF assms] by simp
  show ?thesis
  proof (cases "fs_of volume V = 0")
    case True
    have "V_table (?V\<lparr>vfs_table_sem := 0\<rparr>) = ?V" using d by (simp add: sems_eq)
    with True p g end_ret_balanced [OF d(3-5)] show ?thesis by (simp add: on_volume_def)
  next
    case False
    show ?thesis
    proof (cases "act (fs_of volume V) (drv V)")
      case (Inr x)
      obtain ret e where x: "x = (ret, e)" by (cases x)
      have "end_ret ret (V_table (?V\<lparr>vfs_table_sem := 0, drv := e\<rparr>)) = Inr (ret, V\<lparr>drv := e\<rparr>)"
        using d by (subst end_ret_eq) (cases V, simp add: V_table_def)+
      with False Inr x p g show ?thesis by (simp add: on_volume_def)
    qed (use False p g in \<open>simp add: on_volume_def\<close>)
  qed
qed

lemma vfs_getfree_eq:
  assumes "vfs_idle V" "terminated name"
  shows "vfs_getfree D name V =
    (if fs_of name V = 0 then Inr (VFS_NO_SUCH_FS, V)
     else rbind (fs_getfree D (fs_of name V) (drv V)) (\<lambda>(ret, d). Inr (ret, V\<lparr>drv := d\<rparr>)))"
  using vfs_idleD [OF assms(1)] on_volume_eq [OF assms] by (simp add: vfs_getfree_def with_op_eq)

text \<open>The volume and file buffers after parsing a good path.\<close>

lemma path_bufs:
  assumes "terminated p" "path_parts (cstr p) = Some (v, f)"
  obtains vb fb where "vfs_parse_pathname p name_buffer name_buffer = Inr (VFS_OK, vb, fb)"
    "cstr vb = v" "terminated vb" "cstr fb = f" "terminated fb"
  using vfs_parse_pathname_eq [OF assms(1), of name_buffer name_buffer] assms(2) by (auto simp: name_buffer_def)

lemma path_bad:
  assumes "terminated p" "path_parts (cstr p) = None"
  shows "\<exists>vb fb. vfs_parse_pathname p name_buffer name_buffer = Inr (VFS_ERROR, vb, fb)"
  using vfs_parse_pathname_eq [OF assms(1), of name_buffer name_buffer] assms(2) by (auto simp: name_buffer_def)

text \<open>Looking up a volume depends only on its text.\<close>

definition fs_at :: "byte list \<Rightarrow> 'd vfs \<Rightarrow> u32" where
  "fs_at v V = (case find (\<lambda>e. cstr (mountpoint e) = v) (filesystems V) of None \<Rightarrow> 0 | Some e \<Rightarrow> filesystem e)"

lemma fs_of_at: "fs_of name V = fs_at (cstr name) V"
  by (simp add: fs_of_def row_of_def fs_at_def)

lemma path_body_eq:
  assumes "vfs_idle V" "terminated p"
  shows "case path_parts (cstr p) of
      None \<Rightarrow> path_body p act (V\<lparr>vfs_ops := vfs_ops V + 1\<rparr>) = Inr (VFS_ERROR, V)
    | Some (v, f) \<Rightarrow> if fs_at v V = 0 then path_body p act (V\<lparr>vfs_ops := vfs_ops V + 1\<rparr>) = Inr (VFS_NO_SUCH_FS, V)
        else \<exists>fb. cstr fb = f \<and> terminated fb \<and> path_body p act (V\<lparr>vfs_ops := vfs_ops V + 1\<rparr>) =
          rbind (act (fs_at v V) fb (drv V)) (\<lambda>(ret, d). Inr (ret, V\<lparr>drv := d\<rparr>))"
proof -
  note d = vfs_idleD [OF assms(1)]
  show ?thesis
  proof (cases "path_parts (cstr p)")
    case None
    from path_bad [OF assms(2) None] end_ret_balanced [OF d(3-5)] None show ?thesis
      by (auto simp: path_body_def vfs_codes)
  next
    case (Some x)
    obtain v f where x: "x = (v, f)" by (cases x)
    with Some obtain vb fb where b: "vfs_parse_pathname p name_buffer name_buffer = Inr (VFS_OK, vb, fb)"
      "cstr vb = v" "terminated vb" "cstr fb = f" "terminated fb" by (auto intro: path_bufs [OF assms(2)])
    have "path_body p act (V\<lparr>vfs_ops := vfs_ops V + 1\<rparr>) =
      (if fs_at v V = 0 then Inr (VFS_NO_SUCH_FS, V)
       else rbind (act (fs_at v V) fb (drv V)) (\<lambda>(ret, d). Inr (ret, V\<lparr>drv := d\<rparr>)))"
      using b on_volume_eq [OF assms(1) b(3), of "\<lambda>fs. act fs fb"] by (simp add: path_body_def fs_of_at)
    with Some x b show ?thesis by auto
  qed
qed

text \<open>The name of a mount point, cut to 15 characters, in the buffer that held an older name.\<close>

definition mount_name :: "cstring \<Rightarrow> cstring \<Rightarrow> cstring" where
  "mount_name name old = take 15 (cstr name) @ 0 # drop (Suc (length (take 15 (cstr name)))) old"

lemma mount_name_facts [simp]:
  "cstr (mount_name name old) = take 15 (cstr name)" "terminated (mount_name name old)"
  "length old = 16 \<Longrightarrow> length (mount_name name old) = 16"
  using cstr_append_0 [OF cstr_take_no_0] by (auto simp: mount_name_def terminated_def)

lemma vfs_mount_eq:
  assumes "vfs_idle V" "terminated name" "cstr name \<noteq> []"
  obtains r where "first_from (\<lambda>k. filesystem (filesystems V ! nat k) = 0) 0 8 r"
    "vfs_mount fs (Some name) V =
      (case r of None \<Rightarrow> Inr (VFS_LIMIT, V)
       | Some row \<Rightarrow> if row_of name V \<noteq> None then Inr (VFS_ERROR, V)
           else Inr (VFS_OK, V\<lparr>filesystems := (filesystems V)[nat row := (filesystems V ! nat row)\<lparr>
             mountpoint := mount_name name (mountpoint (filesystems V ! nat row)), filesystem := fs\<rparr>]\<rparr>))"
proof -
  note d = vfs_idleD [OF assms(1)]
  let ?V = "V\<lparr>vfs_ops := vfs_ops V + 1\<rparr>"
  obtain c q where "name = c # q" "c \<noteq> 0" using assms(2,3) by (cases name) (auto, metis cstr_simps(2))
  then have code: "vfs_mount fs (Some name) V = mount_body fs name ?V" using d by (simp add: vfs_mount_def with_op_eq)
  have p: "P_table ?V = Inr (?V\<lparr>vfs_table_sem := 0\<rparr>)" "V_table (?V\<lparr>vfs_table_sem := 0\<rparr>) = ?V" using d by (simp_all add: sems_eq)
  obtain r where r: "scan (\<lambda>e. filesystem e = 0) (filesystems V) 0 CONFIG_MAX_FILESYSTEMS = Inr r"
    "first_from (\<lambda>k. filesystem (filesystems V ! nat k) = 0) 0 8 r"
    using scan_total [of 0 8 "filesystems V" "\<lambda>e. filesystem e = 0"] d(6) by (auto simp: CONFIG_MAX_FILESYSTEMS_def)
  obtain q where q: "scanM (named name) (filesystems V) 0 CONFIG_MAX_FILESYSTEMS = Inr q"
    "row_of name V = map_option (\<lambda>k. filesystems V ! nat k) q" by (rule mount_scan [OF assms(1,2)])
  note bal = end_ret_balanced [OF d(3-5)]
  consider (none) "r = None" | (dup) row k where "r = Some row" "q = Some k" | (new) row where "r = Some row" "q = None"
    by (cases r; cases q) auto
  then have "vfs_mount fs (Some name) V =
      (case r of None \<Rightarrow> Inr (VFS_LIMIT, V)
       | Some row \<Rightarrow> if row_of name V \<noteq> None then Inr (VFS_ERROR, V)
           else Inr (VFS_OK, V\<lparr>filesystems := (filesystems V)[nat row := (filesystems V ! nat row)\<lparr>
             mountpoint := mount_name name (mountpoint (filesystems V ! nat row)), filesystem := fs\<rparr>]\<rparr>))"
  proof cases
    case new
    let ?e = "filesystems V ! nat row"
    have row: "0 \<le> row" "row < 8" using r(2) new by (auto simp: first_from_def)
    then have "?e \<in> set (filesystems V)" using d(6) by (simp add: nat_less_iff)
    then have "length (mountpoint ?e) = 16" using d(8) by blast
    then have sc: "stringcopy (mountpoint ?e) name VFS_NAME_LENGTH =
      Inr (mount_name name (mountpoint ?e))"
      using stringcopy_eq [of 16 "mountpoint ?e" name "take 15 (cstr name)"] assms(2) by (simp add: VFS_NAME_LENGTH_def mount_name_def)
    let ?e' = "?e\<lparr>mountpoint := mount_name name (mountpoint ?e), filesystem := fs\<rparr>"
    have "end_ret VFS_OK (V_table (?V\<lparr>vfs_table_sem := 0, filesystems := (filesystems V)[nat row := ?e']\<rparr>)) =
      Inr (VFS_OK, V\<lparr>filesystems := (filesystems V)[nat row := ?e']\<rparr>)"
      using d by (subst end_ret_eq) (cases V, simp add: V_table_def)+
    then have "mount_row fs name row (?V\<lparr>vfs_table_sem := 0\<rparr>) = Inr (VFS_OK, V\<lparr>filesystems := (filesystems V)[nat row := ?e']\<rparr>)"
      using row d(6) sc by (simp add: mount_row_def)
    then show ?thesis using new r q p by (simp add: code mount_body_def)
  qed (use r q p bal in \<open>simp_all add: code mount_body_def\<close>)
  with r(2) that show thesis by blast
qed

lemma vfs_unmount_eq:
  assumes "vfs_idle V" "terminated name"
  shows "if fs_of name V = 0 then vfs_unmount D name V = Inr (VFS_NOT_FOUND, V)
    else if \<exists>f \<in> set (files V). of_filesystem f = fs_of name V then vfs_unmount D name V = Inr (VFS_IN_USE, V)
    else \<exists>row. 0 \<le> row \<and> row < 8 \<and> filesystem (filesystems V ! nat row) = fs_of name V \<and>
      cstr (mountpoint (filesystems V ! nat row)) = cstr name \<and>
      vfs_unmount D name V = rbind (fs_unmount D (fs_of name V) (drv V)) (\<lambda>(_, d).
        Inr (VFS_OK, V\<lparr>filesystems := (filesystems V)[nat row := (filesystems V ! nat row)\<lparr>filesystem := 0\<rparr>], drv := d\<rparr>))"
proof -
  note d = vfs_idleD [OF assms(1)]
  let ?V = "V\<lparr>vfs_ops := vfs_ops V + 1\<rparr>"
  let ?W = "?V\<lparr>vfs_table_sem := 0\<rparr>" let ?X = "?W\<lparr>openfile_sem := 0\<rparr>"
  note bal = end_ret_balanced [OF d(3-5)]
  have code: "vfs_unmount D name V = unmount_body D name ?V" using d by (simp add: vfs_unmount_def with_op_eq)
  have p: "P_table ?V = Inr ?W" "V_table ?W = ?V" "P_files ?W = Inr ?X" using d by (simp_all add: sems_eq)
  have v: "V_table (V_files ?X) = ?V" using d by (cases V) (simp add: V_table_def V_files_def)
  obtain q where q: "scanM (named name) (filesystems V) 0 CONFIG_MAX_FILESYSTEMS = Inr q"
    "first_from (\<lambda>k. cstr (mountpoint (filesystems V ! nat k)) = cstr name) 0 8 q"
    "row_of name V = map_option (\<lambda>k. filesystems V ! nat k) q" by (rule mount_scan [OF assms])
  show ?thesis
  proof (cases q)
    case None
    with q p bal show ?thesis by (simp add: code unmount_body_def fs_of_def)
  next
    case (Some row)
    let ?e = "filesystems V ! nat row"
    have row: "0 \<le> row" "row < 8" "cstr (mountpoint ?e) = cstr name" using q(2) Some by (auto simp: first_from_def)
    have fs: "fs_of name V = filesystem ?e" using q(3) Some by (simp add: fs_of_def)
    show ?thesis
    proof (cases "filesystem ?e = 0")
      case True
      with Some q p bal fs row d(6) show ?thesis by (simp add: code unmount_body_def)
    next
      case mounted: False
      obtain u where u: "scan (\<lambda>f. of_filesystem f = filesystem ?e) (files V) 0 CONFIG_MAX_OPEN_FILES = Inr u"
        "find (\<lambda>f. of_filesystem f = filesystem ?e) (files V) = map_option (\<lambda>k. files V ! nat k) u"
      proof -
        obtain u where u: "scan (\<lambda>f. of_filesystem f = filesystem ?e) (files V) 0 CONFIG_MAX_OPEN_FILES = Inr u"
          "first_from (\<lambda>k. of_filesystem (files V ! nat k) = filesystem ?e) 0 512 u"
          using scan_total [of 0 512 "files V" "\<lambda>f. of_filesystem f = filesystem ?e"] d(7)
          by (auto simp: CONFIG_MAX_OPEN_FILES_def)
        with first_from_find [of "\<lambda>f. of_filesystem f = filesystem ?e" "files V" u] d(7) that show thesis by simp
      qed
      have body: "unmount_body D name ?V = unmount_fs D row ?e ?W"
        using Some q(1) p mounted row d(6) by (simp add: unmount_body_def)
      show ?thesis
      proof (cases u)
        case (Some k)
        then have "\<exists>f \<in> set (files V). of_filesystem f = filesystem ?e"
          using u(2) by (auto simp: find_Some_iff)
        with mounted fs Some u(1) p v bal show ?thesis unfolding code body by (simp add: unmount_fs_def)
      next
        case None
        then have free: "\<not> (\<exists>f \<in> set (files V). of_filesystem f = filesystem ?e)" using u(2) by (simp add: find_None_iff)
        have "unmount_fs D row ?e ?W = rbind (fs_unmount D (filesystem ?e) (drv V)) (\<lambda>(_, d).
          Inr (VFS_OK, V\<lparr>filesystems := (filesystems V)[nat row := ?e\<lparr>filesystem := 0\<rparr>], drv := d\<rparr>))"
        proof (cases "fs_unmount D (filesystem ?e) (drv V)")
          case (Inr x)
          obtain z e where x: "x = (z, e)" by (cases x)
          have "end_ret VFS_OK (V_table (V_files (?X\<lparr>filesystems := (filesystems V)[nat row := ?e\<lparr>filesystem := 0\<rparr>], drv := e\<rparr>))) =
            Inr (VFS_OK, V\<lparr>filesystems := (filesystems V)[nat row := ?e\<lparr>filesystem := 0\<rparr>], drv := e\<rparr>)"
            using d by (subst end_ret_eq) (cases V, simp add: V_table_def V_files_def)+
          with Inr x None u(1) p row d(6) show ?thesis by (simp add: unmount_fs_def)
        qed (use None u(1) p in \<open>simp add: unmount_fs_def\<close>)
        with mounted fs free row show ?thesis unfolding code body by auto
      qed
    qed
  qed
qed

lemma open_found_eq:
  assumes idle: "vfs_idle V" and g: "vfs_get_filesystem vb (V\<lparr>vfs_ops := vfs_ops V + 1, vfs_table_sem := 0, openfile_sem := 0\<rparr>) = Inr fs"
    and fs: "fs \<noteq> 0" and fl: "0 \<le> file" "file < 512" "of_filesystem (files V ! nat file) = 0"
  shows "open_found D vb fb file (V\<lparr>vfs_ops := vfs_ops V + 1, vfs_table_sem := 0, openfile_sem := 0\<rparr>) =
    rbind (fs_open D fs fb (drv V)) (\<lambda>(fid, d).
      Inr (if fid < 0 then (fid, V\<lparr>drv := d\<rparr>)
           else (file, V\<lparr>drv := d, files := (files V)[nat file :=
             (files V ! nat file)\<lparr>of_filesystem := fs, fileid := fid, seek_position := 0\<rparr>]\<rparr>)))"
proof -
  note d = vfs_idleD [OF idle]
  let ?f = "files V ! nat file"
  let ?V = "V\<lparr>vfs_ops := vfs_ops V + 1, files := (files V)[nat file := ?f\<lparr>of_filesystem := fs\<rparr>]\<rparr>"
  have n: "nat file < length (files V)" using fl d(7) by (simp add: nat_less_iff)
  have "V_table (V_files (V\<lparr>vfs_ops := vfs_ops V + 1, vfs_table_sem := 0, openfile_sem := 0,
      files := (files V)[nat file := ?f\<lparr>of_filesystem := fs\<rparr>]\<rparr>)) = ?V"
    using d by (cases V) (simp add: V_table_def V_files_def)
  then have code: "open_found D vb fb file (V\<lparr>vfs_ops := vfs_ops V + 1, vfs_table_sem := 0, openfile_sem := 0\<rparr>) =
      open_fs D fs fb file ?V"
    using g fs fl d(7) by (simp add: open_found_def)
  show ?thesis
  proof (cases "fs_open D fs fb (drv V)")
    case (Inr x)
    obtain fid e where x: "x = (fid, e)" by (cases x)
    have undo: "?f\<lparr>of_filesystem := 0\<rparr> = ?f" using fl(3) by (cases ?f) simp
    have "end_ret fid (V_files (?V\<lparr>drv := e, openfile_sem := 0, files := files V\<rparr>)) = Inr (fid, V\<lparr>drv := e\<rparr>)"
      using d by (subst end_ret_eq) (cases V, simp add: V_files_def)+
    moreover have "end_ret file (?V\<lparr>drv := e, files := (files V)[nat file := ?f\<lparr>of_filesystem := fs, fileid := fid, seek_position := 0\<rparr>]\<rparr>) =
      Inr (file, V\<lparr>drv := e, files := (files V)[nat file := ?f\<lparr>of_filesystem := fs, fileid := fid, seek_position := 0\<rparr>]\<rparr>)"
      using d by (subst end_ret_eq) (cases V, simp)+
    ultimately show ?thesis
      using Inr x fl d n by (simp add: code open_fs_def sems_eq undo)
  qed (simp add: code open_fs_def)
qed

lemma vfs_open_eq:
  assumes "vfs_idle V" "terminated p"
  shows "\<exists>r. first_from (\<lambda>k. of_filesystem (files V ! nat k) = 0) 0 512 r \<and>
    (case path_parts (cstr p) of None \<Rightarrow> vfs_open D p V = Inr (VFS_ERROR, V)
     | Some (v, f) \<Rightarrow>
        (case r of None \<Rightarrow> vfs_open D p V = Inr (VFS_LIMIT, V)
         | Some file \<Rightarrow>
             if fs_at v V = 0 then vfs_open D p V = Inr (VFS_NO_SUCH_FS, V)
             else \<exists>fb. cstr fb = f \<and> terminated fb \<and>
               vfs_open D p V = rbind (fs_open D (fs_at v V) fb (drv V)) (\<lambda>(fid, d).
                 Inr (if fid < 0 then (fid, V\<lparr>drv := d\<rparr>)
                      else (file, V\<lparr>drv := d, files := (files V)[nat file :=
                        (files V ! nat file)\<lparr>of_filesystem := fs_at v V, fileid := fid, seek_position := 0\<rparr>]\<rparr>)))))"
proof -
  note d = vfs_idleD [OF assms(1)]
  let ?V = "V\<lparr>vfs_ops := vfs_ops V + 1\<rparr>"
  let ?W = "?V\<lparr>vfs_table_sem := 0\<rparr>" let ?X = "?W\<lparr>openfile_sem := 0\<rparr>"
  note bal = end_ret_balanced [OF d(3-5)]
  have code: "vfs_open D p V = open_body D p ?V" using d by (simp add: vfs_open_def with_op_eq)
  have pv: "P_table ?V = Inr ?W" "P_files ?W = Inr ?X" using d by (simp_all add: sems_eq)
  have vv: "V_table (V_files ?X) = ?V" using d by (cases V) (simp add: V_table_def V_files_def)
  obtain r where r: "scan (\<lambda>f. of_filesystem f = 0) (files V) 0 CONFIG_MAX_OPEN_FILES = Inr r"
    "first_from (\<lambda>k. of_filesystem (files V ! nat k) = 0) 0 512 r" by (rule free_scan [OF assms(1)])
  show ?thesis
  proof (cases "path_parts (cstr p)")
    case None
    from path_bad [OF assms(2) None] bal None r(2) show ?thesis by (auto simp: code open_body_def vfs_codes)
  next
    case (Some x)
    obtain v f where x: "x = (v, f)" by (cases x)
    with Some obtain vb fb where b: "vfs_parse_pathname p name_buffer name_buffer = Inr (VFS_OK, vb, fb)"
      "cstr vb = v" "terminated vb" "cstr fb = f" "terminated fb" by (auto intro: path_bufs [OF assms(2)])
    have g: "vfs_get_filesystem vb ?X = Inr (fs_at v V)"
      using vfs_get_filesystem_eq [OF assms(1) b(3)] b(2) by (simp add: fs_of_at)
    show ?thesis
    proof (cases r)
      case None
      with Some x b(1) r pv vv bal show ?thesis by (intro exI [of _ r]) (simp add: code open_body_def)
    next
      case fl: (Some k)
      have rng: "0 \<le> k" "k < 512" "of_filesystem (files V ! nat k) = 0" using r(2) fl by (auto simp: first_from_def)
      have body: "open_body D p ?V = open_found D vb fb k ?X"
        using b(1) r(1) fl pv by (simp add: open_body_def)
      show ?thesis
      proof (cases "fs_at v V = 0")
        case True
        then have "open_found D vb fb k ?X = Inr (VFS_NO_SUCH_FS, V)" using g vv bal by (simp add: open_found_def)
        with True Some x fl r(2) show ?thesis by (intro exI [of _ r]) (simp add: code body)
      next
        case False
        have "open_found D vb fb k ?X = rbind (fs_open D (fs_at v V) fb (drv V)) (\<lambda>(fid, d).
                 Inr (if fid < 0 then (fid, V\<lparr>drv := d\<rparr>)
                      else (k, V\<lparr>drv := d, files := (files V)[nat k :=
                        (files V ! nat k)\<lparr>of_filesystem := fs_at v V, fileid := fid, seek_position := 0\<rparr>]\<rparr>)))"
          by (rule open_found_eq [OF assms(1) g False rng])
        with False Some x b fl r(2) show ?thesis by (intro exI [of _ r]) (auto simp: code body)
      qed
    qed
  qed
qed

end
