(* ===== verification/Vfs_calls.thy ===== *)
theory Vfs_calls
  imports Vfs
begin

text \<open>
  Calls of the virtual filesystem in sequence: the invariant of its tables, which every call keeps,
  and the properties of mounting, opening, positioning and shutting down.
\<close>

section \<open>The invariant of the tables\<close>

text \<open>
  Between calls the semaphores are free, every open file but the three reserved handles is on a
  filesystem that is mounted, and nobody has been told to go on with a forced unmount.
\<close>

definition vfs_ok :: "'d vfs \<Rightarrow> bool" where
  "vfs_ok V \<longleftrightarrow> vfs_idle V \<and> vfs_unmount_sem V = 0 \<and>
     (\<forall>i < 512. of_filesystem (files V ! i) = 0 \<or> i < 3 \<or> of_filesystem (files V ! i) \<in> filesystem ` set (filesystems V))"

datatype vfs_call =
    Mount u32 "cstring option" | Unmount cstring | Open cstring | Close int | Seek int int | Read int bool int
  | Write int "byte list option" int | Create cstring int | Remove cstring | Getfree cstring

fun vfs_do :: "'d fs_t \<Rightarrow> vfs_call \<Rightarrow> 'd vfs \<Rightarrow> (int \<times> 'd vfs) kresult" where
  "vfs_do D (Mount fs name) V = vfs_mount fs name V"
| "vfs_do D (Unmount name) V = vfs_unmount D name V"
| "vfs_do D (Open p) V = vfs_open D p V"
| "vfs_do D (Close h) V = vfs_close D h V"
| "vfs_do D (Seek h pos) V = vfs_seek h pos V"
| "vfs_do D (Read h null n) V = rbind (vfs_read D h null n V) (\<lambda>(r, _, V). Inr (r, V))"
| "vfs_do D (Write h buf n) V = vfs_write D h buf n V"
| "vfs_do D (Create p n) V = vfs_create D p n V"
| "vfs_do D (Remove p) V = vfs_remove D p V"
| "vfs_do D (Getfree name) V = vfs_getfree D name V"

text \<open>The strings a caller passes are terminated.\<close>

fun call_ok :: "vfs_call \<Rightarrow> bool" where
  "call_ok (Mount fs name) = (\<forall>n. name = Some n \<longrightarrow> terminated n)"
| "call_ok (Unmount name) = terminated name"
| "call_ok (Open p) = terminated p"
| "call_ok (Create p n) = terminated p"
| "call_ok (Remove p) = terminated p"
| "call_ok (Getfree name) = terminated name"
| "call_ok _ = True"

text \<open>The calls whose error return does not go through \<open>vfs_end_op\<close>.\<close>

fun leaks :: "vfs_call \<Rightarrow> 'd vfs \<Rightarrow> bool" where
  "leaks (Close h) V = (open_row h V = None)"
| "leaks (Seek h pos) V = (pos < 0 \<or> open_row h V = None)"
| "leaks (Read h null n) V = (n < 0 \<or> null \<or> open_row h V = None)"
| "leaks (Write h buf n) V = (open_row h V = None)"
| "leaks _ V = False"

lemma vfs_ok_ops: "vfs_ok V \<Longrightarrow> vfs_ok (V\<lparr>vfs_ops := vfs_ops V + 1\<rparr>)"
  by (simp add: vfs_ok_def vfs_idle_def)

lemma vfs_ok_drv: "vfs_ok (V\<lparr>drv := d\<rparr>) = vfs_ok V"
  by (simp add: vfs_ok_def vfs_idle_def)

lemma vfs_ok_file:
  assumes "vfs_ok V" "of_filesystem f = 0 \<or> nat h < 3 \<or> of_filesystem f \<in> filesystem ` set (filesystems V)"
  shows "vfs_ok (V\<lparr>files := (files V)[nat h := f]\<rparr>)"
proof -
  have "of_filesystem ((files V)[nat h := f] ! i) = 0 \<or> i < 3 \<or>
      of_filesystem ((files V)[nat h := f] ! i) \<in> filesystem ` set (filesystems V)" if "i < 512" for i
  proof (cases "i = nat h")
    case True
    with that assms show ?thesis by (simp add: vfs_ok_def vfs_idle_def)
  qed (use that assms(1) in \<open>simp add: vfs_ok_def\<close>)
  with assms(1) show ?thesis by (simp add: vfs_ok_def vfs_idle_def)
qed

lemma vfs_ok_row:
  assumes "vfs_ok V" "open_row h V = Some f"
  shows "of_filesystem f = 0 \<or> nat h < 3 \<or> of_filesystem f \<in> filesystem ` set (filesystems V)"
proof -
  have "nat h < 512" "f = files V ! nat h" using assms(2) by (auto simp: open_row_Some)
  with assms(1) show ?thesis unfolding vfs_ok_def by blast
qed

lemma vfs_ok_moved:
  assumes "vfs_ok V" "open_row h V = Some f"
  shows "vfs_ok (moved h f ret d V) \<and> vfs_ops (moved h f ret d V) = vfs_ops V"
proof -
  have "vfs_ok (V\<lparr>files := (files V)[nat h := f\<lparr>seek_position := swrap (seek_position f + ret)\<rparr>]\<rparr>)"
    using vfs_ok_row [OF assms] by (intro vfs_ok_file [OF assms(1)]) simp
  with assms(1) show ?thesis
    by (auto simp: moved_def vfs_ok_drv)
qed

lemma fs_at_mounted:
  assumes "fs_at v V \<noteq> 0"
  shows "fs_at v V \<in> filesystem ` set (filesystems V)"
proof (cases "find (\<lambda>e. cstr (mountpoint e) = v) (filesystems V)")
  case (Some e)
  then have "e \<in> set (filesystems V)" unfolding find_Some_iff by auto
  with Some show ?thesis by (simp add: fs_at_def)
qed (use assms in \<open>simp add: fs_at_def\<close>)

lemma vfs_ok_mount:
  assumes "vfs_ok V" "0 \<le> row" "row < 8" "filesystem (filesystems V ! nat row) = 0"
  shows "vfs_ok (V\<lparr>filesystems := (filesystems V)[nat row := (filesystems V ! nat row)\<lparr>
    mountpoint := mount_name name (mountpoint (filesystems V ! nat row)), filesystem := fs\<rparr>]\<rparr>)" (is "vfs_ok ?V")
proof -
  have idle: "vfs_idle V" using assms(1) by (simp add: vfs_ok_def)
  note d = vfs_idleD [OF idle]
  let ?e = "filesystems V ! nat row"
  have n: "nat row < length (filesystems V)" using assms(2,3) d(6) by (simp add: nat_less_iff)
  then have e: "length (mountpoint ?e) = 16" using d(8) nth_mem by blast
  have idle': "vfs_idle ?V"
    using d e by (auto simp: vfs_idle_def dest!: subsetD [OF set_update_subset_insert])
  have "g \<in> filesystem ` set (filesystems ?V)" if "g \<in> filesystem ` set (filesystems V)" "g \<noteq> 0" for g
  proof -
    from that obtain k where k: "k < length (filesystems V)" "filesystem (filesystems V ! k) = g" by (auto simp: in_set_conv_nth)
    then have "k \<noteq> nat row" using assms(4) that(2) by auto
    with k show ?thesis by (intro image_eqI [of _ _ "filesystems V ! k"]) (simp_all add: nth_update_mem)
  qed
  with assms(1) idle' show ?thesis by (auto simp: vfs_ok_def)
qed

lemma vfs_ok_unmount:
  assumes "vfs_ok V" "0 \<le> row" "row < 8" "\<not> (\<exists>f \<in> set (files V). of_filesystem f = filesystem (filesystems V ! nat row))"
  shows "vfs_ok (V\<lparr>filesystems := (filesystems V)[nat row := (filesystems V ! nat row)\<lparr>filesystem := 0\<rparr>]\<rparr>)" (is "vfs_ok ?V")
proof -
  have idle: "vfs_idle V" using assms(1) by (simp add: vfs_ok_def)
  note d = vfs_idleD [OF idle]
  have n: "nat row < length (filesystems V)" using assms(2,3) d(6) by (simp add: nat_less_iff)
  then have e: "length (mountpoint (filesystems V ! nat row)) = 16" "terminated (mountpoint (filesystems V ! nat row))"
    using d(8) nth_mem by blast+
  have idle': "vfs_idle ?V" using d e by (auto simp: vfs_idle_def dest!: subsetD [OF set_update_subset_insert])
  have "g \<in> filesystem ` set (filesystems ?V)"
    if "g \<in> filesystem ` set (filesystems V)" "g \<noteq> filesystem (filesystems V ! nat row)" for g
  proof -
    from that obtain k where k: "k < length (filesystems V)" "filesystem (filesystems V ! k) = g" by (auto simp: in_set_conv_nth)
    then have "k \<noteq> nat row" using that(2) by auto
    with k show ?thesis by (intro image_eqI [of _ _ "filesystems V ! k"]) (simp_all add: nth_update_mem)
  qed
  moreover have "of_filesystem (files V ! i) \<noteq> filesystem (filesystems V ! nat row)" if "i < 512" for i
    using assms(4) d(7) that nth_mem [of i "files V"] by auto
  ultimately have "of_filesystem (files ?V ! i) = 0 \<or> i < 3 \<or> of_filesystem (files ?V ! i) \<in> filesystem ` set (filesystems ?V)"
    if "i < 512" for i using assms(1) that unfolding vfs_ok_def by fastforce
  then show ?thesis using assms(1) idle' by (simp add: vfs_ok_def)
qed

text \<open>The invariant under each kind of call.\<close>

lemma vfs_ok_path:
  assumes ok: "vfs_ok V" and p: "terminated p"
    and r: "with_op (path_body p act) V = Inr (r, V')"
  shows "vfs_ok V' \<and> vfs_ops V' = vfs_ops V"
proof -
  have idle: "vfs_idle V" using ok by (simp add: vfs_ok_def)
  have code: "path_body p act (V\<lparr>vfs_ops := vfs_ops V + 1\<rparr>) = Inr (r, V')"
    using r vfs_idleD [OF idle] by (simp add: with_op_eq)
  show ?thesis
  proof (cases "path_parts (cstr p)")
    case None
    with path_body_eq [OF idle p, of act] code ok show ?thesis by simp
  next
    case (Some x)
    obtain v f where x: "x = (v, f)" by (cases x)
    show ?thesis
    proof (cases "fs_at v V = 0")
      case True
      with path_body_eq [OF idle p, of act] code ok Some x show ?thesis by simp
    next
      case False
      with path_body_eq [OF idle p, of act] Some x obtain fb where
        "path_body p act (V\<lparr>vfs_ops := vfs_ops V + 1\<rparr>) = rbind (act (fs_at v V) fb (drv V)) (\<lambda>(ret, d). Inr (ret, V\<lparr>drv := d\<rparr>))"
        by auto
      with code ok show ?thesis by (auto simp: vfs_ok_drv)
    qed
  qed
qed

lemma vfs_ok_open:
  assumes ok: "vfs_ok V" and p: "terminated p" and r: "vfs_open D p V = Inr (r, V')"
  shows "vfs_ok V' \<and> vfs_ops V' = vfs_ops V"
proof -
  have idle: "vfs_idle V" using ok by (simp add: vfs_ok_def)
  obtain k where k: "first_from (\<lambda>k. of_filesystem (files V ! nat k) = 0) 0 512 k"
    "case path_parts (cstr p) of None \<Rightarrow> vfs_open D p V = Inr (VFS_ERROR, V)
     | Some (v, f) \<Rightarrow>
        (case k of None \<Rightarrow> vfs_open D p V = Inr (VFS_LIMIT, V)
         | Some file \<Rightarrow>
             if fs_at v V = 0 then vfs_open D p V = Inr (VFS_NO_SUCH_FS, V)
             else \<exists>fb. cstr fb = f \<and> terminated fb \<and>
               vfs_open D p V = rbind (fs_open D (fs_at v V) fb (drv V)) (\<lambda>(fid, d).
                 Inr (if fid < 0 then (fid, V\<lparr>drv := d\<rparr>)
                      else (file, V\<lparr>drv := d, files := (files V)[nat file :=
                        (files V ! nat file)\<lparr>of_filesystem := fs_at v V, fileid := fid, seek_position := 0\<rparr>]\<rparr>))))"
    using vfs_open_eq [OF idle p, of D] by blast
  show ?thesis
  proof (cases "path_parts (cstr p)")
    case None
    with k r ok show ?thesis by simp
  next
    case (Some x)
    obtain v f where x: "x = (v, f)" by (cases x)
    show ?thesis
    proof (cases "k = None \<or> fs_at v V = 0")
      case True
      with k r ok Some x show ?thesis by (cases k) auto
    next
      case False
      then obtain h where h: "k = Some h" "fs_at v V \<noteq> 0" by auto
      with k(2) Some x obtain fb where o: "vfs_open D p V = rbind (fs_open D (fs_at v V) fb (drv V)) (\<lambda>(fid, d).
                 Inr (if fid < 0 then (fid, V\<lparr>drv := d\<rparr>)
                      else (h, V\<lparr>drv := d, files := (files V)[nat h :=
                        (files V ! nat h)\<lparr>of_filesystem := fs_at v V, fileid := fid, seek_position := 0\<rparr>]\<rparr>)))" by auto
      have "vfs_ok (V\<lparr>drv := d, files := (files (V\<lparr>drv := d\<rparr>))[nat h :=
        (files V ! nat h)\<lparr>of_filesystem := fs_at v V, fileid := fid, seek_position := 0\<rparr>]\<rparr>)" for d fid
        using ok fs_at_mounted [OF h(2)] by (intro vfs_ok_file) (simp_all add: vfs_ok_drv)
      with r ok show ?thesis unfolding o by (auto simp: vfs_ok_drv split: if_splits)
    qed
  qed
qed

lemma vfs_ok_vfs_mount:
  assumes ok: "vfs_ok V" and p: "\<forall>n. name = Some n \<longrightarrow> terminated n" and r: "vfs_mount fs name V = Inr (r, V')"
  shows "vfs_ok V' \<and> vfs_ops V' = vfs_ops V"
proof (cases "\<exists>n. name = Some n \<and> cstr n \<noteq> []")
  case True
  then obtain n where n: "name = Some n" "cstr n \<noteq> []" "terminated n" using p by auto
  have idle: "vfs_idle V" using ok by (simp add: vfs_ok_def)
  obtain q where q: "first_from (\<lambda>k. filesystem (filesystems V ! nat k) = 0) 0 8 q"
    "vfs_mount fs (Some n) V =
      (case q of None \<Rightarrow> Inr (VFS_LIMIT, V)
       | Some row \<Rightarrow> if row_of n V \<noteq> None then Inr (VFS_ERROR, V)
           else Inr (VFS_OK, V\<lparr>filesystems := (filesystems V)[nat row := (filesystems V ! nat row)\<lparr>
             mountpoint := mount_name n (mountpoint (filesystems V ! nat row)), filesystem := fs\<rparr>]\<rparr>))"
    by (rule vfs_mount_eq [OF idle n(3,2)])
  show ?thesis
  proof (cases q)
    case (Some row)
    have "vfs_ok (V\<lparr>filesystems := (filesystems V)[nat row := (filesystems V ! nat row)\<lparr>
             mountpoint := mount_name n (mountpoint (filesystems V ! nat row)), filesystem := fs\<rparr>]\<rparr>)"
      using q(1) Some by (intro vfs_ok_mount [OF ok]) (auto simp: first_from_def)
    with q(2) Some r n(1) ok show ?thesis by (auto split: if_splits)
  qed (use q(2) r n(1) ok in auto)
next
  case False
  show ?thesis
  proof (cases name)
    case (Some n)
    then obtain q where "n = 0 # q" using False p by (cases n) (auto, metis cstr_simps(3) list.distinct(1))
    with Some r ok show ?thesis by (simp add: vfs_mount_def)
  qed (use r ok in \<open>simp add: vfs_mount_def\<close>)
qed

lemma vfs_ok_vfs_unmount:
  assumes ok: "vfs_ok V" and n: "terminated name" and r: "vfs_unmount D name V = Inr (r, V')"
  shows "vfs_ok V' \<and> vfs_ops V' = vfs_ops V"
proof -
  have idle: "vfs_idle V" using ok by (simp add: vfs_ok_def)
  note u = vfs_unmount_eq [OF idle n, of D]
  show ?thesis
  proof (cases "fs_of name V = 0 \<or> (\<exists>f \<in> set (files V). of_filesystem f = fs_of name V)")
    case True
    with u r ok show ?thesis by (auto split: if_splits)
  next
    case False
    with u obtain row where row: "0 \<le> row" "row < 8" "filesystem (filesystems V ! nat row) = fs_of name V"
      "vfs_unmount D name V = rbind (fs_unmount D (fs_of name V) (drv V)) (\<lambda>(_, d).
        Inr (VFS_OK, V\<lparr>filesystems := (filesystems V)[nat row := (filesystems V ! nat row)\<lparr>filesystem := 0\<rparr>], drv := d\<rparr>))"
      by auto
    have "vfs_ok (V\<lparr>filesystems := (filesystems V)[nat row := (filesystems V ! nat row)\<lparr>filesystem := 0\<rparr>]\<rparr>)"
      using False row(3) by (intro vfs_ok_unmount [OF ok row(1,2)]) auto
    with r [unfolded row(4)] show ?thesis by (auto simp: vfs_ok_drv)
  qed
qed


lemma vfs_do_ok:
  assumes ok: "vfs_ok V" and c: "call_ok c" and r: "vfs_do D c V = Inr (r, V')"
  shows "vfs_ok V' \<and> vfs_ops V' = vfs_ops V + (if leaks c V then 1 else 0) \<and> (leaks c V \<longrightarrow> r = VFS_ERROR)"
proof -
  have idle: "vfs_idle V" using ok by (simp add: vfs_ok_def)
  note d = vfs_idleD [OF idle]
  show ?thesis
  proof (cases c)
    case (Mount fs name)
    with vfs_ok_vfs_mount [OF ok, of name fs r V'] c r show ?thesis by simp
  next
    case (Unmount name)
    with vfs_ok_vfs_unmount [OF ok, of name D r V'] c r show ?thesis by simp
  next
    case (Open p)
    with vfs_ok_open [OF ok, of p D r V'] c r show ?thesis by simp
  next
    case (Close h)
    with r have "vfs_close D h V = Inr (r, V')" by simp
    then show ?thesis
    proof (cases "open_row h V")
      case None
      with Close r vfs_close_eq [OF idle, of D h] vfs_ok_ops [OF ok] show ?thesis by auto
    next
      case (Some f)
      have "vfs_ok (V\<lparr>files := (files V)[nat h := f\<lparr>of_filesystem := 0\<rparr>]\<rparr>)" by (rule vfs_ok_file [OF ok]) simp
      then show ?thesis using Close Some r vfs_close_eq [OF idle, of D h] by (auto simp: vfs_ok_drv)
    qed
  next
    case (Seek h pos)
    show ?thesis
    proof (cases "if 0 \<le> pos then open_row h V else None")
      case None
      with Seek r vfs_seek_eq [OF idle, of h pos] vfs_ok_ops [OF ok] show ?thesis by (auto split: if_splits)
    next
      case (Some f)
      then have f: "0 \<le> pos" "open_row h V = Some f" by (auto split: if_splits)
      have "vfs_ok (V\<lparr>files := (files V)[nat h := f\<lparr>seek_position := pos\<rparr>]\<rparr>)"
        using vfs_ok_row [OF ok f(2)] by (intro vfs_ok_file [OF ok]) simp
      with Seek f r vfs_seek_eq [OF idle, of h pos] show ?thesis by auto
    qed
  next
    case (Read h null n)
    show ?thesis
    proof (cases "if 0 \<le> n \<and> \<not> null then open_row h V else None")
      case None
      with Read r vfs_read_eq [OF idle, of D h null n] vfs_ok_ops [OF ok] show ?thesis by (auto split: if_splits)
    next
      case (Some f)
      then have f: "0 \<le> n" "\<not> null" "open_row h V = Some f" by (auto split: if_splits)
      with Read r vfs_read_eq [OF idle, of D h null n] vfs_ok_moved [OF ok f(3)] show ?thesis by auto
    qed
  next
    case (Write h buf n)
    show ?thesis
    proof (cases "open_row h V")
      case None
      with Write r vfs_write_eq [OF idle, of D h buf n] vfs_ok_ops [OF ok] show ?thesis by auto
    next
      case (Some f)
      with Write r vfs_write_eq [OF idle, of D h buf n] vfs_ok_moved [OF ok Some] show ?thesis by auto
    qed
  next
    case (Create p n)
    with vfs_ok_path [OF ok, of p _ r V'] c r ok show ?thesis by (auto simp: vfs_create_def split: if_splits)
  next
    case (Remove p)
    with vfs_ok_path [OF ok, of p _ r V'] c r show ?thesis by (auto simp: vfs_remove_def)
  next
    case (Getfree name)
    with vfs_getfree_eq [OF idle, of name D] c r ok show ?thesis by (auto simp: vfs_ok_drv split: if_splits)
  qed
qed

section \<open>Histories and shutting down\<close>

fun vfs_run :: "'d fs_t \<Rightarrow> vfs_call list \<Rightarrow> 'd vfs \<Rightarrow> 'd vfs kresult" where
  "vfs_run D [] V = Inr V"
| "vfs_run D (c # cs) V = rbind (vfs_do D c V) (\<lambda>(_, V). vfs_run D cs V)"

text \<open>How many calls of a history returned without ending their operation.\<close>

fun leaked :: "'d fs_t \<Rightarrow> vfs_call list \<Rightarrow> 'd vfs \<Rightarrow> int" where
  "leaked D [] V = 0"
| "leaked D (c # cs) V = (if leaks c V then 1 else 0) +
     (case vfs_do D c V of Inl _ \<Rightarrow> 0 | Inr (_, V') \<Rightarrow> leaked D cs V')"

lemma vfs_run_ok:
  "vfs_ok V \<Longrightarrow> list_all call_ok cs \<Longrightarrow> vfs_run D cs V = Inr V' \<Longrightarrow> vfs_ok V' \<and> vfs_ops V' = vfs_ops V + leaked D cs V"
proof (induction cs arbitrary: V)
  case (Cons c cs)
  from Cons.prems(3) obtain r W where W: "vfs_do D c V = Inr (r, W)" "vfs_run D cs W = Inr V'" by auto
  from vfs_do_ok [OF Cons.prems(1) _ W(1)] Cons.prems(2) have "vfs_ok W" "vfs_ops W = vfs_ops V + (if leaks c V then 1 else 0)"
    by auto
  with Cons.IH [of W] Cons.prems(2) W show ?case by simp
qed simp

text \<open>The tables as the kernel image has them, before \<open>vfs_init\<close>: all bytes are zero.\<close>

definition vfs_blank :: "'d \<Rightarrow> 'd vfs" where
  "vfs_blank d = \<lparr>vfs_table_sem = 0, filesystems = replicate 8 \<lparr>filesystem = 0, mountpoint = replicate 16 0\<rparr>,
     openfile_sem = 0, files = replicate 512 \<lparr>of_filesystem = 0, fileid = 0, seek_position = 0\<rparr>,
     vfs_op_sem = 0, vfs_unmount_sem = 0, vfs_ops = 0, vfs_usable = False, drv = d\<rparr>"

lemma vfs_init_ok: "\<exists>V. vfs_init True True (vfs_blank d) = Inr V \<and> vfs_ok V \<and> vfs_ops V = 0 \<and> drv V = d"
proof -
  let ?f = "\<lparr>of_filesystem = 0, fileid = 0, seek_position = 0\<rparr>"
  let ?g = "?f\<lparr>of_filesystem := 1\<rparr>"
  let ?V = "(vfs_blank d)\<lparr>vfs_table_sem := 1, openfile_sem := 1, files := (replicate 512 ?f)[0 := ?g, 1 := ?g, 2 := ?g],
    vfs_op_sem := 1, vfs_usable := True\<rparr>"
  have "vfs_init True True (vfs_blank d) = Inr ?V" by (simp add: vfs_init_def vfs_blank_def)
  moreover have "vfs_ok ?V" by (auto simp: vfs_ok_def vfs_idle_def vfs_blank_def nth_list_update terminated_def)
  ultimately show ?thesis by (auto simp: vfs_blank_def)
qed

text \<open>What the drivers are asked to do: unmount the filesystems of a list, one after the other.\<close>

fun unmount_all :: "'d fs_t \<Rightarrow> u32 list \<Rightarrow> 'd \<Rightarrow> 'd kresult" where
  "unmount_all D [] d = Inr d"
| "unmount_all D (fs # fss) d = rbind (fs_unmount D fs d) (\<lambda>(_, d). unmount_all D fss d)"

lemma unmount_all_returns:
  assumes "\<And>fs d. \<exists>r d'. fs_unmount D fs d = Inr (r, d')"
  shows "\<exists>d'. unmount_all D fss d = Inr d'"
proof (induction fss arbitrary: d)
  case (Cons fs fss)
  obtain r d1 where "fs_unmount D fs d = Inr (r, d1)" using assms by blast
  with Cons.IH [of d1] show ?case by simp
qed simp

lemma unmount_rows_eq:
  assumes "length (filesystems V) = 8" "n \<le> 8"
  shows "unmount_rows D (int n) V =
    rbind (unmount_all D (filter (\<lambda>x. x \<noteq> 0) (map filesystem (drop n (filesystems V)))) (drv V)) (\<lambda>d.
      Inr (V\<lparr>filesystems := take n (filesystems V) @ map (\<lambda>e. e\<lparr>filesystem := 0\<rparr>) (drop n (filesystems V)), drv := d\<rparr>))"
  using assms
proof (induction "8 - n" arbitrary: n V)
  case 0
  then show ?case by (simp add: unmount_rows.simps [of D 8] CONFIG_MAX_FILESYSTEMS_def)
next
  case (Suc k)
  let ?e = "filesystems V ! n"
  have n: "n < 8" "k = 8 - Suc n" using Suc.hyps(2) by auto
  have drop: "drop n (filesystems V) = ?e # drop (Suc n) (filesystems V)" using n Suc.prems by (simp add: Cons_nth_drop_Suc)
  have take: "take (Suc n) (filesystems V) = take n (filesystems V) @ [?e]" using n Suc.prems by (simp add: take_Suc_conv_app_nth)
  have ih: "unmount_rows D (int n + 1) W =
    rbind (unmount_all D (filter (\<lambda>x. x \<noteq> 0) (map filesystem (drop (Suc n) (filesystems W)))) (drv W)) (\<lambda>d.
      Inr (W\<lparr>filesystems := take (Suc n) (filesystems W) @ map (\<lambda>e. e\<lparr>filesystem := 0\<rparr>) (drop (Suc n) (filesystems W)), drv := d\<rparr>))"
    if "length (filesystems W) = 8" for W
    using Suc.hyps(1) [OF n(2) that] n by (simp add: add.commute)
  note step = unmount_rows.simps [of D "int n" V]
  show ?case
  proof (cases "filesystem ?e = 0")
    case True
    then have same: "?e\<lparr>filesystem := 0\<rparr> = ?e" by (cases ?e) simp
    have "unmount_rows D (int n) V = unmount_rows D (int n + 1) V"
      using True n Suc.prems by (simp add: step CONFIG_MAX_FILESYSTEMS_def)
    with True ih [OF Suc.prems(1)] show ?thesis by (simp add: drop take same)
  next
    case False
    have "unmount_rows D (int n) V = rbind (fs_unmount D (filesystem ?e) (drv V)) (\<lambda>(_, d).
        unmount_rows D (int n + 1) (V\<lparr>filesystems := (filesystems V)[n := ?e\<lparr>filesystem := 0\<rparr>], drv := d\<rparr>))"
      using False n Suc.prems by (simp add: step CONFIG_MAX_FILESYSTEMS_def)
    also have "\<dots> = rbind (fs_unmount D (filesystem ?e) (drv V)) (\<lambda>(_, d).
        rbind (unmount_all D (filter (\<lambda>x. x \<noteq> 0) (map filesystem (drop (Suc n) (filesystems V)))) d) (\<lambda>d.
          Inr (V\<lparr>filesystems := take n (filesystems V) @ map (\<lambda>e. e\<lparr>filesystem := 0\<rparr>) (drop n (filesystems V)), drv := d\<rparr>)))"
      using n Suc.prems by (simp add: ih drop take_Suc_conv_app_nth)
    also have "\<dots> = rbind (unmount_all D (filter (\<lambda>x. x \<noteq> 0) (map filesystem (drop n (filesystems V)))) (drv V)) (\<lambda>d.
          Inr (V\<lparr>filesystems := take n (filesystems V) @ map (\<lambda>e. e\<lparr>filesystem := 0\<rparr>) (drop n (filesystems V)), drv := d\<rparr>))"
      using False by (simp add: drop case_prod_beta rbind_assoc)
    finally show ?thesis .
  qed
qed

text \<open>With an operation still counted, a forced unmount waits for a wake-up that nobody gives.\<close>

lemma vfs_deinit_pending:
  assumes "vfs_ok V" "0 < vfs_ops V"
  shows "vfs_deinit D V = Inl Hang"
proof -
  have idle: "vfs_idle V" using assms(1) by (simp add: vfs_ok_def)
  note d = vfs_idleD [OF idle]
  show ?thesis using d assms by (simp add: vfs_deinit_def P_op_def V_op_def sem_down_def vfs_ok_def)
qed

text \<open>With no operation counted it returns whenever the drivers' unmounts do.\<close>

definition vfs_down :: "'d \<Rightarrow> 'd vfs \<Rightarrow> 'd vfs" where
  "vfs_down d V = V\<lparr>vfs_usable := False, filesystems := map (\<lambda>e. e\<lparr>filesystem := 0\<rparr>) (filesystems V), drv := d\<rparr>"

lemma vfs_deinit_eq:
  assumes "vfs_ok V" "vfs_ops V = 0"
  shows "vfs_deinit D V =
    rbind (unmount_all D (filter (\<lambda>x. x \<noteq> 0) (map filesystem (filesystems V))) (drv V)) (\<lambda>d. Inr (vfs_down d V))"
proof -
  have idle: "vfs_idle V" using assms(1) by (simp add: vfs_ok_def)
  note d = vfs_idleD [OF idle]
  let ?W = "V\<lparr>vfs_op_sem := 0, vfs_usable := False, vfs_table_sem := 0, openfile_sem := 0\<rparr>"
  have "vfs_deinit D V = rbind (unmount_rows D 0 ?W) (\<lambda>V. Inr (V_op (V_table (V_files V))))"
    using assms(2) d by (simp add: vfs_deinit_def P_op_def P_table_def P_files_def sem_down_def)
  moreover have "V_op (V_table (V_files (?W\<lparr>filesystems := fss, drv := e\<rparr>))) = V\<lparr>vfs_usable := False, filesystems := fss, drv := e\<rparr>"
    for fss e using d by (cases V) (simp add: V_op_def V_table_def V_files_def)
  ultimately show ?thesis using unmount_rows_eq [of ?W 0 D] d by (simp add: vfs_down_def rbind_assoc)
qed

section \<open>Properties\<close>

text \<open>
  Property C27: a path is what its parts print to. The path \<open>[v]f\<close> is split into \<open>v\<close> and \<open>f\<close>
  exactly when \<open>v\<close> has at most 14 characters and \<open>f\<close> between 1 and 15; otherwise it is refused, and
  neither buffer of 16 bytes is overrun in any case. A volume name of 15 characters is refused
  although it would fit into its buffer: the loop ends before it can see the bracket.
\<close>

theorem vfs_path_roundtrip:
  assumes "0 \<notin> set v" "93 \<notin> set v" "0 \<notin> set f" "length vb = 16" "length fb = 16"
  shows "\<exists>r vb' fb'. vfs_parse_pathname (91 # v @ 93 # f @ [0]) vb fb = Inr (r, vb', fb') \<and>
    (if length v \<le> 14 \<and> f \<noteq> [] \<and> length f \<le> 15 then r = VFS_OK \<and> cstr vb' = v \<and> cstr fb' = f else r = VFS_ERROR)"
proof -
  let ?p = "91 # v @ 93 # f @ [0]"
  have t: "terminated ?p" by (simp add: terminated_def)
  have c: "cstr ?p = 91 # v @ 93 # f" using cstr_append_0 [of "91 # v @ 93 # f" "[]"] assms by simp
  have tw: "takeWhile (\<lambda>c. c \<noteq> 93) (v @ 93 # f) = v" using assms(2) by (subst takeWhile_append2) auto
  have "path_parts (cstr ?p) = (if length v \<le> 14 \<and> f \<noteq> [] \<and> length f \<le> 15 then Some (v, f) else None)"
    unfolding c by (simp add: path_parts_def tw)
  with vfs_parse_pathname_eq [OF t assms(4,5)] show ?thesis by (auto split: if_splits)
qed

theorem vfs_path_roundtrip_witness:
  "\<exists>vb fb. vfs_parse_pathname (91 # [100, 101] @ 93 # [97, 98, 99] @ [0]) name_buffer name_buffer = Inr (VFS_OK, vb, fb) \<and>
     cstr vb = [100, 101] \<and> cstr fb = [97, 98, 99]"
  using vfs_path_roundtrip [of "[100, 101]" "[97, 98, 99]" name_buffer name_buffer] by (auto simp: name_buffer_def)

text \<open>
  Property C7: whatever calls are made after start-up and whatever the drivers return, the tables
  stay consistent between the calls: the locks are free, every mount point is a terminated string,
  and every open file but the reserved handles is on a mounted filesystem. The number of active
  operations is then the number of calls that were refused without ending their operation.
\<close>

theorem vfs_history:
  assumes "vfs_init True True (vfs_blank d) = Inr V" "list_all call_ok cs" "vfs_run D cs V = Inr V'"
  shows "vfs_ok V' \<and> vfs_ops V' = leaked D cs V"
proof -
  have "vfs_ok V" "vfs_ops V = 0" using vfs_init_ok [of d] assms(1) by auto
  with vfs_run_ok [OF _ assms(2,3)] show ?thesis by simp
qed

text \<open>A driver that accepts everything: every file has the number 7 and the bytes 1, 2, 3.\<close>

definition plain_driver :: "unit fs_t" where
  "plain_driver = \<lparr>volume_name = (\<lambda>_ _. [100, 0]), fs_unmount = (\<lambda>_ d. Inr (0, d)), fs_open = (\<lambda>_ _ d. Inr (7, d)),
     fs_close = (\<lambda>_ _ d. Inr (0, d)), fs_read = (\<lambda>_ _ n off d. let bs = take (nat n) (drop (nat off) [1, 2, 3]) in Inr (int (length bs), bs, d)),
     fs_write = (\<lambda>_ _ _ n _ d. Inr (n, d)), fs_create = (\<lambda>_ _ _ d. Inr (0, d)), fs_remove = (\<lambda>_ _ d. Inr (0, d)),
     fs_getfree = (\<lambda>_ d. Inr (0, d))\<rparr>"

text \<open>Mounting volume \<open>d\<close> and opening the file \<open>a\<close> on it.\<close>

definition opened :: "unit vfs kresult" where
  "opened = rbind (vfs_init True True (vfs_blank ()))
     (vfs_run plain_driver [Mount 0x80300000 (Some [100, 0]), Open [91, 100, 93, 97, 0]])"

lemma opened_run:
  "rbind opened (\<lambda>V. Inr (files V ! 3, filesystem (filesystems V ! 0), cstr (mountpoint (filesystems V ! 0)), vfs_ops V)) =
     Inr (\<lparr>of_filesystem = 0x80300000, fileid = 7, seek_position = 0\<rparr>, 0x80300000, [100], 0)"
  by code_simp

lemma opened_ok:
  obtains V0 V where "vfs_init True True (vfs_blank ()) = Inr V0"
    "vfs_run plain_driver [Mount 0x80300000 (Some [100, 0]), Open [91, 100, 93, 97, 0]] V0 = Inr V" "opened = Inr V"
    "vfs_ok V" "files V ! 3 = \<lparr>of_filesystem = 0x80300000, fileid = 7, seek_position = 0\<rparr>" "vfs_ops V = 0"
    "filesystem (filesystems V ! 0) = 0x80300000" "cstr (mountpoint (filesystems V ! 0)) = [100]"
proof -
  obtain V0 where V0: "vfs_init True True (vfs_blank ()) = Inr V0" "vfs_ok V0" using vfs_init_ok [of "()"] by auto
  from opened_run obtain V where o: "opened = Inr V" by (auto simp only: rbind_eq_Inr)
  have V: "opened = Inr V" "files V ! 3 = \<lparr>of_filesystem = 0x80300000, fileid = 7, seek_position = 0\<rparr>"
    "filesystem (filesystems V ! 0) = 0x80300000" "cstr (mountpoint (filesystems V ! 0)) = [100]" "vfs_ops V = 0"
    using opened_run [unfolded o rbind_simps] by (simp_all only: o sum.inject prod.inject)
  have run: "vfs_run plain_driver [Mount 0x80300000 (Some [100, 0]), Open [91, 100, 93, 97, 0]] V0 = Inr V"
    using V(1) by (simp only: opened_def V0(1) rbind_simps)
  have "vfs_ok V" using vfs_run_ok [OF V0(2) _ run] by (simp add: terminated_def)
  with V0(1) run V that show thesis by blast
qed

theorem vfs_history_witness:
  "\<exists>V. opened = Inr V \<and> vfs_ok V \<and> vfs_ops V = 0"
proof -
  obtain V0 V where V: "vfs_init True True (vfs_blank ()) = Inr V0" "opened = Inr V" "vfs_ops V = 0"
    "vfs_run plain_driver [Mount 0x80300000 (Some [100, 0]), Open [91, 100, 93, 97, 0]] V0 = Inr V" by (rule opened_ok)
  have "list_all call_ok [Mount 0x80300000 (Some [100, 0]), Open [91, 100, 93, 97, 0]]" by (simp add: terminated_def)
  from vfs_history [OF V(1) this V(4)] V(2,3) show ?thesis by blast
qed

text \<open>
  Property C28: \<open>vfs_open\<close> fails only when the driver's \<open>open\<close> does. The handle that it returns is the lowest
  free one; its row names the filesystem that is mounted under the volume of the path, the file
  number that the driver of that filesystem returned for the file name of the path, and
  position 0, and no other row changes. A refused open leaves no handle behind and has one of four
  reasons: a bad path, no free row, no such filesystem, or the error of the driver.
\<close>

theorem vfs_open_handle:
  assumes "vfs_ok V" "terminated p"
  shows "case vfs_open D p V of
      Inl e \<Rightarrow> \<exists>v f fb. path_parts (cstr p) = Some (v, f) \<and> cstr fb = f \<and> fs_open D (fs_at v V) fb (drv V) = Inl e
    | Inr (h, V') \<Rightarrow>
        if 0 \<le> h then
          (\<exists>v f fb fid. path_parts (cstr p) = Some (v, f) \<and> cstr fb = f \<and> fs_at v V \<noteq> 0 \<and>
             fs_open D (fs_at v V) fb (drv V) = Inr (fid, drv V') \<and> 0 \<le> fid \<and>
             h < 512 \<and> of_filesystem (files V ! nat h) = 0 \<and> (\<forall>j. 0 \<le> j \<and> j < h \<longrightarrow> of_filesystem (files V ! nat j) \<noteq> 0) \<and>
             files V' = (files V)[nat h := (files V ! nat h)\<lparr>of_filesystem := fs_at v V, fileid := fid, seek_position := 0\<rparr>])
        else files V' = files V \<and>
          (path_parts (cstr p) = None \<and> h = VFS_ERROR \<or>
           (\<forall>j. 0 \<le> j \<and> j < 512 \<longrightarrow> of_filesystem (files V ! nat j) \<noteq> 0) \<and> h = VFS_LIMIT \<or>
           (\<exists>v f. path_parts (cstr p) = Some (v, f) \<and> fs_at v V = 0) \<and> h = VFS_NO_SUCH_FS \<or>
           (\<exists>v f fb. path_parts (cstr p) = Some (v, f) \<and> cstr fb = f \<and> fs_open D (fs_at v V) fb (drv V) = Inr (h, drv V')))"
proof -
  have idle: "vfs_idle V" using assms(1) by (simp add: vfs_ok_def)
  obtain k where k: "first_from (\<lambda>k. of_filesystem (files V ! nat k) = 0) 0 512 k"
    "case path_parts (cstr p) of None \<Rightarrow> vfs_open D p V = Inr (VFS_ERROR, V)
     | Some (v, f) \<Rightarrow>
        (case k of None \<Rightarrow> vfs_open D p V = Inr (VFS_LIMIT, V)
         | Some file \<Rightarrow>
             if fs_at v V = 0 then vfs_open D p V = Inr (VFS_NO_SUCH_FS, V)
             else \<exists>fb. cstr fb = f \<and> terminated fb \<and>
               vfs_open D p V = rbind (fs_open D (fs_at v V) fb (drv V)) (\<lambda>(fid, d).
                 Inr (if fid < 0 then (fid, V\<lparr>drv := d\<rparr>)
                      else (file, V\<lparr>drv := d, files := (files V)[nat file :=
                        (files V ! nat file)\<lparr>of_filesystem := fs_at v V, fileid := fid, seek_position := 0\<rparr>]\<rparr>))))"
    using vfs_open_eq [OF idle assms(2), of D] by blast
  consider "path_parts (cstr p) = None" | v f where "path_parts (cstr p) = Some (v, f)" "k = None"
    | v f where "path_parts (cstr p) = Some (v, f)" "k \<noteq> None" "fs_at v V = 0"
    | v f g where "path_parts (cstr p) = Some (v, f)" "k = Some g" "fs_at v V \<noteq> 0"
    by (cases "path_parts (cstr p)"; cases k) (simp_all, metis surj_pair, metis surj_pair)
  then show ?thesis
  proof cases
    case 1
    with k(2) show ?thesis by (simp add: vfs_codes)
  next
    case 2
    with k have "vfs_open D p V = Inr (VFS_LIMIT, V)" "\<forall>j. 0 \<le> j \<and> j < 512 \<longrightarrow> of_filesystem (files V ! nat j) \<noteq> 0"
      by (simp_all add: first_from_def)
    then show ?thesis by (simp add: vfs_codes)
  next
    case 3
    with k(2) show ?thesis by (auto simp: vfs_codes)
  next
    case 4
    with k(2) obtain fb where fb: "cstr fb = f" "vfs_open D p V = rbind (fs_open D (fs_at v V) fb (drv V)) (\<lambda>(fid, d).
                 Inr (if fid < 0 then (fid, V\<lparr>drv := d\<rparr>)
                      else (g, V\<lparr>drv := d, files := (files V)[nat g :=
                        (files V ! nat g)\<lparr>of_filesystem := fs_at v V, fileid := fid, seek_position := 0\<rparr>]\<rparr>)))" by auto
    have g: "0 \<le> g" "g < 512" "of_filesystem (files V ! nat g) = 0" "\<forall>j. 0 \<le> j \<and> j < g \<longrightarrow> of_filesystem (files V ! nat j) \<noteq> 0"
      using k(1) 4 by (auto simp: first_from_def)
    show ?thesis
    proof (cases "fs_open D (fs_at v V) fb (drv V)")
      case (Inl e)
      with fb 4 show ?thesis by auto
    next
      case (Inr r)
      obtain fid d where r: "r = (fid, d)" by (cases r)
      show ?thesis
      proof (cases "fid < 0")
        case True
        with Inr fb 4 r have "vfs_open D p V = Inr (fid, V\<lparr>drv := d\<rparr>)" by simp
        with True Inr r fb(1) 4(1) show ?thesis by auto
      next
        case False
        with Inr fb 4 r have "vfs_open D p V = Inr (g, V\<lparr>drv := d, files := (files V)[nat g :=
            (files V ! nat g)\<lparr>of_filesystem := fs_at v V, fileid := fid, seek_position := 0\<rparr>]\<rparr>)" by simp
        with False Inr r fb(1) 4(1,3) g show ?thesis
          by (simp del: fun_upd_apply) (intro exI [of _ fb] conjI; simp)
      qed
    qed
  qed
qed

theorem vfs_open_handle_witness:
  "\<exists>V V'. opened = Inr V \<and> vfs_open plain_driver [91, 100, 93, 98, 0] V = Inr (4, V') \<and>
     of_filesystem (files V ! 4) = 0 \<and> fileid (files V' ! 4) = 7"
proof -
  obtain V where V: "opened = Inr V" "vfs_ok V" by (rule opened_ok)
  have "rbind opened (\<lambda>V. rbind (vfs_open plain_driver [91, 100, 93, 98, 0] V) (\<lambda>(h, _). Inr h)) = Inr 4" by code_simp
  from this [unfolded V(1) rbind_simps] obtain V' where o: "vfs_open plain_driver [91, 100, 93, 98, 0] V = Inr (4, V')" by auto
  have len: "length (files V) = 512" using V(2) vfs_idleD(7) [of V] by (simp add: vfs_ok_def)
  from vfs_open_handle [OF V(2), of "[91, 100, 93, 98, 0]" plain_driver] o len
  have "of_filesystem (files V ! 4) = 0 \<and> fileid (files V' ! 4) = 7"
    by (auto simp: terminated_def plain_driver_def)
  with V(1) o show ?thesis by blast
qed

text \<open>
  Property C18: reading after a seek asks the driver for the bytes at exactly the position that was
  set, returns them, and leaves the position behind the bytes that were read, so the next read
  goes on where this one stopped. Only this handle changes.
\<close>

theorem vfs_seek_read:
  assumes "vfs_ok V" "open_row h V = Some f" "0 \<le> pos" "0 \<le> n"
    and "fs_read D (of_filesystem f) (fileid f) n pos (drv V) = Inr (ret, bs, d)"
  shows "\<exists>V1 V2. vfs_seek h pos V = Inr (VFS_OK, V1) \<and> vfs_read D h False n V1 = Inr (ret, bs, V2) \<and> vfs_ok V2 \<and>
    open_row h V2 = Some (f\<lparr>seek_position := if ret > 0 then swrap (pos + ret) else pos\<rparr>) \<and>
    (\<forall>k. k \<noteq> h \<longrightarrow> open_row k V2 = open_row k V)"
proof -
  have idle: "vfs_idle V" using assms(1) by (simp add: vfs_ok_def)
  let ?f = "f\<lparr>seek_position := pos\<rparr>" let ?V1 = "V\<lparr>files := (files V)[nat h := ?f]\<rparr>"
  have h: "0 \<le> h" "h < 512" "nat h < length (files V)" "of_filesystem f \<noteq> 0"
    using assms(2) vfs_idleD(7) [OF idle] by (auto simp: open_row_Some nat_less_iff)
  have s: "vfs_seek h pos V = Inr (VFS_OK, ?V1)" using vfs_seek_eq [OF idle, of h pos] assms(2,3) by simp
  have ok1: "vfs_ok ?V1" using vfs_ok_row [OF assms(1,2)] by (intro vfs_ok_file [OF assms(1)]) simp
  then have idle1: "vfs_idle ?V1" by (simp add: vfs_ok_def)
  have row1: "open_row h ?V1 = Some ?f" using h by (simp add: open_row_Some)
  have r: "vfs_read D h False n ?V1 = Inr (ret, bs, moved h ?f ret d ?V1)"
    using vfs_read_eq [OF idle1, of D h False n] row1 assms(4,5) by simp
  have "open_row h (moved h ?f ret d ?V1) = Some (f\<lparr>seek_position := if ret > 0 then swrap (pos + ret) else pos\<rparr>)"
    using h by (simp add: open_row_Some moved_def)
  moreover have "open_row k (moved h ?f ret d ?V1) = open_row k V" if "k \<noteq> h" for k
  proof (cases "0 \<le> k \<and> k < 512")
    case True
    then have "nat k \<noteq> nat h" using that h(1) by auto
    then show ?thesis by (simp add: open_row_def moved_def)
  qed (auto simp: open_row_def)
  ultimately show ?thesis using s r vfs_ok_moved [OF ok1 row1, of ret d] by blast
qed

theorem vfs_seek_read_witness:
  "\<exists>V V1 V2. opened = Inr V \<and> vfs_seek 3 1 V = Inr (VFS_OK, V1) \<and> vfs_read plain_driver 3 False 5 V1 = Inr (2, [2, 3], V2) \<and>
     map_option seek_position (open_row 3 V2) = Some 3"
proof -
  obtain V where V: "opened = Inr V" "vfs_ok V" "files V ! 3 = \<lparr>of_filesystem = 0x80300000, fileid = 7, seek_position = 0\<rparr>" by (rule opened_ok)
  have row: "open_row 3 V = Some \<lparr>of_filesystem = 0x80300000, fileid = 7, seek_position = 0\<rparr>" using V(3) by (simp add: open_row_def)
  have rd: "fs_read plain_driver 0x80300000 7 5 1 (drv V) = Inr (2, [2, 3], drv V)" by (simp add: plain_driver_def)
  from vfs_seek_read [OF V(2) row, of 1 5 plain_driver 2 "[2, 3]" "drv V"] rd obtain V1 V2 where
    "vfs_seek 3 1 V = Inr (VFS_OK, V1)" "vfs_read plain_driver 3 False 5 V1 = Inr (2, [2, 3], V2)"
    "open_row 3 V2 = Some \<lparr>of_filesystem = 0x80300000, fileid = 7, seek_position = 3\<rparr>" by auto
  with V(1) show ?thesis by auto
qed

text \<open>
  Property C29: a filesystem with an open file is not unmounted. One that is unmounted leaves its
  name in the mount table, so mounting anything under that name afterwards is refused as a double
  mount, although nothing is mounted there.
\<close>

theorem vfs_unmount_name_kept:
  assumes "vfs_ok V" "terminated name" "cstr name \<noteq> []" "vfs_unmount D name V = Inr (r, V')"
  shows "(r = VFS_OK \<longrightarrow> fs_of name V \<noteq> 0 \<and> (\<forall>f \<in> set (files V). of_filesystem f \<noteq> fs_of name V) \<and>
      vfs_mount fs (Some name) V' = Inr (VFS_ERROR, V')) \<and>
    (fs_of name V \<noteq> 0 \<and> (\<exists>f \<in> set (files V). of_filesystem f = fs_of name V) \<longrightarrow> r = VFS_IN_USE \<and> V' = V)"
proof -
  have idle: "vfs_idle V" using assms(1) by (simp add: vfs_ok_def)
  have ok': "vfs_ok V'" using vfs_ok_vfs_unmount [OF assms(1,2,4)] by simp
  then have idle': "vfs_idle V'" by (simp add: vfs_ok_def)
  note u = vfs_unmount_eq [OF idle assms(2), of D]
  show ?thesis
  proof (cases "fs_of name V = 0 \<or> (\<exists>f \<in> set (files V). of_filesystem f = fs_of name V)")
    case True
    with u assms(4) show ?thesis by (auto simp: vfs_codes split: if_splits)
  next
    case False
    with u obtain row where row: "0 \<le> row" "row < 8" "cstr (mountpoint (filesystems V ! nat row)) = cstr name"
      "vfs_unmount D name V = rbind (fs_unmount D (fs_of name V) (drv V)) (\<lambda>(_, d).
        Inr (VFS_OK, V\<lparr>filesystems := (filesystems V)[nat row := (filesystems V ! nat row)\<lparr>filesystem := 0\<rparr>], drv := d\<rparr>))" by auto
    from assms(4) [unfolded row(4)] have V': "filesystems V' = (filesystems V)[nat row := (filesystems V ! nat row)\<lparr>filesystem := 0\<rparr>]" by auto
    have n: "nat row < length (filesystems V)" using row vfs_idleD(6) [OF idle] by (simp add: nat_less_iff)
    have "row_of name V' \<noteq> None"
      using row(3) set_update_memI [OF n, of "(filesystems V ! nat row)\<lparr>filesystem := 0\<rparr>"]
      unfolding row_of_def V' find_None_iff by force
    moreover obtain q where q: "first_from (\<lambda>k. filesystem (filesystems V' ! nat k) = 0) 0 8 q"
      "vfs_mount fs (Some name) V' =
        (case q of None \<Rightarrow> Inr (VFS_LIMIT, V')
         | Some row \<Rightarrow> if row_of name V' \<noteq> None then Inr (VFS_ERROR, V')
           else Inr (VFS_OK, V'\<lparr>filesystems := (filesystems V')[nat row := (filesystems V' ! nat row)\<lparr>
             mountpoint := mount_name name (mountpoint (filesystems V' ! nat row)), filesystem := fs\<rparr>]\<rparr>))"
      by (rule vfs_mount_eq [OF idle' assms(2,3)])
    moreover have "q \<noteq> None"
    proof
      assume "q = None"
      then have "filesystem (filesystems V' ! nat row) \<noteq> 0" using q(1) row(1,2) by (simp add: first_from_def)
      with n show False by (simp add: V')
    qed
    ultimately show ?thesis using False by auto
  qed
qed

theorem vfs_unmount_name_kept_witness:
  "\<exists>V V'. opened = Inr V \<and> vfs_unmount plain_driver [100, 0] V = Inr (VFS_IN_USE, V') \<and> V' = V"
proof -
  obtain V where V: "opened = Inr V" "vfs_ok V" "files V ! 3 = \<lparr>of_filesystem = 0x80300000, fileid = 7, seek_position = 0\<rparr>"
    "filesystem (filesystems V ! 0) = 0x80300000" "cstr (mountpoint (filesystems V ! 0)) = [100]" by (rule opened_ok)
  have idle: "vfs_idle V" using V(2) by (simp add: vfs_ok_def)
  have "find (\<lambda>e. cstr (mountpoint e) = [100]) (filesystems V) = Some (filesystems V ! 0)"
    using V(5) vfs_idleD(6) [OF idle] by (cases "filesystems V") simp_all
  then have fs: "fs_of [100, 0] V = 0x80300000" using V(4) by (simp add: fs_of_def row_of_def)
  have "files V ! 3 \<in> set (files V)" using vfs_idleD(7) [OF idle] by simp
  then have used: "\<exists>f \<in> set (files V). of_filesystem f = fs_of [100, 0] V" using V(3) fs by (intro bexI [of _ "files V ! 3"]) simp_all
  have "rbind opened (\<lambda>V. rbind (vfs_unmount plain_driver [100, 0] V) (\<lambda>(r, _). Inr r)) = Inr (-8)" by code_simp
  from this [unfolded V(1) rbind_simps] obtain r V' where u: "vfs_unmount plain_driver [100, 0] V = Inr (r, V')" by auto
  from vfs_unmount_name_kept [OF V(2) _ _ u] fs used V(1) u show ?thesis by (auto simp: terminated_def)
qed

text \<open>
  Property C30: shutting down. With no operation pending \<open>vfs_deinit\<close> returns, if the drivers do: it
  asks the driver of every mounted filesystem once, in the order of the table, to unmount, leaves
  no filesystem mounted, and refuses every later open. But a call that was refused for a bad handle, a negative position or a
  bad buffer has left its operation counted, and after it \<open>vfs_deinit\<close> waits for ever.
\<close>

theorem vfs_deinit_result:
  assumes "vfs_ok V"
  shows "(vfs_ops V = 0 \<longrightarrow>
      vfs_deinit D V = rbind (unmount_all D (filter (\<lambda>x. x \<noteq> 0) (map filesystem (filesystems V))) (drv V))
        (\<lambda>d. Inr (vfs_down d V)) \<and>
      ((\<forall>fs d. \<exists>r d'. fs_unmount D fs d = Inr (r, d')) \<longrightarrow>
        (\<exists>V'. vfs_deinit D V = Inr V' \<and> (\<forall>e \<in> set (filesystems V'). filesystem e = 0) \<and>
          vfs_open D p V' = Inr (VFS_UNUSABLE, V')))) \<and>
    (call_ok c \<and> leaks c V \<and> vfs_do D c V = Inr (r, W) \<longrightarrow> r = VFS_ERROR \<and> vfs_deinit D W = Inl Hang)"
proof (intro conjI impI)
  assume a: "vfs_ops V = 0"
  note eq = vfs_deinit_eq [OF assms a, of D]
  then show "vfs_deinit D V = rbind (unmount_all D (filter (\<lambda>x. x \<noteq> 0) (map filesystem (filesystems V))) (drv V))
        (\<lambda>d. Inr (vfs_down d V))" .
  assume "\<forall>fs d. \<exists>r d'. fs_unmount D fs d = Inr (r, d')"
  then obtain d where "unmount_all D (filter (\<lambda>x. x \<noteq> 0) (map filesystem (filesystems V))) (drv V) = Inr d"
    using unmount_all_returns [of D] by blast
  with eq have "vfs_deinit D V = Inr (vfs_down d V)" by simp
  moreover have "vfs_open D p (vfs_down d V) = Inr (VFS_UNUSABLE, vfs_down d V)"
  proof -
    have "vfs_idle V" using assms by (simp add: vfs_ok_def)
    then have "vfs_op_sem (vfs_down d V) = 1" "\<not> vfs_usable (vfs_down d V)"
      using vfs_idleD by (auto simp: vfs_down_def)
    moreover from this have "(vfs_down d V)\<lparr>vfs_op_sem := 0, vfs_op_sem := 1\<rparr> = vfs_down d V" by (cases "vfs_down d V") simp
    ultimately show ?thesis
      by (simp add: vfs_open_def with_op_def vfs_start_op_def P_op_def V_op_def sem_down_def vfs_codes)
  qed
  ultimately show "\<exists>V'. vfs_deinit D V = Inr V' \<and> (\<forall>e \<in> set (filesystems V'). filesystem e = 0) \<and>
      vfs_open D p V' = Inr (VFS_UNUSABLE, V')" by (intro exI [of _ "vfs_down d V"]) (auto simp: vfs_down_def)
next
  assume a: "call_ok c \<and> leaks c V \<and> vfs_do D c V = Inr (r, W)"
  then have w: "vfs_ok W" "vfs_ops W = vfs_ops V + 1" "r = VFS_ERROR" using vfs_do_ok [OF assms, of c D r W] by auto
  then show "r = VFS_ERROR" by simp
  have "0 \<le> vfs_ops V" using assms by (simp add: vfs_ok_def vfs_idle_def)
  with w show "vfs_deinit D W = Inl Hang" by (intro vfs_deinit_pending) simp_all
qed

theorem vfs_deinit_result_witness:
  "\<exists>V V' r W. opened = Inr V \<and> filesystem (filesystems V ! 0) = 0x80300000 \<and> vfs_deinit plain_driver V = Inr V' \<and>
     (\<forall>e \<in> set (filesystems V'). filesystem e = 0) \<and> vfs_open plain_driver [91, 100, 93, 97, 0] V' = Inr (VFS_UNUSABLE, V') \<and>
     vfs_do plain_driver (Close 99) V = Inr (r, W) \<and> vfs_deinit plain_driver W = Inl Hang"
proof -
  obtain V where V: "opened = Inr V" "vfs_ok V" "vfs_ops V = 0" "filesystem (filesystems V ! 0) = 0x80300000" by (rule opened_ok)
  have "rbind opened (\<lambda>V. Inr (of_filesystem (files V ! 99))) = Inr 0" by code_simp
  from this [unfolded V(1) rbind_simps] have row: "open_row 99 V = None" by (simp add: open_row_def)
  have idle: "vfs_idle V" using V(2) by (simp add: vfs_ok_def)
  obtain W where W: "vfs_do plain_driver (Close 99) V = Inr (VFS_ERROR, W)" using vfs_close_eq [OF idle, of plain_driver 99] row by simp
  note res = vfs_deinit_result [OF V(2), of plain_driver "[91, 100, 93, 97, 0]" "Close 99" VFS_ERROR W]
  from res W row have "vfs_deinit plain_driver W = Inl Hang" by auto
  moreover have "\<forall>fs d. \<exists>r d'. fs_unmount plain_driver fs d = Inr (r, d')" by (simp add: plain_driver_def)
  with res V(3) obtain V' where "vfs_deinit plain_driver V = Inr V'" "\<forall>e \<in> set (filesystems V'). filesystem e = 0"
    "vfs_open plain_driver [91, 100, 93, 97, 0] V' = Inr (VFS_UNUSABLE, V')" by blast
  ultimately show ?thesis using V W by blast
qed

end
