(* ===== verification/Blocks.thy ===== *)
theory Blocks
  imports Bitmap
begin

text \<open>
  Disk blocks as the filesystems see them: 32-bit words in the byte order of the machine (the high
  byte first, as \<open>util/tfstool.c\<close> writes them), sequences of words, pieces of a byte sequence, and a
  file as the concatenation of its blocks.
\<close>

section \<open>Words in bytes\<close>

definition word_bytes :: "u32 \<Rightarrow> byte list" where
  "word_bytes w = [ucast (drop_bit 24 w), ucast (drop_bit 16 w), ucast (drop_bit 8 w), ucast w]"

definition bytes_word :: "byte list \<Rightarrow> u32" where
  "bytes_word bs = (case bs of
     a # b # c # d # _ \<Rightarrow> push_bit 24 (ucast a) OR push_bit 16 (ucast b) OR push_bit 8 (ucast c) OR ucast d
   | _ \<Rightarrow> 0)"

lemma word_bytes_length [simp]: "length (word_bytes w) = 4"
  by (simp add: word_bytes_def)

lemma bytes_word_bytes [simp]: "bytes_word (word_bytes w @ r) = w"
proof (rule bit_word_eqI)
  fix n assume n: "n < LENGTH(32)"
  consider "n < 8" | "8 \<le> n" "n < 16" | "16 \<le> n" "n < 24" | "24 \<le> n" by linarith
  then show "bit (bytes_word (word_bytes w @ r)) n = bit w n"
    by cases (use n in \<open>auto simp: bytes_word_def word_bytes_def bit_simps\<close>)
qed

lemma word_bytes_word:
  assumes "length bs = 4"
  shows "word_bytes (bytes_word bs) = bs"
proof -
  from assms obtain a b c d where bs: "bs = [a, b, c, d]"
    by (auto simp: length_Suc_conv numeral_eq_Suc)
  have "ucast (drop_bit 24 (bytes_word bs)) = a" "ucast (drop_bit 16 (bytes_word bs)) = b"
    "ucast (drop_bit 8 (bytes_word bs)) = c" "ucast (bytes_word bs) = d"
    unfolding bs bytes_word_def by (auto simp: bit_eq_iff bit_simps dest: bit_imp_le_length)
  with bs show ?thesis by (simp add: word_bytes_def)
qed

fun block_words :: "byte list \<Rightarrow> u32 list" where
  "block_words (a # b # c # d # bs) = bytes_word [a, b, c, d] # block_words bs"
| "block_words _ = []"

definition words_block :: "u32 list \<Rightarrow> byte list" where
  "words_block ws = concat (map word_bytes ws)"

lemma words_block_simps [simp]: "words_block [] = []" "words_block (w # ws) = word_bytes w @ words_block ws"
  by (simp_all add: words_block_def)

lemma words_block_length [simp]: "length (words_block ws) = 4 * length ws"
  by (induction ws) simp_all

lemma block_words_length [simp]: "length (block_words bs) = length bs div 4"
  by (induction bs rule: block_words.induct) auto

lemma block_words_words [simp]: "block_words (words_block ws) = ws"
proof (induction ws)
  case (Cons w ws)
  have "block_words (word_bytes w @ bs) = bytes_word (word_bytes w @ []) # block_words bs" for bs
    by (simp add: word_bytes_def)
  with Cons bytes_word_bytes [of w "[]"] show ?case by simp
qed simp

lemma words_block_words: "4 dvd length bs \<Longrightarrow> words_block (block_words bs) = bs"
proof (induction bs rule: block_words.induct)
  case (1 a b c d bs)
  then have "4 dvd length bs" by (simp add: dvd_def) presburger
  with 1 word_bytes_word [of "[a, b, c, d]"] show ?case by simp
qed (auto, presburger+)

section \<open>Pieces of a byte sequence\<close>

definition slice :: "nat \<Rightarrow> nat \<Rightarrow> 'a list \<Rightarrow> 'a list" where
  "slice off n xs = take n (drop off xs)"

definition splice :: "nat \<Rightarrow> 'a list \<Rightarrow> 'a list \<Rightarrow> 'a list" where
  "splice off ys xs = take off xs @ ys @ drop (off + length ys) xs"

lemma slice_length: "off + n \<le> length xs \<Longrightarrow> length (slice off n xs) = n"
  by (simp add: slice_def)

lemma splice_length [simp]: "off + length ys \<le> length xs \<Longrightarrow> length (splice off ys xs) = length xs"
  by (simp add: splice_def)

lemma splice_nth:
  "off + length ys \<le> length xs \<Longrightarrow> i < length xs \<Longrightarrow>
     splice off ys xs ! i = (if off \<le> i \<and> i < off + length ys then ys ! (i - off) else xs ! i)"
  by (auto simp: splice_def nth_append)

lemma slice_nth: "off + n \<le> length xs \<Longrightarrow> i < n \<Longrightarrow> slice off n xs ! i = xs ! (off + i)"
  by (simp add: slice_def)

lemma slice_split: "off + n + m \<le> length xs \<Longrightarrow> slice off (n + m) xs = slice off n xs @ slice (off + n) m xs"
  by (simp add: slice_def take_add add.commute [of off n])

lemma slice_0 [simp]: "slice off 0 xs = []"
  by (simp add: slice_def)

lemma slice_all: "slice 0 (length xs) xs = xs"
  by (simp add: slice_def)

lemma splice_Nil [simp]: "off \<le> length xs \<Longrightarrow> splice off [] xs = xs"
  by (simp add: splice_def)

lemma splice_splice:
  assumes "off + length ys + length zs \<le> length xs"
  shows "splice (off + length ys) zs (splice off ys xs) = splice off (ys @ zs) xs"
  by (rule nth_equalityI) (use assms in \<open>auto simp: splice_nth nth_append\<close>)

lemma slice_splice: "off + length ys \<le> length xs \<Longrightarrow> slice off (length ys) (splice off ys xs) = ys"
  by (rule nth_equalityI) (auto simp: slice_nth splice_nth slice_length)

section \<open>A file as the concatenation of its blocks\<close>

lemma concat_blocks_length:
  "(\<And>b. b \<in> set bs \<Longrightarrow> length (f b) = n) \<Longrightarrow> length (concat (map f bs)) = n * length bs"
  by (induction bs) auto

lemma concat_blocks_nth:
  assumes "\<And>b. b \<in> set bs \<Longrightarrow> length (f b) = n" "k < length bs" "i < n"
  shows "concat (map f bs) ! (n * k + i) = f (bs ! k) ! i"
  using assms
proof (induction bs arbitrary: k)
  case (Cons b bs)
  then show ?case by (cases k) (auto simp: nth_append)
qed simp

lemma slice_in_block:
  assumes f: "\<And>b. b \<in> set bs \<Longrightarrow> length (f b) = n" and "k < length bs" "off + m \<le> n"
  shows "slice (n * k + off) m (concat (map f bs)) = slice off m (f (bs ! k))"
proof (rule nth_equalityI)
  have "n * k + n \<le> n * length bs"
    using assms(2) by (metis Suc_leI add.commute mult_Suc_right mult_le_mono2)
  then have l: "n * k + off + m \<le> length (concat (map f bs))"
    using assms(3) concat_blocks_length [of bs f n, OF f] by linarith
  have lk: "off + m \<le> length (f (bs ! k))" using assms by simp
  show "length (slice (n * k + off) m (concat (map f bs))) = length (slice off m (f (bs ! k)))"
    using slice_length [OF l] slice_length [OF lk] by simp
  fix i assume "i < length (slice (n * k + off) m (concat (map f bs)))"
  then have i: "i < m" using slice_length [OF l] by simp
  have "concat (map f bs) ! (n * k + (off + i)) = f (bs ! k) ! (off + i)"
    by (rule concat_blocks_nth) (use assms i in auto)
  then show "slice (n * k + off) m (concat (map f bs)) ! i = slice off m (f (bs ! k)) ! i"
    using slice_nth [OF l i] slice_nth [OF lk i] by (simp add: add.assoc)
qed

lemma splice_in_block:
  assumes f: "\<And>b. b \<in> set bs \<Longrightarrow> length (f b) = n" and bs: "distinct bs" "k < length bs"
    and o: "off + length ys \<le> n"
  shows "concat (map (f(bs ! k := splice off ys (f (bs ! k)))) bs) = splice (n * k + off) ys (concat (map f bs))"
    (is "concat (map ?g bs) = _")
proof (rule nth_equalityI)
  have g: "length (?g b) = n" if "b \<in> set bs" for b using that f o by auto
  have len: "length (concat (map f bs)) = n * length bs" by (rule concat_blocks_length [OF f])
  have "n * k + n \<le> n * length bs"
    using bs(2) by (metis Suc_leI add.commute mult_Suc_right mult_le_mono2)
  then have l: "n * k + off + length ys \<le> length (concat (map f bs))" using o len by linarith
  show "length (concat (map ?g bs)) = length (splice (n * k + off) ys (concat (map f bs)))"
    using concat_blocks_length [of bs ?g n, OF g] splice_length [OF l] len by simp
  fix i assume "i < length (concat (map ?g bs))"
  then have i: "i < n * length bs" using concat_blocks_length [of bs ?g n, OF g] by simp
  define q m where "q = i div n" and "m = i mod n"
  have "0 < n" using i by (cases n) auto
  then have qm: "i = n * q + m" "m < n" "q < length bs"
    using i by (auto simp: q_def m_def less_mult_imp_div_less mult.commute)
  have l1: "concat (map ?g bs) ! i = ?g (bs ! q) ! m"
    unfolding qm(1) by (rule concat_blocks_nth) (use g qm in auto)
  have l2: "concat (map f bs) ! i = f (bs ! q) ! m"
    unfolding qm(1) by (rule concat_blocks_nth) (use f qm in auto)
  show "concat (map ?g bs) ! i = splice (n * k + off) ys (concat (map f bs)) ! i"
  proof (cases "q = k")
    case True
    then have "splice off ys (f (bs ! k)) ! m = (if off \<le> m \<and> m < off + length ys then ys ! (m - off) else f (bs ! k) ! m)"
      using qm(2) f bs(2) o by (intro splice_nth) auto
    moreover have "splice (n * k + off) ys (concat (map f bs)) ! i =
        (if n * k + off \<le> i \<and> i < n * k + off + length ys then ys ! (i - (n * k + off)) else concat (map f bs) ! i)"
      using l i len by (intro splice_nth) auto
    ultimately show ?thesis using True l1 l2 qm by simp
  next
    case False
    then have "bs ! q \<noteq> bs ! k" using bs qm(3) by (simp add: nth_eq_iff_index_eq)
    moreover have "\<not> (n * k + off \<le> i \<and> i < n * k + off + length ys)"
    proof (cases "q < k")
      case True
      then have "n * q + n \<le> n * k" by (metis Suc_leI add.commute mult_Suc_right mult_le_mono2)
      with qm show ?thesis by linarith
    next
      case F: False
      with False have "n * k + n \<le> n * q" by (metis Suc_leI add.commute linorder_neqE_nat mult_Suc_right mult_le_mono2)
      with qm o show ?thesis by linarith
    qed
    ultimately show ?thesis using l1 l2 splice_nth [OF l] i len by auto
  qed
qed

end
