(* ===== verification/Disk.thy ===== *)
theory Disk
  imports Chains Libc
begin

text \<open>
  The disk driver of \<open>drivers/disk.c\<close> with its scheduler \<open>drivers/disksched.c\<close>, on the requests of
  \<open>drivers/gbd.h\<close>. The hardware behind the I/O area is a parameter, with what the driver relies on in
  the locale \<open>disk_hardware\<close>. Requests are structures in memory linked by their \<open>next\<close> field; the
  theory shows that the linked queue is served first come, first served, that no assertion of the
  driver fails, that every request is answered exactly once, and that a blocking read or write
  transfers the block it names. The last is the contract \<open>block_device\<close> the filesystems are built on.
\<close>

section \<open>Registers of the device\<close>

definition DISK_COMMAND_READ :: u32 where "DISK_COMMAND_READ = 0x1"
definition DISK_COMMAND_WRITE :: u32 where "DISK_COMMAND_WRITE = 0x2"
definition DISK_COMMAND_RIRQ :: u32 where "DISK_COMMAND_RIRQ = 0x3"
definition DISK_COMMAND_WIRQ :: u32 where "DISK_COMMAND_WIRQ = 0x4"
definition DISK_COMMAND_BLOCKS :: u32 where "DISK_COMMAND_BLOCKS = 0x5"
definition DISK_COMMAND_BLOCKSIZE :: u32 where "DISK_COMMAND_BLOCKSIZE = 0x6"

definition DISK_STATUS_RBUSY :: "u32 \<Rightarrow> bool" where "DISK_STATUS_RBUSY s \<longleftrightarrow> s AND 0x1 \<noteq> 0"
definition DISK_STATUS_WBUSY :: "u32 \<Rightarrow> bool" where "DISK_STATUS_WBUSY s \<longleftrightarrow> s AND 0x2 \<noteq> 0"
definition DISK_STATUS_RIRQ :: "u32 \<Rightarrow> bool" where "DISK_STATUS_RIRQ s \<longleftrightarrow> s AND 0x4 \<noteq> 0"
definition DISK_STATUS_WIRQ :: "u32 \<Rightarrow> bool" where "DISK_STATUS_WIRQ s \<longleftrightarrow> s AND 0x8 \<noteq> 0"
definition DISK_STATUS_ERRORS :: "u32 \<Rightarrow> bool" where "DISK_STATUS_ERRORS s \<longleftrightarrow> s AND 0xf8000000 \<noteq> 0"

text \<open>
  The I/O area: reading \<open>status\<close> and \<open>data\<close>, writing \<open>command\<close>, \<open>tsector\<close> and \<open>dmaaddr\<close>. The device
  moves blocks between its sectors and the memory, so the memory is part of the hardware's state;
  \<open>mem_block\<close> and \<open>put_block\<close> are the processor's accesses to the 512 bytes from an address on.
\<close>

record 'h disk_io_area_t =
  io_status :: "'h \<Rightarrow> u32"
  io_command :: "u32 \<Rightarrow> 'h \<Rightarrow> 'h"
  io_data :: "'h \<Rightarrow> u32"
  io_tsector :: "u32 \<Rightarrow> 'h \<Rightarrow> 'h"
  io_dmaaddr :: "u32 \<Rightarrow> 'h \<Rightarrow> 'h"
  mem_block :: "u32 \<Rightarrow> 'h \<Rightarrow> byte list"
  put_block :: "u32 \<Rightarrow> byte list \<Rightarrow> 'h \<Rightarrow> 'h"

section \<open>Requests and the driver's state\<close>

definition GBD_OPERATION_READ :: int where "GBD_OPERATION_READ = 0"
definition GBD_OPERATION_WRITE :: int where "GBD_OPERATION_WRITE = 1"

lemmas disk_codes = DISK_COMMAND_READ_def DISK_COMMAND_WRITE_def DISK_COMMAND_RIRQ_def
  DISK_COMMAND_WIRQ_def DISK_COMMAND_BLOCKS_def DISK_COMMAND_BLOCKSIZE_def
  GBD_OPERATION_READ_def GBD_OPERATION_WRITE_def

record gbd_request_t =
  req_block :: u32
  req_buf :: u32
  req_sem :: u32
  operation :: int
  req_next :: u32
  return_value :: int

text \<open>
  \<open>requests\<close> is the memory that holds the request structures, by address, and \<open>sem_value\<close> the values
  of the semaphores that requests name. Address 0 is \<open>NULL\<close>.
\<close>

record 'h disk_real_device_t =
  hw :: 'h
  requests :: "u32 \<Rightarrow> gbd_request_t"
  sem_value :: "u32 \<Rightarrow> int"
  request_queue :: u32
  request_served :: u32

definition set_request :: "u32 \<Rightarrow> gbd_request_t \<Rightarrow> 'h disk_real_device_t \<Rightarrow> 'h disk_real_device_t" where
  "set_request r v D = D\<lparr>requests := (requests D)(r := v)\<rparr>"

section \<open>Scheduling\<close>

text \<open>The loop that looks for the last request of the queue.\<close>

partial_function (option) last_request :: "(u32 \<Rightarrow> gbd_request_t) \<Rightarrow> u32 \<Rightarrow> u32 option" where
  "last_request R q = (if req_next (R q) \<noteq> 0 then last_request R (req_next (R q)) else Some q)"

definition disksched_schedule :: "u32 \<Rightarrow> 'h disk_real_device_t \<Rightarrow> 'h disk_real_device_t kresult" where
  "disksched_schedule request D =
     (if request_queue D \<noteq> 0 then
        case last_request (requests D) (request_queue D) of
          None \<Rightarrow> Inl Hang
        | Some q \<Rightarrow> Inr (set_request q ((requests D q)\<lparr>req_next := request\<rparr>) D)
      else Inr (D\<lparr>request_queue := request\<rparr>))"

section \<open>The driver\<close>

definition disk_next_request :: "'h disk_io_area_t \<Rightarrow> 'h disk_real_device_t \<Rightarrow> 'h disk_real_device_t kresult" where
  "disk_next_request H D =
     kassert (\<not> (DISK_STATUS_RBUSY (io_status H (hw D)) \<or> DISK_STATUS_WBUSY (io_status H (hw D))))
     (kassert (request_served D = 0)
     (let q = request_queue D in
      if q = 0 then Inr D
      else
        let req = requests D q;
            D = (set_request q (req\<lparr>req_next := 0\<rparr>) D)\<lparr>request_queue := req_next req, request_served := q\<rparr>;
            h = io_dmaaddr H (req_buf req) (io_tsector H (req_block req) (hw D)) in
        rbind (if operation req = GBD_OPERATION_READ then Inr (io_command H DISK_COMMAND_READ h)
               else if operation req = GBD_OPERATION_WRITE then Inr (io_command H DISK_COMMAND_WRITE h)
               else Inl Panic) (\<lambda>h.
        if DISK_STATUS_ERRORS (io_status H h) then Inl Panic else Inr (D\<lparr>hw := h\<rparr>))))"

definition disk_semaphore_V :: "u32 \<Rightarrow> 'h disk_real_device_t \<Rightarrow> 'h disk_real_device_t" where
  "disk_semaphore_V s D = D\<lparr>sem_value := (sem_value D)(s := sem_value D s + 1)\<rparr>"

definition disk_interrupt_handle :: "'h disk_io_area_t \<Rightarrow> 'h disk_real_device_t \<Rightarrow> 'h disk_real_device_t kresult" where
  "disk_interrupt_handle H D =
     (if \<not> (DISK_STATUS_RIRQ (io_status H (hw D)) \<or> DISK_STATUS_WIRQ (io_status H (hw D))) then Inr D
      else
        let D = D\<lparr>hw := io_command H DISK_COMMAND_RIRQ (io_command H DISK_COMMAND_WIRQ (hw D))\<rparr>;
            r = request_served D in
        kassert (r \<noteq> 0)
        (let D = set_request r ((requests D r)\<lparr>return_value := 0\<rparr>) D;
             D = disk_semaphore_V (req_sem (requests D r)) D in
         disk_next_request H (D\<lparr>request_served := 0\<rparr>)))"

text \<open>
  \<open>disk_submit_request\<close> up to the point where interrupts are enabled again. \<open>newsem\<close> is the semaphore
  that \<open>semaphore_create\<close> returns, 0 when there is none. The result says whether the request is
  synchronous, and is \<open>None\<close> where the function has returned 0.
\<close>

definition disk_submit_start ::
  "'h disk_io_area_t \<Rightarrow> u32 \<Rightarrow> u32 \<Rightarrow> 'h disk_real_device_t \<Rightarrow> (bool option \<times> 'h disk_real_device_t) kresult" where
  "disk_submit_start H newsem r D =
     (let D = set_request r ((requests D r)\<lparr>req_next := 0, return_value := -1\<rparr>) D;
          sem_null = (req_sem (requests D r) = 0);
          D = (if sem_null then set_request r ((requests D r)\<lparr>req_sem := newsem\<rparr>) D else D) in
      if sem_null \<and> newsem = 0 then Inr (None, D)
      else
        let D = (if sem_null then D\<lparr>sem_value := (sem_value D)(newsem := 0)\<rparr> else D) in
        rbind (disksched_schedule r D) (\<lambda>D.
        rbind (if request_served D = 0 then disk_next_request H D else Inr D) (\<lambda>D.
        Inr (Some sem_null, D))))"

text \<open>
  The rest of a synchronous call: \<open>semaphore_P\<close> has returned, the semaphore is destroyed.
\<close>

definition disk_submit_finish :: "u32 \<Rightarrow> 'h disk_real_device_t \<Rightarrow> int \<times> 'h disk_real_device_t" where
  "disk_submit_finish r D =
     (let D = set_request r ((requests D r)\<lparr>req_sem := 0\<rparr>) D in
      (if return_value (requests D r) = 0 then 1 else 0, D))"

text \<open>
  What happens while the caller waits in \<open>semaphore_P\<close>: the device comes to the end of its transfer
  (\<open>run\<close>) and raises its interrupt, again and again until the semaphore is up. The first argument
  bounds the number of interrupts the caller sits through.
\<close>

fun disk_semaphore_P ::
  "'h disk_io_area_t \<Rightarrow> ('h \<Rightarrow> 'h) \<Rightarrow> nat \<Rightarrow> u32 \<Rightarrow> 'h disk_real_device_t \<Rightarrow> 'h disk_real_device_t kresult" where
  "disk_semaphore_P H run n s D =
     (if sem_value D s > 0 then Inr (D\<lparr>sem_value := (sem_value D)(s := sem_value D s - 1)\<rparr>)
      else case n of
        0 \<Rightarrow> Inl Hang
      | Suc m \<Rightarrow> rbind (disk_interrupt_handle H (D\<lparr>hw := run (hw D)\<rparr>)) (disk_semaphore_P H run m s))"

declare disk_semaphore_P.simps [simp del]

definition disk_submit_request ::
  "'h disk_io_area_t \<Rightarrow> ('h \<Rightarrow> 'h) \<Rightarrow> nat \<Rightarrow> u32 \<Rightarrow> u32 \<Rightarrow> 'h disk_real_device_t \<Rightarrow> (int \<times> 'h disk_real_device_t) kresult" where
  "disk_submit_request H run n newsem r D =
     rbind (disk_submit_start H newsem r D) (\<lambda>(sem_null, D).
       case sem_null of
         None \<Rightarrow> Inr (0, D)
       | Some True \<Rightarrow>
           rbind (disk_semaphore_P H run n (req_sem (requests D r)) D) (\<lambda>D. Inr (disk_submit_finish r D))
       | Some False \<Rightarrow> Inr (1, D))"

definition disk_read_block ::
  "'h disk_io_area_t \<Rightarrow> ('h \<Rightarrow> 'h) \<Rightarrow> nat \<Rightarrow> u32 \<Rightarrow> u32 \<Rightarrow> 'h disk_real_device_t \<Rightarrow> (int \<times> 'h disk_real_device_t) kresult" where
  "disk_read_block H run n newsem r D =
     disk_submit_request H run n newsem r
       (set_request r ((requests D r)\<lparr>operation := GBD_OPERATION_READ\<rparr>) D)"

definition disk_write_block ::
  "'h disk_io_area_t \<Rightarrow> ('h \<Rightarrow> 'h) \<Rightarrow> nat \<Rightarrow> u32 \<Rightarrow> u32 \<Rightarrow> 'h disk_real_device_t \<Rightarrow> (int \<times> 'h disk_real_device_t) kresult" where
  "disk_write_block H run n newsem r D =
     disk_submit_request H run n newsem r
       (set_request r ((requests D r)\<lparr>operation := GBD_OPERATION_WRITE\<rparr>) D)"

definition disk_block_size :: "'h disk_io_area_t \<Rightarrow> 'h disk_real_device_t \<Rightarrow> u32 \<times> 'h disk_real_device_t" where
  "disk_block_size H D =
     (let h = io_command H DISK_COMMAND_BLOCKSIZE (hw D) in (io_data H h, D\<lparr>hw := h\<rparr>))"

definition disk_total_blocks :: "'h disk_io_area_t \<Rightarrow> 'h disk_real_device_t \<Rightarrow> u32 \<times> 'h disk_real_device_t" where
  "disk_total_blocks H D =
     (let h = io_command H DISK_COMMAND_BLOCKS (hw D) in (io_data H h, D\<lparr>hw := h\<rparr>))"

section \<open>The queue as a list\<close>

definition queued :: "(u32 \<Rightarrow> gbd_request_t) \<Rightarrow> u32 \<Rightarrow> u32 list \<Rightarrow> bool" where
  "queued R q rs \<longleftrightarrow> path (\<lambda>r. req_next (R r)) q rs 0 \<and> distinct rs \<and> 0 \<notin> set rs"

lemma queued_Nil [simp]: "queued R q [] \<longleftrightarrow> q = 0"
  by (auto simp: queued_def)

lemma queued_Cons:
  "queued R q (r # rs) \<longleftrightarrow> q = r \<and> r \<noteq> 0 \<and> r \<notin> set rs \<and> queued R (req_next (R r)) rs"
  by (auto simp: queued_def)

lemma queued_0: "queued R 0 rs \<Longrightarrow> rs = []"
  by (cases rs) (auto simp: queued_Cons)

lemma queued_cong: "(\<And>r. r \<in> set rs \<Longrightarrow> req_next (R r) = req_next (R' r)) \<Longrightarrow> queued R q rs = queued R' q rs"
  unfolding queued_def by (simp add: path_cong [of rs "\<lambda>r. req_next (R r)" "\<lambda>r. req_next (R' r)"])

lemma queued_skip [simp]: "r \<notin> set rs \<Longrightarrow> queued (R(r := v)) q rs = queued R q rs"
  by (rule queued_cong) auto

lemma last_request_queued: "queued R q rs \<Longrightarrow> rs \<noteq> [] \<Longrightarrow> last_request R q = Some (last rs)"
proof (induction rs arbitrary: q)
  case (Cons r rs)
  from Cons.prems have q: "q = r" "queued R (req_next (R r)) rs" by (simp_all add: queued_Cons)
  show ?case
  proof (cases "rs = []")
    case True
    with q have "req_next (R r) = 0" by simp
    with True show ?thesis unfolding q(1) last_request.simps [of R r] by simp
  next
    case False
    with q have "req_next (R r) \<noteq> 0" using queued_0 by force
    with Cons.IH [OF q(2)] False show ?thesis unfolding q(1) last_request.simps [of R r] by simp
  qed
qed simp

lemma queued_append:
  assumes "queued R q rs" "rs \<noteq> []" "r \<notin> set rs" "r \<noteq> 0" "req_next (R r) = 0"
  shows "queued (R(last rs := (R (last rs))\<lparr>req_next := r\<rparr>)) q (rs @ [r])"
proof -
  let ?R = "R(last rs := (R (last rs))\<lparr>req_next := r\<rparr>)"
  have "path (\<lambda>x. req_next (?R x)) q rs r"
    by (rule path_redirect [of "\<lambda>x. req_next (R x)" q rs 0]) (use assms in \<open>simp_all add: queued_def\<close>)
  moreover have "req_next (?R r) = 0" using assms by auto
  ultimately show ?thesis
    using assms by (auto simp: queued_def path_append)
qed

lemma disksched_schedule_queued:
  assumes q: "queued (requests D) (request_queue D) rs"
    and r: "r \<notin> set rs" "r \<noteq> 0" "req_next (requests D r) = 0"
  obtains R q where "disksched_schedule r D = Inr (D\<lparr>requests := R, request_queue := q\<rparr>)"
    "queued R q (rs @ [r])" "\<And>x. \<exists>n. R x = (requests D x)\<lparr>req_next := n\<rparr>" "\<And>x. x \<notin> set rs \<Longrightarrow> R x = requests D x"
proof (cases "rs = []")
  case True
  with q r have "disksched_schedule r D = Inr (D\<lparr>requests := requests D, request_queue := r\<rparr>)"
    by (simp add: disksched_schedule_def)
  moreover have "\<exists>n. requests D x = (requests D x)\<lparr>req_next := n\<rparr>" for x
    by (rule exI [of _ "req_next (requests D x)"]) simp
  ultimately show ?thesis
    using r True that [where R = "requests D" and q = r] by (simp add: queued_Cons)
next
  case False
  let ?R = "(requests D)(last rs := (requests D (last rs))\<lparr>req_next := r\<rparr>)"
  have "request_queue D \<noteq> 0" using q False queued_0 by force
  with q False have "disksched_schedule r D = Inr (D\<lparr>requests := ?R, request_queue := request_queue D\<rparr>)"
    by (simp add: disksched_schedule_def last_request_queued set_request_def)
  moreover have "\<exists>n. ?R x = (requests D x)\<lparr>req_next := n\<rparr>" for x
    by (cases "x = last rs", rule exI [of _ r], simp, rule exI [of _ "req_next (requests D x)"], simp)
  moreover have "?R x = requests D x" if "x \<notin> set rs" for x
    using that False by auto
  ultimately show ?thesis
    using queued_append [OF q False r(1,2,3)] that [where R = ?R and q = "request_queue D"] by blast
qed

section \<open>What the driver relies on\<close>

text \<open>
  \<open>job\<close> is the transfer the device is busy with (command, sector, address), \<open>irq\<close> says that one of its
  interrupt flags is up, and \<open>sector\<close> is the contents of the disk. The law \<open>transfer\<close> speaks of a buffer
  in memory: a device that finds no memory at the address sets \<open>DISK_STATUS_IADDR\<close>, on which the
  driver panics, and the kernel never passes such an address.
\<close>

locale disk_hardware =
  fixes H :: "'h disk_io_area_t" and run :: "'h \<Rightarrow> 'h"
    and job :: "'h \<Rightarrow> (u32 \<times> u32 \<times> u32) option" and irq :: "'h \<Rightarrow> bool"
    and sector :: "'h \<Rightarrow> u32 \<Rightarrow> byte list" and nblocks :: u32
  assumes status_busy:
      "DISK_STATUS_RBUSY (io_status H h) \<or> DISK_STATUS_WBUSY (io_status H h) \<longleftrightarrow> job h \<noteq> None"
    and status_irq: "DISK_STATUS_RIRQ (io_status H h) \<or> DISK_STATUS_WIRQ (io_status H h) \<longleftrightarrow> irq h"
    and transfer:
      "job h = None \<Longrightarrow> c = DISK_COMMAND_READ \<or> c = DISK_COMMAND_WRITE \<Longrightarrow> s < nblocks \<Longrightarrow>
       h' = io_command H c (io_dmaaddr H a (io_tsector H s h)) \<Longrightarrow>
       \<not> DISK_STATUS_ERRORS (io_status H h') \<and> job h' = Some (c, s, a) \<and> irq h' = irq h \<and>
       sector h' = sector h \<and> (\<forall>b. mem_block H b h' = mem_block H b h)"
    and reset_irq:
      "h' = io_command H DISK_COMMAND_RIRQ (io_command H DISK_COMMAND_WIRQ h) \<Longrightarrow>
       \<not> irq h' \<and> job h' = job h \<and> sector h' = sector h \<and> (\<forall>b. mem_block H b h' = mem_block H b h)"
    and run_read:
      "job h = Some (DISK_COMMAND_READ, s, a) \<Longrightarrow>
       job (run h) = None \<and> irq (run h) \<and> sector (run h) = sector h \<and> mem_block H a (run h) = sector h s"
    and run_write:
      "job h = Some (DISK_COMMAND_WRITE, s, a) \<Longrightarrow>
       job (run h) = None \<and> irq (run h) \<and> sector (run h) = (sector h)(s := mem_block H a h)"
    and run_idle: "job h = None \<Longrightarrow> run h = h"
    and ask_size: "h' = io_command H DISK_COMMAND_BLOCKSIZE h \<Longrightarrow>
       io_data H h' = 512 \<and> job h' = job h \<and> irq h' = irq h \<and> sector h' = sector h"
    and ask_blocks: "h' = io_command H DISK_COMMAND_BLOCKS h \<Longrightarrow>
       io_data H h' = nblocks \<and> job h' = job h \<and> irq h' = irq h \<and> sector h' = sector h"
    and put: "length bs = 512 \<Longrightarrow>
       mem_block H a (put_block H a bs h) = bs \<and> job (put_block H a bs h) = job h \<and>
       irq (put_block H a bs h) = irq h \<and> sector (put_block H a bs h) = sector h"

section \<open>The driver's invariant\<close>

definition good_request :: "u32 \<Rightarrow> gbd_request_t \<Rightarrow> bool" where
  "good_request nb v \<longleftrightarrow>
     (operation v = GBD_OPERATION_READ \<or> operation v = GBD_OPERATION_WRITE) \<and> req_block v < nb"

definition command_for :: "gbd_request_t \<Rightarrow> u32 \<times> u32 \<times> u32" where
  "command_for v =
     (if operation v = GBD_OPERATION_READ then DISK_COMMAND_READ else DISK_COMMAND_WRITE, req_block v, req_buf v)"

lemma request_upd [simp]:
  "good_request nb (v\<lparr>req_next := n\<rparr>) = good_request nb v" "command_for (v\<lparr>req_next := n\<rparr>) = command_for v"
  "good_request nb (v\<lparr>return_value := i\<rparr>) = good_request nb v" "command_for (v\<lparr>return_value := i\<rparr>) = command_for v"
  "good_request nb (v\<lparr>req_sem := s\<rparr>) = good_request nb v" "command_for (v\<lparr>req_sem := s\<rparr>) = command_for v"
  by (simp_all add: good_request_def command_for_def)

text \<open>
  \<open>disk_ok job irq nb D rs\<close>: the requests that have been submitted and not answered are \<open>rs\<close>, oldest
  first. The oldest is with the device, which is working on it or has raised its interrupt; the
  others are linked from \<open>request_queue\<close> on. Without requests the device is idle.
\<close>

definition disk_ok ::
  "('h \<Rightarrow> (u32 \<times> u32 \<times> u32) option) \<Rightarrow> ('h \<Rightarrow> bool) \<Rightarrow> u32 \<Rightarrow> 'h disk_real_device_t \<Rightarrow> u32 list \<Rightarrow> bool" where
  "disk_ok job irq nb D rs \<longleftrightarrow>
     (case rs of
        [] \<Rightarrow> request_served D = 0 \<and> request_queue D = 0 \<and> job (hw D) = None \<and> \<not> irq (hw D)
      | r # q \<Rightarrow> request_served D = r \<and> r \<noteq> 0 \<and> r \<notin> set q \<and> queued (requests D) (request_queue D) q \<and>
          (\<forall>x \<in> set rs. good_request nb (requests D x)) \<and>
          (job (hw D) = Some (command_for (requests D r)) \<and> \<not> irq (hw D) \<or> job (hw D) = None \<and> irq (hw D)))"

lemma disk_ok_Nil:
  "disk_ok job irq nb D [] \<longleftrightarrow>
     request_served D = 0 \<and> request_queue D = 0 \<and> job (hw D) = None \<and> \<not> irq (hw D)"
  by (simp add: disk_ok_def)

lemma disk_ok_distinct: "disk_ok job irq nb D rs \<Longrightarrow> distinct rs \<and> 0 \<notin> set rs"
  by (cases rs) (auto simp: disk_ok_def queued_def)

text \<open>\<open>rethreaded\<close>: at most the \<open>next\<close> field of the requests has changed.\<close>

definition rethreaded :: "(u32 \<Rightarrow> gbd_request_t) \<Rightarrow> (u32 \<Rightarrow> gbd_request_t) \<Rightarrow> bool" where
  "rethreaded R R' \<longleftrightarrow> (\<forall>x. \<exists>n. R' x = (R x)\<lparr>req_next := n\<rparr>)"

lemma rethreaded_refl [simp]: "rethreaded R R"
  unfolding rethreaded_def by (metis gbd_request_t.surjective gbd_request_t.update_convs(5))

lemma rethreaded_trans: "rethreaded R R' \<Longrightarrow> rethreaded R' R'' \<Longrightarrow> rethreaded R R''"
  unfolding rethreaded_def by (metis gbd_request_t.update_convs(5) gbd_request_t.surjective)

lemma rethreaded_upd: "rethreaded R (R(q := (R q)\<lparr>req_next := n\<rparr>))"
  unfolding rethreaded_def
proof
  show "\<exists>m. (R(q := (R q)\<lparr>req_next := n\<rparr>)) x = (R x)\<lparr>req_next := m\<rparr>" for x
    by (cases "x = q", rule exI [of _ n], simp, rule exI [of _ "req_next (R x)"], simp)
qed

lemma rethreaded_fields:
  assumes "rethreaded R R'"
  shows "operation (R' x) = operation (R x)" "req_block (R' x) = req_block (R x)" "req_buf (R' x) = req_buf (R x)"
    "req_sem (R' x) = req_sem (R x)" "return_value (R' x) = return_value (R x)"
    "good_request nb (R' x) = good_request nb (R x)" "command_for (R' x) = command_for (R x)"
proof -
  from assms obtain n where "R' x = (R x)\<lparr>req_next := n\<rparr>" by (auto simp: rethreaded_def)
  then show "operation (R' x) = operation (R x)" "req_block (R' x) = req_block (R x)" "req_buf (R' x) = req_buf (R x)"
    "req_sem (R' x) = req_sem (R x)" "return_value (R' x) = return_value (R x)"
    "good_request nb (R' x) = good_request nb (R x)" "command_for (R' x) = command_for (R x)"
    by simp_all
qed

section \<open>The driver keeps its invariant\<close>

context disk_hardware begin

abbreviation ok :: "'h disk_real_device_t \<Rightarrow> u32 list \<Rightarrow> bool" where
  "ok \<equiv> disk_ok job irq nblocks"

text \<open>Starting the next request on an idle device.\<close>

lemma next_request:
  assumes idle: "request_served D = 0" "job (hw D) = None" "\<not> irq (hw D)"
    and q: "queued (requests D) (request_queue D) rs" "\<forall>x \<in> set rs. good_request nblocks (requests D x)"
  obtains D' where "disk_next_request H D = Inr D'" "ok D' rs" "sem_value D' = sem_value D"
    "rethreaded (requests D) (requests D')" "sector (hw D') = sector (hw D)"
    "\<And>b. mem_block H b (hw D') = mem_block H b (hw D)"
    "\<And>r. rs = [r] \<Longrightarrow> job (hw D') = Some (command_for (requests D r))" "\<not> irq (hw D')"
proof (cases rs)
  case Nil
  with q idle have "disk_next_request H D = Inr D" "ok D rs"
    using status_busy [of "hw D"] by (simp_all add: disk_next_request_def disk_ok_Nil)
  with Nil idle show ?thesis using that [of D] by simp
next
  case (Cons r rs')
  let ?req = "requests D r"
  let ?R = "(requests D)(r := ?req\<lparr>req_next := 0\<rparr>)"
  define c where "c = fst (command_for ?req)"
  define h where "h = io_command H c (io_dmaaddr H (req_buf ?req) (io_tsector H (req_block ?req) (hw D)))"
  define D' where "D' = D\<lparr>requests := ?R, request_queue := req_next ?req, request_served := r, hw := h\<rparr>"
  from q Cons have r: "request_queue D = r" "r \<noteq> 0" "r \<notin> set rs'" "queued (requests D) (req_next ?req) rs'"
    and good: "good_request nblocks ?req" by (auto simp: queued_Cons)
  have h: "\<not> DISK_STATUS_ERRORS (io_status H h)" "job h = Some (command_for ?req)" "irq h = irq (hw D)"
    "sector h = sector (hw D)" "\<And>b. mem_block H b h = mem_block H b (hw D)"
    using transfer [OF idle(2) _ _ h_def] good
    by (auto simp: good_request_def command_for_def c_def)
  have "disk_next_request H D = Inr D'"
    using idle r good h(1) status_busy [of "hw D"]
    by (auto simp: disk_next_request_def good_request_def D'_def h_def c_def command_for_def set_request_def disk_codes)
  moreover have "queued ?R (req_next ?req) rs'"
    using r(3,4) by simp
  moreover have rl: "rethreaded (requests D) ?R" by (rule rethreaded_upd)
  ultimately show ?thesis
    using that [of D'] Cons idle r good h q(2) by (auto simp: disk_ok_def D'_def)
qed

lemma request_finished:
  assumes "ok D (r # rs)"
  shows "ok (D\<lparr>hw := run (hw D)\<rparr>) (r # rs)" "irq (run (hw D))"
proof -
  have "irq (run (hw D)) \<and> job (run (hw D)) = None"
  proof (cases "job (hw D)")
    case None
    with assms run_idle show ?thesis by (auto simp: disk_ok_def)
  next
    case (Some j)
    with assms have "job (hw D) = Some (command_for (requests D r))" by (auto simp: disk_ok_def)
    then show ?thesis using run_read run_write by (auto simp: command_for_def split: if_splits)
  qed
  then show "ok (D\<lparr>hw := run (hw D)\<rparr>) (r # rs)" "irq (run (hw D))"
    using assms by (auto simp: disk_ok_def)
qed

text \<open>An interrupt answers the oldest request and nothing else; without an interrupt flag it does nothing.\<close>

lemma interrupt_answers:
  assumes ok: "ok D (r # rs)" and irq: "irq (hw D)"
  obtains D' where "disk_interrupt_handle H D = Inr D'" "ok D' rs"
    "sem_value D' = (sem_value D)(req_sem (requests D r) := sem_value D (req_sem (requests D r)) + 1)"
    "rethreaded ((requests D)(r := (requests D r)\<lparr>return_value := 0\<rparr>)) (requests D')"
    "sector (hw D') = sector (hw D)" "\<And>b. mem_block H b (hw D') = mem_block H b (hw D)" "\<not> irq (hw D')"
proof -
  define h where "h = io_command H DISK_COMMAND_RIRQ (io_command H DISK_COMMAND_WIRQ (hw D))"
  let ?R = "(requests D)(r := (requests D r)\<lparr>return_value := 0\<rparr>)"
  let ?s = "req_sem (requests D r)"
  let ?D = "D\<lparr>hw := h, requests := ?R, sem_value := (sem_value D)(?s := sem_value D ?s + 1), request_served := 0\<rparr>"
  note h = reset_irq [OF h_def]
  from ok irq have D: "request_served D = r" "r \<noteq> 0" "r \<notin> set rs" "job (hw D) = None"
    "queued (requests D) (request_queue D) rs" "\<forall>x \<in> set rs. good_request nblocks (requests D x)"
    by (auto simp: disk_ok_def)
  have handle: "disk_interrupt_handle H D = disk_next_request H ?D"
    using irq status_irq [of "hw D"] D(1,2)
    by (simp add: disk_interrupt_handle_def set_request_def disk_semaphore_V_def h_def)
  have "queued ?R (request_queue D) rs" using D(3,5) by simp
  then show ?thesis
    using h D that handle by (auto intro: next_request [of ?D rs])
qed

lemma interrupt_ignored: "\<not> irq (hw D) \<Longrightarrow> disk_interrupt_handle H D = Inr D"
  using status_irq [of "hw D"] by (simp add: disk_interrupt_handle_def)

end

text \<open>
  Submitting puts the request behind the others, and starts it when there are none. \<open>prepared\<close> is
  the request as \<open>disk_submit_request\<close> initialises it.
\<close>

definition prepared :: "u32 \<Rightarrow> gbd_request_t \<Rightarrow> gbd_request_t" where
  "prepared newsem v =
     v\<lparr>req_next := 0, return_value := -1, req_sem := (if req_sem v = 0 then newsem else req_sem v)\<rparr>"

lemma prepared_simps [simp]:
  "req_next (prepared s v) = 0" "return_value (prepared s v) = -1" "operation (prepared s v) = operation v"
  "req_block (prepared s v) = req_block v" "req_buf (prepared s v) = req_buf v"
  "req_sem (prepared s v) = (if req_sem v = 0 then s else req_sem v)"
  "good_request nb (prepared s v) = good_request nb v" "command_for (prepared s v) = command_for v"
  by (simp_all add: prepared_def)

definition fresh_sem :: "u32 \<Rightarrow> gbd_request_t \<Rightarrow> (u32 \<Rightarrow> int) \<Rightarrow> u32 \<Rightarrow> int" where
  "fresh_sem newsem v S = (if req_sem v = 0 then S(newsem := 0) else S)"

definition prepare :: "u32 \<Rightarrow> u32 \<Rightarrow> 'h disk_real_device_t \<Rightarrow> 'h disk_real_device_t" where
  "prepare newsem r D =
     (set_request r (prepared newsem (requests D r)) D)\<lparr>sem_value := fresh_sem newsem (requests D r) (sem_value D)\<rparr>"

lemma disk_submit_start_eq:
  assumes "req_sem (requests D r) \<noteq> 0 \<or> newsem \<noteq> 0"
  shows "disk_submit_start H newsem r D =
    rbind (disksched_schedule r (prepare newsem r D)) (\<lambda>D1.
    rbind (if request_served D1 = 0 then disk_next_request H D1 else Inr D1) (\<lambda>D2.
    Inr (Some (req_sem (requests D r) = 0), D2)))"
  using assms
  by (cases "req_sem (requests D r) = 0")
    (simp_all add: disk_submit_start_def prepare_def prepared_def fresh_sem_def set_request_def)

context disk_hardware begin

lemma submit_queued:
  assumes ok: "ok D rs" and r: "r \<notin> set rs" "r \<noteq> 0" "good_request nblocks (requests D r)"
    and s: "req_sem (requests D r) \<noteq> 0 \<or> newsem \<noteq> 0"
  obtains D' where "disk_submit_start H newsem r D = Inr (Some (req_sem (requests D r) = 0), D')"
    "ok D' (rs @ [r])" "sem_value D' = fresh_sem newsem (requests D r) (sem_value D)"
    "rethreaded ((requests D)(r := prepared newsem (requests D r))) (requests D')"
    "sector (hw D') = sector (hw D)" "\<And>b. mem_block H b (hw D') = mem_block H b (hw D)"
    "irq (hw D') = irq (hw D)"
proof (cases rs)
  case Nil
  let ?D = "(prepare newsem r D)\<lparr>request_queue := r\<rparr>"
  from ok Nil have idle: "request_served D = 0" "request_queue D = 0" "job (hw D) = None" "\<not> irq (hw D)"
    by (simp_all add: disk_ok_Nil)
  then have pre: "request_served ?D = 0" "job (hw ?D) = None" "\<not> irq (hw ?D)"
    "queued (requests ?D) (request_queue ?D) [r]" "\<forall>x \<in> set [r]. good_request nblocks (requests ?D x)"
    using r by (auto simp: prepare_def set_request_def queued_Cons)
  obtain D' where D': "disk_next_request H ?D = Inr D'" "ok D' [r]" "sem_value D' = sem_value ?D"
    "rethreaded (requests ?D) (requests D')" "sector (hw D') = sector (hw ?D)"
    "\<And>b. mem_block H b (hw D') = mem_block H b (hw ?D)" "job (hw D') = Some (command_for (requests ?D r))"
    by (rule next_request [OF pre]) auto
  have "disk_submit_start H newsem r D = Inr (Some (req_sem (requests D r) = 0), D')"
    using s idle D'(1)
    by (simp add: disk_submit_start_eq disksched_schedule_def prepare_def set_request_def)
  moreover have "irq (hw D') = irq (hw D)"
    using D'(2,7) idle(4) by (auto simp: disk_ok_def)
  ultimately show ?thesis
    using that [of D'] D' Nil by (simp add: prepare_def set_request_def)
next
  case (Cons x q)
  let ?D = "prepare newsem r D"
  from ok Cons have x: "request_served D = x" "x \<noteq> 0" "x \<notin> set q" "queued (requests D) (request_queue D) q"
    by (simp_all add: disk_ok_def)
  have pre: "queued (requests ?D) (request_queue ?D) q" "r \<notin> set q" "r \<noteq> 0" "req_next (requests ?D r) = 0"
    using x(4) r Cons by (simp_all add: prepare_def set_request_def)
  obtain R q' where S: "disksched_schedule r ?D = Inr (?D\<lparr>requests := R, request_queue := q'\<rparr>)"
    "queued R q' (q @ [r])" "rethreaded (requests ?D) R"
    unfolding rethreaded_def by (rule disksched_schedule_queued [OF pre]) blast
  have "disk_submit_start H newsem r D =
      Inr (Some (req_sem (requests D r) = 0), ?D\<lparr>requests := R, request_queue := q'\<rparr>)"
    using s S(1) x(1,2) by (simp add: disk_submit_start_eq prepare_def set_request_def)
  moreover have "ok (?D\<lparr>requests := R, request_queue := q'\<rparr>) (rs @ [r])"
    using ok x r Cons S(2) rethreaded_fields(6,7) [OF S(3)]
    by (auto simp: disk_ok_def prepare_def set_request_def)
  ultimately show ?thesis
    using that S(3) by (simp add: prepare_def set_request_def)
qed

end

section \<open>Blocking transfers\<close>

context disk_hardware begin

text \<open>A request submitted while the driver is idle is answered by the next interrupt.\<close>

lemma submit_wait:
  assumes ok: "ok D []" and r: "r \<noteq> 0" "good_request nblocks (requests D r)"
    and sem: "req_sem (requests D r) \<noteq> 0 \<or> newsem \<noteq> 0" "s = req_sem (prepared newsem (requests D r))"
    and zero: "fresh_sem newsem (requests D r) (sem_value D) s = 0"
  obtains D1 D' where "disk_submit_start H newsem r D = Inr (Some (req_sem (requests D r) = 0), D1)"
    "req_sem (requests D1 r) = s" "disk_semaphore_P H run (Suc n) s D1 = Inr D'" "ok D' []" "return_value (requests D' r) = 0"
    "operation (requests D r) = GBD_OPERATION_READ \<Longrightarrow> sector (hw D') = sector (hw D) \<and>
       mem_block H (req_buf (requests D r)) (hw D') = sector (hw D) (req_block (requests D r))"
    "operation (requests D r) = GBD_OPERATION_WRITE \<Longrightarrow>
       sector (hw D') = (sector (hw D))(req_block (requests D r) := mem_block H (req_buf (requests D r)) (hw D))"
proof -
  let ?v = "requests D r"
  obtain D1 where D1: "disk_submit_start H newsem r D = Inr (Some (req_sem ?v = 0), D1)" "ok D1 [r]"
    "sem_value D1 = fresh_sem newsem ?v (sem_value D)" "rethreaded ((requests D)(r := prepared newsem ?v)) (requests D1)"
    "sector (hw D1) = sector (hw D)" "\<And>b. mem_block H b (hw D1) = mem_block H b (hw D)" "irq (hw D1) = irq (hw D)"
    by (rule submit_queued [OF ok _ r(1,2) sem(1)]) auto
  have v1: "req_sem (requests D1 r) = s" "command_for (requests D1 r) = command_for ?v"
    using rethreaded_fields [OF D1(4), of r] sem(2) by simp_all
  have job: "job (hw D1) = Some (command_for ?v)"
    using D1(2,7) ok v1(2) by (auto simp: disk_ok_def)
  let ?D2 = "D1\<lparr>hw := run (hw D1)\<rparr>"
  have "ok ?D2 [r]" "irq (hw ?D2)" using request_finished [OF D1(2)] by simp_all
  then obtain D3 where D3: "disk_interrupt_handle H ?D2 = Inr D3" "ok D3 []"
    "sem_value D3 = (sem_value D1)(s := sem_value D1 s + 1)"
    "rethreaded ((requests D1)(r := (requests D1 r)\<lparr>return_value := 0\<rparr>)) (requests D3)"
    "sector (hw D3) = sector (run (hw D1))" "\<And>b. mem_block H b (hw D3) = mem_block H b (run (hw D1))"
    by (rule interrupt_answers) (auto simp: v1)
  have ret: "return_value (requests D3 r) = 0" using rethreaded_fields(5) [OF D3(4), of r] by simp
  let ?D4 = "D3\<lparr>sem_value := (sem_value D3)(s := 0)\<rparr>"
  have "disk_semaphore_P H run (Suc n) s D1 = Inr ?D4"
    using D1(3) zero D3(1,3)
    by (simp add: disk_semaphore_P.simps [of H run "Suc n"] disk_semaphore_P.simps [of H run n _ D3])
  moreover have "ok ?D4 []" using D3(2) by (simp add: disk_ok_Nil)
  ultimately show ?thesis
    using that [OF D1(1) v1(1), of ?D4] ret job D1(5,6) D3(5,6) run_read [of "hw D1"] run_write [of "hw D1"]
    by (auto simp: command_for_def disk_codes)
qed

lemma blocking_transfer:
  assumes ok: "ok D []" and r: "r \<noteq> 0" "good_request nblocks (requests D r)" "req_sem (requests D r) = 0"
    and s: "newsem \<noteq> 0"
  obtains D' where "disk_submit_request H run (Suc n) newsem r D = Inr (1, D')" "ok D' []"
    "operation (requests D r) = GBD_OPERATION_READ \<Longrightarrow> sector (hw D') = sector (hw D) \<and>
       mem_block H (req_buf (requests D r)) (hw D') = sector (hw D) (req_block (requests D r))"
    "operation (requests D r) = GBD_OPERATION_WRITE \<Longrightarrow>
       sector (hw D') = (sector (hw D))(req_block (requests D r) := mem_block H (req_buf (requests D r)) (hw D))"
proof -
  obtain D1 D2 where D: "disk_submit_start H newsem r D = Inr (Some True, D1)" "req_sem (requests D1 r) = newsem"
    "disk_semaphore_P H run (Suc n) newsem D1 = Inr D2" "ok D2 []" "return_value (requests D2 r) = 0"
    "operation (requests D r) = GBD_OPERATION_READ \<Longrightarrow> sector (hw D2) = sector (hw D) \<and>
       mem_block H (req_buf (requests D r)) (hw D2) = sector (hw D) (req_block (requests D r))"
    "operation (requests D r) = GBD_OPERATION_WRITE \<Longrightarrow>
       sector (hw D2) = (sector (hw D))(req_block (requests D r) := mem_block H (req_buf (requests D r)) (hw D))"
    by (rule submit_wait [OF ok r(1,2), of newsem newsem n]) (use r(3) s in \<open>auto simp: fresh_sem_def\<close>)
  have "disk_submit_request H run (Suc n) newsem r D = Inr (disk_submit_finish r D2)"
    using D(1-3) by (simp add: disk_submit_request_def)
  moreover have "fst (disk_submit_finish r D2) = 1" using D(5) by (simp add: disk_submit_finish_def set_request_def)
  moreover have "ok (snd (disk_submit_finish r D2)) []" "hw (snd (disk_submit_finish r D2)) = hw D2"
    using D(4) by (simp_all add: disk_submit_finish_def set_request_def disk_ok_Nil)
  ultimately show ?thesis
    using that [of "snd (disk_submit_finish r D2)"] D(6,7) by (auto simp: prod_eq_iff)
qed

end

section \<open>Generic block devices\<close>

text \<open>
  The interface of \<open>gbd_t\<close> as its users see it, for blocking requests (\<open>sem = NULL\<close>): reading also
  returns the bytes that are in the buffer afterwards.
\<close>

record 'd gbd_t =
  read_block :: "u32 \<Rightarrow> 'd \<Rightarrow> (int \<times> byte list \<times> 'd) kresult"
  write_block :: "u32 \<Rightarrow> byte list \<Rightarrow> 'd \<Rightarrow> (int \<times> 'd) kresult"
  block_size :: "'d \<Rightarrow> u32 \<times> 'd"
  total_blocks :: "'d \<Rightarrow> u32 \<times> 'd"

text \<open>What a user of a block device relies on: requests inside the device succeed and move one block.\<close>

locale block_device =
  fixes G :: "'d gbd_t" and ready :: "'d \<Rightarrow> bool" and blk :: "'d \<Rightarrow> u32 \<Rightarrow> byte list" and nb :: u32
  assumes read_law: "ready d \<Longrightarrow> b < nb \<Longrightarrow>
      \<exists>d'. read_block G b d = Inr (1, blk d b, d') \<and> ready d' \<and> blk d' = blk d"
    and write_law: "ready d \<Longrightarrow> b < nb \<Longrightarrow> length bs = 512 \<Longrightarrow>
      \<exists>d'. write_block G b bs d = Inr (1, d') \<and> ready d' \<and> blk d' = (blk d)(b := bs)"
    and size_law: "ready d \<Longrightarrow> \<exists>d'. block_size G d = (512, d') \<and> ready d' \<and> blk d' = blk d"
    and total_law: "ready d \<Longrightarrow> \<exists>d'. total_blocks G d = (nb, d') \<and> ready d' \<and> blk d' = blk d"
    and blk_length: "ready d \<Longrightarrow> b < nb \<Longrightarrow> length (blk d b) = 512"

text \<open>
  The disk behind this interface. The caller keeps its request at address \<open>r\<close> and its buffer at
  \<open>buf\<close>, and leaves \<open>sem\<close> at \<open>NULL\<close>.
\<close>

definition disk_gbd ::
  "'h disk_io_area_t \<Rightarrow> ('h \<Rightarrow> 'h) \<Rightarrow> u32 \<Rightarrow> u32 \<Rightarrow> u32 \<Rightarrow> 'h disk_real_device_t gbd_t" where
  "disk_gbd H run newsem r buf =
     \<lparr>read_block = (\<lambda>b D.
        rbind (disk_read_block H run 1 newsem r
                (set_request r ((requests D r)\<lparr>req_block := b, req_buf := buf, req_sem := 0\<rparr>) D)) (\<lambda>(x, D).
        Inr (x, mem_block H buf (hw D), D))),
      write_block = (\<lambda>b bs D.
        disk_write_block H run 1 newsem r
          (set_request r ((requests D r)\<lparr>req_block := b, req_buf := buf, req_sem := 0\<rparr>)
            (D\<lparr>hw := put_block H buf bs (hw D)\<rparr>))),
      block_size = disk_block_size H,
      total_blocks = disk_total_blocks H\<rparr>"

definition disk_ready ::
  "('h \<Rightarrow> (u32 \<times> u32 \<times> u32) option) \<Rightarrow> ('h \<Rightarrow> bool) \<Rightarrow> ('h \<Rightarrow> u32 \<Rightarrow> byte list) \<Rightarrow> u32 \<Rightarrow> 'h disk_real_device_t \<Rightarrow> bool" where
  "disk_ready job irq sector nb D \<longleftrightarrow> disk_ok job irq nb D [] \<and> (\<forall>b < nb. length (sector (hw D) b) = 512)"

text \<open>
  The same from a caller that brings its own semaphore \<open>sem\<close>, created with the value 0, and waits for it
  before it looks at \<open>return_value\<close>.
\<close>

definition disk_submit_and_wait ::
  "'h disk_io_area_t \<Rightarrow> ('h \<Rightarrow> 'h) \<Rightarrow> u32 \<Rightarrow> u32 \<Rightarrow> 'h disk_real_device_t \<Rightarrow> (int \<times> 'h disk_real_device_t) kresult" where
  "disk_submit_and_wait H run sem r D =
     rbind (disk_submit_request H run 0 0 r D) (\<lambda>(_, D).
     rbind (disk_semaphore_P H run 1 sem D) (\<lambda>D.
     Inr (if return_value (requests D r) = 0 then 1 else 0, D)))"

definition disk_waiting_gbd ::
  "'h disk_io_area_t \<Rightarrow> ('h \<Rightarrow> 'h) \<Rightarrow> u32 \<Rightarrow> u32 \<Rightarrow> u32 \<Rightarrow> 'h disk_real_device_t gbd_t" where
  "disk_waiting_gbd H run sem r buf =
     \<lparr>read_block = (\<lambda>b D.
        rbind (disk_submit_and_wait H run sem r
                ((set_request r ((requests D r)\<lparr>req_block := b, req_buf := buf, req_sem := sem, operation := GBD_OPERATION_READ\<rparr>) D)
                  \<lparr>sem_value := (sem_value D)(sem := 0)\<rparr>)) (\<lambda>(x, D).
        Inr (x, mem_block H buf (hw D), D))),
      write_block = (\<lambda>b bs D.
        disk_submit_and_wait H run sem r
          ((set_request r ((requests D r)\<lparr>req_block := b, req_buf := buf, req_sem := sem, operation := GBD_OPERATION_WRITE\<rparr>)
            (D\<lparr>hw := put_block H buf bs (hw D)\<rparr>))\<lparr>sem_value := (sem_value D)(sem := 0)\<rparr>)),
      block_size = disk_block_size H,
      total_blocks = disk_total_blocks H\<rparr>"

locale disk_client = disk_hardware +
  fixes newsem :: u32 and r :: u32 and buf :: u32
  assumes newsem: "newsem \<noteq> 0" and request: "r \<noteq> 0"
begin

lemma client_read:
  assumes D: "disk_ready job irq sector nblocks D" and b: "b < nblocks"
  obtains D' where "read_block (disk_gbd H run newsem r buf) b D = Inr (1, sector (hw D) b, D')"
    "disk_ready job irq sector nblocks D'" "sector (hw D') = sector (hw D)"
proof -
  let ?D = "set_request r ((requests D r)\<lparr>req_block := b, req_buf := buf, req_sem := 0, operation := GBD_OPERATION_READ\<rparr>) D"
  have "ok ?D []" "good_request nblocks (requests ?D r)" "req_sem (requests ?D r) = 0"
    using D b by (simp_all add: disk_ready_def disk_ok_Nil set_request_def good_request_def)
  then obtain D' where "disk_submit_request H run (Suc 0) newsem r ?D = Inr (1, D')" "ok D' []"
    "sector (hw D') = sector (hw D)" "mem_block H buf (hw D') = sector (hw D) b"
    by (rule blocking_transfer [OF _ request _ _ newsem, of ?D 0]) (auto simp: set_request_def)
  with D show ?thesis
    by (intro that [of D']) (simp_all add: disk_gbd_def disk_read_block_def set_request_def disk_ready_def)
qed

lemma client_write:
  assumes D: "disk_ready job irq sector nblocks D" and b: "b < nblocks" and bs: "length bs = 512"
  obtains D' where "write_block (disk_gbd H run newsem r buf) b bs D = Inr (1, D')"
    "disk_ready job irq sector nblocks D'" "sector (hw D') = (sector (hw D))(b := bs)"
proof -
  let ?D = "set_request r ((requests D r)\<lparr>req_block := b, req_buf := buf, req_sem := 0, operation := GBD_OPERATION_WRITE\<rparr>)
    (D\<lparr>hw := put_block H buf bs (hw D)\<rparr>)"
  note p = put [OF bs, of buf "hw D"]
  have "ok ?D []" "good_request nblocks (requests ?D r)" "req_sem (requests ?D r) = 0"
    using D b p by (simp_all add: disk_ready_def disk_ok_Nil set_request_def good_request_def)
  then obtain D' where "disk_submit_request H run (Suc 0) newsem r ?D = Inr (1, D')" "ok D' []"
    "sector (hw D') = (sector (hw D))(b := bs)"
    by (rule blocking_transfer [OF _ request _ _ newsem, of ?D 0]) (auto simp: set_request_def p)
  with D bs show ?thesis
    by (intro that [of D']) (simp_all add: disk_gbd_def disk_write_block_def set_request_def disk_ready_def)
qed

lemma waiting_transfer:
  assumes ok: "ok D []" and r: "good_request nblocks (requests D r)" "req_sem (requests D r) = newsem" "sem_value D newsem = 0"
  obtains D' where "disk_submit_and_wait H run newsem r D = Inr (1, D')" "ok D' []"
    "operation (requests D r) = GBD_OPERATION_READ \<Longrightarrow> sector (hw D') = sector (hw D) \<and>
       mem_block H (req_buf (requests D r)) (hw D') = sector (hw D) (req_block (requests D r))"
    "operation (requests D r) = GBD_OPERATION_WRITE \<Longrightarrow>
       sector (hw D') = (sector (hw D))(req_block (requests D r) := mem_block H (req_buf (requests D r)) (hw D))"
proof -
  obtain D1 D2 where D: "disk_submit_start H 0 r D = Inr (Some False, D1)"
    "disk_semaphore_P H run (Suc 0) newsem D1 = Inr D2" "ok D2 []" "return_value (requests D2 r) = 0"
    "operation (requests D r) = GBD_OPERATION_READ \<Longrightarrow> sector (hw D2) = sector (hw D) \<and>
       mem_block H (req_buf (requests D r)) (hw D2) = sector (hw D) (req_block (requests D r))"
    "operation (requests D r) = GBD_OPERATION_WRITE \<Longrightarrow>
       sector (hw D2) = (sector (hw D))(req_block (requests D r) := mem_block H (req_buf (requests D r)) (hw D))"
    by (rule submit_wait [OF ok request r(1), of 0 newsem 0]) (use r(2,3) newsem in \<open>auto simp: fresh_sem_def\<close>)
  then have "disk_submit_and_wait H run newsem r D = Inr (1, D2)"
    by (simp add: disk_submit_and_wait_def disk_submit_request_def)
  with D(3,5,6) that show ?thesis by blast
qed

lemma waiting_read:
  assumes D: "disk_ready job irq sector nblocks D" and b: "b < nblocks"
  obtains D' where "read_block (disk_waiting_gbd H run newsem r buf) b D = Inr (1, sector (hw D) b, D')"
    "disk_ready job irq sector nblocks D'" "sector (hw D') = sector (hw D)"
proof -
  let ?D = "(set_request r ((requests D r)\<lparr>req_block := b, req_buf := buf, req_sem := newsem, operation := GBD_OPERATION_READ\<rparr>) D)
    \<lparr>sem_value := (sem_value D)(newsem := 0)\<rparr>"
  have "ok ?D []" "good_request nblocks (requests ?D r)" "req_sem (requests ?D r) = newsem" "sem_value ?D newsem = 0"
    using D b by (simp_all add: disk_ready_def disk_ok_Nil set_request_def good_request_def)
  then obtain D' where "disk_submit_and_wait H run newsem r ?D = Inr (1, D')" "ok D' []"
    "sector (hw D') = sector (hw D)" "mem_block H buf (hw D') = sector (hw D) b"
    by (rule waiting_transfer [of ?D]) (auto simp: set_request_def)
  with D show ?thesis
    by (intro that [of D']) (simp_all add: disk_waiting_gbd_def disk_ready_def)
qed

lemma waiting_write:
  assumes D: "disk_ready job irq sector nblocks D" and b: "b < nblocks" and bs: "length bs = 512"
  obtains D' where "write_block (disk_waiting_gbd H run newsem r buf) b bs D = Inr (1, D')"
    "disk_ready job irq sector nblocks D'" "sector (hw D') = (sector (hw D))(b := bs)"
proof -
  let ?D = "(set_request r ((requests D r)\<lparr>req_block := b, req_buf := buf, req_sem := newsem, operation := GBD_OPERATION_WRITE\<rparr>)
    (D\<lparr>hw := put_block H buf bs (hw D)\<rparr>))\<lparr>sem_value := (sem_value D)(newsem := 0)\<rparr>"
  note p = put [OF bs, of buf "hw D"]
  have "ok ?D []" "good_request nblocks (requests ?D r)" "req_sem (requests ?D r) = newsem" "sem_value ?D newsem = 0"
    using D b p by (simp_all add: disk_ready_def disk_ok_Nil set_request_def good_request_def)
  then obtain D' where "disk_submit_and_wait H run newsem r ?D = Inr (1, D')" "ok D' []"
    "sector (hw D') = (sector (hw D))(b := bs)"
    by (rule waiting_transfer [of ?D]) (auto simp: set_request_def p)
  with D bs show ?thesis
    by (intro that [of D']) (simp_all add: disk_waiting_gbd_def disk_ready_def)
qed

end

sublocale disk_client \<subseteq> gbd: block_device "disk_gbd H run newsem r buf"
  "disk_ready job irq sector nblocks" "\<lambda>D. sector (hw D)" nblocks
proof
  fix d :: "'a disk_real_device_t" and b :: u32 and bs :: "byte list"
  assume d: "disk_ready job irq sector nblocks d"
  show "\<exists>d'. block_size (disk_gbd H run newsem r buf) d = (512, d') \<and> disk_ready job irq sector nblocks d' \<and>
      sector (hw d') = sector (hw d)"
    using d ask_size [OF refl, of "hw d"] by (simp add: disk_gbd_def disk_block_size_def disk_ready_def disk_ok_Nil)
  show "\<exists>d'. total_blocks (disk_gbd H run newsem r buf) d = (nblocks, d') \<and> disk_ready job irq sector nblocks d' \<and>
      sector (hw d') = sector (hw d)"
    using d ask_blocks [OF refl, of "hw d"] by (simp add: disk_gbd_def disk_total_blocks_def disk_ready_def disk_ok_Nil)
  assume b: "b < nblocks"
  show "length (sector (hw d) b) = 512" using d b by (simp add: disk_ready_def)
  show "\<exists>d'. read_block (disk_gbd H run newsem r buf) b d = Inr (1, sector (hw d) b, d') \<and>
      disk_ready job irq sector nblocks d' \<and> sector (hw d') = sector (hw d)"
    using client_read [OF d b] by metis
  assume "length bs = 512"
  then show "\<exists>d'. write_block (disk_gbd H run newsem r buf) b bs d = Inr (1, d') \<and>
      disk_ready job irq sector nblocks d' \<and> sector (hw d') = (sector (hw d))(b := bs)"
    using client_write [OF d b] by metis
qed

sublocale disk_client \<subseteq> waiting: block_device "disk_waiting_gbd H run newsem r buf"
  "disk_ready job irq sector nblocks" "\<lambda>D. sector (hw D)" nblocks
proof
  fix d :: "'a disk_real_device_t" and b :: u32 and bs :: "byte list"
  have same: "block_size (disk_waiting_gbd H run newsem r buf) = block_size (disk_gbd H run newsem r buf)"
    "total_blocks (disk_waiting_gbd H run newsem r buf) = total_blocks (disk_gbd H run newsem r buf)"
    by (simp_all add: disk_waiting_gbd_def disk_gbd_def)
  assume d: "disk_ready job irq sector nblocks d"
  show "\<exists>d'. block_size (disk_waiting_gbd H run newsem r buf) d = (512, d') \<and> disk_ready job irq sector nblocks d' \<and>
      sector (hw d') = sector (hw d)"
    "\<exists>d'. total_blocks (disk_waiting_gbd H run newsem r buf) d = (nblocks, d') \<and> disk_ready job irq sector nblocks d' \<and>
      sector (hw d') = sector (hw d)"
    unfolding same by (rule gbd.size_law [OF d] gbd.total_law [OF d])+
  assume b: "b < nblocks"
  show "length (sector (hw d) b) = 512" using d b by (simp add: disk_ready_def)
  show "\<exists>d'. read_block (disk_waiting_gbd H run newsem r buf) b d = Inr (1, sector (hw d) b, d') \<and>
      disk_ready job irq sector nblocks d' \<and> sector (hw d') = sector (hw d)"
    using waiting_read [OF d b] by metis
  assume "length bs = 512"
  then show "\<exists>d'. write_block (disk_waiting_gbd H run newsem r buf) b bs d = Inr (1, d') \<and>
      disk_ready job irq sector nblocks d' \<and> sector (hw d') = (sector (hw d))(b := bs)"
    using waiting_write [OF d b] by metis
qed

section \<open>A device\<close>

text \<open>
  A device with the registers of \<open>drivers/disk.h\<close> that behaves as the locale asks: it refuses a
  command while it is busy, a sector outside the disk and a command it does not know, each with its
  bit in the status word. It shows that the locale can be met, and the examples run on it.
\<close>

datatype disk_error = No_error | Bad_sector | Bad_command | Busy_error

record yams_disk =
  y_sector :: "u32 \<Rightarrow> byte list"
  y_mem :: "u32 \<Rightarrow> byte"
  y_job :: "(bool \<times> u32 \<times> u32) option"
  y_rirq :: bool
  y_wirq :: bool
  y_error :: disk_error
  y_data :: u32
  y_tsector :: u32
  y_dmaaddr :: u32

definition y_status :: "yams_disk \<Rightarrow> u32" where
  "y_status h =
     (case y_job h of None \<Rightarrow> 0 | Some (w, _) \<Rightarrow> if w then 2 else 1) OR
     (if y_rirq h then 4 else 0) OR (if y_wirq h then 8 else 0) OR
     (case y_error h of No_error \<Rightarrow> 0 | Bad_sector \<Rightarrow> 0x08000000 | Bad_command \<Rightarrow> 0x20000000 | Busy_error \<Rightarrow> 0x40000000)"

definition y_start :: "u32 \<Rightarrow> bool \<Rightarrow> yams_disk \<Rightarrow> yams_disk" where
  "y_start nb w h =
     (if y_job h \<noteq> None then h\<lparr>y_error := Busy_error\<rparr>
      else if y_tsector h \<ge> nb then h\<lparr>y_error := Bad_sector\<rparr>
      else h\<lparr>y_error := No_error, y_job := Some (w, y_tsector h, y_dmaaddr h)\<rparr>)"

definition y_command :: "u32 \<Rightarrow> u32 \<Rightarrow> yams_disk \<Rightarrow> yams_disk" where
  "y_command nb c h =
     (if c = DISK_COMMAND_READ then y_start nb False h
      else if c = DISK_COMMAND_WRITE then y_start nb True h
      else if c = DISK_COMMAND_RIRQ then h\<lparr>y_rirq := False\<rparr>
      else if c = DISK_COMMAND_WIRQ then h\<lparr>y_wirq := False\<rparr>
      else if c = DISK_COMMAND_BLOCKS then h\<lparr>y_data := nb\<rparr>
      else if c = DISK_COMMAND_BLOCKSIZE then h\<lparr>y_data := 512\<rparr>
      else h\<lparr>y_error := Bad_command\<rparr>)"

definition y_mem_block :: "u32 \<Rightarrow> yams_disk \<Rightarrow> byte list" where
  "y_mem_block a h = map (\<lambda>i. y_mem h (a + of_nat i)) [0..<512]"

definition y_put_block :: "u32 \<Rightarrow> byte list \<Rightarrow> yams_disk \<Rightarrow> yams_disk" where
  "y_put_block a bs h =
     h\<lparr>y_mem := (\<lambda>x. if unat (x - a) < 512 \<and> unat (x - a) < length bs then bs ! unat (x - a) else y_mem h x)\<rparr>"

definition y_sectors :: "yams_disk \<Rightarrow> u32 \<Rightarrow> byte list" where
  "y_sectors h s = take 512 (y_sector h s @ replicate 512 0)"

definition y_run :: "yams_disk \<Rightarrow> yams_disk" where
  "y_run h =
     (case y_job h of
        None \<Rightarrow> h
      | Some (w, s, a) \<Rightarrow>
          if w then h\<lparr>y_sector := (y_sector h)(s := y_mem_block a h), y_job := None, y_wirq := True\<rparr>
          else (y_put_block a (y_sectors h s) h)\<lparr>y_job := None, y_rirq := True\<rparr>)"

definition yams_io :: "u32 \<Rightarrow> yams_disk disk_io_area_t" where
  "yams_io nb =
     \<lparr>io_status = y_status, io_command = y_command nb, io_data = y_data,
      io_tsector = (\<lambda>s h. h\<lparr>y_tsector := s\<rparr>), io_dmaaddr = (\<lambda>a h. h\<lparr>y_dmaaddr := a\<rparr>),
      mem_block = y_mem_block, put_block = y_put_block\<rparr>"

definition y_view :: "yams_disk \<Rightarrow> (u32 \<times> u32 \<times> u32) option" where
  "y_view h = map_option (\<lambda>(w, s, a). (if w then DISK_COMMAND_WRITE else DISK_COMMAND_READ, s, a)) (y_job h)"

definition y_irq :: "yams_disk \<Rightarrow> bool" where
  "y_irq h \<longleftrightarrow> y_rirq h \<or> y_wirq h"

lemma y_mem_put: "length bs = 512 \<Longrightarrow> y_mem_block a (y_put_block a bs h) = bs"
  by (rule nth_equalityI) (simp_all add: y_mem_block_def y_put_block_def unat_of_nat)

lemma y_mem_block_length [simp]: "length (y_mem_block a h) = 512"
  by (simp add: y_mem_block_def)

lemma y_mem_block_upd [simp]: "y_mem_block a (h\<lparr>y_job := j\<rparr>) = y_mem_block a h"
  "y_mem_block a (h\<lparr>y_rirq := b\<rparr>) = y_mem_block a h"
  by (simp_all add: y_mem_block_def)

lemma y_sectors_length [simp]: "length (y_sectors h s) = 512"
  by (simp add: y_sectors_def)

lemma y_sectors_put [simp]: "y_sectors (y_put_block a bs h) = y_sectors h" "y_sectors (h\<lparr>y_job := j\<rparr>) = y_sectors h"
  "y_sectors (h\<lparr>y_rirq := b\<rparr>) = y_sectors h"
  by (simp_all add: y_sectors_def y_put_block_def fun_eq_iff)

lemma y_status_bits:
  "DISK_STATUS_RBUSY (y_status h) \<or> DISK_STATUS_WBUSY (y_status h) \<longleftrightarrow> y_job h \<noteq> None"
  "DISK_STATUS_RIRQ (y_status h) \<or> DISK_STATUS_WIRQ (y_status h) \<longleftrightarrow> y_irq h"
  "DISK_STATUS_ERRORS (y_status h) \<longleftrightarrow> y_error h \<noteq> No_error"
  by (simp_all add: y_status_def y_irq_def DISK_STATUS_RBUSY_def DISK_STATUS_WBUSY_def DISK_STATUS_RIRQ_def
      DISK_STATUS_WIRQ_def DISK_STATUS_ERRORS_def bit.conj_disj_distrib2 split: option.split disk_error.split)

lemma y_transfer:
  assumes "y_job h = None" "c = DISK_COMMAND_READ \<or> c = DISK_COMMAND_WRITE" "s < nb"
  shows "y_command nb c (h\<lparr>y_tsector := s, y_dmaaddr := a\<rparr>) =
    h\<lparr>y_tsector := s, y_dmaaddr := a, y_error := No_error, y_job := Some (c = DISK_COMMAND_WRITE, s, a)\<rparr>"
  using assms by (auto simp: y_command_def y_start_def disk_codes)

interpretation yams: disk_hardware "yams_io nb" y_run y_view y_irq y_sectors nb for nb
proof
  fix h h' :: yams_disk and c s a :: u32 and bs :: "byte list"
  show "DISK_STATUS_RBUSY (io_status (yams_io nb) h) \<or> DISK_STATUS_WBUSY (io_status (yams_io nb) h) \<longleftrightarrow> y_view h \<noteq> None"
    "DISK_STATUS_RIRQ (io_status (yams_io nb) h) \<or> DISK_STATUS_WIRQ (io_status (yams_io nb) h) \<longleftrightarrow> y_irq h"
    using y_status_bits [of h] by (simp_all add: yams_io_def y_view_def)
  show "\<not> DISK_STATUS_ERRORS (io_status (yams_io nb) h') \<and> y_view h' = Some (c, s, a) \<and> y_irq h' = y_irq h \<and>
      y_sectors h' = y_sectors h \<and> (\<forall>b. mem_block (yams_io nb) b h' = mem_block (yams_io nb) b h)"
    if "y_view h = None" "c = DISK_COMMAND_READ \<or> c = DISK_COMMAND_WRITE" "s < nb"
      "h' = io_command (yams_io nb) c (io_dmaaddr (yams_io nb) a (io_tsector (yams_io nb) s h))"
    using that y_transfer [of h c s nb a] y_status_bits(3) [of h']
    by (auto simp: yams_io_def y_view_def y_irq_def y_sectors_def fun_eq_iff y_mem_block_def disk_codes)
  show "\<not> y_irq h' \<and> y_view h' = y_view h \<and> y_sectors h' = y_sectors h \<and>
      (\<forall>b. mem_block (yams_io nb) b h' = mem_block (yams_io nb) b h)"
    if "h' = io_command (yams_io nb) DISK_COMMAND_RIRQ (io_command (yams_io nb) DISK_COMMAND_WIRQ h)"
    using that
    by (simp add: yams_io_def y_command_def y_view_def y_irq_def y_sectors_def fun_eq_iff y_mem_block_def disk_codes)
  show "y_view (y_run h) = None \<and> y_irq (y_run h) \<and> y_sectors (y_run h) = y_sectors h \<and>
      mem_block (yams_io nb) a (y_run h) = y_sectors h s" if "y_view h = Some (DISK_COMMAND_READ, s, a)"
  proof -
    have "y_job h = Some (False, s, a)" using that by (auto simp: y_view_def disk_codes split: if_splits)
    then show ?thesis
      by (simp add: y_run_def y_view_def y_irq_def yams_io_def y_mem_put)
  qed
  show "y_view (y_run h) = None \<and> y_irq (y_run h) \<and>
      y_sectors (y_run h) = (y_sectors h)(s := mem_block (yams_io nb) a h)" if "y_view h = Some (DISK_COMMAND_WRITE, s, a)"
  proof -
    have "y_job h = Some (True, s, a)" using that by (auto simp: y_view_def disk_codes split: if_splits)
    then show ?thesis
      by (simp add: y_run_def y_view_def y_irq_def y_sectors_def fun_eq_iff yams_io_def)
  qed
  show "y_run h = h" if "y_view h = None" using that by (simp add: y_view_def y_run_def)
  show "io_data (yams_io nb) h' = 512 \<and> y_view h' = y_view h \<and> y_irq h' = y_irq h \<and> y_sectors h' = y_sectors h"
    if "h' = io_command (yams_io nb) DISK_COMMAND_BLOCKSIZE h"
    using that by (simp add: yams_io_def y_command_def y_view_def y_irq_def y_sectors_def fun_eq_iff disk_codes)
  show "io_data (yams_io nb) h' = nb \<and> y_view h' = y_view h \<and> y_irq h' = y_irq h \<and> y_sectors h' = y_sectors h"
    if "h' = io_command (yams_io nb) DISK_COMMAND_BLOCKS h"
    using that by (simp add: yams_io_def y_command_def y_view_def y_irq_def y_sectors_def fun_eq_iff disk_codes)
  show "mem_block (yams_io nb) a (put_block (yams_io nb) a bs h) = bs \<and> y_view (put_block (yams_io nb) a bs h) = y_view h \<and>
      y_irq (put_block (yams_io nb) a bs h) = y_irq h \<and> y_sectors (put_block (yams_io nb) a bs h) = y_sectors h"
    if "length bs = 512"
    using that y_mem_put [of bs a h] by (simp add: yams_io_def y_view_def y_irq_def y_sectors_def y_put_block_def fun_eq_iff)
qed

interpretation yams_gbd: disk_client "yams_io nb" y_run y_view y_irq y_sectors nb 1 1 buf for nb buf
  by unfold_locales simp_all

section \<open>Histories of the driver\<close>

text \<open>
  What may happen to the driver: a thread submits a request without waiting, the device comes to the
  end of a transfer, and the processor takes an interrupt (for this device or for another one on
  the same line). The specification is a queue of requests, each with its semaphore, a flag for an
  interrupt that has not been taken, and the requests answered so far.
\<close>

datatype disk_event = Submit (ev_op: int) (ev_req: u32) (ev_block: u32) (ev_buf: u32) (ev_sem: u32)
  | Finish | Interrupt

fun disk_do :: "'h disk_io_area_t \<Rightarrow> ('h \<Rightarrow> 'h) \<Rightarrow> disk_event \<Rightarrow> 'h disk_real_device_t \<Rightarrow> 'h disk_real_device_t kresult" where
  "disk_do H run (Submit opn r b a s) D =
     rbind (disk_submit_request H run 0 0 r
       (set_request r \<lparr>req_block = b, req_buf = a, req_sem = s, operation = opn, req_next = 0, return_value = 0\<rparr> D))
       (\<lambda>(_, D). Inr D)"
| "disk_do H run Finish D = Inr (D\<lparr>hw := run (hw D)\<rparr>)"
| "disk_do H run Interrupt D = disk_interrupt_handle H D"

fun disk_run :: "'h disk_io_area_t \<Rightarrow> ('h \<Rightarrow> 'h) \<Rightarrow> disk_event list \<Rightarrow> 'h disk_real_device_t \<Rightarrow> 'h disk_real_device_t kresult" where
  "disk_run H run [] D = Inr D"
| "disk_run H run (e # es) D = rbind (disk_do H run e D) (disk_run H run es)"

type_synonym fifo = "(u32 \<times> u32) list \<times> bool \<times> (u32 \<times> u32) list"

fun fifo_do :: "disk_event \<Rightarrow> fifo \<Rightarrow> fifo" where
  "fifo_do (Submit opn r b a s) (w, p, d) = (w @ [(r, s)], p, d)"
| "fifo_do Finish (w, p, d) = (w, w \<noteq> [], d)"
| "fifo_do Interrupt (w, p, d) = (if p \<and> w \<noteq> [] then (tl w, False, d @ [hd w]) else (w, p, d))"

fun submits :: "disk_event list \<Rightarrow> (u32 \<times> u32) list" where
  "submits [] = []"
| "submits (Submit opn r b a s # es) = (r, s) # submits es"
| "submits (_ # es) = submits es"

fun event_ok :: "u32 \<Rightarrow> disk_event \<Rightarrow> bool" where
  "event_ok nb (Submit opn r b a s) \<longleftrightarrow>
     (opn = GBD_OPERATION_READ \<or> opn = GBD_OPERATION_WRITE) \<and> r \<noteq> 0 \<and> b < nb \<and> s \<noteq> 0"
| "event_ok nb _ \<longleftrightarrow> True"

definition answers :: "(u32 \<times> u32) list \<Rightarrow> u32 \<Rightarrow> int" where
  "answers d s = int (length (filter (\<lambda>x. snd x = s) d))"

definition disk_sim ::
  "('h \<Rightarrow> (u32 \<times> u32 \<times> u32) option) \<Rightarrow> ('h \<Rightarrow> bool) \<Rightarrow> u32 \<Rightarrow> (u32 \<Rightarrow> int) \<Rightarrow> 'h disk_real_device_t \<Rightarrow> fifo \<Rightarrow> bool" where
  "disk_sim job irq nb S D = (\<lambda>(w, p, d).
     disk_ok job irq nb D (map fst w) \<and> irq (hw D) = p \<and>
     (\<forall>x \<in> set w. req_sem (requests D (fst x)) = snd x \<and> return_value (requests D (fst x)) = -1) \<and>
     (\<forall>x \<in> set d. return_value (requests D (fst x)) = 0) \<and>
     (\<forall>s. sem_value D s = S s + answers d s))"

context disk_hardware begin

lemma sim_submit:
  assumes sim: "disk_sim job irq nblocks S D (w, p, d)"
    and e: "event_ok nblocks (Submit opn r b a s)" "r \<notin> fst ` set (w @ d)"
  shows "\<exists>D'. disk_do H run (Submit opn r b a s) D = Inr D' \<and> disk_sim job irq nblocks S D' (w @ [(r, s)], p, d)"
proof -
  let ?v = "\<lparr>req_block = b, req_buf = a, req_sem = s, operation = opn, req_next = 0, return_value = 0\<rparr>"
  let ?D = "set_request r ?v D"
  have r: "r \<notin> set (map fst w)" using e(2) by auto
  have "queued (requests ?D) (request_queue D) q = queued (requests D) (request_queue D) q" if "r \<notin> set q" for q
    using that by (simp add: set_request_def)
  then have ok: "ok ?D (map fst w)"
    using sim r by (cases w) (auto simp: disk_sim_def disk_ok_def set_request_def)
  have pre: "r \<noteq> 0" "good_request nblocks (requests ?D r)" "req_sem (requests ?D r) \<noteq> 0 \<or> (0 :: u32) \<noteq> 0"
    using e(1) by (simp_all add: set_request_def good_request_def)
  obtain D' where D': "disk_submit_start H 0 r ?D = Inr (Some (req_sem (requests ?D r) = 0), D')"
    "ok D' (map fst w @ [r])" "sem_value D' = fresh_sem 0 (requests ?D r) (sem_value ?D)"
    "rethreaded ((requests ?D)(r := prepared 0 (requests ?D r))) (requests D')" "irq (hw D') = irq (hw ?D)"
    by (rule submit_queued [OF ok r pre]) blast
  note f = rethreaded_fields(4,5) [OF D'(4)]
  have "disk_do H run (Submit opn r b a s) D = Inr D'"
    using D'(1) e(1) by (simp add: disk_submit_request_def set_request_def)
  moreover have "disk_sim job irq nblocks S D' (w @ [(r, s)], p, d)"
    using sim e D'(2,3,5) f by (auto simp: disk_sim_def set_request_def fresh_sem_def image_iff)
  ultimately show ?thesis by blast
qed

lemma sim_interrupt:
  assumes sim: "disk_sim job irq nblocks S D (w, p, d)" and disj: "fst ` set w \<inter> fst ` set d = {}"
  shows "\<exists>D'. disk_do H run Interrupt D = Inr D' \<and> disk_sim job irq nblocks S D' (fifo_do Interrupt (w, p, d))"
proof (cases "p \<and> w \<noteq> []")
  case False
  with sim have "\<not> irq (hw D)" by (cases w) (auto simp: disk_sim_def disk_ok_def)
  with sim False interrupt_ignored [of D] show ?thesis by auto
next
  case True
  then obtain r s w' where w: "w = (r, s) # w'" by (cases w) auto
  with sim True have ok: "ok D (r # map fst w')" and irq: "irq (hw D)" and s: "req_sem (requests D r) = s"
    by (simp_all add: disk_sim_def)
  obtain D' where D': "disk_interrupt_handle H D = Inr D'" "ok D' (map fst w')"
    "sem_value D' = (sem_value D)(s := sem_value D s + 1)"
    "rethreaded ((requests D)(r := (requests D r)\<lparr>return_value := 0\<rparr>)) (requests D')" "\<not> irq (hw D')"
    by (rule interrupt_answers [OF ok irq, unfolded s]) blast
  note f = rethreaded_fields(4,5) [OF D'(4)]
  have "r \<notin> fst ` set w'" using ok by (auto simp: disk_ok_def)
  moreover have "answers (d @ [(r, s)]) t = answers d t + (if t = s then 1 else 0)" for t
    by (simp add: answers_def)
  ultimately have "disk_sim job irq nblocks S D' (w', False, d @ [(r, s)])"
    using sim w D'(2,3,5) f disj by (auto simp: disk_sim_def image_iff)
  with D'(1) True w show ?thesis by simp
qed

end

text \<open>The queue of the specification keeps what was submitted, in its order.\<close>

lemma fifo_submits:
  "fifo_do e (w, p, d) = (w', p', d') \<Longrightarrow> d' @ w' = d @ w @ submits [e]"
  by (cases e) (auto split: if_splits)

lemma submits_append: "submits (es @ es') = submits es @ submits es'"
  by (induction es rule: submits.induct) auto

lemma disk_run_append: "disk_run H run (es @ es') D = rbind (disk_run H run es D) (disk_run H run es')"
  by (induction es arbitrary: D) (auto simp: rbind_def split: sum.split)

definition fifo_run :: "disk_event list \<Rightarrow> fifo" where
  "fifo_run es = fold fifo_do es ([], False, [])"

lemma fifo_run_snoc: "fifo_run (es @ [e]) = fifo_do e (fifo_run es)"
  by (simp add: fifo_run_def)

lemma fifo_run_submits: "fifo_run es = (w, p, d) \<Longrightarrow> d @ w = submits es"
proof (induction es arbitrary: w p d rule: rev_induct)
  case Nil
  then show ?case by (simp add: fifo_run_def)
next
  case (snoc e es)
  obtain w0 p0 d0 where st: "fifo_run es = (w0, p0, d0)" by (cases "fifo_run es") auto
  with snoc.prems have "d @ w = d0 @ w0 @ submits [e]"
    using fifo_submits by (simp add: fifo_run_snoc)
  with snoc.IH [OF st] show ?case by (simp add: submits_append)
qed

lemma fifo_run_pending: "fifo_run es = ([], p, d) \<Longrightarrow> \<not> p"
proof (induction es arbitrary: p d rule: rev_induct)
  case (snoc e es)
  obtain w0 p0 d0 where "fifo_run es = (w0, p0, d0)" by (cases "fifo_run es") auto
  with snoc show ?case by (cases e) (auto simp: fifo_run_snoc split: if_splits)
qed (simp add: fifo_run_def)

lemma fifo_drain:
  "fold fifo_do (concat (replicate n [Finish, Interrupt])) (w, p, d) = ([], False, d @ w)"
  if "length w \<le> n" "n > 0 \<or> \<not> p" for n
  using that
proof (induction n arbitrary: w p d)
  case (Suc n)
  then show ?case by (cases w) auto
qed auto

context disk_hardware begin

lemma sim_step:
  assumes sim: "disk_sim job irq nblocks S D (w, p, d)" and e: "event_ok nblocks e"
    and dist: "distinct (map fst (d @ w @ submits [e]))"
  shows "\<exists>D'. disk_do H run e D = Inr D' \<and> disk_sim job irq nblocks S D' (fifo_do e (w, p, d))"
proof (cases e)
  case (Submit opn r b a s)
  with dist have "r \<notin> fst ` set (w @ d)" by auto
  with sim_submit [OF sim] e Submit show ?thesis by simp
next
  case Finish
  show ?thesis
  proof (cases w)
    case Nil
    with sim Finish run_idle show ?thesis by (auto simp: disk_sim_def disk_ok_Nil)
  next
    case (Cons x w')
    with sim have "ok D (fst x # map fst w')" by (simp add: disk_sim_def)
    from request_finished [OF this] sim Cons Finish show ?thesis by (auto simp: disk_sim_def)
  qed
next
  case Interrupt
  from dist have "fst ` set w \<inter> fst ` set d = {}" by auto
  from sim_interrupt [OF sim this] Interrupt show ?thesis by simp
qed

lemma run_refines:
  assumes ok: "ok D []" and ev: "\<forall>e \<in> set es. event_ok nblocks e" "distinct (map fst (submits es))"
  shows "\<exists>D'. disk_run H run es D = Inr D' \<and> disk_sim job irq nblocks (sem_value D) D' (fifo_run es)"
  using ev
proof (induction es rule: rev_induct)
  case Nil
  then show ?case using ok by (simp add: fifo_run_def disk_sim_def disk_ok_Nil answers_def)
next
  case (snoc e es)
  obtain w p d where st: "fifo_run es = (w, p, d)" by (cases "fifo_run es") auto
  from snoc obtain D1 where D1: "disk_run H run es D = Inr D1" "disk_sim job irq nblocks (sem_value D) D1 (w, p, d)"
    by (auto simp: submits_append st)
  have "distinct (map fst (d @ w @ submits [e]))"
    using snoc.prems(2) fifo_run_submits [OF st] by (metis append.assoc map_append submits_append)
  from sim_step [OF D1(2) _ this] snoc.prems(1) obtain D2 where "disk_do H run e D1 = Inr D2" "disk_sim job irq nblocks (sem_value D) D2 (fifo_do e (w, p, d))"
    by auto
  with D1(1) st show ?case by (simp add: disk_run_append fifo_run_snoc)
qed

end

section \<open>Properties\<close>

text \<open>
  Property C4. The disk driver refines a first-come first-served queue. Whatever the order in which
  threads submit requests (each at an address of its own), the device finishes transfers and
  interrupts arrive, no assertion of the driver fails and no call hangs; the requests that have
  been answered followed by those that wait are the requests submitted, in their order; exactly the
  answered ones have return value 0; and every semaphore has been raised once for each answered
  request that names it.
\<close>

theorem disk_fifo:
  assumes "disk_hardware H run job irq sector nb" "disk_ok job irq nb D []"
    and "\<forall>e \<in> set es. event_ok nb e" "distinct (map fst (submits es))"
  shows "\<exists>D' w p d. disk_run H run es D = Inr D' \<and> fifo_run es = (w, p, d) \<and> d @ w = submits es \<and>
    disk_ok job irq nb D' (map fst w) \<and>
    (\<forall>x \<in> set (submits es). return_value (requests D' (fst x)) = (if x \<in> set d then 0 else -1)) \<and>
    (\<forall>s. sem_value D' s = sem_value D s + answers d s)"
proof -
  obtain w p d where st: "fifo_run es = (w, p, d)" by (cases "fifo_run es") auto
  obtain D' where D': "disk_run H run es D = Inr D'" "disk_sim job irq nb (sem_value D) D' (w, p, d)"
    using disk_hardware.run_refines [OF assms] st by auto
  have dw: "d @ w = submits es" by (rule fifo_run_submits [OF st])
  have "return_value (requests D' (fst x)) = (if x \<in> set d then 0 else -1)" if "x \<in> set (submits es)" for x
    using that D'(2) unfolding dw [symmetric] by (auto simp: disk_sim_def)
  with D' st dw show ?thesis by (auto simp: disk_sim_def)
qed

text \<open>A device with every register at rest, behind a driver without requests.\<close>

definition y_idle :: yams_disk where
  "y_idle = \<lparr>y_sector = (\<lambda>s. replicate 512 (ucast s)), y_mem = (\<lambda>_. 0), y_job = None, y_rirq = False,
     y_wirq = False, y_error = No_error, y_data = 0, y_tsector = 0, y_dmaaddr = 0\<rparr>"

definition yams_driver :: "yams_disk disk_real_device_t" where
  "yams_driver = \<lparr>hw = y_idle,
     requests = (\<lambda>_. \<lparr>req_block = 0, req_buf = 0, req_sem = 0, operation = 0, req_next = 0, return_value = 0\<rparr>),
     sem_value = (\<lambda>_. 0), request_queue = 0, request_served = 0\<rparr>"

lemma yams_driver_ok:
  "disk_ok y_view y_irq nb yams_driver []" "disk_ready y_view y_irq y_sectors nb yams_driver"
  by (simp_all add: disk_ready_def disk_ok_Nil yams_driver_def y_idle_def y_view_def y_irq_def)

definition two_requests :: "disk_event list" where
  "two_requests = [Submit GBD_OPERATION_READ 256 0 8192 5, Submit GBD_OPERATION_WRITE 512 1 8192 5, Finish, Interrupt]"

theorem disk_fifo_witness:
  "\<exists>D. disk_run (yams_io 4) y_run two_requests yams_driver = Inr D \<and>
     fifo_run two_requests = ([(512, 5)], False, [(256, 5)]) \<and>
     return_value (requests D 256) = 0 \<and> return_value (requests D 512) = -1 \<and> sem_value D 5 = 1"
proof -
  have ev: "\<forall>e \<in> set two_requests. event_ok 4 e" "distinct (map fst (submits two_requests))"
    by (simp_all add: two_requests_def disk_codes)
  have "fifo_run two_requests = ([(512, 5)], False, [(256, 5)])" "submits two_requests = [(256, 5), (512, 5)]"
    by (simp_all add: two_requests_def fifo_run_def)
  with disk_fifo [OF yams.disk_hardware_axioms yams_driver_ok(1) ev] show ?thesis
    by (auto simp: answers_def yams_driver_def)
qed

text \<open>
  Property C31. No request waits for ever: after any history, as many finished transfers and
  interrupts as there are unanswered requests, at most the number of requests ever made, are enough for every
  request to have been answered, and the driver and the device are idle again.
\<close>

theorem disk_drained:
  assumes "disk_hardware H run job irq sector nb" "disk_ok job irq nb D []"
    and "\<forall>e \<in> set es. event_ok nb e" "distinct (map fst (submits es))"
    and "n \<ge> length (fst (fifo_run es))"
  shows "length (fst (fifo_run es)) \<le> length (submits es) \<and>
    (\<exists>D'. disk_run H run (es @ concat (replicate n [Finish, Interrupt])) D = Inr D' \<and>
      disk_ok job irq nb D' [] \<and> (\<forall>x \<in> set (submits es). return_value (requests D' (fst x)) = 0) \<and>
      (\<forall>s. sem_value D' s = sem_value D s + answers (submits es) s))"
proof -
  let ?es = "es @ concat (replicate n [Finish, Interrupt])"
  obtain w p d where st: "fifo_run es = (w, p, d)" by (cases "fifo_run es") auto
  have dw: "d @ w = submits es" by (rule fifo_run_submits [OF st])
  have "length w \<le> n" "n > 0 \<or> \<not> p" using assms(5) st fifo_run_pending [of es p d] by (cases w; simp)+
  then have "fifo_run ?es = ([], False, d @ w)"
    using fifo_drain [of w n p d] st by (simp add: fifo_run_def)
  moreover have "submits (concat (replicate m [Finish, Interrupt])) = []" for m by (induction m) auto
  then have "submits ?es = submits es" by (simp only: submits_append append_Nil2)
  moreover have "\<forall>e \<in> set ?es. event_ok nb e" using assms(3) by auto
  moreover have "length (fst (fifo_run es)) \<le> length (submits es)" using st by (simp flip: dw)
  ultimately show ?thesis
    using disk_hardware.run_refines [OF assms(1,2), of ?es] assms(4) dw
    by (auto simp: disk_sim_def)
qed

theorem disk_drained_witness:
  "\<exists>D. disk_run (yams_io 4) y_run (two_requests @ [Finish, Interrupt]) yams_driver = Inr D \<and>
     disk_ok y_view y_irq 4 D [] \<and> return_value (requests D 512) = 0 \<and> sem_value D 5 = 2"
proof -
  have ev: "\<forall>e \<in> set two_requests. event_ok 4 e" "distinct (map fst (submits two_requests))"
    "1 \<ge> length (fst (fifo_run two_requests))"
    by (simp_all add: two_requests_def disk_codes fifo_run_def)
  have s: "submits two_requests = [(256, 5), (512, 5)]" by (simp add: two_requests_def)
  have "sem_value yams_driver 5 = 0" "answers [(256, 5), (512, 5)] 5 = 2"
    by (simp_all add: answers_def yams_driver_def)
  with disk_drained [OF yams.disk_hardware_axioms yams_driver_ok(1) ev] show ?thesis
    unfolding s by (auto simp: numeral_eq_Suc)
qed

text \<open>
  Property C32. On an idle driver a blocking write followed by a blocking read, as a filesystem
  makes them, both return 1; the read finds the written bytes in the block that was written and the
  old contents in every other block, and leaves the driver idle.
\<close>

theorem disk_write_read:
  assumes "disk_client H run job irq sector nb newsem r" "disk_ready job irq sector nb D"
    and "b < nb" "c < nb" "length bs = 512"
  shows "\<exists>D1 D2. write_block (disk_gbd H run newsem r buf) b bs D = Inr (1, D1) \<and>
    read_block (disk_gbd H run newsem r buf) c D1 = Inr (1, if c = b then bs else sector (hw D) c, D2) \<and>
    disk_ready job irq sector nb D2"
proof -
  note client = assms(1)
  obtain D1 where D1: "write_block (disk_gbd H run newsem r buf) b bs D = Inr (1, D1)"
    "disk_ready job irq sector nb D1" "sector (hw D1) = (sector (hw D))(b := bs)"
    by (rule disk_client.client_write [OF client assms(2,3,5)])
  obtain D2 where "read_block (disk_gbd H run newsem r buf) c D1 = Inr (1, sector (hw D1) c, D2)"
    "disk_ready job irq sector nb D2"
    by (rule disk_client.client_read [OF client D1(2) assms(4)])
  with D1 show ?thesis by auto
qed

theorem disk_write_read_witness:
  "\<exists>D1 D2. write_block (disk_gbd (yams_io 4) y_run 1 1 8192) 2 (replicate 512 7) yams_driver = Inr (1, D1) \<and>
    read_block (disk_gbd (yams_io 4) y_run 1 1 8192) 2 D1 = Inr (1, replicate 512 7, D2)"
proof -
  define bs :: "byte list" where "bs = replicate 512 7"
  have "(2 :: u32) < 4" "length bs = 512" by (simp_all add: bs_def)
  from disk_write_read [OF yams_gbd.disk_client_axioms yams_driver_ok(2) this(1,1,2), of 8192] show ?thesis
    unfolding bs_def [symmetric] if_P [OF refl] by blast
qed

end
