(* ===== verification/Tfs.thy ===== *)
theory Tfs
  imports Blocks Disk Pagepool Vfs
begin

text \<open>
  The trivial filesystem of \<open>fs/tfs.c\<close> on the block devices of \<open>drivers/gbd.h\<close>: every operation of
  the driver, each as the code has it. A call runs alone: its lock is a value, and \<open>semaphore_P\<close> on a
  lock that is not free is \<open>Hang\<close>. The device is a parameter (\<open>gbd_t\<close>); the buffers of \<open>tfs_t\<close> hold
  what the device transferred, read through the structures the code overlays on them.
\<close>

section \<open>Constants and structures\<close>

definition TFS_BLOCK_SIZE :: int where "TFS_BLOCK_SIZE = 512"
definition TFS_MAGIC :: u32 where "TFS_MAGIC = 3745"
definition TFS_ALLOCATION_BLOCK :: u32 where "TFS_ALLOCATION_BLOCK = 1"
definition TFS_DIRECTORY_BLOCK :: u32 where "TFS_DIRECTORY_BLOCK = 2"
definition TFS_VOLUMENAME_MAX :: int where "TFS_VOLUMENAME_MAX = 16"
definition TFS_FILENAME_MAX :: int where "TFS_FILENAME_MAX = 16"
definition TFS_MAX_FILES :: int where "TFS_MAX_FILES = TFS_BLOCK_SIZE div 20"

lemmas tfs_sizes = TFS_BLOCK_SIZE_def TFS_VOLUMENAME_MAX_def TFS_FILENAME_MAX_def TFS_MAX_FILES_def
  TFS_ALLOCATION_BLOCK_def TFS_DIRECTORY_BLOCK_def

record tfs_inode_t =
  filesize :: u32
  block :: "u32 list"

record tfs_direntry_t =
  inode :: u32
  name :: cstring

text \<open>
  The structures and the 512 bytes they lie on. A directory block has 25 entries of 20 bytes and 12
  bytes after them, which are read and written back with the block.
\<close>

definition inode_of :: "byte list \<Rightarrow> tfs_inode_t" where
  "inode_of bs = (let ws = block_words bs in \<lparr>filesize = hd ws, block = tl ws\<rparr>)"

definition of_inode :: "tfs_inode_t \<Rightarrow> byte list" where
  "of_inode v = words_block (filesize v # block v)"

definition entry_of :: "byte list \<Rightarrow> tfs_direntry_t" where
  "entry_of bs = \<lparr>inode = bytes_word (take 4 bs), name = take 16 (drop 4 bs)\<rparr>"

definition of_entry :: "tfs_direntry_t \<Rightarrow> byte list" where
  "of_entry e = word_bytes (inode e) @ name e"

definition dir_of :: "byte list \<Rightarrow> tfs_direntry_t list" where
  "dir_of bs = map (\<lambda>i. entry_of (drop (20 * i) bs)) [0..<25]"

definition of_dir :: "tfs_direntry_t list \<Rightarrow> byte list" where
  "of_dir es = concat (map of_entry es)"

record 'd tfs_t =
  totalblocks :: u32
  disk :: 'd
  tlock :: int
  buffer_inode :: tfs_inode_t
  buffer_bat :: "byte list"
  buffer_md :: "tfs_direntry_t list"
  md_rest :: "byte list"

section \<open>Transfers\<close>

text \<open>A request for a block into or out of one of the three buffers, and the result of the call.\<close>

definition read_md :: "'d gbd_t \<Rightarrow> u32 \<Rightarrow> 'd tfs_t \<Rightarrow> (int \<times> 'd tfs_t) kresult" where
  "read_md G b T = rbind (read_block G b (disk T)) (\<lambda>(r, bs, d).
     Inr (r, T\<lparr>disk := d, buffer_md := dir_of bs, md_rest := drop 500 bs\<rparr>))"

definition read_bat :: "'d gbd_t \<Rightarrow> u32 \<Rightarrow> 'd tfs_t \<Rightarrow> (int \<times> 'd tfs_t) kresult" where
  "read_bat G b T = rbind (read_block G b (disk T)) (\<lambda>(r, bs, d). Inr (r, T\<lparr>disk := d, buffer_bat := bs\<rparr>))"

definition read_inode :: "'d gbd_t \<Rightarrow> u32 \<Rightarrow> 'd tfs_t \<Rightarrow> (int \<times> 'd tfs_t) kresult" where
  "read_inode G b T = rbind (read_block G b (disk T)) (\<lambda>(r, bs, d).
     Inr (r, T\<lparr>disk := d, buffer_inode := inode_of bs\<rparr>))"

definition write_md :: "'d gbd_t \<Rightarrow> u32 \<Rightarrow> 'd tfs_t \<Rightarrow> (int \<times> 'd tfs_t) kresult" where
  "write_md G b T = rbind (write_block G b (of_dir (buffer_md T) @ md_rest T) (disk T)) (\<lambda>(r, d).
     Inr (r, T\<lparr>disk := d\<rparr>))"

definition write_bat :: "'d gbd_t \<Rightarrow> u32 \<Rightarrow> 'd tfs_t \<Rightarrow> (int \<times> 'd tfs_t) kresult" where
  "write_bat G b T = rbind (write_block G b (buffer_bat T) (disk T)) (\<lambda>(r, d). Inr (r, T\<lparr>disk := d\<rparr>))"

definition write_inode :: "'d gbd_t \<Rightarrow> u32 \<Rightarrow> 'd tfs_t \<Rightarrow> (int \<times> 'd tfs_t) kresult" where
  "write_inode G b T = rbind (write_block G b (of_inode (buffer_inode T)) (disk T)) (\<lambda>(r, d). Inr (r, T\<lparr>disk := d\<rparr>))"

text \<open>The lock around every operation: taken first, released where the code returns.\<close>

definition P_lock :: "'d tfs_t \<Rightarrow> 'd tfs_t kresult" where
  "P_lock T = rbind (sem_down (tlock T)) (\<lambda>n. Inr (T\<lparr>tlock := n\<rparr>))"

definition V_lock :: "'d tfs_t \<Rightarrow> 'd tfs_t" where
  "V_lock T = T\<lparr>tlock := tlock T + 1\<rparr>"

definition tret :: "int \<Rightarrow> 'd tfs_t \<Rightarrow> (int \<times> 'd tfs_t) kresult" where
  "tret r T = Inr (r, V_lock T)"

text \<open>Going on after a transfer, or \<open>VFS_ERROR\<close> when the device returned 0.\<close>

definition transfer_then :: "(int \<times> 'd tfs_t) kresult \<Rightarrow> ('d tfs_t \<Rightarrow> (int \<times> 'd tfs_t) kresult) \<Rightarrow> (int \<times> 'd tfs_t) kresult" where
  "transfer_then m f = rbind m (\<lambda>(r, T). if r = 0 then tret VFS_ERROR T else f T)"

section \<open>Mounting and unmounting\<close>

text \<open>
  The kernel's resources that mounting takes: the page pool and the semaphores that are left.
  \<open>page\<close> is the page as it is after the header block has been read into it, where the buffers lie
  behind \<open>fs_t\<close> (52 bytes) and \<open>tfs_t\<close> (24 bytes). The result is the address of the filesystem, the
  volume name and the driver's state, or \<open>None\<close>.
\<close>

record kernel_res =
  pool :: pagepool
  free_sems :: nat

definition tfs_init ::
  "'d gbd_t \<Rightarrow> (u32 \<Rightarrow> byte list) \<Rightarrow> kernel_res \<Rightarrow> 'd \<Rightarrow> ((u32 \<times> cstring \<times> 'd tfs_t) option \<times> kernel_res \<times> 'd) kresult" where
  "tfs_init G page K d =
     (case block_size G d of (bsize, d) \<Rightarrow>
      if bsize \<noteq> word_of_int TFS_BLOCK_SIZE then Inr (None, K, d)
      else if free_sems K = 0 then Inr (None, K, d)
      else
        let K1 = K\<lparr>free_sems := free_sems K - 1\<rparr>;
            release = (\<lambda>addr p d. rbind (pagepool_free_phys_page addr p) (\<lambda>p.
              Inr (None, K\<lparr>pool := p\<rparr>, d))) in
        rbind (pagepool_get_phys_page (pool K1)) (\<lambda>(addr, p).
        if addr = 0 then Inr (None, K\<lparr>pool := p\<rparr>, d)
        else
          rbind (read_block G 0 d) (\<lambda>(r, bs, d).
          if r = 0 then release addr p d
          else if bytes_word (take 4 bs) \<noteq> TFS_MAGIC then release addr p d
          else
            rbind (stringcopy (replicate 16 0) (drop 4 bs) TFS_VOLUMENAME_MAX) (\<lambda>nm.
            case total_blocks G d of (nb, d) \<Rightarrow>
              let mem = page addr;
                  T = \<lparr>totalblocks = word_of_int (min (uint nb) (8 * TFS_BLOCK_SIZE)), disk = d, tlock = 1,
                       buffer_inode = inode_of (slice 76 512 mem),
                       buffer_bat = slice 588 512 mem,
                       buffer_md = dir_of (slice 1100 512 mem), md_rest = slice 1600 12 mem\<rparr> in
              rbind (stringcopy (slice 4 16 mem) nm VFS_NAME_LENGTH) (\<lambda>vname.
              Inr (Some (addr OR 0x80000000, vname, T), K1\<lparr>pool := p\<rparr>, d))))))"

definition tfs_unmount :: "u32 \<Rightarrow> 'd tfs_t \<Rightarrow> kernel_res \<Rightarrow> (int \<times> kernel_res) kresult" where
  "tfs_unmount fs T K =
     rbind (P_lock T) (\<lambda>_.
     rbind (pagepool_free_phys_page (fs AND 0x7fffffff) (pool K)) (\<lambda>p.
     Inr (VFS_OK, K\<lparr>pool := p, free_sems := free_sems K + 1\<rparr>)))"

section \<open>Opening, closing\<close>

definition name_is :: "cstring \<Rightarrow> tfs_direntry_t \<Rightarrow> bool kresult" where
  "name_is filename e = rbind (stringcmp (name e) filename) (\<lambda>c. Inr (c = 0))"

definition tfs_open :: "'d gbd_t \<Rightarrow> cstring \<Rightarrow> 'd tfs_t \<Rightarrow> (int \<times> 'd tfs_t) kresult" where
  "tfs_open G filename T =
     rbind (P_lock T) (\<lambda>T.
     transfer_then (read_md G TFS_DIRECTORY_BLOCK T) (\<lambda>T.
     rbind (scanM (name_is filename) (buffer_md T) 0 TFS_MAX_FILES) (\<lambda>i.
     case i of
       Some i \<Rightarrow> rbind (rd (buffer_md T) i) (\<lambda>e. tret (sint (inode e)) T)
     | None \<Rightarrow> tret VFS_NOT_FOUND T)))"

definition tfs_close :: "int \<Rightarrow> 'd tfs_t \<Rightarrow> (int \<times> 'd tfs_t) kresult" where
  "tfs_close fid T = Inr (VFS_OK, T)"

section \<open>Creating\<close>

text \<open>
  The loop over the directory: \<open>None\<close> when an entry has the name, else the last free entry, or -1.
\<close>

function find_slot :: "cstring \<Rightarrow> tfs_direntry_t list \<Rightarrow> int \<Rightarrow> int \<Rightarrow> int option kresult" where
  "find_slot filename md i index =
     (if i < TFS_MAX_FILES then
        rbind (rd md i) (\<lambda>e.
        rbind (name_is filename e) (\<lambda>same.
        if same then Inr None
        else find_slot filename md (i + 1) (if inode e = 0 then i else index)))
      else Inr (Some index))"
  by pat_completeness auto
termination
  by (relation "measure (\<lambda>(f, md, i, x). nat (TFS_MAX_FILES - i))") auto

text \<open>\<open>bitmap_findnset\<close> on the allocation buffer.\<close>

definition bat_findnset :: "'d tfs_t \<Rightarrow> (int \<times> 'd tfs_t) kresult" where
  "bat_findnset T =
     rbind (bitmap_findnset (block_words (buffer_bat T)) (sint (totalblocks T))) (\<lambda>(k, bm).
     Inr (k, T\<lparr>buffer_bat := words_block bm\<rparr>))"

text \<open>
  The loop that allocates the blocks of the file; the result is \<open>False\<close> where the code returns
  because the disk is full.
\<close>

function alloc_blocks :: "int \<Rightarrow> int \<Rightarrow> 'd tfs_t \<Rightarrow> (bool \<times> 'd tfs_t) kresult" where
  "alloc_blocks i numblocks T =
     (if i < numblocks then
        rbind (bat_findnset T) (\<lambda>(k, T).
        rbind (wr (block (buffer_inode T)) i (word_of_int k)) (\<lambda>bl.
        let T = T\<lparr>buffer_inode := (buffer_inode T)\<lparr>block := bl\<rparr>\<rparr> in
        if k = -1 then Inr (False, T) else alloc_blocks (i + 1) numblocks T))
      else Inr (True, T))"
  by pat_completeness auto
termination
  by (relation "measure (\<lambda>(i, n, T). nat (n - i))") auto

function clear_blocks :: "int \<Rightarrow> u32 list \<Rightarrow> u32 list kresult" where
  "clear_blocks i bl =
     (if i < TFS_BLOCK_SIZE div 4 - 1 then rbind (wr bl i 0) (clear_blocks (i + 1)) else Inr bl)"
  by pat_completeness auto
termination
  by (relation "measure (\<lambda>(i, bl). nat (TFS_BLOCK_SIZE div 4 - 1 - i))") auto

function zero_blocks :: "'d gbd_t \<Rightarrow> int \<Rightarrow> int \<Rightarrow> 'd tfs_t \<Rightarrow> (int \<times> 'd tfs_t) kresult" where
  "zero_blocks G i numblocks T =
     (if i < numblocks then
        rbind (rd (block (buffer_inode T)) i) (\<lambda>b.
        transfer_then (write_bat G b T) (zero_blocks G (i + 1) numblocks))
      else tret VFS_OK T)"
  by pat_completeness auto
termination
  by (relation "measure (\<lambda>(G, i, n, T). nat (n - i))") auto

declare find_slot.simps [simp del] alloc_blocks.simps [simp del] clear_blocks.simps [simp del]
  zero_blocks.simps [simp del]

text \<open>The end of \<open>tfs_create\<close>, from the writing of the allocation block on.\<close>

definition create_write :: "'d gbd_t \<Rightarrow> int \<Rightarrow> int \<Rightarrow> 'd tfs_t \<Rightarrow> (int \<times> 'd tfs_t) kresult" where
  "create_write G index numblocks T =
     transfer_then (write_bat G TFS_ALLOCATION_BLOCK T) (\<lambda>T.
     transfer_then (write_md G TFS_DIRECTORY_BLOCK T) (\<lambda>T.
     rbind (rd (buffer_md T) index) (\<lambda>e.
     transfer_then (write_inode G (inode e) T) (\<lambda>T.
     zero_blocks G 0 numblocks (T\<lparr>buffer_bat := replicate 512 0\<rparr>)))))"

text \<open>The middle, on the buffers: the inode block, the data blocks and the rest of the inode.\<close>

definition create_alloc :: "'d gbd_t \<Rightarrow> int \<Rightarrow> int \<Rightarrow> int \<Rightarrow> 'd tfs_t \<Rightarrow> (int \<times> 'd tfs_t) kresult" where
  "create_alloc G index numblocks sz T =
     rbind (bat_findnset T) (\<lambda>(k, T).
     rbind (rd (buffer_md T) index) (\<lambda>e.
     rbind (wr (buffer_md T) index (e\<lparr>inode := word_of_int k\<rparr>)) (\<lambda>md.
     let T = T\<lparr>buffer_md := md\<rparr> in
     if k = -1 then tret VFS_ERROR T
     else
       rbind (alloc_blocks 0 numblocks (T\<lparr>buffer_inode := (buffer_inode T)\<lparr>filesize := word_of_int sz\<rparr>\<rparr>)) (\<lambda>(ok, T).
       if \<not> ok then tret VFS_ERROR T
       else
         rbind (clear_blocks numblocks (block (buffer_inode T))) (\<lambda>bl.
         create_write G index numblocks (T\<lparr>buffer_inode := (buffer_inode T)\<lparr>block := bl\<rparr>\<rparr>))))))"

definition tfs_create :: "'d gbd_t \<Rightarrow> cstring \<Rightarrow> int \<Rightarrow> 'd tfs_t \<Rightarrow> (int \<times> 'd tfs_t) kresult" where
  "tfs_create G filename sz T =
     (let numblocks = uint (word_of_int (swrap (sz + TFS_BLOCK_SIZE - 1) sdiv TFS_BLOCK_SIZE) :: u32) in
      rbind (P_lock T) (\<lambda>T.
      if numblocks > TFS_BLOCK_SIZE div 4 - 1 then tret VFS_ERROR T
      else
        transfer_then (read_md G TFS_DIRECTORY_BLOCK T) (\<lambda>T.
        rbind (find_slot filename (buffer_md T) 0 (-1)) (\<lambda>slot.
        case slot of
          None \<Rightarrow> tret VFS_ERROR T
        | Some index \<Rightarrow>
            if index = -1 then tret VFS_ERROR T
            else
              rbind (rd (buffer_md T) index) (\<lambda>e.
              rbind (stringcopy (name e) filename TFS_FILENAME_MAX) (\<lambda>nm.
              rbind (wr (buffer_md T) index (e\<lparr>name := nm\<rparr>)) (\<lambda>md.
              transfer_then (read_bat G TFS_ALLOCATION_BLOCK (T\<lparr>buffer_md := md\<rparr>))
                (create_alloc G index numblocks sz))))))))"

section \<open>Removing\<close>

text \<open>
  The loop that frees the blocks of the file. Its condition reads \<open>block[i]\<close> before it compares \<open>i\<close>
  with the length of the array.
\<close>

function free_blocks :: "u32 list \<Rightarrow> int \<Rightarrow> bitmap_t \<Rightarrow> bitmap_t kresult" where
  "free_blocks bl i bm =
     rbind (rd bl i) (\<lambda>b.
       if b \<noteq> 0 \<and> i < TFS_BLOCK_SIZE div 4 - 1 then
         rbind (bitmap_set bm (sint b) 0) (\<lambda>bm. free_blocks bl (i + 1) bm)
       else Inr bm)"
  by pat_completeness auto
termination
  by (relation "measure (\<lambda>(bl, i, bm). nat (TFS_BLOCK_SIZE div 4 - 1 - i))") auto

declare free_blocks.simps [simp del]

definition tfs_remove :: "'d gbd_t \<Rightarrow> cstring \<Rightarrow> 'd tfs_t \<Rightarrow> (int \<times> 'd tfs_t) kresult" where
  "tfs_remove G filename T =
     rbind (P_lock T) (\<lambda>T.
     transfer_then (read_md G TFS_DIRECTORY_BLOCK T) (\<lambda>T.
     rbind (scanM (name_is filename) (buffer_md T) 0 TFS_MAX_FILES) (\<lambda>i.
     case i of
       None \<Rightarrow> tret VFS_NOT_FOUND T
     | Some index \<Rightarrow>
         rbind (rd (buffer_md T) index) (\<lambda>e.
         transfer_then (read_bat G TFS_ALLOCATION_BLOCK T) (\<lambda>T.
         transfer_then (read_inode G (inode e) T) (\<lambda>T.
         rbind (bitmap_set (block_words (buffer_bat T)) (sint (inode e)) 0) (\<lambda>bm.
         rbind (free_blocks (block (buffer_inode T)) 0 bm) (\<lambda>bm.
         rbind (wr (name e) 0 0) (\<lambda>nm.
         rbind (wr (buffer_md T) index (e\<lparr>inode := 0, name := nm\<rparr>)) (\<lambda>md.
         transfer_then (write_bat G TFS_ALLOCATION_BLOCK (T\<lparr>buffer_bat := words_block bm, buffer_md := md\<rparr>)) (\<lambda>T.
         transfer_then (write_md G TFS_DIRECTORY_BLOCK T) (tret VFS_OK))))))))))))"

section \<open>Reading and writing\<close>

text \<open>
  Reading returns, beside the result, the bytes that the call has put into the caller's buffer:
  \<open>got\<close> in the loop. \<open>memcopy\<close> with a length that is not positive copies nothing.
\<close>

definition rret :: "int \<Rightarrow> byte list \<Rightarrow> 'd tfs_t \<Rightarrow> (int \<times> byte list \<times> 'd tfs_t) kresult" where
  "rret r got T = Inr (r, got, V_lock T)"

definition rtransfer_then ::
  "byte list \<Rightarrow> (int \<times> 'd tfs_t) kresult \<Rightarrow> ('d tfs_t \<Rightarrow> (int \<times> byte list \<times> 'd tfs_t) kresult) \<Rightarrow>
   (int \<times> byte list \<times> 'd tfs_t) kresult" where
  "rtransfer_then got m f = rbind m (\<lambda>(r, T). if r = 0 then rret VFS_ERROR got T else f T)"

definition copy_out :: "byte list \<Rightarrow> int \<Rightarrow> int \<Rightarrow> byte list kresult" where
  "copy_out src off n =
     (if n \<le> 0 then Inr [] else if off + n \<le> int (length src) then Inr (slice (nat off) (nat n) src) else Inl Fault)"

definition copy_in :: "byte list \<Rightarrow> int \<Rightarrow> int \<Rightarrow> byte list \<Rightarrow> byte list kresult" where
  "copy_in dst off n src =
     (if n \<le> 0 then Inr dst
      else if off + n \<le> int (length dst) \<and> n \<le> int (length src) then Inr (splice (nat off) (take (nat n) src) dst)
      else Inl Fault)"

function read_loop ::
  "'d gbd_t \<Rightarrow> int \<Rightarrow> int \<Rightarrow> int \<Rightarrow> int \<Rightarrow> byte list \<Rightarrow> 'd tfs_t \<Rightarrow> (int \<times> byte list \<times> 'd tfs_t) kresult" where
  "read_loop G bufsize b1 b2 rdn got T =
     (if b1 \<le> b2 then
        rbind (rd (block (buffer_inode T)) b1) (\<lambda>b.
        rtransfer_then got (read_bat G b T) (\<lambda>T.
        let n = (if b1 = b2 then bufsize - rdn else TFS_BLOCK_SIZE) in
        rbind (copy_out (buffer_bat T) 0 n) (\<lambda>bs.
        read_loop G bufsize (b1 + 1) b2 (rdn + n) (got @ bs) T)))
      else rret rdn got T)"
  by pat_completeness auto
termination
  by (relation "measure (\<lambda>(G, n, b1, b2, r, g, T). nat (b2 + 1 - b1))") auto

definition tfs_read ::
  "'d gbd_t \<Rightarrow> int \<Rightarrow> int \<Rightarrow> int \<Rightarrow> 'd tfs_t \<Rightarrow> (int \<times> byte list \<times> 'd tfs_t) kresult" where
  "tfs_read G fid bufsize offset T =
     rbind (P_lock T) (\<lambda>T.
     if fid < 2 \<or> fid > sint (totalblocks T) then rret VFS_ERROR [] T
     else
       rtransfer_then [] (read_inode G (word_of_int fid) T) (\<lambda>T.
       let len = sint (filesize (buffer_inode T)) in
       if offset < 0 \<or> offset > len then rret VFS_ERROR [] T
       else
         let bufsize = min bufsize (len - offset) in
         if bufsize = 0 then rret 0 [] T
         else
           let b1 = offset sdiv TFS_BLOCK_SIZE;
               b2 = (offset + bufsize - 1) sdiv TFS_BLOCK_SIZE in
           rbind (rd (block (buffer_inode T)) b1) (\<lambda>b.
           rtransfer_then [] (read_bat G b T) (\<lambda>T.
           let rdn = min (TFS_BLOCK_SIZE - offset smod TFS_BLOCK_SIZE) bufsize in
           rbind (copy_out (buffer_bat T) (offset smod TFS_BLOCK_SIZE) rdn) (\<lambda>bs.
           read_loop G bufsize (b1 + 1) b2 rdn bs T)))))"

text \<open>\<open>buffer\<close> is what is left of the caller's data.\<close>

function write_loop ::
  "'d gbd_t \<Rightarrow> int \<Rightarrow> int \<Rightarrow> int \<Rightarrow> int \<Rightarrow> byte list \<Rightarrow> 'd tfs_t \<Rightarrow> (int \<times> 'd tfs_t) kresult" where
  "write_loop G datasize b1 b2 written buffer T =
     (if b1 \<le> b2 then
        rbind (rd (block (buffer_inode T)) b1) (\<lambda>b.
        if b1 = b2 then
          transfer_then (if datasize - written < TFS_BLOCK_SIZE then read_bat G b T else Inr (1, T)) (\<lambda>T.
          rbind (copy_in (buffer_bat T) 0 (datasize - written) buffer) (\<lambda>bat.
          transfer_then (write_bat G b (T\<lparr>buffer_bat := bat\<rparr>)) (\<lambda>T.
          write_loop G datasize (b1 + 1) b2 datasize buffer T)))
        else
          rbind (copy_in (buffer_bat T) 0 TFS_BLOCK_SIZE buffer) (\<lambda>bat.
          transfer_then (write_bat G b (T\<lparr>buffer_bat := bat\<rparr>)) (\<lambda>T.
          write_loop G datasize (b1 + 1) b2 (written + TFS_BLOCK_SIZE) (drop (nat TFS_BLOCK_SIZE) buffer) T)))
      else tret written T)"
  by pat_completeness auto
termination
  by (relation "measure (\<lambda>(G, n, b1, b2, w, g, T). nat (b2 + 1 - b1))") auto

definition tfs_write ::
  "'d gbd_t \<Rightarrow> int \<Rightarrow> byte list \<Rightarrow> int \<Rightarrow> int \<Rightarrow> 'd tfs_t \<Rightarrow> (int \<times> 'd tfs_t) kresult" where
  "tfs_write G fid buffer datasize offset T =
     rbind (P_lock T) (\<lambda>T.
     if fid < 2 \<or> fid > sint (totalblocks T) then tret VFS_ERROR T
     else
       transfer_then (read_inode G (word_of_int fid) T) (\<lambda>T.
       let len = sint (filesize (buffer_inode T)) in
       if offset < 0 \<or> offset > len then tret VFS_ERROR T
       else
         let datasize = min datasize (len - offset) in
         if datasize = 0 then tret 0 T
         else
           let b1 = offset sdiv TFS_BLOCK_SIZE;
               b2 = (offset + datasize - 1) sdiv TFS_BLOCK_SIZE;
               written = min (TFS_BLOCK_SIZE - offset smod TFS_BLOCK_SIZE) datasize in
           rbind (rd (block (buffer_inode T)) b1) (\<lambda>b.
           transfer_then (if written < TFS_BLOCK_SIZE then read_bat G b T else Inr (1, T)) (\<lambda>T.
           rbind (copy_in (buffer_bat T) (offset smod TFS_BLOCK_SIZE) written buffer) (\<lambda>bat.
           transfer_then (write_bat G b (T\<lparr>buffer_bat := bat\<rparr>)) (\<lambda>T.
           write_loop G datasize (b1 + 1) b2 written (drop (nat written) buffer) T))))))"

section \<open>Free space\<close>

function count_allocated :: "bitmap_t \<Rightarrow> int \<Rightarrow> int \<Rightarrow> int \<Rightarrow> int kresult" where
  "count_allocated bm i n allocated =
     (if i < n then rbind (bitmap_get bm i) (\<lambda>v. count_allocated bm (i + 1) n (allocated + v))
      else Inr allocated)"
  by pat_completeness auto
termination
  by (relation "measure (\<lambda>(bm, i, n, a). nat (n - i))") auto

definition tfs_getfree :: "'d gbd_t \<Rightarrow> 'd tfs_t \<Rightarrow> (int \<times> 'd tfs_t) kresult" where
  "tfs_getfree G T =
     rbind (P_lock T) (\<lambda>T.
     transfer_then (read_bat G TFS_ALLOCATION_BLOCK T) (\<lambda>T.
     rbind (count_allocated (block_words (buffer_bat T)) 0 (uint (totalblocks T)) 0) (\<lambda>allocated.
     tret (sint ((totalblocks T - word_of_int allocated) * word_of_int TFS_BLOCK_SIZE)) T)))"

declare read_loop.simps [simp del] write_loop.simps [simp del] count_allocated.simps [simp del]

end
