(* ===== verification/Tfs_volume.thy ===== *)
theory Tfs_volume
  imports Tfs
begin

text \<open>
  What a volume of the trivial filesystem contains: the encodings of its blocks, the invariant of a
  volume that the operations keep, and the files on it.
\<close>

section \<open>Encodings\<close>

lemma inode_of_inode [simp]: "inode_of (of_inode v) = v"
  by (simp add: inode_of_def of_inode_def del: words_block_simps)

lemma of_inode_of: "length bs = 512 \<Longrightarrow> of_inode (inode_of bs) = bs"
proof -
  assume bs: "length bs = 512"
  then have "length (block_words bs) = 128" by simp
  then have "block_words bs = hd (block_words bs) # tl (block_words bs)"
    by (metis hd_Cons_tl length_0_conv zero_neq_numeral)
  then have "of_inode (inode_of bs) = words_block (block_words bs)"
    by (simp add: inode_of_def of_inode_def del: words_block_simps)
  also have "\<dots> = bs" by (rule words_block_words) (simp add: bs)
  finally show ?thesis .
qed

lemma inode_of_length: "length bs = 512 \<Longrightarrow> length (block (inode_of bs)) = 127"
  by (simp add: inode_of_def)

lemma of_inode_length: "length (block v) = 127 \<Longrightarrow> length (of_inode v) = 512"
  by (simp add: of_inode_def del: words_block_simps)

lemma entry_of_entry: "length (name e) = 16 \<Longrightarrow> entry_of (of_entry e @ r) = e"
  using bytes_word_bytes [of "inode e" "[]"] by (simp add: entry_of_def of_entry_def)

lemma of_entry_length: "length (name e) = 16 \<Longrightarrow> length (of_entry e) = 20"
  by (simp add: of_entry_def)

lemma of_entry_of: "20 \<le> length bs \<Longrightarrow> of_entry (entry_of bs) = take 20 bs"
  using word_bytes_word [of "take 4 bs"] take_add [of 4 16 bs]
  by (simp add: entry_of_def of_entry_def)

lemma dir_of_length [simp]: "length (dir_of bs) = 25"
  by (simp add: dir_of_def)

lemma dir_of_name: "length bs = 512 \<Longrightarrow> e \<in> set (dir_of bs) \<Longrightarrow> length (name e) = 16"
  by (auto simp: dir_of_def entry_of_def)

lemma of_dir_drop:
  assumes "\<And>e. e \<in> set es \<Longrightarrow> length (name e) = 16" "i < length es"
  shows "\<exists>r. drop (20 * i) (of_dir es @ rest) = of_entry (es ! i) @ r"
  using assms
proof (induction es arbitrary: i)
  case (Cons e es)
  show ?case
  proof (cases i)
    case 0
    then show ?thesis by (auto simp: of_dir_def)
  next
    case (Suc j)
    with Cons.prems have "length (of_entry e) = 20" by (simp add: of_entry_length)
    with Cons Suc show ?thesis by (simp add: of_dir_def)
  qed
qed simp

lemma dir_of_dir:
  assumes es: "\<And>e. e \<in> set es \<Longrightarrow> length (name e) = 16" "length es = 25"
  shows "dir_of (of_dir es @ rest) = es"
proof (rule nth_equalityI)
  fix i assume i: "i < length (dir_of (of_dir es @ rest))"
  then obtain r where "drop (20 * i) (of_dir es @ rest) = of_entry (es ! i) @ r"
    using of_dir_drop [OF es(1), of es i rest] es(2) by auto
  with i es show "dir_of (of_dir es @ rest) ! i = es ! i"
    by (simp add: dir_of_def entry_of_entry)
qed (simp add: es)

lemma of_dir_length: "(\<And>e. e \<in> set es \<Longrightarrow> length (name e) = 16) \<Longrightarrow> length (of_dir es) = 20 * length es"
  by (induction es) (auto simp: of_dir_def of_entry_length)

lemma of_dir_of:
  assumes "length bs = 512"
  shows "of_dir (dir_of bs) @ drop 500 bs = bs"
proof -
  have "concat (map (\<lambda>i. of_entry (entry_of (drop (20 * i) bs))) [0..<n]) = take (20 * n) bs" if "n \<le> 25" for n
    using that
  proof (induction n)
    case (Suc n)
    then have "of_entry (entry_of (drop (20 * n) bs)) = take 20 (drop (20 * n) bs)"
      using assms by (intro of_entry_of) simp
    with Suc take_add [of "20 * n" 20 bs] show ?case by (simp add: add.commute)
  qed simp
  from this [of 25] show ?thesis by (simp add: of_dir_def dir_of_def comp_def)
qed

section \<open>Volumes\<close>

type_synonym volume = "u32 \<Rightarrow> byte list"

definition used :: "volume \<Rightarrow> tfs_direntry_t list" where
  "used f = filter (\<lambda>e. inode e \<noteq> 0) (dir_of (f 2))"

definition nblocks_of :: "tfs_inode_t \<Rightarrow> nat" where
  "nblocks_of v = (unat (filesize v) + 511) div 512"

definition file_blocks :: "volume \<Rightarrow> u32 \<Rightarrow> u32 list" where
  "file_blocks f ino = (let v = inode_of (f ino) in take (nblocks_of v) (block v))"

definition entry_blocks :: "volume \<Rightarrow> tfs_direntry_t \<Rightarrow> u32 list" where
  "entry_blocks f e = inode e # file_blocks f (inode e)"

definition all_blocks :: "volume \<Rightarrow> u32 list" where
  "all_blocks f = concat (map (entry_blocks f) (used f))"

definition content :: "volume \<Rightarrow> u32 \<Rightarrow> byte list" where
  "content f ino = take (unat (filesize (inode_of (f ino)))) (concat (map f (file_blocks f ino)))"

definition inode_ok :: "u32 \<Rightarrow> tfs_inode_t \<Rightarrow> bool" where
  "inode_ok tb v \<longleftrightarrow> unat (filesize v) \<le> 65024 \<and>
     (\<forall>i < 127. if i < nblocks_of v then 3 \<le> block v ! i \<and> block v ! i < tb else block v ! i = 0)"

text \<open>
  A well-formed volume of \<open>tb\<close> blocks: every name of the directory is terminated and empty exactly
  where the entry is free, no name occurs twice, the blocks of the files (inodes and data) are
  inside the volume, no block belongs to two files or occurs twice in one, and the allocation
  bitmap marks exactly the three system blocks and the blocks of the files.
\<close>

definition tfs_wf :: "u32 \<Rightarrow> volume \<Rightarrow> bool" where
  "tfs_wf tb f \<longleftrightarrow> 3 \<le> tb \<and> tb \<le> 4096 \<and> (\<forall>b < tb. length (f b) = 512) \<and>
     (\<forall>e \<in> set (dir_of (f 2)). terminated (name e) \<and> (inode e = 0 \<longleftrightarrow> cstr (name e) = [])) \<and>
     distinct (map (\<lambda>e. cstr (name e)) (used f)) \<and>
     (\<forall>e \<in> set (used f). 3 \<le> inode e \<and> inode e < tb \<and> inode_ok tb (inode_of (f (inode e)))) \<and>
     distinct (all_blocks f) \<and>
     (\<forall>k < tb. bm_bit (block_words (f 1)) (uint k) \<longleftrightarrow> k < 3 \<or> k \<in> set (all_blocks f))"

text \<open>The inode of a name, and the files of a volume.\<close>

definition lookup :: "volume \<Rightarrow> byte list \<rightharpoonup> u32" where
  "lookup f = map_of (map (\<lambda>e. (cstr (name e), inode e)) (used f))"

definition tfs_files :: "volume \<Rightarrow> byte list \<rightharpoonup> byte list" where
  "tfs_files f nm = map_option (content f) (lookup f nm)"

section \<open>Facts about well-formed volumes\<close>

lemma file_blocks_eq:
  assumes "inode_ok tb (inode_of (f ino))" "length (f ino) = 512"
  shows "length (file_blocks f ino) = nblocks_of (inode_of (f ino))" "\<forall>b \<in> set (file_blocks f ino). 3 \<le> b \<and> b < tb"
proof -
  let ?v = "inode_of (f ino)"
  have n: "nblocks_of ?v \<le> 127" using assms(1) by (auto simp: inode_ok_def nblocks_of_def)
  with inode_of_length [OF assms(2)] show "length (file_blocks f ino) = nblocks_of ?v"
    by (simp add: file_blocks_def)
  with n inode_of_length [OF assms(2)] assms(1) show "\<forall>b \<in> set (file_blocks f ino). 3 \<le> b \<and> b < tb"
    by (auto simp: file_blocks_def in_set_conv_nth inode_ok_def)
qed

lemma filesize_blocks: "unat (filesize v) \<le> 512 * nblocks_of v \<and> 512 * nblocks_of v < unat (filesize v) + 512"
  using mult_div_mod_eq [of 512 "unat (filesize v) + 511"] mod_less_divisor [of 512 "unat (filesize v) + 511"]
  unfolding nblocks_of_def by linarith

lemma wf_system: "tfs_wf tb f \<Longrightarrow> b < 3 \<Longrightarrow> b < tb"
  by (auto simp: tfs_wf_def intro: less_le_trans)

lemma wf_small: "tfs_wf tb f \<Longrightarrow> b \<le> tb \<Longrightarrow> uint b \<le> 4096 \<and> sint b = uint b"
proof -
  assume "tfs_wf tb f" "b \<le> tb"
  then have "uint b \<le> 4096" by (auto simp: tfs_wf_def word_le_def)
  then show ?thesis using sint_small [of b] by simp
qed

lemma wf_used:
  assumes "tfs_wf tb f" "e \<in> set (used f)"
  shows "3 \<le> inode e" "inode e < tb" "inode_ok tb (inode_of (f (inode e)))" "length (f (inode e)) = 512"
    "\<forall>b \<in> set (file_blocks f (inode e)). 3 \<le> b \<and> b < tb"
    "length (file_blocks f (inode e)) = nblocks_of (inode_of (f (inode e)))"
proof -
  show e: "3 \<le> inode e" "inode e < tb" "inode_ok tb (inode_of (f (inode e)))" "length (f (inode e)) = 512"
    using assms unfolding tfs_wf_def by blast+
  show "\<forall>b \<in> set (file_blocks f (inode e)). 3 \<le> b \<and> b < tb"
    "length (file_blocks f (inode e)) = nblocks_of (inode_of (f (inode e)))"
    using file_blocks_eq [of tb f "inode e"] e by blast+
qed

lemma all_blocks_range: "tfs_wf tb f \<Longrightarrow> b \<in> set (all_blocks f) \<Longrightarrow> 3 \<le> b \<and> b < tb"
  using wf_used by (fastforce simp: all_blocks_def entry_blocks_def)

lemma distinct_concat_map:
  "distinct (concat (map g xs)) \<Longrightarrow> x \<in> set xs \<Longrightarrow> distinct (g x)"
  by (induction xs) auto

lemma distinct_concat_map_apart:
  "distinct (concat (map g xs)) \<Longrightarrow> x \<in> set xs \<Longrightarrow> y \<in> set xs \<Longrightarrow> x \<noteq> y \<Longrightarrow> set (g x) \<inter> set (g y) = {}"
  by (induction xs) auto

lemma wf_entry_blocks:
  assumes "tfs_wf tb f" "e \<in> set (used f)"
  shows "distinct (entry_blocks f e)" "set (entry_blocks f e) \<subseteq> set (all_blocks f)"
    "e' \<in> set (used f) \<Longrightarrow> e' \<noteq> e \<Longrightarrow> set (entry_blocks f e') \<inter> set (entry_blocks f e) = {}"
proof -
  have d: "distinct (concat (map (entry_blocks f) (used f)))"
    using assms(1) unfolding tfs_wf_def all_blocks_def by blast
  show "distinct (entry_blocks f e)" by (rule distinct_concat_map [OF d assms(2)])
  show "set (entry_blocks f e) \<subseteq> set (all_blocks f)" using assms(2) by (auto simp: all_blocks_def)
  show "set (entry_blocks f e') \<inter> set (entry_blocks f e) = {}" if "e' \<in> set (used f)" "e' \<noteq> e"
    by (rule distinct_concat_map_apart [OF d that(1) assms(2) that(2)])
qed

lemma wf_inode_inj:
  "tfs_wf tb f \<Longrightarrow> e \<in> set (used f) \<Longrightarrow> e' \<in> set (used f) \<Longrightarrow> inode e = inode e' \<Longrightarrow> e = e'"
  using wf_entry_blocks(3) [of tb f e e'] by (auto simp: entry_blocks_def)

lemma lookup_Some:
  assumes "tfs_wf tb f"
  shows "lookup f nm = Some ino \<longleftrightarrow> (\<exists>e \<in> set (used f). cstr (name e) = nm \<and> inode e = ino)"
proof -
  have "distinct (map fst (map (\<lambda>e. (cstr (name e), inode e)) (used f)))"
    using assms by (simp add: tfs_wf_def comp_def)
  then show ?thesis unfolding lookup_def by (auto simp: map_of_eq_Some_iff)
qed

lemma lookup_None: "lookup f nm = None \<longleftrightarrow> (\<forall>e \<in> set (used f). cstr (name e) \<noteq> nm)"
  by (auto simp: lookup_def map_of_eq_None_iff image_image)

lemma wf_dir: "tfs_wf tb f \<Longrightarrow> e \<in> set (dir_of (f 2)) \<Longrightarrow> terminated (name e) \<and> (inode e = 0 \<longleftrightarrow> cstr (name e) = [])"
  by (simp add: tfs_wf_def)

lemma used_iff: "e \<in> set (used f) \<longleftrightarrow> e \<in> set (dir_of (f 2)) \<and> inode e \<noteq> 0"
  by (auto simp: used_def)

text \<open>Searching the directory for a name that is not empty finds the entry \<open>lookup\<close> means.\<close>

lemma name_is_eq: "terminated (name e) \<Longrightarrow> terminated fn \<Longrightarrow> name_is fn e = Inr (cstr (name e) = cstr fn)"
  using stringcmp_eq [of "name e" fn] by (auto simp: name_is_def)

lemma scan_dir:
  assumes wf: "tfs_wf tb f" and fn: "terminated fn" "cstr fn \<noteq> []"
  obtains (found) i where "scanM (name_is fn) (dir_of (f 2)) 0 TFS_MAX_FILES = Inr (Some i)"
      "0 \<le> i" "i < 25" "dir_of (f 2) ! nat i \<in> set (used f)" "cstr (name (dir_of (f 2) ! nat i)) = cstr fn"
      "lookup f (cstr fn) = Some (inode (dir_of (f 2) ! nat i))"
    | (none) "scanM (name_is fn) (dir_of (f 2)) 0 TFS_MAX_FILES = Inr None" "lookup f (cstr fn) = None"
proof -
  let ?d = "dir_of (f 2)" and ?P = "\<lambda>e. cstr (name e) = cstr fn"
  have "scanM (name_is fn) ?d 0 25 = scan ?P ?d 0 25"
    by (rule scanM_eq) (use wf_dir [OF wf] fn name_is_eq in blast)
  then obtain r where r: "scanM (name_is fn) ?d 0 TFS_MAX_FILES = Inr r" "first_from (\<lambda>k. ?P (?d ! nat k)) 0 25 r"
    using scan_total [of 0 25 ?d ?P] by (auto simp: tfs_sizes)
  show ?thesis
  proof (cases r)
    case None
    have "cstr (name e) \<noteq> cstr fn" if "e \<in> set ?d" for e
    proof -
      from that obtain i where "e = ?d ! i" "i < 25" by (auto simp: in_set_conv_nth)
      with None r(2) show ?thesis by (auto simp: first_from_def dest: spec [of _ "int i"])
    qed
    with None r(1) none show ?thesis by (simp add: lookup_None used_iff)
  next
    case (Some i)
    then have i: "0 \<le> i" "i < 25" "?P (?d ! nat i)" using r(2) by (auto simp: first_from_def)
    then have "?d ! nat i \<in> set ?d" by (simp add: nat_less_iff)
    with wf_dir [OF wf] i(3) fn(2) have u: "?d ! nat i \<in> set (used f)" by (fastforce simp: used_iff)
    with i(3) have "lookup f (cstr fn) = Some (inode (?d ! nat i))" by (auto simp: lookup_Some [OF wf])
    with Some r(1) i u found show ?thesis by simp
  qed
qed

text \<open>Changing blocks of a file only leaves the structure of the volume as it is.\<close>

lemma wf_data_change:
  assumes wf: "tfs_wf tb f" and e: "e \<in> set (used f)"
    and g: "\<And>b. b \<notin> set (file_blocks f (inode e)) \<Longrightarrow> g b = f b"
    and len: "\<And>b. b < tb \<Longrightarrow> length (g b) = 512"
  shows "tfs_wf tb g" "used g = used f" "lookup g = lookup f" "\<And>x. x \<in> set (used f) \<Longrightarrow> g (inode x) = f (inode x)"
    "\<And>x. x \<in> set (used f) \<Longrightarrow> file_blocks g (inode x) = file_blocks f (inode x)"
    "\<And>x. x \<in> set (used f) \<Longrightarrow> x \<noteq> e \<Longrightarrow> content g (inode x) = content f (inode x)"
proof -
  have low: "g b = f b" if "b < 3" for b using g wf_used(5) [OF wf e] that by (metis leD)
  then have g12: "g 1 = f 1" "g 2 = f 2" by simp_all
  show used: "used g = used f" by (simp add: used_def g12)
  then show "lookup g = lookup f" by (simp add: lookup_def)
  show ino: "g (inode x) = f (inode x)" if "x \<in> set (used f)" for x
  proof (rule g)
    show "inode x \<notin> set (file_blocks f (inode e))"
      using wf_entry_blocks(1) [OF wf e] wf_entry_blocks(3) [OF wf e that] by (cases "x = e") (auto simp: entry_blocks_def)
  qed
  then show fb: "file_blocks g (inode x) = file_blocks f (inode x)" if "x \<in> set (used f)" for x
    using that by (simp add: file_blocks_def)
  have all: "all_blocks g = all_blocks f"
    unfolding all_blocks_def entry_blocks_def used using fb by (intro arg_cong [of _ _ concat] map_cong) auto
  show "tfs_wf tb g"
    using wf len ino unfolding tfs_wf_def used all g12 by auto
  show "content g (inode x) = content f (inode x)" if x: "x \<in> set (used f)" "x \<noteq> e" for x
  proof -
    have "set (file_blocks f (inode x)) \<inter> set (file_blocks f (inode e)) = {}"
      using wf_entry_blocks(3) [OF wf e x] by (auto simp: entry_blocks_def)
    then have "map g (file_blocks f (inode x)) = map f (file_blocks f (inode x))"
      using g by (intro map_cong) auto
    then show ?thesis using x(1) by (simp only: content_def fb ino)
  qed
qed

end
