(* ===== verification/Tfs_calls.thy ===== *)
theory Tfs_calls
  imports Tfs_volume
begin

text \<open>
  The calls of the trivial filesystem on a device that keeps the contract \<open>block_device\<close>: each of
  them keeps the volume well-formed and does to the files of the volume what its name says.
\<close>

section \<open>The state between calls\<close>

definition tfs_state :: "('d \<Rightarrow> bool) \<Rightarrow> u32 \<Rightarrow> u32 \<Rightarrow> 'd tfs_t \<Rightarrow> bool" where
  "tfs_state ready nb tb T \<longleftrightarrow> ready (disk T) \<and> totalblocks T = tb \<and> tb \<le> nb \<and>
     length (block (buffer_inode T)) = 127 \<and> length (buffer_bat T) = 512"

definition tfs_inv :: "('d \<Rightarrow> bool) \<Rightarrow> ('d \<Rightarrow> volume) \<Rightarrow> u32 \<Rightarrow> u32 \<Rightarrow> 'd tfs_t \<Rightarrow> bool" where
  "tfs_inv ready blk nb tb T \<longleftrightarrow> tfs_state ready nb tb T \<and> tlock T = 1 \<and> tfs_wf tb (blk (disk T))"

lemma transfer_then_1 [simp]: "transfer_then (Inr (1, T)) f = f T"
  by (simp add: transfer_then_def)

lemma rtransfer_then_1 [simp]: "rtransfer_then got (Inr (1, T)) f = f T"
  by (simp add: rtransfer_then_def)

lemma P_lock_1 [simp]: "tlock T = 1 \<Longrightarrow> P_lock T = Inr (T\<lparr>tlock := 0\<rparr>)"
  by (simp add: P_lock_def sem_down_def)

lemma V_lock_sel [simp]:
  "disk (V_lock T) = disk T" "totalblocks (V_lock T) = totalblocks T" "buffer_inode (V_lock T) = buffer_inode T"
  "buffer_bat (V_lock T) = buffer_bat T" "tlock (V_lock T) = tlock T + 1"
  by (simp_all add: V_lock_def)

lemma tfs_state_V_lock [simp]: "tfs_state ready nb tb (V_lock T) = tfs_state ready nb tb T"
  by (simp add: tfs_state_def)

context block_device begin

lemma read_bat_ok:
  assumes "tfs_state ready nb tb T" "b < nb"
  obtains d where "read_bat G b T = Inr (1, T\<lparr>disk := d, buffer_bat := blk (disk T) b\<rparr>)" "blk d = blk (disk T)"
    "tfs_state ready nb tb (T\<lparr>disk := d, buffer_bat := blk (disk T) b\<rparr>)"
  using read_law [of "disk T" b] blk_length [of "disk T" b] assms
  by (auto simp: read_bat_def tfs_state_def)

lemma read_md_ok:
  assumes "tfs_state ready nb tb T" "b < nb"
  obtains d where "read_md G b T = Inr (1, T\<lparr>disk := d, buffer_md := dir_of (blk (disk T) b), md_rest := drop 500 (blk (disk T) b)\<rparr>)"
    "blk d = blk (disk T)"
    "tfs_state ready nb tb (T\<lparr>disk := d, buffer_md := dir_of (blk (disk T) b), md_rest := drop 500 (blk (disk T) b)\<rparr>)"
  using read_law [of "disk T" b] assms by (auto simp: read_md_def tfs_state_def)

lemma read_inode_ok:
  assumes "tfs_state ready nb tb T" "b < nb"
  obtains d where "read_inode G b T = Inr (1, T\<lparr>disk := d, buffer_inode := inode_of (blk (disk T) b)\<rparr>)"
    "blk d = blk (disk T)" "tfs_state ready nb tb (T\<lparr>disk := d, buffer_inode := inode_of (blk (disk T) b)\<rparr>)"
  using read_law [of "disk T" b] blk_length [of "disk T" b] assms inode_of_length
  by (auto simp: read_inode_def tfs_state_def)

lemma write_bat_ok:
  assumes "tfs_state ready nb tb T" "b < nb"
  obtains d where "write_bat G b T = Inr (1, T\<lparr>disk := d\<rparr>)" "blk d = (blk (disk T))(b := buffer_bat T)"
    "tfs_state ready nb tb (T\<lparr>disk := d\<rparr>)"
  using write_law [of "disk T" b "buffer_bat T"] assms by (auto simp: write_bat_def tfs_state_def)

lemma write_inode_ok:
  assumes "tfs_state ready nb tb T" "b < nb"
  obtains d where "write_inode G b T = Inr (1, T\<lparr>disk := d\<rparr>)" "blk d = (blk (disk T))(b := of_inode (buffer_inode T))"
    "tfs_state ready nb tb (T\<lparr>disk := d\<rparr>)"
  using write_law [of "disk T" b "of_inode (buffer_inode T)"] of_inode_length [of "buffer_inode T"] assms
  by (auto simp: write_inode_def tfs_state_def)

lemma write_md_ok:
  assumes "tfs_state ready nb tb T" "b < nb" "length (of_dir (buffer_md T) @ md_rest T) = 512"
  obtains d where "write_md G b T = Inr (1, T\<lparr>disk := d\<rparr>)"
    "blk d = (blk (disk T))(b := of_dir (buffer_md T) @ md_rest T)" "tfs_state ready nb tb (T\<lparr>disk := d\<rparr>)"
  using write_law [OF _ assms(2,3), of "disk T"] assms(1) by (auto simp: write_md_def tfs_state_def)

section \<open>Opening\<close>

lemma open_finds:
  assumes inv: "tfs_inv ready blk nb tb T" and fn: "terminated fn" "cstr fn \<noteq> []"
  obtains T' where "tfs_open G fn T = Inr (case lookup (blk (disk T)) (cstr fn) of None \<Rightarrow> VFS_NOT_FOUND | Some i \<Rightarrow> uint i, T')"
    "tfs_inv ready blk nb tb T'" "blk (disk T') = blk (disk T)"
proof -
  let ?f = "blk (disk T)"
  have wf: "tfs_wf tb ?f" and st: "tfs_state ready nb tb (T\<lparr>tlock := 0\<rparr>)" and l: "tlock T = 1"
    using inv by (simp_all add: tfs_inv_def tfs_state_def)
  have two: "(2 :: u32) < nb" using wf_system [OF wf, of 2] st by (auto simp: tfs_state_def)
  from read_md_ok [OF st two] obtain d where
    d: "read_md G 2 (T\<lparr>tlock := 0\<rparr>) = Inr (1, T\<lparr>tlock := 0, disk := d, buffer_md := dir_of (?f 2), md_rest := drop 500 (?f 2)\<rparr>)"
    "blk d = ?f" "tfs_state ready nb tb (T\<lparr>tlock := 0, disk := d, buffer_md := dir_of (?f 2), md_rest := drop 500 (?f 2)\<rparr>)"
    by auto
  let ?T = "T\<lparr>tlock := 0, disk := d, buffer_md := dir_of (?f 2), md_rest := drop 500 (?f 2)\<rparr>"
  have post: "tfs_inv ready blk nb tb (V_lock ?T)" "blk (disk (V_lock ?T)) = ?f"
    using d wf by (simp_all add: tfs_inv_def)
  show ?thesis
  proof (cases rule: scan_dir [OF wf fn])
    case (1 i)
    have "sint (inode (dir_of (?f 2) ! nat i)) = uint (inode (dir_of (?f 2) ! nat i))"
      using wf_used(2) [OF wf 1(4)] wf_small [OF wf] by simp
    then have "tfs_open G fn T = Inr (uint (inode (dir_of (?f 2) ! nat i)), V_lock ?T)"
      using 1 l d(1) by (simp add: tfs_open_def TFS_DIRECTORY_BLOCK_def tret_def)
    with 1 post that show ?thesis by simp
  next
    case 2
    then have "tfs_open G fn T = Inr (VFS_NOT_FOUND, V_lock ?T)"
      using l d(1) by (simp add: tfs_open_def TFS_DIRECTORY_BLOCK_def tret_def)
    with 2 post that show ?thesis by simp
  qed
qed

end

section \<open>Reading\<close>

lemma copy_out_in: "0 \<le> off \<Longrightarrow> off + int m \<le> int (length src) \<Longrightarrow> copy_out src off (int m) = Inr (slice (nat off) m src)"
  by (auto simp: copy_out_def)

text \<open>The last block of a transfer of \<open>m > 0\<close> bytes from block \<open>k\<close> on, or the block before \<open>k\<close>.\<close>

definition last_block :: "nat \<Rightarrow> nat \<Rightarrow> int" where
  "last_block k m = (if m = 0 then int k - 1 else int k + int ((m - 1) div 512))"

lemma last_block_simps:
  "last_block k 0 = int k - 1" "0 < m \<Longrightarrow> m \<le> 512 \<Longrightarrow> last_block k m = int k"
  "512 < m \<Longrightarrow> last_block k m = last_block (Suc k) (m - 512) \<and> int k < last_block k m"
proof -
  show "last_block k m = last_block (Suc k) (m - 512) \<and> int k < last_block k m" if "512 < m"
  proof -
    have "(m - 1) div 512 = Suc ((m - 512 - 1) div 512)"
      using that div_add_self2 [of 512 "m - 512 - 1"] by simp
    with that show ?thesis by (simp add: last_block_def)
  qed
qed (simp_all add: last_block_def)

lemma last_block_step:
  assumes "0 < m"
  shows "last_block k m = last_block (Suc k) (m - min m 512)" "int k \<le> last_block k m"
    "int k = last_block k m \<longleftrightarrow> m \<le> 512"
  using last_block_simps(1) [of "Suc k"] last_block_simps(2,3) [of m k] assms by (cases "m \<le> 512"; simp)+

context block_device begin

lemma read_loop_eq:
  assumes "tfs_state ready nb tb T" "bs = take q (block (buffer_inode T))" "\<forall>b \<in> set bs. b < nb"
    and "512 * k + m \<le> 512 * length bs"
  shows "\<exists>T'. read_loop G (rdn + int m) (int k) (last_block k m) rdn got T =
      Inr (rdn + int m, got @ slice (512 * k) m (concat (map (blk (disk T)) bs)), V_lock T') \<and>
    tfs_state ready nb tb T' \<and> blk (disk T') = blk (disk T) \<and> tlock T' = tlock T"
  using assms
proof (induction m arbitrary: k rdn got T rule: less_induct)
  case (less m)
  let ?f = "blk (disk T)" and ?F = "concat (map (blk (disk T)) bs)"
  show ?case
  proof (cases "m = 0")
    case True
    with less.prems show ?thesis
      by (intro exI [of _ T]) (simp add: read_loop.simps [of G] last_block_def rret_def)
  next
    case False
    define n where "n = min m 512"
    have k: "k < length bs" using less.prems(4) False by linarith
    then have "bs ! k \<in> set bs" by simp
    with less.prems(2,3) k have bk: "rd (block (buffer_inode T)) (int k) = Inr (bs ! k)" "bs ! k < nb"
      by (simp_all add: rd_def del: nth_mem)
    obtain d where d: "read_bat G (bs ! k) T = Inr (1, T\<lparr>disk := d, buffer_bat := ?f (bs ! k)\<rparr>)" "blk d = ?f"
      "tfs_state ready nb tb (T\<lparr>disk := d, buffer_bat := ?f (bs ! k)\<rparr>)"
      using read_bat_ok [OF less.prems(1) bk(2)] by blast
    let ?T = "T\<lparr>disk := d, buffer_bat := ?f (bs ! k)\<rparr>"
    have len: "length (?f b) = 512" if "b \<in> set bs" for b
      using that less.prems(1,3) blk_length by (auto simp: tfs_state_def)
    have sl: "slice (512 * k) n ?F = slice 0 n (?f (bs ! k))"
      using slice_in_block [of bs ?f 512 k 0 n, OF len] k by (simp add: n_def)
    note lb = last_block_step [of m k, folded n_def]
    have step: "read_loop G (rdn + int m) (int k) (last_block k m) rdn got T =
        read_loop G ((rdn + int n) + int (m - n)) (int (Suc k)) (last_block (Suc k) (m - n)) (rdn + int n)
          (got @ slice (512 * k) n ?F) ?T"
      using bk d(1) lb False sl len [of "bs ! k"] k copy_out_in [of 0 512 "?f (bs ! k)"]
      by (subst read_loop.simps) (auto simp: tfs_sizes copy_out_in [of 0] n_def add.commute)
    have "512 * Suc k + (m - n) \<le> 512 * length bs" using less.prems(4) k by (auto simp: n_def)
    then have "\<exists>T'. read_loop G ((rdn + int n) + int (m - n)) (int (Suc k)) (last_block (Suc k) (m - n)) (rdn + int n)
          (got @ slice (512 * k) n ?F) ?T =
        Inr (rdn + int n + int (m - n), (got @ slice (512 * k) n ?F) @ slice (512 * Suc k) (m - n) (concat (map (blk (disk ?T)) bs)), V_lock T') \<and>
      tfs_state ready nb tb T' \<and> blk (disk T') = blk (disk ?T) \<and> tlock T' = tlock ?T"
      by (intro less.IH) (use d(3) less.prems(2,3) False in \<open>auto simp: n_def\<close>)
    moreover have "slice (512 * k) n ?F @ slice (512 * Suc k) (m - n) ?F = slice (512 * k) m ?F"
    proof -
      have "512 * k + n + (m - n) \<le> length ?F"
        using less.prems(4) concat_blocks_length [of bs ?f 512, OF len] by (simp add: n_def)
      then show ?thesis
        using slice_split [of "512 * k" n "m - n" ?F] by (auto simp: n_def min_def slice_def add.commute)
    qed
    ultimately show ?thesis unfolding step using d(2) by (auto simp: n_def)
  qed
qed

end

lemma content_length:
  assumes "tfs_wf tb f" "e \<in> set (used f)"
  shows "length (content f (inode e)) = unat (filesize (inode_of (f (inode e))))"
    "length (concat (map f (file_blocks f (inode e)))) = 512 * length (file_blocks f (inode e))"
proof -
  have "length (f b) = 512" if "b \<in> set (file_blocks f (inode e))" for b
    using that wf_used(5) [OF assms] assms(1) by (auto simp: tfs_wf_def)
  from concat_blocks_length [OF this]
  show l: "length (concat (map f (file_blocks f (inode e)))) = 512 * length (file_blocks f (inode e))" .
  show "length (content f (inode e)) = unat (filesize (inode_of (f (inode e))))"
    using l wf_used(6) [OF assms] filesize_blocks [of "inode_of (f (inode e))"] by (simp add: content_def)
qed

lemma inode_ok_filesize: "inode_ok tb v \<Longrightarrow> sint (filesize v) = int (unat (filesize v))"
proof -
  assume "inode_ok tb v"
  then have "unat (filesize v) \<le> 65024" by (simp add: inode_ok_def)
  then have "uint (filesize v) \<le> 65024" using uint_le [of "filesize v" 65024] by simp
  then show ?thesis using sint_small [of "filesize v"] by simp
qed

lemma slice_take: "off + m \<le> n \<Longrightarrow> slice off m (take n xs) = slice off m xs"
  by (simp add: slice_def drop_take min_def)

lemma first_piece:
  fixes off m :: nat
  defines "r \<equiv> min (512 - off mod 512) m"
  assumes "0 < m"
  shows "last_block (Suc (off div 512)) (m - r) = int ((off + m - 1) div 512)"
    "r < m \<Longrightarrow> 512 * Suc (off div 512) = off + r" "0 < r" "off mod 512 + r \<le> 512"
proof -
  have o: "off = 512 * (off div 512) + off mod 512" "off mod 512 < 512" by simp_all
  show "0 < r" "off mod 512 + r \<le> 512" using o(2) assms by (auto simp: r_def)
  show piece: "512 * Suc (off div 512) = off + r" if "r < m"
  proof -
    have "r + off mod 512 = 512" using that o(2) by (simp add: r_def min_def split: if_splits)
    with o(1) show ?thesis unfolding mult_Suc_right by linarith
  qed
  show "last_block (Suc (off div 512)) (m - r) = int ((off + m - 1) div 512)"
  proof (cases "r < m")
    case True
    from piece [OF True] have "off + m - 1 = 512 * Suc (off div 512) + (m - r - 1)" using True by linarith
    then have "(off + m - 1) div 512 = Suc (off div 512) + (m - r - 1) div 512" by simp
    with True show ?thesis by (simp add: last_block_def)
  next
    case False
    then have "m \<le> 512 - off mod 512" by (simp add: r_def)
    then have "off + m - 1 = 512 * (off div 512) + (off mod 512 + m - 1)" "off mod 512 + m - 1 < 512"
      using o assms(2) by linarith+
    then have "(off + m - 1) div 512 = off div 512" by (metis div_mult_self4 div_less add_0_right zero_neq_numeral)
    with False show ?thesis by (simp add: last_block_def r_def)
  qed
qed

lemma slice_next:
  assumes "off + m \<le> length xs" "r \<le> m" "r < m \<Longrightarrow> p = off + r"
  shows "slice off r xs @ slice p (m - r) xs = slice off m xs"
  using assms slice_split [of off r "m - r" xs] by (cases "r < m") auto

context block_device begin

text \<open>A transfer of \<open>m > 0\<close> bytes from \<open>off\<close> on, once the inode is in its buffer.\<close>

lemma read_transfer:
  fixes off m :: nat
  defines "r \<equiv> min (512 - off mod 512) m"
  assumes st: "tfs_state ready nb tb T" and bs: "bs = take q (block (buffer_inode T))" "\<forall>b \<in> set bs. b < nb"
    and m: "0 < m" "off + m \<le> 512 * length bs"
  shows "\<exists>T'. rbind (rd (block (buffer_inode T)) (int (off div 512))) (\<lambda>b.
           rtransfer_then [] (read_bat G b T) (\<lambda>T.
           rbind (copy_out (buffer_bat T) (int (off mod 512)) (int r)) (\<lambda>x.
           read_loop G (int m) (int (off div 512) + 1) (int ((off + m - 1) div 512)) (int r) x T))) =
      Inr (int m, slice off m (concat (map (blk (disk T)) bs)), V_lock T') \<and>
    tfs_state ready nb tb T' \<and> blk (disk T') = blk (disk T) \<and> tlock T' = tlock T"
proof -
  let ?k = "off div 512" and ?f = "blk (disk T)" and ?F = "concat (map (blk (disk T)) bs)"
  note fp = first_piece [OF m(1), of off, folded r_def]
  have k: "?k < length bs" using m by (simp add: less_mult_imp_div_less mult.commute)
  then have "bs ! ?k \<in> set bs" by simp
  with bs k have bk: "rd (block (buffer_inode T)) (int ?k) = Inr (bs ! ?k)" "bs ! ?k < nb"
    by (simp_all add: rd_def del: nth_mem)
  obtain d where d: "read_bat G (bs ! ?k) T = Inr (1, T\<lparr>disk := d, buffer_bat := ?f (bs ! ?k)\<rparr>)" "blk d = ?f"
    "tfs_state ready nb tb (T\<lparr>disk := d, buffer_bat := ?f (bs ! ?k)\<rparr>)"
    using read_bat_ok [OF st bk(2)] by blast
  let ?T = "T\<lparr>disk := d, buffer_bat := ?f (bs ! ?k)\<rparr>"
  have len: "length (?f b) = 512" if "b \<in> set bs" for b
    using that st bs(2) blk_length by (auto simp: tfs_state_def)
  have sl: "slice off r ?F = slice (off mod 512) r (?f (bs ! ?k))"
    using slice_in_block [of bs ?f 512 ?k "off mod 512" r, OF len] k fp(4) by simp
  have out: "copy_out (?f (bs ! ?k)) (int (off mod 512)) (int r) = Inr (slice off r ?F)"
    using copy_out_in [of "int (off mod 512)" r "?f (bs ! ?k)"] fp(4) len [of "bs ! ?k"] k sl by simp
  have "512 * Suc ?k + (m - r) \<le> 512 * length bs"
    using k m(2) fp(2) by (cases "r < m") auto
  with read_loop_eq [of tb ?T bs q "Suc ?k" "m - r" "int r" "slice off r ?F"] d(3) bs
  obtain T' where T': "read_loop G (int r + int (m - r)) (int (Suc ?k)) (last_block (Suc ?k) (m - r)) (int r) (slice off r ?F) ?T =
      Inr (int r + int (m - r), slice off r ?F @ slice (512 * Suc ?k) (m - r) (concat (map (blk d) bs)), V_lock T')"
    "tfs_state ready nb tb T'" "blk (disk T') = blk d" "tlock T' = tlock T"
    by auto
  have "slice off r ?F @ slice (512 * Suc ?k) (m - r) ?F = slice off m ?F"
    by (rule slice_next) (use m(2) concat_blocks_length [of bs ?f 512, OF len] fp(2) in \<open>auto simp: r_def\<close>)
  moreover have "int r + int (m - r) = int m" by (simp add: r_def)
  ultimately show ?thesis
    using bk d out T' fp(1) by (intro exI [of _ T']) (simp add: add.commute)
qed

lemma read_content:
  assumes inv: "tfs_inv ready blk nb tb T" and e: "e \<in> set (used (blk (disk T)))" and n: "0 \<le> n"
    and C: "C = content (blk (disk T)) (inode e)"
  obtains T' where "tfs_read G (uint (inode e)) n off T =
      Inr (if off < 0 \<or> off > int (length C) then (VFS_ERROR, [], T')
           else (min n (int (length C) - off), slice (nat off) (nat (min n (int (length C) - off))) C, T'))"
    "tfs_inv ready blk nb tb T'" "blk (disk T') = blk (disk T)"
proof -
  let ?f = "blk (disk T)" and ?i = "inode e"
  let ?v = "inode_of (?f ?i)" and ?bs = "file_blocks ?f ?i"
  have wf: "tfs_wf tb ?f" and st: "tfs_state ready nb tb (T\<lparr>tlock := 0\<rparr>)" and l: "tlock T = 1" and tb: "totalblocks T = tb" "tb \<le> nb"
    using inv by (simp_all add: tfs_inv_def tfs_state_def)
  note u = wf_used [OF wf e]
  have i: "2 \<le> uint ?i" "uint ?i \<le> sint tb" "sint tb = uint tb" "?i < nb"
    using u(1,2) wf_small [OF wf, of tb] tb(2) by (auto simp: word_le_def word_less_def)
  have C': "length C = unat (filesize ?v)" "C = take (unat (filesize ?v)) (concat (map ?f ?bs))"
    using content_length(1) [OF wf e] by (simp_all add: C content_def)
  have sz: "sint (filesize ?v) = int (length C)" using inode_ok_filesize [OF u(3)] C'(1) by simp
  from read_inode_ok [OF st i(4)] obtain d where
    d: "read_inode G ?i (T\<lparr>tlock := 0\<rparr>) = Inr (1, T\<lparr>tlock := 0, disk := d, buffer_inode := ?v\<rparr>)"
    "blk d = ?f" "tfs_state ready nb tb (T\<lparr>tlock := 0, disk := d, buffer_inode := ?v\<rparr>)"
    by auto
  let ?T = "T\<lparr>tlock := 0, disk := d, buffer_inode := ?v\<rparr>"
  have fin: "tfs_inv ready blk nb tb (V_lock T')" "blk (disk (V_lock T')) = ?f"
    if "tfs_state ready nb tb T'" "blk (disk T') = blk (disk ?T)" "tlock T' = 0" for T'
    using that wf d(2) by (simp_all add: tfs_inv_def)
  have head: "tfs_read G (uint ?i) n off T =
      (if off < 0 \<or> off > int (length C) then Inr (VFS_ERROR, [], V_lock ?T)
       else let m = min n (int (length C) - off) in
         if m = 0 then Inr (0, [], V_lock ?T)
         else rbind (rd (block ?v) (off sdiv 512)) (\<lambda>b.
           rtransfer_then [] (read_bat G b ?T) (\<lambda>T.
           rbind (copy_out (buffer_bat T) (off smod 512) (min (512 - off smod 512) m)) (\<lambda>x.
           read_loop G m (off sdiv 512 + 1) ((off + m - 1) sdiv 512) (min (512 - off smod 512) m) x T))))"
    using l tb(1) i(1,2) d(1) sz by (simp add: tfs_read_def tfs_sizes rret_def)
  show ?thesis
  proof (cases "off < 0 \<or> off > int (length C) \<or> min n (int (length C) - off) = 0")
    case True
    with head fin(1,2) [OF d(3)] that [of "V_lock ?T"] show ?thesis by auto
  next
    case False
    define o' m' where "o' = nat off" and "m' = nat (min n (int (length C) - off))"
    have om: "off = int o'" "min n (int (length C) - off) = int m'" "0 < m'" "o' + m' \<le> length C"
      using False n by (auto simp: o'_def m'_def)
    have bound: "o' + m' \<le> 512 * length ?bs" using om(4) C'(1) u(6) filesize_blocks [of ?v] by simp
    have bs: "?bs = take (nblocks_of ?v) (block (buffer_inode ?T))" "\<forall>b \<in> set ?bs. b < nb"
      using u(5) tb(2) by (auto simp: file_blocks_def)
    from read_transfer [OF d(3) bs om(3) bound] obtain T' where T':
      "rbind (rd (block ?v) (int (o' div 512))) (\<lambda>b.
           rtransfer_then [] (read_bat G b ?T) (\<lambda>T.
           rbind (copy_out (buffer_bat T) (int (o' mod 512)) (int (min (512 - o' mod 512) m'))) (\<lambda>x.
           read_loop G (int m') (int (o' div 512) + 1) (int ((o' + m' - 1) div 512)) (int (min (512 - o' mod 512) m')) x T))) =
        Inr (int m', slice o' m' (concat (map (blk (disk ?T)) ?bs)), V_lock T')"
      "tfs_state ready nb tb T'" "blk (disk T') = blk (disk ?T)" "tlock T' = tlock ?T"
      by auto
    have conv: "off sdiv 512 = int (o' div 512)" "off smod 512 = int (o' mod 512)"
      "min (512 - int (o' mod 512)) (int m') = int (min (512 - o' mod 512) m')"
      "(off + int m' - 1) sdiv 512 = int ((o' + m' - 1) div 512)"
      using om(3) by (auto simp: om(1) zdiv_int zmod_int of_nat_diff of_nat_min)
    have "slice o' m' (concat (map ?f ?bs)) = slice o' m' C"
      unfolding C'(2) by (rule slice_take [symmetric]) (use om(4) C'(1) in simp)
    then have "tfs_read G (uint ?i) n off T = Inr (int m', slice o' m' C, V_lock T')"
      using head [unfolded Let_def, unfolded om(2), unfolded conv] False T'(1) d(2) om(3) by (simp add: om(2))
    with False om fin [OF T'(2,3)] T'(4) that [of "V_lock T'"] show ?thesis by auto
  qed
qed

end

section \<open>Writing\<close>

lemma copy_in_eq:
  "0 < n \<Longrightarrow> off + n \<le> length dst \<Longrightarrow> n \<le> length src \<Longrightarrow> copy_in dst (int off) (int n) src = Inr (splice off (take n src) dst)"
  by (simp add: copy_in_def)

lemma splice_whole: "length xs = length ys \<Longrightarrow> splice 0 ys xs = ys"
  by (simp add: splice_def)

context block_device begin

text \<open>
  Writing one piece into block \<open>k\<close> of a file: the block is read first unless the piece is the whole
  block, changed in the buffer and written back.
\<close>

lemma put_piece:
  assumes st: "tfs_state ready nb tb T"
    and bs: "distinct bs" "\<forall>b \<in> set bs. b < nb" "k < length bs"
    and n: "0 < n" "off + n \<le> 512" "n \<le> length buf"
  shows "\<exists>T1. transfer_then (if int n < 512 then read_bat G (bs ! k) T else Inr (1, T)) (\<lambda>T.
        rbind (copy_in (buffer_bat T) (int off) (int n) buf) (\<lambda>bat.
        transfer_then (write_bat G (bs ! k) (T\<lparr>buffer_bat := bat\<rparr>)) K)) = K T1 \<and>
      tfs_state ready nb tb T1 \<and> buffer_inode T1 = buffer_inode T \<and> tlock T1 = tlock T \<and>
      concat (map (blk (disk T1)) bs) = splice (512 * k + off) (take n buf) (concat (map (blk (disk T)) bs)) \<and>
      (\<forall>b. b \<notin> set bs \<longrightarrow> blk (disk T1) b = blk (disk T) b)"
proof -
  let ?b = "bs ! k" and ?f = "blk (disk T)"
  have b: "?b < nb" "?b \<in> set bs" using bs by auto
  have len: "length (?f x) = 512" if "x \<in> set bs" for x
    using that st bs(2) blk_length by (auto simp: tfs_state_def)
  obtain d X where R: "(if int n < 512 then read_bat G ?b T else Inr (1, T)) = Inr (1, T\<lparr>disk := d, buffer_bat := X\<rparr>)"
    "blk d = ?f" "tfs_state ready nb tb (T\<lparr>disk := d, buffer_bat := X\<rparr>)" "n < 512 \<Longrightarrow> X = ?f ?b"
  proof (cases "n < 512")
    case True
    from read_bat_ok [OF st b(1)] obtain d where "read_bat G ?b T = Inr (1, T\<lparr>disk := d, buffer_bat := ?f ?b\<rparr>)"
      "blk d = ?f" "tfs_state ready nb tb (T\<lparr>disk := d, buffer_bat := ?f ?b\<rparr>)" by blast
    with True that show ?thesis by simp
  next
    case False
    with st that [where d = "disk T" and X = "buffer_bat T"] show ?thesis by simp
  qed
  have X: "length X = 512" using R(3) by (simp add: tfs_state_def)
  have new: "splice off (take n buf) X = splice off (take n buf) (?f ?b)"
  proof (cases "n < 512")
    case False
    with n have "off = 0" "n = 512" by auto
    with X len [OF b(2)] n(3) show ?thesis by (simp add: splice_whole)
  qed (simp add: R(4))
  let ?Y = "splice off (take n buf) (?f ?b)"
  let ?T = "T\<lparr>disk := d, buffer_bat := ?Y\<rparr>"
  have "copy_in X (int off) (int n) buf = Inr ?Y"
    using copy_in_eq [of n off X buf] n X new by simp
  moreover have "tfs_state ready nb tb ?T"
    using R(3) n len [OF b(2)] by (simp add: tfs_state_def)
  then obtain d' where W: "write_bat G ?b ?T = Inr (1, ?T\<lparr>disk := d'\<rparr>)" "blk d' = (blk d)(?b := ?Y)"
    "tfs_state ready nb tb (?T\<lparr>disk := d'\<rparr>)"
    using write_bat_ok [of tb ?T ?b] b(1) by auto
  ultimately show ?thesis
    using R(1) W(1,3) splice_in_block [of bs ?f 512 k off "take n buf", OF len bs(1,3)] n(2,3) b(2)
    unfolding R(2) by (intro exI [of _ "?T\<lparr>disk := d'\<rparr>"]) (auto simp: W(2) R(2))
qed

lemma write_loop_eq:
  assumes "tfs_state ready nb tb T" "bs = take q (block (buffer_inode T))" "distinct bs" "\<forall>b \<in> set bs. b < nb"
    and "512 * k + m \<le> 512 * length bs" "m \<le> length buf"
  shows "\<exists>T'. write_loop G (w + int m) (int k) (last_block k m) w buf T = Inr (w + int m, V_lock T') \<and>
    tfs_state ready nb tb T' \<and> tlock T' = tlock T \<and>
    concat (map (blk (disk T')) bs) = splice (512 * k) (take m buf) (concat (map (blk (disk T)) bs)) \<and>
    (\<forall>b. b \<notin> set bs \<longrightarrow> blk (disk T') b = blk (disk T) b)"
  using assms
proof (induction m arbitrary: k w buf T rule: less_induct)
  case (less m)
  let ?F = "concat (map (blk (disk T)) bs)"
  have lenF: "length ?F = 512 * length bs"
    using less.prems(1,4) blk_length by (intro concat_blocks_length) (auto simp: tfs_state_def)
  show ?case
  proof (cases "m = 0")
    case True
    with less.prems lenF show ?thesis
      by (intro exI [of _ T]) (simp add: write_loop.simps [of G] last_block_def tret_def)
  next
    case False
    have k: "k < length bs" using less.prems(5) False by linarith
    then have bk: "rd (block (buffer_inode T)) (int k) = Inr (bs ! k)"
      using less.prems(2) by (simp add: rd_def)
    note lb = last_block_step [of m k]
    note piece = put_piece [OF less.prems(1,3,4) k, of _ 0 buf, unfolded int_ops(1) add_0]
    show ?thesis
    proof (cases "m \<le> 512")
      case True
      let ?K = "\<lambda>T. write_loop G (w + int m) (int k + 1) (int k) (w + int m) buf T"
      from piece [of m ?K] True False less.prems(6) obtain T1 where T1:
        "transfer_then (if int m < 512 then read_bat G (bs ! k) T else Inr (1, T)) (\<lambda>T.
          rbind (copy_in (buffer_bat T) 0 (int m) buf) (\<lambda>bat.
          transfer_then (write_bat G (bs ! k) (T\<lparr>buffer_bat := bat\<rparr>)) ?K)) = ?K T1"
        "tfs_state ready nb tb T1" "tlock T1 = tlock T"
        "concat (map (blk (disk T1)) bs) = splice (512 * k) (take m buf) ?F"
        "\<forall>b. b \<notin> set bs \<longrightarrow> blk (disk T1) b = blk (disk T) b" by auto
      have "last_block k m = int k" using lb(3) True False by simp
      then have "write_loop G (w + int m) (int k) (last_block k m) w buf T = ?K T1"
        using bk T1(1) by (subst write_loop.simps) (simp add: tfs_sizes)
      also have "?K T1 = Inr (w + int m, V_lock T1)"
        by (subst write_loop.simps) (simp add: tret_def)
      finally show ?thesis using T1 by auto
    next
      case big: False
      let ?K = "\<lambda>T. write_loop G (w + int m) (int k + 1) (last_block k m) (w + 512) (drop 512 buf) T"
      from piece [of 512 ?K] big less.prems(6) obtain T1 where T1:
        "rbind (copy_in (buffer_bat T) 0 512 buf) (\<lambda>bat.
          transfer_then (write_bat G (bs ! k) (T\<lparr>buffer_bat := bat\<rparr>)) ?K) = ?K T1"
        "tfs_state ready nb tb T1" "buffer_inode T1 = buffer_inode T" "tlock T1 = tlock T"
        "concat (map (blk (disk T1)) bs) = splice (512 * k) (take 512 buf) ?F"
        "\<forall>b. b \<notin> set bs \<longrightarrow> blk (disk T1) b = blk (disk T) b" by auto
      have "int k \<noteq> last_block k m" "int k \<le> last_block k m" "last_block k m = last_block (Suc k) (m - 512)"
        using lb big by auto
      then have step: "write_loop G (w + int m) (int k) (last_block k m) w buf T =
          write_loop G ((w + 512) + int (m - 512)) (int (Suc k)) (last_block (Suc k) (m - 512)) (w + 512) (drop 512 buf) T1"
        using bk T1(1) big by (subst write_loop.simps) (simp add: tfs_sizes add.commute)
      have "\<exists>T'. write_loop G ((w + 512) + int (m - 512)) (int (Suc k)) (last_block (Suc k) (m - 512)) (w + 512) (drop 512 buf) T1
          = Inr ((w + 512) + int (m - 512), V_lock T') \<and>
        tfs_state ready nb tb T' \<and> tlock T' = tlock T1 \<and>
        concat (map (blk (disk T')) bs) = splice (512 * Suc k) (take (m - 512) (drop 512 buf)) (concat (map (blk (disk T1)) bs)) \<and>
        (\<forall>b. b \<notin> set bs \<longrightarrow> blk (disk T') b = blk (disk T1) b)"
        by (rule less.IH) (use big T1(2,3) less.prems in auto)
      moreover have "splice (512 * Suc k) (take (m - 512) (drop 512 buf)) (splice (512 * k) (take 512 buf) ?F) =
          splice (512 * k) (take m buf) ?F"
      proof -
        have "take 512 buf @ take (m - 512) (drop 512 buf) = take m buf"
          using take_add [of 512 "m - 512" buf] big by simp
        then show ?thesis
          using splice_splice [of "512 * k" "take 512 buf" "take (m - 512) (drop 512 buf)" ?F] less.prems(5,6) big lenF
          by (simp add: add.commute)
      qed
      ultimately show ?thesis unfolding step using T1(4-6) big by auto
    qed
  qed
qed

end

lemma take_splice:
  "off + length ys \<le> n \<Longrightarrow> n \<le> length xs \<Longrightarrow> take n (splice off ys xs) = splice off ys (take n xs)"
  by (rule nth_equalityI) (auto simp: splice_nth)

context block_device begin

lemma write_transfer:
  fixes off m :: nat
  defines "r \<equiv> min (512 - off mod 512) m"
  assumes st: "tfs_state ready nb tb T" and bs: "bs = take q (block (buffer_inode T))" "distinct bs" "\<forall>b \<in> set bs. b < nb"
    and m: "0 < m" "off + m \<le> 512 * length bs" "m \<le> length buf"
  shows "\<exists>T'. rbind (rd (block (buffer_inode T)) (int (off div 512))) (\<lambda>b.
           transfer_then (if int r < 512 then read_bat G b T else Inr (1, T)) (\<lambda>T.
           rbind (copy_in (buffer_bat T) (int (off mod 512)) (int r) buf) (\<lambda>bat.
           transfer_then (write_bat G b (T\<lparr>buffer_bat := bat\<rparr>)) (\<lambda>T.
           write_loop G (int m) (int (off div 512) + 1) (int ((off + m - 1) div 512)) (int r) (drop r buf) T)))) =
      Inr (int m, V_lock T') \<and>
    tfs_state ready nb tb T' \<and> tlock T' = tlock T \<and>
    concat (map (blk (disk T')) bs) = splice off (take m buf) (concat (map (blk (disk T)) bs)) \<and>
    (\<forall>b. b \<notin> set bs \<longrightarrow> blk (disk T') b = blk (disk T) b)"
proof -
  let ?k = "off div 512" and ?F = "concat (map (blk (disk T)) bs)"
  let ?K = "\<lambda>T. write_loop G (int m) (int ?k + 1) (int ((off + m - 1) div 512)) (int r) (drop r buf) T"
  note fp = first_piece [OF m(1), of off, folded r_def]
  have k: "?k < length bs" using m by (simp add: less_mult_imp_div_less mult.commute)
  have bk: "rd (block (buffer_inode T)) (int ?k) = Inr (bs ! ?k)" using bs(1) k by (simp add: rd_def)
  have r: "r \<le> length buf" "r \<le> m" using m(3) by (simp_all add: r_def)
  obtain T1 where T1:
    "transfer_then (if int r < 512 then read_bat G (bs ! ?k) T else Inr (1, T)) (\<lambda>T.
        rbind (copy_in (buffer_bat T) (int (off mod 512)) (int r) buf) (\<lambda>bat.
        transfer_then (write_bat G (bs ! ?k) (T\<lparr>buffer_bat := bat\<rparr>)) ?K)) = ?K T1"
    "tfs_state ready nb tb T1" "buffer_inode T1 = buffer_inode T" "tlock T1 = tlock T"
    "concat (map (blk (disk T1)) bs) = splice off (take r buf) ?F"
    "\<forall>b. b \<notin> set bs \<longrightarrow> blk (disk T1) b = blk (disk T) b"
    using put_piece [OF st bs(2,3) k fp(3,4) r(1), of ?K] by auto
  have "512 * Suc ?k + (m - r) \<le> 512 * length bs"
    using k m(2) fp(2) by (cases "r < m") auto
  moreover have "m - r \<le> length (drop r buf)" using m(3) by simp
  ultimately
  obtain T' where T': "write_loop G (int r + int (m - r)) (int (Suc ?k)) (last_block (Suc ?k) (m - r)) (int r) (drop r buf) T1 =
      Inr (int r + int (m - r), V_lock T')"
    "tfs_state ready nb tb T'" "tlock T' = tlock T1"
    "concat (map (blk (disk T')) bs) = splice (512 * Suc ?k) (take (m - r) (drop r buf)) (concat (map (blk (disk T1)) bs))"
    "\<forall>b. b \<notin> set bs \<longrightarrow> blk (disk T') b = blk (disk T1) b"
    using write_loop_eq [of tb T1 bs q "Suc ?k" "m - r" "drop r buf" "int r"] T1(2,3) bs by auto
  have lenF: "length ?F = 512 * length bs"
    using st bs(3) blk_length by (intro concat_blocks_length) (auto simp: tfs_state_def)
  have "splice (512 * Suc ?k) (take (m - r) (drop r buf)) (splice off (take r buf) ?F) = splice off (take m buf) ?F"
  proof (cases "r < m")
    case True
    have "take r buf @ take (m - r) (drop r buf) = take m buf" using take_add [of r "m - r" buf] r by simp
    then show ?thesis
      using splice_splice [of off "take r buf" "take (m - r) (drop r buf)" ?F] fp(2) [OF True] m lenF r by simp
  next
    case False
    with r have "r = m" by simp
    with k lenF m r show ?thesis by simp
  qed
  moreover have "int r + int (m - r) = int m" using r(2) by simp
  ultimately show ?thesis
    using bk T1 T' fp(1) by (intro exI [of _ T']) (simp add: add.commute)
qed

lemma write_content:
  assumes inv: "tfs_inv ready blk nb tb T" and e: "e \<in> set (used (blk (disk T)))" and n: "0 \<le> n" "n \<le> int (length buf)"
    and C: "C = content (blk (disk T)) (inode e)" and ok: "0 \<le> off" "off \<le> int (length C)"
    and m: "m = nat (min n (int (length C) - off))"
  obtains T' where "tfs_write G (uint (inode e)) buf n off T = Inr (int m, T')"
    "tfs_inv ready blk nb tb T'" "content (blk (disk T')) (inode e) = splice (nat off) (take m buf) C"
    "lookup (blk (disk T')) = lookup (blk (disk T))"
    "\<And>x. x \<in> set (used (blk (disk T))) \<Longrightarrow> x \<noteq> e \<Longrightarrow> content (blk (disk T')) (inode x) = content (blk (disk T)) (inode x)"
proof -
  let ?f = "blk (disk T)" and ?i = "inode e"
  let ?v = "inode_of (?f ?i)" and ?bs = "file_blocks ?f ?i"
  have wf: "tfs_wf tb ?f" and st: "tfs_state ready nb tb (T\<lparr>tlock := 0\<rparr>)" and l: "tlock T = 1" and tb: "totalblocks T = tb" "tb \<le> nb"
    using inv by (simp_all add: tfs_inv_def tfs_state_def)
  note u = wf_used [OF wf e]
  have i: "2 \<le> uint ?i" "uint ?i \<le> sint tb" "sint tb = uint tb" "?i < nb"
    using u(1,2) wf_small [OF wf, of tb] tb(2) by (auto simp: word_le_def word_less_def)
  have C': "length C = unat (filesize ?v)" "C = take (unat (filesize ?v)) (concat (map ?f ?bs))"
    using content_length(1) [OF wf e] by (simp_all add: C content_def)
  have sz: "sint (filesize ?v) = int (length C)" using inode_ok_filesize [OF u(3)] C'(1) by simp
  from read_inode_ok [OF st i(4)] obtain d where
    d: "read_inode G ?i (T\<lparr>tlock := 0\<rparr>) = Inr (1, T\<lparr>tlock := 0, disk := d, buffer_inode := ?v\<rparr>)"
    "blk d = ?f" "tfs_state ready nb tb (T\<lparr>tlock := 0, disk := d, buffer_inode := ?v\<rparr>)"
    by auto
  let ?T = "T\<lparr>tlock := 0, disk := d, buffer_inode := ?v\<rparr>"
  define o' where "o' = nat off"
  have om: "off = int o'" "min n (int (length C) - off) = int m" "o' + m \<le> length C" "m \<le> length buf"
    using ok n by (auto simp: o'_def m)
  have head: "tfs_write G (uint ?i) buf n off T =
      (if m = 0 then Inr (0, V_lock ?T)
       else rbind (rd (block ?v) (off sdiv 512)) (\<lambda>b.
         transfer_then (if min (512 - off smod 512) (int m) < 512 then read_bat G b ?T else Inr (1, ?T)) (\<lambda>T.
         rbind (copy_in (buffer_bat T) (off smod 512) (min (512 - off smod 512) (int m)) buf) (\<lambda>bat.
         transfer_then (write_bat G b (T\<lparr>buffer_bat := bat\<rparr>)) (\<lambda>T.
         write_loop G (int m) (off sdiv 512 + 1) ((off + int m - 1) sdiv 512) (min (512 - off smod 512) (int m))
           (drop (nat (min (512 - off smod 512) (int m))) buf) T)))))"
    using l tb(1) i(1,2) d(1) sz ok om(2) by (simp add: tfs_write_def tfs_sizes tret_def)
  show ?thesis
  proof (cases "m = 0")
    case True
    have "tfs_inv ready blk nb tb (V_lock ?T)" using wf d(2,3) by (simp add: tfs_inv_def)
    moreover have "splice (nat off) (take m buf) C = C" using True ok by (simp add: nat_le_iff)
    ultimately show ?thesis using that [of "V_lock ?T"] head True d(2) C by simp
  next
    case False
    have bound: "o' + m \<le> 512 * length ?bs" using om(3) C'(1) u(6) filesize_blocks [of ?v] by simp
    have bs: "?bs = take (nblocks_of ?v) (block (buffer_inode ?T))" "distinct ?bs" "\<forall>b \<in> set ?bs. b < nb"
      using u(5) tb(2) wf_entry_blocks(1) [OF wf e] by (auto simp: file_blocks_def entry_blocks_def)
    from False have m0: "0 < m" by simp
    have conv: "off sdiv 512 = int (o' div 512)" "off smod 512 = int (o' mod 512)"
      "min (512 - int (o' mod 512)) (int m) = int (min (512 - o' mod 512) m)"
      "(off + int m - 1) sdiv 512 = int ((o' + m - 1) div 512)"
      using m0 by (auto simp: om(1) zdiv_int zmod_int of_nat_diff of_nat_min)
    from write_transfer [OF d(3) bs m0 bound om(4)] obtain T' where T':
      "tfs_write G (uint ?i) buf n off T = Inr (int m, V_lock T')"
      "tfs_state ready nb tb T'" "tlock T' = 0"
      "concat (map (blk (disk T')) ?bs) = splice o' (take m buf) (concat (map ?f ?bs))"
      "\<forall>b. b \<notin> set ?bs \<longrightarrow> blk (disk T') b = ?f b"
      using head [unfolded conv nat_int] False d(2) by auto
    have len: "length (blk (disk T') b) = 512" if "b < tb" for b
      using that tb(2) T'(2) blk_length [of "disk T'" b] by (auto simp: tfs_state_def)
    note ch = wf_data_change [OF wf e, of "blk (disk T')", OF _ len]
    have g: "\<And>b. b \<notin> set ?bs \<Longrightarrow> blk (disk T') b = ?f b" using T'(5) by blast
    have "content (blk (disk T')) ?i = splice o' (take m buf) C"
      using T'(4) ch(4,5) [OF g _ e] om(3,4) C' content_length(2) [OF wf e] u(6) filesize_blocks [of ?v]
      by (simp add: content_def take_splice)
    moreover have "tfs_inv ready blk nb tb (V_lock T')"
      using T'(2,3) ch(1) [OF g] by (simp add: tfs_inv_def)
    ultimately show ?thesis
      using that [of "V_lock T'"] T'(1) ch(3,6) [OF g] by (simp add: o'_def)
  qed
qed

end

end
