(* ===== verification/Tfs_update.thy ===== *)
theory Tfs_update
  imports Tfs_calls
begin

text \<open>
  Creating and removing files of the trivial filesystem: the loops of the two operations, the
  allocation of blocks through the bitmap, and the effect on the volume.
\<close>

section \<open>The directory loop\<close>

lemma find_slot_from:
  assumes "\<forall>e \<in> set md. terminated (name e)" "length md = 25" "terminated fn" "0 \<le> i"
  shows "\<exists>r. find_slot fn md i x = Inr r \<and>
    (case r of
       None \<Rightarrow> \<exists>k. i \<le> k \<and> k < 25 \<and> cstr (name (md ! nat k)) = cstr fn
     | Some y \<Rightarrow> (\<forall>k. i \<le> k \<and> k < 25 \<longrightarrow> cstr (name (md ! nat k)) \<noteq> cstr fn) \<and>
         (y = x \<and> (\<forall>k. i \<le> k \<and> k < 25 \<longrightarrow> inode (md ! nat k) \<noteq> 0) \<or>
          i \<le> y \<and> y < 25 \<and> inode (md ! nat y) = 0))"
  using assms
proof (induction fn md i x rule: find_slot.induct)
  case (1 fn md i x)
  show ?case
  proof (cases "i < 25")
    case False
    then show ?thesis by (subst find_slot.simps) (auto simp: tfs_sizes)
  next
    case True
    let ?e = "md ! nat i"
    have e: "rd md i = Inr ?e" "terminated (name ?e)" using True "1.prems" by (auto simp: rd_def)
    have nm: "name_is fn ?e = Inr (cstr (name ?e) = cstr fn)" by (rule name_is_eq [OF e(2) "1.prems"(3)])
    show ?thesis
    proof (cases "cstr (name ?e) = cstr fn")
      case same: True
      then have "find_slot fn md i x = Inr None"
        using True e nm by (subst find_slot.simps) (simp add: tfs_sizes)
      with same True show ?thesis by auto
    next
      case False
      let ?x = "if inode ?e = 0 then i else x"
      have eq: "find_slot fn md i x = find_slot fn md (i + 1) ?x"
        using True e nm False by (subst find_slot.simps) (simp add: tfs_sizes)
      have "\<exists>r. find_slot fn md (i + 1) ?x = Inr r \<and>
        (case r of
           None \<Rightarrow> \<exists>k. i + 1 \<le> k \<and> k < 25 \<and> cstr (name (md ! nat k)) = cstr fn
         | Some y \<Rightarrow> (\<forall>k. i + 1 \<le> k \<and> k < 25 \<longrightarrow> cstr (name (md ! nat k)) \<noteq> cstr fn) \<and>
             (y = ?x \<and> (\<forall>k. i + 1 \<le> k \<and> k < 25 \<longrightarrow> inode (md ! nat k) \<noteq> 0) \<or>
              i + 1 \<le> y \<and> y < 25 \<and> inode (md ! nat y) = 0))"
        by (rule "1.IH") (use True e nm False "1.prems" in \<open>auto simp: tfs_sizes\<close>)
      then obtain r where r: "find_slot fn md (i + 1) ?x = Inr r" and post: "case r of
           None \<Rightarrow> \<exists>k. i + 1 \<le> k \<and> k < 25 \<and> cstr (name (md ! nat k)) = cstr fn
         | Some y \<Rightarrow> (\<forall>k. i + 1 \<le> k \<and> k < 25 \<longrightarrow> cstr (name (md ! nat k)) \<noteq> cstr fn) \<and>
             (y = ?x \<and> (\<forall>k. i + 1 \<le> k \<and> k < 25 \<longrightarrow> inode (md ! nat k) \<noteq> 0) \<or>
              i + 1 \<le> y \<and> y < 25 \<and> inode (md ! nat y) = 0)" by blast
      have all: "(\<forall>k. i \<le> k \<and> k < 25 \<longrightarrow> P k) \<longleftrightarrow> P i \<and> (\<forall>k. i + 1 \<le> k \<and> k < 25 \<longrightarrow> P k)" for P
        using True by (metis add_leD1 add_le_imp_le_diff diff_add_cancel le_less zless_imp_add1_zle zle_add1_eq_le)
      show ?thesis
      proof (cases r)
        case None
        then obtain k where "i + 1 \<le> k" "k < 25" "cstr (name (md ! nat k)) = cstr fn" using post by auto
        then have "\<exists>k. i \<le> k \<and> k < 25 \<and> cstr (name (md ! nat k)) = cstr fn" by (intro exI [of _ k]) simp
        with eq r None show ?thesis by simp
      next
        case (Some y)
        with post eq r False True show ?thesis by (cases "inode ?e = 0") (auto simp: all)
      qed
    qed
  qed
qed

text \<open>On a well-formed volume the loop tells whether the name is taken, and finds a free entry.\<close>

lemma find_slot_wf:
  assumes wf: "tfs_wf tb f" and fn: "terminated fn" "cstr fn \<noteq> []"
  obtains (taken) "find_slot fn (dir_of (f 2)) 0 (-1) = Inr None" "lookup f (cstr fn) \<noteq> None"
    | (full) "find_slot fn (dir_of (f 2)) 0 (-1) = Inr (Some (-1))" "lookup f (cstr fn) = None"
        "\<forall>e \<in> set (dir_of (f 2)). inode e \<noteq> 0"
    | (slot) i where "find_slot fn (dir_of (f 2)) 0 (-1) = Inr (Some (int i))" "lookup f (cstr fn) = None"
        "i < 25" "inode (dir_of (f 2) ! i) = 0"
proof -
  let ?d = "dir_of (f 2)"
  from find_slot_from [of ?d fn 0 "-1"] wf_dir [OF wf] fn obtain r where
    r: "find_slot fn ?d 0 (-1) = Inr r" and post: "case r of
       None \<Rightarrow> \<exists>k. 0 \<le> k \<and> k < 25 \<and> cstr (name (?d ! nat k)) = cstr fn
     | Some y \<Rightarrow> (\<forall>k. 0 \<le> k \<and> k < 25 \<longrightarrow> cstr (name (?d ! nat k)) \<noteq> cstr fn) \<and>
         (y = -1 \<and> (\<forall>k. 0 \<le> k \<and> k < 25 \<longrightarrow> inode (?d ! nat k) \<noteq> 0) \<or>
          0 \<le> y \<and> y < 25 \<and> inode (?d ! nat y) = 0)" by auto
  have all: "(\<forall>e \<in> set ?d. P e) \<longleftrightarrow> (\<forall>k. 0 \<le> k \<and> k < (25 :: int) \<longrightarrow> P (?d ! nat k))" for P
    by (auto simp: all_set_conv_all_nth nat_less_iff) (metis int_nat_eq nat_int of_nat_0_le_iff of_nat_less_numeral_iff)+
  show ?thesis
  proof (cases r)
    case None
    with post obtain e where "e \<in> set ?d" "cstr (name e) = cstr fn" using all [of "\<lambda>e. cstr (name e) \<noteq> cstr fn"] by auto
    with wf_dir [OF wf] fn(2) have "e \<in> set (used f)" "cstr (name e) = cstr fn" by (fastforce simp: used_iff)+
    with None r taken show ?thesis by (auto simp: lookup_None)
  next
    case (Some y)
    then have "\<forall>e \<in> set ?d. cstr (name e) \<noteq> cstr fn" using post all [of "\<lambda>e. cstr (name e) \<noteq> cstr fn"] by simp
    then have l: "lookup f (cstr fn) = None" by (simp add: lookup_None used_iff)
    show ?thesis
    proof (cases "y = -1")
      case True
      with Some post l r full all [of "\<lambda>e. inode e \<noteq> 0"] show ?thesis by simp
    next
      case False
      with Some post l r slot [of "nat y"] show ?thesis by (auto simp: nat_less_iff)
    qed
  qed
qed

section \<open>Allocating blocks\<close>

definition bat_taken :: "u32 \<Rightarrow> 'd tfs_t \<Rightarrow> int set" where
  "bat_taken tb T = bm.taken (block_words (buffer_bat T)) (uint tb)"

lemma bm_fits_block: "length bs = 512 \<Longrightarrow> uint (tb :: u32) \<le> 4096 \<Longrightarrow> bm_fits (block_words bs) (uint tb)"
  by (simp add: bm_fits_def)

lemma bat_findnset_ok:
  assumes "length (buffer_bat T) = 512" "totalblocks T = tb" "uint tb \<le> 4096"
  obtains k X where "bat_findnset T = Inr (k, T\<lparr>buffer_bat := X\<rparr>)" "length X = 512"
    "if int (card (bat_taken tb T)) < uint tb
     then 0 \<le> k \<and> k < uint tb \<and> k \<notin> bat_taken tb T \<and> bat_taken tb (T\<lparr>buffer_bat := X\<rparr>) = insert k (bat_taken tb T)
     else k = -1"
proof -
  let ?W = "block_words (buffer_bat T)"
  have fits: "bm_fits ?W (uint tb)" by (rule bm_fits_block [OF assms(1,3)])
  from bm.alloc_taken [OF fits] obtain k W where W: "bitmap_findnset ?W (uint tb) = Inr (k, W)"
    "if int (card (bm.taken ?W (uint tb))) < uint tb
     then 0 \<le> k \<and> k < uint tb \<and> k \<notin> bm.taken ?W (uint tb) \<and> bm.taken W (uint tb) = insert k (bm.taken ?W (uint tb))
     else k = -1 \<and> W = ?W" by auto
  from bitmap_findnset_found [OF fits] W(1) have "length W = 128"
    using assms(1) by (auto simp: found_def bm_upd_def)
  moreover have "sint tb = uint tb" using sint_small [of tb] assms(3) by simp
  then have "bat_findnset T = Inr (k, T\<lparr>buffer_bat := words_block W\<rparr>)"
    using W(1) assms(2) by (simp add: bat_findnset_def)
  ultimately show ?thesis
    using that [of k "words_block W"] W(2) by (auto simp: bat_taken_def)
qed

definition alloc_post ::
  "u32 \<Rightarrow> nat \<Rightarrow> nat \<Rightarrow> 'd tfs_t \<Rightarrow> byte list \<Rightarrow> u32 list \<Rightarrow> u32 list \<Rightarrow> bool" where
  "alloc_post tb i n T X Y ks \<longleftrightarrow> length ks = n - i \<and> distinct ks \<and> (\<forall>k \<in> set ks. k < tb \<and> uint k \<notin> bat_taken tb T) \<and>
     Y = splice i ks (block (buffer_inode T)) \<and> bat_taken tb (T\<lparr>buffer_bat := X\<rparr>) = bat_taken tb T \<union> uint ` set ks"

lemma alloc_blocks_ok:
  assumes "length (buffer_bat T) = 512" "totalblocks T = tb" "uint tb \<le> 4096"
    and "i \<le> n" "n \<le> length (block (buffer_inode T))"
  shows "\<exists>ok X Y ks. alloc_blocks (int i) (int n) T =
      Inr (ok, T\<lparr>buffer_bat := X, buffer_inode := (buffer_inode T)\<lparr>block := Y\<rparr>\<rparr>) \<and>
    length X = 512 \<and> length Y = length (block (buffer_inode T)) \<and>
    (ok \<longleftrightarrow> int (card (bat_taken tb T)) + int (n - i) \<le> uint tb) \<and> (ok \<longrightarrow> alloc_post tb i n T X Y ks)"
  using assms
proof (induction "n - i" arbitrary: i T)
  case 0
  have "int (card (bat_taken tb T)) \<le> uint tb" unfolding bat_taken_def by (rule bm.taken_bound) simp
  moreover have "alloc_blocks (int i) (int n) T = Inr (True, T)"
    using 0 by (subst alloc_blocks.simps) simp
  moreover have "alloc_post tb i n T (buffer_bat T) (block (buffer_inode T)) []"
    using 0 by (simp add: alloc_post_def)
  ultimately show ?case
    using 0 by - (rule exI [of _ True], rule exI [of _ "buffer_bat T"], rule exI [of _ "block (buffer_inode T)"], rule exI [of _ "[]"], simp)
next
  case (Suc r)
  let ?U = "bat_taken tb T"
  have i: "i < n" "i < length (block (buffer_inode T))" using Suc.hyps(2) Suc.prems(5) by linarith+
  obtain k X where X: "bat_findnset T = Inr (k, T\<lparr>buffer_bat := X\<rparr>)" "length X = 512"
    "if int (card ?U) < uint tb
     then 0 \<le> k \<and> k < uint tb \<and> k \<notin> ?U \<and> bat_taken tb (T\<lparr>buffer_bat := X\<rparr>) = insert k ?U else k = -1"
    by (rule bat_findnset_ok [OF Suc.prems(1-3)])
  let ?Y = "(block (buffer_inode T))[i := word_of_int k]"
  let ?T = "T\<lparr>buffer_bat := X, buffer_inode := (buffer_inode T)\<lparr>block := ?Y\<rparr>\<rparr>"
  have wr: "wr (block (buffer_inode T)) (int i) (word_of_int k) = Inr ?Y" using i by simp
  have eq: "alloc_blocks (int i) (int n) T = (if k = -1 then Inr (False, ?T) else alloc_blocks (int (Suc i)) (int n) ?T)"
    using X(1) wr i by (subst alloc_blocks.simps) (simp add: add.commute)
  show ?case
  proof (cases "int (card ?U) < uint tb")
    case False
    with X have "k = -1" by simp
    with eq False X(2) i Suc.hyps(2) show ?thesis
      by - (rule exI [of _ False], rule exI [of _ X], rule exI [of _ ?Y], rule exI [of _ "[]"], simp)
  next
    case True
    with X(3) have k: "0 \<le> k" "k < uint tb" "k \<notin> ?U" and U': "bat_taken tb (T\<lparr>buffer_bat := X\<rparr>) = insert k ?U" by simp_all
    have kw: "uint (word_of_int k :: u32) = k" using k Suc.prems(3) by (intro uint_of_int) auto
    have ST: "bat_taken tb ?T = insert k ?U" using U' by (simp add: bat_taken_def)
    have fin: "finite ?U" by (simp add: bat_taken_def)
    have r': "r = n - Suc i" using Suc.hyps(2) by simp
    from Suc.hyps(1) [OF r', of ?T] Suc.prems X(2) i obtain ok X' Y ks where IH:
      "alloc_blocks (int (Suc i)) (int n) ?T = Inr (ok, ?T\<lparr>buffer_bat := X', buffer_inode := (buffer_inode ?T)\<lparr>block := Y\<rparr>\<rparr>)"
      "length X' = 512" "length Y = length (block (buffer_inode T))"
      "ok \<longleftrightarrow> int (card (bat_taken tb ?T)) + int (n - Suc i) \<le> uint tb" "ok \<longrightarrow> alloc_post tb (Suc i) n ?T X' Y ks"
      by auto
    have "ok \<longleftrightarrow> int (card ?U) + int (n - i) \<le> uint tb"
      using IH(4) k(3) fin i unfolding ST by (simp add: of_nat_diff)
    moreover have "alloc_post tb i n T X' Y (word_of_int k # ks)" if ok
    proof -
      from IH(5) that have p: "length ks = n - Suc i" "distinct ks" "\<forall>x \<in> set ks. x < tb \<and> uint x \<notin> insert k ?U"
        "Y = splice (Suc i) ks ?Y" "bat_taken tb (?T\<lparr>buffer_bat := X'\<rparr>) = insert k ?U \<union> uint ` set ks"
        by (simp_all add: alloc_post_def ST)
      have "splice (Suc i) ks ?Y = splice i (word_of_int k # ks) (block (buffer_inode T))"
        by (rule nth_equalityI) (use i p(1) Suc.prems(5) in \<open>auto simp: splice_nth nth_list_update nth_Cons' less_Suc_eq_le\<close>)
      moreover have "word_of_int k \<notin> set ks" using p(3) kw by auto
      moreover have "word_of_int k < tb" using k(2) kw by (simp add: word_less_def)
      ultimately show ?thesis
        using p k(3) kw i by (auto simp: alloc_post_def bat_taken_def)
    qed
    moreover have "alloc_blocks (int i) (int n) T = Inr (ok, T\<lparr>buffer_bat := X', buffer_inode := (buffer_inode T)\<lparr>block := Y\<rparr>\<rparr>)"
      using eq k(1) IH(1) by simp
    ultimately show ?thesis using IH(2,3) by blast
  qed
qed

lemma clear_blocks_eq:
  assumes "length bl = 127" "n \<le> 127"
  shows "clear_blocks (int n) bl = Inr (take n bl @ replicate (127 - n) 0)"
  using assms
proof (induction "127 - n" arbitrary: n bl)
  case 0
  then show ?case by (subst clear_blocks.simps) (simp add: tfs_sizes)
next
  case (Suc r)
  have n: "n < 127" using Suc.hyps(2) by simp
  have "clear_blocks (int n) bl = clear_blocks (int (Suc n)) (bl[n := 0])"
    using Suc.prems n by (subst clear_blocks.simps) (simp add: tfs_sizes add.commute)
  also have "\<dots> = Inr (take (Suc n) (bl[n := 0]) @ replicate (127 - Suc n) 0)"
    using Suc by (intro Suc.hyps(1)) auto
  also have "take (Suc n) (bl[n := 0]) @ replicate (127 - Suc n) 0 = take n bl @ replicate (127 - n) 0"
    using n Suc.prems Suc_diff_Suc [OF n] by (simp add: take_Suc_conv_app_nth flip: replicate_Suc)
  finally show ?case .
qed

context block_device begin

lemma zero_blocks_ok:
  assumes "tfs_state ready nb tb T" "\<forall>k \<in> set (drop i (take n (block (buffer_inode T)))). k < nb"
    and "i \<le> n" "n \<le> 127"
  shows "\<exists>d. zero_blocks G (int i) (int n) T = Inr (VFS_OK, V_lock (T\<lparr>disk := d\<rparr>)) \<and> tfs_state ready nb tb (T\<lparr>disk := d\<rparr>) \<and>
    blk d = (\<lambda>b. if b \<in> set (drop i (take n (block (buffer_inode T)))) then buffer_bat T else blk (disk T) b)"
  using assms
proof (induction "n - i" arbitrary: i T)
  case 0
  then show ?case
    by (subst zero_blocks.simps) (auto simp: tret_def intro!: exI [of _ "disk T"])
next
  case (Suc r)
  let ?bl = "block (buffer_inode T)"
  have i: "i < n" "i < length ?bl" using Suc.hyps(2) Suc.prems(1,4) by (auto simp: tfs_state_def)
  have split: "drop i (take n ?bl) = ?bl ! i # drop (Suc i) (take n ?bl)"
    using i Cons_nth_drop_Suc [of i "take n ?bl"] by simp
  have b: "?bl ! i < nb" using Suc.prems(2) unfolding split by simp
  from write_bat_ok [OF Suc.prems(1) b] obtain d where d: "write_bat G (?bl ! i) T = Inr (1, T\<lparr>disk := d\<rparr>)"
    "blk d = (blk (disk T))(?bl ! i := buffer_bat T)" "tfs_state ready nb tb (T\<lparr>disk := d\<rparr>)" by blast
  have eq: "zero_blocks G (int i) (int n) T = zero_blocks G (int (Suc i)) (int n) (T\<lparr>disk := d\<rparr>)"
    using i d(1) by (subst zero_blocks.simps) (simp add: add.commute)
  have r': "r = n - Suc i" using Suc.hyps(2) by simp
  have "\<forall>k \<in> set (drop (Suc i) (take n ?bl)). k < nb" using Suc.prems(2) unfolding split by simp
  with Suc.hyps(1) [of "Suc i" "T\<lparr>disk := d\<rparr>"] Suc.prems(4) d(3) i r' obtain d' where
    "zero_blocks G (int (Suc i)) (int n) (T\<lparr>disk := d\<rparr>) = Inr (VFS_OK, V_lock (T\<lparr>disk := d'\<rparr>))"
    "tfs_state ready nb tb (T\<lparr>disk := d'\<rparr>)"
    "blk d' = (\<lambda>b. if b \<in> set (drop (Suc i) (take n ?bl)) then buffer_bat T else blk d b)"
    by (auto cong: if_cong)
  then show ?case unfolding eq split by (intro exI [of _ d']) (auto simp: d(2))
qed

end

section \<open>Replacing a directory entry\<close>

lemma less_3: "k < 3 \<longleftrightarrow> k = 0 \<or> k = 1 \<or> k = 2" for k :: u32
proof
  assume "k < 3"
  then have "unat k < 3" by (simp add: word_less_nat_alt)
  then have "unat k = unat (0 :: u32) \<or> unat k = unat (1 :: u32) \<or> unat k = unat (2 :: u32)" by auto
  then show "k = 0 \<or> k = 1 \<or> k = 2" by (simp only: word_unat_eq_iff)
qed auto

lemma all_blocks_low: "tfs_wf tb f \<Longrightarrow> b \<in> set (all_blocks f) \<Longrightarrow> b \<noteq> 0 \<and> b \<noteq> 1 \<and> b \<noteq> 2"
  using all_blocks_range [of tb f b] less_3 [of b] by (simp add: leD not_less [symmetric])

definition occupied :: "volume \<Rightarrow> u32 set" where
  "occupied f = {0, 1, 2} \<union> set (all_blocks f)"

lemma taken_words:
  fixes tb :: u32
  assumes "S \<subseteq> {k. k < tb}"
  shows "bm.taken W (uint tb) = uint ` S \<longleftrightarrow> (\<forall>k < tb. bm_bit W (uint k) \<longleftrightarrow> k \<in> S)" (is "?L \<longleftrightarrow> ?R")
proof -
  have t: "uint k \<in> bm.taken W (uint tb) \<longleftrightarrow> k < tb \<and> bm_bit W (uint k)" for k :: u32
    by (auto simp: bm.taken_def word_less_def)
  have all: "\<exists>k :: u32. x = uint k" if "x \<in> bm.taken W (uint tb)" for x
    using that uint_lt [of tb] by (intro exI [of _ "word_of_int x"]) (auto simp: bm.taken_def uint_of_int)
  have im: "uint k \<in> uint ` S \<longleftrightarrow> k \<in> S" for k :: u32
    by (auto dest: unsigned_word_eqI)
  show ?thesis
  proof
    assume L: ?L
    show ?R using t unfolding L im by blast
  next
    assume R: ?R
    have k: "uint k \<in> bm.taken W (uint tb) \<longleftrightarrow> uint k \<in> uint ` S" for k :: u32
      unfolding t im using R assms by blast
    show ?L
    proof
      show "bm.taken W (uint tb) \<subseteq> uint ` S"
      proof
        fix x assume x: "x \<in> bm.taken W (uint tb)"
        with all obtain w :: u32 where "x = uint w" by blast
        with x k [of w] show "x \<in> uint ` S" by blast
      qed
      show "uint ` S \<subseteq> bm.taken W (uint tb)" using k by blast
    qed
  qed
qed

lemma wf_taken: "tfs_wf tb f \<Longrightarrow> bm.taken (block_words (f 1)) (uint tb) = uint ` occupied f"
proof -
  assume wf: "tfs_wf tb f"
  then have "occupied f \<subseteq> {k. k < tb}"
    using all_blocks_range [OF wf] wf_system [OF wf] by (auto simp: occupied_def)
  moreover have "\<forall>k < tb. bm_bit (block_words (f 1)) (uint k) \<longleftrightarrow> k \<in> occupied f"
    using wf less_3 unfolding tfs_wf_def occupied_def by simp
  ultimately show ?thesis using taken_words [of "occupied f" tb "block_words (f 1)"] by simp
qed

definition as_used :: "tfs_direntry_t \<Rightarrow> tfs_direntry_t list" where
  "as_used e = (if inode e \<noteq> 0 then [e] else [])"

lemma used_split:
  assumes "i < 25"
  obtains A B where "used f = A @ as_used (dir_of (f 2) ! i) @ B"
    "\<And>g e. dir_of (g 2) = (dir_of (f 2))[i := e] \<Longrightarrow> used g = A @ as_used e @ B"
proof -
  let ?d = "dir_of (f 2)" and ?P = "\<lambda>e. inode e \<noteq> 0"
  let ?A = "filter ?P (take i ?d)" and ?B = "filter ?P (drop (Suc i) ?d)"
  have "used f = ?A @ as_used (?d ! i) @ ?B"
    unfolding used_def as_used_def
    by (subst id_take_nth_drop [of i ?d]) (use assms in simp_all)
  moreover have "used g = ?A @ as_used e @ ?B" if "dir_of (g 2) = ?d[i := e]" for g e
    unfolding used_def as_used_def that using assms by (simp add: upd_conv_take_nth_drop)
  ultimately show ?thesis using that by blast
qed

text \<open>
  The volume \<open>g\<close> that differs from \<open>f\<close> in one directory entry, in blocks that no other file of \<open>f\<close>
  has, and in the allocation bitmap, which gives up the blocks of the old entry and takes those of
  the new one.
\<close>

lemma wf_replace:
  assumes wf: "tfs_wf tb f" and i: "i < 25" and d: "dir_of (g 2) = (dir_of (f 2))[i := e']"
    and len: "\<forall>b < tb. length (g b) = 512"
    and e': "terminated (name e')" "inode e' = 0 \<longleftrightarrow> cstr (name e') = []"
    and new: "inode e' \<noteq> 0 \<longrightarrow> lookup f (cstr (name e')) = None \<and> 3 \<le> inode e' \<and> inode e' < tb \<and>
        inode_ok tb (inode_of (g (inode e'))) \<and> distinct (entry_blocks g e') \<and>
        set (entry_blocks g e') \<inter> set (all_blocks f) = {}"
    and same: "\<forall>x \<in> set (used f). x \<noteq> dir_of (f 2) ! i \<longrightarrow> (\<forall>b \<in> set (entry_blocks f x). g b = f b)"
    and bat: "bm.taken (block_words (g 1)) (uint tb) =
        uint ` (occupied f - set (concat (map (entry_blocks f) (as_used (dir_of (f 2) ! i))))
          \<union> set (concat (map (entry_blocks g) (as_used e'))))"
  shows "tfs_wf tb g"
    "\<And>x. x \<in> set (used f) \<Longrightarrow> x \<noteq> dir_of (f 2) ! i \<Longrightarrow> x \<in> set (used g) \<and> content g (inode x) = content f (inode x)"
    "set (used g) = set (used f) - {dir_of (f 2) ! i} \<union> set (as_used e')"
proof -
  let ?e = "dir_of (f 2) ! i"
  obtain A B where uf: "used f = A @ as_used ?e @ B" and ug: "used g = A @ as_used e' @ B"
    using used_split [OF i, of f] d by metis
  have dA: "distinct (map (\<lambda>e. cstr (name e)) (A @ as_used ?e @ B))" "distinct (all_blocks f)"
    using wf unfolding tfs_wf_def uf by blast+
  have notin: "?e \<notin> set A \<union> set B"
  proof
    assume "?e \<in> set A \<union> set B"
    moreover from this have "?e \<in> set (used f)" unfolding uf by auto
    then have "inode ?e \<noteq> 0" by (simp add: used_iff)
    ultimately show False using dA(1) by (auto simp: as_used_def)
  qed
  have AB: "x \<in> set (used f)" "x \<noteq> ?e" if "x \<in> set A \<union> set B" for x using that notin uf by auto
  have fb: "g (inode x) = f (inode x)" "entry_blocks g x = entry_blocks f x" if "x \<in> set A \<union> set B" for x
  proof -
    show "g (inode x) = f (inode x)" using same AB [OF that] by (simp add: entry_blocks_def)
    then show "entry_blocks g x = entry_blocks f x" by (simp add: entry_blocks_def file_blocks_def)
  qed
  have all_f: "all_blocks f = concat (map (entry_blocks f) A) @ concat (map (entry_blocks f) (as_used ?e)) @ concat (map (entry_blocks f) B)"
    by (simp add: all_blocks_def uf)
  have all_g: "all_blocks g = concat (map (entry_blocks f) A) @ concat (map (entry_blocks g) (as_used e')) @ concat (map (entry_blocks f) B)"
    using fb(2) unfolding all_blocks_def ug by (simp cong: map_cong)
  show set_g: "set (used g) = set (used f) - {?e} \<union> set (as_used e')"
    using notin unfolding uf ug by (auto simp: as_used_def)
  show "x \<in> set (used g) \<and> content g (inode x) = content f (inode x)" if x: "x \<in> set (used f)" "x \<noteq> ?e" for x
  proof -
    from x have xAB: "x \<in> set A \<union> set B" unfolding uf by (auto simp: as_used_def split: if_splits)
    have "map g (file_blocks f (inode x)) = map f (file_blocks f (inode x))"
      using same x by (auto simp: entry_blocks_def)
    moreover have "file_blocks g (inode x) = file_blocks f (inode x)" using fb(2) [OF xAB] by (simp add: entry_blocks_def)
    ultimately show ?thesis using fb(1) [OF xAB] xAB ug by (simp only: content_def) auto
  qed
  have dist: "distinct (all_blocks g)"
    using dA(2) new unfolding all_g all_f by (cases "inode e' = 0") (auto simp: as_used_def)
  have names: "distinct (map (\<lambda>e. cstr (name e)) (used g))"
    using dA(1) new unfolding ug by (cases "inode e' = 0") (auto simp: as_used_def lookup_None uf)
  have dir: "terminated (name x) \<and> (inode x = 0 \<longleftrightarrow> cstr (name x) = [])" if "x \<in> set (dir_of (g 2))" for x
    using that wf_dir [OF wf] e' set_update_subset_insert [of "dir_of (f 2)" i e'] unfolding d by blast
  have files: "3 \<le> inode x \<and> inode x < tb \<and> inode_ok tb (inode_of (g (inode x)))" if "x \<in> set (used g)" for x
    using that AB wf_used(1-3) [OF wf] fb(1) new unfolding ug by (auto simp: as_used_def split: if_splits)
  have occ: "occupied f - set (concat (map (entry_blocks f) (as_used ?e))) \<union> set (concat (map (entry_blocks g) (as_used e'))) = occupied g"
  proof -
    have "set (concat (map (entry_blocks f) (as_used ?e))) \<inter> {0, 1, 2} = {}"
      using all_blocks_low [OF wf] unfolding all_f by fastforce
    with dA(2) show ?thesis unfolding occupied_def all_g all_f by auto
  qed
  have "occupied g \<subseteq> {k. k < tb}"
  proof -
    have "b < tb" if "b \<in> set (all_blocks g)" for b
    proof -
      from that obtain x where x: "x \<in> set (used g)" "b \<in> set (entry_blocks g x)" by (auto simp: all_blocks_def)
      note fx = files [OF x(1)]
      with file_blocks_eq(2) [of tb g "inode x"] len x(2) show ?thesis by (auto simp: entry_blocks_def)
    qed
    then show ?thesis using wf_system [OF wf] by (auto simp: occupied_def)
  qed
  with bat [unfolded occ] have bits: "\<forall>k < tb. bm_bit (block_words (g 1)) (uint k) \<longleftrightarrow> k \<in> occupied g"
    using taken_words [of "occupied g" tb "block_words (g 1)"] by simp
  show "tfs_wf tb g"
    using wf len dir names files dist bits less_3 unfolding tfs_wf_def by (auto simp: occupied_def)
qed

section \<open>Creating a file\<close>

context block_device begin

lemma create_write_ok:
  assumes st: "tfs_state ready nb tb T" and i: "i < length (buffer_md T)" and n: "n \<le> 127" and sys: "(2 :: u32) < nb"
    and dl: "length (of_dir (buffer_md T) @ md_rest T) = 512"
    and ino: "inode (buffer_md T ! i) < nb" and ks: "\<forall>k \<in> set (take n (block (buffer_inode T))). k < nb"
  obtains T' where "create_write G (int i) (int n) T = Inr (VFS_OK, V_lock T')" "tfs_state ready nb tb T'" "tlock T' = tlock T"
    "blk (disk T') = (\<lambda>b. if b \<in> set (take n (block (buffer_inode T))) then replicate 512 0
       else ((blk (disk T))(1 := buffer_bat T, 2 := of_dir (buffer_md T) @ md_rest T,
         inode (buffer_md T ! i) := of_inode (buffer_inode T))) b)"
proof -
  have one: "(1 :: u32) < nb" using sys by (rule order.strict_trans [rotated]) simp
  obtain d1 where d1: "write_bat G 1 T = Inr (1, T\<lparr>disk := d1\<rparr>)" "blk d1 = (blk (disk T))(1 := buffer_bat T)"
    "tfs_state ready nb tb (T\<lparr>disk := d1\<rparr>)" using write_bat_ok [OF st one] by blast
  have "length (of_dir (buffer_md (T\<lparr>disk := d1\<rparr>)) @ md_rest (T\<lparr>disk := d1\<rparr>)) = 512" using dl by simp
  from write_md_ok [OF d1(3) sys this] obtain d2 where d2: "write_md G 2 (T\<lparr>disk := d1\<rparr>) = Inr (1, T\<lparr>disk := d2\<rparr>)"
    "blk d2 = (blk d1)(2 := of_dir (buffer_md T) @ md_rest T)" "tfs_state ready nb tb (T\<lparr>disk := d2\<rparr>)" by auto
  from write_inode_ok [OF d2(3) ino] obtain d3 where d3:
    "write_inode G (inode (buffer_md T ! i)) (T\<lparr>disk := d2\<rparr>) = Inr (1, T\<lparr>disk := d3\<rparr>)"
    "blk d3 = (blk d2)(inode (buffer_md T ! i) := of_inode (buffer_inode T))" "tfs_state ready nb tb (T\<lparr>disk := d3\<rparr>)"
    by auto
  let ?T = "T\<lparr>disk := d3, buffer_bat := replicate 512 0\<rparr>"
  have "tfs_state ready nb tb ?T" using d3(3) by (simp add: tfs_state_def)
  from zero_blocks_ok [OF this, of 0 n] n ks obtain d4 where d4:
    "zero_blocks G 0 (int n) ?T = Inr (VFS_OK, V_lock (?T\<lparr>disk := d4\<rparr>))" "tfs_state ready nb tb (?T\<lparr>disk := d4\<rparr>)"
    "blk d4 = (\<lambda>b. if b \<in> set (take n (block (buffer_inode T))) then replicate 512 0 else blk d3 b)"
    by (auto cong: if_cong)
  have "rd (buffer_md T) (int i) = Inr (buffer_md T ! i)" using i by simp
  then have "create_write G (int i) (int n) T = Inr (VFS_OK, V_lock (?T\<lparr>disk := d4\<rparr>))"
    using d1(1) d2(1) d3(1) d4(1) by (simp add: create_write_def tfs_sizes)
  with d4(2,3) that show ?thesis unfolding d3(2) d2(2) d1(2) by simp
qed

text \<open>
  The allocation part: with too few free blocks nothing is written; otherwise the inode and the data
  blocks are free blocks, all different, and everything is written.
\<close>

lemma create_alloc_ok:
  assumes st: "tfs_state ready nb tb T" and tb: "uint tb \<le> 4096" and md: "length (buffer_md T) = 25" "i < 25"
    and names: "\<forall>e \<in> set (buffer_md T). length (name e) = 16" "length (md_rest T) = 12"
    and sys: "(2 :: u32) < nb" and n: "n \<le> 127"
  obtains (full) T' where "create_alloc G (int i) (int n) sz T = Inr (VFS_ERROR, V_lock T')" "tfs_state ready nb tb T'"
      "disk T' = disk T" "tlock T' = tlock T" "uint tb < int (card (bat_taken tb T)) + int n + 1"
    | (created) T' ino ks X where "create_alloc G (int i) (int n) sz T = Inr (VFS_OK, V_lock T')" "tfs_state ready nb tb T'"
      "tlock T' = tlock T" "int (card (bat_taken tb T)) + int n + 1 \<le> uint tb"
      "length ks = n" "distinct (ino # ks)" "\<forall>k \<in> set (ino # ks). k < tb \<and> uint k \<notin> bat_taken tb T"
      "length X = 512" "bm.taken (block_words X) (uint tb) = bat_taken tb T \<union> uint ` set (ino # ks)"
      "blk (disk T') = (\<lambda>b. if b \<in> set ks then replicate 512 0 else
        ((blk (disk T))(1 := X, 2 := of_dir ((buffer_md T)[i := (buffer_md T ! i)\<lparr>inode := ino\<rparr>]) @ md_rest T,
          ino := of_inode \<lparr>filesize = word_of_int sz, block = ks @ replicate (127 - n) 0\<rparr>)) b)"
proof -
  have bt: "length (buffer_bat T) = 512" "totalblocks T = tb" "length (block (buffer_inode T)) = 127" "tb \<le> nb"
    using st by (simp_all add: tfs_state_def)
  let ?U = "bat_taken tb T"
  obtain k X where X: "bat_findnset T = Inr (k, T\<lparr>buffer_bat := X\<rparr>)" "length X = 512"
    "if int (card ?U) < uint tb
     then 0 \<le> k \<and> k < uint tb \<and> k \<notin> ?U \<and> bat_taken tb (T\<lparr>buffer_bat := X\<rparr>) = insert k ?U else k = -1"
    by (rule bat_findnset_ok [OF bt(1,2) tb])
  define ino :: u32 where "ino = word_of_int k"
  define md' where "md' = (buffer_md T)[i := (buffer_md T ! i)\<lparr>inode := ino\<rparr>]"
  let ?v = "(buffer_inode T)\<lparr>filesize := word_of_int sz\<rparr>"
  let ?T1 = "T\<lparr>buffer_bat := X, buffer_md := md', buffer_inode := ?v\<rparr>"
  have acc: "rd (buffer_md T) (int i) = Inr (buffer_md T ! i)"
    "wr (buffer_md T) (int i) ((buffer_md T ! i)\<lparr>inode := word_of_int k\<rparr>) = Inr md'"
    using md by (simp_all add: md'_def ino_def)
  have head: "create_alloc G (int i) (int n) sz T =
     (if k = -1 then Inr (VFS_ERROR, V_lock (T\<lparr>buffer_bat := X, buffer_md := md'\<rparr>))
      else rbind (alloc_blocks 0 (int n) ?T1) (\<lambda>(ok, T).
       if \<not> ok then tret VFS_ERROR T
       else rbind (clear_blocks (int n) (block (buffer_inode T))) (\<lambda>bl.
         create_write G (int i) (int n) (T\<lparr>buffer_inode := (buffer_inode T)\<lparr>block := bl\<rparr>\<rparr>))))"
    using X(1) acc by (simp add: create_alloc_def tret_def)
  show ?thesis
  proof (cases "int (card ?U) < uint tb")
    case False
    with X have "k = -1" by simp
    with head X(2) st False full [of "T\<lparr>buffer_bat := X, buffer_md := md'\<rparr>"] show ?thesis by (simp add: tfs_state_def)
  next
    case True
    with X(3) have k: "0 \<le> k" "k < uint tb" "k \<notin> ?U" "bat_taken tb (T\<lparr>buffer_bat := X\<rparr>) = insert k ?U" by simp_all
    have ino: "uint ino = k" unfolding ino_def using k tb by (intro uint_of_int) auto
    have U1: "bat_taken tb ?T1 = insert k ?U" using k(4) by (simp add: bat_taken_def)
    have cU: "int (card (insert k ?U)) = int (card ?U) + 1" using k(3) by (simp add: bat_taken_def)
    from alloc_blocks_ok [of ?T1 tb 0 n] X(2) bt tb n obtain ok X' Y ks where A:
      "alloc_blocks 0 (int n) ?T1 = Inr (ok, ?T1\<lparr>buffer_bat := X', buffer_inode := ?v\<lparr>block := Y\<rparr>\<rparr>)"
      "length X' = 512" "length Y = 127" "ok \<longleftrightarrow> int (card (insert k ?U)) + int n \<le> uint tb"
      "ok \<longrightarrow> alloc_post tb 0 n ?T1 X' Y ks"
      unfolding U1 by auto
    let ?T2 = "?T1\<lparr>buffer_bat := X', buffer_inode := ?v\<lparr>block := Y\<rparr>\<rparr>"
    have k1: "k \<noteq> -1" using k(1) by simp
    show ?thesis
    proof (cases ok)
      case False
      with head A(1) k1 have "create_alloc G (int i) (int n) sz T = Inr (VFS_ERROR, V_lock ?T2)" by (simp add: tret_def)
      moreover have "tfs_state ready nb tb ?T2" using st A(2,3) by (simp add: tfs_state_def)
      ultimately show ?thesis using full [of ?T2] A(4) cU False by simp
    next
      case True
      with A(5) have ks: "length ks = n" "distinct ks" "\<forall>x \<in> set ks. x < tb \<and> uint x \<notin> insert k ?U"
        "Y = splice 0 ks (block (buffer_inode T))" "bat_taken tb (?T1\<lparr>buffer_bat := X'\<rparr>) = insert k ?U \<union> uint ` set ks"
        by (simp_all add: alloc_post_def U1)
      have tk: "take n Y = ks" using ks(1,4) n bt(3) by (simp add: splice_def)
      let ?w = "\<lparr>filesize = word_of_int sz, block = ks @ replicate (127 - n) 0\<rparr> :: tfs_inode_t"
      let ?T3 = "T\<lparr>buffer_bat := X', buffer_md := md', buffer_inode := ?w\<rparr>"
      have "clear_blocks (int n) Y = Inr (ks @ replicate (127 - n) 0)"
        using clear_blocks_eq [OF A(3) n] tk by simp
      then have "create_alloc G (int i) (int n) sz T =
          create_write G (int i) (int n) (?T2\<lparr>buffer_inode := (buffer_inode ?T2)\<lparr>block := ks @ replicate (127 - n) 0\<rparr>\<rparr>)"
        using head A(1) k1 True by simp
      moreover have "?T2\<lparr>buffer_inode := (buffer_inode ?T2)\<lparr>block := ks @ replicate (127 - n) 0\<rparr>\<rparr> = ?T3" by simp
      ultimately have eq: "create_alloc G (int i) (int n) sz T = create_write G (int i) (int n) ?T3" by metis
      have inolt: "ino < tb" using k(2) ino by (simp add: word_less_def)
      have st3: "tfs_state ready nb tb ?T3" using st A(2) ks(1) n by (simp add: tfs_state_def)
      have lm: "length md' = 25" "md' ! i = (buffer_md T ! i)\<lparr>inode := ino\<rparr>" using md by (simp_all add: md'_def)
      have nm: "length (name e) = 16" if "e \<in> set md'" for e
        using that names(1) md set_update_subset_insert [of "buffer_md T" i] unfolding md'_def by fastforce
      have "length (of_dir (buffer_md ?T3) @ md_rest ?T3) = 512" using of_dir_length [OF nm] lm(1) names(2) by simp
      moreover have "inode (buffer_md ?T3 ! i) < nb" using lm(2) inolt bt(4) by simp
      moreover have t3: "take n (block (buffer_inode ?T3)) = ks" using ks(1) by simp
      moreover have "\<forall>x \<in> set (take n (block (buffer_inode ?T3))). x < nb" using t3 ks(3) bt(4) by auto
      ultimately obtain T' where W: "create_write G (int i) (int n) ?T3 = Inr (VFS_OK, V_lock T')" "tfs_state ready nb tb T'"
        "tlock T' = tlock T" "blk (disk T') = (\<lambda>b. if b \<in> set ks then replicate 512 0
          else ((blk (disk T))(1 := X', 2 := of_dir md' @ md_rest T, ino := of_inode ?w)) b)"
        using create_write_ok [OF st3, of i n] md lm n sys by (auto cong: if_cong)
      have "ino \<notin> set ks" using ks(3) ino by auto
      moreover have "bm.taken (block_words X') (uint tb) = ?U \<union> uint ` set (ino # ks)"
        using ks(5) ino by (auto simp: bat_taken_def)
      moreover have "\<forall>x \<in> set (ino # ks). x < tb \<and> uint x \<notin> ?U" using ks(3) inolt k(3) ino by auto
      moreover have "int (card ?U) + int n + 1 \<le> uint tb" using A(4) True cU by simp
      ultimately show ?thesis
        using created [of T' ks ino X'] eq W A(2) ks(1,2) unfolding md'_def by simp
    qed
  qed
qed

end

lemma card_uint: "card (uint ` S) = card (S :: u32 set)"
  by (rule card_image) (auto intro: inj_onI dest: unsigned_word_eqI)

definition blocks_for :: "int \<Rightarrow> nat" where
  "blocks_for sz = (nat sz + 511) div 512"

lemma numblocks_eq:
  assumes "0 \<le> sz" "sz \<le> 65024"
  shows "uint (word_of_int (swrap (sz + TFS_BLOCK_SIZE - 1) sdiv TFS_BLOCK_SIZE) :: u32) = int (blocks_for sz)"
    "blocks_for sz \<le> 127" "unat (word_of_int sz :: u32) = nat sz"
proof -
  have d: "swrap (sz + TFS_BLOCK_SIZE - 1) sdiv TFS_BLOCK_SIZE = int (blocks_for sz)"
    using assms by (simp add: tfs_sizes blocks_for_def zdiv_int)
  show "blocks_for sz \<le> 127" using assms by (simp add: blocks_for_def)
  then show "uint (word_of_int (swrap (sz + TFS_BLOCK_SIZE - 1) sdiv TFS_BLOCK_SIZE) :: u32) = int (blocks_for sz)"
    unfolding d by (intro uint_of_int) auto
  show "unat (word_of_int sz :: u32) = nat sz" using assms uint_of_int [of sz] by (simp add: unat_eq_nat_uint)
qed

lemma zero_content: "(\<And>b. b \<in> set bs \<Longrightarrow> f b = replicate 512 0) \<Longrightarrow> concat (map f bs) = replicate (512 * length bs) 0"
  by (induction bs) (auto simp: replicate_add)

text \<open>The volume after a file has been added.\<close>

lemma wf_add:
  assumes wf: "tfs_wf tb f" and i: "i < 25" "inode (dir_of (f 2) ! i) = 0"
    and nm: "length nm = 16" "terminated nm" "cstr nm \<noteq> []" "lookup f (cstr nm) = None"
    and sz: "0 \<le> sz" "sz \<le> 65024" and ks: "length ks = blocks_for sz" "distinct (ino # ks)"
      "\<forall>k \<in> set (ino # ks). k < tb \<and> uint k \<notin> uint ` occupied f"
    and X: "length X = 512" "bm.taken (block_words X) (uint tb) = uint ` occupied f \<union> uint ` set (ino # ks)"
    and g: "g = (\<lambda>b. if b \<in> set ks then replicate 512 0 else
        (f(1 := X, 2 := of_dir ((dir_of (f 2))[i := \<lparr>inode = ino, name = nm\<rparr>]) @ drop 500 (f 2),
          ino := of_inode \<lparr>filesize = word_of_int sz, block = ks @ replicate (127 - length ks) 0\<rparr>)) b)"
  shows "tfs_wf tb g" "lookup g = (lookup f)(cstr nm \<mapsto> ino)" "content g ino = replicate (nat sz) 0"
    "\<And>n j. lookup f n = Some j \<Longrightarrow> content g j = content f j"
proof -
  let ?v = "\<lparr>filesize = word_of_int sz, block = ks @ replicate (127 - length ks) 0\<rparr> :: tfs_inode_t"
  let ?e = "\<lparr>inode = ino, name = nm\<rparr> :: tfs_direntry_t" and ?d = "dir_of (f 2)"
  note nb = numblocks_eq [OF sz]
  have occ: "x \<noteq> 0 \<and> x \<noteq> 1 \<and> x \<noteq> 2 \<and> x \<notin> set (all_blocks f)" if "x \<in> set (ino # ks)" for x
    using ks(3) that by (auto simp: occupied_def)
  have low: "3 \<le> x" if "x \<in> set (ino # ks)" for x using occ [OF that] less_3 [of x] by (auto simp: not_less)
  have f2: "length (f 2) = 512" using wf wf_system [OF wf, of 2] by (auto simp: tfs_wf_def)
  have names: "length (name e) = 16" if "e \<in> set (?d[i := ?e])" for e
    using that dir_of_name [OF f2] nm(1) set_update_subset_insert [of ?d i ?e] by fastforce
  have inoks: "ino \<notin> set ks" using ks(2) by simp
  have gx: "g 1 = X" "g 2 = of_dir (?d[i := ?e]) @ drop 500 (f 2)" "g ino = of_inode ?v"
    using occ inoks unfolding g by auto
  have d: "dir_of (g 2) = ?d[i := ?e]" unfolding gx by (rule dir_of_dir) (use names in auto)
  have nbv: "nblocks_of ?v = length ks" "take (length ks) (block ?v) = ks"
    using nb(3) ks(1) by (simp_all add: nblocks_of_def blocks_for_def)
  have fb: "file_blocks g ino = ks" by (simp only: file_blocks_def gx(3) inode_of_inode Let_def nbv)
  then have eb: "entry_blocks g ?e = ino # ks" by (simp add: entry_blocks_def)
  have iok: "inode_ok tb (inode_of (g (inode ?e)))"
    using nb(2,3) ks(1,3) sz low nbv(1) by (simp add: gx(3) inode_ok_def nth_append)
  have len: "\<forall>b < tb. length (g b) = 512"
  proof (intro allI impI)
    fix b assume that: "b < tb"
    have "length (of_dir (?d[i := ?e]) @ drop 500 (f 2)) = 512" using of_dir_length [OF names] f2 by simp
    moreover have "length (of_inode ?v) = 512" using nb(2) ks(1) by (intro of_inode_length) simp
    moreover have "length (f b) = 512" using wf that by (simp add: tfs_wf_def)
    ultimately show "length (g b) = 512" using X(1) unfolding g by auto
  qed
  have same: "\<forall>x \<in> set (used f). x \<noteq> ?d ! i \<longrightarrow> (\<forall>b \<in> set (entry_blocks f x). g b = f b)"
  proof (intro ballI impI)
    fix x b assume "x \<in> set (used f)" "b \<in> set (entry_blocks f x)"
    then have b: "b \<in> set (all_blocks f)" by (auto simp: all_blocks_def)
    then have "b \<noteq> 1" "b \<noteq> 2" "b \<notin> set (ino # ks)" using all_blocks_low [OF wf b] occ by auto
    then show "g b = f b" unfolding g by simp
  qed
  have as: "as_used (?d ! i) = []" "as_used ?e = [?e]" using i(2) occ by (auto simp: as_used_def)
  have ne: "x \<noteq> ?d ! i" if "x \<in> set (used f)" for x using that i(2) by (auto simp: used_iff)
  have bat: "bm.taken (block_words (g 1)) (uint tb) =
      uint ` (occupied f - set (concat (map (entry_blocks f) (as_used (?d ! i)))) \<union> set (concat (map (entry_blocks g) (as_used ?e))))"
    unfolding as gx(1) X(2) by (simp add: eb image_Un)
  have new: "inode ?e \<noteq> 0 \<longrightarrow> lookup f (cstr (name ?e)) = None \<and> 3 \<le> inode ?e \<and> inode ?e < tb \<and> inode_ok tb (inode_of (g (inode ?e))) \<and>
      distinct (entry_blocks g ?e) \<and> set (entry_blocks g ?e) \<inter> set (all_blocks f) = {}"
    using nm(4) low ks(2,3) iok occ unfolding eb by auto
  have e1: "terminated (name ?e)" "inode ?e = 0 \<longleftrightarrow> cstr (name ?e) = []" using nm occ by auto
  note rep = wf_replace [OF wf i(1) d len e1 new same bat]
  show wfg: "tfs_wf tb g" by (rule rep(1))
  have ug: "set (used g) = insert ?e (set (used f))" using rep(3) ne unfolding as by auto
  show "lookup g = (lookup f)(cstr nm \<mapsto> ino)"
  proof
    fix n
    show "lookup g n = ((lookup f)(cstr nm \<mapsto> ino)) n"
    proof (cases "n = cstr nm")
      case True
      then have "lookup g n = Some ino" using ug by (auto simp: lookup_Some [OF wfg])
      with True show ?thesis by simp
    next
      case False
      then have "lookup g n = Some j \<longleftrightarrow> lookup f n = Some j" for j
        using ug by (auto simp: lookup_Some [OF wfg] lookup_Some [OF wf])
      with False show ?thesis by (cases "lookup f n") (auto simp: option.expand)
    qed
  qed
  have "concat (map g ks) = replicate (512 * length ks) 0" by (rule zero_content) (simp add: g)
  moreover have "nat sz \<le> 512 * length ks" using filesize_blocks [of ?v] nbv(1) nb(3) by simp
  ultimately show "content g ino = replicate (nat sz) 0"
    by (simp add: content_def fb gx(3) nb(3) min_absorb1)
  show "content g j = content f j" if "lookup f n = Some j" for n j
    using that rep(2) ne by (auto simp: lookup_Some [OF wf])
qed

context block_device begin

lemma create_effect:
  assumes inv: "tfs_inv ready blk nb tb T" and fn: "terminated fn" "cstr fn \<noteq> []" "length (cstr fn) \<le> 15"
    and sz: "0 \<le> sz" "sz \<le> 65024"
  obtains (refused) T' where "tfs_create G fn sz T = Inr (VFS_ERROR, T')" "tfs_inv ready blk nb tb T'"
      "blk (disk T') = blk (disk T)"
      "lookup (blk (disk T)) (cstr fn) \<noteq> None \<or> (\<forall>e \<in> set (dir_of (blk (disk T) 2)). inode e \<noteq> 0) \<or>
       uint tb < int (card (occupied (blk (disk T)))) + int (blocks_for sz) + 1"
    | (created) T' ino where "tfs_create G fn sz T = Inr (VFS_OK, T')" "tfs_inv ready blk nb tb T'"
      "lookup (blk (disk T)) (cstr fn) = None" "lookup (blk (disk T')) = (lookup (blk (disk T)))(cstr fn \<mapsto> ino)"
      "content (blk (disk T')) ino = replicate (nat sz) 0"
      "\<And>n j. lookup (blk (disk T)) n = Some j \<Longrightarrow> content (blk (disk T')) j = content (blk (disk T)) j"
      "int (card (occupied (blk (disk T)))) + int (blocks_for sz) + 1 \<le> uint tb"
proof -
  let ?f = "blk (disk T)" and ?n = "blocks_for sz"
  let ?d = "dir_of (?f 2)"
  note nb = numblocks_eq [OF sz]
  have wf: "tfs_wf tb ?f" and st: "tfs_state ready nb tb (T\<lparr>tlock := 0\<rparr>)" and l: "tlock T = 1" and tb: "tb \<le> nb"
    using inv by (simp_all add: tfs_inv_def tfs_state_def)
  have two: "(2 :: u32) < nb" "(1 :: u32) < nb" using wf_system [OF wf, of 2] wf_system [OF wf, of 1] tb by auto
  have f2: "length (?f 2) = 512" using wf wf_system [OF wf, of 2] by (auto simp: tfs_wf_def)
  from read_md_ok [OF st two(1)] obtain d where
    d: "read_md G 2 (T\<lparr>tlock := 0\<rparr>) = Inr (1, T\<lparr>tlock := 0, disk := d, buffer_md := ?d, md_rest := drop 500 (?f 2)\<rparr>)"
    "blk d = ?f" "tfs_state ready nb tb (T\<lparr>tlock := 0, disk := d, buffer_md := ?d, md_rest := drop 500 (?f 2)\<rparr>)"
    by auto
  let ?T = "T\<lparr>tlock := 0, disk := d, buffer_md := ?d, md_rest := drop 500 (?f 2)\<rparr>"
  have stop: "tfs_inv ready blk nb tb (V_lock T')" "blk (disk (V_lock T')) = ?f"
    if "tfs_state ready nb tb T'" "blk (disk T') = ?f" "tlock T' = 0" for T'
    using that wf by (simp_all add: tfs_inv_def)
  have head: "tfs_create G fn sz T =
      rbind (find_slot fn ?d 0 (-1)) (\<lambda>slot.
        case slot of
          None \<Rightarrow> tret VFS_ERROR ?T
        | Some index \<Rightarrow>
            if index = -1 then tret VFS_ERROR ?T
            else
              rbind (rd ?d index) (\<lambda>e.
              rbind (stringcopy (name e) fn 16) (\<lambda>nm.
              rbind (wr ?d index (e\<lparr>name := nm\<rparr>)) (\<lambda>md.
              transfer_then (read_bat G 1 (?T\<lparr>buffer_md := md\<rparr>)) (create_alloc G index (int ?n) sz)))))"
    using l d(1) nb(2) unfolding tfs_create_def nb(1) Let_def
    by (simp add: tfs_sizes cong: option.case_cong if_cong)
  show ?thesis
  proof (cases rule: find_slot_wf [OF wf fn(1,2)])
    case 1
    with head refused [of "V_lock ?T"] stop [OF d(3)] d(2) show ?thesis by (simp add: tret_def)
  next
    case 2
    with head refused [of "V_lock ?T"] stop [OF d(3)] d(2) show ?thesis by (simp add: tret_def)
  next
    case (3 i)
    define nm where "nm = cstr fn @ 0 # drop (Suc (length (cstr fn))) (name (?d ! i))"
    define md where "md = ?d[i := (?d ! i)\<lparr>name := nm\<rparr>]"
    have "?d ! i \<in> set ?d" using 3(3) by simp
    then have ln: "length (name (?d ! i)) = 16" by (rule dir_of_name [OF f2])
    have cp: "stringcopy (name (?d ! i)) fn 16 = Inr nm"
      using stringcopy_eq [of 16 "name (?d ! i)" fn "cstr fn"] ln fn(1,3) by (simp add: nm_def)
    have nm: "length nm = 16" "terminated nm" "cstr nm = cstr fn"
      using ln fn(3) cstr_append_0 [OF cstr_no_0] by (simp_all add: nm_def terminated_def)
    have stm: "tfs_state ready nb tb (?T\<lparr>buffer_md := md\<rparr>)" using d(3) by (simp add: tfs_state_def)
    from read_bat_ok [OF stm two(2)] d(2) obtain d' where
      d': "read_bat G 1 (?T\<lparr>buffer_md := md\<rparr>) = Inr (1, ?T\<lparr>buffer_md := md, disk := d', buffer_bat := ?f 1\<rparr>)" "blk d' = ?f"
      "tfs_state ready nb tb (?T\<lparr>buffer_md := md, disk := d', buffer_bat := ?f 1\<rparr>)" by auto
    let ?T2 = "?T\<lparr>buffer_md := md, disk := d', buffer_bat := ?f 1\<rparr>"
    have eq: "tfs_create G fn sz T = create_alloc G (int i) (int ?n) sz ?T2"
      using head 3 cp d'(1) by (simp add: md_def)
    have U: "bat_taken tb ?T2 = uint ` occupied ?f" using wf_taken [OF wf] by (simp add: bat_taken_def)
    have md: "length md = 25" "md ! i = \<lparr>inode = inode (?d ! i), name = nm\<rparr>" using 3(3) by (simp_all add: md_def)
    have mdn: "\<forall>e \<in> set md. length (name e) = 16"
      using dir_of_name [OF f2] nm(1) set_update_subset_insert [of ?d i] unfolding md_def by fastforce
    have pre: "uint tb \<le> 4096" "length (buffer_md ?T2) = 25" "i < 25" "\<forall>e \<in> set (buffer_md ?T2). length (name e) = 16"
      "length (md_rest ?T2) = 12" "?n \<le> 127"
      using wf_small [OF wf, of tb] md(1) 3(3) mdn f2 nb(2) by simp_all
    show ?thesis
    proof (cases rule: create_alloc_ok [OF d'(3) pre(1-5) two(1) pre(6), of sz])
      case (1 T')
      then show ?thesis using refused [of "V_lock T'"] stop [of T'] eq d'(2) U by (auto simp: card_uint)
    next
      case (2 T' ino ks X)
      have mdu: "md[i := (md ! i)\<lparr>inode := ino\<rparr>] = ?d[i := \<lparr>inode = ino, name = nm\<rparr>]" using md(2) by (simp add: md_def)
      have g: "blk (disk T') = (\<lambda>b. if b \<in> set ks then replicate 512 0 else
          (?f(1 := X, 2 := of_dir (?d[i := \<lparr>inode = ino, name = nm\<rparr>]) @ drop 500 (?f 2),
            ino := of_inode \<lparr>filesize = word_of_int sz, block = ks @ replicate (127 - length ks) 0\<rparr>)) b)"
        using 2(10) mdu 2(5) d'(2) by (simp cong: if_cong)
      have look: "lookup ?f (cstr nm) = None" "cstr nm \<noteq> []" using 3(2) nm(3) fn(2) by simp_all
      note add = wf_add [OF wf 3(3,4) nm(1,2) look(2,1) sz 2(5,6) 2(7) [unfolded U] 2(8) 2(9) [unfolded U] g]
      show ?thesis
        using created [of "V_lock T'" ino] 2(1-4) eq add 3(2) U nm(3) by (simp add: tfs_inv_def card_uint)
    qed
  qed
qed

end

section \<open>Removing a file\<close>

lemma bitmap_clear:
  assumes "length bm = 128" "uint (tb :: u32) \<le> 4096" "0 \<le> k" "k < uint tb"
  obtains bm' where "bitmap_set bm k 0 = Inr bm'" "length bm' = 128"
    "bm.taken bm' (uint tb) = bm.taken bm (uint tb) - {k}"
proof -
  have "k < 32 * int (length bm)" using assms by simp
  with bitmap_set_eq [OF assms(3) this, of 0] obtain bm' where b: "bitmap_set bm k 0 = Inr bm'" "bm_upd bm k False bm'" by auto
  moreover have "bm_fits bm (uint tb)" using assms by (simp add: bm_fits_def)
  from bm.mark_taken [OF this assms(3,4), of 0] b(1) have "bm.taken bm' (uint tb) = bm.taken bm (uint tb) - {k}" by auto
  ultimately show ?thesis using that assms(1) by (simp add: bm_upd_def)
qed

lemma free_blocks_ok:
  assumes "length bm = 128" "uint tb \<le> 4096" "length bl = 127" "i \<le> n" "n < 127" "bl ! n = 0"
    and "\<forall>j < n. 3 \<le> bl ! j \<and> bl ! j < tb"
  shows "\<exists>bm'. free_blocks bl (int i) bm = Inr bm' \<and> length bm' = 128 \<and>
    bm.taken bm' (uint tb) = bm.taken bm (uint tb) - uint ` set (drop i (take n bl))"
  using assms(1,4)
proof (induction "n - i" arbitrary: i bm)
  case 0
  with assms show ?case by (subst free_blocks.simps) simp
next
  case (Suc r)
  then have i: "i < n" "r = n - Suc i" by simp_all
  let ?b = "bl ! i"
  have b: "3 \<le> ?b" "?b < tb" using assms(7) i by blast+
  then have ne: "?b \<noteq> 0" and lt: "uint ?b < uint tb" using less_3 [of ?b] by (auto simp: word_less_def)
  have si: "sint ?b = uint ?b" using sint_small [of ?b] lt assms(2) by simp
  obtain bm1 where b1: "bitmap_set bm (uint ?b) 0 = Inr bm1" "length bm1 = 128"
    "bm.taken bm1 (uint tb) = bm.taken bm (uint tb) - {uint ?b}"
    by (rule bitmap_clear [OF Suc.prems(1) assms(2) _ lt]) simp
  from Suc.hyps(1) [OF i(2) b1(2)] i(1) obtain bm2 where
    b2: "free_blocks bl (int (Suc i)) bm1 = Inr bm2" "length bm2 = 128"
    "bm.taken bm2 (uint tb) = bm.taken bm1 (uint tb) - uint ` set (drop (Suc i) (take n bl))" by auto
  have "free_blocks bl (int i) bm = Inr bm2"
    using i assms(3,5) ne si b1(1) b2(1) by (subst free_blocks.simps) (simp add: tfs_sizes add.commute)
  moreover have "drop i (take n bl) = ?b # drop (Suc i) (take n bl)"
    using i assms(3,5) Cons_nth_drop_Suc [of i "take n bl"] by simp
  ultimately show ?case using b1(3) b2(2,3) by auto
qed

text \<open>The volume after a file has been removed.\<close>

lemma wf_drop:
  assumes wf: "tfs_wf tb f" and i: "i < 25" "dir_of (f 2) ! i = e" "e \<in> set (used f)"
    and X: "length X = 512" "bm.taken (block_words X) (uint tb) = uint ` occupied f - uint ` set (entry_blocks f e)"
    and nm: "length nm = 16" "terminated nm" "cstr nm = []"
    and g: "g = f(1 := X, 2 := of_dir ((dir_of (f 2))[i := \<lparr>inode = 0, name = nm\<rparr>]) @ drop 500 (f 2))"
  shows "tfs_wf tb g" "lookup g = (lookup f)(cstr (name e) := None)"
    "\<And>n j. lookup f n = Some j \<Longrightarrow> n \<noteq> cstr (name e) \<Longrightarrow> content g j = content f j"
proof -
  let ?e = "\<lparr>inode = 0, name = nm\<rparr> :: tfs_direntry_t" and ?d = "dir_of (f 2)"
  have f2: "length (f 2) = 512" using wf wf_system [OF wf, of 2] by (auto simp: tfs_wf_def)
  have names: "length (name x) = 16" if "x \<in> set (?d[i := ?e])" for x
    using that dir_of_name [OF f2] nm(1) set_update_subset_insert [of ?d i ?e] by fastforce
  have d: "dir_of (g 2) = ?d[i := ?e]" using dir_of_dir [OF names] by (simp add: g)
  have len: "\<forall>b < tb. length (g b) = 512"
    using wf X(1) of_dir_length [OF names] f2 by (auto simp: g tfs_wf_def)
  have same: "\<forall>x \<in> set (used f). x \<noteq> ?d ! i \<longrightarrow> (\<forall>b \<in> set (entry_blocks f x). g b = f b)"
    using all_blocks_low [OF wf] by (auto simp: g all_blocks_def)
  have as: "as_used (?d ! i) = [e]" "as_used ?e = []" using i by (auto simp: as_used_def used_iff)
  have inj: "inj_on uint (UNIV :: u32 set)" by (auto intro: inj_onI dest: unsigned_word_eqI)
  have bat: "bm.taken (block_words (g 1)) (uint tb) =
      uint ` (occupied f - set (concat (map (entry_blocks f) (as_used (?d ! i)))) \<union> set (concat (map (entry_blocks g) (as_used ?e))))"
    unfolding as using X(2) by (simp add: g inj_on_image_set_diff [OF inj])
  have new: "inode ?e \<noteq> 0 \<longrightarrow> lookup f (cstr (name ?e)) = None \<and> 3 \<le> inode ?e \<and> inode ?e < tb \<and>
      inode_ok tb (inode_of (g (inode ?e))) \<and> distinct (entry_blocks g ?e) \<and> set (entry_blocks g ?e) \<inter> set (all_blocks f) = {}"
    by simp
  have e1: "terminated (name ?e)" "inode ?e = 0 \<longleftrightarrow> cstr (name ?e) = []" using nm by auto
  note rep = wf_replace [OF wf i(1) d len e1 new same bat]
  show wfg: "tfs_wf tb g" by (rule rep(1))
  have ug: "set (used g) = set (used f) - {e}" using rep(3) unfolding as i(2) by simp
  have uniq: "x = e" if "x \<in> set (used f)" "cstr (name x) = cstr (name e)" for x
    using wf that i(3) unfolding tfs_wf_def by (metis (mono_tags, lifting) distinct_map inj_on_eq_iff)
  show "lookup g = (lookup f)(cstr (name e) := None)"
  proof
    fix n
    show "lookup g n = ((lookup f)(cstr (name e) := None)) n"
    proof (cases "n = cstr (name e)")
      case True
      then have "lookup g n = None" using ug uniq by (auto simp: lookup_None)
      with True show ?thesis by simp
    next
      case False
      then have "lookup g n = Some j \<longleftrightarrow> lookup f n = Some j" for j
        using ug by (auto simp: lookup_Some [OF wfg] lookup_Some [OF wf])
      with False show ?thesis by (cases "lookup f n") (auto simp: option.expand)
    qed
  qed
  show "content g j = content f j" if "lookup f n = Some j" "n \<noteq> cstr (name e)" for n j
    using that rep(2) i(2) by (auto simp: lookup_Some [OF wf])
qed

context block_device begin

lemma remove_effect:
  assumes inv: "tfs_inv ready blk nb tb T" and fn: "terminated fn" "cstr fn \<noteq> []"
  obtains (missing) T' where "tfs_remove G fn T = Inr (VFS_NOT_FOUND, T')" "tfs_inv ready blk nb tb T'"
      "blk (disk T') = blk (disk T)" "lookup (blk (disk T)) (cstr fn) = None"
    | (removed) T' ino where "lookup (blk (disk T)) (cstr fn) = Some ino"
      "length (file_blocks (blk (disk T)) ino) < 127 \<Longrightarrow> tfs_remove G fn T = Inr (VFS_OK, T') \<and> tfs_inv ready blk nb tb T' \<and>
        lookup (blk (disk T')) = (lookup (blk (disk T)))(cstr fn := None) \<and>
        (\<forall>n j. lookup (blk (disk T)) n = Some j \<longrightarrow> n \<noteq> cstr fn \<longrightarrow> content (blk (disk T')) j = content (blk (disk T)) j)"
      "length (file_blocks (blk (disk T)) ino) = 127 \<Longrightarrow> tfs_remove G fn T = Inl Fault"
proof -
  let ?f = "blk (disk T)"
  let ?d = "dir_of (?f 2)"
  have wf: "tfs_wf tb ?f" and st: "tfs_state ready nb tb (T\<lparr>tlock := 0\<rparr>)" and l: "tlock T = 1" and tb: "tb \<le> nb"
    using inv by (simp_all add: tfs_inv_def tfs_state_def)
  have two: "(2 :: u32) < nb" "(1 :: u32) < nb" using wf_system [OF wf, of 2] wf_system [OF wf, of 1] tb by auto
  have f12: "length (?f 2) = 512" "length (?f 1) = 512"
    using wf wf_system [OF wf, of 2] wf_system [OF wf, of 1] by (auto simp: tfs_wf_def)
  from read_md_ok [OF st two(1)] obtain d where
    d: "read_md G 2 (T\<lparr>tlock := 0\<rparr>) = Inr (1, T\<lparr>tlock := 0, disk := d, buffer_md := ?d, md_rest := drop 500 (?f 2)\<rparr>)"
    "blk d = ?f" "tfs_state ready nb tb (T\<lparr>tlock := 0, disk := d, buffer_md := ?d, md_rest := drop 500 (?f 2)\<rparr>)"
    by auto
  let ?T = "T\<lparr>tlock := 0, disk := d, buffer_md := ?d, md_rest := drop 500 (?f 2)\<rparr>"
  show ?thesis
  proof (cases rule: scan_dir [OF wf fn])
    case 2
    then have "tfs_remove G fn T = Inr (VFS_NOT_FOUND, V_lock ?T)"
      using l d(1) by (simp add: tfs_remove_def TFS_DIRECTORY_BLOCK_def tret_def)
    moreover have "tfs_inv ready blk nb tb (V_lock ?T)" using d(2,3) wf by (simp add: tfs_inv_def)
    ultimately show ?thesis using missing [of "V_lock ?T"] 2(2) d(2) by simp
  next
    case (1 i)
    define k where "k = nat i"
    define e where "e = ?d ! k"
    have k: "i = int k" "k < 25" using 1(2,3) by (auto simp: k_def)
    have e: "e \<in> set (used ?f)" "cstr (name e) = cstr fn" "lookup ?f (cstr fn) = Some (inode e)"
      using 1(4-6) by (simp_all add: e_def k_def)
    note u = wf_used [OF wf e(1)]
    let ?v = "inode_of (?f (inode e))"
    have inb: "inode e < nb" using u(2) tb by simp
    from read_bat_ok [OF d(3) two(2)] d(2) obtain d1 where
      d1: "read_bat G 1 ?T = Inr (1, ?T\<lparr>disk := d1, buffer_bat := ?f 1\<rparr>)" "blk d1 = ?f"
      "tfs_state ready nb tb (?T\<lparr>disk := d1, buffer_bat := ?f 1\<rparr>)" by auto
    let ?T1 = "?T\<lparr>disk := d1, buffer_bat := ?f 1\<rparr>"
    obtain d2 where d2: "read_inode G (inode e) ?T1 = Inr (1, ?T1\<lparr>disk := d2, buffer_inode := ?v\<rparr>)"
      "blk d2 = ?f" "tfs_state ready nb tb (?T1\<lparr>disk := d2, buffer_inode := ?v\<rparr>)"
      by (rule read_inode_ok [OF d1(3) inb]) (simp add: d1(2))
    let ?T2 = "?T1\<lparr>disk := d2, buffer_inode := ?v\<rparr>"
    have small: "uint tb \<le> 4096" "sint (inode e) = uint (inode e)" "uint (inode e) < uint tb"
      using wf_small [OF wf, of tb] wf_small [OF wf less_imp_le [OF u(2)]] u(2) by (simp_all add: word_less_def)
    obtain bm1 where b1: "bitmap_set (block_words (?f 1)) (uint (inode e)) 0 = Inr bm1" "length bm1 = 128"
      "bm.taken bm1 (uint tb) = bm.taken (block_words (?f 1)) (uint tb) - {uint (inode e)}"
      by (rule bitmap_clear [OF _ small(1) _ small(3), of "block_words (?f 1)"]) (use f12 in auto)
    have nlen: "length (name e) = 16" using e(1) dir_of_name [OF f12(1)] by (auto simp: used_iff)
    define nm where "nm = (name e)[0 := 0]"
    have nm: "length nm = 16" "terminated nm" "cstr nm = []"
      using nlen by (cases "name e"; simp add: nm_def)+
    let ?md = "?d[k := e\<lparr>inode := 0, name := nm\<rparr>]"
    have mdq: "e\<lparr>inode := 0, name := nm\<rparr> = \<lparr>inode = 0, name = nm\<rparr>" by simp
    have head: "tfs_remove G fn T =
        rbind (free_blocks (block ?v) 0 bm1) (\<lambda>bm.
          transfer_then (write_bat G 1 (?T2\<lparr>buffer_bat := words_block bm, buffer_md := ?md\<rparr>)) (\<lambda>T.
          transfer_then (write_md G 2 T) (tret VFS_OK)))"
    proof -
      have "wr (name e) 0 0 = Inr nm" using nlen by (simp add: nm_def)
      then show ?thesis
        using l d(1) d1(1) d2(1) 1(1) k b1(1) small(2)
        by (simp add: tfs_remove_def tfs_sizes flip: e_def)
    qed
    have bl: "length (block ?v) = 127" by (rule inode_of_length [OF u(4)])
    let ?n = "nblocks_of ?v"
    have fb: "length (file_blocks ?f (inode e)) = ?n" by (rule u(6))
    have nle: "?n \<le> 127" using u(3) by (auto simp: inode_ok_def nblocks_of_def)
    have low: "\<forall>j < ?n. 3 \<le> block ?v ! j \<and> block ?v ! j < tb"
      using u(3) nle by (auto simp: inode_ok_def)
    show ?thesis
    proof (cases "?n < 127")
      case True
      have "block ?v ! ?n = 0" using u(3) True by (auto simp: inode_ok_def)
      from free_blocks_ok [OF b1(2) small(1) bl _ True this low, of 0] obtain bm2 where
        b2: "free_blocks (block ?v) 0 bm1 = Inr bm2" "length bm2 = 128"
        "bm.taken bm2 (uint tb) = bm.taken bm1 (uint tb) - uint ` set (take ?n (block ?v))" by auto
      let ?T3 = "?T2\<lparr>buffer_bat := words_block bm2, buffer_md := ?md\<rparr>"
      have "tfs_state ready nb tb ?T3" using d2(3) b2(2) by (simp add: tfs_state_def)
      from write_bat_ok [OF this two(2)] obtain d3 where d3: "write_bat G 1 ?T3 = Inr (1, ?T3\<lparr>disk := d3\<rparr>)"
        "blk d3 = (blk d2)(1 := words_block bm2)" "tfs_state ready nb tb (?T3\<lparr>disk := d3\<rparr>)" by auto
      have names: "length (name x) = 16" if "x \<in> set ?md" for x
        using that dir_of_name [OF f12(1)] nm(1) set_update_subset_insert [of ?d k] by fastforce
      have "length (of_dir (buffer_md (?T3\<lparr>disk := d3\<rparr>)) @ md_rest (?T3\<lparr>disk := d3\<rparr>)) = 512"
        using of_dir_length [OF names] f12(1) by simp
      from write_md_ok [OF d3(3) two(1) this] obtain d4 where d4:
        "write_md G 2 (?T3\<lparr>disk := d3\<rparr>) = Inr (1, ?T3\<lparr>disk := d4\<rparr>)"
        "blk d4 = (blk d3)(2 := of_dir ?md @ drop 500 (?f 2))" "tfs_state ready nb tb (?T3\<lparr>disk := d4\<rparr>)" by auto
      have res: "tfs_remove G fn T = Inr (VFS_OK, V_lock (?T3\<lparr>disk := d4\<rparr>))"
        using head b2(1) d3(1) d4(1) by (simp add: tret_def)
      have taken: "bm.taken (block_words (words_block bm2)) (uint tb) = uint ` occupied ?f - uint ` set (entry_blocks ?f e)"
        using b1(3) b2(3) wf_taken [OF wf] by (auto simp: entry_blocks_def file_blocks_def)
      have "blk d4 = ?f(1 := words_block bm2, 2 := of_dir (?d[k := \<lparr>inode = 0, name = nm\<rparr>]) @ drop 500 (?f 2))"
        by (simp only: d2(2) d3(2) d4(2) mdq)
      note dr = wf_drop [OF wf k(2) e_def [symmetric] e(1) _ taken nm this]
      show ?thesis
        by (rule removed [OF e(3), of "V_lock (?T3\<lparr>disk := d4\<rparr>)"])
          (use res dr b2(2) d4(3) e(2) fb True in \<open>auto simp: tfs_inv_def\<close>)
    next
      case False
      with nle have n: "?n = 127" by simp
      have "free_blocks (block ?v) (int i) bm = Inl Fault" if "length bm = 128" "i \<le> 127" for i bm
        using that
      proof (induction "127 - i" arbitrary: i bm)
        case 0
        with bl show ?case by (subst free_blocks.simps) (simp add: rd_def)
      next
        case (Suc r)
        then have i: "i < 127" "r = 127 - Suc i" by simp_all
        let ?b = "block ?v ! i"
        have b: "3 \<le> ?b" "?b < tb" using low n i by simp_all
        then have ne: "?b \<noteq> 0" and lt: "uint ?b < uint tb" using less_3 [of ?b] by (auto simp: word_less_def)
        have si: "sint ?b = uint ?b" using sint_small [of ?b] lt small(1) by simp
        obtain bm' where b': "bitmap_set bm (uint ?b) 0 = Inr bm'" "length bm' = 128"
          by (rule bitmap_clear [OF Suc.prems(1) small(1) _ lt]) simp
        from Suc.hyps(1) [OF i(2) b'(2)] i(1) have "free_blocks (block ?v) (int (Suc i)) bm' = Inl Fault" by simp
        with i bl ne si b'(1) show ?case by (subst free_blocks.simps) (simp add: tfs_sizes add.commute)
      qed
      from this [OF b1(2), of 0] head have "tfs_remove G fn T = Inl Fault" by simp
      with removed [OF e(3)] fb n show ?thesis by simp
    qed
  qed
qed

end

end
