(* ===== verification/Tfs_system.thy ===== *)
theory Tfs_system
  imports Tfs_update
begin

text \<open>
  The trivial filesystem as a whole: histories of calls against the specification of a filesystem as
  a map from names to contents, the free space it reports, mounting and unmounting, and the corner
  cases of removal; on a volume on the driver and the device of theory Disk.
\<close>

section \<open>Free space\<close>

lemma count_allocated_eq:
  assumes "bm_fits bm n" "0 \<le> i" "i \<le> n"
  shows "count_allocated bm i n a = Inr (a + int (card {k \<in> bm.taken bm n. i \<le> k}))"
  using assms
proof (induction bm i n a rule: count_allocated.induct)
  case (1 bm i n a)
  show ?case
  proof (cases "i < n")
    case False
    then have "{k \<in> bm.taken bm n. i \<le> k} = {}" by (auto simp: bm.taken_def)
    with False show ?thesis by (subst count_allocated.simps) simp
  next
    case True
    let ?v = "if bm_bit bm i then 1 else 0 :: int"
    have v: "bitmap_get bm i = Inr ?v" using bm.probe_law [OF "1.prems"(1,2) True] .
    have split: "{k \<in> bm.taken bm n. i \<le> k} = (if bm_bit bm i then {i} else {}) \<union> {k \<in> bm.taken bm n. i + 1 \<le> k}"
      using True "1.prems"(2) by (auto simp: bm.taken_def order.order_iff_strict)
    have "int (card {k \<in> bm.taken bm n. i \<le> k}) = ?v + int (card {k \<in> bm.taken bm n. i + 1 \<le> k})"
      unfolding split by simp
    with "1.IH" [OF True v] "1.prems" True show ?thesis
      by (subst count_allocated.simps) (simp add: v add.assoc del: if_split)
  qed
qed

context block_device begin

lemma getfree_counts:
  assumes inv: "tfs_inv ready blk nb tb T"
  obtains T' where "tfs_getfree G T = Inr (512 * (uint tb - int (card (occupied (blk (disk T))))), T')"
    "tfs_inv ready blk nb tb T'" "blk (disk T') = blk (disk T)"
proof -
  let ?f = "blk (disk T)"
  have wf: "tfs_wf tb ?f" and st: "tfs_state ready nb tb (T\<lparr>tlock := 0\<rparr>)" and l: "tlock T = 1" and tb: "tb \<le> nb" "totalblocks T = tb"
    using inv by (simp_all add: tfs_inv_def tfs_state_def)
  have one: "(1 :: u32) < tb" by (rule wf_system [OF wf]) simp
  then have onb: "(1 :: u32) < nb" using tb(1) by simp
  have f1: "length (?f 1) = 512" using wf one by (simp add: tfs_wf_def)
  have small: "uint tb \<le> 4096" using wf_small [OF wf, of tb] by simp
  from read_bat_ok [OF st onb] obtain d where d:
    "read_bat G 1 (T\<lparr>tlock := 0\<rparr>) = Inr (1, T\<lparr>tlock := 0, disk := d, buffer_bat := ?f 1\<rparr>)" "blk d = ?f"
    "tfs_state ready nb tb (T\<lparr>tlock := 0, disk := d, buffer_bat := ?f 1\<rparr>)" by auto
  let ?T = "T\<lparr>tlock := 0, disk := d, buffer_bat := ?f 1\<rparr>" and ?c = "card (occupied ?f)"
  have fits: "bm_fits (block_words (?f 1)) (uint tb)" by (rule bm_fits_block [OF f1 small])
  have all: "{k \<in> bm.taken (block_words (?f 1)) (uint tb). 0 \<le> k} = uint ` occupied ?f"
    using wf_taken [OF wf] by auto
  have cnt: "count_allocated (block_words (?f 1)) 0 (uint tb) 0 = Inr (int ?c)"
    using count_allocated_eq [OF fits, of 0 0] all by (simp add: card_uint)
  have c: "int ?c \<le> uint tb"
    using bm.taken_bound [of "uint tb" "block_words (?f 1)"] wf_taken [OF wf] by (simp add: card_uint)
  define x where "x = (uint tb - int ?c) * 512"
  have w: "(totalblocks ?T - word_of_int (int ?c)) * word_of_int TFS_BLOCK_SIZE = word_of_int x"
    using tb(2) by (simp add: tfs_sizes x_def)
  have ux: "uint (word_of_int x :: u32) = x" by (rule uint_of_int) (use c small in \<open>auto simp: x_def\<close>)
  then have "sint (word_of_int x :: u32) = x" using c small by (subst sint_small) (auto simp: x_def)
  with w have "tfs_getfree G T = Inr (512 * (uint tb - int ?c), V_lock ?T)"
    using l tb(2) d(1) cnt by (simp add: tfs_getfree_def TFS_ALLOCATION_BLOCK_def tret_def x_def mult.commute)
  moreover have "tfs_inv ready blk nb tb (V_lock ?T)" using d(2,3) wf by (simp add: tfs_inv_def)
  ultimately show ?thesis using that [of "V_lock ?T"] d(2) by simp
qed

text \<open>An offset outside the file is refused by writing as by reading.\<close>

lemma write_outside:
  assumes inv: "tfs_inv ready blk nb tb T" and e: "e \<in> set (used (blk (disk T)))"
    and off: "off < 0 \<or> off > int (length (content (blk (disk T)) (inode e)))"
  obtains T' where "tfs_write G (uint (inode e)) buf n off T = Inr (VFS_ERROR, T')"
    "tfs_inv ready blk nb tb T'" "blk (disk T') = blk (disk T)"
proof -
  let ?f = "blk (disk T)" and ?i = "inode e"
  let ?v = "inode_of (?f ?i)"
  have wf: "tfs_wf tb ?f" and st: "tfs_state ready nb tb (T\<lparr>tlock := 0\<rparr>)" and l: "tlock T = 1" and tb: "totalblocks T = tb" "tb \<le> nb"
    using inv by (simp_all add: tfs_inv_def tfs_state_def)
  note u = wf_used [OF wf e]
  have i: "2 \<le> uint ?i" "uint ?i \<le> sint tb" "?i < nb"
    using u(1,2) wf_small [OF wf, of tb] tb(2) by (auto simp: word_le_def word_less_def)
  have sz: "sint (filesize ?v) = int (length (content ?f ?i))"
    using inode_ok_filesize [OF u(3)] content_length(1) [OF wf e] by simp
  from read_inode_ok [OF st i(3)] obtain d where
    d: "read_inode G ?i (T\<lparr>tlock := 0\<rparr>) = Inr (1, T\<lparr>tlock := 0, disk := d, buffer_inode := ?v\<rparr>)"
    "blk d = ?f" "tfs_state ready nb tb (T\<lparr>tlock := 0, disk := d, buffer_inode := ?v\<rparr>)"
    by auto
  let ?T = "T\<lparr>tlock := 0, disk := d, buffer_inode := ?v\<rparr>"
  have "tfs_write G (uint ?i) buf n off T = Inr (VFS_ERROR, V_lock ?T)"
    using l tb(1) i d(1) off sz by (auto simp: tfs_write_def tfs_sizes tret_def)
  moreover have "tfs_inv ready blk nb tb (V_lock ?T)" using d(2,3) wf by (simp add: tfs_inv_def)
  ultimately show ?thesis using that [of "V_lock ?T"] d(2) by simp
qed

end

section \<open>Histories\<close>

text \<open>
  The calls as a user of the filesystem makes them (a file is opened by its name before it is read
  or written), and their meaning on a map from names to contents. Creating a file may be refused
  for lack of room; everything else is determined.
\<close>

datatype tfs_call = T_open cstring | T_read cstring int int | T_write cstring "byte list" int
  | T_create cstring int | T_remove cstring | T_free

fun tfs_do :: "'d gbd_t \<Rightarrow> tfs_call \<Rightarrow> 'd tfs_t \<Rightarrow> (int \<times> byte list \<times> 'd tfs_t) kresult" where
  "tfs_do G (T_open fn) T = rbind (tfs_open G fn T) (\<lambda>(r, T). Inr (r, [], T))"
| "tfs_do G (T_read fn n off) T =
     rbind (tfs_open G fn T) (\<lambda>(r, T). if r < 0 then Inr (r, [], T) else tfs_read G r n off T)"
| "tfs_do G (T_write fn buf off) T =
     rbind (tfs_open G fn T) (\<lambda>(r, T).
       if r < 0 then Inr (r, [], T)
       else rbind (tfs_write G r buf (int (length buf)) off T) (\<lambda>(r, T). Inr (r, [], T)))"
| "tfs_do G (T_create fn sz) T = rbind (tfs_create G fn sz T) (\<lambda>(r, T). Inr (r, [], T))"
| "tfs_do G (T_remove fn) T = rbind (tfs_remove G fn T) (\<lambda>(r, T). Inr (r, [], T))"
| "tfs_do G T_free T = rbind (tfs_getfree G T) (\<lambda>(r, T). Inr (r, [], T))"

fun tfs_run :: "'d gbd_t \<Rightarrow> tfs_call list \<Rightarrow> 'd tfs_t \<Rightarrow> ((int \<times> byte list) list \<times> 'd tfs_t) kresult" where
  "tfs_run G [] T = Inr ([], T)"
| "tfs_run G (c # cs) T =
     rbind (tfs_do G c T) (\<lambda>(r, bs, T). rbind (tfs_run G cs T) (\<lambda>(rs, T). Inr ((r, bs) # rs, T)))"

type_synonym file_map = "byte list \<rightharpoonup> byte list"

fun file_step :: "tfs_call \<Rightarrow> file_map \<Rightarrow> int \<Rightarrow> byte list \<Rightarrow> file_map \<Rightarrow> bool" where
  "file_step (T_open fn) m r bs m' \<longleftrightarrow> bs = [] \<and> m' = m \<and> (if m (cstr fn) = None then r = VFS_NOT_FOUND else r \<ge> 3)"
| "file_step (T_read fn n off) m r bs m' \<longleftrightarrow> m' = m \<and>
     (case m (cstr fn) of
        None \<Rightarrow> r = VFS_NOT_FOUND \<and> bs = []
      | Some C \<Rightarrow>
          if off < 0 \<or> off > int (length C) then r = VFS_ERROR \<and> bs = []
          else r = min n (int (length C) - off) \<and> bs = slice (nat off) (nat r) C)"
| "file_step (T_write fn buf off) m r bs m' \<longleftrightarrow> bs = [] \<and>
     (case m (cstr fn) of
        None \<Rightarrow> r = VFS_NOT_FOUND \<and> m' = m
      | Some C \<Rightarrow>
          if off < 0 \<or> off > int (length C) then r = VFS_ERROR \<and> m' = m
          else r = min (int (length buf)) (int (length C) - off) \<and>
            m' = m(cstr fn \<mapsto> splice (nat off) (take (nat r) buf) C))"
| "file_step (T_create fn sz) m r bs m' \<longleftrightarrow> bs = [] \<and>
     (r = VFS_ERROR \<and> m' = m \<or> r = VFS_OK \<and> m (cstr fn) = None \<and> m' = m(cstr fn \<mapsto> replicate (nat sz) 0))"
| "file_step (T_remove fn) m r bs m' \<longleftrightarrow> bs = [] \<and> m' = m(cstr fn := None) \<and>
     r = (if m (cstr fn) = None then VFS_NOT_FOUND else VFS_OK)"
| "file_step T_free m r bs m' \<longleftrightarrow> bs = [] \<and> m' = m \<and> 0 \<le> r"

fun file_run :: "tfs_call list \<Rightarrow> (int \<times> byte list) list \<Rightarrow> file_map \<Rightarrow> file_map \<Rightarrow> bool" where
  "file_run [] rs m m' \<longleftrightarrow> rs = [] \<and> m' = m"
| "file_run (c # cs) rs m m' \<longleftrightarrow>
     (\<exists>r bs rs' m1. rs = (r, bs) # rs' \<and> file_step c m r bs m1 \<and> file_run cs rs' m1 m')"

text \<open>Calls the theorem is about: names that a directory entry can hold, and sizes below the limit.\<close>

definition name_ok :: "cstring \<Rightarrow> bool" where
  "name_ok fn \<longleftrightarrow> terminated fn \<and> cstr fn \<noteq> [] \<and> length (cstr fn) \<le> 15"

fun call_ok :: "tfs_call \<Rightarrow> bool" where
  "call_ok (T_open fn) \<longleftrightarrow> name_ok fn"
| "call_ok (T_read fn n off) \<longleftrightarrow> name_ok fn \<and> 0 \<le> n"
| "call_ok (T_write fn buf off) \<longleftrightarrow> name_ok fn"
| "call_ok (T_create fn sz) \<longleftrightarrow> name_ok fn \<and> 0 \<le> sz \<and> sz \<le> 64512"
| "call_ok (T_remove fn) \<longleftrightarrow> name_ok fn"
| "call_ok T_free \<longleftrightarrow> True"

definition small_files :: "file_map \<Rightarrow> bool" where
  "small_files m \<longleftrightarrow> (\<forall>n C. m n = Some C \<longrightarrow> length C \<le> 64512)"

lemma small_files_step: "small_files m \<Longrightarrow> call_ok c \<Longrightarrow> file_step c m r bs m' \<Longrightarrow> small_files m'"
  by (cases c) (auto simp: small_files_def splice_def split: option.splits if_splits)

lemma tfs_files_fresh:
  assumes "lookup f (cstr fn) = None" "lookup g = (lookup f)(cstr fn \<mapsto> ino)" "content g ino = C"
    and "\<And>n j. lookup f n = Some j \<Longrightarrow> content g j = content f j"
  shows "tfs_files g = (tfs_files f)(cstr fn \<mapsto> C)"
proof
  show "tfs_files g n = ((tfs_files f)(cstr fn \<mapsto> C)) n" for n
    using assms by (cases "lookup f n") (auto simp: tfs_files_def)
qed

lemma tfs_files_written:
  assumes wf: "tfs_wf tb f" and e: "e \<in> set (used f)" "cstr (name e) = nm"
    and g: "lookup g = lookup f" "content g (inode e) = C"
      "\<And>x. x \<in> set (used f) \<Longrightarrow> x \<noteq> e \<Longrightarrow> content g (inode x) = content f (inode x)"
  shows "tfs_files g = (tfs_files f)(nm \<mapsto> C)"
proof
  fix n
  show "tfs_files g n = ((tfs_files f)(nm \<mapsto> C)) n"
  proof (cases "lookup f n")
    case None
    then have "n \<noteq> nm" using e by (auto simp: lookup_None)
    with None g(1) show ?thesis by (simp add: tfs_files_def)
  next
    case (Some j)
    then obtain x where x: "x \<in> set (used f)" "cstr (name x) = n" "inode x = j" by (auto simp: lookup_Some [OF wf])
    show ?thesis
    proof (cases "x = e")
      case True
      with x e g Some show ?thesis by (simp add: tfs_files_def)
    next
      case False
      moreover have "lookup f nm = Some (inode e)" using e by (auto simp: lookup_Some [OF wf])
      moreover have "inode x \<noteq> inode e" using wf_inode_inj [OF wf x(1) e(1)] False by blast
      ultimately have "n \<noteq> nm" using Some x by auto
      with g(1) g(3) [OF x(1) False] x(3) Some show ?thesis by (simp add: tfs_files_def)
    qed
  qed
qed

lemma tfs_files_dropped:
  assumes "lookup g = (lookup f)(nm := None)" "\<forall>n j. lookup f n = Some j \<longrightarrow> n \<noteq> nm \<longrightarrow> content g j = content f j"
  shows "tfs_files g = (tfs_files f)(nm := None)"
proof
  show "tfs_files g n = ((tfs_files f)(nm := None)) n" for n
    using assms by (cases "lookup f n") (auto simp: tfs_files_def)
qed

lemma file_blocks_small:
  assumes "tfs_wf tb f" "e \<in> set (used f)" "length (content f (inode e)) \<le> 64512"
  shows "length (file_blocks f (inode e)) < 127"
  using assms wf_used(6) [OF assms(1,2)] content_length(1) [OF assms(1,2)] by (simp add: nblocks_of_def)

context block_device begin

lemma open_file:
  assumes inv: "tfs_inv ready blk nb tb T" and fn: "name_ok fn"
  obtains (missing) T' where "tfs_open G fn T = Inr (VFS_NOT_FOUND, T')" "tfs_inv ready blk nb tb T'"
      "blk (disk T') = blk (disk T)" "tfs_files (blk (disk T)) (cstr fn) = None"
    | (opened) T' e where "tfs_open G fn T = Inr (uint (inode e), T')" "tfs_inv ready blk nb tb T'"
      "blk (disk T') = blk (disk T)" "e \<in> set (used (blk (disk T)))" "cstr (name e) = cstr fn" "3 \<le> uint (inode e)"
      "tfs_files (blk (disk T)) (cstr fn) = Some (content (blk (disk T)) (inode e))"
proof -
  let ?f = "blk (disk T)"
  have wf: "tfs_wf tb ?f" using inv by (simp add: tfs_inv_def)
  obtain T' where T': "tfs_open G fn T = Inr (case lookup ?f (cstr fn) of None \<Rightarrow> VFS_NOT_FOUND | Some i \<Rightarrow> uint i, T')"
    "tfs_inv ready blk nb tb T'" "blk (disk T') = ?f"
    by (rule open_finds [OF inv]) (use fn in \<open>auto simp: name_ok_def\<close>)
  show ?thesis
  proof (cases "lookup ?f (cstr fn)")
    case None
    with T' missing [of T'] show ?thesis by (simp add: tfs_files_def)
  next
    case (Some i)
    then obtain e where e: "e \<in> set (used ?f)" "cstr (name e) = cstr fn" "inode e = i" by (auto simp: lookup_Some [OF wf])
    have "3 \<le> uint (inode e)" using wf_used(1) [OF wf e(1)] by (simp add: word_le_def)
    with Some e T' opened [of e T'] show ?thesis by (simp add: tfs_files_def)
  qed
qed

lemma call_refines:
  assumes inv: "tfs_inv ready blk nb tb T" and c: "call_ok c" and small: "small_files (tfs_files (blk (disk T)))"
  shows "\<exists>r bs T'. tfs_do G c T = Inr (r, bs, T') \<and> tfs_inv ready blk nb tb T' \<and>
    file_step c (tfs_files (blk (disk T))) r bs (tfs_files (blk (disk T')))"
proof -
  let ?f = "blk (disk T)"
  have wf: "tfs_wf tb ?f" using inv by (simp add: tfs_inv_def)
  show ?thesis
  proof (cases c)
    case (T_open fn)
    with c have fn: "name_ok fn" by simp
    show ?thesis by (cases rule: open_file [OF inv fn]) (auto simp: T_open)
  next
    case (T_read fn n off)
    with c have fn: "name_ok fn" and n: "0 \<le> n" by simp_all
    show ?thesis
    proof (cases rule: open_file [OF inv fn])
      case (1 T')
      then show ?thesis by (simp add: T_read VFS_NOT_FOUND_def)
    next
      case (2 T' e)
      have "e \<in> set (used (blk (disk T')))" using 2 by simp
      from read_content [OF 2(2) this n refl, of off] obtain T'' where R: "tfs_read G (uint (inode e)) n off T' =
          Inr (if off < 0 \<or> off > int (length (content ?f (inode e))) then (VFS_ERROR, [], T'')
            else (min n (int (length (content ?f (inode e))) - off),
              slice (nat off) (nat (min n (int (length (content ?f (inode e))) - off))) (content ?f (inode e)), T''))"
        "tfs_inv ready blk nb tb T''" "blk (disk T'') = ?f" unfolding 2(3) by metis
      have "tfs_do G c T = tfs_read G (uint (inode e)) n off T'" using 2(1,6) by (simp add: T_read)
      with R 2(7) show ?thesis by (auto simp: T_read)
    qed
  next
    case (T_write fn buf off)
    with c have fn: "name_ok fn" by simp
    show ?thesis
    proof (cases rule: open_file [OF inv fn])
      case (1 T')
      then show ?thesis by (simp add: T_write VFS_NOT_FOUND_def)
    next
      case (2 T' e)
      let ?C = "content ?f (inode e)"
      have e: "e \<in> set (used (blk (disk T')))" using 2 by simp
      have D: "tfs_do G c T = rbind (tfs_write G (uint (inode e)) buf (int (length buf)) off T') (\<lambda>(r, T). Inr (r, [], T))"
        using 2(1,6) by (simp add: T_write)
      show ?thesis
      proof (cases "off < 0 \<or> off > int (length ?C)")
        case True
        then have "off < 0 \<or> off > int (length (content (blk (disk T')) (inode e)))" using 2(3) by simp
        from write_outside [OF 2(2) e this, of buf "int (length buf)"] obtain T'' where
          "tfs_write G (uint (inode e)) buf (int (length buf)) off T' = Inr (VFS_ERROR, T'')"
          "tfs_inv ready blk nb tb T''" "blk (disk T'') = ?f" unfolding 2(3) by metis
        with True D 2(7) show ?thesis by (simp add: T_write)
      next
        case False
        then have off: "0 \<le> off" "off \<le> int (length ?C)" by simp_all
        define m where "m = nat (min (int (length buf)) (int (length ?C) - off))"
        obtain T'' where W: "tfs_write G (uint (inode e)) buf (int (length buf)) off T' = Inr (int m, T'')"
          "tfs_inv ready blk nb tb T''" "content (blk (disk T'')) (inode e) = splice (nat off) (take m buf) ?C"
          "lookup (blk (disk T'')) = lookup ?f"
          "\<And>x. x \<in> set (used ?f) \<Longrightarrow> x \<noteq> e \<Longrightarrow> content (blk (disk T'')) (inode x) = content ?f (inode x)"
          by (rule write_content [OF 2(2) e, of "int (length buf)" buf ?C off m]) (use off 2(3) in \<open>auto simp: m_def\<close>)
        have "tfs_files (blk (disk T'')) = (tfs_files ?f)(cstr fn \<mapsto> splice (nat off) (take m buf) ?C)"
          by (rule tfs_files_written [OF wf 2(4,5) W(4,3,5)])
        moreover have "int m = min (int (length buf)) (int (length ?C) - off)" using off by (simp add: m_def)
        ultimately have "file_step c (tfs_files ?f) (int m) [] (tfs_files (blk (disk T'')))"
          using False 2(7) by (simp add: T_write m_def)
        moreover have "tfs_do G c T = Inr (int m, [], T'')" using D W(1) by simp
        ultimately show ?thesis using W(2) by blast
      qed
    qed
  next
    case (T_create fn sz)
    with c have fn: "terminated fn" "cstr fn \<noteq> []" "length (cstr fn) \<le> 15" and sz: "0 \<le> sz" "sz \<le> 65024"
      by (simp_all add: name_ok_def)
    show ?thesis
    proof (cases rule: create_effect [OF inv fn sz])
      case (1 T')
      then show ?thesis by (simp add: T_create)
    next
      case (2 T' ino)
      have "tfs_files (blk (disk T')) = (tfs_files ?f)(cstr fn \<mapsto> replicate (nat sz) 0)"
        by (rule tfs_files_fresh [OF 2(3-6)])
      with 2(1-3) show ?thesis by (simp add: T_create tfs_files_def)
    qed
  next
    case (T_remove fn)
    with c have fn: "terminated fn" "cstr fn \<noteq> []" by (simp_all add: name_ok_def)
    show ?thesis
    proof (cases rule: remove_effect [OF inv fn])
      case (1 T')
      then show ?thesis by (auto simp: T_remove tfs_files_def fun_upd_idem)
    next
      case (2 T' ino)
      then obtain e where e: "e \<in> set (used ?f)" "inode e = ino" by (auto simp: lookup_Some [OF wf])
      have "tfs_files ?f (cstr fn) = Some (content ?f ino)" using 2(1) by (simp add: tfs_files_def)
      with small have "length (content ?f (inode e)) \<le> 64512" using e(2) by (simp add: small_files_def)
      from 2(2) [OF file_blocks_small [OF wf e(1) this, unfolded e(2)]] have R: "tfs_remove G fn T = Inr (VFS_OK, T')"
        "tfs_inv ready blk nb tb T'" "lookup (blk (disk T')) = (lookup ?f)(cstr fn := None)"
        "\<forall>n j. lookup ?f n = Some j \<longrightarrow> n \<noteq> cstr fn \<longrightarrow> content (blk (disk T')) j = content ?f j" by blast+
      have "tfs_files (blk (disk T')) = (tfs_files ?f)(cstr fn := None)" by (rule tfs_files_dropped [OF R(3,4)])
      with R(1,2) 2(1) show ?thesis by (simp add: T_remove tfs_files_def)
    qed
  next
    case T_free
    obtain T' where F: "tfs_getfree G T = Inr (512 * (uint tb - int (card (occupied ?f))), T')"
      "tfs_inv ready blk nb tb T'" "blk (disk T') = ?f" by (rule getfree_counts [OF inv])
    moreover have "int (card (occupied ?f)) \<le> uint tb"
      using bm.taken_bound [of "uint tb" "block_words (?f 1)"] wf_taken [OF wf] by (simp add: card_uint)
    ultimately show ?thesis by (simp add: T_free)
  qed
qed

lemma history_refines:
  assumes "tfs_inv ready blk nb tb T" "\<forall>c \<in> set cs. call_ok c" "small_files (tfs_files (blk (disk T)))"
  shows "\<exists>rs T'. tfs_run G cs T = Inr (rs, T') \<and> tfs_inv ready blk nb tb T' \<and>
    file_run cs rs (tfs_files (blk (disk T))) (tfs_files (blk (disk T')))"
  using assms
proof (induction cs arbitrary: T)
  case (Cons c cs)
  then have c: "call_ok c" by simp
  from call_refines [OF Cons.prems(1) c Cons.prems(3)] obtain r bs T1 where
    T1: "tfs_do G c T = Inr (r, bs, T1)" "tfs_inv ready blk nb tb T1"
    "file_step c (tfs_files (blk (disk T))) r bs (tfs_files (blk (disk T1)))" by blast
  with Cons.IH [OF T1(2)] Cons.prems c small_files_step obtain rs T' where
    "tfs_run G cs T1 = Inr (rs, T')" "tfs_inv ready blk nb tb T'"
    "file_run cs rs (tfs_files (blk (disk T1))) (tfs_files (blk (disk T')))" by (metis list.set_intros(2))
  with T1 show ?case by auto
qed simp

end

section \<open>Mounting\<close>

text \<open>The volume name in the header block, cut to what the name field of \<open>fs_t\<close> holds.\<close>

definition header_name :: "byte list \<Rightarrow> byte list" where
  "header_name bs = take 15 (cstr (drop 4 bs))"

definition tfs_fresh :: "u32 \<Rightarrow> u32 \<Rightarrow> 'd tfs_t \<Rightarrow> bool" where
  "tfs_fresh nb tb T \<longleftrightarrow> totalblocks T = tb \<and> uint tb = min (uint nb) 4096 \<and> tlock T = 1 \<and>
     length (block (buffer_inode T)) = 127 \<and> length (buffer_bat T) = 512"

lemma stringcopy_take: "length t = 16 \<Longrightarrow> terminated s \<or> 15 \<le> length s \<Longrightarrow>
   \<exists>x. stringcopy t s 16 = Inr x \<and> terminated x \<and> cstr x = take 15 (cstr s)"
  using stringcopy_eq [of 16 t s "take 15 (cstr s)"] cstr_append_0 [OF cstr_take_no_0]
  by (auto simp: terminated_def)

lemma min_blocks: "uint (word_of_int (min (uint nb) (8 * TFS_BLOCK_SIZE)) :: u32) = min (uint (nb :: u32)) 4096"
  using uint_lt [of nb] by (subst uint_of_int) (auto simp: tfs_sizes)

context block_device begin

lemma mount_result:
  assumes d: "ready d" "0 < nb" and K: "pagepool_ok (pool K)" and page0: "\<forall>a. length (page a) = 4096"
  shows "\<exists>r K' d'. tfs_init G page K d = Inr (r, K', d') \<and> ready d' \<and> blk d' = blk d \<and> pagepool_ok (pool K') \<and>
    (case r of
       None \<Rightarrow> free_sems K' = free_sems K \<and> pagepool_held (pool K') = pagepool_held (pool K) \<and>
         (free_sems K = 0 \<or> pagepool_num_free_pages (pool K) \<le> 0 \<or> bytes_word (take 4 (blk d 0)) \<noteq> TFS_MAGIC)
     | Some (fs, vname, T) \<Rightarrow> bytes_word (take 4 (blk d 0)) = TFS_MAGIC \<and> terminated vname \<and>
         cstr vname = header_name (blk d 0) \<and> disk T = d' \<and> (\<exists>tb. tfs_fresh nb tb T) \<and> Suc (free_sems K') = free_sems K \<and>
         pagepool_num_pages (pool K') = pagepool_num_pages (pool K) \<and>
         (\<exists>a. fs = a OR 0x80000000 \<and> a \<noteq> 0 \<and> a \<notin> pagepool_held (pool K) \<and>
           pagepool_held (pool K') = insert a (pagepool_held (pool K))))"
proof -
  have page: "length (page a) = 4096" for a using page0 by simp
  obtain d1 where d1: "block_size G d = (512, d1)" "ready d1" "blk d1 = blk d" using size_law [OF d(1)] by blast
  show ?thesis
  proof (cases "free_sems K = 0")
    case True
    with d1 K show ?thesis by (simp add: tfs_init_def tfs_sizes)
  next
    case sems: False
    from pagepool_get_spec [OF K] obtain a p where
      p: "pagepool_get_phys_page (pool K) = Inr (a, p)" "pagepool_ok p"
      "if pagepool_num_free_pages (pool K) > 0
       then a \<noteq> 0 \<and> uint a mod 4096 = 0 \<and> a \<notin> pagepool_held (pool K) \<and> pagepool_held p = insert a (pagepool_held (pool K))
       else a = 0 \<and> p = pool K" "pagepool_num_pages p = pagepool_num_pages (pool K)" by (metis (no_types, lifting))
    show ?thesis
    proof (cases "a = 0")
      case True
      with p(3) have "\<not> pagepool_num_free_pages (pool K) > 0" "p = pool K" by (auto split: if_splits)
      with True d1 p(1) K sems show ?thesis by (simp add: tfs_init_def tfs_sizes)
    next
      case False
      with p(3) have h: "a \<notin> pagepool_held (pool K)" "pagepool_held p = insert a (pagepool_held (pool K))" by (auto split: if_splits)
      obtain d2 where d2: "read_block G 0 d1 = Inr (1, blk d 0, d2)" "ready d2" "blk d2 = blk d"
        using read_law [OF d1(2) d(2)] d1(3) by auto
      have lb: "length (blk d 0) = 512" by (rule blk_length [OF d])
      show ?thesis
      proof (cases "bytes_word (take 4 (blk d 0)) = TFS_MAGIC")
        case magic: False
        obtain p' where p': "pagepool_free_phys_page a p = Inr p'" "pagepool_ok p'" "pagepool_held p' = pagepool_held p - {a}"
          using pool.put_law [OF p(2), of a] h(2) by auto
        have "pagepool_held p' = pagepool_held (pool K)" using p'(3) h by auto
        with d1(1) p(1) d2 False sems magic p'(1,2) show ?thesis by (simp add: tfs_init_def tfs_sizes)
      next
        case magic: True
        obtain nm where nm: "stringcopy (replicate 16 0) (drop 4 (blk d 0)) 16 = Inr nm" "terminated nm" "cstr nm = header_name (blk d 0)"
          using stringcopy_take [of "replicate 16 0" "drop 4 (blk d 0)"] lb by (auto simp: header_name_def)
        obtain d3 where d3: "total_blocks G d2 = (nb, d3)" "ready d3" "blk d3 = blk d" using total_law [OF d2(2)] d2(3) by auto
        obtain vn where vn: "stringcopy (slice 4 16 (page a)) nm 16 = Inr vn" "terminated vn" "cstr vn = header_name (blk d 0)"
          using stringcopy_take [of "slice 4 16 (page a)" nm] nm page [of a] by (auto simp: slice_length header_name_def)
        define T where "T = \<lparr>totalblocks = word_of_int (min (uint nb) (8 * TFS_BLOCK_SIZE)), disk = d3, tlock = 1,
          buffer_inode = inode_of (slice 76 512 (page a)), buffer_bat = slice 588 512 (page a),
          buffer_md = dir_of (slice 1100 512 (page a)), md_rest = slice 1600 12 (page a)\<rparr>"
        have "tfs_fresh nb (totalblocks T) T"
          using page [of a] min_blocks [of nb] by (simp add: tfs_fresh_def T_def inode_of_length slice_length)
        moreover have "disk T = d3" by (simp add: T_def)
        moreover have "tfs_init G page K d =
            Inr (Some (a OR 0x80000000, vn, T), K\<lparr>free_sems := free_sems K - 1, pool := p\<rparr>, d3)"
          using d1(1) p(1) d2(1) d3(1) nm(1) vn(1) False sems magic
          unfolding tfs_init_def T_def by (simp add: TFS_VOLUMENAME_MAX_def VFS_NAME_LENGTH_def) (simp add: tfs_sizes)
        ultimately show ?thesis
          using d3(2,3) p(2,4) vn(2,3) magic sems False h by auto
      qed
    qed
  qed
qed

end

lemma kernel_phys: "a < 0x80000000 \<Longrightarrow> (a OR 0x80000000) AND 0x7fffffff = a" for a :: u32
proof -
  assume "a < 0x80000000"
  then have "take_bit 31 a = a"
    by (simp add: take_bit_eq_mod word_less_nat_alt word_unat_eq_iff unat_mod)
  moreover have "(0x7fffffff :: u32) = mask 31" "take_bit 31 (0x80000000 :: u32) = 0" by (simp_all add: mask_eq_exp_minus_1)
  ultimately show ?thesis
    by (metis (no_types, opaque_lifting) or.right_neutral take_bit_eq_mask take_bit_or)
qed

lemma held_below:
  assumes "pagepool_ok p" "pagepool_num_pages p \<le> 2 ^ 19" "a \<in> pagepool_held p"
  shows "a < 0x80000000"
proof -
  from assms(3) obtain k where k: "a = page_addr k" "0 \<le> k" "k < pagepool_num_pages p"
    by (auto simp: pagepool_held_def bm.taken_def)
  then have "uint a = k * 4096" using assms(2) uint_of_int [of "k * 4096"] by (simp add: page_addr_def)
  then show ?thesis using k assms(2) by (simp add: word_less_def)
qed

lemma unmount_result:
  assumes "pagepool_ok (pool K)" "pagepool_num_pages (pool K) \<le> 2 ^ 19" "a \<in> pagepool_held (pool K)" "tlock T = 1"
  shows "\<exists>K'. tfs_unmount (a OR 0x80000000) T K = Inr (VFS_OK, K') \<and> pagepool_ok (pool K') \<and>
    free_sems K' = Suc (free_sems K) \<and> pagepool_held (pool K') = pagepool_held (pool K) - {a}"
  using pool.put_law [OF assms(1,3)] kernel_phys [OF held_below [OF assms(1-3)]] assms(4)
  by (auto simp: tfs_unmount_def)

section \<open>An example volume\<close>

text \<open>
  A formatted volume of 256 blocks without files, as \<open>tfstool\<close> makes it: the header with the name
  ``disk'', the allocation block with the three system blocks, and an empty directory; on the
  device of theory Disk.
\<close>

definition blank_volume :: volume where
  "blank_volume b =
     (if b = 0 then word_bytes TFS_MAGIC @ [100, 105, 115, 107] @ replicate 504 0
      else if b = 1 then words_block (7 # replicate 127 0) else replicate 512 0)"

definition blank_disk :: "yams_disk disk_real_device_t" where
  "blank_disk = yams_driver\<lparr>hw := y_idle\<lparr>y_sector := blank_volume\<rparr>\<rparr>"

definition blank_tfs :: "yams_disk disk_real_device_t tfs_t" where
  "blank_tfs = \<lparr>totalblocks = 256, disk = blank_disk, tlock = 1, buffer_inode = \<lparr>filesize = 0, block = replicate 127 0\<rparr>,
     buffer_bat = replicate 512 0, buffer_md = [], md_rest = []\<rparr>"

abbreviation yams_block_device :: "yams_disk disk_real_device_t gbd_t" where
  "yams_block_device \<equiv> disk_gbd (yams_io 256) y_run 1 1 8192"

abbreviation yams_ready :: "yams_disk disk_real_device_t \<Rightarrow> bool" where
  "yams_ready \<equiv> disk_ready y_view y_irq y_sectors 256"

abbreviation yams_blk :: "yams_disk disk_real_device_t \<Rightarrow> volume" where
  "yams_blk \<equiv> \<lambda>D. y_sectors (hw D)"

lemma yams_is_block_device: "block_device yams_block_device yams_ready yams_blk 256"
  by (rule yams_gbd.gbd.block_device_axioms)

lemma blank_length: "length (blank_volume b) = 512"
  by (simp add: blank_volume_def del: words_block_simps)

lemma blank_sectors: "yams_blk blank_disk = blank_volume"
  using blank_length by (simp add: blank_disk_def yams_driver_def y_idle_def y_sectors_def fun_eq_iff)

lemma blank_ready: "yams_ready blank_disk"
  by (simp add: disk_ready_def disk_ok_Nil blank_disk_def yams_driver_def y_idle_def y_view_def y_irq_def)

lemma bytes_word_0 [simp]: "bytes_word (replicate 4 0) = 0"
  by (simp add: bytes_word_def numeral_eq_Suc)

lemma blank_dir: "e \<in> set (dir_of (blank_volume 2)) \<Longrightarrow> e = \<lparr>inode = 0, name = replicate 16 0\<rparr>"
  by (auto simp: dir_of_def entry_of_def blank_volume_def)

lemma blank_used [simp]: "used blank_volume = []"
  using blank_dir by (fastforce simp: used_def filter_empty_conv)

lemma bit_7: "bit (7 :: int) n \<longleftrightarrow> n < 3"
proof -
  have "(7 :: int) = mask 3" by (simp add: mask_eq_exp_minus_1)
  then show ?thesis by (simp only: bit_mask_iff) auto
qed

lemma blank_bits:
  assumes "k < 256"
  shows "bm_bit (block_words (blank_volume 1)) (uint k) \<longleftrightarrow> k < (3 :: u32)"
proof -
  have w: "block_words (blank_volume 1) = 7 # replicate 127 0" by (simp add: blank_volume_def del: words_block_simps)
  have k: "0 \<le> uint k" "uint k < 256" using assms by (simp_all add: word_less_def)
  show ?thesis
  proof (cases "uint k < 32")
    case True
    with k w show ?thesis by (auto simp: bm_bit_def bit_7 word_less_def nat_less_iff simp flip: nat_uint_eq)
  next
    case False
    then have "1 \<le> uint k div 32" "uint k div 32 < 8" using k by linarith+
    then obtain n where "nat (uint k div 32) = Suc n" "n < 127" by (cases "nat (uint k div 32)") auto
    with False w show ?thesis by (simp add: bm_bit_def word_less_def)
  qed
qed

lemma blank_wf: "tfs_wf 256 blank_volume"
  using blank_dir blank_length blank_bits
  by (fastforce simp: tfs_wf_def all_blocks_def terminated_def cstr_def)

lemma blank_inv: "tfs_inv yams_ready yams_blk 256 256 blank_tfs"
  using blank_ready blank_wf by (simp add: tfs_inv_def tfs_state_def blank_tfs_def blank_sectors)

lemma blank_lookup: "lookup blank_volume nm = None" "tfs_files blank_volume = Map.empty"
  by (simp_all add: lookup_def tfs_files_def fun_eq_iff)

lemma ge_3: "3 \<le> k \<longleftrightarrow> k \<noteq> 0 \<and> k \<noteq> 1 \<and> k \<noteq> 2" for k :: u32
  using less_3 [of k] by (metis not_less)

lemma uint_below: "uint ` {b. b < tb} = {0..<uint (tb :: u32)}"
proof -
  have "k \<in> uint ` {b. b < tb}" if "0 \<le> k" "k < uint tb" for k
  proof -
    have "uint (word_of_int k :: u32) = k" using that uint_lt [of tb] by (intro uint_of_int) auto
    with that show ?thesis by (intro image_eqI [of _ _ "word_of_int k"]) (simp_all add: word_less_def)
  qed
  then show ?thesis by (auto simp: word_less_def)
qed

section \<open>Properties\<close>

text \<open>
  Property C5. The driver implements a filesystem: on any block device, from any well-formed volume,
  a history of calls (opening, reading, writing, creating, removing, asking for free space) never
  fails an assertion or goes out of bounds and behaves like the same history on a map from names to
  contents; the volume stays well-formed. Names fit a directory entry and files have at most 126
  blocks.
\<close>

theorem tfs_history:
  assumes "block_device G ready blk nb" "tfs_inv ready blk nb tb T" "\<forall>c \<in> set cs. call_ok c"
    and "small_files (tfs_files (blk (disk T)))"
  shows "\<exists>rs T'. tfs_run G cs T = Inr (rs, T') \<and> tfs_inv ready blk nb tb T' \<and>
    file_run cs rs (tfs_files (blk (disk T))) (tfs_files (blk (disk T')))"
  using assms by (rule block_device.history_refines)

theorem tfs_history_witness:
  "\<exists>rs T'. tfs_run yams_block_device [T_read [97, 0] 4 0, T_remove [97, 0]] blank_tfs = Inr (rs, T') \<and>
     rs = [(VFS_NOT_FOUND, []), (VFS_NOT_FOUND, [])] \<and> tfs_files (yams_blk (disk T')) = Map.empty"
proof -
  have "\<forall>c \<in> set [T_read [97, 0] 4 0, T_remove [97, 0]]. call_ok c"
    by (simp add: name_ok_def terminated_def cstr_def)
  moreover have f: "tfs_files (yams_blk (disk blank_tfs)) = Map.empty"
    by (simp add: blank_tfs_def blank_sectors blank_lookup)
  ultimately show ?thesis
    using tfs_history [OF yams_is_block_device blank_inv, of "[T_read [97, 0] 4 0, T_remove [97, 0]]"]
    unfolding f by (auto simp: small_files_def)
qed

text \<open>
  Property C16. Creating a file of size 0 or more succeeds exactly when the size is at most 65024, that is 127
  blocks, no file has the name, the directory has a free
  entry and the volume has room for the blocks of the file and its inode. It then has the asked size
  and holds zeros only, and all other files are as before; otherwise the volume is unchanged. Sizes
  below -1022 are refused as well. The sizes from -1022 to -1 are left out: the code rounds
  them to 0 blocks and makes a file of negative size.
\<close>

definition creatable :: "u32 \<Rightarrow> volume \<Rightarrow> byte list \<Rightarrow> int \<Rightarrow> bool" where
  "creatable tb f nm sz \<longleftrightarrow> tfs_files f nm = None \<and> (\<exists>e \<in> set (dir_of (f 2)). inode e = 0) \<and>
     int (card (occupied f)) + int (blocks_for sz) + 1 \<le> uint tb"

lemma used_count:
  assumes "tfs_wf tb f"
  shows "card (dom (lookup f)) = length (used f)"
proof -
  have d: "distinct (map (\<lambda>e. cstr (name e)) (used f))" using assms by (simp add: tfs_wf_def)
  have "dom (lookup f) = set (map (\<lambda>e. cstr (name e)) (used f))"
    by (simp add: lookup_def dom_map_of_conv_image_fst image_image)
  then show ?thesis by (simp only: distinct_card [OF d] length_map)
qed

lemma entry_was_free:
  assumes "tfs_wf tb f" "tfs_wf tb g" "lookup f nm = None" "lookup g = (lookup f)(nm \<mapsto> ino)"
  shows "\<exists>e \<in> set (dir_of (f 2)). inode e = 0"
proof (rule ccontr)
  assume "\<not> ?thesis"
  then have "used f = dir_of (f 2)" by (simp add: used_def)
  then have "card (dom (lookup f)) = 25" using used_count [OF assms(1)] by simp
  moreover have "nm \<notin> dom (lookup f)" "finite (dom (lookup f))"
    using assms(3) by (auto simp: lookup_def finite_dom_map_of)
  ultimately have "card (dom (lookup g)) = 26" using assms(4) by simp
  moreover have "length (used g) \<le> 25"
    using length_filter_le [of "\<lambda>e. inode e \<noteq> 0" "dir_of (g 2)"] by (simp add: used_def)
  ultimately show False using used_count [OF assms(2)] by simp
qed

lemma uint_sdiv_neg:
  assumes "- (2 ^ 31) \<le> a" "a \<le> -512"
  shows "127 < uint (word_of_int (a sdiv 512) :: u32)"
proof -
  have q: "a sdiv 512 = - (- a div 512)" using assms by (simp add: signed_divide_int_def)
  have "-2147483648 \<le> a" using assms(1) by simp
  then have b: "1 \<le> - a div 512" "- a div 512 \<le> 4194304" using assms(2) by linarith+
  then have "(- (- a div 512)) mod 2 ^ 32 = 2 ^ 32 - (- a div 512)"
    by (subst mod_pos_pos_trivial [symmetric, of "2 ^ 32 - (- a div 512)" "2 ^ 32"]) (simp_all add: mod_simps)
  then have "uint (word_of_int (a sdiv 512) :: u32) = 2 ^ 32 - (- a div 512)"
    unfolding q by (simp only: uint_word_of_int len_num1 len_bit0 len_bit1 mult_1_right) simp
  with b(2) show ?thesis by simp
qed

lemma numblocks_large:
  assumes "sz < 2 ^ 31" "65024 < sz \<or> - (2 ^ 31) \<le> sz \<and> sz < -1022"
  shows "127 < uint (word_of_int (swrap (sz + TFS_BLOCK_SIZE - 1) sdiv TFS_BLOCK_SIZE) :: u32)"
proof -
  consider "65024 < sz" "sz + 511 < 2 ^ 31" | "2 ^ 31 \<le> sz + 511" | "- (2 ^ 31) \<le> sz" "sz < -1022" using assms by linarith
  then show ?thesis
  proof cases
    case 1
    then have "swrap (sz + 511) sdiv 512 = (sz + 511) div 512" by simp
    moreover have "128 \<le> (sz + 511) div 512" "(sz + 511) div 512 \<le> sz + 511" using 1 by linarith+
    moreover from this 1 have "(sz + 511) div 512 < 2 ^ 32" by simp
    ultimately show ?thesis by (simp add: tfs_sizes uint_of_int add.commute [of 511])
  next
    case 2
    have "swrap (sz + 511) = swrap (sz + 511 - 2 ^ 32)"
      unfolding swrap_def signed_take_bit_eq_iff_take_bit_eq take_bit_eq_mod
      by (metis minus_mod_self2 numeral_eq_Suc pred_numeral_simps(2,3) semiring_norm(26-28))
    also have "\<dots> = sz + 511 - 2 ^ 32" using 2 assms(1) by (intro swrap_id) simp_all
    finally show ?thesis using 2 assms(1) uint_sdiv_neg [of "sz + 511 - 2 ^ 32"] by (simp add: tfs_sizes add.commute [of 511])
  next
    case 3
    then show ?thesis using uint_sdiv_neg [of "sz + 511"] by (simp add: tfs_sizes add.commute [of 511])
  qed
qed

lemma create_refused:
  assumes "block_device G ready blk nb" "tfs_inv ready blk nb tb T"
    and "sz < 2 ^ 31" "65024 < sz \<or> - (2 ^ 31) \<le> sz \<and> sz < -1022"
  shows "\<exists>T'. tfs_create G fn sz T = Inr (VFS_ERROR, T') \<and> tfs_inv ready blk nb tb T' \<and> blk (disk T') = blk (disk T)"
proof -
  have "tlock T = 1" using assms(2) by (simp add: tfs_inv_def)
  then have "tfs_create G fn sz T = Inr (VFS_ERROR, V_lock (T\<lparr>tlock := 0\<rparr>))"
    using numblocks_large [OF assms(3,4)] by (simp add: tfs_create_def tret_def P_lock_def sem_down_def tfs_sizes)
  moreover have "V_lock (T\<lparr>tlock := 0\<rparr>) = T" using \<open>tlock T = 1\<close> by (simp add: V_lock_def)
  ultimately show ?thesis using assms(2) by auto
qed

theorem tfs_create_exact:
  assumes "block_device G ready blk nb" "tfs_inv ready blk nb tb T" "name_ok fn"
    and "- (2 ^ 31) \<le> sz" "sz < 2 ^ 31" "sz \<notin> {-1022 .. -1}"
  shows "\<exists>r T'. tfs_create G fn sz T = Inr (r, T') \<and> tfs_inv ready blk nb tb T' \<and>
    (if 0 \<le> sz \<and> sz \<le> 65024 \<and> creatable tb (blk (disk T)) (cstr fn) sz
     then r = VFS_OK \<and> tfs_files (blk (disk T')) = (tfs_files (blk (disk T)))(cstr fn \<mapsto> replicate (nat sz) 0)
     else r = VFS_ERROR \<and> blk (disk T') = blk (disk T))"
proof (cases "0 \<le> sz \<and> sz \<le> 65024")
  case False
  with assms(4-6) have "65024 < sz \<or> - (2 ^ 31) \<le> sz \<and> sz < -1022" by auto
  with create_refused [OF assms(1,2,5)] False show ?thesis by fastforce
next
  case True
  have fn: "terminated fn" "cstr fn \<noteq> []" "length (cstr fn) \<le> 15" using assms(3) by (simp_all add: name_ok_def)
  show ?thesis
  proof (cases rule: block_device.create_effect [OF assms(1,2) fn conjunct1 [OF True] conjunct2 [OF True]])
    case (1 T')
    then have "\<not> creatable tb (blk (disk T)) (cstr fn) sz" by (auto simp: creatable_def tfs_files_def)
    with 1 show ?thesis by simp
  next
    case (2 T' ino)
    have "tfs_wf tb (blk (disk T))" "tfs_wf tb (blk (disk T'))" using 2(2) assms(2) by (simp_all add: tfs_inv_def)
    from entry_was_free [OF this 2(3,4)] have "creatable tb (blk (disk T)) (cstr fn) sz"
      using 2(3,7) by (simp add: creatable_def tfs_files_def)
    with True 2(1,2) tfs_files_fresh [OF 2(3-6)] show ?thesis by simp
  qed
qed

lemma blank_has_room:
  assumes "0 \<le> sz" "sz \<le> 65024"
  shows "creatable 256 blank_volume [97] sz"
proof -
  have "occupied blank_volume = {0, 1, 2}" by (auto simp: occupied_def all_blocks_def less_3)
  then have "card (occupied blank_volume) = 3" by simp
  moreover have "length (dir_of (blank_volume 2)) = 25" by simp
  then obtain e where "e \<in> set (dir_of (blank_volume 2))" by (metis length_0_conv list.set_sel(1) zero_neq_numeral)
  with blank_dir [OF this] have "\<exists>e \<in> set (dir_of (blank_volume 2)). inode e = 0" by (intro bexI [of _ e]) simp_all
  ultimately show ?thesis using numblocks_eq(2) [OF assms] by (simp add: creatable_def blank_lookup)
qed

theorem tfs_create_exact_witness:
  "\<exists>T' T''. tfs_create yams_block_device [97, 0] 600 blank_tfs = Inr (VFS_OK, T') \<and>
     tfs_files (yams_blk (disk T')) [97] = Some (replicate 600 0) \<and>
     tfs_create yams_block_device [97, 0] 65025 blank_tfs = Inr (VFS_ERROR, T'')"
proof -
  have n: "name_ok [97, 0]" "cstr [97, 0 :: byte] = [97]" by (simp_all add: name_ok_def terminated_def cstr_def)
  have f: "yams_blk (disk blank_tfs) = blank_volume" by (simp add: blank_tfs_def blank_sectors)
  from tfs_create_exact [OF yams_is_block_device blank_inv n(1), of 600] obtain T' where
    "tfs_create yams_block_device [97, 0] 600 blank_tfs = Inr (VFS_OK, T')"
    "tfs_files (yams_blk (disk T')) = (tfs_files blank_volume)([97] \<mapsto> replicate (nat 600) 0)"
    unfolding n(2) f using blank_has_room [of 600] by (auto split: if_splits)
  moreover from tfs_create_exact [OF yams_is_block_device blank_inv n(1), of 65025] obtain T'' where
    "tfs_create yams_block_device [97, 0] 65025 blank_tfs = Inr (VFS_ERROR, T'')" by auto
  ultimately show ?thesis by auto
qed

text \<open>A file of any size on the blank volume.\<close>

lemma one_file:
  assumes "0 \<le> sz" "sz \<le> 65024"
  obtains T where "tfs_create yams_block_device [97, 0] sz blank_tfs = Inr (VFS_OK, T)" "tfs_inv yams_ready yams_blk 256 256 T"
    "tfs_files (yams_blk (disk T)) [97] = Some (replicate (nat sz) 0)"
proof -
  have f: "yams_blk (disk blank_tfs) = blank_volume" "cstr [97, 0 :: byte] = [97]" by (simp_all add: blank_tfs_def blank_sectors cstr_def)
  have fn: "terminated [97, 0 :: byte]" "cstr [97, 0 :: byte] \<noteq> []" "length (cstr [97, 0 :: byte]) \<le> 15"
    by (simp_all add: terminated_def f(2))
  show thesis
  proof (cases rule: block_device.create_effect [OF yams_is_block_device blank_inv fn assms])
    case (1 T')
    then have "\<not> creatable 256 blank_volume [97] sz" by (auto simp: creatable_def tfs_files_def f)
    with blank_has_room [OF assms] show thesis by simp
  next
    case (2 T' ino)
    with tfs_files_fresh [OF 2(3-6)] that [of T'] show thesis by (simp add: f(2))
  qed
qed

text \<open>
  Property C33. Removing a file of up to 126 blocks takes it off the volume and leaves all others as
  they are. For a file of the largest size, 127 blocks, the loop that frees its blocks reads one
  element past the array of block numbers, and the model stops there; what the machine finds in that place is
  the first word of the buffer that follows, after which the comparison of the index ends the loop.
\<close>

theorem tfs_remove_limit:
  assumes "block_device G ready blk nb" "tfs_inv ready blk nb tb T" "name_ok fn"
  shows "case tfs_files (blk (disk T)) (cstr fn) of
      None \<Rightarrow> \<exists>T'. tfs_remove G fn T = Inr (VFS_NOT_FOUND, T') \<and> tfs_inv ready blk nb tb T' \<and> blk (disk T') = blk (disk T)
    | Some C \<Rightarrow>
        if length C \<le> 64512
        then \<exists>T'. tfs_remove G fn T = Inr (VFS_OK, T') \<and> tfs_inv ready blk nb tb T' \<and>
          tfs_files (blk (disk T')) = (tfs_files (blk (disk T)))(cstr fn := None)
        else tfs_remove G fn T = Inl Fault"
proof -
  let ?f = "blk (disk T)"
  have fn: "terminated fn" "cstr fn \<noteq> []" using assms(3) by (simp_all add: name_ok_def)
  have wf: "tfs_wf tb ?f" using assms(2) by (simp add: tfs_inv_def)
  show ?thesis
  proof (cases rule: block_device.remove_effect [OF assms(1,2) fn])
    case (1 T')
    then show ?thesis by (auto simp: tfs_files_def)
  next
    case (2 T' ino)
    then obtain e where e: "e \<in> set (used ?f)" "inode e = ino" by (auto simp: lookup_Some [OF wf])
    have C: "tfs_files ?f (cstr fn) = Some (content ?f ino)" using 2(1) by (simp add: tfs_files_def)
    note n = wf_used(6) [OF wf e(1), unfolded e(2)] content_length(1) [OF wf e(1), unfolded e(2)]
    show ?thesis
    proof (cases "length (content ?f ino) \<le> 64512")
      case True
      from 2(2) [OF file_blocks_small [OF wf e(1), unfolded e(2), OF True]] have R: "tfs_remove G fn T = Inr (VFS_OK, T')"
        "tfs_inv ready blk nb tb T'" "lookup (blk (disk T')) = (lookup ?f)(cstr fn := None)"
        "\<forall>n j. lookup ?f n = Some j \<longrightarrow> n \<noteq> cstr fn \<longrightarrow> content (blk (disk T')) j = content ?f j" by blast+
      with True C tfs_files_dropped [OF R(3,4)] show ?thesis by simp
    next
      case False
      have "unat (filesize (inode_of (?f ino))) \<le> 65024"
        using wf_used(3) [OF wf e(1), unfolded e(2)] by (simp add: inode_ok_def)
      with False n have "length (file_blocks ?f ino) = 127" by (simp add: nblocks_of_def)
      with 2(3) False C show ?thesis by simp
    qed
  qed
qed

theorem tfs_remove_limit_witness:
  "\<exists>T1 T2 U. tfs_create yams_block_device [97, 0] 600 blank_tfs = Inr (VFS_OK, T1) \<and>
     tfs_remove yams_block_device [97, 0] T1 = Inr (VFS_OK, U) \<and> tfs_files (yams_blk (disk U)) [97] = None \<and>
     tfs_create yams_block_device [97, 0] 65024 blank_tfs = Inr (VFS_OK, T2) \<and>
     tfs_remove yams_block_device [97, 0] T2 = Inl Fault"
proof -
  have n: "name_ok [97, 0]" "cstr [97, 0 :: byte] = [97]" by (simp_all add: name_ok_def terminated_def cstr_def)
  obtain T1 where T1: "tfs_create yams_block_device [97, 0] 600 blank_tfs = Inr (VFS_OK, T1)"
    "tfs_inv yams_ready yams_blk 256 256 T1" "tfs_files (yams_blk (disk T1)) [97] = Some (replicate (nat 600) 0)"
    by (rule one_file [of 600]) simp_all
  obtain T2 where T2: "tfs_create yams_block_device [97, 0] 65024 blank_tfs = Inr (VFS_OK, T2)"
    "tfs_inv yams_ready yams_blk 256 256 T2" "tfs_files (yams_blk (disk T2)) [97] = Some (replicate (nat 65024) 0)"
    by (rule one_file [of 65024]) simp_all
  from tfs_remove_limit [OF yams_is_block_device T1(2) n(1)] T1(3) obtain U where
    "tfs_remove yams_block_device [97, 0] T1 = Inr (VFS_OK, U)" "tfs_files (yams_blk (disk U)) [97] = None"
    by (auto simp: n(2))
  moreover from tfs_remove_limit [OF yams_is_block_device T2(2) n(1)] T2(3)
  have "tfs_remove yams_block_device [97, 0] T2 = Inl Fault" by (simp add: n(2))
  ultimately show ?thesis using T1(1) T2(1) by blast
qed

text \<open>
  The free space that is reported is the size of the blocks that are not in use: those
  of no file, inode or system block. It fits an \<open>int\<close> and is at most the size of the volume.
\<close>

theorem tfs_getfree_exact:
  assumes "block_device G ready blk nb" "tfs_inv ready blk nb tb T"
  shows "\<exists>r T'. tfs_getfree G T = Inr (r, T') \<and> tfs_inv ready blk nb tb T' \<and> blk (disk T') = blk (disk T) \<and>
    r = 512 * int (card {b. b < tb \<and> 3 \<le> b \<and> b \<notin> set (all_blocks (blk (disk T)))}) \<and> 0 \<le> r \<and> r \<le> 512 * uint tb"
proof -
  let ?f = "blk (disk T)"
  have wf: "tfs_wf tb ?f" using assms(2) by (simp add: tfs_inv_def)
  obtain T' where T': "tfs_getfree G T = Inr (512 * (uint tb - int (card (occupied ?f))), T')"
    "tfs_inv ready blk nb tb T'" "blk (disk T') = ?f" by (rule block_device.getfree_counts [OF assms])
  let ?F = "{b. b < tb \<and> 3 \<le> b \<and> b \<notin> set (all_blocks ?f)}"
  have "b < tb" if "b \<in> occupied ?f" for b
  proof (cases "b < 3")
    case False
    with that have "b \<in> set (all_blocks ?f)" unfolding less_3 occupied_def by blast
    then show ?thesis using all_blocks_range [OF wf] by blast
  qed (rule wf_system [OF wf])
  moreover have "b \<in> occupied ?f" if "\<not> (3 \<le> b \<and> b \<notin> set (all_blocks ?f))" for b
    using that unfolding ge_3 occupied_def by blast
  ultimately have "{b. b < tb} = ?F \<union> occupied ?f" by blast
  moreover have "?F \<inter> occupied ?f = {}" unfolding ge_3 occupied_def by blast
  ultimately have "card {b. b < tb} = card ?F + card (occupied ?f)"
    by (simp only: card_Un_disjoint [OF finite finite])
  moreover have "uint ` {b. b < tb} = {0..<uint tb}" by (rule uint_below)
  then have "card {b. b < tb} = nat (uint tb)" by (metis card_uint card_atLeastLessThan_int diff_zero)
  then have "int (card {b. b < tb}) = uint tb" by (simp flip: nat_uint_eq)
  ultimately have "uint tb - int (card (occupied ?f)) = int (card ?F)" by simp
  with T' show ?thesis by simp
qed

theorem tfs_getfree_exact_witness:
  "\<exists>r T'. tfs_getfree yams_block_device blank_tfs = Inr (r, T') \<and> 0 \<le> r \<and> r \<le> 131072"
  using tfs_getfree_exact [OF yams_is_block_device blank_inv] by auto

text \<open>
  Mounting takes one semaphore and one page of the pool, or nothing when it fails, and
  fails exactly when there is no semaphore or page left or the device does not carry the magic
  number; the name is the one in the header, cut to 15 characters. On a well-formed volume the
  mounted filesystem is ready for use, and unmounting it later, whatever was done to it, gives the
  semaphore and the page back.
\<close>

theorem tfs_mount_balanced:
  fixes d :: 'd
  assumes "block_device G ready blk nb" "ready d" "0 < nb" "pagepool_ok (pool K)" "pagepool_num_pages (pool K) \<le> 2 ^ 19"
    and "\<forall>a. length (page a) = 4096"
  shows "\<exists>r K' d'. tfs_init G page K d = Inr (r, K', d') \<and> ready d' \<and> blk d' = blk d \<and> pagepool_ok (pool K') \<and>
    (case r of
       None \<Rightarrow> free_sems K' = free_sems K \<and> pagepool_held (pool K') = pagepool_held (pool K) \<and>
         (free_sems K = 0 \<or> pagepool_num_free_pages (pool K) \<le> 0 \<or> bytes_word (take 4 (blk d 0)) \<noteq> TFS_MAGIC)
     | Some (fs, vname, T) \<Rightarrow> bytes_word (take 4 (blk d 0)) = TFS_MAGIC \<and> cstr vname = header_name (blk d 0) \<and>
         disk T = d' \<and> (\<forall>tb. uint tb = min (uint nb) 4096 \<longrightarrow> tfs_wf tb (blk d) \<longrightarrow> tfs_inv ready blk nb tb T) \<and>
         (\<forall>T' :: 'd tfs_t. tlock T' = 1 \<longrightarrow> (\<exists>K''. tfs_unmount fs T' K' = Inr (VFS_OK, K'') \<and> pagepool_ok (pool K'') \<and>
            free_sems K'' = free_sems K \<and> pagepool_held (pool K'') = pagepool_held (pool K))))"
proof -
  from block_device.mount_result [OF assms(1-4,6)] obtain r K' d' where
    M: "tfs_init G page K d = Inr (r, K', d')" "ready d'" "blk d' = blk d" "pagepool_ok (pool K')" and
    R: "case r of
       None \<Rightarrow> free_sems K' = free_sems K \<and> pagepool_held (pool K') = pagepool_held (pool K) \<and>
         (free_sems K = 0 \<or> pagepool_num_free_pages (pool K) \<le> 0 \<or> bytes_word (take 4 (blk d 0)) \<noteq> TFS_MAGIC)
     | Some (fs, vname, T) \<Rightarrow> bytes_word (take 4 (blk d 0)) = TFS_MAGIC \<and> terminated vname \<and>
         cstr vname = header_name (blk d 0) \<and> disk T = d' \<and> (\<exists>tb. tfs_fresh nb tb T) \<and> Suc (free_sems K') = free_sems K \<and>
         pagepool_num_pages (pool K') = pagepool_num_pages (pool K) \<and>
         (\<exists>a. fs = a OR 0x80000000 \<and> a \<noteq> 0 \<and> a \<notin> pagepool_held (pool K) \<and>
           pagepool_held (pool K') = insert a (pagepool_held (pool K)))" by (elim exE conjE) (rule that)
  show ?thesis
  proof (cases r)
    case None
    with M R show ?thesis by simp
  next
    case (Some x)
    then obtain fs vname T where x: "r = Some (fs, vname, T)" by (cases x) auto
    with R obtain a tb where S: "fs = a OR 0x80000000" "a \<notin> pagepool_held (pool K)" "tfs_fresh nb tb T" "disk T = d'"
      "pagepool_held (pool K') = insert a (pagepool_held (pool K))" "Suc (free_sems K') = free_sems K"
      "pagepool_num_pages (pool K') = pagepool_num_pages (pool K)" by auto
    have inv: "tfs_inv ready blk nb t T" if "uint t = min (uint nb) 4096" "tfs_wf t (blk d)" for t
    proof -
      have "uint t = uint tb" "t \<le> nb" using that(1) S(3) by (simp_all add: tfs_fresh_def word_le_def)
      then have "t = tb" "t \<le> nb" by (simp_all add: unsigned_word_eqI)
      with that(2) S(3,4) M(2,3) show ?thesis by (simp add: tfs_inv_def tfs_state_def tfs_fresh_def)
    qed
    have given: "\<exists>K''. tfs_unmount fs T' K' = Inr (VFS_OK, K'') \<and> pagepool_ok (pool K'') \<and>
        free_sems K'' = free_sems K \<and> pagepool_held (pool K'') = pagepool_held (pool K)" if "tlock T' = 1" for T' :: "'d tfs_t"
    proof -
      have "pagepool_num_pages (pool K') \<le> 2 ^ 19" "a \<in> pagepool_held (pool K')" using assms(5) S(5,7) by simp_all
      from unmount_result [OF M(4) this that] show ?thesis using S(1,2,5,6) by auto
    qed
    show ?thesis by (rule exI [of _ r], rule exI [of _ K'], rule exI [of _ d']) (use M R x inv given in simp)
  qed
qed

theorem tfs_mount_balanced_witness:
  "\<exists>fs vname T K' d'. tfs_init yams_block_device (\<lambda>_. replicate 4096 0) \<lparr>pool = \<lparr>pagepool_free_pages = [1], pagepool_num_pages = 4,
      pagepool_num_free_pages = 3, pagepool_static_end = 1\<rparr>, free_sems = 2\<rparr> blank_disk = Inr (Some (fs, vname, T), K', d') \<and>
     cstr vname = [100, 105, 115, 107] \<and> tfs_inv yams_ready yams_blk 256 256 T"
proof -
  let ?p = "\<lparr>pagepool_free_pages = [1], pagepool_num_pages = 4, pagepool_num_free_pages = 3, pagepool_static_end = 1\<rparr>"
  let ?K = "\<lparr>pool = ?p, free_sems = 2\<rparr>"
  have "bm.taken [1] 4 = {0}" by (auto simp: bm.taken_def bm_bit_def bit_1_iff)
  then have p: "pagepool_ok (pool ?K)" by (auto simp: pagepool_ok_def bm_fits_def bm_bit_def)
  have z: "yams_blk blank_disk 0 = word_bytes TFS_MAGIC @ [100, 105, 115, 107] @ replicate 504 0"
    unfolding blank_sectors by (simp add: blank_volume_def)
  then have m: "bytes_word (take 4 (yams_blk blank_disk 0)) = TFS_MAGIC"
    using bytes_word_bytes [of TFS_MAGIC "[]"] by simp
  have h: "header_name (yams_blk blank_disk 0) = [100, 105, 115, 107]"
    by (simp add: header_name_def z cstr_def)
  have q: "(0 :: u32) < 256" "pagepool_num_pages (pool ?K) \<le> 2 ^ 19" "\<forall>a :: u32. length (replicate 4096 (0 :: byte)) = 4096" by simp_all
  have wf: "tfs_wf 256 (yams_blk blank_disk)" using blank_wf by (simp add: blank_sectors)
  from tfs_mount_balanced [OF yams_is_block_device blank_ready q(1) p q(2,3)] show ?thesis
    using m h wf by (elim exE) (auto split: option.splits)
qed

end
