(* ===== verification/Sfs_path.thy ===== *)
theory Sfs_path
  imports Libc
begin

text \<open>
  Path names of the student filesystem (\<open>fs/sfs.c\<close>): their check, their elements and the name a file
  has in its folder. A pointer into a path is the rest of the bytes from there; the name of a folder
  ends in a slash.
\<close>

section \<open>The functions of the driver\<close>

definition SFS_FILENAME_MAX :: int where "SFS_FILENAME_MAX = 16"

definition sfs_is_valid_filename_char :: "byte \<Rightarrow> bool" where
  "sfs_is_valid_filename_char ch \<longleftrightarrow>
     ch = 95 \<or> ch = 45 \<or> ch = 46 \<or> ch = 126 \<or> ch = 32 \<or>
     (sint ch \<ge> 48 \<and> sint ch \<le> 57) \<or> (sint ch \<ge> 65 \<and> sint ch \<le> 90) \<or> (sint ch \<ge> 97 \<and> sint ch \<le> 122)"

text \<open>The loop over the characters; \<open>n\<close> is \<open>elemchars\<close>.\<close>

function valid_loop :: "cstring \<Rightarrow> int \<Rightarrow> int \<Rightarrow> int \<Rightarrow> bool kresult" where
  "valid_loop path i len n =
     (if i < len then
        if n + 1 \<ge> SFS_FILENAME_MAX then Inr False
        else
          rbind (rd path i) (\<lambda>c.
          if c = 47 then
            rbind (rd path (i - 1)) (\<lambda>p. if p = 47 then Inr False else valid_loop path (i + 1) len 0)
          else if sfs_is_valid_filename_char c then valid_loop path (i + 1) len (n + 1)
          else Inr False)
      else Inr True)"
  by pat_completeness auto
termination
  by (relation "measure (\<lambda>(p, i, len, n). nat (len - i))") auto

text \<open>\<open>None\<close> is \<open>NULL\<close>.\<close>

definition sfs_is_valid_path :: "cstring option \<Rightarrow> bool kresult" where
  "sfs_is_valid_path path =
     (case path of
        None \<Rightarrow> Inr False
      | Some path \<Rightarrow>
          rbind (strlen path) (\<lambda>len.
          if len < 1 then Inr False
          else rbind (rd path 0) (\<lambda>c. if c \<noteq> 47 then Inr False else valid_loop path 1 len 0)))"

text \<open>\<open>k\<close> is \<open>last\<close>, the position of the last slash with something behind it.\<close>

function actual_loop :: "cstring \<Rightarrow> int \<Rightarrow> int \<Rightarrow> int kresult" where
  "actual_loop path i k =
     rbind (rd path i) (\<lambda>c.
       if c = 47 then
         rbind (rd path (i + 1)) (\<lambda>d. actual_loop path (i + 1) (if d \<noteq> 0 then i else k))
       else if c = 0 then Inr k
       else actual_loop path (i + 1) k)"
  by pat_completeness auto
termination
  by (relation "measure (\<lambda>(p, i, l). nat (int (length p) - i))") (auto simp: rd_eq_Inr)

definition sfs_get_actual_filename :: "cstring \<Rightarrow> cstring kresult" where
  "sfs_get_actual_filename path = rbind (actual_loop path 0 (-1)) (\<lambda>k. Inr (drop (nat (k + 1)) path))"

definition sfs_is_folder :: "cstring option \<Rightarrow> bool kresult" where
  "sfs_is_folder path =
     (case path of
        None \<Rightarrow> Inr False
      | Some path \<Rightarrow>
          rbind (strlen path) (\<lambda>len.
          if len \<ge> 1 then rbind (rd path (len - 1)) (\<lambda>c. Inr (c = 47)) else Inr False))"

text \<open>One turn of the loop per byte copied; the rest of the path is \<open>None\<close> when nothing was left.\<close>

fun next_elem :: "cstring \<Rightarrow> cstring \<Rightarrow> int \<Rightarrow> (cstring option \<times> cstring) kresult" where
  "next_elem [] buffer i = Inl Fault"
| "next_elem (c # path) buffer i =
     rbind (wr buffer i c) (\<lambda>buffer.
       if c = 0 then Inr (if i = 0 then None else Some (c # path), buffer)
       else if c = 47 then rbind (wr buffer (i + 1) 0) (\<lambda>buffer. Inr (Some path, buffer))
       else next_elem path buffer (i + 1))"

definition sfs_next_path_elem :: "cstring \<Rightarrow> cstring \<Rightarrow> (cstring option \<times> cstring) kresult" where
  "sfs_next_path_elem consumed_path buffer = next_elem consumed_path buffer 0"

declare valid_loop.simps [simp del] actual_loop.simps [simp del]

section \<open>Elements\<close>

lemma terminated_split:
  assumes "terminated s"
  obtains z where "s = cstr s @ 0 # z"
proof -
  have "dropWhile (\<lambda>c. c \<noteq> 0) s \<noteq> []" using assms by (auto simp: terminated_def)
  moreover have "hd (dropWhile (\<lambda>c. c \<noteq> 0) s) = 0" using hd_dropWhile [OF calculation] by simp
  ultimately have "s = cstr s @ 0 # tl (dropWhile (\<lambda>c. c \<noteq> 0) s)"
    by (metis cstr_def list.collapse takeWhile_dropWhile_id)
  with that show ?thesis .
qed

text \<open>A text cut behind every slash, and the elements that a path may have.\<close>

fun elems :: "byte list \<Rightarrow> byte list list" where
  "elems [] = []"
| "elems (c # s) = (if c = 47 then [c] # elems s else case elems s of [] \<Rightarrow> [[c]] | e # es \<Rightarrow> (c # e) # es)"

definition elem_ok :: "byte list \<Rightarrow> bool" where
  "elem_ok e \<longleftrightarrow> length e \<le> 15 \<and> e \<noteq> [47] \<and> (\<forall>c \<in> set e. c = 47 \<or> sfs_is_valid_filename_char c)"

definition path_ok :: "byte list \<Rightarrow> bool" where
  "path_ok s \<longleftrightarrow> s \<noteq> [] \<and> hd s = 47 \<and> (\<forall>e \<in> set (elems (tl s)). elem_ok e)"

definition folder_name :: "byte list \<Rightarrow> bool" where
  "folder_name e \<longleftrightarrow> e \<noteq> [] \<and> last e = 47"

lemma concat_elems: "concat (elems s) = s"
  by (induction s) (auto split: list.split)

lemma elems_eq_Nil [simp]: "elems s = [] \<longleftrightarrow> s = []"
  by (cases s) (auto split: list.split)

lemma valid_char_0 [simp]: "\<not> sfs_is_valid_filename_char 0" "\<not> sfs_is_valid_filename_char 47"
  by (simp_all add: sfs_is_valid_filename_char_def)

text \<open>The first element of a text, and what is left.\<close>

lemma elems_slash [simp]: "47 \<notin> set e \<Longrightarrow> elems (e @ 47 # r) = (e @ [47]) # elems r"
  by (induction e) auto

lemma elems_rest: "47 \<notin> set e \<Longrightarrow> elems e = (if e = [] then [] else [e])"
  by (induction e) (auto split: if_splits)

lemma elems_shape:
  "e \<in> set (elems s) \<Longrightarrow> e \<noteq> [] \<and> 47 \<notin> set (butlast e)"
proof (induction s arbitrary: e)
  case (Cons c s)
  show ?case
  proof (cases "elems s")
    case (Cons x xs)
    with Cons.IH have x: "x \<noteq> [] \<and> 47 \<notin> set (butlast x)" by simp
    show ?thesis
    proof (cases "c = 47")
      case False
      with Cons Cons.prems x Cons.IH Cons show ?thesis using Cons.IH [of e] by (auto split: if_splits)
    qed (use Cons.prems Cons.IH in auto)
  qed (use Cons.prems in \<open>auto split: if_splits\<close>)
qed simp

section \<open>The check of a path\<close>

text \<open>What the loop of the check decides when \<open>n\<close> characters of the current element are behind it.\<close>

definition elem_ok_from :: "nat \<Rightarrow> byte list \<Rightarrow> bool" where
  "elem_ok_from n e \<longleftrightarrow> n + length e \<le> 15 \<and> (n = 0 \<longrightarrow> e \<noteq> [47]) \<and> (\<forall>c \<in> set e. c = 47 \<or> sfs_is_valid_filename_char c)"

definition rest_ok :: "nat \<Rightarrow> byte list \<Rightarrow> bool" where
  "rest_ok n r \<longleftrightarrow> (case elems r of [] \<Rightarrow> True | e # es \<Rightarrow> elem_ok_from n e \<and> (\<forall>e \<in> set es. elem_ok e))"

lemma rest_ok_0: "rest_ok 0 r \<longleftrightarrow> (\<forall>e \<in> set (elems r). elem_ok e)"
  by (simp add: rest_ok_def elem_ok_from_def elem_ok_def split: list.split)

lemma rest_ok_simps:
  "rest_ok n []"
  "rest_ok n (47 # r) \<longleftrightarrow> n + 1 \<le> 15 \<and> n \<noteq> 0 \<and> rest_ok 0 r"
  "c \<noteq> 47 \<Longrightarrow> rest_ok n (c # r) \<longleftrightarrow> n + 1 \<le> 15 \<and> sfs_is_valid_filename_char c \<and> rest_ok (Suc n) r"
  by (auto simp: rest_ok_0, auto simp: rest_ok_def elem_ok_from_def split: list.splits)

lemma valid_loop_eq:
  assumes "path = pre @ r @ 0 # z" "pre \<noteq> []" "last pre = 47 \<longleftrightarrow> n = 0"
  shows "valid_loop path (int (length pre)) (int (length (pre @ r))) (int n) = Inr (rest_ok n r)"
  using assms
proof (induction r arbitrary: pre n)
  case Nil
  then show ?case by (simp add: valid_loop.simps rest_ok_simps)
next
  case (Cons c r)
  let ?i = "int (length pre)" and ?l = "int (length (pre @ c # r))"
  have rd: "rd path ?i = Inr c" "rd path (?i - 1) = Inr (last pre)"
    using Cons.prems(1,2) by (simp_all add: rd_def nth_append nat_diff_distrib' last_conv_nth Suc_le_eq)
  have step: "valid_loop path (?i + 1) ?l (int m) = Inr (rest_ok m r)" if "c = 47 \<longleftrightarrow> m = 0" for m
    using Cons.IH [of "pre @ [c]" m] Cons.prems(1) that by (simp add: add.commute)
  show ?case
    using step [of 0] step [of "Suc n"] rd Cons.prems(3)
    by (subst valid_loop.simps) (auto simp: SFS_FILENAME_MAX_def rest_ok_simps add.commute)
qed

lemma valid_path_eq:
  assumes "terminated path"
  shows "sfs_is_valid_path (Some path) = Inr (path_ok (cstr path))"
proof -
  let ?s = "cstr path"
  obtain z where z: "path = ?s @ 0 # z" by (rule terminated_split [OF assms])
  show ?thesis
  proof (cases ?s)
    case Nil
    then show ?thesis using strlen_eq [OF assms] by (simp add: sfs_is_valid_path_def path_ok_def)
  next
    case (Cons c s)
    then have p: "path = [c] @ s @ 0 # z" using z by simp
    then have "rd path 0 = Inr c" by simp
    moreover have "valid_loop path 1 (int (length ?s)) 0 = Inr (rest_ok 0 s)" if "c = 47"
      using valid_loop_eq [OF p, of 0] that Cons by simp
    ultimately show ?thesis
      using strlen_eq [OF assms] Cons by (auto simp: sfs_is_valid_path_def path_ok_def rest_ok_0)
  qed
qed

section \<open>Taking a path apart\<close>

lemma nat_int_Suc: "nat (int n + 1) = Suc n" "nat (1 + int n) = Suc n"
  by simp_all

text \<open>
  Taking the next element: with nothing left the result is \<open>None\<close>; an element of at most 15
  characters fits the buffer of 16 bytes and is there afterwards.
\<close>

lemma next_elem_fits:
  assumes "elems t = e # es" "length w + length e \<le> 15" "length buf = 16" "take (length w) buf = w"
    and "0 \<notin> set t" "w = [] \<longrightarrow> t \<noteq> []"
  shows "\<exists>buf'. next_elem (t @ 0 # z) buf (int (length w)) = Inr (Some (concat es @ 0 # z), buf') \<and>
    length buf' = 16 \<and> take (length w + length e + 1) buf' = w @ e @ [0]"
  using assms
proof (induction t arbitrary: e w buf)
  case (Cons c t)
  let ?b = "buf[length w := c]"
  have len: "length w < 15" using Cons.prems(1,2) by (auto split: if_splits list.splits)
  then have wr: "wr buf (int (length w)) c = Inr ?b" using Cons.prems(3) by simp
  have tk: "take (length (w @ [c])) ?b = w @ [c]"
    using Cons.prems(3,4) len by (simp add: take_Suc_conv_app_nth)
  show ?case
  proof (cases "c = 47")
    case True
    then have e: "e = [47]" "es = elems t" using Cons.prems(1) by simp_all
    let ?b' = "?b[Suc (length w) := 0]"
    have "wr ?b (int (length w) + 1) 0 = Inr ?b'" using len Cons.prems(3) by (simp add: wr_def nat_int_Suc)
    moreover have "take (length w + 2) ?b' = w @ [47, 0]"
      using tk len Cons.prems(3) True by (simp add: take_Suc_conv_app_nth)
    ultimately show ?thesis using True e wr Cons.prems(3) by (simp add: concat_elems)
  next
    case False
    have c0: "c \<noteq> 0" using Cons.prems(5) by auto
    have nx: "next_elem ((c # t) @ 0 # z) buf (int (length w)) = next_elem (t @ 0 # z) ?b (int (length (w @ [c])))"
      using False c0 wr by (simp add: add.commute)
    show ?thesis
    proof (cases t)
      case Nil
      then have e: "e = [c]" "es = []" using False Cons.prems(1) by simp_all
      let ?b' = "?b[Suc (length w) := 0]"
      have "wr ?b (int (length (w @ [c]))) 0 = Inr ?b'" using len Cons.prems(3) by (simp add: wr_def nat_int_Suc)
      moreover have "take (length w + 2) ?b' = w @ [c, 0]"
        using tk len Cons.prems(3) by (simp add: take_Suc_conv_app_nth)
      ultimately show ?thesis using Nil nx e Cons.prems(3) by simp
    next
      case (Cons d t')
      then obtain e' where e': "elems t = e' # es" "e = c # e'"
        using False Cons.prems(1) by (cases "elems t") (auto split: if_splits list.splits)
      from Cons.IH [OF e'(1), of "w @ [c]" ?b] Cons.prems(2,3,5) tk e'(2) show ?thesis
        unfolding nx by simp
    qed
  qed
qed simp

lemma next_path_elem_None:
  "length buf = 16 \<Longrightarrow> sfs_next_path_elem (0 # z) buf = Inr (None, buf[0 := 0])"
  by (simp add: sfs_next_path_elem_def)

lemma next_path_elem_Some:
  assumes "elems t = e # es" "elem_ok e" "length buf = 16" "0 \<notin> set t"
  obtains buf' where "sfs_next_path_elem (t @ 0 # z) buf = Inr (Some (concat es @ 0 # z), buf')"
    "length buf' = 16" "terminated buf'" "cstr buf' = e"
proof -
  have "t \<noteq> []" using assms(1) by auto
  with next_elem_fits [OF assms(1), of "[]" buf z] assms(2-4) obtain buf' where
    b: "next_elem (t @ 0 # z) buf 0 = Inr (Some (concat es @ 0 # z), buf')" "length buf' = 16"
      "take (length e + 1) buf' = e @ [0]" by (auto simp: elem_ok_def)
  have "buf' = e @ 0 # drop (length e + 1) buf'"
    using append_take_drop_id [of "length e + 1" buf'] unfolding b(3) by simp
  moreover have "0 \<notin> set e" using assms(1,4) concat_elems [of t] by auto
  ultimately have "cstr buf' = e" "terminated buf'"
    using cstr_append_0 [of e "drop (length e + 1) buf'"] by (auto simp: terminated_def) (metis in_set_conv_decomp)
  with that b(1,2) show ?thesis by (simp add: sfs_next_path_elem_def)
qed

text \<open>The name in the folder is the last element; a path is that of a folder when it ends in a slash.\<close>

lemma actual_loop_eq:
  assumes "path = pre @ t @ 0 # z" "47 \<notin> set t" "0 \<notin> set t"
  shows "actual_loop path (int (length pre)) k = Inr k"
  using assms
proof (induction t arbitrary: pre)
  case Nil
  then show ?case by (subst actual_loop.simps) simp
next
  case (Cons c t)
  then have "rd path (int (length pre)) = Inr c" by simp
  with Cons.IH [of "pre @ [c]"] Cons.prems show ?case
    by (subst actual_loop.simps) (simp add: add.commute)
qed

lemma actual_loop_elems:
  assumes "path = pre @ t @ 0 # z" "0 \<notin> set t" "pre \<noteq> []" "last pre = 47" "k = int (length pre) - 1" "t \<noteq> []"
  shows "actual_loop path (int (length pre)) k = Inr (int (length pre + length (concat (butlast (elems t)))) - 1)"
  using assms
proof (induction "length t" arbitrary: t pre k rule: less_induct)
  case less
  show ?case
  proof (cases "47 \<in> set t")
    case False
    with less.prems(6) have "elems t = [t]" by (simp add: elems_rest)
    with actual_loop_eq [OF less.prems(1) False less.prems(2)] less.prems(5) show ?thesis by simp
  next
    case True
    then obtain e r where er: "t = e @ 47 # r" "47 \<notin> set e" by (metis split_list_first)
    have skip: "actual_loop path (int (length pre)) k = actual_loop path (int (length (pre @ e))) k"
      using less.prems(1,2) er
    proof (induction e arbitrary: pre t)
      case (Cons c e)
      then have "rd path (int (length pre)) = Inr c" by simp
      with Cons.IH [of "pre @ [c]" "e @ 47 # r"] Cons.prems show ?case
        by (subst actual_loop.simps) (simp add: add.commute)
    qed simp
    have rd: "rd path (int (length (pre @ e))) = Inr 47"
      "rd path (int (length (pre @ e)) + 1) = Inr (hd (r @ [0]))"
      using less.prems(1) er by (simp_all add: rd_def nth_append nat_int_Suc nat_add_distrib hd_append hd_conv_nth split: list.split)
    show ?thesis
    proof (cases "r = []")
      case r: True
      then have "path = (pre @ e @ [47]) @ [] @ 0 # z" using less.prems(1) er by simp
      from actual_loop_eq [OF this, of k] have "actual_loop path (int (length (pre @ e)) + 1) k = Inr k"
        by (simp add: add.commute)
      with rd r have "actual_loop path (int (length (pre @ e))) k = Inr k"
        by (subst actual_loop.simps) simp
      with skip er r less.prems(5) show ?thesis by simp
    next
      case r: False
      let ?k = "int (length (pre @ e))"
      have p: "path = (pre @ e @ [47]) @ r @ 0 # z" using less.prems(1) er by simp
      have "hd (r @ [0]) \<noteq> 0" using r less.prems(2) er by (cases r) auto
      with rd have "actual_loop path ?k k = actual_loop path (?k + 1) ?k" by (subst actual_loop.simps) simp
      also have "\<dots> = actual_loop path (int (length (pre @ e @ [47]))) ?k" by (simp add: add.commute)
      also have "\<dots> = Inr (int (length (pre @ e @ [47]) + length (concat (butlast (elems r)))) - 1)"
        by (rule less.hyps) (use p er r less.prems(2) in auto)
      finally show ?thesis using skip er r by simp
    qed
  qed
qed

lemma actual_filename:
  assumes "terminated path" "cstr path = 47 # t" "t \<noteq> []"
  obtains nm where "sfs_get_actual_filename path = Inr nm" "terminated nm" "cstr nm = last (elems t)"
proof -
  obtain z where z: "path = (47 # t) @ 0 # z" using terminated_split [OF assms(1)] assms(2) by metis
  let ?b = "concat (butlast (elems t))" and ?l = "last (elems t)"
  have t: "t = ?b @ ?l" using assms(3) concat_elems [of t] append_butlast_last_id [of "elems t"]
    by (metis concat.simps(1,2) concat_append append_Nil2 elems_eq_Nil)
  have no0: "0 \<notin> set t" using cstr_no_0 [of path] assms(2) by simp
  have "hd t \<noteq> 0" using no0 assms(3) by (cases t) auto
  then have "actual_loop path 0 (-1) = actual_loop path 1 0"
    using z assms(3) by (subst actual_loop.simps) (simp add: nth_append hd_conv_nth)
  also have "\<dots> = Inr (int (length ?b))"
    using actual_loop_elems [of path "[47]" t z 0] z no0 assms(3) by simp
  finally have a: "sfs_get_actual_filename path = Inr (drop (Suc (length ?b)) path)"
    by (simp add: sfs_get_actual_filename_def nat_int_Suc)
  have d: "drop (Suc (length ?b)) path = ?l @ 0 # z" using z t by (metis append.assoc append_Cons append_eq_conv_conj drop_Suc_Cons)
  have "0 \<notin> set ?l" using no0 t by (metis UnCI set_append)
  then have "cstr (?l @ 0 # z) = ?l" "terminated (?l @ 0 # z)" by (simp_all add: cstr_append_0 terminated_def)
  with that a d show ?thesis by metis
qed

lemma is_folder_eq:
  assumes "terminated path"
  shows "sfs_is_folder (Some path) = Inr (folder_name (cstr path))"
proof -
  obtain s z where z: "path = s @ 0 # z" "cstr path = s" using terminated_split [OF assms] by metis
  show ?thesis
  proof (cases "s = []")
    case False
    then have "rd path (int (length s) - 1) = Inr (last s)"
      by (simp add: z(1) rd_def nth_append nat_diff_distrib' last_conv_nth Suc_le_eq)
    with False show ?thesis using strlen_eq [OF assms] z(2) by (simp add: sfs_is_folder_def folder_name_def Suc_le_eq)
  qed (use strlen_eq [OF assms] z(2) in \<open>simp add: sfs_is_folder_def folder_name_def\<close>)
qed

section \<open>Paths and lists of elements\<close>

text \<open>
  A list of elements: folder names, and at the end a folder or a file. All elements of a path, as
  repeated calls give them.
\<close>

definition elem_list_ok :: "byte list list \<Rightarrow> bool" where
  "elem_list_ok es \<longleftrightarrow> (\<forall>e \<in> set es. elem_ok e \<and> e \<noteq> [] \<and> 47 \<notin> set (butlast e)) \<and> (\<forall>e \<in> set (butlast es). folder_name e)"

fun take_elems :: "nat \<Rightarrow> cstring \<Rightarrow> cstring \<Rightarrow> byte list list kresult" where
  "take_elems 0 path buf = Inl Hang"
| "take_elems (Suc n) path buf =
     rbind (sfs_next_path_elem path buf) (\<lambda>(r, buf).
       case r of None \<Rightarrow> Inr [] | Some path \<Rightarrow> rbind (take_elems n path buf) (\<lambda>es. Inr (cstr buf # es)))"

lemma folder_name_eq: "folder_name e \<longleftrightarrow> (\<exists>x. e = x @ [47])"
  by (cases e rule: rev_cases) (auto simp: folder_name_def)

lemma elems_concat: "elem_list_ok es \<Longrightarrow> elems (concat es) = es"
proof (induction es)
  case (Cons e es)
  then have e: "e \<noteq> []" "47 \<notin> set (butlast e)" by (auto simp: elem_list_ok_def)
  show ?case
  proof (cases "folder_name e")
    case True
    then obtain x where x: "e = x @ [47]" by (auto simp: folder_name_eq)
    moreover have "elem_list_ok es" using Cons.prems by (auto simp: elem_list_ok_def split: if_splits)
    ultimately show ?thesis using Cons.IH e by simp
  next
    case False
    then have "es = []" using Cons.prems by (auto simp: elem_list_ok_def split: if_splits)
    moreover have "47 \<notin> set e" using e False by (cases e rule: rev_cases) (auto simp: folder_name_def)
    ultimately show ?thesis using e by (simp add: elems_rest)
  qed
qed simp

lemma elems_folders: "e \<in> set (butlast (elems s)) \<Longrightarrow> folder_name e"
proof (induction s arbitrary: e)
  case (Cons c s)
  show ?case
  proof (cases "elems s")
    case (Cons x xs)
    with Cons.IH Cons.prems show ?thesis
      by (cases xs) (auto simp: folder_name_def split: if_splits)
  qed (use Cons.prems in \<open>auto split: if_splits\<close>)
qed simp

lemma elem_list_ok_elems: "\<forall>e \<in> set (elems s). elem_ok e \<Longrightarrow> elem_list_ok (elems s)"
  using elems_shape elems_folders by (auto simp: elem_list_ok_def)

lemma take_elems_eq:
  assumes "\<forall>e \<in> set (elems t). elem_ok e" "0 \<notin> set t" "length buf = 16" "n > length (elems t)"
  shows "take_elems n (t @ 0 # z) buf = Inr (elems t)"
  using assms
proof (induction "elems t" arbitrary: t buf n)
  case Nil
  then obtain m where "n = Suc m" by (cases n) auto
  moreover have "t = []" using Nil.hyps elems_eq_Nil by metis
  ultimately show ?case using Nil.prems(3) by (simp add: next_path_elem_None)
next
  case (Cons e es)
  then obtain m where m: "n = Suc m" by (cases n) auto
  have el: "elems t = e # es" using Cons.hyps(2) by simp
  then have ok: "elem_ok e" using Cons.prems(1) by simp
  obtain buf' where b: "sfs_next_path_elem (t @ 0 # z) buf = Inr (Some (concat es @ 0 # z), buf')"
    "length buf' = 16" "cstr buf' = e"
    by (rule next_path_elem_Some [OF el ok Cons.prems(3,2)])
  have "elem_list_ok (e # es)" using elem_list_ok_elems [OF Cons.prems(1)] el by simp
  then have "elem_list_ok es" by (auto simp: elem_list_ok_def split: if_splits)
  then have es: "elems (concat es) = es" by (rule elems_concat)
  have "0 \<notin> set (concat es)" using Cons.prems(2) concat_elems [of t] el by auto
  with Cons.hyps(1) [of "concat es" buf' m] Cons.prems(1,4) b(2) el es m
  have "take_elems m (concat es @ 0 # z) buf' = Inr es" by simp
  with b m el show ?case by simp
qed

text \<open>
  Property C36. The check accepts exactly the paths that are a slash followed by a list of
  elements of at most 15 characters; calling for the next element until none is left gives back
  that list, always inside the 16 bytes of the buffer, and the name of the file in its folder is
  the last element.
\<close>

theorem sfs_path_roundtrip:
  assumes "terminated path" "length buf = 16"
  shows "sfs_is_valid_path (Some path) = Inr (\<exists>es. elem_list_ok es \<and> cstr path = 47 # concat es) \<and>
    (\<forall>es. elem_list_ok es \<and> cstr path = 47 # concat es \<longrightarrow>
       take_elems (Suc (length es)) (tl path) buf = Inr es \<and>
       (es \<noteq> [] \<longrightarrow> (\<exists>nm. sfs_get_actual_filename path = Inr nm \<and> cstr nm = last es)))"
proof -
  have "path_ok (cstr path) \<longleftrightarrow> (\<exists>es. elem_list_ok es \<and> cstr path = 47 # concat es)"
  proof
    assume p: "path_ok (cstr path)"
    then have "elem_list_ok (elems (tl (cstr path)))" by (intro elem_list_ok_elems) (simp add: path_ok_def)
    then show "\<exists>es. elem_list_ok es \<and> cstr path = 47 # concat es"
      using p by (intro exI [of _ "elems (tl (cstr path))"]) (cases "cstr path", auto simp: path_ok_def concat_elems)
  next
    assume "\<exists>es. elem_list_ok es \<and> cstr path = 47 # concat es"
    then show "path_ok (cstr path)" using elems_concat by (fastforce simp: path_ok_def elem_list_ok_def)
  qed
  moreover have "take_elems (Suc (length es)) (tl path) buf = Inr es \<and>
      (es \<noteq> [] \<longrightarrow> (\<exists>nm. sfs_get_actual_filename path = Inr nm \<and> cstr nm = last es))"
    if es: "elem_list_ok es" "cstr path = 47 # concat es" for es
  proof -
    obtain z where z: "path = cstr path @ 0 # z" by (rule terminated_split [OF assms(1)])
    then have tl: "tl path = concat es @ 0 # z" using es(2) by (metis append_Cons list.sel(3))
    have no0: "0 \<notin> set (concat es)" using cstr_no_0 [of path] es(2) by simp
    have el: "elems (concat es) = es" by (rule elems_concat [OF es(1)])
    have "take_elems (Suc (length es)) (tl path) buf = Inr es"
      using take_elems_eq [of "concat es" buf "Suc (length es)" z] es(1) no0 assms(2) el
      unfolding tl by (simp add: elem_list_ok_def)
    moreover have "\<exists>nm. sfs_get_actual_filename path = Inr nm \<and> cstr nm = last es" if "es \<noteq> []"
    proof -
      have "concat es \<noteq> []" using el that by (metis elems.simps(1))
      from actual_filename [OF assms(1) es(2) this] el show ?thesis by metis
    qed
    ultimately show ?thesis by blast
  qed
  ultimately show ?thesis using valid_path_eq [OF assms(1)] by simp
qed

theorem sfs_path_roundtrip_witness:
  "take_elems 3 [97, 47, 98, 0] (replicate 16 0) = Inr [[97, 47], [98]]"
proof -
  have t: "terminated [47, 97, 47, 98, 0 :: byte]" "length (replicate 16 (0 :: byte)) = 16" by (simp_all add: terminated_def)
  have "elem_list_ok [[97, 47], [98]]"
    by (simp add: elem_list_ok_def elem_ok_def folder_name_def sfs_is_valid_filename_char_def)
  moreover have "cstr [47, 97, 47, 98, 0] = 47 # concat [[97, 47], [98 :: byte]]" by simp
  ultimately show ?thesis
    using conjunct2 [OF sfs_path_roundtrip [OF t], rule_format, of "[[97, 47], [98]]"]
    by (simp only: list.sel length_Cons list.size numeral_3_eq_3 numeral_2_eq_2 One_nat_def add_0)
qed

end
