(* ===== verification/Sfs.thy ===== *)
theory Sfs
  imports Sfs_path Tfs
begin

text \<open>
  The student filesystem of \<open>fs/sfs.c\<close>: folders, a table of open files with deferred deletion, and
  the locking of readers and writers. Every function of the driver is here. As for the trivial
  filesystem a call runs alone: its locks are values, and waiting for one that is not free is
  \<open>Hang\<close>. The sections that run under the lock of an open file are functions on its entry, which
  theory \<open>Sfs_sync\<close> uses for calls that run at the same time.

  Inodes and directory entries have the layout of the trivial filesystem, so their types and
  encodings are shared. \<open>SFS_BLOCKS_PER_VBLOCK\<close> is 1, so a virtual block is one block.
\<close>

section \<open>Constants and structures\<close>

definition SFS_VBLOCK_SIZE :: int where "SFS_VBLOCK_SIZE = 512"
definition SFS_MAGIC :: u32 where "SFS_MAGIC = 3745"
definition SFS_ALLOCATION_BLOCK :: u32 where "SFS_ALLOCATION_BLOCK = 1"
definition SFS_DIRECTORY_BLOCK :: int where "SFS_DIRECTORY_BLOCK = 2"
definition SFS_VOLUMENAME_MAX :: int where "SFS_VOLUMENAME_MAX = 16"
definition SFS_MAX_OPEN_FILES :: int where "SFS_MAX_OPEN_FILES = 32"
definition SFS_BLOCKS_MAX :: int where "SFS_BLOCKS_MAX = SFS_VBLOCK_SIZE div 4 - 1"
definition SFS_MAX_FILES :: int where "SFS_MAX_FILES = SFS_VBLOCK_SIZE div 20"

lemmas sfs_sizes = SFS_VBLOCK_SIZE_def SFS_ALLOCATION_BLOCK_def SFS_DIRECTORY_BLOCK_def SFS_VOLUMENAME_MAX_def
  SFS_MAX_OPEN_FILES_def SFS_BLOCKS_MAX_def SFS_MAX_FILES_def SFS_FILENAME_MAX_def

text \<open>\<open>io_lock\<close> is 1 while the lock of the entry is free.\<close>

record sfs_openfile_t =
  io_lock :: int
  times_opened :: int
  readernum :: int
  writer_tid :: int
  fileid :: int
  parentid :: int
  is_folder :: bool
  is_deleted :: bool

text \<open>
  The kernel's resources: the page pool and the semaphores, locks and condition variables that are
  left in their tables.
\<close>

record sfs_res = kernel_res +
  free_locks :: nat
  free_conds :: nat

record 'd sfs_t =
  stotalblocks :: u32
  totalvblocks :: u32
  sdisk :: 'd
  slock :: int
  sbuf_inode :: tfs_inode_t
  sbuf_bat :: "byte list"
  sbuf_md :: "tfs_direntry_t list"
  smd_rest :: "byte list"
  open_files :: "sfs_openfile_t list"
  openfile_lock :: int
  kres :: sfs_res

section \<open>Transfers\<close>

text \<open>
  \<open>read_vblock\<close> and \<open>write_vblock\<close> create a semaphore, submit a request with it and wait for it: together
  a blocking transfer. With no semaphore left they wait on \<open>NULL\<close>. After a failed write the
  semaphore is not given back.
\<close>

definition read_vblock :: "'d gbd_t \<Rightarrow> u32 \<Rightarrow> nat \<Rightarrow> 'd \<Rightarrow> (int \<times> byte list \<times> 'd) kresult" where
  "read_vblock G b sems d = (if sems = 0 then Inl Fault else read_block G b d)"

definition write_vblock :: "'d gbd_t \<Rightarrow> u32 \<Rightarrow> byte list \<Rightarrow> nat \<Rightarrow> 'd \<Rightarrow> (int \<times> nat \<times> 'd) kresult" where
  "write_vblock G b bs sems d =
     (if sems = 0 then Inl Fault
      else rbind (write_block G b bs d) (\<lambda>(r, d). Inr (r, if r = 0 then sems - 1 else sems, d)))"

text \<open>The same from the state of the driver.\<close>

definition sread :: "'d gbd_t \<Rightarrow> u32 \<Rightarrow> 'd sfs_t \<Rightarrow> (int \<times> byte list \<times> 'd sfs_t) kresult" where
  "sread G b T = rbind (read_vblock G b (free_sems (kres T)) (sdisk T)) (\<lambda>(r, bs, d). Inr (r, bs, T\<lparr>sdisk := d\<rparr>))"

definition swrite :: "'d gbd_t \<Rightarrow> u32 \<Rightarrow> byte list \<Rightarrow> 'd sfs_t \<Rightarrow> (int \<times> 'd sfs_t) kresult" where
  "swrite G b bs T = rbind (write_vblock G b bs (free_sems (kres T)) (sdisk T)) (\<lambda>(r, n, d).
     Inr (r, T\<lparr>sdisk := d, kres := (kres T)\<lparr>free_sems := n\<rparr>\<rparr>))"

definition read_smd :: "'d gbd_t \<Rightarrow> u32 \<Rightarrow> 'd sfs_t \<Rightarrow> (int \<times> 'd sfs_t) kresult" where
  "read_smd G b T = rbind (sread G b T) (\<lambda>(r, bs, T). Inr (r, T\<lparr>sbuf_md := dir_of bs, smd_rest := drop 500 bs\<rparr>))"

definition read_sbat :: "'d gbd_t \<Rightarrow> u32 \<Rightarrow> 'd sfs_t \<Rightarrow> (int \<times> 'd sfs_t) kresult" where
  "read_sbat G b T = rbind (sread G b T) (\<lambda>(r, bs, T). Inr (r, T\<lparr>sbuf_bat := bs\<rparr>))"

definition read_sinode :: "'d gbd_t \<Rightarrow> u32 \<Rightarrow> 'd sfs_t \<Rightarrow> (int \<times> 'd sfs_t) kresult" where
  "read_sinode G b T = rbind (sread G b T) (\<lambda>(r, bs, T). Inr (r, T\<lparr>sbuf_inode := inode_of bs\<rparr>))"

definition write_smd :: "'d gbd_t \<Rightarrow> u32 \<Rightarrow> 'd sfs_t \<Rightarrow> (int \<times> 'd sfs_t) kresult" where
  "write_smd G b T = swrite G b (of_dir (sbuf_md T) @ smd_rest T) T"

definition write_sbat :: "'d gbd_t \<Rightarrow> u32 \<Rightarrow> 'd sfs_t \<Rightarrow> (int \<times> 'd sfs_t) kresult" where
  "write_sbat G b T = swrite G b (sbuf_bat T) T"

definition write_sinode :: "'d gbd_t \<Rightarrow> u32 \<Rightarrow> 'd sfs_t \<Rightarrow> (int \<times> 'd sfs_t) kresult" where
  "write_sinode G b T = swrite G b (of_inode (sbuf_inode T)) T"

text \<open>The locks of the driver.\<close>

definition P_slock :: "'d sfs_t \<Rightarrow> 'd sfs_t kresult" where
  "P_slock T = rbind (sem_down (slock T)) (\<lambda>n. Inr (T\<lparr>slock := n\<rparr>))"

definition V_slock :: "'d sfs_t \<Rightarrow> 'd sfs_t" where
  "V_slock T = T\<lparr>slock := slock T + 1\<rparr>"

definition acquire_open :: "'d sfs_t \<Rightarrow> 'd sfs_t kresult" where
  "acquire_open T = (if openfile_lock T = 1 then Inr (T\<lparr>openfile_lock := 0\<rparr>) else Inl Hang)"

definition release_open :: "'d sfs_t \<Rightarrow> 'd sfs_t kresult" where
  "release_open T = (if openfile_lock T = 0 then Inr (T\<lparr>openfile_lock := 1\<rparr>) else Inl Assert)"

definition set_entry :: "int \<Rightarrow> sfs_openfile_t \<Rightarrow> 'd sfs_t \<Rightarrow> 'd sfs_t kresult" where
  "set_entry k e T = rbind (wr (open_files T) k e) (\<lambda>es. Inr (T\<lparr>open_files := es\<rparr>))"

text \<open>Going on after a transfer; when the device returned 0 the lock is released and \<open>err\<close> is the result.\<close>

definition sthen :: "'e \<Rightarrow> (int \<times> 'd sfs_t) kresult \<Rightarrow> ('d sfs_t \<Rightarrow> ('e \<times> 'd sfs_t) kresult) \<Rightarrow> ('e \<times> 'd sfs_t) kresult" where
  "sthen err m f = rbind m (\<lambda>(r, T). if r = 0 then Inr (err, V_slock T) else f T)"

section \<open>Deleting\<close>

definition sfs_reset_entry :: "sfs_openfile_t \<Rightarrow> sfs_openfile_t" where
  "sfs_reset_entry e = e\<lparr>fileid := -1, parentid := -1, times_opened := 0, readernum := 0, writer_tid := -1,
     is_folder := False, is_deleted := False\<rparr>"

function sfs_free_blocks :: "u32 list \<Rightarrow> int \<Rightarrow> bitmap_t \<Rightarrow> bitmap_t kresult" where
  "sfs_free_blocks bl i bm =
     (if i < SFS_BLOCKS_MAX then
        rbind (rd bl i) (\<lambda>b.
        if b \<noteq> 0 then rbind (bitmap_set bm (sint b) 0) (\<lambda>bm. sfs_free_blocks bl (i + 1) bm)
        else Inr bm)
      else Inr bm)"
  by pat_completeness auto
termination
  by (relation "measure (\<lambda>(bl, i, bm). nat (SFS_BLOCKS_MAX - i))") auto

function orphan_entries :: "int \<Rightarrow> int \<Rightarrow> sfs_openfile_t list \<Rightarrow> sfs_openfile_t list kresult" where
  "orphan_entries fid i es =
     (if i < SFS_MAX_OPEN_FILES then
        rbind (rd es i) (\<lambda>e.
        rbind (if parentid e = fid then wr es i (e\<lparr>parentid := -1\<rparr>) else Inr es) (\<lambda>es.
        orphan_entries fid (i + 1) es))
      else Inr es)"
  by pat_completeness auto
termination
  by (relation "measure (\<lambda>(f, i, es). nat (SFS_MAX_OPEN_FILES - i))") auto

text \<open>\<open>_delete\<close>; the code ignores \<open>parentid\<close>.\<close>

definition delete_inode :: "'d gbd_t \<Rightarrow> int \<Rightarrow> bool \<Rightarrow> 'd sfs_t \<Rightarrow> (unit \<times> 'd sfs_t) kresult" where
  "delete_inode G fid folder T =
     rbind (P_slock T) (\<lambda>T.
     sthen () (read_sbat G SFS_ALLOCATION_BLOCK T) (\<lambda>T.
     rbind (bitmap_set (block_words (sbuf_bat T)) fid 0) (\<lambda>bm.
     let T = T\<lparr>sbuf_bat := words_block bm\<rparr>;
         finish = (\<lambda>T. sthen () (write_sbat G SFS_ALLOCATION_BLOCK T) (\<lambda>T. Inr ((), V_slock T))) in
     if \<not> folder then
       sthen () (read_sinode G (word_of_int fid) T) (\<lambda>T.
       rbind (sfs_free_blocks (block (sbuf_inode T)) 0 (block_words (sbuf_bat T))) (\<lambda>bm.
       finish (T\<lparr>sbuf_bat := words_block bm\<rparr>)))
     else
       rbind (orphan_entries fid 0 (open_files T)) (\<lambda>es. finish (T\<lparr>open_files := es\<rparr>)))))"

function clear_entries :: "int \<Rightarrow> int \<Rightarrow> tfs_direntry_t list \<Rightarrow> tfs_direntry_t list kresult" where
  "clear_entries fid i md =
     (if i < SFS_MAX_FILES then
        rbind (rd md i) (\<lambda>e.
        rbind (if sint (inode e) = fid
               then rbind (wr (name e) 0 0) (\<lambda>nm. wr md i (e\<lparr>inode := 0, name := nm\<rparr>))
               else Inr md) (\<lambda>md.
        clear_entries fid (i + 1) md))
      else Inr md)"
  by pat_completeness auto
termination
  by (relation "measure (\<lambda>(f, i, md). nat (SFS_MAX_FILES - i))") auto

text \<open>\<open>_delete_from_dirtree\<close>.\<close>

definition delete_from_dirtree :: "'d gbd_t \<Rightarrow> int \<Rightarrow> int \<Rightarrow> 'd sfs_t \<Rightarrow> (unit \<times> 'd sfs_t) kresult" where
  "delete_from_dirtree G fid parent T =
     rbind (P_slock T) (\<lambda>T.
     if parent > 0 then
       sthen () (read_smd G (word_of_int parent) T) (\<lambda>T.
       rbind (clear_entries fid 0 (sbuf_md T)) (\<lambda>md.
       sthen () (write_smd G (word_of_int parent) (T\<lparr>sbuf_md := md\<rparr>)) (\<lambda>T. Inr ((), V_slock T))))
     else Inr ((), V_slock T))"

declare sfs_free_blocks.simps [simp del] orphan_entries.simps [simp del] clear_entries.simps [simp del]

section \<open>The table of open files\<close>

function find_entry :: "int \<Rightarrow> sfs_openfile_t list \<Rightarrow> int \<Rightarrow> int option \<Rightarrow> int option kresult" where
  "find_entry fid es i f =
     (if i < SFS_MAX_OPEN_FILES then
        rbind (rd es i) (\<lambda>e.
        if fileid e = fid then Inr (Some i)
        else find_entry fid es (i + 1) (if fileid e = -1 \<and> f = None then Some i else f))
      else Inr f)"
  by pat_completeness auto
termination
  by (relation "measure (\<lambda>(f, es, i, r). nat (SFS_MAX_OPEN_FILES - i))") auto

declare find_entry.simps [simp del]

text \<open>The result is the index of the entry, or \<open>None\<close> for \<open>NULL\<close>.\<close>

definition sfs_enter_ext ::
  "'d gbd_t \<Rightarrow> int \<Rightarrow> int \<Rightarrow> bool \<Rightarrow> bool \<Rightarrow> bool \<Rightarrow> 'd sfs_t \<Rightarrow> (int option \<times> 'd sfs_t) kresult" where
  "sfs_enter_ext G fid parent is_open_op folder mark T =
     (if fid < 0 then Inr (None, T)
      else
        rbind (acquire_open T) (\<lambda>T.
        rbind (find_entry fid (open_files T) 0 None) (\<lambda>f.
        case f of
          None \<Rightarrow> rbind (release_open T) (\<lambda>T. Inr (None, T))
        | Some k \<Rightarrow>
            rbind (rd (open_files T) k) (\<lambda>e.
            if fileid e = -1 \<and> \<not> is_open_op then rbind (release_open T) (\<lambda>T. Inr (None, T))
            else
              let e = (if fileid e = -1 then e\<lparr>fileid := fid, parentid := parent, is_folder := folder\<rparr> else e);
                  e = (if is_open_op then e\<lparr>times_opened := times_opened e + 1\<rparr> else e) in
              rbind (set_entry k e T) (\<lambda>T.
              rbind (if mark \<and> \<not> is_deleted e then delete_from_dirtree G (fileid e) (parentid e) T else Inr ((), T)) (\<lambda>(_, T).
              rbind (rd (open_files T) k) (\<lambda>e.
              rbind (if mark then set_entry k (e\<lparr>is_deleted := True\<rparr>) T else Inr T) (\<lambda>T.
              rbind (release_open T) (\<lambda>T. Inr (Some k, T))))))))))"

definition sfs_enter :: "'d gbd_t \<Rightarrow> int \<Rightarrow> 'd sfs_t \<Rightarrow> (int option \<times> 'd sfs_t) kresult" where
  "sfs_enter G fid = sfs_enter_ext G fid (-1) False False False"

definition sfs_exit :: "'d gbd_t \<Rightarrow> int \<Rightarrow> bool \<Rightarrow> 'd sfs_t \<Rightarrow> 'd sfs_t kresult" where
  "sfs_exit G k is_close_op T =
     rbind (acquire_open T) (\<lambda>T.
     rbind (rd (open_files T) k) (\<lambda>e.
     let e = (if is_close_op then e\<lparr>times_opened := times_opened e - 1\<rparr> else e) in
     rbind (set_entry k e T) (\<lambda>T.
     rbind (if times_opened e = 0 then
              rbind (if is_deleted e then delete_inode G (fileid e) (is_folder e) T else Inr ((), T)) (\<lambda>(_, T).
              rbind (rd (open_files T) k) (\<lambda>e. set_entry k (sfs_reset_entry e) T))
            else Inr T)
       release_open)))"

section \<open>Resolving a path\<close>

lemma next_elem_shorter: "next_elem p b i = Inr (Some q, b') \<Longrightarrow> length q < length p + (if i = 0 then 0 else 1)"
  by (induction p b i rule: next_elem.induct) (auto split: if_splits)

lemma next_path_elem_shorter: "sfs_next_path_elem p b = Inr (Some q, b') \<Longrightarrow> length q < length p"
  using next_elem_shorter [of p b 0 q b'] by (simp add: sfs_next_path_elem_def)

definition entry_is :: "cstring \<Rightarrow> tfs_direntry_t \<Rightarrow> bool kresult" where
  "entry_is filename e = (if inode e > 0 then rbind (stringcmp (name e) filename) (\<lambda>c. Inr (c = 0)) else Inr False)"

text \<open>
  The loop over the elements of the path. \<open>filename\<close> is the buffer for an element, \<open>parent\<close> and
  \<open>exists\<close> are \<open>*parent_inode\<close> and \<open>*parent_exists\<close>; \<open>want\<close> is false where \<open>parent_exists\<close> is \<open>NULL\<close>.
\<close>

function resolve_loop ::
  "'d gbd_t \<Rightarrow> bool \<Rightarrow> cstring \<Rightarrow> cstring \<Rightarrow> int \<Rightarrow> int \<Rightarrow> bool \<Rightarrow> 'd sfs_t \<Rightarrow> ((int \<times> int \<times> bool) \<times> 'd sfs_t) kresult" where
  "resolve_loop G want consumed_path filename blk parent exists T =
     rbind (sfs_next_path_elem consumed_path filename) (\<lambda>(path', filename).
       case path' of
         None \<Rightarrow> Inr ((blk, parent, exists), V_slock T)
       | Some consumed_path \<Rightarrow>
           sthen (VFS_ERROR, blk, exists) (read_smd G (word_of_int blk) T) (\<lambda>T.
           rbind (scanM (entry_is filename) (sbuf_md T) 0 SFS_MAX_FILES) (\<lambda>i.
           case i of
             Some i \<Rightarrow> rbind (rd (sbuf_md T) i) (\<lambda>e. resolve_loop G want consumed_path filename (sint (inode e)) blk exists T)
           | None \<Rightarrow>
               if want then rbind (sfs_next_path_elem consumed_path filename) (\<lambda>(r, _). Inr ((VFS_ERROR, blk, r = None), V_slock T))
               else Inr ((VFS_ERROR, blk, exists), V_slock T))))"
  by pat_completeness auto
termination
  by (relation "measure (\<lambda>(G, w, p, f, b, q, e, T). length p)") (auto dest: next_path_elem_shorter)

declare resolve_loop.simps [simp del]

text \<open>The results are the block, the parent and whether the parent exists; \<open>buf\<close> and \<open>ex\<close> hold what was on the stack.\<close>

definition sfs_resolve_file_ext ::
  "'d gbd_t \<Rightarrow> bool \<Rightarrow> cstring \<Rightarrow> cstring \<Rightarrow> int \<Rightarrow> bool \<Rightarrow> 'd sfs_t \<Rightarrow> ((int \<times> int \<times> bool) \<times> 'd sfs_t) kresult" where
  "sfs_resolve_file_ext G want pathname buf parent ex T =
     rbind (sfs_is_valid_path (Some pathname)) (\<lambda>ok.
     if \<not> ok then Inr ((VFS_ERROR, parent, ex), T)
     else rbind (P_slock T) (resolve_loop G want (tl pathname) buf SFS_DIRECTORY_BLOCK (-1) ex))"

definition sfs_resolve_file :: "'d gbd_t \<Rightarrow> cstring \<Rightarrow> cstring \<Rightarrow> int \<Rightarrow> 'd sfs_t \<Rightarrow> ((int \<times> int) \<times> 'd sfs_t) kresult" where
  "sfs_resolve_file G pathname buf parent T =
     rbind (sfs_resolve_file_ext G False pathname buf parent False T) (\<lambda>((r, parent, _), T). Inr ((r, parent), T))"

section \<open>Mounting and unmounting\<close>

text \<open>
  The loop that creates a condition variable and a lock for every entry of the table; both
  functions panic when their table is full.
\<close>

fun init_entries :: "nat \<Rightarrow> sfs_res \<Rightarrow> (sfs_openfile_t list \<times> sfs_res) kresult" where
  "init_entries 0 K = Inr ([], K)"
| "init_entries (Suc n) K =
     (if free_conds K = 0 then Inl Panic
      else if free_locks K = 0 then Inl Panic
      else
        rbind (init_entries n (K\<lparr>free_conds := free_conds K - 1, free_locks := free_locks K - 1\<rparr>)) (\<lambda>(es, K).
        Inr (\<lparr>io_lock = 1, times_opened = 0, readernum = 0, writer_tid = -1, fileid = -1, parentid = -1,
              is_folder = False, is_deleted = False\<rparr> # es, K)))"

text \<open>
  \<open>page\<close> is the page as it is after the header block has been read into it; the buffers lie behind
  \<open>fs_t\<close> (52 bytes) and \<open>sfs_t\<close> (36 bytes). The result is the address of the filesystem, the volume name and
  the driver's state, or \<open>None\<close>.
\<close>

definition sfs_init ::
  "'d gbd_t \<Rightarrow> (u32 \<Rightarrow> byte list) \<Rightarrow> sfs_res \<Rightarrow> 'd \<Rightarrow> ((u32 \<times> cstring \<times> 'd sfs_t) option \<times> sfs_res \<times> 'd) kresult" where
  "sfs_init G page K d =
     (case block_size G d of (bsize, d) \<Rightarrow>
      if bsize \<noteq> word_of_int SFS_VBLOCK_SIZE then Inr (None, K, d)
      else if free_sems K = 0 then Inr (None, K, d)
      else if free_locks K = 0 then Inl Panic
      else
        let K1 = K\<lparr>free_sems := free_sems K - 1, free_locks := free_locks K - 1\<rparr>;
            release = (\<lambda>addr p d. rbind (pagepool_free_phys_page addr p) (\<lambda>p. Inr (None, K\<lparr>pool := p\<rparr>, d))) in
        rbind (pagepool_get_phys_page (pool K1)) (\<lambda>(addr, p).
        if addr = 0 then Inr (None, K\<lparr>pool := p\<rparr>, d)
        else
          rbind (read_vblock G 0 (free_sems K1) d) (\<lambda>(r, bs, d).
          if r = 0 then release addr p d
          else if bytes_word (take 4 bs) \<noteq> SFS_MAGIC then release addr p d
          else
            rbind (stringcopy (replicate 16 0) (drop 4 bs) SFS_VOLUMENAME_MAX) (\<lambda>nm.
            case total_blocks G d of (nb, d) \<Rightarrow>
            case total_blocks G d of (nvb, d) \<Rightarrow>
            rbind (init_entries (nat SFS_MAX_OPEN_FILES) (K1\<lparr>pool := p\<rparr>)) (\<lambda>(es, K2).
            let mem = page addr;
                T = \<lparr>stotalblocks = word_of_int (min (uint nb) (8 * SFS_VBLOCK_SIZE)),
                     totalvblocks = word_of_int (min (uint nvb) (8 * SFS_VBLOCK_SIZE)), sdisk = d, slock = 1,
                     sbuf_inode = inode_of (slice 88 512 mem), sbuf_bat = slice 600 512 mem,
                     sbuf_md = dir_of (slice 1112 512 mem), smd_rest = slice 1612 12 mem,
                     open_files = es, openfile_lock = 1, kres = K2\<rparr> in
            rbind (stringcopy (slice 4 16 mem) nm VFS_NAME_LENGTH) (\<lambda>vname.
            Inr (Some (addr OR 0x80000000, vname, T), K2, d)))))))"

text \<open>Files that are still marked as deleted are deleted before the filesystem goes away.\<close>

function delete_marked :: "'d gbd_t \<Rightarrow> int \<Rightarrow> 'd sfs_t \<Rightarrow> 'd sfs_t kresult" where
  "delete_marked G i T =
     (if i < SFS_MAX_OPEN_FILES then
        rbind (rd (open_files T) i) (\<lambda>e.
        rbind (if fileid e > 0 \<and> is_deleted e then delete_inode G (fileid e) (is_folder e) T else Inr ((), T)) (\<lambda>(_, T).
        delete_marked G (i + 1) T))
      else Inr T)"
  by pat_completeness auto
termination
  by (relation "measure (\<lambda>(G, i, T). nat (SFS_MAX_OPEN_FILES - i))") auto

declare delete_marked.simps [simp del]

definition sfs_unmount :: "'d gbd_t \<Rightarrow> u32 \<Rightarrow> 'd sfs_t \<Rightarrow> (int \<times> sfs_res \<times> 'd) kresult" where
  "sfs_unmount G fs T =
     rbind (delete_marked G 0 T) (\<lambda>T.
     kassert (openfile_lock T = 1)
     (rbind (P_slock T) (\<lambda>T.
      rbind (pagepool_free_phys_page (fs AND 0x7fffffff) (pool (kres T))) (\<lambda>p.
      Inr (VFS_OK, (kres T)\<lparr>pool := p, free_sems := free_sems (kres T) + 1, free_locks := free_locks (kres T) + 1\<rparr>, sdisk T)))))"

section \<open>Opening and closing\<close>

definition sfs_open :: "'d gbd_t \<Rightarrow> cstring \<Rightarrow> cstring \<Rightarrow> 'd sfs_t \<Rightarrow> (int \<times> 'd sfs_t) kresult" where
  "sfs_open G filename buf T =
     rbind (sfs_resolve_file G filename buf 0 T) (\<lambda>((ino, parent), T).
     if ino = VFS_ERROR then Inr (VFS_NOT_FOUND, T)
     else
       rbind (sfs_is_folder (Some filename)) (\<lambda>folder.
       rbind (sfs_enter_ext G ino parent True folder False T) (\<lambda>(k, T).
       case k of
         None \<Rightarrow> Inr (VFS_ERROR, T)
       | Some k \<Rightarrow>
           rbind (rd (open_files T) k) (\<lambda>e.
           rbind (sfs_exit G k (is_deleted e) T) (\<lambda>T.
           Inr (if is_deleted e then VFS_NOT_FOUND else ino, T))))))"

definition sfs_close :: "'d gbd_t \<Rightarrow> int \<Rightarrow> 'd sfs_t \<Rightarrow> (int \<times> 'd sfs_t) kresult" where
  "sfs_close G fid T =
     rbind (sfs_enter G fid T) (\<lambda>(k, T).
     case k of
       None \<Rightarrow> Inr (VFS_ERROR, T)
     | Some k \<Rightarrow> rbind (sfs_exit G k True T) (\<lambda>T. Inr (VFS_OK, T)))"

definition sfs_remove :: "'d gbd_t \<Rightarrow> cstring \<Rightarrow> cstring \<Rightarrow> 'd sfs_t \<Rightarrow> (int \<times> 'd sfs_t) kresult" where
  "sfs_remove G filename buf T =
     rbind (sfs_resolve_file G filename buf 0 T) (\<lambda>((ino, parent), T).
     rbind (if ino = VFS_ERROR then Inr True else rbind (stringcmp filename [47, 0]) (\<lambda>c. Inr (c = 0))) (\<lambda>stop.
     if stop then Inr (VFS_NOT_FOUND, T)
     else
       rbind (sfs_is_folder (Some filename)) (\<lambda>folder.
       rbind (sfs_enter_ext G ino parent True folder True T) (\<lambda>(k, T).
       case k of
         None \<Rightarrow> Inr (VFS_ERROR, T)
       | Some k \<Rightarrow> rbind (sfs_exit G k True T) (\<lambda>T. Inr (VFS_OK, T))))))"

section \<open>Creating\<close>

text \<open>The loop that looks for a free entry of the folder keeps the last one.\<close>

function last_free :: "tfs_direntry_t list \<Rightarrow> int \<Rightarrow> int \<Rightarrow> int kresult" where
  "last_free md i index =
     (if i < SFS_MAX_FILES then
        rbind (rd md i) (\<lambda>e. last_free md (i + 1) (if inode e = 0 then i else index))
      else Inr index)"
  by pat_completeness auto
termination
  by (relation "measure (\<lambda>(md, i, x). nat (SFS_MAX_FILES - i))") auto

definition sbat_findnset :: "'d sfs_t \<Rightarrow> (int \<times> 'd sfs_t) kresult" where
  "sbat_findnset T =
     rbind (bitmap_findnset (block_words (sbuf_bat T)) (sint (totalvblocks T))) (\<lambda>(k, bm).
     Inr (k, T\<lparr>sbuf_bat := words_block bm\<rparr>))"

function sfs_alloc_blocks :: "int \<Rightarrow> int \<Rightarrow> 'd sfs_t \<Rightarrow> (bool \<times> 'd sfs_t) kresult" where
  "sfs_alloc_blocks i numvblocks T =
     (if i < numvblocks then
        rbind (sbat_findnset T) (\<lambda>(k, T).
        rbind (wr (block (sbuf_inode T)) i (word_of_int k)) (\<lambda>bl.
        let T = T\<lparr>sbuf_inode := (sbuf_inode T)\<lparr>block := bl\<rparr>\<rparr> in
        if k = -1 then Inr (False, T) else sfs_alloc_blocks (i + 1) numvblocks T))
      else Inr (True, T))"
  by pat_completeness auto
termination
  by (relation "measure (\<lambda>(i, n, T). nat (n - i))") auto

function sfs_clear_blocks :: "int \<Rightarrow> u32 list \<Rightarrow> u32 list kresult" where
  "sfs_clear_blocks i bl =
     (if i < SFS_BLOCKS_MAX then rbind (wr bl i 0) (sfs_clear_blocks (i + 1)) else Inr bl)"
  by pat_completeness auto
termination
  by (relation "measure (\<lambda>(i, bl). nat (SFS_BLOCKS_MAX - i))") auto

function sfs_zero_blocks :: "'d gbd_t \<Rightarrow> int \<Rightarrow> int \<Rightarrow> 'd sfs_t \<Rightarrow> (int \<times> 'd sfs_t) kresult" where
  "sfs_zero_blocks G i numvblocks T =
     (if i < numvblocks then
        rbind (rd (block (sbuf_inode T)) i) (\<lambda>b.
        sthen VFS_ERROR (write_sbat G b T) (sfs_zero_blocks G (i + 1) numvblocks))
      else Inr (VFS_OK, V_slock T))"
  by pat_completeness auto
termination
  by (relation "measure (\<lambda>(G, i, n, T). nat (n - i))") auto

declare last_free.simps [simp del] sfs_alloc_blocks.simps [simp del] sfs_clear_blocks.simps [simp del]
  sfs_zero_blocks.simps [simp del]

text \<open>From the writing of the allocation block on.\<close>

definition sfs_create_write :: "'d gbd_t \<Rightarrow> int \<Rightarrow> int \<Rightarrow> int \<Rightarrow> bool \<Rightarrow> 'd sfs_t \<Rightarrow> (int \<times> 'd sfs_t) kresult" where
  "sfs_create_write G parent index numvblocks folder T =
     sthen VFS_ERROR (write_sbat G SFS_ALLOCATION_BLOCK T) (\<lambda>T.
     sthen VFS_ERROR (write_smd G (word_of_int parent) T) (\<lambda>T.
     rbind (rd (sbuf_md T) index) (\<lambda>e.
     if \<not> folder then
       sthen VFS_ERROR (write_sinode G (inode e) T) (\<lambda>T.
       sfs_zero_blocks G 0 numvblocks (T\<lparr>sbuf_bat := replicate 512 0\<rparr>))
     else
       sthen VFS_ERROR (write_smd G (inode e) (T\<lparr>sbuf_md := replicate 25 \<lparr>inode = 0, name = replicate 16 0\<rparr>\<rparr>)) (\<lambda>T.
       Inr (VFS_OK, V_slock T)))))"

text \<open>The blocks of the new file, on the buffers.\<close>

definition sfs_create_alloc :: "'d gbd_t \<Rightarrow> int \<Rightarrow> int \<Rightarrow> int \<Rightarrow> int \<Rightarrow> bool \<Rightarrow> 'd sfs_t \<Rightarrow> (int \<times> 'd sfs_t) kresult" where
  "sfs_create_alloc G parent index numvblocks sz folder T =
     rbind (sbat_findnset T) (\<lambda>(k, T).
     rbind (rd (sbuf_md T) index) (\<lambda>e.
     rbind (wr (sbuf_md T) index (e\<lparr>inode := word_of_int k\<rparr>)) (\<lambda>md.
     let T = T\<lparr>sbuf_md := md\<rparr> in
     if k = -1 then Inr (VFS_ERROR, V_slock T)
     else if \<not> folder then
       rbind (sfs_alloc_blocks 0 numvblocks (T\<lparr>sbuf_inode := (sbuf_inode T)\<lparr>filesize := word_of_int sz\<rparr>\<rparr>)) (\<lambda>(ok, T).
       if \<not> ok then Inr (VFS_ERROR, V_slock T)
       else
         rbind (sfs_clear_blocks numvblocks (block (sbuf_inode T))) (\<lambda>bl.
         sfs_create_write G parent index numvblocks folder (T\<lparr>sbuf_inode := (sbuf_inode T)\<lparr>block := bl\<rparr>\<rparr>)))
     else sfs_create_write G parent index numvblocks folder T)))"

definition sfs_create :: "'d gbd_t \<Rightarrow> cstring \<Rightarrow> int \<Rightarrow> cstring \<Rightarrow> bool \<Rightarrow> 'd sfs_t \<Rightarrow> (int \<times> 'd sfs_t) kresult" where
  "sfs_create G filename sz buf ex T =
     rbind (sfs_is_valid_path (Some filename)) (\<lambda>ok.
     if \<not> ok then Inr (VFS_ERROR, T)
     else
       rbind (sfs_is_folder (Some filename)) (\<lambda>folder.
       if \<not> folder \<and> sz < 0 then Inr (VFS_ERROR, T)
       else
         let sz = (if folder then 0 else sz);
             numvblocks = uint (word_of_int (swrap (sz + SFS_VBLOCK_SIZE - 1) sdiv SFS_VBLOCK_SIZE) :: u32) in
         if numvblocks > SFS_BLOCKS_MAX then Inr (VFS_ERROR, T)
         else
           rbind (sfs_resolve_file_ext G True filename buf 0 ex T) (\<lambda>((file_inode, parent, exists), T).
           if file_inode \<noteq> VFS_ERROR \<or> parent < 0 \<or> \<not> exists then Inr (VFS_ERROR, T)
           else
             rbind (P_slock T) (\<lambda>T.
             sthen VFS_ERROR (read_smd G (word_of_int parent) T) (\<lambda>T.
             rbind (last_free (sbuf_md T) 0 (-1)) (\<lambda>index.
             if index = -1 then Inr (VFS_ERROR, V_slock T)
             else
               rbind (rd (sbuf_md T) index) (\<lambda>e.
               rbind (sfs_get_actual_filename filename) (\<lambda>nm.
               rbind (stringcopy (name e) nm SFS_FILENAME_MAX) (\<lambda>nm.
               rbind (wr (sbuf_md T) index (e\<lparr>name := nm\<rparr>)) (\<lambda>md.
               sthen VFS_ERROR (read_sbat G SFS_ALLOCATION_BLOCK (T\<lparr>sbuf_md := md\<rparr>))
                 (sfs_create_alloc G parent index numvblocks sz folder)))))))))))"

section \<open>Reading\<close>

text \<open>
  The sections under the lock of an entry: a reader that finds a writer waits (\<open>None\<close>); the last
  reader that leaves wakes the threads that wait (the flag of the result).
\<close>

definition start_read :: "sfs_openfile_t \<Rightarrow> sfs_openfile_t option" where
  "start_read e = (if writer_tid e \<noteq> -1 then None else Some (e\<lparr>readernum := readernum e + 1\<rparr>))"

definition finish_read :: "sfs_openfile_t \<Rightarrow> sfs_openfile_t \<times> bool" where
  "finish_read e = (let e = e\<lparr>readernum := readernum e - 1\<rparr> in (e, readernum e = 0))"

definition lock_entry :: "int \<Rightarrow> 'd sfs_t \<Rightarrow> 'd sfs_t kresult" where
  "lock_entry k T =
     rbind (rd (open_files T) k) (\<lambda>e. if io_lock e = 1 then set_entry k (e\<lparr>io_lock := 0\<rparr>) T else Inl Hang)"

definition unlock_entry :: "int \<Rightarrow> 'd sfs_t \<Rightarrow> 'd sfs_t kresult" where
  "unlock_entry k T =
     rbind (rd (open_files T) k) (\<lambda>e. if io_lock e = 0 then set_entry k (e\<lparr>io_lock := 1\<rparr>) T else Inl Assert)"

definition sfs_begin_read :: "int \<Rightarrow> 'd sfs_t \<Rightarrow> 'd sfs_t kresult" where
  "sfs_begin_read k T =
     rbind (lock_entry k T) (\<lambda>T.
     rbind (rd (open_files T) k) (\<lambda>e.
     case start_read e of None \<Rightarrow> Inl Hang | Some e \<Rightarrow> rbind (set_entry k e T) (unlock_entry k)))"

definition sfs_end_read :: "'d gbd_t \<Rightarrow> int \<Rightarrow> 'd sfs_t \<Rightarrow> 'd sfs_t kresult" where
  "sfs_end_read G k T =
     rbind (lock_entry k T) (\<lambda>T.
     rbind (rd (open_files T) k) (\<lambda>e.
     rbind (set_entry k (fst (finish_read e)) T) (\<lambda>T.
     rbind (unlock_entry k T) (sfs_exit G k False))))"

text \<open>
  The names in a folder, behind the number of files. \<open>buffer\<close> is the caller's buffer and is
  returned as it is afterwards; \<open>b1\<close> counts the files and \<open>rdn\<close> the bytes.
\<close>

function read_names :: "tfs_direntry_t list \<Rightarrow> int \<Rightarrow> int \<Rightarrow> int \<Rightarrow> byte list \<Rightarrow> (int \<times> int \<times> byte list) kresult" where
  "read_names md r b1 rdn buffer =
     (if r < SFS_MAX_FILES then
        rbind (rd md r) (\<lambda>e.
        if inode e > 0 then
          rbind (stringcopy (drop (nat (4 + rdn)) buffer) (name e) SFS_FILENAME_MAX) (\<lambda>s.
          rbind (strlen (name e)) (\<lambda>len.
          read_names md (r + 1) (b1 + 1) (rdn + len + 1) (take (nat (4 + rdn)) buffer @ s)))
        else read_names md (r + 1) b1 rdn buffer)
      else Inr (b1, rdn, buffer))"
  by pat_completeness auto
termination
  by (relation "measure (\<lambda>(md, r, b, n, buf). nat (SFS_MAX_FILES - r))") auto

function sfs_read_loop ::
  "'d gbd_t \<Rightarrow> u32 list \<Rightarrow> int \<Rightarrow> int \<Rightarrow> int \<Rightarrow> int \<Rightarrow> byte list \<Rightarrow> 'd sfs_t \<Rightarrow> (int \<times> byte list \<times> 'd sfs_t) kresult" where
  "sfs_read_loop G bl bufsize b1 b2 rdn buffer T =
     (if b1 \<le> b2 then
        rbind (rd bl b1) (\<lambda>b.
        rbind (sread G b T) (\<lambda>(r, bat, T).
        if r = 0 then Inr (VFS_ERROR, buffer, T)
        else
          let n = (if b1 = b2 then bufsize - rdn else SFS_VBLOCK_SIZE) in
          rbind (copy_in buffer rdn n bat) (\<lambda>buffer.
          sfs_read_loop G bl bufsize (b1 + 1) b2 (rdn + n) buffer T)))
      else Inr (rdn, buffer, T))"
  by pat_completeness auto
termination
  by (relation "measure (\<lambda>(G, bl, n, b1, b2, r, g, T). nat (b2 + 1 - b1))") auto

declare read_names.simps [simp del] sfs_read_loop.simps [simp del]

text \<open>What happens between the two sections: every way out is followed by \<open>sfs_end_read\<close>.\<close>

definition read_folder :: "'d gbd_t \<Rightarrow> int \<Rightarrow> byte list \<Rightarrow> int \<Rightarrow> int \<Rightarrow> 'd sfs_t \<Rightarrow> (int \<times> byte list \<times> 'd sfs_t) kresult" where
  "read_folder G fid buffer bufsize offset T =
     (if offset \<noteq> 0 \<or> bufsize < SFS_VBLOCK_SIZE then Inr (VFS_ERROR, buffer, T)
      else
        rbind (sread G (word_of_int fid) T) (\<lambda>(r, bat, T).
        if r = 0 then Inr (VFS_ERROR, buffer, T)
        else
          rbind (read_names (dir_of bat) 0 0 0 buffer) (\<lambda>(b1, rdn, buffer).
          rbind (copy_in buffer 0 4 (word_bytes (word_of_int b1))) (\<lambda>buffer. Inr (rdn + 4, buffer, T)))))"

definition read_file :: "'d gbd_t \<Rightarrow> int \<Rightarrow> byte list \<Rightarrow> int \<Rightarrow> int \<Rightarrow> 'd sfs_t \<Rightarrow> (int \<times> byte list \<times> 'd sfs_t) kresult" where
  "read_file G fid buffer bufsize offset T =
     rbind (sread G (word_of_int fid) T) (\<lambda>(r, bs, T).
     if r = 0 then Inr (VFS_ERROR, buffer, T)
     else
       let v = inode_of bs; len = sint (filesize v) in
       if offset < 0 \<or> offset > len then Inr (VFS_ERROR, buffer, T)
       else
         let bufsize = min bufsize (len - offset) in
         if bufsize = 0 then Inr (0, buffer, T)
         else
           let b1 = offset sdiv SFS_VBLOCK_SIZE;
               b2 = (offset + bufsize - 1) sdiv SFS_VBLOCK_SIZE in
           rbind (rd (block v) b1) (\<lambda>b.
           rbind (sread G b T) (\<lambda>(r, bat, T).
           if r = 0 then Inr (VFS_ERROR, buffer, T)
           else
             let rdn = min (SFS_VBLOCK_SIZE - offset smod SFS_VBLOCK_SIZE) bufsize in
             rbind (copy_in buffer 0 rdn (drop (nat (offset smod SFS_VBLOCK_SIZE)) bat)) (\<lambda>buffer.
             sfs_read_loop G (block v) bufsize (b1 + 1) b2 rdn buffer T))))"

definition sfs_read :: "'d gbd_t \<Rightarrow> int \<Rightarrow> byte list \<Rightarrow> int \<Rightarrow> int \<Rightarrow> 'd sfs_t \<Rightarrow> (int \<times> byte list \<times> 'd sfs_t) kresult" where
  "sfs_read G fid buffer bufsize offset T =
     (if fid < SFS_DIRECTORY_BLOCK \<or> fid > sint (totalvblocks T) then Inr (VFS_ERROR, buffer, T)
      else
        rbind (sfs_enter G fid T) (\<lambda>(k, T).
        case k of
          None \<Rightarrow> Inr (VFS_ERROR, buffer, T)
        | Some k \<Rightarrow>
            rbind (sfs_begin_read k T) (\<lambda>T.
            rbind (rd (open_files T) k) (\<lambda>e.
            rbind (if is_folder e then read_folder G fid buffer bufsize offset T
                   else read_file G fid buffer bufsize offset T) (\<lambda>(r, buffer, T).
            rbind (sfs_end_read G k T) (\<lambda>T. Inr (r, buffer, T)))))))"

section \<open>Writing\<close>

text \<open>
  A writer waits for the writer before it, claims the file, and then waits until the readers have
  left; leaving, it wakes all threads that wait.
\<close>

definition claim_write :: "int \<Rightarrow> sfs_openfile_t \<Rightarrow> sfs_openfile_t option" where
  "claim_write tid e = (if writer_tid e \<noteq> -1 then None else Some (e\<lparr>writer_tid := tid\<rparr>))"

definition write_blocked :: "sfs_openfile_t \<Rightarrow> bool" where
  "write_blocked e \<longleftrightarrow> readernum e > 0"

definition finish_write :: "sfs_openfile_t \<Rightarrow> sfs_openfile_t" where
  "finish_write e = e\<lparr>writer_tid := -1\<rparr>"

definition sfs_begin_write :: "int \<Rightarrow> int \<Rightarrow> 'd sfs_t \<Rightarrow> 'd sfs_t kresult" where
  "sfs_begin_write tid k T =
     rbind (lock_entry k T) (\<lambda>T.
     rbind (rd (open_files T) k) (\<lambda>e.
     case claim_write tid e of
       None \<Rightarrow> Inl Hang
     | Some e \<Rightarrow> if write_blocked e then Inl Hang else rbind (set_entry k e T) (unlock_entry k)))"

definition sfs_end_write :: "'d gbd_t \<Rightarrow> int \<Rightarrow> 'd sfs_t \<Rightarrow> 'd sfs_t kresult" where
  "sfs_end_write G k T =
     rbind (lock_entry k T) (\<lambda>T.
     rbind (rd (open_files T) k) (\<lambda>e.
     rbind (set_entry k (finish_write e) T) (\<lambda>T.
     rbind (unlock_entry k T) (sfs_exit G k False))))"

text \<open>\<open>bat\<close> is the local buffer for a block and \<open>buffer\<close> what is left of the caller's data.\<close>

function sfs_write_loop ::
  "'d gbd_t \<Rightarrow> u32 list \<Rightarrow> int \<Rightarrow> int \<Rightarrow> int \<Rightarrow> int \<Rightarrow> byte list \<Rightarrow> byte list \<Rightarrow> 'd sfs_t \<Rightarrow> (int \<times> 'd sfs_t) kresult" where
  "sfs_write_loop G bl datasize b1 b2 written buffer bat T =
     (if b1 \<le> b2 then
        rbind (rd bl b1) (\<lambda>b.
        rbind (if b1 = b2 \<and> datasize - written < SFS_VBLOCK_SIZE then sread G b T else Inr (1, bat, T)) (\<lambda>(r, bat, T).
        if r = 0 then Inr (VFS_ERROR, T)
        else
          let n = (if b1 = b2 then datasize - written else SFS_VBLOCK_SIZE) in
          rbind (copy_in bat 0 n buffer) (\<lambda>bat.
          rbind (swrite G b bat T) (\<lambda>(r, T).
          if r = 0 then Inr (VFS_ERROR, T)
          else sfs_write_loop G bl datasize (b1 + 1) b2 (written + n) (if b1 = b2 then buffer else drop (nat n) buffer) bat T))))
      else Inr (written, T))"
  by pat_completeness auto
termination
  by (relation "measure (\<lambda>(G, bl, n, b1, b2, r, g, bat, T). nat (b2 + 1 - b1))") auto

declare sfs_write_loop.simps [simp del]

definition write_file ::
  "'d gbd_t \<Rightarrow> int \<Rightarrow> byte list \<Rightarrow> int \<Rightarrow> int \<Rightarrow> byte list \<Rightarrow> 'd sfs_t \<Rightarrow> (int \<times> 'd sfs_t) kresult" where
  "write_file G fid buffer datasize offset bat T =
     rbind (sread G (word_of_int fid) T) (\<lambda>(r, bs, T).
     if r = 0 then Inr (VFS_ERROR, T)
     else
       let v = inode_of bs; len = sint (filesize v) in
       if offset < 0 \<or> offset > len then Inr (VFS_ERROR, T)
       else
         let datasize = min datasize (len - offset) in
         if datasize = 0 then Inr (0, T)
         else
           let b1 = offset sdiv SFS_VBLOCK_SIZE;
               b2 = (offset + datasize - 1) sdiv SFS_VBLOCK_SIZE;
               written = min (SFS_VBLOCK_SIZE - offset smod SFS_VBLOCK_SIZE) datasize in
           rbind (rd (block v) b1) (\<lambda>b.
           rbind (if written < SFS_VBLOCK_SIZE then sread G b T else Inr (1, bat, T)) (\<lambda>(r, bat, T).
           if r = 0 then Inr (VFS_ERROR, T)
           else
             rbind (copy_in bat (offset smod SFS_VBLOCK_SIZE) written buffer) (\<lambda>bat.
             rbind (swrite G b bat T) (\<lambda>(r, T).
             if r = 0 then Inr (VFS_ERROR, T)
             else sfs_write_loop G (block v) datasize (b1 + 1) b2 written (drop (nat written) buffer) bat T)))))"

text \<open>\<open>tid\<close> is the calling thread. A folder is refused after the entry has been looked up.\<close>

definition sfs_write ::
  "'d gbd_t \<Rightarrow> int \<Rightarrow> int \<Rightarrow> byte list \<Rightarrow> int \<Rightarrow> int \<Rightarrow> byte list \<Rightarrow> 'd sfs_t \<Rightarrow> (int \<times> 'd sfs_t) kresult" where
  "sfs_write G tid fid buffer datasize offset bat T =
     (if fid < SFS_DIRECTORY_BLOCK \<or> fid > sint (totalvblocks T) then Inr (VFS_ERROR, T)
      else
        rbind (sfs_enter G fid T) (\<lambda>(k, T).
        case k of
          None \<Rightarrow> Inr (VFS_ERROR, T)
        | Some k \<Rightarrow>
            rbind (rd (open_files T) k) (\<lambda>e.
            if is_folder e then Inr (VFS_ERROR, T)
            else
              rbind (sfs_begin_write tid k T) (\<lambda>T.
              rbind (write_file G fid buffer datasize offset bat T) (\<lambda>(r, T).
              rbind (sfs_end_write G k T) (\<lambda>T. Inr (r, T)))))))"

section \<open>Free space\<close>

definition sfs_getfree :: "'d gbd_t \<Rightarrow> 'd sfs_t \<Rightarrow> (int \<times> 'd sfs_t) kresult" where
  "sfs_getfree G T =
     rbind (P_slock T) (\<lambda>T.
     sthen VFS_ERROR (read_sbat G SFS_ALLOCATION_BLOCK T) (\<lambda>T.
     rbind (count_allocated (block_words (sbuf_bat T)) 0 (uint (totalvblocks T)) 0) (\<lambda>allocated.
     if totalvblocks T = 0 then Inl Fault
     else
       Inr (sint ((totalvblocks T - word_of_int allocated) * word_of_int SFS_VBLOCK_SIZE +
         (stotalblocks T mod totalvblocks T) * word_of_int SFS_VBLOCK_SIZE), V_slock T))))"

end
