(* ===== verification/Sfs_sync.thy ===== *)
theory Sfs_sync
  imports Sfs
begin

text \<open>
  Readers and writers of one open file of the student filesystem at the same time. The sections that
  \<open>sfs_read\<close> and \<open>sfs_write\<close> run under the lock of the entry are single steps, made of the functions of
  theory Sfs; \<open>condition_wait\<close> puts a thread to sleep and \<open>condition_broadcast\<close> wakes all of them, after
  which each goes through its test again.
\<close>

section \<open>The system\<close>

datatype rw_phase = Outside | Wants_read | Reading | Wants_write | Claimed | Writing

record rw_state =
  entry :: sfs_openfile_t
  phase :: "int \<Rightarrow> rw_phase"
  asleep :: "int set"

definition at_phase :: "rw_phase \<Rightarrow> rw_state \<Rightarrow> int set" where
  "at_phase p s = {t. phase s t = p}"

definition go :: "int \<Rightarrow> rw_phase \<Rightarrow> rw_state \<Rightarrow> rw_state" where
  "go t p s = s\<lparr>phase := (phase s)(t := p)\<rparr>"

text \<open>One turn of the waiting loops of a thread that is awake.\<close>

definition read_turn :: "int \<Rightarrow> rw_state \<Rightarrow> rw_state" where
  "read_turn t s =
     (case start_read (entry s) of
        None \<Rightarrow> s\<lparr>asleep := insert t (asleep s)\<rparr>
      | Some e \<Rightarrow> go t Reading (s\<lparr>entry := e\<rparr>))"

definition drain_turn :: "int \<Rightarrow> rw_state \<Rightarrow> rw_state" where
  "drain_turn t s =
     (if write_blocked (entry s) then go t Claimed (s\<lparr>asleep := insert t (asleep s)\<rparr>) else go t Writing s)"

definition claim_turn :: "int \<Rightarrow> rw_state \<Rightarrow> rw_state" where
  "claim_turn t s =
     (case claim_write t (entry s) of
        None \<Rightarrow> s\<lparr>asleep := insert t (asleep s)\<rparr>
      | Some e \<Rightarrow> drain_turn t (s\<lparr>entry := e\<rparr>))"

definition read_done :: "int \<Rightarrow> rw_state \<Rightarrow> rw_state" where
  "read_done t s =
     (case finish_read (entry s) of (e, wake) \<Rightarrow>
        go t Outside (s\<lparr>entry := e, asleep := (if wake then {} else asleep s)\<rparr>))"

definition write_done :: "int \<Rightarrow> rw_state \<Rightarrow> rw_state" where
  "write_done t s = go t Outside (s\<lparr>entry := finish_write (entry s), asleep := {}\<rparr>)"

inductive rw_step :: "rw_state \<Rightarrow> rw_state \<Rightarrow> bool" where
  call_read: "0 \<le> t \<Longrightarrow> phase s t = Outside \<Longrightarrow> rw_step s (go t Wants_read s)"
| call_write: "0 \<le> t \<Longrightarrow> phase s t = Outside \<Longrightarrow> rw_step s (go t Wants_write s)"
| read_turn: "phase s t = Wants_read \<Longrightarrow> t \<notin> asleep s \<Longrightarrow> rw_step s (read_turn t s)"
| claim_turn: "phase s t = Wants_write \<Longrightarrow> t \<notin> asleep s \<Longrightarrow> rw_step s (claim_turn t s)"
| drain_turn: "phase s t = Claimed \<Longrightarrow> t \<notin> asleep s \<Longrightarrow> rw_step s (drain_turn t s)"
| read_done: "phase s t = Reading \<Longrightarrow> rw_step s (read_done t s)"
| write_done: "phase s t = Writing \<Longrightarrow> rw_step s (write_done t s)"

inductive_cases rw_stepE: "rw_step s s'"

text \<open>An entry that has just been opened, with no thread inside.\<close>

definition rw_start :: "rw_state \<Rightarrow> bool" where
  "rw_start s \<longleftrightarrow> readernum (entry s) = 0 \<and> writer_tid (entry s) = -1 \<and> (\<forall>t. phase s t = Outside) \<and> asleep s = {}"

inductive rw_reach :: "rw_state \<Rightarrow> bool" where
  start: "rw_start s \<Longrightarrow> rw_reach s"
| step: "rw_reach s \<Longrightarrow> rw_step s s' \<Longrightarrow> rw_reach s'"

section \<open>The invariant\<close>

text \<open>
  The counters are what they count, at most one thread has claimed the file, a thread that writes
  is alone, and whoever sleeps has a reason to: the test it would go through again fails.
\<close>

definition rw_inv :: "rw_state \<Rightarrow> bool" where
  "rw_inv s \<longleftrightarrow>
     finite (at_phase Reading s) \<and> readernum (entry s) = int (card (at_phase Reading s)) \<and>
     at_phase Claimed s \<union> at_phase Writing s = (if writer_tid (entry s) = -1 then {} else {writer_tid (entry s)}) \<and>
     (at_phase Writing s \<noteq> {} \<longrightarrow> at_phase Reading s = {}) \<and>
     (\<forall>t. phase s t \<noteq> Outside \<longrightarrow> 0 \<le> t) \<and>
     (\<forall>t \<in> asleep s. phase s t = Claimed \<and> write_blocked (entry s) \<or>
        phase s t \<in> {Wants_read, Wants_write} \<and> writer_tid (entry s) \<noteq> -1)"

lemma at_phase_go: "at_phase p (go t q s) = (if p = q then insert t (at_phase p s) else at_phase p s - {t})"
  by (auto simp: at_phase_def go_def)

lemma go_sel [simp]: "entry (go t p s) = entry s" "asleep (go t p s) = asleep s" "phase (go t p s) = (phase s)(t := p)"
  by (simp_all add: go_def)

lemma at_phase_upd [simp]: "at_phase p (s\<lparr>entry := e\<rparr>) = at_phase p s" "at_phase p (s\<lparr>asleep := A\<rparr>) = at_phase p s"
  by (simp_all add: at_phase_def)

lemma at_phase_iff: "t \<in> at_phase p s \<longleftrightarrow> phase s t = p"
  by (simp add: at_phase_def)

lemma rw_inv_start: "rw_start s \<Longrightarrow> rw_inv s"
  by (auto simp: rw_start_def rw_inv_def at_phase_def)

lemma rw_inv_sleeper:
  assumes "rw_inv s" "t \<in> asleep s"
  shows "phase s t = Claimed \<and> write_blocked (entry s) \<or>
    (phase s t = Wants_read \<or> phase s t = Wants_write) \<and> writer_tid (entry s) \<noteq> -1"
  using assms unfolding rw_inv_def by blast

lemma rw_inv_free:
  assumes "rw_inv s" "writer_tid (entry s) = -1"
  shows "at_phase Claimed s = {}" "at_phase Writing s = {}" "asleep s = {}"
proof -
  show e: "at_phase Claimed s = {}" "at_phase Writing s = {}" using assms by (auto simp: rw_inv_def)
  have "phase s t = Claimed" if "t \<in> asleep s" for t using rw_inv_sleeper [OF assms(1) that] assms(2) by blast
  with e show "asleep s = {}" by (auto simp: at_phase_def)
qed

lemma rw_inv_claim:
  assumes "rw_inv s" "phase s t = Claimed \<or> phase s t = Writing"
  shows "writer_tid (entry s) = t" "at_phase Claimed s \<union> at_phase Writing s = {t}" "0 \<le> t"
    "phase s t = Claimed \<Longrightarrow> at_phase Writing s = {}" "phase s t = Writing \<Longrightarrow> at_phase Claimed s = {}"
proof -
  let ?C = "at_phase Claimed s \<union> at_phase Writing s"
  have "t \<in> ?C" using assms(2) by (auto simp: at_phase_iff)
  moreover have "?C = (if writer_tid (entry s) = -1 then {} else {writer_tid (entry s)})" using assms(1) by (simp add: rw_inv_def)
  ultimately show "writer_tid (entry s) = t" and C: "?C = {t}" by (auto split: if_splits)
  have "x = t" if "phase s x = Claimed \<or> phase s x = Writing" for x using C that by (auto simp: at_phase_def)
  then show "phase s t = Claimed \<Longrightarrow> at_phase Writing s = {}" "phase s t = Writing \<Longrightarrow> at_phase Claimed s = {}"
    unfolding at_phase_def by fastforce+
  show "0 \<le> t" using assms by (auto simp: rw_inv_def)
qed

lemma inv_call:
  assumes "rw_inv s" "0 \<le> t" "phase s t = Outside" "p = Wants_read \<or> p = Wants_write"
  shows "rw_inv (go t p s)"
proof -
  have "t \<notin> at_phase q s" if "q \<noteq> Outside" for q using assms(3) that by (simp add: at_phase_iff)
  then have "at_phase q (go t p s) = at_phase q s" if "q \<in> {Reading, Claimed, Writing}" for q
    using assms(4) that by (auto simp: at_phase_go)
  with assms show ?thesis by (auto simp: rw_inv_def)
qed

lemma inv_read_turn:
  assumes inv: "rw_inv s" and t: "phase s t = Wants_read"
  shows "rw_inv (read_turn t s)"
proof (cases "writer_tid (entry s) = -1")
  case True
  note w = rw_inv_free [OF inv True]
  have out: "t \<notin> at_phase Reading s" using t by (simp add: at_phase_iff)
  show ?thesis
    using inv True out w t by (auto simp: rw_inv_def read_turn_def start_read_def at_phase_go)
next
  case False
  with inv t show ?thesis by (auto simp: rw_inv_def read_turn_def start_read_def)
qed

lemma inv_drain_turn:
  assumes inv: "rw_inv s" and t: "phase s t = Claimed"
  shows "rw_inv (drain_turn t s)"
proof -
  note w = rw_inv_claim [OF inv disjI1 [OF t]]
  note wr = w(4) [OF t]
  show ?thesis
  proof (cases "write_blocked (entry s)")
    case True
    have "go t Claimed s = s" using t by (simp add: go_def fun_upd_idem)
    then have "drain_turn t s = s\<lparr>asleep := insert t (asleep s)\<rparr>" using True t by (simp add: drain_turn_def go_def fun_upd_idem)
    with inv t True show ?thesis by (auto simp: rw_inv_def)
  next
    case False
    then have "at_phase Reading s = {}" using inv by (auto simp: rw_inv_def write_blocked_def)
    moreover have "writer_tid (entry s) \<noteq> -1" using w(1,3) by simp
    moreover have "drain_turn t s = go t Writing s" using False by (simp add: drain_turn_def)
    ultimately show ?thesis using inv t w(1,2) wr False by (auto simp: rw_inv_def at_phase_go)
  qed
qed

lemma inv_claim_turn:
  assumes inv: "rw_inv s" and t: "phase s t = Wants_write"
  shows "rw_inv (claim_turn t s)"
proof (cases "writer_tid (entry s) = -1")
  case True
  let ?e = "(entry s)\<lparr>writer_tid := t\<rparr>"
  let ?s = "go t Claimed (s\<lparr>entry := ?e\<rparr>)"
  have t0: "0 \<le> t" using inv t by (simp add: rw_inv_def)
  note w = rw_inv_free [OF inv True]
  have "t \<notin> at_phase Reading s" using t by (simp add: at_phase_iff)
  with inv t0 w have "rw_inv ?s" by (auto simp: rw_inv_def at_phase_go)
  from inv_drain_turn [OF this, of t] have "rw_inv (drain_turn t ?s)" by simp
  moreover have "drain_turn t ?s = drain_turn t (s\<lparr>entry := ?e\<rparr>)" by (simp add: drain_turn_def go_def)
  ultimately show ?thesis using True by (simp add: claim_turn_def claim_write_def)
next
  case False
  with inv t show ?thesis by (auto simp: rw_inv_def claim_turn_def claim_write_def)
qed

lemma inv_read_done:
  assumes inv: "rw_inv s" and t: "phase s t = Reading"
  shows "rw_inv (read_done t s)"
proof -
  let ?R = "at_phase Reading s"
  have R: "finite ?R" "t \<in> ?R" "readernum (entry s) = int (card ?R)" using inv t by (auto simp: rw_inv_def at_phase_iff)
  have n: "readernum (entry s) - 1 = int (card (?R - {t}))" using R by (simp add: card_Diff_singleton of_nat_diff Suc_le_eq card_gt_0_iff) (metis One_nat_def Suc_leI card_gt_0_iff empty_iff of_nat_1 of_nat_diff)
  have W: "at_phase Writing s = {}" using inv R(2) by (auto simp: rw_inv_def)
  have out: "t \<notin> at_phase Claimed s" "t \<notin> asleep s" using inv t by (auto simp: rw_inv_def at_phase_iff)
  show ?thesis
    using inv R(1) n W out t
    by (auto simp: rw_inv_def read_done_def finish_read_def at_phase_go write_blocked_def card_gt_0_iff)
qed

lemma inv_write_done:
  assumes inv: "rw_inv s" and t: "phase s t = Writing"
  shows "rw_inv (write_done t s)"
proof -
  note w = rw_inv_claim(2,5) [OF inv disjI2 [OF t]]
  with inv t show ?thesis
    by (auto simp: rw_inv_def write_done_def finish_write_def at_phase_go)
qed

lemma rw_inv_step: "rw_step s s' \<Longrightarrow> rw_inv s \<Longrightarrow> rw_inv s'"
  by (induction rule: rw_step.induct)
    (simp_all add: inv_call inv_read_turn inv_claim_turn inv_drain_turn inv_read_done inv_write_done)

lemma rw_reach_inv: "rw_reach s \<Longrightarrow> rw_inv s"
  by (induction rule: rw_reach.induct) (auto intro: rw_inv_start rw_inv_step)

section \<open>Properties\<close>

text \<open>An example: thread 1 writes, and thread 2 has found it and sleeps.\<close>

definition rw_fresh :: rw_state where
  "rw_fresh = \<lparr>entry = \<lparr>io_lock = 1, times_opened = 2, readernum = 0, writer_tid = -1, fileid = 5, parentid = 2,
     is_folder = False, is_deleted = False\<rparr>, phase = (\<lambda>_. Outside), asleep = {}\<rparr>"

definition rw_example :: rw_state where
  "rw_example = read_turn 2 (go 2 Wants_read (claim_turn 1 (go 1 Wants_write rw_fresh)))"

lemma rw_example_eq:
  "rw_example = rw_fresh\<lparr>entry := (entry rw_fresh)\<lparr>writer_tid := 1\<rparr>, phase := (\<lambda>_. Outside)(1 := Writing, 2 := Wants_read), asleep := {2}\<rparr>"
  by (simp add: rw_example_def rw_fresh_def read_turn_def claim_turn_def claim_write_def drain_turn_def write_blocked_def go_def
      start_read_def)

lemma rw_example_reach: "rw_reach rw_example"
proof -
  have "rw_reach rw_fresh" by (rule rw_reach.start) (simp add: rw_start_def rw_fresh_def)
  then have "rw_reach (go 1 Wants_write rw_fresh)"
    by (rule rw_reach.step [OF _ rw_step.call_write]) (simp_all add: rw_fresh_def)
  then have "rw_reach (claim_turn 1 (go 1 Wants_write rw_fresh))"
    by (rule rw_reach.step [OF _ rw_step.claim_turn]) (simp_all add: rw_fresh_def)
  then have "rw_reach (go 2 Wants_read (claim_turn 1 (go 1 Wants_write rw_fresh)))"
    by (rule rw_reach.step [OF _ rw_step.call_read])
      (simp_all add: rw_fresh_def claim_turn_def claim_write_def drain_turn_def write_blocked_def go_def)
  then show ?thesis
    unfolding rw_example_def
    by (rule rw_reach.step [OF _ rw_step.read_turn])
      (simp_all add: rw_fresh_def claim_turn_def claim_write_def drain_turn_def write_blocked_def go_def)
qed

text \<open>
  Property C34. Readers and writers exclude each other: while a thread writes to an open file no
  other thread reads or writes it, and the counter of readers is the number of threads that read.
  A writer that has claimed the file keeps new readers out.
\<close>

theorem sfs_readers_writers:
  assumes "rw_reach s"
  shows "(phase s t = Writing \<and> u \<noteq> t \<longrightarrow> phase s u \<noteq> Reading \<and> phase s u \<noteq> Writing) \<and>
    readernum (entry s) = int (card {u. phase s u = Reading}) \<and>
    (phase s t = Claimed \<and> rw_step s s' \<longrightarrow> {u. phase s' u = Reading} \<subseteq> {u. phase s u = Reading})"
proof (intro conjI impI)
  note inv = rw_reach_inv [OF assms]
  assume t: "phase s t = Writing \<and> u \<noteq> t"
  then have "at_phase Reading s = {}" using inv by (auto simp: rw_inv_def at_phase_def)
  then show "phase s u \<noteq> Reading" by (simp add: at_phase_def)
  have "u \<notin> at_phase Claimed s \<union> at_phase Writing s" using rw_inv_claim(2) [OF inv, of t] t by auto
  then show "phase s u \<noteq> Writing" by (simp add: at_phase_iff)
next
  show "readernum (entry s) = int (card {u. phase s u = Reading})"
    using rw_reach_inv [OF assms] by (simp add: rw_inv_def at_phase_def)
next
  note inv = rw_reach_inv [OF assms]
  assume t: "phase s t = Claimed \<and> rw_step s s'"
  then have "writer_tid (entry s) = t" "t \<noteq> -1" using rw_inv_claim(1,3) [OF inv, of t] by auto
  with conjunct2 [OF t] show "{u. phase s' u = Reading} \<subseteq> {u. phase s u = Reading}"
    by (cases rule: rw_step.cases)
      (auto simp: read_turn_def start_read_def claim_turn_def claim_write_def drain_turn_def read_done_def finish_read_def write_done_def
        split: if_splits)
qed

theorem sfs_readers_writers_witness:
  "phase rw_example 1 = Writing \<and> phase rw_example 2 \<noteq> Reading \<and> phase rw_example 2 \<noteq> Writing"
proof -
  have "phase rw_example 1 = Writing" by (simp add: rw_example_eq)
  with sfs_readers_writers [OF rw_example_reach, of 1 2] show ?thesis by simp
qed

text \<open>
  Property C35. No wake-up is lost and nobody is stuck: whoever sleeps would fail its test (a reader
  and a writer that wants the file because a writer has it, a writer that has claimed it because of
  readers), and as long as some thread is inside a call some thread inside a call is awake and can
  take its next step.
\<close>

theorem sfs_no_lost_wakeup:
  assumes "rw_reach s"
  shows "(\<forall>t \<in> asleep s. case phase s t of
        Wants_read \<Rightarrow> start_read (entry s) = None
      | Wants_write \<Rightarrow> claim_write t (entry s) = None
      | Claimed \<Rightarrow> write_blocked (entry s)
      | _ \<Rightarrow> False) \<and>
    (phase s t \<noteq> Outside \<longrightarrow> (\<exists>u s'. phase s u \<noteq> Outside \<and> u \<notin> asleep s \<and> rw_step s s' \<and> s' \<noteq> s))"
proof (intro conjI ballI impI)
  note inv = rw_reach_inv [OF assms]
  fix t assume "t \<in> asleep s"
  from rw_inv_sleeper [OF inv this] show "case phase s t of
        Wants_read \<Rightarrow> start_read (entry s) = None
      | Wants_write \<Rightarrow> claim_write t (entry s) = None
      | Claimed \<Rightarrow> write_blocked (entry s)
      | _ \<Rightarrow> False" by (auto simp: start_read_def claim_write_def)
next
  note inv = rw_reach_inv [OF assms]
  assume t: "phase s t \<noteq> Outside"
  have "\<exists>u. phase s u \<noteq> Outside \<and> u \<notin> asleep s"
  proof (rule ccontr)
    assume n: "\<not> ?thesis"
    then have all: "phase s u \<noteq> Outside \<Longrightarrow> u \<in> asleep s" for u by blast
    have no_reader: "phase s u \<noteq> Reading" for u
    proof
      assume r: "phase s u = Reading"
      then have "u \<in> asleep s" using all [of u] by simp
      from rw_inv_sleeper [OF inv this] r show False by simp
    qed
    then have free: "\<not> write_blocked (entry s)" using inv by (simp add: rw_inv_def write_blocked_def at_phase_def)
    have "t \<in> asleep s" by (rule all [OF t])
    from rw_inv_sleeper [OF inv this] free have w: "writer_tid (entry s) \<noteq> -1" by blast
    let ?w = "writer_tid (entry s)"
    have "?w \<in> at_phase Claimed s \<union> at_phase Writing s" using inv w by (simp add: rw_inv_def)
    then have pw: "phase s ?w = Claimed \<or> phase s ?w = Writing" by (auto simp: at_phase_iff)
    then have "?w \<in> asleep s" using all [of ?w] by auto
    from rw_inv_sleeper [OF inv this] free pw show False by auto
  qed
  then obtain u where u: "phase s u \<noteq> Outside" "u \<notin> asleep s" by blast
  have "\<exists>s'. rw_step s s' \<and> (asleep s' \<noteq> asleep s \<or> phase s' u \<noteq> phase s u)"
  proof (cases "phase s u")
    case Wants_read
    with u(2) rw_step.read_turn [OF Wants_read u(2)] show ?thesis
      by (intro exI [of _ "read_turn u s"]) (auto simp: read_turn_def split: option.split)
  next
    case Wants_write
    with u(2) rw_step.claim_turn [OF Wants_write u(2)] show ?thesis
      by (intro exI [of _ "claim_turn u s"]) (auto simp: claim_turn_def drain_turn_def split: option.split)
  next
    case Claimed
    with u(2) rw_step.drain_turn [OF Claimed u(2)] show ?thesis
      by (intro exI [of _ "drain_turn u s"]) (auto simp: drain_turn_def)
  next
    case Reading
    with rw_step.read_done [OF Reading] show ?thesis
      by (intro exI [of _ "read_done u s"]) (auto simp: read_done_def finish_read_def)
  next
    case Writing
    with rw_step.write_done [OF Writing] show ?thesis
      by (intro exI [of _ "write_done u s"]) (auto simp: write_done_def)
  qed (use u in simp)
  with u show "\<exists>u s'. phase s u \<noteq> Outside \<and> u \<notin> asleep s \<and> rw_step s s' \<and> s' \<noteq> s" by blast
qed

theorem sfs_no_lost_wakeup_witness:
  "start_read (entry rw_example) = None \<and> (\<exists>u s'. phase rw_example u \<noteq> Outside \<and> u \<notin> asleep rw_example \<and> rw_step rw_example s')"
proof -
  have "2 \<in> asleep rw_example" "phase rw_example 2 = Wants_read" by (simp_all add: rw_example_eq)
  with sfs_no_lost_wakeup [OF rw_example_reach, of 2] show ?thesis by fastforce
qed

end
