(* ===== verification/Sfs_tree.thy ===== *)
theory Sfs_tree
  imports Sfs Tfs_system "HOL-Library.Sublist"
begin

text \<open>
  Volumes of the student filesystem: the tree of folders, the blocks that belong to a file or a
  folder, the invariant of a volume, and how the tree changes with a folder.
\<close>

section \<open>Folders and paths\<close>

definition elem_shape :: "byte list \<Rightarrow> bool" where
  "elem_shape x \<longleftrightarrow> elem_ok x \<and> x \<noteq> [] \<and> 47 \<notin> set (butlast x)"

definition dir_used :: "byte list \<Rightarrow> tfs_direntry_t list" where
  "dir_used bs = filter (\<lambda>e. inode e \<noteq> 0) (dir_of bs)"

definition dir_lookup :: "byte list \<Rightarrow> byte list \<rightharpoonup> u32" where
  "dir_lookup bs = map_of (map (\<lambda>e. (cstr (name e), inode e)) (dir_used bs))"

definition dir_ok :: "byte list \<Rightarrow> bool" where
  "dir_ok bs \<longleftrightarrow> length bs = 512 \<and> (\<forall>e \<in> set (dir_used bs). terminated (name e) \<and> elem_shape (cstr (name e))) \<and>
     distinct (map (\<lambda>e. cstr (name e)) (dir_used bs))"

fun walk :: "volume \<Rightarrow> u32 \<Rightarrow> byte list list \<Rightarrow> u32 option" where
  "walk f i [] = Some i"
| "walk f i (x # p) = (case dir_lookup (f i) x of None \<Rightarrow> None | Some j \<Rightarrow> walk f j p)"

definition is_dir :: "byte list list \<Rightarrow> bool" where
  "is_dir p \<longleftrightarrow> p = [] \<or> folder_name (last p)"

lemma walk_snoc: "walk f i (p @ [x]) = (case walk f i p of None \<Rightarrow> None | Some j \<Rightarrow> dir_lookup (f j) x)"
  by (induction p arbitrary: i) (auto split: option.split)

lemma elem_list_ok_Nil [simp]: "elem_list_ok []"
  by (simp add: elem_list_ok_def)

lemma elem_list_ok_snoc: "elem_list_ok (p @ [x]) \<longleftrightarrow> elem_list_ok p \<and> is_dir p \<and> elem_shape x"
proof -
  have "(\<forall>e \<in> set p. folder_name e) \<longleftrightarrow> (\<forall>e \<in> set (butlast p). folder_name e) \<and> is_dir p"
    by (cases p rule: rev_cases) (auto simp: is_dir_def)
  then show ?thesis by (auto simp: elem_list_ok_def elem_shape_def)
qed

lemma dir_lookup_Some:
  assumes "dir_ok bs"
  shows "dir_lookup bs x = Some i \<longleftrightarrow> (\<exists>e \<in> set (dir_used bs). cstr (name e) = x \<and> inode e = i)"
proof -
  have "distinct (map fst (map (\<lambda>e. (cstr (name e), inode e)) (dir_used bs)))"
    using assms by (simp add: dir_ok_def comp_def)
  then show ?thesis unfolding dir_lookup_def by (auto simp: map_of_eq_Some_iff)
qed

lemma dir_lookup_None: "dir_lookup bs x = None \<longleftrightarrow> (\<forall>e \<in> set (dir_used bs). cstr (name e) \<noteq> x)"
  by (auto simp: dir_lookup_def map_of_eq_None_iff image_image)

lemma dir_lookup_shape: "dir_ok bs \<Longrightarrow> dir_lookup bs x = Some i \<Longrightarrow> elem_shape x \<and> i \<noteq> 0"
  by (auto simp: dir_lookup_Some) (auto simp: dir_ok_def dir_used_def)

section \<open>Ownership of blocks\<close>

text \<open>
  A folder owns the block with its directory, a file its inode and its data blocks. The owners of
  a volume are the nodes of the tree below the root; more owners may be given, such as files that
  are open and have no name any more.
\<close>

type_synonym owner = "u32 \<times> bool"

definition own :: "volume \<Rightarrow> owner \<Rightarrow> u32 set" where
  "own f x = (case x of (i, d) \<Rightarrow> if d then {i} else insert i (set (file_blocks f i)))"

definition own_ok :: "u32 \<Rightarrow> volume \<Rightarrow> owner \<Rightarrow> bool" where
  "own_ok tb f x \<longleftrightarrow> (case x of (i, d) \<Rightarrow> 3 \<le> i \<and> i < tb \<and>
     (if d then dir_ok (f i) else inode_ok tb (inode_of (f i)) \<and> distinct (i # file_blocks f i)))"

definition tree_owners :: "volume \<Rightarrow> owner set" where
  "tree_owners f = {(i, d). \<exists>p. p \<noteq> [] \<and> elem_list_ok p \<and> walk f 2 p = Some i \<and> d = is_dir p}"

definition marked :: "volume \<Rightarrow> u32 \<Rightarrow> bool" where
  "marked f k \<longleftrightarrow> bm_bit (block_words (f 1)) (uint k)"

text \<open>
  The invariant of a volume of \<open>tb\<close> blocks with owners \<open>W\<close>: the folders are well-formed, no block has two
  owners, a node has one path only, and the allocation bitmap marks the system blocks and every
  block that is owned. (It may mark more: the contents of a folder that was removed.)
\<close>

definition sfs_wf :: "u32 \<Rightarrow> volume \<Rightarrow> owner set \<Rightarrow> bool" where
  "sfs_wf tb f W \<longleftrightarrow> 3 \<le> tb \<and> tb \<le> 4096 \<and> (\<forall>b < tb. length (f b) = 512) \<and> dir_ok (f 2) \<and>
     tree_owners f \<subseteq> W \<and> (\<forall>x \<in> W. own_ok tb f x) \<and>
     (\<forall>x \<in> W. \<forall>y \<in> W. x \<noteq> y \<longrightarrow> own f x \<inter> own f y = {}) \<and>
     (\<forall>p q i. elem_list_ok p \<longrightarrow> elem_list_ok q \<longrightarrow> walk f 2 p = Some i \<longrightarrow> walk f 2 q = Some i \<longrightarrow> p = q) \<and>
     (\<forall>k < tb. k < 3 \<or> (\<exists>x \<in> W. k \<in> own f x) \<longrightarrow> marked f k)"

lemma own_ok_simps [simp]:
  "own_ok tb f (i, True) \<longleftrightarrow> 3 \<le> i \<and> i < tb \<and> dir_ok (f i)"
  "own_ok tb f (i, False) \<longleftrightarrow> 3 \<le> i \<and> i < tb \<and> inode_ok tb (inode_of (f i)) \<and> distinct (i # file_blocks f i)"
  by (auto simp: own_ok_def)

lemma own_simps [simp]: "own f (i, True) = {i}" "own f (i, False) = insert i (set (file_blocks f i))"
  by (simp_all add: own_def)

lemma own_self: "i \<in> own f (i, d)"
  by (simp add: own_def)

lemma sfs_wfD:
  assumes "sfs_wf tb f W"
  shows "3 \<le> tb" "tb \<le> 4096" "\<And>b. b < tb \<Longrightarrow> length (f b) = 512" "dir_ok (f 2)" "tree_owners f \<subseteq> W"
    "\<And>x. x \<in> W \<Longrightarrow> own_ok tb f x" "\<And>x y. x \<in> W \<Longrightarrow> y \<in> W \<Longrightarrow> x \<noteq> y \<Longrightarrow> own f x \<inter> own f y = {}"
    "\<And>p q i. elem_list_ok p \<Longrightarrow> elem_list_ok q \<Longrightarrow> walk f 2 p = Some i \<Longrightarrow> walk f 2 q = Some i \<Longrightarrow> p = q"
    "\<And>k. k < tb \<Longrightarrow> k < 3 \<Longrightarrow> marked f k" "\<And>k x. x \<in> W \<Longrightarrow> k \<in> own f x \<Longrightarrow> k < tb \<Longrightarrow> marked f k"
  using assms unfolding sfs_wf_def by blast+

lemma sfs_wf_sub: "sfs_wf tb f W \<Longrightarrow> W' \<subseteq> W \<Longrightarrow> tree_owners f \<subseteq> W' \<Longrightarrow> sfs_wf tb f W'"
  unfolding sfs_wf_def by blast

lemma tree_ownerI: "elem_list_ok p \<Longrightarrow> p \<noteq> [] \<Longrightarrow> walk f 2 p = Some i \<Longrightarrow> (i, is_dir p) \<in> tree_owners f"
  by (auto simp: tree_owners_def)

lemma owner_unique:
  assumes "sfs_wf tb f W" "(i, d) \<in> W" "(i, c) \<in> W"
  shows "c = d"
  using sfs_wfD(7) [OF assms] own_self [of i f] by blast

lemma own_range:
  assumes wf: "sfs_wf tb f W" and x: "x \<in> W" "b \<in> own f x"
  shows "3 \<le> b \<and> b < tb"
proof -
  obtain i d where i: "x = (i, d)" by (cases x)
  have ok: "own_ok tb f (i, d)" using sfs_wfD(6) [OF wf x(1)] i by simp
  show ?thesis
  proof (cases d)
    case False
    with ok have v: "inode_ok tb (inode_of (f i))" "3 \<le> i" "i < tb" by simp_all
    with file_blocks_eq(2) [of tb f i] sfs_wfD(3) [OF wf v(3)] x(2) i False show ?thesis by auto
  qed (use ok x i in auto)
qed

lemma walk_dir_ok:
  assumes wf: "sfs_wf tb f W" and p: "elem_list_ok p" "is_dir p" "walk f 2 p = Some i"
  shows "dir_ok (f i)"
proof (cases "p = []")
  case True
  with p wf show ?thesis by (simp add: sfs_wf_def)
next
  case False
  have "(i, True) \<in> W" using tree_ownerI [OF p(1) False p(3)] sfs_wfD(5) [OF wf] p(2) by auto
  with sfs_wfD(6) [OF wf] show ?thesis by fastforce
qed

section \<open>Changes of the tree\<close>

text \<open>
  A volume whose folders are as before has the same tree. Adding a name to one folder adds one path
  (a new folder is empty), and taking a name away takes away every path through it.
\<close>

lemma walk_same:
  assumes "\<And>q d. elem_list_ok q \<Longrightarrow> is_dir q \<Longrightarrow> walk f 2 q = Some d \<Longrightarrow> dir_lookup (g d) = dir_lookup (f d)" "elem_list_ok q"
  shows "walk g 2 q = walk f 2 q"
  using assms(2)
proof (induction q rule: rev_induct)
  case (snoc x q)
  then have q: "elem_list_ok q" "is_dir q" by (simp_all add: elem_list_ok_snoc)
  with snoc.IH assms(1) [OF q] show ?case by (simp add: walk_snoc split: option.split)
qed simp

lemma walk_add:
  assumes inj: "\<And>p q i. elem_list_ok p \<Longrightarrow> elem_list_ok q \<Longrightarrow> walk f 2 p = Some i \<Longrightarrow> walk f 2 q = Some i \<Longrightarrow> p = q"
    and p: "elem_list_ok p" "walk f 2 p = Some i" and new: "dir_lookup (f i) e = None"
    and g: "dir_lookup (g i) = (dir_lookup (f i))(e \<mapsto> j)" "folder_name e \<longrightarrow> dir_lookup (g j) = Map.empty"
    and rest: "\<And>q d. elem_list_ok q \<Longrightarrow> is_dir q \<Longrightarrow> walk f 2 q = Some d \<Longrightarrow> d \<noteq> i \<Longrightarrow> dir_lookup (g d) = dir_lookup (f d)"
    and q: "elem_list_ok q"
  shows "walk g 2 q = (if q = p @ [e] then Some j else walk f 2 q)"
  using q
proof (induction q rule: rev_induct)
  case (snoc x q)
  then have q: "elem_list_ok q" "is_dir q" by (simp_all add: elem_list_ok_snoc)
  note IH = snoc.IH [OF q(1)]
  show ?case
  proof (cases "q = p @ [e]")
    case True
    then have "folder_name e" using q(2) by (simp add: is_dir_def)
    moreover have "walk f 2 q = None" using True p(2) new by (simp add: walk_snoc)
    moreover have "walk g 2 q = Some j" using IH True by simp
    ultimately have "walk g 2 (q @ [x]) = None" "walk f 2 (q @ [x]) = None" using g(2) by (simp_all only: walk_snoc option.case)
    with True show ?thesis by simp
  next
    case False
    then have same: "walk g 2 q = walk f 2 q" using IH by simp
    show ?thesis
    proof (cases "walk f 2 q")
      case (Some d)
      then show ?thesis
      proof (cases "d = i")
        case True
        with inj [OF q(1) p(1)] Some p(2) have "q = p" by simp
        with Some same g(1) True show ?thesis by (auto simp: walk_snoc)
      next
        case di: False
        have "q \<noteq> p" using Some p(2) di by auto
        with Some same rest [OF q Some di] show ?thesis by (simp add: walk_snoc)
      qed
    qed (use same p(2) in \<open>auto simp: walk_snoc\<close>)
  qed
qed simp

lemma walk_drop:
  assumes inj: "\<And>p q i. elem_list_ok p \<Longrightarrow> elem_list_ok q \<Longrightarrow> walk f 2 p = Some i \<Longrightarrow> walk f 2 q = Some i \<Longrightarrow> p = q"
    and p: "elem_list_ok p" "walk f 2 p = Some i"
    and g: "dir_lookup (g i) = (dir_lookup (f i))(e := None)"
    and rest: "\<And>q d. elem_list_ok q \<Longrightarrow> is_dir q \<Longrightarrow> walk f 2 q = Some d \<Longrightarrow> d \<noteq> i \<Longrightarrow> dir_lookup (g d) = dir_lookup (f d)"
    and q: "elem_list_ok q"
  shows "walk g 2 q = (if prefix (p @ [e]) q then None else walk f 2 q)"
  using q
proof (induction q rule: rev_induct)
  case (snoc x q)
  then have q: "elem_list_ok q" "is_dir q" by (simp_all add: elem_list_ok_snoc)
  note IH = snoc.IH [OF q(1)]
  show ?case
  proof (cases "prefix (p @ [e]) q")
    case True
    then show ?thesis using IH by (simp add: walk_snoc)
  next
    case False
    then have same: "walk g 2 q = walk f 2 q" using IH by simp
    have pre: "prefix (p @ [e]) (q @ [x]) \<longleftrightarrow> q = p \<and> x = e" using False by auto
    show ?thesis
    proof (cases "walk f 2 q")
      case (Some d)
      show ?thesis
      proof (cases "d = i")
        case True
        with inj [OF q(1) p(1)] Some p(2) have "q = p" by simp
        with Some same g True pre show ?thesis by (auto simp: walk_snoc)
      next
        case di: False
        then have "q \<noteq> p" using Some p(2) by auto
        with Some same pre rest [OF q Some di] show ?thesis by (simp add: walk_snoc)
      qed
    qed (use same pre p(2) in \<open>auto simp: walk_snoc\<close>)
  qed
qed simp

section \<open>Changes of a volume\<close>

text \<open>The directories and inodes of the owners are as before.\<close>

definition frame :: "volume \<Rightarrow> volume \<Rightarrow> owner set \<Rightarrow> bool" where
  "frame f g W \<longleftrightarrow> g 2 = f 2 \<and> (\<forall>x \<in> W. g (fst x) = f (fst x))"

lemma frame_own: "frame f g W \<Longrightarrow> x \<in> W \<Longrightarrow> own g x = own f x \<and> (own_ok tb g x \<longleftrightarrow> own_ok tb f x)"
  by (cases x) (force simp: frame_def own_def own_ok_def file_blocks_def)

lemma frame_walk:
  assumes wf: "sfs_wf tb f W" and fr: "frame f g W" and q: "elem_list_ok q"
  shows "walk g 2 q = walk f 2 q"
proof (rule walk_same [OF _ q])
  fix p d assume p: "elem_list_ok p" "is_dir p" "walk f 2 p = Some d"
  show "dir_lookup (g d) = dir_lookup (f d)"
  proof (cases "p = []")
    case True
    with p fr show ?thesis by (simp add: frame_def)
  next
    case False
    with tree_ownerI [OF p(1) False p(3)] sfs_wfD(5) [OF wf] fr show ?thesis by (force simp: frame_def)
  qed
qed

lemma tree_owners_cong: "(\<And>q. elem_list_ok q \<Longrightarrow> walk g 2 q = walk f 2 q) \<Longrightarrow> tree_owners g = tree_owners f"
  by (auto simp: tree_owners_def)

lemma wf_frame:
  assumes wf: "sfs_wf tb f W" and fr: "frame f g W" and len: "\<And>b. b < tb \<Longrightarrow> length (g b) = 512"
    and mk: "\<And>k. k < tb \<Longrightarrow> k < 3 \<or> (\<exists>x \<in> W. k \<in> own f x) \<Longrightarrow> marked g k"
  shows "sfs_wf tb g W"
proof -
  note w = frame_walk [OF wf fr]
  note o = frame_own [OF fr, of _ tb]
  have own: "own g x = own f x" if "x \<in> W" for x using o that by blast
  show ?thesis
    unfolding sfs_wf_def
  proof (intro conjI ballI allI impI)
    show "tree_owners g \<subseteq> W" using tree_owners_cong [of g f, OF w] sfs_wfD(5) [OF wf] by simp
    show "dir_ok (g 2)" using fr sfs_wfD(4) [OF wf] by (simp add: frame_def)
    show "own_ok tb g x" if "x \<in> W" for x using o [OF that] sfs_wfD(6) [OF wf that] by blast
    show "own g x \<inter> own g y = {}" if "x \<in> W" "y \<in> W" "x \<noteq> y" for x y
      using sfs_wfD(7) [OF wf that] own that by simp
    show "p = q" if "elem_list_ok p" "elem_list_ok q" "walk g 2 p = Some i" "walk g 2 q = Some i" for p q i
      using that w sfs_wfD(8) [OF wf] by simp
    show "marked g k" if "k < tb" "k < 3 \<or> (\<exists>x \<in> W. k \<in> own g x)" for k
      using mk [OF that(1)] that(2) own by auto
  qed (use sfs_wfD [OF wf] len in auto)
qed

lemma wf_add_owner:
  assumes wf: "sfs_wf tb f W" and x: "own_ok tb f x" "\<And>y. y \<in> W \<Longrightarrow> own f x \<inter> own f y = {}"
    and mk: "\<And>k. k \<in> own f x \<Longrightarrow> marked f k"
  shows "sfs_wf tb f (insert x W)"
  using assms unfolding sfs_wf_def by (auto simp: Int_commute)

text \<open>Linking a node that is owned but has no name, and unlinking a name.\<close>

lemma block_not_node:
  assumes wf: "sfs_wf tb f W" and p: "elem_list_ok p" "is_dir p" "walk f 2 p = Some i" and x: "x \<in> W" "fst x \<noteq> i"
  shows "i \<notin> own f x"
proof (cases "p = []")
  case True
  with p have "i = 2" by simp
  with own_range [OF wf x(1)] less_3 [of 2] show ?thesis by (metis leD)
next
  case False
  have i: "(i, True) \<in> W" using tree_ownerI [OF p(1) False p(3)] sfs_wfD(5) [OF wf] p(2) by auto
  moreover have "(i, True) \<noteq> x" using x(2) by auto
  ultimately show ?thesis using sfs_wfD(7) [OF wf i x(1)] by auto
qed

lemma dir_change_own:
  assumes wf: "sfs_wf tb f W" and p: "elem_list_ok p" "is_dir p" "walk f 2 p = Some i"
    and g: "g = f(i := bs)" "dir_ok bs" and x: "x \<in> W"
  shows "own g x = own f x" "own_ok tb g x"
proof -
  obtain j d where j: "x = (j, d)" by (cases x)
  have ok: "own_ok tb f x" by (rule sfs_wfD(6) [OF wf x])
  have "d" if "j = i"
  proof -
    have "i \<noteq> 2" using own_range [OF wf x own_self [of j f d, folded j]] that less_3 [of 2] by (metis leD)
    then have "p \<noteq> []" using p(3) by auto
    with tree_ownerI [OF p(1) this p(3)] sfs_wfD(5) [OF wf] p(2) have "(i, True) \<in> W" by auto
    with owner_unique [OF wf this] x j that show ?thesis by blast
  qed
  then have "own g x = own f x \<and> own_ok tb g x" using ok g j by (cases "j = i") (auto simp: own_def own_ok_def file_blocks_def)
  then show "own g x = own f x" "own_ok tb g x" by blast+
qed

lemma wf_dir_change:
  assumes wf: "sfs_wf tb f W" and p: "elem_list_ok p" "is_dir p" "walk f 2 p = Some i"
    and g: "g = f(i := bs)" "dir_ok bs"
    and tree: "tree_owners g \<subseteq> W"
    and inj: "\<And>p q j. elem_list_ok p \<Longrightarrow> elem_list_ok q \<Longrightarrow> walk g 2 p = Some j \<Longrightarrow> walk g 2 q = Some j \<Longrightarrow> p = q"
  shows "sfs_wf tb g W"
proof -
  note own = dir_change_own [OF wf p g]
  have i1: "i \<noteq> 1"
  proof (cases "p = []")
    case False
    then have "(i, True) \<in> W" using tree_ownerI [OF p(1) False p(3)] sfs_wfD(5) [OF wf] p(2) by auto
    with own_range [OF wf this own_self] less_3 [of i] show ?thesis by (metis leD)
  qed (use p in simp)
  have "dir_ok (g 2)" using g sfs_wfD(4) [OF wf] by simp
  moreover have "length (g b) = 512" if "b < tb" for b using g that sfs_wfD(3) [OF wf that] by (simp add: dir_ok_def)
  moreover have "marked g k = marked f k" for k using g(1) i1 by (simp add: marked_def)
  ultimately show ?thesis
    using sfs_wfD(1,2) [OF wf] tree inj own sfs_wfD(7,9,10) [OF wf] unfolding sfs_wf_def by auto
qed

lemma wf_link:
  assumes wf: "sfs_wf tb f W" and p: "elem_list_ok (p @ [e])" "walk f 2 p = Some i" and new: "dir_lookup (f i) e = None"
    and j: "(j, folder_name e) \<in> W" "(j, folder_name e) \<notin> tree_owners f" "folder_name e \<longrightarrow> dir_lookup (f j) = Map.empty"
    and g: "g = f(i := bs)" "dir_ok bs" "dir_lookup bs = (dir_lookup (f i))(e \<mapsto> j)"
  shows "sfs_wf tb g W" "elem_list_ok q \<Longrightarrow> walk g 2 q = (if q = p @ [e] then Some j else walk f 2 q)"
proof -
  have p': "elem_list_ok p" "is_dir p" using p(1) by (simp_all add: elem_list_ok_snoc)
  have fresh: "walk f 2 q \<noteq> Some j" if q: "elem_list_ok q" for q
  proof
    assume w: "walk f 2 q = Some j"
    show False
    proof (cases "q = []")
      case True
      then show False using w own_range [OF wf j(1) own_self] less_3 [of 2] by simp
    next
      case False
      note t = tree_ownerI [OF q False w]
      then have "(j, is_dir q) \<in> W" using sfs_wfD(5) [OF wf] by blast
      from owner_unique [OF wf j(1) this] t j(2) show False by simp
    qed
  qed
  have ij: "i \<noteq> j" using fresh [OF p'(1)] p(2) by auto
  have walk: "walk g 2 q = (if q = p @ [e] then Some j else walk f 2 q)" if "elem_list_ok q" for q
    by (rule walk_add [OF sfs_wfD(8) [OF wf] p'(1) p(2) new _ _ _ that]) (use g j(3) ij in auto)
  show "elem_list_ok q \<Longrightarrow> walk g 2 q = (if q = p @ [e] then Some j else walk f 2 q)" by (rule walk)
  show "sfs_wf tb g W"
  proof (rule wf_dir_change [OF wf p' p(2) g(1,2)])
    show "tree_owners g \<subseteq> W"
    proof
      fix x assume "x \<in> tree_owners g"
      then obtain q k where q: "x = (k, is_dir q)" "q \<noteq> []" "elem_list_ok q" "walk g 2 q = Some k" by (auto simp: tree_owners_def)
      show "x \<in> W"
      proof (cases "q = p @ [e]")
        case True
        with walk [OF q(3)] q j(1) show ?thesis by (simp add: is_dir_def)
      next
        case False
        with walk [OF q(3)] q(4) tree_ownerI [OF q(3,2)] sfs_wfD(5) [OF wf] q(1) show ?thesis by auto
      qed
    qed
    show "p = q" if "elem_list_ok p" "elem_list_ok q" "walk g 2 p = Some k" "walk g 2 q = Some k" for p q k
      using that walk fresh sfs_wfD(8) [OF wf that(1,2)] by (auto split: if_splits)
  qed
qed

lemma wf_unlink:
  assumes wf: "sfs_wf tb f W" and p: "elem_list_ok p" "is_dir p" "walk f 2 p = Some i"
    and g: "g = f(i := bs)" "dir_ok bs" "dir_lookup bs = (dir_lookup (f i))(e := None)"
  shows "sfs_wf tb g W" "elem_list_ok q \<Longrightarrow> walk g 2 q = (if prefix (p @ [e]) q then None else walk f 2 q)"
proof -
  have walk: "walk g 2 q = (if prefix (p @ [e]) q then None else walk f 2 q)" if "elem_list_ok q" for q
    by (rule walk_drop [OF sfs_wfD(8) [OF wf] p(1,3) _ _ that]) (use g in auto)
  show "elem_list_ok q \<Longrightarrow> walk g 2 q = (if prefix (p @ [e]) q then None else walk f 2 q)" by (rule walk)
  show "sfs_wf tb g W"
  proof (rule wf_dir_change [OF wf p g(1,2)])
    have "tree_owners g \<subseteq> tree_owners f" using walk by (auto simp: tree_owners_def split: if_splits)
    then show "tree_owners g \<subseteq> W" using sfs_wfD(5) [OF wf] by blast
    show "p = q" if "elem_list_ok p" "elem_list_ok q" "walk g 2 p = Some k" "walk g 2 q = Some k" for p q k
      using that walk sfs_wfD(8) [OF wf that(1,2)] by (auto split: if_splits)
  qed
qed

end
