(* ===== verification/Sfs_resolve.thy ===== *)
theory Sfs_resolve
  imports Sfs_tree
begin

text \<open>
  The state of the student filesystem driver, its transfers, and the resolution of a path: it
  finds the node that the tree of the volume has at that path.
\<close>

section \<open>Transfers\<close>

definition sfs_state :: "('d \<Rightarrow> bool) \<Rightarrow> u32 \<Rightarrow> u32 \<Rightarrow> 'd sfs_t \<Rightarrow> bool" where
  "sfs_state ready nb tb T \<longleftrightarrow> ready (sdisk T) \<and> totalvblocks T = tb \<and> stotalblocks T = tb \<and> tb \<le> nb \<and>
     length (block (sbuf_inode T)) = 127 \<and> length (sbuf_bat T) = 512 \<and> 0 < free_sems (kres T) \<and> length (open_files T) = 32"

text \<open>What a call leaves alone while it uses the disk and the buffers.\<close>

definition keeps :: "'d sfs_t \<Rightarrow> 'd sfs_t \<Rightarrow> bool" where
  "keeps T T' \<longleftrightarrow> open_files T' = open_files T \<and> openfile_lock T' = openfile_lock T \<and> slock T' = slock T \<and> kres T' = kres T"

lemma keeps_refl [simp]: "keeps T T"
  by (simp add: keeps_def)

lemma keeps_trans: "keeps T T' \<Longrightarrow> keeps T' T'' \<Longrightarrow> keeps T T''"
  by (simp add: keeps_def)

lemma keeps_upd [simp]:
  "keeps T (T'\<lparr>sdisk := d\<rparr>) = keeps T T'" "keeps T (T'\<lparr>sbuf_inode := v\<rparr>) = keeps T T'" "keeps T (T'\<lparr>sbuf_bat := bs\<rparr>) = keeps T T'"
  "keeps T (T'\<lparr>sbuf_md := md\<rparr>) = keeps T T'" "keeps T (T'\<lparr>smd_rest := bs\<rparr>) = keeps T T'"
  by (simp_all add: keeps_def)

lemma sfs_state_upd [simp]:
  "sfs_state ready nb tb (T\<lparr>sbuf_md := md\<rparr>) = sfs_state ready nb tb T" "sfs_state ready nb tb (T\<lparr>smd_rest := bs\<rparr>) = sfs_state ready nb tb T"
  "sfs_state ready nb tb (T\<lparr>slock := n\<rparr>) = sfs_state ready nb tb T" "sfs_state ready nb tb (T\<lparr>openfile_lock := n\<rparr>) = sfs_state ready nb tb T"
  "sfs_state ready nb tb (V_slock T) = sfs_state ready nb tb T"
  by (simp_all add: sfs_state_def V_slock_def)

lemma sfs_state_buf:
  "sfs_state ready nb tb T \<Longrightarrow> length (block v) = 127 \<Longrightarrow> sfs_state ready nb tb (T\<lparr>sbuf_inode := v\<rparr>)"
  "sfs_state ready nb tb T \<Longrightarrow> length bs = 512 \<Longrightarrow> sfs_state ready nb tb (T\<lparr>sbuf_bat := bs\<rparr>)"
  "sfs_state ready nb tb T \<Longrightarrow> length es = 32 \<Longrightarrow> sfs_state ready nb tb (T\<lparr>open_files := es\<rparr>)"
  by (simp_all add: sfs_state_def)

lemma sthen_1 [simp]: "sthen err (Inr (1, T)) f = f T"
  by (simp add: sthen_def)

lemma P_slock_1 [simp]: "slock T = 1 \<Longrightarrow> P_slock T = Inr (T\<lparr>slock := 0\<rparr>)"
  by (simp add: P_slock_def sem_down_def)

lemma V_slock_sel [simp]:
  "sdisk (V_slock T) = sdisk T" "open_files (V_slock T) = open_files T" "openfile_lock (V_slock T) = openfile_lock T"
  "slock (V_slock T) = slock T + 1" "kres (V_slock T) = kres T" "totalvblocks (V_slock T) = totalvblocks T"
  by (simp_all add: V_slock_def)

lemma keep_sems: "(K :: sfs_res)\<lparr>free_sems := free_sems K\<rparr> = K"
  by (rule sfs_res.equality) simp_all

lemma keep_kres: "(T :: 'd sfs_t)\<lparr>sdisk := d, kres := kres T\<rparr> = T\<lparr>sdisk := d\<rparr>"
  by (rule sfs_t.equality) simp_all

context block_device begin

lemma sread_ok:
  assumes "sfs_state ready nb tb T" "b < nb"
  obtains d where "sread G b T = Inr (1, blk (sdisk T) b, T\<lparr>sdisk := d\<rparr>)" "blk d = blk (sdisk T)"
    "sfs_state ready nb tb (T\<lparr>sdisk := d\<rparr>)"
  using read_law [of "sdisk T" b] assms by (auto simp: sread_def read_vblock_def sfs_state_def)

lemma swrite_ok:
  assumes "sfs_state ready nb tb T" "b < nb" "length bs = 512"
  obtains d where "swrite G b bs T = Inr (1, T\<lparr>sdisk := d\<rparr>)" "blk d = (blk (sdisk T))(b := bs)"
    "sfs_state ready nb tb (T\<lparr>sdisk := d\<rparr>)"
  using write_law [of "sdisk T" b bs] assms
  by (auto simp: swrite_def write_vblock_def sfs_state_def keep_sems keep_kres)

lemma read_smd_ok:
  assumes "sfs_state ready nb tb T" "b < nb"
  obtains d where "read_smd G b T = Inr (1, T\<lparr>sdisk := d, sbuf_md := dir_of (blk (sdisk T) b), smd_rest := drop 500 (blk (sdisk T) b)\<rparr>)"
    "blk d = blk (sdisk T)"
    "sfs_state ready nb tb (T\<lparr>sdisk := d, sbuf_md := dir_of (blk (sdisk T) b), smd_rest := drop 500 (blk (sdisk T) b)\<rparr>)"
  by (rule sread_ok [OF assms]) (use that in \<open>simp add: read_smd_def\<close>)

lemma read_sbat_ok:
  assumes "sfs_state ready nb tb T" "b < nb"
  obtains d where "read_sbat G b T = Inr (1, T\<lparr>sdisk := d, sbuf_bat := blk (sdisk T) b\<rparr>)" "blk d = blk (sdisk T)"
    "sfs_state ready nb tb (T\<lparr>sdisk := d, sbuf_bat := blk (sdisk T) b\<rparr>)"
proof -
  have "ready (sdisk T)" using assms(1) by (simp add: sfs_state_def)
  from blk_length [OF this assms(2)] that show ?thesis
    by (rule_tac sread_ok [OF assms]) (simp add: read_sbat_def sfs_state_buf)
qed

lemma read_sinode_ok:
  assumes "sfs_state ready nb tb T" "b < nb"
  obtains d where "read_sinode G b T = Inr (1, T\<lparr>sdisk := d, sbuf_inode := inode_of (blk (sdisk T) b)\<rparr>)" "blk d = blk (sdisk T)"
    "sfs_state ready nb tb (T\<lparr>sdisk := d, sbuf_inode := inode_of (blk (sdisk T) b)\<rparr>)"
proof -
  have "ready (sdisk T)" using assms(1) by (simp add: sfs_state_def)
  from inode_of_length [OF blk_length [OF this assms(2)]] that show ?thesis
    by (rule_tac sread_ok [OF assms]) (simp add: read_sinode_def sfs_state_buf)
qed

end

section \<open>Searching a folder\<close>

lemma entry_is_eq:
  assumes "inode e \<noteq> 0 \<longrightarrow> terminated (name e)" "terminated fn"
  shows "entry_is fn e = Inr (inode e \<noteq> 0 \<and> cstr (name e) = cstr fn)"
  using stringcmp_eq [of "name e" fn] assms by (auto simp: entry_is_def word_neq_0_conv)

lemma scan_folder:
  assumes dir: "dir_ok bs" and fn: "terminated fn"
  obtains (found) i where "scanM (entry_is fn) (dir_of bs) 0 SFS_MAX_FILES = Inr (Some i)" "0 \<le> i" "i < 25"
      "dir_lookup bs (cstr fn) = Some (inode (dir_of bs ! nat i))"
    | (none) "scanM (entry_is fn) (dir_of bs) 0 SFS_MAX_FILES = Inr None" "dir_lookup bs (cstr fn) = None"
proof -
  let ?d = "dir_of bs" and ?P = "\<lambda>e. inode e \<noteq> 0 \<and> cstr (name e) = cstr fn"
  have t: "inode e \<noteq> 0 \<longrightarrow> terminated (name e)" if "e \<in> set ?d" for e
    using dir that by (auto simp: dir_ok_def dir_used_def)
  have "scanM (entry_is fn) ?d 0 25 = scan ?P ?d 0 25"
    by (rule scanM_eq) (use t fn entry_is_eq in blast)
  then obtain r where r: "scanM (entry_is fn) ?d 0 SFS_MAX_FILES = Inr r" "first_from (\<lambda>k. ?P (?d ! nat k)) 0 25 r"
    using scan_total [of 0 25 ?d ?P] by (auto simp: sfs_sizes)
  show ?thesis
  proof (cases r)
    case None
    have "cstr (name e) \<noteq> cstr fn" if "e \<in> set (dir_used bs)" for e
    proof -
      from that obtain i where "e = ?d ! i" "i < 25" "inode e \<noteq> 0" by (auto simp: in_set_conv_nth dir_used_def)
      with None r(2) show ?thesis by (auto simp: first_from_def dest: spec [of _ "int i"])
    qed
    with None r(1) none show ?thesis by (simp add: dir_lookup_None)
  next
    case (Some i)
    then have i: "0 \<le> i" "i < 25" "?P (?d ! nat i)" using r(2) by (auto simp: first_from_def)
    then have "?d ! nat i \<in> set ?d" by (simp add: nat_less_iff)
    with i(3) have "dir_lookup bs (cstr fn) = Some (inode (?d ! nat i))"
      by (auto simp: dir_lookup_Some [OF dir] dir_used_def)
    with Some r(1) i found show ?thesis by simp
  qed
qed

section \<open>Resolving\<close>

lemma elem_list_ok_suffix: "elem_list_ok (p @ q) \<Longrightarrow> elem_list_ok q"
  by (cases "q = []") (auto simp: elem_list_ok_def butlast_append)

lemma elem_list_ok_prefix: "elem_list_ok (p @ x # q) \<Longrightarrow> elem_list_ok p \<and> is_dir p"
  by (auto simp: elem_list_ok_def is_dir_def butlast_append dest: in_set_butlastD)

lemma elem_list_ok_init: "elem_list_ok (p @ q) \<Longrightarrow> elem_list_ok p"
  using elem_list_ok_prefix by (cases q) auto

lemma walk_node:
  assumes wf: "sfs_wf tb f W" and p: "elem_list_ok p" "walk f 2 p = Some i"
  shows "2 \<le> i" "i < tb" "uint i < 4096" "sint i = uint i" "2 \<le> uint i"
proof -
  have "2 \<le> i \<and> i < tb"
  proof (cases "p = []")
    case True
    moreover have "(2 :: u32) < tb" by (rule less_le_trans [OF _ sfs_wfD(1) [OF wf]]) simp
    ultimately show ?thesis using p by simp
  next
    case False
    from tree_ownerI [OF p(1) False p(2)] have "(i, is_dir p) \<in> W" using sfs_wfD(5) [OF wf] by blast
    with own_range [OF wf this own_self] show ?thesis by (auto simp: word_le_def)
  qed
  then show i: "2 \<le> i" "i < tb" by simp_all
  then have u: "uint i < 4096" "2 \<le> uint i" using sfs_wfD(2) [OF wf] by (auto simp: word_less_def word_le_def)
  then show "uint i < 4096" "2 \<le> uint i" "sint i = uint i" by (simp_all add: sint_small)
qed

context block_device begin

lemma resolve_loop_ok:
  assumes "sfs_state ready nb tb T" "sfs_wf tb f W" "blk (sdisk T) = f" "slock T = 0"
    and "elem_list_ok (p @ q)" "walk f 2 p = Some i" "0 \<notin> set (concat q)" "length buf = 16"
  shows "\<exists>r par ex' T'. resolve_loop G want (concat q @ 0 # z) buf (uint i) parent ex T = Inr ((r, par, ex'), V_slock T') \<and>
    sfs_state ready nb tb T' \<and> keeps T T' \<and> blk (sdisk T') = f \<and>
    (case walk f i q of
       Some j \<Rightarrow> r = uint j \<and> par = (if q = [] then parent else uint (the (walk f i (butlast q))))
     | None \<Rightarrow> r = VFS_ERROR \<and> 2 \<le> par \<and> (want \<longrightarrow> ex' = (walk f i (butlast q) \<noteq> None)) \<and>
         (\<forall>d. walk f i (butlast q) = Some d \<longrightarrow> par = uint d))"
  using assms
proof (induction q arbitrary: p i buf parent T)
  case Nil
  then show ?case
    by (subst resolve_loop.simps) (auto simp: next_path_elem_None intro!: exI [of _ T])
next
  case (Cons x q)
  note st = Cons.prems(1) and wf = Cons.prems(2) and dk = Cons.prems(3)
  have ok: "elem_list_ok (x # q)" by (rule elem_list_ok_suffix [OF Cons.prems(5)])
  have pok: "elem_list_ok p" "is_dir p" using elem_list_ok_prefix [OF Cons.prems(5)] by blast+
  have el: "elems (concat (x # q)) = x # q" by (rule elems_concat [OF ok])
  have "elem_ok x" using ok by (simp add: elem_list_ok_def)
  from next_path_elem_Some [OF el this Cons.prems(8,7)] obtain b1 where
    b1: "sfs_next_path_elem (concat (x # q) @ 0 # z) buf = Inr (Some (concat q @ 0 # z), b1)" "length b1 = 16" "terminated b1" "cstr b1 = x"
    by metis
  note i = walk_node [OF wf pok(1) Cons.prems(6)]
  have inb: "i < nb" using i(2) st by (auto simp: sfs_state_def)
  obtain d where d: "read_smd G i T = Inr (1, T\<lparr>sdisk := d, sbuf_md := dir_of (f i), smd_rest := drop 500 (f i)\<rparr>)" "blk d = f"
    "sfs_state ready nb tb (T\<lparr>sdisk := d, sbuf_md := dir_of (f i), smd_rest := drop 500 (f i)\<rparr>)"
    using read_smd_ok [OF st inb] dk by metis
  let ?T = "T\<lparr>sdisk := d, sbuf_md := dir_of (f i), smd_rest := drop 500 (f i)\<rparr>"
  have dir: "dir_ok (f i)" by (rule walk_dir_ok [OF wf pok Cons.prems(6)])
  show ?case
  proof (cases rule: scan_folder [OF dir b1(3)])
    case (1 k)
    let ?j = "inode (dir_of (f i) ! nat k)"
    have j: "walk f 2 (p @ [x]) = Some ?j" using Cons.prems(6) 1(4) b1(4) by (simp add: walk_snoc)
    have pxq: "elem_list_ok ((p @ [x]) @ q)" using Cons.prems(5) by simp
    then have px: "elem_list_ok (p @ [x])" by (rule elem_list_ok_init)
    note sj = walk_node(4) [OF wf px j]
    have step: "resolve_loop G want (concat (x # q) @ 0 # z) buf (uint i) parent ex T =
        resolve_loop G want (concat q @ 0 # z) b1 (uint ?j) (uint i) ex ?T"
      using b1(1) d(1) 1 sj by (subst resolve_loop.simps) simp
    have c0: "0 \<notin> set (concat q)" "slock ?T = 0" "blk (sdisk ?T) = f" using Cons.prems(4,7) d(2) by simp_all
    from Cons.IH [OF d(3) wf c0(3,2) pxq j c0(1) b1(2), of "uint i"] obtain r par ex' T' where
      R: "resolve_loop G want (concat q @ 0 # z) b1 (uint ?j) (uint i) ex ?T = Inr ((r, par, ex'), V_slock T')"
      "sfs_state ready nb tb T'" "keeps ?T T'" "blk (sdisk T') = f"
      "case walk f ?j q of
         Some j \<Rightarrow> r = uint j \<and> par = (if q = [] then uint i else uint (the (walk f ?j (butlast q))))
       | None \<Rightarrow> r = VFS_ERROR \<and> 2 \<le> par \<and> (want \<longrightarrow> ex' = (walk f ?j (butlast q) \<noteq> None)) \<and>
           (\<forall>d. walk f ?j (butlast q) = Some d \<longrightarrow> par = uint d)" by (elim exE conjE) (rule that)
    have "keeps T T'" using R(3) by (simp add: keeps_def)
    moreover have "walk f i (x # q) = walk f ?j q" "q \<noteq> [] \<Longrightarrow> walk f i (butlast (x # q)) = walk f ?j (butlast q)"
      using 1(4) b1(4) by simp_all
    ultimately show ?thesis
      unfolding step using R(1,2,4,5)
      by (intro exI [of _ r] exI [of _ par] exI [of _ ex'] exI [of _ T']) (cases "q = []"; auto split: option.splits)
  next
    case 2
    have w: "walk f i (x # q) = None" using 2(2) b1(4) by simp
    have par: "walk f i (butlast (x # q)) = (if q = [] then Some i else None)" using 2(2) b1(4) by (cases q) simp_all
    show ?thesis
    proof (cases want)
      case False
      have "resolve_loop G want (concat (x # q) @ 0 # z) buf (uint i) parent ex T = Inr ((VFS_ERROR, uint i, ex), V_slock ?T)"
        using b1(1) d(1) 2(1) False by (subst resolve_loop.simps) simp
      with d w par i(5) False show ?thesis by (intro exI [of _ VFS_ERROR] exI [of _ "uint i"] exI [of _ ex] exI [of _ ?T]) auto
    next
      case True
      have "\<exists>b2. sfs_next_path_elem (concat q @ 0 # z) b1 = Inr (if q = [] then None else Some (concat (tl q) @ 0 # z), b2)"
      proof (cases q)
        case Nil
        then show ?thesis using b1(2) by (simp add: next_path_elem_None)
      next
        case (Cons y q')
        have q: "elem_list_ok q" using elem_list_ok_suffix [of "[x]" q] ok by simp
        then have y: "elem_ok y" using Cons by (simp add: elem_list_ok_def)
        have e: "elems (concat q) = y # q'" using elems_concat [OF q] Cons by simp
        have "0 \<notin> set (concat q)" using Cons.prems(7) by simp
        from next_path_elem_Some [OF e y b1(2) this, of z] obtain b2 where
          "sfs_next_path_elem (concat q @ 0 # z) b1 = Inr (Some (concat q' @ 0 # z), b2)" by blast
        with Cons show ?thesis by auto
      qed
      then obtain b2 where "sfs_next_path_elem (concat q @ 0 # z) b1 = Inr (if q = [] then None else Some (concat (tl q) @ 0 # z), b2)" by blast
      then have "resolve_loop G want (concat (x # q) @ 0 # z) buf (uint i) parent ex T = Inr ((VFS_ERROR, uint i, q = []), V_slock ?T)"
        using b1(1) d(1) 2(1) True by (subst resolve_loop.simps) simp
      with d w par i(5) show ?thesis by (intro exI [of _ VFS_ERROR] exI [of _ "uint i"] exI [of _ "q = []"] exI [of _ ?T]) auto
    qed
  qed
qed

lemma resolve_invalid:
  assumes "terminated pn" "\<not> path_ok (cstr pn)"
  shows "sfs_resolve_file_ext G want pn buf parent ex T = Inr ((VFS_ERROR, parent, ex), T)"
  using valid_path_eq [OF assms(1)] assms(2) by (simp add: sfs_resolve_file_ext_def)

lemma resolve_valid:
  assumes st: "sfs_state ready nb tb T" "sfs_wf tb f W" "blk (sdisk T) = f" "slock T = 1"
    and pn: "terminated pn" "path_ok (cstr pn)" "p = elems (tl (cstr pn))" and buf: "length buf = 16"
  obtains r par ex' T' where "sfs_resolve_file_ext G want pn buf parent ex T = Inr ((r, par, ex'), T')"
    "sfs_state ready nb tb T'" "keeps T T'" "blk (sdisk T') = f"
    "\<And>j. walk f 2 p = Some j \<Longrightarrow> r = uint j \<and> par = (if p = [] then -1 else uint (the (walk f 2 (butlast p))))"
    "walk f 2 p = None \<Longrightarrow> r = VFS_ERROR \<and> 2 \<le> par \<and> (want \<longrightarrow> ex' = (walk f 2 (butlast p) \<noteq> None)) \<and>
       (\<forall>d. walk f 2 (butlast p) = Some d \<longrightarrow> par = uint d)"
proof -
  obtain z where z: "pn = cstr pn @ 0 # z" by (rule terminated_split [OF pn(1)])
  define t where "t = tl (cstr pn)"
  have t: "cstr pn = 47 # t" using pn(2) by (simp add: t_def path_ok_def) (metis list.collapse)
  then have t: "cstr pn = 47 # t" "pn = 47 # t @ 0 # z" using z by simp_all
  have p: "concat p = t" "elem_list_ok p"
    using pn(2,3) t(1) elem_list_ok_elems [of t] by (simp_all add: concat_elems path_ok_def)
  have no0: "0 \<notin> set (concat p)" using cstr_no_0 [of pn] t(1) p(1) by simp
  let ?T = "T\<lparr>slock := 0\<rparr>"
  have st0: "sfs_state ready nb tb ?T" "blk (sdisk ?T) = f" "slock ?T = 0" using st by simp_all
  have "elem_list_ok ([] @ p)" "walk f 2 [] = Some 2" using p(2) by simp_all
  from resolve_loop_ok [OF st0(1) st(2) st0(2,3) this no0 buf, of want z "-1" ex] obtain r par ex' T' where
    R: "resolve_loop G want (concat p @ 0 # z) buf (uint (2 :: u32)) (-1) ex ?T = Inr ((r, par, ex'), V_slock T')"
      "sfs_state ready nb tb T'" "keeps ?T T'" "blk (sdisk T') = f"
      "case walk f 2 p of
         Some j \<Rightarrow> r = uint j \<and> par = (if p = [] then -1 else uint (the (walk f 2 (butlast p))))
       | None \<Rightarrow> r = VFS_ERROR \<and> 2 \<le> par \<and> (want \<longrightarrow> ex' = (walk f 2 (butlast p) \<noteq> None)) \<and>
           (\<forall>d. walk f 2 (butlast p) = Some d \<longrightarrow> par = uint d)" by (elim exE conjE) (rule that)
  have "sfs_resolve_file_ext G want pn buf parent ex T = Inr ((r, par, ex'), V_slock T')"
    using R(1) valid_path_eq [OF pn(1)] pn(2) st(4) t(2) p(1)
    by (simp add: sfs_resolve_file_ext_def SFS_DIRECTORY_BLOCK_def)
  moreover have "keeps T (V_slock T')" using R(3) st(4) by (simp add: keeps_def)
  moreover have "r = uint j \<and> par = (if p = [] then -1 else uint (the (walk f 2 (butlast p))))" if "walk f 2 p = Some j" for j
    using R(5) that by (simp only: option.case)
  moreover have "r = VFS_ERROR \<and> 2 \<le> par \<and> (want \<longrightarrow> ex' = (walk f 2 (butlast p) \<noteq> None)) \<and>
       (\<forall>d. walk f 2 (butlast p) = Some d \<longrightarrow> par = uint d)" if "walk f 2 p = None"
    using R(5) unfolding that option.case .
  ultimately show ?thesis using that [of r par ex' "V_slock T'"] R(2,4) by simp
qed

end

lemma path_folder:
  assumes "path_ok s"
  shows "folder_name s = is_dir (elems (tl s))"
proof (cases "tl s = []")
  case True
  with assms show ?thesis by (cases s) (auto simp: path_ok_def folder_name_def is_dir_def)
next
  case False
  let ?e = "elems (tl s)"
  have n: "?e \<noteq> []" using False by simp
  then have "last ?e \<noteq> []" using elems_shape [of "last ?e" "tl s"] by simp
  moreover have "tl s = concat (butlast ?e) @ last ?e"
    using n concat_elems [of "tl s"] append_butlast_last_id [OF n] by (metis concat.simps(1,2) concat_append append_Nil2)
  ultimately have "last (tl s) = last (last ?e)" by (metis last_append)
  with False n \<open>last ?e \<noteq> []\<close> show ?thesis by (cases s) (auto simp: folder_name_def is_dir_def)
qed

end
