(* ===== verification/Sfs_table.thy ===== *)
theory Sfs_table
  imports Sfs_resolve
begin

text \<open>
  The table of open files between calls, and what entering and leaving an entry do to it: opening
  counts, closing gives the entry back, and a file that was removed while it was open loses its
  blocks with the last close.
\<close>

section \<open>The table\<close>

definition entry_wf :: "u32 \<Rightarrow> sfs_openfile_t \<Rightarrow> bool" where
  "entry_wf tb e \<longleftrightarrow> io_lock e = 1 \<and> readernum e = 0 \<and> writer_tid e = -1 \<and>
     (if fileid e = -1 then parentid e = -1 \<and> times_opened e = 0 \<and> \<not> is_folder e \<and> \<not> is_deleted e
      else 1 \<le> times_opened e \<and> 2 \<le> fileid e \<and> fileid e < uint tb)"

definition table_ok :: "u32 \<Rightarrow> sfs_openfile_t list \<Rightarrow> bool" where
  "table_ok tb es \<longleftrightarrow> length es = 32 \<and> (\<forall>e \<in> set es. entry_wf tb e) \<and>
     (\<forall>j < 32. \<forall>k < 32. fileid (es ! j) = fileid (es ! k) \<longrightarrow> fileid (es ! j) \<noteq> -1 \<longrightarrow> j = k)"

text \<open>The entry of a file, the owners that are open, and what the tree knows of them.\<close>

definition opened :: "sfs_openfile_t list \<Rightarrow> u32 \<rightharpoonup> sfs_openfile_t" where
  "opened es i = find (\<lambda>e. fileid e = uint i) es"

definition open_owners :: "sfs_openfile_t list \<Rightarrow> owner set" where
  "open_owners es = {(i, d). i \<noteq> 2 \<and> (\<exists>e \<in> set es. fileid e = uint i \<and> is_folder e = d)}"

definition parent_of :: "volume \<Rightarrow> byte list list \<Rightarrow> int" where
  "parent_of f p = (if p = [] then -1 else uint (the (walk f 2 (butlast p))))"

definition linked_ok :: "volume \<Rightarrow> sfs_openfile_t list \<Rightarrow> bool" where
  "linked_ok f es \<longleftrightarrow> (\<forall>e \<in> set es. \<forall>p i. elem_list_ok p \<longrightarrow> walk f 2 p = Some i \<longrightarrow> fileid e = uint i \<longrightarrow>
     \<not> is_deleted e \<and> is_folder e = is_dir p \<and> parentid e = parent_of f p)"

definition sfs_inv :: "('d \<Rightarrow> bool) \<Rightarrow> ('d \<Rightarrow> volume) \<Rightarrow> u32 \<Rightarrow> u32 \<Rightarrow> 'd sfs_t \<Rightarrow> bool" where
  "sfs_inv ready blk nb tb T \<longleftrightarrow> sfs_state ready nb tb T \<and> slock T = 1 \<and> openfile_lock T = 1 \<and>
     table_ok tb (open_files T) \<and> linked_ok (blk (sdisk T)) (open_files T) \<and>
     sfs_wf tb (blk (sdisk T)) (tree_owners (blk (sdisk T)) \<union> open_owners (open_files T))"

lemma table_okD:
  assumes "table_ok tb es"
  shows "length es = 32" "\<And>e. e \<in> set es \<Longrightarrow> entry_wf tb e"
    "\<And>j k. j < 32 \<Longrightarrow> k < 32 \<Longrightarrow> fileid (es ! j) = fileid (es ! k) \<Longrightarrow> fileid (es ! j) \<noteq> -1 \<Longrightarrow> j = k"
  using assms unfolding table_ok_def by blast+

lemma opened_at:
  assumes ok: "table_ok tb es" and k: "k < 32" "fileid (es ! k) = uint i"
  shows "opened es i = Some (es ! k)"
proof -
  have len: "length es = 32" by (rule table_okD(1) [OF ok])
  have i: "uint i \<noteq> -1" using uint_ge_0 [of i] by linarith
  have "\<not> fileid (es ! j) = uint i" if "j < k" for j
    using table_okD(3) [OF ok, of j k] that k i by auto
  then have "\<exists>j < length es. fileid (es ! j) = uint i \<and> es ! k = es ! j \<and> (\<forall>m < j. fileid (es ! m) \<noteq> uint i)"
    using k len by (intro exI [of _ k]) auto
  then show ?thesis unfolding opened_def find_Some_iff .
qed

lemma opened_None: "opened es i = None \<longleftrightarrow> (\<forall>e \<in> set es. fileid e \<noteq> uint i)"
  by (auto simp: opened_def find_None_iff)

lemma opened_Some: "opened es i = Some e \<Longrightarrow> \<exists>k < length es. e = es ! k \<and> fileid e = uint i"
  by (auto simp: opened_def find_Some_iff)

text \<open>Looking for an entry: the one of the file, else the first free one.\<close>

lemma find_entry_from:
  assumes "length es = 32" "fid \<noteq> -1" "0 \<le> i" "i \<le> 32"
    and "\<forall>j < nat i. fileid (es ! j) \<noteq> fid" "case f of None \<Rightarrow> \<forall>j < nat i. fileid (es ! j) \<noteq> -1 | Some k \<Rightarrow> 0 \<le> k \<and> k < 32 \<and> fileid (es ! nat k) = -1"
  shows "\<exists>r. find_entry fid es i f = Inr r \<and>
    (case r of
       None \<Rightarrow> \<forall>j < 32. fileid (es ! j) \<noteq> fid \<and> fileid (es ! j) \<noteq> -1
     | Some k \<Rightarrow> 0 \<le> k \<and> k < 32 \<and> (fileid (es ! nat k) = fid \<or> fileid (es ! nat k) = -1 \<and> (\<forall>j < 32. fileid (es ! j) \<noteq> fid)))"
  using assms
proof (induction fid es i f rule: find_entry.induct)
  case (1 fid es i f)
  show ?case
  proof (cases "i < 32")
    case False
    then have "i = 32" using "1.prems"(4) by simp
    with "1.prems"(5,6) show ?thesis
      by (subst find_entry.simps) (cases f; auto simp: SFS_MAX_OPEN_FILES_def)
  next
    case True
    then have rd: "rd es i = Inr (es ! nat i)" using "1.prems"(1,3) by simp
    show ?thesis
    proof (cases "fileid (es ! nat i) = fid")
      case hit: True
      with True rd "1.prems"(3) show ?thesis by (subst find_entry.simps) (simp add: SFS_MAX_OPEN_FILES_def)
    next
      case miss: False
      let ?f = "if fileid (es ! nat i) = -1 \<and> f = None then Some i else f"
      have n: "nat (i + 1) = Suc (nat i)" using "1.prems"(3) by simp
      have a: "\<forall>j < nat (i + 1). fileid (es ! j) \<noteq> fid" using "1.prems"(5) miss by (simp add: n less_Suc_eq)
      have b: "case ?f of None \<Rightarrow> \<forall>j < nat (i + 1). fileid (es ! j) \<noteq> -1 | Some k \<Rightarrow> 0 \<le> k \<and> k < 32 \<and> fileid (es ! nat k) = -1"
        using "1.prems"(3,6) True by (cases f) (simp_all add: n less_Suc_eq)
      have "find_entry fid es i f = find_entry fid es (i + 1) ?f"
        using True rd miss by (subst find_entry.simps) (simp add: SFS_MAX_OPEN_FILES_def)
      moreover have "i < SFS_MAX_OPEN_FILES" using True by (simp add: SFS_MAX_OPEN_FILES_def)
      ultimately show ?thesis
        using "1.IH" [OF _ rd miss "1.prems"(1,2) _ _ a b] "1.prems"(3) True by simp
    qed
  qed
qed

lemma find_entry_cases:
  assumes ok: "table_ok tb es"
  obtains (hit) k where "find_entry (uint i) es 0 None = Inr (Some (int k))" "k < 32" "fileid (es ! k) = uint i" "opened es i = Some (es ! k)"
    | (free) k where "find_entry (uint i) es 0 None = Inr (Some (int k))" "k < 32" "fileid (es ! k) = -1" "opened es i = None"
    | (full) "find_entry (uint i) es 0 None = Inr None" "opened es i = None" "\<forall>e \<in> set es. fileid e \<noteq> -1"
proof -
  have len: "length es = 32" by (rule table_okD(1) [OF ok])
  have i: "uint i \<noteq> -1" using uint_ge_0 [of i] by linarith
  from find_entry_from [OF len i, of 0 None] obtain r where r: "find_entry (uint i) es 0 None = Inr r"
    "case r of
       None \<Rightarrow> \<forall>j < 32. fileid (es ! j) \<noteq> uint i \<and> fileid (es ! j) \<noteq> -1
     | Some k \<Rightarrow> 0 \<le> k \<and> k < 32 \<and> (fileid (es ! nat k) = uint i \<or> fileid (es ! nat k) = -1 \<and> (\<forall>j < 32. fileid (es ! j) \<noteq> uint i))"
    by auto
  have none: "opened es i = None" if "\<forall>j < 32. fileid (es ! j) \<noteq> uint i"
    using that len by (auto simp: opened_None in_set_conv_nth)
  show ?thesis
  proof (cases r)
    case None
    then have "\<forall>e \<in> set es. fileid e \<noteq> -1" using r(2) len by (auto simp: in_set_conv_nth)
    with None r none full show ?thesis by simp
  next
    case (Some k)
    with r(2) have k: "0 \<le> k" "k < 32" "fileid (es ! nat k) = uint i \<or> fileid (es ! nat k) = -1 \<and> (\<forall>j < 32. fileid (es ! j) \<noteq> uint i)"
      by auto
    define m where "m = nat k"
    have m: "k = int m" "m < 32" using k by (auto simp: m_def)
    have f: "find_entry (uint i) es 0 None = Inr (Some (int m))" using r(1) Some m(1) by simp
    consider "fileid (es ! m) = uint i" | "fileid (es ! m) = -1" "\<forall>j < 32. fileid (es ! j) \<noteq> uint i" using k(3) m_def by blast
    then show ?thesis
    proof cases
      case 1
      then show ?thesis using hit [OF f m(2)] opened_at [OF ok m(2)] by blast
    next
      case 2
      then show ?thesis by (rule free [OF f m(2) _ none])
    qed
  qed
qed

section \<open>Changing an entry\<close>

lemma set_entry_ok: "length (open_files T) = 32 \<Longrightarrow> k < 32 \<Longrightarrow> set_entry (int k) e T = Inr (T\<lparr>open_files := (open_files T)[k := e]\<rparr>)"
  by (simp add: set_entry_def)

lemma rd_entry: "length es = 32 \<Longrightarrow> k < 32 \<Longrightarrow> rd es (int k) = Inr (es ! k)"
  by simp

lemma relock: "openfile_lock T = 1 \<Longrightarrow> T\<lparr>openfile_lock := 0, open_files := es, openfile_lock := 1\<rparr> = T\<lparr>open_files := es\<rparr>"
  "openfile_lock T = 1 \<Longrightarrow> T\<lparr>openfile_lock := 1\<rparr> = T"
  by (rule sfs_t.equality; simp)+

lemma table_update:
  assumes ok: "table_ok tb es" and k: "k < 32" and e: "entry_wf tb e"
    and id: "fileid e = fileid (es ! k) \<or> fileid e = -1 \<or> (\<forall>x \<in> set es. fileid x \<noteq> fileid e)"
  shows "table_ok tb (es[k := e])"
proof -
  have len: "length es = 32" by (rule table_okD(1) [OF ok])
  have "i = j" if "i < 32" "j < 32" "fileid (es[k := e] ! i) = fileid (es[k := e] ! j)" "fileid (es[k := e] ! i) \<noteq> -1" for i j
  proof -
    have mem: "es ! m \<in> set es" if "m < 32" for m using that len by simp
    show ?thesis
      using that id table_okD(3) [OF ok, of i j] table_okD(3) [OF ok, of k j] table_okD(3) [OF ok, of i k] mem [of i] mem [of j] k len
      by (cases "i = k"; cases "j = k") (auto simp: nth_list_update)
  qed
  then show ?thesis
    using ok e len unfolding table_ok_def by (auto dest!: set_update_subset_insert [THEN subsetD])
qed

lemma opened_update:
  assumes ok: "table_ok tb es" and k: "k < 32" and ok': "table_ok tb (es[k := e])"
  shows "opened (es[k := e]) j =
    (if fileid e = uint j then Some e else if fileid (es ! k) = uint j then None else opened es j)"
proof -
  have len: "length es = 32" by (rule table_okD(1) [OF ok])
  show ?thesis
  proof (cases "fileid e = uint j")
    case True
    with opened_at [OF ok' k, of j] k len show ?thesis by simp
  next
    case ne: False
    show ?thesis
    proof (cases "fileid (es ! k) = uint j")
      case True
      have "fileid x \<noteq> uint j" if x: "x \<in> set (es[k := e])" for x
      proof
        assume xj: "fileid x = uint j"
        from x obtain m where m: "m < 32" "x = es[k := e] ! m" using len by (auto simp: in_set_conv_nth)
        have "uint j \<noteq> -1" using uint_ge_0 [of j] by linarith
        then show False
          using m xj ne True table_okD(3) [OF ok m(1) k] k len by (cases "m = k") auto
      qed
      with True ne show ?thesis by (simp add: opened_None)
    next
      case False
      show ?thesis
      proof (cases "opened es j")
        case None
        have "fileid x \<noteq> uint j" if "x \<in> set (es[k := e])" for x
          using that None ne by (auto simp: opened_None dest!: set_update_subset_insert [THEN subsetD])
        then have "opened (es[k := e]) j = None" by (simp add: opened_None)
        with None False ne show ?thesis by simp
      next
        case (Some x)
        from opened_Some [OF this] obtain m where m: "m < 32" "x = es ! m" "fileid x = uint j" using len by auto
        have "m \<noteq> k" using m False by auto
        with opened_at [OF ok' m(1), of j] m Some False ne show ?thesis by simp
      qed
    qed
  qed
qed

end
