(* ===== verification/Sfs_delete.thy ===== *)
theory Sfs_delete
  imports Sfs_table
begin

text \<open>
  Deleting in the student filesystem: freeing the blocks of a file or a folder in the allocation
  block, and taking a name out of its folder.
\<close>

section \<open>Freeing blocks\<close>

lemma marked_taken: "k < tb \<Longrightarrow> marked f k \<longleftrightarrow> uint k \<in> bm.taken (block_words (f 1)) (uint tb)"
  by (simp add: marked_def bm.taken_def word_less_def)

lemma sfs_free_blocks_ok:
  assumes "length bm = 128" "uint tb \<le> 4096" "length bl = 127" "i \<le> n" "n \<le> 127" "n < 127 \<longrightarrow> bl ! n = 0"
    and "\<forall>j < n. 3 \<le> bl ! j \<and> bl ! j < tb"
  shows "\<exists>bm'. sfs_free_blocks bl (int i) bm = Inr bm' \<and> length bm' = 128 \<and>
    bm.taken bm' (uint tb) = bm.taken bm (uint tb) - uint ` set (drop i (take n bl))"
  using assms(1,4)
proof (induction "n - i" arbitrary: i bm)
  case 0
  with assms show ?case by (subst sfs_free_blocks.simps) (auto simp: sfs_sizes)
next
  case (Suc r)
  then have i: "i < n" "r = n - Suc i" by simp_all
  let ?b = "bl ! i"
  have b: "3 \<le> ?b" "?b < tb" using assms(7) i by blast+
  then have ne: "?b \<noteq> 0" and lt: "uint ?b < uint tb" using less_3 [of ?b] by (auto simp: word_less_def)
  have si: "sint ?b = uint ?b" using sint_small [of ?b] lt assms(2) by simp
  obtain bm1 where b1: "bitmap_set bm (uint ?b) 0 = Inr bm1" "length bm1 = 128"
    "bm.taken bm1 (uint tb) = bm.taken bm (uint tb) - {uint ?b}"
    by (rule bitmap_clear [OF Suc.prems(1) assms(2) _ lt]) simp
  from Suc.hyps(1) [OF i(2) b1(2)] i(1) obtain bm2 where
    b2: "sfs_free_blocks bl (int (Suc i)) bm1 = Inr bm2" "length bm2 = 128"
    "bm.taken bm2 (uint tb) = bm.taken bm1 (uint tb) - uint ` set (drop (Suc i) (take n bl))" by auto
  have "sfs_free_blocks bl (int i) bm = Inr bm2"
    using i assms(3,5) ne si b1(1) b2(1) by (subst sfs_free_blocks.simps) (simp add: sfs_sizes add.commute)
  moreover have "drop i (take n bl) = ?b # drop (Suc i) (take n bl)"
    using i assms(3,5) Cons_nth_drop_Suc [of i "take n bl"] by simp
  ultimately show ?case using b1(3) b2(2,3) by auto
qed

text \<open>The entries whose folder goes away.\<close>

definition orphaned :: "int \<Rightarrow> sfs_openfile_t list \<Rightarrow> sfs_openfile_t list" where
  "orphaned fid es = map (\<lambda>e. if parentid e = fid then e\<lparr>parentid := -1\<rparr> else e) es"

lemma orphan_entries_from:
  assumes "length es = 32" "i \<le> 32"
  shows "orphan_entries fid (int i) es = Inr (take i es @ orphaned fid (drop i es))"
  using assms
proof (induction "32 - i" arbitrary: i es)
  case 0
  then show ?case by (subst orphan_entries.simps) (simp add: sfs_sizes orphaned_def)
next
  case (Suc r)
  then have i: "i < 32" "r = 32 - Suc i" by simp_all
  let ?e = "if parentid (es ! i) = fid then (es ! i)\<lparr>parentid := -1\<rparr> else es ! i"
  have up: "es[i := ?e] = (if parentid (es ! i) = fid then es[i := (es ! i)\<lparr>parentid := -1\<rparr>] else es)" by simp
  have "orphan_entries fid (int i) es = orphan_entries fid (int (Suc i)) (es[i := ?e])"
    using i Suc.prems(1) by (subst orphan_entries.simps) (simp add: sfs_sizes add.commute)
  also have "\<dots> = Inr (take (Suc i) (es[i := ?e]) @ orphaned fid (drop (Suc i) (es[i := ?e])))"
    by (rule Suc.hyps(1) [OF i(2)]) (use Suc.prems(1) i in simp_all)
  also have "take (Suc i) (es[i := ?e]) = take i es @ [?e]"
    using i Suc.prems(1) by (simp add: take_Suc_conv_app_nth)
  also have "drop i es = es ! i # drop (Suc i) es" using i Suc.prems(1) by (simp add: Cons_nth_drop_Suc)
  ultimately show ?case by (simp add: orphaned_def)
qed

lemma orphan_entries_ok: "length es = 32 \<Longrightarrow> orphan_entries fid 0 es = Inr (orphaned fid es)"
  using orphan_entries_from [of es 0 fid] by simp

context block_device begin

lemma delete_inode_ok:
  assumes st: "sfs_state ready nb tb T" "slock T = 1" and wf: "sfs_wf tb f W" and f: "blk (sdisk T) = f" and x: "(i, d) \<in> W"
  obtains T' bs where "delete_inode G (uint i) d T = Inr ((), T')" "sfs_state ready nb tb T'" "slock T' = 1"
    "openfile_lock T' = openfile_lock T" "kres T' = kres T" "open_files T' = (if d then orphaned (uint i) (open_files T) else open_files T)"
    "blk (sdisk T') = f(1 := bs)" "length bs = 512"
    "\<And>k. k < tb \<Longrightarrow> marked (f(1 := bs)) k \<longleftrightarrow> marked f k \<and> k \<notin> own f (i, d)"
proof -
  let ?T0 = "T\<lparr>slock := 0\<rparr>"
  have tb: "tb \<le> nb" "length (open_files T) = 32" using st(1) by (simp_all add: sfs_state_def)
  have small: "uint tb \<le> 4096" using sfs_wfD(2) [OF wf] by (simp add: word_le_def)
  have one: "(1 :: u32) < tb" "(1 :: u32) < nb"
  proof -
    show "(1 :: u32) < tb" by (rule less_le_trans [OF _ sfs_wfD(1) [OF wf]]) simp
    then show "(1 :: u32) < nb" using tb(1) by (rule less_le_trans)
  qed
  have i: "3 \<le> i" "i < tb" using own_range [OF wf x own_self] by blast+
  have inb: "i < nb" using i(2) tb(1) by (rule less_le_trans)
  have lt: "uint i < uint tb" using i(2) by (simp add: word_less_def)
  have l1: "length (f 1) = 512" by (rule sfs_wfD(3) [OF wf one(1)])
  have "sfs_state ready nb tb ?T0" using st by simp
  from read_sbat_ok [OF this one(2)] f obtain d1 where d1:
    "read_sbat G 1 ?T0 = Inr (1, ?T0\<lparr>sdisk := d1, sbuf_bat := f 1\<rparr>)" "blk d1 = f" "sfs_state ready nb tb (?T0\<lparr>sdisk := d1, sbuf_bat := f 1\<rparr>)"
    by auto
  have w1: "length (block_words (f 1)) = 128" by (simp add: l1)
  obtain bm where bm: "bitmap_set (block_words (f 1)) (uint i) 0 = Inr bm" "length bm = 128"
    "bm.taken bm (uint tb) = bm.taken (block_words (f 1)) (uint tb) - {uint i}"
    by (rule bitmap_clear [OF w1 small uint_ge_0 lt])
  let ?T1 = "?T0\<lparr>sdisk := d1, sbuf_bat := words_block bm\<rparr>"
  have s1: "sfs_state ready nb tb ?T1" using d1(3) bm(2) by (simp add: sfs_state_def del: words_block_simps)
  have bit: "marked (f(1 := words_block w)) k \<longleftrightarrow> uint k \<in> bm.taken w (uint tb)" if "k < tb" for k w
    using marked_taken [OF that, of "f(1 := words_block w)"] by simp
  have mem: "uint k \<in> uint ` S \<longleftrightarrow> k \<in> S" for k :: u32 and S by (auto dest: unsigned_word_eqI)
  show ?thesis
  proof (cases d)
    case True
    let ?T2 = "?T1\<lparr>open_files := orphaned (uint i) (open_files T)\<rparr>"
    have s2: "sfs_state ready nb tb ?T2" using s1 tb(2) by (simp add: sfs_state_def orphaned_def)
    have "length (words_block bm) = 512" using bm(2) by simp
    from swrite_ok [OF s2 one(2) this] d1(2) obtain d2 where d2: "swrite G 1 (words_block bm) ?T2 = Inr (1, ?T2\<lparr>sdisk := d2\<rparr>)"
      "blk d2 = f(1 := words_block bm)" "sfs_state ready nb tb (?T2\<lparr>sdisk := d2\<rparr>)" by auto
    have "delete_inode G (uint i) d T = Inr ((), V_slock (?T2\<lparr>sdisk := d2\<rparr>))"
      using st(2) d1(1) bm(1) True tb(2) d2(1)
      by (simp add: delete_inode_def SFS_ALLOCATION_BLOCK_def orphan_entries_ok write_sbat_def)
    moreover have "marked (f(1 := words_block bm)) k \<longleftrightarrow> marked f k \<and> k \<notin> own f (i, d)" if "k < tb" for k
      using bit [OF that] marked_taken [OF that, of f] bm(3) True by (auto dest: unsigned_word_eqI)
    ultimately show ?thesis
      using that [of "V_slock (?T2\<lparr>sdisk := d2\<rparr>)" "words_block bm"] d2 True bm(2) by simp
  next
    case False
    let ?v = "inode_of (f i)"
    from read_sinode_ok [OF s1 inb] d1(2) obtain d2 where d2: "read_sinode G i ?T1 = Inr (1, ?T1\<lparr>sdisk := d2, sbuf_inode := ?v\<rparr>)"
      "blk d2 = f" "sfs_state ready nb tb (?T1\<lparr>sdisk := d2, sbuf_inode := ?v\<rparr>)" by auto
    have v: "inode_ok tb ?v" using sfs_wfD(6) [OF wf x] False by simp
    have len: "length (block ?v) = 127" by (rule inode_of_length [OF sfs_wfD(3) [OF wf i(2)]])
    have n: "nblocks_of ?v \<le> 127" using v by (auto simp: inode_ok_def nblocks_of_def)
    from sfs_free_blocks_ok [OF bm(2) small len _ n, of 0] v n obtain bm2 where b2: "sfs_free_blocks (block ?v) 0 bm = Inr bm2"
      "length bm2 = 128" "bm.taken bm2 (uint tb) = bm.taken bm (uint tb) - uint ` set (file_blocks f i)"
      by (auto simp: inode_ok_def file_blocks_def)
    let ?T2 = "?T1\<lparr>sdisk := d2, sbuf_inode := ?v, sbuf_bat := words_block bm2\<rparr>"
    have s2: "sfs_state ready nb tb ?T2" using d2(3) b2(2) by (simp add: sfs_state_def del: words_block_simps)
    have "length (words_block bm2) = 512" using b2(2) by simp
    from swrite_ok [OF s2 one(2) this] d2(2) obtain d3 where d3: "swrite G 1 (words_block bm2) ?T2 = Inr (1, ?T2\<lparr>sdisk := d3\<rparr>)"
      "blk d3 = f(1 := words_block bm2)" "sfs_state ready nb tb (?T2\<lparr>sdisk := d3\<rparr>)" by auto
    have "delete_inode G (uint i) d T = Inr ((), V_slock (?T2\<lparr>sdisk := d3\<rparr>))"
      using st(2) d1(1) bm(1) False d2(1) b2(1) d3(1)
      by (simp add: delete_inode_def SFS_ALLOCATION_BLOCK_def write_sbat_def)
    moreover have "marked (f(1 := words_block bm2)) k \<longleftrightarrow> marked f k \<and> k \<notin> own f (i, d)" if "k < tb" for k
      using bit [OF that] marked_taken [OF that, of f] bm(3) b2(3) False mem by (auto dest: unsigned_word_eqI)
    ultimately show ?thesis
      using that [of "V_slock (?T2\<lparr>sdisk := d3\<rparr>)" "words_block bm2"] d3 False b2(2) by simp
  qed
qed

end

section \<open>Leaving an entry\<close>

text \<open>What others see of the table: how often a file is open, and whether it is a folder.\<close>

definition open_view :: "sfs_openfile_t list \<Rightarrow> u32 \<rightharpoonup> int \<times> bool" where
  "open_view es i = map_option (\<lambda>e. (times_opened e, is_folder e)) (opened es i)"

lemma orphaned_nth: "k < length es \<Longrightarrow> orphaned fid es ! k = (if parentid (es ! k) = fid then (es ! k)\<lparr>parentid := -1\<rparr> else es ! k)"
  by (simp add: orphaned_def)

lemma orphaned_sel:
  "k < length es \<Longrightarrow> fileid (orphaned fid es ! k) = fileid (es ! k)" "k < length es \<Longrightarrow> times_opened (orphaned fid es ! k) = times_opened (es ! k)"
  "k < length es \<Longrightarrow> is_folder (orphaned fid es ! k) = is_folder (es ! k)" "k < length es \<Longrightarrow> is_deleted (orphaned fid es ! k) = is_deleted (es ! k)"
  "length (orphaned fid es) = length es"
  by (simp_all add: orphaned_def)

lemma orphaned_table:
  assumes "table_ok tb es" shows "table_ok tb (orphaned fid es)"
proof -
  have "entry_wf tb (e\<lparr>parentid := -1\<rparr>)" if "entry_wf tb e" for e using that by (auto simp: entry_wf_def split: if_splits)
  then have "\<forall>e \<in> set (orphaned fid es). entry_wf tb e" using assms by (auto simp: orphaned_def table_ok_def)
  then show ?thesis using assms by (simp add: table_ok_def orphaned_sel)
qed

lemma orphaned_opened: "map_option times_opened (opened (orphaned fid es) j) = map_option times_opened (opened es j)"
  "map_option is_folder (opened (orphaned fid es) j) = map_option is_folder (opened es j)"
  unfolding opened_def by (induction es) (simp_all add: orphaned_def)

lemma orphaned_view: "open_view (orphaned fid es) = open_view es"
proof
  fix j
  show "open_view (orphaned fid es) j = open_view es j"
    using orphaned_opened [of fid es j] by (cases "opened es j"; cases "opened (orphaned fid es) j") (simp_all add: open_view_def)
qed

lemma orphaned_owners: "open_owners (orphaned fid es) = open_owners es"
proof -
  have "(\<exists>e \<in> set (orphaned fid es). fileid e = i \<and> is_folder e = d) \<longleftrightarrow> (\<exists>e \<in> set es. fileid e = i \<and> is_folder e = d)" for i d
    by (induction es) (auto simp: orphaned_def)
  then show ?thesis unfolding open_owners_def by auto
qed

lemma reset_entry_wf: "io_lock e = 1 \<Longrightarrow> entry_wf tb (sfs_reset_entry e)"
  by (simp add: entry_wf_def sfs_reset_entry_def)

lemma reset_sel [simp]: "fileid (sfs_reset_entry e) = -1" "io_lock (sfs_reset_entry e) = io_lock e"
  by (simp_all add: sfs_reset_entry_def)

lemma uint_not_minus [simp]: "uint (i :: u32) \<noteq> -1" "-1 \<noteq> uint (i :: u32)"
  using uint_ge_0 [of i] by linarith+

lemma open_owners_reset:
  assumes ok: "table_ok tb es" and k: "k < 32" "fileid (es ! k) = uint i" and e: "fileid e = -1"
  shows "open_owners (es[k := e]) = open_owners es - {(i, is_folder (es ! k))}"
proof -
  have len: "length es = 32" by (rule table_okD(1) [OF ok])
  have other: "x \<in> set es \<and> fileid x \<noteq> uint i" if "x \<in> set (es[k := e])" "fileid x = uint j" for x and j :: u32
  proof -
    from that(1) obtain m where m: "m < 32" "x = es[k := e] ! m" using len by (auto simp: in_set_conv_nth)
    have "m \<noteq> k" using m that(2) e k len uint_not_minus(1) [of j] by auto
    with m table_okD(3) [OF ok m(1) k(1)] k len that(2) show ?thesis by auto
  qed
  have kept: "x \<in> set (es[k := e])" if x: "x \<in> set es" "fileid x \<noteq> uint i" for x
  proof -
    from x(1) obtain m where "m < 32" "x = es ! m" using len by (auto simp: in_set_conv_nth)
    with x(2) k len nth_update_mem [of m es k e] show ?thesis by auto
  qed
  show ?thesis
  proof (intro set_eqI iffI)
    fix y assume "y \<in> open_owners (es[k := e])"
    then obtain j x where j: "y = (j, is_folder x)" "j \<noteq> 2" "x \<in> set (es[k := e])" "fileid x = uint j" by (auto simp: open_owners_def)
    with other [OF j(3,4)] show "y \<in> open_owners es - {(i, is_folder (es ! k))}" by (auto simp: open_owners_def)
  next
    fix y assume y: "y \<in> open_owners es - {(i, is_folder (es ! k))}"
    then obtain j x where j: "y = (j, is_folder x)" "j \<noteq> 2" "x \<in> set es" "fileid x = uint j" by (auto simp: open_owners_def)
    have "fileid x \<noteq> uint i"
    proof
      assume xi: "fileid x = uint i"
      from j(3) obtain m where m: "m < 32" "x = es ! m" using len by (auto simp: in_set_conv_nth)
      with table_okD(3) [OF ok m(1) k(1)] xi k(2) have "x = es ! k" by auto
      moreover have "j = i" using xi j(4) by (simp add: unsigned_word_eqI)
      ultimately show False using y j(1) by simp
    qed
    with kept [OF j(3)] j show "y \<in> open_owners (es[k := e])" by (auto simp: open_owners_def)
  qed
qed

lemma open_owners_update:
  assumes "k < length es" "fileid e = fileid (es ! k)" "is_folder e = is_folder (es ! k)"
  shows "open_owners (es[k := e]) = open_owners es"
proof -
  have "(\<exists>x \<in> set (es[k := e]). fileid x = uint i \<and> is_folder x = d) \<longleftrightarrow> (\<exists>x \<in> set es. fileid x = uint i \<and> is_folder x = d)" for i d
    using assms unfolding set_conv_nth by (auto simp: nth_list_update) metis+
  then show ?thesis unfolding open_owners_def by blast
qed

lemma linked_update:
  assumes ok: "linked_ok f es" and e: "fileid e = -1 \<or> k < length es \<and> fileid e = fileid (es ! k) \<and>
      is_folder e = is_folder (es ! k) \<and> is_deleted e = is_deleted (es ! k) \<and> parentid e = parentid (es ! k)"
  shows "linked_ok f (es[k := e])"
proof -
  have "\<not> is_deleted x \<and> is_folder x = is_dir p \<and> parentid x = parent_of f p"
    if "x \<in> set (es[k := e])" "elem_list_ok p" "walk f 2 p = Some i" "fileid x = uint i" for x p i
  proof (cases "x \<in> set es")
    case True
    with that ok show ?thesis by (simp add: linked_ok_def)
  next
    case False
    then have "x = e" using that(1) by (auto dest!: set_update_subset_insert [THEN subsetD])
    with e that(4) have x: "k < length es" "fileid (es ! k) = uint i" "is_folder x = is_folder (es ! k)" "is_deleted x = is_deleted (es ! k)"
      "parentid x = parentid (es ! k)" by auto
    then have "es ! k \<in> set es" by simp
    with ok that(2,3) x show ?thesis by (simp add: linked_ok_def)
  qed
  then show ?thesis by (simp add: linked_ok_def)
qed

end
