(* ===== verification/Sfs_calls.thy ===== *)
theory Sfs_calls
  imports Sfs_delete
begin

text \<open>
  Opening, closing and removing in the student filesystem: what entering and leaving an entry of the
  table of open files do, and that a removed file lives on until its last close.
\<close>

section \<open>The table after a close\<close>

lemma sfs_invD:
  assumes "sfs_inv ready blk nb tb T"
  shows "sfs_state ready nb tb T" "slock T = 1" "openfile_lock T = 1" "table_ok tb (open_files T)"
    "linked_ok (blk (sdisk T)) (open_files T)" "sfs_wf tb (blk (sdisk T)) (tree_owners (blk (sdisk T)) \<union> open_owners (open_files T))"
  using assms by (simp_all add: sfs_inv_def)

lemma open_viewI: "opened es i = Some e \<Longrightarrow> open_view es i = Some (times_opened e, is_folder e)"
  by (simp add: open_view_def)

lemma view_update:
  assumes ok: "table_ok tb es" and k: "k < 32" "fileid (es ! k) = uint i" and ok': "table_ok tb (es[k := e])"
    and e: "fileid e = uint i \<or> fileid e = -1"
  shows "open_view (es[k := e]) = (open_view es)(i := if fileid e = -1 then None else Some (times_opened e, is_folder e))"
proof
  fix j
  show "open_view (es[k := e]) j = ((open_view es)(i := if fileid e = -1 then None else Some (times_opened e, is_folder e))) j"
    using opened_update [OF ok k(1) ok', of j] k(2) e uint_not_minus [of j] uint_not_minus [of i]
    by (cases "j = i") (auto simp: open_view_def dest: unsigned_word_eqI)
qed

lemma table_entry:
  assumes "table_ok tb es" "k < 32" "fileid (es ! k) = uint i"
  shows "entry_wf tb (es ! k)" "io_lock (es ! k) = 1" "1 \<le> times_opened (es ! k)" "2 \<le> i" "i < tb" "es ! k \<in> set es"
proof -
  show m: "es ! k \<in> set es" using assms(2) table_okD(1) [OF assms(1)] by simp
  show e: "entry_wf tb (es ! k)" by (rule table_okD(2) [OF assms(1) m])
  have "uint i \<noteq> -1" by simp
  then show "io_lock (es ! k) = 1" "1 \<le> times_opened (es ! k)" "2 \<le> i" "i < tb"
    using e assms(3) by (simp_all add: entry_wf_def word_le_def word_less_def)
qed

lemma linked_named:
  assumes "linked_ok f es" "e \<in> set es" "fileid e = uint i" "is_deleted e" "elem_list_ok p"
  shows "walk f 2 p \<noteq> Some i"
  using assms by (auto simp: linked_ok_def)

lemma elem_list_ok_butlast: "elem_list_ok p \<Longrightarrow> elem_list_ok (butlast p)"
  using elem_list_ok_snoc [of "butlast p" "last p"] by (cases "p = []") simp_all

lemma linked_orphaned:
  fixes i :: u32
  assumes ok: "linked_ok f es" and x: "x \<in> set es" "fileid x = uint i" "is_deleted x"
    and inj: "\<And>p. elem_list_ok p \<Longrightarrow> p \<noteq> [] \<Longrightarrow> walk f 2 p \<noteq> None \<Longrightarrow> walk f 2 (butlast p) \<noteq> None"
  shows "linked_ok f (orphaned (uint i) es)"
  unfolding linked_ok_def
proof (intro ballI allI impI)
  fix e p j assume e: "e \<in> set (orphaned (uint i) es)" and p: "elem_list_ok p" "walk f 2 p = Some j" "fileid e = uint j"
  from e obtain y where y: "y \<in> set es" "e = (if parentid y = uint i then y\<lparr>parentid := -1\<rparr> else y)"
    by (auto simp: orphaned_def)
  then have fy: "fileid y = uint j" "is_folder e = is_folder y" "is_deleted e = is_deleted y" using p(3) by (auto split: if_splits)
  have l: "\<not> is_deleted y \<and> is_folder y = is_dir p \<and> parentid y = parent_of f p" using ok y(1) p(1,2) fy(1) by (simp add: linked_ok_def)
  have "parentid y \<noteq> uint i"
  proof
    assume "parentid y = uint i"
    with l have par: "parent_of f p = uint i" by simp
    then have ne: "p \<noteq> []" using uint_not_minus [of i] by (auto simp: parent_of_def)
    with inj [OF p(1) ne] p(2) obtain d where d: "walk f 2 (butlast p) = Some d" by auto
    with par ne have "d = i" by (simp add: parent_of_def unsigned_word_eqI)
    moreover have "elem_list_ok (butlast p)" by (rule elem_list_ok_butlast [OF p(1)])
    ultimately show False using linked_named [OF ok x] d by blast
  qed
  with l y(2) show "\<not> is_deleted e \<and> is_folder e = is_dir p \<and> parentid e = parent_of f p" by simp
qed

lemma walk_butlast: "p \<noteq> [] \<Longrightarrow> walk f i p \<noteq> None \<Longrightarrow> walk f i (butlast p) \<noteq> None"
  using walk_snoc [of f i "butlast p" "last p"] by (auto split: option.splits)

lemma linked_cong:
  assumes "linked_ok f es" "\<And>q. elem_list_ok q \<Longrightarrow> walk g 2 q = walk f 2 q"
  shows "linked_ok g es"
proof -
  have "parent_of g p = parent_of f p" if "elem_list_ok p" for p
    using assms(2) [OF elem_list_ok_butlast [OF that]] by (simp add: parent_of_def)
  with assms show ?thesis by (simp add: linked_ok_def)
qed

text \<open>Giving the entry of a file back.\<close>

lemma reset_table:
  assumes ok: "table_ok tb es" and k: "k < 32" "fileid (es ! k) = uint i"
  shows "table_ok tb (es[k := sfs_reset_entry (es ! k)])"
    "open_view (es[k := sfs_reset_entry (es ! k)]) = (open_view es)(i := None)"
    "open_owners (es[k := sfs_reset_entry (es ! k)]) = open_owners es - {(i, is_folder (es ! k))}"
proof -
  show t: "table_ok tb (es[k := sfs_reset_entry (es ! k)])"
    by (rule table_update [OF ok k(1) reset_entry_wf]) (simp_all add: table_entry [OF ok k])
  show "open_view (es[k := sfs_reset_entry (es ! k)]) = (open_view es)(i := None)" using view_update [OF ok k t] by simp
  show "open_owners (es[k := sfs_reset_entry (es ! k)]) = open_owners es - {(i, is_folder (es ! k))}"
    by (rule open_owners_reset [OF ok k]) simp
qed

lemma reset_orphaned: "k < length es \<Longrightarrow> sfs_reset_entry (orphaned fid es ! k) = sfs_reset_entry (es ! k)"
  by (simp add: orphaned_def sfs_reset_entry_def)

lemma orphaned_update: "orphaned fid (es[k := e]) = (orphaned fid es)[k := if parentid e = fid then e\<lparr>parentid := -1\<rparr> else e]"
  by (simp add: orphaned_def map_update)

section \<open>Leaving an entry\<close>

text \<open>The volume after the blocks of a node without a name have been freed.\<close>

lemma wf_released:
  assumes wf: "sfs_wf tb f W" and x: "x \<in> W" "x \<notin> tree_owners f" and len: "length bs = 512"
    and mk: "\<And>k. k < tb \<Longrightarrow> marked (f(1 := bs)) k \<longleftrightarrow> marked f k \<and> k \<notin> own f x"
  shows "sfs_wf tb (f(1 := bs)) (W - {x})" "\<And>q. elem_list_ok q \<Longrightarrow> walk (f(1 := bs)) 2 q = walk f 2 q"
    "tree_owners (f(1 := bs)) = tree_owners f"
proof -
  let ?g = "f(1 := bs)"
  have "fst y \<noteq> 1" if "y \<in> W" for y
    using own_range(1) [OF wf that own_self [of "fst y" f "snd y", simplified]] by (auto simp: word_le_def)
  then have fr: "frame f ?g W" by (simp add: frame_def)
  then have fr': "frame f ?g (W - {x})" by (simp add: frame_def)
  note w = frame_walk [OF wf fr]
  show "walk ?g 2 q = walk f 2 q" if "elem_list_ok q" for q by (rule w [OF that])
  show "tree_owners ?g = tree_owners f" by (rule tree_owners_cong) (rule w)
  have sub: "sfs_wf tb f (W - {x})" by (rule sfs_wf_sub [OF wf]) (use sfs_wfD(5) [OF wf] x(2) in blast)+
  show "sfs_wf tb ?g (W - {x})"
  proof (rule wf_frame [OF sub fr'])
    fix b assume "b < tb" then show "length (?g b) = 512" using sfs_wfD(3) [OF wf] len by simp
  next
    fix k assume k: "k < tb" "k < 3 \<or> (\<exists>y \<in> W - {x}. k \<in> own f y)"
    have "k \<notin> own f x" "marked f k"
    proof -
      show "k \<notin> own f x" using k(2) own_range(1) [OF wf x(1), of k] sfs_wfD(7) [OF wf _ x(1)] by (auto simp: not_le)
      show "marked f k" using k sfs_wfD(9,10) [OF wf] by blast
    qed
    with mk [OF k(1)] show "marked ?g k" by simp
  qed
qed

context block_device begin

lemma exit_keep:
  fixes i :: u32
  assumes inv: "sfs_inv ready blk nb tb T" and k: "k < 32" "fileid (open_files T ! k) = uint i"
  shows "sfs_exit G (int k) False T = Inr T"
proof -
  note t = sfs_invD [OF inv]
  have len: "length (open_files T) = 32" by (rule table_okD(1) [OF t(4)])
  have "times_opened (open_files T ! k) \<noteq> 0" using table_entry(3) [OF t(4) k] by simp
  then show ?thesis
    using t(3) len k(1) relock [OF t(3)]
    by (simp add: sfs_exit_def acquire_open_def release_open_def set_entry_ok Let_def)
qed

lemma exit_more:
  assumes inv: "sfs_inv ready blk nb tb T" and k: "k < 32" "fileid (open_files T ! k) = uint i" and n: "times_opened (open_files T ! k) \<noteq> 1"
  obtains T' where "sfs_exit G (int k) True T = Inr T'" "sfs_inv ready blk nb tb T'" "sdisk T' = sdisk T" "kres T' = kres T"
    "open_view (open_files T') = (open_view (open_files T))(i \<mapsto> (times_opened (open_files T ! k) - 1, is_folder (open_files T ! k)))"
    "opened (open_files T') i = Some ((open_files T ! k)\<lparr>times_opened := times_opened (open_files T ! k) - 1\<rparr>)"
proof -
  note t = sfs_invD [OF inv]
  let ?es = "open_files T" let ?e = "?es ! k" let ?e' = "?e\<lparr>times_opened := times_opened ?e - 1\<rparr>"
  let ?T = "T\<lparr>open_files := ?es[k := ?e']\<rparr>"
  have len: "length ?es = 32" by (rule table_okD(1) [OF t(4)])
  note e = table_entry [OF t(4) k]
  have run: "sfs_exit G (int k) True T = Inr ?T"
    using t(3) len k(1) n e(3) relock [OF t(3)]
    by (simp add: sfs_exit_def acquire_open_def release_open_def set_entry_ok Let_def)
  have ok: "table_ok tb (?es[k := ?e'])"
    by (rule table_update [OF t(4) k(1)]) (use e(1,3) n k(2) in \<open>simp_all add: entry_wf_def\<close>)
  have own: "open_owners (?es[k := ?e']) = open_owners ?es" using k len by (intro open_owners_update) simp_all
  have lk: "linked_ok (blk (sdisk T)) (?es[k := ?e'])" by (rule linked_update [OF t(5)]) (use k len in simp)
  have "sfs_inv ready blk nb tb ?T" using t ok own lk len by (simp add: sfs_inv_def sfs_state_def)
  then show ?thesis using that [OF run] view_update [OF t(4) k ok] opened_update [OF t(4) k(1) ok, of i] k(2) by simp
qed

end

context block_device begin

lemma exit_last_kept:
  assumes inv: "sfs_inv ready blk nb tb T" and k: "k < 32" "fileid (open_files T ! k) = uint i"
    and n: "times_opened (open_files T ! k) = 1" "\<not> is_deleted (open_files T ! k)"
  obtains T' where "sfs_exit G (int k) True T = Inr T'" "sfs_inv ready blk nb tb T'" "sdisk T' = sdisk T" "kres T' = kres T"
    "open_view (open_files T') = (open_view (open_files T))(i := None)"
proof -
  note t = sfs_invD [OF inv]
  let ?es = "open_files T" let ?f = "blk (sdisk T)"
  let ?es' = "?es[k := sfs_reset_entry (?es ! k)]"
  let ?T = "T\<lparr>open_files := ?es'\<rparr>"
  have len: "length ?es = 32" by (rule table_okD(1) [OF t(4)])
  have "sfs_reset_entry ((?es ! k)\<lparr>times_opened := 0\<rparr>) = sfs_reset_entry (?es ! k)" by (simp add: sfs_reset_entry_def)
  then have run: "sfs_exit G (int k) True T = Inr ?T"
    using t(3) len k(1) n relock [OF t(3)]
    by (simp add: sfs_exit_def acquire_open_def release_open_def set_entry_ok Let_def)
  note r = reset_table [OF t(4) k]
  have lk: "linked_ok ?f ?es'" by (rule linked_update [OF t(5)]) simp
  have wf: "sfs_wf tb ?f (tree_owners ?f \<union> open_owners ?es')"
    by (rule sfs_wf_sub [OF t(6)]) (use r(3) in auto)
  have "sfs_inv ready blk nb tb ?T" using t r(1) wf lk len by (simp add: sfs_inv_def sfs_state_def)
  then show ?thesis using that [OF run] r(2) by simp
qed

lemma exit_last_deleted:
  assumes inv: "sfs_inv ready blk nb tb T" and k: "k < 32" "fileid (open_files T ! k) = uint i"
    and n: "times_opened (open_files T ! k) = 1" "is_deleted (open_files T ! k)"
  obtains T' bs where "sfs_exit G (int k) True T = Inr T'" "sfs_inv ready blk nb tb T'" "blk (sdisk T') = (blk (sdisk T))(1 := bs)"
    "kres T' = kres T" "open_view (open_files T') = (open_view (open_files T))(i := None)"
    "\<And>q. elem_list_ok q \<Longrightarrow> walk (blk (sdisk T')) 2 q = walk (blk (sdisk T)) 2 q"
    "\<And>b. b < tb \<Longrightarrow> marked (blk (sdisk T')) b \<longleftrightarrow> marked (blk (sdisk T)) b \<and> b \<notin> own (blk (sdisk T)) (i, is_folder (open_files T ! k))"
proof -
  note t = sfs_invD [OF inv]
  let ?es = "open_files T" let ?f = "blk (sdisk T)" let ?d = "is_folder (?es ! k)" let ?W = "tree_owners ?f \<union> open_owners ?es"
  let ?e1 = "(?es ! k)\<lparr>times_opened := 0\<rparr>" let ?es1 = "?es[k := ?e1]"
  let ?T1 = "T\<lparr>openfile_lock := 0, open_files := ?es1\<rparr>"
  have len: "length ?es = 32" by (rule table_okD(1) [OF t(4)])
  note e = table_entry [OF t(4) k]
  have no: "walk ?f 2 p \<noteq> Some i" if "elem_list_ok p" for p by (rule linked_named [OF t(5) e(6) k(2) n(2) that])
  then have "i \<noteq> 2" using no [of "[]"] by auto
  then have x: "(i, ?d) \<in> open_owners ?es" using e(6) k(2) by (auto simp: open_owners_def)
  have nt: "(i, ?d) \<notin> tree_owners ?f" using no by (auto simp: tree_owners_def)
  have st: "sfs_state ready nb tb ?T1" "slock ?T1 = 1" "blk (sdisk ?T1) = ?f" using t(1,2) len by (simp_all add: sfs_state_def)
  from x have xW: "(i, ?d) \<in> ?W" by simp
  obtain T2 bs where d: "delete_inode G (uint i) ?d ?T1 = Inr ((), T2)" "sfs_state ready nb tb T2" "slock T2 = 1"
    "openfile_lock T2 = openfile_lock ?T1" "kres T2 = kres ?T1" "open_files T2 = (if ?d then orphaned (uint i) (open_files ?T1) else open_files ?T1)"
    "blk (sdisk T2) = ?f(1 := bs)" "length bs = 512"
    "\<And>k. k < tb \<Longrightarrow> marked (?f(1 := bs)) k \<longleftrightarrow> marked ?f k \<and> k \<notin> own ?f (i, ?d)"
    by (rule delete_inode_ok [OF st(1,2) t(6) st(3) xW]) (rule that)
  define es0 where "es0 = (if ?d then orphaned (uint i) ?es else ?es)"
  have es0: "length es0 = 32" "table_ok tb es0" "open_owners es0 = open_owners ?es" "open_view es0 = open_view ?es"
      "fileid (es0 ! k) = uint i" "is_folder (es0 ! k) = ?d"
    using t(4) len k by (simp_all add: es0_def orphaned_sel orphaned_table orphaned_owners orphaned_view)
  have l0: "linked_ok ?f es0"
    using linked_orphaned [OF t(5) e(6) k(2) n(2) walk_butlast] t(5) by (simp add: es0_def)
  have len2: "length (open_files T2) = 32" using d(6) len by (simp add: orphaned_sel)
  let ?r = "sfs_reset_entry (es0 ! k)"
  have "sfs_reset_entry ?e1 = sfs_reset_entry (?es ! k)" by (simp add: sfs_reset_entry_def)
  then have fin: "(open_files T2)[k := sfs_reset_entry (open_files T2 ! k)] = es0[k := ?r]"
    using d(6) len k(1) by (simp add: es0_def reset_orphaned orphaned_update orphaned_sel orphaned_nth sfs_reset_entry_def)
  let ?T' = "T2\<lparr>open_files := es0[k := ?r], openfile_lock := 1\<rparr>"
  have run: "sfs_exit G (int k) True T = Inr ?T'"
    using t(3) len k n d(1,4) len2 fin
    by (simp add: sfs_exit_def acquire_open_def release_open_def set_entry_ok Let_def)
  note r = reset_table [OF es0(2) k(1) es0(5)]
  note v = wf_released [OF t(6) xW nt d(8,9)]
  have W: "?W - {(i, ?d)} = tree_owners (?f(1 := bs)) \<union> open_owners (es0[k := ?r])"
    using v(3) r(3) es0(3,6) nt by auto
  have "linked_ok ?f (es0[k := ?r])" by (rule linked_update [OF l0]) simp
  then have "linked_ok (?f(1 := bs)) (es0[k := ?r])"
    using v(2) by (rule linked_cong)
  then have "sfs_inv ready blk nb tb ?T'"
    using d(2,3,7) r(1) v(1) es0(1) unfolding W by (simp add: sfs_inv_def sfs_state_def)
  then show ?thesis using that [OF run, of bs] d(5,7,9) r(2) v(2) es0(4) by simp
qed

end

section \<open>Entering an entry\<close>

text \<open>The table is full when 32 files are open.\<close>

lemma dom_open_view: "dom (open_view es) = dom (opened es)"
  by (auto simp: open_view_def)

lemma entry_id:
  assumes "entry_wf tb e" "fileid e \<noteq> -1"
  shows "uint (word_of_int (fileid e) :: u32) = fileid e"
  using assms uint_lt [of tb] by (simp add: entry_wf_def word_uint_eq_iff uint_of_int)

lemma table_full:
  assumes ok: "table_ok tb es"
  shows "card (dom (open_view es)) = 32 \<longleftrightarrow> (\<forall>e \<in> set es. fileid e \<noteq> -1)"
proof -
  let ?J = "{k. k < 32 \<and> fileid (es ! k) \<noteq> -1}" let ?h = "\<lambda>k. word_of_int (fileid (es ! k)) :: u32"
  have len: "length es = 32" by (rule table_okD(1) [OF ok])
  have id: "uint (?h k) = fileid (es ! k)" if "k \<in> ?J" for k
    using that len table_okD(2) [OF ok, of "es ! k"] by (intro entry_id [of tb]) auto
  have inj: "inj_on ?h ?J"
  proof (rule inj_onI)
    fix j k assume j: "j \<in> ?J" and k: "k \<in> ?J" and e: "?h j = ?h k"
    from id [OF j] id [OF k] e have "fileid (es ! j) = fileid (es ! k)" by (metis (lifting))
    with table_okD(3) [OF ok, of j k] j k show "j = k" by simp
  qed
  have "dom (open_view es) = ?h ` ?J"
  proof (intro set_eqI iffI)
    fix i assume "i \<in> dom (open_view es)"
    then obtain e where "opened es i = Some e" by (auto simp: dom_open_view)
    from opened_Some [OF this] obtain k where "k < 32" "fileid (es ! k) = uint i" using len by auto
    then show "i \<in> ?h ` ?J" by (intro image_eqI [of _ _ k]) simp_all
  next
    fix i assume "i \<in> ?h ` ?J"
    then obtain k where k: "k \<in> ?J" "i = ?h k" by blast
    then have "fileid (es ! k) = uint i" using id by simp
    with opened_at [OF ok, of k i] k(1) show "i \<in> dom (open_view es)" by (simp add: dom_open_view domI)
  qed
  then have c: "card (dom (open_view es)) = card ?J" using card_image [OF inj] by simp
  have "card ?J = 32 \<longleftrightarrow> ?J = {..<32}"
  proof
    assume "card ?J = 32"
    moreover have "?J \<subseteq> {..<32}" by auto
    ultimately show "?J = {..<32}" using card_subset_eq [of "{..<32}" ?J] by simp
  next
    assume "?J = {..<32}"
    then show "card ?J = 32" by (simp only: card_lessThan)
  qed
  also have "\<dots> \<longleftrightarrow> (\<forall>k < 32. fileid (es ! k) \<noteq> -1)" by blast
  also have "\<dots> \<longleftrightarrow> (\<forall>e \<in> set es. fileid e \<noteq> -1)" by (simp only: all_set_conv_all_nth len)
  finally show ?thesis using c by simp
qed

lemma open_owners_add:
  assumes "k < length es" "fileid (es ! k) = -1" "fileid e = uint i"
  shows "open_owners (es[k := e]) = open_owners es \<union> (if i = 2 then {} else {(i, is_folder e)})"
proof -
  have "x \<in> set (es[k := e]) \<and> fileid x = uint j \<longleftrightarrow> x \<in> set es \<and> fileid x = uint j \<or> x = e \<and> j = i" for x and j :: u32
  proof (cases "x = e")
    case True
    then show ?thesis using assms set_update_memI [OF assms(1), of e] by (auto dest: unsigned_word_eqI)
  next
    case False
    have "x \<in> set (es[k := e]) \<longleftrightarrow> x \<in> set es" if "fileid x = uint j"
    proof
      assume "x \<in> set (es[k := e])"
      with False show "x \<in> set es" by (auto dest!: set_update_subset_insert [THEN subsetD])
    next
      assume "x \<in> set es"
      then obtain m where m: "m < length es" "x = es ! m" by (auto simp: in_set_conv_nth)
      then have "m \<noteq> k" using that assms(2) uint_not_minus [of j] by auto
      with m show "x \<in> set (es[k := e])" using nth_update_mem [of m es k e] by auto
    qed
    then show ?thesis using False by auto
  qed
  then show ?thesis unfolding open_owners_def by auto
qed

lemma linked_add:
  assumes ok: "linked_ok f es" and e: "fileid e = uint i" "\<not> is_deleted e" "is_folder e = is_dir p" "parentid e = parent_of f p"
    and p: "elem_list_ok p" "walk f 2 p = Some i"
    and inj: "\<And>p q i. elem_list_ok p \<Longrightarrow> elem_list_ok q \<Longrightarrow> walk f 2 p = Some i \<Longrightarrow> walk f 2 q = Some i \<Longrightarrow> p = q"
  shows "linked_ok f (es[k := e])"
  unfolding linked_ok_def
proof (intro ballI allI impI)
  fix x q j assume x: "x \<in> set (es[k := e])" and q: "elem_list_ok q" "walk f 2 q = Some j" "fileid x = uint j"
  show "\<not> is_deleted x \<and> is_folder x = is_dir q \<and> parentid x = parent_of f q"
  proof (cases "x \<in> set es")
    case True
    with ok q show ?thesis by (simp add: linked_ok_def)
  next
    case False
    then have "x = e" using x by (auto dest!: set_update_subset_insert [THEN subsetD])
    then have "j = i" using q(3) e(1) by (simp add: word_uint_eq_iff)
    with inj [OF p(1) q(1) p(2)] q(2) have "q = p" by simp
    with e \<open>x = e\<close> show ?thesis by simp
  qed
qed

context block_device begin

lemma sfs_enter_eq:
  assumes inv: "sfs_inv ready blk nb tb T"
  obtains (hit) k where "sfs_enter G (uint i) T = Inr (Some (int k), T)" "k < 32" "fileid (open_files T ! k) = uint i"
      "open_view (open_files T) i = Some (times_opened (open_files T ! k), is_folder (open_files T ! k))"
    | (none) "sfs_enter G (uint i) T = Inr (None, T)" "open_view (open_files T) i = None"
proof (cases rule: find_entry_cases [OF sfs_invD(4) [OF inv], of i])
  note t = sfs_invD [OF inv]
  have len: "length (open_files T) = 32" by (rule table_okD(1) [OF t(4)])
  note d = sfs_enter_def sfs_enter_ext_def acquire_open_def release_open_def set_entry_ok Let_def
  {
    case (1 k)
    then show ?thesis using that(1) [of k] t(3) len relock [OF t(3)] by (simp add: d open_viewI)
  next
    case (2 k)
    then show ?thesis using that(2) t(3) len relock [OF t(3)] by (simp add: d open_view_def)
  next
    case 3
    then show ?thesis using that(2) t(3) relock [OF t(3)] by (simp add: d open_view_def)
  }
qed

end

text \<open>The state with the entry of a node entered once more.\<close>

definition enter_entry :: "int \<Rightarrow> int \<Rightarrow> bool \<Rightarrow> sfs_openfile_t \<Rightarrow> sfs_openfile_t" where
  "enter_entry fid par d e =
     (let e = (if fileid e = -1 then e\<lparr>fileid := fid, parentid := par, is_folder := d\<rparr> else e) in e\<lparr>times_opened := times_opened e + 1\<rparr>)"

lemma entered_inv:
  assumes inv: "sfs_inv ready blk nb tb T" and p: "elem_list_ok p" "walk (blk (sdisk T)) 2 p = Some i" and k: "k < 32"
    and c: "fileid (open_files T ! k) = uint i \<or> fileid (open_files T ! k) = -1 \<and> opened (open_files T) i = None"
    and e: "e = enter_entry (uint i) (parent_of (blk (sdisk T)) p) (is_dir p) (open_files T ! k)"
  shows "sfs_inv ready blk nb tb (T\<lparr>open_files := (open_files T)[k := e]\<rparr>)"
    "fileid e = uint i" "parentid e = parent_of (blk (sdisk T)) p" "is_folder e = is_dir p" "\<not> is_deleted e"
    "times_opened e = (case open_view (open_files T) i of None \<Rightarrow> 1 | Some (n, d) \<Rightarrow> n + 1)"
    "open_view ((open_files T)[k := e]) = (open_view (open_files T))(i \<mapsto> (times_opened e, is_dir p))"
proof -
  note t = sfs_invD [OF inv]
  let ?es = "open_files T" let ?f = "blk (sdisk T)"
  have len: "length ?es = 32" by (rule table_okD(1) [OF t(4)])
  have mem: "?es ! k \<in> set ?es" using k len by simp
  note wf = table_okD(2) [OF t(4) mem]
  have i: "2 \<le> i" "i < tb" using walk_node [OF t(6) p] by (simp_all add: word_le_def)
  have hit: "\<not> is_deleted (?es ! k) \<and> is_folder (?es ! k) = is_dir p \<and> parentid (?es ! k) = parent_of ?f p" if "fileid (?es ! k) = uint i"
    using t(5) mem p that by (simp add: linked_ok_def)
  show f: "fileid e = uint i" "parentid e = parent_of ?f p" "is_folder e = is_dir p" "\<not> is_deleted e"
    using c hit wf uint_not_minus [of i] by (auto simp: e enter_entry_def entry_wf_def Let_def)
  show n: "times_opened e = (case open_view ?es i of None \<Rightarrow> 1 | Some (n, d) \<Rightarrow> n + 1)"
  proof (cases "fileid (?es ! k) = uint i")
    case True
    then show ?thesis using opened_at [OF t(4) k True] uint_not_minus [of i] by (simp add: open_view_def e enter_entry_def Let_def)
  next
    case False
    then show ?thesis using c wf by (simp add: open_view_def e enter_entry_def Let_def entry_wf_def)
  qed
  have ewf: "entry_wf tb e"
    using wf c i uint_not_minus [of i] by (auto simp: e enter_entry_def Let_def entry_wf_def word_le_def word_less_def)
  have ok: "table_ok tb (?es[k := e])"
    by (rule table_update [OF t(4) k ewf]) (use c f(1) in \<open>auto simp: opened_None\<close>)
  show "open_view (?es[k := e]) = (open_view ?es)(i \<mapsto> (times_opened e, is_dir p))"
  proof
    fix j
    show "open_view (?es[k := e]) j = ((open_view ?es)(i \<mapsto> (times_opened e, is_dir p))) j"
      using opened_update [OF t(4) k ok, of j] f c uint_not_minus [of j]
      by (cases "j = i") (auto simp: open_view_def dest: unsigned_word_eqI)
  qed
  have lk: "linked_ok ?f (?es[k := e])" by (rule linked_add [OF t(5) f(1,4,3,2) p sfs_wfD(8) [OF t(6)]])
  have own: "tree_owners ?f \<union> open_owners (?es[k := e]) = tree_owners ?f \<union> open_owners ?es"
  proof (cases "fileid (?es ! k) = uint i")
    case True
    then show ?thesis using open_owners_update [of k ?es e] k len f hit by simp
  next
    case False
    have "i \<noteq> 2 \<Longrightarrow> (i, is_dir p) \<in> tree_owners ?f" using tree_ownerI [OF p(1) _ p(2)] p(2) by (cases "p = []") auto
    then show ?thesis using open_owners_add [of k ?es e i] False c k len f by auto
  qed
  show "sfs_inv ready blk nb tb (T\<lparr>open_files := ?es[k := e]\<rparr>)" using t ok lk own len by (simp add: sfs_inv_def sfs_state_def)
qed

end
