(* ===== verification/Sfs_remove.thy ===== *)
theory Sfs_remove
  imports Sfs_calls
begin

text \<open>
  Taking a name out of a folder, and the calls \<open>sfs_open\<close>, \<open>sfs_close\<close> and \<open>sfs_remove\<close> as a whole.
\<close>

section \<open>Clearing a directory entry\<close>

lemma option_eqI: "(\<And>z. x = Some z \<longleftrightarrow> y = Some z) \<Longrightarrow> x = y"
  by (cases x; cases y) auto

definition cleared :: "u32 \<Rightarrow> tfs_direntry_t \<Rightarrow> tfs_direntry_t" where
  "cleared i e = (if inode e = i then e\<lparr>inode := 0, name := (name e)[0 := 0]\<rparr> else e)"

lemma sint_eq_small: "uint (i :: u32) < 4096 \<Longrightarrow> sint w = uint i \<longleftrightarrow> w = i"
proof -
  assume "uint i < 4096"
  then have "sint i = uint i" by (intro sint_small) simp
  then show ?thesis by (metis signed_word_eqI)
qed

lemma clear_entries_from:
  assumes i: "uint (i :: u32) < 4096" and "length md = 25" "\<forall>e \<in> set md. length (name e) = 16" "n \<le> 25"
  shows "clear_entries (uint i) (int n) md = Inr (take n md @ map (cleared i) (drop n md))"
  using assms(2-)
proof (induction "25 - n" arbitrary: n md)
  case 0
  then show ?case by (subst clear_entries.simps) (simp add: sfs_sizes)
next
  case (Suc r)
  then have n: "n < 25" "r = 25 - Suc n" by simp_all
  let ?e = "md ! n"
  have mem: "length (name ?e) = 16" using Suc.prems(1,2) n(1) by simp
  have "clear_entries (uint i) (int n) md = clear_entries (uint i) (int (Suc n)) (md[n := cleared i ?e])"
    using n Suc.prems(1) mem sint_eq_small [OF i, of "inode ?e"]
    by (subst clear_entries.simps) (simp add: sfs_sizes cleared_def add.commute)
  also have "\<dots> = Inr (take (Suc n) (md[n := cleared i ?e]) @ map (cleared i) (drop (Suc n) (md[n := cleared i ?e])))"
  proof (rule Suc.hyps(1) [OF n(2)])
    show "\<forall>e \<in> set (md[n := cleared i ?e]). length (name e) = 16"
      using Suc.prems(2) mem by (auto dest!: set_update_subset_insert [THEN subsetD] simp: cleared_def)
  qed (use Suc.prems(1) n in simp_all)
  also have "take (Suc n) (md[n := cleared i ?e]) = take n md @ [cleared i ?e]"
    using n Suc.prems(1) by (simp add: take_Suc_conv_app_nth)
  also have "drop n md = ?e # drop (Suc n) md" using n Suc.prems(1) by (simp add: Cons_nth_drop_Suc)
  ultimately show ?case by simp
qed

text \<open>The block of a folder from which the entries of a node have been taken.\<close>

definition unlinked :: "u32 \<Rightarrow> byte list \<Rightarrow> byte list" where
  "unlinked i bs = of_dir (map (cleared i) (dir_of bs)) @ drop 500 bs"

lemma cleared_name: "length (name (cleared i e)) = length (name e)"
  by (simp add: cleared_def)

lemma unlinked_used:
  assumes "length bs = 512" "i \<noteq> 0"
  shows "dir_of (unlinked i bs) = map (cleared i) (dir_of bs)" "length (unlinked i bs) = 512"
    "dir_used (unlinked i bs) = filter (\<lambda>e. inode e \<noteq> i) (dir_used bs)"
proof -
  have nm: "length (name e) = 16" if "e \<in> set (map (cleared i) (dir_of bs))" for e
    using that dir_of_name [OF assms(1)] by (auto simp: cleared_name)
  show d: "dir_of (unlinked i bs) = map (cleared i) (dir_of bs)" unfolding unlinked_def by (rule dir_of_dir) (use nm in auto)
  show "length (unlinked i bs) = 512" using of_dir_length [of "map (cleared i) (dir_of bs)", OF nm] assms(1) by (simp add: unlinked_def)
  have "filter (\<lambda>e. inode e \<noteq> 0) (map (cleared i) xs) = filter (\<lambda>e. inode e \<noteq> i) (filter (\<lambda>e. inode e \<noteq> 0) xs)" for xs
    using assms(2) by (induction xs) (auto simp: cleared_def)
  then show "dir_used (unlinked i bs) = filter (\<lambda>e. inode e \<noteq> i) (dir_used bs)" by (simp add: dir_used_def d)
qed

lemma unlinked_ok:
  assumes ok: "dir_ok bs" and x: "dir_lookup bs x = Some i" and un: "\<And>y. dir_lookup bs y = Some i \<Longrightarrow> y = x"
  shows "dir_ok (unlinked i bs)" "dir_lookup (unlinked i bs) = (dir_lookup bs)(x := None)"
proof -
  have i: "i \<noteq> 0" using dir_lookup_shape [OF ok x] by simp
  have len: "length bs = 512" using ok by (simp add: dir_ok_def)
  note u = unlinked_used [OF len i]
  show ok': "dir_ok (unlinked i bs)"
    using ok u(2,3) by (auto simp: dir_ok_def distinct_map_filter)
  show "dir_lookup (unlinked i bs) = (dir_lookup bs)(x := None)"
  proof
    fix y
    show "dir_lookup (unlinked i bs) y = ((dir_lookup bs)(x := None)) y"
    proof (rule option_eqI)
      fix j
      have "dir_lookup (unlinked i bs) y = Some j \<longleftrightarrow> dir_lookup bs y = Some j \<and> j \<noteq> i"
        unfolding dir_lookup_Some [OF ok'] dir_lookup_Some [OF ok] u(3) by auto
      also have "\<dots> \<longleftrightarrow> ((dir_lookup bs)(x := None)) y = Some j" using x un [of y] by (cases "y = x") auto
      finally show "dir_lookup (unlinked i bs) y = Some j \<longleftrightarrow> ((dir_lookup bs)(x := None)) y = Some j" .
    qed
  qed
qed

context block_device begin

lemma delete_from_dirtree_ok:
  assumes st: "sfs_state ready nb tb T" "slock T = 1" and wf: "sfs_wf tb f W" and f: "blk (sdisk T) = f"
    and p: "elem_list_ok p" "p \<noteq> []" "walk f 2 p = Some i" "walk f 2 (butlast p) = Some par"
  obtains T' where "delete_from_dirtree G (uint i) (parent_of f p) T = Inr ((), T')" "sfs_state ready nb tb T'" "keeps T T'"
    "blk (sdisk T') = f(par := unlinked i (f par))" "dir_ok (unlinked i (f par))"
    "dir_lookup (unlinked i (f par)) = (dir_lookup (f par))(last p := None)"
proof -
  have q: "elem_list_ok (butlast p)" "is_dir (butlast p)"
    using p(1,2) elem_list_ok_snoc [of "butlast p" "last p"] by simp_all
  note n = walk_node [OF wf p(1,3)] and m = walk_node [OF wf q(1) p(4)]
  have par: "par < nb" using m(2) st(1) by (auto simp: sfs_state_def)
  have dir: "dir_ok (f par)" by (rule walk_dir_ok [OF wf q p(4)])
  have x: "dir_lookup (f par) (last p) = Some i" using p walk_snoc [of f 2 "butlast p" "last p"] by simp
  have un: "y = last p" if y: "dir_lookup (f par) y = Some i" for y
  proof -
    have "elem_list_ok (butlast p @ [y])" using q dir_lookup_shape [OF dir y] by (simp add: elem_list_ok_snoc)
    moreover have "walk f 2 (butlast p @ [y]) = Some i" using p(4) y by (simp add: walk_snoc)
    ultimately have "butlast p @ [y] = p" using sfs_wfD(8) [OF wf _ p(1) _ p(3)] by blast
    then show ?thesis by (metis last_snoc)
  qed
  note u = unlinked_ok [OF dir x un]
  have len: "length (f par) = 512" using dir by (simp add: dir_ok_def)
  let ?T0 = "T\<lparr>slock := 0\<rparr>"
  have "sfs_state ready nb tb ?T0" using st by simp
  from read_smd_ok [OF this par] f obtain d where d:
    "read_smd G par ?T0 = Inr (1, ?T0\<lparr>sdisk := d, sbuf_md := dir_of (f par), smd_rest := drop 500 (f par)\<rparr>)" "blk d = f"
    "sfs_state ready nb tb (?T0\<lparr>sdisk := d, sbuf_md := dir_of (f par), smd_rest := drop 500 (f par)\<rparr>)" by auto
  let ?T1 = "?T0\<lparr>sdisk := d, smd_rest := drop 500 (f par), sbuf_md := map (cleared i) (dir_of (f par))\<rparr>"
  have s1: "sfs_state ready nb tb ?T1" using d(3) by simp
  have c: "clear_entries (uint i) 0 (dir_of (f par)) = Inr (map (cleared i) (dir_of (f par)))"
    using clear_entries_from [OF n(3), of "dir_of (f par)" 0] dir_of_name [OF len] by simp
  have l: "length (unlinked i (f par)) = 512" using u(1) by (simp add: dir_ok_def)
  from swrite_ok [OF s1 par l] d(2) obtain d2 where d2: "swrite G par (unlinked i (f par)) ?T1 = Inr (1, ?T1\<lparr>sdisk := d2\<rparr>)"
    "blk d2 = f(par := unlinked i (f par))" "sfs_state ready nb tb (?T1\<lparr>sdisk := d2\<rparr>)" by auto
  have pa: "parent_of f p = uint par" using p(2,4) by (simp add: parent_of_def)
  have "delete_from_dirtree G (uint i) (parent_of f p) T = Inr ((), V_slock (?T1\<lparr>sdisk := d2\<rparr>))"
    using st(2) d(1) c d2(1) m(5) unfolding pa
    by (simp add: delete_from_dirtree_def write_smd_def unlinked_def)
  moreover have "keeps T (V_slock (?T1\<lparr>sdisk := d2\<rparr>))" using st(2) by (simp add: keeps_def)
  ultimately show ?thesis using that [of "V_slock (?T1\<lparr>sdisk := d2\<rparr>)"] d2(2,3) u by simp
qed

end

section \<open>The calls\<close>

text \<open>The node that a path names; a path is a terminated string.\<close>

definition node_at :: "volume \<Rightarrow> cstring \<Rightarrow> u32 option" where
  "node_at f pn = (if path_ok (cstr pn) then walk f 2 (elems (tl (cstr pn))) else None)"

lemma path_elems: "path_ok (cstr pn) \<Longrightarrow> elem_list_ok (elems (tl (cstr pn)))"
  using elem_list_ok_elems by (simp add: path_ok_def)

lemma inv_keeps:
  assumes "sfs_inv ready blk nb tb T" "sfs_state ready nb tb T'" "keeps T T'" "blk (sdisk T') = blk (sdisk T)"
  shows "sfs_inv ready blk nb tb T'"
  using assms by (simp add: sfs_inv_def keeps_def)

context block_device begin

lemma resolve_call:
  assumes inv: "sfs_inv ready blk nb tb T" and pn: "terminated pn" "length buf = 16"
  obtains (found) i p T' where "node_at (blk (sdisk T)) pn = Some i" "path_ok (cstr pn)" "p = elems (tl (cstr pn))" "elem_list_ok p"
      "walk (blk (sdisk T)) 2 p = Some i" "sfs_resolve_file G pn buf 0 T = Inr ((uint i, parent_of (blk (sdisk T)) p), T')"
      "sfs_inv ready blk nb tb T'" "keeps T T'" "blk (sdisk T') = blk (sdisk T)"
    | (missing) par T' where "node_at (blk (sdisk T)) pn = None" "sfs_resolve_file G pn buf 0 T = Inr ((VFS_ERROR, par), T')"
      "sfs_inv ready blk nb tb T'" "keeps T T'" "blk (sdisk T') = blk (sdisk T)"
proof (cases "path_ok (cstr pn)")
  case False
  then show ?thesis using missing [of 0 T] resolve_invalid [OF pn(1) False] inv
    by (simp add: sfs_resolve_file_def node_at_def)
next
  case True
  note t = sfs_invD [OF inv]
  let ?f = "blk (sdisk T)"
  obtain r par ex' T' where R: "sfs_resolve_file_ext G False pn buf 0 False T = Inr ((r, par, ex'), T')"
    "sfs_state ready nb tb T'" "keeps T T'" "blk (sdisk T') = ?f"
    "\<And>j. walk ?f 2 (elems (tl (cstr pn))) = Some j \<Longrightarrow>
       r = uint j \<and> par = (if elems (tl (cstr pn)) = [] then -1 else uint (the (walk ?f 2 (butlast (elems (tl (cstr pn)))))))"
    "walk ?f 2 (elems (tl (cstr pn))) = None \<Longrightarrow> r = VFS_ERROR \<and> 2 \<le> par \<and>
       (False \<longrightarrow> ex' = (walk ?f 2 (butlast (elems (tl (cstr pn)))) \<noteq> None)) \<and>
       (\<forall>d. walk ?f 2 (butlast (elems (tl (cstr pn)))) = Some d \<longrightarrow> par = uint d)"
    by (rule resolve_valid [OF t(1,6) refl t(2) pn(1) True refl pn(2), of False 0 False]) (rule that)
  have inv': "sfs_inv ready blk nb tb T'" by (rule inv_keeps [OF inv R(2-4)])
  show ?thesis
  proof (cases "walk ?f 2 (elems (tl (cstr pn)))")
    case None
    with R inv' True show ?thesis by (intro missing [of par T']) (simp_all add: sfs_resolve_file_def node_at_def)
  next
    case (Some i)
    with R inv' True path_elems [OF True] show ?thesis
      by (intro found [of i "elems (tl (cstr pn))" T']) (simp_all add: sfs_resolve_file_def node_at_def parent_of_def)
  qed
qed

text \<open>Entering for an open or a remove, up to the marking.\<close>

lemma enter_run:
  assumes inv: "sfs_inv ready blk nb tb T" and p: "elem_list_ok p" "walk (blk (sdisk T)) 2 p = Some i"
  obtains (full) "card (dom (open_view (open_files T))) = 32" "open_view (open_files T) i = None"
      "\<And>mark. sfs_enter_ext G (uint i) (parent_of (blk (sdisk T)) p) True (is_dir p) mark T = Inr (None, T)"
    | (entry) k e where "\<not> (card (dom (open_view (open_files T))) = 32 \<and> open_view (open_files T) i = None)" "k < 32"
      "sfs_inv ready blk nb tb (T\<lparr>open_files := (open_files T)[k := e]\<rparr>)" "fileid e = uint i"
      "parentid e = parent_of (blk (sdisk T)) p" "is_folder e = is_dir p" "\<not> is_deleted e"
      "times_opened e = (case open_view (open_files T) i of None \<Rightarrow> 1 | Some (n, d) \<Rightarrow> n + 1)"
      "open_view ((open_files T)[k := e]) = (open_view (open_files T))(i \<mapsto> (times_opened e, is_dir p))"
      "\<And>mark. sfs_enter_ext G (uint i) (parent_of (blk (sdisk T)) p) True (is_dir p) mark T =
         rbind (if mark then delete_from_dirtree G (uint i) (parent_of (blk (sdisk T)) p) (T\<lparr>openfile_lock := 0, open_files := (open_files T)[k := e]\<rparr>)
                else Inr ((), T\<lparr>openfile_lock := 0, open_files := (open_files T)[k := e]\<rparr>)) (\<lambda>(_, T).
         rbind (rd (open_files T) (int k)) (\<lambda>e.
         rbind (if mark then set_entry (int k) (e\<lparr>is_deleted := True\<rparr>) T else Inr T) (\<lambda>T.
         rbind (release_open T) (\<lambda>T. Inr (Some (int k), T)))))"
proof -
  note t = sfs_invD [OF inv]
  let ?es = "open_files T" let ?par = "parent_of (blk (sdisk T)) p"
  have len: "length ?es = 32" by (rule table_okD(1) [OF t(4)])
  note d = sfs_enter_ext_def acquire_open_def set_entry_ok Let_def
  have run: "\<exists>k e. \<not> (card (dom (open_view ?es)) = 32 \<and> open_view ?es i = None) \<and> k < 32 \<and> e = enter_entry (uint i) ?par (is_dir p) (?es ! k) \<and>
      (fileid (?es ! k) = uint i \<or> fileid (?es ! k) = -1 \<and> opened ?es i = None) \<and> find_entry (uint i) ?es 0 None = Inr (Some (int k))"
    if "\<not> (card (dom (open_view ?es)) = 32 \<and> open_view ?es i = None)"
    using that by (cases rule: find_entry_cases [OF t(4), of i]) (auto simp: open_view_def table_full [OF t(4), symmetric])
  show ?thesis
  proof (cases "card (dom (open_view ?es)) = 32 \<and> open_view ?es i = None")
    case True
    then have f: "\<forall>e \<in> set ?es. fileid e \<noteq> -1" "opened ?es i = None" using table_full [OF t(4)] by (auto simp: open_view_def)
    have "find_entry (uint i) ?es 0 None = Inr None"
    proof (cases rule: find_entry_cases [OF t(4), of i])
      case (2 k)
      with f(1) len show ?thesis using nth_mem [of k ?es] by auto
    qed (use f in auto)
    then show ?thesis using True t(3) relock [OF t(3)] by (intro full) (simp_all add: d release_open_def)
  next
    case False
    from run [OF False] obtain k e where e: "k < 32" "e = enter_entry (uint i) ?par (is_dir p) (?es ! k)"
      "fileid (?es ! k) = uint i \<or> fileid (?es ! k) = -1 \<and> opened ?es i = None" "find_entry (uint i) ?es 0 None = Inr (Some (int k))" by blast
    note v = entered_inv [OF inv p e(1,3,2)]
    have "uint i \<noteq> -1" by simp
    then have "sfs_enter_ext G (uint i) ?par True (is_dir p) mark T =
         rbind (if mark then delete_from_dirtree G (uint i) ?par (T\<lparr>openfile_lock := 0, open_files := ?es[k := e]\<rparr>)
                else Inr ((), T\<lparr>openfile_lock := 0, open_files := ?es[k := e]\<rparr>)) (\<lambda>(_, T).
         rbind (rd (open_files T) (int k)) (\<lambda>e.
         rbind (if mark then set_entry (int k) (e\<lparr>is_deleted := True\<rparr>) T else Inr T) (\<lambda>T.
         rbind (release_open T) (\<lambda>T. Inr (Some (int k), T)))))" for mark
      using e v(2-5) t(3) len by (simp add: d enter_entry_def split del: if_split cong: if_cong)
    then show ?thesis using v False by (intro entry [OF False e(1)])
  qed
qed

end

text \<open>How often a file is open after one more open.\<close>

definition opened_more :: "(u32 \<rightharpoonup> int \<times> bool) \<Rightarrow> u32 \<Rightarrow> bool \<Rightarrow> u32 \<rightharpoonup> int \<times> bool" where
  "opened_more V i d = V(i \<mapsto> (case V i of None \<Rightarrow> 1 | Some (n, _) \<Rightarrow> n + 1, d))"

definition closed_once :: "(u32 \<rightharpoonup> int \<times> bool) \<Rightarrow> u32 \<Rightarrow> u32 \<rightharpoonup> int \<times> bool" where
  "closed_once V i = V(i := (case V i of None \<Rightarrow> None | Some (n, d) \<Rightarrow> if n = 1 then None else Some (n - 1, d)))"

definition table_room :: "(u32 \<rightharpoonup> int \<times> bool) \<Rightarrow> u32 \<Rightarrow> bool" where
  "table_room V i \<longleftrightarrow> V i \<noteq> None \<or> card (dom V) \<noteq> 32"

lemma uint_not_error: "uint (i :: u32) \<noteq> VFS_ERROR"
  using uint_ge_0 [of i] unfolding VFS_ERROR_def by linarith

context block_device begin

lemma open_effect:
  assumes inv: "sfs_inv ready blk nb tb T" and pn: "terminated pn" "length buf = 16"
  obtains r T' where "sfs_open G pn buf T = Inr (r, T')" "sfs_inv ready blk nb tb T'" "blk (sdisk T') = blk (sdisk T)" "kres T' = kres T"
    "case node_at (blk (sdisk T)) pn of
       None \<Rightarrow> r = VFS_NOT_FOUND \<and> open_view (open_files T') = open_view (open_files T)
     | Some i \<Rightarrow>
         if table_room (open_view (open_files T)) i
         then r = uint i \<and> open_view (open_files T') = opened_more (open_view (open_files T)) i (folder_name (cstr pn))
         else r = VFS_ERROR \<and> open_view (open_files T') = open_view (open_files T)"
proof (cases rule: resolve_call [OF inv pn])
  case (2 par T')
  have "sfs_open G pn buf T = Inr (VFS_NOT_FOUND, T')" using 2(2) by (simp add: sfs_open_def)
  then show ?thesis using that [of VFS_NOT_FOUND T'] 2 by (simp add: keeps_def)
next
  case (1 i p T1)
  have fo: "sfs_is_folder (Some pn) = Inr (is_dir p)" using is_folder_eq [OF pn(1)] path_folder [OF 1(2)] 1(3) by simp
  have ne: "uint i \<noteq> VFS_ERROR" by (rule uint_not_error)
  have p: "walk (blk (sdisk T1)) 2 p = Some i" using 1(5,9) by simp
  have V: "open_files T1 = open_files T" "kres T1 = kres T" using 1(8) by (simp_all add: keeps_def)
  show ?thesis
  proof (cases rule: enter_run [OF 1(7,4) p])
    case full: 1
    then have "sfs_open G pn buf T = Inr (VFS_ERROR, T1)"
      using 1(6,9) fo ne by (simp add: sfs_open_def)
    then show ?thesis using that [of VFS_ERROR T1] 1 full V by (simp add: table_room_def)
  next
    case (2 k e)
    let ?T2 = "T1\<lparr>open_files := (open_files T1)[k := e]\<rparr>"
    have len: "length (open_files T1) = 32" by (rule table_okD(1) [OF sfs_invD(4) [OF 1(7)]])
    have fk: "fileid (open_files ?T2 ! k) = uint i" using 2(2,4) len by simp
    have "sfs_enter_ext G (uint i) (parent_of (blk (sdisk T)) p) True (is_dir p) False T1 = Inr (Some (int k), ?T2)"
      using 2(2) 2(10) [of False] 1(9) len relock(1) [OF sfs_invD(3) [OF 1(7)]] by (simp add: release_open_def)
    then have "sfs_open G pn buf T = Inr (uint i, ?T2)"
      using 1(6) fo ne 2(2,7) len exit_keep [OF 2(3,2) fk] by (simp add: sfs_open_def)
    moreover have "table_room (open_view (open_files T)) i" using 2(1) V by (auto simp: table_room_def)
    moreover have "open_view (open_files ?T2) = opened_more (open_view (open_files T)) i (folder_name (cstr pn))"
      using 2(8,9) V path_folder [OF 1(2)] 1(3) by (simp add: opened_more_def)
    ultimately show ?thesis using that [OF _ 2(3)] 1(1,9) V(2) by simp
  qed
qed

lemma close_effect:
  assumes inv: "sfs_inv ready blk nb tb T"
  obtains r T' where "sfs_close G (uint i) T = Inr (r, T')" "sfs_inv ready blk nb tb T'" "kres T' = kres T"
    "\<And>b. b \<noteq> 1 \<Longrightarrow> blk (sdisk T') b = blk (sdisk T) b"
    "\<And>q. elem_list_ok q \<Longrightarrow> walk (blk (sdisk T')) 2 q = walk (blk (sdisk T)) 2 q"
    "open_view (open_files T') = closed_once (open_view (open_files T)) i"
    "r = (if open_view (open_files T) i = None then VFS_ERROR else VFS_OK)"
proof (cases rule: sfs_enter_eq [OF inv, of i])
  case 2
  then show ?thesis using that [of VFS_ERROR T] inv by (simp add: sfs_close_def closed_once_def fun_upd_idem)
next
  case (1 k)
  obtain T' where E: "sfs_exit G (int k) True T = Inr T'" "sfs_inv ready blk nb tb T'" "kres T' = kres T"
    "\<And>b. b \<noteq> 1 \<Longrightarrow> blk (sdisk T') b = blk (sdisk T) b"
    "\<And>q. elem_list_ok q \<Longrightarrow> walk (blk (sdisk T')) 2 q = walk (blk (sdisk T)) 2 q"
    "open_view (open_files T') = closed_once (open_view (open_files T)) i"
  proof (cases "times_opened (open_files T ! k) = 1")
    case False
    show ?thesis by (rule exit_more [OF inv 1(2,3) False]) (rule that; simp add: closed_once_def 1(4) False)
  next
    case n: True
    show ?thesis
    proof (cases "is_deleted (open_files T ! k)")
      case True
      show ?thesis by (rule exit_last_deleted [OF inv 1(2,3) n True]) (rule that; simp add: closed_once_def 1(4) n)
    next
      case False
      show ?thesis by (rule exit_last_kept [OF inv 1(2,3) n False]) (rule that; simp add: closed_once_def 1(4) n)
    qed
  qed
  then show ?thesis using that [of VFS_OK T'] 1 by (simp add: sfs_close_def)
qed

end
section \<open>Removing\<close>

lemma closed_opened:
  assumes "case V i of None \<Rightarrow> True | Some (n, c) \<Rightarrow> 1 \<le> n \<and> c = d"
  shows "closed_once (opened_more V i d) i = V"
  using assms by (cases "V i") (auto simp: closed_once_def opened_more_def fun_upd_idem)

lemma root_path: "path_ok s \<Longrightarrow> s = [47] \<longleftrightarrow> elems (tl s) = []"
  by (cases s) (auto simp: path_ok_def)

lemma linked_unlink:
  assumes ok: "linked_ok f es" and k: "k < length es" "fileid (es ! k) = uint i" and p: "elem_list_ok p" "walk f 2 p = Some i"
    and g: "\<And>q. elem_list_ok q \<Longrightarrow> walk g 2 q = (if prefix p q then None else walk f 2 q)"
    and inj: "\<And>p q i. elem_list_ok p \<Longrightarrow> elem_list_ok q \<Longrightarrow> walk f 2 p = Some i \<Longrightarrow> walk f 2 q = Some i \<Longrightarrow> p = q"
  shows "linked_ok g (es[k := (es ! k)\<lparr>is_deleted := True\<rparr>])"
  unfolding linked_ok_def
proof (intro ballI allI impI)
  fix x q j assume x: "x \<in> set (es[k := (es ! k)\<lparr>is_deleted := True\<rparr>])" and q: "elem_list_ok q" "walk g 2 q = Some j" "fileid x = uint j"
  then have q': "\<not> prefix p q" "walk f 2 q = Some j" using g [OF q(1)] by (auto split: if_splits)
  have "x \<in> set es"
  proof (rule ccontr)
    assume "x \<notin> set es"
    then have "x = (es ! k)\<lparr>is_deleted := True\<rparr>" using x by (auto dest!: set_update_subset_insert [THEN subsetD])
    then have "j = i" using q(3) k(2) by (simp add: word_uint_eq_iff)
    with inj [OF p(1) q(1) p(2)] q' show False by simp
  qed
  with ok q(1,3) q'(2) have l: "\<not> is_deleted x" "is_folder x = is_dir q" "parentid x = parent_of f q" by (simp_all add: linked_ok_def)
  have "parent_of g q = parent_of f q"
  proof (cases "q = []")
    case False
    have "\<not> prefix p (butlast q)" using q'(1) prefix_order.trans [of p "butlast q" q] prefixeq_butlast [of q] by blast
    with g [OF elem_list_ok_butlast [OF q(1)]] False show ?thesis by (simp add: parent_of_def)
  qed (simp add: parent_of_def)
  with l show "\<not> is_deleted x \<and> is_folder x = is_dir q \<and> parentid x = parent_of g q" by simp
qed

context block_device begin

lemma marked_inv:
  assumes inv: "sfs_inv ready blk nb tb T" and k: "k < 32" "fileid (open_files T ! k) = uint i"
    and p: "elem_list_ok p" "p \<noteq> []" "walk (blk (sdisk T)) 2 p = Some i" "walk (blk (sdisk T)) 2 (butlast p) = Some par"
    and T': "sfs_state ready nb tb T'" "slock T' = 1" "openfile_lock T' = 1" "blk (sdisk T') = (blk (sdisk T))(par := bs)"
      "open_files T' = (open_files T)[k := (open_files T ! k)\<lparr>is_deleted := True\<rparr>]"
    and bs: "dir_ok bs" "dir_lookup bs = (dir_lookup (blk (sdisk T) par))(last p := None)"
  shows "sfs_inv ready blk nb tb T'"
    "\<And>q. elem_list_ok q \<Longrightarrow> walk (blk (sdisk T')) 2 q = (if prefix p q then None else walk (blk (sdisk T)) 2 q)"
    "own (blk (sdisk T')) (i, is_dir p) = own (blk (sdisk T)) (i, is_dir p)" "par \<noteq> 1" "(i, is_dir p) \<in> tree_owners (blk (sdisk T))"
proof -
  note t = sfs_invD [OF inv]
  let ?f = "blk (sdisk T)" let ?g = "blk (sdisk T')" let ?es = "open_files T" let ?W = "tree_owners ?f \<union> open_owners ?es"
  have len: "length ?es = 32" by (rule table_okD(1) [OF t(4)])
  have q: "elem_list_ok (butlast p)" "is_dir (butlast p)"
    using p(1,2) elem_list_ok_snoc [of "butlast p" "last p"] by simp_all
  note u = wf_unlink [OF t(6) q p(4) T'(4) bs]
  show w: "walk ?g 2 q = (if prefix p q then None else walk ?f 2 q)" if "elem_list_ok q" for q using u(2) [OF that] p(2) by simp
  show tr: "(i, is_dir p) \<in> tree_owners ?f" by (rule tree_ownerI [OF p(1,2,3)])
  then show "own ?g (i, is_dir p) = own ?f (i, is_dir p)"
    using dir_change_own [OF t(6) q p(4) T'(4) bs(1), of "(i, is_dir p)"] by simp
  show "par \<noteq> 1" using walk_node(1) [OF t(6) q(1) p(4)] by (auto simp: word_le_def)
  have tab: "table_ok tb (open_files T')" unfolding T'(5)
    by (rule table_update [OF t(4) k(1)]) (use table_entry(1) [OF t(4) k] k(2) uint_not_minus [of i] in \<open>simp_all add: entry_wf_def\<close>)
  have own: "open_owners (open_files T') = open_owners ?es" unfolding T'(5) by (rule open_owners_update) (use k len in simp_all)
  have "tree_owners ?g \<subseteq> tree_owners ?f" using w by (auto simp: tree_owners_def split: if_splits)
  then have "sfs_wf tb ?g (tree_owners ?g \<union> open_owners (open_files T'))"
    unfolding own by (intro sfs_wf_sub [OF u(1)]) auto
  moreover have "linked_ok ?g (open_files T')"
    unfolding T'(5) by (rule linked_unlink [OF t(5) _ k(2) p(1,3) w sfs_wfD(8) [OF t(6)]]) (use k len in simp_all)
  ultimately show "sfs_inv ready blk nb tb T'" using T' tab by (simp add: sfs_inv_def)
qed

end
text \<open>What a successful removal does to the volume.\<close>

definition removed :: "u32 \<Rightarrow> volume \<Rightarrow> volume \<Rightarrow> byte list list \<Rightarrow> u32 \<Rightarrow> bool \<Rightarrow> bool" where
  "removed tb f g p i now \<longleftrightarrow>
     (\<forall>q. elem_list_ok q \<longrightarrow> walk g 2 q = (if prefix p q then None else walk f 2 q)) \<and>
     (\<forall>b. b \<noteq> 1 \<and> walk f 2 (butlast p) \<noteq> Some b \<longrightarrow> g b = f b) \<and>
     (\<forall>b < tb. marked g b \<longleftrightarrow> marked f b \<and> \<not> (now \<and> b \<in> own f (i, is_dir p)))"

context block_device begin

lemma remove_linked:
  assumes inv: "sfs_inv ready blk nb tb T" and p: "elem_list_ok p" "p \<noteq> []" "walk (blk (sdisk T)) 2 p = Some i"
    and room: "table_room (open_view (open_files T)) i"
  obtains k T1 T' where "sfs_enter_ext G (uint i) (parent_of (blk (sdisk T)) p) True (is_dir p) True T = Inr (Some (int k), T1)"
    "sfs_exit G (int k) True T1 = Inr T'" "sfs_inv ready blk nb tb T'" "kres T' = kres T"
    "open_view (open_files T') = open_view (open_files T)"
    "removed tb (blk (sdisk T)) (blk (sdisk T')) p i (open_view (open_files T) i = None)"
    "\<forall>e. opened (open_files T') i = Some e \<longrightarrow> is_deleted e"
proof (cases rule: enter_run [OF inv p(1,3)])
  case 1
  then show ?thesis using room by (simp add: table_room_def)
next
  case (2 k e)
  note t = sfs_invD [OF inv]
  let ?f = "blk (sdisk T)" let ?V = "open_view (open_files T)" let ?T0 = "T\<lparr>open_files := (open_files T)[k := e]\<rparr>"
  let ?T0' = "T\<lparr>openfile_lock := 0, open_files := (open_files T)[k := e]\<rparr>"
  note t0 = sfs_invD [OF 2(3)]
  have len: "length (open_files T) = 32" by (rule table_okD(1) [OF t(4)])
  obtain par where par: "walk ?f 2 (butlast p) = Some par" using walk_butlast [OF p(2), of ?f 2] p(3) by auto
  have st: "sfs_state ready nb tb ?T0'" "slock ?T0' = 1" "blk (sdisk ?T0') = ?f" using t0(1,2) by (simp_all add: sfs_state_def)
  have wf0: "sfs_wf tb ?f (tree_owners ?f \<union> open_owners ((open_files T)[k := e]))" using t0(6) by simp
  obtain T1 where D: "delete_from_dirtree G (uint i) (parent_of ?f p) ?T0' = Inr ((), T1)" "sfs_state ready nb tb T1" "keeps ?T0' T1"
    "blk (sdisk T1) = ?f(par := unlinked i (?f par))" "dir_ok (unlinked i (?f par))"
    "dir_lookup (unlinked i (?f par)) = (dir_lookup (?f par))(last p := None)"
    by (rule delete_from_dirtree_ok [OF st(1,2) wf0 st(3) p par])
  let ?es2 = "(open_files T)[k := e\<lparr>is_deleted := True\<rparr>]"
  let ?T2 = "T1\<lparr>open_files := ?es2, openfile_lock := 1\<rparr>"
  have o1: "open_files T1 = (open_files T)[k := e]" "openfile_lock T1 = 0" "slock T1 = 1" "kres T1 = kres T"
    using D(3) t(2) by (simp_all add: keeps_def)
  have run: "sfs_enter_ext G (uint i) (parent_of ?f p) True (is_dir p) True T = Inr (Some (int k), ?T2)"
    using 2(2) 2(10) [of True] D(1) o1 len by (simp add: set_entry_ok release_open_def)
  have k0: "fileid (open_files ?T0 ! k) = uint i" "open_files ?T0 ! k = e" using 2(2,4) len by simp_all
  have s2: "sfs_state ready nb tb ?T2" "slock ?T2 = 1" "openfile_lock ?T2 = 1"
    "blk (sdisk ?T2) = (blk (sdisk ?T0))(par := unlinked i (?f par))"
    "open_files ?T2 = (open_files ?T0)[k := (open_files ?T0 ! k)\<lparr>is_deleted := True\<rparr>]"
    using D(2,4) o1 len k0(2) 2(2) by (simp_all add: sfs_state_def)
  have p0: "walk (blk (sdisk ?T0)) 2 p = Some i" "walk (blk (sdisk ?T0)) 2 (butlast p) = Some par" using p(3) par by simp_all
  have look: "dir_lookup (unlinked i (?f par)) = (dir_lookup (blk (sdisk ?T0) par))(last p := None)" using D(6) by simp
  note m = marked_inv [OF 2(3,2) k0(1) p(1,2) p0 s2 D(5) look]
  have k2: "fileid (open_files ?T2 ! k) = uint i" "times_opened (open_files ?T2 ! k) = times_opened e" "is_deleted (open_files ?T2 ! k)"
    "is_folder (open_files ?T2 ! k) = is_dir p" using 2(2,4,6) len by simp_all
  have v2: "open_view (open_files ?T2) = opened_more ?V i (is_dir p)"
  proof -
    have "open_view ((open_files ?T0)[k := e\<lparr>is_deleted := True\<rparr>]) = (open_view (open_files ?T0))(i \<mapsto> (times_opened e, is_dir p))"
      using view_update [OF t0(4) 2(2) k0(1), of "e\<lparr>is_deleted := True\<rparr>"] sfs_invD(4) [OF m(1)] 2(4,6) uint_not_minus [of i] by simp
    then show ?thesis using 2(8,9) by (simp add: opened_more_def)
  qed
  have V: "case ?V i of None \<Rightarrow> True | Some (n, c) \<Rightarrow> 1 \<le> n \<and> c = is_dir p"
  proof (cases "opened (open_files T) i")
    case (Some x)
    from opened_Some [OF this] obtain m where x: "x = open_files T ! m" "m < 32" "fileid (open_files T ! m) = uint i" using len by auto
    with table_entry [OF t(4) x(2,3)] t(5) p(1,3) Some show ?thesis by (simp add: open_view_def linked_ok_def)
  qed (simp add: open_view_def)
  have mk: "marked (blk (sdisk ?T2)) b \<longleftrightarrow> marked ?f b" for b using m(4) s2(4) by (simp add: marked_def)
  have other: "blk (sdisk ?T2) b = ?f b" if "b \<noteq> par" for b using s2(4) that by simp
  show ?thesis
  proof (cases "?V i")
    case None
    then have "times_opened (open_files ?T2 ! k) = 1" using k2(2) 2(8) by simp
    from exit_last_deleted [OF m(1) 2(2) k2(1) this k2(3)] obtain T' bs where
      E: "sfs_exit G (int k) True ?T2 = Inr T'" "sfs_inv ready blk nb tb T'" "blk (sdisk T') = (blk (sdisk ?T2))(1 := bs)" "kres T' = kres ?T2"
        "open_view (open_files T') = (open_view (open_files ?T2))(i := None)"
        "\<And>q. elem_list_ok q \<Longrightarrow> walk (blk (sdisk T')) 2 q = walk (blk (sdisk ?T2)) 2 q"
        "\<And>b. b < tb \<Longrightarrow> marked (blk (sdisk T')) b \<longleftrightarrow> marked (blk (sdisk ?T2)) b \<and> b \<notin> own (blk (sdisk ?T2)) (i, is_dir p)"
      unfolding k2(4) by metis
    have "removed tb ?f (blk (sdisk T')) p i (?V i = None)"
      using E(3,6,7) m(2,3) mk other par None unfolding removed_def by auto
    moreover have "open_view (open_files T') = ?V" using E(5) v2 None by (auto simp: opened_more_def)
    moreover have "opened (open_files T') i = None" using E(5) by (simp add: open_view_def fun_eq_iff split: if_splits)
    ultimately show ?thesis using that [OF run E(1,2)] E(4) o1(4) by simp
  next
    case (Some nc)
    then obtain n c where nc: "?V i = Some (n, c)" by (cases nc) simp
    then have "times_opened (open_files ?T2 ! k) \<noteq> 1" using k2(2) 2(8) V by simp
    from exit_more [OF m(1) 2(2) k2(1) this] obtain T' where
      E: "sfs_exit G (int k) True ?T2 = Inr T'" "sfs_inv ready blk nb tb T'" "sdisk T' = sdisk ?T2" "kres T' = kres ?T2"
        "open_view (open_files T') = (open_view (open_files ?T2))(i \<mapsto> (times_opened (open_files ?T2 ! k) - 1, is_folder (open_files ?T2 ! k)))"
        "opened (open_files T') i = Some ((open_files ?T2 ! k)\<lparr>times_opened := times_opened (open_files ?T2 ! k) - 1\<rparr>)"
      by metis
    have "removed tb ?f (blk (sdisk T')) p i (?V i = None)"
      using E(3) m(2) mk other par nc unfolding removed_def by auto
    moreover have "open_view (open_files T') = ?V"
      unfolding E(5) v2 k2(2,4) using nc 2(8) V by (auto simp: opened_more_def)
    moreover have "\<forall>e. opened (open_files T') i = Some e \<longrightarrow> is_deleted e" using E(6) k2(3) by simp
    ultimately show ?thesis using that [OF run E(1,2)] E(4) o1(4) by simp
  qed
qed

lemma remove_effect:
  assumes inv: "sfs_inv ready blk nb tb T" and pn: "terminated pn" "length buf = 16"
  obtains r T' where "sfs_remove G pn buf T = Inr (r, T')" "sfs_inv ready blk nb tb T'" "kres T' = kres T"
    "open_view (open_files T') = open_view (open_files T)"
    "case node_at (blk (sdisk T)) pn of
       None \<Rightarrow> r = VFS_NOT_FOUND \<and> blk (sdisk T') = blk (sdisk T)
     | Some i \<Rightarrow>
         if cstr pn = [47] then r = VFS_NOT_FOUND \<and> blk (sdisk T') = blk (sdisk T)
         else if table_room (open_view (open_files T)) i
         then r = VFS_OK \<and> removed tb (blk (sdisk T)) (blk (sdisk T')) (elems (tl (cstr pn))) i (open_view (open_files T) i = None) \<and>
           (\<forall>e. opened (open_files T') i = Some e \<longrightarrow> is_deleted e)
         else r = VFS_ERROR \<and> blk (sdisk T') = blk (sdisk T)"
proof (cases rule: resolve_call [OF inv pn])
  case (2 par T')
  then have "sfs_remove G pn buf T = Inr (VFS_NOT_FOUND, T')" by (simp add: sfs_remove_def)
  then show ?thesis using that [of VFS_NOT_FOUND T'] 2 by (simp add: keeps_def)
next
  case (1 i p T1)
  have fo: "sfs_is_folder (Some pn) = Inr (is_dir p)" using is_folder_eq [OF pn(1)] path_folder [OF 1(2)] 1(3) by simp
  have ne: "uint i \<noteq> VFS_ERROR" by (rule uint_not_error)
  have p: "walk (blk (sdisk T1)) 2 p = Some i" using 1(5,9) by simp
  have V: "open_files T1 = open_files T" "kres T1 = kres T" using 1(8) by (simp_all add: keeps_def)
  have "terminated [47, 0 :: byte]" "cstr [47, 0 :: byte] = [47]" by (simp_all add: terminated_def cstr_def)
  then obtain c where c: "stringcmp pn [47, 0] = Inr c" "c = 0 \<longleftrightarrow> cstr pn = [47]" using stringcmp_eq [OF pn(1)] by metis
  show ?thesis
  proof (cases "cstr pn = [47]")
    case True
    then have "sfs_remove G pn buf T = Inr (VFS_NOT_FOUND, T1)" using 1(6) ne c by (simp add: sfs_remove_def)
    then show ?thesis using that [of VFS_NOT_FOUND T1] 1 V True by simp
  next
    case False
    have pne: "p \<noteq> []" using False root_path [OF 1(2)] 1(3) by simp
    show ?thesis
    proof (cases "table_room (open_view (open_files T1)) i")
      case room: True
      obtain k T2 T' where R: "sfs_enter_ext G (uint i) (parent_of (blk (sdisk T1)) p) True (is_dir p) True T1 = Inr (Some (int k), T2)"
        "sfs_exit G (int k) True T2 = Inr T'" "sfs_inv ready blk nb tb T'" "kres T' = kres T1"
        "open_view (open_files T') = open_view (open_files T1)"
        "removed tb (blk (sdisk T1)) (blk (sdisk T')) p i (open_view (open_files T1) i = None)"
        "\<forall>e. opened (open_files T') i = Some e \<longrightarrow> is_deleted e"
        by (rule remove_linked [OF 1(7,4) pne p room])
      then have "sfs_remove G pn buf T = Inr (VFS_OK, T')" using 1(6,9) ne c False fo by (simp add: sfs_remove_def)
      then show ?thesis using that [OF _ R(3)] R(4-7) 1(1,3,9) V False room by simp
    next
      case none: False
      have "sfs_enter_ext G (uint i) (parent_of (blk (sdisk T1)) p) True (is_dir p) True T1 = Inr (None, T1)"
        by (cases rule: enter_run [OF 1(7,4) p]) (use none in \<open>auto simp: table_room_def\<close>)
      then have "sfs_remove G pn buf T = Inr (VFS_ERROR, T1)" using 1(6,9) ne c False fo by (simp add: sfs_remove_def)
      then show ?thesis using that [of VFS_ERROR T1] 1 V False none by simp
    qed
  qed
qed

end
end
