(* ===== verification/Sfs_data.thy ===== *)
theory Sfs_data
  imports Sfs_remove
begin

text \<open>
  Reading and writing files of the student filesystem: a read returns the bytes of the file, a write
  replaces them, and neither changes anything else.
\<close>

section \<open>Reading a file\<close>

context block_device begin

lemma sfs_read_loop_eq:
  assumes "sfs_state ready nb tb T" "bs = take q bl" "\<forall>b \<in> set bs. b < nb"
    and "512 * k + m \<le> 512 * length bs" "w + m \<le> length buffer"
  shows "\<exists>d. sfs_read_loop G bl (int w + int m) (int k) (last_block k m) (int w) buffer T =
      Inr (int w + int m, splice w (slice (512 * k) m (concat (map (blk (sdisk T)) bs))) buffer, T\<lparr>sdisk := d\<rparr>) \<and>
    sfs_state ready nb tb (T\<lparr>sdisk := d\<rparr>) \<and> blk d = blk (sdisk T)"
  using assms
proof (induction m arbitrary: k w buffer T rule: less_induct)
  case (less m)
  let ?f = "blk (sdisk T)" and ?F = "concat (map (blk (sdisk T)) bs)"
  show ?case
  proof (cases "m = 0")
    case True
    with less.prems show ?thesis
      by (intro exI [of _ "sdisk T"]) (simp add: sfs_read_loop.simps [of G] last_block_def)
  next
    case False
    define n where "n = min m 512"
    have k: "k < length bs" using less.prems(4) False by linarith
    then have "bs ! k \<in> set bs" by simp
    with less.prems(2,3) k have bk: "rd bl (int k) = Inr (bs ! k)" "bs ! k < nb"
      by (simp_all add: rd_def del: nth_mem)
    obtain d where d: "sread G (bs ! k) T = Inr (1, ?f (bs ! k), T\<lparr>sdisk := d\<rparr>)" "blk d = ?f" "sfs_state ready nb tb (T\<lparr>sdisk := d\<rparr>)"
      using sread_ok [OF less.prems(1) bk(2)] by blast
    have len: "length (?f b) = 512" if "b \<in> set bs" for b
      using that less.prems(1,3) blk_length by (auto simp: sfs_state_def)
    have lenF: "length ?F = 512 * length bs" by (rule concat_blocks_length [OF len])
    have l: "length (?f (bs ! k)) = 512" using len k by simp
    have sl: "slice (512 * k) n ?F = take n (?f (bs ! k))"
      using slice_in_block [of bs ?f 512 k 0 n, OF len] k by (simp add: n_def slice_def)
    have n: "0 < n" "n \<le> m" "n \<le> 512" using False by (auto simp: n_def)
    note lb = last_block_step [of m k, folded n_def]
    let ?b = "splice w (slice (512 * k) n ?F) buffer"
    have cp: "copy_in buffer (int w) (int n) (?f (bs ! k)) = Inr ?b"
      using copy_in_eq [of n w buffer "?f (bs ! k)"] n less.prems(5) l sl by simp
    have amount: "int k = last_block (Suc k) (m - n) \<longleftrightarrow> m \<le> 512" "m \<le> 512 \<Longrightarrow> n = m" "\<not> m \<le> 512 \<Longrightarrow> n = 512"
      using lb(1,3) False by (auto simp: n_def)
    have step: "sfs_read_loop G bl (int w + int m) (int k) (last_block k m) (int w) buffer T =
        sfs_read_loop G bl (int (w + n) + int (m - n)) (int (Suc k)) (last_block (Suc k) (m - n)) (int (w + n)) ?b (T\<lparr>sdisk := d\<rparr>)"
      using bk d(1) lb(1,2) False cp n(2) amount
      by (subst sfs_read_loop.simps, cases "m \<le> 512") (simp_all add: sfs_sizes Let_def add.commute)
    have lb2: "length (slice (512 * k) n ?F) = n" using sl l n by simp
    have "\<exists>d'. sfs_read_loop G bl (int (w + n) + int (m - n)) (int (Suc k)) (last_block (Suc k) (m - n)) (int (w + n)) ?b (T\<lparr>sdisk := d\<rparr>) =
        Inr (int (w + n) + int (m - n), splice (w + n) (slice (512 * Suc k) (m - n) (concat (map (blk (sdisk (T\<lparr>sdisk := d\<rparr>))) bs))) ?b,
          (T\<lparr>sdisk := d\<rparr>)\<lparr>sdisk := d'\<rparr>) \<and>
      sfs_state ready nb tb ((T\<lparr>sdisk := d\<rparr>)\<lparr>sdisk := d'\<rparr>) \<and> blk d' = blk (sdisk (T\<lparr>sdisk := d\<rparr>))"
    proof (rule less.IH)
      show "512 * Suc k + (m - n) \<le> 512 * length bs" using less.prems(4) k by (auto simp: n_def)
    qed (use d(3) less.prems n lb2 in auto)
    moreover have "splice (w + n) (slice (512 * Suc k) (m - n) ?F) ?b = splice w (slice (512 * k) m ?F) buffer"
    proof -
      have "slice (512 * k) n ?F @ slice (512 * Suc k) (m - n) ?F = slice (512 * k) m ?F"
        by (rule slice_next) (use less.prems(4) lenF n in \<open>auto simp: n_def\<close>)
      moreover have "length (slice (512 * Suc k) (m - n) ?F) = m - n"
        using less.prems(4) lenF k by (intro slice_length) (auto simp: n_def)
      ultimately show ?thesis
        using splice_splice [of w "slice (512 * k) n ?F" "slice (512 * Suc k) (m - n) ?F" buffer] lb2 less.prems(5) n by simp
    qed
    ultimately show ?thesis unfolding step using d(2) n by (auto simp: of_nat_diff)
  qed
qed

lemma owner_content:
  assumes wf: "sfs_wf tb f W" and x: "(i, False) \<in> W"
  shows "length (content f i) = unat (filesize (inode_of (f i)))" "sint (filesize (inode_of (f i))) = int (length (content f i))"
    "length (concat (map f (file_blocks f i))) = 512 * length (file_blocks f i)"
    "unat (filesize (inode_of (f i))) \<le> 512 * length (file_blocks f i)" "\<forall>b \<in> set (file_blocks f i). 3 \<le> b \<and> b < tb"
    "3 \<le> i" "i < tb" "distinct (i # file_blocks f i)"
proof -
  have ok: "own_ok tb f (i, False)" by (rule sfs_wfD(6) [OF wf x])
  then show i: "3 \<le> i" "i < tb" "distinct (i # file_blocks f i)" by simp_all
  have v: "inode_ok tb (inode_of (f i))" "length (f i) = 512" using ok sfs_wfD(3) [OF wf i(2)] by simp_all
  note fb = file_blocks_eq [of tb f i, OF v]
  show r: "\<forall>b \<in> set (file_blocks f i). 3 \<le> b \<and> b < tb" by (rule fb(2))
  have "length (f b) = 512" if "b \<in> set (file_blocks f i)" for b using that r sfs_wfD(3) [OF wf] by blast
  from concat_blocks_length [OF this]
  show l: "length (concat (map f (file_blocks f i))) = 512 * length (file_blocks f i)" .
  show s: "unat (filesize (inode_of (f i))) \<le> 512 * length (file_blocks f i)" using fb(1) filesize_blocks [of "inode_of (f i)"] by simp
  show c: "length (content f i) = unat (filesize (inode_of (f i)))" using l s by (simp add: content_def)
  then show "sint (filesize (inode_of (f i))) = int (length (content f i))" using inode_ok_filesize [OF v(1)] by simp
qed

lemma read_file_ok:
  assumes st: "sfs_state ready nb tb T" and wf: "sfs_wf tb (blk (sdisk T)) W" and x: "(i, False) \<in> W"
    and n: "0 \<le> n" "n \<le> int (length buffer)" and C: "C = content (blk (sdisk T)) i"
  obtains d where "read_file G (uint i) buffer n off T =
      Inr (if off < 0 \<or> off > int (length C) then (VFS_ERROR, buffer, T\<lparr>sdisk := d\<rparr>)
           else (min n (int (length C) - off), splice 0 (slice (nat off) (nat (min n (int (length C) - off))) C) buffer, T\<lparr>sdisk := d\<rparr>))"
    "sfs_state ready nb tb (T\<lparr>sdisk := d\<rparr>)" "blk d = blk (sdisk T)"
proof -
  let ?f = "blk (sdisk T)" and ?bs = "file_blocks (blk (sdisk T)) i" and ?v = "inode_of (blk (sdisk T) i)"
  note u = owner_content [OF wf x]
  have tb: "tb \<le> nb" using st by (simp add: sfs_state_def)
  have i: "i < nb" using u(7) tb by (rule less_le_trans)
  from sread_ok [OF st i] obtain d where d: "sread G i T = Inr (1, ?f i, T\<lparr>sdisk := d\<rparr>)" "blk d = ?f" "sfs_state ready nb tb (T\<lparr>sdisk := d\<rparr>)" by blast
  have sz: "sint (filesize ?v) = int (length C)" using u(2) C by simp
  show ?thesis
  proof (cases "off < 0 \<or> off > int (length C) \<or> min n (int (length C) - off) = 0")
    case True
    then show ?thesis using that [of d] d sz by (auto simp: read_file_def Let_def)
  next
    case False
    define p m where "p = nat off" and "m = nat (min n (int (length C) - off))"
    have om: "off = int p" "min n (int (length C) - off) = int m" "0 < m" "p + m \<le> length C" "m \<le> length buffer"
      using False n by (auto simp: p_def m_def)
    have bound: "p + m \<le> 512 * length ?bs" using om(4) C u(1,4) by simp
    define r where "r = min (512 - p mod 512) m"
    note fp = first_piece [OF om(3), of p, folded r_def]
    let ?k = "p div 512" and ?F = "concat (map ?f ?bs)"
    have k: "?k < length ?bs" using bound om(3) by (simp add: less_mult_imp_div_less mult.commute)
    have bk: "rd (block ?v) (int ?k) = Inr (?bs ! ?k)" using k by (simp add: rd_def file_blocks_def Let_def)
    have "?bs ! ?k \<in> set ?bs" using k by simp
    with u(5) tb have bn: "?bs ! ?k < nb" by auto
    from sread_ok [OF d(3) bn] d(2) obtain d1 where d1: "sread G (?bs ! ?k) (T\<lparr>sdisk := d\<rparr>) = Inr (1, ?f (?bs ! ?k), T\<lparr>sdisk := d1\<rparr>)"
      "blk d1 = ?f" "sfs_state ready nb tb (T\<lparr>sdisk := d1\<rparr>)" by auto
    have len: "length (?f b) = 512" if "b \<in> set ?bs" for b using that u(5) sfs_wfD(3) [OF wf] by blast
    then have l: "length (?f (?bs ! ?k)) = 512" using k by simp
    have sl: "slice p r ?F = take r (drop (p mod 512) (?f (?bs ! ?k)))"
      using slice_in_block [of ?bs ?f 512 ?k "p mod 512" r, OF len] k fp(4) by (simp add: slice_def)
    have r: "r \<le> m" "r \<le> length buffer" using om(5) by (simp_all add: r_def)
    let ?b = "splice 0 (slice p r ?F) buffer"
    have cp: "copy_in buffer 0 (int r) (drop (p mod 512) (?f (?bs ! ?k))) = Inr ?b"
      using copy_in_eq [of r 0 buffer "drop (p mod 512) (?f (?bs ! ?k))"] fp(3,4) r l sl by simp
    have lr: "length (slice p r ?F) = r" using sl l fp(4) by simp
    have bs: "?bs = take (nblocks_of ?v) (block ?v)" "\<forall>b \<in> set ?bs. b < nb" using u(5) tb by (auto simp: file_blocks_def Let_def)
    have room: "512 * Suc ?k + (m - r) \<le> 512 * length ?bs" using k bound fp(2) by (cases "r < m") auto
    have room2: "r + (m - r) \<le> length ?b" using om(5) r lr by simp
    from sfs_read_loop_eq [OF d1(3) bs room room2] d1(2) obtain d2 where d2:
      "sfs_read_loop G (block ?v) (int r + int (m - r)) (int (Suc ?k)) (last_block (Suc ?k) (m - r)) (int r) ?b (T\<lparr>sdisk := d1\<rparr>) =
        Inr (int r + int (m - r), splice r (slice (512 * Suc ?k) (m - r) ?F) ?b, T\<lparr>sdisk := d2\<rparr>)"
      "sfs_state ready nb tb (T\<lparr>sdisk := d2\<rparr>)" "blk d2 = ?f" by auto
    have fin: "splice r (slice (512 * Suc ?k) (m - r) ?F) ?b = splice 0 (slice p m C) buffer"
    proof -
      have a: "slice p r ?F @ slice (512 * Suc ?k) (m - r) ?F = slice p m ?F"
        by (rule slice_next) (use bound u(3) fp(2) r in auto)
      have b: "length (slice (512 * Suc ?k) (m - r) ?F) = m - r" using room u(3) by (intro slice_length) simp
      have c: "slice p m ?F = slice p m C" using om(4) u(1) slice_take [of p m "unat (filesize ?v)" ?F] unfolding C content_def by simp
      have "splice (0 + length (slice p r ?F)) (slice (512 * Suc ?k) (m - r) ?F) ?b = splice 0 (slice p r ?F @ slice (512 * Suc ?k) (m - r) ?F) buffer"
        by (rule splice_splice) (use lr b om(5) r in simp)
      then show ?thesis unfolding a c lr by simp
    qed
    have conv: "off sdiv 512 = int ?k" "off smod 512 = int (p mod 512)" "min (512 - int (p mod 512)) (int m) = int r"
      "(off + int m - 1) sdiv 512 = int ((p + m - 1) div 512)" "int r + int (m - r) = int m"
      using om(3) r by (auto simp: om(1) r_def zdiv_int zmod_int of_nat_diff of_nat_min)
    have "read_file G (uint i) buffer n off T = Inr (int m, splice 0 (slice p m C) buffer, T\<lparr>sdisk := d2\<rparr>)"
      using False d(1) sz bk d1(1) cp d2(1) fin fp(1) om(2,3)
      by (simp add: read_file_def sfs_sizes Let_def conv om(2) add.commute)
    then show ?thesis using that [of d2] False om d2(2,3) by simp
  qed
qed

end

section \<open>Writing a file\<close>

context block_device begin

lemma sput_piece:
  assumes st: "sfs_state ready nb tb T"
    and bs: "distinct bs" "\<forall>b \<in> set bs. b < nb" "k < length bs"
    and n: "0 < n" "off + n \<le> 512" "n \<le> length buf" and bat: "length bat = 512"
  obtains X d0 Y d where "(if n < 512 then sread G (bs ! k) T else Inr (1, bat, T)) = Inr (1, X, T\<lparr>sdisk := d0\<rparr>)"
    "copy_in X (int off) (int n) buf = Inr Y" "swrite G (bs ! k) Y (T\<lparr>sdisk := d0\<rparr>) = Inr (1, T\<lparr>sdisk := d\<rparr>)"
    "sfs_state ready nb tb (T\<lparr>sdisk := d\<rparr>)" "length Y = 512"
    "concat (map (blk d) bs) = splice (512 * k + off) (take n buf) (concat (map (blk (sdisk T)) bs))"
    "\<And>b. b \<notin> set bs \<Longrightarrow> blk d b = blk (sdisk T) b"
proof -
  let ?b = "bs ! k" and ?f = "blk (sdisk T)"
  have b: "?b < nb" "?b \<in> set bs" using bs by auto
  have len: "length (?f x) = 512" if "x \<in> set bs" for x
    using that st bs(2) blk_length by (auto simp: sfs_state_def)
  obtain d0 X where R: "(if n < 512 then sread G ?b T else Inr (1, bat, T)) = Inr (1, X, T\<lparr>sdisk := d0\<rparr>)"
    "blk d0 = ?f" "sfs_state ready nb tb (T\<lparr>sdisk := d0\<rparr>)" "n < 512 \<Longrightarrow> X = ?f ?b" "length X = 512"
  proof (cases "n < 512")
    case True
    from sread_ok [OF st b(1)] obtain d0 where "sread G ?b T = Inr (1, ?f ?b, T\<lparr>sdisk := d0\<rparr>)" "blk d0 = ?f"
      "sfs_state ready nb tb (T\<lparr>sdisk := d0\<rparr>)" by blast
    with True that len [OF b(2)] show ?thesis by simp
  next
    case False
    with st bat that [of bat "sdisk T"] show ?thesis by simp
  qed
  let ?Y = "splice off (take n buf) (?f ?b)"
  have new: "splice off (take n buf) X = ?Y"
  proof (cases "n < 512")
    case False
    with n have "off = 0" "n = 512" by auto
    with R(5) len [OF b(2)] n(3) show ?thesis by (simp add: splice_whole)
  qed (simp add: R(4))
  have cp: "copy_in X (int off) (int n) buf = Inr ?Y" using copy_in_eq [of n off X buf] n R(5) new by simp
  have lY: "length ?Y = 512" using n len [OF b(2)] by simp
  from swrite_ok [OF R(3) b(1) lY] R(2) obtain d where W: "swrite G ?b ?Y (T\<lparr>sdisk := d0\<rparr>) = Inr (1, T\<lparr>sdisk := d\<rparr>)"
    "blk d = ?f(?b := ?Y)" "sfs_state ready nb tb (T\<lparr>sdisk := d\<rparr>)" by auto
  have "concat (map (blk d) bs) = splice (512 * k + off) (take n buf) (concat (map ?f bs))"
    unfolding W(2) by (rule splice_in_block [OF len bs(1,3)]) (use n in \<open>auto simp: min_def\<close>)
  moreover have "blk d x = ?f x" if "x \<notin> set bs" for x using that W(2) b(2) by auto
  ultimately show ?thesis by (rule that [OF R(1) cp W(1,3) lY])
qed

lemma sfs_write_loop_eq:
  assumes "sfs_state ready nb tb T" "bs = take q bl" "distinct bs" "\<forall>b \<in> set bs. b < nb"
    and "512 * k + m \<le> 512 * length bs" "m \<le> length buf" "length bat = 512"
  shows "\<exists>d. sfs_write_loop G bl (w + int m) (int k) (last_block k m) w buf bat T = Inr (w + int m, T\<lparr>sdisk := d\<rparr>) \<and>
    sfs_state ready nb tb (T\<lparr>sdisk := d\<rparr>) \<and>
    concat (map (blk d) bs) = splice (512 * k) (take m buf) (concat (map (blk (sdisk T)) bs)) \<and>
    (\<forall>b. b \<notin> set bs \<longrightarrow> blk d b = blk (sdisk T) b)"
  using assms
proof (induction m arbitrary: k w buf bat T rule: less_induct)
  case (less m)
  let ?F = "concat (map (blk (sdisk T)) bs)"
  have lenF: "length ?F = 512 * length bs"
    using less.prems(1,4) blk_length by (intro concat_blocks_length) (auto simp: sfs_state_def)
  show ?case
  proof (cases "m = 0")
    case True
    with less.prems lenF show ?thesis
      by (intro exI [of _ "sdisk T"]) (simp add: sfs_write_loop.simps [of G] last_block_def)
  next
    case False
    define n where "n = min m 512"
    have n: "0 < n" "n \<le> m" "0 + n \<le> 512" "n \<le> length buf" using False less.prems(6) by (auto simp: n_def)
    have k: "k < length bs" using less.prems(5) False by linarith
    then have bk: "rd bl (int k) = Inr (bs ! k)" using less.prems(2) by (simp add: rd_def)
    note lb = last_block_step [of m k, folded n_def]
    obtain X d0 Y d where P: "(if n < 512 then sread G (bs ! k) T else Inr (1, bat, T)) = Inr (1, X, T\<lparr>sdisk := d0\<rparr>)"
      "copy_in X (int 0) (int n) buf = Inr Y" "swrite G (bs ! k) Y (T\<lparr>sdisk := d0\<rparr>) = Inr (1, T\<lparr>sdisk := d\<rparr>)"
      "sfs_state ready nb tb (T\<lparr>sdisk := d\<rparr>)" "length Y = 512"
      "concat (map (blk d) bs) = splice (512 * k + 0) (take n buf) ?F" "\<And>b. b \<notin> set bs \<Longrightarrow> blk d b = blk (sdisk T) b"
      by (rule sput_piece [OF less.prems(1,3,4) k n(1,3,4) less.prems(7)]) (rule that)
    have eqk: "int k = last_block (Suc k) (m - n) \<longleftrightarrow> m \<le> 512" using lb(1,3) False by simp
    let ?buf = "if m \<le> 512 then buf else drop n buf"
    have step: "sfs_write_loop G bl (w + int m) (int k) (last_block k m) w buf bat T =
        sfs_write_loop G bl ((w + int n) + int (m - n)) (int (Suc k)) (last_block (Suc k) (m - n)) (w + int n) ?buf Y (T\<lparr>sdisk := d\<rparr>)"
    proof (cases "m \<le> 512")
      case True
      then have "n = m" by (simp add: n_def)
      then show ?thesis using True bk P(1-3) lb(1,2) False eqk
        by (subst sfs_write_loop.simps) (simp add: sfs_sizes Let_def add.commute split del: if_split)
    next
      case big: False
      then have n512: "n = 512" by (simp add: n_def)
      then have "X = bat" "T\<lparr>sdisk := d0\<rparr> = T" using P(1) by auto
      then show ?thesis using big bk P(2,3) lb(1,2) False eqk n512
        by (subst sfs_write_loop.simps) (simp add: sfs_sizes Let_def add.commute)
    qed
    have tb: "take (m - n) ?buf = take (m - n) (drop n buf)" by (simp add: n_def)
    have lr: "m - n \<le> length ?buf" using less.prems(6) n by auto
    have "\<exists>d'. sfs_write_loop G bl ((w + int n) + int (m - n)) (int (Suc k)) (last_block (Suc k) (m - n)) (w + int n) ?buf Y (T\<lparr>sdisk := d\<rparr>) =
        Inr ((w + int n) + int (m - n), (T\<lparr>sdisk := d\<rparr>)\<lparr>sdisk := d'\<rparr>) \<and> sfs_state ready nb tb ((T\<lparr>sdisk := d\<rparr>)\<lparr>sdisk := d'\<rparr>) \<and>
      concat (map (blk d') bs) = splice (512 * Suc k) (take (m - n) ?buf) (concat (map (blk (sdisk (T\<lparr>sdisk := d\<rparr>))) bs)) \<and>
      (\<forall>b. b \<notin> set bs \<longrightarrow> blk d' b = blk (sdisk (T\<lparr>sdisk := d\<rparr>)) b)"
    proof (rule less.IH)
      show "512 * Suc k + (m - n) \<le> 512 * length bs" using less.prems(5) k by (auto simp: n_def)
    qed (use P(4,5) less.prems(2-4) n lr in auto)
    moreover have "splice (512 * Suc k) (take (m - n) ?buf) (splice (512 * k) (take n buf) ?F) = splice (512 * k) (take m buf) ?F"
    proof (cases "m \<le> 512")
      case True
      then have "n = m" by (simp add: n_def)
      then show ?thesis using k lenF less.prems(5,6) by simp
    next
      case False
      then have n512: "n = 512" by (simp add: n_def)
      have "take n buf @ take (m - n) (drop n buf) = take m buf" using take_add [of n "m - n" buf] n(2) by simp
      then show ?thesis
        using splice_splice [of "512 * k" "take n buf" "take (m - n) (drop n buf)" ?F] less.prems(5,6) n lenF tb n512
        by (simp add: add.commute)
    qed
    ultimately show ?thesis unfolding step using P(6,7) n(2) by (auto simp: of_nat_diff)
  qed
qed

end
context block_device begin

text \<open>The bytes of one file change; nothing else of the volume does.\<close>

lemma wf_data:
  assumes wf: "sfs_wf tb f W" and x: "(i, False) \<in> W" and g: "\<And>b. b \<notin> set (file_blocks f i) \<Longrightarrow> g b = f b"
    and len: "\<And>b. b < tb \<Longrightarrow> length (g b) = 512"
  shows "sfs_wf tb g W" "\<And>q. elem_list_ok q \<Longrightarrow> walk g 2 q = walk f 2 q" "tree_owners g = tree_owners f"
    "file_blocks g i = file_blocks f i" "filesize (inode_of (g i)) = filesize (inode_of (f i))"
    "\<And>y. y \<in> W \<Longrightarrow> y \<noteq> (i, False) \<Longrightarrow> b \<in> own f y \<Longrightarrow> g b = f b"
proof -
  note u = owner_content [OF wf x]
  have sys: "b \<notin> set (file_blocks f i)" if "b < 3" for b using u(5) that by auto
  have other: "b \<notin> set (file_blocks f i)" if "y \<in> W" "y \<noteq> (i, False)" "b \<in> own f y" for y b
    using sfs_wfD(7) [OF wf x that(1)] that(2,3) by auto
  have nodes: "g (fst y) = f (fst y)" if "y \<in> W" for y
  proof (cases "y = (i, False)")
    case True
    then show ?thesis using g u(8) by simp
  next
    case False
    then show ?thesis using g other [OF that False] own_self [of "fst y" f "snd y"] by simp
  qed
  have fr: "frame f g W" using nodes g [OF sys [of 2]] by (simp add: frame_def word_less_def)
  show w: "walk g 2 q = walk f 2 q" if "elem_list_ok q" for q by (rule frame_walk [OF wf fr that])
  show "tree_owners g = tree_owners f" by (rule tree_owners_cong) (rule w)
  have "g 1 = f 1" by (rule g [OF sys]) (simp add: word_less_def)
  then have mk: "marked g k = marked f k" for k by (simp add: marked_def)
  show "sfs_wf tb g W"
    by (rule wf_frame [OF wf fr len]) (use mk sfs_wfD(9,10) [OF wf] in blast)+
  have "g i = f i" using nodes [OF x] by simp
  then show "file_blocks g i = file_blocks f i" "filesize (inode_of (g i)) = filesize (inode_of (f i))"
    by (simp_all add: file_blocks_def)
  show "g b = f b" if "y \<in> W" "y \<noteq> (i, False)" "b \<in> own f y" for y using g other that by blast
qed

lemma write_file_ok:
  assumes st: "sfs_state ready nb tb T" and wf: "sfs_wf tb (blk (sdisk T)) W" and x: "(i, False) \<in> W"
    and n: "0 \<le> n" "n \<le> int (length buf)" and bat: "length bat = 512" and C: "C = content (blk (sdisk T)) i"
  obtains d where "write_file G (uint i) buf n off bat T =
      Inr (if off < 0 \<or> off > int (length C) then VFS_ERROR else min n (int (length C) - off), T\<lparr>sdisk := d\<rparr>)"
    "sfs_state ready nb tb (T\<lparr>sdisk := d\<rparr>)" "\<And>b. b \<notin> set (file_blocks (blk (sdisk T)) i) \<Longrightarrow> blk d b = blk (sdisk T) b"
    "content (blk d) i = (if off < 0 \<or> off > int (length C) then C
       else splice (nat off) (take (nat (min n (int (length C) - off))) buf) C)"
proof -
  let ?f = "blk (sdisk T)" and ?bs = "file_blocks (blk (sdisk T)) i" and ?v = "inode_of (blk (sdisk T) i)"
  note u = owner_content [OF wf x]
  have tb: "tb \<le> nb" using st by (simp add: sfs_state_def)
  have i: "i < nb" using u(7) tb by (rule less_le_trans)
  from sread_ok [OF st i] obtain d where d: "sread G i T = Inr (1, ?f i, T\<lparr>sdisk := d\<rparr>)" "blk d = ?f" "sfs_state ready nb tb (T\<lparr>sdisk := d\<rparr>)" by blast
  have sz: "sint (filesize ?v) = int (length C)" using u(2) C by simp
  show ?thesis
  proof (cases "off < 0 \<or> off > int (length C) \<or> min n (int (length C) - off) = 0")
    case True
    have e: "splice (nat off) (take (nat (min n (int (length C) - off))) buf) C = C" if "\<not> (off < 0 \<or> off > int (length C))"
      using True that by (simp add: nat_le_iff)
    have "write_file G (uint i) buf n off bat T =
        Inr (if off < 0 \<or> off > int (length C) then VFS_ERROR else min n (int (length C) - off), T\<lparr>sdisk := d\<rparr>)"
      using True d(1) sz by (auto simp: write_file_def Let_def)
    then show ?thesis using that [of d] d(2,3) e C by (cases "off < 0 \<or> off > int (length C)") simp_all
  next
    case False
    define p m where "p = nat off" and "m = nat (min n (int (length C) - off))"
    have om: "off = int p" "min n (int (length C) - off) = int m" "0 < m" "p + m \<le> length C" "m \<le> length buf"
      using False n by (auto simp: p_def m_def)
    have bound: "p + m \<le> 512 * length ?bs" using om(4) C u(1,4) by simp
    define r where "r = min (512 - p mod 512) m"
    note fp = first_piece [OF om(3), of p, folded r_def]
    let ?k = "p div 512" and ?F = "concat (map ?f ?bs)"
    have k: "?k < length ?bs" using bound om(3) by (simp add: less_mult_imp_div_less mult.commute)
    have bk: "rd (block ?v) (int ?k) = Inr (?bs ! ?k)" using k by (simp add: rd_def file_blocks_def Let_def)
    have r: "r \<le> m" "r \<le> length buf" using om(5) by (simp_all add: r_def)
    have bs: "distinct ?bs" "\<forall>b \<in> set ?bs. b < nb" "?bs = take (nblocks_of ?v) (block ?v)"
      using u(5,8) tb by (auto simp: file_blocks_def Let_def)
    obtain X d0 Y d1 where P: "(if r < 512 then sread G (?bs ! ?k) (T\<lparr>sdisk := d\<rparr>) else Inr (1, bat, T\<lparr>sdisk := d\<rparr>)) = Inr (1, X, (T\<lparr>sdisk := d\<rparr>)\<lparr>sdisk := d0\<rparr>)"
      "copy_in X (int (p mod 512)) (int r) buf = Inr Y" "swrite G (?bs ! ?k) Y ((T\<lparr>sdisk := d\<rparr>)\<lparr>sdisk := d0\<rparr>) = Inr (1, (T\<lparr>sdisk := d\<rparr>)\<lparr>sdisk := d1\<rparr>)"
      "sfs_state ready nb tb ((T\<lparr>sdisk := d\<rparr>)\<lparr>sdisk := d1\<rparr>)" "length Y = 512"
      "concat (map (blk d1) ?bs) = splice (512 * ?k + p mod 512) (take r buf) (concat (map (blk (sdisk (T\<lparr>sdisk := d\<rparr>))) ?bs))"
      "\<And>b. b \<notin> set ?bs \<Longrightarrow> blk d1 b = blk (sdisk (T\<lparr>sdisk := d\<rparr>)) b"
      by (rule sput_piece [OF d(3) bs(1,2) k fp(3,4) r(2) bat]) (rule that)
    have room: "512 * Suc ?k + (m - r) \<le> 512 * length ?bs" using k bound fp(2) by (cases "r < m") auto
    have lr: "m - r \<le> length (drop r buf)" using om(5) by simp
    have st1: "sfs_state ready nb tb (T\<lparr>sdisk := d1\<rparr>)" using P(4) by simp
    from sfs_write_loop_eq [OF st1 bs(3,1,2) room lr P(5), of "int r"] obtain d2 where d2:
      "sfs_write_loop G (block ?v) (int r + int (m - r)) (int (Suc ?k)) (last_block (Suc ?k) (m - r)) (int r) (drop r buf) Y (T\<lparr>sdisk := d1\<rparr>) =
        Inr (int r + int (m - r), T\<lparr>sdisk := d2\<rparr>)"
      "sfs_state ready nb tb (T\<lparr>sdisk := d2\<rparr>)"
      "concat (map (blk d2) ?bs) = splice (512 * Suc ?k) (take (m - r) (drop r buf)) (concat (map (blk d1) ?bs))"
      "\<forall>b. b \<notin> set ?bs \<longrightarrow> blk d2 b = blk d1 b" by auto
    have conv: "off sdiv 512 = int ?k" "off smod 512 = int (p mod 512)" "min (512 - int (p mod 512)) (int m) = int r"
      "(off + int m - 1) sdiv 512 = int ((p + m - 1) div 512)" "int r + int (m - r) = int m"
      using om(3) r by (auto simp: om(1) r_def zdiv_int zmod_int of_nat_diff of_nat_min)
    have c512: "int r < 512 \<longleftrightarrow> r < 512" by simp
    have run: "write_file G (uint i) buf n off bat T = Inr (int m, T\<lparr>sdisk := d2\<rparr>)"
      using False d(1) sz bk P(1-3) d2(1) fp(1) om(2,3)
      by (simp add: write_file_def sfs_sizes Let_def conv c512 om(2) add.commute split del: if_split)
    have g: "blk d2 b = ?f b" if "b \<notin> set ?bs" for b using that d2(4) P(7) d(2) by simp
    have lenF: "length ?F = 512 * length ?bs" by (rule u(3))
    have F: "concat (map (blk d2) ?bs) = splice p (take m buf) ?F"
    proof (cases "r < m")
      case True
      have "take r buf @ take (m - r) (drop r buf) = take m buf" using take_add [of r "m - r" buf] r by simp
      then show ?thesis
        using d2(3) P(6) d(2) splice_splice [of p "take r buf" "take (m - r) (drop r buf)" ?F] fp(2) [OF True] bound lenF r om(5) by simp
    next
      case eq: False
      with r have "r = m" by simp
      with d2(3) P(6) d(2) k lenF bound om(5) show ?thesis by simp
    qed
    have len: "length (blk d2 b) = 512" if "b < tb" for b
      using that tb d2(2) blk_length [of d2 b] by (auto simp: sfs_state_def)
    note ch = wf_data(4,5) [OF wf x g len]
    have "content (blk d2) i = splice p (take m buf) C"
      using F ch u(1,3,4) om(4,5) C by (simp add: content_def take_splice)
    then show ?thesis using that [of d2] run d2(2) g False om by simp
  qed
qed

end
section \<open>Reading a folder\<close>

text \<open>The names of a folder, each with its terminating zero.\<close>

definition names_bytes :: "tfs_direntry_t list \<Rightarrow> byte list" where
  "names_bytes es = concat (map (\<lambda>e. cstr (name e) @ [0]) es)"

definition folder_listing :: "byte list \<Rightarrow> byte list" where
  "folder_listing bs = word_bytes (word_of_int (int (length (dir_used bs)))) @ names_bytes (dir_used bs)"

lemma cstr_short: "terminated s \<Longrightarrow> length (cstr s) < length s"
  using terminated_split [of s] by (metis length_append length_Cons less_add_Suc1 add_Suc_right)

lemma names_bytes_length: "\<forall>e \<in> set es. length (cstr (name e)) \<le> 15 \<Longrightarrow> length (names_bytes es) \<le> 16 * length es"
  by (induction es) (auto simp: names_bytes_def)

lemma read_names_from:
  assumes md: "length md = 25" "\<forall>e \<in> set md. inode e \<noteq> 0 \<longrightarrow> terminated (name e) \<and> length (name e) = 16"
    and "r \<le> 25" "w \<le> 16 * r" "512 \<le> length buffer"
  shows "read_names md (int r) b (int w) buffer =
    Inr (b + int (length (filter (\<lambda>e. inode e \<noteq> 0) (drop r md))),
         int w + int (length (names_bytes (filter (\<lambda>e. inode e \<noteq> 0) (drop r md)))),
         splice (4 + w) (names_bytes (filter (\<lambda>e. inode e \<noteq> 0) (drop r md))) buffer)"
  using assms(3-)
proof (induction "25 - r" arbitrary: r b w buffer)
  case 0
  then have "r = 25" by simp
  with 0 md(1) show ?case by (subst read_names.simps) (simp add: sfs_sizes names_bytes_def)
next
  case (Suc x)
  then have r: "r < 25" "x = 25 - Suc r" by simp_all
  let ?e = "md ! r" let ?U = "filter (\<lambda>e. inode e \<noteq> 0) (drop (Suc r) md)"
  have rd: "rd md (int r) = Inr ?e" using r md(1) by simp
  have dr: "drop r md = ?e # drop (Suc r) md" using r md(1) by (simp add: Cons_nth_drop_Suc)
  have sr: "int r + 1 = int (Suc r)" by simp
  show ?case
  proof (cases "inode ?e = 0")
    case True
    have "read_names md (int r) b (int w) buffer = read_names md (int (Suc r)) b (int w) buffer"
      using True rd r(1) by (subst read_names.simps) (simp add: sfs_sizes add.commute)
    also have "\<dots> = Inr (b + int (length ?U), int w + int (length (names_bytes ?U)), splice (4 + w) (names_bytes ?U) buffer)"
      by (rule Suc.hyps(1) [OF r(2)]) (use Suc.prems r in simp_all)
    finally show ?thesis using True dr by simp
  next
    case False
    let ?c = "cstr (name ?e)"
    have "?e \<in> set md" using r md(1) by simp
    with md(2) False have t: "terminated (name ?e)" "length (name ?e) = 16" by blast+
    have c: "length ?c \<le> 15" using cstr_short [OF t(1)] t(2) by simp
    have sc: "stringcopy (drop (4 + w) buffer) (name ?e) 16 = Inr (?c @ 0 # drop (Suc (length ?c)) (drop (4 + w) buffer))"
      using stringcopy_eq [of 16 "drop (4 + w) buffer" "name ?e" ?c] t(1) c Suc.prems r(1) by simp
    let ?b = "splice (4 + w) (?c @ [0]) buffer"
    have sp: "take (4 + w) buffer @ ?c @ 0 # drop (Suc (length ?c)) (drop (4 + w) buffer) = ?b"
      by (simp add: splice_def add.commute add.left_commute)
    have n4: "nat (int w + 4) = w + 4" by simp
    have "read_names md (int r) b (int w) buffer = read_names md (int (Suc r)) (b + 1) (int (w + length ?c + 1)) ?b"
      using False rd r(1) sc strlen_eq [OF t(1)] sp
      by (subst read_names.simps) (simp add: sfs_sizes word_gt_0 n4 algebra_simps)
    also have "\<dots> = Inr (b + 1 + int (length ?U), int (w + length ?c + 1) + int (length (names_bytes ?U)),
        splice (4 + (w + length ?c + 1)) (names_bytes ?U) ?b)"
    proof (rule Suc.hyps(1) [OF r(2)])
      show "512 \<le> length ?b" using Suc.prems(2,3) r(1) c by simp
    qed (use Suc.prems r c in simp_all)
    also have "splice (4 + (w + length ?c + 1)) (names_bytes ?U) ?b = splice (4 + w) ((?c @ [0]) @ names_bytes ?U) buffer"
    proof -
      have "\<forall>e \<in> set ?U. length (cstr (name e)) \<le> 15"
        using md cstr_short by (fastforce dest: in_set_dropD)
      then have "length (names_bytes ?U) \<le> 16 * length ?U" by (rule names_bytes_length)
      also have "length ?U \<le> 25 - Suc r" using md(1) length_filter_le [of "\<lambda>e. inode e \<noteq> 0" "drop (Suc r) md"] by simp
      finally have "length (names_bytes ?U) \<le> 16 * (25 - Suc r)" by simp
      then show ?thesis
        using splice_splice [of "4 + w" "?c @ [0]" "names_bytes ?U" buffer] Suc.prems c r(1) by (simp add: add.assoc)
    qed
    finally show ?thesis using False dr by (simp add: names_bytes_def algebra_simps)
  qed
qed

context block_device begin

lemma read_folder_ok:
  assumes st: "sfs_state ready nb tb T" and i: "i < nb" and dir: "dir_ok (blk (sdisk T) i)" and n: "n \<le> int (length buffer)"
  obtains d where "read_folder G (uint i) buffer n off T =
      Inr (if off \<noteq> 0 \<or> n < 512 then (VFS_ERROR, buffer, T\<lparr>sdisk := d\<rparr>)
           else (int (length (folder_listing (blk (sdisk T) i))), splice 0 (folder_listing (blk (sdisk T) i)) buffer, T\<lparr>sdisk := d\<rparr>))"
    "sfs_state ready nb tb (T\<lparr>sdisk := d\<rparr>)" "blk d = blk (sdisk T)"
proof (cases "off \<noteq> 0 \<or> n < 512")
  case True
  then show ?thesis using that [of "sdisk T"] st by (simp add: read_folder_def sfs_sizes)
next
  case False
  let ?bs = "blk (sdisk T) i" let ?U = "dir_used ?bs"
  from sread_ok [OF st i] obtain d where d: "sread G i T = Inr (1, ?bs, T\<lparr>sdisk := d\<rparr>)" "blk d = blk (sdisk T)" "sfs_state ready nb tb (T\<lparr>sdisk := d\<rparr>)" by blast
  have len: "length ?bs = 512" using dir by (simp add: dir_ok_def)
  have md: "\<forall>e \<in> set (dir_of ?bs). inode e \<noteq> 0 \<longrightarrow> terminated (name e) \<and> length (name e) = 16"
    using dir dir_of_name [OF len] by (auto simp: dir_ok_def dir_used_def)
  have b512: "512 \<le> length buffer" using False n by linarith
  let ?S = "names_bytes ?U" let ?w = "word_bytes (word_of_int (int (length ?U)))"
  have rn: "read_names (dir_of ?bs) 0 0 0 buffer = Inr (int (length ?U), int (length ?S), splice 4 ?S buffer)"
    using read_names_from [OF dir_of_length md, of 0 0 buffer 0] b512 by (simp add: dir_used_def)
  have "\<forall>e \<in> set ?U. length (cstr (name e)) \<le> 15"
    using md cstr_short by (fastforce simp: dir_used_def)
  then have "length ?S \<le> 16 * length ?U" by (rule names_bytes_length)
  also have "length ?U \<le> 25" using length_filter_le [of "\<lambda>e. inode e \<noteq> 0" "dir_of ?bs"] by (simp add: dir_used_def)
  finally have S: "length ?S \<le> 400" by simp
  have cp: "copy_in (splice 4 ?S buffer) 0 4 ?w = Inr (splice 0 ?w (splice 4 ?S buffer))"
    using copy_in_eq [of 4 0 "splice 4 ?S buffer" ?w] S b512 by simp
  have sp: "splice 0 ?w (splice 4 ?S buffer) = splice 0 (?w @ ?S) buffer"
    by (rule nth_equalityI) (use S b512 in \<open>auto simp: splice_nth nth_append\<close>)
  have "read_folder G (uint i) buffer n off T = Inr (int (length (folder_listing ?bs)), splice 0 (folder_listing ?bs) buffer, T\<lparr>sdisk := d\<rparr>)"
    using False d(1) rn cp sp by (simp add: read_folder_def sfs_sizes folder_listing_def)
  then show ?thesis using that [of d] d(2,3) False by simp
qed

end
section \<open>The calls\<close>

lemma sfs_back: "T\<lparr>open_files := es, sdisk := d, open_files := open_files T\<rparr> = T\<lparr>sdisk := d\<rparr>"
  by (rule sfs_t.equality) simp_all

lemma relock_entry:
  "io_lock (e :: sfs_openfile_t) = 1 \<Longrightarrow> e\<lparr>readernum := n, io_lock := 1\<rparr> = e\<lparr>readernum := n\<rparr>"
  "io_lock (e :: sfs_openfile_t) = 1 \<Longrightarrow> e\<lparr>writer_tid := t, io_lock := 1\<rparr> = e\<lparr>writer_tid := t\<rparr>"
  by (rule sfs_openfile_t.equality; simp)+

lemma begin_read_eq:
  assumes "length (open_files T) = 32" "k < 32" "io_lock (open_files T ! k) = 1" "writer_tid (open_files T ! k) = -1"
  shows "sfs_begin_read (int k) T =
    Inr (T\<lparr>open_files := (open_files T)[k := (open_files T ! k)\<lparr>readernum := readernum (open_files T ! k) + 1\<rparr>]\<rparr>)"
  using assms by (simp add: sfs_begin_read_def lock_entry_def unlock_entry_def set_entry_ok start_read_def relock_entry)

lemma end_read_eq:
  assumes "length (open_files T) = 32" "k < 32" "io_lock (open_files T ! k) = 1"
  shows "sfs_end_read G (int k) T =
    sfs_exit G (int k) False (T\<lparr>open_files := (open_files T)[k := (open_files T ! k)\<lparr>readernum := readernum (open_files T ! k) - 1\<rparr>]\<rparr>)"
  using assms by (simp add: sfs_end_read_def lock_entry_def unlock_entry_def set_entry_ok finish_read_def relock_entry)

lemma begin_write_eq:
  assumes "length (open_files T) = 32" "k < 32" "io_lock (open_files T ! k) = 1" "writer_tid (open_files T ! k) = -1" "readernum (open_files T ! k) = 0"
  shows "sfs_begin_write tid (int k) T = Inr (T\<lparr>open_files := (open_files T)[k := (open_files T ! k)\<lparr>writer_tid := tid\<rparr>]\<rparr>)"
  using assms
    by (simp add: sfs_begin_write_def lock_entry_def unlock_entry_def set_entry_ok claim_write_def write_blocked_def relock_entry)

lemma end_write_eq:
  assumes "length (open_files T) = 32" "k < 32" "io_lock (open_files T ! k) = 1"
  shows "sfs_end_write G (int k) T =
    sfs_exit G (int k) False (T\<lparr>open_files := (open_files T)[k := (open_files T ! k)\<lparr>writer_tid := -1\<rparr>]\<rparr>)"
  using assms by (simp add: sfs_end_write_def lock_entry_def unlock_entry_def set_entry_ok finish_write_def relock_entry)

lemma entry_idle:
  fixes i :: u32
  assumes "table_ok tb es" "k < 32" "fileid (es ! k) = uint i"
  shows "writer_tid (es ! k) = -1" "readernum (es ! k) = 0"
  using table_entry(1) [OF assms] by (simp_all add: entry_wf_def)

context block_device begin

lemma fid_range:
  assumes "sfs_inv ready blk nb tb T" "k < 32" "fileid (open_files T ! k) = uint i"
  shows "\<not> (uint i < SFS_DIRECTORY_BLOCK \<or> uint i > sint (totalvblocks T))" "i < nb"
proof -
  note t = sfs_invD [OF assms(1)]
  note e = table_entry [OF t(4) assms(2,3)]
  have tb: "totalvblocks T = tb" "tb \<le> nb" "uint tb \<le> 4096" using t(1) sfs_wfD(2) [OF t(6)] by (simp_all add: sfs_state_def word_le_def)
  show "i < nb" using e(5) tb(2) by (rule less_le_trans)
  have "sint tb = uint tb" using tb(3) by (intro sint_small) simp
  then show "\<not> (uint i < SFS_DIRECTORY_BLOCK \<or> uint i > sint (totalvblocks T))"
    using e(4,5) tb(1) by (simp add: sfs_sizes word_le_def word_less_def)
qed

lemma open_owner:
  assumes inv: "sfs_inv ready blk nb tb T" and k: "k < 32" "fileid (open_files T ! k) = uint i"
  shows "\<not> is_folder (open_files T ! k) \<Longrightarrow> (i, False) \<in> tree_owners (blk (sdisk T)) \<union> open_owners (open_files T)"
    "is_folder (open_files T ! k) \<Longrightarrow> dir_ok (blk (sdisk T) i)"
proof -
  note t = sfs_invD [OF inv]
  note e = table_entry [OF t(4) k]
  have mem: "i \<noteq> 2 \<Longrightarrow> (i, is_folder (open_files T ! k)) \<in> open_owners (open_files T)"
    using e(6) k(2) by (auto simp: open_owners_def)
  have root: "is_folder (open_files T ! k)" if "i = 2"
    using t(5) [unfolded linked_ok_def, rule_format, OF e(6) elem_list_ok_Nil, of 2] k(2) that by (simp add: is_dir_def)
  show "(i, False) \<in> tree_owners (blk (sdisk T)) \<union> open_owners (open_files T)" if "\<not> is_folder (open_files T ! k)"
    using that mem root by auto
  show "dir_ok (blk (sdisk T) i)" if "is_folder (open_files T ! k)"
  proof (cases "i = 2")
    case True
    then show ?thesis using sfs_wfD(4) [OF t(6)] by simp
  next
    case False
    then show ?thesis using sfs_wfD(6) [OF t(6), of "(i, True)"] mem that by simp
  qed
qed

lemma read_effect:
  assumes inv: "sfs_inv ready blk nb tb T" and n: "0 \<le> n" "n \<le> int (length buffer)"
  obtains r buffer' T' where "sfs_read G (uint i) buffer n off T = Inr (r, buffer', T')" "sfs_inv ready blk nb tb T'"
    "blk (sdisk T') = blk (sdisk T)" "kres T' = kres T" "open_files T' = open_files T"
    "case open_view (open_files T) i of
       None \<Rightarrow> r = VFS_ERROR \<and> buffer' = buffer
     | Some (_, False) \<Rightarrow>
         if off < 0 \<or> off > int (length (content (blk (sdisk T)) i)) then r = VFS_ERROR \<and> buffer' = buffer
         else r = min n (int (length (content (blk (sdisk T)) i)) - off) \<and> buffer' = splice 0 (slice (nat off) (nat r) (content (blk (sdisk T)) i)) buffer
     | Some (_, True) \<Rightarrow>
         if off \<noteq> 0 \<or> n < 512 then r = VFS_ERROR \<and> buffer' = buffer
         else r = int (length (folder_listing (blk (sdisk T) i))) \<and> buffer' = splice 0 (folder_listing (blk (sdisk T) i)) buffer"
proof (cases rule: sfs_enter_eq [OF inv, of i])
  case 2
  then show ?thesis using that [of VFS_ERROR buffer T] inv by (simp add: sfs_read_def)
next
  case (1 k)
  note t = sfs_invD [OF inv]
  let ?es = "open_files T" let ?e = "?es ! k" let ?f = "blk (sdisk T)" let ?es1 = "?es[k := ?e\<lparr>readernum := readernum ?e + 1\<rparr>]"
  let ?T1 = "T\<lparr>open_files := ?es1\<rparr>"
  have E: "blk (sdisk ?T1) = ?f" by simp
  note e = table_entry [OF t(4) 1(2,3)] and idle = entry_idle [OF t(4) 1(2,3)]
  have len: "length ?es = 32" by (rule table_okD(1) [OF t(4)])
  note b = begin_read_eq [OF len 1(2) e(2) idle(1)]
  have s1: "sfs_state ready nb tb ?T1" using t(1) len by (simp add: sfs_state_def)
  have fin: "sfs_end_read G (int k) (?T1\<lparr>sdisk := d\<rparr>) = Inr (T\<lparr>sdisk := d\<rparr>)" "sfs_inv ready blk nb tb (T\<lparr>sdisk := d\<rparr>)"
    if d: "sfs_state ready nb tb (?T1\<lparr>sdisk := d\<rparr>)" "blk d = ?f" for d
  proof -
    have "sfs_state ready nb tb (T\<lparr>sdisk := d\<rparr>)" using d(1) len by (simp add: sfs_state_def)
    then show inv': "sfs_inv ready blk nb tb (T\<lparr>sdisk := d\<rparr>)" using d(2) by (intro inv_keeps [OF inv]) simp_all
    have "fileid (open_files (T\<lparr>sdisk := d\<rparr>) ! k) = uint i" using 1(3) by simp
    note x = exit_keep [OF inv' 1(2) this]
    show "sfs_end_read G (int k) (?T1\<lparr>sdisk := d\<rparr>) = Inr (T\<lparr>sdisk := d\<rparr>)"
      using end_read_eq [of "?T1\<lparr>sdisk := d\<rparr>" k G] len 1(2) e(2) x sfs_back [where d = d] by simp
  qed
  note range = fid_range [OF inv 1(2,3)]
  show ?thesis
  proof (cases "is_folder ?e")
    case True
    have dir: "dir_ok (blk (sdisk ?T1) i)" using open_owner(2) [OF inv 1(2,3) True] by simp
    obtain d where
      d: "read_folder G (uint i) buffer n off ?T1 = Inr (if off \<noteq> 0 \<or> n < 512 then (VFS_ERROR, buffer, ?T1\<lparr>sdisk := d\<rparr>)
           else (int (length (folder_listing (?f i))), splice 0 (folder_listing (?f i)) buffer, ?T1\<lparr>sdisk := d\<rparr>))"
      "sfs_state ready nb tb (?T1\<lparr>sdisk := d\<rparr>)" "blk d = ?f"
      by (rule read_folder_ok [OF s1 range(2) dir n(2), of off, unfolded E]) (rule that)
    note f = fin [OF d(2,3)]
    have "sfs_read G (uint i) buffer n off T = Inr (if off \<noteq> 0 \<or> n < 512 then (VFS_ERROR, buffer, T\<lparr>sdisk := d\<rparr>)
        else (int (length (folder_listing (?f i))), splice 0 (folder_listing (?f i)) buffer, T\<lparr>sdisk := d\<rparr>))"
      using range(1) 1(1,2) b len True d(1) f(1) by (simp add: sfs_read_def)
    then show ?thesis using that [of _ _ "T\<lparr>sdisk := d\<rparr>"] f(2) d(3) 1(4) True by (cases "off \<noteq> 0 \<or> n < 512") simp_all
  next
    case False
    let ?C = "content ?f i"
    have x: "(i, False) \<in> tree_owners ?f \<union> open_owners ?es" by (rule open_owner(1) [OF inv 1(2,3) False])
    have wf: "sfs_wf tb (blk (sdisk ?T1)) (tree_owners ?f \<union> open_owners ?es)" using t(6) by simp
    have C: "?C = content (blk (sdisk ?T1)) i" by simp
    obtain d where
      d: "read_file G (uint i) buffer n off ?T1 = Inr (if off < 0 \<or> off > int (length ?C) then (VFS_ERROR, buffer, ?T1\<lparr>sdisk := d\<rparr>)
           else (min n (int (length ?C) - off), splice 0 (slice (nat off) (nat (min n (int (length ?C) - off))) ?C) buffer, ?T1\<lparr>sdisk := d\<rparr>))"
      "sfs_state ready nb tb (?T1\<lparr>sdisk := d\<rparr>)" "blk d = ?f"
      by (rule read_file_ok [OF s1 wf x n C, of off, unfolded E]) (rule that)
    note f = fin [OF d(2,3)]
    have "sfs_read G (uint i) buffer n off T = Inr (if off < 0 \<or> off > int (length ?C) then (VFS_ERROR, buffer, T\<lparr>sdisk := d\<rparr>)
        else (min n (int (length ?C) - off), splice 0 (slice (nat off) (nat (min n (int (length ?C) - off))) ?C) buffer, T\<lparr>sdisk := d\<rparr>))"
      using range(1) 1(1,2) b len False d(1) f(1) by (simp add: sfs_read_def)
    then show ?thesis using that [of _ _ "T\<lparr>sdisk := d\<rparr>"] f(2) d(3) 1(4) False
      by (cases "off < 0 \<or> off > int (length ?C)") simp_all
  qed
qed

lemma write_effect:
  assumes inv: "sfs_inv ready blk nb tb T" and n: "0 \<le> n" "n \<le> int (length buf)" and bat: "length bat = 512"
  obtains r T' where "sfs_write G tid (uint i) buf n off bat T = Inr (r, T')" "sfs_inv ready blk nb tb T'"
    "kres T' = kres T" "open_files T' = open_files T"
    "\<And>q. elem_list_ok q \<Longrightarrow> walk (blk (sdisk T')) 2 q = walk (blk (sdisk T)) 2 q"
    "case open_view (open_files T) i of
       Some (_, False) \<Rightarrow>
         (let C = content (blk (sdisk T)) i in
          if off < 0 \<or> off > int (length C) then r = VFS_ERROR \<and> content (blk (sdisk T')) i = C
          else r = min n (int (length C) - off) \<and> content (blk (sdisk T')) i = splice (nat off) (take (nat r) buf) C) \<and>
         (\<forall>b. b \<notin> set (file_blocks (blk (sdisk T)) i) \<longrightarrow> blk (sdisk T') b = blk (sdisk T) b)
     | _ \<Rightarrow> r = VFS_ERROR \<and> blk (sdisk T') = blk (sdisk T)"
proof (cases rule: sfs_enter_eq [OF inv, of i])
  case 2
  then show ?thesis using that [of VFS_ERROR T] inv by (simp add: sfs_write_def)
next
  case (1 k)
  note t = sfs_invD [OF inv]
  let ?es = "open_files T" let ?e = "?es ! k" let ?f = "blk (sdisk T)" let ?es1 = "?es[k := ?e\<lparr>writer_tid := tid\<rparr>]"
  let ?T1 = "T\<lparr>open_files := ?es1\<rparr>" let ?W = "tree_owners ?f \<union> open_owners ?es"
  have E: "blk (sdisk ?T1) = ?f" by simp
  note e = table_entry [OF t(4) 1(2,3)] and idle = entry_idle [OF t(4) 1(2,3)] and range = fid_range [OF inv 1(2,3)]
  have len: "length ?es = 32" by (rule table_okD(1) [OF t(4)])
  show ?thesis
  proof (cases "is_folder ?e")
    case True
    then show ?thesis using that [of VFS_ERROR T] inv range(1) 1 len by (simp add: sfs_write_def)
  next
    case False
    let ?C = "content ?f i"
    note b = begin_write_eq [OF len 1(2) e(2) idle, of tid]
    have s1: "sfs_state ready nb tb ?T1" using t(1) len by (simp add: sfs_state_def)
    have x: "(i, False) \<in> ?W" by (rule open_owner(1) [OF inv 1(2,3) False])
    have wf: "sfs_wf tb (blk (sdisk ?T1)) ?W" using t(6) by simp
    have C: "?C = content (blk (sdisk ?T1)) i" by simp
    obtain d where
      d: "write_file G (uint i) buf n off bat ?T1 = Inr (if off < 0 \<or> off > int (length ?C) then VFS_ERROR else min n (int (length ?C) - off), ?T1\<lparr>sdisk := d\<rparr>)"
      "sfs_state ready nb tb (?T1\<lparr>sdisk := d\<rparr>)" "\<And>b. b \<notin> set (file_blocks ?f i) \<Longrightarrow> blk d b = ?f b"
      "content (blk d) i = (if off < 0 \<or> off > int (length ?C) then ?C else splice (nat off) (take (nat (min n (int (length ?C) - off))) buf) ?C)"
      by (rule write_file_ok [OF s1 wf x n bat C, of off, unfolded E]) (rule that)
    have l: "length (blk d b) = 512" if "b < tb" for b
      using that d(2) blk_length [of d b] by (auto simp: sfs_state_def)
    note w = wf_data [OF t(6) x d(3) l]
    let ?T' = "T\<lparr>sdisk := d\<rparr>"
    have s': "sfs_state ready nb tb ?T'" using d(2) len by (simp add: sfs_state_def)
    have inv': "sfs_inv ready blk nb tb ?T'"
      using t s' w(1,3) linked_cong [OF t(5) w(2)] by (simp add: sfs_inv_def)
    have k': "fileid (open_files ?T' ! k) = uint i" using 1(3) by simp
    have bk: "(?es ! k)\<lparr>writer_tid := -1\<rparr> = ?es ! k" using idle(1) by simp
    have "sfs_end_write G (int k) (?T1\<lparr>sdisk := d\<rparr>) = Inr ?T'"
      using end_write_eq [of "?T1\<lparr>sdisk := d\<rparr>" k G] len 1(2) e(2) exit_keep [OF inv' 1(2) k'] bk sfs_back [where d = d] by simp
    then have "sfs_write G tid (uint i) buf n off bat T = Inr (if off < 0 \<or> off > int (length ?C) then VFS_ERROR else min n (int (length ?C) - off), ?T')"
      using range(1) 1(1,2) b len False d(1) by (simp add: sfs_write_def)
    moreover have "walk (blk (sdisk ?T')) 2 q = walk ?f 2 q" if "elem_list_ok q" for q using w(2) [OF _ _ that] by simp
    ultimately show ?thesis using that [OF _ inv'] d(3,4) 1(4) False
      by (cases "off < 0 \<or> off > int (length ?C)") (simp_all add: Let_def)
  qed
qed

end
end
