(* ===== verification/Sfs_create.thy ===== *)
theory Sfs_create
  imports Sfs_data
begin

text \<open>
  Creating files and folders in the student filesystem: the new node is empty or zero, it takes
  blocks that were free, and its folder has one name more.
\<close>

section \<open>The new directory entry\<close>

text \<open>The block of a folder with entry \<open>k\<close> filled.\<close>

definition with_entry :: "nat \<Rightarrow> u32 \<Rightarrow> cstring \<Rightarrow> byte list \<Rightarrow> byte list" where
  "with_entry k i nm bs = of_dir ((dir_of bs)[k := \<lparr>inode = i, name = nm\<rparr>]) @ drop 500 bs"

lemma with_entry_dir:
  assumes bs: "length bs = 512" and k: "k < 25" and nm: "length nm = 16"
  shows "dir_of (with_entry k i nm bs) = (dir_of bs)[k := \<lparr>inode = i, name = nm\<rparr>]" "length (with_entry k i nm bs) = 512"
proof -
  have names: "length (name e) = 16" if "e \<in> set ((dir_of bs)[k := \<lparr>inode = i, name = nm\<rparr>])" for e
    using that dir_of_name [OF bs] nm by (auto dest!: set_update_subset_insert [THEN subsetD])
  show "dir_of (with_entry k i nm bs) = (dir_of bs)[k := \<lparr>inode = i, name = nm\<rparr>]"
    unfolding with_entry_def by (rule dir_of_dir [OF names]) simp_all
  show "length (with_entry k i nm bs) = 512"
    using of_dir_length [OF names] bs by (simp add: with_entry_def)
qed

lemma with_entry_ok:
  assumes ok: "dir_ok bs" and k: "k < 25" "inode (dir_of bs ! k) = 0" and nm: "length nm = 16" "terminated nm" "elem_shape (cstr nm)"
    and i: "i \<noteq> 0" and new: "dir_lookup bs (cstr nm) = None"
  shows "dir_ok (with_entry k i nm bs)" "dir_lookup (with_entry k i nm bs) = (dir_lookup bs)(cstr nm \<mapsto> i)"
proof -
  have len: "length bs = 512" using ok by (simp add: dir_ok_def)
  note d = with_entry_dir [OF len k(1) nm(1), of i]
  let ?P = "\<lambda>e. inode e \<noteq> 0" let ?e = "\<lparr>inode = i, name = nm\<rparr>"
  let ?A = "filter ?P (take k (dir_of bs))" let ?B = "filter ?P (drop (Suc k) (dir_of bs))"
  have split: "dir_of bs = take k (dir_of bs) @ dir_of bs ! k # drop (Suc k) (dir_of bs)"
    using k(1) by (intro id_take_nth_drop) simp
  have old: "dir_used bs = ?A @ ?B" unfolding dir_used_def by (subst split) (use k in simp)
  have used: "dir_used (with_entry k i nm bs) = ?A @ ?e # ?B"
    using k i by (simp add: dir_used_def d(1) upd_conv_take_nth_drop)
  have fresh: "\<forall>e \<in> set (?A @ ?B). cstr (name e) \<noteq> cstr nm" using new unfolding dir_lookup_None old .
  have dist: "distinct (map (\<lambda>e. cstr (name e)) (?A @ ?B))" "\<forall>e \<in> set (?A @ ?B). terminated (name e) \<and> elem_shape (cstr (name e))"
    using ok unfolding dir_ok_def old by blast+
  have "distinct (map (\<lambda>e. cstr (name e)) (?A @ ?e # ?B))" using dist(1) fresh by auto
  then show ok': "dir_ok (with_entry k i nm bs)"
    using d(2) dist(2) nm unfolding dir_ok_def used by auto
  show "dir_lookup (with_entry k i nm bs) = (dir_lookup bs)(cstr nm \<mapsto> i)"
  proof
    fix y
    show "dir_lookup (with_entry k i nm bs) y = ((dir_lookup bs)(cstr nm \<mapsto> i)) y"
    proof (rule option_eqI)
      fix j
      show "dir_lookup (with_entry k i nm bs) y = Some j \<longleftrightarrow> ((dir_lookup bs)(cstr nm \<mapsto> i)) y = Some j"
      proof (cases "y = cstr nm")
        case True
        have "dir_lookup (with_entry k i nm bs) y = Some i"
          unfolding dir_lookup_Some [OF ok'] used using True by auto
        with True show ?thesis by simp
      next
        case False
        then show ?thesis unfolding fun_upd_other [OF False] dir_lookup_Some [OF ok'] dir_lookup_Some [OF ok] used old by auto
      qed
    qed
  qed
qed

lemma last_free_from:
  assumes md: "length md = 25" and "r \<le> 25" "case x of None \<Rightarrow> \<forall>j < r. inode (md ! j) \<noteq> 0 | Some k \<Rightarrow> k < r \<and> inode (md ! k) = 0"
  shows "\<exists>y. last_free md (int r) (case x of None \<Rightarrow> -1 | Some k \<Rightarrow> int k) = Inr (case y of None \<Rightarrow> -1 | Some k \<Rightarrow> int k) \<and>
    (case y of None \<Rightarrow> \<forall>j < 25. inode (md ! j) \<noteq> 0 | Some k \<Rightarrow> k < 25 \<and> inode (md ! k) = 0)"
  using assms(2-)
proof (induction "25 - r" arbitrary: r x)
  case 0
  then have "r = 25" by simp
  with 0 show ?case by (subst last_free.simps) (auto simp: sfs_sizes intro!: exI [of _ x])
next
  case (Suc n)
  then have r: "r < 25" "n = 25 - Suc r" by simp_all
  let ?x = "if inode (md ! r) = 0 then Some r else x"
  have "last_free md (int r) (case x of None \<Rightarrow> -1 | Some k \<Rightarrow> int k) = last_free md (int (Suc r)) (case ?x of None \<Rightarrow> -1 | Some k \<Rightarrow> int k)"
    using r(1) md by (subst last_free.simps) (simp add: sfs_sizes add.commute)
  moreover have "case ?x of None \<Rightarrow> \<forall>j < Suc r. inode (md ! j) \<noteq> 0 | Some k \<Rightarrow> k < Suc r \<and> inode (md ! k) = 0"
    using Suc.prems(2) by (auto split: option.splits simp: less_Suc_eq)
  ultimately show ?case using Suc.hyps(1) [OF r(2), of ?x] r(1) by simp
qed

lemma last_free_cases:
  assumes md: "length md = 25"
  obtains (free) k where "last_free md 0 (-1) = Inr (int k)" "k < 25" "inode (md ! k) = 0"
    | (full) "last_free md 0 (-1) = Inr (-1)" "\<forall>e \<in> set md. inode e \<noteq> 0"
proof -
  from last_free_from [OF md, of 0 None] obtain y where y: "last_free md 0 (-1) = Inr (case y of None \<Rightarrow> -1 | Some k \<Rightarrow> int k)"
    "case y of None \<Rightarrow> \<forall>j < 25. inode (md ! j) \<noteq> 0 | Some k \<Rightarrow> k < 25 \<and> inode (md ! k) = 0" by auto
  show ?thesis
  proof (cases y)
    case None
    then show ?thesis using y md by (intro full) (auto simp: all_set_conv_all_nth)
  next
    case (Some k)
    then show ?thesis using y free [of k] by simp
  qed
qed

section \<open>Allocating\<close>

text \<open>The buffers that allocation works on are those of the trivial filesystem.\<close>

definition as_tfs :: "'d sfs_t \<Rightarrow> 'd tfs_t" where
  "as_tfs T = \<lparr>totalblocks = totalvblocks T, disk = sdisk T, tlock = slock T, buffer_inode = sbuf_inode T,
     buffer_bat = sbuf_bat T, buffer_md = sbuf_md T, md_rest = smd_rest T\<rparr>"

lemma as_tfs_sel [simp]:
  "totalblocks (as_tfs T) = totalvblocks T" "buffer_inode (as_tfs T) = sbuf_inode T" "buffer_bat (as_tfs T) = sbuf_bat T"
  "(as_tfs T)\<lparr>buffer_bat := X\<rparr> = as_tfs (T\<lparr>sbuf_bat := X\<rparr>)" "(as_tfs T)\<lparr>buffer_inode := v\<rparr> = as_tfs (T\<lparr>sbuf_inode := v\<rparr>)"
  by (simp_all add: as_tfs_def)

lemma sbat_findnset_eq:
  "sbat_findnset T = rbind (bat_findnset (as_tfs T)) (\<lambda>(k, t). Inr (k, T\<lparr>sbuf_bat := buffer_bat t\<rparr>))"
  by (simp add: sbat_findnset_def bat_findnset_def rbind_assoc case_prod_beta)

lemma sfs_alloc_blocks_eq:
  "sfs_alloc_blocks i n T = rbind (alloc_blocks i n (as_tfs T)) (\<lambda>(ok, t). Inr (ok, T\<lparr>sbuf_bat := buffer_bat t, sbuf_inode := buffer_inode t\<rparr>))"
proof (induction i n T rule: sfs_alloc_blocks.induct)
  case (1 i n T)
  show ?case
  proof (cases "i < n")
    case False
    then show ?thesis by (subst sfs_alloc_blocks.simps, subst alloc_blocks.simps) simp
  next
    case True
    show ?thesis
    proof (cases "bitmap_findnset (block_words (sbuf_bat T)) (sint (totalvblocks T))")
      case (Inl e)
      then show ?thesis using True
        by (subst sfs_alloc_blocks.simps, subst alloc_blocks.simps) (simp add: sbat_findnset_def bat_findnset_def)
    next
      case (Inr r)
      obtain k bm where r: "r = (k, bm)" by (cases r)
      let ?T = "T\<lparr>sbuf_bat := words_block bm\<rparr>"
      have f: "sbat_findnset T = Inr (k, ?T)" "bat_findnset (as_tfs T) = Inr (k, as_tfs ?T)"
        using Inr r by (simp_all add: sbat_findnset_def bat_findnset_def)
      show ?thesis
      proof (cases "wr (block (sbuf_inode T)) i (word_of_int k)")
        case (Inl e)
        then show ?thesis using True f by (subst sfs_alloc_blocks.simps, subst alloc_blocks.simps) simp
      next
        case (Inr bl)
        let ?T2 = "?T\<lparr>sbuf_inode := (sbuf_inode T)\<lparr>block := bl\<rparr>\<rparr>"
        have "sfs_alloc_blocks i n T = (if k = -1 then Inr (False, ?T2) else sfs_alloc_blocks (i + 1) n ?T2)"
          using True f Inr by (subst sfs_alloc_blocks.simps) simp
        moreover have "alloc_blocks i n (as_tfs T) = (if k = -1 then Inr (False, as_tfs ?T2) else alloc_blocks (i + 1) n (as_tfs ?T2))"
          using True f Inr by (subst alloc_blocks.simps) simp
        moreover have "sfs_alloc_blocks (i + 1) n ?T2 =
            rbind (alloc_blocks (i + 1) n (as_tfs ?T2)) (\<lambda>(ok, t). Inr (ok, ?T2\<lparr>sbuf_bat := buffer_bat t, sbuf_inode := buffer_inode t\<rparr>))"
          if "k \<noteq> -1" using "1.IH" [OF True f(1) refl _ refl that] Inr by simp
        ultimately show ?thesis by simp
      qed
    qed
  qed
qed

lemma sfs_clear_blocks_eq:
  assumes "length bl = 127" "n \<le> 127"
  shows "sfs_clear_blocks (int n) bl = Inr (take n bl @ replicate (127 - n) 0)"
proof -
  have "sfs_clear_blocks i bl = clear_blocks i bl" for i bl
  proof (induction i bl rule: sfs_clear_blocks.induct)
    case (1 i bl)
    then show ?case
      by (subst sfs_clear_blocks.simps, subst clear_blocks.simps) (cases "wr bl i 0"; simp add: sfs_sizes tfs_sizes)
  qed
  then show ?thesis using clear_blocks_eq [OF assms] by simp
qed

section \<open>The volume with a new node\<close>

text \<open>The block of a node that has just been created, and the blocks of data it has.\<close>

definition node_ok :: "u32 \<Rightarrow> bool \<Rightarrow> byte list \<Rightarrow> u32 list \<Rightarrow> bool" where
  "node_ok tb d N ks \<longleftrightarrow> length N = 512 \<and>
     (if d then ks = [] \<and> dir_used N = [] else inode_ok tb (inode_of N) \<and> take (nblocks_of (inode_of N)) (block (inode_of N)) = ks)"

lemma empty_dir: "length N = 512 \<Longrightarrow> dir_used N = [] \<Longrightarrow> dir_ok N \<and> dir_lookup N = Map.empty"
  by (simp add: dir_ok_def dir_lookup_def)

lemma wf_fresh:
  assumes wf: "sfs_wf tb f W" and i: "i < tb" "\<not> marked f i"
    and ks: "distinct (i # ks)" "\<forall>b \<in> set ks. b < tb \<and> \<not> marked f b"
    and N: "node_ok tb d N ks" and X: "length X = 512" "\<forall>b < tb. marked (f(1 := X)) b \<longleftrightarrow> marked f b \<or> b = i \<or> b \<in> set ks"
    and h: "h = (\<lambda>b. if b \<in> set ks then replicate 512 0 else (f(1 := X, i := N)) b)"
  shows "sfs_wf tb h (insert (i, d) W)" "\<And>q. elem_list_ok q \<Longrightarrow> walk h 2 q = walk f 2 q" "(i, d) \<notin> tree_owners f"
    "own h (i, d) = insert i (set ks)" "\<And>b. b < tb \<Longrightarrow> marked f b \<Longrightarrow> b \<noteq> 1 \<Longrightarrow> h b = f b"
proof -
  have low: "marked f b" "b < tb" if "b < 3" for b
  proof -
    show "b < tb" by (rule less_le_trans [OF that sfs_wfD(1) [OF wf]])
    then show "marked f b" using sfs_wfD(9) [OF wf _ that] by blast
  qed
  have i3: "3 \<le> i" using low(1) [of i] i(2) by (auto simp: not_less [symmetric])
  have ks3: "3 \<le> b" if "b \<in> set ks" for b using low(1) [of b] ks(2) that by (auto simp: not_less [symmetric])
  have s3: "(1 :: u32) < 3" "(2 :: u32) < 3" by (simp_all add: word_less_def)
  have ne: "i \<noteq> 1" "1 \<notin> set ks" using i3 ks3 [of 1] by (auto simp: word_le_def)
  show same: "h b = f b" if "b < tb" "marked f b" "b \<noteq> 1" for b
    using that i(2) ks(2) unfolding h by auto
  have own_marked: "marked f b" "b < tb" "b \<noteq> 1" if "x \<in> W" "b \<in> own f x" for x b
  proof -
    note r = own_range [OF wf that]
    show "b < tb" using r by blast
    then show "marked f b" by (rule sfs_wfD(10) [OF wf that])
    show "b \<noteq> 1" using r by (auto simp: word_le_def)
  qed
  have fr: "frame f h W"
    unfolding frame_def
  proof (intro conjI ballI)
    show "h 2 = f 2" by (rule same [OF low(2,1) [OF s3(2)]]) simp
    show "h (fst x) = f (fst x)" if "x \<in> W" for x
      using same own_marked [OF that own_self [of "fst x" f "snd x", unfolded prod.collapse]] by blast
  qed
  show w: "walk h 2 q = walk f 2 q" if "elem_list_ok q" for q by (rule frame_walk [OF wf fr that])
  have mk: "marked h b \<longleftrightarrow> marked f b \<or> b = i \<or> b \<in> set ks" if "b < tb" for b
    using X(2) that ne unfolding h marked_def by simp
  have len: "length (h b) = 512" if "b < tb" for b
    using sfs_wfD(3) [OF wf that] X(1) N by (simp add: h node_ok_def)
  have wfh: "sfs_wf tb h W" by (rule wf_frame [OF wf fr len]) (use mk sfs_wfD(9,10) [OF wf] in blast)+
  have hi: "h i = N" using ks(1) by (simp add: h)
  show o: "own h (i, d) = insert i (set ks)"
    using N hi by (cases d) (simp_all add: node_ok_def file_blocks_def Let_def)
  have ok: "own_ok tb h (i, d)"
  proof (cases d)
    case True
    then show ?thesis using N hi i3 i(1) empty_dir [of N] by (simp add: node_ok_def)
  next
    case False
    then have "file_blocks h i = ks" using N hi by (simp add: node_ok_def file_blocks_def Let_def)
    with False N hi i3 i(1) ks(1) show ?thesis by (simp add: node_ok_def)
  qed
  have fresh: "b \<notin> own f x" if "x \<in> W" "b \<in> insert i (set ks)" for x b
    using own_marked(1) [OF that(1)] i(2) ks(2) that(2) by blast
  have ownW: "own h x = own f x" if "x \<in> W" for x using frame_own [OF fr that] by blast
  show "sfs_wf tb h (insert (i, d) W)"
  proof (rule wf_add_owner [OF wfh ok])
    show "own h (i, d) \<inter> own h y = {}" if "y \<in> W" for y unfolding o ownW [OF that] using fresh [OF that] by blast
    show "marked h k" if "k \<in> own h (i, d)" for k
      using that mk [of k] i(1) ks(2) unfolding o by blast
  qed
  show "(i, d) \<notin> tree_owners f"
    using sfs_wfD(5) [OF wf] fresh [of "(i, d)" i] own_self [of i f d] by blast
qed

lemma fresh_content:
  assumes "unat (filesize (inode_of N)) = n" "take (nblocks_of (inode_of N)) (block (inode_of N)) = ks" "h i = N"
    "\<forall>b \<in> set ks. h b = replicate 512 0" "length ks = (n + 511) div 512"
  shows "content h i = replicate n 0"
proof -
  have "map h ks = replicate (length ks) (replicate 512 0)" using assms(4) by (simp add: map_replicate_const cong: map_cong)
  moreover have "concat (replicate k (replicate 512 (0 :: byte))) = replicate (512 * k) 0" for k
    by (induction k) (simp_all add: replicate_add)
  moreover have "n \<le> 512 * length ks" using assms(5) by simp
  ultimately show ?thesis using assms(1-3) by (simp add: content_def file_blocks_def Let_def take_replicate min_def)
qed

text \<open>What a successful create does to the volume.\<close>

definition created :: "u32 \<Rightarrow> volume \<Rightarrow> volume \<Rightarrow> byte list list \<Rightarrow> u32 \<Rightarrow> int \<Rightarrow> bool" where
  "created tb f g p i sz \<longleftrightarrow> i < tb \<and> \<not> marked f i \<and>
     (\<forall>q. elem_list_ok q \<longrightarrow> walk g 2 q = (if q = p then Some i else walk f 2 q)) \<and>
     (\<not> is_dir p \<longrightarrow> content g i = replicate (nat sz) 0) \<and>
     (\<forall>b < tb. marked f b \<and> b \<noteq> 1 \<and> walk f 2 (butlast p) \<noteq> Some b \<longrightarrow> g b = f b)"

lemma wf_created:
  assumes wf: "sfs_wf tb f W" and p: "elem_list_ok (p @ [e])" "walk f 2 p = Some par" "dir_lookup (f par) e = None"
    and k: "k < 25" "inode (dir_of (f par) ! k) = 0" and nm: "length nm = 16" "terminated nm" "cstr nm = e"
    and i: "i < tb" "\<not> marked f i"
    and ks: "distinct (i # ks)" "\<forall>b \<in> set ks. b < tb \<and> \<not> marked f b"
    and N: "node_ok tb (folder_name e) N ks" "\<not> folder_name e \<longrightarrow> unat (filesize (inode_of N)) = nat sz \<and> length ks = (nat sz + 511) div 512"
    and X: "length X = 512" "\<forall>b < tb. marked (f(1 := X)) b \<longleftrightarrow> marked f b \<or> b = i \<or> b \<in> set ks"
    and g: "g = (\<lambda>b. if b \<in> set ks then replicate 512 0 else (f(1 := X, par := with_entry k i nm (f par), i := N)) b)"
  shows "sfs_wf tb g (insert (i, folder_name e) W)" "created tb f g (p @ [e]) i sz"
proof -
  define h where "h = (\<lambda>b. if b \<in> set ks then replicate 512 0 else (f(1 := X, i := N)) b)"
  note F = wf_fresh [OF wf i ks N(1) X h_def]
  have p': "elem_list_ok p" "is_dir p" "elem_shape e" using p(1) by (simp_all add: elem_list_ok_snoc)
  note pn = walk_node [OF wf p'(1) p(2)]
  have parm: "marked f par" "par \<noteq> 1"
  proof -
    show "par \<noteq> 1" using pn(1) by (auto simp: word_le_def)
    show "marked f par"
    proof (cases "p = []")
      case True
      then show ?thesis using p(2) sfs_wfD(9) [OF wf pn(2)] by (auto simp: word_less_def)
    next
      case False
      from tree_ownerI [OF p'(1) False p(2)] sfs_wfD(5) [OF wf] have "(par, is_dir p) \<in> W" by blast
      from sfs_wfD(10) [OF wf this own_self pn(2)] show ?thesis .
    qed
  qed
  have hp: "h par = f par" by (rule F(5) [OF pn(2) parm])
  have pk: "par \<noteq> i" "par \<notin> set ks" using parm(1) i(2) ks(2) by blast+
  have gh: "g = h(par := with_entry k i nm (f par))"
    unfolding g h_def using pk parm(2) by (intro ext) auto
  have dir: "dir_ok (f par)" by (rule walk_dir_ok [OF wf p'(1,2) p(2)])
  have i0: "i \<noteq> 0" using i sfs_wfD(9) [OF wf i(1)] by (auto simp: word_less_def)
  note D = with_entry_ok [OF dir k nm(1,2) _ i0, unfolded nm(3), OF p'(3) p(3)]
  have hi: "h i = N" using ks(1) by (simp add: h_def)
  have walk: "walk h 2 p = Some par" using F(2) [OF p'(1)] p(2) by simp
  have nt: "(i, folder_name e) \<notin> tree_owners h" using F(3) tree_owners_cong [of h f, OF F(2)] by simp
  have em: "folder_name e \<longrightarrow> dir_lookup (h i) = Map.empty" using hi N empty_dir [of N] by (simp add: node_ok_def)
  note L = wf_link [OF F(1) p(1) walk, unfolded hp, OF p(3) insertI1 nt em gh D]
  show "sfs_wf tb g (insert (i, folder_name e) W)" by (rule L(1))
  have same: "g b = f b" if "b < tb" "marked f b" "b \<noteq> 1" "b \<noteq> par" for b using F(5) that gh by simp
  have "content g i = replicate (nat sz) 0" if "\<not> folder_name e"
  proof (rule fresh_content [of N])
    show "g i = N" using gh hi pk by simp
    show "\<forall>b \<in> set ks. g b = replicate 512 0" by (simp add: g)
  qed (use N that in \<open>simp_all add: node_ok_def\<close>)
  then show "created tb f g (p @ [e]) i sz"
    using L(2) F(2) same p(2) i unfolding created_def by (auto simp: is_dir_def)
qed

section \<open>Writing the new node\<close>

text \<open>The block that is written for the new node.\<close>

definition new_node :: "bool \<Rightarrow> tfs_inode_t \<Rightarrow> byte list \<Rightarrow> byte list" where
  "new_node folder v rest = (if folder then of_dir (replicate 25 \<lparr>inode = 0, name = replicate 16 0\<rparr>) @ rest else of_inode v)"

context block_device begin

lemma sfs_zero_blocks_ok:
  assumes "sfs_state ready nb tb T" "\<forall>k \<in> set (drop i (take n (block (sbuf_inode T)))). k < nb"
    and "i \<le> n" "n \<le> 127"
  shows "\<exists>d. sfs_zero_blocks G (int i) (int n) T = Inr (VFS_OK, V_slock (T\<lparr>sdisk := d\<rparr>)) \<and> sfs_state ready nb tb (T\<lparr>sdisk := d\<rparr>) \<and>
    blk d = (\<lambda>b. if b \<in> set (drop i (take n (block (sbuf_inode T)))) then sbuf_bat T else blk (sdisk T) b)"
  using assms
proof (induction "n - i" arbitrary: i T)
  case 0
  then show ?case
    by (subst sfs_zero_blocks.simps) (auto intro!: exI [of _ "sdisk T"])
next
  case (Suc r)
  let ?bl = "block (sbuf_inode T)"
  have i: "i < n" "i < length ?bl" using Suc.hyps(2) Suc.prems(1,4) by (auto simp: sfs_state_def)
  have split: "drop i (take n ?bl) = ?bl ! i # drop (Suc i) (take n ?bl)"
    using i Cons_nth_drop_Suc [of i "take n ?bl"] by simp
  have b: "?bl ! i < nb" using Suc.prems(2) unfolding split by simp
  have l: "length (sbuf_bat T) = 512" using Suc.prems(1) by (simp add: sfs_state_def)
  from swrite_ok [OF Suc.prems(1) b l] obtain d where d: "swrite G (?bl ! i) (sbuf_bat T) T = Inr (1, T\<lparr>sdisk := d\<rparr>)"
    "blk d = (blk (sdisk T))(?bl ! i := sbuf_bat T)" "sfs_state ready nb tb (T\<lparr>sdisk := d\<rparr>)" by blast
  have eq: "sfs_zero_blocks G (int i) (int n) T = sfs_zero_blocks G (int (Suc i)) (int n) (T\<lparr>sdisk := d\<rparr>)"
    using i d(1) by (subst sfs_zero_blocks.simps) (simp add: write_sbat_def add.commute)
  have r': "r = n - Suc i" using Suc.hyps(2) by simp
  have "\<forall>k \<in> set (drop (Suc i) (take n ?bl)). k < nb" using Suc.prems(2) unfolding split by simp
  with Suc.hyps(1) [of "Suc i" "T\<lparr>sdisk := d\<rparr>"] Suc.prems(4) d(3) i r' obtain d' where
    "sfs_zero_blocks G (int (Suc i)) (int n) (T\<lparr>sdisk := d\<rparr>) = Inr (VFS_OK, V_slock (T\<lparr>sdisk := d'\<rparr>))"
    "sfs_state ready nb tb (T\<lparr>sdisk := d'\<rparr>)"
    "blk d' = (\<lambda>b. if b \<in> set (drop (Suc i) (take n ?bl)) then sbuf_bat T else blk d b)"
    by (auto cong: if_cong)
  then show ?case unfolding eq split by (intro exI [of _ d']) (auto simp: d(2))
qed

lemma create_write_ok:
  assumes st: "sfs_state ready nb tb T" "slock T = 0" and b: "(1 :: u32) < nb" "p < nb" "i < nb" and x: "x < 25" "i = inode (sbuf_md T ! x)"
    and md: "length (of_dir (sbuf_md T)) = 500" "length (sbuf_md T) = 25" "length (smd_rest T) = 12"
    and n: "n \<le> 127" "\<forall>k \<in> set (take n (block (sbuf_inode T))). k < nb" "folder \<longrightarrow> n = 0"
  obtains T' where "sfs_create_write G (uint p) (int x) (int n) folder T = Inr (VFS_OK, T')" "sfs_state ready nb tb T'" "slock T' = 1"
    "open_files T' = open_files T" "openfile_lock T' = openfile_lock T" "kres T' = kres T"
    "blk (sdisk T') = (\<lambda>b. if b \<in> set (take n (block (sbuf_inode T))) then replicate 512 0
       else ((blk (sdisk T))(1 := sbuf_bat T, p := of_dir (sbuf_md T) @ smd_rest T, i := new_node folder (sbuf_inode T) (smd_rest T))) b)"
proof -
  let ?f = "blk (sdisk T)" let ?D = "of_dir (sbuf_md T) @ smd_rest T" let ?N = "new_node folder (sbuf_inode T) (smd_rest T)"
  let ?z = "replicate 25 \<lparr>inode = 0, name = replicate 16 0\<rparr> :: tfs_direntry_t list"
  have l: "length (sbuf_bat T) = 512" "length (block (sbuf_inode T)) = 127" using st(1) by (simp_all add: sfs_state_def)
  from swrite_ok [OF st(1) b(1) l(1)] obtain d1 where d1: "swrite G 1 (sbuf_bat T) T = Inr (1, T\<lparr>sdisk := d1\<rparr>)"
    "blk d1 = ?f(1 := sbuf_bat T)" "sfs_state ready nb tb (T\<lparr>sdisk := d1\<rparr>)" by blast
  have lD: "length ?D = 512" using md by simp
  from swrite_ok [OF d1(3) b(2) lD] obtain d2 where d2: "swrite G p ?D (T\<lparr>sdisk := d1\<rparr>) = Inr (1, T\<lparr>sdisk := d2\<rparr>)"
    "blk d2 = (blk d1)(p := ?D)" "sfs_state ready nb tb (T\<lparr>sdisk := d2\<rparr>)" by auto
  have rdx: "rd (sbuf_md T) (int x) = Inr (sbuf_md T ! x)" using x md(2) by simp
  show ?thesis
  proof (cases folder)
    case True
    let ?T2 = "T\<lparr>sdisk := d2, sbuf_md := ?z\<rparr>"
    have "length (of_dir ?z) = 500" by (subst of_dir_length) auto
    then have lN: "length (of_dir ?z @ smd_rest T) = 512" using md(3) by simp
    have s2: "sfs_state ready nb tb ?T2" using d2(3) by simp
    from swrite_ok [OF s2 b(3) lN] obtain d3 where d3: "swrite G i (of_dir ?z @ smd_rest T) ?T2 = Inr (1, ?T2\<lparr>sdisk := d3\<rparr>)"
      "blk d3 = (blk d2)(i := of_dir ?z @ smd_rest T)" "sfs_state ready nb tb (?T2\<lparr>sdisk := d3\<rparr>)" by auto
    have "sfs_create_write G (uint p) (int x) (int n) folder T = Inr (VFS_OK, V_slock (?T2\<lparr>sdisk := d3\<rparr>))"
      using d1(1) d2(1) d3(1) True rdx x(2)
      by (simp add: sfs_create_write_def write_sbat_def write_smd_def SFS_ALLOCATION_BLOCK_def)
    moreover have "blk d3 = (\<lambda>b. if b \<in> set (take n (block (sbuf_inode T))) then replicate 512 0
       else (?f(1 := sbuf_bat T, p := ?D, i := ?N)) b)"
      using True n(3) d1(2) d2(2) d3(2) by (intro ext) (simp add: new_node_def)
    ultimately show ?thesis using that [of "V_slock (?T2\<lparr>sdisk := d3\<rparr>)"] d3(3) st(2) by simp
  next
    case False
    have lN: "length (of_inode (sbuf_inode T)) = 512" by (rule of_inode_length [OF l(2)])
    from swrite_ok [OF d2(3) b(3) lN] obtain d3 where d3: "swrite G i (of_inode (sbuf_inode T)) (T\<lparr>sdisk := d2\<rparr>) = Inr (1, T\<lparr>sdisk := d3\<rparr>)"
      "blk d3 = (blk d2)(i := of_inode (sbuf_inode T))" "sfs_state ready nb tb (T\<lparr>sdisk := d3\<rparr>)" by auto
    let ?T3 = "T\<lparr>sdisk := d3, sbuf_bat := replicate 512 0\<rparr>"
    have s3: "sfs_state ready nb tb ?T3" by (rule sfs_state_buf(2) [OF d3(3)]) simp
    from sfs_zero_blocks_ok [OF s3, of 0 n] n obtain d4 where d4: "sfs_zero_blocks G 0 (int n) ?T3 = Inr (VFS_OK, V_slock (?T3\<lparr>sdisk := d4\<rparr>))"
      "sfs_state ready nb tb (?T3\<lparr>sdisk := d4\<rparr>)"
      "blk d4 = (\<lambda>b. if b \<in> set (take n (block (sbuf_inode T))) then replicate 512 0 else blk d3 b)" by (auto cong: if_cong)
    have "sfs_create_write G (uint p) (int x) (int n) folder T = Inr (VFS_OK, V_slock (?T3\<lparr>sdisk := d4\<rparr>))"
      using d1(1) d2(1) d3(1) d4(1) False rdx x(2)
      by (simp add: sfs_create_write_def write_sbat_def write_smd_def write_sinode_def SFS_ALLOCATION_BLOCK_def)
    moreover have "blk d4 = (\<lambda>b. if b \<in> set (take n (block (sbuf_inode T))) then replicate 512 0
       else (?f(1 := sbuf_bat T, p := ?D, i := ?N)) b)"
      unfolding d4(3) d3(2) d2(2) d1(2) using False by (intro ext) (simp add: new_node_def)
    ultimately show ?thesis using that [of "V_slock (?T3\<lparr>sdisk := d4\<rparr>)"] d4(2) st(2) by simp
  qed
qed

end

section \<open>The whole call\<close>

definition in_use :: "u32 \<Rightarrow> volume \<Rightarrow> u32 set" where
  "in_use tb f = {k. k < tb \<and> marked f k}"

lemma taken_in_use: "bm.taken (block_words (f 1)) (uint tb) = uint ` in_use tb f"
  using taken_words [of "in_use tb f" tb "block_words (f 1)"] by (auto simp: in_use_def marked_def)

lemma card_in_use: "card (bm.taken (block_words (f 1)) (uint tb)) = card (in_use tb f)"
  unfolding taken_in_use by (rule card_image) (auto intro: inj_onI unsigned_word_eqI)

lemma uint_mem: "uint (k :: u32) \<in> uint ` S \<longleftrightarrow> k \<in> S"
  by (auto dest: unsigned_word_eqI)

lemma new_inode_ok:
  assumes sz: "0 \<le> sz" "sz \<le> 65024" "n = (nat sz + 511) div 512" and ks: "length ks = n" "\<forall>k \<in> set ks. 3 \<le> k \<and> k < tb"
    and v: "v = \<lparr>filesize = word_of_int sz, block = ks @ replicate (127 - n) 0\<rparr>"
  shows "inode_ok tb v" "nblocks_of v = n" "take n (block v) = ks" "length (block v) = 127" "unat (filesize v) = nat sz"
proof -
  have n: "n \<le> 127" using sz by simp
  have u: "uint (word_of_int sz :: u32) = sz" using sz by (intro uint_of_int) simp_all
  then show s: "unat (filesize v) = nat sz" by (simp add: v flip: nat_uint_eq)
  show nb: "nblocks_of v = n" using s sz(3) by (simp add: nblocks_of_def)
  show "take n (block v) = ks" using ks(1) by (simp add: v)
  show "length (block v) = 127" using ks(1) n by (simp add: v)
  have "\<forall>i < 127. if i < n then 3 \<le> block v ! i \<and> block v ! i < tb else block v ! i = 0"
    using ks n by (auto simp: v nth_append)
  then show "inode_ok tb v" using s sz nb by (simp add: inode_ok_def)
qed

lemma inode_all: "(v :: tfs_inode_t)\<lparr>filesize := a, block := b\<rparr> = \<lparr>filesize = a, block = b\<rparr>"
  by (cases v) simp

context block_device begin

lemma create_alloc_ok:
  assumes st: "sfs_state ready nb tb T" "slock T = 0" and wf: "sfs_wf tb f W" and f: "blk (sdisk T) = f" "sbuf_bat T = f 1"
    and p: "par < tb" "dir_ok (f par)" and x: "x < 25" "inode (dir_of (f par) ! x) = 0" and nm: "length nm = 16"
    and md: "sbuf_md T = (dir_of (f par))[x := (dir_of (f par) ! x)\<lparr>name := nm\<rparr>]" "smd_rest T = drop 500 (f par)"
    and sz: "0 \<le> sz" "sz \<le> 65024" "n = (nat sz + 511) div 512" "folder \<longrightarrow> sz = 0"
  obtains (ok) T' i ks X N where "int (card (in_use tb f)) + int n + 1 \<le> uint tb"
      "sfs_create_alloc G (uint par) (int x) (int n) sz folder T = Inr (VFS_OK, T')"
      "sfs_state ready nb tb T'" "slock T' = 1" "open_files T' = open_files T" "openfile_lock T' = openfile_lock T" "kres T' = kres T"
      "i < tb" "\<not> marked f i" "distinct (i # ks)" "\<forall>b \<in> set ks. b < tb \<and> \<not> marked f b" "node_ok tb folder N ks"
      "\<not> folder \<longrightarrow> unat (filesize (inode_of N)) = nat sz \<and> length ks = (nat sz + 511) div 512"
      "length X = 512" "\<forall>b < tb. marked (f(1 := X)) b \<longleftrightarrow> marked f b \<or> b = i \<or> b \<in> set ks"
      "blk (sdisk T') = (\<lambda>b. if b \<in> set ks then replicate 512 0 else (f(1 := X, par := with_entry x i nm (f par), i := N)) b)"
    | (full) T' where "\<not> int (card (in_use tb f)) + int n + 1 \<le> uint tb"
      "sfs_create_alloc G (uint par) (int x) (int n) sz folder T = Inr (VFS_ERROR, T')"
      "sfs_state ready nb tb T'" "slock T' = 1" "open_files T' = open_files T" "openfile_lock T' = openfile_lock T" "kres T' = kres T"
      "blk (sdisk T') = f"
proof -
  let ?U = "bm.taken (block_words (f 1)) (uint tb)"
  have tb: "uint tb \<le> 4096" "totalvblocks T = tb" "tb \<le> nb" using sfs_wfD(2) [OF wf] st(1) by (simp_all add: word_le_def sfs_state_def)
  have l: "length (sbuf_bat T) = 512" "length (block (sbuf_inode T)) = 127" using st(1) by (simp_all add: sfs_state_def)
  have len: "length (f par) = 512" using p(2) by (simp add: dir_ok_def)
  have n: "n \<le> 127" using sz by simp
  have U: "bat_taken tb (as_tfs T) = ?U" by (simp add: bat_taken_def f(2))
  have al: "length (buffer_bat (as_tfs T)) = 512" "totalblocks (as_tfs T) = tb" using l(1) tb(2) by simp_all
  obtain k X1 where K: "bat_findnset (as_tfs T) = Inr (k, (as_tfs T)\<lparr>buffer_bat := X1\<rparr>)" "length X1 = 512"
    "if int (card ?U) < uint tb
     then 0 \<le> k \<and> k < uint tb \<and> k \<notin> ?U \<and> bat_taken tb ((as_tfs T)\<lparr>buffer_bat := X1\<rparr>) = insert k ?U else k = -1"
    by (rule bat_findnset_ok [OF al tb(1), unfolded U]) (rule that)
  have K1: "sbat_findnset T = Inr (k, T\<lparr>sbuf_bat := X1\<rparr>)" using K(1) by (simp add: sbat_findnset_eq)
  let ?i = "word_of_int k :: u32"
  let ?md = "(dir_of (f par))[x := \<lparr>inode = ?i, name = nm\<rparr>]"
  let ?T1 = "T\<lparr>sbuf_bat := X1, sbuf_md := ?md\<rparr>"
  have ent: "rd (sbuf_md T) (int x) = Inr ((dir_of (f par) ! x)\<lparr>name := nm\<rparr>)" using x(1) by (simp add: md(1))
  have wrm: "wr (sbuf_md T) (int x) ((dir_of (f par) ! x)\<lparr>name := nm, inode := ?i\<rparr>) = Inr ?md"
  proof -
    have "e\<lparr>name := nm, inode := ?i\<rparr> = \<lparr>inode = ?i, name = nm\<rparr>" for e :: tfs_direntry_t by (cases e) simp
    from this [of "dir_of (f par) ! x"] show ?thesis using x(1) by (simp only: md(1)) simp
  qed
  have s1: "sfs_state ready nb tb ?T1" using st(1) K(2) by (simp add: sfs_state_buf(2))
  show ?thesis
  proof (cases "int (card ?U) < uint tb")
    case False
    then have "k = -1" using K(3) by simp
    then have "sfs_create_alloc G (uint par) (int x) (int n) sz folder T = Inr (VFS_ERROR, V_slock ?T1)"
      using K1 ent wrm by (simp add: sfs_create_alloc_def Let_def)
    then show ?thesis using False full [of "V_slock ?T1"] s1 st(2) f(1) by (simp add: card_in_use)
  next
    case True
    with K(3) have k: "0 \<le> k" "k < uint tb" "k \<notin> ?U" and U1: "bat_taken tb (as_tfs (T\<lparr>sbuf_bat := X1\<rparr>)) = insert k ?U" by simp_all
    have ui: "uint ?i = k" using k tb(1) by (intro uint_of_int) simp_all
    have i: "?i < tb" "\<not> marked f ?i" using k(2,3) ui taken_in_use [of f tb] uint_mem [of ?i "in_use tb f"]
      by (simp_all add: word_less_def in_use_def)
    have fin: "finite ?U" by (simp add: taken_in_use in_use_def)
    have cU1: "card (insert k ?U) = card (in_use tb f) + 1" using k(3) fin by (simp add: card_in_use)
    have one: "(1 :: u32) < nb" by (rule less_le_trans [OF less_le_trans [OF _ sfs_wfD(1) [OF wf]] tb(3)]) (simp add: word_less_def)
    have bn: "par < nb" "?i < nb" using p(1) i(1) tb(3) by (auto intro: less_le_trans)
    have nmd: "length (name e) = 16" if "e \<in> set ?md" for e
      using that dir_of_name [OF len] nm by (auto dest!: set_update_subset_insert [THEN subsetD])
    have lmd: "length (of_dir ?md) = 500" using of_dir_length [of ?md, OF nmd] by simp
    show ?thesis
    proof (cases folder)
      case folder: True
      then have n0: "n = 0" using sz by simp
      have c: "slock ?T1 = 0" "?i = inode (sbuf_md ?T1 ! x)" "length (of_dir (sbuf_md ?T1)) = 500" "length (sbuf_md ?T1) = 25"
        "length (smd_rest ?T1) = 12" "\<forall>k \<in> set (take n (block (sbuf_inode ?T1))). k < nb" "folder \<longrightarrow> n = 0"
        using st(2) x(1) lmd md(2) len n0 by simp_all
      obtain T' where C: "sfs_create_write G (uint par) (int x) (int n) folder ?T1 = Inr (VFS_OK, T')" "sfs_state ready nb tb T'" "slock T' = 1"
        "open_files T' = open_files ?T1" "openfile_lock T' = openfile_lock ?T1" "kres T' = kres ?T1"
        "blk (sdisk T') = (\<lambda>b. if b \<in> set (take n (block (sbuf_inode ?T1))) then replicate 512 0
          else ((blk (sdisk ?T1))(1 := sbuf_bat ?T1, par := of_dir (sbuf_md ?T1) @ smd_rest ?T1, ?i := new_node folder (sbuf_inode ?T1) (smd_rest ?T1))) b)"
        by (rule create_write_ok [OF s1 c(1) one bn x(1) c(2-5) n c(6,7)]) (rule that)
      have run: "sfs_create_alloc G (uint par) (int x) (int n) sz folder T = Inr (VFS_OK, T')"
        using K1 ent wrm k(1) folder C(1) by (simp add: sfs_create_alloc_def Let_def)
      have g: "blk (sdisk T') = (\<lambda>b. if b \<in> set [] then replicate 512 0
          else (f(1 := X1, par := with_entry x ?i nm (f par), ?i := new_node True (sbuf_inode T) (drop 500 (f par)))) b)"
        using C(7) n0 folder f(1) md(2) by (simp add: with_entry_def)
      have z: "of_dir (replicate 25 \<lparr>inode = 0, name = replicate 16 0\<rparr>) @ drop 500 (f par) = new_node True (sbuf_inode T) (drop 500 (f par))"
        by (simp add: new_node_def)
      have N: "node_ok tb folder (new_node True (sbuf_inode T) (drop 500 (f par))) []"
      proof -
        have "dir_of (new_node True (sbuf_inode T) (drop 500 (f par))) = replicate 25 \<lparr>inode = 0, name = replicate 16 0\<rparr>"
          unfolding z [symmetric] by (rule dir_of_dir) auto
        moreover have "length (new_node True (sbuf_inode T) (drop 500 (f par))) = 512"
          unfolding z [symmetric] using len by (simp, subst of_dir_length) auto
        ultimately show ?thesis using folder by (simp add: node_ok_def dir_used_def)
      qed
      have X: "\<forall>b < tb. marked (f(1 := X1)) b \<longleftrightarrow> marked f b \<or> b = ?i \<or> b \<in> set []"
      proof (intro allI impI)
        fix b assume b: "b < tb"
        have "marked (f(1 := X1)) b \<longleftrightarrow> uint b \<in> insert k ?U"
          using marked_taken [OF b, of "f(1 := X1)"] U1 by (simp add: bat_taken_def)
        also have "\<dots> \<longleftrightarrow> b = ?i \<or> marked f b" using ui marked_taken [OF b, of f] by (auto simp: word_uint_eq_iff)
        finally show "marked (f(1 := X1)) b \<longleftrightarrow> marked f b \<or> b = ?i \<or> b \<in> set []" by auto
      qed
      show ?thesis
        by (rule ok [OF _ run C(2,3) _ _ _ i _ _ N _ K(2) X g]) (use True n0 folder C(4-6) in \<open>simp_all add: card_in_use\<close>)
    next
      case nf: False
      let ?T2 = "?T1\<lparr>sbuf_inode := (sbuf_inode T)\<lparr>filesize := word_of_int sz\<rparr>\<rparr>"
      have bt: "bat_taken tb (as_tfs ?T2) = insert k ?U" using U1 by (simp add: bat_taken_def)
      from alloc_blocks_ok [of "as_tfs ?T2" tb 0 n] K(2) tb l(2) n obtain good X Y ks where A:
        "alloc_blocks 0 (int n) (as_tfs ?T2) = Inr (good, (as_tfs ?T2)\<lparr>buffer_bat := X, buffer_inode := (buffer_inode (as_tfs ?T2))\<lparr>block := Y\<rparr>\<rparr>)"
        "length X = 512" "length Y = 127" "good \<longleftrightarrow> int (card (insert k ?U)) + int n \<le> uint tb" "good \<longrightarrow> alloc_post tb 0 n (as_tfs ?T2) X Y ks"
        unfolding bt by auto
      let ?T3 = "?T1\<lparr>sbuf_bat := X, sbuf_inode := (sbuf_inode T)\<lparr>filesize := word_of_int sz, block := Y\<rparr>\<rparr>"
      have A1: "sfs_alloc_blocks 0 (int n) ?T2 = Inr (good, ?T3)" using A(1) by (simp add: sfs_alloc_blocks_eq)
      have goodeq: "good \<longleftrightarrow> int (card (in_use tb f)) + int n + 1 \<le> uint tb" using A(4) cU1 by auto
      show ?thesis
      proof (cases good)
        case False
        have s3: "sfs_state ready nb tb ?T3" using s1 A(2,3) by (simp add: sfs_state_def)
        have "sfs_create_alloc G (uint par) (int x) (int n) sz folder T = Inr (VFS_ERROR, V_slock ?T3)"
          using K1 ent wrm k(1) nf A1 False by (simp add: sfs_create_alloc_def Let_def)
        then show ?thesis using full [of "V_slock ?T3"] False goodeq s3 st(2) f(1) by simp
      next
        case True
        with A(5) have P: "length ks = n" "distinct ks" "\<forall>b \<in> set ks. b < tb \<and> uint b \<notin> insert k ?U"
          "Y = splice 0 ks (block (sbuf_inode T))" "bm.taken (block_words X) (uint tb) = insert k ?U \<union> uint ` set ks"
          using bt by (simp_all add: alloc_post_def) (simp add: bat_taken_def)
        have ks: "\<forall>b \<in> set ks. b < tb \<and> \<not> marked f b" "?i \<notin> set ks"
          using P(3) taken_in_use [of f tb] ui by (auto simp: in_use_def uint_mem)
        have low: "3 \<le> b" if "b < tb" "\<not> marked f b" for b using sfs_wfD(9) [OF wf that(1)] that(2) by (auto simp: not_less [symmetric])
        let ?v = "\<lparr>filesize = word_of_int sz, block = ks @ replicate (127 - n) 0\<rparr> :: tfs_inode_t"
        have ks3: "\<forall>b \<in> set ks. 3 \<le> b \<and> b < tb" using ks(1) low by blast
        note V = new_inode_ok [OF sz(1-3) P(1) ks3 refl]
        let ?T4 = "?T1\<lparr>sbuf_bat := X, sbuf_inode := ?v\<rparr>"
        have tk: "take n Y = ks" using P(1,4) l(2) n by (simp add: splice_def)
        have clr: "sfs_clear_blocks (int n) Y = Inr (block ?v)" using sfs_clear_blocks_eq [OF A(3) n] tk by simp
        have s4: "sfs_state ready nb tb ?T4" using s1 A(2) V(4) by (simp add: sfs_state_def)
        have vb: "\<forall>b \<in> set (take n (block (sbuf_inode ?T4))). b < nb" using V(3) ks(1) tb(3) by auto
        have c: "slock ?T4 = 0" "?i = inode (sbuf_md ?T4 ! x)" "length (of_dir (sbuf_md ?T4)) = 500" "length (sbuf_md ?T4) = 25"
          "length (smd_rest ?T4) = 12" "folder \<longrightarrow> n = 0"
          using st(2) x(1) lmd md(2) len nf by simp_all
        obtain T' where C: "sfs_create_write G (uint par) (int x) (int n) folder ?T4 = Inr (VFS_OK, T')" "sfs_state ready nb tb T'" "slock T' = 1"
          "open_files T' = open_files ?T4" "openfile_lock T' = openfile_lock ?T4" "kres T' = kres ?T4"
          "blk (sdisk T') = (\<lambda>b. if b \<in> set (take n (block (sbuf_inode ?T4))) then replicate 512 0
            else ((blk (sdisk ?T4))(1 := sbuf_bat ?T4, par := of_dir (sbuf_md ?T4) @ smd_rest ?T4, ?i := new_node folder (sbuf_inode ?T4) (smd_rest ?T4))) b)"
          by (rule create_write_ok [OF s4 c(1) one bn x(1) c(2-5) n vb c(6)]) (rule that)
        have run: "sfs_create_alloc G (uint par) (int x) (int n) sz folder T = Inr (VFS_OK, T')"
          using K1 ent wrm k(1) nf A1 True clr C(1) by (simp add: sfs_create_alloc_def Let_def inode_all)
        have g: "blk (sdisk T') = (\<lambda>b. if b \<in> set ks then replicate 512 0
            else (f(1 := X, par := with_entry x ?i nm (f par), ?i := of_inode ?v)) b)"
          using C(7) P(1) nf f(1) md(2) by (simp add: with_entry_def new_node_def cong: if_cong)
        have N: "node_ok tb folder (of_inode ?v) ks" using nf V by (simp add: node_ok_def of_inode_length)
        have X: "\<forall>b < tb. marked (f(1 := X)) b \<longleftrightarrow> marked f b \<or> b = ?i \<or> b \<in> set ks"
        proof (intro allI impI)
          fix b assume b: "b < tb"
          have "marked (f(1 := X)) b \<longleftrightarrow> uint b \<in> insert k ?U \<union> uint ` set ks" using marked_taken [OF b, of "f(1 := X)"] P(5) by simp
          also have "\<dots> \<longleftrightarrow> b = ?i \<or> marked f b \<or> b \<in> set ks"
            using ui marked_taken [OF b, of f] by (auto simp: word_uint_eq_iff uint_mem)
          finally show "marked (f(1 := X)) b \<longleftrightarrow> marked f b \<or> b = ?i \<or> b \<in> set ks" by auto
        qed
        show ?thesis
          by (rule ok [OF _ run C(2,3) _ _ _ i _ ks(1) N _ A(2) X g]) (use True goodeq P(1,2) ks(2) V(5) sz(3) C(4-6) in simp_all)
      qed
    qed
  qed
qed

end

text \<open>When a create succeeds: the name is free, its folder exists and has room, and so has the volume.\<close>

definition new_size :: "cstring \<Rightarrow> int \<Rightarrow> int" where
  "new_size pn sz = (if folder_name (cstr pn) then 0 else sz)"

definition creatable_at :: "u32 \<Rightarrow> volume \<Rightarrow> cstring \<Rightarrow> int \<Rightarrow> bool" where
  "creatable_at tb f pn sz \<longleftrightarrow> path_ok (cstr pn) \<and> 0 \<le> new_size pn sz \<and> new_size pn sz \<le> 65024 \<and>
     walk f 2 (elems (tl (cstr pn))) = None \<and>
     (case walk f 2 (butlast (elems (tl (cstr pn)))) of None \<Rightarrow> False | Some d \<Rightarrow> \<exists>e \<in> set (dir_of (f d)). inode e = 0) \<and>
     int (card (in_use tb f)) + int ((nat (new_size pn sz) + 511) div 512) + 1 \<le> uint tb"

lemma number_of_blocks:
  assumes "0 \<le> sz" "sz < 2 ^ 31 - 511"
  shows "uint (word_of_int (swrap (sz + SFS_VBLOCK_SIZE - 1) sdiv SFS_VBLOCK_SIZE) :: u32) = int ((nat sz + 511) div 512)"
    "int ((nat sz + 511) div 512) > SFS_BLOCKS_MAX \<longleftrightarrow> sz > 65024"
proof -
  have s: "swrap (sz + SFS_VBLOCK_SIZE - 1) = int (nat sz + 511)" using assms by (subst swrap_id) (simp_all add: sfs_sizes)
  have d: "int (nat sz + 511) sdiv 512 = int ((nat sz + 511) div 512)" by (simp add: zdiv_int)
  have "int ((nat sz + 511) div 512) < 2 ^ 32" using assms by simp
  moreover have "swrap (sz + SFS_VBLOCK_SIZE - 1) sdiv SFS_VBLOCK_SIZE = int ((nat sz + 511) div 512)"
    unfolding s by (simp only: SFS_VBLOCK_SIZE_def d)
  ultimately show "uint (word_of_int (swrap (sz + SFS_VBLOCK_SIZE - 1) sdiv SFS_VBLOCK_SIZE) :: u32) = int ((nat sz + 511) div 512)"
    by (simp only:) (intro uint_of_int; simp)
  show "int ((nat sz + 511) div 512) > SFS_BLOCKS_MAX \<longleftrightarrow> sz > 65024" using assms by (simp add: sfs_sizes) linarith
qed

lemma copy_name:
  assumes "length t = 16" "terminated s" "length (cstr s) \<le> 15"
  obtains nm where "stringcopy t s SFS_FILENAME_MAX = Inr nm" "length nm = 16" "terminated nm" "cstr nm = cstr s"
proof -
  let ?nm = "cstr s @ 0 # drop (Suc (length (cstr s))) t"
  have "stringcopy t s SFS_FILENAME_MAX = Inr ?nm"
    using stringcopy_eq [of 16 t s "cstr s"] assms by (simp add: SFS_FILENAME_MAX_def)
  moreover have "length ?nm = 16" using assms by simp
  moreover have "terminated ?nm" by (simp add: terminated_def)
  moreover have "cstr ?nm = cstr s" by (rule cstr_append_0) (rule cstr_no_0)
  ultimately show ?thesis by (rule that)
qed

lemma linked_create:
  assumes ok: "linked_ok f es" and g: "\<And>q. elem_list_ok q \<Longrightarrow> walk g 2 q = (if q = p then Some i else walk f 2 q)"
    and p: "elem_list_ok p" "walk f 2 p = None" and i: "\<forall>e \<in> set es. fileid e \<noteq> uint i"
  shows "linked_ok g es"
  unfolding linked_ok_def
proof (intro ballI allI impI)
  fix e q j assume e: "e \<in> set es" and q: "elem_list_ok q" "walk g 2 q = Some j" "fileid e = uint j"
  have qp: "q \<noteq> p" using g [OF q(1)] q(2,3) i e by auto
  then have w: "walk f 2 q = Some j" using g [OF q(1)] q(2) by simp
  have "parent_of g q = parent_of f q"
  proof (cases "q = []")
    case False
    have "butlast q \<noteq> p" using walk_butlast [OF False, of f 2] w p(2) by auto
    then show ?thesis using g [OF elem_list_ok_butlast [OF q(1)]] False by (simp add: parent_of_def)
  qed (simp add: parent_of_def)
  with ok e q(1,3) w show "\<not> is_deleted e \<and> is_folder e = is_dir q \<and> parentid e = parent_of g q" by (simp add: linked_ok_def)
qed

lemma created_inv:
  assumes inv: "sfs_inv ready blk nb tb T" and T': "sfs_state ready nb tb T'" "slock T' = 1" "openfile_lock T' = 1" "open_files T' = open_files T"
    and p: "elem_list_ok p" "p \<noteq> []" "walk (blk (sdisk T)) 2 p = None"
    and c: "created tb (blk (sdisk T)) (blk (sdisk T')) p i sz"
    and wf: "sfs_wf tb (blk (sdisk T')) (insert (i, is_dir p) (tree_owners (blk (sdisk T)) \<union> open_owners (open_files T)))"
  shows "sfs_inv ready blk nb tb T'"
proof -
  note t = sfs_invD [OF inv]
  let ?f = "blk (sdisk T)" let ?g = "blk (sdisk T')" let ?es = "open_files T"
  have g: "walk ?g 2 q = (if q = p then Some i else walk ?f 2 q)" if "elem_list_ok q" for q using c that by (simp add: created_def)
  have i: "\<not> marked ?f i" "i < tb" using c by (simp_all add: created_def)
  have noti: "\<forall>e \<in> set ?es. fileid e \<noteq> uint i"
  proof (intro ballI notI)
    fix e assume e: "e \<in> set ?es" "fileid e = uint i"
    show False
    proof (cases "i = 2")
      case True
      then show False using i sfs_wfD(9) [OF t(6) i(2)] by (simp add: word_less_def)
    next
      case False
      then have "(i, is_folder e) \<in> open_owners ?es" using e by (auto simp: open_owners_def)
      then show False using sfs_wfD(10) [OF t(6) _ own_self i(2)] i(1) by blast
    qed
  qed
  have "tree_owners ?g = insert (i, is_dir p) (tree_owners ?f)"
  proof
    show "tree_owners ?g \<subseteq> insert (i, is_dir p) (tree_owners ?f)" using g by (auto simp: tree_owners_def split: if_splits)
    have "(j, is_dir q) \<in> tree_owners ?g" if "elem_list_ok q" "q \<noteq> []" "walk ?f 2 q = Some j" for q j
    proof -
      have "q \<noteq> p" using that(3) p(3) by auto
      then show ?thesis using tree_ownerI [OF that(1,2), of ?g j] g [OF that(1)] that(3) by simp
    qed
    moreover have "(i, is_dir p) \<in> tree_owners ?g" using tree_ownerI [OF p(1,2), of ?g i] g [OF p(1)] by simp
    ultimately show "insert (i, is_dir p) (tree_owners ?f) \<subseteq> tree_owners ?g" by (auto simp: tree_owners_def [of ?f])
  qed
  then have "sfs_wf tb ?g (tree_owners ?g \<union> open_owners ?es)" using wf by simp
  moreover have "linked_ok ?g ?es" by (rule linked_create [OF t(5) g p(1,3) noti])
  ultimately show ?thesis using T' t(4) by (simp add: sfs_inv_def)
qed

context block_device begin

lemma create_effect:
  assumes inv: "sfs_inv ready blk nb tb T" and pn: "terminated pn" "length buf = 16" and sz: "sz < 2 ^ 31 - 511"
  obtains r T' where "sfs_create G pn sz buf ex T = Inr (r, T')" "sfs_inv ready blk nb tb T'" "kres T' = kres T" "open_files T' = open_files T"
    "if creatable_at tb (blk (sdisk T)) pn sz
     then r = VFS_OK \<and> (\<exists>i. created tb (blk (sdisk T)) (blk (sdisk T')) (elems (tl (cstr pn))) i (new_size pn sz))
     else r = VFS_ERROR \<and> blk (sdisk T') = blk (sdisk T)"
proof -
  note t = sfs_invD [OF inv]
  let ?f = "blk (sdisk T)" let ?s = "new_size pn sz" let ?p = "elems (tl (cstr pn))"
  have valid: "sfs_is_valid_path (Some pn) = Inr (path_ok (cstr pn))" by (rule valid_path_eq [OF pn(1)])
  have fold: "sfs_is_folder (Some pn) = Inr (folder_name (cstr pn))" by (rule is_folder_eq [OF pn(1)])
  show ?thesis
  proof (cases "path_ok (cstr pn) \<and> 0 \<le> ?s \<and> ?s \<le> 65024")
    case False
    then have no: "\<not> creatable_at tb ?f pn sz" by (auto simp: creatable_at_def)
    have "sfs_create G pn sz buf ex T = Inr (VFS_ERROR, T)"
    proof (cases "path_ok (cstr pn) \<and> 0 \<le> ?s")
      case True
      then have "?s > 65024" "?s < 2 ^ 31 - 511" using False sz by (auto simp: new_size_def split: if_splits)
      with True valid fold number_of_blocks [of ?s] show ?thesis by (auto simp: sfs_create_def new_size_def Let_def)
    next
      case neg: False
      then show ?thesis using valid fold by (auto simp: sfs_create_def new_size_def)
    qed
    then show ?thesis using that [of VFS_ERROR T] inv no by simp
  next
    case ok: True
    define n where "n = (nat ?s + 511) div 512"
    have nb1: "uint (word_of_int (swrap (?s + SFS_VBLOCK_SIZE - 1) sdiv SFS_VBLOCK_SIZE) :: u32) = int n" "\<not> int n > SFS_BLOCKS_MAX"
      using number_of_blocks [of ?s] ok by (simp_all add: n_def)
    obtain r par ex' T1 where R: "sfs_resolve_file_ext G True pn buf 0 ex T = Inr ((r, par, ex'), T1)"
      "sfs_state ready nb tb T1" "keeps T T1" "blk (sdisk T1) = ?f"
      "\<And>j. walk ?f 2 ?p = Some j \<Longrightarrow> r = uint j \<and> par = (if ?p = [] then -1 else uint (the (walk ?f 2 (butlast ?p))))"
      "walk ?f 2 ?p = None \<Longrightarrow> r = VFS_ERROR \<and> 2 \<le> par \<and> (True \<longrightarrow> ex' = (walk ?f 2 (butlast ?p) \<noteq> None)) \<and>
         (\<forall>d. walk ?f 2 (butlast ?p) = Some d \<longrightarrow> par = uint d)"
      by (rule resolve_valid [OF t(1,6) refl t(2) pn(1) conjunct1 [OF ok] refl pn(2), of True 0 ex]) (rule that)
    have inv1: "sfs_inv ready blk nb tb T1" by (rule inv_keeps [OF inv R(2-4)])
    have o1: "open_files T1 = open_files T" "kres T1 = kres T" "slock T1 = 1" "openfile_lock T1 = 1"
      using R(3) t(2,3) by (simp_all add: keeps_def)
    have neg: "\<not> (\<not> folder_name (cstr pn) \<and> sz < 0)" using ok by (auto simp: new_size_def)
    show ?thesis
    proof (cases "walk ?f 2 ?p = None \<and> walk ?f 2 (butlast ?p) \<noteq> None")
      case False
      have "r \<noteq> VFS_ERROR \<or> par < 0 \<or> \<not> ex'"
      proof (cases "walk ?f 2 ?p")
        case None
        with R(6) False show ?thesis by simp
      next
        case (Some j)
        with R(5) uint_not_error [of j] show ?thesis by simp
      qed
      then have "sfs_create G pn sz buf ex T = Inr (VFS_ERROR, T1)"
        using valid fold ok neg nb1 R(1) by (cases "folder_name (cstr pn)") (simp_all add: sfs_create_def new_size_def Let_def)
      moreover have "\<not> creatable_at tb ?f pn sz" using False by (auto simp: creatable_at_def split: option.splits)
      ultimately show ?thesis using that [of VFS_ERROR T1] inv1 o1 R(4) by simp
    next
      case True
      then obtain d where d: "walk ?f 2 ?p = None" "walk ?f 2 (butlast ?p) = Some d" by auto
      with R(6) have r: "r = VFS_ERROR" "par = uint d" "ex'" by auto
      have pne: "?p \<noteq> []" using d(1) by auto
      have pok: "elem_list_ok ?p" by (rule path_elems [OF conjunct1 [OF ok]])
      have psplit: "?p = butlast ?p @ [last ?p]" using pne by simp
      have q: "elem_list_ok (butlast ?p)" "is_dir (butlast ?p)" "elem_shape (last ?p)"
        using pok pne elem_list_ok_snoc [of "butlast ?p" "last ?p"] by simp_all
      note dn = walk_node [OF t(6) q(1) d(2)]
      have dir: "dir_ok (?f d)" by (rule walk_dir_ok [OF t(6) q(1,2) d(2)])
      have len: "length (?f d) = 512" using dir by (simp add: dir_ok_def)
      have tb: "tb \<le> nb" using t(1) by (simp add: sfs_state_def)
      have dnb: "d < nb" using dn(2) tb by (rule less_le_trans)
      have new: "dir_lookup (?f d) (last ?p) = None" using d walk_snoc [of ?f 2 "butlast ?p" "last ?p"] psplit by simp
      have fn: "folder_name (cstr pn) = folder_name (last ?p)" using path_folder [OF conjunct1 [OF ok]] pne by (simp add: is_dir_def)
      let ?T0 = "T1\<lparr>slock := 0\<rparr>"
      have s0: "sfs_state ready nb tb ?T0" using R(2) by simp
      from read_smd_ok [OF s0 dnb] R(4) obtain d1 where d1:
        "read_smd G d ?T0 = Inr (1, ?T0\<lparr>sdisk := d1, sbuf_md := dir_of (?f d), smd_rest := drop 500 (?f d)\<rparr>)" "blk d1 = ?f"
        "sfs_state ready nb tb (?T0\<lparr>sdisk := d1, sbuf_md := dir_of (?f d), smd_rest := drop 500 (?f d)\<rparr>)" by auto
      let ?T2 = "?T0\<lparr>sdisk := d1, sbuf_md := dir_of (?f d), smd_rest := drop 500 (?f d)\<rparr>"
      have head: "sfs_create G pn sz buf ex T = rbind (last_free (dir_of (?f d)) 0 (-1)) (\<lambda>index.
          if index = -1 then Inr (VFS_ERROR, V_slock ?T2)
          else
            rbind (rd (dir_of (?f d)) index) (\<lambda>e.
            rbind (sfs_get_actual_filename pn) (\<lambda>nm.
            rbind (stringcopy (name e) nm SFS_FILENAME_MAX) (\<lambda>nm.
            rbind (wr (dir_of (?f d)) index (e\<lparr>name := nm\<rparr>)) (\<lambda>md.
            sthen VFS_ERROR (read_sbat G SFS_ALLOCATION_BLOCK (?T2\<lparr>sbuf_md := md\<rparr>))
              (sfs_create_alloc G (uint d) index (int n) ?s (folder_name (cstr pn))))))))"
        using valid fold ok neg nb1 R(1) r o1(3) d1(1) dn(5)
        by (cases "folder_name (cstr pn)") (simp_all add: sfs_create_def new_size_def Let_def cong: if_cong)
      have keep: "sfs_inv ready blk nb tb T'" if "sfs_state ready nb tb T'" "slock T' = 1" "open_files T' = open_files T"
          "openfile_lock T' = 1" "kres T' = kres T" "blk (sdisk T') = ?f" for T'
        using that t(2,3) by (intro inv_keeps [OF inv]) (simp_all add: keeps_def)
      show ?thesis
      proof (cases rule: last_free_cases [OF dir_of_length, of "?f d"])
        case 2
        then have "sfs_create G pn sz buf ex T = Inr (VFS_ERROR, V_slock ?T2)" using head by simp
        moreover have "sfs_inv ready blk nb tb (V_slock ?T2)" by (rule keep) (use d1 o1 in simp_all)
        moreover have "\<not> creatable_at tb ?f pn sz" using d 2(2) by (auto simp: creatable_at_def)
        ultimately show ?thesis using that [of VFS_ERROR "V_slock ?T2"] d1(2) o1 by simp
      next
        case (1 x)
        have free: "\<exists>e \<in> set (dir_of (?f d)). inode e = 0" using 1(2,3) by (intro bexI [of _ "dir_of (?f d) ! x"]) simp_all
        obtain t where t': "cstr pn = 47 # t" "t \<noteq> []" using ok pne by (cases "cstr pn") (auto simp: path_ok_def)
        obtain nm0 where nm0: "sfs_get_actual_filename pn = Inr nm0" "terminated nm0" "cstr nm0 = last ?p"
          using actual_filename [OF pn(1) t'] t'(1) by auto
        have e16: "length (name (dir_of (?f d) ! x)) = 16" using dir_of_name [OF len] 1(2) by simp
        have l15: "length (cstr nm0) \<le> 15" using q(3) nm0(3) by (simp add: elem_shape_def elem_ok_def)
        obtain nm where nm: "stringcopy (name (dir_of (?f d) ! x)) nm0 SFS_FILENAME_MAX = Inr nm" "length nm = 16" "terminated nm" "cstr nm = last ?p"
          using copy_name [OF e16 nm0(2) l15] nm0(3) by metis
        let ?md = "(dir_of (?f d))[x := (dir_of (?f d) ! x)\<lparr>name := nm\<rparr>]"
        let ?T3 = "?T2\<lparr>sbuf_md := ?md\<rparr>"
        have one: "(1 :: u32) < nb" by (rule less_le_trans [OF less_le_trans [OF _ sfs_wfD(1) [OF t(6)]] tb]) (simp add: word_less_def)
        have s3: "sfs_state ready nb tb ?T3" using d1(3) by simp
        from read_sbat_ok [OF s3 one] d1(2) obtain d2 where d2: "read_sbat G 1 ?T3 = Inr (1, ?T3\<lparr>sdisk := d2, sbuf_bat := ?f 1\<rparr>)" "blk d2 = ?f"
          "sfs_state ready nb tb (?T3\<lparr>sdisk := d2, sbuf_bat := ?f 1\<rparr>)" by auto
        let ?T4 = "?T3\<lparr>sdisk := d2, sbuf_bat := ?f 1\<rparr>"
        have run: "sfs_create G pn sz buf ex T = sfs_create_alloc G (uint d) (int x) (int n) ?s (folder_name (cstr pn)) ?T4"
          using head 1 nm0(1) nm(1) d2(1) by (simp add: SFS_ALLOCATION_BLOCK_def)
        have a: "slock ?T4 = 0" "blk (sdisk ?T4) = ?f" "sbuf_bat ?T4 = ?f 1" "sbuf_md ?T4 = ?md" "smd_rest ?T4 = drop 500 (?f d)"
          "folder_name (cstr pn) \<longrightarrow> ?s = 0" using d2(2) by (simp_all add: new_size_def)
        have can: "creatable_at tb ?f pn sz \<longleftrightarrow> int (card (in_use tb ?f)) + int n + 1 \<le> uint tb"
          using ok d free by (simp add: creatable_at_def n_def)
        show ?thesis
        proof (cases rule: create_alloc_ok [OF d2(3) a(1) t(6) a(2,3) dn(2) dir 1(2,3) nm(2) a(4,5) conjunct1 [OF conjunct2 [OF ok]] conjunct2 [OF conjunct2 [OF ok]] n_def a(6)])
          case (2 T')
          have "sfs_inv ready blk nb tb T'" by (rule keep) (use 2 o1 in simp_all)
          then show ?thesis using that [of VFS_ERROR T'] run 2 can o1 by simp
        next
          case A: (1 T' i ks X N)
          have p2: "elem_list_ok (butlast ?p @ [last ?p])" using pok psplit by simp
          note C = wf_created [OF t(6) p2 d(2) new 1(2,3) nm(2-4) A(8-11) A(12) [unfolded fn] A(13) [unfolded fn] A(14-16)]
          have c: "created tb ?f (blk (sdisk T')) ?p i ?s" using C(2) psplit by simp
          have w: "sfs_wf tb (blk (sdisk T')) (insert (i, is_dir ?p) (tree_owners ?f \<union> open_owners (open_files T)))"
            using C(1) pne by (simp add: is_dir_def)
          have of: "openfile_lock T' = 1" "open_files T' = open_files T" "kres T' = kres T" using A(5-7) o1 by simp_all
          have "sfs_inv ready blk nb tb T'" by (rule created_inv [OF inv A(3,4) of(1,2) pok pne d(1) c w])
          then show ?thesis using that [of VFS_OK T'] run A(1,2) can c of by auto
        qed
      qed
    qed
  qed
qed

end

end
