(* ===== verification/Sfs_system.thy ===== *)
theory Sfs_system
  imports Sfs_create
begin

text \<open>
  The student filesystem as a whole: sequences of calls refine a tree of names over numbered files,
  where a file lives as long as it has a name or is open.
\<close>

section \<open>The abstract filesystem\<close>

record tree_fs =
  names :: "byte list list \<rightharpoonup> u32"
  opens :: "u32 \<rightharpoonup> int \<times> bool"
  files :: "u32 \<rightharpoonup> byte list"

text \<open>The files that exist: those with a name and those that are open.\<close>

definition alive :: "tree_fs \<Rightarrow> u32 set" where
  "alive A = {i. (\<exists>p. names A p = Some i \<and> \<not> is_dir p) \<or> (\<exists>n. opens A i = Some (n, False))}"

definition collect :: "tree_fs \<Rightarrow> tree_fs" where
  "collect A = A\<lparr>files := files A |` alive A\<rparr>"

definition named :: "tree_fs \<Rightarrow> cstring \<Rightarrow> u32 option" where
  "named A pn = (if path_ok (cstr pn) then names A (elems (tl (cstr pn))) else None)"

datatype sfs_call = S_open cstring | S_close u32 | S_read u32 "byte list" int int | S_write u32 "byte list" int int
  | S_create cstring int | S_remove cstring | S_free

text \<open>
  One call with its result and, for a read, the buffer as it is left. A create may fail for lack of
  room, which the tree does not show.
\<close>

fun tree_step :: "sfs_call \<Rightarrow> tree_fs \<Rightarrow> int \<Rightarrow> byte list \<Rightarrow> tree_fs \<Rightarrow> bool" where
  "tree_step (S_open pn) A r bs A' \<longleftrightarrow> bs = [] \<and>
     (case named A pn of
        None \<Rightarrow> r = VFS_NOT_FOUND \<and> A' = A
      | Some i \<Rightarrow> if table_room (opens A) i then r = uint i \<and> A' = A\<lparr>opens := opened_more (opens A) i (folder_name (cstr pn))\<rparr>
                 else r = VFS_ERROR \<and> A' = A)"
| "tree_step (S_close i) A r bs A' \<longleftrightarrow> bs = [] \<and> r = (if opens A i = None then VFS_ERROR else VFS_OK) \<and>
     A' = collect (A\<lparr>opens := closed_once (opens A) i\<rparr>)"
| "tree_step (S_read i buffer n off) A r bs A' \<longleftrightarrow> A' = A \<and>
     (case opens A i of
        None \<Rightarrow> r = VFS_ERROR \<and> bs = buffer
      | Some (_, True) \<Rightarrow> off \<noteq> 0 \<or> n < 512 \<longrightarrow> r = VFS_ERROR \<and> bs = buffer
      | Some (_, False) \<Rightarrow>
          (\<exists>C. files A i = Some C \<and>
             (if off < 0 \<or> off > int (length C) then r = VFS_ERROR \<and> bs = buffer
              else r = min n (int (length C) - off) \<and> bs = splice 0 (slice (nat off) (nat r) C) buffer)))"
| "tree_step (S_write i buf n off) A r bs A' \<longleftrightarrow> bs = [] \<and>
     (case opens A i of
        Some (_, False) \<Rightarrow>
          (\<exists>C. files A i = Some C \<and>
             (if off < 0 \<or> off > int (length C) then r = VFS_ERROR \<and> A' = A
              else r = min n (int (length C) - off) \<and> A' = A\<lparr>files := (files A)(i \<mapsto> splice (nat off) (take (nat r) buf) C)\<rparr>))
      | _ \<Rightarrow> r = VFS_ERROR \<and> A' = A)"
| "tree_step (S_create pn sz) A r bs A' \<longleftrightarrow> bs = [] \<and>
     (r = VFS_ERROR \<and> A' = A \<or>
      r = VFS_OK \<and> path_ok (cstr pn) \<and> named A pn = None \<and> names A (butlast (elems (tl (cstr pn)))) \<noteq> None \<and>
      0 \<le> new_size pn sz \<and> new_size pn sz \<le> 65024 \<and>
      (\<exists>i. i \<notin> ran (names A) \<and> i \<notin> dom (opens A) \<and>
         A' = A\<lparr>names := (names A)(elems (tl (cstr pn)) \<mapsto> i),
                files := if folder_name (cstr pn) then files A else (files A)(i \<mapsto> replicate (nat (new_size pn sz)) 0)\<rparr>))"
| "tree_step (S_remove pn) A r bs A' \<longleftrightarrow> bs = [] \<and>
     (case named A pn of
        None \<Rightarrow> r = VFS_NOT_FOUND \<and> A' = A
      | Some i \<Rightarrow>
          if cstr pn = [47] then r = VFS_NOT_FOUND \<and> A' = A
          else if table_room (opens A) i
          then r = VFS_OK \<and> A' = collect (A\<lparr>names := (\<lambda>q. if prefix (elems (tl (cstr pn))) q then None else names A q)\<rparr>)
          else r = VFS_ERROR \<and> A' = A)"
| "tree_step S_free A r bs A' \<longleftrightarrow> bs = [] \<and> 0 \<le> r \<and> A' = A"

fun tree_run :: "sfs_call list \<Rightarrow> (int \<times> byte list) list \<Rightarrow> tree_fs \<Rightarrow> tree_fs \<Rightarrow> bool" where
  "tree_run [] rs A A' \<longleftrightarrow> rs = [] \<and> A' = A"
| "tree_run (c # cs) rs A A' \<longleftrightarrow> (\<exists>r bs rs' A1. rs = (r, bs) # rs' \<and> tree_step c A r bs A1 \<and> tree_run cs rs' A1 A')"

section \<open>The calls of the driver\<close>

text \<open>\<open>buf\<close>, \<open>bat\<close> and \<open>ex\<close> are what the stack holds when a call begins.\<close>

fun sfs_do :: "'d gbd_t \<Rightarrow> int \<Rightarrow> cstring \<Rightarrow> byte list \<Rightarrow> bool \<Rightarrow> sfs_call \<Rightarrow> 'd sfs_t \<Rightarrow> (int \<times> byte list \<times> 'd sfs_t) kresult" where
  "sfs_do G tid buf bat ex (S_open pn) T = rbind (sfs_open G pn buf T) (\<lambda>(r, T). Inr (r, [], T))"
| "sfs_do G tid buf bat ex (S_close i) T = rbind (sfs_close G (uint i) T) (\<lambda>(r, T). Inr (r, [], T))"
| "sfs_do G tid buf bat ex (S_read i buffer n off) T = sfs_read G (uint i) buffer n off T"
| "sfs_do G tid buf bat ex (S_write i data n off) T = rbind (sfs_write G tid (uint i) data n off bat T) (\<lambda>(r, T). Inr (r, [], T))"
| "sfs_do G tid buf bat ex (S_create pn sz) T = rbind (sfs_create G pn sz buf ex T) (\<lambda>(r, T). Inr (r, [], T))"
| "sfs_do G tid buf bat ex (S_remove pn) T = rbind (sfs_remove G pn buf T) (\<lambda>(r, T). Inr (r, [], T))"
| "sfs_do G tid buf bat ex S_free T = rbind (sfs_getfree G T) (\<lambda>(r, T). Inr (r, [], T))"

fun sfs_run ::
  "'d gbd_t \<Rightarrow> int \<Rightarrow> cstring \<Rightarrow> byte list \<Rightarrow> bool \<Rightarrow> sfs_call list \<Rightarrow> 'd sfs_t \<Rightarrow> ((int \<times> byte list) list \<times> 'd sfs_t) kresult" where
  "sfs_run G tid buf bat ex [] T = Inr ([], T)"
| "sfs_run G tid buf bat ex (c # cs) T =
     rbind (sfs_do G tid buf bat ex c T) (\<lambda>(r, bs, T).
     rbind (sfs_run G tid buf bat ex cs T) (\<lambda>(rs, T). Inr ((r, bs) # rs, T)))"

fun sfs_call_ok :: "sfs_call \<Rightarrow> bool" where
  "sfs_call_ok (S_open pn) \<longleftrightarrow> terminated pn"
| "sfs_call_ok (S_close i) \<longleftrightarrow> True"
| "sfs_call_ok (S_read i buffer n off) \<longleftrightarrow> 0 \<le> n \<and> n \<le> int (length buffer)"
| "sfs_call_ok (S_write i data n off) \<longleftrightarrow> 0 \<le> n \<and> n \<le> int (length data)"
| "sfs_call_ok (S_create pn sz) \<longleftrightarrow> terminated pn \<and> sz < 2 ^ 31 - 511"
| "sfs_call_ok (S_remove pn) \<longleftrightarrow> terminated pn"
| "sfs_call_ok S_free \<longleftrightarrow> True"

section \<open>The abstraction\<close>

definition tree_of :: "volume \<Rightarrow> (u32 \<rightharpoonup> int \<times> bool) \<Rightarrow> tree_fs" where
  "tree_of f V = collect \<lparr>names = (\<lambda>p. if elem_list_ok p then walk f 2 p else None), opens = V, files = (\<lambda>i. Some (content f i))\<rparr>"

definition sfs_abs :: "('d \<Rightarrow> volume) \<Rightarrow> 'd sfs_t \<Rightarrow> tree_fs" where
  "sfs_abs blk T = tree_of (blk (sdisk T)) (open_view (open_files T))"

lemma tree_of_sel [simp]:
  "names (tree_of f V) p = (if elem_list_ok p then walk f 2 p else None)" "opens (tree_of f V) = V"
  by (simp_all add: tree_of_def collect_def)

lemma alive_cong: "names A = names B \<Longrightarrow> opens A = opens B \<Longrightarrow> alive A = alive B"
  by (simp add: alive_def)

lemma alive_upd [simp]: "alive (A\<lparr>files := F\<rparr>) = alive A"
  by (simp add: alive_def)

lemma alive_collect [simp]: "alive (collect A) = alive A" "names (collect A) = names A" "opens (collect A) = opens A"
  by (simp_all add: collect_def)

lemma files_tree_of: "files (tree_of f V) i = (if i \<in> alive (tree_of f V) then Some (content f i) else None)"
  by (simp add: tree_of_def collect_def restrict_map_def alive_def)

lemma named_tree_of: "named (tree_of f V) pn = node_at f pn"
  by (simp add: named_def node_at_def path_elems)

text \<open>Two volumes with the same names give the same tree when the contents of the files that are left agree.\<close>

lemma tree_of_eq:
  assumes "names B = names (tree_of g V)" "opens B = V"
    and "\<And>i. i \<in> alive (tree_of g V) \<Longrightarrow> files B i = Some (content g i)" "\<And>i. i \<notin> alive (tree_of g V) \<Longrightarrow> files B i = None"
  shows "tree_of g V = B"
proof -
  have "files (tree_of g V) = files B" using assms(3,4) by (intro ext) (simp add: files_tree_of)
  then show ?thesis using assms(1,2) by (intro tree_fs.equality) simp_all
qed

lemma alive_tree: "i \<in> alive (tree_of f V) \<longleftrightarrow>
    (\<exists>p. elem_list_ok p \<and> walk f 2 p = Some i \<and> \<not> is_dir p) \<or> (\<exists>n. V i = Some (n, False))"
  by (auto simp: alive_def split: if_splits)

lemma alive_owner:
  assumes "linked_ok f es" "table_ok tb es" "i \<in> alive (tree_of f (open_view es))"
  shows "(i, False) \<in> tree_owners f \<union> open_owners es"
proof -
  have "(\<exists>p. elem_list_ok p \<and> walk f 2 p = Some i \<and> \<not> is_dir p) \<or> (\<exists>n. open_view es i = Some (n, False))"
    using assms(3) by (simp only: alive_tree)
  then show ?thesis
  proof
    assume "\<exists>p. elem_list_ok p \<and> walk f 2 p = Some i \<and> \<not> is_dir p"
    then obtain p where p: "elem_list_ok p" "walk f 2 p = Some i" "\<not> is_dir p" by blast
    then have "p \<noteq> []" by (auto simp: is_dir_def)
    from tree_ownerI [OF p(1) this p(2)] p(3) show ?thesis by simp
  next
    assume "\<exists>n. open_view es i = Some (n, False)"
    then obtain e where e: "opened es i = Some e" "\<not> is_folder e" by (auto simp: open_view_def)
    from opened_Some [OF e(1)] have e': "e \<in> set es" "fileid e = uint i" by auto
    have "i \<noteq> 2"
      using assms(1) [unfolded linked_ok_def, rule_format, OF e'(1) elem_list_ok_Nil, of 2] e' e(2) by (auto simp: is_dir_def)
    then show ?thesis using e e' by (auto simp: open_owners_def)
  qed
qed

text \<open>Contents survive a change of the allocation block, of folders and of blocks that are not in use.\<close>

lemma content_same:
  assumes wf: "sfs_wf tb f W" and i: "(i, False) \<in> W"
    and g: "\<And>b. b < tb \<Longrightarrow> marked f b \<Longrightarrow> b \<noteq> 1 \<Longrightarrow> \<not> (\<exists>p. elem_list_ok p \<and> is_dir p \<and> walk f 2 p = Some b) \<Longrightarrow> g b = f b"
  shows "content g i = content f i"
proof -
  have same: "g b = f b" if b: "b \<in> own f (i, False)" for b
  proof (rule g)
    note r = own_range [OF wf i b]
    show "b < tb" using r by blast
    then show "marked f b" using sfs_wfD(10) [OF wf i b] by blast
    show "b \<noteq> 1" using r by (auto simp: word_le_def)
    show "\<not> (\<exists>p. elem_list_ok p \<and> is_dir p \<and> walk f 2 p = Some b)"
    proof
      assume "\<exists>p. elem_list_ok p \<and> is_dir p \<and> walk f 2 p = Some b"
      then obtain p where p: "elem_list_ok p" "is_dir p" "walk f 2 p = Some b" by blast
      have "i \<noteq> b"
      proof
        assume ib: "i = b"
        have "b \<noteq> 2" using r by (auto simp: word_le_def)
        then have "p \<noteq> []" using p(3) by auto
        from tree_ownerI [OF p(1) this p(3)] p(2) sfs_wfD(5) [OF wf] have "(b, True) \<in> W" by auto
        with owner_unique [OF wf this, of False] i ib show False by blast
      qed
      with block_not_node [OF wf p i] b show False by simp
    qed
  qed
  then have "g i = f i" "\<forall>b \<in> set (file_blocks f i). g b = f b" by simp_all
  then show ?thesis by (simp add: content_def file_blocks_def Let_def cong: map_cong)
qed

section \<open>Every call refines its step\<close>

context block_device begin

lemma open_refines:
  assumes inv: "sfs_inv ready blk nb tb T" and pn: "terminated pn" "length buf = 16"
  shows "\<exists>r T'. sfs_open G pn buf T = Inr (r, T') \<and> sfs_inv ready blk nb tb T' \<and> tree_step (S_open pn) (sfs_abs blk T) r [] (sfs_abs blk T')"
proof -
  let ?f = "blk (sdisk T)" let ?V = "open_view (open_files T)"
  obtain r T' where R: "sfs_open G pn buf T = Inr (r, T')" "sfs_inv ready blk nb tb T'" "blk (sdisk T') = ?f" "kres T' = kres T"
    "case node_at ?f pn of
       None \<Rightarrow> r = VFS_NOT_FOUND \<and> open_view (open_files T') = ?V
     | Some i \<Rightarrow> if table_room ?V i then r = uint i \<and> open_view (open_files T') = opened_more ?V i (folder_name (cstr pn))
                else r = VFS_ERROR \<and> open_view (open_files T') = ?V" by (rule open_effect [OF inv pn])
  have "tree_step (S_open pn) (sfs_abs blk T) r [] (sfs_abs blk T')"
  proof (cases "node_at ?f pn")
    case None
    then show ?thesis using R(3,5) by (simp add: sfs_abs_def named_tree_of)
  next
    case (Some i)
    let ?V' = "opened_more ?V i (folder_name (cstr pn))" let ?p = "elems (tl (cstr pn))"
    have p: "path_ok (cstr pn)" "walk ?f 2 ?p = Some i" "elem_list_ok ?p" "is_dir ?p = folder_name (cstr pn)"
      using Some path_elems path_folder by (auto simp: node_at_def split: if_splits)
    have "j \<in> alive (tree_of ?f ?V') \<longleftrightarrow> j \<in> alive (tree_of ?f ?V)" for j
    proof (cases "j = i")
      case True
      have "i \<in> alive (tree_of ?f V)" if "\<not> is_dir ?p" for V
        using p that by (auto simp: alive_def intro!: exI [of _ ?p])
      moreover have "(\<exists>n. ?V i = Some (n, False)) \<Longrightarrow> is_dir ?p \<Longrightarrow> False"
      proof -
        assume "\<exists>n. ?V i = Some (n, False)" and d: "is_dir ?p"
        then obtain e where e: "opened (open_files T) i = Some e" "\<not> is_folder e" by (auto simp: open_view_def)
        from opened_Some [OF e(1)] have "e \<in> set (open_files T)" "fileid e = uint i" by auto
        with sfs_invD(5) [OF inv] p(2,3) e(2) d show False by (auto simp: linked_ok_def)
      qed
      ultimately show ?thesis using True p(4) by (cases "is_dir ?p") (auto simp: alive_def opened_more_def)
    next
      case False
      then show ?thesis by (simp add: alive_def opened_more_def)
    qed
    then have "alive (tree_of ?f ?V') = alive (tree_of ?f ?V)" by blast
    then have "tree_of ?f ?V' = (tree_of ?f ?V)\<lparr>opens := ?V'\<rparr>"
      by (intro tree_of_eq) (auto simp: files_tree_of)
    then show ?thesis using R(3,5) Some by (cases "table_room ?V i") (simp_all add: sfs_abs_def named_tree_of)
  qed
  with R(1,2) show ?thesis by blast
qed

lemma close_refines:
  assumes inv: "sfs_inv ready blk nb tb T"
  shows "\<exists>r T'. sfs_close G (uint i) T = Inr (r, T') \<and> sfs_inv ready blk nb tb T' \<and> tree_step (S_close i) (sfs_abs blk T) r [] (sfs_abs blk T')"
proof -
  note t = sfs_invD [OF inv]
  let ?f = "blk (sdisk T)" let ?V = "open_view (open_files T)"
  obtain r T' where R: "sfs_close G (uint i) T = Inr (r, T')" "sfs_inv ready blk nb tb T'" "kres T' = kres T"
    "\<And>b. b \<noteq> 1 \<Longrightarrow> blk (sdisk T') b = ?f b" "\<And>q. elem_list_ok q \<Longrightarrow> walk (blk (sdisk T')) 2 q = walk ?f 2 q"
    "open_view (open_files T') = closed_once ?V i" "r = (if ?V i = None then VFS_ERROR else VFS_OK)" by (rule close_effect [OF inv, of i]) (rule that)
  let ?g = "blk (sdisk T')" let ?V' = "closed_once ?V i" let ?A = "(tree_of ?f ?V)\<lparr>opens := ?V'\<rparr>"
  have N: "names (tree_of ?g ?V') = names ?A" using R(5) by (intro ext) simp
  have al: "alive ?A = alive (tree_of ?g ?V')" using N by (intro alive_cong) simp_all
  have sub: "alive (tree_of ?g ?V') \<subseteq> alive (tree_of ?f ?V)"
    unfolding al [symmetric] by (auto simp: alive_def closed_once_def split: if_splits option.splits prod.splits)
  have "content ?g j = content ?f j" if "j \<in> alive (tree_of ?f ?V)" for j
    by (rule content_same [OF t(6) alive_owner [OF t(5,4) that]]) (use R(4) in blast)
  then have "tree_of ?g ?V' = collect ?A"
    using N sub al by (intro tree_of_eq) (auto simp: collect_def restrict_map_def files_tree_of)
  then show ?thesis using R by (auto simp: sfs_abs_def)
qed

lemma remove_refines:
  assumes inv: "sfs_inv ready blk nb tb T" and pn: "terminated pn" "length buf = 16"
  shows "\<exists>r T'. sfs_remove G pn buf T = Inr (r, T') \<and> sfs_inv ready blk nb tb T' \<and> tree_step (S_remove pn) (sfs_abs blk T) r [] (sfs_abs blk T')"
proof -
  note t = sfs_invD [OF inv]
  let ?f = "blk (sdisk T)" let ?V = "open_view (open_files T)" let ?p = "elems (tl (cstr pn))"
  obtain r T' where R: "sfs_remove G pn buf T = Inr (r, T')" "sfs_inv ready blk nb tb T'" "kres T' = kres T" "open_view (open_files T') = ?V"
    "case node_at ?f pn of
       None \<Rightarrow> r = VFS_NOT_FOUND \<and> blk (sdisk T') = ?f
     | Some i \<Rightarrow>
         if cstr pn = [47] then r = VFS_NOT_FOUND \<and> blk (sdisk T') = ?f
         else if table_room ?V i then r = VFS_OK \<and> removed tb ?f (blk (sdisk T')) ?p i (?V i = None) \<and> (\<forall>e. opened (open_files T') i = Some e \<longrightarrow> is_deleted e)
         else r = VFS_ERROR \<and> blk (sdisk T') = ?f" by (rule remove_effect [OF inv pn])
  let ?g = "blk (sdisk T')" let ?A = "(tree_of ?f ?V)\<lparr>names := (\<lambda>q. if prefix ?p q then None else names (tree_of ?f ?V) q)\<rparr>"
  have step: "tree_of ?g ?V = collect ?A" if rm: "removed tb ?f ?g ?p i b" and p: "walk ?f 2 ?p = Some i" "elem_list_ok ?p" "?p \<noteq> []" for i b
  proof -
    have N: "names (tree_of ?g ?V) = names ?A" using rm by (intro ext) (simp add: removed_def)
    have al: "alive ?A = alive (tree_of ?g ?V)" using N by (intro alive_cong) simp_all
    have sub: "alive (tree_of ?g ?V) \<subseteq> alive (tree_of ?f ?V)"
      unfolding al [symmetric] by (auto simp: alive_def split: if_splits)
    have par: "\<exists>d. walk ?f 2 (butlast ?p) = Some d \<and> elem_list_ok (butlast ?p) \<and> is_dir (butlast ?p)"
      using walk_butlast [OF p(3), of ?f 2] p elem_list_ok_snoc [of "butlast ?p" "last ?p"] by auto
    have "content ?g j = content ?f j" if "j \<in> alive (tree_of ?f ?V)" for j
      by (rule content_same [OF t(6) alive_owner [OF t(5,4) that]]) (use rm par in \<open>auto simp: removed_def\<close>)
    then show ?thesis using N sub al by (intro tree_of_eq) (auto simp: collect_def restrict_map_def files_tree_of)
  qed
  have "tree_step (S_remove pn) (sfs_abs blk T) r [] (sfs_abs blk T')"
  proof (cases "node_at ?f pn")
    case None
    then show ?thesis using R(4,5) by (simp add: sfs_abs_def named_tree_of)
  next
    case (Some i)
    have p: "path_ok (cstr pn)" "walk ?f 2 ?p = Some i" "elem_list_ok ?p"
      using Some path_elems by (auto simp: node_at_def split: if_splits)
    show ?thesis
    proof (cases "cstr pn \<noteq> [47] \<and> table_room ?V i")
      case True
      then have "removed tb ?f ?g ?p i (?V i = None)" "r = VFS_OK" using R(5) Some by simp_all
      moreover have "?p \<noteq> []" using True root_path [OF p(1)] by simp
      ultimately show ?thesis using step [OF _ p(2,3)] R(4) Some True by (simp add: sfs_abs_def named_tree_of)
    next
      case False
      then show ?thesis using R(4,5) Some by (cases "cstr pn = [47]") (simp_all add: sfs_abs_def named_tree_of)
    qed
  qed
  with R(1,2) show ?thesis by blast
qed

end

context block_device begin

lemma read_refines:
  assumes inv: "sfs_inv ready blk nb tb T" and n: "0 \<le> n" "n \<le> int (length buffer)"
  shows "\<exists>r bs T'. sfs_read G (uint i) buffer n off T = Inr (r, bs, T') \<and> sfs_inv ready blk nb tb T' \<and>
    tree_step (S_read i buffer n off) (sfs_abs blk T) r bs (sfs_abs blk T')"
proof -
  let ?f = "blk (sdisk T)" let ?V = "open_view (open_files T)"
  obtain r bs T' where R: "sfs_read G (uint i) buffer n off T = Inr (r, bs, T')" "sfs_inv ready blk nb tb T'"
    "blk (sdisk T') = ?f" "kres T' = kres T" "open_files T' = open_files T"
    "case ?V i of
       None \<Rightarrow> r = VFS_ERROR \<and> bs = buffer
     | Some (_, False) \<Rightarrow>
         if off < 0 \<or> off > int (length (content ?f i)) then r = VFS_ERROR \<and> bs = buffer
         else r = min n (int (length (content ?f i)) - off) \<and> bs = splice 0 (slice (nat off) (nat r) (content ?f i)) buffer
     | Some (_, True) \<Rightarrow>
         if off \<noteq> 0 \<or> n < 512 then r = VFS_ERROR \<and> bs = buffer
         else r = int (length (folder_listing (?f i))) \<and> bs = splice 0 (folder_listing (?f i)) buffer"
    by (rule read_effect [OF inv n, of i off]) (rule that)
  have al: "files (tree_of ?f ?V) i = Some (content ?f i)" if "?V i = Some (m, False)" for m
    using that by (auto simp: files_tree_of alive_def)
  have "tree_step (S_read i buffer n off) (sfs_abs blk T) r bs (sfs_abs blk T')"
  proof (cases "?V i")
    case None
    then show ?thesis using R(3,5,6) by (simp add: sfs_abs_def)
  next
    case (Some x)
    obtain m d where x: "x = (m, d)" by (cases x)
    then show ?thesis using R(3,5,6) Some al [of m] by (cases d) (auto simp: sfs_abs_def split: if_splits)
  qed
  with R(1,2) show ?thesis by blast
qed

lemma write_refines:
  assumes inv: "sfs_inv ready blk nb tb T" and n: "0 \<le> n" "n \<le> int (length data)" and bat: "length bat = 512"
  shows "\<exists>r T'. sfs_write G tid (uint i) data n off bat T = Inr (r, T') \<and> sfs_inv ready blk nb tb T' \<and>
    tree_step (S_write i data n off) (sfs_abs blk T) r [] (sfs_abs blk T')"
proof -
  note t = sfs_invD [OF inv]
  let ?f = "blk (sdisk T)" let ?V = "open_view (open_files T)" let ?C = "content (blk (sdisk T)) i"
  let ?W = "tree_owners ?f \<union> open_owners (open_files T)"
  obtain r T' where R: "sfs_write G tid (uint i) data n off bat T = Inr (r, T')" "sfs_inv ready blk nb tb T'"
    "kres T' = kres T" "open_files T' = open_files T" "\<And>q. elem_list_ok q \<Longrightarrow> walk (blk (sdisk T')) 2 q = walk ?f 2 q"
    "case ?V i of
       Some (_, False) \<Rightarrow>
         (let C = ?C in
          if off < 0 \<or> off > int (length C) then r = VFS_ERROR \<and> content (blk (sdisk T')) i = C
          else r = min n (int (length C) - off) \<and> content (blk (sdisk T')) i = splice (nat off) (take (nat r) data) C) \<and>
         (\<forall>b. b \<notin> set (file_blocks ?f i) \<longrightarrow> blk (sdisk T') b = ?f b)
     | _ \<Rightarrow> r = VFS_ERROR \<and> blk (sdisk T') = ?f"
    by (rule write_effect [OF inv n bat, of tid i off]) (rule that)
  let ?g = "blk (sdisk T')"
  have "tree_step (S_write i data n off) (sfs_abs blk T) r [] (sfs_abs blk T')"
  proof (cases "\<exists>m. ?V i = Some (m, False)")
    case False
    then have "r = VFS_ERROR \<and> ?g = ?f" using R(6) by (cases "?V i") (auto split: bool.splits)
    then show ?thesis using False R(4) by (cases "?V i") (auto simp: sfs_abs_def split: bool.splits)
  next
    case True
    then obtain m where m: "?V i = Some (m, False)" by blast
    note R6 = R(6) [unfolded m, simplified, unfolded Let_def]
    have N: "names (tree_of ?g ?V) = names (tree_of ?f ?V)" using R(5) by (intro ext) simp
    have al: "alive (tree_of ?g ?V) = alive (tree_of ?f ?V)" using N by (intro alive_cong) simp_all
    have ia: "i \<in> alive (tree_of ?f ?V)" using m by (auto simp: alive_def)
    note iW = alive_owner [OF t(5,4) ia]
    have other: "content ?g j = content ?f j" if j: "j \<in> alive (tree_of ?f ?V)" "j \<noteq> i" for j
    proof -
      have jW: "(j, False) \<in> ?W" by (rule alive_owner [OF t(5,4) j(1)])
      have "?g b = ?f b" if "b \<in> own ?f (j, False)" for b
        using sfs_wfD(7) [OF t(6) iW jW] j(2) that R6 by auto
      then have "?g j = ?f j" "\<forall>b \<in> set (file_blocks ?f j). ?g b = ?f b" by simp_all
      then show ?thesis by (simp add: content_def file_blocks_def Let_def cong: map_cong)
    qed
    have eq: "tree_of ?g ?V = (tree_of ?f ?V)\<lparr>files := (files (tree_of ?f ?V))(i \<mapsto> content ?g i)\<rparr>"
      using N al ia other by (intro tree_of_eq) (auto simp: files_tree_of)
    have fi: "files (tree_of ?f ?V) i = Some ?C" using ia by (simp add: files_tree_of)
    show ?thesis
    proof (cases "off < 0 \<or> off > int (length ?C)")
      case True
      then have "tree_of ?g ?V = tree_of ?f ?V" using R6 fi unfolding eq by (auto simp: fun_upd_idem)
      then show ?thesis using True R6 R(4) m fi by (auto simp: sfs_abs_def)
    next
      case False
      then show ?thesis using eq R6 R(4) m fi by (auto simp: sfs_abs_def)
    qed
  qed
  with R(1,2) show ?thesis by blast
qed

lemma create_refines:
  assumes inv: "sfs_inv ready blk nb tb T" and pn: "terminated pn" "length buf = 16" and sz: "sz < 2 ^ 31 - 511"
  shows "\<exists>r T'. sfs_create G pn sz buf ex T = Inr (r, T') \<and> sfs_inv ready blk nb tb T' \<and>
    tree_step (S_create pn sz) (sfs_abs blk T) r [] (sfs_abs blk T')"
proof -
  note t = sfs_invD [OF inv]
  let ?f = "blk (sdisk T)" let ?V = "open_view (open_files T)" let ?p = "elems (tl (cstr pn))" let ?s = "new_size pn sz"
  let ?W = "tree_owners ?f \<union> open_owners (open_files T)"
  obtain r T' where R: "sfs_create G pn sz buf ex T = Inr (r, T')" "sfs_inv ready blk nb tb T'" "kres T' = kres T" "open_files T' = open_files T"
    "if creatable_at tb ?f pn sz
     then r = VFS_OK \<and> (\<exists>i. created tb ?f (blk (sdisk T')) ?p i ?s)
     else r = VFS_ERROR \<and> blk (sdisk T') = ?f" by (rule create_effect [OF inv pn sz, of ex])
  let ?g = "blk (sdisk T')"
  have "tree_step (S_create pn sz) (sfs_abs blk T) r [] (sfs_abs blk T')"
  proof (cases "creatable_at tb ?f pn sz")
    case False
    then show ?thesis using R(4,5) by (simp add: sfs_abs_def)
  next
    case True
    then obtain i where i: "created tb ?f ?g ?p i ?s" and r: "r = VFS_OK" using R(5) by auto
    have c: "path_ok (cstr pn)" "0 \<le> ?s" "?s \<le> 65024" "walk ?f 2 ?p = None" "walk ?f 2 (butlast ?p) \<noteq> None"
      using True by (auto simp: creatable_at_def split: option.splits)
    note pok = path_elems [OF c(1)]
    have pne: "?p \<noteq> []" using c(4) by auto
    have q: "elem_list_ok (butlast ?p)" "is_dir (butlast ?p)" using pok pne elem_list_ok_snoc [of "butlast ?p" "last ?p"] by simp_all
    obtain d where d: "walk ?f 2 (butlast ?p) = Some d" using c(5) by auto
    have fresh: "i < tb" "\<not> marked ?f i" using i by (simp_all add: created_def)
    have w: "walk ?g 2 x = (if x = ?p then Some i else walk ?f 2 x)" if "elem_list_ok x" for x using i that by (simp add: created_def)
    have notW: "(i, e) \<notin> ?W" for e using sfs_wfD(10) [OF t(6) _ own_self fresh(1)] fresh(2) by blast
    have i2: "i \<noteq> 2" using fresh sfs_wfD(9) [OF t(6) fresh(1)] by (auto simp: word_less_def)
    have noname: "walk ?f 2 x \<noteq> Some i" if "elem_list_ok x" for x
    proof
      assume xi: "walk ?f 2 x = Some i"
      then have "x \<noteq> []" using i2 by auto
      from tree_ownerI [OF that this xi] notW show False by blast
    qed
    have noopen: "?V i = None"
    proof (cases "opened (open_files T) i")
      case (Some e)
      from opened_Some [OF this] have "e \<in> set (open_files T)" "fileid e = uint i" by auto
      then have "(i, is_folder e) \<in> open_owners (open_files T)" using i2 by (auto simp: open_owners_def)
      with notW show ?thesis by blast
    qed (simp add: open_view_def)
    let ?A = "(tree_of ?f ?V)\<lparr>names := (names (tree_of ?f ?V))(?p \<mapsto> i),
        files := if folder_name (cstr pn) then files (tree_of ?f ?V) else (files (tree_of ?f ?V))(i \<mapsto> replicate (nat ?s) 0)\<rparr>"
    have N: "names (tree_of ?g ?V) = names ?A" using w pok by (intro ext) simp
    have fo: "is_dir ?p = folder_name (cstr pn)" using path_folder [OF c(1)] by simp
    have old: "i \<notin> alive (tree_of ?f ?V)" using alive_owner [OF t(5,4), of i] notW by blast
    have al: "alive (tree_of ?g ?V) = alive (tree_of ?f ?V) \<union> (if is_dir ?p then {} else {i})"
    proof -
      have "(\<exists>q. elem_list_ok q \<and> walk ?g 2 q = Some x \<and> \<not> is_dir q) \<longleftrightarrow>
          (\<exists>q. elem_list_ok q \<and> walk ?f 2 q = Some x \<and> \<not> is_dir q) \<or> \<not> is_dir ?p \<and> x = i" (is "?L \<longleftrightarrow> ?R \<or> ?S") for x
      proof
        show "?R \<or> ?S" if ?L using that w by (metis option.inject)
        have ?L if R: ?R
        proof -
          from R obtain y where y: "elem_list_ok y" "walk ?f 2 y = Some x" "\<not> is_dir y" by blast
          then have "y \<noteq> ?p" using c(4) by auto
          with w [OF y(1)] y show ?L by auto
        qed
        moreover have ?L if ?S using that w [OF pok] pok by auto
        ultimately show ?L if "?R \<or> ?S" using that by blast
      qed
      then show ?thesis by (auto simp: alive_tree)
    qed
    have other: "content ?g j = content ?f j" if "j \<in> alive (tree_of ?f ?V)" for j
      by (rule content_same [OF t(6) alive_owner [OF t(5,4) that]]) (use i q d in \<open>auto simp: created_def\<close>)
    have ci: "\<not> is_dir ?p \<longrightarrow> content ?g i = replicate (nat ?s) 0" using i by (simp add: created_def)
    have eq: "tree_of ?g ?V = ?A"
    proof (rule tree_of_eq)
      show "files ?A j = Some (content ?g j)" if "j \<in> alive (tree_of ?g ?V)" for j
        using that al old other ci fo by (cases "is_dir ?p"; cases "j = i") (auto simp: files_tree_of)
      show "files ?A j = None" if "j \<notin> alive (tree_of ?g ?V)" for j
        using that al fo by (cases "is_dir ?p") (auto simp: files_tree_of)
    qed (use N in simp_all)
    have "i \<notin> ran (names (tree_of ?f ?V))" using noname by (auto simp: ran_def split: if_splits)
    moreover have "i \<notin> dom ?V" using noopen by auto
    moreover have "named (tree_of ?f ?V) pn = None" using c(4) by (simp add: named_tree_of node_at_def)
    ultimately show ?thesis using eq r c q(1) R(4) by (auto simp: sfs_abs_def)
  qed
  with R(1,2) show ?thesis by blast
qed

lemma getfree_refines:
  assumes inv: "sfs_inv ready blk nb tb T"
  obtains T' where "sfs_getfree G T = Inr (512 * (uint tb - int (card (in_use tb (blk (sdisk T))))), T')"
    "sfs_inv ready blk nb tb T'" "blk (sdisk T') = blk (sdisk T)" "open_files T' = open_files T" "int (card (in_use tb (blk (sdisk T)))) \<le> uint tb"
proof -
  note t = sfs_invD [OF inv]
  let ?f = "blk (sdisk T)" let ?T0 = "T\<lparr>slock := 0\<rparr>" let ?c = "card (in_use tb ?f)"
  have tb: "tb \<le> nb" "totalvblocks T = tb" "stotalblocks T = tb" using t(1) by (simp_all add: sfs_state_def)
  have one: "(1 :: u32) < tb" by (rule less_le_trans [OF _ sfs_wfD(1) [OF t(6)]]) (simp add: word_less_def)
  then have onb: "(1 :: u32) < nb" using tb(1) by (rule less_le_trans)
  have f1: "length (?f 1) = 512" by (rule sfs_wfD(3) [OF t(6) one])
  have small: "uint tb \<le> 4096" using sfs_wfD(2) [OF t(6)] by (simp add: word_le_def)
  have "sfs_state ready nb tb ?T0" using t(1) by simp
  from read_sbat_ok [OF this onb] obtain d where d: "read_sbat G 1 ?T0 = Inr (1, ?T0\<lparr>sdisk := d, sbuf_bat := ?f 1\<rparr>)" "blk d = ?f"
    "sfs_state ready nb tb (?T0\<lparr>sdisk := d, sbuf_bat := ?f 1\<rparr>)" by auto
  let ?T1 = "?T0\<lparr>sdisk := d, sbuf_bat := ?f 1\<rparr>"
  have fits: "bm_fits (block_words (?f 1)) (uint tb)" by (rule bm_fits_block [OF f1 small])
  have "{k \<in> bm.taken (block_words (?f 1)) (uint tb). 0 \<le> k} = bm.taken (block_words (?f 1)) (uint tb)"
    unfolding taken_in_use by auto
  then have cnt: "count_allocated (block_words (?f 1)) 0 (uint tb) 0 = Inr (int ?c)"
    using count_allocated_eq [OF fits, of 0 0] by (simp add: card_in_use)
  have c: "int ?c \<le> uint tb" using bm.taken_bound [of "uint tb" "block_words (?f 1)"] by (simp add: card_in_use)
  define x where "x = (uint tb - int ?c) * 512"
  have w: "(tb - word_of_int (int ?c)) * word_of_int SFS_VBLOCK_SIZE = word_of_int x"
    by (simp add: sfs_sizes x_def)
  have ux: "uint (word_of_int x :: u32) = x" by (rule uint_of_int) (use c small in \<open>auto simp: x_def\<close>)
  then have sx: "sint (word_of_int x :: u32) = x" using c small by (subst sint_small) (auto simp: x_def)
  have tn: "tb \<noteq> 0" using one by (auto simp: word_less_def)
  have run: "sfs_getfree G T = Inr (512 * (uint tb - int ?c), V_slock ?T1)"
    using t(2) tb(2,3) d(1) cnt tn w sx by (simp add: sfs_getfree_def SFS_ALLOCATION_BLOCK_def x_def mult.commute)
  have "sfs_inv ready blk nb tb (V_slock ?T1)" by (rule inv_keeps [OF inv]) (use d(2,3) t(2) in \<open>simp_all add: keeps_def\<close>)
  then show ?thesis using that [OF run] d(2) c by simp
qed

lemma sfs_step_refines:
  assumes inv: "sfs_inv ready blk nb tb T" and c: "sfs_call_ok c" and buf: "length buf = 16" "length bat = 512"
  shows "\<exists>r bs T'. sfs_do G tid buf bat ex c T = Inr (r, bs, T') \<and> sfs_inv ready blk nb tb T' \<and> tree_step c (sfs_abs blk T) r bs (sfs_abs blk T')"
proof (cases c)
  case (S_open pn)
  with open_refines [OF inv _ buf(1), of pn] c show ?thesis by (auto simp del: tree_step.simps)
next
  case (S_close i)
  with close_refines [OF inv, of i] show ?thesis by (auto simp del: tree_step.simps)
next
  case (S_read i buffer n off)
  with read_refines [OF inv, of n buffer i off] c show ?thesis by (auto simp del: tree_step.simps)
next
  case (S_write i data n off)
  with write_refines [OF inv _ _ buf(2), of n data tid i off] c show ?thesis by (auto simp del: tree_step.simps)
next
  case (S_create pn sz)
  with create_refines [OF inv _ buf(1), of pn sz ex] c show ?thesis by (auto simp del: tree_step.simps)
next
  case (S_remove pn)
  with remove_refines [OF inv _ buf(1), of pn] c show ?thesis by (auto simp del: tree_step.simps)
next
  case S_free
  show ?thesis by (rule getfree_refines [OF inv]) (use S_free in \<open>simp add: sfs_abs_def\<close>)
qed

lemma sfs_history_refines:
  assumes "sfs_inv ready blk nb tb T" "\<forall>c \<in> set cs. sfs_call_ok c" "length buf = 16" "length bat = 512"
  shows "\<exists>rs T'. sfs_run G tid buf bat ex cs T = Inr (rs, T') \<and> sfs_inv ready blk nb tb T' \<and> tree_run cs rs (sfs_abs blk T) (sfs_abs blk T')"
  using assms
proof (induction cs arbitrary: T)
  case (Cons c cs)
  from sfs_step_refines [OF Cons.prems(1) _ Cons.prems(3,4), of c tid ex] Cons.prems(2) obtain r bs T1 where
    1: "sfs_do G tid buf bat ex c T = Inr (r, bs, T1)" "sfs_inv ready blk nb tb T1" "tree_step c (sfs_abs blk T) r bs (sfs_abs blk T1)" by auto
  from Cons.IH [OF 1(2)] Cons.prems obtain rs T2 where
    2: "sfs_run G tid buf bat ex cs T1 = Inr (rs, T2)" "sfs_inv ready blk nb tb T2" "tree_run cs rs (sfs_abs blk T1) (sfs_abs blk T2)" by auto
  from 1 2 show ?case by (intro exI [of _ "(r, bs) # rs"] exI [of _ T2]) (auto simp del: tree_step.simps)
qed simp

end

section \<open>A blank volume\<close>

definition closed_entry :: sfs_openfile_t where
  "closed_entry = \<lparr>io_lock = 1, times_opened = 0, readernum = 0, writer_tid = -1, fileid = -1, parentid = -1,
     is_folder = False, is_deleted = False\<rparr>"

definition blank_sfs :: "yams_disk disk_real_device_t sfs_t" where
  "blank_sfs = \<lparr>stotalblocks = 256, totalvblocks = 256, sdisk = blank_disk, slock = 1,
     sbuf_inode = \<lparr>filesize = 0, block = replicate 127 0\<rparr>, sbuf_bat = replicate 512 0, sbuf_md = [], smd_rest = [],
     open_files = replicate 32 closed_entry, openfile_lock = 1,
     kres = \<lparr>pool = pool4 1 3, free_sems = 1, free_locks = 0, free_conds = 0\<rparr>\<rparr>"

lemma blank_tree: "dir_used (blank_volume 2) = []" "dir_lookup (blank_volume 2) = Map.empty" "dir_ok (blank_volume 2)"
  "walk blank_volume 2 p = (if p = [] then Some 2 else None)" "tree_owners blank_volume = {}"
proof -
  have "inode e = 0" if "e \<in> set (dir_of (blank_volume 2))" for e by (simp add: blank_dir [OF that])
  then show u: "dir_used (blank_volume 2) = []" by (simp add: dir_used_def filter_empty_conv)
  then show l: "dir_lookup (blank_volume 2) = Map.empty" by (simp add: dir_lookup_def)
  show "dir_ok (blank_volume 2)" using u by (simp add: dir_ok_def blank_volume_def)
  show w: "walk blank_volume 2 p = (if p = [] then Some 2 else None)" for p using l by (cases p) simp_all
  show "tree_owners blank_volume = {}" by (auto simp: tree_owners_def w split: if_splits)
qed

lemma blank_table: "table_ok tb (replicate 32 closed_entry)" "open_owners (replicate 32 closed_entry) = {}"
  "open_view (replicate 32 closed_entry) = Map.empty"
proof -
  show "table_ok tb (replicate 32 closed_entry)" by (auto simp: table_ok_def entry_wf_def closed_entry_def)
  show "open_owners (replicate 32 closed_entry) = {}" by (auto simp: open_owners_def closed_entry_def)
  show "open_view (replicate 32 closed_entry) = Map.empty"
    by (rule ext) (simp add: open_view_def opened_None closed_entry_def)
qed

lemma blank_sfs_inv: "sfs_inv yams_ready yams_blk 256 256 blank_sfs"
proof -
  have mk: "marked blank_volume k" if "k < 256" "k < 3" for k using blank_bits [OF that(1)] that(2) by (simp add: marked_def)
  have "p = q" if "walk blank_volume 2 p = Some i" "walk blank_volume 2 q = Some i" for p q i
    using that by (simp add: blank_tree(4) split: if_splits)
  then have wf: "sfs_wf 256 blank_volume {}"
    using blank_tree(3,5) blank_length mk unfolding sfs_wf_def by (auto simp: word_le_def)
  have "linked_ok blank_volume (replicate 32 closed_entry)" by (auto simp: linked_ok_def closed_entry_def)
  then show ?thesis
    using blank_ready wf blank_table by (simp add: sfs_inv_def sfs_state_def blank_sfs_def blank_sectors blank_tree(5))
qed

lemma blank_creatable: "creatable_at 256 blank_volume [47, 97, 0] 600" "path_ok [47, 97]"
  "cstr [47, 97, 0 :: byte] = [47, 97]" "elems [97 :: byte] = [[97]]"
proof -
  show c: "cstr [47, 97, 0 :: byte] = [47, 97]" "elems [97 :: byte] = [[97]]" by (simp_all add: cstr_def elems.simps)
  have u: "in_use 256 blank_volume = {0, 1, 2}"
  proof (rule set_eqI)
    fix k :: u32
    have l: "k < 256" if "k < 3" using that by (simp add: word_less_def)
    show "k \<in> in_use 256 blank_volume \<longleftrightarrow> k \<in> {0, 1, 2}"
      using blank_bits [of k] less_3 [of k] l unfolding in_use_def marked_def by blast
  qed
  show po: "path_ok [47, 97]" by (simp add: path_ok_def c elem_ok_def sfs_is_valid_filename_char_def)
  have "dir_of (blank_volume 2) ! 0 \<in> set (dir_of (blank_volume 2))" by simp
  with blank_dir [OF this] have fr: "\<exists>e \<in> set (dir_of (blank_volume 2)). inode e = 0" by (intro bexI) auto
  show "creatable_at 256 blank_volume [47, 97, 0] 600"
    using po fr by (simp add: creatable_at_def c new_size_def folder_name_def blank_tree(2,4) u)
qed

lemma created_named:
  "created 256 blank_volume f [[97]] i 600 \<Longrightarrow> node_at f [47, 97, 0] = Some i"
  using path_elems [of "[47, 97, 0]"] blank_creatable(2) by (simp add: created_def node_at_def blank_creatable(3,4) del: walk.simps)

section \<open>Properties\<close>

abbreviation yams_waiting_device :: "yams_disk disk_real_device_t gbd_t" where
  "yams_waiting_device \<equiv> disk_waiting_gbd (yams_io 256) y_run 1 1 8192"

lemma yams_waiting: "block_device yams_waiting_device yams_ready yams_blk 256"
  by (rule yams_gbd.waiting.block_device_axioms)

text \<open>
  Property C6. The driver implements a tree of folders and files: on any block device, from any
  well-formed volume, a history of calls (opening, closing, reading, writing, creating, removing,
  asking for free space) never hangs, fails an assertion or goes out of bounds, whatever the stack
  holds, and behaves like the same history on a tree of names over numbered files. A file that is
  removed keeps its contents until its last close; the volume and the table of open files stay
  well-formed.
\<close>

theorem sfs_history:
  assumes "block_device G ready blk nb" "sfs_inv ready blk nb tb T" "\<forall>c \<in> set cs. sfs_call_ok c"
    and "length buf = 16" "length bat = 512"
  shows "\<exists>rs T'. sfs_run G tid buf bat ex cs T = Inr (rs, T') \<and> sfs_inv ready blk nb tb T' \<and>
    tree_run cs rs (sfs_abs blk T) (sfs_abs blk T')"
  using assms by (rule block_device.sfs_history_refines)

theorem sfs_history_witness:
  "\<exists>rs T'. sfs_run yams_waiting_device 0 (replicate 16 0) (replicate 512 0) False [S_open [47, 97, 0], S_close 5] blank_sfs = Inr (rs, T') \<and>
     rs = [(VFS_NOT_FOUND, []), (VFS_ERROR, [])]"
proof -
  have "named (sfs_abs yams_blk blank_sfs) [47, 97, 0] = None"
    by (simp add: sfs_abs_def named_tree_of node_at_def blank_sfs_def blank_sectors blank_tree(2,4) cstr_def)
  moreover have "opens (sfs_abs yams_blk blank_sfs) = Map.empty" by (simp add: sfs_abs_def blank_sfs_def blank_table)
  ultimately show ?thesis
    using sfs_history [OF yams_waiting blank_sfs_inv, of "[S_open [47, 97, 0], S_close 5]" "replicate 16 0" "replicate 512 0" 0 False]
    by (auto simp: terminated_def)
qed

text \<open>
  Property C17. Creating succeeds exactly when the path is valid, its size is one a file can have,
  the name is free, the folder exists and has a free entry, and the volume has blocks for the node
  and its data. Then the path names a block that was not in use, a file reads as zeros, and every
  other path and every block in use keeps its contents, except the folder and the allocation block.
  Otherwise the disk is as before.
\<close>

theorem sfs_create_exact:
  assumes "block_device G ready blk nb" "sfs_inv ready blk nb tb T" "terminated pn" "length buf = 16" "sz < 2 ^ 31 - 511"
  shows "\<exists>r T'. sfs_create G pn sz buf ex T = Inr (r, T') \<and> sfs_inv ready blk nb tb T' \<and> open_files T' = open_files T \<and>
    (if creatable_at tb (blk (sdisk T)) pn sz
     then r = VFS_OK \<and> (\<exists>i. created tb (blk (sdisk T)) (blk (sdisk T')) (elems (tl (cstr pn))) i (new_size pn sz))
     else r = VFS_ERROR \<and> blk (sdisk T') = blk (sdisk T))"
  by (rule block_device.create_effect [OF assms, of ex]) auto

theorem sfs_create_exact_witness:
  "\<exists>T'. sfs_create yams_waiting_device [47, 97, 0] 600 (replicate 16 0) False blank_sfs = Inr (VFS_OK, T') \<and>
     node_at (yams_blk (sdisk T')) [47, 97, 0] \<noteq> None"
proof -
  have "yams_blk (sdisk blank_sfs) = blank_volume" by (simp add: blank_sfs_def blank_sectors)
  with sfs_create_exact [OF yams_waiting blank_sfs_inv, of "[47, 97, 0]" "replicate 16 0" 600 False] obtain T' i where
    "sfs_create yams_waiting_device [47, 97, 0] 600 (replicate 16 0) False blank_sfs = Inr (VFS_OK, T')"
    "created 256 blank_volume (yams_blk (sdisk T')) [[97]] i 600"
    by (auto simp: blank_creatable terminated_def new_size_def folder_name_def)
  with created_named show ?thesis by blast
qed

end
