(* ===== verification/Sfs_defer.thy ===== *)
theory Sfs_defer
  imports Sfs_system
begin

text \<open>
  Files that are removed while they are open (\<open>sfs_remove\<close>, \<open>sfs_exit\<close> of \<open>fs/sfs.c\<close>): the
  name goes at once, the blocks at the last close.
\<close>

text \<open>Closing the same file several times; every call has to succeed.\<close>

primrec close_times :: "'d gbd_t \<Rightarrow> int \<Rightarrow> nat \<Rightarrow> 'd sfs_t \<Rightarrow> 'd sfs_t kresult" where
  "close_times G fid 0 T = Inr T"
| "close_times G fid (Suc m) T =
     rbind (sfs_close G fid T) (\<lambda>(r, T'). kassert (r = VFS_OK) (close_times G fid m T'))"

lemma viewed_owner: "open_view es i = Some (n, c) \<Longrightarrow> i \<noteq> 2 \<Longrightarrow> (i, c) \<in> open_owners es"
  by (auto simp: open_view_def opened_def open_owners_def find_Some_iff)

context block_device begin

lemma removed_open:
  assumes inv: "sfs_inv ready blk nb tb T" and pn: "terminated pn" "length buf = 16" "cstr pn \<noteq> [47]"
    and at: "node_at (blk (sdisk T)) pn = Some i" and op: "open_view (open_files T) i = Some (n, c)"
  obtains T' where "sfs_remove G pn buf T = Inr (VFS_OK, T')" "sfs_inv ready blk nb tb T'" "open_view (open_files T') i = Some (n, c)"
    "\<And>e. opened (open_files T') i = Some e \<Longrightarrow> is_deleted e"
    "removed tb (blk (sdisk T)) (blk (sdisk T')) (elems (tl (cstr pn))) i False"
    "\<And>b. b \<in> own (blk (sdisk T)) (i, c) \<Longrightarrow> blk (sdisk T') b = blk (sdisk T) b"
proof -
  let ?f = "blk (sdisk T)" let ?p = "elems (tl (cstr pn))"
  note t = sfs_invD [OF inv]
  from at have po: "path_ok (cstr pn)" and w: "walk ?f 2 ?p = Some i" by (auto simp: node_at_def split: if_splits)
  note el = path_elems [OF po]
  have ne: "?p \<noteq> []" using po pn(3) by (cases "cstr pn") (auto simp: path_ok_def elems.simps)
  have room: "table_room (open_view (open_files T)) i" using op by (simp add: table_room_def)
  obtain T' where R: "sfs_remove G pn buf T = Inr (VFS_OK, T')" "sfs_inv ready blk nb tb T'"
    "open_view (open_files T') = open_view (open_files T)" "removed tb ?f (blk (sdisk T')) ?p i False"
    "\<forall>e. opened (open_files T') i = Some e \<longrightarrow> is_deleted e"
    by (rule remove_effect [OF inv pn(1,2)]) (use at pn(3) room op in auto)
  have wf: "sfs_wf tb ?f (tree_owners ?f \<union> open_owners (open_files T))" using t by auto
  have "3 \<le> i" using sfs_wfD(6) [OF wf, of "(i, is_dir ?p)"] tree_ownerI [OF el ne w] by (simp add: own_ok_def)
  then have "i \<noteq> 2" by (auto simp: word_le_def)
  then have oi: "(i, c) \<in> tree_owners ?f \<union> open_owners (open_files T)" using viewed_owner [OF op] by blast
  have up: "walk ?f 2 (butlast ?p) \<noteq> Some i"
  proof
    assume "walk ?f 2 (butlast ?p) = Some i"
    then have "butlast ?p = ?p" by (rule sfs_wfD(8) [OF wf elem_list_ok_butlast [OF el] el _ w])
    then have "length ?p - 1 = length ?p" using length_butlast [of ?p] by simp
    with ne show False by (cases ?p) simp_all
  qed
  have "blk (sdisk T') b = ?f b" if b: "b \<in> own ?f (i, c)" for b
  proof -
    have "3 \<le> b" using own_range [OF wf oi b] by simp
    then have b3: "b \<noteq> 1" "b \<noteq> 2" by (auto simp: word_le_def)
    have "walk ?f 2 (butlast ?p) \<noteq> Some b"
    proof
      assume wb: "walk ?f 2 (butlast ?p) = Some b"
      with b3(2) have "butlast ?p \<noteq> []" by auto
      from tree_ownerI [OF elem_list_ok_butlast [OF el] this wb]
      have "(b, is_dir (butlast ?p)) = (i, c)" using sfs_wfD(7) [OF wf _ oi] b own_self [of b ?f] by blast
      with wb up show False by simp
    qed
    with b3(1) R(4) show ?thesis by (simp add: removed_def)
  qed
  then show thesis using that [OF R(1,2)] R(3-5) op by auto
qed

lemma close_not_last:
  assumes inv: "sfs_inv ready blk nb tb T" and op: "open_view (open_files T) i = Some (n, c)" and n: "n \<noteq> 1"
    and del: "\<And>e. opened (open_files T) i = Some e \<Longrightarrow> is_deleted e"
  obtains T' where "sfs_close G (uint i) T = Inr (VFS_OK, T')" "sfs_inv ready blk nb tb T'" "sdisk T' = sdisk T"
    "open_view (open_files T') i = Some (n - 1, c)" "\<And>e. opened (open_files T') i = Some e \<Longrightarrow> is_deleted e"
proof (cases rule: sfs_enter_eq [OF inv, of i])
  case (1 k)
  note t = sfs_invD [OF inv]
  have k: "times_opened (open_files T ! k) = n" "is_folder (open_files T ! k) = c" using 1(4) op by simp_all
  have d: "is_deleted (open_files T ! k)" by (rule del [OF opened_at [OF t(4) 1(2,3)]])
  from exit_more [OF inv 1(2,3)] k(1) n obtain T' where
    "sfs_exit G (int k) True T = Inr T'" "sfs_inv ready blk nb tb T'" "sdisk T' = sdisk T"
    "open_view (open_files T') = (open_view (open_files T))(i \<mapsto> (times_opened (open_files T ! k) - 1, is_folder (open_files T ! k)))"
    "opened (open_files T') i = Some ((open_files T ! k)\<lparr>times_opened := times_opened (open_files T ! k) - 1\<rparr>)"
    by metis
  with 1(1) k d show thesis using that [of T'] by (simp add: sfs_close_def)
qed (use op in simp)

lemma close_last_deleted:
  assumes inv: "sfs_inv ready blk nb tb T" and op: "open_view (open_files T) i = Some (1, c)"
    and del: "\<And>e. opened (open_files T) i = Some e \<Longrightarrow> is_deleted e"
  obtains T' where "sfs_close G (uint i) T = Inr (VFS_OK, T')" "sfs_inv ready blk nb tb T'"
    "\<And>b. b \<noteq> 1 \<Longrightarrow> blk (sdisk T') b = blk (sdisk T) b"
    "\<And>b. b < tb \<Longrightarrow> marked (blk (sdisk T')) b \<longleftrightarrow> marked (blk (sdisk T)) b \<and> b \<notin> own (blk (sdisk T)) (i, c)"
proof (cases rule: sfs_enter_eq [OF inv, of i])
  case (1 k)
  note t = sfs_invD [OF inv]
  have n: "times_opened (open_files T ! k) = 1" "is_folder (open_files T ! k) = c" using 1(4) op by simp_all
  have d: "is_deleted (open_files T ! k)" by (rule del [OF opened_at [OF t(4) 1(2,3)]])
  from exit_last_deleted [OF inv 1(2,3) n(1) d] obtain T' bs where
    "sfs_exit G (int k) True T = Inr T'" "sfs_inv ready blk nb tb T'" "blk (sdisk T') = (blk (sdisk T))(1 := bs)"
    "\<And>b. b < tb \<Longrightarrow> marked (blk (sdisk T')) b \<longleftrightarrow> marked (blk (sdisk T)) b \<and> b \<notin> own (blk (sdisk T)) (i, is_folder (open_files T ! k))"
    by metis
  with 1(1) n(2) show thesis using that [of T'] by (simp add: sfs_close_def)
qed (use op in simp)

lemma open_times:
  assumes "sfs_inv ready blk nb tb T" "open_view (open_files T) i = Some (int n, c)"
  shows "0 < n"
proof (cases rule: sfs_enter_eq [OF assms(1), of i])
  case (1 k)
  then show ?thesis using assms(2) table_entry(3) [OF sfs_invD(4) [OF assms(1)] 1(2,3)] by simp
qed (use assms(2) in simp)

lemma close_deleted:
  assumes "sfs_inv ready blk nb tb T" "open_view (open_files T) i = Some (int (Suc n), c)"
    and "\<And>e. opened (open_files T) i = Some e \<Longrightarrow> is_deleted e"
  shows "(\<forall>m \<le> n. \<exists>T'. close_times G (uint i) m T = Inr T' \<and> sdisk T' = sdisk T) \<and>
    (\<exists>T'. close_times G (uint i) (Suc n) T = Inr T' \<and> sfs_inv ready blk nb tb T' \<and>
      (\<forall>b. b \<noteq> 1 \<longrightarrow> blk (sdisk T') b = blk (sdisk T) b) \<and>
      (\<forall>b < tb. marked (blk (sdisk T')) b \<longleftrightarrow> marked (blk (sdisk T)) b \<and> b \<notin> own (blk (sdisk T)) (i, c)))"
  using assms
proof (induction n arbitrary: T)
  case 0
  have "open_view (open_files T) i = Some (1, c)" using 0(2) by simp
  from close_last_deleted [OF 0(1) this 0(3)] obtain T' where
    "sfs_close G (uint i) T = Inr (VFS_OK, T')" "sfs_inv ready blk nb tb T'"
    "\<And>b. b \<noteq> 1 \<Longrightarrow> blk (sdisk T') b = blk (sdisk T) b"
    "\<And>b. b < tb \<Longrightarrow> marked (blk (sdisk T')) b \<longleftrightarrow> marked (blk (sdisk T)) b \<and> b \<notin> own (blk (sdisk T)) (i, c)" by metis
  then show ?case by (intro conjI exI [of _ T']) simp_all
next
  case (Suc n)
  have "int (Suc (Suc n)) \<noteq> 1" "int (Suc (Suc n)) - 1 = int (Suc n)" by simp_all
  with close_not_last [OF Suc.prems(1,2) _ Suc.prems(3)] obtain T1 where
    1: "sfs_close G (uint i) T = Inr (VFS_OK, T1)" "sfs_inv ready blk nb tb T1" "sdisk T1 = sdisk T"
    "open_view (open_files T1) i = Some (int (Suc n), c)" "\<And>e. opened (open_files T1) i = Some e \<Longrightarrow> is_deleted e" by metis
  have run: "close_times G (uint i) (Suc m) T = close_times G (uint i) m T1" for m using 1(1) by simp
  have "\<exists>T'. close_times G (uint i) m T = Inr T' \<and> sdisk T' = sdisk T" if "m \<le> Suc n" for m
    using that Suc.IH [OF 1(2,4,5)] 1(3) run by (cases m) (simp, metis Suc_le_mono)
  with Suc.IH [OF 1(2,4,5)] show ?case unfolding run [of "Suc n"] 1(3) by blast
qed

end

text \<open>
  Property C14. Removing a file that is open takes away its name and nothing else. Every path that does not
  go through it leads where it did before, only the block of its folder and the allocation
  block may change, the blocks of the file keep their contents, and no block becomes free. When
  the file was open \<open>n\<close> times, the first \<open>n - 1\<close> closes leave the volume as it is, and the last one
  frees exactly the blocks of the file and changes nothing but the allocation block.
\<close>

theorem sfs_deferred_delete:
  assumes "block_device G ready blk nb" "sfs_inv ready blk nb tb T" "terminated pn" "length buf = 16" "cstr pn \<noteq> [47]"
    and "node_at (blk (sdisk T)) pn = Some i" "open_view (open_files T) i = Some (int n, c)"
  shows "\<exists>T1. sfs_remove G pn buf T = Inr (VFS_OK, T1) \<and> sfs_inv ready blk nb tb T1 \<and>
    (\<forall>q. elem_list_ok q \<longrightarrow> walk (blk (sdisk T1)) 2 q =
       (if prefix (elems (tl (cstr pn))) q then None else walk (blk (sdisk T)) 2 q)) \<and>
    (\<forall>b. b \<noteq> 1 \<and> walk (blk (sdisk T)) 2 (butlast (elems (tl (cstr pn)))) \<noteq> Some b \<longrightarrow> blk (sdisk T1) b = blk (sdisk T) b) \<and>
    (\<forall>b \<in> own (blk (sdisk T)) (i, c). blk (sdisk T1) b = blk (sdisk T) b) \<and>
    (\<forall>b < tb. marked (blk (sdisk T1)) b = marked (blk (sdisk T)) b) \<and>
    (\<forall>m < n. \<exists>T2. close_times G (uint i) m T1 = Inr T2 \<and> sdisk T2 = sdisk T1) \<and>
    (\<exists>T2. close_times G (uint i) n T1 = Inr T2 \<and> sfs_inv ready blk nb tb T2 \<and>
      (\<forall>b. b \<noteq> 1 \<longrightarrow> blk (sdisk T2) b = blk (sdisk T1) b) \<and>
      (\<forall>b < tb. marked (blk (sdisk T2)) b \<longleftrightarrow> marked (blk (sdisk T)) b \<and> b \<notin> own (blk (sdisk T)) (i, c)))"
proof -
  from block_device.removed_open [OF assms] obtain T1 where
    1: "sfs_remove G pn buf T = Inr (VFS_OK, T1)" "sfs_inv ready blk nb tb T1" "open_view (open_files T1) i = Some (int n, c)"
    "\<And>e. opened (open_files T1) i = Some e \<Longrightarrow> is_deleted e"
    "removed tb (blk (sdisk T)) (blk (sdisk T1)) (elems (tl (cstr pn))) i False"
    "\<And>b. b \<in> own (blk (sdisk T)) (i, c) \<Longrightarrow> blk (sdisk T1) b = blk (sdisk T) b" by metis
  obtain m where m: "n = Suc m" using block_device.open_times [OF assms(1,2,7)] by (cases n) auto
  note c = block_device.close_deleted [OF assms(1) 1(2) 1(3) [unfolded m] 1(4)]
  have "blk (sdisk T1) i = blk (sdisk T) i" by (rule 1(6)) (rule own_self)
  then have "own (blk (sdisk T1)) (i, c) = own (blk (sdisk T)) (i, c)" by (simp add: own_def file_blocks_def)
  with 1 c show ?thesis unfolding removed_def m less_Suc_eq_le by (intro exI [of _ T1]) simp
qed

text \<open>A volume with one file of 600 bytes that is open twice.\<close>

lemma opened_a:
  obtains T i where "sfs_inv yams_ready yams_blk 256 256 T" "node_at (yams_blk (sdisk T)) [47, 97, 0] = Some i"
    "open_view (open_files T) i = Some (int 2, False)"
proof -
  let ?pn = "[47, 97, 0 :: byte]" let ?G = yams_waiting_device let ?b = "replicate 16 (0 :: byte)"
  have t: "terminated ?pn" "length ?b = 16" by (simp_all add: terminated_def)
  have f: "yams_blk (sdisk blank_sfs) = blank_volume" by (simp add: blank_sfs_def blank_sectors)
  have s: "(600 :: int) < 2 ^ 31 - 511" by simp
  have n: "new_size ?pn 600 = 600" by (simp add: new_size_def folder_name_def blank_creatable)
  obtain T1 i where 1: "sfs_inv yams_ready yams_blk 256 256 T1" "open_files T1 = open_files blank_sfs"
    "created 256 blank_volume (yams_blk (sdisk T1)) [[97]] i 600"
    by (rule block_device.create_effect [OF yams_waiting blank_sfs_inv t s, of False])
      (use that in \<open>auto simp: f n blank_creatable\<close>)
  note at = created_named [OF 1(3)]
  have v: "open_view (open_files T1) = Map.empty" by (simp add: 1(2) blank_sfs_def blank_table)
  from block_device.open_effect [OF yams_waiting 1(1) t] obtain r T2 where
    2: "sfs_inv yams_ready yams_blk 256 256 T2" "yams_blk (sdisk T2) = yams_blk (sdisk T1)"
    "open_view (open_files T2) = opened_more Map.empty i (folder_name (cstr ?pn))"
    unfolding at v table_room_def by auto
  have at2: "node_at (yams_blk (sdisk T2)) ?pn = Some i" by (simp add: 2(2) at)
  have room: "table_room (open_view (open_files T2)) i" by (simp add: 2(3) table_room_def opened_more_def)
  from block_device.open_effect [OF yams_waiting 2(1) t] room obtain r T3 where
    3: "sfs_inv yams_ready yams_blk 256 256 T3" "yams_blk (sdisk T3) = yams_blk (sdisk T2)"
    "open_view (open_files T3) = opened_more (open_view (open_files T2)) i (folder_name (cstr ?pn))"
    unfolding at2 by auto
  show thesis by (rule that [OF 3(1)]) (simp_all add: 2 3 at opened_more_def folder_name_def blank_creatable)
qed

theorem sfs_deferred_delete_witness:
  "\<exists>T T1 T2 T3 i. sfs_remove yams_waiting_device [47, 97, 0] (replicate 16 0) T = Inr (VFS_OK, T1) \<and>
     node_at (yams_blk (sdisk T)) [47, 97, 0] = Some i \<and> walk (yams_blk (sdisk T1)) 2 [[97]] = None \<and>
     marked (yams_blk (sdisk T1)) i \<and>
     close_times yams_waiting_device (uint i) 1 T1 = Inr T2 \<and> marked (yams_blk (sdisk T2)) i \<and>
     close_times yams_waiting_device (uint i) 2 T1 = Inr T3 \<and> \<not> marked (yams_blk (sdisk T3)) i"
proof -
  obtain T i where T: "sfs_inv yams_ready yams_blk 256 256 T" "node_at (yams_blk (sdisk T)) [47, 97, 0] = Some i"
    "open_view (open_files T) i = Some (int 2, False)" by (rule opened_a)
  let ?W = "tree_owners (yams_blk (sdisk T)) \<union> open_owners (open_files T)"
  have e: "elems (tl (cstr [47, 97, 0])) = [[97]]" "elem_list_ok [[97 :: byte]]" "terminated [47, 97, 0 :: byte]"
      "cstr [47, 97, 0 :: byte] \<noteq> [47]"
    using path_elems [of "[47, 97, 0]"] by (simp_all add: blank_creatable terminated_def)
  have w: "walk (yams_blk (sdisk T)) 2 [[97]] = Some i" using T(2) by (simp add: node_at_def blank_creatable del: walk.simps)
  have "(i, is_dir [[97]]) \<in> ?W" using tree_ownerI [OF _ _ w] e(2) by simp
  note ow = sfs_wfD(6) [OF sfs_invD(6) [OF T(1)] this] sfs_wfD(10) [OF sfs_invD(6) [OF T(1)] this, of i]
  have own: "i \<in> own (yams_blk (sdisk T)) (i, d)" for d by (rule own_self)
  have l: "i < 256" using ow(1) by (simp add: own_ok_def)
  have m: "marked (yams_blk (sdisk T)) i" by (rule ow(2) [OF own l])
  obtain T1 where 1: "sfs_remove yams_waiting_device [47, 97, 0] (replicate 16 0) T = Inr (VFS_OK, T1)"
      "walk (yams_blk (sdisk T1)) 2 [[97]] = None" "marked (yams_blk (sdisk T1)) i"
      "\<exists>T2. close_times yams_waiting_device (uint i) 1 T1 = Inr T2 \<and> sdisk T2 = sdisk T1"
      "\<exists>T3. close_times yams_waiting_device (uint i) 2 T1 = Inr T3 \<and> \<not> marked (yams_blk (sdisk T3)) i"
    using sfs_deferred_delete [OF yams_waiting T(1) e(3) _ e(4) T(2,3), of "replicate 16 0"] l m own e(2)
    unfolding e(1) by (metis (no_types, lifting) length_replicate one_less_numeral_iff prefix_order.order_refl semiring_norm(76))
  then show ?thesis using T(2) by metis
qed

end
