(* ===== verification/Xprintf.thy ===== *)
theory Xprintf
  imports Libc
begin

text \<open>
  Formatted output (\<open>lib/xprintf.c\<close>). Output goes to the array behind \<open>buf\<close> or, with
  \<open>FLAG_TTY\<close>, to the terminal; the record \<open>xout\<close> holds both, and the position of \<open>buf\<close> in its
  array. The variable arguments are a list of words and strings; reading an argument of the
  wrong kind, or one that is not there, is a fault. The scan of the modifiers is a loop that need not
  end; a call that never returns is \<open>Hang\<close>. The counter \<open>written\<close> stays within the size of the output
  and two, so its sums do not wrap.
\<close>

unbundle bit_operations_syntax

section \<open>Characters out\<close>

definition FLAG_TTY :: u32 where "FLAG_TTY = 0x8000"
definition FLAG_SMALLS :: u32 where "FLAG_SMALLS = 0x01"
definition FLAG_ALT :: u32 where "FLAG_ALT = 0x02"
definition FLAG_ZEROPAD :: u32 where "FLAG_ZEROPAD = 0x04"
definition FLAG_LEFT :: u32 where "FLAG_LEFT = 0x08"
definition FLAG_SPACE :: u32 where "FLAG_SPACE = 0x10"
definition FLAG_SIGN :: u32 where "FLAG_SIGN = 0x20"

definition has_flag :: "u32 \<Rightarrow> u32 \<Rightarrow> bool" where
  "has_flag flags f \<longleftrightarrow> flags AND f \<noteq> 0"

record xout =
  obuf :: "byte list"
  bufp :: int
  tty :: "byte list"

definition printc :: "byte \<Rightarrow> u32 \<Rightarrow> xout \<Rightarrow> xout kresult" where
  "printc c flags out =
     (if has_flag flags FLAG_TTY then Inr (if c \<noteq> 0 then out\<lparr>tty := tty out @ [c]\<rparr> else out)
      else rbind (wr (obuf out) (bufp out) c) (\<lambda>b. Inr (out\<lparr>obuf := b\<rparr>)))"

text \<open>The calls \<open>printc(buf++, c, flags)\<close>.\<close>

definition putc :: "byte \<Rightarrow> u32 \<Rightarrow> xout \<Rightarrow> xout kresult" where
  "putc c flags out = rbind (printc c flags out) (\<lambda>out. Inr (out\<lparr>bufp := bufp out + 1\<rparr>))"

section \<open>Unsigned numbers\<close>

definition digits :: "byte list" where
  "digits = [48, 49, 50, 51, 52, 53, 54, 55, 56, 57, 65, 66, 67, 68, 69, 70,
             48, 49, 50, 51, 52, 53, 54, 55, 56, 57, 97, 98, 99, 100, 101, 102]"

function digit_loop :: "u32 \<Rightarrow> u32 \<Rightarrow> u32 \<Rightarrow> int \<Rightarrow> byte list \<Rightarrow> (int \<times> byte list) kresult" where
  "digit_loop flags base n i rv =
     rbind (rd digits (if has_flag flags FLAG_SMALLS then 16 + uint (n mod base) else uint (n mod base))) (\<lambda>c.
     rbind (wr rv i c) (\<lambda>rv.
     if n div base \<noteq> 0 then digit_loop flags base (n div base) (i + 1) rv else Inr (i + 1, rv)))"
  by pat_completeness auto
termination
  by (relation "measure (\<lambda>(flags, base, n, i, rv). nat (int (length rv) - i))") (auto simp: wr_eq_Inr)

function pad_loop :: "byte \<Rightarrow> int \<Rightarrow> int \<Rightarrow> byte list \<Rightarrow> (int \<times> byte list) kresult" where
  "pad_loop c limit i rv = (if i < limit then rbind (wr rv i c) (pad_loop c limit (i + 1)) else Inr (i, rv))"
  by pat_completeness auto
termination
  by (relation "measure (\<lambda>(c, limit, i, rv). nat (limit - i))") auto

function out_loop :: "u32 \<Rightarrow> int \<Rightarrow> byte list \<Rightarrow> int \<Rightarrow> int \<Rightarrow> xout \<Rightarrow> (int \<times> xout) kresult" where
  "out_loop flags sz rv i written out =
     (if i \<ge> 0 \<and> written < sz then
        rbind (rd rv i) (\<lambda>c. rbind (putc c flags out) (out_loop flags sz rv (i - 1) (written + 1)))
      else Inr (written, out))"
  by pat_completeness auto
termination
  by (relation "measure (\<lambda>(flags, sz, rv, i, written, out). nat (i + 1))") auto

text \<open>
  The array \<open>rev\<close> is not initialised in C; every element that is read has been written. The
  parameter \<open>buf\<close> of \<open>print_uint\<close> is a copy of the caller's pointer, which does not move.
\<close>

definition print_uint :: "int \<Rightarrow> u32 \<Rightarrow> u32 \<Rightarrow> u32 \<Rightarrow> int \<Rightarrow> int \<Rightarrow> xout \<Rightarrow> (int \<times> xout) kresult" where
  "print_uint sz n base flags prec width out =
     (if sz \<le> 0 then Inr (0, out)
      else
        rbind (digit_loop flags base n 0 (replicate 11 0)) (\<lambda>(i, rv).
        rbind (pad_loop 48 (min prec 11) i rv) (\<lambda>(i, rv).
        rbind (pad_loop 32 (min width 11) i rv) (\<lambda>(i, rv).
        rbind (out_loop flags sz rv (i - 1) 0 out) (\<lambda>(w, out').
        Inr (w, out'\<lparr>bufp := bufp out\<rparr>))))))"

section \<open>Modifiers\<close>

fun scan_int :: "cstring \<Rightarrow> int \<Rightarrow> (int \<times> cstring) kresult" where
  "scan_int [] v = Inl Fault"
| "scan_int (c # s) v =
     (if 48 < sint c \<and> sint c < 57 then scan_int s (swrap (swrap (10 * v) + (sint c - 48))) else Inr (v, c # s))"

text \<open>One round of the switch over the modifiers; \<open>None\<close> when \<open>ch\<close> is not one.\<close>

definition read_modifier :: "byte \<Rightarrow> cstring \<Rightarrow> u32 \<Rightarrow> int \<Rightarrow> int \<Rightarrow> (cstring \<times> u32 \<times> int \<times> int) option kresult" where
  "read_modifier ch fmt flags width prec =
     (if ch = 35 then Inr (Some (fmt, flags OR FLAG_ALT, width, prec))
      else if ch = 48 then Inr (Some (fmt, flags OR FLAG_ZEROPAD, width, prec))
      else if ch = 32 then Inr (Some (fmt, flags OR FLAG_SPACE, width, prec))
      else if ch = 43 then Inr (Some (fmt, flags OR FLAG_SIGN, width, prec))
      else if ch = 45 then Inr (Some (fmt, flags OR FLAG_LEFT, width, prec))
      else if ch = 46 then rbind (scan_int fmt 0) (\<lambda>(prec, fmt). Inr (Some (fmt, flags, width, prec)))
      else if ch \<in> {49, 50, 51, 52, 53, 54, 55, 56, 57}
      then rbind (scan_int (ch # fmt) 0) (\<lambda>(width, fmt). Inr (Some (fmt, flags, width, prec)))
      else Inr None)"

partial_function (option) modifiers ::
    "byte \<Rightarrow> cstring \<Rightarrow> u32 \<Rightarrow> int \<Rightarrow> int \<Rightarrow> (byte \<times> cstring \<times> u32 \<times> int \<times> int) kresult option" where
  "modifiers ch fmt flags width prec =
     (case read_modifier ch fmt flags width prec of
        Inl e \<Rightarrow> Some (Inl e)
      | Inr m \<Rightarrow>
          (case m of
             None \<Rightarrow> Some (Inr (ch, fmt, flags, width, prec))
           | Some (fmt, flags, width, prec) \<Rightarrow>
               (case fmt of
                  [] \<Rightarrow> Some (Inl Fault)
                | ch # fmt \<Rightarrow>
                    if ch \<noteq> 0 then modifiers ch fmt flags width prec
                    else Some (Inr (ch, fmt, flags, width, prec)))))"

section \<open>Conversions\<close>

datatype va_value = Va_int u32 | Va_string cstring

fun va_int :: "va_value list \<Rightarrow> (u32 \<times> va_value list) kresult" where
  "va_int (Va_int x # ap) = Inr (x, ap)"
| "va_int ap = Inl Fault"

fun va_string :: "va_value list \<Rightarrow> (cstring \<times> va_value list) kresult" where
  "va_string (Va_string s # ap) = Inr (s, ap)"
| "va_string ap = Inl Fault"

type_synonym conv_state = "va_value list \<times> int \<times> xout"

text \<open>The lines \<open>w = print_uint(...); buf += w; written += w\<close>.\<close>

definition print_number :: "int \<Rightarrow> u32 \<Rightarrow> u32 \<Rightarrow> u32 \<Rightarrow> int \<Rightarrow> int \<Rightarrow> va_value list \<Rightarrow> int \<Rightarrow> xout \<Rightarrow> conv_state kresult" where
  "print_number sz n base flags prec width ap written out =
     rbind (print_uint (sz - written) n base flags prec width out) (\<lambda>(w, out).
     Inr (ap, written + w, out\<lparr>bufp := bufp out + w\<rparr>))"

definition print_signed :: "int \<Rightarrow> u32 \<Rightarrow> va_value list \<Rightarrow> int \<Rightarrow> xout \<Rightarrow> conv_state kresult" where
  "print_signed sz flags ap written out =
     rbind (va_int ap) (\<lambda>(arg, ap).
     rbind (if sint arg < 0 then rbind (putc 45 flags out) (\<lambda>out. Inr (- arg, written + 1, out))
            else Inr (arg, written, out)) (\<lambda>(arg, written, out).
     rbind (if has_flag flags FLAG_SIGN then rbind (putc 43 flags out) (\<lambda>out. Inr (written + 1, out))
            else if has_flag flags FLAG_SPACE then rbind (putc 32 flags out) (\<lambda>out. Inr (written + 1, out))
            else Inr (written, out)) (\<lambda>(written, out).
     print_number sz arg 10 flags 0 0 ap written out)))"

definition print_unsigned :: "int \<Rightarrow> u32 \<Rightarrow> u32 \<Rightarrow> int \<Rightarrow> int \<Rightarrow> va_value list \<Rightarrow> int \<Rightarrow> xout \<Rightarrow> conv_state kresult" where
  "print_unsigned sz base flags prec width ap written out =
     (let prec = (if prec < width \<and> has_flag flags FLAG_ZEROPAD then width else prec) in
      rbind (va_int ap) (\<lambda>(uarg, ap). print_number sz uarg base flags prec width ap written out))"

definition print_hex :: "int \<Rightarrow> u32 \<Rightarrow> int \<Rightarrow> int \<Rightarrow> va_value list \<Rightarrow> int \<Rightarrow> xout \<Rightarrow> conv_state kresult" where
  "print_hex sz flags prec width ap written out =
     (if has_flag flags FLAG_ALT then
        rbind (putc 48 flags out) (\<lambda>out.
        rbind (if written + 1 < sz then rbind (putc 120 flags out) (\<lambda>out. Inr (written + 2, out))
               else Inr (written + 1, out)) (\<lambda>(written, out).
        print_unsigned sz 16 flags prec (width - 2) ap written out))
      else print_unsigned sz 16 flags prec width ap written out)"

fun string_loop :: "u32 \<Rightarrow> int \<Rightarrow> cstring \<Rightarrow> int \<Rightarrow> xout \<Rightarrow> (int \<times> xout) kresult" where
  "string_loop flags w [] written out = (if written < w then Inl Fault else Inr (written, out))"
| "string_loop flags w (c # s) written out =
     (if written < w \<and> c \<noteq> 0 then rbind (putc c flags out) (string_loop flags w s (written + 1))
      else Inr (written, out))"

definition print_string :: "int \<Rightarrow> u32 \<Rightarrow> int \<Rightarrow> va_value list \<Rightarrow> int \<Rightarrow> xout \<Rightarrow> conv_state kresult" where
  "print_string sz flags prec ap written out =
     rbind (va_string ap) (\<lambda>(s, ap).
     let w = (if prec \<noteq> -1 \<and> swrap (written + prec) < sz then swrap (written + prec) else sz) in
     rbind (string_loop flags w s written out) (\<lambda>(written, out). Inr (ap, written, out)))"

definition print_char :: "byte \<Rightarrow> u32 \<Rightarrow> va_value list \<Rightarrow> int \<Rightarrow> xout \<Rightarrow> conv_state kresult" where
  "print_char c flags ap written out = rbind (putc c flags out) (\<lambda>out. Inr (ap, written + 1, out))"

definition print_arg :: "int \<Rightarrow> byte \<Rightarrow> u32 \<Rightarrow> int \<Rightarrow> int \<Rightarrow> va_value list \<Rightarrow> int \<Rightarrow> xout \<Rightarrow> conv_state kresult" where
  "print_arg sz ch flags prec width ap written out =
     (if ch = 105 \<or> ch = 100 then print_signed sz flags ap written out
      else if ch = 111 then print_unsigned sz 8 flags prec width ap written out
      else if ch = 117 then print_unsigned sz 10 flags prec width ap written out
      else if ch = 112 then print_hex sz (flags OR FLAG_ALT OR FLAG_SMALLS) prec width ap written out
      else if ch = 120 then print_hex sz (flags OR FLAG_SMALLS) prec width ap written out
      else if ch = 88 then print_hex sz flags prec width ap written out
      else if ch = 99 then rbind (va_int ap) (\<lambda>(arg, ap). print_char (ucast arg) flags ap written out)
      else if ch = 115 then print_string sz flags prec ap written out
      else print_char ch flags ap written out)"

section \<open>The format string\<close>

lemma scan_int_shorter: "scan_int s v = Inr (u, t) \<Longrightarrow> length t \<le> length s"
  by (induction s v rule: scan_int.induct) (auto split: if_splits)

lemma read_modifier_shorter:
  "read_modifier ch fmt flags width prec = Inr (Some (fmt', flags', width', prec')) \<Longrightarrow> length fmt' \<le> Suc (length fmt)"
  using scan_int_shorter [of fmt] scan_int_shorter [of "ch # fmt"]
  by (fastforce simp: read_modifier_def rbind_eq_Inr simp del: scan_int.simps split: if_splits)

lemma modifiers_shorter:
  assumes "modifiers ch fmt flags width prec = Some (Inr (ch', fmt', x))"
  shows "length fmt' \<le> length fmt"
proof -
  have "\<forall>c f y. r = Inr (c, f, y) \<longrightarrow> length f \<le> length fmt"
    if "modifiers ch fmt flags width prec = Some r" for r
  proof (rule modifiers.raw_induct [OF _ that])
    fix g :: "byte \<Rightarrow> cstring \<Rightarrow> u32 \<Rightarrow> int \<Rightarrow> int \<Rightarrow> (byte \<times> cstring \<times> u32 \<times> int \<times> int) kresult option"
    fix ch fmt flags width prec and r :: "(byte \<times> cstring \<times> u32 \<times> int \<times> int) kresult"
    assume hyp: "\<And>ch fmt flags width prec r. g ch fmt flags width prec = Some r \<Longrightarrow>
      \<forall>c f y. r = Inr (c, f, y) \<longrightarrow> length f \<le> length fmt"
    have ih: "length f \<le> length t" if "g a t b w p = Some (Inr (c, f, y))" for a t b w p c f y using hyp [OF that] by blast
    assume "(case read_modifier ch fmt flags width prec of Inl e \<Rightarrow> Some (Inl e)
      | Inr m \<Rightarrow> (case m of None \<Rightarrow> Some (Inr (ch, fmt, flags, width, prec))
        | Some (fmt, flags, width, prec) \<Rightarrow> (case fmt of [] \<Rightarrow> Some (Inl Fault)
          | ch # fmt \<Rightarrow> if ch \<noteq> 0 then g ch fmt flags width prec else Some (Inr (ch, fmt, flags, width, prec))))) = Some r"
    with read_modifier_shorter [of ch fmt flags width prec] show "\<forall>c f y. r = Inr (c, f, y) \<longrightarrow> length f \<le> length fmt"
      by (auto split: sum.splits option.splits list.splits if_splits dest!: ih)
  qed
  with assms show ?thesis by blast
qed

function (sequential) format_loop :: "int \<Rightarrow> cstring \<Rightarrow> va_value list \<Rightarrow> u32 \<Rightarrow> int \<Rightarrow> xout \<Rightarrow> (u32 \<times> int \<times> xout) kresult" where
  "format_loop sz [] ap flags written out = (if written < sz then Inl Fault else Inr (flags, written, out))"
| "format_loop sz (ch # fmt) ap flags written out =
     (if \<not> written < sz \<or> ch = 0 then Inr (flags, written, out)
      else if ch \<noteq> 37 then rbind (putc ch flags out) (format_loop sz fmt ap flags (written + 1))
      else
        (case fmt of
           [] \<Rightarrow> Inl Fault
         | ch # fmt \<Rightarrow>
             if ch = 0 then Inr (flags, written, out)
             else
               (case modifiers ch fmt (flags AND FLAG_TTY) (-1) (-1) of
                  None \<Rightarrow> Inl Hang
                | Some m \<Rightarrow>
                    rbind m (\<lambda>(ch, fmt, flags, width, prec).
                    if ch = 0 then Inr (flags, written, out)
                    else
                      rbind (print_arg sz ch flags prec width ap written out) (\<lambda>(ap, written, out).
                      format_loop sz fmt ap flags written out)))))"
  by pat_completeness auto
termination
  by (relation "measure (\<lambda>(sz, fmt, ap, flags, written, out). length fmt)") (auto dest!: modifiers_shorter)

definition vxnprintf :: "int \<Rightarrow> cstring \<Rightarrow> va_value list \<Rightarrow> u32 \<Rightarrow> xout \<Rightarrow> (int \<times> xout) kresult" where
  "vxnprintf sz fmt ap flags out =
     (if sz \<le> 0 then Inr (0, out)
      else
        rbind (format_loop sz fmt ap flags 0 out) (\<lambda>(flags, written, out).
        let (written, out) = (if written = sz then (-1, out\<lparr>bufp := bufp out - 1\<rparr>) else (written, out)) in
        rbind (printc 0 flags out) (\<lambda>out. Inr (written, out))))"

text \<open>
  The callers: \<open>snprintf\<close> and \<open>vsnprintf\<close> write to an array, \<open>kprintf\<close> and \<open>kvprintf\<close> to the terminal,
  under a spinlock with interrupts disabled. \<open>buf\<close> is the null pointer in the second case.
\<close>

definition snprintf :: "byte list \<Rightarrow> int \<Rightarrow> cstring \<Rightarrow> va_value list \<Rightarrow> (int \<times> byte list) kresult" where
  "snprintf str sz fmt ap =
     rbind (vxnprintf sz fmt ap 0 \<lparr>obuf = str, bufp = 0, tty = []\<rparr>) (\<lambda>(written, out). Inr (written, obuf out))"

definition vsnprintf :: "byte list \<Rightarrow> int \<Rightarrow> cstring \<Rightarrow> va_value list \<Rightarrow> (int \<times> byte list) kresult" where
  "vsnprintf str sz fmt ap =
     rbind (vxnprintf sz fmt ap 0 \<lparr>obuf = str, bufp = 0, tty = []\<rparr>) (\<lambda>(written, out). Inr (written, obuf out))"

definition kvprintf :: "cstring \<Rightarrow> va_value list \<Rightarrow> byte list \<Rightarrow> (int \<times> byte list) kresult" where
  "kvprintf fmt ap terminal =
     rbind (vxnprintf 0x7fffffff fmt ap FLAG_TTY \<lparr>obuf = [], bufp = 0, tty = terminal\<rparr>) (\<lambda>(written, out). Inr (written, tty out))"

definition kprintf :: "cstring \<Rightarrow> va_value list \<Rightarrow> byte list \<Rightarrow> (int \<times> byte list) kresult" where
  "kprintf fmt ap terminal =
     rbind (vxnprintf 0x7fffffff fmt ap FLAG_TTY \<lparr>obuf = [], bufp = 0, tty = terminal\<rparr>) (\<lambda>(written, out). Inr (written, tty out))"

end
