(* ===== verification/Xprintf_text.thy ===== *)
theory Xprintf_text
  imports Xprintf Blocks
begin

text \<open>
  What formatted output promises: a format as a list of directives, the text it stands for, and
  the proof that \<open>vxnprintf\<close> of \<open>lib/xprintf.c\<close> writes that text, cut to the size it is given.
\<close>

section \<open>The text of a format\<close>

function numeral_of :: "nat \<Rightarrow> nat \<Rightarrow> nat list" where
  "numeral_of b n = (if b < 2 \<or> n < b then [n] else numeral_of b (n div b) @ [n mod b])"
  by pat_completeness auto
termination
  by (relation "measure snd") auto

declare numeral_of.simps [simp del]

definition digit_char :: "bool \<Rightarrow> nat \<Rightarrow> byte" where
  "digit_char small d = of_nat (if d < 10 then 48 + d else if small then 87 + d else 55 + d)"

definition padded :: "bool \<Rightarrow> nat \<Rightarrow> nat \<Rightarrow> nat \<Rightarrow> nat \<Rightarrow> byte list" where
  "padded small b prec width n =
     (let ds = map (digit_char small) (numeral_of b n); zs = replicate (prec - length ds) 48 @ ds
      in replicate (width - length zs) 32 @ zs)"

datatype directive = Lit byte | Conv "byte list" "byte list" "byte list option" byte

fun directive_fmt :: "directive \<Rightarrow> cstring" where
  "directive_fmt (Lit c) = [c]"
| "directive_fmt (Conv fs ws ps t) = 37 # fs @ ws @ (case ps of None \<Rightarrow> [] | Some ds \<Rightarrow> 46 # ds) @ [t]"

definition flag_chars :: "byte set" where "flag_chars = {35, 48, 32, 43, 45}"
definition width_chars :: "byte set" where "width_chars = {49, 50, 51, 52, 53, 54, 55, 56}"

definition digits_ok :: "byte list \<Rightarrow> bool" where
  "digits_ok ds \<longleftrightarrow> set ds \<subseteq> width_chars \<and> length ds \<le> 8"

fun directive_ok :: "directive \<Rightarrow> bool" where
  "directive_ok (Lit c) \<longleftrightarrow> c \<noteq> 0 \<and> c \<noteq> 37"
| "directive_ok (Conv fs ws ps t) \<longleftrightarrow> set fs \<subseteq> flag_chars \<and> digits_ok ws \<and> (case ps of None \<Rightarrow> True | Some ds \<Rightarrow> digits_ok ds) \<and>
     t \<notin> flag_chars \<union> width_chars \<union> {0, 46, 57}"

definition digits_number :: "byte list \<Rightarrow> int" where
  "digits_number ds = foldl (\<lambda>v c. 10 * v + (sint c - 48)) 0 ds"

text \<open>Field width and precision of a number count as at most 11, the size of the code's buffer.\<close>

definition number_text :: "byte list \<Rightarrow> bool \<Rightarrow> nat \<Rightarrow> int \<Rightarrow> int \<Rightarrow> u32 \<Rightarrow> byte list" where
  "number_text fs small b prec width x =
     padded small b (nat (min (if prec < width \<and> 48 \<in> set fs then width else prec) 11)) (nat (min width 11)) (unat x)"

definition hex_text :: "byte list \<Rightarrow> bool \<Rightarrow> bool \<Rightarrow> int \<Rightarrow> int \<Rightarrow> u32 \<Rightarrow> byte list" where
  "hex_text fs alt small prec width x =
     (if alt then [48, 120] @ number_text fs small 16 prec (width - 2) x else number_text fs small 16 prec width x)"

definition signed_text :: "byte list \<Rightarrow> u32 \<Rightarrow> byte list" where
  "signed_text fs x =
     (if sint x < 0 then [45] else if 43 \<in> set fs then [43] else if 32 \<in> set fs then [32] else []) @
     padded False 10 0 0 (nat \<bar>sint x\<bar>)"

text \<open>
  The text of one conversion and the arguments that are left; there is none when the arguments do not
  fit the directive. A negative number has a minus sign, whatever its flags.
\<close>

definition conv_text :: "byte list \<Rightarrow> int \<Rightarrow> int \<Rightarrow> byte \<Rightarrow> va_value list \<Rightarrow> (byte list \<times> va_value list) option" where
  "conv_text fs width prec t ap =
     (if t \<in> {105, 100, 111, 117, 112, 120, 88, 99} then
        (case ap of
           Va_int x # ap \<Rightarrow>
             if t \<in> {105, 100} then Some (signed_text fs x, ap)
             else if t = 111 then Some (number_text fs False 8 prec width x, ap)
             else if t = 117 then Some (number_text fs False 10 prec width x, ap)
             else if t = 112 then Some (hex_text fs True True prec width x, ap)
             else if t = 120 then Some (hex_text fs (35 \<in> set fs) True prec width x, ap)
             else if t = 88 then Some (hex_text fs (35 \<in> set fs) False prec width x, ap)
             else Some ([ucast x], ap)
         | _ \<Rightarrow> None)
      else if t = 115 then
        (case ap of
           Va_string s # ap \<Rightarrow>
             if terminated s then Some (if prec = -1 then cstr s else take (nat prec) (cstr s), ap) else None
         | _ \<Rightarrow> None)
      else Some ([t], ap))"

definition width_of :: "byte list \<Rightarrow> int" where
  "width_of ws = (if ws = [] then -1 else digits_number ws)"

definition prec_of :: "byte list option \<Rightarrow> int" where
  "prec_of ps = (case ps of None \<Rightarrow> -1 | Some ds \<Rightarrow> digits_number ds)"

fun format_text :: "directive list \<Rightarrow> va_value list \<Rightarrow> byte list option" where
  "format_text [] ap = Some []"
| "format_text (Lit c # ds) ap = map_option (Cons c) (format_text ds ap)"
| "format_text (Conv fs ws ps t # ds) ap =
     (case conv_text fs (width_of ws) (prec_of ps) t ap of
        None \<Rightarrow> None
      | Some (u, ap) \<Rightarrow> map_option (append u) (format_text ds ap))"

text \<open>
  No directive prints a negative number with the flag \<open>+\<close> or space: the code prints the flag's sign after
  the minus sign.
\<close>

definition sign_twice :: "byte list \<Rightarrow> byte \<Rightarrow> va_value list \<Rightarrow> bool" where
  "sign_twice fs t ap \<longleftrightarrow> t \<in> {105, 100} \<and> (43 \<in> set fs \<or> 32 \<in> set fs) \<and>
     (case ap of Va_int x # _ \<Rightarrow> sint x < 0 | _ \<Rightarrow> False)"

fun signs_ok :: "directive list \<Rightarrow> va_value list \<Rightarrow> bool" where
  "signs_ok [] ap \<longleftrightarrow> True"
| "signs_ok (Lit c # ds) ap \<longleftrightarrow> signs_ok ds ap"
| "signs_ok (Conv fs ws ps t # ds) ap \<longleftrightarrow> \<not> sign_twice fs t ap \<and>
     (case conv_text fs (width_of ws) (prec_of ps) t ap of None \<Rightarrow> True | Some (_, ap) \<Rightarrow> signs_ok ds ap)"

definition format_of :: "directive list \<Rightarrow> cstring" where
  "format_of ds = concat (map directive_fmt ds) @ [0]"

section \<open>Writing characters\<close>

definition emitted :: "bool \<Rightarrow> byte list \<Rightarrow> xout \<Rightarrow> xout" where
  "emitted t cs out =
     \<lparr>obuf = if t then obuf out else splice (nat (bufp out)) cs (obuf out), bufp = bufp out + int (length cs),
      tty = if t then tty out @ filter (\<lambda>c. c \<noteq> 0) cs else tty out\<rparr>"

definition room :: "bool \<Rightarrow> int \<Rightarrow> xout \<Rightarrow> bool" where
  "room t n out \<longleftrightarrow> t \<or> (0 \<le> bufp out \<and> bufp out + n \<le> int (length (obuf out)))"

lemma emitted_Nil [simp]: "room t 0 out \<Longrightarrow> emitted t [] out = out"
  by (cases out) (auto simp: emitted_def room_def splice_def)

lemma emitted_sel [simp]: "bufp (emitted t cs out) = bufp out + int (length cs)"
  by (simp add: emitted_def)

lemma room_mono: "room t n out \<Longrightarrow> m \<le> n \<Longrightarrow> room t m out"
  by (auto simp: room_def)

lemma splice_append:
  "i + length xs + length ys \<le> length l \<Longrightarrow> splice (i + length xs) ys (splice i xs l) = splice i (xs @ ys) l"
  by (auto simp: splice_def ac_simps)

lemma room_emitted: "room t (n + int (length cs)) out \<Longrightarrow> 0 \<le> n \<Longrightarrow> room t n (emitted t cs out)"
  by (auto simp: room_def emitted_def)

lemma emitted_append:
  assumes "room t (int (length cs + length ds)) out"
  shows "emitted t ds (emitted t cs out) = emitted t (cs @ ds) out"
proof (cases t)
  case False
  then have b: "0 \<le> bufp out" "nat (bufp out) + length cs + length ds \<le> length (obuf out)" using assms by (auto simp: room_def)
  from b(1) have "nat (bufp out + int (length cs)) = nat (bufp out) + length cs" by simp
  with False splice_append [OF b(2)] show ?thesis by (simp add: emitted_def)
qed (simp add: emitted_def)

lemma putc_eq: "room (has_flag flags FLAG_TTY) 1 out \<Longrightarrow> putc c flags out = Inr (emitted (has_flag flags FLAG_TTY) [c] out)"
  by (cases out) (auto simp: putc_def printc_def room_def emitted_def splice_def upd_conv_take_nth_drop)


section \<open>Numbers\<close>

declare digit_loop.simps [simp del] pad_loop.simps [simp del] out_loop.simps [simp del]

lemma length_numeral: "2 \<le> b \<Longrightarrow> n < b ^ k \<Longrightarrow> 0 < k \<Longrightarrow> length (numeral_of b n) \<le> k"
proof (induction k arbitrary: n)
  case (Suc k)
  show ?case
  proof (cases "n < b")
    case True
    then show ?thesis by (simp add: numeral_of.simps [of b n])
  next
    case False
    then have k: "0 < k" using Suc.prems by (cases k) auto
    have "n div b < b ^ k" using Suc.prems(2) by (simp add: less_mult_imp_div_less mult.commute)
    with Suc.IH [OF Suc.prems(1) _ k] False show ?thesis by (simp add: numeral_of.simps [of b n])
  qed
qed simp

lemma numeral_step: "2 \<le> b \<Longrightarrow> numeral_of b n = (if n div b = 0 then [] else numeral_of b (n div b)) @ [n mod b]"
  by (subst numeral_of.simps) (auto simp: div_eq_0_iff)

lemma digits_nth:
  assumes "d < 16"
  shows "digits ! d = digit_char False d \<and> digits ! (16 + d) = digit_char True d"
proof -
  have "list_all (\<lambda>d. digits ! d = digit_char False d \<and> digits ! (16 + d) = digit_char True d) [0..<16]" by code_simp
  with assms show ?thesis by (simp add: list_all_iff)
qed

lemma digit_read:
  fixes n base :: u32
  assumes "2 \<le> base" "base \<le> 16"
  shows "rd digits (if small then 16 + uint (n mod base) else uint (n mod base)) = Inr (digit_char small (unat n mod unat base))"
proof -
  have u: "uint (n mod base) = int (unat n mod unat base)" by (metis unat_mod uint_nat)
  have "unat base \<le> 16" "2 \<le> unat base" using assms by (simp_all add: word_le_nat_alt)
  then have l: "unat n mod unat base < 16" by (meson less_le_trans mod_less_divisor zero_less_numeral)
  have "length digits = 32" by (simp add: digits_def)
  with l digits_nth [OF l] show ?thesis unfolding u by (cases small) (auto simp: nat_add_distrib)
qed

lemma digit_loop_eq:
  assumes "2 \<le> base" "base \<le> 16" "length (numeral_of (unat base) (unat n)) \<le> length zs"
  shows "digit_loop flags base n (int (length pre)) (pre @ zs) =
    (let ds = rev (map (digit_char (has_flag flags FLAG_SMALLS)) (numeral_of (unat base) (unat n)))
     in Inr (int (length pre + length ds), pre @ ds @ drop (length ds) zs))"
  using assms(3)
proof (induction "length zs" arbitrary: n pre zs)
  case 0
  then show ?case by (simp add: numeral_of.simps [of _ "unat n"] split: if_splits)
next
  case (Suc k)
  let ?s = "has_flag flags FLAG_SMALLS" let ?b = "unat base" let ?c = "digit_char ?s (unat n mod ?b)"
  have b: "2 \<le> ?b" using assms(1) by (simp add: word_le_nat_alt)
  from Suc.hyps(2) obtain x ys where zs: "zs = x # ys" "length ys = k" by (cases zs) auto
  have w: "wr (pre @ x # ys) (int (length pre)) ?c = Inr ((pre @ [?c]) @ ys)" by simp
  have d: "n div base \<noteq> 0 \<longleftrightarrow> unat n div ?b \<noteq> 0" by (metis unat_div unat_eq_zero)
  note st = numeral_step [OF b, of "unat n"]
  show ?case
  proof (cases "n div base = 0")
    case True
    then have z: "unat n div ?b = 0" using d by blast
    from True show ?thesis
      unfolding zs digit_loop.simps [of flags base n] digit_read [OF assms(1,2)] rbind_simps w st z by simp
  next
    case False
    then have z: "unat n div ?b \<noteq> 0" using d by blast
    have dv: "unat (n div base) = unat n div ?b" by (rule unat_div)
    have "length (numeral_of ?b (unat (n div base))) \<le> length ys" using Suc.prems st z zs by (simp add: dv)
    note ih = Suc.hyps(1) [OF zs(2) [symmetric] this, of "pre @ [?c]", unfolded dv]
    from False z ih show ?thesis
      unfolding zs digit_loop.simps [of flags base n] digit_read [OF assms(1,2)] rbind_simps w st
      by (simp add: Let_def add.commute)
  qed
qed

lemma pad_loop_eq:
  assumes "nat limit \<le> length pre + length zs"
  shows "pad_loop c limit (int (length pre)) (pre @ zs) =
    (let k = nat limit - length pre in Inr (int (length pre + k), pre @ replicate k c @ drop k zs))"
  using assms
proof (induction "nat limit - length pre" arbitrary: pre zs)
  case 0
  then have "\<not> int (length pre) < limit" by linarith
  with 0 show ?case by (simp add: pad_loop.simps)
next
  case (Suc k)
  then obtain x ys where zs: "zs = x # ys" by (cases zs) auto
  have ih: "pad_loop c limit (int (length (pre @ [c]))) ((pre @ [c]) @ ys) =
    (let k = nat limit - length (pre @ [c]) in Inr (int (length (pre @ [c]) + k), (pre @ [c]) @ replicate k c @ drop k ys))"
    using Suc.hyps(2) Suc.prems zs by (intro Suc.hyps(1)) auto
  have s: "nat limit - length pre = Suc (nat limit - length (pre @ [c]))" "int (length pre) < limit" using Suc.hyps(2) by auto
  from ih s show ?case
    unfolding zs by (subst pad_loop.simps) (simp add: Let_def add.commute)
qed

lemma out_loop_eq:
  assumes "i < length rv" "0 \<le> written \<and> written \<le> sz" "room (has_flag flags FLAG_TTY) (min (sz - written) (int (Suc i))) out"
  shows "out_loop flags sz rv (int i) written out =
    (let t = take (nat (sz - written)) (rev (take (Suc i) rv)) in Inr (written + int (length t), emitted (has_flag flags FLAG_TTY) t out))"
  using assms
proof (induction i arbitrary: written out)
  case 0
  show ?case
  proof (cases "written < sz")
    case True
    then have "nat (sz - written) = Suc (nat (sz - written - 1))" by simp
    moreover have "take (Suc 0) rv = [rv ! 0]" using 0 by (cases rv) auto
    moreover have "room (has_flag flags FLAG_TTY) 1 out" using room_mono [OF 0(3)] True by simp
    ultimately show ?thesis using 0 True by (simp add: putc_eq out_loop.simps)
  next
    case False
    then show ?thesis using 0 by (simp add: out_loop.simps)
  qed
next
  case (Suc i)
  let ?t = "has_flag flags FLAG_TTY"
  show ?case
  proof (cases "written < sz")
    case True
    then have n: "nat (sz - written) = Suc (nat (sz - (written + 1)))" by simp
    have r: "rev (take (Suc (Suc i)) rv) = rv ! Suc i # rev (take (Suc i) rv)"
      using Suc.prems(1) by (simp add: take_Suc_conv_app_nth [of "Suc i"])
    have rm: "room ?t 1 out" using room_mono [OF Suc.prems(3)] True by simp
    let ?u = "take (nat (sz - (written + 1))) (rev (take (Suc i) rv))"
    have "room ?t (min (sz - (written + 1)) (int (Suc i))) (emitted ?t [rv ! Suc i] out)"
      by (rule room_emitted) (use True Suc.prems(3) in \<open>auto simp: room_def\<close>)
    note ih = Suc.IH [OF _ _ this]
    have a: "room ?t (int (length [rv ! Suc i] + length ?u)) out"
      by (rule room_mono [OF Suc.prems(3)]) (use True Suc.prems(1) in \<open>auto simp: min_def\<close>)
    show ?thesis
      unfolding n r using ih Suc.prems True putc_eq [OF rm] emitted_append [OF a]
      by (subst out_loop.simps) (simp add: Let_def nat_add_distrib ac_simps)
  next
    case False
    then show ?thesis using Suc.prems by (simp add: out_loop.simps)
  qed
qed


lemma pad_rev:
  assumes "length pre \<le> 11" "pre' = pre @ replicate (nat (min limit 11) - length pre) c"
  shows "pad_loop c (min limit 11) (int (length pre)) (pre @ replicate (11 - length pre) 0) =
    Inr (int (length pre'), pre' @ replicate (11 - length pre') 0)" "length pre' \<le> 11"
proof -
  have "11 - length pre' = 11 - length pre - (nat (min limit 11) - length pre)" using assms by simp
  with pad_loop_eq [of "min limit 11" pre "replicate (11 - length pre) 0" c] assms
  show "pad_loop c (min limit 11) (int (length pre)) (pre @ replicate (11 - length pre) 0) =
    Inr (int (length pre'), pre' @ replicate (11 - length pre') 0)" by (simp add: Let_def)
  show "length pre' \<le> 11" using assms by auto
qed

lemma length_digits:
  fixes base n :: u32
  assumes "8 \<le> base"
  shows "length (numeral_of (unat base) (unat n)) \<le> 11"
proof -
  have b: "8 \<le> unat base" using assms by (simp add: word_le_nat_alt)
  have "unat n < 2 ^ 32" using uint_le [of n "2 ^ 32 - 1"] uint_lt [of n] by simp
  also have "(2 :: nat) ^ 32 \<le> 8 ^ 11" by simp
  also have "\<dots> \<le> unat base ^ 11" by (rule power_mono) (use b in auto)
  finally show ?thesis using length_numeral [of "unat base" "unat n" 11] b by simp
qed

lemma print_uint_eq:
  fixes base :: u32
  assumes b: "8 \<le> base" "base \<le> 16" and rm: "room (has_flag flags FLAG_TTY) (max 0 sz) out"
    and t: "t = padded (has_flag flags FLAG_SMALLS) (unat base) (nat (min prec 11)) (nat (min width 11)) (unat n)"
  shows "print_uint sz n base flags prec width out =
    Inr (int (length (take (nat sz) t)), (emitted (has_flag flags FLAG_TTY) (take (nat sz) t) out)\<lparr>bufp := bufp out\<rparr>)"
proof (cases "sz \<le> 0")
  case True
  then have "emitted (has_flag flags FLAG_TTY) [] out = out" using rm by simp
  with True show ?thesis by (simp add: print_uint_def)
next
  case False
  define ds where "ds = rev (map (digit_char (has_flag flags FLAG_SMALLS)) (numeral_of (unat base) (unat n)))"
  define zs where "zs = ds @ replicate (nat (min prec 11) - length ds) 48"
  define rv where "rv = zs @ replicate (nat (min width 11) - length zs) 32"
  define u where "u = rv @ replicate (11 - length rv) (0 :: byte)"
  have b2: "2 \<le> base" using b(1) by (simp add: word_le_nat_alt)
  have l: "length ds \<le> 11" using length_digits [OF b(1), of n] by (simp add: ds_def)
  have D: "digit_loop flags base n 0 (replicate 11 0) = Inr (int (length ds), ds @ replicate (11 - length ds) 0)"
    using digit_loop_eq [OF b2 b(2), of n "replicate 11 0" flags "[]"] length_digits [OF b(1), of n] by (simp add: Let_def ds_def)
  note P = pad_rev [OF l zs_def] and W = pad_rev(1) [OF pad_rev(2) [OF l zs_def] rv_def, folded u_def]
  have t2: "rev rv = t" by (simp add: t padded_def Let_def rv_def zs_def ds_def add.commute)
  have "0 < length ds" by (simp add: ds_def numeral_of.simps [of "unat base"])
  then have k: "0 < length rv" by (simp add: rv_def zs_def)
  then have k2: "int (length rv) - 1 = int (length rv - 1)" "length rv - 1 < length u" "take (Suc (length rv - 1)) u = rv"
    by (auto simp: u_def of_nat_diff Suc_leI)
  have "room (has_flag flags FLAG_TTY) (min (sz - 0) (int (Suc (length rv - 1)))) out" using room_mono [OF rm] by simp
  note ol = out_loop_eq [OF k2(2) _ this, unfolded k2(3) t2]
  show ?thesis unfolding print_uint_def D rbind_simps prod.case P(1) W k2(1) using ol False by (simp add: Let_def)
qed

section \<open>Modifiers\<close>

lemma sint_width: "c \<in> width_chars \<Longrightarrow> 48 < sint c \<and> sint c < 57"
  by (auto simp: width_chars_def)

lemma scan_int_from:
  assumes "set ds \<subseteq> width_chars" "0 \<le> v" "(v + 1) * 10 ^ length ds \<le> 10 ^ 8" "\<not> (48 < sint c \<and> sint c < 57)"
  shows "scan_int (ds @ c # s) v = Inr (foldl (\<lambda>v c. 10 * v + (sint c - 48)) v ds, c # s) \<and>
    0 \<le> foldl (\<lambda>v c. 10 * v + (sint c - 48)) v ds \<and> foldl (\<lambda>v c. 10 * v + (sint c - 48)) v ds < 10 ^ 8"
  using assms
proof (induction ds arbitrary: v)
  case Nil
  then show ?case by auto
next
  case (Cons d ds)
  let ?v = "10 * v + (sint d - 48)"
  have d: "48 < sint d" "sint d < 57" using Cons.prems(1) sint_width by auto
  have "(?v + 1) * 10 ^ length ds \<le> (10 * v + 10) * 10 ^ length ds" using d by (intro mult_right_mono) auto
  also have "\<dots> \<le> 10 ^ 8" using Cons.prems(3) by (simp add: algebra_simps)
  finally have b: "(?v + 1) * 10 ^ length ds \<le> 10 ^ 8" .
  have "?v + 1 \<le> (?v + 1) * 10 ^ length ds" using d Cons.prems(2) by (simp add: mult_le_cancel_left1)
  with b have "?v < 10 ^ 8" by linarith
  then have "swrap (swrap (10 * v) + (sint d - 48)) = ?v" using d Cons.prems(2) by simp
  with Cons.IH [OF _ _ b Cons.prems(4)] d Cons.prems(1,2) show ?case by simp
qed

lemma scan_int_number:
  assumes "digits_ok ds" "\<not> (48 < sint c \<and> sint c < 57)"
  shows "scan_int (ds @ c # s) 0 = Inr (digits_number ds, c # s)" "0 \<le> digits_number ds" "digits_number ds < 10 ^ 8"
proof -
  have "(10 :: int) ^ length ds \<le> 10 ^ 8" using assms(1) by (intro power_increasing) (auto simp: digits_ok_def)
  with scan_int_from [of ds 0 c s] assms show "scan_int (ds @ c # s) 0 = Inr (digits_number ds, c # s)" "0 \<le> digits_number ds" "digits_number ds < 10 ^ 8"
    by (auto simp: digits_ok_def digits_number_def)
qed

definition flag_bit :: "byte \<Rightarrow> u32" where
  "flag_bit c = (if c = 35 then FLAG_ALT else if c = 48 then FLAG_ZEROPAD else if c = 32 then FLAG_SPACE
     else if c = 43 then FLAG_SIGN else FLAG_LEFT)"

definition with_flags :: "byte list \<Rightarrow> u32 \<Rightarrow> u32" where
  "with_flags fs flags = foldl (\<lambda>fl c. fl OR flag_bit c) flags fs"

text \<open>The loop at its test: the next character has been fetched.\<close>

definition modifiers_at :: "cstring \<Rightarrow> u32 \<Rightarrow> int \<Rightarrow> int \<Rightarrow> (byte \<times> cstring \<times> u32 \<times> int \<times> int) kresult option" where
  "modifiers_at s flags width prec =
     (case s of
        [] \<Rightarrow> Some (Inl Fault)
      | ch # fmt \<Rightarrow> if ch \<noteq> 0 then modifiers ch fmt flags width prec else Some (Inr (ch, fmt, flags, width, prec)))"

lemma modifiers_step:
  "modifiers ch fmt flags width prec =
     (case read_modifier ch fmt flags width prec of
        Inl e \<Rightarrow> Some (Inl e)
      | Inr None \<Rightarrow> Some (Inr (ch, fmt, flags, width, prec))
      | Inr (Some (fmt, flags, width, prec)) \<Rightarrow> modifiers_at fmt flags width prec)"
  by (subst modifiers.simps) (simp add: modifiers_at_def split: sum.split option.split prod.split)

lemma modifiers_flags:
  "set fs \<subseteq> flag_chars \<Longrightarrow> modifiers_at (fs @ s) flags width prec = modifiers_at s (with_flags fs flags) width prec"
proof (induction fs arbitrary: flags)
  case (Cons c fs)
  then have "read_modifier c (fs @ s) flags width prec = Inr (Some (fs @ s, flags OR flag_bit c, width, prec))" "c \<noteq> 0"
    by (auto simp: read_modifier_def flag_chars_def flag_bit_def)
  then have "modifiers_at (c # fs @ s) flags width prec = modifiers_at (fs @ s) (flags OR flag_bit c) width prec"
    by (simp add: modifiers_at_def [of "c # fs @ s"] modifiers_step [of c])
  with Cons show ?case by (simp add: with_flags_def)
qed (simp add: with_flags_def)

lemma modifiers_width:
  assumes "digits_ok ws" "\<not> (48 < sint c \<and> sint c < 57)" "ws \<noteq> []"
  shows "modifiers_at (ws @ c # s) flags width prec = modifiers_at (c # s) flags (digits_number ws) prec"
proof -
  obtain w ws' where ws: "ws = w # ws'" using assms(3) by (cases ws) auto
  then have w: "w \<in> width_chars" using assms(1) by (simp add: digits_ok_def)
  note scan = scan_int_number(1) [OF assms(1,2), of s, unfolded ws append_Cons]
  from w have "read_modifier w (ws' @ c # s) flags width prec = Inr (Some (c # s, flags, digits_number ws, prec))"
    unfolding read_modifier_def scan by (auto simp: width_chars_def ws)
  moreover have "w \<noteq> 0" using w by (auto simp: width_chars_def)
  ultimately show ?thesis by (simp add: ws modifiers_at_def [of "w # _"] modifiers_step [of w])
qed

lemma modifiers_prec:
  assumes "digits_ok ds" "\<not> (48 < sint c \<and> sint c < 57)"
  shows "modifiers_at (46 # ds @ c # s) flags width prec = modifiers_at (c # s) flags width (digits_number ds)"
  by (simp add: modifiers_at_def [of "46 # _"] modifiers_step [of 46] read_modifier_def scan_int_number(1) [OF assms])

lemma modifiers_end:
  assumes "t \<notin> flag_chars \<union> width_chars \<union> {0, 46, 57}"
  shows "modifiers_at (t # s) flags width prec = Some (Inr (t, s, flags, width, prec))"
proof -
  have "read_modifier t s flags width prec = Inr None" "t \<noteq> 0"
    using assms by (auto simp: read_modifier_def flag_chars_def width_chars_def)
  then show ?thesis by (simp add: modifiers_at_def [of "t # s"] modifiers_step [of t])
qed

lemma width_sint:
  assumes "48 < sint c" "sint c < 57"
  shows "c \<in> width_chars"
proof -
  have "sint c \<in> {49..56}" using assms by auto
  also have "{49..56} = {49, 50, 51, 52, 53, 54, 55, 56 :: int}" by auto
  finally have "sint c \<in> sint ` width_chars" by (auto simp: width_chars_def)
  then show ?thesis using signed_word_eqI by (metis image_iff)
qed

lemma modifiers_conv:
  assumes "directive_ok (Conv fs ws ps t)"
  shows "modifiers_at (tl (directive_fmt (Conv fs ws ps t)) @ s) flags (-1) (-1) =
    Some (Inr (t, s, with_flags fs flags, width_of ws, prec_of ps))"
proof -
  have t: "\<not> (48 < sint t \<and> sint t < 57)" "\<not> (48 < sint (46 :: byte) \<and> sint (46 :: byte) < 57)"
    using assms width_sint [of t] by auto
  note m = modifiers_flags [of fs] modifiers_width [of ws t] modifiers_width [of ws 46] modifiers_prec [OF _ t(1)]
    modifiers_end [of t]
  show ?thesis
    using assms t m by (cases ps; cases "ws = []") (simp_all add: width_of_def prec_of_def)
qed


lemmas flag_defs = FLAG_TTY_def FLAG_SMALLS_def FLAG_ALT_def FLAG_ZEROPAD_def FLAG_LEFT_def FLAG_SPACE_def FLAG_SIGN_def

lemma has_flag_or: "has_flag (a OR b) f \<longleftrightarrow> has_flag a f \<or> has_flag b f"
  by (simp add: has_flag_def bit.conj_disj_distrib2 or_eq_0_iff)

lemma has_flag_with: "has_flag (with_flags fs a) f \<longleftrightarrow> has_flag a f \<or> (\<exists>c \<in> set fs. has_flag (flag_bit c) f)"
  unfolding with_flags_def by (induction fs arbitrary: a) (auto simp: has_flag_or)

lemma has_flag_and: "has_flag (a AND b) f \<longleftrightarrow> has_flag a (b AND f)"
  by (simp add: has_flag_def and.assoc)

lemma conv_flags:
  assumes "fl = with_flags fs (flags AND FLAG_TTY)"
  shows "has_flag fl FLAG_TTY = has_flag flags FLAG_TTY" "has_flag fl FLAG_ZEROPAD \<longleftrightarrow> 48 \<in> set fs" "has_flag fl FLAG_ALT \<longleftrightarrow> 35 \<in> set fs"
    "has_flag fl FLAG_SIGN \<longleftrightarrow> 43 \<in> set fs" "has_flag fl FLAG_SPACE \<longleftrightarrow> 32 \<in> set fs" "\<not> has_flag fl FLAG_SMALLS"
proof -
  have c: "has_flag (flag_bit c) FLAG_TTY = False" "has_flag (flag_bit c) FLAG_ZEROPAD \<longleftrightarrow> c = 48" "has_flag (flag_bit c) FLAG_ALT \<longleftrightarrow> c = 35"
    "has_flag (flag_bit c) FLAG_SIGN \<longleftrightarrow> c = 43" "has_flag (flag_bit c) FLAG_SPACE \<longleftrightarrow> c = 32" "has_flag (flag_bit c) FLAG_SMALLS = False" for c
    by (simp_all add: flag_defs flag_bit_def has_flag_def)
  have n: "FLAG_TTY AND FLAG_TTY = FLAG_TTY" "FLAG_TTY AND FLAG_ZEROPAD = 0" "FLAG_TTY AND FLAG_ALT = 0" "FLAG_TTY AND FLAG_SIGN = 0"
    "FLAG_TTY AND FLAG_SPACE = 0" "FLAG_TTY AND FLAG_SMALLS = 0" "\<not> has_flag flags 0"
    by (simp_all add: flag_defs has_flag_def)
  show "has_flag fl FLAG_TTY = has_flag flags FLAG_TTY" "has_flag fl FLAG_ZEROPAD \<longleftrightarrow> 48 \<in> set fs" "has_flag fl FLAG_ALT \<longleftrightarrow> 35 \<in> set fs"
    "has_flag fl FLAG_SIGN \<longleftrightarrow> 43 \<in> set fs" "has_flag fl FLAG_SPACE \<longleftrightarrow> 32 \<in> set fs" "\<not> has_flag fl FLAG_SMALLS"
    unfolding assms has_flag_with has_flag_and n c using n(7) by simp_all
qed

section \<open>Conversions\<close>

definition conv_done :: "int \<Rightarrow> bool \<Rightarrow> byte list \<Rightarrow> va_value list \<Rightarrow> int \<Rightarrow> xout \<Rightarrow> conv_state kresult" where
  "conv_done sz t u ap written out =
     Inr (ap, written + int (length (take (nat (sz - written)) u)), emitted t (take (nat (sz - written)) u) out)"

lemma conv_done_Cons:
  assumes "written < sz" "room t (sz - written) out"
  shows "conv_done sz t u ap (written + 1) (emitted t [c] out) = conv_done sz t (c # u) ap written out"
proof -
  have n: "nat (sz - written) = Suc (nat (sz - (written + 1)))" using assms(1) by simp
  let ?u = "take (nat (sz - (written + 1))) u"
  have "room t (int (length [c] + length ?u)) out" by (rule room_mono [OF assms(2)]) (use assms(1) in auto)
  from emitted_append [OF this] show ?thesis unfolding conv_done_def n by simp
qed

lemma print_number_eq:
  assumes "8 \<le> base" "base \<le> 16" "room (has_flag flags FLAG_TTY) (sz - written) out" "written \<le> sz"
  shows "print_number sz n base flags prec width ap written out =
    conv_done sz (has_flag flags FLAG_TTY) (padded (has_flag flags FLAG_SMALLS) (unat base) (nat (min prec 11)) (nat (min width 11)) (unat n)) ap written out"
proof -
  have "room (has_flag flags FLAG_TTY) (max 0 (sz - written)) out" using assms(3,4) by (simp add: max_def)
  note print_uint_eq [OF assms(1,2) this refl, of n prec width]
  then show ?thesis by (simp add: print_number_def conv_done_def emitted_def)
qed

lemma print_unsigned_eq:
  assumes "8 \<le> base" "base \<le> 16" "room (has_flag flags FLAG_TTY) (sz - written) out" "written \<le> sz"
    and "has_flag flags FLAG_ZEROPAD \<longleftrightarrow> 48 \<in> set fs"
  shows "print_unsigned sz base flags prec width (Va_int x # ap) written out =
    conv_done sz (has_flag flags FLAG_TTY) (number_text fs (has_flag flags FLAG_SMALLS) (unat base) prec width x) ap written out"
  by (simp add: print_unsigned_def Let_def number_text_def print_number_eq [OF assms(1-4)] assms(5))

lemma room_step:
  "room t (sz - written) out \<Longrightarrow> written < sz \<Longrightarrow> room t (sz - (written + 1)) (emitted t [c] out)"
  by (rule room_emitted) simp_all

lemma print_hex_eq:
  assumes rm: "room (has_flag flags FLAG_TTY) (sz - written) out" "written < sz" and z: "has_flag flags FLAG_ZEROPAD \<longleftrightarrow> 48 \<in> set fs"
  shows "print_hex sz flags prec width (Va_int x # ap) written out =
    conv_done sz (has_flag flags FLAG_TTY) (hex_text fs (has_flag flags FLAG_ALT) (has_flag flags FLAG_SMALLS) prec width x) ap written out"
proof (cases "has_flag flags FLAG_ALT")
  case True
  let ?t = "has_flag flags FLAG_TTY" let ?n = "number_text fs (has_flag flags FLAG_SMALLS) 16 prec (width - 2) x"
  let ?o = "emitted ?t [48] out" let ?p = "emitted ?t [120] ?o"
  have p: "putc 48 flags out = Inr ?o" by (rule putc_eq) (rule room_mono [OF rm(1)], use rm(2) in simp)
  note r1 = room_step [OF rm, of 48]
  have all: "conv_done sz ?t (48 # 120 # ?n) ap written out = conv_done sz ?t (120 # ?n) ap (written + 1) ?o"
    by (rule conv_done_Cons [OF rm(2,1), symmetric])
  show ?thesis
  proof (cases "written + 1 < sz")
    case l: True
    have p2: "putc 120 flags ?o = Inr ?p" by (rule putc_eq) (rule room_mono [OF r1], use l in simp)
    have "print_unsigned sz 16 flags prec (width - 2) (Va_int x # ap) (written + 1 + 1) ?p = conv_done sz ?t ?n ap (written + 1 + 1) ?p"
      using print_unsigned_eq [of 16, OF _ _ room_step [OF r1 l] _ z] l by simp
    also have "\<dots> = conv_done sz ?t (120 # ?n) ap (written + 1) ?o" by (rule conv_done_Cons [OF l r1])
    finally have "print_unsigned sz 16 flags prec (width - 2) (Va_int x # ap) (written + 2) ?p = conv_done sz ?t (120 # ?n) ap (written + 1) ?o"
      by (simp add: add.assoc)
    then show ?thesis using True p p2 l all by (simp add: print_hex_def hex_text_def)
  next
    case False
    with rm(2) have e: "sz = written + 1" by simp
    have "print_unsigned sz 16 flags prec (width - 2) (Va_int x # ap) (written + 1) ?o = conv_done sz ?t ?n ap (written + 1) ?o"
      using print_unsigned_eq [of 16, OF _ _ r1 _ z] e by simp
    also have "\<dots> = conv_done sz ?t (120 # ?n) ap (written + 1) ?o" by (simp add: conv_done_def e)
    finally show ?thesis using True p False all by (simp add: print_hex_def hex_text_def)
  qed
next
  case False
  then show ?thesis using print_unsigned_eq [of 16, OF _ _ rm(1) _ z] rm(2) by (simp add: print_hex_def hex_text_def)
qed


lemma abs_negative: "sint x < 0 \<Longrightarrow> unat (- x) = nat \<bar>sint x\<bar>" for x :: u32
proof -
  assume n: "sint x < 0"
  have r: "- (2 ^ 31) \<le> sint x" using sint_ge [of x] by simp
  have "- x = word_of_int (- sint x)" by simp
  then have "uint (- x) = - sint x" using uint_of_int [of "- sint x"] n r by simp
  with n show ?thesis by (simp add: unat_eq_nat_uint)
qed

lemma abs_positive: "\<not> sint x < 0 \<Longrightarrow> unat x = nat \<bar>sint x\<bar>" for x :: u32
proof -
  assume n: "\<not> sint x < 0"
  have r: "sint x < 2 ^ 31" using sint_less [of x] by simp
  have "x = word_of_int (sint x)" by simp
  then have "uint x = sint x" using uint_of_int [of "sint x"] n r by simp
  with n show ?thesis by (simp add: unat_eq_nat_uint)
qed

lemma print_signed_eq:
  assumes rm: "room (has_flag flags FLAG_TTY) (sz - written) out" "written < sz"
    and f: "has_flag flags FLAG_SIGN \<longleftrightarrow> 43 \<in> set fs" "has_flag flags FLAG_SPACE \<longleftrightarrow> 32 \<in> set fs" "\<not> has_flag flags FLAG_SMALLS"
    and s: "\<not> (sint x < 0 \<and> (43 \<in> set fs \<or> 32 \<in> set fs))"
  shows "print_signed sz flags (Va_int x # ap) written out =
    conv_done sz (has_flag flags FLAG_TTY) (signed_text fs x) ap written out"
proof -
  let ?t = "has_flag flags FLAG_TTY" let ?n = "padded False 10 0 0 (nat \<bar>sint x\<bar>)"
  have p: "putc c flags out = Inr (emitted ?t [c] out)" for c by (rule putc_eq) (rule room_mono [OF rm(1)], use rm(2) in simp)
  have num: "print_number sz y 10 flags 0 0 ap w o' = conv_done sz ?t ?n ap w o'"
    if "room ?t (sz - w) o'" "w \<le> sz" "unat y = nat \<bar>sint x\<bar>" for y w o'
    using print_number_eq [of 10, OF _ _ that(1,2)] that(3) f(3) by simp
  have one: "print_number sz y 10 flags 0 0 ap (written + 1) (emitted ?t [c] out) = conv_done sz ?t (c # ?n) ap written out"
    if "unat y = nat \<bar>sint x\<bar>" for y c
    using num [OF room_step [OF rm] _ that] conv_done_Cons [OF rm(2,1)] rm(2) by simp
  show ?thesis
  proof (cases "sint x < 0")
    case True
    with s f one [OF abs_negative [OF True]] show ?thesis by (simp add: print_signed_def p signed_text_def)
  next
    case False
    note y = abs_positive [OF False]
    from False f one [OF y] num [OF rm(1) _ y] rm(2) show ?thesis by (simp add: print_signed_def p signed_text_def)
  qed
qed

lemma string_loop_eq:
  assumes "terminated s" "0 \<le> written" "written \<le> w" "room (has_flag flags FLAG_TTY) (w - written) out"
  shows "string_loop flags w s written out =
    (let t = take (nat (w - written)) (cstr s) in Inr (written + int (length t), emitted (has_flag flags FLAG_TTY) t out))"
  using assms
proof (induction s arbitrary: written out)
  case (Cons c s)
  let ?t = "has_flag flags FLAG_TTY"
  show ?case
  proof (cases "written < w \<and> c \<noteq> 0")
    case True
    have n: "nat (w - written) = Suc (nat (w - (written + 1)))" using True by arith
    have c: "cstr (c # s) = c # cstr s" "terminated s" using True Cons.prems(1) by simp_all
    have p: "putc c flags out = Inr (emitted ?t [c] out)" by (rule putc_eq) (rule room_mono [OF Cons.prems(4)], use True in simp)
    note ih = Cons.IH [OF c(2) _ _ room_step [OF Cons.prems(4)], of c]
    have a: "room ?t (int (length [c] + length (take (nat (w - (written + 1))) (cstr s)))) out"
      by (rule room_mono [OF Cons.prems(4)]) (use True in auto)
    from ih p True Cons.prems(2) emitted_append [OF a] show ?thesis
      unfolding n c(1) by (simp add: Let_def)
  next
    case False
    with Cons.prems have e: "take (nat (w - written)) (cstr (c # s)) = []" by auto
    have "room ?t 0 out" by (rule room_mono [OF Cons.prems(4)]) (use Cons.prems in simp)
    with False show ?thesis unfolding e Let_def by auto
  qed
qed simp

lemma print_string_eq:
  assumes rm: "room (has_flag flags FLAG_TTY) (sz - written) out" "written < sz" "0 \<le> written" and s: "terminated s"
    and p: "prec = -1 \<or> (0 \<le> prec \<and> written + prec < 2 ^ 31)"
  shows "print_string sz flags prec (Va_string s # ap) written out =
    conv_done sz (has_flag flags FLAG_TTY) (if prec = -1 then cstr s else take (nat prec) (cstr s)) ap written out"
proof -
  let ?w = "if prec \<noteq> -1 \<and> swrap (written + prec) < sz then swrap (written + prec) else sz"
  have sw: "prec \<noteq> -1 \<Longrightarrow> swrap (written + prec) = written + prec" using p rm(3) by simp
  then have w: "written \<le> ?w" "?w \<le> sz" using p rm by auto
  have t: "take (nat (?w - written)) (cstr s) = take (nat (sz - written)) (if prec = -1 then cstr s else take (nat prec) (cstr s))"
    using sw p rm by (auto simp: min_def nat_diff_distrib nat_add_distrib)
  have "room (has_flag flags FLAG_TTY) (?w - written) out" by (rule room_mono [OF rm(1)]) (use w in simp)
  from string_loop_eq [OF s rm(3) w(1) this, unfolded t] show ?thesis
    by (simp add: print_string_def Let_def conv_done_def)
qed


lemma print_char_eq:
  assumes "room (has_flag flags FLAG_TTY) (sz - written) out" "written < sz"
  shows "print_char c flags ap written out = conv_done sz (has_flag flags FLAG_TTY) [c] ap written out"
proof -
  have "putc c flags out = Inr (emitted (has_flag flags FLAG_TTY) [c] out)"
    by (rule putc_eq) (rule room_mono [OF assms(1)], use assms(2) in simp)
  moreover have "take (nat (sz - written)) [c] = [c]" using assms(2) by (cases "nat (sz - written)") auto
  ultimately show ?thesis by (simp add: print_char_def conv_done_def)
qed

lemma print_arg_eq:
  assumes rm: "room (has_flag flags FLAG_TTY) (sz - written) out" "written < sz" "0 \<le> written"
    and fl: "fl = with_flags fs (flags AND FLAG_TTY)"
    and c: "conv_text fs width prec t ap = Some (u, ap')" "\<not> sign_twice fs t ap" and p: "prec = -1 \<or> (0 \<le> prec \<and> written + prec < 2 ^ 31)"
  shows "print_arg sz t fl prec width ap written out = conv_done sz (has_flag flags FLAG_TTY) u ap' written out"
proof -
  note f = conv_flags [OF fl]
  have rm2: "room (has_flag fl FLAG_TTY) (sz - written) out" using rm(1) f(1) by simp
  note le = less_imp_le [OF rm(2)]
  have h: "has_flag FLAG_SMALLS FLAG_SMALLS" "has_flag FLAG_ALT FLAG_ALT" "\<not> has_flag FLAG_ALT FLAG_TTY" "\<not> has_flag FLAG_SMALLS FLAG_TTY"
    "\<not> has_flag FLAG_ALT FLAG_ZEROPAD" "\<not> has_flag FLAG_SMALLS FLAG_ZEROPAD" "\<not> has_flag FLAG_SMALLS FLAG_ALT" "\<not> has_flag FLAG_ALT FLAG_SMALLS"
    by (simp_all add: flag_defs has_flag_def)
  note un = print_unsigned_eq [OF _ _ rm2 le f(2)]
  have hx: "print_hex sz g prec width (Va_int x # b) written out =
    conv_done sz (has_flag flags FLAG_TTY) (hex_text fs (has_flag g FLAG_ALT) (has_flag g FLAG_SMALLS) prec width x) b written out"
    if "g \<in> {fl, fl OR FLAG_SMALLS, fl OR FLAG_ALT OR FLAG_SMALLS}" for g x b
  proof -
    have "has_flag g FLAG_TTY = has_flag flags FLAG_TTY" "has_flag g FLAG_ZEROPAD \<longleftrightarrow> 48 \<in> set fs"
      using that f h by (auto simp: has_flag_or)
    with print_hex_eq [of g sz written out fs] rm show ?thesis by simp
  qed
  have sg: "print_signed sz fl (Va_int x # b) written out = conv_done sz (has_flag flags FLAG_TTY) (signed_text fs x) b written out"
    if "\<not> (sint x < 0 \<and> (43 \<in> set fs \<or> 32 \<in> set fs))" for x b
    using print_signed_eq [OF rm2 rm(2) f(4,5,6) that] f(1) by simp
  note ch = print_char_eq [OF rm2 rm(2)]
  note st = print_string_eq [OF rm2 rm(2,3) _ p]
  note d = conv_text_def print_arg_def
  show ?thesis
  proof (cases "t \<in> {105, 100, 111, 117, 112, 120, 88, 99}")
    case True
    with c(1) obtain x b where a: "ap = Va_int x # b" by (auto simp: conv_text_def split: list.splits va_value.splits)
    from True consider "t = 105 \<or> t = 100" | "t = 111" | "t = 117" | "t = 112" | "t = 120" | "t = 88" | "t = 99" by auto
    then show ?thesis
    proof cases
      case 1
      with c(2) a have "\<not> (sint x < 0 \<and> (43 \<in> set fs \<or> 32 \<in> set fs))" by (auto simp: sign_twice_def)
      from sg [OF this] 1 c a this show ?thesis by (auto simp: d split: if_splits)
    next
      case 2
      with un [of 8] c a f show ?thesis by (simp add: d)
    next
      case 3
      with un [of 10] c a f show ?thesis by (simp add: d)
    next
      case 4
      with hx [of "fl OR FLAG_ALT OR FLAG_SMALLS"] c a f h show ?thesis by (simp add: d has_flag_or)
    next
      case 5
      with hx [of "fl OR FLAG_SMALLS"] c a f h show ?thesis by (simp add: d has_flag_or)
    next
      case 6
      with hx [of fl] c a f h show ?thesis by (simp add: d)
    next
      case 7
      with ch c a f show ?thesis by (simp add: d)
    qed
  next
    case False
    show ?thesis
    proof (cases "t = 115")
      case True
      with c obtain x b where a: "ap = Va_string x # b" "terminated x"
        by (auto simp: conv_text_def split: list.splits va_value.splits if_splits)
      with st [OF a(2)] True c f show ?thesis by (simp add: d)
    next
      case n: False
      from False n ch c f show ?thesis by (simp add: d)
    qed
  qed
qed

section \<open>The whole format\<close>

lemma conv_text_range:
  "directive_ok (Conv fs ws ps t) \<Longrightarrow> prec_of ps = -1 \<or> (0 \<le> prec_of ps \<and> prec_of ps < 10 ^ 8)"
  using scan_int_number(2,3) [of _ 0] by (auto simp: prec_of_def split: option.splits)

lemma format_loop_conv:
  assumes ok: "directive_ok (Conv fs ws ps t)" and w: "written < sz"
  shows "format_loop sz (directive_fmt (Conv fs ws ps t) @ s) ap flags written out =
    rbind (print_arg sz t (with_flags fs (flags AND FLAG_TTY)) (prec_of ps) (width_of ws) ap written out) (\<lambda>(ap, written, out).
    format_loop sz s ap (with_flags fs (flags AND FLAG_TTY)) written out)"
proof -
  obtain ch r where r: "tl (directive_fmt (Conv fs ws ps t)) @ s = ch # r" by (cases "tl (directive_fmt (Conv fs ws ps t)) @ s") auto
  then have f: "directive_fmt (Conv fs ws ps t) @ s = 37 # ch # r" by simp
  have t: "t \<noteq> 0" "\<not> (48 < sint (0 :: byte))" using ok by auto
  have "ch \<noteq> 0"
    using r ok by (auto simp: flag_chars_def width_chars_def digits_ok_def append_eq_Cons_conv split: option.splits)
  with modifiers_conv [OF ok, of s "flags AND FLAG_TTY", unfolded r]
  have "modifiers ch r (flags AND FLAG_TTY) (-1) (-1) = Some (Inr (t, s, with_flags fs (flags AND FLAG_TTY), width_of ws, prec_of ps))"
    by (simp add: modifiers_at_def)
  with \<open>ch \<noteq> 0\<close> w t(1) show ?thesis unfolding f by simp
qed

lemma format_loop_text:
  assumes "\<forall>d \<in> set ds. directive_ok d" "format_text ds ap = Some u" "0 \<le> written" "written \<le> sz"
    and "room (has_flag flags FLAG_TTY) (sz - written) out" "written + int (length u) + 10 ^ 8 < 2 ^ 31" "signs_ok ds ap"
  shows "\<exists>fl. has_flag fl FLAG_TTY = has_flag flags FLAG_TTY \<and> format_loop sz (concat (map directive_fmt ds) @ 0 # s) ap flags written out =
    Inr (fl, written + int (length (take (nat (sz - written)) u)), emitted (has_flag flags FLAG_TTY) (take (nat (sz - written)) u) out)"
  using assms
proof (induction ds arbitrary: ap flags u written out)
  case Nil
  have "room (has_flag flags FLAG_TTY) 0 out" by (rule room_mono [OF Nil(5)]) (use Nil in simp)
  with Nil show ?case by auto
next
  case (Cons d ds)
  let ?t = "has_flag flags FLAG_TTY" let ?rest = "concat (map directive_fmt ds) @ 0 # s"
  have rm0: "room ?t 0 out" by (rule room_mono [OF Cons.prems(5)]) (use Cons.prems in simp)
  show ?case
  proof (cases "written < sz")
    case False
    moreover obtain c r where "directive_fmt d @ ?rest = c # r" by (cases "directive_fmt d @ ?rest") auto
    ultimately show ?thesis using Cons.prems(4) rm0 by auto
  next
    case w: True
    have "\<exists>v ap' u' fl. format_text ds ap' = Some u' \<and> signs_ok ds ap' \<and> u = v @ u' \<and> has_flag fl FLAG_TTY = ?t \<and>
      format_loop sz (directive_fmt d @ ?rest) ap flags written out =
      rbind (conv_done sz ?t v ap' written out) (\<lambda>(ap, written, out). format_loop sz ?rest ap fl written out)"
    proof (cases d)
      case (Lit c)
      have p: "putc c flags out = Inr (emitted ?t [c] out)" by (rule putc_eq) (rule room_mono [OF Cons.prems(5)], use w in simp)
      have "take (nat (sz - written)) [c] = [c]" using w by (cases "nat (sz - written)") auto
      with Lit Cons.prems(1,2,7) w p obtain z where "format_text ds ap = Some z" "signs_ok ds ap" "u = [c] @ z"
        "format_loop sz (directive_fmt d @ ?rest) ap flags written out =
         rbind (conv_done sz ?t [c] ap written out) (\<lambda>(ap, written, out). format_loop sz ?rest ap flags written out)"
        by (auto simp: conv_done_def)
      then show ?thesis by blast
    next
      case (Conv fs ws ps t)
      from Cons.prems(1) Conv have ok: "directive_ok (Conv fs ws ps t)" by simp
      from Cons.prems(2) Conv obtain v ap' u' where v: "conv_text fs (width_of ws) (prec_of ps) t ap = Some (v, ap')"
        "format_text ds ap' = Some u'" "u = v @ u'" by (auto split: option.splits)
      from Cons.prems(7) v(1) Conv have sg: "\<not> sign_twice fs t ap" "signs_ok ds ap'" by simp_all
      have "prec_of ps = -1 \<or> (0 \<le> prec_of ps \<and> written + prec_of ps < 2 ^ 31)"
        using conv_text_range [OF ok] Cons.prems(6) by auto
      note pa = print_arg_eq [OF Cons.prems(5) w Cons.prems(3) refl v(1) sg(1) this]
      from v(2,3) sg(2) format_loop_conv [OF ok w, of ?rest ap flags out] conv_flags(1) [OF refl] show ?thesis
        unfolding Conv pa by blast
    qed
    then obtain v ap' u' fl where sg: "signs_ok ds ap'" and v: "format_text ds ap' = Some u'" "u = v @ u'" "has_flag fl FLAG_TTY = ?t"
      "format_loop sz (directive_fmt d @ ?rest) ap flags written out =
      rbind (conv_done sz ?t v ap' written out) (\<lambda>(ap, written, out). format_loop sz ?rest ap fl written out)" by blast
    let ?v = "take (nat (sz - written)) v" let ?w = "written + int (length ?v)"
    have le: "?w \<le> sz" using w by auto
    have r: "room (has_flag fl FLAG_TTY) (sz - ?w) (emitted ?t ?v out)" unfolding v(3) by (rule room_emitted) (use Cons.prems(5) le in auto)
    have pre: "\<forall>d \<in> set ds. directive_ok d" "0 \<le> ?w" "?w + int (length u') + 10 ^ 8 < 2 ^ 31"
      using Cons.prems(1,3,6) v(2) by auto
    from Cons.IH [OF pre(1) v(1) pre(2) le r pre(3) sg, unfolded v(3)] obtain fl' where fl: "has_flag fl' FLAG_TTY = ?t"
      "format_loop sz ?rest ap' fl ?w (emitted ?t ?v out) =
       Inr (fl', ?w + int (length (take (nat (sz - ?w)) u')), emitted ?t (take (nat (sz - ?w)) u') (emitted ?t ?v out))"
      by blast
    have "nat (sz - (written + int (length v))) = nat (sz - written) - length v" by arith
    with w have tk: "?v @ take (nat (sz - ?w)) u' = take (nat (sz - written)) u" by (auto simp: v(2) min_def)
    have "room ?t (int (length ?v + length (take (nat (sz - ?w)) u'))) out"
      by (rule room_mono [OF Cons.prems(5)]) (use le in auto)
    note em = emitted_append [OF this, unfolded tk]
    have len: "int (length (take (nat (sz - written)) u)) = int (length ?v) + int (length (take (nat (sz - ?w)) u'))"
      unfolding tk [symmetric] by simp
    have "format_loop sz (directive_fmt d @ ?rest) ap flags written out =
      Inr (fl', written + int (length (take (nat (sz - written)) u)), emitted ?t (take (nat (sz - written)) u) out)"
      unfolding v(4) conv_done_def rbind_simps prod.case fl(2) em len add.assoc ..
    with fl(1) show ?thesis by (intro exI [of _ fl']) simp
  qed
qed


lemma splice_set:
  assumes "k + length xs < length l"
  shows "(splice k (xs @ [y]) l)[k + length xs := z] = splice k (xs @ [z]) l" "(splice k xs l)[k + length xs := z] = splice k (xs @ [z]) l"
proof -
  have "length (take k l) = k" using assms by simp
  then show "(splice k (xs @ [y]) l)[k + length xs := z] = splice k (xs @ [z]) l" by (simp add: splice_def list_update_append)
  have "drop (k + length xs) l = l ! (k + length xs) # drop (Suc (k + length xs)) l" using assms by (simp add: Cons_nth_drop_Suc)
  with \<open>length (take k l) = k\<close> show "(splice k xs l)[k + length xs := z] = splice k (xs @ [z]) l"
    by (simp add: splice_def list_update_append)
qed

lemma vxnprintf_text:
  assumes "\<forall>d \<in> set ds. directive_ok d" "format_text ds ap = Some u" "0 < sz" "int (length u) + 10 ^ 8 < 2 ^ 31"
    and "room (has_flag flags FLAG_TTY) sz out" "signs_ok ds ap"
  shows "vxnprintf sz (format_of ds) ap flags out =
    (let t = has_flag flags FLAG_TTY; long = sz \<le> int (length u); v = take (nat (sz - 1)) u @ [0] in
     Inr (if long then -1 else int (length u),
       if t then (emitted t (take (nat sz) u) out)\<lparr>bufp := bufp out + (if long then sz - 1 else int (length u))\<rparr>
       else (emitted t v out)\<lparr>bufp := bufp out + (if long then sz - 1 else int (length u))\<rparr>))"
proof -
  let ?t = "has_flag flags FLAG_TTY"
  from format_loop_text [OF assms(1,2), of 0 sz flags out "[]"] assms obtain fl where
    fl: "has_flag fl FLAG_TTY = ?t" "format_loop sz (format_of ds) ap flags 0 out =
      Inr (fl, int (length (take (nat sz) u)), emitted ?t (take (nat sz) u) out)" by (auto simp: format_of_def)
  have rm: "\<not> ?t \<Longrightarrow> 0 \<le> bufp out \<and> bufp out + sz \<le> int (length (obuf out))" using assms(5) by (simp add: room_def)
  show ?thesis
  proof (cases ?t)
    case True
    with fl assms(3) show ?thesis by (auto simp: vxnprintf_def Let_def printc_def emitted_def)
  next
    case False
    note rm = rm [OF False]
    show ?thesis
    proof (cases "sz \<le> int (length u)")
      case True
      then have n: "nat sz = Suc (nat (sz - 1))" "nat (sz - 1) < length u" using assms(3) by auto
      then have tk: "take (nat sz) u = take (nat (sz - 1)) u @ [u ! nat (sz - 1)]" by (simp add: take_Suc_conv_app_nth)
      have l: "int (length (take (nat sz) u)) = sz" using True assms(3) by simp
      let ?k = "nat (bufp out)"
      have k: "nat (bufp out + sz - 1) = ?k + nat (sz - 1)" and l2: "?k + nat (sz - 1) < length (obuf out)" using rm assms(3) by arith+
      have "(splice ?k (take (nat sz) u) (obuf out))[?k + nat (sz - 1) := 0] = splice ?k (take (nat (sz - 1)) u @ [0]) (obuf out)"
        using l2 splice_set(1) [of ?k "take (nat (sz - 1)) u" "obuf out" "u ! nat (sz - 1)" 0] rm n True unfolding tk by (simp add: nat_less_iff)
      moreover have "length (splice ?k (take (nat sz) u) (obuf out)) = length (obuf out)"
        by (rule splice_length) (use rm assms(3) True in \<open>auto simp: min_def\<close>)
      ultimately show ?thesis
        using fl False True l k rm assms(3) by (simp add: vxnprintf_def Let_def printc_def emitted_def)
    next
      case short: False
      then have tk: "take (nat sz) u = u" "take (nat (sz - 1)) u = u" by auto
      let ?k = "nat (bufp out)"
      have k: "nat (bufp out + int (length u)) = ?k + length u" using rm by arith
      have "(splice ?k u (obuf out))[?k + length u := 0] = splice ?k (u @ [0]) (obuf out)"
        using rm short by (intro splice_set(2)) arith
      moreover have "length (splice ?k u (obuf out)) = length (obuf out)"
        by (rule splice_length) (use rm short in auto)
      ultimately show ?thesis
        using fl False short tk k rm by (simp add: vxnprintf_def Let_def printc_def emitted_def)
    qed
  qed
qed


section \<open>Never hanging\<close>

lemma putc_returns: "putc c flags out \<noteq> Inl Hang"
  by (simp add: putc_def printc_def rbind_eq_Inl wr_def)

lemma number_returns: "print_number sz n base flags prec width ap written out \<noteq> Inl Hang"
proof -
  have "digit_loop flags base n i rv \<noteq> Inl Hang" for n i rv
    by (induction flags base n i rv rule: digit_loop.induct) (subst digit_loop.simps, auto simp: rbind_eq_Inl rd_def wr_def)
  moreover have "pad_loop c limit i rv \<noteq> Inl Hang" for c limit i rv
    by (induction c limit i rv rule: pad_loop.induct) (subst pad_loop.simps, auto simp: rbind_eq_Inl wr_def)
  moreover have "out_loop flags k rv i w o' \<noteq> Inl Hang" for k rv i w o'
    by (induction flags k rv i w o' rule: out_loop.induct) (subst out_loop.simps, auto simp: rbind_eq_Inl rd_def putc_returns)
  ultimately show ?thesis by (auto simp: print_number_def print_uint_def rbind_eq_Inl)
qed

lemma va_returns: "va_int ap \<noteq> Inl Hang" "va_string ap \<noteq> Inl Hang"
  by (cases ap rule: va_int.cases; simp) (cases ap rule: va_string.cases; simp)

lemma print_arg_returns: "print_arg sz ch flags prec width ap written out \<noteq> Inl Hang"
proof -
  have s: "string_loop flags w s written out \<noteq> Inl Hang" for w s written out
    by (induction flags w s written out rule: string_loop.induct) (auto simp: rbind_eq_Inl putc_returns)
  have u: "print_unsigned sz b f p wd ap w o' \<noteq> Inl Hang" for b f p wd ap w o'
    by (auto simp: print_unsigned_def Let_def rbind_eq_Inl va_returns number_returns)
  have h: "print_hex sz f p wd ap w o' \<noteq> Inl Hang" for f p wd ap w o'
    by (auto simp: print_hex_def rbind_eq_Inl putc_returns u)
  have g: "print_signed sz f ap w o' \<noteq> Inl Hang" for f ap w o'
    by (auto simp: print_signed_def rbind_eq_Inl putc_returns va_returns number_returns)
  show ?thesis
    by (auto simp: print_arg_def print_char_def print_string_def Let_def rbind_eq_Inl putc_returns va_returns s u h g)
qed

lemma scan_int_set: "scan_int s v = Inr (u, t) \<Longrightarrow> set t \<subseteq> set s"
  by (induction s v rule: scan_int.induct) (auto split: if_splits)

lemma read_modifier_rest:
  assumes "read_modifier ch fmt flags width prec = Inr (Some (f, r))" "ch \<noteq> 57"
  shows "set f \<subseteq> set fmt" "length f \<le> length fmt"
proof -
  have "\<exists>v. scan_int (ch # fmt) 0 = scan_int fmt v" if "ch \<in> {49, 50, 51, 52, 53, 54, 55, 56, 57}"
    using sint_width [of ch] that assms(2) by (auto simp: width_chars_def)
  with assms have "f = fmt \<or> (\<exists>v u. scan_int fmt v = Inr (u, f))"
    unfolding read_modifier_def by (auto simp: rbind_eq_Inr simp del: scan_int.simps split: if_splits) metis+
  then show "set f \<subseteq> set fmt" "length f \<le> length fmt" using scan_int_set [of fmt] scan_int_shorter [of fmt] by blast+
qed

lemma modifiers_return:
  "57 \<notin> insert ch (set fmt) \<Longrightarrow> \<exists>m. modifiers ch fmt flags width prec = Some m \<and> m \<noteq> Inl Hang \<and>
     (\<forall>c f y. m = Inr (c, f, y) \<longrightarrow> set f \<subseteq> set fmt)"
proof (induction "length fmt" arbitrary: ch fmt flags width prec rule: less_induct)
  case less
  have sc: "scan_int s v \<noteq> Inl Hang" for s v by (induction s v rule: scan_int.induct) auto
  show ?case
  proof (cases "read_modifier ch fmt flags width prec")
    case (Inl e)
    then have "e \<noteq> Hang" using sc by (auto simp: read_modifier_def rbind_eq_Inl split: if_splits)
    with Inl show ?thesis by (simp add: modifiers_step [of ch])
  next
    case (Inr m)
    show ?thesis
    proof (cases m)
      case None
      with Inr show ?thesis by (simp add: modifiers_step [of ch])
    next
      case (Some q)
      then obtain f fl w p where q: "m = Some (f, fl, w, p)" by (cases q) auto
      have f: "set f \<subseteq> set fmt" "length f \<le> length fmt"
        using read_modifier_rest [OF Inr [unfolded q]] less.prems by auto
      show ?thesis
      proof (cases f)
        case Nil
        with Inr q show ?thesis by (simp add: modifiers_step [of ch] modifiers_at_def)
      next
        case (Cons c f')
        show ?thesis
        proof (cases "c = 0")
          case True
          with Inr q Cons f show ?thesis by (auto simp: modifiers_step [of ch] modifiers_at_def)
        next
          case False
          have "length f' < length fmt" "57 \<notin> insert c (set f')" using Cons f less.prems by auto
          from less.hyps [OF this, of fl w p] Inr q Cons False f show ?thesis by (fastforce simp: modifiers_step [of ch] modifiers_at_def)
        qed
      qed
    qed
  qed
qed

end
