(* ===== verification/Xprintf_calls.thy ===== *)
theory Xprintf_calls
  imports Xprintf_text
begin

text \<open>
  The properties of formatted output (\<open>lib/xprintf.c\<close>): the text that is written, numbers that are
  read back by \<open>atoi\<close>, when a call returns, and where it writes past the end of its buffer.
\<close>

lemma format_loop_returns: "57 \<notin> set fmt \<Longrightarrow> format_loop sz fmt ap flags written out \<noteq> Inl Hang"
proof (induction "length fmt" arbitrary: fmt ap flags written out rule: less_induct)
  case less
  show ?case
  proof (cases fmt)
    case (Cons ch s)
    then have n: "57 \<notin> set s" "length s < length fmt" using less.prems by auto
    have lit: "rbind (putc ch flags out) (format_loop sz s ap flags (written + 1)) \<noteq> Inl Hang"
      using less.hyps [OF n(2,1)] by (auto simp: rbind_eq_Inl putc_returns)
    have conv: "rbind (print_arg sz c f p w ap written out) (\<lambda>(ap, written, out). format_loop sz r ap f written out) \<noteq> Inl Hang"
      if "set r \<subseteq> set s" "length r \<le> length s" for c f p w r
    proof -
      have "length r < length fmt" "57 \<notin> set r" using that n by auto
      note ih = less.hyps [OF this]
      show ?thesis using ih by (auto simp: rbind_eq_Inl print_arg_returns)
    qed
    show ?thesis
    proof (cases s)
      case Nil
      with Cons lit show ?thesis by auto
    next
      case s: (Cons c r)
      then obtain m where m: "modifiers c r (flags AND FLAG_TTY) (-1) (-1) = Some m" "m \<noteq> Inl Hang"
        "\<forall>c f y. m = Inr (c, f, y) \<longrightarrow> set f \<subseteq> set r" using modifiers_return [of c r "flags AND FLAG_TTY" "-1" "-1"] n(1) by auto
      have "rbind m (\<lambda>(ch, fmt, flags, width, prec). if ch = 0 then Inr (flags, written, out)
        else rbind (print_arg sz ch flags prec width ap written out) (\<lambda>(ap, written, out). format_loop sz fmt ap flags written out)) \<noteq> Inl Hang"
      proof (cases m)
        case (Inr x)
        obtain c' f fl w p where x: "x = (c', f, fl, w, p)" by (cases x) auto
        have "length f \<le> length r" by (rule modifiers_shorter [OF m(1) [unfolded Inr x]])
        then have "set f \<subseteq> set s" "length f \<le> length s" using m(3) Inr x s by auto
        with Inr x conv [of f] show ?thesis by auto
      qed (use m(2) in simp)
      with lit [unfolded s] show ?thesis
        unfolding Cons s format_loop.simps list.case m(1) option.case by (auto simp del: format_loop.simps)
    qed
  qed simp
qed

lemma snprintf_writes:
  assumes "\<forall>d \<in> set ds. directive_ok d" "format_text ds ap = Some u" "int (length u) + 10 ^ 8 < 2 ^ 31"
    and "0 < sz" "sz \<le> int (length str)" "signs_ok ds ap"
  shows "snprintf str sz (format_of ds) ap =
    Inr (if int (length u) < sz then int (length u) else -1, splice 0 (take (nat (sz - 1)) u @ [0]) str)"
proof -
  have "\<not> has_flag 0 FLAG_TTY" by (simp add: has_flag_def)
  with vxnprintf_text [OF assms(1,2,4,3), of 0 "\<lparr>obuf = str, bufp = 0, tty = []\<rparr>"] assms(4-6) show ?thesis
    by (auto simp: snprintf_def room_def Let_def emitted_def)
qed

text \<open>
  Property C15. \<open>snprintf\<close> writes the text of its format, cut to the size of the buffer, with a
  terminator, and touches nothing behind it. It returns the length of the text, or -1 when it did not
  fit. This holds for formats whose widths and precisions are written with the digits 1 to 8, the
  ones the code reads, and that print no negative number with the flag \<open>+\<close> or space
  (\<open>signs_ok\<close>); in the text a width or precision of a number counts as at most 11. A negative number with
  such a flag gets two signs and can be written past the end of the buffer (\<open>snprintf_sign_overflow\<close> below).
\<close>

theorem snprintf_text:
  assumes "\<forall>d \<in> set ds. directive_ok d" "format_text ds ap = Some u" "int (length u) + 10 ^ 8 < 2 ^ 31"
    and "0 < sz" "sz \<le> int (length str)" "signs_ok ds ap"
  shows "snprintf str sz (format_of ds) ap =
    Inr (if int (length u) < sz then int (length u) else -1, splice 0 (take (nat (sz - 1)) u @ [0]) str)"
  using assms by (rule snprintf_writes)

theorem snprintf_text_witness:
  "snprintf (replicate 4 1) 4 (format_of [Conv [43] [] None 100]) [Va_int 7] = Inr (2, [43, 55, 0, 1]) \<and>
   snprintf (replicate 10 1) 6 (format_of [Lit 97, Conv [48] [52] None 120, Lit 33]) [Va_int 0xBEEF] =
     Inr (-1, [97, 98, 101, 101, 102, 0, 1, 1, 1, 1]) \<and>
   snprintf (replicate 10 1) 8 (format_of [Conv [48] [53] None 117]) [Va_int 42] = Inr (5, [48, 48, 48, 52, 50, 0, 1, 1, 1, 1])"
proof -
  have a: "format_text [Lit 97, Conv [48] [52] None 120, Lit 33] [Va_int 0xBEEF] = Some [97, 98, 101, 101, 102, 33]"
    by (simp add: conv_text_def hex_text_def number_text_def padded_def Let_def numeral_of.simps digit_char_def width_of_def prec_of_def digits_number_def)
  have b: "format_text [Conv [48] [53] None 117] [Va_int 42] = Some [48, 48, 48, 52, 50]"
    by (simp add: conv_text_def number_text_def padded_def Let_def numeral_of.simps digit_char_def width_of_def prec_of_def digits_number_def
      numeral_3_eq_3)
  have c: "format_text [Conv [43] [] None 100] [Va_int 7] = Some [43, 55]"
    by (simp add: conv_text_def signed_text_def padded_def Let_def numeral_of.simps digit_char_def)
  have g: "signs_ok [Lit 97, Conv [48] [52] None 120, Lit 33] [Va_int 0xBEEF]" "signs_ok [Conv [48] [53] None 117] [Va_int 42]"
    "signs_ok [Conv [43] [] None 100] [Va_int 7]"
    by (simp_all add: sign_twice_def split: option.split)
  have ok: "directive_ok (Conv [43] [] None 100)" "directive_ok (Lit 97)" "directive_ok (Lit 33)" "directive_ok (Conv [48] [52] None 120)" "directive_ok (Conv [48] [53] None 117)"
    by (simp_all add: digits_ok_def flag_chars_def width_chars_def)
  have s: "splice 0 (take (nat (6 - 1)) [97, 98, 101, 101, 102, 33] @ [0]) (replicate 10 1) = [97, 98, 101, 101, 102, 0, 1, 1, 1, 1 :: byte]"
    "splice 0 (take (nat (8 - 1)) [48, 48, 48, 52, 50] @ [0]) (replicate 10 1) = [48, 48, 48, 52, 50, 0, 1, 1, 1, 1 :: byte]"
    "splice 0 (take (nat (4 - 1)) [43, 55] @ [0]) (replicate 4 1) = [43, 55, 0, 1 :: byte]"
    by code_simp+
  show ?thesis
    using snprintf_text [OF _ a, of 6 "replicate 10 1", unfolded s] snprintf_text [OF _ b, of 8 "replicate 10 1", unfolded s]
      snprintf_text [OF _ c, of 4 "replicate 4 1", unfolded s] ok g by simp
qed

text \<open>
  \<open>kprintf\<close> sends the text of its format to the terminal, without zero bytes, and
  returns its length.
\<close>

theorem kprintf_text:
  assumes "\<forall>d \<in> set ds. directive_ok d" "format_text ds ap = Some u" "int (length u) + 10 ^ 8 < 2 ^ 31" "signs_ok ds ap"
  shows "kprintf (format_of ds) ap terminal = Inr (int (length u), terminal @ filter (\<lambda>c. c \<noteq> 0) u)"
proof -
  have "has_flag FLAG_TTY FLAG_TTY" by (simp add: has_flag_def FLAG_TTY_def)
  with vxnprintf_text [OF assms(1,2) _ assms(3), where sz = "0x7fffffff" and flags = FLAG_TTY and out = "\<lparr>obuf = [], bufp = 0, tty = terminal\<rparr>"] assms(3,4) show ?thesis
    by (simp add: kprintf_def room_def Let_def emitted_def)
qed

theorem kprintf_text_witness:
  "kprintf (format_of [Conv [] [] (Some [50]) 115, Lit 10]) [Va_string [104, 101, 121, 0]] [62] = Inr (3, [62, 104, 101, 10])"
proof -
  have a: "format_text [Conv [] [] (Some [50]) 115, Lit 10] [Va_string [104, 101, 121, 0]] = Some [104, 101, 10]"
    by code_simp
  have "signs_ok [Conv [] [] (Some [50]) 115, Lit 10] [Va_string [104, 101, 121, 0]]"
    by (simp add: sign_twice_def split: option.split)
  then show ?thesis using kprintf_text [OF _ a, of "[62]"] by (simp add: digits_ok_def flag_chars_def width_chars_def)
qed

lemma numeral_digits: "d \<in> set (numeral_of 10 n) \<Longrightarrow> d \<le> 9"
  by (induction "10 :: nat" n rule: numeral_of.induct) (subst (asm) (2) numeral_of.simps, auto split: if_splits)

lemma numeral_value: "foldl (\<lambda>v d. 10 * v + int d) 0 (numeral_of 10 n) = int n"
proof (induction "10 :: nat" n rule: numeral_of.induct)
  case (1 n)
  have "10 * int (n div 10) + int (n mod 10) = int n" by presburger
  with 1 show ?case by (subst numeral_of.simps) auto
qed

lemma numeral_nonempty: "numeral_of b n \<noteq> []"
  by (subst numeral_of.simps) simp

lemma decimal_ascii: "map (digit_char False) (numeral_of 10 n) = ascii (map int (numeral_of 10 n))"
proof -
  have "digit_char False d = word_of_int (int d + 48)" if "d \<le> 9" for d using that by (simp add: digit_char_def of_nat_add add.commute)
  then show ?thesis using numeral_digits [of _ n] by (simp add: ascii_def)
qed

text \<open>
  Property C37. A number that is printed with \<open>%d\<close> into a large enough buffer is read back by \<open>atoi\<close>,
  for every value of \<open>int\<close> but the smallest.
\<close>

theorem snprintf_atoi:
  assumes "12 \<le> sz" "sz \<le> int (length str)" "x \<noteq> 0x80000000"
  shows "\<exists>n str'. snprintf str sz (format_of [Conv [] [] None 100]) [Va_int x] = Inr (n, str') \<and> atoi str' = Inr (sint x)"
proof -
  define n where "n = nat \<bar>sint x\<bar>"
  define ds where "ds = map int (numeral_of 10 n)"
  define sg :: "byte list" where "sg = (if sint x < 0 then [45] else [])"
  have x: "- (2 ^ 31) \<le> sint x" "sint x < 2 ^ 31" using sint_ge [of x] sint_less [of x] by simp_all
  have "sint x \<noteq> sint (0x80000000 :: u32)" using assms(3) by (metis signed_word_eqI)
  then have "sint x \<noteq> - (2 ^ 31)" by simp
  with x have n: "n < 2 ^ 31" by (simp add: n_def)
  have t: "format_text [Conv [] [] None 100] [Va_int x] = Some (sg @ ascii ds)"
    by (simp add: conv_text_def signed_text_def padded_def decimal_ascii Let_def flip: n_def ds_def sg_def)
      (simp add: sg_def)
  have "length (numeral_of 10 n) \<le> 10" by (rule length_numeral) (use n in simp_all)
  then have l: "length (sg @ ascii ds) \<le> 11" by (simp add: ascii_def ds_def sg_def)
  have ok: "\<forall>d \<in> set [Conv [] [] None 100]. directive_ok d" by (simp add: digits_ok_def flag_chars_def width_chars_def)
  have tk: "take (nat (sz - 1)) (sg @ ascii ds) = sg @ ascii ds" using l assms(1) by (intro take_all) arith
  have "snprintf str sz (format_of [Conv [] [] None 100]) [Va_int x] =
    Inr (int (length (sg @ ascii ds)), splice 0 ((sg @ ascii ds) @ [0]) str)"
    using snprintf_writes [OF ok t _ _ assms(2), unfolded tk] l assms(1) by (simp add: sign_twice_def split: option.split)
  moreover have "atoi (splice 0 ((sg @ ascii ds) @ [0]) str) = Inr (sint x)"
  proof -
    have v: "digits_value ds = int n" using numeral_value [of n] by (simp add: digits_value_def foldl_map ds_def)
    have "\<forall>d \<in> set ds. 0 \<le> d \<and> d \<le> 9" using numeral_digits by (auto simp: ds_def)
    note av = atoi_value [OF this, of "[]" "drop (Suc (length sg + length ds)) str"]
    have "int n < 2 ^ 31" "ds \<noteq> []" using n numeral_nonempty [of 10 n] by (simp_all add: ds_def)
    with v av show ?thesis by (auto simp: splice_def sg_def n_def ascii_def)
  qed
  ultimately show ?thesis by blast
qed

theorem snprintf_atoi_witness:
  "\<exists>n str'. snprintf (replicate 12 0) 12 (format_of [Conv [] [] None 100]) [Va_int (-407)] = Inr (n, str') \<and> atoi str' = Inr (-407)"
  using snprintf_atoi [of 12 "replicate 12 0" "-407"] by simp

lemma modifiers_9:
  assumes "modifiers ch fmt flags width prec = Some r"
  shows "ch \<noteq> 57"
proof (rule modifiers.raw_induct [OF _ assms])
  fix g :: "byte \<Rightarrow> cstring \<Rightarrow> u32 \<Rightarrow> int \<Rightarrow> int \<Rightarrow> (byte \<times> cstring \<times> u32 \<times> int \<times> int) kresult option"
  fix ch fmt flags width prec and r :: "(byte \<times> cstring \<times> u32 \<times> int \<times> int) kresult"
  assume ih: "\<And>ch fmt flags width prec r. g ch fmt flags width prec = Some r \<Longrightarrow> ch \<noteq> 57"
  assume "(case read_modifier ch fmt flags width prec of Inl e \<Rightarrow> Some (Inl e)
    | Inr m \<Rightarrow> (case m of None \<Rightarrow> Some (Inr (ch, fmt, flags, width, prec))
      | Some (fmt, flags, width, prec) \<Rightarrow> (case fmt of [] \<Rightarrow> Some (Inl Fault)
        | ch # fmt \<Rightarrow> if ch \<noteq> 0 then g ch fmt flags width prec else Some (Inr (ch, fmt, flags, width, prec))))) = Some r"
  then show "ch \<noteq> 57" using ih [of 57 fmt flags 0 prec r] by (auto simp: read_modifier_def)
qed

text \<open>
  Property C38. A call returns whenever the format has no digit 9. A field width that starts with 9
  is never read past, and the call runs for ever.
\<close>

theorem printf_returns:
  "(57 \<notin> set fmt \<longrightarrow> vxnprintf sz fmt ap flags out \<noteq> Inl Hang) \<and>
   (0 < sz \<longrightarrow> vxnprintf sz (37 # 57 # s) ap flags out = Inl Hang)"
proof (intro conjI impI)
  have "printc c f o' \<noteq> Inl Hang" for c f o' by (simp add: printc_def rbind_eq_Inl wr_def)
  then show "vxnprintf sz fmt ap flags out \<noteq> Inl Hang" if "57 \<notin> set fmt"
    using that format_loop_returns [of fmt] by (auto simp: vxnprintf_def rbind_eq_Inl Let_def split: if_splits)
  have "modifiers 57 s f w p = None" for f w p by (cases "modifiers 57 s f w p") (auto dest: modifiers_9)
  then show "vxnprintf sz (37 # 57 # s) ap flags out = Inl Hang" if "0 < sz" using that by (simp add: vxnprintf_def)
qed

theorem printf_returns_witness:
  "vxnprintf 8 [37, 48, 56, 120, 0] [Va_int 7] 0 \<lparr>obuf = [1], bufp = 0, tty = []\<rparr> \<noteq> Inl Hang \<and>
   vxnprintf 8 [37, 57, 120, 0] [Va_int 7] 0 \<lparr>obuf = [1], bufp = 0, tty = []\<rparr> = Inl Hang"
  using printf_returns [of "[37, 48, 56, 120, 0]" 8 "[Va_int 7]" 0 "\<lparr>obuf = [1], bufp = 0, tty = []\<rparr>" "[120, 0]"] by simp

text \<open>
  Property C39. The sign of a negative number with the flag \<open>+\<close> is printed twice, and the second
  one is not counted against the size: two bytes behind the end of a buffer of one byte are written.
\<close>

theorem snprintf_sign_overflow:
  assumes "sint x < 0" "3 \<le> length str"
  shows "snprintf str 1 [37, 43, 100, 0] [Va_int x] = Inr (2, [45, 43, 0] @ drop 3 str)"
proof -
  obtain a b c r where str: "str = a # b # c # r" using assms(2) by (auto simp: numeral_3_eq_3 Suc_le_length_iff)
  have f: "\<not> has_flag 0 FLAG_TTY" "has_flag (0 OR FLAG_SIGN) FLAG_SIGN" "\<not> has_flag (0 OR FLAG_SIGN) FLAG_TTY" by (simp_all add: has_flag_def flag_defs)
  have m: "modifiers 43 [100, 0] (0 AND FLAG_TTY) (-1) (-1) = Some (Inr (100, [0], 0 OR FLAG_SIGN, -1, -1))"
    by (simp add: modifiers_step [of 43] modifiers_step [of 100] modifiers_at_def read_modifier_def)
  show ?thesis
    using assms(1) f m
    by (simp add: snprintf_def vxnprintf_def print_arg_def print_signed_def print_number_def print_uint_def putc_def printc_def str)
qed

theorem snprintf_sign_overflow_witness:
  "snprintf [1, 2, 3, 4] 1 [37, 43, 100, 0] [Va_int (-5)] = Inr (2, [45, 43, 0, 4])"
  using snprintf_sign_overflow [of "-5" "[1, 2, 3, 4]"] by simp

end
