(* ===== verification/Spec2Isabelle.thy ===== *)
theory Spec2Isabelle
  imports Tlb Proc_table Lockcond Vfs_calls Tfs_system Sfs_sync Sfs_defer Xprintf_calls
begin

text \<open>
  \<^bold>\<open>Verification of the kernel of the BUENOS operating system\<close>

  BUENOS is a kernel for a simulated MIPS multiprocessor (YAMS). This library models its data
  structures and operations as HOL functions over explicit states and proves what they promise.
  The version modelled is the one the repository builds, with the changes of the course phases
  (\<open>CHANGED_1\<close> to \<open>CHANGED_5\<close>, \<open>CHANGED_ADDITIONAL\<close>) switched on.

  \<^bold>\<open>The parts and how they use each other.\<close> The C library (\<open>lib/\<close>) has bitmaps and string
  routines. Memory is handed out by the permanent allocator (\<open>kernel/kmalloc.c\<close>) until the page pool
  (\<open>vm/pagepool.c\<close>, a bitmap) takes over; page tables (\<open>vm/vm.c\<close>) and mounted filesystems take their
  pages there. Threads (\<open>kernel/thread.c\<close>) live in one table that the scheduler's ready list, the
  sleep queue and the list of timed sleepers thread their links through; semaphores, locks and
  condition variables are built on the sleep queue. The disk driver (\<open>drivers/disk.c\<close>) queues
  requests, sleeps on semaphores and is woken by interrupts. The virtual filesystem (\<open>fs/vfs.c\<close>)
  calls filesystem drivers through a record of functions; the trivial filesystem (\<open>fs/tfs.c\<close>) and
  the student filesystem (\<open>fs/sfs.c\<close>) are two of them, on the block devices of the disk driver.

  \<^bold>\<open>Conventions.\<close> A C function is a HOL function from the state it uses to \<open>kresult\<close>, a sum:
  \<open>Inl Fault\<close> is an access outside an array, \<open>Inl Assert\<close> a failed \<open>KERNEL_ASSERT\<close>, \<open>Inl Panic\<close> a call of
  \<open>KERNEL_PANIC\<close>, \<open>Inl Hang\<close> a wait that cannot end; \<open>Inr\<close> carries the result and the new state.
  \<open>uint32_t\<close> is \<open>32 word\<close>; \<open>int\<close> is \<open>int\<close> with the wrap-around written out (\<open>swrap\<close>) where a sum can
  leave the range. A section under a spinlock with interrupts disabled is one step: in particular
  \<open>thread_sleep\<close> and the switch that follows it are two, between which other processors act. Loops are
  recursive functions with a termination proof; the walks along linked lists, which need not end in
  a corrupted table, are fuelled by the number of slots or by \<open>partial_function (option)\<close>, and it is
  proved that they return in every reachable state.

  \<^bold>\<open>Theories, code and what is shown.\<close>

  \<^item> \<open>Prelude\<close>: the result type, arrays with bounds (\<open>rd\<close>, \<open>wr\<close>), searches (\<open>scan\<close>), C integers and
    strings, and their laws.
  \<^item> \<open>Bitmap\<close> (\<open>lib/bitmap.c\<close>): the first free position is found and marked; locale \<open>bit_allocator\<close> for the
    users of bitmaps.
  \<^item> \<open>Libc\<close> (\<open>lib/libc.c\<close>): copies, comparison and numbers.
  \<^item> \<open>Xprintf\<close>, \<open>Xprintf_text\<close>, \<open>Xprintf_calls\<close> (\<open>lib/xprintf.c\<close>): the text of a format as a list of
    directives, and that it is what the code writes, cut to the size of the buffer; when a call returns.
  \<^item> \<open>Kmalloc\<close>, \<open>Pagepool\<close>, \<open>Vm\<close>, \<open>Tlb\<close> (\<open>kernel/kmalloc.c\<close>, \<open>vm/pagepool.c\<close>, \<open>vm/vm.c\<close>, \<open>vm/tlb.c\<close>): blocks are
    disjoint, a page is never handed out twice, the page table implements a map from pages to
    frames.
  \<^item> \<open>Threads\<close>, \<open>Chains\<close>, \<open>Scheduler\<close>, \<open>Sleepq\<close> hold the model of \<open>kernel/thread.c\<close>,
    \<open>kernel/scheduler.c\<close> and \<open>kernel/sleepq.c\<close>; \<open>Kthreads\<close>, \<open>Waiting\<close>, \<open>Sleep_queue\<close> the invariant and its
    preservation; \<open>Thread_system\<close> the step relation of the processors, its reachable states and the
    properties: the lists are consistent, every operation returns, the ready list is a queue by
    priority and the hash chains are first-in first-out queues. The first two hold for runs in which no
    idle processor reschedules while a thread whose wake-up time has passed is still on its processor
    (\<open>sleepers_away\<close>); the code does not enforce this, and \<open>sleep_race\<close> computes a run without it in which
    two processors run the same thread.
  \<^item> \<open>Semaphore\<close>, \<open>Lockcond\<close> (\<open>kernel/semaphore.c\<close>, \<open>kernel/lock_cond.c\<close>): conservation of permits,
    mutual exclusion, hand-over of locks, no lost wake-up, condition queues; over histories of
    interleaved calls.
  \<^item> \<open>Vfs\<close>, \<open>Vfs_calls\<close> (\<open>fs/vfs.c\<close>, \<open>fs/filesystems.c\<close>): tables, path names and every call; the
    invariant over histories and the number of pending operations.
  \<^item> \<open>Disk\<close> (\<open>drivers/disk.c\<close>, \<open>drivers/disksched.c\<close>): locale \<open>disk_hardware\<close> states what the driver relies
    on of the device, locale \<open>block_device\<close> what a filesystem relies on of the driver. The driver
    implements a first-come first-served queue, drains it, and blocking transfers are reads and
    writes of blocks. Both locales are interpreted on a model of the YAMS disk.
  \<^item> \<open>Blocks\<close>, \<open>Tfs\<close>, \<open>Tfs_volume\<close>, \<open>Tfs_calls\<close>, \<open>Tfs_update\<close>, \<open>Tfs_system\<close> (\<open>fs/tfs.c\<close>): byte encodings, the
    operations, the invariant of a volume, and the refinement of a map from names to contents, on
    any \<open>block_device\<close>.
  \<^item> \<open>Sfs_path\<close>, \<open>Sfs\<close> hold the model of \<open>fs/sfs.c\<close>: path names, the table of open files and every
    operation. \<open>Sfs_sync\<close> has the readers-writers protocol of an open file under interleaved calls.
    \<open>Sfs_tree\<close>, \<open>Sfs_resolve\<close>, \<open>Sfs_table\<close>, \<open>Sfs_delete\<close> state the invariant (a tree of folders whose nodes
    own disjoint blocks, consistent with the table); \<open>Sfs_calls\<close>, \<open>Sfs_remove\<close>, \<open>Sfs_data\<close>, \<open>Sfs_create\<close>
    give the effect of each operation on any \<open>block_device\<close>; \<open>Sfs_system\<close> the refinement of a tree of
    names over numbered files, \<open>Sfs_defer\<close> the deletion of files that are open.
  \<^item> \<open>Proc_table\<close> (\<open>proc/process.c\<close>, \<open>proc/syscall_handler_proc.c\<close>): the process table with the parts of
    \<open>exec\<close>, \<open>exit\<close> and \<open>join\<close> that work on it. Without \<open>join\<close> the children of a process are exactly its list,
    and its exit makes orphans of them; after a \<open>join\<close> the list is no longer right, and a history in which an exit runs
    for ever is given.

  \<^bold>\<open>Bounds.\<close> Table sizes and limits are those of \<open>kernel/config.h\<close> and the headers. The properties of
  the trivial filesystem are about names of 1 to 15 characters, and about files of at most 126
  blocks where removal is involved (a file of 127 blocks makes the removal loop read past its array).
  Texts of formats are shorter than 2 000 000 000 characters, and the numbers in a format have up to
  8 digits, none of them 0 or 9, which the code does not read; widths and precisions of numbers count
  as at most 11, and no negative number is printed with the flag \<open>+\<close> or space, where the code prints
  two signs and can leave the buffer. Files of the trivial filesystem are created with sizes outside
  -1022 to -1, which the code takes for 0 blocks.

  \<^bold>\<open>Simplifications.\<close> The disk is given buffers in memory, so its error for an invalid address does not
  occur. Reading one element past the array of an inode is \<open>Fault\<close>; on the machine it is the first word of the
  next buffer in the page of the driver. The contents of the volume buffer after a refused path are
  those before the call, which the code leaves unspecified. The counter of filesystem operations is
  unbounded. In \<open>Sfs_sync\<close> the file stays open during the calls: they end with their last section
  under the lock of the file. The tree that \<open>Sfs_system\<close> refines says nothing of the bytes of
  a folder listing, and allows a refused creation (\<open>sfs_create_exact\<close> says when one is refused).

  \<^bold>\<open>Not modelled.\<close> Console output, the assembly of the context switch, of spinlocks and of the TLB
  instructions, device registers other than the disk's, the start-up code, the host tool \<open>tfstool\<close>, the
  tests and the user programs. Planned next: the memory and the files of processes and the system calls (\<open>proc/\<close>),
  interrupt registration, terminals and the network.
\<close>

end
